(* ===== verification/Lora_Prelude.thy ===== *)
theory Lora_Prelude
  imports Main "HOL-Library.Word" "HOL-Library.Char_ord" "HOL-Library.List_Lexorder"
begin

text \<open>
  What every component of the development shares: the integer types of the Rust code, results
  (\<open>Result<T, E>\<close> is \<open>'e + 'a\<close> with \<open>Inl\<close> the error), writers that append bytes, readers that
  thread a cursor, little-endian byte images of machine words, UTF-8 strings, and sorted
  association lists (\<open>BTreeMap\<close>).

  A Rust \<open>String\<close> is a \<open>string\<close> whose characters are the bytes of its UTF-8 text; \<open>as_bytes\<close> and
  \<open>from_utf8\<close> convert. A \<open>usize\<close> is a \<open>nat\<close> below \<open>usize_limit\<close> (64-bit targets), and a slice
  is never longer than \<open>isize_max\<close> bytes, which Rust guarantees for every allocation. Floats are
  their IEEE bit patterns: the code modelled here only copies them.
\<close>

unbundle bit_operations_syntax

section \<open>Machine types\<close>

type_synonym u8 = "8 word"
type_synonym u16 = "16 word"
type_synonym u32 = "32 word"
type_synonym u64 = "64 word"
type_synonym i8 = "8 word"
type_synonym i16 = "16 word"
type_synonym i32 = "32 word"
type_synonym i64 = "64 word"
type_synonym f32 = "32 word"
type_synonym f64 = "64 word"

definition usize_limit :: nat where
  "usize_limit = 2 ^ 64"

definition isize_max :: nat where
  "isize_max = 2 ^ 63 - 1"

text \<open>\<open>usize::checked_add\<close>.\<close>

definition checked_add :: "nat \<Rightarrow> nat \<Rightarrow> nat option" where
  "checked_add a b = (if a + b < usize_limit then Some (a + b) else None)"

named_theorems parse_intro \<open>how a reader consumes the bytes a writer produced\<close>
named_theorems wf_simps \<open>well-formedness predicates of the modelled data\<close>

lemma isize_max_less_usize: "n \<le> isize_max \<Longrightarrow> n < usize_limit"
  by (simp add: isize_max_def usize_limit_def)

lemma unat_of_nat_usize: "n < usize_limit \<Longrightarrow> unat (of_nat n :: u64) = n"
  by (simp add: usize_limit_def unat_of_nat)

section \<open>Results and byte writers\<close>

definition ebind :: "'e + 'a \<Rightarrow> ('a \<Rightarrow> 'e + 'b) \<Rightarrow> 'e + 'b" where
  "ebind m f = (case m of Inl e \<Rightarrow> Inl e | Inr x \<Rightarrow> f x)"

lemma ebind_simps [simp]:
  "ebind (Inl e) f = Inl e"
  "ebind (Inr x) f = f x"
  by (simp_all add: ebind_def)

lemma ebind_eq_Inr [simp]: "ebind m f = Inr y \<longleftrightarrow> (\<exists>x. m = Inr x \<and> f x = Inr y)"
  by (cases m) auto

text \<open>
  A writer of the code appends to a buffer and may fail. It is modelled by the bytes it appends;
  \<open>wseq\<close> runs writers in order and keeps the first error, as the \<open>?\<close> operator does.
\<close>

fun wseq :: "('e + 'b list) list \<Rightarrow> 'e + 'b list" where
  "wseq [] = Inr []"
| "wseq (m # ms) = (case m of Inl e \<Rightarrow> Inl e
     | Inr bs \<Rightarrow> (case wseq ms of Inl e \<Rightarrow> Inl e | Inr cs \<Rightarrow> Inr (bs @ cs)))"

lemma wseq_Cons_Inr [simp]:
  "wseq (m # ms) = Inr out \<longleftrightarrow> (\<exists>a b. m = Inr a \<and> wseq ms = Inr b \<and> out = a @ b)"
  by (auto split: sum.splits)

lemma wseq_Nil_Inr [simp]: "wseq [] = Inr out \<longleftrightarrow> out = []"
  by auto

declare wseq.simps [simp del]

lemma wseq_eval [simp]:
  "wseq [] = Inr []"
  "wseq (Inl e # ms) = Inl e"
  "wseq (Inr a # ms) = map_sum id ((@) a) (wseq ms)"
  by (auto simp: wseq.simps split: sum.splits)

lemma wseq_single [simp]: "wseq [m] = m"
  by (cases m) (auto simp: wseq.simps)

lemma map_sum_eq_Inr [simp]: "map_sum f g m = Inr y \<longleftrightarrow> (\<exists>x. m = Inr x \<and> y = g x)"
  by (cases m) auto

lemma map_sum_eq_Inl [simp]: "map_sum f g m = Inl y \<longleftrightarrow> (\<exists>x. m = Inl x \<and> y = f x)"
  by (cases m) auto

lemma wseq_append_Inr:
  "wseq (ms @ ns) = Inr out \<longleftrightarrow> (\<exists>a b. wseq ms = Inr a \<and> wseq ns = Inr b \<and> out = a @ b)"
  by (induction ms arbitrary: out) fastforce+

lemma wseq_length_ge:
  assumes "wseq ms = Inr out" and "\<And>m bs. m \<in> set ms \<Longrightarrow> m = Inr bs \<Longrightarrow> k \<le> length bs"
  shows "length ms * k \<le> length out"
  using assms
proof (induction ms arbitrary: out)
  case Nil
  then show ?case by simp
next
  case (Cons m ms)
  then obtain a b where m: "m = Inr a" and b: "wseq ms = Inr b" and out: "out = a @ b"
    by auto
  from b have "length ms * k \<le> length b"
    by (rule Cons.IH) (use Cons.prems(2) in auto)
  moreover have "k \<le> length a" using Cons.prems(2) m by auto
  ultimately show ?case using out by simp
qed

lemma wseq_map_length:
  assumes "wseq (map w xs) = Inr out" and "\<And>x b. x \<in> set xs \<Longrightarrow> w x = Inr b \<Longrightarrow> 0 < length b"
  shows "length xs \<le> length out"
  using wseq_length_ge [OF assms(1), of 1] assms(2) by (force simp: Suc_le_eq)

lemma wseq_Inr_iff: "(\<exists>bs. wseq ms = Inr bs) \<longleftrightarrow> (\<forall>m \<in> set ms. \<exists>b. m = Inr b)"
  by (induction ms) auto

lemma wseq_Inl: "wseq ms = Inl e \<Longrightarrow> Inl e \<in> set ms"
proof (induction ms)
  case (Cons m ms)
  then show ?case by (cases m) auto
qed simp

section \<open>Readers\<close>

text \<open>
  A reader of the code is a method on \<open>&mut self\<close> that returns a \<open>Result\<close>: a function from the
  cursor to an error or a value and the advanced cursor. After an error the cursor is dropped, so
  the error carries none. \<open>rmany n m\<close> is the loop \<open>for _ in 0..n { push(m()?) }\<close>.
\<close>

definition rret :: "'a \<Rightarrow> 's \<Rightarrow> 'e + 'a \<times> 's" where
  "rret x = (\<lambda>r. Inr (x, r))"

definition rfail :: "'e \<Rightarrow> 's \<Rightarrow> 'e + 'a \<times> 's" where
  "rfail e = (\<lambda>r. Inl e)"

definition rbind :: "('s \<Rightarrow> 'e + 'a \<times> 's) \<Rightarrow> ('a \<Rightarrow> 's \<Rightarrow> 'e + 'b \<times> 's) \<Rightarrow> 's \<Rightarrow> 'e + 'b \<times> 's" where
  "rbind m f = (\<lambda>r. case m r of Inl e \<Rightarrow> Inl e | Inr (x, r') \<Rightarrow> f x r')"

definition rmap :: "('a \<Rightarrow> 'b) \<Rightarrow> ('s \<Rightarrow> 'e + 'a \<times> 's) \<Rightarrow> 's \<Rightarrow> 'e + 'b \<times> 's" where
  "rmap f m = rbind m (\<lambda>x. rret (f x))"

fun rmany :: "nat \<Rightarrow> ('s \<Rightarrow> 'e + 'a \<times> 's) \<Rightarrow> 's \<Rightarrow> 'e + 'a list \<times> 's" where
  "rmany 0 m = rret []"
| "rmany (Suc n) m = rbind m (\<lambda>x. rbind (rmany n m) (\<lambda>xs. rret (x # xs)))"

declare rmany.simps [simp del]

lemma rmany_0 [simp]: "rmany 0 m = rret []"
  by (fact rmany.simps)

lemma rmany_Suc [simp]:
  "rmany (Suc n) m = rbind m (\<lambda>x. rbind (rmany n m) (\<lambda>xs. rret (x # xs)))"
  by (fact rmany.simps)

lemma rret_apply [simp]: "rret x r = Inr (x, r)"
  by (simp add: rret_def)

lemma rfail_apply [simp]: "rfail e r = Inl e"
  by (simp add: rfail_def)

lemma rbind_eq_Inr [simp]:
  "rbind m f r = Inr p \<longleftrightarrow> (\<exists>x r'. m r = Inr (x, r') \<and> f x r' = Inr p)"
  by (auto simp: rbind_def split: sum.splits)

lemma rbind_Inl: "m r = Inl e \<Longrightarrow> rbind m f r = Inl e"
  by (simp add: rbind_def)

lemma rbind_Inr: "m r = Inr (x, r') \<Longrightarrow> rbind m f r = f x r'"
  by (simp add: rbind_def)

lemma rbind_rret [simp]: "rbind (rret x) f = f x"
  by (rule ext) (simp add: rbind_def)

lemma rbind_rfail [simp]: "rbind (rfail e) f = rfail e"
  by (rule ext) (simp add: rbind_def)

lemma rbind_assoc: "rbind (rbind m f) g = rbind m (\<lambda>x. rbind (f x) g)"
  by (rule ext) (auto simp: rbind_def split: sum.splits)

lemma rmany_numeral [simp]:
  "rmany (numeral v) m =
    rbind m (\<lambda>x. rbind (rmany (pred_numeral v) m) (\<lambda>xs. rret (x # xs)))"
  by (simp add: numeral_eq_Suc)

lemma rmany_length: "rmany n m r = Inr (xs, r') \<Longrightarrow> length xs = n"
  by (induction n arbitrary: r xs r') auto

text \<open>Dropping the results of a loop is a loop that drops each result.\<close>

lemma rmap_unit_rmany:
  "rbind (rmany n m) (\<lambda>_. f) = rbind (rmany n (rmap (\<lambda>_. ()) m)) (\<lambda>_. f)"
proof (induction n arbitrary: f)
  case 0
  show ?case by (rule ext) (simp add: rbind_def)
next
  case (Suc n)
  show ?case using Suc.IH [of f] by (simp add: rmap_def rbind_assoc)
qed

text \<open>
  \<open>delivers S P m\<close>: from a cursor in \<open>S\<close>, whatever value \<open>m\<close> returns satisfies \<open>P\<close> and the cursor
  is in \<open>S\<close> again.
\<close>

definition delivers :: "('s \<Rightarrow> bool) \<Rightarrow> ('a \<Rightarrow> bool) \<Rightarrow> ('s \<Rightarrow> 'e + 'a \<times> 's) \<Rightarrow> bool" where
  "delivers S P m \<longleftrightarrow> (\<forall>r x r'. S r \<longrightarrow> m r = Inr (x, r') \<longrightarrow> P x \<and> S r')"

named_theorems deliver_intro \<open>what a reader returns\<close>

lemma deliversD: "delivers S P m \<Longrightarrow> S r \<Longrightarrow> m r = Inr (x, r') \<Longrightarrow> P x \<and> S r'"
  by (auto simp: delivers_def)

lemma delivers_weaken: "delivers S P m \<Longrightarrow> (\<And>x. P x \<Longrightarrow> Q x) \<Longrightarrow> delivers S Q m"
  by (auto simp: delivers_def)

lemma delivers_rret: "P x \<Longrightarrow> delivers S P (rret x)"
  by (simp add: delivers_def)

lemma delivers_rfail [deliver_intro]: "delivers S P (rfail e)"
  by (simp add: delivers_def)

lemma delivers_rbind:
  "delivers S P m \<Longrightarrow> (\<And>x. P x \<Longrightarrow> delivers S Q (f x)) \<Longrightarrow> delivers S Q (rbind m f)"
  unfolding delivers_def rbind_eq_Inr by meson

lemma delivers_rmap: "delivers S P m \<Longrightarrow> (\<And>x. P x \<Longrightarrow> Q (g x)) \<Longrightarrow> delivers S Q (rmap g m)"
  unfolding rmap_def by (erule delivers_rbind) (rule delivers_rret)

lemma delivers_rmany:
  assumes "delivers S P m"
  shows "delivers S (list_all P) (rmany n m)"
proof (induction n)
  case 0
  show ?case unfolding rmany_0 by (rule delivers_rret) simp
next
  case (Suc n)
  show ?case unfolding rmany_Suc
    by (rule delivers_rbind [OF assms], rule delivers_rbind [OF Suc], rule delivers_rret) simp
qed

lemma delivers_guard:
  "delivers S P m \<Longrightarrow> delivers S P (\<lambda>r. if b r then Inl e else m r)"
  by (auto simp: delivers_def)

lemma delivers_True_rmany: "delivers S (\<lambda>_. True) m \<Longrightarrow> delivers S (\<lambda>_. True) (rmany n m)"
  by (rule delivers_weaken [OF delivers_rmany]) simp_all

lemma delivers_if [deliver_intro]:
  "(b \<Longrightarrow> delivers S P m) \<Longrightarrow> (\<not> b \<Longrightarrow> delivers S P k) \<Longrightarrow> delivers S P (if b then m else k)"
  by simp

end
