(* ===== verification/Byte_Format.thy ===== *)
theory Byte_Format
  imports Lora_Prelude
begin

text \<open>
  The byte-level standard-library operations the codecs use (\<open>to_le_bytes\<close>/\<open>from_le_bytes\<close>,
  \<open>str::as_bytes\<close>, \<open>str::from_utf8\<close>), the sorted maps they write (\<open>BTreeMap\<close>), the cursor every
  decoder of the workspace advances, and the interface \<open>byte_reader\<close>: what it means that a reader
  consumes exactly the bytes a writer produced, proved once for every codec.
\<close>

section \<open>Little-endian images of machine words\<close>

definition to_le_bytes :: "'a::len word \<Rightarrow> u8 list" where
  "to_le_bytes w = map (\<lambda>i. ucast (drop_bit (8 * i) w)) [0..<LENGTH('a) div 8]"

fun from_le_bytes :: "u8 list \<Rightarrow> 'a::len word" where
  "from_le_bytes [] = 0"
| "from_le_bytes (b # bs) = ucast b OR push_bit 8 (from_le_bytes bs)"

lemma length_to_le_bytes [simp]: "length (to_le_bytes (w :: 'a::len word)) = LENGTH('a) div 8"
  by (simp add: to_le_bytes_def)

lemma bit_from_le_bytes:
  "bit (from_le_bytes bs :: 'a::len word) n \<longleftrightarrow>
     n < LENGTH('a) \<and> n div 8 < length bs \<and> bit (bs ! (n div 8)) (n mod 8)"
proof (induction bs arbitrary: n)
  case Nil
  show ?case by simp
next
  case (Cons b bs)
  show ?case
  proof (cases "n < 8")
    case True
    then show ?thesis by (auto simp: bit_or_iff bit_push_bit_iff bit_ucast_iff)
  next
    case False
    then have "n div 8 = Suc ((n - 8) div 8)" and "n mod 8 = (n - 8) mod 8"
      by (simp_all add: le_div_geq le_mod_geq)
    moreover have "\<not> bit b n" using False by (auto dest: bit_imp_le_length)
    ultimately show ?thesis
      using False by (auto simp: bit_or_iff bit_push_bit_iff bit_ucast_iff Cons.IH)
  qed
qed

lemma from_to_le_bytes:
  assumes "8 dvd LENGTH('a::len)"
  shows "from_le_bytes (to_le_bytes w) = (w :: 'a word)"
proof (rule bit_word_eqI)
  fix n assume n: "n < LENGTH('a)"
  then have d: "n div 8 < LENGTH('a) div 8" using assms by (auto elim!: dvdE)
  have "8 * (n div 8) + n mod 8 = n" by simp
  then have "bit (ucast (drop_bit (8 * (n div 8)) w) :: u8) (n mod 8) = bit w n"
    by (simp add: bit_ucast_iff bit_drop_bit_eq)
  with n d show "bit (from_le_bytes (to_le_bytes w) :: 'a word) n = bit w n"
    by (simp add: bit_from_le_bytes to_le_bytes_def)
qed

lemma from_to_le_bytes_widths [simp]:
  "from_le_bytes (to_le_bytes (w8 :: 8 word)) = w8"
  "from_le_bytes (to_le_bytes (w16 :: 16 word)) = w16"
  "from_le_bytes (to_le_bytes (w32 :: 32 word)) = w32"
  "from_le_bytes (to_le_bytes (w64 :: 64 word)) = w64"
  by (simp_all add: from_to_le_bytes)

section \<open>UTF-8 strings\<close>

definition byte_of_char :: "char \<Rightarrow> u8" where
  "byte_of_char c = word_of_nat (of_char c)"

definition char_of_byte :: "u8 \<Rightarrow> char" where
  "char_of_byte b = char_of (unat b)"

lemma char_of_byte_of_char [simp]: "char_of_byte (byte_of_char c) = c"
  by (simp add: char_of_byte_def byte_of_char_def unat_of_nat)

lemma byte_of_char_of_byte [simp]: "byte_of_char (char_of_byte b) = b"
proof -
  have "unat b < 256" using unsigned_less [of b] by simp
  then show ?thesis by (simp add: char_of_byte_def byte_of_char_def)
qed

definition as_bytes :: "string \<Rightarrow> u8 list" where
  "as_bytes s = map byte_of_char s"

definition utf8_cont :: "u8 \<Rightarrow> bool" where
  "utf8_cont b \<longleftrightarrow> 0x80 \<le> b \<and> b \<le> 0xBF"

text \<open>
  The byte sequences \<open>str::from_utf8\<close> accepts: the well-formed sequences of the Unicode standard
  (no overlong forms, no surrogates, nothing above U+10FFFF).
\<close>

fun utf8_valid :: "u8 list \<Rightarrow> bool" where
  "utf8_valid [] = True"
| "utf8_valid (a # rest) =
     (if a < 0x80 then utf8_valid rest
      else if 0xC2 \<le> a \<and> a \<le> 0xDF then
        (case rest of b # bs \<Rightarrow> utf8_cont b \<and> utf8_valid bs | _ \<Rightarrow> False)
      else if 0xE0 \<le> a \<and> a \<le> 0xEF then
        (case rest of b # c # bs \<Rightarrow>
           (if a = 0xE0 then 0xA0 else 0x80) \<le> b \<and> b \<le> (if a = 0xED then 0x9F else 0xBF)
           \<and> utf8_cont c \<and> utf8_valid bs
         | _ \<Rightarrow> False)
      else if 0xF0 \<le> a \<and> a \<le> 0xF4 then
        (case rest of b # c # d # bs \<Rightarrow>
           (if a = 0xF0 then 0x90 else 0x80) \<le> b \<and> b \<le> (if a = 0xF4 then 0x8F else 0xBF)
           \<and> utf8_cont c \<and> utf8_cont d \<and> utf8_valid bs
         | _ \<Rightarrow> False)
      else False)"

definition from_utf8 :: "u8 list \<Rightarrow> string option" where
  "from_utf8 bs = (if utf8_valid bs then Some (map char_of_byte bs) else None)"

text \<open>Every Rust \<open>String\<close> holds valid UTF-8.\<close>

definition wf_str :: "string \<Rightarrow> bool" where
  "wf_str s \<longleftrightarrow> utf8_valid (as_bytes s)"

lemma length_as_bytes [simp]: "length (as_bytes s) = length s"
  by (simp add: as_bytes_def)

lemma from_utf8_as_bytes [simp]: "wf_str s \<Longrightarrow> from_utf8 (as_bytes s) = Some s"
  by (simp add: wf_str_def from_utf8_def as_bytes_def comp_def)

lemma from_utf8_wf: "from_utf8 bs = Some s \<Longrightarrow> wf_str s \<and> as_bytes s = bs"
  by (auto simp: from_utf8_def wf_str_def as_bytes_def comp_def split: if_splits)

lemma from_utf8_isSome: "from_utf8 bs = None \<longleftrightarrow> \<not> utf8_valid bs"
  by (simp add: from_utf8_def)

section \<open>Sorted maps\<close>

text \<open>
  A \<open>BTreeMap<K, V>\<close> is the list of its entries in ascending key order. \<open>btree_insert\<close> replaces the
  value of a key that is present and otherwise inserts at the key's place.
\<close>

fun btree_insert :: "'k::linorder \<Rightarrow> 'v \<Rightarrow> ('k \<times> 'v) list \<Rightarrow> ('k \<times> 'v) list" where
  "btree_insert k v [] = [(k, v)]"
| "btree_insert k v ((a, b) # m) =
     (if k < a then (k, v) # (a, b) # m
      else if k = a then (k, v) # m
      else (a, b) # btree_insert k v m)"

fun btree_remove :: "'k::linorder \<Rightarrow> ('k \<times> 'v) list \<Rightarrow> ('k \<times> 'v) list" where
  "btree_remove k [] = []"
| "btree_remove k ((a, b) # m) = (if k = a then m else (a, b) # btree_remove k m)"

definition btree_of :: "('k::linorder \<times> 'v) list \<Rightarrow> ('k \<times> 'v) list" where
  "btree_of kvs = fold (\<lambda>(k, v). btree_insert k v) kvs []"

abbreviation sorted_keys :: "('k::linorder \<times> 'v) list \<Rightarrow> bool" where
  "sorted_keys m \<equiv> sorted_wrt (<) (map fst m)"

lemma sorted_keys_distinct: "sorted_keys m \<Longrightarrow> distinct (map fst m)"
  by (simp add: strict_sorted_iff)

lemma map_of_btree_insert [simp]: "map_of (btree_insert k v m) = (map_of m)(k \<mapsto> v)"
  by (induction m) (auto simp: fun_eq_iff)

lemma set_btree_insert_keys: "fst ` set (btree_insert k v m) = insert k (fst ` set m)"
proof (induction m)
  case Nil
  show ?case by simp
next
  case (Cons p m)
  then show ?case by (cases p) (simp add: insert_commute split: if_split)
qed

lemma sorted_keys_btree_insert: "sorted_keys m \<Longrightarrow> sorted_keys (btree_insert k v m)"
proof (induction m)
  case Nil
  show ?case by simp
next
  case (Cons p m)
  obtain a b where p: "p = (a, b)" by (cases p)
  have "x \<in> set (btree_insert k v m) \<Longrightarrow> fst x = k \<or> fst x \<in> fst ` set m" for x
    using set_btree_insert_keys [of k v m] by (metis imageI insertE)
  with Cons p show ?case by fastforce
qed

lemma btree_insert_last:
  "(\<And>x. x \<in> fst ` set m \<Longrightarrow> x < k) \<Longrightarrow> btree_insert k v m = m @ [(k, v)]"
proof (induction m)
  case Nil
  show ?case by simp
next
  case (Cons p m)
  obtain a b where p: "p = (a, b)" by (cases p)
  with Cons.prems have "a < k" by simp
  moreover have "btree_insert k v m = m @ [(k, v)]" using Cons.prems by (intro Cons.IH) auto
  ultimately show ?case using p by auto
qed

text \<open>Inserting entries that come in key order appends each: decoding rebuilds the map it read.\<close>

lemma fold_btree_insert_sorted:
  "sorted_keys (m @ kvs) \<Longrightarrow> fold (\<lambda>(k, v). btree_insert k v) kvs m = m @ kvs"
proof (induction kvs arbitrary: m)
  case Nil
  show ?case by simp
next
  case (Cons p kvs)
  obtain k v where p: "p = (k, v)" by (cases p)
  have "btree_insert k v m = m @ [(k, v)]"
    using Cons.prems p by (intro btree_insert_last) (auto simp: sorted_wrt_append)
  with Cons.IH [of "m @ [(k, v)]"] Cons.prems p show ?case by simp
qed

lemma btree_of_sorted [simp]: "sorted_keys kvs \<Longrightarrow> btree_of kvs = kvs"
  using fold_btree_insert_sorted [of "[]" kvs] by (simp add: btree_of_def)

lemma sorted_keys_btree_of: "sorted_keys (btree_of kvs)"
proof -
  have "sorted_keys m \<Longrightarrow> sorted_keys (fold (\<lambda>(k, v). btree_insert k v) kvs m)" for m
    by (induction kvs arbitrary: m) (auto intro: sorted_keys_btree_insert)
  then show ?thesis by (simp add: btree_of_def)
qed

lemma set_btree_insert: "set (btree_insert k v m) \<subseteq> insert (k, v) (set m)"
  by (induction k v m rule: btree_insert.induct) auto

lemma set_btree_of: "set (btree_of kvs) \<subseteq> set kvs"
proof -
  have "set (fold (\<lambda>(k, v). btree_insert k v) kvs m) \<subseteq> set kvs \<union> set m" for m
  proof (induction kvs arbitrary: m)
    case (Cons p kvs)
    show ?case using Cons.IH [of "btree_insert (fst p) (snd p) m"]
        set_btree_insert [of "fst p" "snd p" m] by (auto simp: case_prod_beta)
  qed simp
  from this [of "[]"] show ?thesis by (simp add: btree_of_def)
qed

end
