(* ===== verification/Byte_Reader.thy ===== *)
theory Byte_Reader
  imports Byte_Format
begin

text \<open>
  The decoding cursor both codecs of the workspace use (\<open>Reader\<close> in
  \<open>crates/lora-store/src/codec.rs\<close>, \<open>PayloadReader\<close> in \<open>crates/lora-wal/src/codec/decode.rs\<close>) and
  two interfaces over it. \<open>byte_reader\<close> is a cursor with a bounded nesting depth: its lemmas say
  how the code's reading idioms (sequences, counted loops, nested containers) compose. \<open>codec\<close>
  extends it with a writer and a reader of one element that agree, and lifts them to vectors.
\<close>

text \<open>The fields of \<open>PayloadReader\<close>; the store's \<open>Reader\<close> adds \<open>max_depth\<close>.\<close>

record cursor =
  rd_bytes :: "u8 list"
  rd_offset :: nat
  rd_depth :: nat

definition advance :: "nat \<Rightarrow> 'z cursor_scheme \<Rightarrow> 'z cursor_scheme" where
  "advance n r = r\<lparr>rd_offset := rd_offset r + n\<rparr>"

definition input :: "'z cursor_scheme \<Rightarrow> u8 list" where
  "input r = drop (rd_offset r) (rd_bytes r)"

definition in_bounds :: "'z cursor_scheme \<Rightarrow> bool" where
  "in_bounds r \<longleftrightarrow> rd_offset r \<le> length (rd_bytes r) \<and> length (rd_bytes r) \<le> isize_max"

text \<open>\<open>self.depth -= 1\<close>, on leaving a list or map.\<close>

definition leave :: "'z cursor_scheme \<Rightarrow> 'e + unit \<times> 'z cursor_scheme" where
  "leave r = Inr ((), r\<lparr>rd_depth := rd_depth r - 1\<rparr>)"

text \<open>\<open>self.bytes.len().saturating_sub(self.offset)\<close>.\<close>

definition remaining :: "'z cursor_scheme \<Rightarrow> nat" where
  "remaining r = length (rd_bytes r) - rd_offset r"

lemma advance_0 [simp]: "advance 0 r = r"
  by (simp add: advance_def)

lemma advance_advance [simp]: "advance n (advance m r) = advance (m + n) r"
  by (simp add: advance_def add.assoc)

lemma rd_fields_advance [simp]:
  "rd_bytes (advance n r) = rd_bytes r"
  "rd_offset (advance n r) = rd_offset r + n"
  "rd_depth (advance n r) = rd_depth r"
  by (simp_all add: advance_def)

lemma input_advance: "input r = bs @ rest \<Longrightarrow> input (advance (length bs) r) = rest"
  by (simp add: input_def) (metis add.commute append_eq_conv_conj drop_drop)

lemma in_bounds_advance:
  assumes "in_bounds r" and "input r = bs @ rest"
  shows "in_bounds (advance (length bs) r)"
proof -
  have "length (input r) = length bs + length rest" using assms(2) by simp
  with assms(1) show ?thesis by (auto simp: in_bounds_def input_def)
qed

lemma input_depth [simp]: "input (r\<lparr>rd_depth := d\<rparr>) = input r"
  by (simp add: input_def)

lemma in_bounds_depth [simp]: "in_bounds (r\<lparr>rd_depth := d\<rparr>) = in_bounds r"
  by (simp add: in_bounds_def)

lemma input_length: "input r = bs \<Longrightarrow> remaining r = length bs"
  by (auto simp: input_def remaining_def)

section \<open>Recursion bounds\<close>

text \<open>
  A recursive reader of the code is modelled with a recursion bound. \<open>agree e n m m'\<close>: on every
  cursor with at most \<open>n\<close> bytes left the two readers do the same, neither gives the model's error
  \<open>e\<close>, and neither moves the cursor back. It is how a bound is shown to be large enough: readers
  that agree with themselves compose, and reading a tag byte leaves one byte less.
\<close>

definition agree :: "'e \<Rightarrow> nat \<Rightarrow> ('z cursor_scheme \<Rightarrow> 'e + 'a \<times> 'z cursor_scheme) \<Rightarrow>
    ('z cursor_scheme \<Rightarrow> 'e + 'a \<times> 'z cursor_scheme) \<Rightarrow> bool" where
  "agree e n m m' \<longleftrightarrow> (\<forall>r. remaining r \<le> n \<longrightarrow> m r = m' r \<and> m r \<noteq> Inl e \<and>
     (\<forall>x r'. m r = Inr (x, r') \<longrightarrow> remaining r' \<le> remaining r))"

named_theorems agree_intro \<open>readers that do not depend on a recursion bound\<close>

lemma agreeD:
  assumes "agree e n m m'" and "remaining r \<le> n"
  shows "m r = m' r" and "m r \<noteq> Inl e"
  using assms by (auto simp: agree_def)

lemma agree_mono: "agree e n m m' \<Longrightarrow> k \<le> n \<Longrightarrow> agree e k m m'"
  unfolding agree_def by (meson order_trans)

lemma agree_rret [agree_intro]: "agree e n (rret x) (rret x)"
  by (simp add: agree_def)

lemma agree_rfail [agree_intro]: "d \<noteq> e \<Longrightarrow> agree e n (rfail d) (rfail d)"
  by (simp add: agree_def)

lemma agree_leave [agree_intro]: "agree e n leave leave"
  by (auto simp: agree_def leave_def remaining_def)

lemma agree_rbind [agree_intro]:
  assumes m: "agree e n (m :: 'z cursor_scheme \<Rightarrow> _) m'" and f: "\<And>x. agree e n (f x) (f' x)"
  shows "agree e n (rbind m f) (rbind m' f')"
  unfolding agree_def
proof (intro allI impI)
  fix r :: "'z cursor_scheme"
  assume r: "remaining r \<le> n"
  note m' = m [unfolded agree_def, rule_format, OF r]
  show "rbind m f r = rbind m' f' r \<and> rbind m f r \<noteq> Inl e \<and>
    (\<forall>x r'. rbind m f r = Inr (x, r') \<longrightarrow> remaining r' \<le> remaining r)"
  proof (cases "m r")
    case (Inl d)
    with m' show ?thesis by (auto simp: rbind_def split: sum.splits)
  next
    case (Inr p)
    obtain x r' where p: "p = (x, r')" by (cases p)
    with Inr m' have "m' r = Inr (x, r')" and le: "remaining r' \<le> remaining r" by auto
    with Inr p f [of x, unfolded agree_def, rule_format, of r'] r show ?thesis
      by (auto simp: rbind_Inr)
  qed
qed

lemma agree_rmap [agree_intro]: "agree e n m m' \<Longrightarrow> agree e n (rmap g m) (rmap g m')"
  unfolding rmap_def by (intro agree_intro)

lemma agree_rmany [agree_intro]: "agree e n m m' \<Longrightarrow> agree e n (rmany k m) (rmany k m')"
  by (induction k) (simp_all add: agree_intro)

lemma agree_guard [agree_intro]:
  "agree e n m m' \<Longrightarrow> d \<noteq> e \<Longrightarrow>
   agree e n (\<lambda>r. if b r then Inl d else m r) (\<lambda>r. if b r then Inl d else m' r)"
  by (auto simp: agree_def)

lemma agree_check [agree_intro]:
  "d \<noteq> e \<Longrightarrow> agree e n (\<lambda>r. if b r then Inl d else Inr (x, r)) (\<lambda>r. if b r then Inl d else Inr (x, r))"
  by (auto simp: agree_def)

lemma agree_if [agree_intro]:
  "agree e n m m' \<Longrightarrow> agree e n k k' \<Longrightarrow> agree e n (if b then m else k) (if b then m' else k')"
  by simp

lemma agree_option [agree_intro]:
  "agree e n m m' \<Longrightarrow> (\<And>x. agree e n (f x) (f' x)) \<Longrightarrow>
   agree e n (case z of None \<Rightarrow> m | Some x \<Rightarrow> f x) (case z of None \<Rightarrow> m' | Some x \<Rightarrow> f' x)"
  by (cases z) auto

section \<open>The reader interface\<close>

text \<open>
  \<open>room k r\<close>: the cursor may still open \<open>k\<close> nested lists or maps. \<open>enter\<close> opens one and
  \<open>read_exact\<close> takes bytes. \<open>parses k m bs x\<close>: with room for \<open>k\<close> levels, wherever the input starts
  with \<open>bs\<close>, \<open>m\<close> returns \<open>x\<close> and advances past \<open>bs\<close>, leaving the cursor otherwise unchanged.
\<close>

locale byte_reader =
  fixes room :: "nat \<Rightarrow> 'z cursor_scheme \<Rightarrow> bool"
    and enter :: "'z cursor_scheme \<Rightarrow> 'e + unit \<times> 'z cursor_scheme"
    and read_exact :: "nat \<Rightarrow> 'z cursor_scheme \<Rightarrow> 'e + u8 list \<times> 'z cursor_scheme"
  assumes room_advance: "room k (advance n r) = room k r"
    and room_le: "room k r \<Longrightarrow> j \<le> k \<Longrightarrow> room j r"
    and enter_room: "room (Suc k) r \<Longrightarrow> enter r = Inr ((), r\<lparr>rd_depth := Suc (rd_depth r)\<rparr>)"
    and room_enter: "room (Suc k) r \<Longrightarrow> room k (r\<lparr>rd_depth := Suc (rd_depth r)\<rparr>)"
    and exact: "in_bounds r \<Longrightarrow> input r = bs @ rest \<Longrightarrow>
      read_exact (length bs) r = Inr (bs, advance (length bs) r)"
begin

definition parses ::
  "nat \<Rightarrow> ('z cursor_scheme \<Rightarrow> 'e + 'a \<times> 'z cursor_scheme) \<Rightarrow> u8 list \<Rightarrow> 'a \<Rightarrow> bool" where
  "parses k m bs x \<longleftrightarrow> (\<forall>r rest. room k r \<longrightarrow> in_bounds r \<longrightarrow> input r = bs @ rest \<longrightarrow>
     m r = Inr (x, advance (length bs) r))"

lemma parsesI:
  "(\<And>r rest. room k r \<Longrightarrow> in_bounds r \<Longrightarrow> input r = bs @ rest \<Longrightarrow>
     m r = Inr (x, advance (length bs) r)) \<Longrightarrow> parses k m bs x"
  by (simp add: parses_def)

lemma parsesD:
  "parses k m bs x \<Longrightarrow> room k r \<Longrightarrow> in_bounds r \<Longrightarrow> input r = bs @ rest \<Longrightarrow>
     m r = Inr (x, advance (length bs) r)"
  by (simp add: parses_def)

lemma parses_mono: "parses j m bs x \<Longrightarrow> j \<le> k \<Longrightarrow> parses k m bs x"
  by (auto simp: parses_def intro: room_le)

lemma parses_ret: "parses k (rret x) [] x"
  by (rule parsesI) simp

lemma parses_bind:
  assumes "parses k m bs x" and "parses k (f x) cs y"
  shows "parses k (rbind m f) (bs @ cs) y"
proof (rule parsesI)
  fix r rest
  assume r: "room k r" "in_bounds r" "input r = (bs @ cs) @ rest"
  then have m: "m r = Inr (x, advance (length bs) r)"
    using parsesD [OF assms(1)] by simp
  have "f x (advance (length bs) r) = Inr (y, advance (length cs) (advance (length bs) r))"
    using r by (intro parsesD [OF assms(2)])
      (auto simp: room_advance intro: in_bounds_advance input_advance)
  with m show "rbind m f r = Inr (y, advance (length (bs @ cs)) r)"
    by (simp add: rbind_Inr)
qed

text \<open>The last step of a sequence: its bytes need no empty suffix.\<close>

lemma parses_bind_ret:
  assumes "parses k m bs x" and "y = g x"
  shows "parses k (rbind m (\<lambda>x. rret (g x))) bs y"
  using parses_bind [OF assms(1), of "\<lambda>x. rret (g x)" "[]" y] assms(2)
  by (simp add: parses_ret)

lemma parses_bind_end:
  assumes "parses k m bs x" and "f x = rret y"
  shows "parses k (rbind m f) bs y"
proof -
  have "parses k (f x) [] y" unfolding assms(2) by (rule parses_ret)
  then have "parses k (rbind m f) (bs @ []) y" by (rule parses_bind [OF assms(1)])
  then show ?thesis by (simp only: append_Nil2)
qed

lemma parses_exact: "length bs = n \<Longrightarrow> parses k (read_exact n) bs bs"
  by (rule parsesI) (auto intro: exact)

lemma parses_many:
  "list_all2 (parses k m) bss xs \<Longrightarrow> parses k (rmany (length xs) m) (concat bss) xs"
proof (induction bss xs rule: list_all2_induct)
  case Nil
  show ?case unfolding list.size rmany_0 concat.simps by (rule parses_ret)
next
  case (Cons bs bss x xs)
  then show ?case by (auto intro!: parses_bind parses_bind_ret)
qed

text \<open>A loop that reads back what a loop of writers appended.\<close>

lemma parses_many_written:
  assumes "wseq (map w xs) = Inr bs"
    and "\<And>x b. x \<in> set xs \<Longrightarrow> w x = Inr b \<Longrightarrow> parses k m b (g x)"
  shows "parses k (rmany (length xs) m) bs (map g xs)"
  using assms
proof (induction xs arbitrary: bs)
  case Nil
  then have "bs = []" by simp
  then show ?case unfolding list.size rmany_0 list.map by (simp only: parses_ret)
next
  case (Cons x xs)
  then obtain a c where "w x = Inr a" and c: "wseq (map w xs) = Inr c" and bs: "bs = a @ c"
    by auto
  then have a: "parses k m a (g x)" using Cons.prems by simp
  have "parses k (rmany (length xs) m) c (map g xs)"
    using Cons.IH [OF c] Cons.prems by simp
  then show ?case using a bs by (auto intro!: parses_bind parses_bind_ret)
qed

lemma parses_nested:
  assumes m: "parses k m bs x" and y: "y = g x"
  shows "parses (Suc k) (rbind enter (\<lambda>_. rbind m (\<lambda>x. rbind leave (\<lambda>_. rret (g x))))) bs y"
proof (rule parsesI)
  fix r rest
  assume r: "room (Suc k) r" "in_bounds r" "input r = bs @ rest"
  let ?r = "r\<lparr>rd_depth := Suc (rd_depth r)\<rparr>"
  have "m ?r = Inr (x, advance (length bs) ?r)"
    using r by (intro parsesD [OF m]) (auto intro: room_enter)
  with enter_room [OF r(1)] y
  show "rbind enter (\<lambda>_. rbind m (\<lambda>x. rbind leave (\<lambda>_. rret (g x)))) r =
      Inr (y, advance (length bs) r)"
    by (simp add: rbind_Inr leave_def advance_def)
qed

lemma parses_run:
  assumes "parses k m bs x" and "room k r" and "rd_bytes r = bs" and "rd_offset r = 0"
    and "length bs \<le> isize_max"
  shows "m r = Inr (x, advance (length bs) r)"
  using assms(2-5) by (intro parsesD [OF assms(1), of r "[]"]) (simp_all add: in_bounds_def input_def)

end

section \<open>Element codecs\<close>

text \<open>
  What one writer and one reader of an element type promise each other: the reader returns every
  well-formed value the writer wrote. Counted vectors of elements then read back, whatever the
  elements are.
\<close>

locale codec = byte_reader room enter read_exact
  for room :: "nat \<Rightarrow> 'z cursor_scheme \<Rightarrow> bool"
    and enter :: "'z cursor_scheme \<Rightarrow> 'e + unit \<times> 'z cursor_scheme"
    and read_exact :: "nat \<Rightarrow> 'z cursor_scheme \<Rightarrow> 'e + u8 list \<times> 'z cursor_scheme" +
  fixes wr :: "'a \<Rightarrow> 'w + u8 list"
    and rd :: "'z cursor_scheme \<Rightarrow> 'e + 'a \<times> 'z cursor_scheme"
    and ok :: "'a \<Rightarrow> bool"
  assumes rd_wr: "ok x \<Longrightarrow> wr x = Inr bs \<Longrightarrow> parses 0 rd bs x"
    and wr_nonempty: "wr x = Inr bs \<Longrightarrow> 0 < length bs"
begin

lemma rd_wr_at: "ok x \<Longrightarrow> wr x = Inr bs \<Longrightarrow> parses k rd bs x"
  by (rule parses_mono [OF rd_wr]) simp_all

lemma vector_parses:
  assumes "list_all ok xs" and "wseq (map wr xs) = Inr bs" and "n = length xs"
  shows "parses k (rmany n rd) bs xs"
  using parses_many_written [OF assms(2), of k rd "\<lambda>x. x"] assms(1,3)
  by (auto simp: list_all_iff intro: rd_wr_at)

lemma vector_count_bound: "wseq (map wr xs) = Inr bs \<Longrightarrow> length xs \<le> length bs"
  using wseq_length_ge [of "map wr xs" bs 1] wr_nonempty by (force simp: Suc_le_eq)

end

end
