(* ===== verification/Property_Value.thy ===== *)
theory Property_Value
  imports Byte_Reader
begin

text \<open>
  The property values of the graph (\<open>crates/lora-store/src/types\<close>): scalars, lists, maps, temporal
  values, points, vectors and binaries. A named time zone (\<open>ZoneId\<close>) is its canonical name; the
  zone database itself is the \<open>jiff\<close> crate, so \<open>ZoneId::lookup\<close> is a parameter \<open>lk\<close> of everything
  that decodes a zone, and a value is well formed when the database knows its zone by its own name.
\<close>

section \<open>Value types\<close>

record lora_date =
  date_year :: i32
  date_month :: u32
  date_day :: u32

record lora_time =
  time_hour :: u32
  time_minute :: u32
  time_second :: u32
  time_nanosecond :: u32
  time_offset_seconds :: i32

record lora_local_time =
  lt_hour :: u32
  lt_minute :: u32
  lt_second :: u32
  lt_nanosecond :: u32

record lora_date_time =
  dt_year :: i32
  dt_month :: u32
  dt_day :: u32
  dt_hour :: u32
  dt_minute :: u32
  dt_second :: u32
  dt_nanosecond :: u32
  dt_offset_seconds :: i32
  dt_zone :: "string option"

record lora_local_date_time =
  ldt_year :: i32
  ldt_month :: u32
  ldt_day :: u32
  ldt_hour :: u32
  ldt_minute :: u32
  ldt_second :: u32
  ldt_nanosecond :: u32

record lora_duration =
  dur_months :: i64
  dur_days :: i64
  dur_seconds :: i64
  dur_nanoseconds :: i64

record lora_point =
  pt_x :: f64
  pt_y :: f64
  pt_z :: "f64 option"
  pt_srid :: u32

datatype vector_values =
    Float64 "f64 list"
  | Float32 "f32 list"
  | Integer64 "i64 list"
  | Integer32 "i32 list"
  | Integer16 "i16 list"
  | Integer8 "i8 list"

fun vector_values_len :: "vector_values \<Rightarrow> nat" where
  "vector_values_len (Float64 v) = length v"
| "vector_values_len (Float32 v) = length v"
| "vector_values_len (Integer64 v) = length v"
| "vector_values_len (Integer32 v) = length v"
| "vector_values_len (Integer16 v) = length v"
| "vector_values_len (Integer8 v) = length v"

record lora_vector =
  vec_dimension :: nat
  vec_values :: vector_values

record lora_binary =
  bin_segments :: "u8 list list"
  bin_len :: nat

definition from_segments :: "u8 list list \<Rightarrow> lora_binary" where
  "from_segments segments =
     \<lparr>bin_segments = segments, bin_len = sum_list (map length segments)\<rparr>"

datatype property_value =
    PvNull
  | PvBool bool
  | PvInt i64
  | PvFloat f64
  | PvString string
  | PvBinary lora_binary
  | PvList "property_value list"
  | PvMap "(string \<times> property_value) list"
  | PvDate lora_date
  | PvTime lora_time
  | PvLocalTime lora_local_time
  | PvDateTime lora_date_time
  | PvLocalDateTime lora_local_date_time
  | PvDuration lora_duration
  | PvPoint lora_point
  | PvVector lora_vector

text \<open>\<open>lora_ast::limits::MAX_VALUE_NESTING\<close>, which every codec of the workspace reads.\<close>

definition MAX_VALUE_NESTING :: nat where
  "MAX_VALUE_NESTING = 128"

section \<open>Nesting depth and well-formedness\<close>

text \<open>Lists and maps around the deepest value, counting \<open>v\<close> itself.\<close>

fun nesting :: "property_value \<Rightarrow> nat" where
  "nesting (PvList vs) = Suc (fold max (map nesting vs) 0)"
| "nesting (PvMap kvs) = Suc (fold max (map (\<lambda>kv. nesting (snd kv)) kvs) 0)"
| "nesting _ = 0"

text \<open>
  What a value built by the engine satisfies: strings and zone names are UTF-8, maps are sorted
  without duplicates, a binary's cached length and a vector's dimension are those of their data,
  and the database resolves each zone name to itself.
\<close>

fun wf_value :: "(string \<Rightarrow> string option) \<Rightarrow> property_value \<Rightarrow> bool" where
  "wf_value lk (PvString s) = wf_str s"
| "wf_value lk (PvBinary b) = (bin_len b = sum_list (map length (bin_segments b)))"
| "wf_value lk (PvList vs) = list_all (wf_value lk) vs"
| "wf_value lk (PvMap kvs) =
     (sorted_keys kvs \<and> list_all (\<lambda>kv. wf_str (fst kv) \<and> wf_value lk (snd kv)) kvs)"
| "wf_value lk (PvDateTime d) =
     (case dt_zone d of None \<Rightarrow> True | Some z \<Rightarrow> wf_str z \<and> lk z = Some z)"
| "wf_value lk (PvVector v) = (vec_dimension v = vector_values_len (vec_values v))"
| "wf_value lk _ = True"

lemma fold_max_ge_init: "(m :: nat) \<le> fold max ns m"
  by (induction ns arbitrary: m) (auto intro: order_trans [OF max.cobounded2])

lemma fold_max_ge: "(n :: nat) \<in> set ns \<Longrightarrow> n \<le> fold max ns m"
proof (induction ns arbitrary: m)
  case Nil
  then show ?case by simp
next
  case (Cons a ns)
  then show ?case using fold_max_ge_init [of "max a m" ns] by (auto intro: order_trans)
qed

lemma nesting_list_elem: "v \<in> set vs \<Longrightarrow> Suc (nesting v) \<le> nesting (PvList vs)"
  by (simp add: fold_max_ge)

lemma nesting_map_elem: "kv \<in> set kvs \<Longrightarrow> Suc (nesting (snd kv)) \<le> nesting (PvMap kvs)"
  by (simp add: fold_max_ge)

lemma fold_max_le: "(\<And>n. n \<in> set ns \<Longrightarrow> n \<le> b) \<Longrightarrow> m \<le> b \<Longrightarrow> fold max ns m \<le> (b :: nat)"
  by (induction ns arbitrary: m) auto

lemma fold_max_le_iff: "fold max ns m \<le> (b :: nat) \<longleftrightarrow> m \<le> b \<and> (\<forall>n \<in> set ns. n \<le> b)"
  by (induction ns arbitrary: m) auto

lemma nesting_list_le: "nesting (PvList vs) \<le> Suc b \<longleftrightarrow> list_all (\<lambda>v. nesting v \<le> b) vs"
  by (simp add: fold_max_le_iff list_all_iff)

lemma nesting_map_le: "nesting (PvMap kvs) \<le> Suc b \<longleftrightarrow> list_all (\<lambda>kv. nesting (snd kv) \<le> b) kvs"
  by (simp add: fold_max_le_iff list_all_iff)

lemma list_all_btree_of: "list_all P kvs \<Longrightarrow> list_all P (btree_of kvs)"
  using set_btree_of by (fastforce simp: list_all_iff)

lemma wf_map_btree_of:
  "list_all (\<lambda>kv. wf_str (fst kv) \<and> wf_value lk (snd kv)) kvs \<Longrightarrow> wf_value lk (PvMap (btree_of kvs))"
  by (simp add: sorted_keys_btree_of list_all_btree_of)

end
