(* ===== verification/Store_Encode.thy ===== *)
theory Store_Encode
  imports Property_Value
begin

text \<open>
  The encoding half of \<open>crates/lora-store/src/codec.rs\<close> for property values: tag bytes, primitive
  writers and \<open>write_property_value\<close>, which refuses values nested past its depth limit. A writer
  is the bytes it appends.
\<close>

section \<open>Errors and tags\<close>

datatype encode_reason = EncodeNesting | LengthOverflow

text \<open>
  \<open>OutOfFuel\<close> is not an error of the code: it is the result of the recursive reader of the model
  when its recursion bound is too small, and is proved never to be returned by the entry points.
\<close>

datatype decode_reason =
    DecodeNesting
  | TrailingBytes nat
  | OffsetOverflow
  | TruncatedInput
  | CountExceedsInput string nat
  | InvalidUtf8
  | InvalidTag string u8
  | UnknownTimeZone string
  | DimensionMismatch nat nat
  | OutOfFuel

datatype store_codec_error = Encode encode_reason | Decode decode_reason

abbreviation (input) VALUE_NULL :: u8 where "VALUE_NULL \<equiv> 0"
abbreviation (input) VALUE_BOOL :: u8 where "VALUE_BOOL \<equiv> 1"
abbreviation (input) VALUE_INT :: u8 where "VALUE_INT \<equiv> 2"
abbreviation (input) VALUE_FLOAT :: u8 where "VALUE_FLOAT \<equiv> 3"
abbreviation (input) VALUE_STRING :: u8 where "VALUE_STRING \<equiv> 4"
abbreviation (input) VALUE_LIST :: u8 where "VALUE_LIST \<equiv> 5"
abbreviation (input) VALUE_MAP :: u8 where "VALUE_MAP \<equiv> 6"
abbreviation (input) VALUE_DATE :: u8 where "VALUE_DATE \<equiv> 7"
abbreviation (input) VALUE_TIME :: u8 where "VALUE_TIME \<equiv> 8"
abbreviation (input) VALUE_LOCAL_TIME :: u8 where "VALUE_LOCAL_TIME \<equiv> 9"
abbreviation (input) VALUE_DATE_TIME :: u8 where "VALUE_DATE_TIME \<equiv> 10"
abbreviation (input) VALUE_LOCAL_DATE_TIME :: u8 where "VALUE_LOCAL_DATE_TIME \<equiv> 11"
abbreviation (input) VALUE_DURATION :: u8 where "VALUE_DURATION \<equiv> 12"
abbreviation (input) VALUE_POINT :: u8 where "VALUE_POINT \<equiv> 13"
abbreviation (input) VALUE_VECTOR :: u8 where "VALUE_VECTOR \<equiv> 14"
abbreviation (input) VALUE_BINARY :: u8 where "VALUE_BINARY \<equiv> 15"
abbreviation (input) VALUE_ZONED_DATE_TIME :: u8 where "VALUE_ZONED_DATE_TIME \<equiv> 16"

abbreviation (input) VECTOR_FLOAT64 :: u8 where "VECTOR_FLOAT64 \<equiv> 1"
abbreviation (input) VECTOR_FLOAT32 :: u8 where "VECTOR_FLOAT32 \<equiv> 2"
abbreviation (input) VECTOR_INTEGER64 :: u8 where "VECTOR_INTEGER64 \<equiv> 3"
abbreviation (input) VECTOR_INTEGER32 :: u8 where "VECTOR_INTEGER32 \<equiv> 4"
abbreviation (input) VECTOR_INTEGER16 :: u8 where "VECTOR_INTEGER16 \<equiv> 5"
abbreviation (input) VECTOR_INTEGER8 :: u8 where "VECTOR_INTEGER8 \<equiv> 6"

section \<open>Primitive writers\<close>

definition bool_byte :: "bool \<Rightarrow> u8" where
  "bool_byte b = (if b then 1 else 0)"

definition write_i16 :: "i16 \<Rightarrow> u8 list" where
  "write_i16 v = to_le_bytes v"

definition write_i32 :: "i32 \<Rightarrow> u8 list" where
  "write_i32 v = to_le_bytes v"

definition write_u32 :: "u32 \<Rightarrow> u8 list" where
  "write_u32 v = to_le_bytes v"

definition write_i64 :: "i64 \<Rightarrow> u8 list" where
  "write_i64 v = to_le_bytes v"

definition write_u64 :: "u64 \<Rightarrow> u8 list" where
  "write_u64 v = to_le_bytes v"

definition write_f32 :: "f32 \<Rightarrow> u8 list" where
  "write_f32 v = to_le_bytes v"

definition write_f64 :: "f64 \<Rightarrow> u8 list" where
  "write_f64 v = to_le_bytes v"

definition write_len :: "nat \<Rightarrow> store_codec_error + u8 list" where
  "write_len n = (if n < 2 ^ 64 then Inr (write_u64 (of_nat n)) else Inl (Encode LengthOverflow))"

definition write_bytes :: "u8 list \<Rightarrow> store_codec_error + u8 list" where
  "write_bytes bs = wseq [write_len (length bs), Inr bs]"

definition write_string :: "string \<Rightarrow> store_codec_error + u8 list" where
  "write_string s = write_bytes (as_bytes s)"

definition write_string_vec :: "string list \<Rightarrow> store_codec_error + u8 list" where
  "write_string_vec vs = wseq (write_len (length vs) # map write_string vs)"

definition write_optional_string :: "string option \<Rightarrow> store_codec_error + u8 list" where
  "write_optional_string v =
     (case v of Some s \<Rightarrow> wseq [Inr [1], write_string s] | None \<Rightarrow> Inr [0])"

definition write_date_fields :: "i32 \<Rightarrow> u32 \<Rightarrow> u32 \<Rightarrow> u8 list" where
  "write_date_fields year month day = write_i32 year @ write_u32 month @ write_u32 day"

definition write_time_fields :: "u32 \<Rightarrow> u32 \<Rightarrow> u32 \<Rightarrow> u32 \<Rightarrow> u8 list" where
  "write_time_fields hour minute second nanosecond =
     write_u32 hour @ write_u32 minute @ write_u32 second @ write_u32 nanosecond"

section \<open>Values\<close>

definition write_vector :: "lora_vector \<Rightarrow> store_codec_error + u8 list" where
  "write_vector vector =
     wseq [write_len (vector_values_len (vec_values vector)),
       (case vec_values vector of
          Float64 values \<Rightarrow> wseq (Inr [VECTOR_FLOAT64] # write_len (length values)
            # map (\<lambda>v. Inr (write_f64 v)) values)
        | Float32 values \<Rightarrow> wseq (Inr [VECTOR_FLOAT32] # write_len (length values)
            # map (\<lambda>v. Inr (write_f32 v)) values)
        | Integer64 values \<Rightarrow> wseq (Inr [VECTOR_INTEGER64] # write_len (length values)
            # map (\<lambda>v. Inr (write_i64 v)) values)
        | Integer32 values \<Rightarrow> wseq (Inr [VECTOR_INTEGER32] # write_len (length values)
            # map (\<lambda>v. Inr (write_i32 v)) values)
        | Integer16 values \<Rightarrow> wseq (Inr [VECTOR_INTEGER16] # write_len (length values)
            # map (\<lambda>v. Inr (write_i16 v)) values)
        | Integer8 values \<Rightarrow> wseq (Inr [VECTOR_INTEGER8] # write_len (length values)
            # map (\<lambda>v. Inr [v]) values))]"

fun write_property_value :: "property_value \<Rightarrow> nat \<Rightarrow> nat \<Rightarrow> store_codec_error + u8 list" where
  "write_property_value PvNull depth max_depth = Inr [VALUE_NULL]"
| "write_property_value (PvBool b) depth max_depth = Inr [VALUE_BOOL, bool_byte b]"
| "write_property_value (PvInt i) depth max_depth = Inr (VALUE_INT # write_i64 i)"
| "write_property_value (PvFloat f) depth max_depth = Inr (VALUE_FLOAT # write_f64 f)"
| "write_property_value (PvString s) depth max_depth = wseq [Inr [VALUE_STRING], write_string s]"
| "write_property_value (PvList values) depth max_depth =
     (if depth \<ge> max_depth then Inl (Encode EncodeNesting)
      else wseq (Inr [VALUE_LIST] # write_len (length values)
        # map (\<lambda>value. write_property_value value (depth + 1) max_depth) values))"
| "write_property_value (PvMap values) depth max_depth =
     (if depth \<ge> max_depth then Inl (Encode EncodeNesting)
      else wseq (Inr [VALUE_MAP] # write_len (length values)
        # map (\<lambda>kv. wseq [write_string (fst kv),
              write_property_value (snd kv) (depth + 1) max_depth]) values))"
| "write_property_value (PvDate d) depth max_depth =
     Inr (VALUE_DATE # write_i32 (date_year d) @ write_u32 (date_month d) @ write_u32 (date_day d))"
| "write_property_value (PvTime t) depth max_depth =
     Inr (VALUE_TIME # write_time_fields (time_hour t) (time_minute t) (time_second t)
       (time_nanosecond t) @ write_i32 (time_offset_seconds t))"
| "write_property_value (PvLocalTime t) depth max_depth =
     Inr (VALUE_LOCAL_TIME # write_time_fields (lt_hour t) (lt_minute t) (lt_second t)
       (lt_nanosecond t))"
| "write_property_value (PvDateTime d) depth max_depth =
     wseq [Inr [if dt_zone d \<noteq> None then VALUE_ZONED_DATE_TIME else VALUE_DATE_TIME],
       Inr (write_date_fields (dt_year d) (dt_month d) (dt_day d)),
       Inr (write_time_fields (dt_hour d) (dt_minute d) (dt_second d) (dt_nanosecond d)),
       Inr (write_i32 (dt_offset_seconds d)),
       (case dt_zone d of Some zone \<Rightarrow> write_string zone | None \<Rightarrow> Inr [])]"
| "write_property_value (PvLocalDateTime d) depth max_depth =
     Inr (VALUE_LOCAL_DATE_TIME # write_date_fields (ldt_year d) (ldt_month d) (ldt_day d)
       @ write_time_fields (ldt_hour d) (ldt_minute d) (ldt_second d) (ldt_nanosecond d))"
| "write_property_value (PvDuration d) depth max_depth =
     Inr (VALUE_DURATION # write_i64 (dur_months d) @ write_i64 (dur_days d)
       @ write_i64 (dur_seconds d) @ write_i64 (dur_nanoseconds d))"
| "write_property_value (PvPoint p) depth max_depth =
     Inr (VALUE_POINT # write_f64 (pt_x p) @ write_f64 (pt_y p)
       @ (case pt_z p of Some z \<Rightarrow> 1 # write_f64 z | None \<Rightarrow> [0]) @ write_u32 (pt_srid p))"
| "write_property_value (PvVector v) depth max_depth = wseq [Inr [VALUE_VECTOR], write_vector v]"
| "write_property_value (PvBinary b) depth max_depth =
     wseq (Inr [VALUE_BINARY] # write_len (length (bin_segments b))
       # map write_bytes (bin_segments b))"

text \<open>The entry points; \<open>usize::MAX\<close> is the unlimited depth of the in-memory record encoding.\<close>

definition encode_property_value :: "property_value \<Rightarrow> store_codec_error + u8 list" where
  "encode_property_value value = write_property_value value 0 MAX_VALUE_NESTING"

definition encode_stored_property_value :: "property_value \<Rightarrow> store_codec_error + u8 list" where
  "encode_stored_property_value value = write_property_value value 0 (usize_limit - 1)"

lemma length_write_prims [simp]:
  "length (write_i16 w16) = 2" "length (write_i32 w32) = 4" "length (write_u32 w32) = 4"
  "length (write_i64 w64) = 8" "length (write_u64 w64) = 8" "length (write_f32 w32) = 4"
  "length (write_f64 w64) = 8"
  by (simp_all add: write_i16_def write_i32_def write_u32_def write_i64_def write_u64_def
      write_f32_def write_f64_def)

lemma write_prims_not_Nil [simp]:
  "write_i16 w16 \<noteq> []" "write_i32 w32 \<noteq> []" "write_u32 w32 \<noteq> []" "write_i64 w64 \<noteq> []"
  "write_u64 w64 \<noteq> []" "write_f32 w32 \<noteq> []" "write_f64 w64 \<noteq> []"
  by (simp_all flip: length_0_conv)

lemma write_len_Inr [simp]:
  "write_len n = Inr bs \<longleftrightarrow> n < usize_limit \<and> bs = write_u64 (of_nat n)"
  by (auto simp: write_len_def usize_limit_def)

lemma write_bytes_Inr [simp]:
  "write_bytes b = Inr bs \<longleftrightarrow> length b < usize_limit \<and> bs = write_u64 (of_nat (length b)) @ b"
  by (auto simp: write_bytes_def)

lemma write_string_Inr [simp]:
  "write_string s = Inr bs \<longleftrightarrow>
     length s < usize_limit \<and> bs = write_u64 (of_nat (length s)) @ as_bytes s"
  by (auto simp: write_string_def)

lemma write_property_value_nonempty:
  "write_property_value v d m = Inr bs \<Longrightarrow> 0 < length bs"
  by (cases v) (auto split: if_splits)

text \<open>A value that is written nests no deeper than the limit allows.\<close>

lemma write_property_value_nesting:
  "write_property_value v d m = Inr bs \<Longrightarrow> d + nesting v \<le> m \<or> nesting v = 0"
proof (induction v d m arbitrary: bs rule: write_property_value.induct)
  case (6 vs depth max_depth)
  then obtain out where d: "depth < max_depth"
    and out: "wseq (map (\<lambda>value. write_property_value value (depth + 1) max_depth) vs) = Inr out"
    by (auto split: if_splits)
  have "depth + 1 + nesting v \<le> max_depth" if v: "v \<in> set vs" for v
  proof -
    have "\<exists>b. write_property_value v (depth + 1) max_depth = Inr b"
      using out v by (induction vs arbitrary: out) auto
    then show ?thesis using 6(1) [OF _ v] d by fastforce
  qed
  then have "nesting (PvList vs) \<le> Suc (max_depth - depth - 1)"
    by (force intro!: fold_max_le)
  then show ?case using d by simp
next
  case (7 vs depth max_depth)
  let ?w = "\<lambda>kv. wseq [write_string (fst kv), write_property_value (snd kv) (depth + 1) max_depth]"
  from 7 obtain out where d: "depth < max_depth" and out: "wseq (map ?w vs) = Inr out"
    by (auto split: if_splits)
  have "depth + 1 + nesting (snd v) \<le> max_depth" if v: "v \<in> set vs" for v
  proof -
    have "\<exists>b. ?w v = Inr b" using out v by (induction vs arbitrary: out) auto
    then show ?thesis using 7(1) [OF _ v] d by fastforce
  qed
  then have "nesting (PvMap vs) \<le> Suc (max_depth - depth - 1)"
    by (force intro!: fold_max_le)
  then show ?case using d by simp
qed simp_all

end
