(* ===== verification/Store_Decode.thy ===== *)
theory Store_Decode
  imports Store_Encode
begin

text \<open>
  The decoding half of \<open>crates/lora-store/src/codec.rs\<close> for property values: the \<open>Reader\<close> cursor
  and its methods. \<open>read_property_value\<close> recurses once per list or map; its model carries a
  recursion bound, which the entry points set to one more than the number of input bytes.
  \<open>read_property_value_fuel\<close> shows the bound never matters: every level consumes a byte.
\<close>

record reader = cursor +
  rd_max_depth :: nat

type_synonym 'a read = "reader \<Rightarrow> store_codec_error + 'a \<times> reader"

definition reader_new :: "u8 list \<Rightarrow> reader" where
  "reader_new bs =
     \<lparr>rd_bytes = bs, rd_offset = 0, rd_depth = 0, rd_max_depth = MAX_VALUE_NESTING\<rparr>"

section \<open>Cursor operations\<close>

definition enter :: "unit read" where
  "enter r = (if rd_depth r \<ge> rd_max_depth r then Inl (Decode DecodeNesting)
     else Inr ((), r\<lparr>rd_depth := rd_depth r + 1\<rparr>))"

definition finish :: "unit read" where
  "finish r = (if rd_offset r = length (rd_bytes r) then Inr ((), r)
     else Inl (Decode (TrailingBytes (length (rd_bytes r) - rd_offset r))))"

definition read_exact :: "nat \<Rightarrow> u8 list read" where
  "read_exact n r =
     (case checked_add (rd_offset r) n of
        None \<Rightarrow> Inl (Decode OffsetOverflow)
      | Some e \<Rightarrow>
          if e > length (rd_bytes r) then Inl (Decode TruncatedInput)
          else Inr (take n (drop (rd_offset r) (rd_bytes r)), r\<lparr>rd_offset := e\<rparr>))"

definition read_u8 :: "u8 read" where
  "read_u8 = rbind (read_exact 1) (\<lambda>bs. rret (bs ! 0))"

definition read_i8 :: "i8 read" where
  "read_i8 = read_u8"

definition read_i16 :: "i16 read" where
  "read_i16 = rbind (read_exact 2) (\<lambda>bs. rret (from_le_bytes bs))"

definition read_i32 :: "i32 read" where
  "read_i32 = rbind (read_exact 4) (\<lambda>bs. rret (from_le_bytes bs))"

definition read_u32 :: "u32 read" where
  "read_u32 = rbind (read_exact 4) (\<lambda>bs. rret (from_le_bytes bs))"

definition read_i64 :: "i64 read" where
  "read_i64 = rbind (read_exact 8) (\<lambda>bs. rret (from_le_bytes bs))"

definition read_u64 :: "u64 read" where
  "read_u64 = rbind (read_exact 8) (\<lambda>bs. rret (from_le_bytes bs))"

definition read_f32 :: "f32 read" where
  "read_f32 = read_u32"

definition read_f64 :: "f64 read" where
  "read_f64 = read_u64"

definition read_len :: "nat read" where
  "read_len = rbind read_u64 (\<lambda>v. rret (unat v))"

definition read_len_bounded :: "string \<Rightarrow> nat read" where
  "read_len_bounded label = rbind read_len (\<lambda>len r.
     if len > remaining r then Inl (Decode (CountExceedsInput label len)) else Inr (len, r))"

definition read_bytes :: "u8 list read" where
  "read_bytes = rbind read_len read_exact"

definition read_string :: "string read" where
  "read_string = rbind read_bytes (\<lambda>bs.
     case from_utf8 bs of None \<Rightarrow> rfail (Decode InvalidUtf8) | Some s \<Rightarrow> rret s)"

definition read_string_vec :: "string list read" where
  "read_string_vec = rbind (read_len_bounded ''string'') (\<lambda>len. rmany len read_string)"

definition read_optional_string :: "string option read" where
  "read_optional_string = rbind read_u8 (\<lambda>tag.
     if tag = 0 then rret None
     else if tag = 1 then rmap Some read_string
     else rfail (Decode (InvalidTag ''optional string'' tag)))"

section \<open>Values\<close>

definition read_vec :: "'a read \<Rightarrow> 'a list read" where
  "read_vec read_one = rbind read_len (\<lambda>len r.
     if len > remaining r then Inl (Decode (CountExceedsInput ''vector value'' len))
     else rmany len read_one r)"

definition read_vector :: "lora_vector read" where
  "read_vector = rbind read_len (\<lambda>dimension. rbind read_u8 (\<lambda>tag. rbind
     (if tag = VECTOR_FLOAT64 then rmap Float64 (read_vec read_f64)
      else if tag = VECTOR_FLOAT32 then rmap Float32 (read_vec read_f32)
      else if tag = VECTOR_INTEGER64 then rmap Integer64 (read_vec read_i64)
      else if tag = VECTOR_INTEGER32 then rmap Integer32 (read_vec read_i32)
      else if tag = VECTOR_INTEGER16 then rmap Integer16 (read_vec read_i16)
      else if tag = VECTOR_INTEGER8 then rmap Integer8 (read_vec read_i8)
      else rfail (Decode (InvalidTag ''vector value'' tag)))
     (\<lambda>vs. if vector_values_len vs \<noteq> dimension
        then rfail (Decode (DimensionMismatch dimension (vector_values_len vs)))
        else rret \<lparr>vec_dimension = dimension, vec_values = vs\<rparr>)))"

definition read_binary :: "lora_binary read" where
  "read_binary = rbind (read_len_bounded ''binary segment'') (\<lambda>len.
     rmap from_segments (rmany len read_bytes))"

definition read_date_time :: "(string \<Rightarrow> string option) \<Rightarrow> u8 \<Rightarrow> lora_date_time read" where
  "read_date_time lk tag =
     rbind read_i32 (\<lambda>year. rbind read_u32 (\<lambda>month. rbind read_u32 (\<lambda>day.
     rbind read_u32 (\<lambda>hour. rbind read_u32 (\<lambda>minute. rbind read_u32 (\<lambda>second.
     rbind read_u32 (\<lambda>nanosecond. rbind read_i32 (\<lambda>offset_seconds.
     rbind (if tag = VALUE_ZONED_DATE_TIME
            then rbind read_string (\<lambda>name. case lk name of
                   None \<Rightarrow> rfail (Decode (UnknownTimeZone name)) | Some z \<Rightarrow> rret (Some z))
            else rret None)
     (\<lambda>zone. rret \<lparr>dt_year = year, dt_month = month, dt_day = day, dt_hour = hour,
        dt_minute = minute, dt_second = second, dt_nanosecond = nanosecond,
        dt_offset_seconds = offset_seconds, dt_zone = zone\<rparr>)))))))))"

definition read_point :: "lora_point read" where
  "read_point = rbind read_f64 (\<lambda>x. rbind read_f64 (\<lambda>y.
     rbind (rbind read_u8 (\<lambda>tag.
        if tag = 0 then rret None
        else if tag = 1 then rmap Some read_f64
        else rfail (Decode (InvalidTag ''point z-presence'' tag))))
     (\<lambda>z. rbind read_u32 (\<lambda>srid. rret \<lparr>pt_x = x, pt_y = y, pt_z = z, pt_srid = srid\<rparr>))))"

text \<open>The arms of \<open>read_property_value\<close> that do not recurse.\<close>

definition read_leaf :: "(string \<Rightarrow> string option) \<Rightarrow> u8 \<Rightarrow> property_value read" where
  "read_leaf lk tag =
     (if tag = VALUE_NULL then rret PvNull
      else if tag = VALUE_BOOL then rmap (\<lambda>b. PvBool (b \<noteq> 0)) read_u8
      else if tag = VALUE_INT then rmap PvInt read_i64
      else if tag = VALUE_FLOAT then rmap PvFloat read_f64
      else if tag = VALUE_STRING then rmap PvString read_string
      else if tag = VALUE_DATE then
        rbind read_i32 (\<lambda>year. rbind read_u32 (\<lambda>month. rbind read_u32 (\<lambda>day.
          rret (PvDate \<lparr>date_year = year, date_month = month, date_day = day\<rparr>))))
      else if tag = VALUE_TIME then
        rbind read_u32 (\<lambda>hour. rbind read_u32 (\<lambda>minute. rbind read_u32 (\<lambda>second.
        rbind read_u32 (\<lambda>nanosecond. rbind read_i32 (\<lambda>offset_seconds.
          rret (PvTime \<lparr>time_hour = hour, time_minute = minute, time_second = second,
            time_nanosecond = nanosecond, time_offset_seconds = offset_seconds\<rparr>))))))
      else if tag = VALUE_LOCAL_TIME then
        rbind read_u32 (\<lambda>hour. rbind read_u32 (\<lambda>minute. rbind read_u32 (\<lambda>second.
        rbind read_u32 (\<lambda>nanosecond.
          rret (PvLocalTime \<lparr>lt_hour = hour, lt_minute = minute, lt_second = second,
            lt_nanosecond = nanosecond\<rparr>)))))
      else if tag = VALUE_DATE_TIME \<or> tag = VALUE_ZONED_DATE_TIME then
        rmap PvDateTime (read_date_time lk tag)
      else if tag = VALUE_LOCAL_DATE_TIME then
        rbind read_i32 (\<lambda>year. rbind read_u32 (\<lambda>month. rbind read_u32 (\<lambda>day.
        rbind read_u32 (\<lambda>hour. rbind read_u32 (\<lambda>minute. rbind read_u32 (\<lambda>second.
        rbind read_u32 (\<lambda>nanosecond.
          rret (PvLocalDateTime \<lparr>ldt_year = year, ldt_month = month, ldt_day = day,
            ldt_hour = hour, ldt_minute = minute, ldt_second = second,
            ldt_nanosecond = nanosecond\<rparr>))))))))
      else if tag = VALUE_DURATION then
        rbind read_i64 (\<lambda>months. rbind read_i64 (\<lambda>days. rbind read_i64 (\<lambda>seconds.
        rbind read_i64 (\<lambda>nanoseconds.
          rret (PvDuration \<lparr>dur_months = months, dur_days = days, dur_seconds = seconds,
            dur_nanoseconds = nanoseconds\<rparr>)))))
      else if tag = VALUE_POINT then rmap PvPoint read_point
      else if tag = VALUE_VECTOR then rmap PvVector read_vector
      else if tag = VALUE_BINARY then rmap PvBinary read_binary
      else rfail (Decode (InvalidTag ''property value'' tag)))"

fun read_property_value :: "(string \<Rightarrow> string option) \<Rightarrow> nat \<Rightarrow> property_value read" where
  "read_property_value lk 0 = rfail (Decode OutOfFuel)"
| "read_property_value lk (Suc fuel) = rbind read_u8 (\<lambda>tag.
     if tag = VALUE_LIST then
       rbind enter (\<lambda>_. rbind
         (rbind (read_len_bounded ''property list value'')
            (\<lambda>len. rmany len (read_property_value lk fuel)))
         (\<lambda>vs. rbind leave (\<lambda>_. rret (PvList vs))))
     else if tag = VALUE_MAP then
       rbind enter (\<lambda>_. rbind
         (rbind (read_len_bounded ''property map entry'')
            (\<lambda>len. rmany len
               (rbind read_string (\<lambda>key. rmap (Pair key) (read_property_value lk fuel)))))
         (\<lambda>kvs. rbind leave (\<lambda>_. rret (PvMap (btree_of kvs)))))
     else read_leaf lk tag)"

declare read_property_value.simps [simp del]

text \<open>Run a reader on the cursor it starts with and keep the value.\<close>

definition run_read :: "'a read \<Rightarrow> reader \<Rightarrow> store_codec_error + 'a" where
  "run_read m r = map_sum id fst (m r)"

definition decode_property_value ::
  "(string \<Rightarrow> string option) \<Rightarrow> u8 list \<Rightarrow> store_codec_error + property_value" where
  "decode_property_value lk bs =
     run_read (rbind (read_property_value lk (Suc (length bs)))
       (\<lambda>value. rbind finish (\<lambda>_. rret value)))
     (reader_new bs)"

definition decode_stored_property_value ::
  "(string \<Rightarrow> string option) \<Rightarrow> u8 list \<Rightarrow> store_codec_error + property_value" where
  "decode_stored_property_value lk bs =
     run_read (rbind (read_property_value lk (Suc (length bs)))
       (\<lambda>value. rbind finish (\<lambda>_. rret value)))
     ((reader_new bs)\<lparr>rd_max_depth := usize_limit - 1\<rparr>)"

end
