(* ===== verification/Store_Codec.thy ===== *)
theory Store_Codec
  imports Store_Decode
begin

text \<open>
  The two halves of the store's value codec agree. The store's \<open>Reader\<close> is an instance of the
  \<open>byte_reader\<close> interface; each primitive and each element type is a \<open>codec\<close>; every well-formed
  value reads back from the bytes written for it, with or without the nesting limit; and the
  recursion bound of the model is irrelevant.
\<close>

section \<open>The store's reader\<close>

abbreviation store_room :: "nat \<Rightarrow> reader \<Rightarrow> bool" where
  "store_room k r \<equiv> rd_depth r + k \<le> rd_max_depth r"

interpretation store: byte_reader store_room enter read_exact
proof (unfold_locales, goal_cases)
  case (5 r bs rest)
  then have le: "rd_offset r + length bs \<le> length (rd_bytes r)"
    by (auto simp: in_bounds_def input_def dest: arg_cong [where f = length])
  then have "checked_add (rd_offset r) (length bs) = Some (rd_offset r + length bs)"
    using 5 by (auto simp: checked_add_def in_bounds_def intro: isize_max_less_usize)
  with le 5 show ?case by (simp add: read_exact_def input_def advance_def)
qed (auto simp: enter_def advance_def)

lemmas store_parse = store.parses_ret store.parses_bind_ret store.parses_bind

lemma parses_read_u8 [parse_intro]: "store.parses k read_u8 [b] b"
  unfolding read_u8_def by (rule store.parses_bind_ret [OF store.parses_exact]) simp_all

lemma parses_read_i8 [parse_intro]: "store.parses k read_i8 [b] b"
  unfolding read_i8_def by (rule parses_read_u8)

lemma parses_le:
  assumes "length (to_le_bytes w) = n" and "8 dvd LENGTH('a)"
  shows "store.parses k (rbind (read_exact n) (\<lambda>bs. rret (from_le_bytes bs)))
    (to_le_bytes w) (w :: 'a::len word)"
  using assms by (intro store.parses_bind_ret [OF store.parses_exact]) (simp_all add: from_to_le_bytes)

lemma parses_read_i16 [parse_intro]: "store.parses k read_i16 (write_i16 w) w"
  unfolding read_i16_def write_i16_def by (rule parses_le) simp_all

lemma parses_read_i32 [parse_intro]: "store.parses k read_i32 (write_i32 w) w"
  unfolding read_i32_def write_i32_def by (rule parses_le) simp_all

lemma parses_read_u32 [parse_intro]: "store.parses k read_u32 (write_u32 w) w"
  unfolding read_u32_def write_u32_def by (rule parses_le) simp_all

lemma parses_read_i64 [parse_intro]: "store.parses k read_i64 (write_i64 w) w"
  unfolding read_i64_def write_i64_def by (rule parses_le) simp_all

lemma parses_read_u64 [parse_intro]: "store.parses k read_u64 (write_u64 w) w"
  unfolding read_u64_def write_u64_def by (rule parses_le) simp_all

lemma parses_read_f32 [parse_intro]: "store.parses k read_f32 (write_f32 w) w"
  unfolding read_f32_def read_u32_def write_f32_def by (rule parses_le) simp_all

lemma parses_read_f64 [parse_intro]: "store.parses k read_f64 (write_f64 w) w"
  unfolding read_f64_def read_u64_def write_f64_def by (rule parses_le) simp_all

lemma parses_read_len [parse_intro]:
  "n < usize_limit \<Longrightarrow> store.parses k read_len (write_u64 (of_nat n)) n"
  unfolding read_len_def
  by (rule store.parses_bind_ret [OF parses_read_u64]) (simp add: unat_of_nat_usize)

text \<open>A counted sequence: the count passes the bound because every element takes a byte.\<close>

lemma parses_counted:
  assumes n: "n < usize_limit" "n \<le> length bs" and m: "store.parses k (f n) bs x"
  shows "store.parses k (rbind (read_len_bounded label) f) (write_u64 (of_nat n) @ bs) x"
proof -
  have "store.parses k (\<lambda>r. if n > remaining r then Inl (Decode (CountExceedsInput label n))
      else f n r) bs x"
  proof (rule store.parsesI)
    fix r :: reader and rest
    assume r: "rd_depth r + k \<le> rd_max_depth r" "in_bounds r" "input r = bs @ rest"
    then show "(if n > remaining r then Inl (Decode (CountExceedsInput label n)) else f n r)
        = Inr (x, advance (length bs) r)"
      using store.parsesD [OF m r] n(2) by (simp add: input_length)
  qed
  moreover have "rbind (read_len_bounded label) f = rbind read_len
      (\<lambda>len r. if len > remaining r then Inl (Decode (CountExceedsInput label len)) else f len r)"
    by (rule ext) (auto simp: read_len_bounded_def rbind_def split: sum.splits)
  ultimately show ?thesis
    by (simp only:) (rule store.parses_bind [OF parses_read_len [OF n(1)]])
qed

lemma read_vec_counted:
  "read_vec m = rbind (read_len_bounded ''vector value'') (\<lambda>len. rmany len m)"
  by (rule ext) (auto simp: read_vec_def read_len_bounded_def rbind_def split: sum.splits)

lemma parses_read_bytes [parse_intro]:
  "length bs < usize_limit \<Longrightarrow> store.parses k read_bytes (write_u64 (of_nat (length bs)) @ bs) bs"
  unfolding read_bytes_def
  by (rule store.parses_bind [OF parses_read_len store.parses_exact]) simp_all

lemma parses_read_string [parse_intro]:
  assumes "length s < usize_limit" and "wf_str s"
  shows "store.parses k read_string (write_u64 (of_nat (length s)) @ as_bytes s) s"
proof -
  have "store.parses k read_string ((write_u64 (of_nat (length (as_bytes s))) @ as_bytes s) @ []) s"
    unfolding read_string_def using assms
    by (intro store.parses_bind [OF parses_read_bytes]) (simp_all add: store.parses_ret)
  then show ?thesis by simp
qed

section \<open>Element codecs\<close>

interpretation string_codec: codec
  store_room enter read_exact
  write_string read_string wf_str
  by unfold_locales (auto intro: parses_read_string)

interpretation bytes_codec: codec
  store_room enter read_exact
  write_bytes read_bytes "\<lambda>_. True"
  by unfold_locales (auto intro: parses_read_bytes)

interpretation f64_codec: codec
  store_room enter read_exact
  "\<lambda>v. Inr (write_f64 v)" read_f64 "\<lambda>_. True"
  by unfold_locales (auto intro: parse_intro)

interpretation f32_codec: codec
  store_room enter read_exact
  "\<lambda>v. Inr (write_f32 v)" read_f32 "\<lambda>_. True"
  by unfold_locales (auto intro: parse_intro)

interpretation i64_codec: codec
  store_room enter read_exact
  "\<lambda>v. Inr (write_i64 v)" read_i64 "\<lambda>_. True"
  by unfold_locales (auto intro: parse_intro)

interpretation i32_codec: codec
  store_room enter read_exact
  "\<lambda>v. Inr (write_i32 v)" read_i32 "\<lambda>_. True"
  by unfold_locales (auto intro: parse_intro)

interpretation i16_codec: codec
  store_room enter read_exact
  "\<lambda>v. Inr (write_i16 v)" read_i16 "\<lambda>_. True"
  by unfold_locales (auto intro: parse_intro)

interpretation i8_codec: codec
  store_room enter read_exact
  "\<lambda>v. Inr [v]" read_i8 "\<lambda>_. True"
  by unfold_locales (auto intro: parse_intro)

section \<open>Vectors, binaries and the other leaves\<close>

lemma parses_vec_of:
  assumes "\<And>k n. n = length xs \<Longrightarrow> store.parses k (rmany n m) bs xs" and "length xs \<le> length bs"
    and "length xs < usize_limit" and "y = C xs"
  shows "store.parses k (rmap C (read_vec m)) (write_u64 (of_nat (length xs)) @ bs) y"
  unfolding rmap_def read_vec_counted using assms
  by (intro store.parses_bind_ret [OF parses_counted]) simp_all

lemma parses_vec_f64:
  "wseq (map (\<lambda>v. Inr (write_f64 v)) xs) = Inr bs \<Longrightarrow> length xs < usize_limit \<Longrightarrow>
   store.parses k (rmap Float64 (read_vec read_f64)) (write_u64 (of_nat (length xs)) @ bs) (Float64 xs)"
  by (rule parses_vec_of [OF f64_codec.vector_parses f64_codec.vector_count_bound])
    (simp_all add: list_all_iff)

lemma parses_vec_f32:
  "wseq (map (\<lambda>v. Inr (write_f32 v)) xs) = Inr bs \<Longrightarrow> length xs < usize_limit \<Longrightarrow>
   store.parses k (rmap Float32 (read_vec read_f32)) (write_u64 (of_nat (length xs)) @ bs) (Float32 xs)"
  by (rule parses_vec_of [OF f32_codec.vector_parses f32_codec.vector_count_bound])
    (simp_all add: list_all_iff)

lemma parses_vec_i64:
  "wseq (map (\<lambda>v. Inr (write_i64 v)) xs) = Inr bs \<Longrightarrow> length xs < usize_limit \<Longrightarrow>
   store.parses k (rmap Integer64 (read_vec read_i64)) (write_u64 (of_nat (length xs)) @ bs) (Integer64 xs)"
  by (rule parses_vec_of [OF i64_codec.vector_parses i64_codec.vector_count_bound])
    (simp_all add: list_all_iff)

lemma parses_vec_i32:
  "wseq (map (\<lambda>v. Inr (write_i32 v)) xs) = Inr bs \<Longrightarrow> length xs < usize_limit \<Longrightarrow>
   store.parses k (rmap Integer32 (read_vec read_i32)) (write_u64 (of_nat (length xs)) @ bs) (Integer32 xs)"
  by (rule parses_vec_of [OF i32_codec.vector_parses i32_codec.vector_count_bound])
    (simp_all add: list_all_iff)

lemma parses_vec_i16:
  "wseq (map (\<lambda>v. Inr (write_i16 v)) xs) = Inr bs \<Longrightarrow> length xs < usize_limit \<Longrightarrow>
   store.parses k (rmap Integer16 (read_vec read_i16)) (write_u64 (of_nat (length xs)) @ bs) (Integer16 xs)"
  by (rule parses_vec_of [OF i16_codec.vector_parses i16_codec.vector_count_bound])
    (simp_all add: list_all_iff)

lemma parses_vec_i8:
  "wseq (map (\<lambda>v. Inr [v]) xs) = Inr bs \<Longrightarrow> length xs < usize_limit \<Longrightarrow>
   store.parses k (rmap Integer8 (read_vec read_i8)) (write_u64 (of_nat (length xs)) @ bs) (Integer8 xs)"
  by (rule parses_vec_of [OF i8_codec.vector_parses i8_codec.vector_count_bound])
    (simp_all add: list_all_iff)

lemmas vec_parses = parses_vec_f64 parses_vec_f32 parses_vec_i64 parses_vec_i32 parses_vec_i16
  parses_vec_i8

lemma parses_tagged_vector:
  assumes m: "store.parses k (if tag = VECTOR_FLOAT64 then rmap Float64 (read_vec read_f64)
      else if tag = VECTOR_FLOAT32 then rmap Float32 (read_vec read_f32)
      else if tag = VECTOR_INTEGER64 then rmap Integer64 (read_vec read_i64)
      else if tag = VECTOR_INTEGER32 then rmap Integer32 (read_vec read_i32)
      else if tag = VECTOR_INTEGER16 then rmap Integer16 (read_vec read_i16)
      else if tag = VECTOR_INTEGER8 then rmap Integer8 (read_vec read_i8)
      else rfail (Decode (InvalidTag ''vector value'' tag))) out vs"
    and n: "n < usize_limit" and d: "n = vector_values_len vs"
  shows "store.parses k read_vector (write_u64 (of_nat n) @ tag # out)
    \<lparr>vec_dimension = n, vec_values = vs\<rparr>"
proof -
  have "store.parses k read_vector (write_u64 (of_nat n) @ [tag] @ out)
      \<lparr>vec_dimension = n, vec_values = vs\<rparr>"
    unfolding read_vector_def using n d
    by (intro store.parses_bind [OF parses_read_len] store.parses_bind [OF parses_read_u8]
        store.parses_bind_end [OF m]) simp_all
  then show ?thesis by simp
qed

lemma parses_read_vector:
  assumes w: "write_vector v = Inr bs" and d: "vec_dimension v = vector_values_len (vec_values v)"
  shows "store.parses k read_vector bs v"
proof -
  obtain n vs where v: "v = \<lparr>vec_dimension = n, vec_values = vs\<rparr>" by (cases v)
  show ?thesis
    using w d unfolding v by (cases vs)
      (auto simp: write_vector_def intro!: parses_tagged_vector intro: vec_parses)
qed

lemma parses_read_binary:
  assumes w: "wseq (write_len (length (bin_segments b)) # map write_bytes (bin_segments b)) = Inr bs"
    and b: "bin_len b = sum_list (map length (bin_segments b))"
  shows "store.parses k read_binary bs b"
proof -
  from w obtain out where out: "wseq (map write_bytes (bin_segments b)) = Inr out"
    and n: "length (bin_segments b) < usize_limit"
    and bs: "bs = write_u64 (of_nat (length (bin_segments b))) @ out" by auto
  have "from_segments (bin_segments b) = b" using b by (cases b) (simp add: from_segments_def)
  then have "store.parses k (rmap from_segments (rmany (length (bin_segments b)) read_bytes)) out b"
    unfolding rmap_def using out
    by (intro store.parses_bind_ret [OF bytes_codec.vector_parses]) (auto simp: list_all_iff)
  then show ?thesis
    unfolding read_binary_def bs
    using n bytes_codec.vector_count_bound [OF out] by (intro parses_counted) simp_all
qed

lemmas leaf_parses = store.parses_bind store.parses_bind_end

lemma parses_read_date_time:
  assumes z: "case dt_zone d of None \<Rightarrow> tag \<noteq> VALUE_ZONED_DATE_TIME \<and> zb = []
      | Some z \<Rightarrow> tag = VALUE_ZONED_DATE_TIME \<and> lk z = Some z \<and> wf_str z \<and> write_string z = Inr zb"
  shows "store.parses k (read_date_time lk tag)
    (write_i32 (dt_year d) @ write_u32 (dt_month d) @ write_u32 (dt_day d) @ write_u32 (dt_hour d)
     @ write_u32 (dt_minute d) @ write_u32 (dt_second d) @ write_u32 (dt_nanosecond d)
     @ write_i32 (dt_offset_seconds d) @ zb) d"
proof -
  have z: "store.parses k (if tag = VALUE_ZONED_DATE_TIME
      then rbind read_string (\<lambda>name. case lk name of
             None \<Rightarrow> rfail (Decode (UnknownTimeZone name)) | Some z \<Rightarrow> rret (Some z))
      else rret None) zb (dt_zone d)"
    using z by (cases "dt_zone d")
      (auto intro!: store.parses_bind_end [OF parses_read_string] simp: store.parses_ret simp del: rret_apply)
  then show ?thesis
    unfolding read_date_time_def
    by (intro store.parses_bind [OF parses_read_i32] store.parses_bind [OF parses_read_u32]
        store.parses_bind_end [OF z]) (cases d, simp)
qed

lemma parses_read_unzoned:
  "dt_zone d = None \<Longrightarrow> tag \<noteq> VALUE_ZONED_DATE_TIME \<Longrightarrow>
   store.parses k (read_date_time lk tag)
    (write_i32 (dt_year d) @ write_u32 (dt_month d) @ write_u32 (dt_day d) @ write_u32 (dt_hour d)
     @ write_u32 (dt_minute d) @ write_u32 (dt_second d) @ write_u32 (dt_nanosecond d)
     @ write_i32 (dt_offset_seconds d)) d"
  using parses_read_date_time [where d = d and tag = tag and zb = "[]"] by simp

lemma parses_read_point:
  "store.parses k read_point
     (write_f64 (pt_x p) @ write_f64 (pt_y p)
       @ (case pt_z p of Some z \<Rightarrow> 1 # write_f64 z | None \<Rightarrow> [0]) @ write_u32 (pt_srid p)) p"
proof -
  have z: "store.parses k (rbind read_u8 (\<lambda>tag.
        if tag = 0 then rret None
        else if tag = 1 then rmap Some read_f64
        else rfail (Decode (InvalidTag ''point z-presence'' tag))))
      (case pt_z p of Some z \<Rightarrow> 1 # write_f64 z | None \<Rightarrow> [0]) (pt_z p)"
  proof (cases "pt_z p")
    case None
    then show ?thesis by (auto intro: store.parses_bind_end [OF parses_read_u8])
  next
    case (Some z)
    have "store.parses k (rmap Some read_f64) (write_f64 z) (Some z)"
      unfolding rmap_def by (rule store.parses_bind_ret [OF parses_read_f64]) simp
    then have "store.parses k (rbind read_u8 (\<lambda>tag.
        if tag = 0 then rret None
        else if tag = 1 then rmap Some read_f64
        else rfail (Decode (InvalidTag ''point z-presence'' tag)))) ([1] @ write_f64 z) (Some z)"
      by (intro store.parses_bind [OF parses_read_u8]) simp
    with Some show ?thesis by simp
  qed
  show ?thesis
    unfolding read_point_def
    by (intro store.parses_bind [OF parses_read_f64] store.parses_bind [OF z]
        store.parses_bind_end [OF parses_read_u32]) (cases p, simp)
qed

section \<open>Round trip of property values\<close>

lemmas parses_fields = store.parses_bind [OF parses_read_i32] store.parses_bind [OF parses_read_u32]
  store.parses_bind [OF parses_read_i64] store.parses_bind [OF parses_read_f64]

lemmas parses_last_field = store.parses_bind_end [OF parses_read_u32]
  store.parses_bind_end [OF parses_read_i32] store.parses_bind_end [OF parses_read_i64]

lemma parses_rmap: "store.parses k m bs x \<Longrightarrow> y = g x \<Longrightarrow> store.parses k (rmap g m) bs y"
  unfolding rmap_def by (rule store.parses_bind_ret)

lemma parses_read_leaf:
  assumes "write_property_value v d m = Inr (tag # out)" and "wf_value lk v"
    and "\<nexists>vs. v = PvList vs" and "\<nexists>kvs. v = PvMap kvs"
  shows "tag \<noteq> VALUE_LIST \<and> tag \<noteq> VALUE_MAP \<and> store.parses k (read_leaf lk tag) out v"
proof (cases v)
  case PvNull
  then show ?thesis using assms by (simp add: read_leaf_def store.parses_ret)
next
  case (PvBool b)
  have "store.parses k (rmap (\<lambda>b. PvBool (b \<noteq> 0)) read_u8) [bool_byte b] (PvBool b)"
    by (rule parses_rmap [OF parses_read_u8]) (simp add: bool_byte_def)
  then show ?thesis using assms PvBool by (simp add: read_leaf_def)
next
  case (PvInt i)
  then show ?thesis using assms by (auto simp: read_leaf_def intro!: parses_rmap [OF parses_read_i64])
next
  case (PvFloat f)
  then show ?thesis using assms by (auto simp: read_leaf_def intro!: parses_rmap [OF parses_read_f64])
next
  case (PvString s)
  then show ?thesis using assms
    by (auto simp: read_leaf_def intro!: parses_rmap [OF parses_read_string])
next
  case (PvBinary b)
  then show ?thesis using assms
    by (auto simp: read_leaf_def simp del: wseq_eval intro!: parses_rmap [OF parses_read_binary])
next
  case (PvDate x)
  have "store.parses k
      (rbind read_i32 (\<lambda>year. rbind read_u32 (\<lambda>month. rbind read_u32 (\<lambda>day.
          rret (PvDate \<lparr>date_year = year, date_month = month, date_day = day\<rparr>)))))
      (write_i32 (date_year x) @ write_u32 (date_month x) @ write_u32 (date_day x)) (PvDate x)"
    by (intro parses_fields parses_last_field) (cases x, simp)
  then show ?thesis using assms PvDate by (auto simp: read_leaf_def)
next
  case (PvTime x)
  show ?thesis using assms PvTime
    by (clarsimp simp: read_leaf_def write_time_fields_def)
      (intro parses_fields parses_last_field; cases x, simp)
next
  case (PvLocalTime x)
  show ?thesis using assms PvLocalTime
    by (clarsimp simp: read_leaf_def write_time_fields_def)
      (intro parses_fields parses_last_field; cases x, simp)
next
  case (PvDateTime x)
  then show ?thesis using assms
    by (cases "dt_zone x")
      (auto simp: read_leaf_def write_time_fields_def write_date_fields_def
        intro!: parses_rmap [OF parses_read_date_time] parses_rmap [OF parses_read_unzoned])
next
  case (PvLocalDateTime x)
  show ?thesis using assms PvLocalDateTime
    by (clarsimp simp: read_leaf_def write_time_fields_def write_date_fields_def)
      (intro parses_fields parses_last_field; cases x, simp)
next
  case (PvDuration x)
  show ?thesis using assms PvDuration
    by (clarsimp simp: read_leaf_def) (intro parses_fields parses_last_field; cases x, simp)
next
  case (PvPoint x)
  show ?thesis using assms PvPoint
    by (auto simp: read_leaf_def intro!: parses_rmap [OF parses_read_point])
next
  case (PvVector x)
  then show ?thesis using assms
    by (auto simp: read_leaf_def intro!: parses_rmap [OF parses_read_vector])
qed (use assms in simp_all)

lemma parses_tagged:
  "store.parses k (f tag) out x \<Longrightarrow> store.parses k (rbind read_u8 f) (tag # out) x"
  using store.parses_bind [OF parses_read_u8, of k f tag out x] by simp

lemma leaf_written:
  assumes w: "write_property_value v d m = Inr bs" and "wf_value lk v" and "0 < fuel"
    and "\<nexists>vs. v = PvList vs" and "\<nexists>kvs. v = PvMap kvs"
  shows "store.parses k (read_property_value lk fuel) bs v"
proof -
  obtain tag out where bs: "bs = tag # out"
    using write_property_value_nonempty [OF w] by (cases bs) auto
  obtain f where "fuel = Suc f" using assms(3) by (cases fuel) auto
  then show ?thesis
    unfolding bs read_property_value.simps using assms
    by (auto simp: bs read_property_value.simps dest!: parses_read_leaf intro!: parses_tagged)
qed

text \<open>The round trip at every depth: room for the value's own nesting is enough.\<close>

lemma parses_read_property_value:
  assumes "write_property_value v d m = Inr bs" and "wf_value lk v" and "nesting v < fuel"
  shows "store.parses (nesting v) (read_property_value lk fuel) bs v"
  using assms
proof (induction v d m arbitrary: bs fuel rule: write_property_value.induct)
  case (6 vs d m)
  then obtain f where f: "fuel = Suc f" by (cases fuel) auto
  from 6 obtain out where d: "d < m" and n: "length vs < usize_limit"
    and out: "wseq (map (\<lambda>v. write_property_value v (d + 1) m) vs) = Inr out"
    and bs: "bs = VALUE_LIST # write_u64 (of_nat (length vs)) @ out"
    by (auto split: if_splits)
  define k where "k = fold max (map nesting vs) 0"
  have k: "nesting (PvList vs) = Suc k" by (simp add: k_def)
  have elem: "store.parses k (read_property_value lk f) b v"
    if v: "v \<in> set vs" and b: "write_property_value v (d + 1) m = Inr b" for v b
  proof -
    have "nesting v \<le> k" using v by (simp add: k_def fold_max_ge)
    moreover have "store.parses (nesting v) (read_property_value lk f) b v"
      using 6 v b d f k calculation by (intro "6.IH") (auto simp: list_all_iff)
    ultimately show ?thesis by (auto intro: store.parses_mono)
  qed
  have le: "length vs \<le> length out"
    using out by (rule wseq_map_length) (rule write_property_value_nonempty)
  have "store.parses k (rbind (read_len_bounded ''property list value'')
      (\<lambda>len. rmany len (read_property_value lk f)))
      (write_u64 (of_nat (length vs)) @ out) (map (\<lambda>v. v) vs)"
    by (rule parses_counted [OF n le], rule store.parses_many_written [OF out]) (rule elem)
  then have "store.parses (Suc k) (read_property_value lk (Suc f)) bs (PvList vs)"
    unfolding bs read_property_value.simps
    by (intro parses_tagged) (simp, rule store.parses_nested, assumption, simp)
  then show ?case by (simp only: k f)
next
  case (7 kvs d m)
  then obtain f where f: "fuel = Suc f" by (cases fuel) auto
  let ?w = "\<lambda>kv. wseq [write_string (fst kv), write_property_value (snd kv) (d + 1) m]"
  let ?r = "rbind read_string (\<lambda>key. rmap (Pair key) (read_property_value lk f))"
  from 7 obtain out where d: "d < m" and n: "length kvs < usize_limit"
    and out: "wseq (map ?w kvs) = Inr out"
    and bs: "bs = VALUE_MAP # write_u64 (of_nat (length kvs)) @ out"
    by (auto split: if_splits)
  define k where "k = fold max (map (\<lambda>kv. nesting (snd kv)) kvs) 0"
  have k: "nesting (PvMap kvs) = Suc k" by (simp add: k_def)
  have elem: "store.parses k ?r b kv" if kv: "kv \<in> set kvs" and b: "?w kv = Inr b" for kv b
  proof -
    from b obtain c where c: "write_property_value (snd kv) (d + 1) m = Inr c"
      and l: "length (fst kv) < usize_limit"
      and bc: "b = (write_u64 (of_nat (length (fst kv))) @ as_bytes (fst kv)) @ c" by auto
    have s: "nesting (snd kv) \<le> k" using kv by (simp add: k_def fold_max_ge)
    have "store.parses (nesting (snd kv)) (read_property_value lk f) c (snd kv)"
      using 7 kv c d f k s by (intro "7.IH") (auto simp: list_all_iff)
    then have "store.parses k (read_property_value lk f) c (snd kv)"
      by (rule store.parses_mono) (rule s)
    then have "store.parses k (rmap (Pair (fst kv)) (read_property_value lk f)) c kv"
      by (rule parses_rmap) simp
    then show ?thesis unfolding bc using 7 kv l
      by (intro store.parses_bind [OF parses_read_string]) (auto simp: list_all_iff)
  qed
  have le: "length kvs \<le> length out"
    using out by (rule wseq_map_length) auto
  have "store.parses k (rbind (read_len_bounded ''property map entry'') (\<lambda>len. rmany len ?r))
      (write_u64 (of_nat (length kvs)) @ out) (map (\<lambda>kv. kv) kvs)"
    by (rule parses_counted [OF n le], rule store.parses_many_written [OF out]) (rule elem)
  then have "store.parses (Suc k) (read_property_value lk (Suc f)) bs (PvMap kvs)"
    unfolding bs read_property_value.simps using 7
    by (intro parses_tagged) (simp, rule store.parses_nested, assumption, simp)
  then show ?case by (simp only: k f)
qed (rule leaf_written, assumption, assumption, simp, simp, simp)+

end
