(* ===== verification/Store_Values.thy ===== *)
theory Store_Values
  imports Store_Codec
begin

text \<open>
  What the store's value codec guarantees: the recursion bound of the model is irrelevant, a decoded
  value is well formed and nests no deeper than the reader's limit, the encoder refuses exactly the
  values that nest deeper, and every value that is encoded decodes to itself.
\<close>

section \<open>The recursion bound\<close>

abbreviation reads_alike :: "nat \<Rightarrow> 'a read \<Rightarrow> 'a read \<Rightarrow> bool" where
  "reads_alike \<equiv> agree (Decode OutOfFuel)"

lemma agree_enter [agree_intro]: "reads_alike n enter enter"
  by (auto simp: agree_def enter_def remaining_def split: if_splits)

lemma agree_read_exact [agree_intro]: "reads_alike n (read_exact k) (read_exact k)"
  by (auto simp: agree_def read_exact_def remaining_def checked_add_def split: if_splits)

lemma agree_read_u8_byte:
  assumes "\<And>k x. n = Suc k \<Longrightarrow> reads_alike k (f x) (f' x)"
  shows "reads_alike n (rbind read_u8 f) (rbind read_u8 f')"
  unfolding agree_def
proof (intro allI impI)
  fix r :: reader
  assume n: "remaining r \<le> n"
  show "rbind read_u8 f r = rbind read_u8 f' r \<and> rbind read_u8 f r \<noteq> Inl (Decode OutOfFuel) \<and>
    (\<forall>x r'. rbind read_u8 f r = Inr (x, r') \<longrightarrow> remaining r' \<le> remaining r)"
  proof (cases "read_u8 r")
    case (Inl d)
    then have "d \<noteq> Decode OutOfFuel"
      by (auto simp: read_u8_def read_exact_def rbind_def split: option.splits if_splits)
    with Inl show ?thesis by (simp add: rbind_Inl)
  next
    case (Inr p)
    obtain x r' where p: "p = (x, r')" by (cases p)
    with Inr have less: "remaining r = Suc (remaining r')"
      by (auto simp: read_u8_def read_exact_def remaining_def checked_add_def
          split: option.splits if_splits)
    with n obtain k where k: "n = Suc k" "remaining r' \<le> k" by (cases n) auto
    from assms [OF k(1), of x, unfolded agree_def, rule_format, OF k(2)] Inr p less
    show ?thesis by (auto simp: rbind_Inr intro: le_SucI)
  qed
qed

lemma agree_prims [agree_intro]:
  "reads_alike n read_u8 read_u8" "reads_alike n read_i8 read_i8"
  "reads_alike n read_i16 read_i16" "reads_alike n read_i32 read_i32"
  "reads_alike n read_u32 read_u32" "reads_alike n read_i64 read_i64"
  "reads_alike n read_u64 read_u64" "reads_alike n read_f32 read_f32"
  "reads_alike n read_f64 read_f64" "reads_alike n read_len read_len"
  unfolding read_u8_def read_i8_def read_i16_def read_i32_def read_u32_def read_i64_def
    read_u64_def read_f32_def read_f64_def read_len_def
  by (intro agree_intro)+

lemma agree_read_len_bounded [agree_intro]:
  "reads_alike n (read_len_bounded l) (read_len_bounded l)"
  unfolding read_len_bounded_def by (intro agree_intro) simp

lemma agree_read_string [agree_intro]: "reads_alike n read_string read_string"
  unfolding read_string_def read_bytes_def by (intro agree_intro) simp

lemma agree_read_vec [agree_intro]: "reads_alike n m m' \<Longrightarrow> reads_alike n (read_vec m) (read_vec m')"
  unfolding read_vec_def by (intro agree_intro) simp_all

lemma agree_read_vector [agree_intro]: "reads_alike n read_vector read_vector"
  unfolding read_vector_def by (intro agree_intro) simp_all

lemma agree_read_binary [agree_intro]: "reads_alike n read_binary read_binary"
  unfolding read_binary_def read_bytes_def by (intro agree_intro)

lemma agree_read_date_time [agree_intro]: "reads_alike n (read_date_time lk t) (read_date_time lk t)"
  unfolding read_date_time_def by (intro agree_intro) simp

lemma agree_read_point [agree_intro]: "reads_alike n read_point read_point"
  unfolding read_point_def by (intro agree_intro) simp

lemma agree_read_leaf [agree_intro]: "reads_alike n (read_leaf lk t) (read_leaf lk t)"
  unfolding read_leaf_def by (intro agree_intro) simp

lemma agree_read_property_value:
  "n < fuel \<Longrightarrow> n < fuel' \<Longrightarrow>
   reads_alike n (read_property_value lk fuel) (read_property_value lk fuel')"
proof (induction n arbitrary: fuel fuel')
  case 0
  then obtain f f' where f: "fuel = Suc f" "fuel' = Suc f'" by (cases fuel; cases fuel') auto
  show ?case unfolding f read_property_value.simps by (rule agree_read_u8_byte) simp
next
  case (Suc n)
  then obtain f f' where f: "fuel = Suc f" "fuel' = Suc f'" by (cases fuel; cases fuel') auto
  with Suc have ih: "reads_alike n (read_property_value lk f) (read_property_value lk f')" by simp
  show ?case unfolding f read_property_value.simps
    by (rule agree_read_u8_byte) (auto intro!: agree_intro ih)
qed

lemma agree_finish [agree_intro]: "reads_alike n finish finish"
  by (auto simp: agree_def finish_def remaining_def)

text \<open>A value nests less deep than its encoding is long.\<close>

lemma nesting_le_written:
  assumes "wseq (map w xs) = Inr out"
    and "\<And>x b. x \<in> set xs \<Longrightarrow> w x = Inr b \<Longrightarrow> (f x :: nat) \<le> length b"
  shows "fold max (map f xs) 0 \<le> length out"
proof -
  have "\<forall>x \<in> set xs. f x \<le> length out"
    using assms
  proof (induction xs arbitrary: out)
    case (Cons x xs)
    then obtain a c where "w x = Inr a" "wseq (map w xs) = Inr c" "out = a @ c" by auto
    with Cons.IH [of c] Cons.prems(2) show ?case by fastforce
  qed simp
  then show ?thesis by (intro fold_max_le) auto
qed

lemma nesting_less_length: "write_property_value v d m = Inr bs \<Longrightarrow> nesting v < length bs"
proof (induction v d m arbitrary: bs rule: write_property_value.induct)
  case (6 vs d m)
  then obtain out where out: "wseq (map (\<lambda>v. write_property_value v (d + 1) m) vs) = Inr out"
    and d: "d < m" and bs: "bs = VALUE_LIST # write_u64 (of_nat (length vs)) @ out"
    by (auto split: if_splits)
  have "fold max (map nesting vs) 0 \<le> length out"
    using out by (rule nesting_le_written) (use "6.IH" d in \<open>force intro: less_imp_le\<close>)
  then show ?case by (simp add: bs)
next
  case (7 kvs d m)
  let ?w = "\<lambda>kv. wseq [write_string (fst kv), write_property_value (snd kv) (d + 1) m]"
  from 7 obtain out where out: "wseq (map ?w kvs) = Inr out"
    and d: "d < m" and bs: "bs = VALUE_MAP # write_u64 (of_nat (length kvs)) @ out"
    by (auto split: if_splits)
  have "fold max (map (\<lambda>kv. nesting (snd kv)) kvs) 0 \<le> length out"
    using out by (rule nesting_le_written) (use "7.IH" d in \<open>fastforce intro: less_imp_le\<close>)
  then show ?case by (simp add: bs)
qed (auto dest: write_property_value_nonempty)

section \<open>What the decoder returns\<close>

abbreviation at_depth :: "nat \<Rightarrow> nat \<Rightarrow> reader \<Rightarrow> bool" where
  "at_depth d m r \<equiv> rd_depth r = d \<and> rd_max_depth r = m"

lemma delivers_read_exact: "delivers (at_depth d m) (\<lambda>bs. length bs = n) (read_exact n)"
  by (auto simp: delivers_def read_exact_def checked_add_def split: if_splits)

lemma delivers_le:
  "delivers (at_depth d m) (\<lambda>_. True) (rbind (read_exact n) (\<lambda>bs. rret (g bs)))"
  by (rule delivers_rbind [OF delivers_read_exact]) (rule delivers_rret, simp)

lemma delivers_prims:
  "delivers (at_depth d m) (\<lambda>_. True) read_u8" "delivers (at_depth d m) (\<lambda>_. True) read_i8"
  "delivers (at_depth d m) (\<lambda>_. True) read_i16" "delivers (at_depth d m) (\<lambda>_. True) read_i32"
  "delivers (at_depth d m) (\<lambda>_. True) read_u32" "delivers (at_depth d m) (\<lambda>_. True) read_i64"
  "delivers (at_depth d m) (\<lambda>_. True) read_u64" "delivers (at_depth d m) (\<lambda>_. True) read_f32"
  "delivers (at_depth d m) (\<lambda>_. True) read_f64"
  unfolding read_u8_def read_i8_def read_i16_def read_i32_def read_u32_def read_i64_def
    read_u64_def read_f32_def read_f64_def
  by (rule delivers_le)+

lemma delivers_read_len: "delivers (at_depth d m) (\<lambda>_. True) read_len"
  unfolding read_len_def by (rule delivers_rbind [OF delivers_prims(7)]) (rule delivers_rret, simp)

lemma delivers_read_len_bounded: "delivers (at_depth d m) (\<lambda>_. True) (read_len_bounded l)"
  unfolding read_len_bounded_def
  by (rule delivers_rbind [OF delivers_read_len]) (auto simp: delivers_def split: if_splits)

lemma delivers_read_bytes: "delivers (at_depth d m) (\<lambda>_. True) read_bytes"
  unfolding read_bytes_def
  by (rule delivers_rbind [OF delivers_read_len delivers_weaken [OF delivers_read_exact]]) simp

lemma delivers_read_string: "delivers (at_depth d m) wf_str read_string"
  unfolding read_string_def
  by (rule delivers_rbind [OF delivers_read_bytes])
    (auto simp: delivers_def dest: from_utf8_wf split: option.splits)

lemmas delivers_steps = delivers_prims [THEN delivers_rbind] delivers_read_len [THEN delivers_rbind]
  delivers_read_string [THEN delivers_rbind]

lemma delivers_any: "delivers S (\<lambda>_. True) m \<Longrightarrow> delivers S (\<lambda>_. True) (rmap g m)"
  by (rule delivers_rmap)

lemma delivers_read_vec:
  "delivers (at_depth d m) (\<lambda>_. True) k \<Longrightarrow> delivers (at_depth d m) (\<lambda>_. True) (read_vec k)"
  unfolding read_vec_def
  by (rule delivers_rbind [OF delivers_read_len], rule delivers_guard, rule delivers_True_rmany)

lemma delivers_read_vector:
  "delivers (at_depth d m) (\<lambda>v. vec_dimension v = vector_values_len (vec_values v)) read_vector"
  unfolding read_vector_def
  by (intro delivers_steps,
      rule delivers_rbind [where P = "\<lambda>_. True"])
    (auto intro!: deliver_intro delivers_any delivers_read_vec delivers_prims delivers_rret)

lemma delivers_read_binary:
  "delivers (at_depth d m) (\<lambda>b. bin_len b = sum_list (map length (bin_segments b))) read_binary"
  unfolding read_binary_def
  by (rule delivers_rbind [OF delivers_read_len_bounded],
      rule delivers_rmap [OF delivers_rmany [OF delivers_read_bytes]])
    (simp add: from_segments_def)

definition zone_lookup_ok :: "(string \<Rightarrow> string option) \<Rightarrow> bool" where
  "zone_lookup_ok lk \<longleftrightarrow> (\<forall>name z. lk name = Some z \<longrightarrow> wf_str z \<and> lk z = Some z)"

lemma delivers_read_date_time:
  assumes "zone_lookup_ok lk"
  shows "delivers (at_depth d m) (\<lambda>v. wf_value lk (PvDateTime v)) (read_date_time lk tag)"
  unfolding read_date_time_def
  by (intro delivers_steps,
      rule delivers_rbind [where P = "\<lambda>zone. case zone of None \<Rightarrow> True
        | Some z \<Rightarrow> wf_str z \<and> lk z = Some z"])
    (use assms in \<open>auto simp: zone_lookup_ok_def split: option.splits
       intro!: deliver_intro delivers_steps delivers_rret\<close>)

lemma delivers_read_point: "delivers (at_depth d m) (\<lambda>_. True) read_point"
  unfolding read_point_def
  by (intro delivers_steps, rule delivers_rbind [where P = "\<lambda>_. True"])
    (intro deliver_intro delivers_steps delivers_rret delivers_any delivers_prims TrueI)+

lemma delivers_read_leaf:
  assumes "zone_lookup_ok lk"
  shows "delivers (at_depth d m) (\<lambda>v. wf_value lk v \<and> nesting v = 0) (read_leaf lk tag)"
  unfolding read_leaf_def
  by (intro deliver_intro delivers_steps delivers_rret delivers_rmap [OF delivers_prims(1)]
      delivers_rmap [OF delivers_prims(6)] delivers_rmap [OF delivers_prims(9)]
      delivers_rmap [OF delivers_read_string] delivers_rmap [OF delivers_read_vector]
      delivers_rmap [OF delivers_read_binary] delivers_rmap [OF delivers_read_date_time [OF assms]]
      delivers_rmap [OF delivers_read_point]) auto

lemma delivers_nested:
  assumes "delivers (at_depth (Suc d) m) P k" and "\<And>x. d < m \<Longrightarrow> P x \<Longrightarrow> Q (g x)"
  shows "delivers (at_depth d m) Q
    (rbind enter (\<lambda>_. rbind k (\<lambda>x. rbind leave (\<lambda>_. rret (g x)))))"
  unfolding delivers_def
proof (intro allI impI)
  fix r x r'
  assume r: "at_depth d m r"
    and run: "rbind enter (\<lambda>_. rbind k (\<lambda>x. rbind leave (\<lambda>_. rret (g x)))) r = Inr (x, r')"
  then obtain y s where d: "d < m" and k: "k (r\<lparr>rd_depth := Suc d\<rparr>) = Inr (y, s)"
    and x: "x = g y" and r': "r' = s\<lparr>rd_depth := rd_depth s - 1\<rparr>"
    by (auto simp: enter_def leave_def split: if_splits)
  from deliversD [OF assms(1) _ k] r have "P y" "at_depth (Suc d) m s" by simp_all
  with assms(2) d r' x show "Q x \<and> at_depth d m r'" by simp
qed

lemma delivers_read_property_value:
  assumes lk: "zone_lookup_ok lk"
  shows "delivers (at_depth d m) (\<lambda>v. wf_value lk v \<and> nesting v \<le> m - d)
    (read_property_value lk fuel)"
proof (induction fuel arbitrary: d)
  case 0
  show ?case by (simp add: read_property_value.simps delivers_def)
next
  case (Suc fuel)
  let ?P = "\<lambda>d v. wf_value lk v \<and> nesting v \<le> m - d"
  have list: "delivers (at_depth (Suc d) m) (list_all (?P (Suc d)))
      (rbind (read_len_bounded ''property list value'')
        (\<lambda>len. rmany len (read_property_value lk fuel)))"
    by (rule delivers_rbind [OF delivers_read_len_bounded], rule delivers_rmany, rule Suc)
  have map: "delivers (at_depth (Suc d) m)
      (list_all (\<lambda>kv. wf_str (fst kv) \<and> ?P (Suc d) (snd kv)))
      (rbind (read_len_bounded ''property map entry'') (\<lambda>len. rmany len
        (rbind read_string (\<lambda>key. rmap (Pair key) (read_property_value lk fuel)))))"
    by (rule delivers_rbind [OF delivers_read_len_bounded], rule delivers_rmany,
        rule delivers_rbind [OF delivers_read_string], rule delivers_rmap [OF Suc]) simp
  show ?case
    unfolding read_property_value.simps
  proof (rule delivers_rbind [OF delivers_prims(1)], intro delivers_if)
    show "delivers (at_depth d m) (?P d) (rbind enter (\<lambda>_. rbind
        (rbind (read_len_bounded ''property list value'')
          (\<lambda>len. rmany len (read_property_value lk fuel)))
        (\<lambda>vs. rbind leave (\<lambda>_. rret (PvList vs)))))"
    proof (rule delivers_nested [OF list])
      fix vs
      assume "d < m" and vs: "list_all (?P (Suc d)) vs"
      then have "Suc (m - Suc d) = m - d" by simp
      moreover have "nesting (PvList vs) \<le> Suc (m - Suc d)"
        using vs unfolding nesting_list_le by (simp add: list_all_iff)
      ultimately show "?P d (PvList vs)" using vs by (simp add: list_all_iff)
    qed
  next
    show "delivers (at_depth d m) (?P d) (rbind enter (\<lambda>_. rbind
        (rbind (read_len_bounded ''property map entry'') (\<lambda>len. rmany len
          (rbind read_string (\<lambda>key. rmap (Pair key) (read_property_value lk fuel)))))
        (\<lambda>kvs. rbind leave (\<lambda>_. rret (PvMap (btree_of kvs))))))"
    proof (rule delivers_nested [OF map])
      fix kvs
      assume "d < m" and kvs: "list_all (\<lambda>kv. wf_str (fst kv) \<and> ?P (Suc d) (snd kv)) kvs"
      then have "Suc (m - Suc d) = m - d" by simp
      moreover have "nesting (PvMap (btree_of kvs)) \<le> Suc (m - Suc d)"
        unfolding nesting_map_le using kvs by (intro list_all_btree_of) (simp add: list_all_iff)
      moreover have "wf_value lk (PvMap (btree_of kvs))"
        using kvs by (intro wf_map_btree_of) (simp add: list_all_iff)
      ultimately show "?P d (PvMap (btree_of kvs))" by simp
    qed
  next
    show "delivers (at_depth d m) (?P d) (read_leaf lk tag)" for tag
      by (rule delivers_weaken [OF delivers_read_leaf [OF lk]]) simp
  qed
qed

section \<open>What the encoder refuses\<close>

text \<open>Every length fits the eight-byte length field, as every Rust allocation does.\<close>

fun lens_ok :: "property_value \<Rightarrow> bool" where
  "lens_ok (PvString s) = (length s < usize_limit)"
| "lens_ok (PvList vs) = (length vs < usize_limit \<and> list_all lens_ok vs)"
| "lens_ok (PvMap kvs) = (length kvs < usize_limit \<and>
     list_all (\<lambda>kv. length (fst kv) < usize_limit \<and> lens_ok (snd kv)) kvs)"
| "lens_ok (PvDateTime d) = (case dt_zone d of None \<Rightarrow> True | Some z \<Rightarrow> length z < usize_limit)"
| "lens_ok (PvVector v) = (vector_values_len (vec_values v) < usize_limit)"
| "lens_ok (PvBinary b) = (length (bin_segments b) < usize_limit \<and>
     list_all (\<lambda>s. length s < usize_limit) (bin_segments b))"
| "lens_ok _ = True"

lemma write_len_ok: "n < usize_limit \<Longrightarrow> write_len n = Inr (write_u64 (of_nat n))"
  by simp

lemma write_vector_ok: "vector_values_len (vec_values v) < usize_limit \<Longrightarrow> \<exists>bs. write_vector v = Inr bs"
  by (cases "vec_values v") (auto simp: write_vector_def write_len_ok wseq_Inr_iff)

lemma write_leaf_ok:
  assumes "lens_ok v" and "\<nexists>vs. v = PvList vs" and "\<nexists>kvs. v = PvMap kvs"
  shows "\<exists>bs. write_property_value v d m = Inr bs"
  using assms
  by (cases v) (auto simp: wseq_Inr_iff list_all_iff write_vector_ok split: option.splits)

lemma write_leaf_ok_iff:
  assumes "lens_ok v" and "d \<le> m" and "\<nexists>vs. v = PvList vs" and "\<nexists>kvs. v = PvMap kvs"
  shows "(\<exists>bs. write_property_value v d m = Inr bs) \<longleftrightarrow> d + nesting v \<le> m"
  using write_leaf_ok [OF assms(1,3,4)] assms by (cases v) auto

text \<open>The only error is the nesting limit, and it is hit exactly when the value is too deep.\<close>

lemma write_property_value_ok:
  "lens_ok v \<Longrightarrow> d \<le> m \<Longrightarrow>
   (\<exists>bs. write_property_value v d m = Inr bs) \<longleftrightarrow> d + nesting v \<le> m"
proof (induction v d m rule: write_property_value.induct)
  case (6 vs d m)
  show ?case
  proof (cases "d < m")
    case True
    then obtain k where m: "m = d + Suc k" using less_imp_Suc_add by auto
    have "(\<exists>bs. write_property_value v (d + 1) m = Inr bs) \<longleftrightarrow> nesting v \<le> k"
      if "v \<in> set vs" for v
      using "6.IH" [OF _ that] "6.prems" that m by (auto simp: list_all_iff)
    then show ?thesis using True "6.prems" unfolding m add_le_cancel_left nesting_list_le
      by (auto simp: wseq_Inr_iff list_all_iff write_len_ok)
  qed simp
next
  case (7 kvs d m)
  show ?case
  proof (cases "d < m")
    case True
    then obtain k where m: "m = d + Suc k" using less_imp_Suc_add by auto
    have "(\<exists>bs. write_property_value (snd kv) (d + 1) m = Inr bs) \<longleftrightarrow> nesting (snd kv) \<le> k"
      if "kv \<in> set kvs" for kv
      using "7.IH" [OF _ that] "7.prems" that m by (auto simp: list_all_iff)
    then show ?thesis using True "7.prems" unfolding m add_le_cancel_left nesting_map_le
      by (auto simp: wseq_Inr_iff list_all_iff write_len_ok)
  qed simp
qed (rule write_leaf_ok_iff; simp)+

lemma wseq_map_Inl: "wseq (map w xs) = Inl e \<Longrightarrow> \<exists>x \<in> set xs. w x = Inl e"
  using wseq_Inl [of "map w xs" e] by force

lemma write_property_value_error:
  "lens_ok v \<Longrightarrow> write_property_value v d m = Inl e \<Longrightarrow> e = Encode EncodeNesting"
proof (induction v d m arbitrary: e rule: write_property_value.induct)
  case (6 vs d m)
  then show ?case
    by (auto simp: write_len_ok list_all_iff split: if_splits dest!: wseq_map_Inl)
next
  case (7 kvs d m)
  show ?case
  proof (cases "d < m")
    case True
    with 7 obtain kv where kv: "kv \<in> set kvs"
      and e: "wseq [write_string (fst kv), write_property_value (snd kv) (d + 1) m] = Inl e"
      by (auto simp: write_len_ok dest!: wseq_map_Inl)
    have "length (fst kv) < usize_limit" "lens_ok (snd kv)"
      using 7 kv by (auto simp: list_all_iff)
    with e have "write_property_value (snd kv) (d + 1) m = Inl e"
      by (auto simp: write_string_def write_bytes_def write_len_ok dest: wseq_Inl)
    then show ?thesis using 7 kv True \<open>lens_ok (snd kv)\<close> by simp
  qed (use 7 in simp)
qed (use write_leaf_ok in \<open>fastforce+\<close>)

section \<open>Properties of the store's value codec\<close>

lemma decode_run:
  assumes "store.parses k m bs v" and "rd_depth r + k \<le> rd_max_depth r" and "rd_bytes r = bs"
    and "rd_offset r = 0" and "length bs \<le> isize_max"
  shows "run_read (rbind m (\<lambda>value. rbind finish (\<lambda>_. rret value))) r = Inr v"
  using store.parses_run [OF assms(1), of r] assms(2-5)
  by (simp add: run_read_def rbind_Inr finish_def)

lemma decode_inverts:
  assumes w: "write_property_value v 0 m = Inr bs" and wf: "wf_value lk v"
    and l: "length bs \<le> isize_max" and r: "rd_max_depth r = m" "rd_bytes r = bs" "rd_offset r = 0"
      "rd_depth r = 0"
  shows "run_read (rbind (read_property_value lk (Suc (length bs)))
    (\<lambda>value. rbind finish (\<lambda>_. rret value))) r = Inr v"
proof (rule decode_run)
  show "store.parses (nesting v) (read_property_value lk (Suc (length bs))) bs v"
    using nesting_less_length [OF w] by (intro parses_read_property_value [OF w wf]) simp
  show "rd_depth r + nesting v \<le> rd_max_depth r"
    using write_property_value_nesting [OF w] r by auto
qed (use l r in simp_all)

text \<open>Values for the concrete instances of the properties.\<close>

definition sample_value :: property_value where
  "sample_value = PvMap [(''a'', PvList [PvInt 7, PvNull, PvString ''hi'']),
     (''b'', PvVector \<lparr>vec_dimension = 2, vec_values = Integer16 [1, 2]\<rparr>)]"

fun nest_list :: "nat \<Rightarrow> property_value" where
  "nest_list 0 = PvNull"
| "nest_list (Suc n) = PvList [nest_list n]"

lemma nesting_nest_list: "nesting (nest_list n) = n"
  by (induction n) simp_all

lemma lens_ok_nest_list: "lens_ok (nest_list n)"
  by (induction n) (simp_all add: usize_limit_def)

lemma wf_nest_list: "wf_value lk (nest_list n)"
  by (induction n) simp_all

lemma length_nest_list: "write_property_value (nest_list n) d m = Inr bs \<Longrightarrow> length bs \<le> n * 9 + 1"
  by (induction n arbitrary: d bs) (fastforce split: if_splits)+

lemma sample_written: "\<exists>bs. write_property_value sample_value 0 (128 + k) = Inr bs \<and> length bs \<le> 1000"
  by (simp add: sample_value_def write_len_ok write_string_def write_bytes_def usize_limit_def
      write_vector_def)

lemma wf_sample: "wf_value lk sample_value"
  by (simp add: sample_value_def wf_str_def as_bytes_def byte_of_char_def)

lemma sample_decoded: "\<exists>bs. decode_property_value lk bs = Inr sample_value"
proof -
  obtain bs where bs: "write_property_value sample_value 0 (128 + 0) = Inr bs"
    and "length bs \<le> 1000" using sample_written by blast
  then have "decode_property_value lk bs = Inr sample_value"
    unfolding decode_property_value_def
    by (intro decode_inverts [OF bs wf_sample])
      (simp_all add: reader_new_def MAX_VALUE_NESTING_def isize_max_def)
  then show ?thesis ..
qed

text \<open>
  C26. Round trip: whatever \<open>encode_property_value\<close> writes for a well-formed value,
  \<open>decode_property_value\<close> reads back as that value.
\<close>

theorem property_value_roundtrip:
  assumes "encode_property_value v = Inr bs" and "wf_value lk v" and "length bs \<le> isize_max"
  shows "decode_property_value lk bs = Inr v"
  using assms unfolding encode_property_value_def decode_property_value_def
  by (intro decode_inverts) (simp_all add: reader_new_def)

theorem property_value_roundtrip_witness:
  "\<exists>bs. encode_property_value sample_value = Inr bs \<and>
     decode_property_value (\<lambda>_. None) bs = Inr sample_value"
proof -
  obtain bs where bs: "encode_property_value sample_value = Inr bs" and "length bs \<le> 1000"
    using sample_written [of 0] by (auto simp: encode_property_value_def MAX_VALUE_NESTING_def)
  then have "decode_property_value (\<lambda>_. None) bs = Inr sample_value"
    by (intro property_value_roundtrip [OF bs wf_sample]) (simp add: isize_max_def)
  with bs show ?thesis by blast
qed

text \<open>
  The in-memory record encoding, which has no nesting limit, round-trips as well, at any depth
  an allocation can hold.
\<close>

theorem stored_property_value_roundtrip:
  assumes "encode_stored_property_value v = Inr bs" and "wf_value lk v" and "length bs \<le> isize_max"
  shows "decode_stored_property_value lk bs = Inr v"
  using assms unfolding encode_stored_property_value_def decode_stored_property_value_def
  by (intro decode_inverts) (simp_all add: reader_new_def)

theorem stored_property_value_roundtrip_witness:
  "\<exists>bs. encode_stored_property_value (nest_list 300) = Inr bs \<and>
     decode_stored_property_value (\<lambda>_. None) bs = Inr (nest_list 300)"
proof -
  have "\<exists>bs. encode_stored_property_value (nest_list 300) = Inr bs"
    unfolding encode_stored_property_value_def
    by (subst write_property_value_ok)
      (simp_all add: lens_ok_nest_list nesting_nest_list usize_limit_def)
  then obtain bs where bs: "encode_stored_property_value (nest_list 300) = Inr bs" ..
  moreover have "length bs \<le> 300 * 9 + 1"
    using length_nest_list [OF bs [unfolded encode_stored_property_value_def]] .
  ultimately have "decode_stored_property_value (\<lambda>_. None) bs = Inr (nest_list 300)"
    by (intro stored_property_value_roundtrip [OF bs]) (simp_all add: isize_max_def wf_nest_list)
  with bs show ?thesis by blast
qed

text \<open>
  The encoder refuses exactly the values that nest more than \<open>MAX_VALUE_NESTING\<close> lists and
  maps, with the nesting error, and encodes every other value.
\<close>

theorem encode_property_value_refuses:
  assumes "lens_ok v"
  shows "if nesting v \<le> MAX_VALUE_NESTING then \<exists>bs. encode_property_value v = Inr bs
    else encode_property_value v = Inl (Encode EncodeNesting)"
proof -
  note ok = write_property_value_ok [OF assms, of 0 MAX_VALUE_NESTING]
  show ?thesis
  proof (cases "write_property_value v 0 MAX_VALUE_NESTING")
    case (Inl e)
    with ok write_property_value_error [OF assms Inl] show ?thesis
      by (auto simp: encode_property_value_def)
  next
    case (Inr bs)
    with ok show ?thesis by (auto simp: encode_property_value_def)
  qed
qed

theorem encode_property_value_refuses_witness:
  "encode_property_value (nest_list 129) = Inl (Encode EncodeNesting)"
  using encode_property_value_refuses [OF lens_ok_nest_list, of 129]
  by (simp add: nesting_nest_list MAX_VALUE_NESTING_def)

text \<open>
  C38. Whatever bytes it is given, a value \<open>decode_property_value\<close> returns is well formed (valid
  UTF-8, sorted maps without duplicate keys, consistent vector dimensions and binary lengths, known
  zones) and nests at most \<open>MAX_VALUE_NESTING\<close> lists and maps, so that it can be encoded again.
\<close>

theorem decode_property_value_wf:
  assumes "zone_lookup_ok lk" and "decode_property_value lk bs = Inr v"
  shows "wf_value lk v \<and> nesting v \<le> MAX_VALUE_NESTING"
proof -
  from assms(2) obtain r where "read_property_value lk (Suc (length bs)) (reader_new bs) = Inr (v, r)"
    by (auto simp: decode_property_value_def run_read_def)
  moreover have "at_depth 0 MAX_VALUE_NESTING (reader_new bs)" by (simp add: reader_new_def)
  ultimately show ?thesis
    using deliversD [OF delivers_read_property_value [OF assms(1), of 0 MAX_VALUE_NESTING]]
    by (metis diff_zero)
qed

theorem decode_property_value_wf_witness:
  "\<exists>bs. decode_property_value (\<lambda>_. None) bs = Inr sample_value
     \<and> wf_value (\<lambda>_. None) sample_value \<and> nesting sample_value \<le> MAX_VALUE_NESTING"
proof -
  obtain bs where bs: "decode_property_value (\<lambda>_. None) bs = Inr sample_value"
    using sample_decoded by blast
  have "zone_lookup_ok (\<lambda>_. None)" by (simp add: zone_lookup_ok_def)
  from decode_property_value_wf [OF this bs] bs show ?thesis by blast
qed

text \<open>
  C39. The decoder's recursion bound never matters: any bound above the number of input bytes gives
  the same result, and that result is one of the code's own, not the model's \<open>OutOfFuel\<close>.
\<close>

theorem decode_property_value_bound:
  assumes "length bs < fuel"
  shows "run_read (rbind (read_property_value lk fuel) (\<lambda>v. rbind finish (\<lambda>_. rret v))) (reader_new bs)
      = decode_property_value lk bs
    \<and> decode_property_value lk bs \<noteq> Inl (Decode OutOfFuel)"
proof -
  let ?run = "\<lambda>f. rbind (read_property_value lk f) (\<lambda>v. rbind finish (\<lambda>_. rret v))"
  have "reads_alike (length bs) (?run (Suc (length bs))) (?run fuel)"
    using assms by (intro agree_intro agree_read_property_value) simp_all
  note same = agreeD [OF this, of "reader_new bs"]
  have "remaining (reader_new bs) \<le> length bs" by (simp add: remaining_def reader_new_def)
  note same = same [OF this]
  show ?thesis
    unfolding decode_property_value_def run_read_def same(1) [symmetric]
    using same(2) by simp
qed

theorem decode_property_value_bound_witness:
  "run_read (rbind (read_property_value (\<lambda>_. None) 100) (\<lambda>v. rbind finish (\<lambda>_. rret v)))
     (reader_new [5, 1]) = decode_property_value (\<lambda>_. None) [5, 1]"
  by (rule decode_property_value_bound [THEN conjunct1]) simp

end
