(* ===== verification/Schema_Types.thy ===== *)
theory Schema_Types
  imports Byte_Format
begin

text \<open>
  The schema objects of the store: index and constraint definitions and requests, as declared in
  \<open>crates/lora-store/src/memory/index_catalog.rs\<close> and \<open>constraint_catalog.rs\<close>, with the total order
  the code derives for \<open>StoredIndexEntity\<close>. A \<open>BTreeMap\<close> is its entries in key order.
\<close>

section \<open>Indexes\<close>

datatype stored_index_kind = Range | Text | Point | Lookup | Vector | Fulltext

definition index_kind_as_str :: "stored_index_kind \<Rightarrow> string" where
  "index_kind_as_str k = (case k of
      Range \<Rightarrow> ''RANGE'' | Text \<Rightarrow> ''TEXT'' | Point \<Rightarrow> ''POINT'' | Lookup \<Rightarrow> ''LOOKUP''
    | Vector \<Rightarrow> ''VECTOR'' | Fulltext \<Rightarrow> ''FULLTEXT'')"

datatype stored_index_entity = Node | Relationship

definition index_entity_as_str :: "stored_index_entity \<Rightarrow> string" where
  "index_entity_as_str e = (case e of Node \<Rightarrow> ''NODE'' | Relationship \<Rightarrow> ''RELATIONSHIP'')"

text \<open>The derived \<open>Ord\<close>: declaration order.\<close>

instantiation stored_index_entity :: linorder
begin

definition less_eq_stored_index_entity :: "stored_index_entity \<Rightarrow> stored_index_entity \<Rightarrow> bool" where
  "less_eq_stored_index_entity a b \<longleftrightarrow> a = Node \<or> b = Relationship"

definition less_stored_index_entity :: "stored_index_entity \<Rightarrow> stored_index_entity \<Rightarrow> bool" where
  "less_stored_index_entity a b \<longleftrightarrow> a = Node \<and> b = Relationship"

instance
proof
  fix x y z :: stored_index_entity
  show "(x < y) = (x \<le> y \<and> \<not> y \<le> x)"
    by (cases x; cases y) (simp_all add: less_eq_stored_index_entity_def less_stored_index_entity_def)
  show "x \<le> x" by (cases x) (simp_all add: less_eq_stored_index_entity_def)
  show "x \<le> y \<Longrightarrow> y \<le> z \<Longrightarrow> x \<le> z"
    by (cases x; cases y; cases z) (simp_all add: less_eq_stored_index_entity_def)
  show "x \<le> y \<Longrightarrow> y \<le> x \<Longrightarrow> x = y"
    by (cases x; cases y) (simp_all add: less_eq_stored_index_entity_def)
  show "x \<le> y \<or> y \<le> x"
    by (cases x; cases y) (simp_all add: less_eq_stored_index_entity_def)
qed

end

datatype stored_index_state = Online | Populating

datatype index_config_value =
    CfgNumber f64
  | CfgInteger i64
  | CfgString string
  | CfgBool bool
  | CfgList "index_config_value list"
  | CfgMap "(string \<times> index_config_value) list"
  | CfgNull

record index_definition =
  idx_name :: string
  idx_kind :: stored_index_kind
  idx_entity :: stored_index_entity
  idx_label :: "string option"
  idx_additional_labels :: "string list"
  idx_properties :: "string list"
  idx_options :: "(string \<times> index_config_value) list"
  idx_state :: stored_index_state

record index_request =
  irq_explicit_name :: "string option"
  irq_kind :: stored_index_kind
  irq_entity :: stored_index_entity
  irq_label :: "string option"
  irq_additional_labels :: "string list"
  irq_properties :: "string list"
  irq_options :: "(string \<times> index_config_value) list"

section \<open>Constraints\<close>

datatype stored_scalar_type =
    ScBoolean | ScString | ScInteger | ScFloat | ScDate | ScLocalTime | ScZonedTime
  | ScLocalDateTime | ScZonedDateTime | ScDuration | ScPoint | ScMap | ScAny

datatype stored_vector_coord_type =
  CoordInt8 | CoordInt16 | CoordInt32 | CoordInt64 | CoordFloat32 | CoordFloat64

datatype stored_property_type_term =
    TermScalar stored_scalar_type
  | TermList stored_property_type_term bool
  | TermVector stored_vector_coord_type u32

record stored_property_type =
  alternatives :: "stored_property_type_term list"

datatype stored_constraint_kind =
    Unique
  | Existence
  | NodeKey
  | RelationshipKey
  | PropertyType stored_property_type

datatype constraint_backing = BackingRange | BackingHash

record constraint_definition =
  cdef_name :: string
  cdef_kind :: stored_constraint_kind
  cdef_entity :: stored_index_entity
  cdef_label :: string
  cdef_properties :: "string list"
  cdef_owned_index :: "string option"
  cdef_backing :: constraint_backing

record constraint_request =
  crq_name :: string
  crq_kind :: stored_constraint_kind
  crq_entity :: stored_index_entity
  crq_label :: string
  crq_properties :: "string list"
  crq_backing :: constraint_backing

definition requires_backing_index :: "stored_constraint_kind \<Rightarrow> bool" where
  "requires_backing_index k \<longleftrightarrow> k = Unique \<or> k = NodeKey \<or> k = RelationshipKey"

definition requires_existence :: "stored_constraint_kind \<Rightarrow> bool" where
  "requires_existence k \<longleftrightarrow> k = Existence \<or> k = NodeKey \<or> k = RelationshipKey"

definition requires_uniqueness :: "stored_constraint_kind \<Rightarrow> bool" where
  "requires_uniqueness k \<longleftrightarrow> k = Unique \<or> k = NodeKey \<or> k = RelationshipKey"

end
