(* ===== verification/Schema_Catalog.thy ===== *)
theory Schema_Catalog
  imports Schema_Types
begin

text \<open>
  The two schema catalogs (\<open>IndexCatalog\<close>, \<open>ConstraintCatalog\<close> of \<open>crates/lora-store/src/memory\<close>):
  named definitions in a \<open>BTreeMap\<close>, with conflict detection on creation. A step relation collects
  what the engine does to an index catalog; its reachable states keep names unique, keyed and free
  of equivalent definitions.
\<close>

section \<open>Map and text helpers\<close>

lemma map_of_btree_remove: "sorted_keys m \<Longrightarrow> map_of (btree_remove k m) = (map_of m)(k := None)"
proof (induction m)
  case (Cons p m)
  obtain a b where p: "p = (a, b)" by (cases p)
  have "a \<notin> fst ` set m" using Cons.prems p by fastforce
  then have "map_of m a = None" by (simp add: map_of_eq_None_iff)
  with Cons p show ?case by (auto simp: fun_eq_iff)
qed simp

lemma set_btree_remove: "set (btree_remove k m) \<subseteq> set m"
  by (induction k m rule: btree_remove.induct) auto

lemma sorted_keys_btree_remove: "sorted_keys m \<Longrightarrow> sorted_keys (btree_remove k m)"
  by (induction k m rule: btree_remove.induct) (use set_btree_remove in \<open>fastforce+\<close>)

lemma btree_remove_insert:
  "sorted_keys m \<Longrightarrow> map_of m k = None \<Longrightarrow> btree_remove k (btree_insert k v m) = m"
proof (induction m)
  case (Cons p m)
  then show ?case by (cases p) (auto split: if_splits)
qed simp

lemma length_btree_insert: "length (btree_insert k v m) \<le> Suc (length m)"
  by (induction k v m rule: btree_insert.induct) auto

definition ascii_lower :: "char \<Rightarrow> char" where
  "ascii_lower c = (if 65 \<le> (of_char c :: nat) \<and> (of_char c :: nat) \<le> 90
     then char_of ((of_char c :: nat) + 32) else c)"

text \<open>\<open>to_lowercase\<close> on the ASCII constants of the catalog.\<close>

definition to_lowercase :: "string \<Rightarrow> string" where
  "to_lowercase s = map ascii_lower s"

fun join :: "string list \<Rightarrow> string \<Rightarrow> string" where
  "join [] sep = []"
| "join [s] sep = s"
| "join (s # t # ts) sep = s @ sep @ join (t # ts) sep"

text \<open>Decimal numerals, as \<open>format!\<close> prints an integer.\<close>

definition digit :: "nat \<Rightarrow> char" where
  "digit d = char_of (48 + d)"

fun decimal :: "nat \<Rightarrow> string" where
  "decimal n = (if n < 10 then [digit n] else decimal (n div 10) @ [digit (n mod 10)])"

declare decimal.simps [simp del]

lemma digit_inject: "a < 10 \<Longrightarrow> b < 10 \<Longrightarrow> digit a = digit b \<longleftrightarrow> a = b"
proof -
  assume "a < 10" "b < 10"
  then have "of_char (digit a) = (48 + a :: nat)" "of_char (digit b) = (48 + b :: nat)"
    by (simp_all add: digit_def)
  then show ?thesis by (metis add_left_cancel)
qed

lemma decimal_not_Nil: "decimal n \<noteq> []" "[] \<noteq> decimal n"
  by (subst decimal.simps, simp)+

lemma decimal_inject: "decimal a = decimal b \<longleftrightarrow> a = b"
proof
  show "decimal a = decimal b \<Longrightarrow> a = b"
  proof (induction a arbitrary: b rule: decimal.induct)
    case (1 a)
    show ?case
    proof (cases "a < 10 \<or> b < 10")
      case True
      with "1.prems" show ?thesis
        by (subst (asm) (1 2) decimal.simps)
          (auto simp: digit_inject decimal_not_Nil split: if_splits)
    next
      case False
      with "1.prems" have "decimal (a div 10) = decimal (b div 10)" "digit (a mod 10) = digit (b mod 10)"
        by (subst (asm) (1 2) decimal.simps, simp)+
      with "1.IH" False have "a div 10 = b div 10" "a mod 10 = b mod 10"
        by (auto simp: digit_inject)
      then show ?thesis by (metis div_mult_mod_eq)
    qed
  qed
qed simp

section \<open>The index catalog\<close>

record index_catalog =
  icat_by_name :: "(string \<times> index_definition) list"
  icat_auto_seq :: u64

definition index_catalog_default :: index_catalog where
  "index_catalog_default = \<lparr>icat_by_name = [], icat_auto_seq = 0\<rparr>"

datatype create_index_outcome = IndexCreated index_definition | IndexNoOpExists index_definition

datatype create_index_error =
    EquivalentIndexExists index_definition
  | DuplicateIndexDefName index_definition
  | CreateIndexUnsupported string

datatype drop_index_outcome = IndexDropped index_definition | DropIndexNoOpMissing

datatype drop_index_error =
    DropIndexNotFound string
  | DropIndexConstraintOwned string string
  | DropIndexUnsupported string

definition create_index_status :: "create_index_error \<Rightarrow> string" where
  "create_index_status e = (case e of
      EquivalentIndexExists d \<Rightarrow> ''22N70''
    | DuplicateIndexDefName d \<Rightarrow> ''22N71''
    | CreateIndexUnsupported _ \<Rightarrow> ''0A000'')"

definition equivalent :: "index_definition \<Rightarrow> index_request \<Rightarrow> bool" where
  "equivalent def request =
     (if idx_kind def \<noteq> irq_kind request \<or> idx_entity def \<noteq> irq_entity request then False
      else (case irq_kind request of
          Lookup \<Rightarrow> True
        | Fulltext \<Rightarrow> idx_label def = irq_label request
            \<and> idx_additional_labels def = irq_additional_labels request
            \<and> idx_properties def = irq_properties request
        | _ \<Rightarrow> idx_label def = irq_label request \<and> idx_properties def = irq_properties request))"

definition index_list :: "index_catalog \<Rightarrow> index_definition list" where
  "index_list c = map snd (icat_by_name c)"

definition index_get :: "index_catalog \<Rightarrow> string \<Rightarrow> index_definition option" where
  "index_get c name = map_of (icat_by_name c) name"

definition index_find_equivalent :: "index_catalog \<Rightarrow> index_request \<Rightarrow> index_definition option" where
  "index_find_equivalent c request = find (\<lambda>def. equivalent def request) (index_list c)"

definition auto_name_base :: "index_request \<Rightarrow> string" where
  "auto_name_base request =
     (case irq_label request of
        Some label \<Rightarrow> ''index_'' @ to_lowercase (index_kind_as_str (irq_kind request)) @ ''_''
          @ to_lowercase (index_entity_as_str (irq_entity request)) @ ''_'' @ label @ ''_''
          @ join (irq_properties request) ''_''
      | None \<Rightarrow> ''index_'' @ to_lowercase (index_kind_as_str (irq_kind request)) @ ''_''
          @ to_lowercase (index_entity_as_str (irq_entity request)))"

text \<open>
  The loop that appends the next sequence number while the name is taken. Its bound, one more than
  the number of names, is enough for a free name (\<open>next_auto_name_fresh\<close>).
\<close>

fun auto_name_loop :: "nat \<Rightarrow> (string \<times> 'd) list \<Rightarrow> string \<Rightarrow> string \<Rightarrow> u64 \<Rightarrow> string \<times> u64" where
  "auto_name_loop 0 m base name seq = (name, seq)"
| "auto_name_loop (Suc fuel) m base name seq =
     (if map_of m name \<noteq> None
      then let seq = seq + 1 in auto_name_loop fuel m base (base @ ''_'' @ decimal (unat seq)) seq
      else (name, seq))"

definition next_auto_name :: "index_catalog \<Rightarrow> index_request \<Rightarrow> string \<times> index_catalog" where
  "next_auto_name c request =
     (let base = auto_name_base request;
          (name, seq) = auto_name_loop (Suc (length (icat_by_name c))) (icat_by_name c) base base
            (icat_auto_seq c)
      in (name, c\<lparr>icat_auto_seq := seq\<rparr>))"

definition index_def_of :: "string \<Rightarrow> index_request \<Rightarrow> index_definition" where
  "index_def_of name request =
     \<lparr>idx_name = name, idx_kind = irq_kind request, idx_entity = irq_entity request,
      idx_label = irq_label request, idx_additional_labels = irq_additional_labels request,
      idx_properties = irq_properties request, idx_options = irq_options request,
      idx_state = Online\<rparr>"

definition index_try_create :: "index_catalog \<Rightarrow> index_request \<Rightarrow> bool \<Rightarrow>
    (create_index_error + create_index_outcome) \<times> index_catalog" where
  "index_try_create c request if_not_exists =
     (case Option.bind (irq_explicit_name request) (index_get c) of
        Some existing \<Rightarrow>
          (if if_not_exists then Inr (IndexNoOpExists existing)
           else Inl (DuplicateIndexDefName existing), c)
      | None \<Rightarrow>
          (case index_find_equivalent c request of
             Some existing \<Rightarrow>
               (if if_not_exists then Inr (IndexNoOpExists existing)
                else Inl (EquivalentIndexExists existing), c)
           | None \<Rightarrow>
               (let (name, c') = (case irq_explicit_name request of
                      Some name \<Rightarrow> (name, c)
                    | None \<Rightarrow> next_auto_name c request);
                    def = index_def_of name request
                in (Inr (IndexCreated def),
                    c'\<lparr>icat_by_name := btree_insert name def (icat_by_name c')\<rparr>))))"

definition index_try_drop :: "index_catalog \<Rightarrow> string \<Rightarrow> bool \<Rightarrow>
    (drop_index_error + drop_index_outcome) \<times> index_catalog" where
  "index_try_drop c name if_exists =
     (let c' = c\<lparr>icat_by_name := btree_remove name (icat_by_name c)\<rparr> in
      case index_get c name of
        Some def \<Rightarrow> (Inr (IndexDropped def), c')
      | None \<Rightarrow> (if if_exists then Inr DropIndexNoOpMissing else Inl (DropIndexNotFound name), c'))"

definition index_set_state :: "index_catalog \<Rightarrow> string \<Rightarrow> stored_index_state \<Rightarrow> index_catalog" where
  "index_set_state c name state =
     (case index_get c name of
        Some def \<Rightarrow> c\<lparr>icat_by_name := btree_insert name (def\<lparr>idx_state := state\<rparr>) (icat_by_name c)\<rparr>
      | None \<Rightarrow> c)"

section \<open>Generated names are free\<close>

definition auto_name_at :: "string \<Rightarrow> string \<Rightarrow> u64 \<Rightarrow> nat \<Rightarrow> string" where
  "auto_name_at base name seq i =
     (if i = 0 then name else base @ ''_'' @ decimal (unat (seq + of_nat i)))"

lemma auto_name_loop_free:
  "map_of m (fst (auto_name_loop fuel m base name seq)) = None
   \<or> auto_name_at base name seq ` {..<fuel} \<subseteq> dom (map_of m)"
proof (induction fuel arbitrary: name seq)
  case (Suc fuel)
  show ?case
  proof (cases "map_of m name")
    case None
    then show ?thesis by simp
  next
    case (Some v)
    let ?name = "base @ ''_'' @ decimal (unat (seq + 1))"
    have at: "auto_name_at base name seq (Suc i) = auto_name_at base ?name (seq + 1) i" for i
      by (simp add: auto_name_at_def add.assoc)
    have "auto_name_at base name seq ` {..<Suc fuel}
        = insert name (auto_name_at base ?name (seq + 1) ` {..<fuel})"
      unfolding lessThan_Suc_eq_insert_0 image_insert image_image at by (simp add: auto_name_at_def)
    then show ?thesis using Suc.IH [of ?name "seq + 1"] Some by (auto simp: Let_def)
  qed
qed simp

lemma inj_auto_name:
  assumes "n \<le> 2 ^ 64"
  shows "inj_on (auto_name_at base base seq) {..<n}"
proof (rule inj_onI)
  fix i j assume i: "i \<in> {..<n}" "j \<in> {..<n}"
    and eq: "auto_name_at base base seq i = auto_name_at base base seq j"
  from eq have "(i = 0) = (j = 0)" by (auto simp: auto_name_at_def split: if_splits)
  moreover have "i = j" if "i \<noteq> 0" "j \<noteq> 0"
  proof -
    have "seq + of_nat i = seq + of_nat j"
      unfolding word_unat_eq_iff using eq that by (simp add: auto_name_at_def decimal_inject)
    then have "(of_nat i :: u64) = of_nat j" by simp
    then show ?thesis using i assms by (simp add: word_of_nat_eq_iff take_bit_nat_eq_self)
  qed
  ultimately show "i = j" by blast
qed

lemma dom_map_of_card: "card (dom (map_of m)) \<le> length m"
  by (simp add: dom_map_of_conv_image_fst) (metis card_image_le card_length finite_set order_trans)

lemma next_auto_name_is_fresh:
  assumes "length (icat_by_name c) < 2 ^ 64"
  shows "index_get c (fst (next_auto_name c request)) = None"
proof (rule ccontr)
  let ?m = "icat_by_name c" and ?b = "auto_name_base request"
  assume "index_get c (fst (next_auto_name c request)) \<noteq> None"
  then have "auto_name_at ?b ?b (icat_auto_seq c) ` {..<Suc (length ?m)} \<subseteq> dom (map_of ?m)"
    using auto_name_loop_free [of ?m "Suc (length ?m)" ?b ?b "icat_auto_seq c"]
    by (auto simp: next_auto_name_def index_get_def Let_def case_prod_beta simp del: auto_name_loop.simps)
  then have "card (auto_name_at ?b ?b (icat_auto_seq c) ` {..<Suc (length ?m)}) \<le> length ?m"
    using dom_map_of_card [of ?m] by (meson card_mono finite_dom_map_of order_trans)
  moreover have "inj_on (auto_name_at ?b ?b (icat_auto_seq c)) {..<Suc (length ?m)}"
    using assms by (intro inj_auto_name) simp
  ultimately show False by (simp add: card_image)
qed

lemma next_auto_name_keeps [simp]:
  "icat_by_name (snd (next_auto_name c request)) = icat_by_name c"
  by (simp add: next_auto_name_def Let_def case_prod_beta)

section \<open>Reachable index catalogs\<close>

text \<open>What the engine does to a catalog: \<open>try_create\<close>, \<open>try_drop\<close>, \<open>set_state\<close>.\<close>

inductive index_catalog_step :: "index_catalog \<Rightarrow> index_catalog \<Rightarrow> bool" where
  create: "length (icat_by_name c) < 2 ^ 64 \<Longrightarrow>
    index_catalog_step c (snd (index_try_create c request if_not_exists))"
| drop: "index_catalog_step c (snd (index_try_drop c name if_exists))"
| set_state: "index_catalog_step c (index_set_state c name state)"

inductive_cases index_catalog_stepE: "index_catalog_step c c'"

inductive reachable_index_catalog :: "index_catalog \<Rightarrow> bool" where
  start: "reachable_index_catalog index_catalog_default"
| step: "reachable_index_catalog c \<Longrightarrow> index_catalog_step c c' \<Longrightarrow> reachable_index_catalog c'"

text \<open>The request a definition answers.\<close>

definition request_of :: "index_definition \<Rightarrow> index_request" where
  "request_of d =
     \<lparr>irq_explicit_name = Some (idx_name d), irq_kind = idx_kind d, irq_entity = idx_entity d,
      irq_label = idx_label d, irq_additional_labels = idx_additional_labels d,
      irq_properties = idx_properties d, irq_options = idx_options d\<rparr>"

definition index_catalog_ok :: "index_catalog \<Rightarrow> bool" where
  "index_catalog_ok c \<longleftrightarrow> sorted_keys (icat_by_name c)
     \<and> (\<forall>k d. map_of (icat_by_name c) k = Some d \<longrightarrow> idx_name d = k)
     \<and> (\<forall>k d k' d'. map_of (icat_by_name c) k = Some d \<longrightarrow> map_of (icat_by_name c) k' = Some d' \<longrightarrow>
          equivalent d (request_of d') \<longrightarrow> k = k')"

lemma equivalent_sym: "equivalent d (request_of d') = equivalent d' (request_of d)"
  by (auto simp: equivalent_def request_of_def split: stored_index_kind.splits)

lemma equivalent_index_def_of:
  "equivalent d (request_of (index_def_of name request)) = equivalent d request"
  by (simp add: equivalent_def request_of_def index_def_of_def split: stored_index_kind.splits)

lemma index_find_equivalent_None:
  "index_find_equivalent c request = None \<Longrightarrow> map_of (icat_by_name c) k = Some d \<Longrightarrow>
   \<not> equivalent d request"
  by (auto simp: index_find_equivalent_def index_list_def find_None_iff dest!: map_of_SomeD)

lemma index_catalog_ok_insert:
  assumes c: "index_catalog_ok c" and m: "icat_by_name c' = icat_by_name c"
    and none: "index_find_equivalent c request = None"
  shows "index_catalog_ok (c'\<lparr>icat_by_name :=
    btree_insert name (index_def_of name request) (icat_by_name c')\<rparr>)"
  unfolding index_catalog_ok_def
proof (intro conjI allI impI; simp add: m)
  show "sorted_keys (btree_insert name (index_def_of name request) (icat_by_name c))"
    using c by (intro sorted_keys_btree_insert) (simp add: index_catalog_ok_def)
next
  fix k d assume "(if k = name then Some (index_def_of name request) else map_of (icat_by_name c) k) = Some d"
  then show "idx_name d = k"
    using c by (auto simp: index_catalog_ok_def index_def_of_def split: if_splits)
next
  fix k d k' d'
  assume d: "(if k = name then Some (index_def_of name request) else map_of (icat_by_name c) k) = Some d"
    and d': "(if k' = name then Some (index_def_of name request) else map_of (icat_by_name c) k') = Some d'"
    and eq: "equivalent d (request_of d')"
  have "\<not> equivalent x (request_of (index_def_of name request))"
    if "map_of (icat_by_name c) j = Some x" for j x
    using index_find_equivalent_None [OF none that] by (simp add: equivalent_index_def_of)
  with d d' eq show "k = k'"
    using c equivalent_sym [of d d'] by (auto simp: index_catalog_ok_def split: if_splits)
qed

lemma index_catalog_ok_create:
  assumes "index_catalog_ok c"
  shows "index_catalog_ok (snd (index_try_create c request ine))"
  using assms index_catalog_ok_insert [OF assms _ _, of _ request]
  by (auto simp: index_try_create_def Let_def case_prod_beta split: option.splits)

lemma index_catalog_ok_drop:
  assumes "index_catalog_ok c"
  shows "index_catalog_ok (snd (index_try_drop c name ife))"
proof -
  have "index_catalog_ok (c\<lparr>icat_by_name := btree_remove name (icat_by_name c)\<rparr>)"
    using assms unfolding index_catalog_ok_def
    by (auto simp: map_of_btree_remove sorted_keys_btree_remove split: if_splits)
  then show ?thesis by (simp add: index_try_drop_def Let_def split: option.splits)
qed

lemma index_catalog_ok_set_state:
  assumes "index_catalog_ok c"
  shows "index_catalog_ok (index_set_state c name state)"
proof (cases "index_get c name")
  case (Some def)
  have same: "equivalent (d\<lparr>idx_state := state\<rparr>) r = equivalent d r"
    "request_of (d\<lparr>idx_state := state\<rparr>) = request_of d" for d r
    by (simp_all add: equivalent_def request_of_def split: stored_index_kind.splits)
  show ?thesis
    using assms Some unfolding index_catalog_ok_def index_set_state_def
    by (auto simp: sorted_keys_btree_insert index_get_def same split: if_splits)
qed (use assms in \<open>simp add: index_set_state_def\<close>)

section \<open>Properties of the index catalog\<close>

definition sample_index_request :: index_request where
  "sample_index_request = \<lparr>irq_explicit_name = Some ''i'', irq_kind = Range, irq_entity = Node,
     irq_label = Some ''A'', irq_additional_labels = [], irq_properties = [''p''], irq_options = []\<rparr>"

definition sample_index_catalog :: index_catalog where
  "sample_index_catalog =
     \<lparr>icat_by_name = [(''i'', index_def_of ''i'' sample_index_request)], icat_auto_seq = 0\<rparr>"

lemma sample_index_created:
  "index_try_create index_catalog_default sample_index_request False =
     (Inr (IndexCreated (index_def_of ''i'' sample_index_request)), sample_index_catalog)"
  by (simp add: index_try_create_def index_catalog_default_def index_get_def Let_def
      index_find_equivalent_def index_list_def sample_index_catalog_def sample_index_request_def)

text \<open>
  Catalog invariant: whatever sequence of creations, drops and state changes the engine runs,
  every index is stored under its own name, names are unique and no two indexes of the catalog are
  equivalent (the situation 22N70 reports).
\<close>

theorem index_catalog_invariant:
  assumes "reachable_index_catalog c"
  shows "index_catalog_ok c"
  using assms
proof (induction rule: reachable_index_catalog.induct)
  case start
  show ?case by (simp add: index_catalog_ok_def index_catalog_default_def)
next
  case (step c c')
  then show ?case
    by (auto elim!: index_catalog_stepE intro: index_catalog_ok_create index_catalog_ok_drop
        index_catalog_ok_set_state)
qed

theorem index_catalog_invariant_witness: "index_catalog_ok sample_index_catalog"
proof -
  have "index_catalog_step index_catalog_default sample_index_catalog"
    using index_catalog_step.create [of index_catalog_default sample_index_request False]
    by (simp add: sample_index_created) (simp add: index_catalog_default_def)
  then show ?thesis
    by (intro index_catalog_invariant) (rule reachable_index_catalog.step [OF reachable_index_catalog.start])
qed

text \<open>
  A created index is stored under a name nobody had: the catalog afterwards holds the new
  definition, \<open>Online\<close> and with the shape of the request, and every other entry is untouched.
\<close>

theorem index_create_stores:
  assumes "index_try_create c request ine = (Inr (IndexCreated def), c')"
    and "length (icat_by_name c) < 2 ^ 64"
  shows "index_get c (idx_name def) = None \<and> def = index_def_of (idx_name def) request
    \<and> (\<forall>n. index_get c' n = (if n = idx_name def then Some def else index_get c n))"
  using assms next_auto_name_is_fresh [OF assms(2), of request]
  by (auto simp: index_try_create_def index_def_of_def index_get_def Let_def case_prod_beta
      split: option.splits if_splits)

theorem index_create_stores_witness:
  "index_get sample_index_catalog ''i'' = Some (index_def_of ''i'' sample_index_request)"
  using index_create_stores [OF sample_index_created]
  by (simp add: index_catalog_default_def index_def_of_def)

text \<open>
  Dropping the index just created restores the names the catalog had.
\<close>

theorem index_drop_undoes_create:
  assumes "index_try_create c request ine = (Inr (IndexCreated def), c')"
    and "index_catalog_ok c" and "length (icat_by_name c) < 2 ^ 64"
  shows "\<exists>c''. index_try_drop c' (idx_name def) ife = (Inr (IndexDropped def), c'')
    \<and> icat_by_name c'' = icat_by_name c"
proof -
  have "index_get c (idx_name def) = None"
    and "icat_by_name c' = btree_insert (idx_name def) def (icat_by_name c)"
    using assms(1) next_auto_name_is_fresh [OF assms(3), of request]
    by (auto simp: index_try_create_def index_def_of_def Let_def case_prod_beta
        split: option.splits if_splits)
  then show ?thesis using assms(2)
    by (simp add: index_try_drop_def index_get_def Let_def btree_remove_insert index_catalog_ok_def)
qed

theorem index_drop_undoes_create_witness:
  "\<exists>c''. index_try_drop sample_index_catalog ''i'' False =
     (Inr (IndexDropped (index_def_of ''i'' sample_index_request)), c'') \<and> icat_by_name c'' = []"
  using index_drop_undoes_create [OF sample_index_created]
  by (simp add: index_catalog_default_def index_def_of_def index_catalog_ok_def)

end
