(* ===== verification/Constraint_Catalog.thy ===== *)
theory Constraint_Catalog
  imports Schema_Catalog
begin

text \<open>
  The constraint catalog (\<open>ConstraintCatalog\<close>, \<open>crates/lora-store/src/memory/constraint_catalog.rs\<close>):
  its lookups, \<open>try_create\<close> with the precedence of its conflicts, \<open>try_drop\<close>, and what they keep of
  the catalog.
\<close>

type_synonym constraint_catalog = "(string \<times> constraint_definition) list"

datatype create_constraint_outcome =
    ConstraintCreated constraint_definition
  | ConstraintNoOpExists constraint_definition

datatype create_constraint_error =
    EquivalentConstraintExists string
  | ConflictingConstraint string
  | DuplicateConstraintName string
  | DuplicateIndexName string
  | BackingIndexConflict string
  | UnsupportedPropertyType string
  | DataViolation string
  | CreateConstraintUnsupported string

definition create_constraint_status :: "create_constraint_error \<Rightarrow> string" where
  "create_constraint_status e = (case e of
      EquivalentConstraintExists _ \<Rightarrow> ''22N65''
    | ConflictingConstraint _ \<Rightarrow> ''22N66''
    | DuplicateConstraintName _ \<Rightarrow> ''22N67''
    | DuplicateIndexName _ \<Rightarrow> ''22N71''
    | BackingIndexConflict _ \<Rightarrow> ''22N73''
    | UnsupportedPropertyType _ \<Rightarrow> ''22N90''
    | DataViolation _ \<Rightarrow> ''50N11''
    | CreateConstraintUnsupported _ \<Rightarrow> ''0A000'')"

datatype drop_constraint_outcome = ConstraintDropped constraint_definition | DropConstraintNoOpMissing

datatype drop_constraint_error = DropConstraintNotFound string | DropConstraintUnsupported string

definition constraint_list :: "constraint_catalog \<Rightarrow> constraint_definition list" where
  "constraint_list c = map snd c"

definition constraint_get :: "constraint_catalog \<Rightarrow> string \<Rightarrow> constraint_definition option" where
  "constraint_get c name = map_of c name"

definition constraint_owning_index :: "constraint_catalog \<Rightarrow> string \<Rightarrow> constraint_definition option" where
  "constraint_owning_index c index_name =
     find (\<lambda>def. cdef_owned_index def = Some index_name) (constraint_list c)"

definition constraint_find_equivalent ::
  "constraint_catalog \<Rightarrow> constraint_request \<Rightarrow> constraint_definition option" where
  "constraint_find_equivalent c request = find (\<lambda>def.
     cdef_kind def = crq_kind request \<and> cdef_entity def = crq_entity request
     \<and> cdef_label def = crq_label request \<and> cdef_properties def = crq_properties request)
     (constraint_list c)"

definition constraint_find_same_schema ::
  "constraint_catalog \<Rightarrow> constraint_request \<Rightarrow> constraint_definition option" where
  "constraint_find_same_schema c request = find (\<lambda>def.
     cdef_entity def = crq_entity request \<and> cdef_label def = crq_label request
     \<and> cdef_properties def = crq_properties request) (constraint_list c)"

text \<open>\<open>kinds_conflict_for_validation\<close> and its private alias \<open>constraint_kinds_conflict\<close>.\<close>

fun kinds_conflict_for_validation ::
  "stored_constraint_kind \<Rightarrow> stored_constraint_kind \<Rightarrow> bool" where
  "kinds_conflict_for_validation Unique NodeKey = True"
| "kinds_conflict_for_validation NodeKey Unique = True"
| "kinds_conflict_for_validation Unique RelationshipKey = True"
| "kinds_conflict_for_validation RelationshipKey Unique = True"
| "kinds_conflict_for_validation (PropertyType a) (PropertyType b) = (a \<noteq> b)"
| "kinds_conflict_for_validation _ _ = False"

definition constraint_def_of :: "constraint_request \<Rightarrow> constraint_definition" where
  "constraint_def_of request =
     \<lparr>cdef_name = crq_name request, cdef_kind = crq_kind request, cdef_entity = crq_entity request,
      cdef_label = crq_label request, cdef_properties = crq_properties request,
      cdef_owned_index = (if requires_backing_index (crq_kind request)
        then Some (crq_name request) else None),
      cdef_backing = crq_backing request\<rparr>"

definition constraint_try_create :: "constraint_catalog \<Rightarrow> constraint_request \<Rightarrow> bool \<Rightarrow>
    (create_constraint_error + create_constraint_outcome) \<times> constraint_catalog" where
  "constraint_try_create c request if_not_exists =
     (case constraint_find_equivalent c request of
        Some existing \<Rightarrow>
          (if if_not_exists then Inr (ConstraintNoOpExists existing)
           else Inl (EquivalentConstraintExists (cdef_name existing)), c)
      | None \<Rightarrow>
     (case constraint_get c (crq_name request) of
        Some existing \<Rightarrow>
          (if if_not_exists then Inr (ConstraintNoOpExists existing)
           else Inl (DuplicateConstraintName (cdef_name existing)), c)
      | None \<Rightarrow>
     (let created = (Inr (ConstraintCreated (constraint_def_of request)),
            btree_insert (crq_name request) (constraint_def_of request) c)
      in case constraint_find_same_schema c request of
           Some existing \<Rightarrow>
             (if kinds_conflict_for_validation (cdef_kind existing) (crq_kind request)
              then (if if_not_exists then Inr (ConstraintNoOpExists existing)
                    else Inl (ConflictingConstraint (cdef_name existing)), c)
              else created)
         | None \<Rightarrow> created)))"

definition constraint_try_drop :: "constraint_catalog \<Rightarrow> string \<Rightarrow> bool \<Rightarrow>
    (drop_constraint_error + drop_constraint_outcome) \<times> constraint_catalog" where
  "constraint_try_drop c name if_exists =
     (case constraint_get c name of
        Some def \<Rightarrow> (Inr (ConstraintDropped def), btree_remove name c)
      | None \<Rightarrow> (if if_exists then Inr DropConstraintNoOpMissing
          else Inl (DropConstraintNotFound name), btree_remove name c))"

section \<open>What the operations keep\<close>

abbreviation same_shape :: "constraint_definition \<Rightarrow> constraint_definition \<Rightarrow> bool" where
  "same_shape d d' \<equiv> cdef_kind d = cdef_kind d' \<and> cdef_entity d = cdef_entity d'
     \<and> cdef_label d = cdef_label d' \<and> cdef_properties d = cdef_properties d'"

text \<open>
  Definitions are stored under their names, own a backing index exactly when their kind needs one
  (under the constraint's name), and no two have the same kind and schema.
\<close>

definition constraint_catalog_ok :: "constraint_catalog \<Rightarrow> bool" where
  "constraint_catalog_ok c \<longleftrightarrow> sorted_keys c
     \<and> (\<forall>k d. map_of c k = Some d \<longrightarrow> cdef_name d = k
          \<and> cdef_owned_index d = (if requires_backing_index (cdef_kind d) then Some k else None))
     \<and> (\<forall>k d k' d'. map_of c k = Some d \<longrightarrow> map_of c k' = Some d' \<longrightarrow> same_shape d d' \<longrightarrow> k = k')"

lemma constraint_try_create_cases:
  obtains (unchanged) r where "constraint_try_create c request ine = (r, c)"
      "\<And>d. r \<noteq> Inr (ConstraintCreated d)"
  | (created) "constraint_try_create c request ine =
      (Inr (ConstraintCreated (constraint_def_of request)),
       btree_insert (crq_name request) (constraint_def_of request) c)"
      "constraint_find_equivalent c request = None" "constraint_get c (crq_name request) = None"
proof -
  have "(\<exists>r. constraint_try_create c request ine = (r, c) \<and> (\<forall>d. r \<noteq> Inr (ConstraintCreated d)))
    \<or> constraint_try_create c request ine =
        (Inr (ConstraintCreated (constraint_def_of request)),
         btree_insert (crq_name request) (constraint_def_of request) c)
      \<and> constraint_find_equivalent c request = None \<and> constraint_get c (crq_name request) = None"
    by (auto simp: constraint_try_create_def Let_def split: option.split)
  then show thesis using that by blast
qed

lemma constraint_find_equivalent_None:
  "constraint_find_equivalent c request = None \<Longrightarrow> map_of c k = Some d \<Longrightarrow>
   \<not> same_shape d (constraint_def_of request)"
  by (auto simp: constraint_find_equivalent_def constraint_list_def find_None_iff
      constraint_def_of_def dest!: map_of_SomeD)

lemma constraint_def_of_simps [simp]:
  "cdef_name (constraint_def_of r) = crq_name r" "cdef_kind (constraint_def_of r) = crq_kind r"
  "cdef_entity (constraint_def_of r) = crq_entity r" "cdef_label (constraint_def_of r) = crq_label r"
  "cdef_properties (constraint_def_of r) = crq_properties r"
  "cdef_backing (constraint_def_of r) = crq_backing r"
  "cdef_owned_index (constraint_def_of r) =
     (if requires_backing_index (crq_kind r) then Some (crq_name r) else None)"
  by (simp_all add: constraint_def_of_def)

lemma constraint_catalog_ok_create:
  assumes c: "constraint_catalog_ok c"
  shows "constraint_catalog_ok (snd (constraint_try_create c request ine))"
proof (cases rule: constraint_try_create_cases [of c request ine])
  case unchanged
  then show ?thesis using c by simp
next
  case created
  let ?n = "crq_name request" and ?d = "constraint_def_of request"
  have new: "\<not> same_shape d ?d" if "map_of c k = Some d" for k d
    by (rule constraint_find_equivalent_None [OF created(2) that])
  have "constraint_catalog_ok (btree_insert ?n ?d c)"
    unfolding constraint_catalog_ok_def
  proof (intro conjI allI impI)
    show "sorted_keys (btree_insert ?n ?d c)"
      using c by (intro sorted_keys_btree_insert) (simp add: constraint_catalog_ok_def)
  next
    fix k d assume "map_of (btree_insert ?n ?d c) k = Some d"
    then show "cdef_name d = k"
      using c by (auto simp: constraint_catalog_ok_def split: if_splits)
  next
    fix k d assume "map_of (btree_insert ?n ?d c) k = Some d"
    then show "cdef_owned_index d = (if requires_backing_index (cdef_kind d) then Some k else None)"
      using c by (auto simp: constraint_catalog_ok_def split: if_splits)
  next
    fix k d k' d'
    assume "map_of (btree_insert ?n ?d c) k = Some d" "map_of (btree_insert ?n ?d c) k' = Some d'"
      and "same_shape d d'"
    then show "k = k'"
      using c new [of k d] new [of k' d'] by (auto simp: constraint_catalog_ok_def split: if_splits)
  qed
  with created show ?thesis by simp
qed

lemma constraint_catalog_ok_remove:
  assumes "constraint_catalog_ok c"
  shows "constraint_catalog_ok (btree_remove name c)"
  using assms unfolding constraint_catalog_ok_def
  by (auto simp: map_of_btree_remove sorted_keys_btree_remove split: if_splits)

lemma constraint_catalog_ok_drop:
  "constraint_catalog_ok c \<Longrightarrow> constraint_catalog_ok (snd (constraint_try_drop c name ife))"
  by (simp add: constraint_try_drop_def constraint_catalog_ok_remove split: option.splits)

end
