(* ===== verification/Mutation_Event.thy ===== *)
theory Mutation_Event
  imports Property_Value Schema_Types
begin

text \<open>
  The events a store records (\<open>MutationEvent\<close>, \<open>crates/lora-store/src/mutation.rs\<close>): one constructor
  per mutating method, with what replay needs. \<open>Properties\<close> are the entries of a \<open>PropertyMap\<close> in
  key order.
\<close>

type_synonym node_id = u64
type_synonym relationship_id = u64
type_synonym properties = "(string \<times> property_value) list"

datatype mutation_event =
    CreateNode node_id "string list" properties
  | CreateRelationship relationship_id node_id node_id string properties
  | SetNodeProperty node_id string property_value
  | RemoveNodeProperty node_id string
  | AddNodeLabel node_id string
  | RemoveNodeLabel node_id string
  | SetRelationshipProperty relationship_id string property_value
  | RemoveRelationshipProperty relationship_id string
  | DeleteRelationship relationship_id
  | DeleteNode node_id
  | DetachDeleteNode node_id
  | ClearGraph
  | CreateIndex index_request bool
  | DropIndex string bool
  | CreateConstraint constraint_request bool
  | DropConstraint string bool

end
