(* ===== verification/Schema_Engine.thy ===== *)
theory Schema_Engine
  imports Constraint_Catalog Mutation_Event
begin

text \<open>
  Schema commands on the graph (\<open>register_index\<close>, \<open>register_constraint\<close>, \<open>drop_named_constraint\<close>,
  \<open>drop_named_index\<close> and the \<open>replay_\<close> methods of \<open>crates/lora-store/src/memory/graph.rs\<close>): both
  catalogs, the count of active constraints and the recorder. The scan of the existing data
  (\<open>validate_existing_data_for_constraint\<close>) is an argument \<open>violation\<close>; the index structures
  themselves are not part of this state, only the catalog entry's \<open>Populating\<close> mark is.
\<close>

record schema_state =
  ss_indexes :: index_catalog
  ss_constraints :: constraint_catalog
  ss_active :: nat
  ss_recorder :: "mutation_event list option"

definition schema_new :: "mutation_event list option \<Rightarrow> schema_state" where
  "schema_new recorder = \<lparr>ss_indexes = index_catalog_default, ss_constraints = [],
     ss_active = 0, ss_recorder = recorder\<rparr>"

definition emit :: "mutation_event \<Rightarrow> schema_state \<Rightarrow> schema_state" where
  "emit e s = s\<lparr>ss_recorder := map_option (\<lambda>es. es @ [e]) (ss_recorder s)\<rparr>"

definition format_index_schema :: "index_definition \<Rightarrow> string" where
  "format_index_schema def =
     (let label_part = (case idx_label def of Some l \<Rightarrow> '':'' @ l | None \<Rightarrow> ''*'') in
      if idx_properties def = [] then ''('' @ label_part @ '')''
      else ''('' @ label_part @ '' {'' @ join (idx_properties def) '', '' @ ''})'')"

text \<open>\<open>CreateIndexError::to_string\<close>.\<close>

definition create_index_message :: "create_index_error \<Rightarrow> string" where
  "create_index_message e = (case e of
      EquivalentIndexExists d \<Rightarrow> ''equivalent index already exists: '' @ format_index_schema d
    | DuplicateIndexDefName d \<Rightarrow> ''an index with the same name already exists: '' @ idx_name d
    | CreateIndexUnsupported m \<Rightarrow> m)"

section \<open>Creating and dropping indexes\<close>

text \<open>The catalog effect of \<open>populate_index_data\<close>: a lazily populated vector index is marked.\<close>

definition populates_lazily :: "index_definition \<Rightarrow> bool" where
  "populates_lazily def \<longleftrightarrow> idx_kind def = Vector \<and> idx_label def \<noteq> None \<and> idx_properties def \<noteq> []
     \<and> map_of (idx_options def) ''vector.populate.async'' = Some (CfgBool True)"

definition populate_index_data :: "index_definition \<Rightarrow> schema_state \<Rightarrow> schema_state" where
  "populate_index_data def s =
     (if populates_lazily def
      then s\<lparr>ss_indexes := index_set_state (ss_indexes s) (idx_name def) Populating\<rparr> else s)"

definition register_index_recording :: "index_request \<Rightarrow> bool \<Rightarrow> bool \<Rightarrow> schema_state \<Rightarrow>
    (create_index_error + create_index_outcome) \<times> schema_state" where
  "register_index_recording request if_not_exists record_event s =
     (case index_try_create (ss_indexes s) request if_not_exists of (r, c) \<Rightarrow>
        let s = s\<lparr>ss_indexes := c\<rparr> in
        (case r of
           Inr (IndexCreated def) \<Rightarrow>
             let s = populate_index_data def s in
             (r, if record_event then emit (CreateIndex request if_not_exists) s else s)
         | _ \<Rightarrow> (r, s)))"

definition register_index :: "index_request \<Rightarrow> bool \<Rightarrow> schema_state \<Rightarrow>
    (create_index_error + create_index_outcome) \<times> schema_state" where
  "register_index request if_not_exists s = register_index_recording request if_not_exists True s"

definition drop_named_index_inner :: "string \<Rightarrow> bool \<Rightarrow> bool \<Rightarrow> schema_state \<Rightarrow>
    (drop_index_error + drop_index_outcome) \<times> schema_state" where
  "drop_named_index_inner name if_exists emit_event s =
     (case constraint_owning_index (ss_constraints s) name of
        Some owner \<Rightarrow> (Inl (DropIndexConstraintOwned name (cdef_name owner)), s)
      | None \<Rightarrow>
          (case index_try_drop (ss_indexes s) name if_exists of (r, c) \<Rightarrow>
             let s = s\<lparr>ss_indexes := c\<rparr> in
             (case r of
                Inr (IndexDropped def) \<Rightarrow>
                  (r, if emit_event then emit (DropIndex name if_exists) s else s)
              | _ \<Rightarrow> (r, s))))"

definition drop_named_index :: "string \<Rightarrow> bool \<Rightarrow> schema_state \<Rightarrow>
    (drop_index_error + drop_index_outcome) \<times> schema_state" where
  "drop_named_index name if_exists s = drop_named_index_inner name if_exists True s"

text \<open>The catalog effect of \<open>lazy_populate_vector_index\<close>, on the first search of the index.\<close>

definition lazy_populate_vector_index :: "string \<Rightarrow> schema_state \<Rightarrow> schema_state" where
  "lazy_populate_vector_index name s =
     (case index_get (ss_indexes s) name of
        None \<Rightarrow> s
      | Some def \<Rightarrow>
          (if idx_state def \<noteq> Populating \<or> idx_kind def \<noteq> Vector \<or> idx_label def = None
             \<or> idx_properties def = [] then s
           else s\<lparr>ss_indexes := index_set_state (ss_indexes s) name Online\<rparr>))"

section \<open>Creating and dropping constraints\<close>

definition backing_request :: "constraint_definition \<Rightarrow> index_request" where
  "backing_request def =
     \<lparr>irq_explicit_name = Some (cdef_name def), irq_kind = Range, irq_entity = cdef_entity def,
      irq_label = Some (cdef_label def), irq_additional_labels = [],
      irq_properties = cdef_properties def,
      irq_options = (if cdef_backing def = BackingHash then [(''sorted'', CfgBool False)] else [])\<rparr>"

definition backing_conflict :: "index_catalog \<Rightarrow> constraint_request \<Rightarrow> index_definition option" where
  "backing_conflict c request = find (\<lambda>def. idx_kind def = Range
     \<and> idx_entity def = crq_entity request \<and> idx_label def = Some (crq_label request)
     \<and> idx_properties def = crq_properties request \<and> idx_name def \<noteq> crq_name request) (index_list c)"

text \<open>The checks before the catalog is written: \<open>None\<close> when the creation goes on.\<close>

definition constraint_precheck :: "constraint_request \<Rightarrow> bool \<Rightarrow> schema_state \<Rightarrow>
    (create_constraint_error + create_constraint_outcome) option" where
  "constraint_precheck request if_not_exists s =
     (case constraint_find_equivalent (ss_constraints s) request of
        Some existing \<Rightarrow> Some (if if_not_exists then Inr (ConstraintNoOpExists existing)
          else Inl (EquivalentConstraintExists (cdef_name existing)))
      | None \<Rightarrow>
     (case constraint_get (ss_constraints s) (crq_name request) of
        Some existing \<Rightarrow> Some (if if_not_exists then Inr (ConstraintNoOpExists existing)
          else Inl (DuplicateConstraintName (cdef_name existing)))
      | None \<Rightarrow>
     (case constraint_find_same_schema (ss_constraints s) request of
        Some existing \<Rightarrow>
          (if kinds_conflict_for_validation (cdef_kind existing) (crq_kind request)
           then Some (if if_not_exists then Inr (ConstraintNoOpExists existing)
             else Inl (ConflictingConstraint (cdef_name existing)))
           else None)
      | None \<Rightarrow> None)))"

definition backing_precheck :: "constraint_request \<Rightarrow> schema_state \<Rightarrow> create_constraint_error option" where
  "backing_precheck request s =
     (if \<not> requires_backing_index (crq_kind request) then None
      else if index_get (ss_indexes s) (crq_name request) \<noteq> None
      then Some (DuplicateIndexName (crq_name request))
      else (case backing_conflict (ss_indexes s) request of
          Some def \<Rightarrow> Some (BackingIndexConflict (''(:'' @ crq_label request @ '' {''
            @ join (crq_properties request) '', '' @ ''}) already covered by index `''
            @ idx_name def @ ''`''))
        | None \<Rightarrow> None))"

definition register_backing :: "constraint_definition \<Rightarrow> schema_state \<Rightarrow>
    create_constraint_error option \<times> schema_state" where
  "register_backing def s =
     (if requires_backing_index (cdef_kind def)
      then (case register_index_recording (backing_request def) True False s of
          (Inl err, s) \<Rightarrow> (Some (BackingIndexConflict (create_index_message err)),
             s\<lparr>ss_constraints := snd (constraint_try_drop (ss_constraints s) (cdef_name def) True)\<rparr>)
        | (Inr _, s) \<Rightarrow> (None, s))
      else (None, s))"

definition register_constraint :: "(constraint_definition \<Rightarrow> string option) \<Rightarrow> constraint_request \<Rightarrow>
    bool \<Rightarrow> schema_state \<Rightarrow> (create_constraint_error + create_constraint_outcome) \<times> schema_state" where
  "register_constraint violation request if_not_exists s =
     (case constraint_precheck request if_not_exists s of
        Some r \<Rightarrow> (r, s)
      | None \<Rightarrow>
     (case backing_precheck request s of
        Some e \<Rightarrow> (Inl e, s)
      | None \<Rightarrow>
     (case constraint_try_create (ss_constraints s) request if_not_exists of
        (Inl e, c) \<Rightarrow> (Inl e, s\<lparr>ss_constraints := c\<rparr>)
      | (Inr (ConstraintNoOpExists def), c) \<Rightarrow> (Inr (ConstraintNoOpExists def), s\<lparr>ss_constraints := c\<rparr>)
      | (Inr (ConstraintCreated def), c) \<Rightarrow>
          (case violation def of
             Some v \<Rightarrow> (Inl (DataViolation v),
               s\<lparr>ss_constraints := snd (constraint_try_drop c (cdef_name def) True)\<rparr>)
           | None \<Rightarrow>
               (case register_backing def (s\<lparr>ss_constraints := c\<rparr>) of
                  (Some e, s) \<Rightarrow> (Inl e, s)
                | (None, s) \<Rightarrow> (Inr (ConstraintCreated def),
                    (emit (CreateConstraint request if_not_exists) s)
                      \<lparr>ss_active := ss_active s + 1\<rparr>))))))"

definition drop_named_constraint :: "string \<Rightarrow> bool \<Rightarrow> schema_state \<Rightarrow>
    (drop_constraint_error + drop_constraint_outcome) \<times> schema_state" where
  "drop_named_constraint name if_exists s =
     (case constraint_try_drop (ss_constraints s) name if_exists of
        (Inr (ConstraintDropped def), c) \<Rightarrow>
          (let s = s\<lparr>ss_constraints := c\<rparr>;
               s = (case cdef_owned_index def of
                  Some index_name \<Rightarrow> snd (drop_named_index_inner index_name True False s)
                | None \<Rightarrow> s)
           in (Inr (ConstraintDropped def),
               emit (DropConstraint name if_exists) (s\<lparr>ss_active := ss_active s - 1\<rparr>)))
      | (r, c) \<Rightarrow> (r, s\<lparr>ss_constraints := c\<rparr>))"

section \<open>Replay\<close>

text \<open>
  \<open>replay_create_index\<close> and its siblings: refused while a recorder is installed. Only whether the
  replay fails is kept of the error text.
\<close>

definition replay_result :: "schema_state \<Rightarrow> ('e + 'a) \<times> schema_state \<Rightarrow> schema_state option" where
  "replay_result s p = (if ss_recorder s \<noteq> None then None
     else (case p of (Inl _, _) \<Rightarrow> None | (Inr _, s') \<Rightarrow> Some s'))"

fun replay_schema_event :: "(constraint_definition \<Rightarrow> string option) \<Rightarrow> mutation_event \<Rightarrow>
    schema_state \<Rightarrow> schema_state option" where
  "replay_schema_event violation (CreateIndex request ine) s =
     replay_result s (register_index request ine s)"
| "replay_schema_event violation (DropIndex name ife) s =
     replay_result s (drop_named_index name ife s)"
| "replay_schema_event violation (CreateConstraint request ine) s =
     replay_result s (register_constraint violation request ine s)"
| "replay_schema_event violation (DropConstraint name ife) s =
     replay_result s (drop_named_constraint name ife s)"
| "replay_schema_event violation _ s = Some s"

end
