(* ===== verification/Schema_Laws.thy ===== *)
theory Schema_Laws
  imports Schema_Engine
begin

text \<open>
  What schema commands guarantee: every uniqueness or key constraint keeps the RANGE index that
  backs it, a refused command changes nothing, and replaying the recorded events on an empty graph
  rebuilds both catalogs (the \<open>Populating\<close> mark of lazily built vector indexes aside, which is not
  durable state).
\<close>

section \<open>The invariant\<close>

definition backed :: "index_catalog \<Rightarrow> constraint_catalog \<Rightarrow> bool" where
  "backed ic cc \<longleftrightarrow> (\<forall>k d. map_of cc k = Some d \<longrightarrow> requires_backing_index (cdef_kind d) \<longrightarrow>
     (\<exists>i. index_get ic k = Some i \<and> idx_kind i = Range \<and> idx_entity i = cdef_entity d
        \<and> idx_label i = Some (cdef_label d) \<and> idx_properties i = cdef_properties d))"

definition schema_ok :: "schema_state \<Rightarrow> bool" where
  "schema_ok s \<longleftrightarrow> index_catalog_ok (ss_indexes s) \<and> constraint_catalog_ok (ss_constraints s)
     \<and> ss_active s = length (ss_constraints s) \<and> backed (ss_indexes s) (ss_constraints s)"

lemma constraint_owning_index_None:
  assumes "constraint_catalog_ok c" and "\<And>d. map_of c k = Some d \<Longrightarrow> \<not> requires_backing_index (cdef_kind d)"
  shows "constraint_owning_index c k = None"
proof -
  have "cdef_owned_index d \<noteq> Some k" if "d \<in> set (constraint_list c)" for d
  proof -
    from that obtain j where "(j, d) \<in> set c" by (auto simp: constraint_list_def)
    then have "map_of c j = Some d" using assms(1)
      by (intro map_of_is_SomeI) (auto simp: constraint_catalog_ok_def dest: sorted_keys_distinct)
    then show ?thesis using assms by (auto simp: constraint_catalog_ok_def split: if_splits)
  qed
  then show ?thesis by (auto simp: constraint_owning_index_def find_None_iff)
qed

lemma constraint_owning_index_Some:
  assumes c: "constraint_catalog_ok c" and k: "map_of c k = Some d" "requires_backing_index (cdef_kind d)"
  shows "constraint_owning_index c k = Some d"
proof (cases "constraint_owning_index c k")
  case None
  have "d \<in> set (constraint_list c)" using k(1) by (force simp: constraint_list_def dest: map_of_SomeD)
  then show ?thesis using None c k
    by (auto simp: constraint_owning_index_def find_None_iff constraint_catalog_ok_def)
next
  case (Some d')
  then have d': "d' \<in> set (constraint_list c)" "cdef_owned_index d' = Some k"
    by (auto simp: constraint_owning_index_def find_Some_iff)
  then obtain j where "(j, d') \<in> set c" by (auto simp: constraint_list_def)
  then have j: "map_of c j = Some d'" using c
    by (intro map_of_is_SomeI) (auto simp: constraint_catalog_ok_def dest: sorted_keys_distinct)
  then have "j = k" using c d'(2) by (auto simp: constraint_catalog_ok_def split: if_splits)
  with j k Some show ?thesis by simp
qed

lemma length_btree_insert_new:
  "map_of m k = None \<Longrightarrow> length (btree_insert k v m) = Suc (length m)"
  by (induction k v m rule: btree_insert.induct) (auto split: if_splits)

lemma length_btree_remove_old:
  "map_of m k \<noteq> None \<Longrightarrow> length (btree_remove k m) = length m - 1"
proof (induction k m rule: btree_remove.induct)
  case (2 k a b m)
  then show ?case by (cases m) (auto split: if_splits)
qed simp

section \<open>Creating a constraint\<close>

definition with_backing :: "constraint_definition \<Rightarrow> index_catalog \<Rightarrow> index_catalog" where
  "with_backing d c = (if requires_backing_index (cdef_kind d)
     then c\<lparr>icat_by_name := btree_insert (cdef_name d)
       (index_def_of (cdef_name d) (backing_request d)) (icat_by_name c)\<rparr> else c)"

lemma backing_request_simps [simp]:
  "irq_explicit_name (backing_request d) = Some (cdef_name d)" "irq_kind (backing_request d) = Range"
  "irq_entity (backing_request d) = cdef_entity d" "irq_label (backing_request d) = Some (cdef_label d)"
  "irq_properties (backing_request d) = cdef_properties d"
  by (simp_all add: backing_request_def)

text \<open>After the prechecks the backing index can always be created.\<close>

lemma backing_no_equivalent:
  assumes "backing_precheck r s = None" and "requires_backing_index (crq_kind r)"
    and "index_catalog_ok (ss_indexes s)"
  shows "index_get (ss_indexes s) (crq_name r) = None"
    and "index_find_equivalent (ss_indexes s) (backing_request (constraint_def_of r)) = None"
proof -
  show get: "index_get (ss_indexes s) (crq_name r) = None"
    using assms by (auto simp: backing_precheck_def split: if_splits)
  have no: "backing_conflict (ss_indexes s) r = None"
    using assms get by (auto simp: backing_precheck_def split: if_splits option.splits)
  have "\<not> equivalent d (backing_request (constraint_def_of r))"
    if d: "d \<in> set (index_list (ss_indexes s))" for d
  proof
    assume eq: "equivalent d (backing_request (constraint_def_of r))"
    from d obtain k where "(k, d) \<in> set (icat_by_name (ss_indexes s))" by (auto simp: index_list_def)
    then have k: "index_get (ss_indexes s) k = Some d" using assms(3) unfolding index_get_def
      by (intro map_of_is_SomeI) (auto simp: index_catalog_ok_def dest: sorted_keys_distinct)
    then have "idx_name d = k" using assms(3) by (auto simp: index_catalog_ok_def index_get_def)
    with k get have "idx_name d \<noteq> crq_name r" by auto
    with eq d no show False
      by (auto simp: backing_conflict_def find_None_iff equivalent_def split: if_splits)
  qed
  then show "index_find_equivalent (ss_indexes s) (backing_request (constraint_def_of r)) = None"
    by (auto simp: index_find_equivalent_def find_None_iff)
qed

lemma register_backing_succeeds:
  assumes "backing_precheck r s = None" and "index_catalog_ok (ss_indexes s)"
    and "ss_indexes s' = ss_indexes s"
  shows "register_backing (constraint_def_of r) s' =
    (None, s'\<lparr>ss_indexes := with_backing (constraint_def_of r) (ss_indexes s)\<rparr>)"
  using backing_no_equivalent [OF assms(1) _ assms(2)] assms(3)
  by (auto simp: register_backing_def with_backing_def register_index_recording_def
      index_try_create_def Let_def populate_index_data_def populates_lazily_def index_def_of_def)

lemma precheck_try_create:
  assumes "constraint_precheck r ine s = None"
  shows "constraint_get (ss_constraints s) (crq_name r) = None"
    and "constraint_try_create (ss_constraints s) r ine = (Inr (ConstraintCreated (constraint_def_of r)),
      btree_insert (crq_name r) (constraint_def_of r) (ss_constraints s))"
  using assms
  by (auto simp: constraint_precheck_def constraint_try_create_def Let_def split: option.splits if_splits)

lemma register_constraint_created:
  assumes "constraint_precheck r ine s = None" and "backing_precheck r s = None"
    and "violation (constraint_def_of r) = None" and "index_catalog_ok (ss_indexes s)"
  shows "register_constraint violation r ine s = (Inr (ConstraintCreated (constraint_def_of r)),
    emit (CreateConstraint r ine)
      (s\<lparr>ss_indexes := with_backing (constraint_def_of r) (ss_indexes s),
         ss_constraints := btree_insert (crq_name r) (constraint_def_of r) (ss_constraints s),
         ss_active := ss_active s + 1\<rparr>))"
  using assms precheck_try_create [OF assms(1)]
    register_backing_succeeds [OF assms(2,4), of "s\<lparr>ss_constraints :=
      btree_insert (crq_name r) (constraint_def_of r) (ss_constraints s)\<rparr>"]
  by (simp add: register_constraint_def emit_def)

lemma register_constraint_cases:
  assumes ok: "schema_ok s"
  obtains (refused) res where "register_constraint violation r ine s = (res, s)"
      and "\<And>d. res \<noteq> Inr (ConstraintCreated d)"
  | (created) "constraint_precheck r ine s = None" "backing_precheck r s = None"
      "violation (constraint_def_of r) = None"
proof (cases "constraint_precheck r ine s")
  case (Some res)
  then have "register_constraint violation r ine s = (res, s)" "\<And>d. res \<noteq> Inr (ConstraintCreated d)"
    by (auto simp: register_constraint_def constraint_precheck_def split: option.splits if_splits)
  then show thesis by (rule refused)
next
  case None
  note pre = this
  show thesis
  proof (cases "backing_precheck r s")
    case (Some e)
    with pre have "register_constraint violation r ine s = (Inl e, s)"
      by (simp add: register_constraint_def)
    then show thesis by (rule refused) simp
  next
    case None
    note nob = this
    show thesis
    proof (cases "violation (constraint_def_of r)")
      case (Some v)
      have "btree_remove (crq_name r) (btree_insert (crq_name r) (constraint_def_of r) (ss_constraints s))
          = ss_constraints s"
        using ok precheck_try_create(1) [OF pre]
        by (intro btree_remove_insert) (auto simp: schema_ok_def constraint_catalog_ok_def constraint_get_def)
      with pre nob Some have "register_constraint violation r ine s = (Inl (DataViolation v), s)"
        by (simp add: register_constraint_def precheck_try_create [OF pre] constraint_try_drop_def
            constraint_get_def)
      then show thesis by (rule refused) simp
    next
      case None
      with pre nob show thesis by (rule created)
    qed
  qed
qed

text \<open>What the checks before the catalog is written let through.\<close>

lemma constraint_precheck_free:
  "constraint_precheck r ine s = None \<longleftrightarrow> constraint_get (ss_constraints s) (crq_name r) = None
     \<and> (\<forall>d \<in> set (constraint_list (ss_constraints s)). \<not> same_shape d (constraint_def_of r))
     \<and> (\<forall>d. constraint_find_same_schema (ss_constraints s) r = Some d \<longrightarrow>
           \<not> kinds_conflict_for_validation (cdef_kind d) (crq_kind r))"
proof -
  have "constraint_find_equivalent (ss_constraints s) r = None
      \<longleftrightarrow> (\<forall>d \<in> set (constraint_list (ss_constraints s)). \<not> same_shape d (constraint_def_of r))"
    by (auto simp: constraint_find_equivalent_def find_None_iff constraint_def_of_def)
  then show ?thesis by (auto simp: constraint_precheck_def split: option.splits)
qed

lemma backing_precheck_free:
  assumes "index_catalog_ok (ss_indexes s)"
  shows "backing_precheck r s = None \<longleftrightarrow> (requires_backing_index (crq_kind r) \<longrightarrow>
     index_get (ss_indexes s) (crq_name r) = None
     \<and> (\<forall>x \<in> set (index_list (ss_indexes s)). \<not> (idx_kind x = Range \<and> idx_entity x = crq_entity r
           \<and> idx_label x = Some (crq_label r) \<and> idx_properties x = crq_properties r)))"
proof -
  have "idx_name x \<noteq> crq_name r" if new: "index_get (ss_indexes s) (crq_name r) = None"
    and x: "x \<in> set (index_list (ss_indexes s))" for x
  proof -
    obtain k where "(k, x) \<in> set (icat_by_name (ss_indexes s))" using x by (auto simp: index_list_def)
    then have "map_of (icat_by_name (ss_indexes s)) k = Some x"
      using assms by (intro map_of_is_SomeI) (auto simp: index_catalog_ok_def dest: sorted_keys_distinct)
    then show ?thesis using assms new by (auto simp: index_catalog_ok_def index_get_def)
  qed
  then have "backing_conflict (ss_indexes s) r = None \<longleftrightarrow> (\<forall>x \<in> set (index_list (ss_indexes s)).
      \<not> (idx_kind x = Range \<and> idx_entity x = crq_entity r \<and> idx_label x = Some (crq_label r) \<and> idx_properties x = crq_properties r))"
    if "index_get (ss_indexes s) (crq_name r) = None"
    using that unfolding backing_conflict_def find_None_iff by blast
  then show ?thesis by (auto simp: backing_precheck_def split: option.split)
qed

lemma register_constraint_exact:
  assumes "schema_ok s" and "register_constraint violation r ine s = (res, s')"
  shows "if constraint_precheck r ine s = None \<and> backing_precheck r s = None \<and> violation (constraint_def_of r) = None
    then res = Inr (ConstraintCreated (constraint_def_of r))
      \<and> s' = emit (CreateConstraint r ine)
         (s\<lparr>ss_indexes := with_backing (constraint_def_of r) (ss_indexes s),
            ss_constraints := btree_insert (crq_name r) (constraint_def_of r) (ss_constraints s),
            ss_active := ss_active s + 1\<rparr>)
    else s' = s \<and> (\<forall>d. res \<noteq> Inr (ConstraintCreated d))"
proof -
  have "index_catalog_ok (ss_indexes s)" using assms(1) by (simp add: schema_ok_def)
  note ok = register_constraint_created [of r ine s violation, OF _ _ _ this]
  from assms(1) show ?thesis
  proof (cases rule: register_constraint_cases [where violation = violation and r = r and ine = ine])
    case refused
    then show ?thesis using ok assms(2) by auto
  next
    case created
    then show ?thesis using ok assms(2) by simp
  qed
qed

lemma schema_ok_register_constraint:
  assumes ok: "schema_ok s"
  shows "schema_ok (snd (register_constraint violation r ine s))"
  using ok
proof (cases rule: register_constraint_cases [where violation = violation and r = r and ine = ine])
  case refused
  then show ?thesis using ok by simp
next
  case created
  let ?d = "constraint_def_of r"
  have ic: "index_catalog_ok (ss_indexes s)" and cc: "constraint_catalog_ok (ss_constraints s)"
    and bk: "backed (ss_indexes s) (ss_constraints s)" using ok by (auto simp: schema_ok_def)
  note get = precheck_try_create [OF created(1)]
  have "index_catalog_ok (with_backing ?d (ss_indexes s))"
    using ic backing_no_equivalent [OF created(2) _ ic]
    by (auto simp: with_backing_def intro!: index_catalog_ok_insert)
  moreover have "constraint_catalog_ok (btree_insert (crq_name r) ?d (ss_constraints s))"
    using constraint_catalog_ok_create [OF cc, of r ine] get(2) by simp
  moreover have "backed (with_backing ?d (ss_indexes s))
      (btree_insert (crq_name r) ?d (ss_constraints s))"
    using bk get(1) unfolding backed_def
    by (auto simp: with_backing_def index_get_def index_def_of_def split: if_splits)
  moreover have "ss_active s = length (ss_constraints s)" using ok by (simp add: schema_ok_def)
  ultimately show ?thesis
    unfolding register_constraint_created [of r ine s violation, OF created ic]
    using get(1) by (simp add: schema_ok_def emit_def length_btree_insert_new constraint_get_def)
qed

section \<open>Dropping a constraint\<close>

definition without_backing :: "constraint_definition \<Rightarrow> index_catalog \<Rightarrow> index_catalog" where
  "without_backing d c = (if requires_backing_index (cdef_kind d)
     then c\<lparr>icat_by_name := btree_remove (cdef_name d) (icat_by_name c)\<rparr> else c)"

lemma drop_named_constraint_missing:
  assumes "constraint_get (ss_constraints s) name = None"
  shows "drop_named_constraint name ife s =
    (if ife then Inr DropConstraintNoOpMissing else Inl (DropConstraintNotFound name), s)"
proof -
  have "btree_remove name c = c" if "map_of c name = None" for c :: constraint_catalog
    using that by (induction name c rule: btree_remove.induct) (auto split: if_splits)
  with assms show ?thesis
    by (simp add: drop_named_constraint_def constraint_try_drop_def constraint_get_def)
qed

lemma drop_named_constraint_dropped:
  assumes ok: "schema_ok s" and d: "constraint_get (ss_constraints s) name = Some d"
  shows "drop_named_constraint name ife s = (Inr (ConstraintDropped d),
    emit (DropConstraint name ife)
      (s\<lparr>ss_indexes := without_backing d (ss_indexes s),
         ss_constraints := btree_remove name (ss_constraints s), ss_active := ss_active s - 1\<rparr>))"
proof -
  have cc: "constraint_catalog_ok (ss_constraints s)" and bk: "backed (ss_indexes s) (ss_constraints s)"
    using ok by (auto simp: schema_ok_def)
  then have n: "cdef_name d = name"
    and own: "cdef_owned_index d = (if requires_backing_index (cdef_kind d) then Some name else None)"
    using d by (auto simp: constraint_catalog_ok_def constraint_get_def)
  have "constraint_owning_index (btree_remove name (ss_constraints s)) name = None"
    using cc by (intro constraint_owning_index_None constraint_catalog_ok_remove)
      (auto simp: map_of_btree_remove constraint_catalog_ok_def)
  moreover have "\<exists>i. index_get (ss_indexes s) name = Some i" if "requires_backing_index (cdef_kind d)"
    using bk d that by (auto simp: backed_def constraint_get_def)
  ultimately show ?thesis using d n own
    by (auto simp: drop_named_constraint_def constraint_try_drop_def drop_named_index_inner_def
        index_try_drop_def without_backing_def Let_def emit_def)
qed

lemma schema_ok_drop_constraint:
  assumes ok: "schema_ok s"
  shows "schema_ok (snd (drop_named_constraint name ife s))"
proof (cases "constraint_get (ss_constraints s) name")
  case None
  then show ?thesis using ok by (simp add: drop_named_constraint_missing)
next
  case (Some d)
  have ic: "index_catalog_ok (ss_indexes s)" and cc: "constraint_catalog_ok (ss_constraints s)"
    and bk: "backed (ss_indexes s) (ss_constraints s)" and n: "cdef_name d = name"
    using ok Some by (auto simp: schema_ok_def constraint_catalog_ok_def constraint_get_def)
  have "index_catalog_ok (without_backing d (ss_indexes s))"
    using ic unfolding index_catalog_ok_def without_backing_def
    by (auto simp: map_of_btree_remove sorted_keys_btree_remove split: if_splits)
  moreover have "backed (without_backing d (ss_indexes s)) (btree_remove name (ss_constraints s))"
    using bk ic cc n unfolding backed_def
    by (auto simp: without_backing_def index_get_def map_of_btree_remove index_catalog_ok_def
        constraint_catalog_ok_def split: if_splits)
  ultimately show ?thesis
    unfolding drop_named_constraint_dropped [OF ok Some]
    using cc ok Some
    by (simp add: schema_ok_def emit_def constraint_catalog_ok_remove length_btree_remove_old constraint_get_def)
qed

section \<open>Indexes\<close>

lemma register_index_keeps [simp]:
  "ss_constraints (snd (register_index_recording r ine rec s)) = ss_constraints s"
  "ss_active (snd (register_index_recording r ine rec s)) = ss_active s"
  by (auto simp: register_index_recording_def populate_index_data_def emit_def Let_def case_prod_beta
      split: sum.splits create_index_outcome.splits)

lemma index_try_create_cases:
  obtains (unchanged) res where "index_try_create c r ine = (res, c)" "\<And>d. res \<noteq> Inr (IndexCreated d)"
  | (created) name c' where "index_try_create c r ine = (Inr (IndexCreated (index_def_of name r)),
        c'\<lparr>icat_by_name := btree_insert name (index_def_of name r) (icat_by_name c)\<rparr>)"
      "icat_by_name c' = icat_by_name c" "index_find_equivalent c r = None"
      "(name, c') = (case irq_explicit_name r of Some n \<Rightarrow> (n, c) | None \<Rightarrow> next_auto_name c r)"
      "\<And>n. irq_explicit_name r = Some n \<Longrightarrow> index_get c n = None"
proof (cases "Option.bind (irq_explicit_name r) (index_get c)")
  case (Some x)
  then show thesis by (intro unchanged) (auto simp: index_try_create_def split: if_splits)
next
  case None
  note free = this
  show thesis
  proof (cases "index_find_equivalent c r")
    case (Some x)
    then show thesis using free by (intro unchanged) (auto simp: index_try_create_def split: if_splits)
  next
    case None
    obtain name c' where p: "(name, c') = (case irq_explicit_name r of Some n \<Rightarrow> (n, c)
        | None \<Rightarrow> next_auto_name c r)" by (metis surj_pair)
    moreover from p have "icat_by_name c' = icat_by_name c"
      using next_auto_name_keeps [of c r]
      by (auto split: option.splits simp del: next_auto_name_keeps simp flip: prod.inject) (metis snd_conv)
    ultimately show thesis using free None
      by (intro created [of name c']) (auto simp: index_try_create_def Let_def simp flip: p)
  qed
qed

lemma schema_ok_set_state:
  assumes "schema_ok s"
  shows "schema_ok (s\<lparr>ss_indexes := index_set_state (ss_indexes s) name st\<rparr>)"
proof -
  have "backed (index_set_state ic name st) cc" if "backed ic cc" for ic cc
    unfolding backed_def
  proof (intro allI impI)
    fix k d assume "map_of cc k = Some d" "requires_backing_index (cdef_kind d)"
    with that obtain i where "index_get ic k = Some i" "idx_kind i = Range"
      "idx_entity i = cdef_entity d" "idx_label i = Some (cdef_label d)" "idx_properties i = cdef_properties d"
      by (auto simp: backed_def)
    then show "\<exists>i. index_get (index_set_state ic name st) k = Some i \<and> idx_kind i = Range
        \<and> idx_entity i = cdef_entity d \<and> idx_label i = Some (cdef_label d)
        \<and> idx_properties i = cdef_properties d"
      by (cases "index_get ic name") (auto simp: index_set_state_def index_get_def)
  qed
  then show ?thesis using assms by (simp add: schema_ok_def index_catalog_ok_set_state)
qed

lemma backed_insert:
  assumes "backed ic cc" and "index_get ic name = None"
    and "icat_by_name ic' = btree_insert name d (icat_by_name ic)"
  shows "backed ic' cc"
  unfolding backed_def
proof (intro allI impI)
  fix k e assume "map_of cc k = Some e" "requires_backing_index (cdef_kind e)"
  with assms(1) obtain i where i: "index_get ic k = Some i" "idx_kind i = Range"
    "idx_entity i = cdef_entity e" "idx_label i = Some (cdef_label e)" "idx_properties i = cdef_properties e"
    unfolding backed_def by blast
  then have "index_get ic' k = Some i" using assms(2,3) by (auto simp: index_get_def)
  with i show "\<exists>i. index_get ic' k = Some i \<and> idx_kind i = Range \<and> idx_entity i = cdef_entity e
      \<and> idx_label i = Some (cdef_label e) \<and> idx_properties i = cdef_properties e" by blast
qed

lemma schema_ok_register_index:
  assumes ok: "schema_ok s" and len: "length (icat_by_name (ss_indexes s)) < 2 ^ 64"
  shows "schema_ok (snd (register_index r ine s))"
proof (cases rule: index_try_create_cases [of "ss_indexes s" r ine])
  case (unchanged res)
  have "register_index r ine s = (res, s)"
    using unchanged by (simp add: register_index_def register_index_recording_def Let_def
        split: sum.split create_index_outcome.split)
  then show ?thesis using ok by simp
next
  case (created name c')
  let ?c = "c'\<lparr>icat_by_name := btree_insert name (index_def_of name r) (icat_by_name (ss_indexes s))\<rparr>"
  have new: "map_of (icat_by_name (ss_indexes s)) name = None"
    using created(4,5) next_auto_name_is_fresh [OF len, of r]
    by (cases "irq_explicit_name r") (auto simp: index_get_def dest: arg_cong [where f = fst])
  have ic: "index_catalog_ok ?c"
    using index_catalog_ok_insert [OF _ created(2,3), of name] ok created(2) by (simp add: schema_ok_def)
  have bk: "backed ?c (ss_constraints s)"
    using ok new by - (rule backed_insert [where name = name and ic = "ss_indexes s"],
      simp_all add: schema_ok_def index_get_def)
  from ic bk have "schema_ok (s\<lparr>ss_indexes := ?c\<rparr>)" using ok by (simp add: schema_ok_def)
  then have "schema_ok (populate_index_data (index_def_of name r) (s\<lparr>ss_indexes := ?c\<rparr>))"
    using schema_ok_set_state [of "s\<lparr>ss_indexes := ?c\<rparr>" name Populating]
    by (auto simp: populate_index_data_def index_def_of_def)
  then show ?thesis
    unfolding register_index_def register_index_recording_def created(1)
    by (simp add: Let_def schema_ok_def emit_def)
qed

lemma schema_ok_drop_index:
  assumes ok: "schema_ok s"
  shows "schema_ok (snd (drop_named_index name ife s))"
proof (cases "constraint_owning_index (ss_constraints s) name")
  case (Some d)
  then show ?thesis using ok by (simp add: drop_named_index_def drop_named_index_inner_def)
next
  case None
  have "\<not> requires_backing_index (cdef_kind d)" if "map_of (ss_constraints s) name = Some d" for d
    using constraint_owning_index_Some [OF _ that] ok None by (auto simp: schema_ok_def)
  then have "backed (snd (index_try_drop (ss_indexes s) name ife)) (ss_constraints s)"
    using ok unfolding schema_ok_def backed_def
    by (auto simp: index_try_drop_def index_get_def Let_def map_of_btree_remove index_catalog_ok_def
        split: option.splits)
  then show ?thesis using ok None index_catalog_ok_drop [of "ss_indexes s" name ife]
    by (auto simp: drop_named_index_def drop_named_index_inner_def Let_def case_prod_beta schema_ok_def
        emit_def split: sum.splits drop_index_outcome.splits)
qed

section \<open>Schema histories\<close>

text \<open>The commands a recording graph runs, from the empty graph.\<close>

inductive schema_step :: "schema_state \<Rightarrow> schema_state \<Rightarrow> bool" where
  create_index: "length (icat_by_name (ss_indexes s)) < 2 ^ 64 \<Longrightarrow>
    schema_step s (snd (register_index request ine s))"
| drop_index: "schema_step s (snd (drop_named_index name ife s))"
| create_constraint: "schema_step s (snd (register_constraint violation request ine s))"
| drop_constraint: "schema_step s (snd (drop_named_constraint name ife s))"
| populate: "schema_step s (lazy_populate_vector_index name s)"

inductive_cases schema_stepE: "schema_step s s'"

inductive schema_reachable :: "schema_state \<Rightarrow> bool" where
  start: "schema_reachable (schema_new (Some []))"
| step: "schema_reachable s \<Longrightarrow> schema_step s s' \<Longrightarrow> schema_reachable s'"

lemma schema_ok_lazy: "schema_ok s \<Longrightarrow> schema_ok (lazy_populate_vector_index name s)"
  by (auto simp: lazy_populate_vector_index_def schema_ok_set_state split: option.split)

lemma schema_ok_step: "schema_ok s \<Longrightarrow> schema_step s s' \<Longrightarrow> schema_ok s'"
  by (erule schema_stepE) (simp_all add: schema_ok_register_index schema_ok_drop_index
      schema_ok_register_constraint schema_ok_drop_constraint schema_ok_lazy)

lemma schema_ok_new: "schema_ok (schema_new rec)"
  by (simp add: schema_ok_def schema_new_def index_catalog_ok_def index_catalog_default_def
      constraint_catalog_ok_def backed_def)

lemma schema_ok_reachable: "schema_reachable s \<Longrightarrow> schema_ok s"
  by (induction rule: schema_reachable.induct) (auto simp: schema_ok_new intro: schema_ok_step)

section \<open>Catalogs up to the population mark\<close>

abbreviation online :: "index_definition \<Rightarrow> index_definition" where
  "online d \<equiv> d\<lparr>idx_state := Online\<rparr>"

definition settled :: "index_catalog \<Rightarrow> index_catalog" where
  "settled c = c\<lparr>icat_by_name := map (\<lambda>(k, d). (k, online d)) (icat_by_name c)\<rparr>"

lemma map_of_online: "map_of (map (\<lambda>(k, d). (k, online d)) m) k = map_option online (map_of m k)"
  by (induction m) auto

lemma insert_online: "btree_insert k (online d) (map (\<lambda>(k, d). (k, online d)) m)
    = map (\<lambda>(k, d). (k, online d)) (btree_insert k d m)"
  by (induction k d m rule: btree_insert.induct) auto

lemma remove_online: "btree_remove k (map (\<lambda>(k, d). (k, online d)) m)
    = map (\<lambda>(k, d). (k, online d)) (btree_remove k m)"
  by (induction k m rule: btree_remove.induct) auto

lemma settled_get [simp]: "index_get (settled c) k = map_option online (index_get c k)"
  by (simp add: index_get_def settled_def map_of_online)

lemma equivalent_online [simp]: "equivalent (d\<lparr>idx_state := st\<rparr>) r = equivalent d r"
  by (simp add: equivalent_def split: stored_index_kind.split)

lemma settled_find_equivalent [simp]:
  "index_find_equivalent (settled c) r = map_option online (index_find_equivalent c r)"
proof -
  have "find (\<lambda>d. equivalent d r) (map online ds) = map_option online (find (\<lambda>d. equivalent d r) ds)"
    for ds by (induction ds) simp_all
  from this [of "index_list c"] show ?thesis
    by (simp add: index_find_equivalent_def index_list_def settled_def comp_def case_prod_beta)
qed

lemma auto_name_loop_online:
  "auto_name_loop n (map (\<lambda>(k, d). (k, online d)) m) base name seq = auto_name_loop n m base name seq"
  by (induction n arbitrary: name seq) (auto simp: map_of_online Let_def)

lemma settled_next_auto_name:
  "next_auto_name (settled c) r = (fst (next_auto_name c r), settled (snd (next_auto_name c r)))"
  by (simp add: next_auto_name_def settled_def auto_name_loop_online Let_def case_prod_beta
      del: auto_name_loop.simps)

fun index_created :: "create_index_error + create_index_outcome \<Rightarrow> bool" where
  "index_created (Inr (IndexCreated d)) = True"
| "index_created _ = False"

lemma settled_insert:
  "(settled c)\<lparr>icat_by_name := btree_insert n (index_def_of n r) (icat_by_name (settled c))\<rparr>
   = settled (c\<lparr>icat_by_name := btree_insert n (index_def_of n r) (icat_by_name c)\<rparr>)"
  using insert_online [of n "index_def_of n r" "icat_by_name c"]
  by (simp add: settled_def index_def_of_def)

text \<open>Creating an index commutes with forgetting the marks.\<close>

lemma settled_try_create:
  "snd (index_try_create (settled c) r ine) = settled (snd (index_try_create c r ine))
   \<and> index_created (fst (index_try_create (settled c) r ine))
       = index_created (fst (index_try_create c r ine))
   \<and> isl (fst (index_try_create (settled c) r ine)) = isl (fst (index_try_create c r ine))"
  by (cases "irq_explicit_name r"; cases "index_find_equivalent c r";
      cases "Option.bind (irq_explicit_name r) (index_get c)")
    (auto simp: index_try_create_def Let_def case_prod_beta settled_next_auto_name settled_insert)

lemma insert_online_same:
  "sorted_keys m \<Longrightarrow> map_of m k = Some d \<Longrightarrow>
   map (\<lambda>(k, d). (k, online d)) (btree_insert k (d\<lparr>idx_state := st\<rparr>) m) = map (\<lambda>(k, d). (k, online d)) m"
proof (induction m)
  case (Cons p m)
  obtain a b where p: "p = (a, b)" by (cases p)
  have "\<not> k < a"
    using Cons.prems p by (fastforce dest: map_of_SomeD split: if_splits)
  with Cons p show ?case by auto
qed simp

lemma settled_set_state: "index_catalog_ok c \<Longrightarrow> settled (index_set_state c k st) = settled c"
  by (simp add: index_set_state_def settled_def index_catalog_ok_def index_get_def insert_online_same
      split: option.split)

text \<open>A recovering graph \<open>t\<close>, with no recorder yet, that has caught up with \<open>s\<close>.\<close>

definition caught_up :: "schema_state \<Rightarrow> schema_state \<Rightarrow> bool" where
  "caught_up s t \<longleftrightarrow> schema_ok s \<and> schema_ok t \<and> settled (ss_indexes s) = settled (ss_indexes t)
     \<and> ss_constraints s = ss_constraints t \<and> ss_active s = ss_active t \<and> ss_recorder t = None"

lemma caught_up_get: "caught_up s t \<Longrightarrow>
    (index_get (ss_indexes s) k = None) = (index_get (ss_indexes t) k = None)"
  unfolding caught_up_def by (metis option.map_disc_iff settled_get)

lemma settled_list: "map online (index_list c) = index_list (settled c)"
  by (simp add: index_list_def settled_def comp_def case_prod_beta)

lemma caught_up_backing:
  assumes "caught_up s t"
  shows "(backing_precheck r s = None) = (backing_precheck r t = None)"
proof -
  have find_online: "(find P ds = None) = (find P (map online ds) = None)"
    if "\<And>d. P (online d) = P d" for P ds
    by (induction ds) (simp_all add: that)
  have "(backing_conflict c r = None) = (backing_conflict (settled c) r = None)" for c
    unfolding backing_conflict_def settled_list [symmetric] by (rule find_online) simp
  then have "(backing_conflict (ss_indexes s) r = None) = (backing_conflict (ss_indexes t) r = None)"
    using assms unfolding caught_up_def by metis
  then show ?thesis using caught_up_get [OF assms, of "crq_name r"]
    by (auto simp: backing_precheck_def split: option.splits)
qed

lemma settled_with_backing: "settled (with_backing d c) = with_backing d (settled c)"
  using insert_online [of "cdef_name d" "index_def_of (cdef_name d) (backing_request d)" "icat_by_name c"]
  by (simp add: with_backing_def settled_def index_def_of_def)

lemma settled_without_backing: "settled (without_backing d c) = without_backing d (settled c)"
  by (simp add: without_backing_def settled_def remove_online)

text \<open>Each command either records nothing and stays caught up, or records one event whose replay
  catches up again.\<close>

lemma register_index_created:
  assumes "index_try_create (ss_indexes s) r ine = (Inr (IndexCreated d), c)"
    and "index_catalog_ok (ss_indexes s)"
  shows "\<exists>c'. register_index r ine s = (Inr (IndexCreated d), emit (CreateIndex r ine) (s\<lparr>ss_indexes := c'\<rparr>))
    \<and> settled c' = settled c"
proof -
  have "index_catalog_ok c" using index_catalog_ok_create [OF assms(2), of r ine] assms(1) by simp
  then show ?thesis using assms(1)
    by (auto simp: register_index_def register_index_recording_def Let_def populate_index_data_def
        settled_set_state)
qed

lemma register_index_unchanged:
  "index_try_create (ss_indexes s) r ine = (res, ss_indexes s) \<Longrightarrow> \<not> index_created res \<Longrightarrow>
   register_index r ine s = (res, s)"
  by (cases res rule: index_created.cases)
    (simp_all add: register_index_def register_index_recording_def Let_def)

lemma emit_fields [simp]:
  "ss_indexes (emit e s) = ss_indexes s" "ss_constraints (emit e s) = ss_constraints s"
  "ss_active (emit e s) = ss_active s"
  "ss_recorder (emit e s) = map_option (\<lambda>es. es @ [e]) (ss_recorder s)"
  by (simp_all add: emit_def)

lemma caught_up_length:
  "caught_up s t \<Longrightarrow> length (icat_by_name (ss_indexes s)) = length (icat_by_name (ss_indexes t))"
  by (auto simp: caught_up_def settled_def dest!: arg_cong [where f = "\<lambda>c. length (icat_by_name c)"])

lemma replay_register_index:
  assumes st: "caught_up s t" and len: "length (icat_by_name (ss_indexes s)) < 2 ^ 64"
    and rec: "ss_recorder s = Some es" and s': "s' = snd (register_index r ine s)"
  shows "caught_up s' t \<and> ss_recorder s' = Some es \<or> ss_recorder s' = Some (es @ [CreateIndex r ine])
    \<and> (\<exists>t'. replay_schema_event v (CreateIndex r ine) t = Some t' \<and> caught_up s' t')"
proof (cases rule: index_try_create_cases [of "ss_indexes s" r ine])
  case (unchanged res)
  have "\<not> index_created res" using unchanged(2) by (cases res rule: index_created.cases) auto
  with unchanged(1) have "s' = s" unfolding s' by (simp add: register_index_unchanged)
  then show ?thesis using st rec by simp
next
  case (created name c')
  let ?c = "c'\<lparr>icat_by_name := btree_insert name (index_def_of name r) (icat_by_name (ss_indexes s))\<rparr>"
  let ?t = "index_try_create (ss_indexes t) r ine"
  have same: "settled (snd ?t) = settled ?c" "index_created (fst ?t)"
    using settled_try_create [of "ss_indexes s" r ine] settled_try_create [of "ss_indexes t" r ine] st
      created(1) by (auto simp: caught_up_def)
  then obtain d ct where t: "?t = (Inr (IndexCreated d), ct)"
    by (cases ?t) (auto elim!: index_created.elims)
  obtain cs where s: "register_index r ine s = (Inr (IndexCreated (index_def_of name r)),
      emit (CreateIndex r ine) (s\<lparr>ss_indexes := cs\<rparr>))" "settled cs = settled ?c"
    using register_index_created [OF created(1)] st by (auto simp: caught_up_def schema_ok_def)
  obtain ct' where t': "register_index r ine t = (Inr (IndexCreated d),
      emit (CreateIndex r ine) (t\<lparr>ss_indexes := ct'\<rparr>))" "settled ct' = settled ct"
    using register_index_created [OF t] st by (auto simp: caught_up_def schema_ok_def)
  have "schema_ok s'" "schema_ok (snd (register_index r ine t))"
    using st len caught_up_length [OF st] by (auto simp: s' caught_up_def intro: schema_ok_register_index)
  then have "caught_up s' (snd (register_index r ine t))"
    using st s t' same t by (simp add: caught_up_def s')
  moreover have "ss_recorder t = None" using st by (simp add: caught_up_def)
  ultimately show ?thesis using rec s t' by (simp add: s' replay_result_def)
qed

lemma replay_drop_index:
  assumes st: "caught_up s t" and rec: "ss_recorder s = Some es"
    and s': "s' = snd (drop_named_index name ife s)"
  shows "caught_up s' t \<and> ss_recorder s' = Some es \<or> ss_recorder s' = Some (es @ [DropIndex name ife])
    \<and> (\<exists>t'. replay_schema_event v (DropIndex name ife) t = Some t' \<and> caught_up s' t')"
proof -
  have cc: "ss_constraints s = ss_constraints t" and ts: "settled (ss_indexes s) = settled (ss_indexes t)"
    and tr: "ss_recorder t = None" using st by (auto simp: caught_up_def)
  have keep: "btree_remove k m = m" if "map_of m k = None" for k and m :: "(string \<times> index_definition) list"
    using that by (induction k m rule: btree_remove.induct) (auto split: if_splits)
  consider (same) "s' = s"
    | (dropped) d where "constraint_owning_index (ss_constraints s) name = None"
        "index_get (ss_indexes s) name = Some d"
  proof (cases "constraint_owning_index (ss_constraints s) name = None
      \<and> index_get (ss_indexes s) name \<noteq> None")
    case False
    then have "s' = s" unfolding s'
      by (auto simp: drop_named_index_def drop_named_index_inner_def index_try_drop_def index_get_def keep
          Let_def split: option.splits)
    then show thesis by (rule same)
  qed (use dropped in auto)
  then show ?thesis
  proof cases
    case same
    then show ?thesis using st rec by simp
  next
    case dropped
    then obtain e where e: "index_get (ss_indexes t) name = Some e"
      using caught_up_get [OF st, of name] by auto
    let ?drop = "\<lambda>c. c\<lparr>icat_by_name := btree_remove name (icat_by_name c)\<rparr>"
    have "settled (?drop c) = ?drop (settled c)" for c by (simp add: settled_def remove_online)
    then have "settled (?drop (ss_indexes s)) = settled (?drop (ss_indexes t))" using ts by simp
    moreover have s: "drop_named_index name ife s = (Inr (IndexDropped d),
        emit (DropIndex name ife) (s\<lparr>ss_indexes := ?drop (ss_indexes s)\<rparr>))"
      using dropped by (simp add: drop_named_index_def drop_named_index_inner_def index_try_drop_def Let_def)
    moreover have t: "drop_named_index name ife t = (Inr (IndexDropped e),
        emit (DropIndex name ife) (t\<lparr>ss_indexes := ?drop (ss_indexes t)\<rparr>))"
      using dropped e cc
      by (simp add: drop_named_index_def drop_named_index_inner_def index_try_drop_def Let_def)
    moreover have "schema_ok s'" "schema_ok (snd (drop_named_index name ife t))"
      using st by (auto simp: s' caught_up_def intro: schema_ok_drop_index)
    ultimately have "caught_up s' (snd (drop_named_index name ife t))"
      using st by (simp add: caught_up_def s')
    then show ?thesis using rec s t tr by (simp add: s' replay_result_def)
  qed
qed

lemma replay_register_constraint:
  assumes st: "caught_up s t" and rec: "ss_recorder s = Some es"
    and s': "s' = snd (register_constraint violation r ine s)"
    and v: "violation (constraint_def_of r) = None \<Longrightarrow> v (constraint_def_of r) = None"
  shows "caught_up s' t \<and> ss_recorder s' = Some es
    \<or> ss_recorder s' = Some (es @ [CreateConstraint r ine])
    \<and> (\<exists>t'. replay_schema_event v (CreateConstraint r ine) t = Some t' \<and> caught_up s' t')"
proof -
  have ok: "schema_ok s" "schema_ok t" and cc: "ss_constraints s = ss_constraints t"
    and tr: "ss_recorder t = None" using st by (auto simp: caught_up_def)
  show ?thesis
    using ok(1)
  proof (cases rule: register_constraint_cases [where violation = violation and r = r and ine = ine])
    case refused
    then show ?thesis using st rec by (simp add: s')
  next
    case created
    let ?u = "register_constraint v r ine t"
    have pre: "constraint_precheck r ine t = None" using created(1) unfolding constraint_precheck_def cc .
    have nob: "backing_precheck r t = None" using created(2) caught_up_backing [OF st] by simp
    have ic: "index_catalog_ok (ss_indexes s)" "index_catalog_ok (ss_indexes t)"
      using ok by (auto simp: schema_ok_def)
    note s = register_constraint_created [of r ine s violation, OF created ic(1)]
    note t = register_constraint_created [of r ine t v, OF pre nob v [OF created(3)] ic(2)]
    have "schema_ok s'" "schema_ok (snd ?u)"
      using ok by (auto simp: s' intro: schema_ok_register_constraint)
    then have "caught_up s' (snd ?u)"
      using st by (simp add: caught_up_def s' s t settled_with_backing)
    then show ?thesis using rec tr by (simp add: s' s t replay_result_def)
  qed
qed

lemma replay_drop_constraint:
  assumes st: "caught_up s t" and rec: "ss_recorder s = Some es"
    and s': "s' = snd (drop_named_constraint name ife s)"
  shows "caught_up s' t \<and> ss_recorder s' = Some es
    \<or> ss_recorder s' = Some (es @ [DropConstraint name ife])
    \<and> (\<exists>t'. replay_schema_event v (DropConstraint name ife) t = Some t' \<and> caught_up s' t')"
proof (cases "constraint_get (ss_constraints s) name")
  case None
  then show ?thesis using st rec by (simp add: s' drop_named_constraint_missing)
next
  case (Some d)
  have ok: "schema_ok s" "schema_ok t" and cc: "ss_constraints s = ss_constraints t"
    and tr: "ss_recorder t = None" using st by (auto simp: caught_up_def)
  note s = drop_named_constraint_dropped [OF ok(1) Some, of ife]
  note t = drop_named_constraint_dropped [OF ok(2), of name d ife]
  have "schema_ok s'" "schema_ok (snd (drop_named_constraint name ife t))"
    using ok by (auto simp: s' intro: schema_ok_drop_constraint)
  then have "caught_up s' (snd (drop_named_constraint name ife t))"
    using st Some cc by (simp add: caught_up_def s' s t settled_without_backing)
  then show ?thesis using rec tr Some cc by (simp add: s' s t replay_result_def)
qed

lemma replay_lazy:
  assumes "caught_up s t"
  shows "caught_up (lazy_populate_vector_index name s) t
    \<and> ss_recorder (lazy_populate_vector_index name s) = ss_recorder s"
  using assms schema_ok_lazy [of s name]
  by (auto simp: caught_up_def lazy_populate_vector_index_def settled_set_state schema_ok_def
      split: option.splits)

definition replay_schema_events :: "(constraint_definition \<Rightarrow> string option) \<Rightarrow> mutation_event list \<Rightarrow>
    schema_state \<Rightarrow> schema_state option" where
  "replay_schema_events v es s = fold (\<lambda>e r. Option.bind r (replay_schema_event v e)) es (Some s)"

lemma replay_snoc:
  "replay_schema_events v es s = Some t \<Longrightarrow>
   replay_schema_events v (es @ [e]) s = replay_schema_event v e t"
  by (simp add: replay_schema_events_def)

lemma replay_step:
  assumes st: "caught_up s t" and es: "ss_recorder s = Some es"
    and t: "replay_schema_events (\<lambda>_. None) es u = Some t" and step: "schema_step s s'"
  shows "\<exists>es' t'. ss_recorder s' = Some es' \<and> replay_schema_events (\<lambda>_. None) es' u = Some t' \<and> caught_up s' t'"
  using step
proof (cases rule: schema_step.cases)
  case (create_index request ine)
  then show ?thesis
    using replay_register_index [OF st create_index(2) es create_index(1), of "\<lambda>_. None"]
      t replay_snoc [OF t] by metis
next
  case (drop_index name ife)
  then show ?thesis
    using replay_drop_index [OF st es drop_index, of "\<lambda>_. None"] t replay_snoc [OF t] by metis
next
  case (create_constraint violation request ine)
  then show ?thesis
    using replay_register_constraint [OF st es create_constraint, of "\<lambda>_. None"] t replay_snoc [OF t] by metis
next
  case (drop_constraint name ife)
  then show ?thesis
    using replay_drop_constraint [OF st es drop_constraint, of "\<lambda>_. None"] t replay_snoc [OF t] by metis
next
  case (populate name)
  then show ?thesis using replay_lazy [OF st, of name] es t by auto
qed

section \<open>Properties of the schema commands\<close>

text \<open>A graph with one uniqueness constraint, for the concrete instances.\<close>

definition sample_constraint :: constraint_request where
  "sample_constraint = \<lparr>crq_name = ''c'', crq_kind = Unique, crq_entity = Node, crq_label = ''A'',
     crq_properties = [''p''], crq_backing = BackingHash\<rparr>"

definition sample_schema :: schema_state where
  "sample_schema = snd (register_constraint (\<lambda>_. None) sample_constraint False (schema_new (Some [])))"

lemma sample_schema_reachable: "schema_reachable sample_schema"
  unfolding sample_schema_def
  by (rule schema_reachable.step [OF schema_reachable.start]) (rule schema_step.create_constraint)

lemma sample_registered: "register_constraint (\<lambda>_. None) sample_constraint False (schema_new (Some []))
    = (Inr (ConstraintCreated (constraint_def_of sample_constraint)), sample_schema)"
proof -
  have "fst (register_constraint (\<lambda>_. None) sample_constraint False (schema_new (Some [])))
      = Inr (ConstraintCreated (constraint_def_of sample_constraint))"
    by (subst register_constraint_created)
      (simp_all add: constraint_precheck_def backing_precheck_def schema_new_def index_get_def
        constraint_find_equivalent_def constraint_find_same_schema_def constraint_list_def
        constraint_get_def backing_conflict_def index_list_def index_catalog_default_def
        index_catalog_ok_def)
  then show ?thesis by (metis prod.collapse sample_schema_def)
qed

lemma sample_get: "constraint_get (ss_constraints sample_schema) ''c'' =
    Some (constraint_def_of sample_constraint)"
proof -
  have "[(''c'', constraint_def_of sample_constraint)] = ss_constraints sample_schema"
    using sample_registered
  by (auto simp: register_constraint_def constraint_precheck_def backing_precheck_def schema_new_def
      index_get_def constraint_find_equivalent_def constraint_find_same_schema_def constraint_list_def
      constraint_get_def backing_conflict_def index_list_def index_catalog_default_def
      constraint_try_create_def register_backing_def sample_constraint_def requires_backing_index_def
      split: option.splits sum.splits prod.splits if_splits
      dest!: arg_cong [where f = ss_constraints] arg_cong [where f = snd])
  then show ?thesis by (metis constraint_get_def map_of_Cons_code(2))
qed

text \<open>
  C24. Schema invariant: whatever commands run, in whatever order and with whatever data, every
  uniqueness or key constraint has a RANGE index of its own name on its own label and properties,
  both catalogs are consistent, and \<open>active_constraints\<close>, which switches constraint checks on and
  off, counts the constraints.
\<close>

theorem schema_invariant:
  assumes "schema_reachable s"
  shows "schema_ok s"
  using assms by (rule schema_ok_reachable)

theorem schema_invariant_witness: "schema_ok sample_schema"
  by (rule schema_invariant [OF sample_schema_reachable])

text \<open>
  C37. Creating a constraint, \<open>register_constraint\<close> on a consistent schema, is all or nothing. It
  succeeds exactly when nothing stands in the way: no constraint has the name, none has the same kind
  on the same label and properties, the first constraint by name on that label and these properties,
  the one constraint that the code compares with, does not conflict with the requested kind; for a
  kind with a backing index, no index has the name and no RANGE index covers the label and properties;
  and the data check finds no violation. Then exactly the constraint, its backing index, one unit of the
  count and one event are added. Otherwise nothing is created, and both catalogs, the count and the
  recorder are as before.
\<close>

theorem register_constraint_atomic:
  assumes "schema_ok s" and "register_constraint violation r ine s = (res, s')"
  shows "if constraint_get (ss_constraints s) (crq_name r) = None
      \<and> (\<forall>d \<in> set (constraint_list (ss_constraints s)). \<not> same_shape d (constraint_def_of r))
      \<and> (\<forall>d. constraint_find_same_schema (ss_constraints s) r = Some d \<longrightarrow>
            \<not> kinds_conflict_for_validation (cdef_kind d) (crq_kind r))
      \<and> (requires_backing_index (crq_kind r) \<longrightarrow> index_get (ss_indexes s) (crq_name r) = None
            \<and> (\<forall>x \<in> set (index_list (ss_indexes s)). \<not> (idx_kind x = Range \<and> idx_entity x = crq_entity r
                  \<and> idx_label x = Some (crq_label r) \<and> idx_properties x = crq_properties r)))
      \<and> violation (constraint_def_of r) = None
    then res = Inr (ConstraintCreated (constraint_def_of r))
      \<and> s' = emit (CreateConstraint r ine)
         (s\<lparr>ss_indexes := with_backing (constraint_def_of r) (ss_indexes s),
            ss_constraints := btree_insert (crq_name r) (constraint_def_of r) (ss_constraints s),
            ss_active := ss_active s + 1\<rparr>)
    else s' = s \<and> (\<forall>d. res \<noteq> Inr (ConstraintCreated d))"
proof -
  have ic: "index_catalog_ok (ss_indexes s)" using assms(1) by (simp add: schema_ok_def)
  from register_constraint_exact [OF assms] show ?thesis
    unfolding constraint_precheck_free backing_precheck_free [OF ic] conj_assoc .
qed

theorem register_constraint_atomic_witness:
  "ss_active sample_schema = 1 \<and> ss_recorder sample_schema = Some [CreateConstraint sample_constraint False]"
  using register_constraint_atomic [OF schema_ok_new sample_registered]
  by (auto simp: schema_new_def split: if_splits dest!: arg_cong [where f = "\<lambda>s. (ss_active s, ss_recorder s)"])

text \<open>
  A constraint's backing index cannot be dropped: \<open>DROP INDEX\<close> on it fails with the owner's
  name and changes nothing.
\<close>

theorem drop_owned_index_refused:
  assumes "schema_reachable s" and "constraint_get (ss_constraints s) name = Some d"
    and "requires_backing_index (cdef_kind d)"
  shows "drop_named_index name ife s = (Inl (DropIndexConstraintOwned name name), s)
    \<and> index_get (ss_indexes s) name \<noteq> None"
proof -
  have cc: "constraint_catalog_ok (ss_constraints s)" and bk: "backed (ss_indexes s) (ss_constraints s)"
    using schema_ok_reachable [OF assms(1)] by (auto simp: schema_ok_def)
  have get: "map_of (ss_constraints s) name = Some d" using assms(2) by (simp add: constraint_get_def)
  then have "cdef_name d = name" using cc by (simp add: constraint_catalog_ok_def)
  then show ?thesis
    using constraint_owning_index_Some [OF cc get assms(3)] bk get assms(3)
    by (auto simp: drop_named_index_def drop_named_index_inner_def backed_def)
qed

theorem drop_owned_index_refused_witness:
  "drop_named_index ''c'' True sample_schema = (Inl (DropIndexConstraintOwned ''c'' ''c''), sample_schema)"
  using drop_owned_index_refused [OF sample_schema_reachable sample_get]
  by (simp add: sample_constraint_def requires_backing_index_def)

text \<open>
  Recovery of the schema: replaying the events a graph recorded on an empty graph succeeds and
  rebuilds its constraint catalog, its constraint count and its index catalog (generated names
  included), the \<open>Populating\<close> marks aside.
\<close>

theorem schema_replay_recovers:
  assumes "schema_reachable s"
  shows "\<exists>es t. ss_recorder s = Some es
    \<and> replay_schema_events (\<lambda>_. None) es (schema_new None) = Some t
    \<and> settled (ss_indexes t) = settled (ss_indexes s) \<and> ss_constraints t = ss_constraints s
    \<and> ss_active t = ss_active s"
proof -
  from assms have "\<exists>es t. ss_recorder s = Some es
      \<and> replay_schema_events (\<lambda>_. None) es (schema_new None) = Some t \<and> caught_up s t"
  proof (induction rule: schema_reachable.induct)
    case start
    have "caught_up (schema_new (Some [])) (schema_new None)"
      using schema_ok_new by (simp add: caught_up_def) (simp add: schema_new_def)
    then show ?case by (force simp: replay_schema_events_def schema_new_def)
  next
    case (step s s')
    then show ?case using replay_step by blast
  qed
  then show ?thesis by (auto simp: caught_up_def)
qed

theorem schema_replay_recovers_witness:
  "\<exists>es t. ss_recorder sample_schema = Some es
    \<and> replay_schema_events (\<lambda>_. None) es (schema_new None) = Some t
    \<and> constraint_get (ss_constraints t) ''c'' = Some (constraint_def_of sample_constraint)"
  using schema_replay_recovers [OF sample_schema_reachable] sample_get by auto

text \<open>The catalog's order is that of the names, so the constraint found is the first by name.\<close>

lemma find_least:
  "sorted_keys m \<Longrightarrow> find P (map snd m) = Some d \<Longrightarrow> map_of m k = Some e \<Longrightarrow> P e \<Longrightarrow>
     \<exists>j. map_of m j = Some d \<and> j \<le> k"
  for m :: "('k::linorder \<times> 'v) list"
proof (induction m)
  case (Cons a m)
  show ?case
  proof (cases "P (snd a)")
    case True
    then have "map_of (a # m) (fst a) = Some d" using Cons.prems(2) by (cases a) auto
    moreover have "fst a \<le> k"
    proof (cases "k = fst a")
      case False
      then have "(k, e) \<in> set m" using Cons.prems(3) by (auto dest: map_of_SomeD split: if_splits)
      then have "k \<in> set (map fst m)" by force
      then show ?thesis using Cons.prems(1) by auto
    qed simp
    ultimately show ?thesis by blast
  next
    case False
    then have k: "map_of m k = Some e" using Cons.prems(3,4) by (cases a) (auto split: if_splits)
    have "sorted_keys m" "find P (map snd m) = Some d" using False Cons.prems(1,2) by auto
    from Cons.IH [OF this k Cons.prems(4)] obtain j where j: "map_of m j = Some d" "j \<le> k" by blast
    then have "(j, d) \<in> set m" by (rule_tac map_of_SomeD)
    then have "fst a < j" using Cons.prems(1) by (force simp: sorted_wrt.simps)
    then have "map_of (a # m) j = Some d" using j(1) by (cases a) auto
    then show ?thesis using j(2) by blast
  qed
qed simp

lemma same_schema_first:
  assumes "constraint_catalog_ok c" and "constraint_find_same_schema c r = Some d" and "constraint_get c name = Some e"
    and "cdef_entity e = crq_entity r" "cdef_label e = crq_label r" "cdef_properties e = crq_properties r" and "d \<noteq> e"
  shows "cdef_name d < name"
proof -
  obtain j where j: "map_of c j = Some d" "j \<le> name"
    using find_least [of c _ d name e] assms
    by (auto simp: constraint_catalog_ok_def constraint_find_same_schema_def constraint_list_def constraint_get_def)
  then have "cdef_name d = j" "j \<noteq> name" using assms(1,3,7) by (auto simp: constraint_catalog_ok_def constraint_get_def)
  then show ?thesis using j(2) by simp
qed

text \<open>An existence constraint \<open>a\<close> and a property-type constraint \<open>b\<close> on the same property.\<close>

definition existence_request :: constraint_request where
  "existence_request = \<lparr>crq_name = ''a'', crq_kind = Existence, crq_entity = Node, crq_label = ''A'',
     crq_properties = [''p''], crq_backing = BackingRange\<rparr>"

definition typed_request :: "string \<Rightarrow> stored_scalar_type \<Rightarrow> constraint_request" where
  "typed_request name t = \<lparr>crq_name = name, crq_kind = PropertyType \<lparr>alternatives = [TermScalar t]\<rparr>,
     crq_entity = Node, crq_label = ''A'', crq_properties = [''p''], crq_backing = BackingRange\<rparr>"

definition hidden_conflict_schema :: schema_state where
  "hidden_conflict_schema = snd (register_constraint (\<lambda>_. None) (typed_request ''b'' ScInteger) False
     (snd (register_constraint (\<lambda>_. None) existence_request False (schema_new (Some [])))))"

lemma hidden_conflict_reachable: "schema_reachable hidden_conflict_schema"
  unfolding hidden_conflict_schema_def
  by (intro schema_reachable.step [OF _ schema_step.create_constraint] schema_reachable.start)

lemma hidden_conflict_constraints: "ss_constraints hidden_conflict_schema =
    [(''a'', constraint_def_of existence_request), (''b'', constraint_def_of (typed_request ''b'' ScInteger))]"
  by (simp add: hidden_conflict_schema_def register_constraint_def constraint_precheck_def backing_precheck_def
      schema_new_def constraint_find_equivalent_def constraint_find_same_schema_def constraint_list_def
      constraint_get_def constraint_try_create_def register_backing_def requires_backing_index_def
      constraint_def_of_def emit_def existence_request_def typed_request_def)

text \<open>
  C40. The 22N66 check compares the requested kind with one constraint only, \<open>d\<close>, the first by name on
  the requested label and properties. When \<open>d\<close> does not conflict with the request, another constraint
  \<open>e\<close> on the same label and properties does, and nothing else stands in the way (the name, an equivalent
  constraint, the backing index, the data), the constraint is created: \<open>d\<close> comes before \<open>e\<close> by name, and
  the catalog then holds both \<open>e\<close> and the new constraint, whose kinds conflict.
\<close>

theorem property_type_conflict_missed:
  assumes "schema_ok s"
    and "constraint_find_same_schema (ss_constraints s) r = Some d"
    and "\<not> kinds_conflict_for_validation (cdef_kind d) (crq_kind r)"
    and "constraint_get (ss_constraints s) name = Some e" and "cdef_entity e = crq_entity r"
    and "cdef_label e = crq_label r" and "cdef_properties e = crq_properties r"
    and "kinds_conflict_for_validation (cdef_kind e) (crq_kind r)"
    and "constraint_get (ss_constraints s) (crq_name r) = None"
    and "constraint_find_equivalent (ss_constraints s) r = None"
    and "backing_precheck r s = None" and "violation (constraint_def_of r) = None"
  shows "\<exists>s'. register_constraint violation r ine s = (Inr (ConstraintCreated (constraint_def_of r)), s')
    \<and> cdef_name d < name
    \<and> constraint_get (ss_constraints s') name = Some e
    \<and> constraint_get (ss_constraints s') (crq_name r) = Some (constraint_def_of r)"
proof -
  have pre: "constraint_precheck r ine s = None" using assms(2,3,9,10) by (simp add: constraint_precheck_def)
  have "index_catalog_ok (ss_indexes s)" and cc: "constraint_catalog_ok (ss_constraints s)"
    using assms(1) by (simp_all add: schema_ok_def)
  note created = register_constraint_created [of r ine s violation, OF pre assms(11,12) this(1)]
  have "name \<noteq> crq_name r" using assms(4,9) by auto
  moreover have "cdef_name d < name"
    using same_schema_first [OF cc assms(2,4)] assms(3,5-8) by auto
  ultimately show ?thesis using created assms(4)
    by (simp add: constraint_get_def emit_def split: option.split)
qed

text \<open>With an existence constraint \<open>a\<close> first, \<open>p\<close> must be an integer (\<open>b\<close>) and a float (\<open>c\<close>).\<close>

theorem property_type_conflict_missed_witness:
  "\<exists>s. schema_reachable s
    \<and> (\<exists>b c. constraint_get (ss_constraints s) ''b'' = Some b \<and> constraint_get (ss_constraints s) ''c'' = Some c
         \<and> cdef_kind b = PropertyType \<lparr>alternatives = [TermScalar ScInteger]\<rparr>
         \<and> cdef_kind c = PropertyType \<lparr>alternatives = [TermScalar ScFloat]\<rparr>
         \<and> cdef_label b = cdef_label c \<and> cdef_properties b = cdef_properties c)"
proof -
  let ?s = "hidden_conflict_schema" and ?r = "typed_request ''c'' ScFloat"
  note s = hidden_conflict_reachable hidden_conflict_constraints
  have "\<exists>s'. register_constraint (\<lambda>_. None) ?r False ?s = (Inr (ConstraintCreated (constraint_def_of ?r)), s')
      \<and> cdef_name (constraint_def_of existence_request) < ''b''
      \<and> constraint_get (ss_constraints s') ''b'' = Some (constraint_def_of (typed_request ''b'' ScInteger))
      \<and> constraint_get (ss_constraints s') (crq_name ?r) = Some (constraint_def_of ?r)"
    by (rule property_type_conflict_missed [OF schema_ok_reachable [OF s(1)]])
      (simp_all add: s(2) constraint_find_same_schema_def constraint_find_equivalent_def constraint_list_def
        constraint_get_def constraint_def_of_def typed_request_def existence_request_def backing_precheck_def
        requires_backing_index_def)
  then obtain s' where s': "register_constraint (\<lambda>_. None) ?r False ?s = (Inr (ConstraintCreated (constraint_def_of ?r)), s')"
    "constraint_get (ss_constraints s') ''b'' = Some (constraint_def_of (typed_request ''b'' ScInteger))"
    "constraint_get (ss_constraints s') ''c'' = Some (constraint_def_of ?r)"
    by (auto simp: typed_request_def)
  have "schema_reachable s'"
    using schema_reachable.step [OF s(1) schema_step.create_constraint [of _ "\<lambda>_. None" ?r False]] s'(1) by simp
  moreover have "cdef_kind (constraint_def_of (typed_request n t)) = PropertyType \<lparr>alternatives = [TermScalar t]\<rparr>"
    "cdef_label (constraint_def_of (typed_request n t)) = ''A''"
    "cdef_properties (constraint_def_of (typed_request n t)) = [''p'']" for n t
    by (simp_all add: constraint_def_of_def typed_request_def)
  ultimately show ?thesis using s'(2,3) by metis
qed

end
