(* ===== verification/Schema_Encode.thy ===== *)
theory Schema_Encode
  imports Store_Codec Schema_Types
begin

text \<open>
  The schema half of \<open>crates/lora-store/src/codec.rs\<close>: writers and readers of index and constraint
  requests and definitions, which WAL records and snapshots carry.
\<close>

section \<open>Tags\<close>

definition index_kind_tag :: "stored_index_kind \<Rightarrow> u8" where
  "index_kind_tag k = (case k of
     Range \<Rightarrow> 1 | Text \<Rightarrow> 2 | Point \<Rightarrow> 3 | Lookup \<Rightarrow> 4 | Vector \<Rightarrow> 5 | Fulltext \<Rightarrow> 6)"

definition index_entity_tag :: "stored_index_entity \<Rightarrow> u8" where
  "index_entity_tag e = (case e of Node \<Rightarrow> 1 | Relationship \<Rightarrow> 2)"

definition index_state_tag :: "stored_index_state \<Rightarrow> u8" where
  "index_state_tag s = (case s of Online \<Rightarrow> 1 | Populating \<Rightarrow> 2)"

definition scalar_tag :: "stored_scalar_type \<Rightarrow> u8" where
  "scalar_tag s = (case s of
     ScBoolean \<Rightarrow> 1 | ScString \<Rightarrow> 2 | ScInteger \<Rightarrow> 3 | ScFloat \<Rightarrow> 4 | ScDate \<Rightarrow> 5 | ScLocalTime \<Rightarrow> 6
   | ScZonedTime \<Rightarrow> 7 | ScLocalDateTime \<Rightarrow> 8 | ScZonedDateTime \<Rightarrow> 9 | ScDuration \<Rightarrow> 10 | ScPoint \<Rightarrow> 11
   | ScMap \<Rightarrow> 12 | ScAny \<Rightarrow> 13)"

definition vector_coord_tag :: "stored_vector_coord_type \<Rightarrow> u8" where
  "vector_coord_tag c = (case c of
     CoordInt8 \<Rightarrow> 1 | CoordInt16 \<Rightarrow> 2 | CoordInt32 \<Rightarrow> 3 | CoordInt64 \<Rightarrow> 4 | CoordFloat32 \<Rightarrow> 5
   | CoordFloat64 \<Rightarrow> 6)"

definition CONSTRAINT_BACKING_HASH :: u8 where
  "CONSTRAINT_BACKING_HASH = 0x80"

section \<open>Writers\<close>

fun write_config_value :: "index_config_value \<Rightarrow> nat \<Rightarrow> store_codec_error + u8 list" where
  "write_config_value (CfgNumber v) depth = Inr (1 # write_f64 v)"
| "write_config_value (CfgInteger v) depth = Inr (2 # write_i64 v)"
| "write_config_value (CfgString v) depth = wseq [Inr [3], write_string v]"
| "write_config_value (CfgBool v) depth = Inr [4, bool_byte v]"
| "write_config_value (CfgList values) depth =
     (if depth \<ge> MAX_VALUE_NESTING then Inl (Encode EncodeNesting)
      else wseq (Inr [5] # write_len (length values)
        # map (\<lambda>value. write_config_value value (depth + 1)) values))"
| "write_config_value (CfgMap values) depth =
     (if depth \<ge> MAX_VALUE_NESTING then Inl (Encode EncodeNesting)
      else wseq [Inr [6], wseq (write_len (length values)
        # map (\<lambda>kv. wseq [write_string (fst kv), write_config_value (snd kv) (depth + 1)]) values)])"
| "write_config_value CfgNull depth = Inr [7]"

definition write_config_map_at ::
  "(string \<times> index_config_value) list \<Rightarrow> nat \<Rightarrow> store_codec_error + u8 list" where
  "write_config_map_at values depth = wseq (write_len (length values)
     # map (\<lambda>kv. wseq [write_string (fst kv), write_config_value (snd kv) depth]) values)"

definition write_config_map :: "(string \<times> index_config_value) list \<Rightarrow> store_codec_error + u8 list" where
  "write_config_map values = write_config_map_at values 0"

definition write_index_request :: "index_request \<Rightarrow> store_codec_error + u8 list" where
  "write_index_request r = wseq
     [write_optional_string (irq_explicit_name r), Inr [index_kind_tag (irq_kind r)],
      Inr [index_entity_tag (irq_entity r)], write_optional_string (irq_label r),
      write_string_vec (irq_additional_labels r), write_string_vec (irq_properties r),
      write_config_map (irq_options r)]"

definition write_index_definition :: "index_definition \<Rightarrow> store_codec_error + u8 list" where
  "write_index_definition d = wseq
     [write_string (idx_name d), Inr [index_kind_tag (idx_kind d)],
      Inr [index_entity_tag (idx_entity d)], write_optional_string (idx_label d),
      write_string_vec (idx_additional_labels d), write_string_vec (idx_properties d),
      write_config_map (idx_options d), Inr [index_state_tag (idx_state d)]]"

fun write_property_type_term :: "stored_property_type_term \<Rightarrow> u8 list" where
  "write_property_type_term (TermScalar s) = [1, scalar_tag s]"
| "write_property_type_term (TermList inner not_null) =
     2 # bool_byte not_null # write_property_type_term inner"
| "write_property_type_term (TermVector coord dimension) =
     3 # vector_coord_tag coord # write_u32 dimension"

definition write_property_type :: "stored_property_type \<Rightarrow> store_codec_error + u8 list" where
  "write_property_type t = wseq (write_len (length (alternatives t))
     # map (\<lambda>term. Inr (write_property_type_term term)) (alternatives t))"

definition write_constraint_kind ::
  "stored_constraint_kind \<Rightarrow> constraint_backing \<Rightarrow> store_codec_error + u8 list" where
  "write_constraint_kind kind backing =
     (let hash = (case backing of BackingRange \<Rightarrow> 0 | BackingHash \<Rightarrow> CONSTRAINT_BACKING_HASH) in
      case kind of
        Unique \<Rightarrow> Inr [1 OR hash]
      | Existence \<Rightarrow> Inr [2]
      | NodeKey \<Rightarrow> Inr [3 OR hash]
      | RelationshipKey \<Rightarrow> Inr [4 OR hash]
      | PropertyType t \<Rightarrow> wseq [Inr [5], write_property_type t])"

definition write_constraint_request :: "constraint_request \<Rightarrow> store_codec_error + u8 list" where
  "write_constraint_request r = wseq
     [write_string (crq_name r), write_constraint_kind (crq_kind r) (crq_backing r),
      Inr [index_entity_tag (crq_entity r)], write_string (crq_label r),
      write_string_vec (crq_properties r)]"

definition write_constraint_definition :: "constraint_definition \<Rightarrow> store_codec_error + u8 list" where
  "write_constraint_definition d = wseq
     [write_string (cdef_name d), write_constraint_kind (cdef_kind d) (cdef_backing d),
      Inr [index_entity_tag (cdef_entity d)], write_string (cdef_label d),
      write_string_vec (cdef_properties d), write_optional_string (cdef_owned_index d)]"

definition encode_index_request :: "index_request \<Rightarrow> store_codec_error + u8 list" where
  "encode_index_request r = write_index_request r"

definition encode_constraint_request :: "constraint_request \<Rightarrow> store_codec_error + u8 list" where
  "encode_constraint_request r = write_constraint_request r"

definition encode_index_definitions :: "index_definition list \<Rightarrow> store_codec_error + u8 list" where
  "encode_index_definitions defs = wseq (write_len (length defs) # map write_index_definition defs)"

definition encode_constraint_definitions ::
  "constraint_definition list \<Rightarrow> store_codec_error + u8 list" where
  "encode_constraint_definitions defs =
     wseq (write_len (length defs) # map write_constraint_definition defs)"

section \<open>Readers\<close>

definition read_index_kind :: "stored_index_kind read" where
  "read_index_kind = rbind read_u8 (\<lambda>tag.
     if tag = 1 then rret Range else if tag = 2 then rret Text else if tag = 3 then rret Point
     else if tag = 4 then rret Lookup else if tag = 5 then rret Vector
     else if tag = 6 then rret Fulltext
     else rfail (Decode (InvalidTag ''index kind'' tag)))"

definition read_index_entity :: "stored_index_entity read" where
  "read_index_entity = rbind read_u8 (\<lambda>tag.
     if tag = 1 then rret Node else if tag = 2 then rret Relationship
     else rfail (Decode (InvalidTag ''index entity'' tag)))"

definition read_index_state :: "stored_index_state read" where
  "read_index_state = rbind read_u8 (\<lambda>tag.
     if tag = 1 then rret Online else if tag = 2 then rret Populating
     else rfail (Decode (InvalidTag ''index state'' tag)))"

definition read_scalar_type :: "stored_scalar_type read" where
  "read_scalar_type = rbind read_u8 (\<lambda>tag.
     if tag = 1 then rret ScBoolean else if tag = 2 then rret ScString
     else if tag = 3 then rret ScInteger else if tag = 4 then rret ScFloat
     else if tag = 5 then rret ScDate else if tag = 6 then rret ScLocalTime
     else if tag = 7 then rret ScZonedTime else if tag = 8 then rret ScLocalDateTime
     else if tag = 9 then rret ScZonedDateTime else if tag = 10 then rret ScDuration
     else if tag = 11 then rret ScPoint else if tag = 12 then rret ScMap
     else if tag = 13 then rret ScAny
     else rfail (Decode (InvalidTag ''scalar type'' tag)))"

definition read_vector_coord_type :: "stored_vector_coord_type read" where
  "read_vector_coord_type = rbind read_u8 (\<lambda>tag.
     if tag = 1 then rret CoordInt8 else if tag = 2 then rret CoordInt16
     else if tag = 3 then rret CoordInt32 else if tag = 4 then rret CoordInt64
     else if tag = 5 then rret CoordFloat32 else if tag = 6 then rret CoordFloat64
     else rfail (Decode (InvalidTag ''vector coord type'' tag)))"

fun read_config_value :: "nat \<Rightarrow> index_config_value read" where
  "read_config_value 0 = rfail (Decode OutOfFuel)"
| "read_config_value (Suc fuel) = rbind read_u8 (\<lambda>tag.
     if tag = 1 then rmap CfgNumber read_f64
     else if tag = 2 then rmap CfgInteger read_i64
     else if tag = 3 then rmap CfgString read_string
     else if tag = 4 then rmap (\<lambda>b. CfgBool (b \<noteq> 0)) read_u8
     else if tag = 5 then
       rbind enter (\<lambda>_. rbind
         (rbind (read_len_bounded ''index config list value'')
            (\<lambda>len. rmany len (read_config_value fuel)))
         (\<lambda>vs. rbind leave (\<lambda>_. rret (CfgList vs))))
     else if tag = 6 then
       rbind enter (\<lambda>_. rbind
         (rbind (read_len_bounded ''index config map entry'')
            (\<lambda>len. rmany len (rbind read_string (\<lambda>key. rmap (Pair key) (read_config_value fuel)))))
         (\<lambda>kvs. rbind leave (\<lambda>_. rret (CfgMap (btree_of kvs)))))
     else if tag = 7 then rret CfgNull
     else rfail (Decode (InvalidTag ''index config value'' tag)))"

declare read_config_value.simps [simp del]

definition read_config_map :: "nat \<Rightarrow> (string \<times> index_config_value) list read" where
  "read_config_map fuel = rmap btree_of
     (rbind (read_len_bounded ''index config map entry'')
        (\<lambda>len. rmany len (rbind read_string (\<lambda>key. rmap (Pair key) (read_config_value fuel)))))"

fun read_property_type_term :: "nat \<Rightarrow> stored_property_type_term read" where
  "read_property_type_term 0 = rfail (Decode OutOfFuel)"
| "read_property_type_term (Suc fuel) = rbind read_u8 (\<lambda>tag.
     if tag = 1 then rmap TermScalar read_scalar_type
     else if tag = 2 then rbind read_u8 (\<lambda>not_null.
       rmap (\<lambda>inner. TermList inner (not_null \<noteq> 0)) (read_property_type_term fuel))
     else if tag = 3 then rbind read_vector_coord_type (\<lambda>coord.
       rmap (TermVector coord) read_u32)
     else rfail (Decode (InvalidTag ''property-type term'' tag)))"

declare read_property_type_term.simps [simp del]

definition read_property_type :: "nat \<Rightarrow> stored_property_type read" where
  "read_property_type fuel =
     rmap (\<lambda>ts. \<lparr>alternatives = ts\<rparr>) (rbind (read_len_bounded ''property type alternative'')
       (\<lambda>len. rmany len (read_property_type_term fuel)))"

definition read_constraint_kind :: "nat \<Rightarrow> (stored_constraint_kind \<times> constraint_backing) read" where
  "read_constraint_kind fuel = rbind read_u8 (\<lambda>tag.
     let backing = (if tag AND CONSTRAINT_BACKING_HASH \<noteq> 0
           \<and> tag AND NOT CONSTRAINT_BACKING_HASH \<in> {1, 3, 4} then BackingHash else BackingRange);
         tag = (case backing of BackingHash \<Rightarrow> tag AND NOT CONSTRAINT_BACKING_HASH
           | BackingRange \<Rightarrow> tag)
     in rmap (\<lambda>kind. (kind, backing))
       (if tag = 1 then rret Unique
        else if tag = 2 then rret Existence
        else if tag = 3 then rret NodeKey
        else if tag = 4 then rret RelationshipKey
        else if tag = 5 then rmap PropertyType (read_property_type fuel)
        else rfail (Decode (InvalidTag ''constraint kind'' tag))))"

definition read_index_request :: "nat \<Rightarrow> index_request read" where
  "read_index_request fuel =
     rbind read_optional_string (\<lambda>explicit_name. rbind read_index_kind (\<lambda>kind.
     rbind read_index_entity (\<lambda>entity. rbind read_optional_string (\<lambda>label.
     rbind read_string_vec (\<lambda>additional_labels. rbind read_string_vec (\<lambda>properties.
     rbind (read_config_map fuel) (\<lambda>options.
       rret \<lparr>irq_explicit_name = explicit_name, irq_kind = kind, irq_entity = entity,
         irq_label = label, irq_additional_labels = additional_labels,
         irq_properties = properties, irq_options = options\<rparr>)))))))"

definition read_index_definition :: "nat \<Rightarrow> index_definition read" where
  "read_index_definition fuel =
     rbind read_string (\<lambda>name. rbind read_index_kind (\<lambda>kind.
     rbind read_index_entity (\<lambda>entity. rbind read_optional_string (\<lambda>label.
     rbind read_string_vec (\<lambda>additional_labels. rbind read_string_vec (\<lambda>properties.
     rbind (read_config_map fuel) (\<lambda>options. rbind read_index_state (\<lambda>state.
       rret \<lparr>idx_name = name, idx_kind = kind, idx_entity = entity,
         idx_label = label, idx_additional_labels = additional_labels,
         idx_properties = properties, idx_options = options, idx_state = state\<rparr>))))))))"

definition read_constraint_request :: "nat \<Rightarrow> constraint_request read" where
  "read_constraint_request fuel =
     rbind read_string (\<lambda>name. rbind (read_constraint_kind fuel) (\<lambda>(kind, backing).
     rbind read_index_entity (\<lambda>entity. rbind read_string (\<lambda>label.
     rbind read_string_vec (\<lambda>properties.
       rret \<lparr>crq_name = name, crq_kind = kind, crq_entity = entity, crq_label = label,
         crq_properties = properties, crq_backing = backing\<rparr>)))))"

definition read_constraint_definition :: "nat \<Rightarrow> constraint_definition read" where
  "read_constraint_definition fuel =
     rbind read_string (\<lambda>name. rbind (read_constraint_kind fuel) (\<lambda>(kind, backing).
     rbind read_index_entity (\<lambda>entity. rbind read_string (\<lambda>label.
     rbind read_string_vec (\<lambda>properties. rbind read_optional_string (\<lambda>owned_index.
       rret \<lparr>cdef_name = name, cdef_kind = kind, cdef_entity = entity, cdef_label = label,
         cdef_properties = properties, cdef_owned_index = owned_index, cdef_backing = backing\<rparr>))))))"

text \<open>The entry points read the whole input; the recursion bound is one more than its length.\<close>

definition decode_all :: "(nat \<Rightarrow> 'a read) \<Rightarrow> u8 list \<Rightarrow> store_codec_error + 'a" where
  "decode_all m bs = run_read (rbind (m (Suc (length bs)))
     (\<lambda>value. rbind finish (\<lambda>_. rret value))) (reader_new bs)"

definition decode_index_request :: "u8 list \<Rightarrow> store_codec_error + index_request" where
  "decode_index_request bs = decode_all read_index_request bs"

definition decode_constraint_request :: "u8 list \<Rightarrow> store_codec_error + constraint_request" where
  "decode_constraint_request bs = decode_all read_constraint_request bs"

definition decode_index_definitions :: "u8 list \<Rightarrow> store_codec_error + index_definition list" where
  "decode_index_definitions bs = decode_all (\<lambda>fuel. rbind (read_len_bounded ''index definition'')
     (\<lambda>len. rmany len (read_index_definition fuel))) bs"

definition decode_constraint_definitions ::
  "u8 list \<Rightarrow> store_codec_error + constraint_definition list" where
  "decode_constraint_definitions bs = decode_all (\<lambda>fuel.
     rbind (read_len_bounded ''constraint definition'')
       (\<lambda>len. rmany len (read_constraint_definition fuel))) bs"

end
