(* ===== verification/Schema_Roundtrip.thy ===== *)
theory Schema_Roundtrip
  imports Schema_Encode Store_Values
begin

text \<open>
  Schema requests and definitions read back as they were written. A constraint's backing is kept
  only by the kinds that have a backing index: for the others the writer drops a \<open>Hash\<close> backing, so
  that a well-formed definition of such a kind has \<open>Range\<close>.
\<close>

section \<open>Well-formed schema objects\<close>

fun wf_config :: "index_config_value \<Rightarrow> bool" where
  "wf_config (CfgString s) = wf_str s"
| "wf_config (CfgList vs) = list_all wf_config vs"
| "wf_config (CfgMap kvs) =
     (sorted_keys kvs \<and> list_all (\<lambda>kv. wf_str (fst kv) \<and> wf_config (snd kv)) kvs)"
| "wf_config _ = True"

definition wf_options :: "(string \<times> index_config_value) list \<Rightarrow> bool" where
  "wf_options kvs \<longleftrightarrow> wf_config (CfgMap kvs)"

fun cfg_nesting :: "index_config_value \<Rightarrow> nat" where
  "cfg_nesting (CfgList vs) = Suc (fold max (map cfg_nesting vs) 0)"
| "cfg_nesting (CfgMap kvs) = Suc (fold max (map (\<lambda>kv. cfg_nesting (snd kv)) kvs) 0)"
| "cfg_nesting _ = 0"

definition wf_index_request :: "index_request \<Rightarrow> bool" where
  "wf_index_request r \<longleftrightarrow> pred_option wf_str (irq_explicit_name r) \<and> pred_option wf_str (irq_label r)
     \<and> list_all wf_str (irq_additional_labels r) \<and> list_all wf_str (irq_properties r)
     \<and> wf_options (irq_options r)"

definition wf_index_definition :: "index_definition \<Rightarrow> bool" where
  "wf_index_definition d \<longleftrightarrow> wf_str (idx_name d) \<and> pred_option wf_str (idx_label d)
     \<and> list_all wf_str (idx_additional_labels d) \<and> list_all wf_str (idx_properties d)
     \<and> wf_options (idx_options d)"

definition backing_kept :: "stored_constraint_kind \<Rightarrow> constraint_backing \<Rightarrow> bool" where
  "backing_kept kind backing \<longleftrightarrow> (backing = BackingHash \<longrightarrow> requires_backing_index kind)"

definition wf_constraint_request :: "constraint_request \<Rightarrow> bool" where
  "wf_constraint_request r \<longleftrightarrow> wf_str (crq_name r) \<and> wf_str (crq_label r)
     \<and> list_all wf_str (crq_properties r) \<and> backing_kept (crq_kind r) (crq_backing r)"

definition wf_constraint_definition :: "constraint_definition \<Rightarrow> bool" where
  "wf_constraint_definition d \<longleftrightarrow> wf_str (cdef_name d) \<and> wf_str (cdef_label d)
     \<and> list_all wf_str (cdef_properties d) \<and> pred_option wf_str (cdef_owned_index d)
     \<and> backing_kept (cdef_kind d) (cdef_backing d)"

section \<open>Fields\<close>

lemma parses_tag1: "f tag = rret x \<Longrightarrow> store.parses k (rbind read_u8 f) [tag] x"
  by (rule store.parses_bind_end [OF parses_read_u8])

lemma parses_index_kind: "store.parses k read_index_kind [index_kind_tag x] x"
  unfolding read_index_kind_def by (rule parses_tag1) (cases x; simp add: index_kind_tag_def)

lemma parses_index_entity: "store.parses k read_index_entity [index_entity_tag x] x"
  unfolding read_index_entity_def by (rule parses_tag1) (cases x; simp add: index_entity_tag_def)

lemma parses_index_state: "store.parses k read_index_state [index_state_tag x] x"
  unfolding read_index_state_def by (rule parses_tag1) (cases x; simp add: index_state_tag_def)

lemma parses_scalar_type: "store.parses k read_scalar_type [scalar_tag x] x"
  unfolding read_scalar_type_def by (rule parses_tag1) (cases x; simp add: scalar_tag_def)

lemma parses_vector_coord_type: "store.parses k read_vector_coord_type [vector_coord_tag x] x"
  unfolding read_vector_coord_type_def by (rule parses_tag1) (cases x; simp add: vector_coord_tag_def)

lemma parses_written_string:
  "write_string s = Inr bs \<Longrightarrow> wf_str s \<Longrightarrow> store.parses k read_string bs s"
  by (auto intro: parses_read_string)

lemma parses_optional_string:
  assumes "write_optional_string v = Inr bs" and "pred_option wf_str v"
  shows "store.parses k read_optional_string bs v"
proof (cases v)
  case None
  then show ?thesis using assms unfolding read_optional_string_def
    by (auto simp: write_optional_string_def intro!: parses_tag1)
next
  case (Some s)
  then obtain out where out: "write_string s = Inr out" and bs: "bs = 1 # out"
    using assms(1) by (auto simp: write_optional_string_def)
  have "store.parses k (rmap Some read_string) out v"
    using Some assms(2) by (intro parses_rmap [OF parses_written_string [OF out]]) simp_all
  then show ?thesis unfolding read_optional_string_def bs by (intro parses_tagged) simp
qed

text \<open>A counted sequence of elements read by any reader that inverts their writer.\<close>

lemma parses_counted_written:
  assumes "wseq (write_len (length xs) # map w xs) = Inr bs"
    and "\<And>x b. x \<in> set xs \<Longrightarrow> w x = Inr b \<Longrightarrow> 0 < length b"
    and "\<And>x b. x \<in> set xs \<Longrightarrow> w x = Inr b \<Longrightarrow> store.parses k m b x"
  shows "store.parses k (rbind (read_len_bounded l) (\<lambda>len. rmany len m)) bs xs"
proof -
  from assms(1) obtain out where out: "wseq (map w xs) = Inr out" and n: "length xs < usize_limit"
    and bs: "bs = write_u64 (of_nat (length xs)) @ out" by auto
  have "store.parses k (rmany (length xs) m) out (map (\<lambda>x. x) xs)"
    by (rule store.parses_many_written [OF out]) (rule assms(3))
  moreover have "length xs \<le> length out" using out by (rule wseq_map_length) (rule assms(2))
  ultimately show ?thesis unfolding bs using n by (intro parses_counted) simp_all
qed

lemma parses_string_vec:
  assumes "write_string_vec vs = Inr bs" and "list_all wf_str vs"
  shows "store.parses k read_string_vec bs vs"
  unfolding read_string_vec_def
  by (rule parses_counted_written [OF assms(1) [unfolded write_string_vec_def]])
    (use assms(2) in \<open>auto simp: list_all_iff intro: parses_read_string\<close>)

section \<open>Index options\<close>

lemma write_config_value_nonempty: "write_config_value v d = Inr bs \<Longrightarrow> 0 < length bs"
  by (cases v) (auto split: if_splits)

lemma parses_map_entry:
  assumes b: "wseq [write_string key, w x] = Inr b" and key: "wf_str key"
    and x: "\<And>c. w x = Inr c \<Longrightarrow> store.parses k m c x"
  shows "store.parses k (rbind read_string (\<lambda>key. rmap (Pair key) m)) b (key, x)"
proof -
  from b obtain a c where a: "write_string key = Inr a" and c: "w x = Inr c" and bs: "b = a @ c" by auto
  show ?thesis unfolding bs
    by (intro store.parses_bind [OF parses_written_string [OF a key]] parses_rmap [OF x [OF c]]) simp
qed

lemma parses_config_value:
  assumes "write_config_value v d = Inr bs" and "wf_config v" and "cfg_nesting v < fuel"
  shows "store.parses (cfg_nesting v) (read_config_value fuel) bs v"
  using assms
proof (induction v d arbitrary: bs fuel rule: write_config_value.induct)
  case (5 vs d)
  then obtain f where f: "fuel = Suc f" by (cases fuel) auto
  define k where "k = fold max (map cfg_nesting vs) 0"
  have k: "cfg_nesting (CfgList vs) = Suc k" by (simp add: k_def)
  from 5 obtain out where d: "\<not> MAX_VALUE_NESTING \<le> d" and bs: "bs = 5 # out"
    and out: "wseq (write_len (length vs) # map (\<lambda>v. write_config_value v (d + 1)) vs) = Inr out"
    by (auto split: if_splits)
  have "store.parses k (rbind (read_len_bounded ''index config list value'')
      (\<lambda>len. rmany len (read_config_value f))) out vs"
  proof (rule parses_counted_written [OF out])
    fix v b assume v: "v \<in> set vs" and b: "write_config_value v (d + 1) = Inr b"
    have le: "cfg_nesting v \<le> k" using v by (simp add: k_def fold_max_ge)
    then have "store.parses (cfg_nesting v) (read_config_value f) b v"
      using 5 v b d f k by (intro "5.IH") (auto simp: list_all_iff)
    then show "store.parses k (read_config_value f) b v" by (rule store.parses_mono) (rule le)
  qed (rule write_config_value_nonempty)
  then have "store.parses (Suc k) (read_config_value (Suc f)) bs (CfgList vs)"
    unfolding bs read_config_value.simps
    by (intro parses_tagged) (simp, rule store.parses_nested, assumption, simp)
  then show ?case by (simp only: k f)
next
  case (6 kvs d)
  then obtain f where f: "fuel = Suc f" by (cases fuel) auto
  define k where "k = fold max (map (\<lambda>kv. cfg_nesting (snd kv)) kvs) 0"
  have k: "cfg_nesting (CfgMap kvs) = Suc k" by (simp add: k_def)
  from 6 obtain out where d: "\<not> MAX_VALUE_NESTING \<le> d" and bs: "bs = 6 # out"
    and out: "wseq (write_len (length kvs)
      # map (\<lambda>kv. wseq [write_string (fst kv), write_config_value (snd kv) (d + 1)]) kvs) = Inr out"
    by (auto split: if_splits)
  have "store.parses k (rbind (read_len_bounded ''index config map entry'') (\<lambda>len. rmany len
      (rbind read_string (\<lambda>key. rmap (Pair key) (read_config_value f))))) out kvs"
  proof (rule parses_counted_written [OF out])
    fix kv b assume kv: "kv \<in> set kvs"
      and b: "wseq [write_string (fst kv), write_config_value (snd kv) (d + 1)] = Inr b"
    have le: "cfg_nesting (snd kv) \<le> k" using kv by (simp add: k_def fold_max_ge)
    have "store.parses k (read_config_value f) c (snd kv)" if c: "write_config_value (snd kv) (d + 1) = Inr c" for c
    proof -
      have "store.parses (cfg_nesting (snd kv)) (read_config_value f) c (snd kv)"
        using 6 kv c d f k le by (intro "6.IH") (auto simp: list_all_iff)
      then show ?thesis by (rule store.parses_mono) (rule le)
    qed
    then have "store.parses k (rbind read_string (\<lambda>key. rmap (Pair key) (read_config_value f))) b (fst kv, snd kv)"
      using 6 kv b
      by (intro parses_map_entry [where w = "\<lambda>x. write_config_value x (d + 1)"]) (auto simp: list_all_iff)
    then show "store.parses k (rbind read_string (\<lambda>key. rmap (Pair key) (read_config_value f))) b kv" by simp
  qed auto
  then have "store.parses (Suc k) (read_config_value (Suc f)) bs (CfgMap kvs)"
    unfolding bs read_config_value.simps using 6
    by (intro parses_tagged) (simp, rule store.parses_nested, assumption, simp)
  then show ?case by (simp only: k f)
next
  case (3 s d)
  then show ?case by (cases fuel)
    (auto simp: read_config_value.simps intro!: parses_tagged parses_rmap [OF parses_read_string])
next
  case (1 x d)
  then show ?case by (cases fuel)
    (auto simp: read_config_value.simps intro!: parses_tagged parses_rmap [OF parses_read_f64])
next
  case (2 x d)
  then show ?case by (cases fuel)
    (auto simp: read_config_value.simps intro!: parses_tagged parses_rmap [OF parses_read_i64])
next
  case (4 x d)
  then show ?case by (cases fuel)
    (auto simp: read_config_value.simps bool_byte_def intro!: parses_tagged parses_rmap [OF parses_read_u8])
next
  case (7 d)
  then show ?case by (cases fuel)
    (auto simp: read_config_value.simps intro!: parses_tag1)
qed

lemma cfg_nesting_elem:
  "v \<in> set vs \<Longrightarrow> Suc (cfg_nesting v) \<le> cfg_nesting (CfgList vs)"
  "kv \<in> set kvs \<Longrightarrow> Suc (cfg_nesting (snd kv)) \<le> cfg_nesting (CfgMap kvs)"
  by (simp_all add: fold_max_ge)

lemma wseq_map_elem: "wseq (map w xs) = Inr out \<Longrightarrow> x \<in> set xs \<Longrightarrow> \<exists>b. w x = Inr b \<and> length b \<le> length out"
proof (induction xs arbitrary: out)
  case (Cons a xs)
  then obtain b c where "w a = Inr b" "wseq (map w xs) = Inr c" "out = b @ c" by auto
  with Cons.IH [of c] Cons.prems(2) show ?case by fastforce
qed simp

lemma write_config_value_bounds:
  "write_config_value v d = Inr bs \<Longrightarrow>
   cfg_nesting v < length bs \<and> (d + cfg_nesting v \<le> MAX_VALUE_NESTING \<or> cfg_nesting v = 0)"
proof (induction v d arbitrary: bs rule: write_config_value.induct)
  case (5 vs d)
  then obtain out where d: "d < MAX_VALUE_NESTING"
    and out: "wseq (map (\<lambda>v. write_config_value v (d + 1)) vs) = Inr out"
    and bs: "bs = 5 # write_u64 (of_nat (length vs)) @ out" by (auto split: if_splits)
  have "cfg_nesting v \<le> length out \<and> d + 1 + cfg_nesting v \<le> MAX_VALUE_NESTING" if v: "v \<in> set vs" for v
    using wseq_map_elem [OF out v] "5.IH" [OF _ v] d by fastforce
  then have "fold max (map cfg_nesting vs) 0 \<le> min (length out) (MAX_VALUE_NESTING - Suc d)"
    by (force intro!: fold_max_le)
  then show ?case using d by (auto simp: bs)
next
  case (6 kvs d)
  let ?w = "\<lambda>kv. wseq [write_string (fst kv), write_config_value (snd kv) (d + 1)]"
  from 6 obtain out where d: "d < MAX_VALUE_NESTING" and out: "wseq (map ?w kvs) = Inr out"
    and bs: "bs = 6 # write_u64 (of_nat (length kvs)) @ out" by (auto split: if_splits)
  have "cfg_nesting (snd kv) \<le> length out \<and> d + 1 + cfg_nesting (snd kv) \<le> MAX_VALUE_NESTING"
    if kv: "kv \<in> set kvs" for kv
    using wseq_map_elem [OF out kv] "6.IH" [OF _ kv] d by fastforce
  then have "fold max (map (\<lambda>kv. cfg_nesting (snd kv)) kvs) 0
      \<le> min (length out) (MAX_VALUE_NESTING - Suc d)"
    by (force intro!: fold_max_le)
  then show ?case using d by (auto simp: bs)
qed (auto dest: write_config_value_nonempty)

lemma parses_config_map:
  assumes "write_config_map kvs = Inr bs" and "wf_options kvs" and "length bs < fuel"
  shows "store.parses MAX_VALUE_NESTING (read_config_map fuel) bs kvs"
proof -
  let ?w = "\<lambda>kv. wseq [write_string (fst kv), write_config_value (snd kv) 0]"
  have out: "wseq (write_len (length kvs) # map ?w kvs) = Inr bs"
    using assms(1) by (simp add: write_config_map_def write_config_map_at_def)
  then obtain elems where elems: "wseq (map ?w kvs) = Inr elems" "length elems \<le> length bs" by auto
  have "store.parses MAX_VALUE_NESTING (rbind (read_len_bounded ''index config map entry'')
      (\<lambda>len. rmany len (rbind read_string (\<lambda>key. rmap (Pair key) (read_config_value fuel))))) bs kvs"
  proof (rule parses_counted_written [OF out])
    fix kv b assume kv: "kv \<in> set kvs" and b: "?w kv = Inr b"
    have len: "length b \<le> length bs" using wseq_map_elem [OF elems(1) kv] b elems(2) by auto
    have "store.parses MAX_VALUE_NESTING (read_config_value fuel) c (snd kv)"
      if c: "write_config_value (snd kv) 0 = Inr c" for c
    proof -
      have "length c \<le> length b" using b c by auto
      then have "cfg_nesting (snd kv) < fuel"
        using write_config_value_bounds [OF c] len assms(3) by simp
      then have "store.parses (cfg_nesting (snd kv)) (read_config_value fuel) c (snd kv)"
        using assms(2) kv c by (intro parses_config_value [OF c]) (auto simp: wf_options_def list_all_iff)
      then show ?thesis
        by (rule store.parses_mono) (use write_config_value_bounds [OF c] in auto)
    qed
    then have "store.parses MAX_VALUE_NESTING
        (rbind read_string (\<lambda>key. rmap (Pair key) (read_config_value fuel))) b (fst kv, snd kv)"
      using b assms(2) kv
      by (intro parses_map_entry [where w = "\<lambda>x. write_config_value x 0"])
        (auto simp: wf_options_def list_all_iff)
    then show "store.parses MAX_VALUE_NESTING
        (rbind read_string (\<lambda>key. rmap (Pair key) (read_config_value fuel))) b kv" by simp
  qed auto
  then show ?thesis unfolding read_config_map_def
    by (rule parses_rmap) (use assms(2) in \<open>simp add: wf_options_def\<close>)
qed

section \<open>Constraint kinds\<close>

lemma write_property_type_term_nonempty: "0 < length (write_property_type_term t)"
  by (cases t) simp_all

lemma parses_property_type_term:
  "length (write_property_type_term t) < fuel \<Longrightarrow>
   store.parses k (read_property_type_term fuel) (write_property_type_term t) t"
proof (induction t arbitrary: fuel)
  case (TermScalar x)
  then show ?case by (cases fuel)
    (auto simp: read_property_type_term.simps intro!: parses_tagged parses_rmap [OF parses_scalar_type])
next
  case (TermList t nn)
  then obtain f where f: "fuel = Suc f" "length (write_property_type_term t) < f" by (cases fuel) auto
  show ?case unfolding f write_property_type_term.simps read_property_type_term.simps
    by (intro parses_tagged)
      (simp, intro parses_tagged parses_rmap [OF TermList.IH [OF f(2)]], simp add: bool_byte_def)
next
  case (TermVector c n)
  then obtain f where f: "fuel = Suc f" by (cases fuel) auto
  have "store.parses k (rbind read_vector_coord_type (\<lambda>coord. rmap (TermVector coord) read_u32))
      ([vector_coord_tag c] @ write_u32 n) (TermVector c n)"
    by (intro store.parses_bind [OF parses_vector_coord_type] parses_rmap [OF parses_read_u32]) simp
  then show ?case unfolding f write_property_type_term.simps read_property_type_term.simps
    by (intro parses_tagged) simp
qed

lemma parses_property_type:
  assumes "write_property_type t = Inr bs" and "length bs < fuel"
  shows "store.parses k (read_property_type fuel) bs t"
proof -
  let ?w = "\<lambda>x. Inr (write_property_type_term x) :: store_codec_error + u8 list"
  have out: "wseq (write_len (length (alternatives t)) # map ?w (alternatives t)) = Inr bs"
    using assms(1) by (simp add: write_property_type_def)
  then obtain elems where elems: "wseq (map ?w (alternatives t)) = Inr elems" "length elems \<le> length bs"
    by auto
  have "store.parses k (rbind (read_len_bounded ''property type alternative'')
      (\<lambda>len. rmany len (read_property_type_term fuel))) bs (alternatives t)"
  proof (rule parses_counted_written [OF out])
    fix x b assume x: "x \<in> set (alternatives t)" and b: "?w x = Inr b"
    then have "length b \<le> length bs" using wseq_map_elem [OF elems(1) x] elems(2) by auto
    then show "store.parses k (read_property_type_term fuel) b x"
      using b assms(2) parses_property_type_term [of x fuel k] by simp
  qed (use write_property_type_term_nonempty in auto)
  then show ?thesis unfolding read_property_type_def by (rule parses_rmap) simp
qed

lemma parses_constraint_kind:
  assumes w: "write_constraint_kind kind backing = Inr bs" and "backing_kept kind backing"
    and "length bs < fuel"
  shows "store.parses k (read_constraint_kind fuel) bs (kind, backing)"
proof (cases kind)
  case (PropertyType t)
  then obtain out where out: "write_property_type t = Inr out" and bs: "bs = 5 # out"
    using w by (auto simp: write_constraint_kind_def)
  have "store.parses k (rmap PropertyType (read_property_type fuel)) out kind"
    using assms(3) PropertyType by (intro parses_rmap [OF parses_property_type [OF out]]) (simp_all add: bs)
  then have "store.parses k (rmap (\<lambda>kind. (kind, BackingRange))
      (rmap PropertyType (read_property_type fuel))) out (kind, BackingRange)"
    by (rule parses_rmap) simp
  moreover have "backing = BackingRange"
    using assms(2) PropertyType by (cases backing) (auto simp: backing_kept_def requires_backing_index_def)
  ultimately show ?thesis unfolding read_constraint_kind_def bs
    by (intro parses_tagged) (simp add: CONSTRAINT_BACKING_HASH_def)
qed (use w assms(2) in \<open>cases backing; auto simp: write_constraint_kind_def read_constraint_kind_def
    CONSTRAINT_BACKING_HASH_def backing_kept_def requires_backing_index_def rmap_def
    intro!: parses_tag1\<close>)+

section \<open>Requests and definitions\<close>

lemmas schema_parses = store.parses_bind [OF parses_optional_string] store.parses_bind [OF parses_index_kind]
  store.parses_bind [OF parses_index_entity] store.parses_bind [OF parses_string_vec]
  store.parses_bind [OF parses_written_string] store.parses_bind [OF parses_config_map]

lemma parses_index_request:
  assumes "write_index_request r = Inr bs" and "wf_index_request r" and "length bs < fuel"
  shows "store.parses MAX_VALUE_NESTING (read_index_request fuel) bs r"
proof -
  from assms(1) obtain b1 b4 b5 b6 b7 where w: "write_optional_string (irq_explicit_name r) = Inr b1"
      "write_optional_string (irq_label r) = Inr b4" "write_string_vec (irq_additional_labels r) = Inr b5"
      "write_string_vec (irq_properties r) = Inr b6" "write_config_map (irq_options r) = Inr b7"
    and bs: "bs = b1 @ [index_kind_tag (irq_kind r)] @ [index_entity_tag (irq_entity r)]
      @ b4 @ b5 @ b6 @ b7"
    by (auto simp: write_index_request_def)
  have wf: "pred_option wf_str (irq_explicit_name r)" "pred_option wf_str (irq_label r)"
      "list_all wf_str (irq_additional_labels r)" "list_all wf_str (irq_properties r)"
      "wf_options (irq_options r)" "length b7 < fuel"
    using assms(2,3) bs by (auto simp: wf_index_request_def)
  show ?thesis unfolding read_index_request_def bs
    by (intro schema_parses(2,3) store.parses_bind [OF parses_optional_string [OF w(1) wf(1)]]
        store.parses_bind [OF parses_optional_string [OF w(2) wf(2)]]
        store.parses_bind [OF parses_string_vec [OF w(3) wf(3)]]
        store.parses_bind [OF parses_string_vec [OF w(4) wf(4)]]
        store.parses_bind_end [OF parses_config_map [OF w(5) wf(5,6)]]) (cases r, simp)
qed

lemma parses_index_definition:
  assumes "write_index_definition d = Inr bs" and "wf_index_definition d" and "length bs < fuel"
  shows "store.parses MAX_VALUE_NESTING (read_index_definition fuel) bs d"
proof -
  from assms(1) obtain b1 b4 b5 b6 b7 where w: "write_string (idx_name d) = Inr b1"
      "write_optional_string (idx_label d) = Inr b4" "write_string_vec (idx_additional_labels d) = Inr b5"
      "write_string_vec (idx_properties d) = Inr b6" "write_config_map (idx_options d) = Inr b7"
    and bs: "bs = b1 @ [index_kind_tag (idx_kind d)] @ [index_entity_tag (idx_entity d)]
      @ b4 @ b5 @ b6 @ b7 @ [index_state_tag (idx_state d)]"
    unfolding write_index_definition_def by (auto simp del: write_string_Inr)
  have wf: "wf_str (idx_name d)" "pred_option wf_str (idx_label d)"
      "list_all wf_str (idx_additional_labels d)" "list_all wf_str (idx_properties d)"
      "wf_options (idx_options d)" "length b7 < fuel"
    using assms(2,3) bs by (auto simp: wf_index_definition_def)
  show ?thesis unfolding read_index_definition_def bs
    by (intro schema_parses(2,3) store.parses_bind [OF parses_written_string [OF w(1) wf(1)]]
        store.parses_bind [OF parses_optional_string [OF w(2) wf(2)]]
        store.parses_bind [OF parses_string_vec [OF w(3) wf(3)]]
        store.parses_bind [OF parses_string_vec [OF w(4) wf(4)]]
        store.parses_bind [OF parses_config_map [OF w(5) wf(5,6)]]
        store.parses_bind_end [OF parses_index_state]) (cases d, simp)
qed

lemma parses_constraint_request:
  assumes "write_constraint_request r = Inr bs" and "wf_constraint_request r" and "length bs < fuel"
  shows "store.parses MAX_VALUE_NESTING (read_constraint_request fuel) bs r"
proof -
  from assms(1) obtain b1 b2 b4 b5 where w: "write_string (crq_name r) = Inr b1"
      "write_constraint_kind (crq_kind r) (crq_backing r) = Inr b2"
      "write_string (crq_label r) = Inr b4" "write_string_vec (crq_properties r) = Inr b5"
    and bs: "bs = b1 @ b2 @ [index_entity_tag (crq_entity r)] @ b4 @ b5"
    unfolding write_constraint_request_def by (auto simp del: write_string_Inr)
  have wf: "wf_str (crq_name r)" "backing_kept (crq_kind r) (crq_backing r)" "length b2 < fuel"
      "wf_str (crq_label r)" "list_all wf_str (crq_properties r)"
    using assms(2,3) bs by (auto simp: wf_constraint_request_def)
  show ?thesis unfolding read_constraint_request_def bs
    by (rule store.parses_bind [OF parses_written_string [OF w(1) wf(1)]],
        rule store.parses_bind [OF parses_constraint_kind [OF w(2) wf(2,3)]], unfold prod.case)
      (intro schema_parses(3) store.parses_bind [OF parses_written_string [OF w(3) wf(4)]]
        store.parses_bind_end [OF parses_string_vec [OF w(4) wf(5)]], cases r, simp)
qed

lemma parses_constraint_definition:
  assumes "write_constraint_definition d = Inr bs" and "wf_constraint_definition d" and "length bs < fuel"
  shows "store.parses MAX_VALUE_NESTING (read_constraint_definition fuel) bs d"
proof -
  from assms(1) obtain b1 b2 b4 b5 b6 where w: "write_string (cdef_name d) = Inr b1"
      "write_constraint_kind (cdef_kind d) (cdef_backing d) = Inr b2"
      "write_string (cdef_label d) = Inr b4" "write_string_vec (cdef_properties d) = Inr b5"
      "write_optional_string (cdef_owned_index d) = Inr b6"
    and bs: "bs = b1 @ b2 @ [index_entity_tag (cdef_entity d)] @ b4 @ b5 @ b6"
    unfolding write_constraint_definition_def by (auto simp del: write_string_Inr)
  have wf: "wf_str (cdef_name d)" "backing_kept (cdef_kind d) (cdef_backing d)" "length b2 < fuel"
      "wf_str (cdef_label d)" "list_all wf_str (cdef_properties d)" "pred_option wf_str (cdef_owned_index d)"
    using assms(2,3) bs by (auto simp: wf_constraint_definition_def)
  show ?thesis unfolding read_constraint_definition_def bs
    by (rule store.parses_bind [OF parses_written_string [OF w(1) wf(1)]],
        rule store.parses_bind [OF parses_constraint_kind [OF w(2) wf(2,3)]], unfold prod.case)
      (intro schema_parses(3) store.parses_bind [OF parses_written_string [OF w(3) wf(4)]]
        store.parses_bind [OF parses_string_vec [OF w(4) wf(5)]]
        store.parses_bind_end [OF parses_optional_string [OF w(5) wf(6)]], cases d, simp)
qed

lemma decode_all_parses:
  assumes "store.parses MAX_VALUE_NESTING (m (Suc (length bs))) bs x" and "length bs \<le> isize_max"
  shows "decode_all m bs = Inr x"
  unfolding decode_all_def by (rule decode_run [OF assms(1)]) (simp_all add: reader_new_def assms(2))

lemma parses_definitions:
  assumes "wseq (write_len (length xs) # map w xs) = Inr bs" and "length bs < fuel"
    and "\<And>x b. x \<in> set xs \<Longrightarrow> w x = Inr b \<Longrightarrow> 0 < length b"
    and "\<And>x b. x \<in> set xs \<Longrightarrow> w x = Inr b \<Longrightarrow> length b < fuel \<Longrightarrow> store.parses k m b x"
  shows "store.parses k (rbind (read_len_bounded l) (\<lambda>len. rmany len m)) bs xs"
proof (rule parses_counted_written [OF assms(1,3)])
  from assms(1) obtain out where out: "wseq (map w xs) = Inr out" "length out \<le> length bs" by auto
  fix x b assume x: "x \<in> set xs" "w x = Inr b"
  then have "length b < fuel" using wseq_map_elem [OF out(1) x(1)] out(2) assms(2) by auto
  with x show "store.parses k m b x" by (rule assms(4))
qed

section \<open>Properties of the schema codec\<close>

definition sample_index :: index_definition where
  "sample_index = \<lparr>idx_name = ''i'', idx_kind = Vector, idx_entity = Relationship, idx_label = Some ''A'',
     idx_additional_labels = [''B''], idx_properties = [''p'', ''q''],
     idx_options = [(''d'', CfgInteger 3), (''s'', CfgList [CfgString ''cosine'', CfgBool True])],
     idx_state = Populating\<rparr>"

definition sample_owned :: constraint_definition where
  "sample_owned = \<lparr>cdef_name = ''c'', cdef_kind = NodeKey, cdef_entity = Node, cdef_label = ''A'',
     cdef_properties = [''p''], cdef_owned_index = Some ''c'', cdef_backing = BackingHash\<rparr>"

definition sample_irq :: index_request where
  "sample_irq = \<lparr>irq_explicit_name = None, irq_kind = Range, irq_entity = Node, irq_label = Some ''A'',
     irq_additional_labels = [], irq_properties = [''p''], irq_options = [(''n'', CfgNull)]\<rparr>"

definition sample_crq :: constraint_request where
  "sample_crq = \<lparr>crq_name = ''t'', crq_kind = PropertyType \<lparr>alternatives =
     [TermList (TermScalar ScInteger) True, TermVector CoordFloat32 8]\<rparr>, crq_entity = Node,
     crq_label = ''A'', crq_properties = [''p''], crq_backing = BackingRange\<rparr>"

lemmas schema_eval = write_string_def write_bytes_def write_len_ok usize_limit_def
  write_string_vec_def write_optional_string_def write_config_map_def write_config_map_at_def
  write_index_definition_def write_constraint_definition_def write_constraint_kind_def
  MAX_VALUE_NESTING_def wf_str_def as_bytes_def byte_of_char_def utf8_cont_def

lemma sample_irq_written:
  "\<exists>bs. encode_index_request sample_irq = Inr bs \<and> length bs \<le> 1000"
  "wf_index_request sample_irq"
  by (simp_all add: encode_index_request_def write_index_request_def sample_irq_def schema_eval
      wf_index_request_def wf_options_def)

lemma sample_crq_written:
  "\<exists>bs. encode_constraint_request sample_crq = Inr bs \<and> length bs \<le> 1000"
  "wf_constraint_request sample_crq"
  by (simp_all add: encode_constraint_request_def write_constraint_request_def sample_crq_def
      write_property_type_def schema_eval wf_constraint_request_def backing_kept_def)

lemma sample_index_written:
  "\<exists>bs. encode_index_definitions [sample_index] = Inr bs \<and> length bs \<le> 1000"
  "wf_index_definition sample_index"
  by (simp_all add: encode_index_definitions_def sample_index_def schema_eval
      wf_index_definition_def wf_options_def)

lemma sample_owned_written:
  "\<exists>bs. encode_constraint_definitions [sample_owned] = Inr bs \<and> length bs \<le> 1000"
  "wf_constraint_definition sample_owned"
  by (simp_all add: encode_constraint_definitions_def sample_owned_def schema_eval
      wf_constraint_definition_def backing_kept_def requires_backing_index_def)

text \<open>
  Index requests, the payload of a \<open>CREATE INDEX\<close> record, decode to themselves.
\<close>

theorem index_request_roundtrip:
  assumes "encode_index_request r = Inr bs" and "wf_index_request r" and "length bs \<le> isize_max"
  shows "decode_index_request bs = Inr r"
  using assms unfolding encode_index_request_def decode_index_request_def
  by (intro decode_all_parses parses_index_request) simp_all

theorem index_request_roundtrip_witness:
  "\<exists>bs. encode_index_request sample_irq = Inr bs \<and> decode_index_request bs = Inr sample_irq"
proof -
  obtain bs where bs: "encode_index_request sample_irq = Inr bs" "length bs \<le> 1000"
    using sample_irq_written(1) by blast
  with index_request_roundtrip [OF bs(1) sample_irq_written(2)] show ?thesis
    by (auto simp: isize_max_def)
qed

text \<open>
  Constraint requests decode to themselves, the backing bit included, when a \<open>Hash\<close> backing is
  only asked for by a kind that has a backing index.
\<close>

theorem constraint_request_roundtrip:
  assumes "encode_constraint_request r = Inr bs" and "wf_constraint_request r"
    and "length bs \<le> isize_max"
  shows "decode_constraint_request bs = Inr r"
  using assms unfolding encode_constraint_request_def decode_constraint_request_def
  by (intro decode_all_parses parses_constraint_request) simp_all

theorem constraint_request_roundtrip_witness:
  "\<exists>bs. encode_constraint_request sample_crq = Inr bs \<and> decode_constraint_request bs = Inr sample_crq"
proof -
  obtain bs where bs: "encode_constraint_request sample_crq = Inr bs" "length bs \<le> 1000"
    using sample_crq_written(1) by blast
  with constraint_request_roundtrip [OF bs(1) sample_crq_written(2)] show ?thesis
    by (auto simp: isize_max_def)
qed

text \<open>
  The index catalog a snapshot saves decodes to the same definitions in the same order.
\<close>

theorem index_definitions_roundtrip:
  assumes "encode_index_definitions defs = Inr bs" and "list_all wf_index_definition defs"
    and "length bs \<le> isize_max"
  shows "decode_index_definitions bs = Inr defs"
  unfolding decode_index_definitions_def
proof (rule decode_all_parses [OF parses_definitions assms(3)])
  show "wseq (write_len (length defs) # map write_index_definition defs) = Inr bs"
    using assms(1) by (simp only: encode_index_definitions_def)
qed (use assms(2) in \<open>auto simp: list_all_iff write_index_definition_def intro: parses_index_definition\<close>)

theorem index_definitions_roundtrip_witness:
  "\<exists>bs. encode_index_definitions [sample_index] = Inr bs \<and> decode_index_definitions bs = Inr [sample_index]"
proof -
  obtain bs where bs: "encode_index_definitions [sample_index] = Inr bs" "length bs \<le> 1000"
    using sample_index_written(1) by blast
  with index_definitions_roundtrip [OF bs(1)] sample_index_written(2) show ?thesis
    by (auto simp: isize_max_def)
qed

text \<open>
  The constraint catalog a snapshot saves decodes to the same definitions in the same order.
\<close>

theorem constraint_definitions_roundtrip:
  assumes "encode_constraint_definitions defs = Inr bs" and "list_all wf_constraint_definition defs"
    and "length bs \<le> isize_max"
  shows "decode_constraint_definitions bs = Inr defs"
  unfolding decode_constraint_definitions_def
proof (rule decode_all_parses [OF parses_definitions assms(3)])
  show "wseq (write_len (length defs) # map write_constraint_definition defs) = Inr bs"
    using assms(1) by (simp only: encode_constraint_definitions_def)
qed (use assms(2) in \<open>auto simp: list_all_iff write_constraint_definition_def
    intro: parses_constraint_definition\<close>)

theorem constraint_definitions_roundtrip_witness:
  "\<exists>bs. encode_constraint_definitions [sample_owned] = Inr bs \<and> decode_constraint_definitions bs = Inr [sample_owned]"
proof -
  obtain bs where bs: "encode_constraint_definitions [sample_owned] = Inr bs" "length bs \<le> 1000"
    using sample_owned_written(1) by blast
  with constraint_definitions_roundtrip [OF bs(1)] sample_owned_written(2) show ?thesis
    by (auto simp: isize_max_def)
qed

end
