(* ===== verification/Wal_Encode.thy ===== *)
theory Wal_Encode
  imports Schema_Roundtrip Mutation_Event
begin

text \<open>
  Log sequence numbers and errors of \<open>crates/lora-wal\<close> (\<open>lsn.rs\<close>, \<open>errors.rs\<close>) and the encoding half
  of its payload codec (\<open>codec/format.rs\<close>, \<open>codec/encode.rs\<close>): the writers of events, and the size
  functions that compute a payload's length before it is written.
\<close>

section \<open>Log sequence numbers\<close>

type_synonym lsn = u64

definition lsn_checked_next :: "lsn \<Rightarrow> lsn option" where
  "lsn_checked_next l = (if unat l + 1 < 2 ^ 64 then Some (l + 1) else None)"

definition lsn_next :: "lsn \<Rightarrow> lsn" where
  "lsn_next l = (case lsn_checked_next l of Some n \<Rightarrow> n | None \<Rightarrow> l)"

section \<open>Errors\<close>

datatype wal_encode_reason =
    WalNesting
  | WalLengthOverflow
  | WalPayloadOverflow
  | WalScalarExpected
  | WalSchemaEncode string store_codec_error
  | WalRecordTooLarge
  | WalSizeDisagrees
  | WalEmptyBatch

datatype wal_decode_reason =
    WalBadMagic
  | WalPayload decode_reason
  | WalSchemaDecode string store_codec_error
  | WalUnknownMutation u8
  | WalRecordLength nat
  | WalUnexpectedPayload string
  | WalFieldLength nat nat

datatype wal_error =
    WalIo
  | WalEncode wal_encode_reason
  | WalDecode wal_decode_reason
  | CrcMismatch lsn u32 u32
  | WalTruncated nat nat
  | UnknownKind u8
  | BadSegmentHeader string
  | Malformed string
  | Corrupt nat string
  | Gap string
  | Poisoned

section \<open>Constants\<close>

definition PAYLOAD_MAGIC :: "u8 list" where
  "PAYLOAD_MAGIC = [0x4C, 0x57, 0x31, 0]"

abbreviation (input) TAG_CREATE_NODE :: u8 where "TAG_CREATE_NODE \<equiv> 1"
abbreviation (input) TAG_CREATE_RELATIONSHIP :: u8 where "TAG_CREATE_RELATIONSHIP \<equiv> 2"
abbreviation (input) TAG_SET_NODE_PROPERTY :: u8 where "TAG_SET_NODE_PROPERTY \<equiv> 3"
abbreviation (input) TAG_REMOVE_NODE_PROPERTY :: u8 where "TAG_REMOVE_NODE_PROPERTY \<equiv> 4"
abbreviation (input) TAG_ADD_NODE_LABEL :: u8 where "TAG_ADD_NODE_LABEL \<equiv> 5"
abbreviation (input) TAG_REMOVE_NODE_LABEL :: u8 where "TAG_REMOVE_NODE_LABEL \<equiv> 6"
abbreviation (input) TAG_SET_RELATIONSHIP_PROPERTY :: u8 where "TAG_SET_RELATIONSHIP_PROPERTY \<equiv> 7"
abbreviation (input) TAG_REMOVE_RELATIONSHIP_PROPERTY :: u8 where
  "TAG_REMOVE_RELATIONSHIP_PROPERTY \<equiv> 8"
abbreviation (input) TAG_DELETE_RELATIONSHIP :: u8 where "TAG_DELETE_RELATIONSHIP \<equiv> 9"
abbreviation (input) TAG_DELETE_NODE :: u8 where "TAG_DELETE_NODE \<equiv> 10"
abbreviation (input) TAG_DETACH_DELETE_NODE :: u8 where "TAG_DETACH_DELETE_NODE \<equiv> 11"
abbreviation (input) TAG_CLEAR :: u8 where "TAG_CLEAR \<equiv> 12"
abbreviation (input) TAG_CREATE_INDEX :: u8 where "TAG_CREATE_INDEX \<equiv> 13"
abbreviation (input) TAG_DROP_INDEX :: u8 where "TAG_DROP_INDEX \<equiv> 14"
abbreviation (input) TAG_CREATE_CONSTRAINT :: u8 where "TAG_CREATE_CONSTRAINT \<equiv> 15"
abbreviation (input) TAG_DROP_CONSTRAINT :: u8 where "TAG_DROP_CONSTRAINT \<equiv> 16"

definition MAX_VALUE_DEPTH :: nat where
  "MAX_VALUE_DEPTH = MAX_VALUE_NESTING"

section \<open>Writers\<close>

definition wal_write_len :: "nat \<Rightarrow> wal_error + u8 list" where
  "wal_write_len n =
     (if n < 2 ^ 64 then Inr (write_u64 (of_nat n)) else Inl (WalEncode WalLengthOverflow))"

definition wal_write_bytes :: "u8 list \<Rightarrow> wal_error + u8 list" where
  "wal_write_bytes bs = wseq [wal_write_len (length bs), Inr bs]"

definition wal_write_string :: "string \<Rightarrow> wal_error + u8 list" where
  "wal_write_string s = wal_write_bytes (as_bytes s)"

definition wal_write_string_vec :: "string list \<Rightarrow> wal_error + u8 list" where
  "wal_write_string_vec vs = wseq (wal_write_len (length vs) # map wal_write_string vs)"

definition wal_write_binary_segments :: "u8 list list \<Rightarrow> wal_error + u8 list" where
  "wal_write_binary_segments segments =
     wseq (wal_write_len (length segments) # map wal_write_bytes segments)"

text \<open>Unlike the store's codec, the WAL writes the vector's own \<open>dimension\<close> field.\<close>

definition wal_write_vector :: "lora_vector \<Rightarrow> wal_error + u8 list" where
  "wal_write_vector vector =
     wseq [wal_write_len (vec_dimension vector),
       (case vec_values vector of
          Float64 values \<Rightarrow> wseq (Inr [VECTOR_FLOAT64] # wal_write_len (length values)
            # map (\<lambda>v. Inr (write_f64 v)) values)
        | Float32 values \<Rightarrow> wseq (Inr [VECTOR_FLOAT32] # wal_write_len (length values)
            # map (\<lambda>v. Inr (write_f32 v)) values)
        | Integer64 values \<Rightarrow> wseq (Inr [VECTOR_INTEGER64] # wal_write_len (length values)
            # map (\<lambda>v. Inr (write_i64 v)) values)
        | Integer32 values \<Rightarrow> wseq (Inr [VECTOR_INTEGER32] # wal_write_len (length values)
            # map (\<lambda>v. Inr (write_i32 v)) values)
        | Integer16 values \<Rightarrow> wseq (Inr [VECTOR_INTEGER16] # wal_write_len (length values)
            # map (\<lambda>v. Inr (write_i16 v)) values)
        | Integer8 values \<Rightarrow> wseq (Inr [VECTOR_INTEGER8] # wal_write_len (length values)
            # map (\<lambda>v. Inr [v]) values))]"

fun wal_write_scalar :: "property_value \<Rightarrow> wal_error + u8 list" where
  "wal_write_scalar (PvList _) = Inl (WalEncode WalScalarExpected)"
| "wal_write_scalar (PvMap _) = Inl (WalEncode WalScalarExpected)"
| "wal_write_scalar PvNull = Inr [VALUE_NULL]"
| "wal_write_scalar (PvBool b) = Inr [VALUE_BOOL, bool_byte b]"
| "wal_write_scalar (PvInt i) = Inr (VALUE_INT # to_le_bytes i)"
| "wal_write_scalar (PvFloat f) = Inr (VALUE_FLOAT # to_le_bytes f)"
| "wal_write_scalar (PvString s) = wseq [Inr [VALUE_STRING], wal_write_string s]"
| "wal_write_scalar (PvBinary b) =
     wseq [Inr [VALUE_BINARY], wal_write_binary_segments (bin_segments b)]"
| "wal_write_scalar (PvDate d) =
     Inr (VALUE_DATE # write_i32 (date_year d) @ write_u32 (date_month d) @ write_u32 (date_day d))"
| "wal_write_scalar (PvTime t) =
     Inr (VALUE_TIME # write_time_fields (time_hour t) (time_minute t) (time_second t)
       (time_nanosecond t) @ write_i32 (time_offset_seconds t))"
| "wal_write_scalar (PvLocalTime t) =
     Inr (VALUE_LOCAL_TIME # write_time_fields (lt_hour t) (lt_minute t) (lt_second t)
       (lt_nanosecond t))"
| "wal_write_scalar (PvDateTime d) =
     wseq [Inr [if dt_zone d \<noteq> None then VALUE_ZONED_DATE_TIME else VALUE_DATE_TIME],
       Inr (write_date_fields (dt_year d) (dt_month d) (dt_day d)),
       Inr (write_time_fields (dt_hour d) (dt_minute d) (dt_second d) (dt_nanosecond d)),
       Inr (write_i32 (dt_offset_seconds d)),
       (case dt_zone d of Some zone \<Rightarrow> wal_write_string zone | None \<Rightarrow> Inr [])]"
| "wal_write_scalar (PvLocalDateTime d) =
     Inr (VALUE_LOCAL_DATE_TIME # write_date_fields (ldt_year d) (ldt_month d) (ldt_day d)
       @ write_time_fields (ldt_hour d) (ldt_minute d) (ldt_second d) (ldt_nanosecond d))"
| "wal_write_scalar (PvDuration d) =
     Inr (VALUE_DURATION # write_i64 (dur_months d) @ write_i64 (dur_days d)
       @ write_i64 (dur_seconds d) @ write_i64 (dur_nanoseconds d))"
| "wal_write_scalar (PvPoint p) =
     Inr (VALUE_POINT # write_f64 (pt_x p) @ write_f64 (pt_y p)
       @ (case pt_z p of Some z \<Rightarrow> 1 # write_f64 z | None \<Rightarrow> [0]) @ write_u32 (pt_srid p))"
| "wal_write_scalar (PvVector v) = wseq [Inr [VALUE_VECTOR], wal_write_vector v]"

definition wal_enter_container :: "nat \<Rightarrow> wal_error + nat" where
  "wal_enter_container depth =
     (if depth \<ge> MAX_VALUE_DEPTH then Inl (WalEncode WalNesting) else Inr (depth + 1))"

fun wal_write_value_at :: "property_value \<Rightarrow> nat \<Rightarrow> wal_error + u8 list" where
  "wal_write_value_at (PvList values) depth = ebind (wal_enter_container depth) (\<lambda>depth'.
     wseq (Inr [VALUE_LIST] # wal_write_len (length values)
       # map (\<lambda>value. wal_write_value_at value depth') values))"
| "wal_write_value_at (PvMap values) depth = ebind (wal_enter_container depth) (\<lambda>depth'.
     wseq (Inr [VALUE_MAP] # wal_write_len (length values)
       # map (\<lambda>kv. wseq [wal_write_string (fst kv), wal_write_value_at (snd kv) depth']) values))"
| "wal_write_value_at scalar depth = wal_write_scalar scalar"

definition wal_write_value :: "property_value \<Rightarrow> wal_error + u8 list" where
  "wal_write_value value = wal_write_value_at value 0"

definition wal_write_properties :: "properties \<Rightarrow> wal_error + u8 list" where
  "wal_write_properties properties = wseq (wal_write_len (length properties)
     # map (\<lambda>kv. wseq [wal_write_string (fst kv), wal_write_value (snd kv)]) properties)"

text \<open>\<open>encode_index_request(request).map_err(..)\<close>, then its length-prefixed bytes.\<close>

definition wal_schema_bytes :: "string \<Rightarrow> (store_codec_error + u8 list) \<Rightarrow> wal_error + u8 list" where
  "wal_schema_bytes what encoded = map_sum (\<lambda>e. WalEncode (WalSchemaEncode what e)) id encoded"

fun wal_write_event :: "mutation_event \<Rightarrow> wal_error + u8 list" where
  "wal_write_event (CreateNode i labels properties) = wseq
     [Inr [TAG_CREATE_NODE], Inr (write_u64 i), wal_write_string_vec labels,
      wal_write_properties properties]"
| "wal_write_event (CreateRelationship i src dst rel_type properties) = wseq
     [Inr [TAG_CREATE_RELATIONSHIP], Inr (write_u64 i), Inr (write_u64 src), Inr (write_u64 dst),
      wal_write_string rel_type, wal_write_properties properties]"
| "wal_write_event (SetNodeProperty node_id key v) = wseq
     [Inr [TAG_SET_NODE_PROPERTY], Inr (write_u64 node_id), wal_write_string key, wal_write_value v]"
| "wal_write_event (RemoveNodeProperty node_id key) = wseq
     [Inr [TAG_REMOVE_NODE_PROPERTY], Inr (write_u64 node_id), wal_write_string key]"
| "wal_write_event (AddNodeLabel node_id label) = wseq
     [Inr [TAG_ADD_NODE_LABEL], Inr (write_u64 node_id), wal_write_string label]"
| "wal_write_event (RemoveNodeLabel node_id label) = wseq
     [Inr [TAG_REMOVE_NODE_LABEL], Inr (write_u64 node_id), wal_write_string label]"
| "wal_write_event (SetRelationshipProperty rel_id key v) = wseq
     [Inr [TAG_SET_RELATIONSHIP_PROPERTY], Inr (write_u64 rel_id), wal_write_string key,
      wal_write_value v]"
| "wal_write_event (RemoveRelationshipProperty rel_id key) = wseq
     [Inr [TAG_REMOVE_RELATIONSHIP_PROPERTY], Inr (write_u64 rel_id), wal_write_string key]"
| "wal_write_event (DeleteRelationship rel_id) =
     wseq [Inr [TAG_DELETE_RELATIONSHIP], Inr (write_u64 rel_id)]"
| "wal_write_event (DeleteNode node_id) = wseq [Inr [TAG_DELETE_NODE], Inr (write_u64 node_id)]"
| "wal_write_event (DetachDeleteNode node_id) =
     wseq [Inr [TAG_DETACH_DELETE_NODE], Inr (write_u64 node_id)]"
| "wal_write_event ClearGraph = wseq [Inr [TAG_CLEAR]]"
| "wal_write_event (CreateIndex request if_not_exists) = wseq [Inr [TAG_CREATE_INDEX],
     ebind (wal_schema_bytes ''CreateIndex'' (encode_index_request request)) wal_write_bytes,
     Inr [bool_byte if_not_exists]]"
| "wal_write_event (DropIndex name if_exists) = wseq
     [Inr [TAG_DROP_INDEX], wal_write_string name, Inr [bool_byte if_exists]]"
| "wal_write_event (CreateConstraint request if_not_exists) = wseq [Inr [TAG_CREATE_CONSTRAINT],
     ebind (wal_schema_bytes ''CreateConstraint'' (encode_constraint_request request)) wal_write_bytes,
     Inr [bool_byte if_not_exists]]"
| "wal_write_event (DropConstraint name if_exists) = wseq
     [Inr [TAG_DROP_CONSTRAINT], wal_write_string name, Inr [bool_byte if_exists]]"

definition encode_event_into :: "mutation_event \<Rightarrow> wal_error + u8 list" where
  "encode_event_into event = wseq [Inr PAYLOAD_MAGIC, wal_write_event event]"

definition encode_events_into :: "mutation_event list \<Rightarrow> wal_error + u8 list" where
  "encode_events_into events =
     wseq (Inr PAYLOAD_MAGIC # wal_write_len (length events) # map wal_write_event events)"

section \<open>Sizes\<close>

text \<open>The size functions thread a running total, as the code's \<open>&mut usize\<close>.\<close>

type_synonym sizer = "nat \<Rightarrow> wal_error + nat"

fun sseq :: "sizer list \<Rightarrow> sizer" where
  "sseq [] = Inr"
| "sseq (m # ms) = (\<lambda>s. ebind (m s) (sseq ms))"

definition add_size :: "nat \<Rightarrow> sizer" where
  "add_size n = (\<lambda>s. case checked_add s n of None \<Rightarrow> Inl (WalEncode WalPayloadOverflow)
     | Some s' \<Rightarrow> Inr s')"

definition size_tag :: sizer where
  "size_tag = add_size 1"

definition size_u64 :: sizer where
  "size_u64 = add_size 8"

definition size_len :: "nat \<Rightarrow> sizer" where
  "size_len n = (\<lambda>s. if n < 2 ^ 64 then size_u64 s else Inl (WalEncode WalLengthOverflow))"

definition size_bytes :: "nat \<Rightarrow> sizer" where
  "size_bytes n = sseq [size_len n, add_size n]"

definition size_string :: "string \<Rightarrow> sizer" where
  "size_string s = size_bytes (length s)"

definition size_string_vec :: "string list \<Rightarrow> sizer" where
  "size_string_vec vs = sseq (size_len (length vs) # map size_string vs)"

definition size_binary_segments :: "u8 list list \<Rightarrow> sizer" where
  "size_binary_segments segments =
     sseq (size_len (length segments) # map (\<lambda>s. size_bytes (length s)) segments)"

definition size_numeric_slice :: "nat \<Rightarrow> nat \<Rightarrow> sizer" where
  "size_numeric_slice n element_size = sseq [size_len n, \<lambda>s.
     if n * element_size < usize_limit then add_size (n * element_size) s
     else Inl (WalEncode WalPayloadOverflow)]"

definition size_vector :: "lora_vector \<Rightarrow> sizer" where
  "size_vector vector = sseq [size_len (vec_dimension vector), size_tag,
     (case vec_values vector of
        Float64 values \<Rightarrow> size_numeric_slice (length values) 8
      | Float32 values \<Rightarrow> size_numeric_slice (length values) 4
      | Integer64 values \<Rightarrow> size_numeric_slice (length values) 8
      | Integer32 values \<Rightarrow> size_numeric_slice (length values) 4
      | Integer16 values \<Rightarrow> size_numeric_slice (length values) 2
      | Integer8 values \<Rightarrow> size_numeric_slice (length values) 1)]"

fun size_scalar :: "property_value \<Rightarrow> sizer" where
  "size_scalar (PvList _) = (\<lambda>s. Inl (WalEncode WalScalarExpected))"
| "size_scalar (PvMap _) = (\<lambda>s. Inl (WalEncode WalScalarExpected))"
| "size_scalar PvNull = Inr"
| "size_scalar (PvBool b) = add_size 1"
| "size_scalar (PvInt i) = add_size 8"
| "size_scalar (PvFloat f) = add_size 8"
| "size_scalar (PvString s) = size_string s"
| "size_scalar (PvBinary b) = size_binary_segments (bin_segments b)"
| "size_scalar (PvDate d) = add_size 12"
| "size_scalar (PvTime t) = add_size 20"
| "size_scalar (PvLocalTime t) = add_size 16"
| "size_scalar (PvDateTime d) = sseq [add_size 32,
     (case dt_zone d of Some zone \<Rightarrow> size_string zone | None \<Rightarrow> Inr)]"
| "size_scalar (PvLocalDateTime d) = add_size 28"
| "size_scalar (PvDuration d) = add_size 32"
| "size_scalar (PvPoint p) = sseq [add_size (8 + 8 + 1),
     (if pt_z p \<noteq> None then add_size 8 else Inr), add_size 4]"
| "size_scalar (PvVector v) = size_vector v"

fun size_value_at :: "property_value \<Rightarrow> nat \<Rightarrow> sizer" where
  "size_value_at (PvList values) depth = sseq [size_tag, \<lambda>s. ebind (wal_enter_container depth)
     (\<lambda>depth'. sseq (size_len (length values)
       # map (\<lambda>value. size_value_at value depth') values) s)]"
| "size_value_at (PvMap values) depth = sseq [size_tag, \<lambda>s. ebind (wal_enter_container depth)
     (\<lambda>depth'. sseq (size_len (length values)
       # map (\<lambda>kv. sseq [size_string (fst kv), size_value_at (snd kv) depth']) values) s)]"
| "size_value_at scalar depth = sseq [size_tag, size_scalar scalar]"

definition size_value :: "property_value \<Rightarrow> sizer" where
  "size_value value = size_value_at value 0"

definition size_properties :: "properties \<Rightarrow> sizer" where
  "size_properties properties = sseq (size_len (length properties)
     # map (\<lambda>kv. sseq [size_string (fst kv), size_value (snd kv)]) properties)"

definition size_schema :: "string \<Rightarrow> (store_codec_error + u8 list) \<Rightarrow> sizer" where
  "size_schema what encoded = (\<lambda>s. ebind (wal_schema_bytes what encoded) (\<lambda>payload.
     sseq [size_len (length payload), add_size (length payload), add_size 1] s))"

fun size_event :: "mutation_event \<Rightarrow> sizer" where
  "size_event (CreateNode i labels properties) =
     sseq [size_tag, size_u64, size_string_vec labels, size_properties properties]"
| "size_event (CreateRelationship i src dst rel_type properties) =
     sseq [size_tag, size_u64, size_u64, size_u64, size_string rel_type, size_properties properties]"
| "size_event (SetNodeProperty i key v) = sseq [size_tag, size_u64, size_string key, size_value v]"
| "size_event (SetRelationshipProperty i key v) =
     sseq [size_tag, size_u64, size_string key, size_value v]"
| "size_event (RemoveNodeProperty i key) = sseq [size_tag, size_u64, size_string key]"
| "size_event (AddNodeLabel i key) = sseq [size_tag, size_u64, size_string key]"
| "size_event (RemoveNodeLabel i key) = sseq [size_tag, size_u64, size_string key]"
| "size_event (RemoveRelationshipProperty i key) = sseq [size_tag, size_u64, size_string key]"
| "size_event (DeleteRelationship i) = sseq [size_tag, size_u64]"
| "size_event (DeleteNode i) = sseq [size_tag, size_u64]"
| "size_event (DetachDeleteNode i) = sseq [size_tag, size_u64]"
| "size_event ClearGraph = sseq [size_tag]"
| "size_event (CreateIndex request ine) =
     sseq [size_tag, size_schema ''CreateIndex'' (encode_index_request request)]"
| "size_event (DropIndex name ife) = sseq [size_tag, size_string name, add_size 1]"
| "size_event (CreateConstraint request ine) =
     sseq [size_tag, size_schema ''CreateConstraint'' (encode_constraint_request request)]"
| "size_event (DropConstraint name ife) = sseq [size_tag, size_string name, add_size 1]"

definition encoded_event_len :: "mutation_event \<Rightarrow> wal_error + nat" where
  "encoded_event_len event = size_event event (length PAYLOAD_MAGIC)"

definition encoded_events_len :: "mutation_event list \<Rightarrow> wal_error + nat" where
  "encoded_events_len events =
     sseq (size_len (length events) # map size_event events) (length PAYLOAD_MAGIC)"

definition encoded_batch_event_len :: "mutation_event \<Rightarrow> wal_error + nat" where
  "encoded_batch_event_len event = size_event event 0"

definition batch_payload_len :: "nat \<Rightarrow> nat \<Rightarrow> wal_error + nat" where
  "batch_payload_len count events_len =
     sseq [size_len count, add_size events_len] (length PAYLOAD_MAGIC)"

end
