(* ===== verification/Wal_Decode.thy ===== *)
theory Wal_Decode
  imports Wal_Encode
begin

text \<open>
  The decoding half of the WAL payload codec (\<open>crates/lora-wal/src/codec/decode.rs\<close>):
  \<open>PayloadReader\<close> is the plain cursor, with \<open>MAX_VALUE_DEPTH\<close> as the limit of its depth; its methods
  have the prefix \<open>wal_\<close>. \<open>wal_check_event\<close> parses an event without building it. The recursion bounds
  are one more than the number of input bytes, as in the store's codec.
\<close>

type_synonym 'a wal_read = "cursor \<Rightarrow> wal_error + 'a \<times> cursor"

abbreviation wal_fail :: "decode_reason \<Rightarrow> wal_error" where
  "wal_fail d \<equiv> WalDecode (WalPayload d)"

section \<open>Cursor operations\<close>

definition payload_reader_new :: "u8 list \<Rightarrow> cursor" where
  "payload_reader_new bs = \<lparr>rd_bytes = bs, rd_offset = 0, rd_depth = 0\<rparr>"

definition wal_finish :: "unit wal_read" where
  "wal_finish r = (if rd_offset r = length (rd_bytes r) then Inr ((), r)
     else Inl (wal_fail (TrailingBytes (length (rd_bytes r) - rd_offset r))))"

definition wal_read_exact :: "nat \<Rightarrow> u8 list wal_read" where
  "wal_read_exact n r =
     (case checked_add (rd_offset r) n of
        None \<Rightarrow> Inl (wal_fail OffsetOverflow)
      | Some e \<Rightarrow>
          if e > length (rd_bytes r) then Inl (wal_fail TruncatedInput)
          else Inr (take n (drop (rd_offset r) (rd_bytes r)), r\<lparr>rd_offset := e\<rparr>))"

definition wal_read_u8 :: "u8 wal_read" where
  "wal_read_u8 = rbind (wal_read_exact 1) (\<lambda>bs. rret (bs ! 0))"

definition wal_read_i8 :: "i8 wal_read" where
  "wal_read_i8 = wal_read_u8"

definition wal_read_i16 :: "i16 wal_read" where
  "wal_read_i16 = rbind (wal_read_exact 2) (\<lambda>bs. rret (from_le_bytes bs))"

definition wal_read_i32 :: "i32 wal_read" where
  "wal_read_i32 = rbind (wal_read_exact 4) (\<lambda>bs. rret (from_le_bytes bs))"

definition wal_read_u32 :: "u32 wal_read" where
  "wal_read_u32 = rbind (wal_read_exact 4) (\<lambda>bs. rret (from_le_bytes bs))"

definition wal_read_u64 :: "u64 wal_read" where
  "wal_read_u64 = rbind (wal_read_exact 8) (\<lambda>bs. rret (from_le_bytes bs))"

definition wal_read_i64 :: "i64 wal_read" where
  "wal_read_i64 = rbind (wal_read_exact 8) (\<lambda>bs. rret (from_le_bytes bs))"

definition wal_read_f32 :: "f32 wal_read" where
  "wal_read_f32 = wal_read_u32"

definition wal_read_f64 :: "f64 wal_read" where
  "wal_read_f64 = wal_read_u64"

definition wal_read_len :: "nat wal_read" where
  "wal_read_len = rbind wal_read_u64 (\<lambda>v. rret (unat v))"

definition wal_read_len_bounded :: "string \<Rightarrow> nat wal_read" where
  "wal_read_len_bounded label = rbind wal_read_len (\<lambda>len r.
     if len > remaining r then Inl (wal_fail (CountExceedsInput label len)) else Inr (len, r))"

definition wal_read_bytes :: "u8 list wal_read" where
  "wal_read_bytes = rbind wal_read_len wal_read_exact"

definition wal_read_string :: "string wal_read" where
  "wal_read_string = rbind wal_read_bytes (\<lambda>bs.
     case from_utf8 bs of None \<Rightarrow> rfail (wal_fail InvalidUtf8) | Some s \<Rightarrow> rret s)"

definition wal_read_string_vec :: "string list wal_read" where
  "wal_read_string_vec = rbind (wal_read_len_bounded ''string'') (\<lambda>len. rmany len wal_read_string)"

definition wal_enter :: "unit wal_read" where
  "wal_enter r = (if rd_depth r \<ge> MAX_VALUE_DEPTH then Inl (wal_fail DecodeNesting)
     else Inr ((), r\<lparr>rd_depth := rd_depth r + 1\<rparr>))"

section \<open>Values\<close>

definition wal_read_elems :: "string \<Rightarrow> 'a wal_read \<Rightarrow> 'a list wal_read" where
  "wal_read_elems label m = rbind (wal_read_len_bounded label) (\<lambda>len. rmany len m)"

definition wal_read_vector :: "lora_vector wal_read" where
  "wal_read_vector = rbind wal_read_len (\<lambda>dimension. rbind wal_read_u8 (\<lambda>tag. rbind
     (if tag = VECTOR_FLOAT64 then rmap Float64 (wal_read_elems ''float64 vector value'' wal_read_f64)
      else if tag = VECTOR_FLOAT32
      then rmap Float32 (wal_read_elems ''float32 vector value'' wal_read_f32)
      else if tag = VECTOR_INTEGER64
      then rmap Integer64 (wal_read_elems ''int64 vector value'' wal_read_i64)
      else if tag = VECTOR_INTEGER32
      then rmap Integer32 (wal_read_elems ''int32 vector value'' wal_read_i32)
      else if tag = VECTOR_INTEGER16
      then rmap Integer16 (wal_read_elems ''int16 vector value'' wal_read_i16)
      else if tag = VECTOR_INTEGER8
      then rmap Integer8 (wal_read_elems ''int8 vector value'' wal_read_i8)
      else rfail (wal_fail (InvalidTag ''vector value'' tag)))
     (\<lambda>vs. if vector_values_len vs \<noteq> dimension
        then rfail (wal_fail (DimensionMismatch dimension (vector_values_len vs)))
        else rret \<lparr>vec_dimension = dimension, vec_values = vs\<rparr>)))"

definition wal_read_binary :: "lora_binary wal_read" where
  "wal_read_binary = rbind (wal_read_len_bounded ''binary segment'') (\<lambda>len.
     rmap from_segments (rmany len wal_read_bytes))"

definition wal_read_date_time :: "(string \<Rightarrow> string option) \<Rightarrow> u8 \<Rightarrow> lora_date_time wal_read" where
  "wal_read_date_time lk tag =
     rbind wal_read_i32 (\<lambda>year. rbind wal_read_u32 (\<lambda>month. rbind wal_read_u32 (\<lambda>day.
     rbind wal_read_u32 (\<lambda>hour. rbind wal_read_u32 (\<lambda>minute. rbind wal_read_u32 (\<lambda>second.
     rbind wal_read_u32 (\<lambda>nanosecond. rbind wal_read_i32 (\<lambda>offset_seconds.
     rbind (if tag = VALUE_ZONED_DATE_TIME
            then rbind wal_read_string (\<lambda>name. case lk name of
                   None \<Rightarrow> rfail (wal_fail (UnknownTimeZone name)) | Some z \<Rightarrow> rret (Some z))
            else rret None)
     (\<lambda>zone. rret \<lparr>dt_year = year, dt_month = month, dt_day = day, dt_hour = hour,
        dt_minute = minute, dt_second = second, dt_nanosecond = nanosecond,
        dt_offset_seconds = offset_seconds, dt_zone = zone\<rparr>)))))))))"

definition wal_read_point :: "lora_point wal_read" where
  "wal_read_point = rbind wal_read_f64 (\<lambda>x. rbind wal_read_f64 (\<lambda>y.
     rbind (rbind wal_read_u8 (\<lambda>tag.
        if tag = 0 then rret None
        else if tag = 1 then rmap Some wal_read_f64
        else rfail (wal_fail (InvalidTag ''point z-presence'' tag))))
     (\<lambda>z. rbind wal_read_u32 (\<lambda>srid. rret \<lparr>pt_x = x, pt_y = y, pt_z = z, pt_srid = srid\<rparr>))))"

definition wal_read_scalar :: "(string \<Rightarrow> string option) \<Rightarrow> u8 \<Rightarrow> property_value wal_read" where
  "wal_read_scalar lk tag =
     (if tag = VALUE_NULL then rret PvNull
      else if tag = VALUE_BOOL then rmap (\<lambda>b. PvBool (b \<noteq> 0)) wal_read_u8
      else if tag = VALUE_INT then rmap PvInt wal_read_i64
      else if tag = VALUE_FLOAT then rmap PvFloat wal_read_u64
      else if tag = VALUE_STRING then rmap PvString wal_read_string
      else if tag = VALUE_DATE then
        rbind wal_read_i32 (\<lambda>year. rbind wal_read_u32 (\<lambda>month. rbind wal_read_u32 (\<lambda>day.
          rret (PvDate \<lparr>date_year = year, date_month = month, date_day = day\<rparr>))))
      else if tag = VALUE_TIME then
        rbind wal_read_u32 (\<lambda>hour. rbind wal_read_u32 (\<lambda>minute. rbind wal_read_u32 (\<lambda>second.
        rbind wal_read_u32 (\<lambda>nanosecond. rbind wal_read_i32 (\<lambda>offset_seconds.
          rret (PvTime \<lparr>time_hour = hour, time_minute = minute, time_second = second,
            time_nanosecond = nanosecond, time_offset_seconds = offset_seconds\<rparr>))))))
      else if tag = VALUE_LOCAL_TIME then
        rbind wal_read_u32 (\<lambda>hour. rbind wal_read_u32 (\<lambda>minute. rbind wal_read_u32 (\<lambda>second.
        rbind wal_read_u32 (\<lambda>nanosecond.
          rret (PvLocalTime \<lparr>lt_hour = hour, lt_minute = minute, lt_second = second,
            lt_nanosecond = nanosecond\<rparr>)))))
      else if tag = VALUE_DATE_TIME \<or> tag = VALUE_ZONED_DATE_TIME then
        rmap PvDateTime (wal_read_date_time lk tag)
      else if tag = VALUE_LOCAL_DATE_TIME then
        rbind wal_read_i32 (\<lambda>year. rbind wal_read_u32 (\<lambda>month. rbind wal_read_u32 (\<lambda>day.
        rbind wal_read_u32 (\<lambda>hour. rbind wal_read_u32 (\<lambda>minute. rbind wal_read_u32 (\<lambda>second.
        rbind wal_read_u32 (\<lambda>nanosecond.
          rret (PvLocalDateTime \<lparr>ldt_year = year, ldt_month = month, ldt_day = day,
            ldt_hour = hour, ldt_minute = minute, ldt_second = second,
            ldt_nanosecond = nanosecond\<rparr>))))))))
      else if tag = VALUE_DURATION then
        rbind wal_read_i64 (\<lambda>months. rbind wal_read_i64 (\<lambda>days. rbind wal_read_i64 (\<lambda>seconds.
        rbind wal_read_i64 (\<lambda>nanoseconds.
          rret (PvDuration \<lparr>dur_months = months, dur_days = days, dur_seconds = seconds,
            dur_nanoseconds = nanoseconds\<rparr>)))))
      else if tag = VALUE_POINT then rmap PvPoint wal_read_point
      else if tag = VALUE_VECTOR then rmap PvVector wal_read_vector
      else if tag = VALUE_BINARY then rmap PvBinary wal_read_binary
      else rfail (wal_fail (InvalidTag ''WAL property value'' tag)))"

fun wal_read_value :: "(string \<Rightarrow> string option) \<Rightarrow> nat \<Rightarrow> property_value wal_read" where
  "wal_read_value lk 0 = rfail (wal_fail OutOfFuel)"
| "wal_read_value lk (Suc fuel) = rbind wal_read_u8 (\<lambda>tag.
     if tag = VALUE_LIST then
       rbind wal_enter (\<lambda>_. rbind
         (rbind (wal_read_len_bounded ''property list value'')
            (\<lambda>len. rmany len (wal_read_value lk fuel)))
         (\<lambda>vs. rbind leave (\<lambda>_. rret (PvList vs))))
     else if tag = VALUE_MAP then
       rbind wal_enter (\<lambda>_. rbind
         (rbind (wal_read_len_bounded ''property map entry'')
            (\<lambda>len. rmany len
               (rbind wal_read_string (\<lambda>key. rmap (Pair key) (wal_read_value lk fuel)))))
         (\<lambda>kvs. rbind leave (\<lambda>_. rret (PvMap (btree_of kvs)))))
     else wal_read_scalar lk tag)"

declare wal_read_value.simps [simp del]

text \<open>\<open>Properties::insert\<close> keeps entries by key, a later one replacing an earlier one.\<close>

definition wal_read_properties :: "(string \<Rightarrow> string option) \<Rightarrow> nat \<Rightarrow> properties wal_read" where
  "wal_read_properties lk fuel = rmap btree_of
     (rbind (wal_read_len_bounded ''property'') (\<lambda>len. rmany len
        (rbind wal_read_string (\<lambda>key. rmap (Pair key) (wal_read_value lk fuel)))))"

section \<open>Events\<close>

definition wal_read_schema :: "string \<Rightarrow> (u8 list \<Rightarrow> store_codec_error + 'a) \<Rightarrow> 'a wal_read" where
  "wal_read_schema what decode = rbind wal_read_bytes (\<lambda>bs. case decode bs of
     Inl e \<Rightarrow> rfail (WalDecode (WalSchemaDecode what e)) | Inr request \<Rightarrow> rret request)"

definition wal_read_event :: "(string \<Rightarrow> string option) \<Rightarrow> nat \<Rightarrow> mutation_event wal_read" where
  "wal_read_event lk fuel = rbind wal_read_u8 (\<lambda>tag.
     if tag = TAG_CREATE_NODE then
       rbind wal_read_u64 (\<lambda>i. rbind wal_read_string_vec (\<lambda>labels.
         rmap (CreateNode i labels) (wal_read_properties lk fuel)))
     else if tag = TAG_CREATE_RELATIONSHIP then
       rbind wal_read_u64 (\<lambda>i. rbind wal_read_u64 (\<lambda>src. rbind wal_read_u64 (\<lambda>dst.
       rbind wal_read_string (\<lambda>rel_type.
         rmap (CreateRelationship i src dst rel_type) (wal_read_properties lk fuel)))))
     else if tag = TAG_SET_NODE_PROPERTY then
       rbind wal_read_u64 (\<lambda>i. rbind wal_read_string (\<lambda>key.
         rmap (SetNodeProperty i key) (wal_read_value lk fuel)))
     else if tag = TAG_REMOVE_NODE_PROPERTY then
       rbind wal_read_u64 (\<lambda>i. rmap (RemoveNodeProperty i) wal_read_string)
     else if tag = TAG_ADD_NODE_LABEL then
       rbind wal_read_u64 (\<lambda>i. rmap (AddNodeLabel i) wal_read_string)
     else if tag = TAG_REMOVE_NODE_LABEL then
       rbind wal_read_u64 (\<lambda>i. rmap (RemoveNodeLabel i) wal_read_string)
     else if tag = TAG_SET_RELATIONSHIP_PROPERTY then
       rbind wal_read_u64 (\<lambda>i. rbind wal_read_string (\<lambda>key.
         rmap (SetRelationshipProperty i key) (wal_read_value lk fuel)))
     else if tag = TAG_REMOVE_RELATIONSHIP_PROPERTY then
       rbind wal_read_u64 (\<lambda>i. rmap (RemoveRelationshipProperty i) wal_read_string)
     else if tag = TAG_DELETE_RELATIONSHIP then rmap DeleteRelationship wal_read_u64
     else if tag = TAG_DELETE_NODE then rmap DeleteNode wal_read_u64
     else if tag = TAG_DETACH_DELETE_NODE then rmap DetachDeleteNode wal_read_u64
     else if tag = TAG_CLEAR then rret ClearGraph
     else if tag = TAG_CREATE_INDEX then
       rbind (wal_read_schema ''CreateIndex'' decode_index_request) (\<lambda>request.
         rmap (\<lambda>b. CreateIndex request (b \<noteq> 0)) wal_read_u8)
     else if tag = TAG_DROP_INDEX then
       rbind wal_read_string (\<lambda>name. rmap (\<lambda>b. DropIndex name (b \<noteq> 0)) wal_read_u8)
     else if tag = TAG_CREATE_CONSTRAINT then
       rbind (wal_read_schema ''CreateConstraint'' decode_constraint_request) (\<lambda>request.
         rmap (\<lambda>b. CreateConstraint request (b \<noteq> 0)) wal_read_u8)
     else if tag = TAG_DROP_CONSTRAINT then
       rbind wal_read_string (\<lambda>name. rmap (\<lambda>b. DropConstraint name (b \<noteq> 0)) wal_read_u8)
     else rfail (WalDecode (WalUnknownMutation tag)))"

section \<open>Checking without building\<close>

definition wal_check_str :: "unit wal_read" where
  "wal_check_str = rbind wal_read_bytes (\<lambda>bs.
     case from_utf8 bs of None \<Rightarrow> rfail (wal_fail InvalidUtf8) | Some s \<Rightarrow> rret ())"

definition wal_check_string_vec :: "unit wal_read" where
  "wal_check_string_vec = rbind (wal_read_len_bounded ''string'') (\<lambda>len.
     rbind (rmany len wal_check_str) (\<lambda>_. rret ()))"

fun wal_check_value :: "(string \<Rightarrow> string option) \<Rightarrow> nat \<Rightarrow> unit wal_read" where
  "wal_check_value lk 0 = rfail (wal_fail OutOfFuel)"
| "wal_check_value lk (Suc fuel) = rbind wal_read_u8 (\<lambda>tag.
     if tag = VALUE_LIST then
       rbind wal_enter (\<lambda>_. rbind
         (rbind (wal_read_len_bounded ''property list value'')
            (\<lambda>len. rmany len (wal_check_value lk fuel)))
         (\<lambda>_. leave))
     else if tag = VALUE_MAP then
       rbind wal_enter (\<lambda>_. rbind
         (rbind (wal_read_len_bounded ''property map entry'')
            (\<lambda>len. rmany len (rbind wal_check_str (\<lambda>_. wal_check_value lk fuel))))
         (\<lambda>_. leave))
     else if tag = VALUE_STRING then wal_check_str
     else if tag = VALUE_DATE_TIME \<or> tag = VALUE_ZONED_DATE_TIME then
       rbind (wal_read_exact 32) (\<lambda>_.
         if tag = VALUE_ZONED_DATE_TIME
         then rbind wal_read_bytes (\<lambda>bs. case from_utf8 bs of
             None \<Rightarrow> rfail (wal_fail InvalidUtf8)
           | Some name \<Rightarrow> (case lk name of
               None \<Rightarrow> rfail (wal_fail (UnknownTimeZone name)) | Some _ \<Rightarrow> rret ()))
         else rret ())
     else rmap (\<lambda>_. ()) (wal_read_scalar lk tag))"

declare wal_check_value.simps [simp del]

definition wal_check_properties :: "(string \<Rightarrow> string option) \<Rightarrow> nat \<Rightarrow> unit wal_read" where
  "wal_check_properties lk fuel = rbind (wal_read_len_bounded ''property'') (\<lambda>len.
     rbind (rmany len (rbind wal_check_str (\<lambda>_. wal_check_value lk fuel))) (\<lambda>_. rret ()))"

definition wal_check_event :: "(string \<Rightarrow> string option) \<Rightarrow> nat \<Rightarrow> unit wal_read" where
  "wal_check_event lk fuel = rbind wal_read_u8 (\<lambda>tag.
     if tag = TAG_CREATE_NODE then
       rbind wal_read_u64 (\<lambda>_. rbind wal_check_string_vec (\<lambda>_. wal_check_properties lk fuel))
     else if tag = TAG_CREATE_RELATIONSHIP then
       rbind (wal_read_exact 24) (\<lambda>_. rbind wal_check_str (\<lambda>_. wal_check_properties lk fuel))
     else if tag = TAG_SET_NODE_PROPERTY \<or> tag = TAG_SET_RELATIONSHIP_PROPERTY then
       rbind wal_read_u64 (\<lambda>_. rbind wal_check_str (\<lambda>_. wal_check_value lk fuel))
     else if tag = TAG_REMOVE_NODE_PROPERTY \<or> tag = TAG_ADD_NODE_LABEL
       \<or> tag = TAG_REMOVE_NODE_LABEL \<or> tag = TAG_REMOVE_RELATIONSHIP_PROPERTY then
       rbind wal_read_u64 (\<lambda>_. wal_check_str)
     else if tag = TAG_DELETE_RELATIONSHIP \<or> tag = TAG_DELETE_NODE
       \<or> tag = TAG_DETACH_DELETE_NODE then rmap (\<lambda>_. ()) wal_read_u64
     else if tag = TAG_CLEAR then rret ()
     else (\<lambda>r. rmap (\<lambda>_. ()) (wal_read_event lk fuel) (r\<lparr>rd_offset := rd_offset r - 1\<rparr>)))"

section \<open>Entry points\<close>

definition strip_magic :: "u8 list \<Rightarrow> u8 list option" where
  "strip_magic bs = (if take (length PAYLOAD_MAGIC) bs = PAYLOAD_MAGIC
     then Some (drop (length PAYLOAD_MAGIC) bs) else None)"

definition run_payload :: "(nat \<Rightarrow> 'a wal_read) \<Rightarrow> u8 list \<Rightarrow> wal_error + 'a" where
  "run_payload m bs = (case strip_magic bs of
     None \<Rightarrow> Inl (WalDecode WalBadMagic)
   | Some payload \<Rightarrow> map_sum id fst (rbind (m (Suc (length payload)))
       (\<lambda>x. rbind wal_finish (\<lambda>_. rret x)) (payload_reader_new payload)))"

definition decode_event :: "(string \<Rightarrow> string option) \<Rightarrow> u8 list \<Rightarrow> wal_error + mutation_event" where
  "decode_event lk bs = run_payload (wal_read_event lk) bs"

definition decode_events ::
  "(string \<Rightarrow> string option) \<Rightarrow> u8 list \<Rightarrow> wal_error + mutation_event list" where
  "decode_events lk bs = run_payload (\<lambda>fuel. rbind (wal_read_len_bounded ''WAL event'')
     (\<lambda>len. rmany len (wal_read_event lk fuel))) bs"

definition validate_events :: "(string \<Rightarrow> string option) \<Rightarrow> u8 list \<Rightarrow> wal_error + nat" where
  "validate_events lk bs = run_payload (\<lambda>fuel. rbind (wal_read_len_bounded ''WAL event'')
     (\<lambda>len. rbind (rmany len (wal_check_event lk fuel)) (\<lambda>_. rret len))) bs"

text \<open>
  \<open>for_each_event\<close>: the callback's state \<open>'s\<close> is what it captured; its errors are \<open>'e\<close>, into which
  codec errors convert by \<open>conv\<close>.
\<close>

fun for_each_loop :: "nat \<Rightarrow> mutation_event wal_read \<Rightarrow> (wal_error \<Rightarrow> 'e) \<Rightarrow>
    (mutation_event \<Rightarrow> 's \<Rightarrow> 'e + 's) \<Rightarrow> 's \<times> cursor \<Rightarrow> 'e + 's \<times> cursor" where
  "for_each_loop 0 m conv f (s, r) = Inr (s, r)"
| "for_each_loop (Suc n) m conv f (s, r) = (case m r of
     Inl e \<Rightarrow> Inl (conv e)
   | Inr (event, r') \<Rightarrow> (case f event s of
       Inl e \<Rightarrow> Inl e | Inr s' \<Rightarrow> for_each_loop n m conv f (s', r')))"

definition for_each_event :: "(string \<Rightarrow> string option) \<Rightarrow> (wal_error \<Rightarrow> 'e) \<Rightarrow> u8 list \<Rightarrow>
    (mutation_event \<Rightarrow> 's \<Rightarrow> 'e + 's) \<Rightarrow> 's \<Rightarrow> 'e + 's" where
  "for_each_event lk conv bs f s = (case strip_magic bs of
     None \<Rightarrow> Inl (conv (WalDecode WalBadMagic))
   | Some payload \<Rightarrow> (case wal_read_len_bounded ''WAL event'' (payload_reader_new payload) of
       Inl e \<Rightarrow> Inl (conv e)
     | Inr (len, r) \<Rightarrow>
         (case for_each_loop len (wal_read_event lk (Suc (length payload))) conv f (s, r) of
            Inl e \<Rightarrow> Inl e
          | Inr (s', r') \<Rightarrow> (case wal_finish r' of
              Inl e \<Rightarrow> Inl (conv e) | Inr _ \<Rightarrow> Inr s'))))"

end
