(* ===== verification/Wal_Values.thy ===== *)
theory Wal_Values
  imports Wal_Decode
begin

text \<open>
  The WAL's value codec against the store's. The two are separate copies of one format: the WAL
  writes the bytes the store writes, and its reader accepts what the store's reader accepts, with
  the same value, position and kind of error. The results about the store's codec carry over.
\<close>

section \<open>The writers write the same bytes\<close>

fun wal_of_encode :: "store_codec_error \<Rightarrow> wal_error" where
  "wal_of_encode (Encode EncodeNesting) = WalEncode WalNesting"
| "wal_of_encode (Encode LengthOverflow) = WalEncode WalLengthOverflow"
| "wal_of_encode (Decode d) = WalDecode (WalPayload d)"

definition as_wal :: "store_codec_error + 'a \<Rightarrow> wal_error + 'a" where
  "as_wal m = (case m of Inl e \<Rightarrow> Inl (wal_of_encode e) | Inr x \<Rightarrow> Inr x)"

lemma as_wal_simps [simp]: "as_wal (Inl e) = Inl (wal_of_encode e)" "as_wal (Inr x) = Inr x"
  by (simp_all add: as_wal_def)

lemma as_wal_Inr [simp]: "as_wal m = Inr x \<longleftrightarrow> m = Inr x"
  by (cases m) auto

lemma wseq_as_wal: "wseq (map as_wal ms) = as_wal (wseq ms)"
proof (induction ms)
  case (Cons m ms)
  then show ?case by (cases m) (auto simp: wseq.simps split: sum.splits)
qed simp

lemma wal_write_len_as: "wal_write_len n = as_wal (write_len n)"
  by (simp add: wal_write_len_def write_len_def as_wal_def)

lemma wal_write_bytes_as: "wal_write_bytes = (\<lambda>b. as_wal (write_bytes b))"
proof
  fix b
  show "wal_write_bytes b = as_wal (write_bytes b)"
    using wseq_as_wal [of "[write_len (length b), Inr b]"]
    by (simp add: wal_write_bytes_def write_bytes_def wal_write_len_as)
qed

lemma wal_write_string_as: "wal_write_string = (\<lambda>s. as_wal (write_string s))"
  by (rule ext) (simp add: wal_write_string_def write_string_def wal_write_bytes_as)

lemma wal_write_string_vec_as: "wal_write_string_vec vs = as_wal (write_string_vec vs)"
  using wseq_as_wal [of "write_len (length vs) # map write_string vs"]
  by (simp add: wal_write_string_vec_def write_string_vec_def wal_write_string_as wal_write_len_as comp_def)

lemma wal_write_vector_as:
  assumes "vec_dimension v = vector_values_len (vec_values v)"
  shows "wal_write_vector v = as_wal (write_vector v)"
proof -
  have seq: "wseq (Inr t # wal_write_len n # map (\<lambda>x. Inr (f x)) xs) =
      as_wal (wseq (Inr t # write_len n # map (\<lambda>x. Inr (f x)) xs))" for t n f and xs :: "'a list"
    using wseq_as_wal [of "Inr t # write_len n # map (\<lambda>x. Inr (f x)) xs"]
    by (simp add: wal_write_len_as comp_def)
  have two: "wseq [wal_write_len n, as_wal m] = as_wal (wseq [write_len n, m])" for n m
    using wseq_as_wal [of "[write_len n, m]"] by (simp add: wal_write_len_as)
  show ?thesis using assms
    by (cases "vec_values v") (simp_all only: wal_write_vector_def write_vector_def vector_values.case
        vector_values_len.simps seq two)
qed

lemma wal_write_segments_as: "wal_write_binary_segments ss = as_wal (wseq (write_len (length ss) # map write_bytes ss))"
  using wseq_as_wal [of "write_len (length ss) # map write_bytes ss"]
  by (simp add: wal_write_binary_segments_def wal_write_bytes_as wal_write_len_as comp_def)

lemma as_wal_map_sum [simp]: "as_wal (map_sum id f m) = map_sum id f (as_wal m)"
  by (cases m) auto

lemma wseq_as_wal_Cons:
  "wseq (as_wal m # map (\<lambda>x. as_wal (f x)) xs) = as_wal (wseq (m # map f xs))"
  using wseq_as_wal [of "m # map f xs"] by (simp add: comp_def)

lemma wal_write_scalar_as:
  assumes "wf_value lk v" and "\<nexists>vs. v = PvList vs" and "\<nexists>kvs. v = PvMap kvs"
  shows "wal_write_scalar v = as_wal (write_property_value v d m)"
  using assms
  by (cases v) (auto simp: wal_write_string_as wal_write_vector_as wal_write_segments_as write_i64_def
      write_f64_def split: option.split)

lemma wal_write_value_as:
  "wf_value lk v \<Longrightarrow> wal_write_value_at v d = as_wal (write_property_value v d MAX_VALUE_NESTING)"
proof (induction v d rule: wal_write_value_at.induct)
  case (1 vs d)
  let ?w = "\<lambda>v. write_property_value v (d + 1) MAX_VALUE_NESTING"
  show ?case
  proof (cases "d < MAX_VALUE_NESTING")
    case True
    then have "map (\<lambda>v. wal_write_value_at v (d + 1)) vs = map (\<lambda>v. as_wal (?w v)) vs"
      using 1 by (auto simp: wal_enter_container_def MAX_VALUE_DEPTH_def list_all_iff)
    then show ?thesis using True wseq_as_wal_Cons [of "write_len (length vs)" ?w vs]
      by (simp add: wal_enter_container_def MAX_VALUE_DEPTH_def wal_write_len_as cong: map_cong)
  qed (simp add: wal_enter_container_def MAX_VALUE_DEPTH_def)
next
  case (2 kvs d)
  let ?w = "\<lambda>kv. wseq [write_string (fst kv), write_property_value (snd kv) (d + 1) MAX_VALUE_NESTING]"
  show ?case
  proof (cases "d < MAX_VALUE_NESTING")
    case True
    have "wseq [wal_write_string (fst kv), wal_write_value_at (snd kv) (d + 1)] = as_wal (?w kv)"
      if "kv \<in> set kvs" for kv
      using 2 True that wseq_as_wal [of "[write_string (fst kv),
          write_property_value (snd kv) (d + 1) MAX_VALUE_NESTING]"]
      by (simp add: wal_enter_container_def MAX_VALUE_DEPTH_def list_all_iff wal_write_string_as)
    then have "map (\<lambda>kv. wseq [wal_write_string (fst kv), wal_write_value_at (snd kv) (d + 1)]) kvs =
        map (\<lambda>kv. as_wal (?w kv)) kvs" by simp
    then show ?thesis using True wseq_as_wal_Cons [of "write_len (length kvs)" ?w kvs]
      by (simp add: wal_enter_container_def MAX_VALUE_DEPTH_def wal_write_len_as cong: map_cong)
  qed (simp add: wal_enter_container_def MAX_VALUE_DEPTH_def)
qed (simp_all only: wal_write_value_at.simps, (rule wal_write_scalar_as; simp)+)

section \<open>The readers accept the same bytes\<close>

text \<open>A \<open>PayloadReader\<close> and the store's \<open>Reader\<close> at the same place, with the store's limit in force.\<close>

definition mirrors :: "cursor \<Rightarrow> reader \<Rightarrow> bool" where
  "mirrors r s \<longleftrightarrow> rd_bytes r = rd_bytes s \<and> rd_offset r = rd_offset s \<and> rd_depth r = rd_depth s
     \<and> rd_max_depth s = MAX_VALUE_NESTING"

fun unlabel :: "decode_reason \<Rightarrow> decode_reason" where
  "unlabel (CountExceedsInput l n) = CountExceedsInput [] n"
| "unlabel (InvalidTag l t) = InvalidTag [] t"
| "unlabel d = d"

text \<open>The same error, up to the wording of its label.\<close>

definition same_error :: "wal_error \<Rightarrow> store_codec_error \<Rightarrow> bool" where
  "same_error e d \<longleftrightarrow> (\<exists>x y. e = wal_fail x \<and> d = Decode y \<and> unlabel x = unlabel y)"

definition same_result :: "wal_error + 'a \<times> cursor \<Rightarrow> store_codec_error + 'a \<times> reader \<Rightarrow> bool" where
  "same_result a b = rel_sum same_error (rel_prod (=) mirrors) a b"

definition alike :: "'a wal_read \<Rightarrow> 'a read \<Rightarrow> bool" where
  "alike wm sm \<longleftrightarrow> (\<forall>r s. mirrors r s \<longrightarrow> same_result (wm r) (sm s))"

named_theorems alike_intro \<open>WAL readers that do what a reader of the store does\<close>

lemma alike_rret [alike_intro]: "alike (rret x) (rret x)"
  by (simp add: alike_def same_result_def)

lemma alike_rfail [alike_intro]: "unlabel d = unlabel e \<Longrightarrow> alike (rfail (wal_fail d)) (rfail (Decode e))"
  by (simp add: alike_def same_result_def same_error_def)

lemma alike_rbind [alike_intro]:
  assumes "alike m m'" and "\<And>x. alike (f x) (f' x)"
  shows "alike (rbind m f) (rbind m' f')"
  unfolding alike_def
proof (intro allI impI)
  fix r s assume "mirrors r s"
  then have "same_result (m r) (m' s)" using assms(1) by (simp add: alike_def)
  then show "same_result (rbind m f r) (rbind m' f' s)"
    using assms(2) unfolding alike_def same_result_def
    by (cases "m r"; cases "m' s") (auto simp: rbind_Inl rbind_Inr)
qed

lemma alike_rmap [alike_intro]: "alike m m' \<Longrightarrow> alike (rmap g m) (rmap g m')"
  unfolding rmap_def by (intro alike_intro)

lemma alike_rmany [alike_intro]: "alike m m' \<Longrightarrow> alike (rmany n m) (rmany n m')"
  by (induction n) (simp_all add: alike_intro)

lemma alike_if [alike_intro]:
  "alike m m' \<Longrightarrow> alike k k' \<Longrightarrow> alike (if b then m else k) (if b then m' else k')"
  by simp

lemma alike_option [alike_intro]:
  "alike m m' \<Longrightarrow> (\<And>x. alike (f x) (f' x)) \<Longrightarrow>
   alike (case z of None \<Rightarrow> m | Some x \<Rightarrow> f x) (case z of None \<Rightarrow> m' | Some x \<Rightarrow> f' x)"
  by (cases z) auto

lemma alike_enter [alike_intro]: "alike wal_enter enter"
  by (auto simp: alike_def same_result_def wal_enter_def enter_def mirrors_def same_error_def
      MAX_VALUE_DEPTH_def)

lemma alike_leave [alike_intro]: "alike leave leave"
  by (auto simp: alike_def same_result_def leave_def mirrors_def)

lemma alike_finish [alike_intro]: "alike wal_finish finish"
  by (auto simp: alike_def same_result_def wal_finish_def finish_def mirrors_def same_error_def)

lemma alike_read_exact [alike_intro]: "alike (wal_read_exact n) (read_exact n)"
  by (auto simp: alike_def same_result_def wal_read_exact_def read_exact_def mirrors_def
      same_error_def split: option.split)

lemma alike_prims [alike_intro]:
  "alike wal_read_u8 read_u8" "alike wal_read_i8 read_i8" "alike wal_read_i16 read_i16"
  "alike wal_read_i32 read_i32" "alike wal_read_u32 read_u32" "alike wal_read_i64 read_i64"
  "alike wal_read_u64 read_u64" "alike wal_read_f32 read_f32" "alike wal_read_f64 read_f64"
  "alike wal_read_len read_len"
  unfolding wal_read_u8_def wal_read_i8_def wal_read_i16_def wal_read_i32_def wal_read_u32_def
    wal_read_i64_def wal_read_u64_def wal_read_f32_def wal_read_f64_def wal_read_len_def
    read_u8_def read_i8_def read_i16_def read_i32_def read_u32_def read_i64_def
    read_u64_def read_f32_def read_f64_def read_len_def
  by (intro alike_intro)+

lemma alike_read_len_bounded [alike_intro]: "alike (wal_read_len_bounded l) (read_len_bounded l')"
  unfolding wal_read_len_bounded_def read_len_bounded_def
  by (intro alike_intro)
    (auto simp: alike_def same_result_def mirrors_def remaining_def same_error_def)

lemma alike_read_bytes [alike_intro]: "alike wal_read_bytes read_bytes"
  unfolding wal_read_bytes_def read_bytes_def by (intro alike_intro)

lemma alike_read_string [alike_intro]: "alike wal_read_string read_string"
  unfolding wal_read_string_def read_string_def by (intro alike_intro) simp

lemma alike_read_string_vec [alike_intro]: "alike wal_read_string_vec read_string_vec"
  unfolding wal_read_string_vec_def read_string_vec_def by (intro alike_intro)

lemma alike_read_vec [alike_intro]: "alike m m' \<Longrightarrow> alike (wal_read_elems l m) (read_vec m')"
  unfolding wal_read_elems_def read_vec_counted by (intro alike_intro)

lemma alike_read_vector [alike_intro]: "alike wal_read_vector read_vector"
  unfolding wal_read_vector_def read_vector_def by (intro alike_intro) simp_all

lemma alike_read_binary [alike_intro]: "alike wal_read_binary read_binary"
  unfolding wal_read_binary_def read_binary_def by (intro alike_intro)

lemma alike_read_date_time [alike_intro]: "alike (wal_read_date_time lk t) (read_date_time lk t)"
  unfolding wal_read_date_time_def read_date_time_def by (intro alike_intro) simp

lemma alike_read_point [alike_intro]: "alike wal_read_point read_point"
  unfolding wal_read_point_def read_point_def by (intro alike_intro) simp

lemma alike_float: "alike (rmap PvFloat wal_read_u64) (rmap PvFloat read_f64)"
  unfolding read_f64_def by (intro alike_intro)

lemma alike_read_scalar [alike_intro]: "alike (wal_read_scalar lk t) (read_leaf lk t)"
  unfolding wal_read_scalar_def read_leaf_def
  by (intro alike_float alike_intro) simp

lemma alike_read_value [alike_intro]: "alike (wal_read_value lk fuel) (read_property_value lk fuel)"
proof (induction fuel)
  case 0
  show ?case unfolding wal_read_value.simps read_property_value.simps by (rule alike_rfail) simp
next
  case (Suc fuel)
  show ?case unfolding wal_read_value.simps read_property_value.simps by (intro alike_intro Suc)
qed

section \<open>The WAL's reader\<close>

abbreviation wal_room :: "nat \<Rightarrow> cursor \<Rightarrow> bool" where
  "wal_room k r \<equiv> rd_depth r + k \<le> MAX_VALUE_DEPTH"

interpretation wal: byte_reader wal_room wal_enter wal_read_exact
proof (unfold_locales, goal_cases)
  case (5 r bs rest)
  then have le: "rd_offset r + length bs \<le> length (rd_bytes r)"
    by (auto simp: in_bounds_def input_def dest: arg_cong [where f = length])
  then have "checked_add (rd_offset r) (length bs) = Some (rd_offset r + length bs)"
    using 5 by (auto simp: checked_add_def in_bounds_def intro: isize_max_less_usize)
  with le 5 show ?case by (simp add: wal_read_exact_def input_def advance_def)
qed (auto simp: wal_enter_def advance_def)

definition mirror :: "cursor \<Rightarrow> reader" where
  "mirror r = \<lparr>rd_bytes = rd_bytes r, rd_offset = rd_offset r, rd_depth = rd_depth r,
     rd_max_depth = MAX_VALUE_NESTING\<rparr>"

lemma mirrors_mirror: "mirrors r s \<longleftrightarrow> s = mirror r"
  by (cases s) (auto simp: mirrors_def mirror_def)

text \<open>What the store's reader parses, the WAL's parses.\<close>

lemma wal_parses:
  assumes m: "alike wm sm" and p: "store.parses k sm bs x"
  shows "wal.parses k wm bs x"
proof (rule wal.parsesI)
  fix r :: cursor and rest
  assume r: "rd_depth r + k \<le> MAX_VALUE_DEPTH" "in_bounds r" "input r = bs @ rest"
  have "sm (mirror r) = Inr (x, advance (length bs) (mirror r))"
    using r by (intro store.parsesD [OF p, of _ rest])
      (simp_all add: mirror_def input_def in_bounds_def MAX_VALUE_DEPTH_def)
  moreover have "same_result (wm r) (sm (mirror r))" using m by (simp add: alike_def mirrors_mirror)
  ultimately obtain r' where "wm r = Inr (x, r')" "mirrors r' (advance (length bs) (mirror r))"
    by (cases "wm r") (auto simp: same_result_def)
  moreover from this have "r' = advance (length bs) r"
    by (cases r') (auto simp: mirrors_def mirror_def advance_def)
  ultimately show "wm r = Inr (x, advance (length bs) r)" by simp
qed

lemmas wal_parses_prims = wal_parses [OF alike_prims(1) parses_read_u8]
  wal_parses [OF alike_prims(7) parses_read_u64]

text \<open>What a reader of the store delivers at every depth, the WAL's delivers.\<close>

lemma wal_delivers:
  assumes "alike wm sm" and "delivers (at_depth d MAX_VALUE_NESTING) P sm"
  shows "delivers (\<lambda>r. rd_depth r = d) P wm"
  unfolding delivers_def
proof (intro allI impI)
  fix r x r' assume r: "rd_depth r = d" "wm r = Inr (x, r')"
  have "same_result (wm r) (sm (mirror r))" using assms(1) by (simp add: alike_def mirrors_mirror)
  then obtain s' where "sm (mirror r) = Inr (x, s')" "mirrors r' s'"
    using r by (cases "sm (mirror r)") (auto simp: same_result_def)
  then show "P x \<and> rd_depth r' = d"
    using deliversD [OF assms(2), of "mirror r"] r by (auto simp: mirrors_def mirror_def)
qed

end
