(* ===== verification/Wal_Events.thy ===== *)
theory Wal_Events
  imports Wal_Values
begin

text \<open>
  Round trips of WAL mutation payloads, the agreement of the size functions with what is written,
  and the independence of the recursion bound.
\<close>

section \<open>Well-formed events\<close>

definition wf_properties :: "(string \<Rightarrow> string option) \<Rightarrow> properties \<Rightarrow> bool" where
  "wf_properties lk ps \<longleftrightarrow> wf_value lk (PvMap ps)"

fun wf_event :: "(string \<Rightarrow> string option) \<Rightarrow> mutation_event \<Rightarrow> bool" where
  "wf_event lk (CreateNode i labels ps) = (list_all wf_str labels \<and> wf_properties lk ps)"
| "wf_event lk (CreateRelationship i src dst rel_type ps) = (wf_str rel_type \<and> wf_properties lk ps)"
| "wf_event lk (SetNodeProperty i key v) = (wf_str key \<and> wf_value lk v)"
| "wf_event lk (SetRelationshipProperty i key v) = (wf_str key \<and> wf_value lk v)"
| "wf_event lk (RemoveNodeProperty i key) = wf_str key"
| "wf_event lk (AddNodeLabel i key) = wf_str key"
| "wf_event lk (RemoveNodeLabel i key) = wf_str key"
| "wf_event lk (RemoveRelationshipProperty i key) = wf_str key"
| "wf_event lk (CreateIndex request ine) = wf_index_request request"
| "wf_event lk (DropIndex name ife) = wf_str name"
| "wf_event lk (CreateConstraint request ine) = wf_constraint_request request"
| "wf_event lk (DropConstraint name ife) = wf_str name"
| "wf_event lk _ = True"

section \<open>Values, strings and properties read back\<close>

lemma wal_write_len_Inr [simp]:
  "wal_write_len n = Inr bs \<longleftrightarrow> n < usize_limit \<and> bs = write_u64 (of_nat n)"
  by (simp add: wal_write_len_as)

lemma wal_write_bytes_Inr [simp]:
  "wal_write_bytes b = Inr bs \<longleftrightarrow> length b < usize_limit \<and> bs = write_u64 (of_nat (length b)) @ b"
  by (simp add: wal_write_bytes_as)

lemma wal_write_string_Inr [simp]:
  "wal_write_string s = Inr bs \<longleftrightarrow>
     length s < usize_limit \<and> bs = write_u64 (of_nat (length s)) @ as_bytes s"
  by (simp add: wal_write_string_as)

lemma wal_parses_string: "wal_write_string s = Inr bs \<Longrightarrow> wf_str s \<Longrightarrow> wal.parses k wal_read_string bs s"
  by (rule wal_parses [OF alike_read_string]) (auto intro: parses_read_string)

lemma wal_parses_string_vec:
  "wal_write_string_vec vs = Inr bs \<Longrightarrow> list_all wf_str vs \<Longrightarrow> wal.parses k wal_read_string_vec bs vs"
  by (rule wal_parses [OF alike_read_string_vec]) (simp add: wal_write_string_vec_as parses_string_vec)

lemma wal_write_value_bounds:
  assumes "wal_write_value_at v d = Inr bs" and "wf_value lk v"
  shows "0 < length bs \<and> nesting v < length bs \<and> (d + nesting v \<le> MAX_VALUE_NESTING \<or> nesting v = 0)"
proof -
  have w: "write_property_value v d MAX_VALUE_NESTING = Inr bs"
    using assms by (simp add: wal_write_value_as)
  from nesting_less_length [OF w] write_property_value_nesting [OF w] show ?thesis by auto
qed

lemma wal_parses_value:
  assumes w: "wal_write_value v = Inr bs" and wf: "wf_value lk v" and fuel: "length bs < fuel"
  shows "wal.parses MAX_VALUE_DEPTH (wal_read_value lk fuel) bs v"
proof -
  have "write_property_value v 0 MAX_VALUE_NESTING = Inr bs"
    using w wf by (simp add: wal_write_value_def wal_write_value_as)
  then have "wal.parses (nesting v) (wal_read_value lk fuel) bs v"
    using wal_write_value_bounds [OF w [unfolded wal_write_value_def] wf] fuel wf
    by (intro wal_parses [OF alike_read_value] parses_read_property_value) auto
  then show ?thesis
    by (rule wal.parses_mono)
      (use wal_write_value_bounds [OF w [unfolded wal_write_value_def] wf] in \<open>auto simp: MAX_VALUE_DEPTH_def\<close>)
qed

text \<open>As the store's \<open>parses_counted\<close>, for the WAL's reader.\<close>

lemma wal_parses_counted:
  assumes n: "n < usize_limit" "n \<le> length bs" and m: "wal.parses k (f n) bs x"
  shows "wal.parses k (rbind (wal_read_len_bounded label) f) (write_u64 (of_nat n) @ bs) x"
proof -
  have "wal.parses k (\<lambda>r. if n > remaining r then Inl (wal_fail (CountExceedsInput label n))
      else f n r) bs x"
  proof (rule wal.parsesI)
    fix r :: cursor and rest
    assume r: "rd_depth r + k \<le> MAX_VALUE_DEPTH" "in_bounds r" "input r = bs @ rest"
    then show "(if n > remaining r then Inl (wal_fail (CountExceedsInput label n)) else f n r)
        = Inr (x, advance (length bs) r)"
      using wal.parsesD [OF m r] n(2) by (simp add: input_length)
  qed
  moreover have "rbind (wal_read_len_bounded label) f = rbind wal_read_len
      (\<lambda>len r. if len > remaining r then Inl (wal_fail (CountExceedsInput label len)) else f len r)"
    by (rule ext) (auto simp: wal_read_len_bounded_def rbind_def split: sum.splits)
  ultimately show ?thesis
    by (simp only:) (rule wal.parses_bind [OF wal_parses [OF alike_prims(10) parses_read_len [OF n(1)]]])
qed

lemma wal_parses_counted_written:
  assumes "wseq (wal_write_len (length xs) # map w xs) = Inr bs"
    and "\<And>x b. x \<in> set xs \<Longrightarrow> w x = Inr b \<Longrightarrow> 0 < length b"
    and "\<And>x b. x \<in> set xs \<Longrightarrow> w x = Inr b \<Longrightarrow> length b \<le> length bs \<Longrightarrow> wal.parses k m b x"
  shows "wal.parses k (rbind (wal_read_len_bounded l) (\<lambda>len. rmany len m)) bs xs"
proof -
  from assms(1) obtain out where out: "wseq (map w xs) = Inr out" and n: "length xs < usize_limit"
    and bs: "bs = write_u64 (of_nat (length xs)) @ out" by auto
  have "wal.parses k (rmany (length xs) m) out (map (\<lambda>x. x) xs)"
  proof (rule wal.parses_many_written [OF out])
    fix x b assume x: "x \<in> set xs" "w x = Inr b"
    then show "wal.parses k m b x" using wseq_map_elem [OF out x(1)] by (intro assms(3)) (auto simp: bs)
  qed
  moreover have "length xs \<le> length out" using out by (rule wseq_map_length) (rule assms(2))
  ultimately show ?thesis unfolding bs using n by (intro wal_parses_counted) simp_all
qed

lemma wal_parses_rmap: "wal.parses k m bs x \<Longrightarrow> y = g x \<Longrightarrow> wal.parses k (rmap g m) bs y"
  unfolding rmap_def by (rule wal.parses_bind_ret)

lemma wal_parses_properties:
  assumes w: "wal_write_properties ps = Inr bs" and wf: "wf_properties lk ps" and fuel: "length bs < fuel"
  shows "wal.parses MAX_VALUE_DEPTH (wal_read_properties lk fuel) bs ps"
proof -
  let ?w = "\<lambda>kv. wseq [wal_write_string (fst kv), wal_write_value (snd kv)]"
  let ?m = "rbind wal_read_string (\<lambda>key. rmap (Pair key) (wal_read_value lk fuel))"
  have "wal.parses MAX_VALUE_DEPTH (rbind (wal_read_len_bounded ''property'') (\<lambda>len. rmany len ?m)) bs ps"
  proof (rule wal_parses_counted_written [where w = ?w])
    show "wseq (wal_write_len (length ps) # map ?w ps) = Inr bs"
      using w by (simp add: wal_write_properties_def)
  next
    fix kv b assume kv: "kv \<in> set ps" and b: "?w kv = Inr b" and len: "length b \<le> length bs"
    from b obtain a c where a: "wal_write_string (fst kv) = Inr a" and c: "wal_write_value (snd kv) = Inr c"
      and bc: "b = a @ c" by auto
    have "wf_str (fst kv)" "wf_value lk (snd kv)"
      using wf kv by (auto simp: wf_properties_def list_all_iff)
    then show "wal.parses MAX_VALUE_DEPTH ?m b kv" unfolding bc using len fuel bc
      by (intro wal.parses_bind [OF wal_parses_string [OF a]] wal_parses_rmap [OF wal_parses_value [OF c]]) auto
  qed auto
  then show ?thesis unfolding wal_read_properties_def
    by (rule wal_parses_rmap) (use wf in \<open>simp add: wf_properties_def\<close>)
qed

lemma wal_parses_schema:
  assumes w: "ebind (wal_schema_bytes what enc) wal_write_bytes = Inr bs"
    and d: "\<And>b. enc = Inr b \<Longrightarrow> length b \<le> isize_max \<Longrightarrow> decode b = Inr x"
    and len: "length bs \<le> isize_max"
  shows "wal.parses k (wal_read_schema what decode) bs x"
proof -
  from w obtain b where b: "enc = Inr b" "length b < usize_limit"
    and bs: "bs = write_u64 (of_nat (length b)) @ b" by (auto simp: wal_schema_bytes_def)
  have "decode b = Inr x" using d b(1) len bs by simp
  moreover have "wal.parses k wal_read_bytes bs b"
    unfolding bs by (rule wal_parses [OF alike_read_bytes parses_read_bytes [OF b(2)]])
  ultimately show ?thesis unfolding wal_read_schema_def
    by (intro wal.parses_bind_end) (assumption, simp only: sum.case)
qed

section \<open>Events read back\<close>

lemma wal_parses_tagged:
  "wal.parses k (f tag) out x \<Longrightarrow> wal.parses k (rbind wal_read_u8 f) (tag # out) x"
  using wal.parses_bind [OF wal_parses_prims(1), of k f tag out x] by simp

lemma wal_parses_u64: "wal.parses k wal_read_u64 (write_u64 w) w"
  by (rule wal_parses [OF alike_prims(7) parses_read_u64])

lemma wal_parses_flag:
  "(\<And>y. y = bool_byte b \<Longrightarrow> x = g y) \<Longrightarrow> wal.parses k (rmap g wal_read_u8) [bool_byte b] x"
  by (rule wal_parses_rmap [OF wal_parses_prims(1)]) simp

lemma bool_byte_neq_0 [simp]: "(bool_byte b \<noteq> 0) = b"
  by (simp add: bool_byte_def)

lemma wal_write_event_nonempty: "wal_write_event e = Inr bs \<Longrightarrow> 0 < length bs"
  by (cases e) auto

lemmas event_parses = wal.parses_bind [OF wal_parses_u64] wal.parses_bind [OF wal_parses_string]
  wal.parses_bind [OF wal_parses_string_vec]

lemma parses_key_event:
  "wal_write_string key = Inr l \<Longrightarrow> wf_str key \<Longrightarrow>
   wal.parses k (rbind wal_read_u64 (\<lambda>i. rmap (F i) wal_read_string)) (write_u64 i @ l) (F i key)"
  by (rule wal.parses_bind [OF wal_parses_u64], rule wal_parses_rmap [OF wal_parses_string]) simp_all

lemma parses_id_event: "wal.parses k (rmap F wal_read_u64) (write_u64 i) (F i)"
  by (rule wal_parses_rmap [OF wal_parses_u64]) simp

lemma parses_drop_event:
  "wal_write_string name = Inr l \<Longrightarrow> wf_str name \<Longrightarrow>
   wal.parses k (rbind wal_read_string (\<lambda>name. rmap (\<lambda>b. F name (b \<noteq> 0)) wal_read_u8))
     (l @ [bool_byte b]) (F name b)"
  by (rule wal.parses_bind [OF wal_parses_string], assumption+, rule wal_parses_flag) simp

lemma wal_parses_event:
  assumes w: "wal_write_event e = Inr bs" and wf: "wf_event lk e" and fuel: "length bs < fuel"
    and len: "length bs \<le> isize_max"
  shows "wal.parses MAX_VALUE_DEPTH (wal_read_event lk fuel) bs e"
proof (cases e)
  case (CreateIndex r b)
  then obtain out where out: "ebind (wal_schema_bytes ''CreateIndex'' (encode_index_request r)) wal_write_bytes = Inr out"
    and bs: "bs = TAG_CREATE_INDEX # out @ [bool_byte b]" using w by (auto simp del: ebind_eq_Inr)
  have "wal.parses MAX_VALUE_DEPTH (wal_read_schema ''CreateIndex'' decode_index_request) out r"
  proof (rule wal_parses_schema [OF out])
    fix c assume c: "encode_index_request r = Inr c" "length c \<le> isize_max"
    then show "decode_index_request c = Inr r"
      using wf CreateIndex parses_index_request [of r c "Suc (length c)"]
      unfolding decode_index_request_def encode_index_request_def
      by (intro decode_all_parses) simp_all
  qed (use len bs in simp)
  then show ?thesis unfolding bs wal_read_event_def CreateIndex
    by (intro wal_parses_tagged) (simp, rule wal.parses_bind, assumption, rule wal_parses_flag, simp)
next
  case (CreateConstraint r b)
  then obtain out where out: "ebind (wal_schema_bytes ''CreateConstraint'' (encode_constraint_request r)) wal_write_bytes = Inr out"
    and bs: "bs = TAG_CREATE_CONSTRAINT # out @ [bool_byte b]" using w by (auto simp del: ebind_eq_Inr)
  have "wal.parses MAX_VALUE_DEPTH (wal_read_schema ''CreateConstraint'' decode_constraint_request) out r"
  proof (rule wal_parses_schema [OF out])
    fix c assume c: "encode_constraint_request r = Inr c" "length c \<le> isize_max"
    then show "decode_constraint_request c = Inr r"
      using wf CreateConstraint parses_constraint_request [of r c "Suc (length c)"]
      unfolding decode_constraint_request_def encode_constraint_request_def
      by (intro decode_all_parses) simp_all
  qed (use len bs in simp)
  then show ?thesis unfolding bs wal_read_event_def CreateConstraint
    by (intro wal_parses_tagged) (simp, rule wal.parses_bind, assumption, rule wal_parses_flag, simp)
next
  case (CreateNode i labels ps)
  then obtain l p where l: "wal_write_string_vec labels = Inr l" and p: "wal_write_properties ps = Inr p"
    and bs: "bs = TAG_CREATE_NODE # write_u64 i @ l @ p" using w by auto
  show ?thesis unfolding bs wal_read_event_def CreateNode
    by (intro wal_parses_tagged)
      (simp, intro event_parses(1,3) wal_parses_rmap [OF wal_parses_properties [OF p]] l,
        use wf fuel bs l CreateNode in simp_all)
next
  case (CreateRelationship i src dst t ps)
  then obtain l p where l: "wal_write_string t = Inr l" and p: "wal_write_properties ps = Inr p"
    and bs: "bs = TAG_CREATE_RELATIONSHIP # write_u64 i @ write_u64 src @ write_u64 dst @ l @ p"
    using w by (auto simp del: wal_write_string_Inr)
  show ?thesis unfolding bs wal_read_event_def CreateRelationship
    by (intro wal_parses_tagged)
      (simp, intro event_parses(1,2) wal_parses_rmap [OF wal_parses_properties [OF p]] l,
        use wf fuel bs l CreateRelationship in simp_all)
next
  case (SetNodeProperty i key v)
  then obtain l p where l: "wal_write_string key = Inr l" and p: "wal_write_value v = Inr p"
    and bs: "bs = TAG_SET_NODE_PROPERTY # write_u64 i @ l @ p"
    using w by (auto simp del: wal_write_string_Inr)
  show ?thesis unfolding bs wal_read_event_def SetNodeProperty
    by (intro wal_parses_tagged)
      (simp, intro event_parses(1,2) wal_parses_rmap [OF wal_parses_value [OF p]] l,
        use wf fuel bs l SetNodeProperty in simp_all)
next
  case (SetRelationshipProperty i key v)
  then obtain l p where l: "wal_write_string key = Inr l" and p: "wal_write_value v = Inr p"
    and bs: "bs = TAG_SET_RELATIONSHIP_PROPERTY # write_u64 i @ l @ p"
    using w by (auto simp del: wal_write_string_Inr)
  show ?thesis unfolding bs wal_read_event_def SetRelationshipProperty
    by (intro wal_parses_tagged)
      (simp, intro event_parses(1,2) wal_parses_rmap [OF wal_parses_value [OF p]] l,
        use wf fuel bs l SetRelationshipProperty in simp_all)
next
  case ClearGraph
  then show ?thesis unfolding wal_read_event_def using w
    by (auto intro!: wal_parses_tagged wal.parses_ret simp del: rret_apply)
next
  case (RemoveNodeProperty i key)
  then show ?thesis using w wf by (auto simp: wal_read_event_def simp del: wal_write_string_Inr
      intro!: wal_parses_tagged parses_key_event)
next
  case (AddNodeLabel i key)
  then show ?thesis using w wf by (auto simp: wal_read_event_def simp del: wal_write_string_Inr
      intro!: wal_parses_tagged parses_key_event)
next
  case (RemoveNodeLabel i key)
  then show ?thesis using w wf by (auto simp: wal_read_event_def simp del: wal_write_string_Inr
      intro!: wal_parses_tagged parses_key_event)
next
  case (RemoveRelationshipProperty i key)
  then show ?thesis using w wf by (auto simp: wal_read_event_def simp del: wal_write_string_Inr
      intro!: wal_parses_tagged parses_key_event)
next
  case (DeleteRelationship i)
  then show ?thesis using w by (auto simp: wal_read_event_def intro!: wal_parses_tagged parses_id_event)
next
  case (DeleteNode i)
  then show ?thesis using w by (auto simp: wal_read_event_def intro!: wal_parses_tagged parses_id_event)
next
  case (DetachDeleteNode i)
  then show ?thesis using w by (auto simp: wal_read_event_def intro!: wal_parses_tagged parses_id_event)
next
  case (DropIndex name b)
  then show ?thesis using w wf by (auto simp: wal_read_event_def simp del: wal_write_string_Inr
      intro!: wal_parses_tagged parses_drop_event)
next
  case (DropConstraint name b)
  then show ?thesis using w wf by (auto simp: wal_read_event_def simp del: wal_write_string_Inr
      intro!: wal_parses_tagged parses_drop_event)
qed

section \<open>Sizes\<close>

text \<open>
  \<open>sizes w m\<close>: the size function \<open>m\<close> adds exactly the number of bytes the writer \<open>w\<close> appends (unless
  the total leaves \<open>usize\<close>) and fails when the writer fails.
\<close>

definition sizes :: "wal_error + u8 list \<Rightarrow> sizer \<Rightarrow> bool" where
  "sizes w m \<longleftrightarrow> (\<forall>s<usize_limit. case w of
     Inr bs \<Rightarrow> m s = (if s + length bs < usize_limit then Inr (s + length bs)
       else Inl (WalEncode WalPayloadOverflow))
   | Inl _ \<Rightarrow> (\<exists>e. m s = Inl e))"

named_theorems size_intro \<open>size functions that agree with writers\<close>

lemma sizes_add [size_intro]: "length bs = n \<Longrightarrow> sizes (Inr bs) (add_size n)"
  by (simp add: sizes_def add_size_def checked_add_def)

lemma sizes_tag [size_intro]: "sizes (Inr [t]) size_tag"
  unfolding size_tag_def by (rule sizes_add) simp

lemma sizes_u64 [size_intro]: "sizes (Inr (write_u64 w)) size_u64"
  unfolding size_u64_def by (rule sizes_add) simp

lemma sizes_len [size_intro]: "sizes (wal_write_len n) (size_len n)"
  using sizes_u64 [of "of_nat n"] by (simp add: sizes_def wal_write_len_def size_len_def)

lemma sizes_Nil [size_intro]: "sizes (wseq []) (sseq [])" "sizes (Inr []) Inr"
  by (simp_all add: sizes_def)

lemma sizes_Cons [size_intro]:
  assumes "sizes w m" and "sizes (wseq ws) (sseq ms)"
  shows "sizes (wseq (w # ws)) (sseq (m # ms))"
  unfolding sizes_def
proof (intro allI impI)
  fix s :: nat assume s: "s < usize_limit"
  show "case wseq (w # ws) of Inl _ \<Rightarrow> \<exists>e. sseq (m # ms) s = Inl e
    | Inr bs \<Rightarrow> sseq (m # ms) s = (if s + length bs < usize_limit then Inr (s + length bs)
        else Inl (WalEncode WalPayloadOverflow))"
  proof (cases w)
    case (Inl e)
    then show ?thesis using assms(1) s by (auto simp: sizes_def)
  next
    case (Inr a)
    show ?thesis
    proof (cases "s + length a < usize_limit")
      case True
      then have "m s = Inr (s + length a)" using assms(1) s Inr by (simp add: sizes_def)
      moreover have "case wseq ws of Inl _ \<Rightarrow> \<exists>e. sseq ms (s + length a) = Inl e
        | Inr bs \<Rightarrow> sseq ms (s + length a) = (if s + length a + length bs < usize_limit
            then Inr (s + length a + length bs) else Inl (WalEncode WalPayloadOverflow))"
        using assms(2) True by (simp add: sizes_def)
      ultimately show ?thesis using Inr by (cases "wseq ws") (auto simp: add.assoc)
    next
      case False
      then have "m s = Inl (WalEncode WalPayloadOverflow)" using assms(1) s Inr by (simp add: sizes_def)
      with False Inr show ?thesis by (cases "wseq ws") auto
    qed
  qed
qed

lemma sizes_map [size_intro]:
  "(\<And>x. x \<in> set xs \<Longrightarrow> sizes (w x) (m x)) \<Longrightarrow> sizes (wseq (map w xs)) (sseq (map m xs))"
proof (induction xs)
  case Nil
  show ?case unfolding list.map by (rule sizes_Nil)
next
  case (Cons x xs)
  then show ?case unfolding list.map by (intro sizes_Cons) simp_all
qed

lemma sizes_bytes [size_intro]: "n = length b \<Longrightarrow> sizes (wal_write_bytes b) (size_bytes n)"
  unfolding wal_write_bytes_def size_bytes_def
  by (simp only:) (intro size_intro refl)

lemma sizes_string [size_intro]: "sizes (wal_write_string s) (size_string s)"
  unfolding wal_write_string_def size_string_def by (intro size_intro) simp

lemma sizes_string_vec [size_intro]: "sizes (wal_write_string_vec vs) (size_string_vec vs)"
  unfolding wal_write_string_vec_def size_string_vec_def by (intro size_intro)

lemma sizes_segments [size_intro]: "sizes (wal_write_binary_segments ss) (size_binary_segments ss)"
  unfolding wal_write_binary_segments_def size_binary_segments_def by (intro size_intro refl)

lemma wseq_fixed: "wseq (map (\<lambda>x. Inr (f x)) xs) = Inr (concat (map f xs))"
  by (induction xs) simp_all

lemma sizes_slice:
  assumes "\<And>x. length (f x) = k"
  shows "sizes (wseq (wal_write_len (length xs) # map (\<lambda>x. Inr (f x)) xs)) (size_numeric_slice (length xs) k)"
  unfolding size_numeric_slice_def
proof (rule sizes_Cons [OF sizes_len])
  have "length (concat (map f xs)) = length xs * k"
    by (induction xs) (simp_all add: assms)
  then show "sizes (wseq (map (\<lambda>x. Inr (f x)) xs)) (sseq [\<lambda>s.
     if length xs * k < usize_limit then add_size (length xs * k) s
     else Inl (WalEncode WalPayloadOverflow)])"
    by (simp add: sizes_def wseq_fixed add_size_def checked_add_def)
qed

lemma wseq_nest: "wseq (m # [wseq ms]) = wseq (m # ms)" for m :: "wal_error + u8 list"
  by (cases m; cases "wseq ms") (auto simp: wseq.simps)

lemma sizes_tagged:
  "sizes (Inr bs) m \<Longrightarrow> sizes (Inr (t # bs)) (sseq [size_tag, m])"
  using sizes_Cons [OF sizes_tag sizes_Cons [OF _ sizes_Nil(1)], of "Inr bs" m t] by simp

lemma sizes_tagged_seq:
  "sizes w m \<Longrightarrow> sizes (wseq [Inr [t], w]) (sseq [size_tag, m])"
  by (intro sizes_Cons sizes_tag sizes_Nil)

lemma sizes_vector [size_intro]: "sizes (wal_write_vector v) (size_vector v)"
proof -
  have slice: "sizes (wseq [wal_write_len n, wseq (Inr [t] # wal_write_len (length xs) # map (\<lambda>x. Inr (f x)) xs)])
      (sseq [size_len n, size_tag, size_numeric_slice (length xs) k])"
    if "\<And>x. length (f x) = k" for n t k and f :: "'a \<Rightarrow> u8 list" and xs
  proof -
    have "sizes (wseq (Inr [t] # wal_write_len (length xs) # map (\<lambda>x. Inr (f x)) xs))
        (sseq [size_tag, size_numeric_slice (length xs) k])"
      using sizes_tagged_seq [OF sizes_slice [OF that]] unfolding wseq_nest .
    then show ?thesis unfolding wseq_nest by (rule sizes_Cons [OF sizes_len])
  qed
  show ?thesis unfolding wal_write_vector_def size_vector_def
    by (cases "vec_values v"; simp only: vector_values.case; rule slice; simp)
qed

lemma sizes_scalar:
  assumes "\<nexists>vs. v = PvList vs" and "\<nexists>kvs. v = PvMap kvs"
  shows "sizes (wal_write_scalar v) (sseq [size_tag, size_scalar v])"
proof (cases v)
  case PvNull
  show ?thesis unfolding PvNull wal_write_scalar.simps size_scalar.simps
    by (rule sizes_tagged) (rule sizes_Nil)
next
  case (PvDateTime d)
  let ?f = "write_date_fields (dt_year d) (dt_month d) (dt_day d)
    @ write_time_fields (dt_hour d) (dt_minute d) (dt_second d) (dt_nanosecond d)
    @ write_i32 (dt_offset_seconds d)"
  let ?z = "case dt_zone d of Some zone \<Rightarrow> wal_write_string zone | None \<Rightarrow> Inr []"
  have z: "sizes ?z (case dt_zone d of Some zone \<Rightarrow> size_string zone | None \<Rightarrow> Inr)"
    by (cases "dt_zone d") (simp_all add: sizes_string sizes_Nil)
  have "sizes (Inr ?f) (add_size 32)"
    by (rule sizes_add) (simp add: write_date_fields_def write_time_fields_def)
  from sizes_Cons [OF this sizes_Cons [OF z sizes_Nil(1)]]
  have "sizes (wseq [Inr ?f, ?z]) (size_scalar v)" by (simp only: PvDateTime size_scalar.simps)
  from sizes_tagged_seq [OF this, of "if dt_zone d \<noteq> None then VALUE_ZONED_DATE_TIME else VALUE_DATE_TIME"]
  show ?thesis by (simp add: PvDateTime sum.map_comp comp_def)
next
  case (PvPoint p)
  let ?z = "case pt_z p of Some z \<Rightarrow> write_f64 z | None \<Rightarrow> []"
  have "sizes (Inr (write_f64 (pt_x p) @ write_f64 (pt_y p) @ [if pt_z p \<noteq> None then 1 else 0]))
      (add_size (8 + 8 + 1))" by (rule sizes_add) simp
  moreover have "sizes (Inr ?z) (if pt_z p \<noteq> None then add_size 8 else Inr)"
    by (cases "pt_z p") (simp_all add: sizes_Nil sizes_add)
  moreover have "sizes (Inr (write_u32 (pt_srid p))) (add_size 4)" by (rule sizes_add) simp
  ultimately have "sizes (wseq [Inr (write_f64 (pt_x p) @ write_f64 (pt_y p)
      @ [if pt_z p \<noteq> None then 1 else 0]), Inr ?z, Inr (write_u32 (pt_srid p))]) (size_scalar v)"
    unfolding PvPoint size_scalar.simps by (intro sizes_Cons sizes_Nil)
  from sizes_tagged_seq [OF this, of VALUE_POINT] show ?thesis
    by (cases "pt_z p") (simp_all add: PvPoint)
next
  case (PvString s)
  show ?thesis unfolding PvString wal_write_scalar.simps size_scalar.simps
    by (rule sizes_tagged_seq [OF sizes_string])
next
  case (PvBinary b)
  show ?thesis unfolding PvBinary wal_write_scalar.simps size_scalar.simps
    by (rule sizes_tagged_seq [OF sizes_segments])
next
  case (PvVector v)
  show ?thesis unfolding PvVector wal_write_scalar.simps size_scalar.simps
    by (rule sizes_tagged_seq [OF sizes_vector])
qed (use assms in \<open>auto simp: write_date_fields_def write_time_fields_def simp del: sseq.simps
    intro!: sizes_tagged sizes_add\<close>)

lemma sizes_value: "sizes (wal_write_value_at v d) (size_value_at v d)"
proof (induction v d rule: wal_write_value_at.induct)
  case (1 vs d)
  show ?case
  proof (cases "d < MAX_VALUE_DEPTH")
    case True
    have "sizes (wseq (wal_write_len (length vs) # map (\<lambda>v. wal_write_value_at v (d + 1)) vs))
        (sseq (size_len (length vs) # map (\<lambda>v. size_value_at v (d + 1)) vs))"
      using 1 True by (intro sizes_Cons sizes_len sizes_map) (simp add: wal_enter_container_def)
    from sizes_tagged_seq [OF this, of VALUE_LIST] True show ?thesis
      unfolding wseq_nest by (simp add: wal_enter_container_def del: wseq_eval sseq.simps)
  qed (simp add: wal_enter_container_def sizes_def size_tag_def add_size_def split: option.split)
next
  case (2 kvs d)
  show ?case
  proof (cases "d < MAX_VALUE_DEPTH")
    case True
    have "sizes (wseq (wal_write_len (length kvs)
          # map (\<lambda>kv. wseq [wal_write_string (fst kv), wal_write_value_at (snd kv) (d + 1)]) kvs))
        (sseq (size_len (length kvs)
          # map (\<lambda>kv. sseq [size_string (fst kv), size_value_at (snd kv) (d + 1)]) kvs))"
      using 2 True by (intro sizes_Cons sizes_len sizes_map sizes_string sizes_Nil)
        (simp add: wal_enter_container_def)
    from sizes_tagged_seq [OF this, of VALUE_MAP] True show ?thesis
      unfolding wseq_nest by (simp add: wal_enter_container_def del: wseq_eval sseq.simps)
  qed (simp add: wal_enter_container_def sizes_def size_tag_def add_size_def split: option.split)
qed (simp_all only: wal_write_value_at.simps size_value_at.simps, (rule sizes_scalar; simp)+)

lemma sizes_properties [size_intro]: "sizes (wal_write_properties ps) (size_properties ps)"
  unfolding wal_write_properties_def size_properties_def wal_write_value_def size_value_def
  by (intro size_intro sizes_value)

lemma sizes_value_top [size_intro]: "sizes (wal_write_value v) (size_value v)"
  unfolding wal_write_value_def size_value_def by (rule sizes_value)

lemma sizes_schema:
  "sizes (wseq [Inr [t], ebind (wal_schema_bytes what enc) wal_write_bytes, Inr [b]])
     (sseq [size_tag, size_schema what enc])"
proof (cases enc)
  case (Inl e)
  then have "wseq [Inr [t], ebind (wal_schema_bytes what enc) wal_write_bytes, Inr [b]]
      = Inl (WalEncode (WalSchemaEncode what e))" by (simp add: wal_schema_bytes_def)
  moreover have "\<exists>e. size_tag s = Inl e \<or> (\<exists>s'. size_tag s = Inr s')" for s
    by (cases "size_tag s") auto
  ultimately show ?thesis using Inl
    by (auto simp: sizes_def wal_schema_bytes_def size_schema_def size_tag_def add_size_def
        split: option.split)
next
  case (Inr payload)
  have "sizes (wseq [wal_write_len (length payload), Inr payload, Inr [b]])
      (sseq [size_len (length payload), add_size (length payload), add_size 1])"
    by (intro size_intro refl) simp
  from sizes_tagged_seq [OF this, of t]
  have "sizes (wseq [Inr [t], wseq [wal_write_len (length payload), Inr payload, Inr [b]]])
      (sseq [size_tag, sseq [size_len (length payload), add_size (length payload), add_size 1]])" .
  moreover have "wseq [Inr [t], wseq [wal_write_len (length payload), Inr payload, Inr [b]]]
      = wseq [Inr [t], ebind (wal_schema_bytes what enc) wal_write_bytes, Inr [b]]"
    by (cases "wal_write_len (length payload)") (auto simp: Inr wal_schema_bytes_def wal_write_bytes_def simp del: wal_write_len_Inr)
  moreover have "size_schema what enc
      = sseq [size_len (length payload), add_size (length payload), add_size 1]"
    by (rule ext) (simp add: Inr size_schema_def wal_schema_bytes_def)
  ultimately show ?thesis by (simp only:)
qed

lemma sizes_event: "sizes (wal_write_event e) (size_event e)"
proof (cases e)
  case (CreateIndex r b)
  show ?thesis unfolding CreateIndex wal_write_event.simps size_event.simps by (rule sizes_schema)
next
  case (CreateConstraint r b)
  show ?thesis unfolding CreateConstraint wal_write_event.simps size_event.simps by (rule sizes_schema)
qed (simp_all only: wal_write_event.simps size_event.simps, (intro size_intro; simp)+)

end
