(* ===== verification/Wal_Check.thy ===== *)
theory Wal_Check
  imports Wal_Events
begin

text \<open>
  Replay validates a mutation batch before it applies any of it: \<open>check_event\<close> walks the payload
  without building values. This theory proves the two parsers interchangeable.
\<close>

section \<open>Readers that do the same to the cursor\<close>

definition forget :: "'e + 'a \<times> 's \<Rightarrow> 'e + 's" where
  "forget m = map_sum id snd m"

definition keeps :: "'a wal_read \<Rightarrow> bool" where
  "keeps m \<longleftrightarrow> (\<forall>r x r'. in_bounds r \<longrightarrow> m r = Inr (x, r') \<longrightarrow> in_bounds r')"

text \<open>On every cursor within its input, both fail with the same error or stop at the same place.\<close>

definition checks :: "'a wal_read \<Rightarrow> 'b wal_read \<Rightarrow> bool" where
  "checks c m \<longleftrightarrow> (\<forall>r. in_bounds r \<longrightarrow> forget (c r) = forget (m r)) \<and> keeps m"

named_theorems check_intro \<open>readers that check what another reads\<close>

lemma forget_simps [simp]: "forget (Inl e) = Inl e" "forget (Inr (x, r)) = Inr r"
  by (simp_all add: forget_def)

lemma checks_refl: "keeps m \<Longrightarrow> checks m m"
  by (simp add: checks_def)

lemma keeps_rret [check_intro]: "keeps (rret x)"
  by (simp add: keeps_def)

lemma keeps_rfail [check_intro]: "keeps (rfail e)"
  by (simp add: keeps_def)

lemma keeps_rbind [check_intro]: "keeps m \<Longrightarrow> (\<And>x. keeps (f x)) \<Longrightarrow> keeps (rbind m f)"
  unfolding keeps_def rbind_eq_Inr by meson

lemma keeps_rmap [check_intro]: "keeps m \<Longrightarrow> keeps (rmap f m)"
  unfolding rmap_def by (intro check_intro)

lemma keeps_if [check_intro]: "keeps m \<Longrightarrow> keeps k \<Longrightarrow> keeps (if b then m else k)"
  by simp

lemma keeps_option [check_intro]:
  "keeps m \<Longrightarrow> (\<And>x. keeps (f x)) \<Longrightarrow> keeps (case z of None \<Rightarrow> m | Some x \<Rightarrow> f x)"
  by (cases z) auto

lemma keeps_sum [check_intro]:
  "(\<And>e. keeps (g e)) \<Longrightarrow> (\<And>x. keeps (f x)) \<Longrightarrow> keeps (case z of Inl e \<Rightarrow> g e | Inr x \<Rightarrow> f x)"
  by (cases z) auto

lemma keeps_rmany [check_intro]: "keeps m \<Longrightarrow> keeps (rmany n m)"
  by (induction n) (simp_all add: check_intro)

lemma keeps_read_exact [check_intro]: "keeps (wal_read_exact n)"
  by (auto simp: keeps_def wal_read_exact_def in_bounds_def split: option.splits if_splits)

lemma keeps_enter [check_intro]: "keeps wal_enter"
  by (auto simp: keeps_def wal_enter_def split: if_splits)

lemma keeps_leave [check_intro]: "keeps leave"
  by (auto simp: keeps_def leave_def)

lemma keeps_prims [check_intro]:
  "keeps wal_read_u8" "keeps wal_read_i8" "keeps wal_read_i16" "keeps wal_read_i32"
  "keeps wal_read_u32" "keeps wal_read_i64" "keeps wal_read_u64" "keeps wal_read_f32"
  "keeps wal_read_f64" "keeps wal_read_len"
  unfolding wal_read_u8_def wal_read_i8_def wal_read_i16_def wal_read_i32_def wal_read_u32_def
    wal_read_i64_def wal_read_u64_def wal_read_f32_def wal_read_f64_def wal_read_len_def
  by (intro check_intro)+

lemma keeps_read_len_bounded [check_intro]: "keeps (wal_read_len_bounded l)"
  unfolding wal_read_len_bounded_def
  by (intro check_intro) (simp add: keeps_def)

lemma keeps_read_string [check_intro]: "keeps wal_read_string"
  unfolding wal_read_string_def wal_read_bytes_def by (intro check_intro)

lemma keeps_read_bytes [check_intro]: "keeps wal_read_bytes"
  unfolding wal_read_bytes_def by (intro check_intro)

lemma keeps_read_scalar [check_intro]: "keeps (wal_read_scalar lk t)"
  unfolding wal_read_scalar_def wal_read_vector_def wal_read_elems_def wal_read_binary_def
    wal_read_date_time_def wal_read_point_def
  by (intro check_intro)

lemma checks_rret [check_intro]: "checks (rret x) (rret y)"
  by (simp add: checks_def check_intro)

lemma checks_rfail [check_intro]: "checks (rfail e) (rfail e)"
  by (simp add: checks_def check_intro)

lemma checks_rbind:
  assumes "checks c m" and "\<And>x y. checks (f x) (g y)"
  shows "checks (rbind c f) (rbind m g)"
  unfolding checks_def
proof (intro conjI allI impI)
  show "keeps (rbind m g)" using assms by (auto simp: checks_def intro: check_intro)
  fix r :: cursor assume r: "in_bounds r"
  then have same: "forget (c r) = forget (m r)" using assms(1) by (simp add: checks_def)
  show "forget (rbind c f r) = forget (rbind m g r)"
  proof (cases "m r")
    case (Inl e)
    with same show ?thesis by (cases "c r") (auto simp: rbind_Inl)
  next
    case (Inr p)
    obtain y r' where p: "p = (y, r')" by (cases p)
    with same Inr obtain x where x: "c r = Inr (x, r')" by (cases "c r") auto
    have "in_bounds r'" using assms(1) r Inr p by (auto simp: checks_def keeps_def)
    then show ?thesis using assms(2) [of x y] x Inr p by (simp add: rbind_Inr checks_def)
  qed
qed

lemma checks_same:
  assumes "keeps m" and "\<And>x. checks (f x) (g x)"
  shows "checks (rbind m f) (rbind m g)"
  unfolding checks_def
proof (intro conjI allI impI)
  show "keeps (rbind m g)" using assms by (auto simp: checks_def intro: check_intro)
  fix r :: cursor assume r: "in_bounds r"
  show "forget (rbind m f r) = forget (rbind m g r)"
  proof (cases "m r")
    case (Inr p)
    obtain y r' where p: "p = (y, r')" by (cases p)
    have "in_bounds r'" using assms(1) r Inr p by (auto simp: keeps_def)
    then show ?thesis using assms(2) [of y] Inr p by (simp add: rbind_Inr checks_def)
  qed (simp add: rbind_Inl)
qed

lemma checks_rmap [check_intro]: "checks c m \<Longrightarrow> checks (rmap f c) (rmap g m)"
  unfolding rmap_def by (erule checks_rbind) (rule checks_rret)

lemma checks_drop: "checks c m \<Longrightarrow> checks c (rmap g m)"
  by (auto simp: checks_def rmap_def rbind_def forget_def keeps_def split: sum.splits)

lemma checks_drop_ret: "checks c m \<Longrightarrow> checks c (rbind m (\<lambda>x. rret (g x)))"
  using checks_drop [of c m g] by (simp add: rmap_def)

lemma checks_rmany [check_intro]: "checks c m \<Longrightarrow> checks (rmany n c) (rmany n m)"
proof (induction n)
  case 0
  show ?case unfolding rmany_0 by (rule checks_rret)
next
  case (Suc n)
  then show ?case unfolding rmany_Suc by (intro checks_rbind checks_rret)
qed

lemma checks_if [check_intro]:
  "checks c m \<Longrightarrow> checks d k \<Longrightarrow> checks (if b then c else d) (if b then m else k)"
  by simp

text \<open>Skipping several fixed-width fields at once.\<close>

lemma checks_skip:
  assumes m: "checks (wal_read_exact a) m" and f: "\<And>x. checks (rbind (wal_read_exact b) (\<lambda>_. k)) (f x)"
    and small: "a + b \<le> 64"
  shows "checks (rbind (wal_read_exact (a + b)) (\<lambda>_. k)) (rbind m f)"
proof -
  have "checks (rbind (wal_read_exact a) (\<lambda>_. rbind (wal_read_exact b) (\<lambda>_. k))) (rbind m f)"
    by (rule checks_rbind [OF m f])
  moreover have "rbind (wal_read_exact a) (\<lambda>_. rbind (wal_read_exact b) (\<lambda>_. k)) r =
      rbind (wal_read_exact (a + b)) (\<lambda>_. k) r" if "in_bounds r" for r
    using that small
    by (auto simp: isize_max_def usize_limit_def rbind_def wal_read_exact_def checked_add_def in_bounds_def add.assoc
        split: if_splits sum.splits)
  ultimately show ?thesis by (simp add: checks_def)
qed

lemma checks_fields:
  "checks (wal_read_exact 4) wal_read_i32" "checks (wal_read_exact 4) wal_read_u32"
  "checks (wal_read_exact 8) wal_read_u64"
  unfolding wal_read_i32_def wal_read_u32_def wal_read_u64_def
  by (intro checks_drop_ret checks_refl keeps_read_exact)+

section \<open>Values and events\<close>

lemma checks_str [check_intro]: "checks wal_check_str wal_read_string"
  unfolding wal_check_str_def wal_read_string_def
  by (rule checks_same [OF keeps_read_bytes]) (simp add: check_intro split: option.split)

lemma forget_ret: "forget (rbind c (\<lambda>_. rret x) r) = forget (c r)"
  by (cases "c r") (auto simp: rbind_def forget_def)

lemma checks_ret_left: "checks c m \<Longrightarrow> checks (rbind c (\<lambda>_. rret x)) m"
  by (simp add: checks_def forget_ret)

lemma checks_string_vec [check_intro]: "checks wal_check_string_vec wal_read_string_vec"
  unfolding wal_check_string_vec_def wal_read_string_vec_def
  by (rule checks_same [OF keeps_read_len_bounded], rule checks_ret_left) (intro check_intro)

lemma checks_nested:
  assumes "checks c m"
  shows "checks (rbind wal_enter (\<lambda>_. rbind c (\<lambda>_. leave)))
    (rbind wal_enter (\<lambda>_. rbind m (\<lambda>x. rbind leave (\<lambda>_. rret (g x)))))"
  by (rule checks_same [OF keeps_enter], rule checks_rbind [OF assms], rule checks_drop_ret,
      rule checks_refl, rule keeps_leave)

lemma checks_zone:
  "checks (rbind wal_read_bytes (\<lambda>bs. case from_utf8 bs of
       None \<Rightarrow> rfail (wal_fail InvalidUtf8)
     | Some name \<Rightarrow> (case lk name of
         None \<Rightarrow> rfail (wal_fail (UnknownTimeZone name)) | Some _ \<Rightarrow> rret ())))
   (rbind wal_read_string (\<lambda>name. case lk name of
       None \<Rightarrow> rfail (wal_fail (UnknownTimeZone name)) | Some z \<Rightarrow> rret (Some z)))"
  unfolding wal_read_string_def rbind_assoc
  by (rule checks_same [OF keeps_read_bytes])
    (auto simp: check_intro split: option.split)

lemma checks_date_time:
  "checks (rbind (wal_read_exact 32) (\<lambda>_.
       if tag = VALUE_ZONED_DATE_TIME
       then rbind wal_read_bytes (\<lambda>bs. case from_utf8 bs of
           None \<Rightarrow> rfail (wal_fail InvalidUtf8)
         | Some name \<Rightarrow> (case lk name of
             None \<Rightarrow> rfail (wal_fail (UnknownTimeZone name)) | Some _ \<Rightarrow> rret ()))
       else rret ()))
     (wal_read_date_time lk tag)"
proof -
  have split: "wal_read_exact 32 = wal_read_exact (4 + (4 + (4 + (4 + (4 + (4 + (4 + 4)))))))" by simp
  show ?thesis unfolding wal_read_date_time_def split
    by (rule checks_skip [OF checks_fields(1)], rule checks_skip [OF checks_fields(2)],
        rule checks_skip [OF checks_fields(2)], rule checks_skip [OF checks_fields(2)],
        rule checks_skip [OF checks_fields(2)], rule checks_skip [OF checks_fields(2)],
        rule checks_skip [OF checks_fields(2)], rule checks_rbind [OF checks_fields(1)],
        rule checks_drop_ret, rule checks_if, rule checks_zone, rule checks_rret) simp_all
qed

lemma checks_value [check_intro]: "checks (wal_check_value lk fuel) (wal_read_value lk fuel)"
proof (induction fuel)
  case 0
  show ?case unfolding wal_check_value.simps wal_read_value.simps by (rule checks_rfail)
next
  case (Suc fuel)
  have elems: "checks (rbind (wal_read_len_bounded l) (\<lambda>len. rmany len (wal_check_value lk fuel)))
      (rbind (wal_read_len_bounded l) (\<lambda>len. rmany len (wal_read_value lk fuel)))" for l
    by (rule checks_same [OF keeps_read_len_bounded]) (intro check_intro Suc)
  have entries: "checks (rbind (wal_read_len_bounded l) (\<lambda>len. rmany len
        (rbind wal_check_str (\<lambda>_. wal_check_value lk fuel))))
      (rbind (wal_read_len_bounded l) (\<lambda>len. rmany len
        (rbind wal_read_string (\<lambda>key. rmap (Pair key) (wal_read_value lk fuel)))))" for l
    by (rule checks_same [OF keeps_read_len_bounded], rule checks_rmany, rule checks_rbind [OF checks_str],
        rule checks_drop, rule Suc)
  show ?case unfolding wal_check_value.simps wal_read_value.simps
  proof (rule checks_same [OF keeps_prims(1)], intro checks_if)
    fix tag
    show "checks (if tag = VALUE_STRING then wal_check_str
        else if tag = VALUE_DATE_TIME \<or> tag = VALUE_ZONED_DATE_TIME then
          rbind (wal_read_exact 32) (\<lambda>_. if tag = VALUE_ZONED_DATE_TIME
            then rbind wal_read_bytes (\<lambda>bs. case from_utf8 bs of
                None \<Rightarrow> rfail (wal_fail InvalidUtf8)
              | Some name \<Rightarrow> (case lk name of
                  None \<Rightarrow> rfail (wal_fail (UnknownTimeZone name)) | Some _ \<Rightarrow> rret ()))
            else rret ())
        else rmap (\<lambda>_. ()) (wal_read_scalar lk tag)) (wal_read_scalar lk tag)"
    proof (cases "tag = VALUE_STRING \<or> tag = VALUE_DATE_TIME \<or> tag = VALUE_ZONED_DATE_TIME")
      case True
      then show ?thesis
        using checks_drop [OF checks_str, of PvString]
          checks_drop [OF checks_date_time [of tag lk], of PvDateTime]
        by (auto simp: wal_read_scalar_def)
    next
      case False
      then show ?thesis by (simp add: rmap_def checks_ret_left checks_refl check_intro)
    qed
  qed (rule checks_nested elems entries)+
qed

lemma keeps_read_value [check_intro]: "keeps (wal_read_value lk fuel)"
  using checks_value by (auto simp: checks_def)

lemma keeps_read_string_vec [check_intro]: "keeps wal_read_string_vec"
  using checks_string_vec by (auto simp: checks_def)

lemma checks_properties [check_intro]:
  "checks (wal_check_properties lk fuel) (wal_read_properties lk fuel)"
  unfolding wal_check_properties_def wal_read_properties_def
  by (rule checks_drop, rule checks_same [OF keeps_read_len_bounded], rule checks_ret_left, rule checks_rmany,
      rule checks_rbind [OF checks_str], rule checks_drop, rule checks_value)

lemma keeps_read_event: "keeps (wal_read_event lk fuel)"
proof -
  have "keeps (wal_read_properties lk fuel)" using checks_properties by (auto simp: checks_def)
  then show ?thesis unfolding wal_read_event_def wal_read_schema_def by (intro check_intro)
qed

text \<open>Rereading from the tag is reading the event.\<close>

lemma reread:
  assumes "wal_read_u8 r = Inr (tag, r')"
  shows "rd_offset r' - 1 = rd_offset r" and "r'\<lparr>rd_offset := rd_offset r' - 1\<rparr> = r"
  using assms by (auto simp: wal_read_u8_def wal_read_exact_def checked_add_def split: if_splits)

lemma checks_use: "checks c m \<Longrightarrow> in_bounds r \<Longrightarrow> forget (c r) = forget (m r)"
  by (simp add: checks_def)

lemma keeps_use: "keeps m \<Longrightarrow> in_bounds r \<Longrightarrow> m r = Inr (x, r') \<Longrightarrow> in_bounds r'"
  by (auto simp: keeps_def)

lemma checks_create_node:
  "checks (rbind wal_read_u64 (\<lambda>_. rbind wal_check_string_vec (\<lambda>_. wal_check_properties lk fuel)))
    (rbind wal_read_u64 (\<lambda>i. rbind wal_read_string_vec (\<lambda>labels.
       rmap (f i labels) (wal_read_properties lk fuel))))"
  by (rule checks_same [OF keeps_prims(7)], rule checks_rbind [OF checks_string_vec],
      rule checks_drop, rule checks_properties)

lemma checks_create_relationship:
  "checks (rbind (wal_read_exact 24) (\<lambda>_. rbind wal_check_str (\<lambda>_. wal_check_properties lk fuel)))
    (rbind wal_read_u64 (\<lambda>i. rbind wal_read_u64 (\<lambda>src. rbind wal_read_u64 (\<lambda>dst.
       rbind wal_read_string (\<lambda>rel_type. rmap (f i src dst rel_type) (wal_read_properties lk fuel))))))"
proof -
  have "wal_read_exact 24 = wal_read_exact (8 + (8 + 8))" by simp
  then show ?thesis
    by (simp only:) (rule checks_skip [OF checks_fields(3)], rule checks_skip [OF checks_fields(3)],
      rule checks_rbind [OF checks_fields(3)], rule checks_rbind [OF checks_str], rule checks_drop,
      rule checks_properties, simp_all)
qed

lemma checks_set_property:
  "checks (rbind wal_read_u64 (\<lambda>_. rbind wal_check_str (\<lambda>_. wal_check_value lk fuel)))
    (rbind wal_read_u64 (\<lambda>i. rbind wal_read_string (\<lambda>key. rmap (f i key) (wal_read_value lk fuel))))"
  by (rule checks_same [OF keeps_prims(7)], rule checks_rbind [OF checks_str], rule checks_drop,
      rule checks_value)

lemma checks_named:
  "checks (rbind wal_read_u64 (\<lambda>_. wal_check_str))
    (rbind wal_read_u64 (\<lambda>i. rmap (f i) wal_read_string))"
  by (rule checks_same [OF keeps_prims(7)], rule checks_drop, rule checks_str)

lemma checks_id: "checks (rmap (\<lambda>_. ()) wal_read_u64) (rmap f wal_read_u64)"
  by (intro check_intro checks_refl)

lemma checks_event: "checks (wal_check_event lk fuel) (wal_read_event lk fuel)"
  unfolding checks_def
proof (intro conjI allI impI)
  show "keeps (wal_read_event lk fuel)" by (rule keeps_read_event)
  fix r :: cursor assume r: "in_bounds r"
  show "forget (wal_check_event lk fuel r) = forget (wal_read_event lk fuel r)"
  proof (cases "wal_read_u8 r")
    case (Inl e)
    then show ?thesis by (simp add: wal_check_event_def wal_read_event_def rbind_Inl)
  next
    case (Inr p)
    obtain tag r' where p: "p = (tag, r')" by (cases p)
    have r': "in_bounds r'" using keeps_use [OF keeps_prims(1) r] Inr p by simp
    note use = checks_use [OF _ r']
    note defs = wal_check_event_def wal_read_event_def
    consider "tag = TAG_CREATE_NODE" | "tag = TAG_CREATE_RELATIONSHIP"
      | "tag \<in> {TAG_SET_NODE_PROPERTY, TAG_SET_RELATIONSHIP_PROPERTY}"
      | "tag \<in> {TAG_REMOVE_NODE_PROPERTY, TAG_ADD_NODE_LABEL, TAG_REMOVE_NODE_LABEL,
          TAG_REMOVE_RELATIONSHIP_PROPERTY}"
      | "tag \<in> {TAG_DELETE_RELATIONSHIP, TAG_DELETE_NODE, TAG_DETACH_DELETE_NODE}"
      | "tag = TAG_CLEAR"
      | "tag \<notin> {TAG_CREATE_NODE, TAG_CREATE_RELATIONSHIP, TAG_SET_NODE_PROPERTY,
          TAG_SET_RELATIONSHIP_PROPERTY, TAG_REMOVE_NODE_PROPERTY, TAG_ADD_NODE_LABEL,
          TAG_REMOVE_NODE_LABEL, TAG_REMOVE_RELATIONSHIP_PROPERTY, TAG_DELETE_RELATIONSHIP,
          TAG_DELETE_NODE, TAG_DETACH_DELETE_NODE, TAG_CLEAR}"
      by auto
    then show ?thesis
    proof cases
      case 1
      with Inr p use [OF checks_create_node] show ?thesis by (simp add: defs rbind_Inr)
    next
      case 2
      with Inr p use [OF checks_create_relationship] show ?thesis by (simp add: defs rbind_Inr)
    next
      case 3
      with Inr p use [OF checks_set_property] show ?thesis by (auto simp: defs rbind_Inr)
    next
      case 4
      with Inr p use [OF checks_named] show ?thesis by (auto simp: defs rbind_Inr)
    next
      case 5
      with Inr p use [OF checks_id] show ?thesis by (auto simp: defs rbind_Inr)
    next
      case 6
      with Inr p show ?thesis by (simp add: defs rbind_Inr rret_def)
    next
      case 7
      then have "wal_check_event lk fuel r = rmap (\<lambda>_. ()) (wal_read_event lk fuel) r"
        using Inr p reread [of r tag r'] by (simp add: wal_check_event_def rbind_Inr)
      then show ?thesis by (simp add: rmap_def forget_ret)
    qed
  qed
qed

end
