(* ===== verification/Wal_Payload.thy ===== *)
theory Wal_Payload
  imports Wal_Check
begin

text \<open>
  What the WAL relies on of its payload codec: batches read back as written, the sizes announced
  before encoding are the sizes encoded, and a batch that \<open>validate_events\<close> accepts is replayed
  without a decoding error.
\<close>

section \<open>Payloads\<close>

lemma strip_magic_append [simp]: "strip_magic (PAYLOAD_MAGIC @ bs) = Some bs"
  by (simp add: strip_magic_def)

lemma run_payload_parses:
  assumes m: "wal.parses MAX_VALUE_DEPTH (m (Suc (length bs))) bs x" and len: "length bs \<le> isize_max"
  shows "run_payload m (PAYLOAD_MAGIC @ bs) = Inr x"
proof -
  have "m (Suc (length bs)) (payload_reader_new bs) = Inr (x, advance (length bs) (payload_reader_new bs))"
    by (rule wal.parses_run [OF m]) (simp_all add: payload_reader_new_def len)
  then show ?thesis
    by (simp add: run_payload_def rbind_Inr wal_finish_def payload_reader_new_def advance_def)
qed

lemma encode_event_into_Inr [simp]:
  "encode_event_into e = Inr bs \<longleftrightarrow> (\<exists>b. wal_write_event e = Inr b \<and> bs = PAYLOAD_MAGIC @ b)"
  by (auto simp: encode_event_into_def)

lemma encode_events_into_Inr [simp]:
  "encode_events_into es = Inr bs \<longleftrightarrow> (\<exists>b. wseq (wal_write_len (length es) # map wal_write_event es)
     = Inr b \<and> bs = PAYLOAD_MAGIC @ b)"
  unfolding encode_events_into_def by auto

text \<open>The events of a small transaction.\<close>

definition sample_events :: "mutation_event list" where
  "sample_events = [CreateNode 1 [''Person''] [(''age'', PvInt 41), (''tags'', PvList [PvNull])],
     CreateRelationship 1 1 1 ''KNOWS'' [], SetNodeProperty 1 ''age'' (PvInt 42), AddNodeLabel 1 ''X'',
     DropIndex ''by_age'' True, DeleteRelationship 1]"

lemma wf_sample_events: "list_all (wf_event lk) sample_events"
  by (simp add: sample_events_def wf_properties_def wf_str_def as_bytes_def byte_of_char_def)

lemma sample_events_written: "\<exists>bs. encode_events_into sample_events = Inr bs \<and> length bs \<le> 1000"
  by (simp add: sample_events_def encode_events_into_def wal_write_properties_def wal_write_string_vec_def
      wal_write_value_def wal_enter_container_def MAX_VALUE_DEPTH_def MAX_VALUE_NESTING_def usize_limit_def
      PAYLOAD_MAGIC_def)

lemma decode_written_event:
  assumes "wf_event lk e" and "encode_event_into e = Inr bs" and "length bs \<le> isize_max"
  shows "decode_event lk bs = Inr e"
proof -
  obtain b where b: "wal_write_event e = Inr b" and bs: "bs = PAYLOAD_MAGIC @ b" using assms by auto
  have "length b \<le> isize_max" using assms bs by simp
  then show ?thesis unfolding decode_event_def bs
    using wal_parses_event [OF b assms(1), of "Suc (length b)"] by (intro run_payload_parses) simp_all
qed

text \<open>A mutation event encodes to a payload that decodes to the same event.\<close>

theorem wal_event_roundtrip:
  assumes "wf_event lk e" and "encode_event_into e = Inr bs" and "length bs \<le> isize_max"
  shows "decode_event lk bs = Inr e"
  by (rule decode_written_event [OF assms])

theorem wal_event_roundtrip_witness:
  "\<exists>bs. encode_event_into (DropIndex ''by_age'' True) = Inr bs \<and>
     decode_event (\<lambda>_. None) bs = Inr (DropIndex ''by_age'' True)"
proof -
  obtain bs where bs: "encode_event_into (DropIndex ''by_age'' True) = Inr bs" and "length bs \<le> 1000"
    by (force simp: usize_limit_def PAYLOAD_MAGIC_def)
  then have "decode_event (\<lambda>_. None) bs = Inr (DropIndex ''by_age'' True)"
    by (intro wal_event_roundtrip [OF _ bs])
      (simp_all add: wf_str_def as_bytes_def byte_of_char_def isize_max_def)
  with bs show ?thesis by blast
qed

lemma wal_parses_events:
  assumes w: "wseq (wal_write_len (length es) # map wal_write_event es) = Inr b"
    and wf: "list_all (wf_event lk) es" and len: "length b \<le> isize_max"
  shows "wal.parses MAX_VALUE_DEPTH (rbind (wal_read_len_bounded ''WAL event'')
     (\<lambda>len. rmany len (wal_read_event lk (Suc (length b))))) b es"
proof (rule wal_parses_counted_written [OF w])
  fix e c assume e: "e \<in> set es" "wal_write_event e = Inr c" "length c \<le> length b"
  have "wf_event lk e" using wf e by (auto simp: list_all_iff)
  then show "wal.parses MAX_VALUE_DEPTH (wal_read_event lk (Suc (length b))) c e"
    using wal_parses_event [of e c lk "Suc (length b)"] e len by simp
qed (rule wal_write_event_nonempty)

lemma decode_written_events:
  assumes "list_all (wf_event lk) es" and "encode_events_into es = Inr bs" and "length bs \<le> isize_max"
  shows "decode_events lk bs = Inr es"
proof -
  obtain b where b: "wseq (wal_write_len (length es) # map wal_write_event es) = Inr b"
    and bs: "bs = PAYLOAD_MAGIC @ b" using assms(2) unfolding encode_events_into_Inr by blast
  have len: "length b \<le> isize_max" using assms bs by simp
  show ?thesis unfolding decode_events_def bs
    by (rule run_payload_parses) (rule wal_parses_events [OF b assms(1) len], rule len)
qed

text \<open>C28. A batch of events encodes to one payload that decodes to the same list of events, in order.\<close>

theorem wal_batch_roundtrip:
  assumes "list_all (wf_event lk) es" and "encode_events_into es = Inr bs" and "length bs \<le> isize_max"
  shows "decode_events lk bs = Inr es"
  by (rule decode_written_events [OF assms])

theorem wal_batch_roundtrip_witness:
  "\<exists>bs. encode_events_into sample_events = Inr bs \<and>
     decode_events (\<lambda>_. None) bs = Inr sample_events"
proof -
  obtain bs where bs: "encode_events_into sample_events = Inr bs" and "length bs \<le> 1000"
    using sample_events_written by blast
  then have "decode_events (\<lambda>_. None) bs = Inr sample_events"
    by (intro wal_batch_roundtrip [OF wf_sample_events bs]) (simp add: isize_max_def)
  with bs show ?thesis by blast
qed

section \<open>Announced sizes\<close>

lemma magic_small: "length PAYLOAD_MAGIC < usize_limit"
  by (simp add: usize_limit_def PAYLOAD_MAGIC_def)

lemma sizes_from:
  assumes "sizes w m" and "s < usize_limit"
  shows "m s = Inr n \<longleftrightarrow> (\<exists>bs. w = Inr bs \<and> n = s + length bs \<and> n < usize_limit)"
  using assms by (cases w) (auto simp: sizes_def)

lemma announced_size:
  "encoded_events_len es = Inr n \<longleftrightarrow>
     (\<exists>bs. encode_events_into es = Inr bs \<and> length bs = n \<and> n < usize_limit)"
proof -
  have "sizes (wseq (wal_write_len (length es) # map wal_write_event es))
      (sseq (size_len (length es) # map size_event es))"
    by (intro sizes_Cons sizes_len sizes_map sizes_event)
  from sizes_from [OF this magic_small, of n] show ?thesis
    unfolding encoded_events_len_def encode_events_into_Inr by fastforce
qed

text \<open>
  C32. The size of a batch is announced exactly when the batch encodes into an addressable payload,
  and then it is the payload's length.
\<close>

theorem wal_announced_size:
  "encoded_events_len es = Inr n \<longleftrightarrow>
     (\<exists>bs. encode_events_into es = Inr bs \<and> length bs = n \<and> n < usize_limit)"
  by (rule announced_size)

lemma sizes_events_sum:
  assumes "s < usize_limit"
  shows "sseq (map size_event es) s = Inr n \<longleftrightarrow>
    (\<exists>ns. map encoded_batch_event_len es = map Inr ns \<and> n = s + sum_list ns \<and> n < usize_limit)"
  using assms
proof (induction es arbitrary: s)
  case Nil
  then show ?case by auto
next
  case (Cons e es)
  have zero: "0 < usize_limit" by (simp add: usize_limit_def)
  show ?case
  proof (cases "wal_write_event e")
    case (Inl err)
    then show ?thesis
      using sizes_from [OF sizes_event Cons.prems, of e] sizes_from [OF sizes_event zero, of e]
      by (auto simp: encoded_batch_event_len_def)
  next
    case (Inr bs)
    let ?k = "length bs"
    have at: "size_event e s' = Inr t \<longleftrightarrow> t = s' + ?k \<and> t < usize_limit" if "s' < usize_limit" for s' t
      using sizes_from [OF sizes_event that, of e t] Inr by auto
    have "sseq (map size_event (e # es)) s = Inr n \<longleftrightarrow>
        s + ?k < usize_limit \<and> sseq (map size_event es) (s + ?k) = Inr n"
      using at [OF Cons.prems] by auto
    also have "\<dots> \<longleftrightarrow> (\<exists>ns. map encoded_batch_event_len es = map Inr ns \<and>
        n = s + ?k + sum_list ns \<and> n < usize_limit)"
      using Cons.IH [of "s + ?k"] by (metis add_lessD1)
    also have "\<dots> \<longleftrightarrow> (\<exists>ns. map encoded_batch_event_len (e # es) = map Inr ns \<and>
        n = s + sum_list ns \<and> n < usize_limit)"
    proof
      assume "\<exists>ns. map encoded_batch_event_len es = map Inr ns \<and>
        n = s + ?k + sum_list ns \<and> n < usize_limit"
      then obtain ns where "map encoded_batch_event_len es = map Inr ns"
        "n = s + ?k + sum_list ns" "n < usize_limit" by blast
      then show "\<exists>ns. map encoded_batch_event_len (e # es) = map Inr ns \<and>
          n = s + sum_list ns \<and> n < usize_limit"
        using at [OF zero, of ?k] by (intro exI [of _ "?k # ns"]) (simp add: encoded_batch_event_len_def)
    next
      assume "\<exists>ns. map encoded_batch_event_len (e # es) = map Inr ns \<and>
          n = s + sum_list ns \<and> n < usize_limit"
      then obtain k ns where "encoded_batch_event_len e = Inr k"
        "map encoded_batch_event_len es = map Inr ns" "n = s + (k + sum_list ns)" "n < usize_limit"
        by (auto simp: Cons_eq_map_conv)
      then show "\<exists>ns. map encoded_batch_event_len es = map Inr ns \<and>
          n = s + ?k + sum_list ns \<and> n < usize_limit"
        using at [OF zero] by (auto simp: encoded_batch_event_len_def)
    qed
    finally show ?thesis .
  qed
qed

text \<open>
  The recorder's running account of a batch, one \<open>encoded_batch_event_len\<close> per event, gives
  through \<open>batch_payload_len\<close> the same size as sizing the whole batch, and fails when that does.
\<close>

theorem wal_batch_accounting:
  "encoded_events_len es = Inr n \<longleftrightarrow>
     (\<exists>ns. map encoded_batch_event_len es = map Inr ns \<and>
        batch_payload_len (length es) (sum_list ns) = Inr n)"
proof -
  have len: "size_len c s = Inr t \<longleftrightarrow> c < usize_limit \<and> t = s + 8 \<and> t < usize_limit" for c s t
    by (auto simp: size_len_def size_u64_def add_size_def checked_add_def usize_limit_def)
  have add: "add_size k s = Inr t \<longleftrightarrow> t = s + k \<and> t < usize_limit" for k s t
    by (auto simp: add_size_def checked_add_def)
  show ?thesis
    unfolding encoded_events_len_def batch_payload_len_def sseq.simps ebind_eq_Inr len add
    using sizes_events_sum by auto
qed

section \<open>Validation before replay\<close>

lemma forget_cases:
  assumes "forget (c r) = forget (m r)"
  obtains e where "c r = Inl e" "m r = Inl e" | x y r' where "c r = Inr (x, r')" "m r = Inr (y, r')"
  using assms by (cases "c r"; cases "m r") auto

lemma in_bounds_new: "length bs \<le> isize_max \<Longrightarrow> in_bounds (payload_reader_new bs)"
  by (simp add: in_bounds_def payload_reader_new_def)

lemma checks_events:
  "checks (rbind (rmany n (wal_check_event lk fuel)) (\<lambda>_. rret n)) (rmany n (wal_read_event lk fuel))"
  by (intro checks_ret_left checks_rmany checks_event)

lemma checks_run:
  assumes c: "checks c m" and r: "in_bounds r"
    and sz: "\<And>x y r' r''. c r = Inr (x, r') \<Longrightarrow> m r = Inr (y, r'') \<Longrightarrow> x = g y"
  shows "map_sum id fst (rbind c (\<lambda>x. rbind wal_finish (\<lambda>_. rret x)) r) =
    map_sum id g (map_sum id fst (rbind m (\<lambda>x. rbind wal_finish (\<lambda>_. rret x)) r))"
  using checks_use [OF c r]
proof (cases rule: forget_cases)
  case 1
  then show ?thesis by (simp add: rbind_Inl)
next
  case (2 x y r')
  then show ?thesis using sz [OF 2] by (auto simp: rbind_Inr wal_finish_def rbind_def)
qed

lemma checks_counted:
  "checks (rbind (wal_read_len_bounded l) (\<lambda>len. rbind (rmany len (wal_check_event lk fuel)) (\<lambda>_. rret len)))
    (rbind (wal_read_len_bounded l) (\<lambda>len. rmany len (wal_read_event lk fuel)))"
  by (rule checks_same [OF keeps_read_len_bounded]) (rule checks_events)

lemma validate_events_decode:
  assumes "length bs \<le> isize_max"
  shows "validate_events lk bs = map_sum id length (decode_events lk bs)"
proof (cases "strip_magic bs")
  case None
  then show ?thesis by (simp add: validate_events_def decode_events_def run_payload_def)
next
  case (Some payload)
  then have len: "length payload \<le> isize_max" using assms by (auto simp: strip_magic_def split: if_splits)
  show ?thesis
    unfolding validate_events_def decode_events_def run_payload_def Some option.case
    by (rule checks_run [OF checks_counted in_bounds_new [OF len]])
      (auto dest!: rmany_length)
qed

text \<open>
  C29. \<open>validate_events\<close>, which builds nothing, accepts exactly the payloads that \<open>decode_events\<close>
  accepts, rejects the others with the same error, and counts the events.
\<close>

theorem validate_decides_decode:
  assumes "length bs \<le> isize_max"
  shows "validate_events lk bs = map_sum id length (decode_events lk bs)"
  by (rule validate_events_decode [OF assms])

theorem validate_decides_decode_witness:
  "validate_events (\<lambda>_. None) PAYLOAD_MAGIC =
     map_sum id length (decode_events (\<lambda>_. None) PAYLOAD_MAGIC)"
  by (rule validate_decides_decode) (simp add: PAYLOAD_MAGIC_def isize_max_def)

text \<open>The events applied in order, up to the callback's first error.\<close>

fun apply_each :: "(mutation_event \<Rightarrow> 's \<Rightarrow> 'e + 's) \<Rightarrow> mutation_event list \<Rightarrow> 's \<Rightarrow> 'e + 's" where
  "apply_each f [] s = Inr s"
| "apply_each f (e # es) s = ebind (f e s) (apply_each f es)"

lemma for_each_loop_read:
  assumes "rmany n m r = Inr (es, r')"
  shows "for_each_loop n m conv f (s, r) = map_sum id (\<lambda>s. (s, r')) (apply_each f es s)"
  using assms
proof (induction n arbitrary: r es s)
  case (Suc n)
  then obtain e es' r1 where e: "m r = Inr (e, r1)" "rmany n m r1 = Inr (es', r')" "es = e # es'"
    by auto
  show ?case using e Suc.IH [OF e(2)] by (cases "f e s") simp_all
qed simp

lemma for_each_decoded:
  assumes "decode_events lk bs = Inr es"
  shows "for_each_event lk conv bs f s = apply_each f es s"
proof -
  from assms obtain payload len r r' where payload: "strip_magic bs = Some payload"
    and len: "wal_read_len_bounded ''WAL event'' (payload_reader_new payload) = Inr (len, r)"
    and es: "rmany len (wal_read_event lk (Suc (length payload))) r = Inr (es, r')"
    and fin: "wal_finish r' = Inr ((), r')"
    by (auto simp: decode_events_def run_payload_def wal_finish_def rbind_def
        split: option.splits sum.splits if_splits)
  show ?thesis
    unfolding for_each_event_def payload option.case len sum.case prod.case for_each_loop_read [OF es]
    by (cases "apply_each f es s") (simp_all add: fin)
qed

text \<open>
  C23. Replaying a validated payload event by event never fails to decode: whatever the callback,
  \<open>for_each_event\<close> applies exactly the counted events, in the order they were written, and stops
  only at an error of the callback itself.
\<close>

theorem validated_batch_replays:
  assumes "length bs \<le> isize_max" and "validate_events lk bs = Inr n"
  shows "\<exists>es. decode_events lk bs = Inr es \<and> length es = n \<and>
    (\<forall>conv f s. for_each_event lk conv bs f s = apply_each f es s)"
proof -
  obtain es where "decode_events lk bs = Inr es" "length es = n"
    using validate_events_decode [OF assms(1), of lk] assms(2)
    by (cases "decode_events lk bs") auto
  then show ?thesis by (intro exI conjI allI for_each_decoded)
qed

theorem validated_batch_replays_witness:
  "\<exists>bs. encode_events_into sample_events = Inr bs \<and>
    (\<exists>es. decode_events (\<lambda>_. None) bs = Inr es \<and> length es = 6 \<and>
      (\<forall>conv f (s :: nat). for_each_event (\<lambda>_. None) conv bs f s = (apply_each f es s :: unit + nat)))"
proof -
  obtain bs where bs: "encode_events_into sample_events = Inr bs" and "length bs \<le> 1000"
    using sample_events_written by blast
  then have len: "length bs \<le> isize_max" by (simp add: isize_max_def)
  have n: "validate_events (\<lambda>_. None) bs = Inr 6"
    unfolding validate_events_decode [OF len] decode_written_events [OF wf_sample_events bs len]
    by (simp add: sample_events_def)
  show ?thesis by (rule exI, rule conjI, rule bs, rule validated_batch_replays [OF len n])
qed

text \<open>
  The WAL and the store write a property value as the same bytes: on values that read back, the
  WAL's writer is the store's, with the errors of the WAL.
\<close>

theorem wal_value_bytes:
  assumes "wf_value lk v"
  shows "wal_write_value v = as_wal (write_property_value v 0 MAX_VALUE_NESTING)"
  unfolding wal_write_value_def by (rule wal_write_value_as [OF assms])

theorem wal_value_bytes_witness:
  "wal_write_value sample_value = as_wal (write_property_value sample_value 0 MAX_VALUE_NESTING)"
  by (rule wal_value_bytes [OF wf_sample])

end
