(* ===== verification/Wal_Record.thy ===== *)
theory Wal_Record
  imports Wal_Payload
begin

text \<open>
  Record framing (\<open>crates/lora-wal/src/record.rs\<close>). The checksum is the third-party \<open>crc32fast\<close>: every
  definition takes it as an argument \<open>crc\<close>, of which nothing is assumed. A reader is the bytes still
  to be read, so reads never fail with an I/O error, and allocation does not fail.
\<close>

section \<open>Records\<close>

definition RECORD_HEADER_LEN :: nat where
  "RECORD_HEADER_LEN = 4 + 1 + 8 + 8"

definition RECORD_TRAILER_LEN :: nat where
  "RECORD_TRAILER_LEN = 4"

definition MAX_RECORD_LEN :: nat where
  "MAX_RECORD_LEN = 256 * 1024 * 1024"

datatype record_kind = KMutation | KTxBegin | KTxCommit | KTxAbort | KCheckpoint | KMutationBatch

definition kind_byte :: "record_kind \<Rightarrow> u8" where
  "kind_byte k = (case k of KMutation \<Rightarrow> 1 | KTxBegin \<Rightarrow> 2 | KTxCommit \<Rightarrow> 3 | KTxAbort \<Rightarrow> 4
     | KCheckpoint \<Rightarrow> 5 | KMutationBatch \<Rightarrow> 6)"

definition kind_from_byte :: "u8 \<Rightarrow> wal_error + record_kind" where
  "kind_from_byte b =
     (if b = 1 then Inr KMutation else if b = 2 then Inr KTxBegin else if b = 3 then Inr KTxCommit
      else if b = 4 then Inr KTxAbort else if b = 5 then Inr KCheckpoint
      else if b = 6 then Inr KMutationBatch else Inl (UnknownKind b))"

datatype wal_record =
    Mutation lsn lsn mutation_event
  | MutationBatch lsn lsn "mutation_event list"
  | TxBegin lsn
  | TxCommit lsn lsn
  | TxAbort lsn lsn
  | Checkpoint lsn lsn

fun record_lsn :: "wal_record \<Rightarrow> lsn" where
  "record_lsn (Mutation l t e) = l"
| "record_lsn (MutationBatch l t es) = l"
| "record_lsn (TxBegin l) = l"
| "record_lsn (TxCommit l t) = l"
| "record_lsn (TxAbort l t) = l"
| "record_lsn (Checkpoint l s) = l"

fun record_kind_of :: "wal_record \<Rightarrow> record_kind" where
  "record_kind_of (Mutation l t e) = KMutation"
| "record_kind_of (MutationBatch l t es) = KMutationBatch"
| "record_kind_of (TxBegin l) = KTxBegin"
| "record_kind_of (TxCommit l t) = KTxCommit"
| "record_kind_of (TxAbort l t) = KTxAbort"
| "record_kind_of (Checkpoint l s) = KCheckpoint"

fun record_tx_begin_lsn :: "wal_record \<Rightarrow> lsn" where
  "record_tx_begin_lsn (Mutation l t e) = t"
| "record_tx_begin_lsn (MutationBatch l t es) = t"
| "record_tx_begin_lsn (TxBegin l) = 0"
| "record_tx_begin_lsn (TxCommit l t) = t"
| "record_tx_begin_lsn (TxAbort l t) = t"
| "record_tx_begin_lsn (Checkpoint l s) = s"

fun encoded_payload_len :: "wal_record \<Rightarrow> wal_error + nat" where
  "encoded_payload_len (Mutation l t event) = encoded_event_len event"
| "encoded_payload_len (MutationBatch l t events) = encoded_events_len events"
| "encoded_payload_len _ = Inr 0"

fun encode_payload_into :: "wal_record \<Rightarrow> wal_error + u8 list" where
  "encode_payload_into (Mutation l t event) = encode_event_into event"
| "encode_payload_into (MutationBatch l t events) = encode_events_into events"
| "encode_payload_into _ = Inr []"

section \<open>Writing a frame\<close>

definition framed_len :: "nat \<Rightarrow> wal_error + nat" where
  "framed_len payload_len =
     (case Option.bind (checked_add RECORD_HEADER_LEN payload_len)
         (\<lambda>n. checked_add n RECORD_TRAILER_LEN) of
        None \<Rightarrow> Inl (WalEncode WalRecordTooLarge)
      | Some framed \<Rightarrow> if framed > MAX_RECORD_LEN then Inl (WalEncode WalRecordTooLarge) else Inr framed)"

text \<open>
  \<open>encode_frame\<close> appends to its buffer, or leaves it as it was and fails: here it returns the bytes
  appended. \<open>payload\<close> is the outcome of the callback.
\<close>

definition frame_head :: "nat \<Rightarrow> record_kind \<Rightarrow> lsn \<Rightarrow> lsn \<Rightarrow> u8 list" where
  "frame_head framed kind lsn tx_begin_lsn =
     to_le_bytes (word_of_nat framed :: u32) @ [kind_byte kind] @ to_le_bytes lsn @ to_le_bytes tx_begin_lsn"

definition encode_frame :: "(u8 list \<Rightarrow> u32) \<Rightarrow> record_kind \<Rightarrow> lsn \<Rightarrow> lsn \<Rightarrow> nat \<Rightarrow>
    wal_error + u8 list \<Rightarrow> wal_error + u8 list" where
  "encode_frame crc kind lsn tx_begin_lsn payload_len payload =
     ebind (framed_len payload_len) (\<lambda>framed.
       if framed \<ge> 2 ^ 32 then Inl (WalEncode WalRecordTooLarge)
       else ebind payload (\<lambda>p.
         let body = frame_head framed kind lsn tx_begin_lsn @ p in
         if length body \<noteq> framed - RECORD_TRAILER_LEN then Inl (WalEncode WalSizeDisagrees)
         else Inr (body @ to_le_bytes (crc body))))"

definition record_encode_into :: "(u8 list \<Rightarrow> u32) \<Rightarrow> wal_record \<Rightarrow> wal_error + u8 list" where
  "record_encode_into crc r = ebind (encoded_payload_len r) (\<lambda>payload_len.
     encode_frame crc (record_kind_of r) (record_lsn r) (record_tx_begin_lsn r) payload_len
       (encode_payload_into r))"

section \<open>Reading a frame\<close>

datatype read_outcome = ReadFull "u8 list" "u8 list" | ReadPartial nat | ReadEof

definition read_exact_or_eof :: "nat \<Rightarrow> u8 list \<Rightarrow> read_outcome" where
  "read_exact_or_eof n bs =
     (if n \<le> length bs then ReadFull (take n bs) (drop n bs)
      else if bs = [] then ReadEof else ReadPartial (length bs))"

definition fixed_bytes :: "nat \<Rightarrow> u8 list \<Rightarrow> wal_error + u8 list" where
  "fixed_bytes n bs = (if length bs \<noteq> n then Inl (WalDecode (WalFieldLength n (length bs))) else Inr bs)"

definition le_u32 :: "u8 list \<Rightarrow> wal_error + u32" where
  "le_u32 bs = map_sum id from_le_bytes (fixed_bytes 4 bs)"

definition le_u64 :: "u8 list \<Rightarrow> wal_error + u64" where
  "le_u64 bs = map_sum id from_le_bytes (fixed_bytes 8 bs)"

record raw_record =
  raw_kind :: u8
  raw_lsn :: lsn
  raw_tx_begin_lsn :: lsn
  raw_rest :: "u8 list"

text \<open>Bytes \<open>[a..b)\<close> of a slice.\<close>

definition byte_range :: "nat \<Rightarrow> nat \<Rightarrow> u8 list \<Rightarrow> u8 list" where
  "byte_range a b bs = take (b - a) (drop a bs)"

definition raw_record_read ::
  "(u8 list \<Rightarrow> u32) \<Rightarrow> u8 list \<Rightarrow> wal_error + (raw_record \<times> u8 list) option" where
  "raw_record_read crc reader =
     (case read_exact_or_eof 4 reader of
        ReadEof \<Rightarrow> Inr None
      | ReadPartial actual \<Rightarrow> Inl (WalTruncated 4 actual)
      | ReadFull len_buf reader \<Rightarrow>
          let length' = unat (from_le_bytes len_buf :: u32) in
          if length' < RECORD_HEADER_LEN + RECORD_TRAILER_LEN
          then Inl (WalDecode (WalRecordLength length'))
          else if length' > MAX_RECORD_LEN then Inl (WalDecode (WalRecordLength length'))
          else let remaining' = length' - 4 in
            (case read_exact_or_eof remaining' reader of
               ReadEof \<Rightarrow> Inl (WalTruncated remaining' 0)
             | ReadPartial actual \<Rightarrow> Inl (WalTruncated remaining' actual)
             | ReadFull rest reader \<Rightarrow>
                 let crc_offset = remaining' - RECORD_TRAILER_LEN in
                 ebind (le_u32 (drop crc_offset rest)) (\<lambda>stored_crc.
                   let actual_crc = crc (len_buf @ take crc_offset rest) in
                   ebind (le_u64 (byte_range 1 9 rest)) (\<lambda>lsn.
                     if stored_crc \<noteq> actual_crc then Inl (CrcMismatch lsn stored_crc actual_crc)
                     else ebind (le_u64 (byte_range 9 17 rest)) (\<lambda>tx_begin_lsn.
                       Inr (Some (\<lparr>raw_kind = rest ! 0, raw_lsn = lsn,
                         raw_tx_begin_lsn = tx_begin_lsn, raw_rest = rest\<rparr>, reader)))))))"

definition raw_encoded_len :: "raw_record \<Rightarrow> nat" where
  "raw_encoded_len raw = 4 + length (raw_rest raw)"

definition raw_payload :: "raw_record \<Rightarrow> u8 list" where
  "raw_payload raw =
     byte_range (RECORD_HEADER_LEN - 4) (length (raw_rest raw) - RECORD_TRAILER_LEN) (raw_rest raw)"

definition raw_decode :: "(string \<Rightarrow> string option) \<Rightarrow> raw_record \<Rightarrow> wal_error + wal_record" where
  "raw_decode lk raw = ebind (kind_from_byte (raw_kind raw)) (\<lambda>kind.
     let payload = raw_payload raw; lsn = raw_lsn raw; tx_begin_lsn = raw_tx_begin_lsn raw;
         marker = (\<lambda>name record. if payload \<noteq> [] then Inl (WalDecode (WalUnexpectedPayload name))
           else Inr record)
     in (case kind of
        KMutation \<Rightarrow> map_sum id (Mutation lsn tx_begin_lsn) (decode_event lk payload)
      | KMutationBatch \<Rightarrow> map_sum id (MutationBatch lsn tx_begin_lsn) (decode_events lk payload)
      | KTxBegin \<Rightarrow> marker ''TxBegin'' (TxBegin lsn)
      | KTxCommit \<Rightarrow> marker ''TxCommit'' (TxCommit lsn tx_begin_lsn)
      | KTxAbort \<Rightarrow> marker ''TxAbort'' (TxAbort lsn tx_begin_lsn)
      | KCheckpoint \<Rightarrow> marker ''Checkpoint'' (Checkpoint lsn tx_begin_lsn)))"

text \<open>\<open>EncodedBatch\<close> with the range \<open>[start..end)\<close> of its payload in the frame.\<close>

record encoded_batch =
  eb_rest :: "u8 list"
  eb_start :: nat
  eb_end :: nat
  eb_count :: nat

datatype replay_record =
    ReplayBatch lsn lsn encoded_batch
  | ReplayDecoded wal_record

definition raw_decode_for_replay ::
  "(string \<Rightarrow> string option) \<Rightarrow> raw_record \<Rightarrow> wal_error + replay_record" where
  "raw_decode_for_replay lk raw =
     (if raw_kind raw \<noteq> kind_byte KMutationBatch then map_sum id ReplayDecoded (raw_decode lk raw)
      else let crc_offset = length (raw_rest raw) - RECORD_TRAILER_LEN;
               start = RECORD_HEADER_LEN - 4 in
        ebind (validate_events lk (byte_range start crc_offset (raw_rest raw))) (\<lambda>count.
          Inr (ReplayBatch (raw_lsn raw) (raw_tx_begin_lsn raw)
            \<lparr>eb_rest = raw_rest raw, eb_start = start, eb_end = crc_offset, eb_count = count\<rparr>)))"

definition batch_for_each :: "(string \<Rightarrow> string option) \<Rightarrow> (wal_error \<Rightarrow> 'e) \<Rightarrow> encoded_batch \<Rightarrow>
    (mutation_event \<Rightarrow> 's \<Rightarrow> 'e + 's) \<Rightarrow> 's \<Rightarrow> 'e + 's" where
  "batch_for_each lk conv b f s =
     for_each_event lk conv (byte_range (eb_start b) (eb_end b) (eb_rest b)) f s"

definition is_valid_frame_at :: "(u8 list \<Rightarrow> u32) \<Rightarrow> u8 list \<Rightarrow> lsn \<Rightarrow> bool" where
  "is_valid_frame_at crc bytes after \<longleftrightarrow>
     (if length bytes < RECORD_HEADER_LEN + RECORD_TRAILER_LEN then False
      else let length' = unat (from_le_bytes (take 4 bytes) :: u32) in
      if \<not> (RECORD_HEADER_LEN + RECORD_TRAILER_LEN \<le> length' \<and> length' \<le> min MAX_RECORD_LEN (length bytes))
      then False
      else (case kind_from_byte (bytes ! 4) of Inl _ \<Rightarrow> False | Inr _ \<Rightarrow>
        if (from_le_bytes (byte_range 5 13 bytes) :: u64) \<le> after then False
        else let crc_offset = length' - RECORD_TRAILER_LEN in
          crc (take crc_offset bytes) = from_le_bytes (byte_range crc_offset (crc_offset + 4) bytes)))"

section \<open>Frames\<close>

definition framed :: "(u8 list \<Rightarrow> u32) \<Rightarrow> wal_record \<Rightarrow> u8 list \<Rightarrow> u8 list" where
  "framed crc r p = (let body = frame_head (25 + length p) (record_kind_of r) (record_lsn r)
     (record_tx_begin_lsn r) @ p in body @ to_le_bytes (crc body))"

lemma payload_len_written:
  "encoded_payload_len r = Inr n \<longleftrightarrow>
     (\<exists>p. encode_payload_into r = Inr p \<and> length p = n \<and> n < usize_limit)"
proof (cases r)
  case (Mutation l t e)
  then show ?thesis
    using sizes_from [OF sizes_event magic_small, of e n] by (fastforce simp: encoded_event_len_def)
next
  case (MutationBatch l t es)
  then show ?thesis by (simp add: announced_size del: encode_events_into_Inr)
qed (auto simp: usize_limit_def)

lemma framed_len_Inr:
  "n < usize_limit \<Longrightarrow> framed_len n = (if 25 + n \<le> MAX_RECORD_LEN then Inr (25 + n)
     else Inl (WalEncode WalRecordTooLarge))"
  by (auto simp: framed_len_def RECORD_HEADER_LEN_def RECORD_TRAILER_LEN_def checked_add_def
      MAX_RECORD_LEN_def usize_limit_def)

lemma length_frame_head [simp]: "length (frame_head n k l t) = 21"
  by (simp add: frame_head_def)

lemma record_written:
  assumes "encode_payload_into r = Inr p" and "length p < usize_limit"
  shows "record_encode_into crc r = (if 25 + length p \<le> MAX_RECORD_LEN then Inr (framed crc r p)
    else Inl (WalEncode WalRecordTooLarge))"
proof -
  have len: "encoded_payload_len r = Inr (length p)" using assms payload_len_written by blast
  show ?thesis
    by (simp add: record_encode_into_def len encode_frame_def framed_len_Inr [OF assms(2)] assms(1)
        framed_def Let_def RECORD_TRAILER_LEN_def MAX_RECORD_LEN_def)
qed

lemma record_encode_into_Inr:
  "record_encode_into crc r = Inr bs \<longleftrightarrow>
     (\<exists>p. encode_payload_into r = Inr p \<and> 25 + length p \<le> MAX_RECORD_LEN \<and> bs = framed crc r p)"
proof
  assume bs: "record_encode_into crc r = Inr bs"
  then obtain n where "encoded_payload_len r = Inr n" by (auto simp: record_encode_into_def)
  then obtain p where p: "encode_payload_into r = Inr p" "length p < usize_limit"
    by (auto simp: payload_len_written)
  with bs record_written [OF p, of crc]
  show "\<exists>p. encode_payload_into r = Inr p \<and> 25 + length p \<le> MAX_RECORD_LEN \<and> bs = framed crc r p"
    by (auto split: if_splits)
next
  assume "\<exists>p. encode_payload_into r = Inr p \<and> 25 + length p \<le> MAX_RECORD_LEN \<and> bs = framed crc r p"
  then obtain p where p: "encode_payload_into r = Inr p" "25 + length p \<le> MAX_RECORD_LEN"
    "bs = framed crc r p" by blast
  moreover have "length p < usize_limit" using p(2) by (simp add: MAX_RECORD_LEN_def usize_limit_def)
  ultimately show "record_encode_into crc r = Inr bs" using record_written [of r p crc] by simp
qed

lemma length_framed [simp]: "length (framed crc r p) = 25 + length p"
  by (simp add: framed_def Let_def)

text \<open>The parts of a frame after its length prefix.\<close>

definition frame_rest :: "(u8 list \<Rightarrow> u32) \<Rightarrow> wal_record \<Rightarrow> u8 list \<Rightarrow> u8 list" where
  "frame_rest crc r p = kind_byte (record_kind_of r) # to_le_bytes (record_lsn r)
     @ to_le_bytes (record_tx_begin_lsn r) @ p
     @ to_le_bytes (crc (frame_head (25 + length p) (record_kind_of r) (record_lsn r)
         (record_tx_begin_lsn r) @ p))"

lemma framed_split:
  "framed crc r p = to_le_bytes (word_of_nat (25 + length p) :: u32) @ frame_rest crc r p"
  by (simp add: framed_def Let_def frame_head_def frame_rest_def)

lemma length_frame_rest [simp]: "length (frame_rest crc r p) = 21 + length p"
  by (simp add: frame_rest_def)

lemma frame_rest_nonempty [simp]: "frame_rest crc r p \<noteq> []"
  by (simp add: frame_rest_def)

definition raw_of :: "(u8 list \<Rightarrow> u32) \<Rightarrow> wal_record \<Rightarrow> u8 list \<Rightarrow> raw_record" where
  "raw_of crc r p = \<lparr>raw_kind = kind_byte (record_kind_of r), raw_lsn = record_lsn r,
     raw_tx_begin_lsn = record_tx_begin_lsn r, raw_rest = frame_rest crc r p\<rparr>"

lemma unat_frame_length: "n \<le> MAX_RECORD_LEN \<Longrightarrow> unat (word_of_nat n :: u32) = n"
  by (simp add: MAX_RECORD_LEN_def unat_of_nat)

lemma slice_frame_rest:
  "byte_range (Suc 0) 9 (frame_rest crc r p) = to_le_bytes (record_lsn r)"
  "byte_range 9 17 (frame_rest crc r p) = to_le_bytes (record_tx_begin_lsn r)"
  "byte_range 17 (17 + length p) (frame_rest crc r p) = p"
  "frame_rest crc r p ! 0 = kind_byte (record_kind_of r)"
  "drop (17 + length p) (frame_rest crc r p) = to_le_bytes (crc (frame_head (25 + length p)
     (record_kind_of r) (record_lsn r) (record_tx_begin_lsn r) @ p))"
  "take (17 + length p) (frame_rest crc r p) = kind_byte (record_kind_of r)
     # to_le_bytes (record_lsn r) @ to_le_bytes (record_tx_begin_lsn r) @ p"
  by (simp_all add: byte_range_def frame_rest_def drop_Cons' take_Cons')

lemma read_framed:
  assumes "25 + length p \<le> MAX_RECORD_LEN"
  shows "raw_record_read crc (framed crc r p @ rest) = Inr (Some (raw_of crc r p, rest))"
proof -
  let ?len = "to_le_bytes (word_of_nat (25 + length p) :: u32)"
  have four: "read_exact_or_eof 4 (framed crc r p @ rest) = ReadFull ?len (frame_rest crc r p @ rest)"
    by (simp add: read_exact_or_eof_def framed_split)
  have more: "read_exact_or_eof (21 + length p) (frame_rest crc r p @ rest)
      = ReadFull (frame_rest crc r p) rest"
    by (simp add: read_exact_or_eof_def)
  have head: "?len @ take (17 + length p) (frame_rest crc r p)
      = frame_head (25 + length p) (record_kind_of r) (record_lsn r) (record_tx_begin_lsn r) @ p"
    by (simp only: slice_frame_rest(6)) (simp add: frame_head_def)
  show ?thesis
    using assms more head
    by (simp add: raw_record_read_def four unat_frame_length RECORD_HEADER_LEN_def RECORD_TRAILER_LEN_def
        Let_def slice_frame_rest(1-5) raw_of_def le_u32_def le_u64_def fixed_bytes_def del: of_nat_add)
qed

section \<open>Decoding what was written\<close>

fun wf_record :: "(string \<Rightarrow> string option) \<Rightarrow> wal_record \<Rightarrow> bool" where
  "wf_record lk (Mutation l t e) = wf_event lk e"
| "wf_record lk (MutationBatch l t es) = list_all (wf_event lk) es"
| "wf_record lk _ = True"

lemma kind_from_kind_byte [simp]: "kind_from_byte (kind_byte k) = Inr k"
  by (cases k) (simp_all add: kind_byte_def kind_from_byte_def)

lemma max_record_isize: "n \<le> MAX_RECORD_LEN \<Longrightarrow> n \<le> isize_max"
  by (simp add: MAX_RECORD_LEN_def isize_max_def)

lemma raw_payload_of [simp]: "raw_payload (raw_of crc r p) = p"
  using slice_frame_rest(3) [of p crc r]
  by (simp add: raw_payload_def raw_of_def RECORD_HEADER_LEN_def RECORD_TRAILER_LEN_def)

lemma raw_of_simps [simp]:
  "raw_kind (raw_of crc r p) = kind_byte (record_kind_of r)"
  "raw_lsn (raw_of crc r p) = record_lsn r"
  "raw_tx_begin_lsn (raw_of crc r p) = record_tx_begin_lsn r"
  "length (raw_rest (raw_of crc r p)) = 21 + length p"
  "raw_encoded_len (raw_of crc r p) = 25 + length p"
  by (simp_all add: raw_of_def raw_encoded_len_def)

lemma decode_framed:
  assumes "encode_payload_into r = Inr p" and "wf_record lk r" and "25 + length p \<le> MAX_RECORD_LEN"
  shows "raw_decode lk (raw_of crc r p) = Inr r"
proof (cases r)
  case (Mutation l t e)
  then have "decode_event lk p = Inr e"
    using assms by (intro decode_written_event) (auto intro: max_record_isize)
  then show ?thesis using Mutation by (simp add: raw_decode_def)
next
  case (MutationBatch l t es)
  then have "decode_events lk p = Inr es"
    using assms by (intro decode_written_events) (auto intro: max_record_isize)
  then show ?thesis using MutationBatch by (simp add: raw_decode_def)
qed (use assms in \<open>simp_all add: raw_decode_def\<close>)

definition sample_record :: wal_record where
  "sample_record = MutationBatch 43 40 sample_events"

lemma wf_sample_record: "wf_record lk sample_record"
  by (simp add: sample_record_def wf_sample_events)

lemma sample_record_written: "\<exists>bs. record_encode_into crc sample_record = Inr bs \<and> 1 < length bs"
proof -
  obtain p where "encode_events_into sample_events = Inr p" "length p \<le> 1000"
    using sample_events_written by blast
  then have "record_encode_into crc sample_record = Inr (framed crc sample_record p)"
    unfolding record_encode_into_Inr by (intro exI [of _ p]) (simp add: sample_record_def MAX_RECORD_LEN_def)
  then show ?thesis by simp
qed

text \<open>
  C25. A framed record reads back from the front of any stream: the frame is consumed exactly, and
  its payload decodes to the record, whatever the checksum function.
\<close>

theorem record_frame_roundtrip:
  assumes "wf_record lk r" and "record_encode_into crc r = Inr bs"
  shows "\<exists>raw. raw_record_read crc (bs @ rest) = Inr (Some (raw, rest)) \<and>
    raw_decode lk raw = Inr r \<and> raw_encoded_len raw = length bs"
proof -
  obtain p where p: "encode_payload_into r = Inr p" "25 + length p \<le> MAX_RECORD_LEN"
    and bs: "bs = framed crc r p" using assms(2) by (auto simp: record_encode_into_Inr)
  show ?thesis unfolding bs read_framed [OF p(2)]
    using decode_framed [OF p(1) assms(1) p(2), of crc] by simp
qed

theorem record_frame_roundtrip_witness:
  "\<exists>bs raw. record_encode_into (\<lambda>_. 7) sample_record = Inr bs \<and>
    raw_record_read (\<lambda>_. 7) (bs @ [1, 2]) = Inr (Some (raw, [1, 2])) \<and>
    raw_decode (\<lambda>_. None) raw = Inr sample_record"
proof -
  obtain bs where bs: "record_encode_into (\<lambda>_. 7) sample_record = Inr bs"
    using sample_record_written by blast
  show ?thesis using record_frame_roundtrip [OF wf_sample_record bs, where rest = "[1, 2]"] bs by blast
qed

text \<open>
  Encoding a record succeeds exactly when its payload encodes and the frame is within
  \<open>MAX_RECORD_LEN\<close>; the frame has 25 bytes around the payload, so the check that the payload's
  length agrees with its announced size never fails.
\<close>

theorem record_encodes_iff:
  "(\<exists>bs. record_encode_into crc r = Inr bs \<and> length bs = n) \<longleftrightarrow>
     (\<exists>p. encode_payload_into r = Inr p \<and> n = 25 + length p \<and> n \<le> MAX_RECORD_LEN)"
  unfolding record_encode_into_Inr by (auto simp: length_framed)

lemma take_framed:
  assumes "n < 25 + length p" and "25 + length p \<le> MAX_RECORD_LEN"
  shows "raw_record_read crc (take n (framed crc r p)) =
    (if n = 0 then Inr None else if n < 4 then Inl (WalTruncated 4 n)
     else Inl (WalTruncated (21 + length p) (n - 4)))"
proof -
  let ?len = "to_le_bytes (word_of_nat (25 + length p) :: u32)"
  consider "n = 0" | "0 < n" "n < 4" | "4 \<le> n" by linarith
  then show ?thesis
  proof cases
    case 1
    then show ?thesis by (simp add: raw_record_read_def read_exact_or_eof_def)
  next
    case 2
    then have "read_exact_or_eof 4 (take n (framed crc r p)) = ReadPartial n"
      using length_to_le_bytes [of "word_of_nat (25 + length p) :: u32"]
      by (auto simp: read_exact_or_eof_def framed_split simp del: length_to_le_bytes)
    with 2 show ?thesis by (simp add: raw_record_read_def)
  next
    case 3
    then have four: "read_exact_or_eof 4 (take n (framed crc r p)) =
        ReadFull ?len (take (n - 4) (frame_rest crc r p))"
      by (simp add: read_exact_or_eof_def framed_split)
    have "read_exact_or_eof (21 + length p) (take (n - 4) (frame_rest crc r p)) =
        (if n = 4 then ReadEof else ReadPartial (n - 4))"
      using 3 assms(1) by (auto simp: read_exact_or_eof_def)
    with 3 show ?thesis
      using assms(2)
      by (simp add: raw_record_read_def four unat_frame_length RECORD_HEADER_LEN_def
          RECORD_TRAILER_LEN_def Let_def del: of_nat_add)
  qed
qed

text \<open>
  C31. Torn write: a strict prefix of a frame at the end of a file is never taken for a record. No
  byte of it is a clean end of the log, and any other prefix is a \<open>Truncated\<close> error.
\<close>

theorem torn_frame_is_truncated:
  assumes "record_encode_into crc r = Inr bs" and "n < length bs"
  shows "raw_record_read crc (take n bs) =
    (if n = 0 then Inr None else if n < 4 then Inl (WalTruncated 4 n)
     else Inl (WalTruncated (length bs - 4) (n - 4)))"
proof -
  obtain p where p: "25 + length p \<le> MAX_RECORD_LEN" and bs: "bs = framed crc r p"
    using assms(1) by (auto simp: record_encode_into_Inr)
  show ?thesis using take_framed [OF _ p, of n crc r] assms(2) by (simp add: bs)
qed

theorem torn_frame_is_truncated_witness:
  "\<exists>bs. record_encode_into (\<lambda>_. 7) sample_record = Inr bs \<and>
    raw_record_read (\<lambda>_. 7) (take 1 bs) = Inl (WalTruncated 4 1)"
proof -
  obtain bs where bs: "record_encode_into (\<lambda>_. 7) sample_record = Inr bs" "1 < length bs"
    using sample_record_written by blast
  show ?thesis using torn_frame_is_truncated [OF bs] bs(1) by simp
qed

section \<open>Decoding for replay\<close>

text \<open>What a replay record stands for: a batch is the list of events its payload decodes to.\<close>

fun stands_for :: "(string \<Rightarrow> string option) \<Rightarrow> replay_record \<Rightarrow> wal_record \<Rightarrow> bool" where
  "stands_for lk (ReplayDecoded r) r' \<longleftrightarrow> r' = r \<and> record_kind_of r \<noteq> KMutationBatch"
| "stands_for lk (ReplayBatch l t b) r' \<longleftrightarrow> (\<exists>es. r' = MutationBatch l t es \<and> eb_count b = length es \<and>
     decode_events lk (byte_range (eb_start b) (eb_end b) (eb_rest b)) = Inr es)"

lemma kind_byte_inject [simp]: "kind_byte k = kind_byte k' \<longleftrightarrow> k = k'"
  using kind_from_kind_byte [of k] kind_from_kind_byte [of k'] by (metis sum.inject(2))

lemma kind_from_byte_Inr: "kind_from_byte b = Inr k \<Longrightarrow> b = kind_byte k"
  by (auto simp: kind_from_byte_def kind_byte_def split: if_splits)

lemma raw_decode_kind:
  assumes "raw_decode lk raw = Inr r"
  shows "raw_kind raw = kind_byte (record_kind_of r)"
proof -
  from assms obtain k where k: "kind_from_byte (raw_kind raw) = Inr k" by (auto simp: raw_decode_def)
  then have "record_kind_of r = k"
    using assms by (cases k) (auto simp: raw_decode_def Let_def split: if_splits)
  with k show ?thesis by (simp add: kind_from_byte_Inr)
qed

lemma length_raw_payload: "length (raw_payload raw) \<le> length (raw_rest raw)"
  by (simp add: raw_payload_def byte_range_def)

lemma raw_decode_batch:
  "raw_kind raw = kind_byte KMutationBatch \<Longrightarrow> raw_decode lk raw =
     map_sum id (MutationBatch (raw_lsn raw) (raw_tx_begin_lsn raw)) (decode_events lk (raw_payload raw))"
  by (simp add: raw_decode_def)

lemma replay_decode_batch:
  "raw_kind raw = kind_byte KMutationBatch \<Longrightarrow> raw_decode_for_replay lk raw =
     ebind (validate_events lk (raw_payload raw)) (\<lambda>count.
        Inr (ReplayBatch (raw_lsn raw) (raw_tx_begin_lsn raw)
          \<lparr>eb_rest = raw_rest raw, eb_start = RECORD_HEADER_LEN - 4,
           eb_end = length (raw_rest raw) - RECORD_TRAILER_LEN, eb_count = count\<rparr>))"
  by (simp add: raw_decode_for_replay_def raw_payload_def Let_def)

lemma replay_decode:
  assumes "length (raw_rest raw) \<le> isize_max"
  shows "case raw_decode lk raw of
      Inl e \<Rightarrow> raw_decode_for_replay lk raw = Inl e
    | Inr r \<Rightarrow> (\<exists>rr. raw_decode_for_replay lk raw = Inr rr \<and> stands_for lk rr r)"
proof (cases "raw_kind raw = kind_byte KMutationBatch")
  case True
  have "length (raw_payload raw) \<le> isize_max" using assms length_raw_payload [of raw] by simp
  then show ?thesis
    unfolding raw_decode_batch [OF True] replay_decode_batch [OF True]
    by (cases "decode_events lk (raw_payload raw)")
      (simp_all add: validate_events_decode raw_payload_def)
next
  case False
  then show ?thesis
    by (cases "raw_decode lk raw") (auto simp: raw_decode_for_replay_def dest: raw_decode_kind)
qed

text \<open>
  C30. Replay's decoding, which leaves a mutation batch encoded, fails on the same records and with
  the same error as the full decoding, and what it returns stands for the record: a batch counts its
  events and will decode to them.
\<close>

theorem decode_for_replay_agrees:
  assumes "length (raw_rest raw) \<le> isize_max"
  shows "case raw_decode lk raw of
      Inl e \<Rightarrow> raw_decode_for_replay lk raw = Inl e
    | Inr r \<Rightarrow> (\<exists>rr. raw_decode_for_replay lk raw = Inr rr \<and> stands_for lk rr r)"
  by (rule replay_decode [OF assms])

theorem decode_for_replay_agrees_witness:
  "\<exists>raw rr. raw_decode (\<lambda>_. None) raw = Inr sample_record \<and>
     raw_decode_for_replay (\<lambda>_. None) raw = Inr rr \<and> stands_for (\<lambda>_. None) rr sample_record"
proof -
  obtain bs where "record_encode_into (\<lambda>_. 7) sample_record = Inr bs"
    using sample_record_written by blast
  then obtain p where p: "encode_payload_into sample_record = Inr p" "25 + length p \<le> MAX_RECORD_LEN"
    by (auto simp: record_encode_into_Inr)
  let ?raw = "raw_of (\<lambda>_. 7) sample_record p"
  have raw: "raw_decode (\<lambda>_. None) ?raw = Inr sample_record"
    by (rule decode_framed [OF p(1) wf_sample_record p(2)])
  have "length (raw_rest ?raw) \<le> isize_max" using p(2) by (simp add: MAX_RECORD_LEN_def isize_max_def)
  from decode_for_replay_agrees [OF this, of "\<lambda>_. None"] obtain rr where "raw_decode_for_replay (\<lambda>_. None) ?raw = Inr rr" "stands_for (\<lambda>_. None) rr sample_record"
    unfolding raw by auto
  with raw show ?thesis by blast
qed

section \<open>Recognising a frame\<close>

lemma valid_frame_framed:
  assumes "25 + length p \<le> MAX_RECORD_LEN"
  shows "is_valid_frame_at crc (framed crc r p @ rest) after \<longleftrightarrow> after < record_lsn r"
proof -
  let ?bs = "framed crc r p @ rest"
  let ?body = "frame_head (25 + length p) (record_kind_of r) (record_lsn r) (record_tx_begin_lsn r) @ p"
  have "take 4 ?bs = to_le_bytes (word_of_nat (25 + length p) :: u32)"
    by (simp add: framed_split)
  moreover have "?bs ! 4 = kind_byte (record_kind_of r)"
    by (simp add: framed_split nth_append slice_frame_rest)
  moreover have "byte_range 5 13 ?bs = to_le_bytes (record_lsn r)"
    by (simp add: byte_range_def framed_split frame_rest_def drop_Cons' take_Cons')
  moreover have "take (21 + length p) ?bs = ?body"
    by (simp add: framed_def Let_def)
  moreover have "byte_range (21 + length p) (25 + length p) ?bs = to_le_bytes (crc ?body)"
    by (simp add: byte_range_def framed_def Let_def)
  ultimately show ?thesis
    using assms
    by (simp add: is_valid_frame_at_def Let_def RECORD_HEADER_LEN_def RECORD_TRAILER_LEN_def
        unat_frame_length not_le add.commute linorder_not_le del: of_nat_add) (meson leD not_le)
qed

text \<open>
  The scan behind a bad frame recognises every intact record: a frame of the writer passes
  \<open>is_valid_frame_at\<close> exactly when its LSN is above the last accepted one.
\<close>

theorem valid_frame_recognised:
  assumes "record_encode_into crc r = Inr bs"
  shows "is_valid_frame_at crc (bs @ rest) after \<longleftrightarrow> after < record_lsn r"
proof -
  obtain p where p: "25 + length p \<le> MAX_RECORD_LEN" and bs: "bs = framed crc r p"
    using assms by (auto simp: record_encode_into_Inr)
  show ?thesis unfolding bs by (rule valid_frame_framed [OF p])
qed

theorem valid_frame_recognised_witness:
  "\<exists>bs. record_encode_into (\<lambda>_. 7) sample_record = Inr bs \<and> is_valid_frame_at (\<lambda>_. 7) (bs @ [0]) 42"
proof -
  obtain bs where bs: "record_encode_into (\<lambda>_. 7) sample_record = Inr bs"
    using sample_record_written by blast
  then show ?thesis
    using valid_frame_recognised [OF bs, of "[0]" 42] by (auto simp: sample_record_def)
qed

end
