(* ===== verification/Wal_Segment.thy ===== *)
theory Wal_Segment
  imports Wal_Record
begin

text \<open>
  Segment files (\<open>crates/lora-wal/src/segment.rs\<close>): the header, the read handle, and the scan for an
  intact record behind a bad one. A file is its bytes.
\<close>

section \<open>The header\<close>

definition SEGMENT_MAGIC :: "u8 list" where
  "SEGMENT_MAGIC = [0x4C, 0x4F, 0x52, 0x41, 0x57, 0x41, 0x4C, 0]"

definition SEGMENT_FORMAT_VERSION :: u32 where
  "SEGMENT_FORMAT_VERSION = 1"

definition SEGMENT_MIN_SUPPORTED_FORMAT_VERSION :: u32 where
  "SEGMENT_MIN_SUPPORTED_FORMAT_VERSION = 1"

definition SEGMENT_HEADER_LEN :: nat where
  "SEGMENT_HEADER_LEN = 32"

definition FLAG_SEALED :: u32 where
  "FLAG_SEALED = 1"

record segment_header =
  sh_format_version :: u32
  sh_base_lsn :: lsn
  sh_sealed :: bool

definition segment_header_new :: "lsn \<Rightarrow> segment_header" where
  "segment_header_new base_lsn =
     \<lparr>sh_format_version = SEGMENT_FORMAT_VERSION, sh_base_lsn = base_lsn, sh_sealed = False\<rparr>"

definition segment_header_encode :: "(u8 list \<Rightarrow> u32) \<Rightarrow> segment_header \<Rightarrow> u8 list" where
  "segment_header_encode crc h =
     (let out = SEGMENT_MAGIC @ to_le_bytes (sh_format_version h) @ to_le_bytes (sh_base_lsn h)
          @ to_le_bytes (if sh_sealed h then FLAG_SEALED else 0) @ [0, 0, 0, 0]
      in out @ to_le_bytes (crc out))"

definition seg_fixed_bytes :: "nat \<Rightarrow> u8 list \<Rightarrow> wal_error + u8 list" where
  "seg_fixed_bytes n bs =
     (if length bs \<noteq> n then Inl (BadSegmentHeader ''invalid fixed-width field'') else Inr bs)"

definition seg_le_u32 :: "u8 list \<Rightarrow> wal_error + u32" where
  "seg_le_u32 bs = map_sum id from_le_bytes (seg_fixed_bytes 4 bs)"

definition seg_le_u64 :: "u8 list \<Rightarrow> wal_error + u64" where
  "seg_le_u64 bs = map_sum id from_le_bytes (seg_fixed_bytes 8 bs)"

definition segment_header_decode :: "(u8 list \<Rightarrow> u32) \<Rightarrow> u8 list \<Rightarrow> wal_error + segment_header" where
  "segment_header_decode crc bytes =
     (if length bytes < SEGMENT_HEADER_LEN then Inl (WalTruncated SEGMENT_HEADER_LEN (length bytes))
      else if byte_range 0 8 bytes \<noteq> SEGMENT_MAGIC then Inl (BadSegmentHeader ''bad magic'')
      else ebind (seg_le_u32 (byte_range 28 32 bytes)) (\<lambda>stored_crc.
        if crc (take 28 bytes) \<noteq> stored_crc then Inl (BadSegmentHeader ''header crc mismatch'')
        else ebind (seg_le_u32 (byte_range 8 12 bytes)) (\<lambda>format_version.
          if format_version < SEGMENT_MIN_SUPPORTED_FORMAT_VERSION
            \<or> format_version > SEGMENT_FORMAT_VERSION
          then Inl (BadSegmentHeader ''unsupported format version'')
          else ebind (seg_le_u64 (byte_range 12 20 bytes)) (\<lambda>base_lsn.
            ebind (seg_le_u32 (byte_range 20 24 bytes)) (\<lambda>flags.
              Inr \<lparr>sh_format_version = format_version, sh_base_lsn = base_lsn,
                sh_sealed = flags AND FLAG_SEALED \<noteq> 0\<rparr>)))))"

section \<open>The read handle\<close>

record segment_reader =
  sr_file :: "u8 list"
  sr_header :: segment_header
  sr_position :: nat

definition segment_reader_open :: "(u8 list \<Rightarrow> u32) \<Rightarrow> u8 list \<Rightarrow> wal_error + segment_reader" where
  "segment_reader_open crc file =
     (if length file < SEGMENT_HEADER_LEN then Inl WalIo
      else ebind (segment_header_decode crc (take SEGMENT_HEADER_LEN file)) (\<lambda>h.
        Inr \<lparr>sr_file = file, sr_header = h, sr_position = SEGMENT_HEADER_LEN\<rparr>))"

definition segment_read_frame ::
  "(u8 list \<Rightarrow> u32) \<Rightarrow> segment_reader \<Rightarrow> wal_error + raw_record option \<times> segment_reader" where
  "segment_read_frame crc sr =
     (let input = drop (sr_position sr) (sr_file sr) in
      (case raw_record_read crc input of
         Inl e \<Rightarrow> Inl e
       | Inr None \<Rightarrow> Inr (None, sr)
       | Inr (Some (raw, rest)) \<Rightarrow>
           let consumed = length input - length rest in
           Inr (Some raw, sr\<lparr>sr_position := sr_position sr + consumed\<rparr>)))"

definition segment_read_record :: "(u8 list \<Rightarrow> u32) \<Rightarrow> (string \<Rightarrow> string option) \<Rightarrow> segment_reader \<Rightarrow>
    wal_error + wal_record option \<times> segment_reader" where
  "segment_read_record crc lk sr = ebind (segment_read_frame crc sr) (\<lambda>(raw, sr').
     case raw of
       None \<Rightarrow> Inr (None, sr')
     | Some raw \<Rightarrow> map_sum id (\<lambda>r. (Some r, sr')) (raw_decode lk raw))"

definition find_valid_frame_after :: "(u8 list \<Rightarrow> u32) \<Rightarrow> nat \<Rightarrow> lsn \<Rightarrow> segment_reader \<Rightarrow> nat option" where
  "find_valid_frame_after crc from' after sr =
     (let len = length (sr_file sr) in
      if from' \<ge> len then None
      else let tail = drop from' (sr_file sr) in
        map_option (\<lambda>at. from' + at)
          (find (\<lambda>at. is_valid_frame_at crc (drop at tail) after) [1..<length tail]))"

section \<open>Round trips\<close>

lemma segment_header_encode_length [simp]: "length (segment_header_encode crc h) = 32"
  by (simp add: segment_header_encode_def SEGMENT_MAGIC_def Let_def)

lemma segment_header_fields:
  "byte_range 0 8 (segment_header_encode crc h) = SEGMENT_MAGIC"
  "byte_range 8 12 (segment_header_encode crc h) = to_le_bytes (sh_format_version h)"
  "byte_range 12 20 (segment_header_encode crc h) = to_le_bytes (sh_base_lsn h)"
  "byte_range 20 24 (segment_header_encode crc h) = to_le_bytes (if sh_sealed h then FLAG_SEALED else 0)"
  "byte_range 28 32 (segment_header_encode crc h) = to_le_bytes (crc (take 28 (segment_header_encode crc h)))"
  by (simp_all add: byte_range_def segment_header_encode_def SEGMENT_MAGIC_def Let_def)

lemma segment_header_decode_encode:
  assumes "sh_format_version h = SEGMENT_FORMAT_VERSION"
  shows "segment_header_decode crc (segment_header_encode crc h) = Inr h"
  using assms
  by (cases h) (simp add: segment_header_decode_def segment_header_fields seg_le_u32_def seg_le_u64_def
      seg_fixed_bytes_def SEGMENT_HEADER_LEN_def SEGMENT_FORMAT_VERSION_def
      SEGMENT_MIN_SUPPORTED_FORMAT_VERSION_def FLAG_SEALED_def)

lemma segment_open_encoded:
  assumes "sh_format_version h = SEGMENT_FORMAT_VERSION"
  shows "segment_reader_open crc (segment_header_encode crc h @ body) =
    Inr \<lparr>sr_file = segment_header_encode crc h @ body, sr_header = h, sr_position = SEGMENT_HEADER_LEN\<rparr>"
  using segment_header_decode_encode [OF assms, of crc]
  by (simp add: segment_reader_open_def SEGMENT_HEADER_LEN_def)

text \<open>
  A segment file that starts with an encoded header opens with that header, positioned at its
  first record.
\<close>

theorem segment_header_roundtrip:
  assumes "sh_format_version h = SEGMENT_FORMAT_VERSION"
  shows "segment_reader_open crc (segment_header_encode crc h @ body) =
    Inr \<lparr>sr_file = segment_header_encode crc h @ body, sr_header = h, sr_position = SEGMENT_HEADER_LEN\<rparr>"
  by (rule segment_open_encoded [OF assms])

theorem segment_header_roundtrip_witness:
  "segment_reader_open (\<lambda>_. 7) (segment_header_encode (\<lambda>_. 7) (segment_header_new 9) @ [1]) =
    Inr \<lparr>sr_file = segment_header_encode (\<lambda>_. 7) (segment_header_new 9) @ [1],
      sr_header = segment_header_new 9, sr_position = SEGMENT_HEADER_LEN\<rparr>"
  by (rule segment_header_roundtrip) (simp add: segment_header_new_def)

section \<open>Reading frames\<close>

lemma raw_record_read_progress:
  assumes "raw_record_read crc inp = Inr (Some (raw, rest))"
  shows "rest = drop (raw_encoded_len raw) inp" and "25 \<le> raw_encoded_len raw"
    and "raw_encoded_len raw \<le> length inp" and "raw_encoded_len raw \<le> MAX_RECORD_LEN"
  using assms
  by (auto simp: raw_record_read_def read_exact_or_eof_def raw_encoded_len_def Let_def
      RECORD_HEADER_LEN_def RECORD_TRAILER_LEN_def add.commute split: if_splits)

lemma segment_read_frame_progress:
  assumes "segment_read_frame crc sr = Inr (Some raw, sr')"
  shows "sr' = sr\<lparr>sr_position := sr_position sr + raw_encoded_len raw\<rparr>"
    and "25 \<le> raw_encoded_len raw" and "sr_position sr + raw_encoded_len raw \<le> length (sr_file sr)"
    and "raw_encoded_len raw \<le> MAX_RECORD_LEN"
proof -
  obtain rest where r: "raw_record_read crc (drop (sr_position sr) (sr_file sr)) = Inr (Some (raw, rest))"
    using assms by (auto simp: segment_read_frame_def Let_def split: sum.splits option.splits)
  note p = raw_record_read_progress [OF r]
  show "25 \<le> raw_encoded_len raw" "raw_encoded_len raw \<le> MAX_RECORD_LEN" by (fact p)+
  show "sr_position sr + raw_encoded_len raw \<le> length (sr_file sr)" using p(2,3) by simp
  show "sr' = sr\<lparr>sr_position := sr_position sr + raw_encoded_len raw\<rparr>"
    using assms r p by (simp add: segment_read_frame_def Let_def)
qed

lemma segment_read_frame_None: "segment_read_frame crc sr = Inr (None, sr') \<Longrightarrow> sr' = sr"
  by (auto simp: segment_read_frame_def Let_def split: sum.splits option.splits)

text \<open>The next frame of a file written by \<open>record_encode_into\<close>.\<close>

lemma segment_read_written:
  assumes "sr_file sr = before @ framed crc r p @ rest" and "sr_position sr = length before"
    and "25 + length p \<le> MAX_RECORD_LEN"
  shows "segment_read_frame crc sr =
    Inr (Some (raw_of crc r p), sr\<lparr>sr_position := length before + (25 + length p)\<rparr>)"
  using assms by (simp add: segment_read_frame_def read_framed)

end
