(* ===== verification/Wal_Replay.thy ===== *)
theory Wal_Replay
  imports Wal_Segment
begin

text \<open>
  Replay (\<open>crates/lora-wal/src/replay.rs\<close>): the machine \<open>ReplayState\<close> that turns records into steps of
  a sink, the sink \<open>CollectEvents\<close>, and the walk over the segments. The sink is a function on its own
  state \<open>'s\<close>, which the machine's state carries. A path is the segment's id; error texts are kept as
  short labels.
\<close>

section \<open>Transactions as replay holds them\<close>

definition PENDING_BUDGET_BYTES :: nat where
  "PENDING_BUDGET_BYTES = 4 * 1024 * 1024"

datatype tx_part = TxEvent mutation_event | TxBatch encoded_batch

record tx_events =
  tx_parts :: "tx_part list"
  tx_len :: nat

definition tx_events_default :: tx_events where
  "tx_events_default = \<lparr>tx_parts = [], tx_len = 0\<rparr>"

definition tx_push :: "mutation_event \<Rightarrow> tx_events \<Rightarrow> tx_events" where
  "tx_push event tx = tx\<lparr>tx_len := tx_len tx + 1, tx_parts := tx_parts tx @ [TxEvent event]\<rparr>"

definition tx_push_batch :: "encoded_batch \<Rightarrow> tx_events \<Rightarrow> tx_events" where
  "tx_push_batch batch tx = tx\<lparr>tx_len := tx_len tx + eb_count batch, tx_parts := tx_parts tx @ [TxBatch batch]\<rparr>"

fun for_each_part :: "(string \<Rightarrow> string option) \<Rightarrow> (wal_error \<Rightarrow> 'e) \<Rightarrow> tx_part list \<Rightarrow>
    (mutation_event \<Rightarrow> 's \<Rightarrow> 'e + 's) \<Rightarrow> 's \<Rightarrow> 'e + 's" where
  "for_each_part lk conv [] f s = Inr s"
| "for_each_part lk conv (TxEvent event # parts) f s = ebind (f event s) (for_each_part lk conv parts f)"
| "for_each_part lk conv (TxBatch batch # parts) f s =
     ebind (batch_for_each lk conv batch f s) (for_each_part lk conv parts f)"

definition tx_for_each :: "(string \<Rightarrow> string option) \<Rightarrow> (wal_error \<Rightarrow> 'e) \<Rightarrow> tx_events \<Rightarrow>
    (mutation_event \<Rightarrow> 's \<Rightarrow> 'e + 's) \<Rightarrow> 's \<Rightarrow> 'e + 's" where
  "tx_for_each lk conv tx f s = for_each_part lk conv (tx_parts tx) f s"

definition tx_into_vec :: "(string \<Rightarrow> string option) \<Rightarrow> tx_events \<Rightarrow> wal_error + mutation_event list" where
  "tx_into_vec lk tx = tx_for_each lk id tx (\<lambda>event events. Inr (events @ [event])) []"

datatype replay_step = StepCommit tx_events | StepPartial tx_events | StepDiscard

type_synonym 's replay_sink = "replay_step \<Rightarrow> 's \<Rightarrow> wal_error + 's"

section \<open>The collecting sink\<close>

record collect_events =
  ce_events :: "mutation_event list"
  ce_provisional_from :: "nat option"

definition collect_default :: collect_events where
  "collect_default = \<lparr>ce_events = [], ce_provisional_from = None\<rparr>"

definition collect_step :: "(string \<Rightarrow> string option) \<Rightarrow> collect_events replay_sink" where
  "collect_step lk step c = (case step of
      StepCommit events \<Rightarrow> ebind (tx_into_vec lk events) (\<lambda>es.
        Inr (c\<lparr>ce_events := ce_events c @ es, ce_provisional_from := None\<rparr>))
    | StepPartial events \<Rightarrow>
        let c = c\<lparr>ce_provisional_from := (case ce_provisional_from c of
          None \<Rightarrow> Some (length (ce_events c)) | Some n \<Rightarrow> Some n)\<rparr> in
        ebind (tx_into_vec lk events) (\<lambda>es. Inr (c\<lparr>ce_events := ce_events c @ es\<rparr>))
    | StepDiscard \<Rightarrow> (case ce_provisional_from c of
        Some from' \<Rightarrow> Inr (c\<lparr>ce_events := take from' (ce_events c), ce_provisional_from := None\<rparr>)
      | None \<Rightarrow> Inr c))"

section \<open>The machine\<close>

record pending_tx =
  ptx_events :: tx_events
  ptx_bytes :: nat

definition pending_default :: pending_tx where
  "pending_default = \<lparr>ptx_events = tx_events_default, ptx_bytes = 0\<rparr>"

record 's replay_state =
  rp_pending :: "lsn \<Rightarrow> pending_tx option"
  rp_streaming :: "lsn option"
  rp_withdrawn :: "lsn list"
  rp_sink :: 's
  rp_max_lsn :: lsn
  rp_last_lsn :: lsn
  rp_last_segment_base :: "lsn option"
  rp_checkpoint_lsn_observed :: "lsn option"

definition replay_state_new :: "'s \<Rightarrow> 's replay_state" where
  "replay_state_new sink = \<lparr>rp_pending = Map.empty, rp_streaming = None, rp_withdrawn = [],
     rp_sink = sink, rp_max_lsn = 0, rp_last_lsn = 0, rp_last_segment_base = None,
     rp_checkpoint_lsn_observed = None\<rparr>"

definition emit_step :: "'s replay_sink \<Rightarrow> replay_step \<Rightarrow> 's replay_state \<Rightarrow> wal_error + 's replay_state" where
  "emit_step sink step st = map_sum id (\<lambda>s. st\<lparr>rp_sink := s\<rparr>) (sink step (rp_sink st))"

definition validate_segment :: "lsn \<Rightarrow> 's replay_state \<Rightarrow> wal_error + 's replay_state" where
  "validate_segment segment_base st =
     (if (case rp_last_segment_base st of Some prev_base \<Rightarrow> segment_base \<le> prev_base | None \<Rightarrow> False)
      then Inl (Malformed ''segment base_lsn not greater than previous base_lsn'')
      else if rp_last_lsn st \<noteq> 0 \<and> segment_base \<le> rp_last_lsn st
      then Inl (Malformed ''segment base_lsn not greater than previous record lsn'')
      else Inr (st\<lparr>rp_last_segment_base := Some segment_base\<rparr>))"

definition validate_record_lsn :: "lsn \<Rightarrow> lsn \<Rightarrow> 's replay_state \<Rightarrow> wal_error + unit" where
  "validate_record_lsn lsn segment_base st =
     (if lsn < segment_base then Inl (Malformed ''record lsn is below segment base_lsn'')
      else if rp_last_lsn st \<noteq> 0 \<and> lsn \<le> rp_last_lsn st
      then Inl (Malformed ''record lsn is not greater than previous lsn'')
      else Inr ())"

definition observe_lsn :: "lsn \<Rightarrow> 's replay_state \<Rightarrow> 's replay_state" where
  "observe_lsn lsn st = (let st = st\<lparr>rp_last_lsn := lsn\<rparr> in
     if lsn > rp_max_lsn st then st\<lparr>rp_max_lsn := lsn\<rparr> else st)"

fun skip_fenced_record :: "wal_record \<Rightarrow> 's replay_state \<Rightarrow> 's replay_state" where
  "skip_fenced_record (TxCommit l t) st = st\<lparr>rp_pending := (rp_pending st)(t := None)\<rparr>"
| "skip_fenced_record (TxAbort l t) st = st\<lparr>rp_pending := (rp_pending st)(t := None)\<rparr>"
| "skip_fenced_record _ st = st"

definition missing_tx_begin :: wal_error where
  "missing_tx_begin = Malformed ''references missing tx begin''"

definition withdraw_other_than ::
  "'s replay_sink \<Rightarrow> lsn \<Rightarrow> 's replay_state \<Rightarrow> wal_error + 's replay_state" where
  "withdraw_other_than sink tx_begin_lsn st = (case rp_streaming st of
      Some streaming \<Rightarrow>
        if streaming \<noteq> tx_begin_lsn
        then emit_step sink StepDiscard
          (st\<lparr>rp_streaming := None, rp_withdrawn := rp_withdrawn st @ [streaming]\<rparr>)
        else Inr st
    | None \<Rightarrow> Inr st)"

definition begin_transaction :: "lsn \<Rightarrow> 's replay_state \<Rightarrow> wal_error + 's replay_state" where
  "begin_transaction lsn st =
     (if rp_pending st lsn \<noteq> None then Inl (Malformed ''duplicate tx begin'')
      else Inr (st\<lparr>rp_pending := (rp_pending st)(lsn \<mapsto> pending_default)\<rparr>))"

definition saturating_add :: "nat \<Rightarrow> nat \<Rightarrow> nat" where
  "saturating_add a b = min (usize_limit - 1) (a + b)"

definition add_events :: "'s replay_sink \<Rightarrow> lsn \<Rightarrow> nat \<Rightarrow> (tx_events \<Rightarrow> tx_events) \<Rightarrow>
    's replay_state \<Rightarrow> wal_error + 's replay_state" where
  "add_events sink tx_begin_lsn encoded_len add st =
     ebind (withdraw_other_than sink tx_begin_lsn st) (\<lambda>st.
       case rp_pending st tx_begin_lsn of
         None \<Rightarrow> Inl missing_tx_begin
       | Some pending \<Rightarrow>
           let pending = \<lparr>ptx_events = add (ptx_events pending),
             ptx_bytes = saturating_add (ptx_bytes pending) encoded_len\<rparr> in
           if ptx_bytes pending \<ge> PENDING_BUDGET_BYTES \<and> tx_begin_lsn \<notin> set (rp_withdrawn st)
           then emit_step sink (StepPartial (ptx_events pending))
             (st\<lparr>rp_pending := (rp_pending st)(tx_begin_lsn \<mapsto> pending_default),
               rp_streaming := Some tx_begin_lsn\<rparr>)
           else Inr (st\<lparr>rp_pending := (rp_pending st)(tx_begin_lsn \<mapsto> pending)\<rparr>))"

definition take_pending :: "lsn \<Rightarrow> 's replay_state \<Rightarrow> wal_error + pending_tx \<times> 's replay_state" where
  "take_pending tx_begin_lsn st = (case rp_pending st tx_begin_lsn of
      None \<Rightarrow> Inl missing_tx_begin
    | Some pending \<Rightarrow> Inr (pending, st\<lparr>rp_pending := (rp_pending st)(tx_begin_lsn := None)\<rparr>))"

definition observe_checkpoint :: "lsn \<Rightarrow> lsn \<Rightarrow> 's replay_state \<Rightarrow> wal_error + 's replay_state" where
  "observe_checkpoint lsn snapshot_lsn st =
     (if snapshot_lsn > lsn then Inl (Malformed ''checkpoint points to future snapshot lsn'')
      else if (case rp_checkpoint_lsn_observed st of Some prev \<Rightarrow> snapshot_lsn < prev | None \<Rightarrow> False)
      then Inl (Malformed ''checkpoint snapshot lsn regressed'')
      else Inr (st\<lparr>rp_checkpoint_lsn_observed := Some snapshot_lsn\<rparr>))"

fun apply_record :: "'s replay_sink \<Rightarrow> wal_record \<Rightarrow> nat \<Rightarrow> 's replay_state \<Rightarrow>
    wal_error + 's replay_state" where
  "apply_record sink (Mutation l t event) encoded_len st =
     add_events sink t encoded_len (tx_push event) st"
| "apply_record sink (MutationBatch l t batch) encoded_len st =
     add_events sink t encoded_len (fold tx_push batch) st"
| "apply_record sink (TxBegin l) encoded_len st =
     ebind (withdraw_other_than sink l st) (begin_transaction l)"
| "apply_record sink (TxCommit l t) encoded_len st =
     ebind (withdraw_other_than sink t st) (\<lambda>st.
     ebind (take_pending t st) (\<lambda>(pending, st).
       if t \<in> set (rp_withdrawn st) then Inl (Malformed ''commits after records of another transaction'')
       else emit_step sink (StepCommit (ptx_events pending)) (st\<lparr>rp_streaming := None\<rparr>)))"
| "apply_record sink (TxAbort l t) encoded_len st =
     ebind (take_pending t st) (\<lambda>(_, st).
       if rp_streaming st = Some t
       then emit_step sink StepDiscard (st\<lparr>rp_streaming := None\<rparr>)
       else Inr st)"
| "apply_record sink (Checkpoint l snapshot_lsn) encoded_len st = observe_checkpoint l snapshot_lsn st"

fun replay_record_lsn :: "replay_record \<Rightarrow> lsn" where
  "replay_record_lsn (ReplayBatch l t b) = l"
| "replay_record_lsn (ReplayDecoded r) = record_lsn r"

definition accept_record :: "'s replay_sink \<Rightarrow> replay_record \<Rightarrow> nat \<Rightarrow> lsn \<Rightarrow> lsn \<Rightarrow>
    's replay_state \<Rightarrow> wal_error + 's replay_state" where
  "accept_record sink record' encoded_len segment_base checkpoint_lsn st =
     (let lsn = replay_record_lsn record' in
      ebind (validate_record_lsn lsn segment_base st) (\<lambda>_.
        let st = observe_lsn lsn st in
        (case record' of
           ReplayBatch _ tx_begin_lsn batch \<Rightarrow>
             if lsn \<le> checkpoint_lsn then Inr st
             else add_events sink tx_begin_lsn encoded_len (tx_push_batch batch) st
         | ReplayDecoded r \<Rightarrow>
             if lsn \<le> checkpoint_lsn then Inr (skip_fenced_record r st)
             else apply_record sink r encoded_len st)))"

definition finish_sink :: "'s replay_sink \<Rightarrow> 's replay_state \<Rightarrow> wal_error + 's" where
  "finish_sink sink st =
     (if rp_streaming st \<noteq> None then sink StepDiscard (rp_sink st) else Inr (rp_sink st))"

section \<open>The walk over the segments\<close>

record torn_tail_info =
  tt_segment :: nat
  tt_last_good_offset :: nat
  tt_cause :: wal_error

record corrupt_cut =
  cc_segment :: nat
  cc_offset :: nat
  cc_reason :: string

record replay_outcome =
  ro_max_lsn :: lsn
  ro_torn_tail :: "torn_tail_info option"
  ro_checkpoint_lsn_observed :: "lsn option"
  ro_last_good_offset :: nat
  ro_corrupt_cut :: "corrupt_cut option"

text \<open>\<open>cut_or_fail\<close> of a \<open>WalError::Corrupt\<close>.\<close>

definition cut_or_fail :: "nat \<Rightarrow> nat \<Rightarrow> string \<Rightarrow> bool \<Rightarrow> wal_error + corrupt_cut" where
  "cut_or_fail path offset reason cut_corruption =
     (if cut_corruption then Inr \<lparr>cc_segment = path, cc_offset = offset, cc_reason = reason\<rparr>
      else Inl (Corrupt offset reason))"

type_synonym segment_id = u64

fun check_segment_ids_contiguous :: "segment_id list \<Rightarrow> wal_error + unit" where
  "check_segment_ids_contiguous (prev # next' # ids) =
     (if lsn_checked_next prev \<noteq> Some next' then Inl (Gap ''segments between are missing'')
      else check_segment_ids_contiguous (next' # ids))"
| "check_segment_ids_contiguous _ = Inr ()"

definition saturating_pred :: "u64 \<Rightarrow> u64" where
  "saturating_pred w = (if w = 0 then 0 else w - 1)"

definition check_log_start :: "lsn \<Rightarrow> lsn \<Rightarrow> wal_error + unit" where
  "check_log_start base checkpoint_lsn =
     (if saturating_pred base > checkpoint_lsn
      then Inl (Gap ''the oldest segment starts above the snapshot'') else Inr ())"

text \<open>How the loop over one segment ends.\<close>

datatype segment_end =
    SegmentDone
  | SegmentTorn torn_tail_info
  | SegmentCut corrupt_cut

function replay_segment_loop :: "(u8 list \<Rightarrow> u32) \<Rightarrow> (string \<Rightarrow> string option) \<Rightarrow> 's replay_sink \<Rightarrow>
    nat \<Rightarrow> bool \<Rightarrow> lsn \<Rightarrow> bool \<Rightarrow> segment_reader \<Rightarrow> nat \<Rightarrow> 's replay_state \<Rightarrow>
    wal_error + segment_end \<times> nat \<times> 's replay_state" where
  "replay_segment_loop crc lk sink path may_have_torn_tail checkpoint_lsn cut_corruption reader last_good st =
     (let before = sr_position reader in
      case segment_read_frame crc reader of
        Inr (Some raw, reader') \<Rightarrow>
          let encoded_len = raw_encoded_len raw in
          (case raw_decode_for_replay lk raw of
             Inl err \<Rightarrow> map_sum id (\<lambda>c. (SegmentCut c, before, st))
               (cut_or_fail path before ''payload does not decode'' cut_corruption)
           | Inr record' \<Rightarrow>
               (case accept_record sink record' encoded_len (sh_base_lsn (sr_header reader'))
                   checkpoint_lsn st of
                  Inl e \<Rightarrow> Inl e
                | Inr st' \<Rightarrow> replay_segment_loop crc lk sink path may_have_torn_tail checkpoint_lsn cut_corruption
                    reader' (sr_position reader') st'))
      | Inr (None, _) \<Rightarrow> Inr (SegmentDone, last_good, st)
      | Inl WalIo \<Rightarrow> Inl WalIo
      | Inl cause \<Rightarrow>
          if \<not> may_have_torn_tail
          then map_sum id (\<lambda>c. (SegmentCut c, before, st))
            (cut_or_fail path before ''bad frame in a sealed or older segment'' cut_corruption)
          else (case find_valid_frame_after crc before (rp_last_lsn st) reader of
             Some at \<Rightarrow> map_sum id (\<lambda>c. (SegmentCut c, before, st))
               (cut_or_fail path before ''a valid record follows the bad frame'' cut_corruption)
           | None \<Rightarrow> Inr (SegmentTorn \<lparr>tt_segment = path, tt_last_good_offset = before, tt_cause = cause\<rparr>,
               last_good, st)))"
  by pat_completeness auto

termination
proof (relation "measure (\<lambda>(crc, lk, sink, path, m, c, u, reader, lg, st).
      length (sr_file reader) - sr_position reader)", goal_cases)
  case (2 crc lk sink path m c u reader lg st before p raw' reader' raw encoded_len record' st')
  then have "segment_read_frame crc reader = Inr (Some raw, reader')" by simp
  from segment_read_frame_progress [OF this] show ?case by simp
qed simp

declare replay_segment_loop.simps [simp del]

text \<open>The outer loop: the segments from index \<open>i\<close> on.\<close>

fun replay_loop :: "(u8 list \<Rightarrow> u32) \<Rightarrow> (string \<Rightarrow> string option) \<Rightarrow> 's replay_sink \<Rightarrow> lsn \<Rightarrow> bool \<Rightarrow>
    nat \<Rightarrow> u8 list list \<Rightarrow> nat \<Rightarrow> 's replay_state \<Rightarrow>
    wal_error + torn_tail_info option \<times> corrupt_cut option \<times> nat \<times> 's replay_state" where
  "replay_loop crc lk sink checkpoint_lsn cut_corruption index [] last_good st = Inr (None, None, last_good, st)"
| "replay_loop crc lk sink checkpoint_lsn cut_corruption index (file # files) last_good st =
     ebind (segment_reader_open crc file) (\<lambda>reader.
       let last_good = sr_position reader; segment_base = sh_base_lsn (sr_header reader) in
       ebind (if index = 0 then check_log_start segment_base checkpoint_lsn else Inr ()) (\<lambda>_.
       ebind (validate_segment segment_base st) (\<lambda>st.
       ebind (replay_segment_loop crc lk sink index (files = [] \<and> \<not> sh_sealed (sr_header reader))
           checkpoint_lsn cut_corruption reader last_good st) (\<lambda>(ended, last_good, st).
         case ended of
           SegmentDone \<Rightarrow> replay_loop crc lk sink checkpoint_lsn cut_corruption (index + 1) files last_good st
         | SegmentTorn t \<Rightarrow> Inr (Some t, None, last_good, st)
         | SegmentCut c \<Rightarrow> Inr (None, Some c, last_good, st)))))"

text \<open>The segments of the directory with their ids, in ascending id order, as \<open>SegmentDir::list\<close> returns them.\<close>

definition replay_segments :: "(u8 list \<Rightarrow> u32) \<Rightarrow> (string \<Rightarrow> string option) \<Rightarrow> 's replay_sink \<Rightarrow>
    (segment_id \<times> u8 list) list \<Rightarrow> lsn \<Rightarrow> bool \<Rightarrow> 's \<Rightarrow> wal_error + replay_outcome \<times> 's" where
  "replay_segments crc lk sink paths checkpoint_lsn cut_corruption s =
     ebind (check_segment_ids_contiguous (map fst paths)) (\<lambda>_.
     ebind (replay_loop crc lk sink checkpoint_lsn cut_corruption 0 (map snd paths) SEGMENT_HEADER_LEN
         (replay_state_new s)) (\<lambda>(torn_tail, corrupt, last_good, st).
       map_sum id (\<lambda>s. (\<lparr>ro_max_lsn = rp_max_lsn st, ro_torn_tail = torn_tail,
           ro_checkpoint_lsn_observed = rp_checkpoint_lsn_observed st,
           ro_last_good_offset = last_good, ro_corrupt_cut = corrupt\<rparr>, s)) (finish_sink sink st)))"

end
