(* ===== verification/Replay_Laws.thy ===== *)
theory Replay_Laws
  imports Wal_Replay
begin

text \<open>
  What replay delivers: with the collecting sink, exactly the events of the committed transactions
  above the fence, in commit order, however the transactions were buffered or streamed.
\<close>

section \<open>The abstract log\<close>

text \<open>The mutations a record carries for transaction \<open>t\<close>.\<close>

fun record_events :: "lsn \<Rightarrow> wal_record \<Rightarrow> mutation_event list" where
  "record_events t (Mutation l t' e) = (if t' = t then [e] else [])"
| "record_events t (MutationBatch l t' es) = (if t' = t then es else [])"
| "record_events t _ = []"

definition tx_log :: "lsn \<Rightarrow> wal_record list \<Rightarrow> mutation_event list" where
  "tx_log t rs = concat (map (record_events t) rs)"

text \<open>The events of the transactions that commit, each at its commit record.\<close>

fun commit_events :: "wal_record \<Rightarrow> wal_record list \<Rightarrow> mutation_event list" where
  "commit_events (TxCommit l t) seen = tx_log t seen"
| "commit_events _ seen = []"

fun committed_after :: "wal_record list \<Rightarrow> wal_record list \<Rightarrow> mutation_event list" where
  "committed_after seen [] = []"
| "committed_after seen (r # rs) = commit_events r seen @ committed_after (seen @ [r]) rs"

definition committed :: "wal_record list \<Rightarrow> mutation_event list" where
  "committed rs = committed_after [] rs"

lemma tx_log_Nil [simp]: "tx_log t [] = []"
  by (simp add: tx_log_def)

lemma tx_log_append [simp]: "tx_log t (rs @ [r]) = tx_log t rs @ record_events t r"
  by (simp add: tx_log_def)

lemma committed_after_snoc: "committed_after seen (rs @ [r]) = committed_after seen rs @ commit_events r (seen @ rs)"
  by (induction rs arbitrary: seen) auto

lemma committed_Nil [simp]: "committed [] = []"
  by (simp add: committed_def)

lemma committed_snoc [simp]:
  "committed (rs @ [r]) = committed rs @ commit_events r rs"
  by (simp add: committed_def committed_after_snoc)

section \<open>Buffered events decode\<close>

fun part_stands :: "(string \<Rightarrow> string option) \<Rightarrow> tx_part \<Rightarrow> mutation_event list \<Rightarrow> bool" where
  "part_stands lk (TxEvent e) es \<longleftrightarrow> es = [e]"
| "part_stands lk (TxBatch b) es \<longleftrightarrow>
     decode_events lk (byte_range (eb_start b) (eb_end b) (eb_rest b)) = Inr es"

definition tx_stands :: "(string \<Rightarrow> string option) \<Rightarrow> tx_events \<Rightarrow> mutation_event list \<Rightarrow> bool" where
  "tx_stands lk tx es \<longleftrightarrow> (\<exists>ess. list_all2 (part_stands lk) (tx_parts tx) ess \<and> es = concat ess)"

lemma apply_each_append: "apply_each f (es @ es') s = ebind (apply_each f es s) (apply_each f es')"
  by (induction es arbitrary: s) (auto simp: ebind_def split: sum.splits)

lemma apply_each_collect: "apply_each (\<lambda>e es. Inr (es @ [e])) es acc = Inr (acc @ es)"
  by (induction es arbitrary: acc) simp_all

lemma for_each_part_stands:
  "list_all2 (part_stands lk) ps ess \<Longrightarrow> for_each_part lk conv ps f s = apply_each f (concat ess) s"
proof (induction ps ess arbitrary: s rule: list_all2_induct)
  case (Cons p ps es ess)
  then show ?case
    by (cases p) (simp_all add: apply_each_append batch_for_each_def for_each_decoded ebind_def
        split: sum.splits)
qed simp

lemma tx_into_vec_stands: "tx_stands lk tx es \<Longrightarrow> tx_into_vec lk tx = Inr es"
  by (auto simp: tx_stands_def tx_into_vec_def tx_for_each_def for_each_part_stands apply_each_collect)

lemma tx_stands_default [simp]: "tx_stands lk tx_events_default es \<longleftrightarrow> es = []"
  by (auto simp: tx_stands_def tx_events_default_def)

lemma tx_stands_snoc:
  assumes "tx_stands lk tx es" and "part_stands lk p es'" and "tx_parts tx' = tx_parts tx @ [p]"
  shows "tx_stands lk tx' (es @ es')"
proof -
  obtain ess where "list_all2 (part_stands lk) (tx_parts tx) ess" "es = concat ess"
    using assms(1) by (auto simp: tx_stands_def)
  then show ?thesis
    using assms(2,3) unfolding tx_stands_def
    by (intro exI [of _ "ess @ [es']"]) (simp add: list_all2_appendI)
qed

lemma tx_stands_push: "tx_stands lk tx es \<Longrightarrow> tx_stands lk (tx_push e tx) (es @ [e])"
  by (erule tx_stands_snoc [of _ _ _ "TxEvent e"]) (simp_all add: tx_push_def)

lemma tx_stands_push_batch:
  "tx_stands lk tx es \<Longrightarrow> part_stands lk (TxBatch b) es' \<Longrightarrow> tx_stands lk (tx_push_batch b tx) (es @ es')"
  by (erule tx_stands_snoc) (simp_all add: tx_push_batch_def)

lemma tx_stands_fold: "tx_stands lk tx es \<Longrightarrow> tx_stands lk (fold tx_push es' tx) (es @ es')"
proof (induction es' arbitrary: tx es)
  case (Cons e es')
  from Cons.IH [OF tx_stands_push [OF Cons.prems]] show ?case by simp
qed simp

section \<open>The invariant\<close>

text \<open>
  After the records \<open>seen\<close> above the fence: the sink has the committed events, and behind them those
  the streaming transaction has handed over; a pending transaction holds the rest of its log.
\<close>

definition handed_over :: "wal_record list \<Rightarrow> lsn \<Rightarrow> collect_events replay_state \<Rightarrow> mutation_event list" where
  "handed_over seen t st = (if rp_streaming st = Some t
     then drop (length (committed seen)) (ce_events (rp_sink st)) else [])"

definition sink_ok :: "wal_record list \<Rightarrow> collect_events replay_state \<Rightarrow> bool" where
  "sink_ok seen st \<longleftrightarrow> (case rp_streaming st of
      None \<Rightarrow> rp_sink st = \<lparr>ce_events = committed seen, ce_provisional_from = None\<rparr>
    | Some t \<Rightarrow> (\<exists>es. rp_sink st = \<lparr>ce_events = committed seen @ es,
          ce_provisional_from = Some (length (committed seen))\<rparr>)
        \<and> rp_pending st t \<noteq> None \<and> t \<notin> set (rp_withdrawn st))"

definition pending_ok ::
  "(string \<Rightarrow> string option) \<Rightarrow> lsn \<Rightarrow> wal_record list \<Rightarrow> collect_events replay_state \<Rightarrow> bool" where
  "pending_ok lk fence seen st \<longleftrightarrow> (\<forall>t p. rp_pending st t = Some p \<longrightarrow>
     fence < t \<and> t \<le> rp_last_lsn st \<and> (t \<notin> set (rp_withdrawn st) \<longrightarrow>
       (\<exists>es. tx_stands lk (ptx_events p) es \<and> handed_over seen t st @ es = tx_log t seen)))"

definition replay_ok ::
  "(string \<Rightarrow> string option) \<Rightarrow> lsn \<Rightarrow> wal_record list \<Rightarrow> collect_events replay_state \<Rightarrow> bool" where
  "replay_ok lk fence seen st \<longleftrightarrow> sink_ok seen st \<and> pending_ok lk fence seen st \<and>
     (\<forall>t > rp_last_lsn st. tx_log t seen = [])"

lemma replay_ok_new [simp]: "replay_ok lk fence [] (replay_state_new collect_default)"
  by (simp add: replay_ok_def sink_ok_def pending_ok_def replay_state_new_def collect_default_def)

section \<open>One record\<close>

lemma emit_discard:
  assumes "sink_ok seen st" and "rp_streaming st \<noteq> None"
  shows "emit_step (collect_step lk) StepDiscard (st\<lparr>rp_streaming := None, rp_withdrawn := w\<rparr>) =
    Inr (st\<lparr>rp_streaming := None, rp_withdrawn := w,
      rp_sink := \<lparr>ce_events = committed seen, ce_provisional_from = None\<rparr>\<rparr>)"
  using assms by (auto simp: emit_step_def collect_step_def sink_ok_def)

lemma withdraw_ok:
  assumes "replay_ok lk fence seen st"
  shows "\<exists>st'. withdraw_other_than (collect_step lk) t st = Inr st' \<and> replay_ok lk fence seen st' \<and>
    rp_streaming st' \<in> {None, Some t} \<and> rp_pending st' = rp_pending st \<and>
    rp_last_lsn st' = rp_last_lsn st"
proof (cases "rp_streaming st = None \<or> rp_streaming st = Some t")
  case True
  then show ?thesis using assms by (auto simp: withdraw_other_than_def)
next
  case False
  then obtain s where s: "rp_streaming st = Some s" "s \<noteq> t" by auto
  let ?st = "st\<lparr>rp_streaming := None, rp_withdrawn := rp_withdrawn st @ [s],
    rp_sink := \<lparr>ce_events = committed seen, ce_provisional_from = None\<rparr>\<rparr>"
  have "withdraw_other_than (collect_step lk) t st = Inr ?st"
    using s emit_discard [of seen st lk "rp_withdrawn st @ [s]"] assms
    by (simp add: withdraw_other_than_def replay_ok_def)
  moreover have "replay_ok lk fence seen ?st"
    using assms s unfolding replay_ok_def sink_ok_def pending_ok_def handed_over_def by fastforce
  ultimately show ?thesis by auto
qed

lemma replay_ok_skip:
  assumes "replay_ok lk fence seen st" and "\<forall>t. record_events t r = []" and "commit_events r seen = []"
  shows "replay_ok lk fence (seen @ [r]) st"
proof -
  have c: "committed (seen @ [r]) = committed seen" and l: "tx_log t (seen @ [r]) = tx_log t seen" for t
    using assms(2,3) by simp_all
  show ?thesis
    using assms(1) unfolding replay_ok_def sink_ok_def pending_ok_def handed_over_def c l .
qed

lemma replay_ok_fields:
  assumes "replay_ok lk fence seen st" and "rp_pending st' = rp_pending st"
    and "rp_streaming st' = rp_streaming st" and "rp_withdrawn st' = rp_withdrawn st"
    and "rp_sink st' = rp_sink st" and "rp_last_lsn st' = rp_last_lsn st"
  shows "replay_ok lk fence seen st'"
  using assms(1) unfolding replay_ok_def sink_ok_def pending_ok_def handed_over_def assms(2-6) .

lemma pending_ok_drop:
  assumes "pending_ok lk fence seen st" and "rp_pending st' = (rp_pending st)(t := None)"
    and "rp_withdrawn st' = rp_withdrawn st" and "rp_last_lsn st' = rp_last_lsn st"
    and "\<And>t'. t' \<noteq> t \<Longrightarrow> handed_over seen t' st' = handed_over seen t' st"
  shows "pending_ok lk fence seen st'"
  using assms by (simp add: pending_ok_def)

lemma pending_okD:
  assumes "pending_ok lk fence seen st" and "rp_pending st t = Some p"
  shows "fence < t" and "t \<le> rp_last_lsn st"
    and "t \<notin> set (rp_withdrawn st) \<Longrightarrow>
      \<exists>es. tx_stands lk (ptx_events p) es \<and> handed_over seen t st @ es = tx_log t seen"
  using assms by (auto simp: pending_ok_def)

text \<open>Adding a mutation record's events to their transaction.\<close>

lemma add_events_ok:
  assumes ok: "replay_ok lk fence seen st"
    and add: "\<And>tx es. tx_stands lk tx es \<Longrightarrow> tx_stands lk (add tx) (es @ new)"
    and r: "\<And>t'. record_events t' r = (if t' = t then new else [])" "commit_events r seen = []"
    and run: "add_events (collect_step lk) t n add st = Inr st'"
  shows "replay_ok lk fence (seen @ [r]) st' \<and> rp_last_lsn st' = rp_last_lsn st"
proof -
  obtain s1 where w: "withdraw_other_than (collect_step lk) t st = Inr s1" and ok1: "replay_ok lk fence seen s1"
    and strm: "rp_streaming s1 \<in> {None, Some t}" and last: "rp_last_lsn s1 = rp_last_lsn st"
    using withdraw_ok [OF ok] by blast
  from run obtain p where p: "rp_pending s1 t = Some p"
    by (auto simp: add_events_def w missing_tx_begin_def split: option.splits)
  have sok: "sink_ok seen s1" and pok: "pending_ok lk fence seen s1"
    and fresh: "\<forall>t > rp_last_lsn s1. tx_log t seen = []" using ok1 by (auto simp: replay_ok_def)
  have t: "fence < t" "t \<le> rp_last_lsn s1" using pending_okD [OF pok p] by auto
  let ?p = "\<lparr>ptx_events = add (ptx_events p), ptx_bytes = saturating_add (ptx_bytes p) n\<rparr>"
  have fresh': "\<forall>t' > rp_last_lsn s1. tx_log t' (seen @ [r]) = []" using fresh t(2) r(1) by auto
  have other: "tx_log t' (seen @ [r]) = tx_log t' seen" if "t' \<noteq> t" for t' using r(1) that by simp
  show ?thesis
  proof (cases "ptx_bytes ?p \<ge> PENDING_BUDGET_BYTES \<and> t \<notin> set (rp_withdrawn s1)")
    case False
    then have st': "st' = s1\<lparr>rp_pending := (rp_pending s1)(t \<mapsto> ?p)\<rparr>"
      using run by (auto simp: add_events_def w p Let_def)
    have "sink_ok (seen @ [r]) st'" using sok r(2) by (auto simp: st' sink_ok_def split: option.splits)
    moreover have "pending_ok lk fence (seen @ [r]) st'"
      unfolding pending_ok_def
    proof (intro allI impI conjI)
      fix t' p' assume p': "rp_pending st' t' = Some p'"
      show "fence < t'" "t' \<le> rp_last_lsn st'"
        using p' t pending_okD(1,2) [OF pok, of t'] by (auto simp: st' split: if_splits)
      assume nw: "t' \<notin> set (rp_withdrawn st')"
      have h: "handed_over (seen @ [r]) t' st' = handed_over seen t' s1"
        using r(2) by (simp add: handed_over_def st')
      show "\<exists>es. tx_stands lk (ptx_events p') es \<and> handed_over (seen @ [r]) t' st' @ es
          = tx_log t' (seen @ [r])"
      proof (cases "t' = t")
        case True
        then obtain es where "tx_stands lk (ptx_events p) es" "handed_over seen t s1 @ es = tx_log t seen"
          using pending_okD(3) [OF pok p] nw by (auto simp: st')
        then show ?thesis
          using True p' add r(1) h by (intro exI [of _ "es @ new"]) (auto simp: st')
      next
        case False
        then show ?thesis using p' nw pending_okD(3) [OF pok, of t' p'] h other
          by (auto simp: st')
      qed
    qed
    ultimately show ?thesis using fresh' last by (simp add: replay_ok_def st')
  next
    case True
    obtain es where es: "tx_stands lk (ptx_events p) es" "handed_over seen t s1 @ es = tx_log t seen"
      using pending_okD(3) [OF pok p] True by auto
    have vec: "tx_into_vec lk (add (ptx_events p)) = Inr (es @ new)"
      by (rule tx_into_vec_stands [OF add [OF es(1)]])
    let ?c = "\<lparr>ce_events = committed seen @ tx_log t (seen @ [r]),
      ce_provisional_from = Some (length (committed seen))\<rparr>"
    have hand: "committed seen @ handed_over seen t s1 = ce_events (rp_sink s1)"
      using sok strm by (auto simp: sink_ok_def handed_over_def)
    have ev: "ce_events (rp_sink s1) @ es @ new = committed seen @ tx_log t (seen @ [r])"
    proof -
      have "handed_over seen t s1 @ es @ new = tx_log t (seen @ [r])"
        unfolding tx_log_append r(1) using es(2) by (metis append_assoc)
      then show ?thesis unfolding hand [symmetric] by (simp only: append_assoc)
    qed
    have "collect_step lk (StepPartial (add (ptx_events p))) (rp_sink s1) = Inr ?c"
      using sok strm ev by (auto simp: collect_step_def vec sink_ok_def)
    then have st': "st' = s1\<lparr>rp_pending := (rp_pending s1)(t \<mapsto> pending_default),
        rp_streaming := Some t, rp_sink := ?c\<rparr>"
      using run True by (simp add: add_events_def w p Let_def emit_step_def)
    have "sink_ok (seen @ [r]) st'" using True r(2) by (simp add: st' sink_ok_def)
    moreover have "pending_ok lk fence (seen @ [r]) st'"
      unfolding pending_ok_def
    proof (intro allI impI conjI)
      fix t' p' assume p': "rp_pending st' t' = Some p'"
      show "fence < t'" "t' \<le> rp_last_lsn st'"
        using p' t pending_okD(1,2) [OF pok, of t'] by (auto simp: st' split: if_splits)
      assume nw: "t' \<notin> set (rp_withdrawn st')"
      show "\<exists>es. tx_stands lk (ptx_events p') es \<and> handed_over (seen @ [r]) t' st' @ es
          = tx_log t' (seen @ [r])"
      proof (cases "t' = t")
        case True
        then show ?thesis using p' r(2) by (auto simp: st' handed_over_def pending_default_def)
      next
        case False
        then have "handed_over seen t' s1 = []" using strm by (auto simp: handed_over_def)
        then show ?thesis
          using False p' nw pending_okD(3) [OF pok, of t' p'] other
          by (auto simp: st' handed_over_def)
      qed
    qed
    ultimately show ?thesis using fresh' last by (simp add: replay_ok_def st')
  qed
qed

lemma begin_ok:
  assumes ok: "replay_ok lk fence seen st" and new: "rp_last_lsn st = l" "fence < l" "rp_streaming st \<in> {None, Some l}"
    and unused: "rp_pending st l = None" "tx_log l seen = []"
    and run: "begin_transaction l st = Inr st'"
  shows "replay_ok lk fence (seen @ [TxBegin l]) st' \<and> rp_last_lsn st' = rp_last_lsn st"
proof -
  have st': "st' = st\<lparr>rp_pending := (rp_pending st)(l \<mapsto> pending_default)\<rparr>"
    using run by (auto simp: begin_transaction_def split: if_splits)
  have strm: "rp_streaming st = None" using ok new unused by (auto simp: replay_ok_def sink_ok_def)
  have "replay_ok lk fence seen st'"
    using ok new unused strm unfolding replay_ok_def sink_ok_def pending_ok_def handed_over_def st'
    by (auto simp: pending_default_def)
  then show ?thesis by (auto simp: st' intro: replay_ok_skip)
qed

lemma take_pending_Inr:
  "take_pending t st = Inr (p, st') \<longleftrightarrow>
     rp_pending st t = Some p \<and> st' = st\<lparr>rp_pending := (rp_pending st)(t := None)\<rparr>"
  by (auto simp: take_pending_def missing_tx_begin_def split: option.splits)

lemma commit_ok:
  assumes ok: "replay_ok lk fence seen st"
    and run: "apply_record (collect_step lk) (TxCommit l t) n st = Inr st'"
  shows "replay_ok lk fence (seen @ [TxCommit l t]) st' \<and> rp_last_lsn st' = rp_last_lsn st"
proof -
  obtain s1 where w: "withdraw_other_than (collect_step lk) t st = Inr s1" and ok1: "replay_ok lk fence seen s1"
    and strm: "rp_streaming s1 \<in> {None, Some t}" and last: "rp_last_lsn s1 = rp_last_lsn st"
    using withdraw_ok [OF ok] by blast
  from run obtain p where p: "rp_pending s1 t = Some p" and nw: "t \<notin> set (rp_withdrawn s1)"
    by (auto simp: w take_pending_Inr split: if_splits)
  have sok: "sink_ok seen s1" and pok: "pending_ok lk fence seen s1" using ok1 by (auto simp: replay_ok_def)
  obtain es where es: "tx_stands lk (ptx_events p) es" "handed_over seen t s1 @ es = tx_log t seen"
    using pending_okD(3) [OF pok p nw] by blast
  have hand: "ce_events (rp_sink s1) = committed seen @ handed_over seen t s1"
    using sok strm by (auto simp: sink_ok_def handed_over_def)
  have all: "ce_events (rp_sink s1) @ es = committed seen @ tx_log t seen"
    unfolding hand using es(2) by simp
  let ?c = "\<lparr>ce_events = committed seen @ tx_log t seen, ce_provisional_from = None\<rparr>"
  have "collect_step lk (StepCommit (ptx_events p)) (rp_sink s1) = Inr ?c"
    using sok strm all by (auto simp: collect_step_def tx_into_vec_stands [OF es(1)] sink_ok_def)
  then have st': "st' = s1\<lparr>rp_pending := (rp_pending s1)(t := None), rp_streaming := None, rp_sink := ?c\<rparr>"
    using run nw p by (simp add: w take_pending_def emit_step_def)
  have l: "tx_log t' (seen @ [TxCommit l t]) = tx_log t' seen" for t' by simp
  have "pending_ok lk fence (seen @ [TxCommit l t]) st'"
    unfolding pending_ok_def l
  proof (intro allI impI conjI)
    fix t' p' assume p': "rp_pending st' t' = Some p'"
    then have t': "rp_pending s1 t' = Some p'" "t' \<noteq> t" by (auto simp: st' split: if_splits)
    show "fence < t'" "t' \<le> rp_last_lsn st'" using pending_okD(1,2) [OF pok t'(1)] by (auto simp: st')
    assume "t' \<notin> set (rp_withdrawn st')"
    moreover have "handed_over seen t' s1 = []" using strm t'(2) by (auto simp: handed_over_def)
    ultimately show "\<exists>es. tx_stands lk (ptx_events p') es \<and>
        handed_over (seen @ [TxCommit l t]) t' st' @ es = tx_log t' seen"
      using pending_okD(3) [OF pok t'(1)] by (simp add: st' handed_over_def)
  qed
  moreover have "sink_ok (seen @ [TxCommit l t]) st'" by (simp add: st' sink_ok_def)
  ultimately show ?thesis using ok1 last by (simp add: replay_ok_def st')
qed

lemma abort_ok:
  assumes ok: "replay_ok lk fence seen st"
    and run: "apply_record (collect_step lk) (TxAbort l t) n st = Inr st'"
  shows "replay_ok lk fence (seen @ [TxAbort l t]) st' \<and> rp_last_lsn st' = rp_last_lsn st"
proof -
  from run obtain p where p: "rp_pending st t = Some p"
    by (auto simp: take_pending_Inr split: if_splits)
  have sok: "sink_ok seen st" and pok: "pending_ok lk fence seen st"
    and fresh: "\<forall>t > rp_last_lsn st. tx_log t seen = []" using ok by (auto simp: replay_ok_def)
  have "replay_ok lk fence seen st' \<and> rp_last_lsn st' = rp_last_lsn st"
  proof (cases "rp_streaming st = Some t")
    case True
    then have st': "st' = st\<lparr>rp_pending := (rp_pending st)(t := None), rp_streaming := None,
        rp_sink := \<lparr>ce_events = committed seen, ce_provisional_from = None\<rparr>\<rparr>"
      using run p sok by (auto simp: take_pending_def emit_step_def collect_step_def sink_ok_def)
    have "pending_ok lk fence seen st'"
      by (rule pending_ok_drop [OF pok, of _ t]) (use True in \<open>auto simp: st' handed_over_def\<close>)
    then show ?thesis using fresh by (simp add: replay_ok_def sink_ok_def st')
  next
    case False
    then have st': "st' = st\<lparr>rp_pending := (rp_pending st)(t := None)\<rparr>"
      using run p by (simp add: take_pending_def)
    have "pending_ok lk fence seen st'"
      by (rule pending_ok_drop [OF pok, of _ t]) (simp_all add: st' handed_over_def)
    then show ?thesis using fresh sok False by (auto simp: replay_ok_def sink_ok_def st' split: option.splits)
  qed
  then show ?thesis by (auto intro: replay_ok_skip)
qed

lemma checkpoint_ok:
  assumes "replay_ok lk fence seen st" and "observe_checkpoint l s st = Inr st'"
  shows "replay_ok lk fence (seen @ [Checkpoint l s]) st' \<and> rp_last_lsn st' = rp_last_lsn st"
proof -
  have "st' = st\<lparr>rp_checkpoint_lsn_observed := Some s\<rparr>"
    using assms(2) by (auto simp: observe_checkpoint_def split: if_splits)
  then have "replay_ok lk fence seen st' \<and> rp_last_lsn st' = rp_last_lsn st"
    using replay_ok_fields [OF assms(1), of st'] by simp
  then show ?thesis by (auto intro: replay_ok_skip)
qed

lemma observe_lsn_fields [simp]:
  "rp_pending (observe_lsn l st) = rp_pending st" "rp_streaming (observe_lsn l st) = rp_streaming st"
  "rp_withdrawn (observe_lsn l st) = rp_withdrawn st" "rp_sink (observe_lsn l st) = rp_sink st"
  "rp_last_lsn (observe_lsn l st) = l"
  "rp_last_segment_base (observe_lsn l st) = rp_last_segment_base st"
  "rp_checkpoint_lsn_observed (observe_lsn l st) = rp_checkpoint_lsn_observed st"
  by (simp_all add: observe_lsn_def Let_def)

lemma observe_ok:
  assumes "replay_ok lk fence seen st" and "rp_last_lsn st \<le> l"
  shows "replay_ok lk fence seen (observe_lsn l st)"
  using assms
  unfolding replay_ok_def sink_ok_def pending_ok_def handed_over_def observe_lsn_fields
  by (meson order.trans order.strict_trans1)

text \<open>Below the fence nothing is pending, so there is nothing to clean up.\<close>

lemma skip_fenced_ok:
  assumes ok: "replay_ok lk fence seen st" and below: "rp_last_lsn st \<le> fence"
  shows "skip_fenced_record r st = st"
proof -
  have "rp_pending st t = None" for t
  proof (cases "rp_pending st t")
    case (Some p)
    then have "fence < t" "t \<le> rp_last_lsn st" using ok pending_okD(1,2) by (auto simp: replay_ok_def)
    with below show ?thesis by simp
  qed
  then show ?thesis by (cases r) (simp_all add: fun_upd_idem)
qed

section \<open>Accepting records\<close>

lemma accept_ok:
  assumes ok: "replay_ok lk fence seen st" and r: "stands_for lk rr r"
    and run: "accept_record (collect_step lk) rr n base fence st = Inr st'"
  shows "replay_ok lk fence (if record_lsn r \<le> fence then seen else seen @ [r]) st' \<and>
    rp_last_lsn st' = record_lsn r"
proof -
  let ?st = "observe_lsn (record_lsn r) st"
  have lsn: "replay_record_lsn rr = record_lsn r" using r by (cases rr) auto
  have v: "validate_record_lsn (record_lsn r) base st = Inr ()"
    using run by (simp add: accept_record_def Let_def lsn)
  have go: "(case rr of
       ReplayBatch _ t b \<Rightarrow> if record_lsn r \<le> fence then Inr ?st
         else add_events (collect_step lk) t n (tx_push_batch b) ?st
     | ReplayDecoded r' \<Rightarrow> if record_lsn r \<le> fence then Inr (skip_fenced_record r' ?st)
         else apply_record (collect_step lk) r' n ?st) = Inr st'"
    using run by (simp add: accept_record_def Let_def lsn v)
  have above: "rp_last_lsn st \<noteq> 0 \<Longrightarrow> rp_last_lsn st < record_lsn r"
    using v by (auto simp: validate_record_lsn_def not_le split: if_splits)
  have "rp_last_lsn st \<le> record_lsn r"
    using above by (cases "rp_last_lsn st = 0") auto
  then have ok1: "replay_ok lk fence seen ?st" using observe_ok [OF ok] by blast
  show ?thesis
  proof (cases "record_lsn r \<le> fence")
    case True
    have "skip_fenced_record r' ?st = ?st" for r' by (rule skip_fenced_ok [OF ok1]) (simp add: True)
    then have "st' = ?st" using go True by (simp split: replay_record.splits)
    with ok1 True show ?thesis by simp
  next
    case False
    have "replay_ok lk fence (seen @ [r]) st' \<and> rp_last_lsn st' = rp_last_lsn ?st"
    proof (cases rr)
      case (ReplayBatch l t b)
      then obtain es where es: "r = MutationBatch l t es"
        "decode_events lk (byte_range (eb_start b) (eb_end b) (eb_rest b)) = Inr es"
        using r by auto
      have run: "add_events (collect_step lk) t n (tx_push_batch b) ?st = Inr st'"
        using go ReplayBatch False by simp
      show ?thesis
        by (rule add_events_ok [OF ok1 _ _ _ run, where new = es])
          (use es in \<open>auto intro: tx_stands_push_batch\<close>)
    next
      case (ReplayDecoded r')
      then have "r' = r" using r by simp
      with go ReplayDecoded False have run: "apply_record (collect_step lk) r n ?st = Inr st'" by simp
      show ?thesis
      proof (cases r)
        case (Mutation l t e)
        have run: "add_events (collect_step lk) t n (tx_push e) ?st = Inr st'" using run Mutation by simp
        show ?thesis
          by (rule add_events_ok [OF ok1 _ _ _ run, where new = "[e]"])
            (simp_all add: Mutation tx_stands_push)
      next
        case (MutationBatch l t es)
        have run: "add_events (collect_step lk) t n (fold tx_push es) ?st = Inr st'"
          using run MutationBatch by simp
        show ?thesis
          by (rule add_events_ok [OF ok1 _ _ _ run, where new = es])
            (simp_all add: MutationBatch tx_stands_fold)
      next
        case (TxBegin l)
        obtain s1 where w: "withdraw_other_than (collect_step lk) l ?st = Inr s1"
          and s1: "replay_ok lk fence seen s1" "rp_streaming s1 \<in> {None, Some l}"
            "rp_pending s1 = rp_pending ?st" "rp_last_lsn s1 = rp_last_lsn ?st"
          using withdraw_ok [OF ok1] by blast
        have "l \<noteq> 0" using False TxBegin by auto
        then have fresh: "rp_last_lsn st < l"
          using above False TxBegin by (cases "rp_last_lsn st = 0") (auto simp: word_neq_0_conv)
        have "rp_pending st l = None"
          using fresh ok pending_okD(2) [of lk fence seen st l]
          by (cases "rp_pending st l") (auto simp: replay_ok_def not_le [symmetric])
        moreover have "tx_log l seen = []" using fresh ok by (simp add: replay_ok_def)
        moreover have "begin_transaction l s1 = Inr st'" using run TxBegin w by simp
        moreover have "fence < l" using False TxBegin by auto
        ultimately show ?thesis
          using begin_ok [OF s1(1), of l st'] s1 TxBegin by simp
      next
        case (TxCommit l t)
        show ?thesis using commit_ok [OF ok1] run unfolding TxCommit by blast
      next
        case (TxAbort l t)
        show ?thesis using abort_ok [OF ok1] run unfolding TxAbort by blast
      next
        case (Checkpoint l s)
        then show ?thesis using checkpoint_ok [OF ok1, of l s st'] run by simp
      qed
    qed
    with False show ?thesis by simp
  qed
qed

end
