(* ===== verification/Replay_Log.thy ===== *)
theory Replay_Log
  imports Replay_Laws
begin

text \<open>
  Replay over whole segment files: what it hands on is a function of the records the files hold, and
  a log as the writer leaves it, torn tail included, replays to its committed transactions.
\<close>

section \<open>The records of a file\<close>

lemma segment_read_record_Some:
  "segment_read_record crc lk sr = Inr (Some r, sr') \<longleftrightarrow>
     (\<exists>raw. segment_read_frame crc sr = Inr (Some raw, sr') \<and> raw_decode lk raw = Inr r)"
  by (auto simp: segment_read_record_def map_sum_eq_Inr split: option.splits)

text \<open>The records from the reader's position to the first that cannot be read or decoded.\<close>

function segment_records ::
  "(u8 list \<Rightarrow> u32) \<Rightarrow> (string \<Rightarrow> string option) \<Rightarrow> segment_reader \<Rightarrow> wal_record list" where
  "segment_records crc lk sr = (case segment_read_record crc lk sr of
      Inr (Some r, sr') \<Rightarrow> r # segment_records crc lk sr'
    | _ \<Rightarrow> [])"
  by pat_completeness auto

termination
proof (relation "measure (\<lambda>(crc, lk, sr). length (sr_file sr) - sr_position sr)", goal_cases)
  case (2 crc lk sr p rec sr' r)
  then obtain raw where "segment_read_frame crc sr = Inr (Some raw, sr')"
    by (auto simp: segment_read_record_Some)
  from segment_read_frame_progress [OF this] show ?case by simp
qed simp

declare segment_records.simps [simp del]

definition file_records ::
  "(u8 list \<Rightarrow> u32) \<Rightarrow> (string \<Rightarrow> string option) \<Rightarrow> u8 list \<Rightarrow> wal_record list" where
  "file_records crc lk file = (case segment_reader_open crc file of
      Inl _ \<Rightarrow> [] | Inr sr \<Rightarrow> segment_records crc lk sr)"

lemma segment_records_frame:
  assumes "segment_read_frame crc sr = Inr (Some raw, sr')" and "raw_decode lk raw = Inr r"
  shows "segment_records crc lk sr = r # segment_records crc lk sr'"
proof -
  have "segment_read_record crc lk sr = Inr (Some r, sr')"
    unfolding segment_read_record_Some using assms by blast
  then show ?thesis by (subst segment_records.simps) simp
qed

lemma segment_records_stop:
  assumes "\<And>raw sr'. segment_read_frame crc sr = Inr (Some raw, sr') \<Longrightarrow> \<exists>e. raw_decode lk raw = Inl e"
  shows "segment_records crc lk sr = []"
proof -
  have "\<nexists>r sr'. segment_read_record crc lk sr = Inr (Some r, sr')"
    unfolding segment_read_record_Some using assms by fastforce
  then show ?thesis
    by (subst segment_records.simps) (auto split: sum.splits option.splits)
qed

abbreviation past :: "lsn \<Rightarrow> wal_record list \<Rightarrow> wal_record list" where
  "past fence rs \<equiv> filter (\<lambda>r. \<not> record_lsn r \<le> fence) rs"

lemma frame_replay_decode:
  assumes "segment_read_frame crc sr = Inr (Some raw, sr')"
  shows "case raw_decode lk raw of
      Inl e \<Rightarrow> raw_decode_for_replay lk raw = Inl e
    | Inr r \<Rightarrow> (\<exists>rr. raw_decode_for_replay lk raw = Inr rr \<and> stands_for lk rr r)"
proof (rule replay_decode)
  have "raw_encoded_len raw \<le> MAX_RECORD_LEN" using segment_read_frame_progress [OF assms] by simp
  then show "length (raw_rest raw) \<le> isize_max"
    by (simp add: raw_encoded_len_def MAX_RECORD_LEN_def isize_max_def)
qed

lemma segment_loop_ok:
  assumes "replay_ok lk fence seen st"
    and "replay_segment_loop crc lk (collect_step lk) path torn fence cut_corruption sr lg st =
      Inr (ended, lg', st')"
  shows "replay_ok lk fence (seen @ past fence (segment_records crc lk sr)) st'"
  using assms
proof (induction crc lk "collect_step lk" path torn fence cut_corruption sr lg st
    arbitrary: seen rule: replay_segment_loop.induct)
  case (1 crc lk path torn fence cut_corruption sr lg st)
  note loop = 1(3) [unfolded replay_segment_loop.simps [of crc lk "collect_step lk" path torn fence
        cut_corruption sr] Let_def]
  show ?case
  proof (cases "segment_read_frame crc sr")
    case (Inl e)
    then have "segment_records crc lk sr = []" by (intro segment_records_stop) simp
    moreover have "st' = st" using loop Inl
      by (auto split: wal_error.splits if_splits option.splits)
    ultimately show ?thesis using 1(2) by simp
  next
    case (Inr p)
    obtain ro sr' where p: "p = (ro, sr')" by (cases p)
    show ?thesis
    proof (cases ro)
      case None
      then have "segment_records crc lk sr = []" using Inr p by (intro segment_records_stop) simp
      moreover have "st' = st" using loop Inr p None by simp
      ultimately show ?thesis using 1(2) by simp
    next
      case (Some raw)
      with Inr p have frame: "segment_read_frame crc sr = Inr (Some raw, sr')" by simp
      note dec = frame_replay_decode [OF frame, of lk]
      show ?thesis
      proof (cases "raw_decode lk raw")
        case (Inl e)
        then have "segment_records crc lk sr = []" using frame by (intro segment_records_stop) simp
        moreover have "st' = st" using loop frame dec Inl by auto
        ultimately show ?thesis using 1(2) by simp
      next
        case (Inr r)
        then obtain rr where rr: "raw_decode_for_replay lk raw = Inr rr" "stands_for lk rr r"
          using dec by auto
        obtain s1 where s1: "accept_record (collect_step lk) rr (raw_encoded_len raw)
            (sh_base_lsn (sr_header sr')) fence st = Inr s1"
          using loop frame rr by (auto split: sum.splits)
        have ok1: "replay_ok lk fence (if record_lsn r \<le> fence then seen else seen @ [r]) s1"
          using accept_ok [OF 1(2) rr(2) s1] by simp
        have rest: "replay_segment_loop crc lk (collect_step lk) path torn fence cut_corruption sr'
            (sr_position sr') s1 = Inr (ended, lg', st')"
          using loop frame rr s1 by simp
        show ?thesis
          using 1(1) [OF refl frame refl refl refl rr(1) s1 ok1 rest]
          by (cases "record_lsn r \<le> fence") (simp_all add: segment_records_frame [OF frame Inr])
      qed
    qed
  qed
qed

lemma segment_loop_end:
  assumes "replay_segment_loop crc lk sink path torn fence cut_corruption sr lg st = Inr (ended, lg', st')"
  shows "case ended of SegmentDone \<Rightarrow> True | SegmentTorn t \<Rightarrow> torn
    | SegmentCut c \<Rightarrow> cut_corruption \<and> cc_segment c = path"
  using assms
proof (induction crc lk sink path torn fence cut_corruption sr lg st rule: replay_segment_loop.induct)
  case (1 crc lk sink path torn fence cut_corruption sr lg st)
  note loop = 1(2) [unfolded replay_segment_loop.simps [of crc lk sink path torn fence
        cut_corruption sr] Let_def]
  show ?case
  proof (cases "segment_read_frame crc sr")
    case (Inl e)
    then show ?thesis using loop
      by (auto simp: cut_or_fail_def split: wal_error.splits if_splits option.splits)
  next
    case (Inr p)
    obtain ro sr' where p: "p = (ro, sr')" by (cases p)
    show ?thesis
    proof (cases ro)
      case None
      then show ?thesis using loop Inr p by auto
    next
      case (Some raw)
      with Inr p have frame: "segment_read_frame crc sr = Inr (Some raw, sr')" by simp
      show ?thesis
      proof (cases "raw_decode_for_replay lk raw")
        case (Inl e)
        then show ?thesis using loop frame by (auto simp: cut_or_fail_def split: if_splits)
      next
        case (Inr rr)
        then obtain s1 where "accept_record sink rr (raw_encoded_len raw)
            (sh_base_lsn (sr_header sr')) fence st = Inr s1"
          using loop frame by (auto split: sum.splits)
        then show ?thesis using 1(1) [OF refl frame refl refl refl Inr] loop frame Inr by simp
      qed
    qed
  qed
qed

section \<open>The records of a log\<close>

definition log_records ::
  "(u8 list \<Rightarrow> u32) \<Rightarrow> (string \<Rightarrow> string option) \<Rightarrow> u8 list list \<Rightarrow> wal_record list" where
  "log_records crc lk files = concat (map (file_records crc lk) files)"

lemma log_records_simps [simp]:
  "log_records crc lk [] = []"
  "log_records crc lk (f # fs) = file_records crc lk f @ log_records crc lk fs"
  by (simp_all add: log_records_def)

lemma replay_loop_ok:
  assumes "replay_ok lk fence seen st"
    and "replay_loop crc lk (collect_step lk) fence cut_corruption i files lg st = Inr (torn, corrupt, lg', st')"
  shows "replay_ok lk fence (seen @ past fence (log_records crc lk
      (case corrupt of None \<Rightarrow> files | Some c \<Rightarrow> take (Suc (cc_segment c) - i) files))) st' \<and>
    (\<forall>c. corrupt = Some c \<longrightarrow> i \<le> cc_segment c)"
  using assms
proof (induction files arbitrary: i lg st seen)
  case Nil
  then show ?case by auto
next
  case (Cons f files)
  from Cons.prems(2) obtain sr s1 ended lg1 s2 where
    sr: "segment_reader_open crc f = Inr sr"
    and s1: "validate_segment (sh_base_lsn (sr_header sr)) st = Inr s1"
    and s2: "replay_segment_loop crc lk (collect_step lk) i (files = [] \<and> \<not> sh_sealed (sr_header sr))
        fence cut_corruption sr (sr_position sr) s1 = Inr (ended, lg1, s2)"
    and rest: "(case ended of
        SegmentDone \<Rightarrow> replay_loop crc lk (collect_step lk) fence cut_corruption (i + 1) files lg1 s2
      | SegmentTorn t \<Rightarrow> Inr (Some t, None, lg1, s2)
      | SegmentCut c \<Rightarrow> Inr (None, Some c, lg1, s2)) = Inr (torn, corrupt, lg', st')"
    by (auto simp: Let_def)
  have ok1: "replay_ok lk fence seen s1"
    by (rule replay_ok_fields [OF Cons.prems(1)])
      (use s1 in \<open>auto simp: validate_segment_def split: if_splits\<close>)
  have ok2: "replay_ok lk fence (seen @ past fence (file_records crc lk f)) s2"
    using segment_loop_ok [OF ok1 s2] by (simp add: file_records_def sr)
  show ?case
  proof (cases ended)
    case SegmentDone
    with Cons.IH [OF ok2, of "i + 1" lg1] rest show ?thesis
      by (auto simp: Suc_diff_le split: option.splits)
  next
    case (SegmentTorn t)
    have "files = []"
      using segment_loop_end [OF s2] SegmentTorn by simp
    with SegmentTorn rest ok2 show ?thesis by auto
  next
    case (SegmentCut c)
    have "cc_segment c = i" using segment_loop_end [OF s2] SegmentCut by simp
    with SegmentCut rest ok2 show ?thesis by (auto simp: Suc_diff_le)
  qed
qed

lemma finish_ok:
  assumes "replay_ok lk fence seen st"
  shows "finish_sink (collect_step lk) st = Inr \<lparr>ce_events = committed seen, ce_provisional_from = None\<rparr>"
  using assms by (auto simp: replay_ok_def sink_ok_def finish_sink_def collect_step_def split: option.splits)

text \<open>
  C9. Atomic recovery: whatever the files hold, a replay that succeeds hands on exactly the events of
  the transactions that commit above the fence, in commit order, up to the point where it cut a
  corrupt log; buffering and streaming of large transactions do not show.
\<close>

theorem replay_delivers_committed:
  assumes "replay_segments crc lk (collect_step lk) paths fence cut_corruption collect_default = Inr (out, c)"
  shows "ce_events c = committed (past fence (log_records crc lk (map snd (case ro_corrupt_cut out of
      None \<Rightarrow> paths | Some cc \<Rightarrow> take (Suc (cc_segment cc)) paths))))"
proof -
  from assms obtain torn corrupt lg st where
    loop: "replay_loop crc lk (collect_step lk) fence cut_corruption 0 (map snd paths) SEGMENT_HEADER_LEN
        (replay_state_new collect_default) = Inr (torn, corrupt, lg, st)"
    and fin: "finish_sink (collect_step lk) st = Inr c" and out: "ro_corrupt_cut out = corrupt"
    by (auto simp: replay_segments_def)
  from replay_loop_ok [OF replay_ok_new loop] finish_ok fin out show ?thesis
    by (cases corrupt) (auto simp: take_map)
qed

section \<open>Logs the writer leaves\<close>

text \<open>
  The records above the fence, in the order the writer produces them: mutations and the end of a
  transaction follow its begin; a begin may follow an unfinished transaction, which a crash left;
  checkpoints never go back.
\<close>

fun replayable :: "lsn option \<Rightarrow> lsn option \<Rightarrow> wal_record list \<Rightarrow> bool" where
  "replayable tx ck [] \<longleftrightarrow> True"
| "replayable tx ck (TxBegin l # rs) \<longleftrightarrow> replayable (Some l) ck rs"
| "replayable tx ck (Mutation l t e # rs) \<longleftrightarrow> tx = Some t \<and> replayable tx ck rs"
| "replayable tx ck (MutationBatch l t es # rs) \<longleftrightarrow> tx = Some t \<and> replayable tx ck rs"
| "replayable tx ck (TxCommit l t # rs) \<longleftrightarrow> tx = Some t \<and> replayable None ck rs"
| "replayable tx ck (TxAbort l t # rs) \<longleftrightarrow> tx = Some t \<and> replayable None ck rs"
| "replayable tx ck (Checkpoint l s # rs) \<longleftrightarrow>
     s \<le> l \<and> (\<forall>p. ck = Some p \<longrightarrow> p \<le> s) \<and> replayable tx (Some s) rs"

fun tx_after :: "lsn option \<Rightarrow> wal_record \<Rightarrow> lsn option" where
  "tx_after tx (TxBegin l) = Some l"
| "tx_after tx (TxCommit l t) = None"
| "tx_after tx (TxAbort l t) = None"
| "tx_after tx r = tx"

fun checkpoint_after :: "lsn option \<Rightarrow> wal_record \<Rightarrow> lsn option" where
  "checkpoint_after ck (Checkpoint l s) = Some s"
| "checkpoint_after ck r = ck"

lemma replayable_Cons:
  "replayable tx ck (r # rs) \<longleftrightarrow> replayable tx ck [r] \<and>
     replayable (tx_after tx r) (checkpoint_after ck r) rs"
  by (cases r) auto

text \<open>The machine between two records of such a log.\<close>

definition ready :: "lsn option \<Rightarrow> lsn option \<Rightarrow> collect_events replay_state \<Rightarrow> bool" where
  "ready tx ck st \<longleftrightarrow> rp_checkpoint_lsn_observed st = ck \<and>
     (\<forall>t. rp_streaming st = Some t \<longrightarrow> tx = Some t) \<and>
     (\<forall>t. tx = Some t \<longrightarrow> rp_pending st t \<noteq> None \<and> t \<notin> set (rp_withdrawn st)) \<and>
     (\<forall>t \<in> set (rp_withdrawn st). t \<le> rp_last_lsn st)"

lemma withdraw_same:
  "rp_streaming st \<in> {None, Some t} \<Longrightarrow> withdraw_other_than sink t st = Inr st"
  by (auto simp: withdraw_other_than_def)

lemma add_events_succeeds:
  assumes ok: "replay_ok lk fence seen st" and rd: "ready (Some t) ck st"
    and add: "\<And>tx es. tx_stands lk tx es \<Longrightarrow> \<exists>es'. tx_stands lk (add tx) es'"
  shows "\<exists>st'. add_events (collect_step lk) t n add st = Inr st' \<and> ready (Some t) ck st'"
proof -
  have strm: "rp_streaming st \<in> {None, Some t}" using rd by (cases "rp_streaming st") (auto simp: ready_def)
  obtain p where p: "rp_pending st t = Some p" and nw: "t \<notin> set (rp_withdrawn st)"
    using rd by (auto simp: ready_def)
  obtain es where "tx_stands lk (ptx_events p) es"
    using ok p nw pending_okD(3) [of lk fence seen st t p] by (auto simp: replay_ok_def)
  then obtain es' where "tx_stands lk (add (ptx_events p)) es'" using add by blast
  then have vec: "tx_into_vec lk (add (ptx_events p)) = Inr es'" by (rule tx_into_vec_stands)
  show ?thesis
    using rd p nw
    by (auto simp: add_events_def withdraw_same [OF strm] Let_def emit_step_def collect_step_def vec
        ready_def split: if_splits)
qed

lemma apply_succeeds:
  assumes ok: "replay_ok lk fence seen st" and rd: "ready tx ck st" and r: "replayable tx ck [r]"
    and lsn: "rp_last_lsn st = record_lsn r" and new: "rp_pending st (record_lsn r) = None"
    and fresh: "\<forall>t \<in> set (rp_withdrawn st). t < record_lsn r"
  shows "\<exists>st'. apply_record (collect_step lk) r n st = Inr st' \<and>
    ready (tx_after tx r) (checkpoint_after ck r) st'"
proof (cases r)
  case (Mutation l t e)
  then show ?thesis
    using r rd add_events_succeeds [OF ok, of t ck "tx_push e" n] by (auto intro: tx_stands_push)
next
  case (MutationBatch l t es)
  then show ?thesis
    using r rd add_events_succeeds [OF ok, of t ck "fold tx_push es" n] by (auto intro: tx_stands_fold)
next
  case (TxBegin l)
  obtain s1 where w: "withdraw_other_than (collect_step lk) l st = Inr s1" and ok1: "replay_ok lk fence seen s1"
    and s1: "rp_streaming s1 \<in> {None, Some l}" "rp_pending s1 = rp_pending st" "rp_last_lsn s1 = rp_last_lsn st"
    using withdraw_ok [OF ok] by blast
  have ck1: "rp_checkpoint_lsn_observed s1 = ck" and wd: "set (rp_withdrawn s1) \<subseteq>
      set (rp_withdrawn st) \<union> {t. rp_pending st t \<noteq> None}"
    using w rd ok by (auto simp: withdraw_other_than_def ready_def emit_step_def replay_ok_def sink_ok_def
        split: option.splits if_splits)
  have "\<forall>t \<in> set (rp_withdrawn s1). t \<le> rp_last_lsn st \<and> t \<noteq> l"
    using wd fresh lsn new TxBegin ok pending_okD(2)
    by (fastforce simp: replay_ok_def)
  moreover have "begin_transaction l s1 = Inr (s1\<lparr>rp_pending := (rp_pending s1)(l \<mapsto> pending_default)\<rparr>)"
    using new TxBegin s1(2) by (simp add: begin_transaction_def)
  ultimately show ?thesis using TxBegin w s1 ck1 by (auto simp: ready_def)
next
  case (TxCommit l t)
  with r have tx: "tx = Some t" by simp
  have strm: "rp_streaming st \<in> {None, Some t}" using rd tx by (cases "rp_streaming st") (auto simp: ready_def)
  obtain p where p: "rp_pending st t = Some p" and nw: "t \<notin> set (rp_withdrawn st)"
    using rd tx by (auto simp: ready_def)
  obtain es where "tx_stands lk (ptx_events p) es"
    using ok p nw pending_okD(3) [of lk fence seen st t p] by (auto simp: replay_ok_def)
  then have vec: "tx_into_vec lk (ptx_events p) = Inr es" by (rule tx_into_vec_stands)
  show ?thesis
    using rd p nw TxCommit
    by (auto simp: withdraw_same [OF strm] take_pending_def emit_step_def collect_step_def vec ready_def)
next
  case (TxAbort l t)
  with r have tx: "tx = Some t" by simp
  obtain p where p: "rp_pending st t = Some p" using rd tx by (auto simp: ready_def)
  show ?thesis
  proof (cases "rp_streaming st = Some t")
    case True
    then have sok: "sink_ok seen st" using ok by (simp add: replay_ok_def)
    then obtain c where "collect_step lk StepDiscard (rp_sink st) = Inr c"
      using True by (auto simp: collect_step_def sink_ok_def)
    with True TxAbort p rd show ?thesis by (auto simp: take_pending_def emit_step_def ready_def)
  next
    case False
    then have "rp_streaming st = None" using rd tx by (cases "rp_streaming st") (auto simp: ready_def)
    with TxAbort p rd show ?thesis by (auto simp: take_pending_def ready_def)
  qed
next
  case (Checkpoint l s)
  then show ?thesis using rd r by (auto simp: observe_checkpoint_def ready_def split: option.splits)
qed

text \<open>The next LSN is above all before it; below the fence nothing is open.\<close>

definition next_ok :: "lsn \<Rightarrow> lsn option \<Rightarrow> lsn option \<Rightarrow> wal_record list \<Rightarrow>
    collect_events replay_state \<Rightarrow> bool" where
  "next_ok fence tx ck rs st \<longleftrightarrow> ready tx ck st \<and> replayable tx ck (past fence rs) \<and>
     sorted_wrt (<) (map record_lsn rs) \<and>
     (\<forall>r \<in> set rs. rp_last_lsn st \<noteq> 0 \<longrightarrow> rp_last_lsn st < record_lsn r) \<and>
     (rp_last_lsn st = 0 \<longrightarrow> rp_withdrawn st = [])"

lemma accept_succeeds:
  assumes ok: "replay_ok lk fence seen st" and rd: "next_ok fence tx ck (r # rs) st"
    and base: "base \<le> record_lsn r"
    and r: "stands_for lk rr r"
  shows "\<exists>st' tx' ck'. accept_record (collect_step lk) rr n base fence st = Inr st' \<and>
    next_ok fence tx' ck' rs st'"
proof -
  let ?st = "observe_lsn (record_lsn r) st"
  have lsn: "replay_record_lsn rr = record_lsn r" using r by (cases rr) auto
  have v: "validate_record_lsn (record_lsn r) base st = Inr ()"
    using rd base by (auto simp: next_ok_def validate_record_lsn_def)
  have le: "rp_last_lsn st \<le> record_lsn r" using rd by (cases "rp_last_lsn st = 0") (auto simp: next_ok_def)
  have ok1: "replay_ok lk fence seen ?st" by (rule observe_ok [OF ok le])
  have rd1: "ready tx ck ?st" using rd le by (auto simp: next_ok_def ready_def)
  have later: "\<forall>r' \<in> set rs. record_lsn r < record_lsn r'" using rd by (simp add: next_ok_def)
  have go: "accept_record (collect_step lk) rr n base fence st = (case rr of
       ReplayBatch _ t b \<Rightarrow> if record_lsn r \<le> fence then Inr ?st
         else add_events (collect_step lk) t n (tx_push_batch b) ?st
     | ReplayDecoded r' \<Rightarrow> if record_lsn r \<le> fence then Inr (skip_fenced_record r' ?st)
         else apply_record (collect_step lk) r' n ?st)"
    by (simp add: accept_record_def Let_def lsn v cong: replay_record.case_cong)
  show ?thesis
  proof (cases "record_lsn r \<le> fence")
    case True
    have "skip_fenced_record r' ?st = ?st" for r' by (rule skip_fenced_ok [OF ok1]) (simp add: True)
    then have "accept_record (collect_step lk) rr n base fence st = Inr ?st"
      using True by (simp add: go split: replay_record.split)
    moreover have "rp_withdrawn st = []" if "record_lsn r = 0"
      using rd le that by (simp add: next_ok_def)
    ultimately show ?thesis
      using rd rd1 True later by (auto simp: next_ok_def)
  next
    case False
    then have pos: "record_lsn r \<noteq> 0" by auto
    then have above: "rp_last_lsn st < record_lsn r"
      using rd by (cases "rp_last_lsn st = 0") (auto simp: next_ok_def word_neq_0_conv)
    have rp: "replayable tx ck [r]" "replayable (tx_after tx r) (checkpoint_after ck r) (past fence rs)"
      using rd False replayable_Cons [of tx ck r "past fence rs"] by (auto simp: next_ok_def)
    have "\<exists>st'. accept_record (collect_step lk) rr n base fence st = Inr st' \<and>
        ready (tx_after tx r) (checkpoint_after ck r) st'"
    proof (cases rr)
      case (ReplayBatch l t b)
      then obtain es where es: "r = MutationBatch l t es" "part_stands lk (TxBatch b) es" using r by auto
      then have "tx = Some t" using rp(1) by simp
      moreover have "\<exists>es'. tx_stands lk (tx_push_batch b tx') es'" if "tx_stands lk tx' es''" for tx' es''
        using tx_stands_push_batch [OF that es(2)] by blast
      ultimately show ?thesis
        using add_events_succeeds [OF ok1, of t ck "tx_push_batch b" n] rd1 es(1) False
        unfolding go by (simp add: ReplayBatch)
    next
      case (ReplayDecoded r')
      have "rp_pending ?st (record_lsn r) = None"
        using above ok pending_okD(2) [of lk fence seen st "record_lsn r"]
        by (cases "rp_pending st (record_lsn r)") (auto simp: replay_ok_def not_le [symmetric])
      moreover have "\<forall>t \<in> set (rp_withdrawn ?st). t < record_lsn r"
        using rd above by (auto simp: next_ok_def ready_def)
      ultimately show ?thesis
        using apply_succeeds [OF ok1 rd1 rp(1), of n] False ReplayDecoded r unfolding go by simp
    qed
    then obtain st' where st': "accept_record (collect_step lk) rr n base fence st = Inr st'"
      "ready (tx_after tx r) (checkpoint_after ck r) st'" by blast
    have "rp_last_lsn st' = record_lsn r" using accept_ok [OF ok r st'(1)] by simp
    then show ?thesis using st' rp(2) rd later pos by (auto simp: next_ok_def)
  qed
qed

section \<open>The highest LSN\<close>

lemma emit_step_frame: "emit_step sink step st = Inr st' \<Longrightarrow>
    rp_max_lsn st' = rp_max_lsn st \<and> rp_last_segment_base st' = rp_last_segment_base st"
  by (auto simp: emit_step_def)

lemma withdraw_frame: "withdraw_other_than sink t st = Inr st' \<Longrightarrow>
    rp_max_lsn st' = rp_max_lsn st \<and> rp_last_segment_base st' = rp_last_segment_base st"
  by (auto simp: withdraw_other_than_def dest: emit_step_frame split: option.splits if_splits)

lemma add_events_frame: "add_events sink t n add st = Inr st' \<Longrightarrow>
    rp_max_lsn st' = rp_max_lsn st \<and> rp_last_segment_base st' = rp_last_segment_base st"
  by (auto simp: add_events_def Let_def missing_tx_begin_def dest!: withdraw_frame emit_step_frame
      split: option.splits if_splits)

lemma apply_record_frame: "apply_record sink r n st = Inr st' \<Longrightarrow>
    rp_max_lsn st' = rp_max_lsn st \<and> rp_last_segment_base st' = rp_last_segment_base st"
  by (cases r) (auto simp: begin_transaction_def take_pending_Inr observe_checkpoint_def
      dest!: add_events_frame withdraw_frame emit_step_frame split: if_splits)

lemma skip_fenced_frame [simp]:
  "rp_max_lsn (skip_fenced_record r st) = rp_max_lsn st"
  "rp_last_segment_base (skip_fenced_record r st) = rp_last_segment_base st"
  by (cases r; simp)+

lemma accept_frame:
  assumes "accept_record sink rr n base fence st = Inr st'"
  shows "rp_max_lsn st' = max (rp_max_lsn st) (replay_record_lsn rr) \<and>
    rp_last_segment_base st' = rp_last_segment_base st"
proof -
  have "rp_max_lsn st' = rp_max_lsn (observe_lsn (replay_record_lsn rr) st) \<and>
      rp_last_segment_base st' = rp_last_segment_base (observe_lsn (replay_record_lsn rr) st)"
    using assms by (cases rr) (auto simp: accept_record_def Let_def simp del: observe_lsn_fields
        dest!: add_events_frame apply_record_frame split: if_splits)
  then show ?thesis by (auto simp: observe_lsn_def Let_def max_def)
qed

section \<open>A written segment\<close>

definition last_lsn :: "lsn \<Rightarrow> wal_record list \<Rightarrow> lsn" where
  "last_lsn l rs = (if rs = [] then l else record_lsn (last rs))"

lemma last_lsn_simps [simp]:
  "last_lsn l [] = l" "last_lsn l (r # rs) = last_lsn (record_lsn r) rs"
  by (simp_all add: last_lsn_def)

text \<open>
  What may follow the last whole frame of the newest segment: nothing, or bytes that are no frame and
  hold no valid frame with a later LSN.
\<close>

definition torn_tail :: "(u8 list \<Rightarrow> u32) \<Rightarrow> lsn \<Rightarrow> u8 list \<Rightarrow> bool" where
  "torn_tail crc after tail \<longleftrightarrow> (\<exists>e. raw_record_read crc tail = Inl e) \<and>
     (\<forall>at \<in> {1..<length tail}. \<not> is_valid_frame_at crc (drop at tail) after)"

lemma raw_record_read_no_io: "raw_record_read crc inp \<noteq> Inl WalIo"
  by (auto simp: raw_record_read_def Let_def ebind_def le_u32_def le_u64_def fixed_bytes_def
      split: read_outcome.splits sum.splits if_splits)

lemma find_valid_frame_None:
  assumes "sr_file sr = before @ tail" and "torn_tail crc after tail"
  shows "find_valid_frame_after crc (length before) after sr = None"
  using assms by (auto simp: find_valid_frame_after_def torn_tail_def Let_def find_None_iff)

text \<open>How the loop ends at byte \<open>off\<close> with \<open>tail\<close> left.\<close>

definition ends_as :: "nat \<Rightarrow> nat \<Rightarrow> u8 list \<Rightarrow> segment_end \<Rightarrow> bool" where
  "ends_as path off tail ended \<longleftrightarrow> (if tail = [] then ended = SegmentDone
     else \<exists>e. ended = SegmentTorn \<lparr>tt_segment = path, tt_last_good_offset = off, tt_cause = e\<rparr>)"

text \<open>The loop consumes written records one by one and goes on behind them.\<close>

lemma segment_loop_consumes:
  assumes "wseq (map (record_encode_into crc) rs) = Inr bs" and "list_all (wf_record lk) rs"
    and "sr_file sr = before @ bs @ rest" and "sr_position sr = length before" and "lg = length before"
    and "\<forall>r \<in> set rs. sh_base_lsn (sr_header sr) \<le> record_lsn r"
    and "replay_ok lk fence seen st" and "next_ok fence tx ck (rs @ later) st"
    and "rp_max_lsn st = rp_last_lsn st"
  shows "\<exists>st' tx' ck'.
    replay_segment_loop crc lk (collect_step lk) path torn fence cut_corruption sr lg st =
      replay_segment_loop crc lk (collect_step lk) path torn fence cut_corruption
        (sr\<lparr>sr_position := length before + length bs\<rparr>) (length before + length bs) st' \<and>
    replay_ok lk fence (seen @ past fence rs) st' \<and> next_ok fence tx' ck' later st' \<and>
    rp_last_lsn st' = last_lsn (rp_last_lsn st) rs \<and> rp_max_lsn st' = rp_last_lsn st' \<and>
    rp_last_segment_base st' = rp_last_segment_base st"
  using assms
proof (induction rs arbitrary: bs before sr lg seen st tx ck)
  case Nil
  have "sr\<lparr>sr_position := length before\<rparr> = sr" using Nil(4) by (cases sr) simp
  then have "sr\<lparr>sr_position := length before + length bs\<rparr> = sr" "length before + length bs = lg"
    using Nil(1,5) by (metis add.right_neutral list.size(3) list.simps(8) wseq_Nil_Inr)+
  then show ?case using Nil(7-9) unfolding list.map(1) by (intro exI conjI) simp_all
next
  case (Cons r rs)
  from Cons.prems(1) obtain a b where a: "record_encode_into crc r = Inr a"
    and b: "wseq (map (record_encode_into crc) rs) = Inr b" and bs: "bs = a @ b" by auto
  obtain p where p: "encode_payload_into r = Inr p" "25 + length p \<le> MAX_RECORD_LEN"
    and a_eq: "a = framed crc r p" using a by (auto simp: record_encode_into_Inr)
  let ?raw = "raw_of crc r p" and ?pos = "length before + (25 + length p)"
  let ?sr = "sr\<lparr>sr_position := ?pos\<rparr>"
  have frame: "segment_read_frame crc sr = Inr (Some ?raw, ?sr)"
    by (rule segment_read_written [OF _ Cons.prems(4) p(2)]) (simp add: Cons.prems(3) bs a_eq)
  have "raw_decode lk ?raw = Inr r" using decode_framed [OF p(1) _ p(2)] Cons.prems(2) by simp
  then obtain rr where rr: "raw_decode_for_replay lk ?raw = Inr rr" "stands_for lk rr r"
    using frame_replay_decode [OF frame, of lk] by auto
  have lsn: "replay_record_lsn rr = record_lsn r" using rr(2) by (cases rr) auto
  have nx: "next_ok fence tx ck (r # rs @ later) st" using Cons.prems(8) by simp
  have base: "sh_base_lsn (sr_header sr) \<le> record_lsn r" using Cons.prems(6) by simp
  obtain s1 tx1 ck1 where s1: "accept_record (collect_step lk) rr (25 + length p)
      (sh_base_lsn (sr_header sr)) fence st = Inr s1" and nx1: "next_ok fence tx1 ck1 (rs @ later) s1"
    using accept_succeeds [OF Cons.prems(7) nx base rr(2)] by blast
  have ok1: "replay_ok lk fence (if record_lsn r \<le> fence then seen else seen @ [r]) s1"
    and last1: "rp_last_lsn s1 = record_lsn r"
    using accept_ok [OF Cons.prems(7) rr(2) s1] by auto
  have "rp_last_lsn st \<le> record_lsn r"
    using nx by (cases "rp_last_lsn st = 0") (auto simp: next_ok_def)
  then have max1: "rp_max_lsn s1 = rp_last_lsn s1" and base1: "rp_last_segment_base s1 = rp_last_segment_base st"
    using accept_frame [OF s1] Cons.prems(9) last1 lsn by (simp_all add: max_def)
  have step: "replay_segment_loop crc lk (collect_step lk) path torn fence cut_corruption sr lg st =
      replay_segment_loop crc lk (collect_step lk) path torn fence cut_corruption ?sr ?pos s1"
    by (subst replay_segment_loop.simps) (simp add: frame rr(1) s1 Let_def)
  have "\<exists>st' tx' ck'.
    replay_segment_loop crc lk (collect_step lk) path torn fence cut_corruption ?sr ?pos s1 =
      replay_segment_loop crc lk (collect_step lk) path torn fence cut_corruption
        (?sr\<lparr>sr_position := length (before @ a) + length b\<rparr>) (length (before @ a) + length b) st' \<and>
    replay_ok lk fence ((if record_lsn r \<le> fence then seen else seen @ [r]) @ past fence rs) st' \<and>
    next_ok fence tx' ck' later st' \<and> rp_last_lsn st' = last_lsn (rp_last_lsn s1) rs \<and>
    rp_max_lsn st' = rp_last_lsn st' \<and> rp_last_segment_base st' = rp_last_segment_base s1"
    using Cons.prems last1 by (intro Cons.IH [OF b _ _ _ _ _ ok1 nx1 max1]) (simp_all add: bs a_eq)
  then show ?case
    unfolding step by (cases "record_lsn r \<le> fence") (simp_all add: bs a_eq last1 base1 add.assoc)
qed

lemma segment_loop_written:
  assumes bs: "wseq (map (record_encode_into crc) rs) = Inr bs" and wf: "list_all (wf_record lk) rs"
    and here: "sr_file sr = before @ bs @ tail" "sr_position sr = length before" "lg = length before"
    and base: "\<forall>r \<in> set rs. sh_base_lsn (sr_header sr) \<le> record_lsn r"
    and ok: "replay_ok lk fence seen st" and nx: "next_ok fence tx ck (rs @ later) st"
    and tail: "tail = [] \<or> torn \<and> torn_tail crc (last_lsn (rp_last_lsn st) rs) tail"
    and mx: "rp_max_lsn st = rp_last_lsn st"
  shows "\<exists>ended st' tx' ck'.
    replay_segment_loop crc lk (collect_step lk) path torn fence cut_corruption sr lg st =
      Inr (ended, length before + length bs, st') \<and>
    replay_ok lk fence (seen @ past fence rs) st' \<and> next_ok fence tx' ck' later st' \<and>
    rp_last_lsn st' = last_lsn (rp_last_lsn st) rs \<and> rp_max_lsn st' = rp_last_lsn st' \<and>
    rp_last_segment_base st' = rp_last_segment_base st \<and>
    ends_as path (length before + length bs) tail ended"
proof -
  let ?off = "length before + length bs"
  let ?sr = "sr\<lparr>sr_position := ?off\<rparr>"
  obtain st' tx' ck' where
    run: "replay_segment_loop crc lk (collect_step lk) path torn fence cut_corruption sr lg st =
      replay_segment_loop crc lk (collect_step lk) path torn fence cut_corruption ?sr ?off st'"
    and st': "replay_ok lk fence (seen @ past fence rs) st'" "next_ok fence tx' ck' later st'"
      "rp_last_lsn st' = last_lsn (rp_last_lsn st) rs" "rp_max_lsn st' = rp_last_lsn st'"
      "rp_last_segment_base st' = rp_last_segment_base st"
    using segment_loop_consumes [OF bs wf here base ok nx mx] by blast
  have "\<exists>ended. replay_segment_loop crc lk (collect_step lk) path torn fence cut_corruption ?sr ?off st' =
      Inr (ended, ?off, st') \<and> ends_as path ?off tail ended"
  proof (cases "tail = []")
    case True
    have "segment_read_frame crc ?sr = Inr (None, ?sr)"
      using True here by (simp add: segment_read_frame_def raw_record_read_def read_exact_or_eof_def)
    then show ?thesis using True by (subst replay_segment_loop.simps) (simp add: Let_def ends_as_def)
  next
    case False
    then have torn: torn and tt: "torn_tail crc (rp_last_lsn st') tail" using tail st'(3) by auto
    obtain e where e: "raw_record_read crc tail = Inl e" using tt by (auto simp: torn_tail_def)
    have "e \<noteq> WalIo" using e raw_record_read_no_io by blast
    moreover have "segment_read_frame crc ?sr = Inl e" using here e by (simp add: segment_read_frame_def)
    moreover have "find_valid_frame_after crc ?off (rp_last_lsn st') ?sr = None"
      using find_valid_frame_None [of ?sr "before @ bs" tail crc "rp_last_lsn st'"] here tt by simp
    ultimately have "replay_segment_loop crc lk (collect_step lk) path torn fence cut_corruption ?sr ?off st' =
        Inr (SegmentTorn \<lparr>tt_segment = path, tt_last_good_offset = ?off, tt_cause = e\<rparr>, ?off, st')"
      using torn by (subst replay_segment_loop.simps) (simp add: Let_def split: wal_error.split)
    then show ?thesis using False by (auto simp: ends_as_def)
  qed
  then show ?thesis unfolding run using st' by blast
qed

section \<open>A written log\<close>

record log_segment =
  ls_header :: segment_header
  ls_records :: "wal_record list"

abbreviation segs_records :: "log_segment list \<Rightarrow> wal_record list" where
  "segs_records segs \<equiv> concat (map ls_records segs)"

text \<open>The files of the segments, with \<open>tail\<close> behind the last record of the newest.\<close>

fun log_files :: "(u8 list \<Rightarrow> u32) \<Rightarrow> log_segment list \<Rightarrow> u8 list \<Rightarrow> u8 list list \<Rightarrow> bool" where
  "log_files crc [] tail fs \<longleftrightarrow> fs = []"
| "log_files crc (seg # segs) tail [] \<longleftrightarrow> False"
| "log_files crc (seg # segs) tail (f # fs) \<longleftrightarrow>
     (\<exists>bs. wseq (map (record_encode_into crc) (ls_records seg)) = Inr bs \<and>
        f = segment_header_encode crc (ls_header seg) @ bs @ (if segs = [] then tail else [])) \<and>
     log_files crc segs tail fs"

fun bases_ok :: "lsn option \<Rightarrow> lsn \<Rightarrow> log_segment list \<Rightarrow> bool" where
  "bases_ok prev l [] \<longleftrightarrow> True"
| "bases_ok prev l (seg # segs) \<longleftrightarrow>
     (\<forall>b. prev = Some b \<longrightarrow> b < sh_base_lsn (ls_header seg)) \<and>
     (l \<noteq> 0 \<longrightarrow> l < sh_base_lsn (ls_header seg)) \<and>
     (\<forall>r \<in> set (ls_records seg). sh_base_lsn (ls_header seg) \<le> record_lsn r) \<and>
     bases_ok (Some (sh_base_lsn (ls_header seg))) (last_lsn l (ls_records seg)) segs"

definition log_ok :: "(u8 list \<Rightarrow> u32) \<Rightarrow> (string \<Rightarrow> string option) \<Rightarrow> lsn \<Rightarrow> log_segment list \<Rightarrow>
    u8 list \<Rightarrow> bool" where
  "log_ok crc lk fence segs tail \<longleftrightarrow> segs \<noteq> [] \<and>
     (\<forall>seg \<in> set segs. sh_format_version (ls_header seg) = SEGMENT_FORMAT_VERSION) \<and>
     bases_ok None 0 segs \<and> saturating_pred (sh_base_lsn (ls_header (hd segs))) \<le> fence \<and>
     list_all (wf_record lk) (segs_records segs) \<and>
     sorted_wrt (<) (map record_lsn (segs_records segs)) \<and>
     replayable None None (past fence (segs_records segs)) \<and>
     (tail = [] \<or> \<not> sh_sealed (ls_header (last segs)) \<and>
        torn_tail crc (last_lsn 0 (segs_records segs)) tail)"

text \<open>Where replay locates the tail: in the segment with index \<open>path\<close>, from byte \<open>off\<close> on.\<close>

definition torn_at :: "nat \<Rightarrow> nat \<Rightarrow> u8 list \<Rightarrow> torn_tail_info option \<Rightarrow> bool" where
  "torn_at path off tail torn \<longleftrightarrow> (case torn of None \<Rightarrow> tail = []
     | Some t \<Rightarrow> tail \<noteq> [] \<and> tt_segment t = path \<and> tt_last_good_offset t = off)"

lemma last_lsn_append [simp]: "last_lsn l (rs @ rs') = last_lsn (last_lsn l rs) rs'"
  by (simp add: last_lsn_def)

lemma replay_loop_written:
  assumes "log_files crc segs tail files" and "segs \<noteq> []"
    and "\<forall>seg \<in> set segs. sh_format_version (ls_header seg) = SEGMENT_FORMAT_VERSION"
    and "bases_ok (rp_last_segment_base st) (rp_last_lsn st) segs"
    and "i = 0 \<longrightarrow> saturating_pred (sh_base_lsn (ls_header (hd segs))) \<le> fence"
    and "list_all (wf_record lk) (segs_records segs)"
    and "replay_ok lk fence seen st" and "next_ok fence tx ck (segs_records segs) st"
    and "rp_max_lsn st = rp_last_lsn st"
    and "tail = [] \<or> \<not> sh_sealed (ls_header (last segs)) \<and>
        torn_tail crc (last_lsn (rp_last_lsn st) (segs_records segs)) tail"
  shows "\<exists>torn off st'.
    replay_loop crc lk (collect_step lk) fence cut_corruption i files lg st = Inr (torn, None, off, st') \<and>
    replay_ok lk fence (seen @ past fence (segs_records segs)) st' \<and>
    rp_max_lsn st' = last_lsn (rp_last_lsn st) (segs_records segs) \<and>
    off = length (last files) - length tail \<and> torn_at (i + length files - 1) off tail torn"
  using assms
proof (induction segs arbitrary: files i lg st seen tx ck)
  case (Cons seg segs)
  let ?rs = "ls_records seg" and ?h = "ls_header seg" and ?later = "segs_records segs"
  let ?tail = "if segs = [] then tail else []"
  obtain f fs bs where files: "files = f # fs" and bs: "wseq (map (record_encode_into crc) ?rs) = Inr bs"
    and f: "f = segment_header_encode crc ?h @ bs @ ?tail" and fs: "log_files crc segs tail fs"
    using Cons.prems(1) by (cases files) auto
  have nil: "fs = [] \<longleftrightarrow> segs = []" using fs by (cases segs; cases fs) auto
  have ver: "sh_format_version ?h = SEGMENT_FORMAT_VERSION" using Cons.prems(3) by simp
  let ?sr = "\<lparr>sr_file = f, sr_header = ?h, sr_position = SEGMENT_HEADER_LEN\<rparr>"
  have sr: "segment_reader_open crc f = Inr ?sr"
    unfolding f by (rule segment_open_encoded [OF ver])
  have start: "(if i = 0 then check_log_start (sh_base_lsn ?h) fence else Inr ()) = Inr ()"
    using Cons.prems(5) by (auto simp: check_log_start_def not_less)
  let ?s1 = "st\<lparr>rp_last_segment_base := Some (sh_base_lsn ?h)\<rparr>"
  have s1: "validate_segment (sh_base_lsn ?h) st = Inr ?s1"
    using Cons.prems(4) by (auto simp: validate_segment_def not_le split: option.splits)
  have ok1: "replay_ok lk fence seen ?s1" by (rule replay_ok_fields [OF Cons.prems(7)]) simp_all
  have nx1: "next_ok fence tx ck (?rs @ ?later) ?s1"
    using Cons.prems(8) by (simp add: next_ok_def ready_def)
  let ?torn = "fs = [] \<and> \<not> sh_sealed ?h"
  have tt: "?tail = [] \<or> ?torn \<and> torn_tail crc (last_lsn (rp_last_lsn ?s1) ?rs) ?tail"
    using Cons.prems(10) nil by auto
  have "\<exists>ended s2 tx' ck'.
    replay_segment_loop crc lk (collect_step lk) i ?torn fence cut_corruption ?sr SEGMENT_HEADER_LEN ?s1
      = Inr (ended, length (segment_header_encode crc ?h) + length bs, s2) \<and>
    replay_ok lk fence (seen @ past fence ?rs) s2 \<and> next_ok fence tx' ck' ?later s2 \<and>
    rp_last_lsn s2 = last_lsn (rp_last_lsn ?s1) ?rs \<and> rp_max_lsn s2 = rp_last_lsn s2 \<and>
    rp_last_segment_base s2 = rp_last_segment_base ?s1 \<and>
    ends_as i (length (segment_header_encode crc ?h) + length bs) ?tail ended"
    by (rule segment_loop_written [OF bs _ _ _ _ _ ok1 nx1 tt])
      (use Cons.prems(4,6,9) in \<open>simp_all add: f SEGMENT_HEADER_LEN_def\<close>)
  then obtain ended s2 tx' ck' where
    loop: "replay_segment_loop crc lk (collect_step lk) i ?torn fence cut_corruption ?sr SEGMENT_HEADER_LEN ?s1
        = Inr (ended, length (segment_header_encode crc ?h) + length bs, s2)"
    and ok2: "replay_ok lk fence (seen @ past fence ?rs) s2" and nx2: "next_ok fence tx' ck' ?later s2"
    and last2: "rp_last_lsn s2 = last_lsn (rp_last_lsn ?s1) ?rs" and max2: "rp_max_lsn s2 = rp_last_lsn s2"
    and base2: "rp_last_segment_base s2 = rp_last_segment_base ?s1"
    and ends: "ends_as i (length (segment_header_encode crc ?h) + length bs) ?tail ended"
    by blast
  have len: "length f = length (segment_header_encode crc ?h) + length bs + length ?tail" by (simp add: f)
  have unfold_loop: "replay_loop crc lk (collect_step lk) fence cut_corruption i files lg st =
      (case ended of
        SegmentDone \<Rightarrow> replay_loop crc lk (collect_step lk) fence cut_corruption (i + 1) fs
          (length (segment_header_encode crc ?h) + length bs) s2
      | SegmentTorn t \<Rightarrow> Inr (Some t, None, length (segment_header_encode crc ?h) + length bs, s2)
      | SegmentCut c \<Rightarrow> Inr (None, Some c, length (segment_header_encode crc ?h) + length bs, s2))"
    using start s1 loop by (simp add: files sr split: segment_end.split)
  show ?case
  proof (cases "segs = []")
    case True
    then show ?thesis
      using ends ok2 max2 last2 nil len files unfolding unfold_loop
      by (auto simp: ends_as_def torn_at_def split: if_splits)
  next
    case False
    have "\<exists>torn off st'.
      replay_loop crc lk (collect_step lk) fence cut_corruption (i + 1) fs
        (length (segment_header_encode crc ?h) + length bs) s2 = Inr (torn, None, off, st') \<and>
      replay_ok lk fence ((seen @ past fence ?rs) @ past fence ?later) st' \<and>
      rp_max_lsn st' = last_lsn (rp_last_lsn s2) ?later \<and>
      off = length (last fs) - length tail \<and> torn_at (i + 1 + length fs - 1) off tail torn"
      by (rule Cons.IH [OF fs False _ _ _ _ ok2 nx2 max2])
        (use Cons.prems(3,4,6,10) False last2 base2 in auto)
    then show ?thesis
      using False ends nil files last2 unfolding unfold_loop by (auto simp: ends_as_def)
  qed
qed simp

lemma log_replays:
  assumes log: "log_ok crc lk fence segs tail" and files: "log_files crc segs tail (map snd paths)"
    and ids: "check_segment_ids_contiguous (map fst paths) = Inr ()"
  shows "\<exists>out c. replay_segments crc lk (collect_step lk) paths fence cut_corruption collect_default = Inr (out, c) \<and>
    ce_events c = committed (past fence (segs_records segs)) \<and>
    ro_max_lsn out = last_lsn 0 (segs_records segs) \<and> ro_corrupt_cut out = None \<and>
    ro_last_good_offset out = length (snd (last paths)) - length tail \<and>
    torn_at (length paths - 1) (ro_last_good_offset out) tail (ro_torn_tail out)"
proof -
  let ?st = "replay_state_new collect_default"
  have st: "rp_last_lsn ?st = 0" "rp_max_lsn ?st = 0" "rp_last_segment_base ?st = None"
    by (simp_all add: replay_state_new_def)
  have nx: "next_ok fence None None (segs_records segs) ?st"
    using log by (auto simp: next_ok_def ready_def replay_state_new_def log_ok_def)
  have "\<exists>torn off st'.
    replay_loop crc lk (collect_step lk) fence cut_corruption 0 (map snd paths) SEGMENT_HEADER_LEN ?st
      = Inr (torn, None, off, st') \<and>
    replay_ok lk fence ([] @ past fence (segs_records segs)) st' \<and>
    rp_max_lsn st' = last_lsn (rp_last_lsn ?st) (segs_records segs) \<and>
    off = length (last (map snd paths)) - length tail \<and>
    torn_at (0 + length (map snd paths) - 1) off tail torn"
    by (rule replay_loop_written [OF files _ _ _ _ _ replay_ok_new nx])
      (use log st in \<open>simp_all add: log_ok_def\<close>)
  then obtain torn off st' where
    loop: "replay_loop crc lk (collect_step lk) fence cut_corruption 0 (map snd paths) SEGMENT_HEADER_LEN ?st
        = Inr (torn, None, off, st')"
    and ok: "replay_ok lk fence ([] @ past fence (segs_records segs)) st'"
    and rest: "rp_max_lsn st' = last_lsn 0 (segs_records segs)"
      "off = length (last (map snd paths)) - length tail"
      "torn_at (0 + length (map snd paths) - 1) off tail torn"
    unfolding st by blast
  have "paths \<noteq> []" using files log by (cases segs; cases paths) (auto simp: log_ok_def)
  then show ?thesis
    using loop ok rest ids finish_ok [OF ok] by (simp add: replay_segments_def last_map)
qed


section \<open>A small log\<close>

text \<open>A committed transaction, an unfinished one, and two bytes of a frame behind them.\<close>

definition sample_segments :: "log_segment list" where
  "sample_segments = [\<lparr>ls_header = segment_header_new 1, ls_records =
     [TxBegin 1, MutationBatch 2 1 sample_events, TxCommit 3 1, TxBegin 4,
      Mutation 5 4 (DeleteNode 9)]\<rparr>]"

lemma sample_log_ok: "log_ok crc lk 0 sample_segments [30, 0]"
proof -
  have "list_all (wf_event lk) sample_events" by (rule wf_sample_events)
  then show ?thesis
    by (simp add: log_ok_def sample_segments_def segment_header_new_def saturating_pred_def torn_tail_def
        raw_record_read_def read_exact_or_eof_def is_valid_frame_at_def RECORD_HEADER_LEN_def
        RECORD_TRAILER_LEN_def)
qed

lemma sample_log_files: "\<exists>f. log_files crc sample_segments [30, 0] [f]"
proof -
  obtain p where p: "encode_events_into sample_events = Inr p" "length p \<le> 1000"
    using sample_events_written by blast
  have "\<exists>bs. record_encode_into crc r = Inr bs" if "r \<in> set (ls_records (hd sample_segments))" for r
  proof -
    have "\<exists>q. encode_payload_into r = Inr q \<and> length q \<le> 1000"
      using that p by (auto simp: sample_segments_def PAYLOAD_MAGIC_def)
    then show ?thesis unfolding record_encode_into_Inr by (force simp: MAX_RECORD_LEN_def)
  qed
  then have "\<exists>bs. wseq (map (record_encode_into crc) (ls_records (hd sample_segments))) = Inr bs"
    unfolding wseq_Inr_iff by auto
  then show ?thesis by (auto simp: sample_segments_def)
qed


theorem replay_delivers_committed_witness:
  "\<exists>f out c. replay_segments (\<lambda>_. 7) (\<lambda>_. None) (collect_step (\<lambda>_. None)) [(1, f)] 0 False collect_default
      = Inr (out, c) \<and>
    ce_events c = committed (past 0 (log_records (\<lambda>_. 7) (\<lambda>_. None) [f])) \<and> ce_events c = sample_events"
proof -
  obtain f where f: "log_files (\<lambda>_. 7) sample_segments [30, 0] (map snd [(1 :: segment_id, f)])"
    using sample_log_files by auto
  have rs: "past 0 (segs_records sample_segments) = segs_records sample_segments"
    by (simp add: sample_segments_def)
  have "committed (segs_records sample_segments) = sample_events"
    by (simp add: sample_segments_def committed_def tx_log_def)
  with log_replays [OF sample_log_ok f, where lk = "\<lambda>_. None" and cut_corruption = False] rs
  obtain out c where run: "replay_segments (\<lambda>_. 7) (\<lambda>_. None) (collect_step (\<lambda>_. None)) [(1, f)] 0 False
      collect_default = Inr (out, c)" "ce_events c = sample_events" "ro_corrupt_cut out = None"
    by auto
  have "ce_events c = committed (past 0 (log_records (\<lambda>_. 7) (\<lambda>_. None) [f]))"
    using replay_delivers_committed [OF run(1)] run(3) by simp
  with run show ?thesis by blast
qed

end
