(* ===== verification/Wal_Writer.thy ===== *)
theory Wal_Writer
  imports Wal_Segment
begin

text \<open>
  The append handle of a segment (\<open>SegmentWriter\<close> of \<open>crates/lora-wal/src/segment.rs\<close>). The file is part
  of the handle's state: its bytes as the operating system has them, and how many of its first bytes an
  \<open>fsync\<close> has covered. I/O does not fail here.
\<close>

record segment_writer =
  sw_file :: "u8 list"
  sw_synced :: nat
  sw_header :: segment_header
  sw_bytes_written :: nat
  sw_pending :: "u8 list"

text \<open>\<open>write_all\<close> at an offset, and \<open>set_len\<close>.\<close>

definition write_at :: "nat \<Rightarrow> u8 list \<Rightarrow> u8 list \<Rightarrow> u8 list" where
  "write_at off bs f = take off f @ bs @ drop (off + length bs) f"

definition set_len :: "nat \<Rightarrow> u8 list \<Rightarrow> u8 list" where
  "set_len n f = take n f @ replicate (n - length f) 0"

definition writer_sync :: "segment_writer \<Rightarrow> segment_writer" where
  "writer_sync w = w\<lparr>sw_synced := length (sw_file w)\<rparr>"

definition writer_create :: "(u8 list \<Rightarrow> u32) \<Rightarrow> lsn \<Rightarrow> segment_writer" where
  "writer_create crc base_lsn = (let header = segment_header_new base_lsn in
     \<lparr>sw_file = segment_header_encode crc header, sw_synced = SEGMENT_HEADER_LEN, sw_header = header,
      sw_bytes_written = SEGMENT_HEADER_LEN, sw_pending = []\<rparr>)"

definition writer_open_at :: "(u8 list \<Rightarrow> u32) \<Rightarrow> u8 list \<Rightarrow> nat \<Rightarrow> wal_error + segment_writer" where
  "writer_open_at crc file offset =
     (if offset < SEGMENT_HEADER_LEN then Inl (BadSegmentHeader ''append offset before segment payload'')
      else if length file < SEGMENT_HEADER_LEN then Inl WalIo
      else ebind (segment_header_decode crc (take SEGMENT_HEADER_LEN file)) (\<lambda>header.
        if sh_sealed header then Inl (BadSegmentHeader ''segment is sealed; cannot append'')
        else if offset > length file then Inl (BadSegmentHeader ''append offset past end of segment'')
        else Inr \<lparr>sw_file = file, sw_synced = 0, sw_header = header, sw_bytes_written = offset,
          sw_pending = []\<rparr>))"

definition writer_bytes_written :: "segment_writer \<Rightarrow> nat" where
  "writer_bytes_written w = sw_bytes_written w + length (sw_pending w)"

definition writer_ensure_appendable :: "segment_writer \<Rightarrow> wal_error + unit" where
  "writer_ensure_appendable w = (if sh_sealed (sw_header w) then Inl Poisoned else Inr ())"

text \<open>Framed bytes appended to the pending buffer (\<open>pending_mut\<close> with \<open>encode_frame\<close>).\<close>

definition writer_append_frame :: "wal_error + u8 list \<Rightarrow> segment_writer \<Rightarrow> wal_error + segment_writer" where
  "writer_append_frame frame w = ebind (writer_ensure_appendable w) (\<lambda>_.
     map_sum id (\<lambda>bs. w\<lparr>sw_pending := sw_pending w @ bs\<rparr>) frame)"

definition writer_append :: "(u8 list \<Rightarrow> u32) \<Rightarrow> wal_record \<Rightarrow> segment_writer \<Rightarrow> wal_error + segment_writer" where
  "writer_append crc r w = writer_append_frame (record_encode_into crc r) w"

definition writer_rollback_pending :: "nat \<Rightarrow> segment_writer \<Rightarrow> segment_writer" where
  "writer_rollback_pending len w = w\<lparr>sw_pending := take len (sw_pending w)\<rparr>"

definition writer_flush_buffer :: "segment_writer \<Rightarrow> segment_writer" where
  "writer_flush_buffer w = (if sw_pending w = [] then w
     else w\<lparr>sw_file := write_at (sw_bytes_written w) (sw_pending w) (sw_file w),
       sw_bytes_written := sw_bytes_written w + length (sw_pending w), sw_pending := []\<rparr>)"

definition writer_flush_and_sync :: "segment_writer \<Rightarrow> segment_writer" where
  "writer_flush_and_sync w = writer_sync (writer_flush_buffer w)"

definition writer_seal :: "(u8 list \<Rightarrow> u32) \<Rightarrow> segment_writer \<Rightarrow> segment_writer" where
  "writer_seal crc w = (if sh_sealed (sw_header w) then w
     else let w = writer_flush_and_sync w; header = (sw_header w)\<lparr>sh_sealed := True\<rparr> in
       writer_sync (w\<lparr>sw_header := header, sw_file := write_at 0 (segment_header_encode crc header) (sw_file w)\<rparr>))"

definition writer_truncate_to :: "nat \<Rightarrow> segment_writer \<Rightarrow> wal_error + segment_writer" where
  "writer_truncate_to offset w =
     (if offset > sw_bytes_written w then Inl (BadSegmentHeader ''truncation point past end of segment'')
      else let w = writer_flush_buffer w in
        Inr (writer_sync (w\<lparr>sw_file := set_len offset (sw_file w), sw_bytes_written := offset\<rparr>)))"

end
