(* ===== verification/Wal_Log.thy ===== *)
theory Wal_Log
  imports Wal_Writer Replay_Log
begin

text \<open>
  The log handle (\<open>crates/lora-wal/src/wal/wal.rs\<close>): LSN allocation, transaction commits in batches,
  rotation, flushing, truncation behind a checkpoint, and opening a directory. The directory is the
  older segments' files and the active segment's writer. Listeners, the directory lock and the copies
  that a truncation keeps beside the log are left out; a flush is its two critical sections and the
  \<open>fsync\<close> between them.
\<close>

section \<open>State\<close>

record wal_state =
  ws_next_lsn :: lsn
  ws_durable_lsn :: lsn
  ws_active_segment_id :: segment_id
  ws_active_writer :: segment_writer
  ws_oldest_segment_id :: segment_id
  ws_older :: "(segment_id \<times> u8 list) list"
  ws_bg_failure :: bool
  ws_appended_bytes :: u64
  ws_checkpoint_mark :: u64

record wal_config =
  wc_segment_target_bytes :: nat
  wc_batch_target_bytes :: nat

definition BATCH_TARGET_BYTES :: nat where
  "BATCH_TARGET_BYTES = 8 * 1024 * 1024"

text \<open>The segment files as a reader of the directory sees them.\<close>

definition wal_files :: "wal_state \<Rightarrow> (segment_id \<times> u8 list) list" where
  "wal_files st = ws_older st @ [(ws_active_segment_id st, sw_file (ws_active_writer st))]"

type_synonym 'a wal_op = "wal_state \<Rightarrow> (wal_error + 'a) \<times> wal_state"

definition lsn_exhausted :: wal_error where
  "lsn_exhausted = Malformed ''WAL LSN space is exhausted''"

definition next_lsn_after :: "lsn \<Rightarrow> wal_error + lsn" where
  "next_lsn_after l = (case lsn_checked_next l of Some n \<Rightarrow> Inr n | None \<Rightarrow> Inl lsn_exhausted)"

definition check_healthy :: "wal_state \<Rightarrow> wal_error + unit" where
  "check_healthy st = (if ws_bg_failure st then Inl Poisoned else Inr ())"

text \<open>Operations that stop at the first error, the state left as it then is.\<close>

definition obind :: "'a wal_op \<Rightarrow> ('a \<Rightarrow> 'b wal_op) \<Rightarrow> 'b wal_op" where
  "obind m f st = (case m st of (Inl e, st') \<Rightarrow> (Inl e, st') | (Inr x, st') \<Rightarrow> f x st')"

definition ocheck :: "(wal_state \<Rightarrow> wal_error + 'a) \<Rightarrow> 'a wal_op" where
  "ocheck c st = (c st, st)"

definition oret :: "'a \<Rightarrow> 'a wal_op" where
  "oret x st = (Inr x, st)"

definition on_writer :: "(segment_writer \<Rightarrow> wal_error + segment_writer) \<Rightarrow> unit wal_op" where
  "on_writer f st = (case f (ws_active_writer st) of
      Inl e \<Rightarrow> (Inl e, st) | Inr w \<Rightarrow> (Inr (), st\<lparr>ws_active_writer := w\<rparr>))"

section \<open>Appending\<close>

definition alloc_lsn :: "lsn wal_op" where
  "alloc_lsn st = (case lsn_checked_next (ws_next_lsn st) of
      None \<Rightarrow> (Inl lsn_exhausted, st)
    | Some next_lsn \<Rightarrow> (Inr (ws_next_lsn st), st\<lparr>ws_next_lsn := next_lsn\<rparr>))"

definition alloc_and_append :: "(u8 list \<Rightarrow> u32) \<Rightarrow> (lsn \<Rightarrow> wal_record) \<Rightarrow> lsn wal_op" where
  "alloc_and_append crc build st = (let lsn = ws_next_lsn st in
     case lsn_checked_next lsn of
       None \<Rightarrow> (Inl lsn_exhausted, st)
     | Some next_lsn \<Rightarrow> (case writer_append crc (build lsn) (ws_active_writer st) of
         Inl e \<Rightarrow> (Inl e, st)
       | Inr w \<Rightarrow> (Inr lsn, st\<lparr>ws_active_writer := w, ws_next_lsn := next_lsn\<rparr>)))"

text \<open>\<open>segment_id.checked_next()\<close> with its error.\<close>

definition next_segment_id :: "segment_id \<Rightarrow> wal_error + segment_id" where
  "next_segment_id i = (case lsn_checked_next i of
      Some n \<Rightarrow> Inr n | None \<Rightarrow> Inl (Malformed ''WAL segment id space is exhausted''))"

definition maybe_rotate :: "(u8 list \<Rightarrow> u32) \<Rightarrow> wal_config \<Rightarrow> unit wal_op" where
  "maybe_rotate crc cfg st =
     (if writer_bytes_written (ws_active_writer st) < wc_segment_target_bytes cfg then (Inr (), st)
      else let st = st\<lparr>ws_active_writer := writer_flush_and_sync (ws_active_writer st)\<rparr> in
        (case next_segment_id (ws_active_segment_id st) of
           Inl e \<Rightarrow> (Inl e, st)
         | Inr next_id \<Rightarrow>
             let writer = writer_create crc (ws_next_lsn st);
                 sealed = writer_seal crc (ws_active_writer st) in
             (Inr (), st\<lparr>ws_older := ws_older st @ [(ws_active_segment_id st, sw_file sealed)],
                ws_active_writer := writer, ws_active_segment_id := next_id\<rparr>)))"

definition wal_begin :: "(u8 list \<Rightarrow> u32) \<Rightarrow> wal_config \<Rightarrow> lsn wal_op" where
  "wal_begin crc cfg = obind (ocheck check_healthy) (\<lambda>_. obind (maybe_rotate crc cfg) (\<lambda>_.
     alloc_and_append crc TxBegin))"

definition wal_append :: "(u8 list \<Rightarrow> u32) \<Rightarrow> lsn \<Rightarrow> mutation_event \<Rightarrow> lsn wal_op" where
  "wal_append crc tx_begin_lsn event = obind (ocheck check_healthy) (\<lambda>_.
     alloc_and_append crc (\<lambda>lsn. Mutation lsn tx_begin_lsn event))"

definition wal_append_batch :: "(u8 list \<Rightarrow> u32) \<Rightarrow> lsn \<Rightarrow> mutation_event list \<Rightarrow> lsn wal_op" where
  "wal_append_batch crc tx_begin_lsn events = obind (ocheck check_healthy) (\<lambda>_.
     if events = [] then ocheck (\<lambda>_. Inl (WalEncode WalEmptyBatch))
     else alloc_and_append crc (\<lambda>lsn. MutationBatch lsn tx_begin_lsn events))"

definition wal_commit :: "(u8 list \<Rightarrow> u32) \<Rightarrow> lsn \<Rightarrow> lsn wal_op" where
  "wal_commit crc tx_begin_lsn = obind (ocheck check_healthy) (\<lambda>_.
     alloc_and_append crc (\<lambda>lsn. TxCommit lsn tx_begin_lsn))"

definition wal_abort :: "(u8 list \<Rightarrow> u32) \<Rightarrow> lsn \<Rightarrow> lsn wal_op" where
  "wal_abort crc tx_begin_lsn = obind (ocheck check_healthy) (\<lambda>_.
     alloc_and_append crc (\<lambda>lsn. TxAbort lsn tx_begin_lsn))"

definition checkpoint_marker :: "(u8 list \<Rightarrow> u32) \<Rightarrow> lsn \<Rightarrow> lsn wal_op" where
  "checkpoint_marker crc snapshot_lsn = obind (ocheck check_healthy) (\<lambda>_.
     alloc_and_append crc (\<lambda>lsn. Checkpoint lsn snapshot_lsn))"

section \<open>Committing a transaction\<close>

text \<open>For each batch record: the end index of its events and its payload length.\<close>

type_synonym batch_plan = "(nat \<times> nat) list"

definition batch_payload_len_checked :: "nat \<Rightarrow> nat \<Rightarrow> wal_error + nat" where
  "batch_payload_len_checked count events_len = ebind (batch_payload_len count events_len) (\<lambda>payload_len.
     case framed_len payload_len of
       Inl _ \<Rightarrow> Inl (WalEncode WalRecordTooLarge) | Inr _ \<Rightarrow> Inr payload_len)"

text \<open>Before an event of \<open>size\<close> bytes: the open batch is closed when the event would take it over the target.\<close>

definition close_batch :: "nat \<Rightarrow> nat \<Rightarrow> nat \<Rightarrow> batch_plan \<times> nat \<times> nat \<Rightarrow>
    wal_error + batch_plan \<times> nat \<times> nat" where
  "close_batch target index event_len = (\<lambda>(plan, start, chunk_bytes).
     let count = index - start in
     if count > 0
     then ebind (batch_payload_len (count + 1) (saturating_add chunk_bytes event_len)) (\<lambda>grown.
       if (case framed_len grown of Inr len \<Rightarrow> len \<le> target | Inl _ \<Rightarrow> False)
       then Inr (plan, start, chunk_bytes)
       else ebind (batch_payload_len_checked count chunk_bytes) (\<lambda>n.
         Inr (plan @ [(index, n)], index, 0)))
     else Inr (plan, start, chunk_bytes))"

fun plan_loop :: "nat \<Rightarrow> mutation_event list \<Rightarrow> nat \<Rightarrow> batch_plan \<times> nat \<times> nat \<Rightarrow>
    wal_error + batch_plan \<times> nat \<times> nat" where
  "plan_loop target [] index open_batch = Inr open_batch"
| "plan_loop target (event # events) index open_batch =
     ebind (encoded_batch_event_len event) (\<lambda>event_len.
     ebind (close_batch target index event_len open_batch) (\<lambda>(plan, start, chunk_bytes).
       case checked_add chunk_bytes event_len of
         None \<Rightarrow> Inl (WalEncode WalPayloadOverflow)
       | Some chunk_bytes \<Rightarrow> plan_loop target events (index + 1) (plan, start, chunk_bytes)))"

definition plan_batches :: "mutation_event list \<Rightarrow> nat \<Rightarrow> wal_error + batch_plan" where
  "plan_batches events target = ebind (plan_loop target events 0 ([], 0, 0)) (\<lambda>(plan, start, chunk_bytes).
     ebind (batch_payload_len_checked (length events - start) chunk_bytes) (\<lambda>n.
       Inr (plan @ [(length events, n)])))"

definition event_range :: "nat \<Rightarrow> nat \<Rightarrow> mutation_event list \<Rightarrow> mutation_event list" where
  "event_range a b events = take (b - a) (drop a events)"

fun append_batches :: "(u8 list \<Rightarrow> u32) \<Rightarrow> lsn \<Rightarrow> mutation_event list \<Rightarrow> nat \<Rightarrow> bool \<Rightarrow> batch_plan \<Rightarrow>
    unit wal_op" where
  "append_batches crc begin_lsn events start first [] = oret ()"
| "append_batches crc begin_lsn events start first ((end', payload_len) # batches) =
     obind (on_writer (\<lambda>w. Inr (if first then w else writer_flush_buffer w))) (\<lambda>_.
     obind alloc_lsn (\<lambda>lsn.
     obind (on_writer (writer_append_frame (encode_frame crc KMutationBatch lsn begin_lsn payload_len
         (encode_events_into (event_range start end' events))))) (\<lambda>_.
     append_batches crc begin_lsn events end' False batches)))"

definition append_tx :: "(u8 list \<Rightarrow> u32) \<Rightarrow> mutation_event list \<Rightarrow> batch_plan \<Rightarrow> lsn wal_op" where
  "append_tx crc events batches =
     obind alloc_lsn (\<lambda>begin_lsn.
     obind (on_writer (writer_append crc (TxBegin begin_lsn))) (\<lambda>_.
     obind (append_batches crc begin_lsn events 0 True batches) (\<lambda>_.
     obind alloc_lsn (\<lambda>commit_lsn.
     obind (on_writer (writer_append crc (TxCommit commit_lsn begin_lsn))) (\<lambda>_.
     oret commit_lsn)))))"

section \<open>Flushing\<close>

text \<open>
  The first critical section of \<open>flush_inner\<close>: the buffer goes to the file; a forced flush with
  something new returns the segment to \<open>fsync\<close> and the LSN it will cover.
\<close>

definition flush_begin :: "bool \<Rightarrow> (segment_id \<times> lsn) option wal_op" where
  "flush_begin force st =
     (let st = st\<lparr>ws_active_writer := writer_flush_buffer (ws_active_writer st)\<rparr> in
      if \<not> force then (Inr None, st)
      else let written_lsn = saturating_pred (ws_next_lsn st) in
        if ws_durable_lsn st \<ge> written_lsn then (Inr None, st)
        else (Inr (Some (ws_active_segment_id st, written_lsn)), st))"

text \<open>The \<open>fsync\<close> of the segment; a segment rotated away since was synced when it was sealed.\<close>

definition flush_sync :: "segment_id \<Rightarrow> wal_state \<Rightarrow> wal_state" where
  "flush_sync i st = (if i = ws_active_segment_id st
     then st\<lparr>ws_active_writer := writer_sync (ws_active_writer st)\<rparr> else st)"

definition flush_end :: "lsn \<Rightarrow> wal_state \<Rightarrow> wal_state" where
  "flush_end written_lsn st =
     (if written_lsn \<le> ws_durable_lsn st then st else st\<lparr>ws_durable_lsn := written_lsn\<rparr>)"

definition flush_inner :: "bool \<Rightarrow> unit wal_op" where
  "flush_inner force = obind (flush_begin force) (\<lambda>r. case r of
      None \<Rightarrow> oret ()
    | Some (i, written_lsn) \<Rightarrow> (\<lambda>st. (Inr (), flush_end written_lsn (flush_sync i st))))"

definition wal_flush :: "unit wal_op" where
  "wal_flush = obind (ocheck check_healthy) (\<lambda>_. flush_inner False)"

definition wal_force_fsync :: "unit wal_op" where
  "wal_force_fsync = obind (ocheck check_healthy) (\<lambda>_. flush_inner True)"

text \<open>
  \<open>commit_tx_events\<close>: when the records cannot all be appended, the buffer and, if nothing of the
  transaction reached the file, the LSN counter go back to where they were.
\<close>

definition append_or_roll_back :: "(u8 list \<Rightarrow> u32) \<Rightarrow> mutation_event list \<Rightarrow> batch_plan \<Rightarrow> lsn wal_op" where
  "append_or_roll_back crc events batches st =
     (let first_lsn = ws_next_lsn st;
          pending_mark = length (sw_pending (ws_active_writer st));
          file_mark = sw_bytes_written (ws_active_writer st);
          start_bytes = writer_bytes_written (ws_active_writer st) in
      case append_tx crc events batches st of
        (Inr commit_lsn, st) \<Rightarrow>
          (Inr commit_lsn, st\<lparr>ws_appended_bytes := ws_appended_bytes st +
             of_nat (writer_bytes_written (ws_active_writer st) - start_bytes)\<rparr>)
      | (Inl e, st) \<Rightarrow>
          (Inl e, if sw_bytes_written (ws_active_writer st) = file_mark
            then st\<lparr>ws_active_writer := writer_rollback_pending pending_mark (ws_active_writer st),
               ws_next_lsn := first_lsn\<rparr>
            else st\<lparr>ws_active_writer := writer_rollback_pending 0 (ws_active_writer st)\<rparr>))"

definition commit_tx_events :: "(u8 list \<Rightarrow> u32) \<Rightarrow> wal_config \<Rightarrow> mutation_event list \<Rightarrow>
    lsn option wal_op" where
  "commit_tx_events crc cfg events = obind (ocheck check_healthy) (\<lambda>_.
     if events = [] then oret None
     else obind (ocheck (\<lambda>_. plan_batches events (wc_batch_target_bytes cfg))) (\<lambda>batches.
     obind (maybe_rotate crc cfg) (\<lambda>_.
     obind (append_or_roll_back crc events batches) (\<lambda>commit_lsn.
     obind (flush_inner False) (\<lambda>_. oret (Some commit_lsn))))))"

definition bytes_since_checkpoint :: "wal_state \<Rightarrow> u64" where
  "bytes_since_checkpoint st = (if ws_appended_bytes st < ws_checkpoint_mark st then 0
     else ws_appended_bytes st - ws_checkpoint_mark st)"

definition mark_checkpoint :: "wal_state \<Rightarrow> wal_state" where
  "mark_checkpoint st = st\<lparr>ws_checkpoint_mark := ws_appended_bytes st\<rparr>"

section \<open>Truncating behind a checkpoint\<close>

text \<open>The segments to drop: those before the active one's predecessor that end at or below the fence.\<close>

fun drop_candidates :: "(u8 list \<Rightarrow> u32) \<Rightarrow> segment_id \<Rightarrow> lsn \<Rightarrow> (segment_id \<times> u8 list) list \<Rightarrow>
    wal_error + segment_id list" where
  "drop_candidates crc keep_from fence (e # n # es) =
     (if fst e \<ge> keep_from then Inr []
      else ebind (segment_reader_open crc (snd n)) (\<lambda>sr.
        map_sum id (\<lambda>ds. if saturating_pred (sh_base_lsn (sr_header sr)) \<le> fence then fst e # ds else ds)
          (drop_candidates crc keep_from fence (n # es))))"
| "drop_candidates crc keep_from fence _ = Inr []"

fun remove_segments :: "segment_id list \<Rightarrow> unit wal_op" where
  "remove_segments [] st = (Inr (), st)"
| "remove_segments (i # is) st =
     (let st = st\<lparr>ws_older := filter (\<lambda>f. fst f \<noteq> i) (ws_older st)\<rparr> in
      if i \<ge> ws_oldest_segment_id st
      then (case next_segment_id i of
          Inl e \<Rightarrow> (Inl e, st)
        | Inr n \<Rightarrow> remove_segments is (st\<lparr>ws_oldest_segment_id := n\<rparr>))
      else remove_segments is st)"

definition truncate_up_to :: "(u8 list \<Rightarrow> u32) \<Rightarrow> lsn \<Rightarrow> unit wal_op" where
  "truncate_up_to crc fence st = (let st = mark_checkpoint st in
     case drop_candidates crc (saturating_pred (ws_active_segment_id st)) fence (wal_files st) of
       Inl e \<Rightarrow> (Inl e, st)
     | Inr to_drop \<Rightarrow> remove_segments to_drop st)"

section \<open>Opening a directory\<close>

type_synonym segment_files = "(segment_id \<times> u8 list) list"

text \<open>A crash inside \<open>SegmentWriter::create\<close> leaves a newest segment that never held a record.\<close>

definition discard_unborn_segment :: "(u8 list \<Rightarrow> u32) \<Rightarrow> segment_files \<Rightarrow> segment_files" where
  "discard_unborn_segment crc entries =
     (if entries = [] then entries
      else if length (snd (last entries)) > SEGMENT_HEADER_LEN then entries
      else (case segment_reader_open crc (snd (last entries)) of
        Inr _ \<Rightarrow> entries | Inl _ \<Rightarrow> butlast entries))"

text \<open>
  What an open leaves: the older segments' files, the active segment with its writer, the next LSN,
  and where a corrupt log was cut.
\<close>

record opened_log =
  ol_older :: segment_files
  ol_active_id :: segment_id
  ol_writer :: segment_writer
  ol_next_lsn :: lsn
  ol_corrupt_cut :: "corrupt_cut option"

definition open_fresh :: "(u8 list \<Rightarrow> u32) \<Rightarrow> lsn \<Rightarrow> wal_error + opened_log" where
  "open_fresh crc checkpoint_lsn = ebind (next_lsn_after checkpoint_lsn) (\<lambda>base.
     Inr \<lparr>ol_older = [], ol_active_id = 1, ol_writer = writer_create crc base, ol_next_lsn = base,
       ol_corrupt_cut = None\<rparr>)"

text \<open>The corrupt segment is truncated at the cut, the later ones are moved out of the log.\<close>

definition cut_corrupt_log :: "corrupt_cut \<Rightarrow> segment_files \<Rightarrow> wal_error + segment_files" where
  "cut_corrupt_log cc entries =
     (if cc_segment cc \<ge> length entries then Inl (Malformed ''corrupt segment is not in the WAL directory listing'')
      else let (i, corrupt) = entries ! cc_segment cc in
        Inr (take (cc_segment cc) entries @ [(i, set_len (cc_offset cc) corrupt)]))"

definition open_existing :: "(u8 list \<Rightarrow> u32) \<Rightarrow> (string \<Rightarrow> string option) \<Rightarrow> 's replay_sink \<Rightarrow>
    segment_files \<Rightarrow> lsn \<Rightarrow> bool \<Rightarrow> 's \<Rightarrow> wal_error + opened_log \<times> 's" where
  "open_existing crc lk sink entries checkpoint_lsn truncate_corrupt_tail s =
     ebind (replay_segments crc lk sink entries checkpoint_lsn truncate_corrupt_tail s) (\<lambda>(replay, s).
     ebind (next_lsn_after (max (ro_max_lsn replay) checkpoint_lsn)) (\<lambda>next_lsn.
     ebind (case ro_corrupt_cut replay of None \<Rightarrow> Inr entries | Some cc \<Rightarrow> cut_corrupt_log cc entries) (\<lambda>entries.
     if entries = [] then Inl (Malformed ''WAL directory has no segments'')
     else let (active_id, active) = last entries in
       ebind (segment_reader_open crc active) (\<lambda>reader.
         if sh_sealed (sr_header reader)
         then ebind (next_segment_id active_id) (\<lambda>next_id.
           Inr (\<lparr>ol_older = entries, ol_active_id = next_id, ol_writer = writer_create crc next_lsn,
             ol_next_lsn = next_lsn, ol_corrupt_cut = ro_corrupt_cut replay\<rparr>, s))
         else ebind (writer_open_at crc active (ro_last_good_offset replay)) (\<lambda>writer.
           ebind (case ro_torn_tail replay of
               None \<Rightarrow> Inr writer
             | Some t \<Rightarrow>
                 if tt_segment t \<noteq> length entries - 1
                 then Inl (Malformed ''torn tail found in sealed segment'')
                 else writer_truncate_to (tt_last_good_offset t) writer) (\<lambda>writer.
           Inr (\<lparr>ol_older = butlast entries, ol_active_id = active_id, ol_writer = writer,
             ol_next_lsn = next_lsn, ol_corrupt_cut = ro_corrupt_cut replay\<rparr>, s)))))))"

definition open_replaying_with :: "(u8 list \<Rightarrow> u32) \<Rightarrow> (string \<Rightarrow> string option) \<Rightarrow> 's replay_sink \<Rightarrow>
    segment_files \<Rightarrow> lsn \<Rightarrow> bool \<Rightarrow> 's \<Rightarrow> wal_error + wal_state \<times> corrupt_cut option \<times> 's" where
  "open_replaying_with crc lk sink files checkpoint_lsn truncate_corrupt_tail s =
     (let entries = discard_unborn_segment crc files in
      ebind (if entries = [] then map_sum id (\<lambda>o'. (o', s)) (open_fresh crc checkpoint_lsn)
        else open_existing crc lk sink entries checkpoint_lsn truncate_corrupt_tail s) (\<lambda>(log, s).
      Inr (\<lparr>ws_next_lsn = ol_next_lsn log, ws_durable_lsn = ol_next_lsn log - 1,
        ws_active_segment_id = ol_active_id log, ws_active_writer = ol_writer log,
        ws_oldest_segment_id = (if entries = [] then ol_active_id log else fst (hd entries)),
        ws_older = ol_older log, ws_bg_failure = False, ws_appended_bytes = 0, ws_checkpoint_mark = 0\<rparr>,
       ol_corrupt_cut log, s)))"

text \<open>\<open>Wal::open\<close>, which collects the committed events.\<close>

definition wal_open :: "(u8 list \<Rightarrow> u32) \<Rightarrow> (string \<Rightarrow> string option) \<Rightarrow> segment_files \<Rightarrow> lsn \<Rightarrow>
    wal_error + wal_state \<times> mutation_event list" where
  "wal_open crc lk files checkpoint_lsn =
     map_sum id (\<lambda>(st, _, collected). (st, ce_events collected))
       (open_replaying_with crc lk (collect_step lk) files checkpoint_lsn False collect_default)"

end
