(* ===== verification/Wal_Batches.thy ===== *)
theory Wal_Batches
  imports Wal_Log
begin

text \<open>
  The batch plan of a transaction: it splits the events, in order and without loss, into batches whose
  records encode to exactly the sizes planned, so writing a planned transaction cannot fail half way
  over an event.
\<close>

section \<open>Sizes of one batch\<close>

text \<open>The batch of a plan entry encodes, and its frame fits a record.\<close>

definition batch_fits :: "mutation_event list \<Rightarrow> nat \<Rightarrow> bool" where
  "batch_fits es n \<longleftrightarrow> (\<exists>bs. encode_events_into es = Inr bs \<and> length bs = n \<and> 25 + n \<le> MAX_RECORD_LEN)"

lemma batch_payload_len_Inr:
  "batch_payload_len c k = Inr n \<longleftrightarrow> c < usize_limit \<and> n = length PAYLOAD_MAGIC + 8 + k \<and> n < usize_limit"
  by (auto simp: batch_payload_len_def size_len_def size_u64_def add_size_def checked_add_def
      usize_limit_def PAYLOAD_MAGIC_def)

lemma framed_len_cases:
  "framed_len n = (if 25 + n \<le> MAX_RECORD_LEN then Inr (25 + n) else Inl (WalEncode WalRecordTooLarge))"
  by (auto simp: framed_len_def RECORD_HEADER_LEN_def RECORD_TRAILER_LEN_def checked_add_def
      MAX_RECORD_LEN_def usize_limit_def)

lemma batch_fits_sized:
  assumes "map encoded_batch_event_len es = map Inr ns"
    and "batch_payload_len_checked (length es) (sum_list ns) = Inr n"
  shows "batch_fits es n"
proof -
  have n: "batch_payload_len (length es) (sum_list ns) = Inr n" "25 + n \<le> MAX_RECORD_LEN"
    using assms(2) by (auto simp: batch_payload_len_checked_def framed_len_cases split: if_splits)
  have "sseq (map size_event es) (length PAYLOAD_MAGIC + 8) = Inr n"
    using n(1) assms(1) sizes_events_sum [of "length PAYLOAD_MAGIC + 8" es n]
    by (auto simp: batch_payload_len_Inr)
  then have "encoded_events_len es = Inr n"
    using n(1) by (auto simp: encoded_events_len_def batch_payload_len_Inr size_len_def size_u64_def
        add_size_def checked_add_def usize_limit_def)
  then show ?thesis using n(2) unfolding announced_size batch_fits_def by auto
qed

lemma batch_fits_record:
  assumes "batch_fits es n"
  shows "\<exists>bs. encode_frame crc KMutationBatch lsn tx n (encode_events_into es) = Inr bs \<and>
    record_encode_into crc (MutationBatch lsn tx es) = Inr bs"
proof -
  obtain p where p: "encode_events_into es = Inr p" "length p = n" "25 + n \<le> MAX_RECORD_LEN"
    using assms by (auto simp: batch_fits_def)
  have "encoded_payload_len (MutationBatch lsn tx es) = Inr n"
    unfolding payload_len_written using p by (auto simp: MAX_RECORD_LEN_def usize_limit_def)
  then have "record_encode_into crc (MutationBatch lsn tx es) =
      encode_frame crc KMutationBatch lsn tx n (encode_events_into es)"
    by (simp add: record_encode_into_def)
  moreover have "\<exists>bs. record_encode_into crc (MutationBatch lsn tx es) = Inr bs"
    unfolding record_encode_into_Inr using p by auto
  ultimately show ?thesis by auto
qed

section \<open>The plan\<close>

text \<open>The batches a plan cuts \<open>events\<close> into, from index \<open>start\<close> on.\<close>

fun planned :: "mutation_event list \<Rightarrow> nat \<Rightarrow> batch_plan \<Rightarrow> mutation_event list list" where
  "planned events start [] = []"
| "planned events start ((e, n) # plan) = event_range start e events # planned events e plan"

text \<open>The plan covers the events from \<open>start\<close> up to \<open>stop\<close>, every batch fitting its record.\<close>

fun plan_covers :: "mutation_event list \<Rightarrow> nat \<Rightarrow> nat \<Rightarrow> batch_plan \<Rightarrow> bool" where
  "plan_covers events start stop [] \<longleftrightarrow> start = stop"
| "plan_covers events start stop ((e, n) # plan) \<longleftrightarrow>
     start < e \<and> e \<le> stop \<and> batch_fits (event_range start e events) n \<and> plan_covers events e stop plan"

lemma plan_covers_snoc:
  "plan_covers events start stop plan \<Longrightarrow> stop < e \<Longrightarrow> batch_fits (event_range stop e events) n \<Longrightarrow>
   plan_covers events start e (plan @ [(e, n)])"
proof (induction plan arbitrary: start)
  case (Cons p plan)
  then show ?case by (cases p) auto
qed simp

lemma event_range_append:
  "a \<le> b \<Longrightarrow> b \<le> c \<Longrightarrow> event_range a b es @ event_range b c es = event_range a c es"
  using take_add [of "b - a" "c - b" "drop a es"] by (simp add: event_range_def)

lemma plan_covers_le: "plan_covers events start stop plan \<Longrightarrow> start \<le> stop"
proof (induction plan arbitrary: start)
  case (Cons p plan)
  then show ?case by (cases p) fastforce
qed simp

lemma planned_concat:
  "plan_covers events start stop plan \<Longrightarrow> concat (planned events start plan) = event_range start stop events"
proof (induction plan arbitrary: start)
  case Nil
  then show ?case by (simp add: event_range_def)
next
  case (Cons p plan)
  then show ?case
    by (cases p) (auto simp: event_range_append dest: plan_covers_le)
qed

lemma event_range_snoc:
  "start \<le> length pre \<Longrightarrow>
   event_range start (Suc (length pre)) (pre @ e # es) = event_range start (length pre) (pre @ e # es) @ [e]"
  by (simp add: event_range_def Suc_diff_le)

text \<open>The loop's accounting: the open batch's events have the sizes that add up to its byte count.\<close>

definition open_batch_ok :: "mutation_event list \<Rightarrow> nat \<Rightarrow> batch_plan \<times> nat \<times> nat \<Rightarrow> bool" where
  "open_batch_ok events index = (\<lambda>(plan, start, bytes).
     plan_covers events 0 start plan \<and> start \<le> index \<and> index \<le> length events \<and>
     (\<exists>ns. map encoded_batch_event_len (event_range start index events) = map Inr ns \<and> bytes = sum_list ns))"

lemma close_batch_ok:
  assumes "close_batch target index n b = Inr b'" and "open_batch_ok events index b"
  shows "open_batch_ok events index b'"
proof -
  obtain plan start bytes where b: "b = (plan, start, bytes)" by (cases b)
  obtain ns where ns: "plan_covers events 0 start plan" "start \<le> index" "index \<le> length events"
    "map encoded_batch_event_len (event_range start index events) = map Inr ns" "bytes = sum_list ns"
    using assms(2) by (auto simp: open_batch_ok_def b)
  show ?thesis
  proof (cases "b' = b")
    case False
    then obtain n where n: "batch_payload_len_checked (index - start) bytes = Inr n" and lt: "start < index"
      and eq: "b' = (plan @ [(index, n)], index, 0)"
      using assms(1) by (auto simp: close_batch_def b Let_def split: if_splits)
    have "length (event_range start index events) = index - start" using ns(3) by (simp add: event_range_def)
    then have "batch_fits (event_range start index events) n"
      using batch_fits_sized [OF ns(4)] n ns(5) by simp
    then have "plan_covers events 0 index (plan @ [(index, n)])"
      by (rule plan_covers_snoc [OF ns(1) lt])
    then show ?thesis using ns(3) by (simp add: eq open_batch_ok_def event_range_def)
  qed (use assms(2) in simp)
qed

lemma close_batch_start:
  "close_batch target index n (plan, start, bytes) = Inr (plan', start', bytes') \<Longrightarrow>
   start \<le> index \<Longrightarrow> start' \<le> index"
  by (auto simp: close_batch_def Let_def split: if_splits)

lemma plan_loop_ok:
  assumes "plan_loop target es index b = Inr b'" and "index = length pre" and "events = pre @ es"
    and "open_batch_ok events index b" and "es = [] \<longrightarrow> fst (snd b) < index"
  shows "open_batch_ok events (length events) b' \<and> fst (snd b') < length events"
  using assms
proof (induction es arbitrary: index b pre)
  case (Cons e es)
  from Cons.prems(1) obtain n plan start bytes where
    n: "encoded_batch_event_len e = Inr n"
    and closed: "close_batch target index n b = Inr (plan, start, bytes)"
    and rest: "plan_loop target es (index + 1) (plan, start, bytes + n) = Inr b'"
    by (auto simp: checked_add_def split: if_splits)
  obtain ns where ns: "plan_covers events 0 start plan" "start \<le> index"
    "map encoded_batch_event_len (event_range start index events) = map Inr ns" "bytes = sum_list ns"
    using close_batch_ok [OF closed Cons.prems(4)] by (auto simp: open_batch_ok_def)
  have "event_range start (index + 1) events = event_range start index events @ [e]"
    using event_range_snoc [of start pre e es] ns(2) Cons.prems(2,3) by simp
  then have "open_batch_ok events (index + 1) (plan, start, bytes + n)"
    using ns n Cons.prems(2,3)
    by (auto simp: open_batch_ok_def intro!: exI [of _ "ns @ [n]"])
  from Cons.IH [OF rest _ _ this, of "pre @ [e]"] ns(2) Cons.prems(2,3) show ?case by simp
qed auto

lemma plan_batches_covers:
  assumes "plan_batches events target = Inr plan" and "events \<noteq> []"
  shows "plan_covers events 0 (length events) plan"
proof -
  from assms(1) obtain plan1 start bytes n where
    loop: "plan_loop target events 0 ([], 0, 0) = Inr (plan1, start, bytes)"
    and n: "batch_payload_len_checked (length events - start) bytes = Inr n"
    and plan: "plan = plan1 @ [(length events, n)]"
    by (auto simp: plan_batches_def)
  have "open_batch_ok events (length events) (plan1, start, bytes) \<and> start < length events"
    using plan_loop_ok [OF loop, of "[]" events] assms(2) by (simp add: open_batch_ok_def event_range_def)
  then obtain ns where ns: "plan_covers events 0 start plan1" "start < length events"
    "map encoded_batch_event_len (event_range start (length events) events) = map Inr ns" "bytes = sum_list ns"
    by (auto simp: open_batch_ok_def)
  have "length (event_range start (length events) events) = length events - start"
    by (simp add: event_range_def)
  then have "batch_fits (event_range start (length events) events) n"
    using batch_fits_sized [OF ns(3)] n ns(4) by simp
  then show ?thesis unfolding plan by (rule plan_covers_snoc [OF ns(1,2)])
qed

text \<open>Planning fails only on an event that does not encode, or is too large for any record.\<close>

definition event_fits :: "mutation_event \<Rightarrow> bool" where
  "event_fits e \<longleftrightarrow> (\<exists>n. encoded_batch_event_len e = Inr n \<and> 37 + n \<le> MAX_RECORD_LEN)"

definition open_batch_fits :: "nat \<Rightarrow> batch_plan \<times> nat \<times> nat \<Rightarrow> bool" where
  "open_batch_fits index = (\<lambda>(plan, start, bytes).
     (start < index \<or> start = index \<and> bytes = 0) \<and> 37 + bytes \<le> MAX_RECORD_LEN)"

lemma payload_len_fits:
  assumes "37 + k \<le> MAX_RECORD_LEN" and "c < usize_limit"
  shows "batch_payload_len_checked c k = Inr (12 + k)"
proof -
  have "batch_payload_len c k = Inr (12 + k)"
    using assms by (simp add: batch_payload_len_Inr PAYLOAD_MAGIC_def MAX_RECORD_LEN_def usize_limit_def)
  then show ?thesis using assms(1) by (simp add: batch_payload_len_checked_def framed_len_cases)
qed

lemma close_batch_fits:
  assumes "open_batch_fits index b" and "37 + n \<le> MAX_RECORD_LEN" and "index + 1 < usize_limit"
  shows "\<exists>plan start bytes. close_batch target index n b = Inr (plan, start, bytes) \<and>
    bytes + n < usize_limit \<and> open_batch_fits (index + 1) (plan, start, bytes + n)"
proof -
  obtain plan start bytes where b: "b = (plan, start, bytes)" by (cases b)
  have fits: "start < index \<or> start = index \<and> bytes = 0" "37 + bytes \<le> MAX_RECORD_LEN"
    using assms(1) by (auto simp: b open_batch_fits_def)
  have small: "MAX_RECORD_LEN < usize_limit" by (simp add: MAX_RECORD_LEN_def usize_limit_def)
  show ?thesis
  proof (cases "start < index")
    case True
    have sat: "saturating_add bytes n = bytes + n"
      using fits assms(2) by (simp add: saturating_add_def MAX_RECORD_LEN_def usize_limit_def)
    have grown: "batch_payload_len (Suc (index - start)) (bytes + n) = Inr (12 + bytes + n)"
      using fits assms by (simp add: batch_payload_len_Inr PAYLOAD_MAGIC_def MAX_RECORD_LEN_def usize_limit_def)
    have one: "batch_payload_len_checked (index - start) bytes = Inr (12 + bytes)"
      using payload_len_fits [OF fits(2)] assms(3) by simp
    show ?thesis
    proof (cases "25 + (12 + bytes + n) \<le> MAX_RECORD_LEN \<and> 25 + (12 + bytes + n) \<le> target")
      case True
      then show ?thesis using \<open>start < index\<close> small
        by (simp add: b close_batch_def sat grown framed_len_cases open_batch_fits_def)
    next
      case False
      then show ?thesis using \<open>start < index\<close> small assms(2)
        by (auto simp: b close_batch_def sat grown one framed_len_cases open_batch_fits_def simp del: ebind_eq_Inr)
    qed
  next
    case False
    then show ?thesis using fits assms(2) small by (simp add: b close_batch_def open_batch_fits_def)
  qed
qed

lemma plan_loop_fits:
  assumes "list_all event_fits es" and "open_batch_fits index b" and "index + length es < usize_limit"
  shows "\<exists>b'. plan_loop target es index b = Inr b' \<and> open_batch_fits (index + length es) b'"
  using assms
proof (induction es arbitrary: index b)
  case (Cons e es)
  then obtain n where n: "encoded_batch_event_len e = Inr n" "37 + n \<le> MAX_RECORD_LEN"
    by (auto simp: event_fits_def)
  obtain plan start bytes where closed: "close_batch target index n b = Inr (plan, start, bytes)"
    "bytes + n < usize_limit" "open_batch_fits (index + 1) (plan, start, bytes + n)"
    using close_batch_fits [OF Cons.prems(2) n(2)] Cons.prems(3) by fastforce
  from Cons.IH [OF _ closed(3)] Cons.prems show ?case
    by (simp add: n closed(1,2) checked_add_def)
qed simp

lemma plan_batches_succeeds:
  assumes "list_all event_fits events" and "length events < usize_limit"
  shows "\<exists>plan. plan_batches events target = Inr plan"
proof -
  have "open_batch_fits 0 ([], 0, 0)" by (simp add: open_batch_fits_def MAX_RECORD_LEN_def)
  from plan_loop_fits [OF assms(1) this, of target] assms(2)
  obtain plan start bytes where "plan_loop target events 0 ([], 0, 0) = Inr (plan, start, bytes)"
    "37 + bytes \<le> MAX_RECORD_LEN" by (auto simp: open_batch_fits_def)
  then show ?thesis using payload_len_fits [of bytes "length events - start"] assms(2)
    by (auto simp: plan_batches_def)
qed

text \<open>
  C33. A batch plan loses and reorders nothing: its batches are non-empty, in order and together the
  transaction's events, and each encodes to exactly the planned payload size within the record limit.
  There is a plan whenever each event fits a record of its own.
\<close>

theorem plan_partitions_events:
  assumes "list_all event_fits events" and "length events < usize_limit" and "events \<noteq> []"
  shows "\<exists>plan. plan_batches events target = Inr plan \<and> concat (planned events 0 plan) = events \<and>
    plan_covers events 0 (length events) plan"
proof -
  obtain plan where plan: "plan_batches events target = Inr plan"
    using plan_batches_succeeds [OF assms(1,2)] by blast
  then show ?thesis
    using planned_concat [OF plan_batches_covers [OF plan assms(3)]] plan_batches_covers [OF plan assms(3)]
    by (simp add: event_range_def)
qed

theorem plan_partitions_events_witness:
  "\<exists>plan. plan_batches [DeleteNode 1, DeleteNode 2] 50 = Inr plan \<and>
     concat (planned [DeleteNode 1, DeleteNode 2] 0 plan) = [DeleteNode 1, DeleteNode 2]"
proof -
  have "event_fits (DeleteNode i)" for i
    by (simp add: event_fits_def encoded_batch_event_len_def size_tag_def size_u64_def add_size_def
        checked_add_def usize_limit_def MAX_RECORD_LEN_def)
  then show ?thesis
    using plan_partitions_events [of "[DeleteNode 1, DeleteNode 2]" 50] by (auto simp: usize_limit_def)
qed

end
