(* ===== verification/Wal_Handle.thy ===== *)
theory Wal_Handle
  imports Wal_Batches
begin

text \<open>
  The log handle keeps the log well formed: the invariant that ties its state to the records it has
  written and buffered, and what a commit, rotation, flush and checkpoint do to those records.
\<close>

section \<open>Extending a written log\<close>

lemma log_files_snoc:
  "log_files crc (os @ [seg]) tail fs \<longleftrightarrow> (\<exists>fs1 f bs. fs = fs1 @ [f] \<and> log_files crc os [] fs1 \<and>
     wseq (map (record_encode_into crc) (ls_records seg)) = Inr bs \<and>
     f = segment_header_encode crc (ls_header seg) @ bs @ tail)"
proof (induction os arbitrary: fs)
  case Nil
  then show ?case by (cases fs) (auto split: list.splits)
next
  case (Cons o' os)
  show ?case
  proof (cases fs)
    case (Cons f fs')
    with Cons.IH [of fs'] show ?thesis
      by (auto simp: Cons_eq_append_conv append_eq_Cons_conv)
  qed simp
qed

lemma log_files_snocI:
  "log_files crc os [] fs \<Longrightarrow> wseq (map (record_encode_into crc) rs) = Inr bs \<Longrightarrow>
   log_files crc (os @ [\<lparr>ls_header = h, ls_records = rs\<rparr>]) [] (fs @ [segment_header_encode crc h @ bs])"
  by (simp add: log_files_snoc)

definition last_base :: "lsn option \<Rightarrow> log_segment list \<Rightarrow> lsn option" where
  "last_base prev os = (if os = [] then prev else Some (sh_base_lsn (ls_header (last os))))"

lemma bases_ok_append:
  "bases_ok prev l (os @ os') \<longleftrightarrow> bases_ok prev l os \<and>
     bases_ok (last_base prev os) (last_lsn l (segs_records os)) os'"
  by (induction os arbitrary: prev l) (auto simp: last_base_def)

definition open_tx :: "lsn option \<Rightarrow> wal_record list \<Rightarrow> lsn option" where
  "open_tx tx rs = fold (\<lambda>r t. tx_after t r) rs tx"

definition checkpoint_seen :: "lsn option \<Rightarrow> wal_record list \<Rightarrow> lsn option" where
  "checkpoint_seen ck rs = fold (\<lambda>r c. checkpoint_after c r) rs ck"

lemma open_tx_simps [simp]:
  "open_tx tx [] = tx" "open_tx tx [r] = tx_after tx r"
  "open_tx tx (rs @ rs') = open_tx (open_tx tx rs) rs'"
  by (simp_all add: open_tx_def)

lemma checkpoint_seen_simps [simp]:
  "checkpoint_seen ck [] = ck" "checkpoint_seen ck (rs @ rs') = checkpoint_seen (checkpoint_seen ck rs) rs'"
  by (simp_all add: checkpoint_seen_def)

lemma replayable_append:
  "replayable tx ck (rs @ rs') \<longleftrightarrow> replayable tx ck rs \<and>
     replayable (open_tx tx rs) (checkpoint_seen ck rs) rs'"
proof (induction rs arbitrary: tx ck)
  case (Cons r rs)
  then show ?case
    using replayable_Cons [of tx ck r "rs @ rs'"] replayable_Cons [of tx ck r rs]
    by (simp add: open_tx_def checkpoint_seen_def)
qed (simp add: checkpoint_seen_def)

text \<open>A log with \<open>rs\<close> in its newest segment, whose header is \<open>h\<close>, behind the segments \<open>os\<close>.\<close>

abbreviation newest :: "log_segment list \<Rightarrow> segment_header \<Rightarrow> wal_record list \<Rightarrow> log_segment list" where
  "newest os h rs \<equiv> os @ [\<lparr>ls_header = h, ls_records = rs\<rparr>]"

text \<open>The record \<open>r\<close> may be appended: it is the newest, and continues the transaction it belongs to.\<close>

definition may_follow :: "(string \<Rightarrow> string option) \<Rightarrow> lsn \<Rightarrow> lsn \<Rightarrow> wal_record list \<Rightarrow> wal_record \<Rightarrow> bool" where
  "may_follow lk fence base rs r \<longleftrightarrow> wf_record lk r \<and> base \<le> record_lsn r \<and> fence < record_lsn r \<and>
     (\<forall>r' \<in> set rs. record_lsn r' < record_lsn r) \<and>
     replayable (open_tx None (past fence rs)) (checkpoint_seen None (past fence rs)) [r]"

lemma log_ok_snoc:
  assumes "log_ok crc lk fence (newest os h rs) []" and "may_follow lk fence (sh_base_lsn h) (segs_records os @ rs) r"
  shows "log_ok crc lk fence (newest os h (rs @ [r])) []"
  using assms
  by (auto simp: log_ok_def may_follow_def bases_ok_append sorted_wrt_append replayable_append not_le
      hd_append)

lemma log_ok_prefix:
  assumes "log_ok crc lk fence (newest os h (rs @ rs')) []"
    and "tail = [] \<or> \<not> sh_sealed h \<and> torn_tail crc (last_lsn 0 (segs_records os @ rs)) tail"
  shows "log_ok crc lk fence (newest os h rs) tail"
  using assms
  by (auto simp: log_ok_def bases_ok_append sorted_wrt_append replayable_append hd_append)

text \<open>A new segment for the next LSN.\<close>

lemma log_ok_rotate:
  assumes "log_ok crc lk fence (newest os h rs) []" and "sh_base_lsn h < base"
    and "\<forall>r \<in> set (segs_records os @ rs). record_lsn r < base"
  shows "log_ok crc lk fence (newest (newest os (h\<lparr>sh_sealed := True\<rparr>) rs) (segment_header_new base) []) []"
proof -
  have "last_lsn 0 (segs_records os @ rs) < base" if "segs_records os @ rs \<noteq> []"
    using assms(3) last_in_set [OF that] that unfolding last_lsn_def by (simp only: if_False)
  then have "last_lsn 0 (segs_records os @ rs) = 0 \<or> last_lsn 0 (segs_records os @ rs) < base"
    by (cases "segs_records os @ rs = []") (auto simp: last_lsn_def)
  then show ?thesis
    using assms(1,2)
    by (auto simp: log_ok_def bases_ok_append last_base_def segment_header_new_def hd_append)
qed

section \<open>The invariant\<close>

text \<open>
  The state holds the segments \<open>os\<close>, and behind them the active one with header \<open>h\<close>, the records \<open>rs\<close>
  in its file and the records \<open>pend\<close> in its buffer; \<open>fence\<close> is the LSN the newest snapshot covers.
\<close>

definition wal_log :: "(u8 list \<Rightarrow> u32) \<Rightarrow> (string \<Rightarrow> string option) \<Rightarrow> lsn \<Rightarrow> log_segment list \<Rightarrow>
    segment_header \<Rightarrow> wal_record list \<Rightarrow> wal_record list \<Rightarrow> wal_state \<Rightarrow> bool" where
  "wal_log crc lk fence os h rs pend st \<longleftrightarrow> (let w = ws_active_writer st in
     log_files crc (newest os h rs) [] (map snd (wal_files st)) \<and>
     wseq (map (record_encode_into crc) pend) = Inr (sw_pending w) \<and>
     sw_bytes_written w = length (sw_file w) \<and> sw_synced w \<le> length (sw_file w) \<and> sw_header w = h \<and> \<not> sh_sealed h \<and>
     log_ok crc lk fence (newest os h (rs @ pend)) [] \<and>
     check_segment_ids_contiguous (map fst (wal_files st)) = Inr () \<and>
     (\<forall>r \<in> set (segs_records os @ rs @ pend). record_lsn r < ws_next_lsn st) \<and>
     sh_base_lsn h \<le> ws_next_lsn st \<and> fence < ws_next_lsn st)"

lemma wal_log_file:
  assumes "wal_log crc lk fence os h rs pend st"
  shows "\<exists>bs. wseq (map (record_encode_into crc) rs) = Inr bs \<and>
      sw_file (ws_active_writer st) = segment_header_encode crc h @ bs"
    and "log_files crc os [] (map snd (ws_older st))"
  using assms by (auto simp: wal_log_def wal_files_def log_files_snoc Let_def)

text \<open>Only the LSN counter moves.\<close>

lemma wal_log_next:
  "wal_log crc lk fence os h rs pend st \<Longrightarrow> ws_next_lsn st \<le> n \<Longrightarrow>
   wal_log crc lk fence os h rs pend (st\<lparr>ws_next_lsn := n\<rparr>)"
  by (force simp: wal_log_def wal_files_def Let_def)

lemma lsn_checked_next_Some:
  "lsn_checked_next l = Some n \<longleftrightarrow> Suc (unat l) < 2 ^ 64 \<and> n = l + 1"
  by (auto simp: lsn_checked_next_def)

lemma lsn_next_unat: "lsn_checked_next l = Some n \<Longrightarrow> unat n = Suc (unat l)"
  by (auto simp: lsn_checked_next_Some unat_word_ariths)

lemma lsn_next_greater: "lsn_checked_next l = Some n \<Longrightarrow> l < n"
  by (simp add: word_less_nat_alt lsn_next_unat)

text \<open>A record with an allocated LSN goes to the buffer.\<close>

lemma wal_log_append:
  assumes log: "wal_log crc lk fence os h rs pend st" and bs: "record_encode_into crc r = Inr bs"
    and may: "may_follow lk fence (sh_base_lsn h) (segs_records os @ rs @ pend) r"
    and n: "record_lsn r < ws_next_lsn st"
    and w: "w = ws_active_writer st"
  shows "wal_log crc lk fence os h rs (pend @ [r])
    (st\<lparr>ws_active_writer := w\<lparr>sw_pending := sw_pending w @ bs\<rparr>\<rparr>)"
proof -
  have "log_ok crc lk fence (newest os h ((rs @ pend) @ [r])) []"
    by (rule log_ok_snoc) (use log may in \<open>auto simp: wal_log_def Let_def\<close>)
  then show ?thesis
    using log bs n by (auto simp: wal_log_def wal_files_def Let_def wseq_append_Inr w)
qed

text \<open>The buffer goes to the file.\<close>

lemma wal_log_flush:
  assumes "wal_log crc lk fence os h rs pend st"
  shows "wal_log crc lk fence os h (rs @ pend) []
    (st\<lparr>ws_active_writer := writer_flush_buffer (ws_active_writer st)\<rparr>)"
proof -
  let ?w = "ws_active_writer st"
  have written: "sw_file (writer_flush_buffer ?w) = sw_file ?w @ sw_pending ?w"
    using assms by (auto simp: wal_log_def Let_def writer_flush_buffer_def write_at_def)
  show ?thesis
    using assms written
    by (auto simp: wal_log_def wal_files_def Let_def log_files_snoc wseq_append_Inr writer_flush_buffer_def
        split: if_splits)
qed

text \<open>Buffered records are dropped.\<close>

lemma wal_log_forget:
  assumes "wal_log crc lk fence os h rs (pend @ pend') st"
    and "wseq (map (record_encode_into crc) pend) = Inr bs"
  shows "wal_log crc lk fence os h rs pend
    (st\<lparr>ws_active_writer := (ws_active_writer st)\<lparr>sw_pending := bs\<rparr>\<rparr>)"
proof -
  have "log_ok crc lk fence (newest os h (rs @ pend)) []"
    by (rule log_ok_prefix [of _ _ _ _ _ _ pend']) (use assms in \<open>simp_all add: wal_log_def Let_def\<close>)
  then show ?thesis using assms by (simp add: wal_log_def wal_files_def Let_def ball_Un)
qed

section \<open>Writing a transaction\<close>

text \<open>Only the active writer and the LSN counter differ.\<close>

definition same_log :: "wal_state \<Rightarrow> wal_state \<Rightarrow> bool" where
  "same_log st st' \<longleftrightarrow> ws_durable_lsn st' = ws_durable_lsn st \<and>
     ws_active_segment_id st' = ws_active_segment_id st \<and>
     ws_oldest_segment_id st' = ws_oldest_segment_id st \<and> ws_older st' = ws_older st \<and>
     ws_bg_failure st' = ws_bg_failure st \<and> ws_appended_bytes st' = ws_appended_bytes st \<and>
     ws_checkpoint_mark st' = ws_checkpoint_mark st"

lemma same_log_eq:
  "same_log st st' \<Longrightarrow> ws_active_writer st' = ws_active_writer st \<Longrightarrow> ws_next_lsn st' = ws_next_lsn st \<Longrightarrow>
   st' = st"
  by (simp add: same_log_def)

lemma same_log_simps [simp]:
  "same_log st st"
  "same_log st (st'\<lparr>ws_active_writer := w\<rparr>) = same_log st st'"
  "same_log st (st'\<lparr>ws_next_lsn := n\<rparr>) = same_log st st'"
  by (simp_all add: same_log_def)

text \<open>
  From \<open>st\<close> the records \<open>new\<close> were appended: either all are still in the buffer and only the buffer and
  the LSN counter changed, or the buffer has reached the file, with everything before \<open>new\<close>.
\<close>

definition newer :: "wal_state \<Rightarrow> wal_record list \<Rightarrow> wal_state \<Rightarrow> bool" where
  "newer st new st' \<longleftrightarrow> ws_next_lsn st \<le> ws_next_lsn st' \<and> (\<forall>r \<in> set new. ws_next_lsn st \<le> record_lsn r)"

lemma newer_simps [simp]:
  "newer st [] st"
  "newer st new (st'\<lparr>ws_active_writer := w\<rparr>) = newer st new st'"
  "newer st (new @ [r]) st' \<longleftrightarrow> newer st new st' \<and> ws_next_lsn st \<le> record_lsn r"
  by (auto simp: newer_def)

lemma newer_next: "newer st new st' \<Longrightarrow> ws_next_lsn st' \<le> n \<Longrightarrow> newer st new (st'\<lparr>ws_next_lsn := n\<rparr>)"
  by (auto simp: newer_def)

definition tx_written :: "(u8 list \<Rightarrow> u32) \<Rightarrow> (string \<Rightarrow> string option) \<Rightarrow> lsn \<Rightarrow> log_segment list \<Rightarrow>
    segment_header \<Rightarrow> wal_record list \<Rightarrow> wal_record list \<Rightarrow> wal_state \<Rightarrow> wal_record list \<Rightarrow> wal_state \<Rightarrow> bool" where
  "tx_written crc lk fence os h rs pend st new st' \<longleftrightarrow> (let w = ws_active_writer st; w' = ws_active_writer st' in
     same_log st st' \<and> sw_synced w' = sw_synced w \<and> newer st new st' \<and>
     ((\<exists>bs. w' = w\<lparr>sw_pending := sw_pending w @ bs\<rparr>) \<and> wal_log crc lk fence os h rs (pend @ new) st' \<or>
      sw_bytes_written w < sw_bytes_written w' \<and>
        (\<exists>a b. new = a @ b \<and> wal_log crc lk fence os h (rs @ pend @ a) b st')))"

lemma tx_written_Nil: "wal_log crc lk fence os h rs pend st \<Longrightarrow> tx_written crc lk fence os h rs pend st [] st"
  by (auto simp: tx_written_def Let_def intro: exI [of _ "[]"])

text \<open>The two ways to have written: in the buffer, or flushed.\<close>

lemma tx_written_cases:
  assumes "tx_written crc lk fence os h rs pend st new st'"
  obtains (Buffered) bs where "ws_active_writer st' = (ws_active_writer st)
        \<lparr>sw_pending := sw_pending (ws_active_writer st) @ bs\<rparr>"
      "wal_log crc lk fence os h rs (pend @ new) st'" "same_log st st'" "newer st new st'"
  | (Flushed) a b where "new = a @ b" "wal_log crc lk fence os h (rs @ pend @ a) b st'"
      "sw_bytes_written (ws_active_writer st) < sw_bytes_written (ws_active_writer st')"
      "same_log st st'" "sw_synced (ws_active_writer st') = sw_synced (ws_active_writer st)"
      "newer st new st'"
  using assms by (auto simp: tx_written_def Let_def)

lemma tx_written_bufferedI:
  "ws_active_writer st' = (ws_active_writer st)\<lparr>sw_pending := sw_pending (ws_active_writer st) @ bs\<rparr> \<Longrightarrow>
   wal_log crc lk fence os h rs (pend @ new) st' \<Longrightarrow> same_log st st' \<Longrightarrow> newer st new st' \<Longrightarrow>
   tx_written crc lk fence os h rs pend st new st'"
  by (auto simp: tx_written_def Let_def)

lemma tx_written_flushedI:
  "wal_log crc lk fence os h (rs @ pend @ a) b st' \<Longrightarrow> new = a @ b \<Longrightarrow> same_log st st' \<Longrightarrow> newer st new st' \<Longrightarrow>
   sw_bytes_written (ws_active_writer st) < sw_bytes_written (ws_active_writer st') \<Longrightarrow>
   sw_synced (ws_active_writer st') = sw_synced (ws_active_writer st) \<Longrightarrow>
   tx_written crc lk fence os h rs pend st new st'"
  by (auto simp: tx_written_def Let_def)

lemma tx_written_next:
  assumes "tx_written crc lk fence os h rs pend st new st'" and "ws_next_lsn st' \<le> n"
  shows "tx_written crc lk fence os h rs pend st new (st'\<lparr>ws_next_lsn := n\<rparr>)"
  using assms(1)
proof (cases rule: tx_written_cases)
  case (Buffered bs)
  with wal_log_next [OF Buffered(2) assms(2)] show ?thesis
    by (intro tx_written_bufferedI [of _ _ bs]) (simp_all add: newer_next assms(2))
next
  case (Flushed a b)
  with wal_log_next [OF Flushed(2) assms(2)] show ?thesis
    by (intro tx_written_flushedI [of _ _ _ _ _ _ _ a b]) (simp_all add: newer_next assms(2))
qed

lemma tx_written_lsns:
  assumes "tx_written crc lk fence os h rs pend st new st'"
  shows "\<forall>r \<in> set (segs_records os @ rs @ pend @ new). record_lsn r < ws_next_lsn st'"
    and "sh_base_lsn h \<le> ws_next_lsn st'" and "fence < ws_next_lsn st'"
    and "replayable None None (past fence (segs_records os @ rs @ pend @ new))"
    and "\<not> sh_sealed (sw_header (ws_active_writer st'))"
  using assms by (auto simp: tx_written_def Let_def wal_log_def log_ok_def)

lemma tx_written_append:
  assumes tx: "tx_written crc lk fence os h rs pend st new st'" and bs: "record_encode_into crc r = Inr bs"
    and may: "may_follow lk fence (sh_base_lsn h) (segs_records os @ rs @ pend @ new) r"
    and n: "record_lsn r < ws_next_lsn st'" and w: "w = ws_active_writer st'"
    and old: "ws_next_lsn st \<le> record_lsn r"
  shows "tx_written crc lk fence os h rs pend st (new @ [r])
    (st'\<lparr>ws_active_writer := w\<lparr>sw_pending := sw_pending w @ bs\<rparr>\<rparr>)"
  using tx
proof (cases rule: tx_written_cases)
  case (Buffered cs)
  then have "wal_log crc lk fence os h rs ((pend @ new) @ [r])
      (st'\<lparr>ws_active_writer := w\<lparr>sw_pending := sw_pending w @ bs\<rparr>\<rparr>)"
    by (intro wal_log_append [OF _ bs _ n w]) (use may in simp_all)
  with Buffered w show ?thesis by (intro tx_written_bufferedI [of _ _ "cs @ bs"]) (simp_all add: old)
next
  case (Flushed a b)
  then have "wal_log crc lk fence os h (rs @ pend @ a) (b @ [r])
      (st'\<lparr>ws_active_writer := w\<lparr>sw_pending := sw_pending w @ bs\<rparr>\<rparr>)"
    by (intro wal_log_append [OF _ bs _ n w]) (use may in simp_all)
  with Flushed w show ?thesis by (intro tx_written_flushedI [of _ _ _ _ _ _ _ a "b @ [r]"]) (simp_all add: old flip: append_assoc)
qed

lemma encoded_nonempty: "record_encode_into crc r \<noteq> Inr []"
  by (auto simp: record_encode_into_Inr dest: arg_cong [where f = length])

lemma tx_written_flush:
  assumes tx: "tx_written crc lk fence os h rs pend st new st'" and new: "new \<noteq> []"
  shows "tx_written crc lk fence os h rs pend st new
    (st'\<lparr>ws_active_writer := writer_flush_buffer (ws_active_writer st')\<rparr>)"
  using tx
proof (cases rule: tx_written_cases)
  case (Buffered bs)
  have "sw_pending (ws_active_writer st') \<noteq> []"
    using Buffered(2) new
    by (cases new) (auto simp: wal_log_def Let_def wseq_append_Inr encoded_nonempty)
  then show ?thesis
    using Buffered wal_log_flush [OF Buffered(2)]
    by (intro tx_written_flushedI [of _ _ _ _ _ _ _ new "[]"]) (auto simp: writer_flush_buffer_def)
next
  case (Flushed a b)
  from wal_log_flush [OF Flushed(2)] Flushed show ?thesis
    by (intro tx_written_flushedI [of _ _ _ _ _ _ _ new "[]"]) (auto simp: writer_flush_buffer_def)
qed

section \<open>The records of a transaction\<close>

text \<open>A transaction that has not begun has no records.\<close>

lemma tx_log_fresh:
  assumes "replayable tx ck rs" and "tx \<noteq> Some t" and "\<forall>r \<in> set rs. record_lsn r \<noteq> t"
  shows "tx_log t rs = []"
proof -
  have "tx_log t (r # rs) = record_events t r @ tx_log t rs" for r rs by (simp add: tx_log_def)
  then show ?thesis using assms by (induction tx ck rs rule: replayable.induct) auto
qed

lemma tx_log_Cons [simp]: "tx_log t (r # rs) = record_events t r @ tx_log t rs"
  by (simp add: tx_log_def)

lemma tx_log_append_list: "tx_log t (rs @ rs') = tx_log t rs @ tx_log t rs'"
  by (simp add: tx_log_def)

definition batch_of :: "lsn \<Rightarrow> wal_record \<Rightarrow> bool" where
  "batch_of t r \<longleftrightarrow> (\<exists>l es. r = MutationBatch l t es)"

lemma batch_of_MutationBatch [simp]: "batch_of t (MutationBatch l t' es) \<longleftrightarrow> t' = t"
  by (auto simp: batch_of_def)

lemma open_tx_batches: "list_all (batch_of t) rs \<Longrightarrow> open_tx tx rs = tx"
  by (induction rs) (auto simp: open_tx_def batch_of_def)

lemma committed_batches: "list_all (batch_of t) rs \<Longrightarrow> committed (all @ rs) = committed all"
proof (induction rs rule: rev_induct)
  case (snoc r rs)
  then show ?case using committed_snoc [of "all @ rs" r] by (auto simp: batch_of_def)
qed simp

lemma past_above: "\<forall>r \<in> set rs. fence < record_lsn r \<Longrightarrow> past fence rs = rs"
  by (simp add: not_le)

section \<open>Writing the batches\<close>

lemma writer_append_frame_Inr:
  "\<not> sh_sealed (sw_header w) \<Longrightarrow> writer_append_frame (Inr bs) w = Inr (w\<lparr>sw_pending := sw_pending w @ bs\<rparr>)"
  by (simp add: writer_append_frame_def writer_ensure_appendable_def)

lemma append_batches_ok:
  assumes "append_batches crc t events start first plan st1 = (res, st2)"
    and "tx_written crc lk fence os h rs pend st new st1" and "new \<noteq> []" and "fence < ws_next_lsn st"
    and "open_tx None (past fence (segs_records os @ rs @ pend @ new)) = Some t"
    and "plan_covers events start stop plan" and "list_all (wf_event lk) events"
  shows "\<exists>new'. tx_written crc lk fence os h rs pend st (new @ new') st2 \<and> list_all (batch_of t) new' \<and>
    (case res of
       Inr _ \<Rightarrow> tx_log t new' = concat (planned events start plan) \<and>
         unat (ws_next_lsn st2) = unat (ws_next_lsn st1) + length plan
     | Inl e \<Rightarrow> e = lsn_exhausted \<and> 2 ^ 64 \<le> unat (ws_next_lsn st1) + length plan)"
  using assms
proof (induction plan arbitrary: start first st1 new)
  case Nil
  then show ?case by (intro exI [of _ "[]"]) (auto simp: oret_def)
next
  case (Cons p plan)
  obtain e n where p: "p = (e, n)" by (cases p)
  let ?es = "event_range start e events" and ?all = "\<lambda>new. segs_records os @ rs @ pend @ new"
  have fits: "batch_fits ?es n" and later: "plan_covers events e stop plan"
    using Cons.prems(6) by (simp_all add: p)
  define s1 where "s1 = (if first then st1 else st1\<lparr>ws_active_writer := writer_flush_buffer (ws_active_writer st1)\<rparr>)"
  have s1: "tx_written crc lk fence os h rs pend st new s1"
    using Cons.prems(2) tx_written_flush [OF Cons.prems(2,3)] by (simp add: s1_def)
  have same: "ws_next_lsn s1 = ws_next_lsn st1" by (simp add: s1_def)
  have old: "ws_next_lsn st \<le> ws_next_lsn s1" using s1 by (auto simp: tx_written_def Let_def newer_def)
  have run: "append_batches crc t events start first (p # plan) st1 =
     obind alloc_lsn (\<lambda>lsn. obind (on_writer (writer_append_frame (encode_frame crc KMutationBatch lsn t n
         (encode_events_into ?es)))) (\<lambda>_. append_batches crc t events e False plan)) s1"
    by (simp add: p obind_def on_writer_def s1_def)
  show ?case
  proof (cases "lsn_checked_next (ws_next_lsn s1)")
    case None
    then have "res = Inl lsn_exhausted" "st2 = s1" "2 ^ 64 \<le> unat (ws_next_lsn s1) + 1"
      using Cons.prems(1) unfolding run by (simp_all add: obind_def alloc_lsn_def lsn_checked_next_def split: if_splits)
    with s1 same show ?thesis by (intro exI [of _ "[]"]) simp
  next
    case (Some n')
    let ?l = "ws_next_lsn s1" and ?s2 = "s1\<lparr>ws_next_lsn := n'\<rparr>"
    let ?r = "MutationBatch ?l t ?es" and ?w = "ws_active_writer ?s2"
    obtain bs where bs: "encode_frame crc KMutationBatch ?l t n (encode_events_into ?es) = Inr bs"
      "record_encode_into crc ?r = Inr bs" using batch_fits_record [OF fits] by blast
    have gt: "?l < n'" by (rule lsn_next_greater [OF Some])
    have s2: "tx_written crc lk fence os h rs pend st new ?s2"
      by (rule tx_written_next [OF s1]) (use gt in simp)
    have above: "fence < ?l" using tx_written_lsns(3) [OF s1] .
    have "may_follow lk fence (sh_base_lsn h) (?all new) ?r"
      using tx_written_lsns(1-3) [OF s1] Cons.prems(5,7)
      by (auto simp: may_follow_def event_range_def list_all_iff dest!: in_set_takeD in_set_dropD)
    then have s3: "tx_written crc lk fence os h rs pend st (new @ [?r])
        (?s2\<lparr>ws_active_writer := ?w\<lparr>sw_pending := sw_pending ?w @ bs\<rparr>\<rparr>)"
      by (rule tx_written_append [OF s2 bs(2)]) (use gt old in simp_all)
    have rest: "append_batches crc t events e False plan
        (?s2\<lparr>ws_active_writer := ?w\<lparr>sw_pending := sw_pending ?w @ bs\<rparr>\<rparr>) = (res, st2)"
      using Cons.prems(1) tx_written_lsns(5) [OF s1] unfolding run
      by (simp add: obind_def alloc_lsn_def Some bs(1) on_writer_def writer_append_frame_Inr)
    have next3: "ws_next_lsn (?s2\<lparr>ws_active_writer := ?w\<lparr>sw_pending := sw_pending ?w @ bs\<rparr>\<rparr>) = n'"
      by simp
    have op: "open_tx None (past fence (?all (new @ [?r]))) = Some t"
      using Cons.prems(5) above by (simp add: not_le)
    obtain new' where "tx_written crc lk fence os h rs pend st ((new @ [?r]) @ new') st2" "list_all (batch_of t) new'"
      "case res of
         Inr _ \<Rightarrow> tx_log t new' = concat (planned events e plan) \<and> unat (ws_next_lsn st2) = unat n' + length plan
       | Inl e \<Rightarrow> e = lsn_exhausted \<and> 2 ^ 64 \<le> unat n' + length plan"
      using Cons.IH [OF rest s3 _ Cons.prems(4) op later Cons.prems(7)] unfolding next3 by blast
    then show ?thesis using same lsn_next_unat [OF Some]
      by (intro exI [of _ "?r # new'"]) (auto simp: p split: sum.splits)
  qed
qed

section \<open>Writing the whole transaction\<close>

lemma marker_encodes:
  "encode_payload_into r = Inr [] \<Longrightarrow> \<exists>bs. record_encode_into crc r = Inr bs"
  by (auto simp: record_encode_into_Inr MAX_RECORD_LEN_def)

text \<open>What a transaction with events \<open>es\<close> writes: begin, batches, commit; or less, when LSNs run out.\<close>

definition whole_tx :: "lsn \<Rightarrow> lsn \<Rightarrow> mutation_event list \<Rightarrow> wal_record list \<Rightarrow> bool" where
  "whole_tx b c es new \<longleftrightarrow> (\<exists>batches. new = TxBegin b # batches @ [TxCommit c b] \<and>
     list_all (batch_of b) batches \<and> tx_log b batches = es)"

definition cut_tx :: "lsn \<Rightarrow> wal_record list \<Rightarrow> bool" where
  "cut_tx b new \<longleftrightarrow> new = [] \<or> (\<exists>batches. new = TxBegin b # batches \<and> list_all (batch_of b) batches)"

lemma append_marker_ok:
  assumes tx: "tx_written crc lk fence os h rs pend st new s1"
    and r: "encode_payload_into (r (ws_next_lsn s1)) = Inr []" "record_lsn (r (ws_next_lsn s1)) = ws_next_lsn s1"
      "wf_record lk (r (ws_next_lsn s1))"
    and follows: "replayable (open_tx None (past fence (segs_records os @ rs @ pend @ new)))
        (checkpoint_seen None (past fence (segs_records os @ rs @ pend @ new))) [r (ws_next_lsn s1)]"
  shows "obind alloc_lsn (\<lambda>l. obind (on_writer (writer_append crc (r l))) (\<lambda>_. f l)) s1 = (Inl lsn_exhausted, s1) \<and>
      2 ^ 64 \<le> unat (ws_next_lsn s1) + 1 \<or>
    (\<exists>s2. lsn_checked_next (ws_next_lsn s1) = Some (ws_next_lsn s2) \<and> obind alloc_lsn (\<lambda>l. obind (on_writer (writer_append crc (r l))) (\<lambda>_. f l)) s1 = f (ws_next_lsn s1) s2 \<and>
      tx_written crc lk fence os h rs pend st (new @ [r (ws_next_lsn s1)]) s2)"
proof (cases "lsn_checked_next (ws_next_lsn s1)")
  case (Some n)
  let ?l = "ws_next_lsn s1" and ?s2 = "s1\<lparr>ws_next_lsn := n\<rparr>"
  let ?w = "ws_active_writer ?s2"
  obtain bs where bs: "record_encode_into crc (r ?l) = Inr bs" using marker_encodes [OF r(1)] by blast
  have gt: "?l < n" by (rule lsn_next_greater [OF Some])
  have s2: "tx_written crc lk fence os h rs pend st new ?s2"
    by (rule tx_written_next [OF tx]) (use gt in simp)
  have "may_follow lk fence (sh_base_lsn h) (segs_records os @ rs @ pend @ new) (r ?l)"
    using tx_written_lsns(1-3) [OF tx] r(2,3) follows by (simp add: may_follow_def)
  then have "tx_written crc lk fence os h rs pend st (new @ [r ?l])
      (?s2\<lparr>ws_active_writer := ?w\<lparr>sw_pending := sw_pending ?w @ bs\<rparr>\<rparr>)"
    by (rule tx_written_append [OF s2 bs])
      (use gt r(2) tx in \<open>auto simp: tx_written_def Let_def newer_def\<close>)
  then show ?thesis
    using tx_written_lsns(5) [OF tx]
    by (auto simp: obind_def alloc_lsn_def Some on_writer_def writer_append_def bs writer_append_frame_Inr)
qed (simp add: obind_def alloc_lsn_def lsn_checked_next_def split: if_splits)

lemma append_tx_ok:
  assumes run: "append_tx crc events plan st = (res, st2)"
    and log: "wal_log crc lk fence os h rs pend st"
    and plan: "plan_covers events 0 (length events) plan" and wf: "list_all (wf_event lk) events"
  shows "\<exists>new. tx_written crc lk fence os h rs pend st new st2 \<and>
    (case res of
        Inr c \<Rightarrow> whole_tx (ws_next_lsn st) c events new \<and> lsn_checked_next c = Some (ws_next_lsn st2)
      | Inl e \<Rightarrow> 2 ^ 64 \<le> unat (ws_next_lsn st) + length plan + 2 \<and> cut_tx (ws_next_lsn st) new)"
proof -
  let ?b = "ws_next_lsn st"
  let ?k1 = "\<lambda>b. obind (append_batches crc b events 0 True plan) (\<lambda>_.
      obind alloc_lsn (\<lambda>c. obind (on_writer (writer_append crc (TxCommit c b))) (\<lambda>_. oret c)))"
  have st: "tx_written crc lk fence os h rs pend st [] st" by (rule tx_written_Nil [OF log])
  have above: "fence < ?b" using tx_written_lsns(3) [OF st] .
  from append_marker_ok [OF st, of TxBegin ?k1] consider
      (none) "append_tx crc events plan st = (Inl lsn_exhausted, st)" "2 ^ 64 \<le> unat ?b + 1"
    | (begun) s1 where "append_tx crc events plan st = ?k1 ?b s1"
        "tx_written crc lk fence os h rs pend st [TxBegin ?b] s1" "unat (ws_next_lsn s1) = unat ?b + 1"
    by (auto simp: append_tx_def lsn_next_unat)
  then show ?thesis
  proof cases
    case none
    then show ?thesis using run st by (auto simp: cut_tx_def)
  next
    case begun
    obtain r s2 where s2: "append_batches crc ?b events 0 True plan s1 = (r, s2)"
      by (cases "append_batches crc ?b events 0 True plan s1")
    have "open_tx None (past fence (segs_records os @ rs @ pend @ [TxBegin ?b])) = Some ?b"
      using above by (simp add: not_le)
    from append_batches_ok [OF s2 begun(2) _ above this plan wf] obtain batches where
      batches: "tx_written crc lk fence os h rs pend st ([TxBegin ?b] @ batches) s2"
        "list_all (batch_of ?b) batches"
        "case r of
           Inr _ \<Rightarrow> tx_log ?b batches = concat (planned events 0 plan) \<and>
             unat (ws_next_lsn s2) = unat (ws_next_lsn s1) + length plan
         | Inl e \<Rightarrow> e = lsn_exhausted \<and> 2 ^ 64 \<le> unat (ws_next_lsn s1) + length plan"
      by auto
    show ?thesis
    proof (cases r)
      case (Inl e)
      then have "res = Inl lsn_exhausted" "st2 = s2"
        using run batches(3) unfolding begun(1) by (auto simp: obind_def s2)
      then show ?thesis using batches Inl begun(3)
        by (intro exI [of _ "[TxBegin ?b] @ batches"]) (auto simp: cut_tx_def)
    next
      case (Inr u)
      let ?new = "[TxBegin ?b] @ batches"
      have log_events: "tx_log ?b batches = events"
        using batches(3) Inr planned_concat [OF plan] by (simp add: event_range_def)
      have "open_tx None (past fence (segs_records os @ rs @ pend @ ?new)) = Some ?b"
        using above open_tx_batches [of ?b "past fence batches"] batches(2)
        by (simp add: not_le list_all_iff open_tx_def)
      then have "replayable (open_tx None (past fence (segs_records os @ rs @ pend @ ?new))) ck [TxCommit c ?b]"
        for c ck by simp
      from append_marker_ok [OF batches(1), of "\<lambda>c. TxCommit c ?b" "\<lambda>c. oret c"] this consider
          (none) "append_tx crc events plan st = (Inl lsn_exhausted, s2)" "2 ^ 64 \<le> unat (ws_next_lsn s2) + 1"
        | (finished) s3 where "append_tx crc events plan st = (Inr (ws_next_lsn s2), s3)"
            "tx_written crc lk fence os h rs pend st (?new @ [TxCommit (ws_next_lsn s2) ?b]) s3"
            "lsn_checked_next (ws_next_lsn s2) = Some (ws_next_lsn s3)"
        unfolding begun(1) by (auto simp: obind_def [of "append_batches _ _ _ _ _ _"] s2 Inr oret_def)
      then show ?thesis
      proof cases
        case none
        then show ?thesis using run batches Inr begun(3)
          by (intro exI [of _ ?new]) (auto simp: cut_tx_def)
      next
        case finished
        then show ?thesis using run batches(2) log_events
          by (intro exI [of _ "?new @ [TxCommit (ws_next_lsn s2) ?b]"]) (auto simp: whole_tx_def)
      qed
    qed
  qed
qed

section \<open>What a transaction commits\<close>

lemma batches_lsns: "list_all (batch_of t) rs \<Longrightarrow> list_all (batch_of t) (filter P rs)"
  by (auto simp: list_all_iff)

lemma committed_cut_tx: "cut_tx b new \<Longrightarrow> committed (rs @ new) = committed rs"
proof -
  assume "cut_tx b new"
  then consider "new = []" | bs where "new = TxBegin b # bs" "list_all (batch_of b) bs"
    by (auto simp: cut_tx_def)
  then show ?thesis
  proof cases
    case (2 bs)
    then show ?thesis using committed_batches [of b bs "rs @ [TxBegin b]"] by simp
  qed simp
qed

lemma committed_whole_tx:
  assumes "whole_tx b c es new" and "tx_log b rs = []"
  shows "committed (rs @ new) = committed rs @ es"
proof -
  obtain bs where new: "new = TxBegin b # bs @ [TxCommit c b]" "list_all (batch_of b) bs" "tx_log b bs = es"
    using assms(1) by (auto simp: whole_tx_def)
  have "committed (rs @ new) = committed (((rs @ [TxBegin b]) @ bs) @ [TxCommit c b])" using new(1) by simp
  also have "\<dots> = committed ((rs @ [TxBegin b]) @ bs) @ tx_log b (rs @ TxBegin b # bs)"
    unfolding committed_snoc by simp
  also have "\<dots> = committed rs @ es"
    using committed_batches [OF new(2), of "rs @ [TxBegin b]"] new(3) assms(2)
    by (simp add: tx_log_append_list)
  finally show ?thesis .
qed

lemma cut_tx_prefix: "cut_tx b (rs @ rs') \<Longrightarrow> cut_tx b rs"
  by (cases rs) (auto simp: cut_tx_def)

lemma tx_written_past:
  assumes "tx_written crc lk fence os h rs pend st new st'" and "fence < ws_next_lsn st"
  shows "past fence (rs' @ new) = past fence rs' @ new"
  using assms by (auto simp: tx_written_def Let_def newer_def not_le intro!: filter_True)

lemma wal_log_fresh:
  assumes "wal_log crc lk fence os h rs pend st"
  shows "tx_log (ws_next_lsn st) (past fence (segs_records os @ rs @ pend)) = []"
proof (rule tx_log_fresh)
  show "replayable None None (past fence (segs_records os @ rs @ pend))"
    using assms by (simp add: wal_log_def log_ok_def Let_def)
  show "\<forall>r \<in> set (past fence (segs_records os @ rs @ pend)). record_lsn r \<noteq> ws_next_lsn st"
  proof -
    have "\<forall>r \<in> set (segs_records os @ rs @ pend). record_lsn r < ws_next_lsn st"
      using assms by (simp add: wal_log_def Let_def)
    then show ?thesis unfolding set_filter by (metis (no_types, lifting) mem_Collect_eq order.strict_iff_not)
  qed
qed simp

section \<open>Committing\<close>

text \<open>The records the handle has written or buffered, and the events committed above the fence.\<close>

abbreviation held :: "log_segment list \<Rightarrow> wal_record list \<Rightarrow> wal_record list \<Rightarrow> wal_record list" where
  "held os rs pend \<equiv> segs_records os @ rs @ pend"

lemma wal_log_state_cong:
  assumes "wal_log crc lk fence os h rs pend st" and "ws_active_writer st' = ws_active_writer st"
    and "ws_next_lsn st' = ws_next_lsn st" and "ws_older st' = ws_older st"
    and "ws_active_segment_id st' = ws_active_segment_id st"
  shows "wal_log crc lk fence os h rs pend st'"
  using assms by (simp add: wal_log_def wal_files_def)

lemma header_version: "wal_log crc lk fence os h rs pend st \<Longrightarrow> sh_format_version h = SEGMENT_FORMAT_VERSION"
  by (simp add: wal_log_def log_ok_def Let_def)

lemma contiguous_snoc:
  "check_segment_ids_contiguous (ids @ [i]) = Inr () \<Longrightarrow> lsn_checked_next i = Some n \<Longrightarrow>
   check_segment_ids_contiguous (ids @ [i, n]) = Inr ()"
  by (induction ids rule: check_segment_ids_contiguous.induct) (auto split: if_splits)

lemma seal_flushed:
  "\<not> sh_sealed (sw_header w) \<Longrightarrow> sw_pending w = [] \<Longrightarrow>
   sw_file w = segment_header_encode crc (sw_header w) @ bs \<Longrightarrow>
   sw_file (writer_seal crc w) = segment_header_encode crc ((sw_header w)\<lparr>sh_sealed := True\<rparr>) @ bs"
  by (simp add: writer_seal_def writer_flush_and_sync_def writer_flush_buffer_def writer_sync_def write_at_def
      Let_def)

lemma maybe_rotate_ok:
  assumes run: "maybe_rotate crc cfg st = (res, st')" and log: "wal_log crc lk fence os h rs pend st"
    and target: "SEGMENT_HEADER_LEN < wc_segment_target_bytes cfg"
  shows "(st' = st \<and> res = Inr () \<or>
      res \<noteq> Inr () \<and> st' = st\<lparr>ws_active_writer := writer_flush_and_sync (ws_active_writer st)\<rparr> \<and>
        wal_log crc lk fence os h (rs @ pend) [] st' \<or>
      res = Inr () \<and> wal_log crc lk fence (newest os (h\<lparr>sh_sealed := True\<rparr>) (rs @ pend))
        (segment_header_new (ws_next_lsn st)) [] [] st' \<and> ws_next_lsn st' = ws_next_lsn st \<and>
        ws_durable_lsn st' = ws_durable_lsn st \<and> sw_synced (ws_active_writer st') = SEGMENT_HEADER_LEN \<and>
        ws_bg_failure st' = ws_bg_failure st \<and> ws_active_segment_id st < ws_active_segment_id st')"
proof (cases "writer_bytes_written (ws_active_writer st) < wc_segment_target_bytes cfg")
  case True
  then show ?thesis using run by (simp add: maybe_rotate_def)
next
  case False
  let ?w = "writer_flush_and_sync (ws_active_writer st)"
  let ?s1 = "st\<lparr>ws_active_writer := ?w\<rparr>"
  have "wal_log crc lk fence os h (rs @ pend) []
      (st\<lparr>ws_active_writer := writer_flush_buffer (ws_active_writer st)\<rparr>)"
    by (rule wal_log_flush [OF log])
  then have log1: "wal_log crc lk fence os h (rs @ pend) [] ?s1"
    by (simp add: wal_log_def wal_files_def Let_def writer_flush_and_sync_def writer_sync_def)
  have unsealed: "\<not> sh_sealed h" and hdr: "sw_header ?w = h" and pend: "sw_pending ?w = []"
    using log1 by (auto simp: wal_log_def Let_def)
  show ?thesis
  proof (cases "lsn_checked_next (ws_active_segment_id st)")
    case None
    then show ?thesis using run False log1 by (auto simp: maybe_rotate_def next_segment_id_def)
  next
    case (Some i)
    let ?sealed = "h\<lparr>sh_sealed := True\<rparr>"
    obtain bs where bs: "wseq (map (record_encode_into crc) (rs @ pend)) = Inr bs"
      and written: "sw_file ?w = segment_header_encode crc h @ bs"
      using wal_log_file(1) [OF log1] by auto
    have seal: "sw_file (writer_seal crc ?w) = segment_header_encode crc ?sealed @ bs"
      using seal_flushed [of ?w crc bs] unsealed hdr pend written by simp
    let ?new = "segment_header_new (ws_next_lsn st)"
    let ?s2 = "?s1\<lparr>ws_older := ws_older st @ [(ws_active_segment_id st, sw_file (writer_seal crc ?w))],
      ws_active_writer := writer_create crc (ws_next_lsn st), ws_active_segment_id := i\<rparr>"
    have st': "res = Inr ()" "st' = ?s2"
      using run False Some by (simp_all add: maybe_rotate_def next_segment_id_def Let_def)
    have "rs @ pend \<noteq> []"
      using False target log by (auto simp: writer_bytes_written_def wal_log_def Let_def wal_files_def
          log_files_snoc SEGMENT_HEADER_LEN_def)
    then obtain r where r: "r \<in> set (rs @ pend)" by (cases "rs @ pend") auto
    have ok: "log_ok crc lk fence (newest os h (rs @ pend)) []"
      and below: "\<forall>r \<in> set (segs_records os @ rs @ pend). record_lsn r < ws_next_lsn st"
      using log by (auto simp: wal_log_def Let_def)
    have "sh_base_lsn h \<le> record_lsn r" using ok r by (auto simp: log_ok_def bases_ok_append)
    also have "record_lsn r < ws_next_lsn st" using below r by auto
    finally have base: "sh_base_lsn h < ws_next_lsn st" .
    have "log_ok crc lk fence (newest (newest os ?sealed (rs @ pend)) ?new []) []"
      by (rule log_ok_rotate [OF ok base]) (use below in simp)
    moreover have "log_files crc (newest (newest os ?sealed (rs @ pend)) ?new []) [] (map snd (wal_files ?s2))"
    proof -
      have files: "map snd (wal_files ?s2) = (map snd (ws_older st) @ [segment_header_encode crc ?sealed @ bs]) @
          [segment_header_encode crc ?new @ []]"
        using seal by (simp add: wal_files_def writer_create_def Let_def)
      show ?thesis
        unfolding files by (intro log_files_snocI wal_log_file(2) [OF log] bs) simp
    qed
    moreover have "check_segment_ids_contiguous (map fst (wal_files ?s2)) = Inr ()"
      using contiguous_snoc [OF _ Some, of "map fst (ws_older st)"] log by (simp add: wal_log_def wal_files_def Let_def)
    ultimately have "wal_log crc lk fence (newest os ?sealed (rs @ pend)) ?new [] [] ?s2"
      using below log
      by (auto simp: wal_log_def Let_def writer_create_def segment_header_new_def SEGMENT_HEADER_LEN_def)
    then show ?thesis using st' lsn_next_greater [OF Some] by (simp add: writer_create_def Let_def)
  qed
qed

section \<open>How the log grows\<close>

text \<open>
  From one view of the handle to the next: \<open>new\<close> records, none of an LSN used before, follow those held;
  the active segment is the same, or a new one behind the sealed old one, whose file is synced.
\<close>

record log_view =
  lv_older :: "log_segment list"
  lv_header :: segment_header
  lv_written :: "wal_record list"
  lv_buffered :: "wal_record list"
  lv_state :: wal_state

abbreviation view_ok :: "(u8 list \<Rightarrow> u32) \<Rightarrow> (string \<Rightarrow> string option) \<Rightarrow> lsn \<Rightarrow> log_view \<Rightarrow> bool" where
  "view_ok crc lk fence v \<equiv> wal_log crc lk fence (lv_older v) (lv_header v) (lv_written v) (lv_buffered v) (lv_state v)"

abbreviation view_records :: "log_view \<Rightarrow> wal_record list" where
  "view_records v \<equiv> held (lv_older v) (lv_written v) (lv_buffered v)"

abbreviation view_synced :: "log_view \<Rightarrow> nat" where
  "view_synced v \<equiv> sw_synced (ws_active_writer (lv_state v))"

text \<open>The same active segment, and the old records of its file and buffer in front.\<close>

definition grows_in_place :: "log_view \<Rightarrow> wal_record list \<Rightarrow> log_view \<Rightarrow> bool" where
  "grows_in_place v new v' \<longleftrightarrow> lv_older v' = lv_older v \<and> lv_header v' = lv_header v \<and>
     ws_active_segment_id (lv_state v') = ws_active_segment_id (lv_state v) \<and>
     (\<exists>more. lv_written v' = lv_written v @ more) \<and>
     lv_written v' @ lv_buffered v' = lv_written v @ lv_buffered v @ new \<and> view_synced v \<le> view_synced v'"

definition grows_rotated :: "log_view \<Rightarrow> wal_record list \<Rightarrow> log_view \<Rightarrow> bool" where
  "grows_rotated v new v' \<longleftrightarrow>
     lv_older v' = newest (lv_older v) ((lv_header v)\<lparr>sh_sealed := True\<rparr>) (lv_written v @ lv_buffered v) \<and>
     lv_header v' = segment_header_new (ws_next_lsn (lv_state v)) \<and>
     lv_written v' @ lv_buffered v' = new \<and> SEGMENT_HEADER_LEN \<le> view_synced v' \<and>
     ws_active_segment_id (lv_state v) < ws_active_segment_id (lv_state v')"

definition grows :: "log_view \<Rightarrow> wal_record list \<Rightarrow> log_view \<Rightarrow> bool" where
  "grows v new v' \<longleftrightarrow> ws_durable_lsn (lv_state v') = ws_durable_lsn (lv_state v) \<and>
     ws_bg_failure (lv_state v') = ws_bg_failure (lv_state v) \<and> newer (lv_state v) new (lv_state v') \<and>
     (grows_in_place v new v' \<or> grows_rotated v new v')"

lemma grows_refl: "grows v [] v"
  by (simp add: grows_def grows_in_place_def)

lemma grows_then_in_place:
  assumes "grows v new v'" and "grows_in_place v' new' v''" and "newer (lv_state v') new' (lv_state v'')"
    and "ws_durable_lsn (lv_state v'') = ws_durable_lsn (lv_state v')"
    and "ws_bg_failure (lv_state v'') = ws_bg_failure (lv_state v')"
  shows "grows v (new @ new') v''"
proof -
  have "newer (lv_state v) (new @ new') (lv_state v'')"
    using assms(1,3) unfolding grows_def newer_def by fastforce
  moreover have "grows_in_place v (new @ new') v'' \<or> grows_rotated v (new @ new') v''"
    using assms(1,2) unfolding grows_def grows_in_place_def grows_rotated_def
    by (elim conjE disjE exE) (metis append.assoc order.trans)+
  ultimately show ?thesis using assms(1,4,5) by (simp add: grows_def)
qed

lemma grows_records: "grows v new v' \<Longrightarrow> view_records v' = view_records v @ new"
  by (auto simp: grows_def grows_in_place_def grows_rotated_def)

section \<open>Committing\<close>

text \<open>\<open>maybe_rotate\<close> moves no record out of order and takes no LSN.\<close>

lemma rotate_grows:
  assumes run: "maybe_rotate crc cfg (lv_state v) = (res, st')" and ok: "view_ok crc lk fence v"
    and target: "SEGMENT_HEADER_LEN < wc_segment_target_bytes cfg"
  shows "\<exists>v'. lv_state v' = st' \<and> view_ok crc lk fence v' \<and> grows v [] v' \<and>
    ws_next_lsn st' = ws_next_lsn (lv_state v)"
proof -
  from maybe_rotate_ok [OF run ok target] consider
      (idle) "st' = lv_state v"
    | (flushed) "st' = (lv_state v)\<lparr>ws_active_writer := writer_flush_and_sync (ws_active_writer (lv_state v))\<rparr>"
        "wal_log crc lk fence (lv_older v) (lv_header v) (lv_written v @ lv_buffered v) [] st'"
    | (rotated) "wal_log crc lk fence
          (newest (lv_older v) ((lv_header v)\<lparr>sh_sealed := True\<rparr>) (lv_written v @ lv_buffered v))
          (segment_header_new (ws_next_lsn (lv_state v))) [] [] st'"
        "ws_next_lsn st' = ws_next_lsn (lv_state v)" "ws_durable_lsn st' = ws_durable_lsn (lv_state v)"
        "sw_synced (ws_active_writer st') = SEGMENT_HEADER_LEN"
        "ws_bg_failure st' = ws_bg_failure (lv_state v)"
        "ws_active_segment_id (lv_state v) < ws_active_segment_id st'"
    by blast
  then show ?thesis
  proof cases
    case idle
    with ok show ?thesis by (intro exI [of _ v]) (simp add: grows_refl)
  next
    case flushed
    have "view_synced v \<le> length (sw_file (ws_active_writer (lv_state v)))"
      using ok by (simp add: wal_log_def Let_def)
    then show ?thesis
      using flushed
      by (intro exI [of _ "v\<lparr>lv_written := lv_written v @ lv_buffered v, lv_buffered := [], lv_state := st'\<rparr>"])
        (auto simp: grows_def grows_in_place_def newer_def writer_flush_and_sync_def writer_sync_def
          writer_flush_buffer_def write_at_def)
  next
    case rotated
    then show ?thesis
      by (intro exI [of _ "\<lparr>lv_older = newest (lv_older v) ((lv_header v)\<lparr>sh_sealed := True\<rparr>)
            (lv_written v @ lv_buffered v), lv_header = segment_header_new (ws_next_lsn (lv_state v)),
          lv_written = [], lv_buffered = [], lv_state = st'\<rparr>"])
        (simp add: grows_def grows_rotated_def newer_def)
  qed
qed

lemma tx_written_grows:
  assumes "tx_written crc lk fence (lv_older v) (lv_header v) (lv_written v) (lv_buffered v) (lv_state v) new st'"
  shows "\<exists>v'. lv_state v' = st' \<and> view_ok crc lk fence v' \<and> grows_in_place v new v' \<and>
    newer (lv_state v) new st' \<and> same_log (lv_state v) st'"
  using assms
proof (cases rule: tx_written_cases)
  case (Buffered bs)
  then show ?thesis
    by (intro exI [of _ "v\<lparr>lv_buffered := lv_buffered v @ new, lv_state := st'\<rparr>"])
      (simp add: grows_in_place_def same_log_def)
next
  case (Flushed a b)
  then show ?thesis
    by (intro exI [of _ "v\<lparr>lv_written := lv_written v @ lv_buffered v @ a, lv_buffered := b, lv_state := st'\<rparr>"])
      (simp add: grows_in_place_def same_log_def)
qed

lemma flush_view:
  assumes "view_ok crc lk fence v" and "grows v new v'" and "view_ok crc lk fence v'"
    and "st = (lv_state v')\<lparr>ws_active_writer := writer_flush_buffer (ws_active_writer (lv_state v'))\<rparr>"
  shows "\<exists>v''. lv_state v'' = st \<and> view_ok crc lk fence v'' \<and> grows v new v'' \<and> lv_buffered v'' = []"
proof -
  let ?v = "v'\<lparr>lv_written := lv_written v' @ lv_buffered v', lv_buffered := [], lv_state := st\<rparr>"
  have "view_ok crc lk fence ?v" using wal_log_flush [OF assms(3)] assms(4) by simp
  moreover have "grows v (new @ []) ?v"
    by (rule grows_then_in_place [OF assms(2)])
      (simp_all add: assms(4) grows_in_place_def newer_def writer_flush_buffer_def)
  ultimately show ?thesis by (intro exI [of _ ?v]) simp
qed

lemma append_or_roll_back_grows:
  assumes run: "append_or_roll_back crc events plan (lv_state v) = (res, st')"
    and ok: "view_ok crc lk fence v"
    and plan: "plan_covers events 0 (length events) plan" and wf: "list_all (wf_event lk) events"
  shows "\<exists>v' new. lv_state v' = st' \<and> view_ok crc lk fence v' \<and> grows_in_place v new v' \<and>
    newer (lv_state v) new st' \<and> ws_durable_lsn st' = ws_durable_lsn (lv_state v) \<and>
    ws_bg_failure st' = ws_bg_failure (lv_state v) \<and>
    (case res of
        Inr c \<Rightarrow> whole_tx (ws_next_lsn (lv_state v)) c events new \<and>
          lsn_checked_next c = Some (ws_next_lsn st')
      | Inl e \<Rightarrow> 2 ^ 64 \<le> unat (ws_next_lsn (lv_state v)) + length plan + 2 \<and>
          cut_tx (ws_next_lsn (lv_state v)) new)"
proof -
  let ?st = "lv_state v"
  obtain r st2 where tx: "append_tx crc events plan ?st = (r, st2)" by (cases "append_tx crc events plan ?st")
  obtain new where new: "tx_written crc lk fence (lv_older v) (lv_header v) (lv_written v) (lv_buffered v) ?st new st2"
    "case r of
        Inr c \<Rightarrow> whole_tx (ws_next_lsn ?st) c events new \<and> lsn_checked_next c = Some (ws_next_lsn st2)
      | Inl e \<Rightarrow> 2 ^ 64 \<le> unat (ws_next_lsn ?st) + length plan + 2 \<and> cut_tx (ws_next_lsn ?st) new"
    using append_tx_ok [OF tx ok plan wf] by blast
  show ?thesis
  proof (cases r)
    case (Inr c)
    then obtain n where res: "res = Inr c" and st': "st' = st2\<lparr>ws_appended_bytes := n\<rparr>"
      using run by (auto simp: append_or_roll_back_def tx Let_def)
    obtain v' where "lv_state v' = st2" "view_ok crc lk fence v'" "grows_in_place v new v'"
      "newer ?st new st2" "same_log ?st st2" using tx_written_grows [OF new(1)] by blast
    then show ?thesis
      using new(2) Inr res unfolding st'
      by (intro exI [of _ "v'\<lparr>lv_state := st2\<lparr>ws_appended_bytes := n\<rparr>\<rparr>"] exI [of _ new])
        (auto simp: same_log_def grows_in_place_def newer_def intro: wal_log_state_cong)
  next
    case (Inl e)
    then have res: "res = Inl e" using run by (auto simp: append_or_roll_back_def tx Let_def)
    from new(1) show ?thesis
    proof (cases rule: tx_written_cases)
      case (Buffered bs)
      then have "st' = ?st"
        using run Inl by (auto simp: append_or_roll_back_def tx Let_def writer_rollback_pending_def
            intro!: same_log_eq)
      then show ?thesis
        using ok res new(2) Inl
        by (intro exI [of _ v] exI [of _ "[]"]) (simp add: grows_in_place_def cut_tx_def)
    next
      case (Flushed a b)
      then have st': "st' = st2\<lparr>ws_active_writer := (ws_active_writer st2)\<lparr>sw_pending := []\<rparr>\<rparr>"
        using run Inl by (auto simp: append_or_roll_back_def tx Let_def writer_rollback_pending_def)
      have "wal_log crc lk fence (lv_older v) (lv_header v) (lv_written v @ lv_buffered v @ a) [] st'"
        unfolding st' by (rule wal_log_forget [of _ _ _ _ _ _ "[]" b]) (simp_all add: Flushed(2))
      then show ?thesis
        using Flushed res new(2) Inl cut_tx_prefix [of _ a b]
        by (intro exI [of _ "v\<lparr>lv_written := lv_written v @ lv_buffered v @ a, lv_buffered := [], lv_state := st'\<rparr>"]
            exI [of _ a]) (auto simp: st' same_log_def grows_in_place_def newer_def)
    qed
  qed
qed

lemma plan_covers_length: "plan_covers events start stop plan \<Longrightarrow> start + length plan \<le> stop"
proof (induction plan arbitrary: start)
  case (Cons p plan)
  then show ?case by (cases p) fastforce
qed simp

text \<open>A commit, in each of its outcomes.\<close>

lemma commit_grows:
  assumes run: "commit_tx_events crc cfg events (lv_state v) = (res, st')" and ok: "view_ok crc lk fence v"
    and target: "SEGMENT_HEADER_LEN < wc_segment_target_bytes cfg" and wf: "list_all (wf_event lk) events"
  shows "\<exists>v' new. lv_state v' = st' \<and> view_ok crc lk fence v' \<and> grows v new v' \<and>
    (case res of
       Inr (Some c) \<Rightarrow> lv_buffered v' = [] \<and> whole_tx (ws_next_lsn (lv_state v)) c events new \<and>
         lsn_checked_next c = Some (ws_next_lsn st')
     | Inr None \<Rightarrow> v' = v \<and> new = [] \<and> events = []
     | Inl e \<Rightarrow> cut_tx (ws_next_lsn (lv_state v)) new \<and>
         (new = [] \<and> ws_next_lsn st' = ws_next_lsn (lv_state v) \<or>
          2 ^ 64 \<le> unat (ws_next_lsn (lv_state v)) + length events + 2))"
proof -
  let ?st = "lv_state v"
  have still: ?thesis if "st' = ?st" "res = Inr None \<and> events = [] \<or> (\<exists>e. res = Inl e)"
    using that ok by (intro exI [of _ v] exI [of _ "[]"]) (auto simp: grows_refl cut_tx_def)
  show ?thesis
  proof (cases "ws_bg_failure ?st \<or> events = [] \<or> (\<exists>e. plan_batches events (wc_batch_target_bytes cfg) = Inl e)")
    case True
    then show ?thesis
      using run by (intro still) (auto simp: commit_tx_events_def obind_def ocheck_def check_healthy_def oret_def
          split: if_splits sum.splits)
  next
    case False
    then obtain plan where plan: "plan_batches events (wc_batch_target_bytes cfg) = Inr plan" and ev: "events \<noteq> []"
      by (cases "plan_batches events (wc_batch_target_bytes cfg)") auto
    note covers = plan_batches_covers [OF plan ev]
    obtain r1 s1 where s1: "maybe_rotate crc cfg ?st = (r1, s1)" by (cases "maybe_rotate crc cfg ?st")
    obtain v1 where v1: "lv_state v1 = s1" "view_ok crc lk fence v1" "grows v [] v1"
      "ws_next_lsn s1 = ws_next_lsn ?st" using rotate_grows [OF s1 ok target] by blast
    have start: "commit_tx_events crc cfg events ?st = obind (maybe_rotate crc cfg) (\<lambda>_.
        obind (append_or_roll_back crc events plan) (\<lambda>c. obind (flush_inner False) (\<lambda>_. oret (Some c)))) ?st"
      using False ev plan by (simp add: commit_tx_events_def obind_def ocheck_def check_healthy_def)
    show ?thesis
    proof (cases r1)
      case (Inl e)
      then have "res = Inl e" "st' = s1" using run unfolding start by (simp_all add: obind_def s1)
      then show ?thesis using v1 by (intro exI [of _ v1] exI [of _ "[]"]) (simp add: cut_tx_def)
    next
      case (Inr u)
      obtain r2 s2 where s2: "append_or_roll_back crc events plan s1 = (r2, s2)"
        by (cases "append_or_roll_back crc events plan s1")
      obtain v2 new where v2: "lv_state v2 = s2" "view_ok crc lk fence v2" "grows_in_place v1 new v2"
        "newer s1 new s2" "ws_durable_lsn s2 = ws_durable_lsn s1" "ws_bg_failure s2 = ws_bg_failure s1"
        "case r2 of
            Inr c \<Rightarrow> whole_tx (ws_next_lsn s1) c events new \<and> lsn_checked_next c = Some (ws_next_lsn s2)
          | Inl e \<Rightarrow> 2 ^ 64 \<le> unat (ws_next_lsn s1) + length plan + 2 \<and> cut_tx (ws_next_lsn s1) new"
        using append_or_roll_back_grows [of crc events plan v1, OF _ v1(2) covers wf] v1(1) s2 by auto
      have grown: "grows v new v2"
        using grows_then_in_place [OF v1(3) v2(3)] v1(1) v2 by simp
      show ?thesis
      proof (cases r2)
        case Inl': (Inl e)
        then have "res = Inl e" "st' = s2" using run Inr unfolding start by (simp_all add: obind_def s1 s2)
        then show ?thesis using v1(4) v2 grown Inl' plan_covers_length [OF covers]
          by (intro exI [of _ v2] exI [of _ new]) simp
      next
        case Inr': (Inr c)
        have "res = Inr (Some c)" "st' = s2\<lparr>ws_active_writer := writer_flush_buffer (ws_active_writer s2)\<rparr>"
          using run Inr Inr' unfolding start
          by (simp_all add: obind_def s1 s2 flush_inner_def flush_begin_def Let_def oret_def)
        then show ?thesis
          using flush_view [OF ok grown v2(2)] v1(4) v2 Inr' by auto
      qed
    qed
  qed
qed

end
