(* ===== verification/Wal_Commit.thy ===== *)
theory Wal_Commit
  imports Wal_Handle
begin

text \<open>
  What a caller of the log handle sees: the records and the committed events are functions of its
  state, a commit adds its transaction's events or nothing, and it fails only for a reason stated.
\<close>

section \<open>The records of a state\<close>

lemma segment_records_written:
  assumes "wseq (map (record_encode_into crc) rs) = Inr bs" and "list_all (wf_record lk) rs"
    and "sr_file sr = before @ bs @ tail" and "sr_position sr = length before"
    and "tail = [] \<or> (\<exists>e. raw_record_read crc tail = Inl e)"
  shows "segment_records crc lk sr = rs"
  using assms
proof (induction rs arbitrary: bs before sr)
  case Nil
  have "\<nexists>raw sr'. segment_read_frame crc sr = Inr (Some raw, sr')"
    using Nil by (auto simp: segment_read_frame_def raw_record_read_def read_exact_or_eof_def)
  then show ?case by (intro segment_records_stop) blast
next
  case (Cons r rs)
  from Cons.prems(1) obtain a b where a: "record_encode_into crc r = Inr a"
    and b: "wseq (map (record_encode_into crc) rs) = Inr b" and bs: "bs = a @ b" by auto
  obtain p where p: "encode_payload_into r = Inr p" "25 + length p \<le> MAX_RECORD_LEN"
    and a_eq: "a = framed crc r p" using a by (auto simp: record_encode_into_Inr)
  let ?sr = "sr\<lparr>sr_position := length before + (25 + length p)\<rparr>"
  have frame: "segment_read_frame crc sr = Inr (Some (raw_of crc r p), ?sr)"
    by (rule segment_read_written [OF _ Cons.prems(4) p(2)]) (simp add: Cons.prems(3) bs a_eq)
  have "raw_decode lk (raw_of crc r p) = Inr r" using decode_framed [OF p(1) _ p(2)] Cons.prems(2) by simp
  moreover have "segment_records crc lk ?sr = rs"
    by (rule Cons.IH [OF b, of ?sr "before @ a"]) (use Cons.prems in \<open>simp_all add: bs a_eq\<close>)
  ultimately show ?case using segment_records_frame [OF frame] by simp
qed

lemma file_records_written:
  assumes "wseq (map (record_encode_into crc) rs) = Inr bs" and "list_all (wf_record lk) rs"
    and "sh_format_version h = SEGMENT_FORMAT_VERSION"
    and "tail = [] \<or> (\<exists>e. raw_record_read crc tail = Inl e)"
  shows "file_records crc lk (segment_header_encode crc h @ bs @ tail) = rs"
  using segment_records_written [OF assms(1,2), of _ "segment_header_encode crc h" tail] assms(3,4)
  by (simp add: file_records_def segment_open_encoded SEGMENT_HEADER_LEN_def)

lemma log_files_records:
  assumes "log_files crc segs tail fs" and "list_all (wf_record lk) (segs_records segs)"
    and "\<forall>seg \<in> set segs. sh_format_version (ls_header seg) = SEGMENT_FORMAT_VERSION"
    and "tail = [] \<or> (\<exists>e. raw_record_read crc tail = Inl e)"
  shows "log_records crc lk fs = segs_records segs"
  using assms
proof (induction segs arbitrary: fs)
  case (Cons seg segs)
  then obtain f fs' where fs: "fs = f # fs'" by (cases fs) auto
  with Cons.prems obtain bs where "wseq (map (record_encode_into crc) (ls_records seg)) = Inr bs"
    "f = segment_header_encode crc (ls_header seg) @ bs @ (if segs = [] then tail else [])" by auto
  then have "file_records crc lk f = ls_records seg"
    using file_records_written [of crc "ls_records seg" bs lk "ls_header seg" "if segs = [] then tail else []"]
      Cons.prems(2-4) by auto
  with Cons fs show ?case by simp
qed simp

text \<open>The records written or buffered: what the files would hold after a flush.\<close>

definition wal_records :: "(u8 list \<Rightarrow> u32) \<Rightarrow> (string \<Rightarrow> string option) \<Rightarrow> wal_state \<Rightarrow> wal_record list" where
  "wal_records crc lk st = log_records crc lk (map snd (wal_files (snd (flush_begin False st))))"

definition committed_events :: "(u8 list \<Rightarrow> u32) \<Rightarrow> (string \<Rightarrow> string option) \<Rightarrow> lsn \<Rightarrow> wal_state \<Rightarrow>
    mutation_event list" where
  "committed_events crc lk fence st = committed (past fence (wal_records crc lk st))"

text \<open>The well-formed states of a handle whose newest snapshot covers the LSNs up to \<open>fence\<close>.\<close>

definition wal_ok :: "(u8 list \<Rightarrow> u32) \<Rightarrow> (string \<Rightarrow> string option) \<Rightarrow> lsn \<Rightarrow> wal_state \<Rightarrow> bool" where
  "wal_ok crc lk fence st \<longleftrightarrow> (\<exists>v. lv_state v = st \<and> view_ok crc lk fence v)"

lemma wal_log_records:
  assumes "wal_log crc lk fence os h rs pend st"
  shows "log_records crc lk (map snd (wal_files st)) = segs_records os @ rs"
  using log_files_records [of crc "newest os h rs" "[]" "map snd (wal_files st)" lk] assms
  by (auto simp: wal_log_def log_ok_def Let_def)

lemma view_records_ok:
  assumes "view_ok crc lk fence v"
  shows "wal_records crc lk (lv_state v) = view_records v"
  using wal_log_records [OF wal_log_flush [OF assms]]
  by (simp add: wal_records_def flush_begin_def Let_def)

lemma grows_committed:
  assumes ok: "view_ok crc lk fence v" "view_ok crc lk fence v'" and grown: "grows v new v'"
  shows "whole_tx (ws_next_lsn (lv_state v)) c es new \<Longrightarrow>
      committed_events crc lk fence (lv_state v') = committed_events crc lk fence (lv_state v) @ es"
    and "cut_tx b new \<Longrightarrow> committed_events crc lk fence (lv_state v') = committed_events crc lk fence (lv_state v)"
proof -
  have "past fence new = new"
    using grown ok(1) by (auto simp: grows_def newer_def wal_log_def Let_def not_le intro!: filter_True)
  then have split: "past fence (wal_records crc lk (lv_state v')) =
      past fence (wal_records crc lk (lv_state v)) @ new"
    using grows_records [OF grown] view_records_ok [OF ok(1)] view_records_ok [OF ok(2)] by simp
  show "committed_events crc lk fence (lv_state v') = committed_events crc lk fence (lv_state v) @ es"
    if "whole_tx (ws_next_lsn (lv_state v)) c es new"
    unfolding committed_events_def split
    by (rule committed_whole_tx [OF that]) (use wal_log_fresh [OF ok(1)] view_records_ok [OF ok(1)] in simp)
  show "committed_events crc lk fence (lv_state v') = committed_events crc lk fence (lv_state v)"
    if "cut_tx b new"
    unfolding committed_events_def split by (rule committed_cut_tx [OF that])
qed

section \<open>A fresh log\<close>

definition fresh_state :: "(u8 list \<Rightarrow> u32) \<Rightarrow> lsn \<Rightarrow> wal_state" where
  "fresh_state crc base = \<lparr>ws_next_lsn = base, ws_durable_lsn = base - 1, ws_active_segment_id = 1,
     ws_active_writer = writer_create crc base, ws_oldest_segment_id = 1, ws_older = [],
     ws_bg_failure = False, ws_appended_bytes = 0, ws_checkpoint_mark = 0\<rparr>"

lemma open_empty:
  "lsn_checked_next fence = Some base \<Longrightarrow>
   open_replaying_with crc lk sink [] fence cut_corruption s = Inr (fresh_state crc base, None, s)"
  by (simp add: open_replaying_with_def discard_unborn_segment_def open_fresh_def next_lsn_after_def
      fresh_state_def)

lemma saturating_pred_next: "lsn_checked_next l = Some n \<Longrightarrow> saturating_pred n = l"
proof -
  assume n: "lsn_checked_next l = Some n"
  then have "n \<noteq> 0" using lsn_next_unat [OF n] by auto
  with n show ?thesis by (simp add: lsn_checked_next_Some saturating_pred_def)
qed

lemma fresh_ok:
  assumes "lsn_checked_next fence = Some base"
  shows "view_ok crc lk fence \<lparr>lv_older = [], lv_header = segment_header_new base, lv_written = [],
    lv_buffered = [], lv_state = fresh_state crc base\<rparr>"
  using lsn_next_greater [OF assms] saturating_pred_next [OF assms]
  by (simp add: wal_log_def fresh_state_def wal_files_def writer_create_def segment_header_new_def log_ok_def
      Let_def SEGMENT_HEADER_LEN_def)

section \<open>Commits\<close>

lemma commit_atomic_view:
  assumes "commit_tx_events crc cfg events (lv_state v) = (res, st')" and "view_ok crc lk fence v"
    and "SEGMENT_HEADER_LEN < wc_segment_target_bytes cfg" and "list_all (wf_event lk) events"
  shows "wal_ok crc lk fence st' \<and> (case res of
      Inr (Some c) \<Rightarrow> sw_pending (ws_active_writer st') = [] \<and>
        committed_events crc lk fence st' = committed_events crc lk fence (lv_state v) @ events
    | Inr None \<Rightarrow> events = [] \<and> st' = lv_state v
    | Inl e \<Rightarrow> committed_events crc lk fence st' = committed_events crc lk fence (lv_state v))"
proof -
  obtain v' new where v': "lv_state v' = st'" "view_ok crc lk fence v'" "grows v new v'"
    and out: "case res of
       Inr (Some c) \<Rightarrow> lv_buffered v' = [] \<and> whole_tx (ws_next_lsn (lv_state v)) c events new \<and>
         lsn_checked_next c = Some (ws_next_lsn st')
     | Inr None \<Rightarrow> v' = v \<and> new = [] \<and> events = []
     | Inl e \<Rightarrow> cut_tx (ws_next_lsn (lv_state v)) new \<and>
         (new = [] \<and> ws_next_lsn st' = ws_next_lsn (lv_state v) \<or>
          2 ^ 64 \<le> unat (ws_next_lsn (lv_state v)) + length events + 2)"
    using commit_grows [OF assms] by blast
  have "sw_pending (ws_active_writer st') = []" if "lv_buffered v' = []"
    using v'(1,2) that by (auto simp: wal_log_def Let_def)
  then show ?thesis
    using v' out grows_committed [OF assms(2) v'(2,3)]
    by (auto simp: wal_ok_def split: sum.splits option.splits)
qed

text \<open>
  C7. Atomic commit, on a well-formed log with a segment target above the segment header (32 bytes) and for
  events whose values are well formed: a commit that succeeds leaves nothing in the buffer and has added
  exactly its transaction's events to the committed ones; one that fails has added none. Either way the
  state is again well formed, so its files replay. The code accepts smaller targets, with which they may
  not (\<open>Wal_Limits\<close>).
\<close>

theorem commit_atomic:
  assumes "commit_tx_events crc cfg events st = (res, st')" and "wal_ok crc lk fence st"
    and "SEGMENT_HEADER_LEN < wc_segment_target_bytes cfg" and "list_all (wf_event lk) events"
  shows "wal_ok crc lk fence st' \<and> (case res of
      Inr (Some c) \<Rightarrow> sw_pending (ws_active_writer st') = [] \<and>
        committed_events crc lk fence st' = committed_events crc lk fence st @ events
    | Inr None \<Rightarrow> events = [] \<and> st' = st
    | Inl e \<Rightarrow> committed_events crc lk fence st' = committed_events crc lk fence st)"
  using assms commit_atomic_view unfolding wal_ok_def by blast

lemma commit_succeeds_view:
  assumes ok: "view_ok crc lk fence v" and healthy: "\<not> ws_bg_failure (lv_state v)"
    and ev: "events \<noteq> []" "list_all event_fits events" "list_all (wf_event lk) events"
    and target: "SEGMENT_HEADER_LEN < wc_segment_target_bytes cfg"
    and room: "unat (ws_next_lsn (lv_state v)) + length events + 2 < 2 ^ 64"
      "unat (ws_active_segment_id (lv_state v)) + 1 < 2 ^ 64"
  shows "\<exists>c st'. commit_tx_events crc cfg events (lv_state v) = (Inr (Some c), st')"
proof -
  let ?st = "lv_state v"
  obtain plan where plan: "plan_batches events (wc_batch_target_bytes cfg) = Inr plan"
    using plan_batches_succeeds [OF ev(2)] room by (auto simp: usize_limit_def)
  note covers = plan_batches_covers [OF plan ev(1)]
  have few: "length plan \<le> length events" using plan_covers_length [OF covers] by simp
  have "fst (maybe_rotate crc cfg ?st) = Inr ()"
    using room(2) by (simp add: maybe_rotate_def next_segment_id_def lsn_checked_next_def Let_def)
  then obtain s1 where s1: "maybe_rotate crc cfg ?st = (Inr (), s1)"
    by (cases "maybe_rotate crc cfg ?st") simp
  obtain v1 where v1: "lv_state v1 = s1" "view_ok crc lk fence v1" "ws_next_lsn s1 = ws_next_lsn ?st"
    using rotate_grows [OF s1 ok target] by blast
  obtain r s2 where s2: "append_or_roll_back crc events plan s1 = (r, s2)"
    by (cases "append_or_roll_back crc events plan s1")
  have "\<exists>c. r = Inr c"
    using append_or_roll_back_grows [of crc events plan v1, OF _ v1(2) covers ev(3)] v1 s2 room(1) few
    by (cases r) auto
  then show ?thesis
    using healthy ev(1) plan
    by (auto simp: commit_tx_events_def obind_def ocheck_def check_healthy_def s1 s2 flush_inner_def
        flush_begin_def Let_def oret_def)
qed

text \<open>
  C11. A commit succeeds: on a well-formed and healthy handle with a segment target above the segment header
  (32 bytes), well-formed events that each fit a record commit as long as the LSN and segment id counters
  have room, whatever the batch target is and however often the log rotates.
\<close>

theorem commit_succeeds:
  assumes "wal_ok crc lk fence st" and "\<not> ws_bg_failure st"
    and "events \<noteq> []" and "list_all event_fits events" and "list_all (wf_event lk) events"
    and "SEGMENT_HEADER_LEN < wc_segment_target_bytes cfg"
    and "unat (ws_next_lsn st) + length events + 2 < 2 ^ 64" and "unat (ws_active_segment_id st) + 1 < 2 ^ 64"
  shows "\<exists>c st'. commit_tx_events crc cfg events st = (Inr (Some c), st')"
  using assms commit_succeeds_view unfolding wal_ok_def by blast

section \<open>A small run\<close>

definition sample_config :: wal_config where
  "sample_config = \<lparr>wc_segment_target_bytes = 100, wc_batch_target_bytes = BATCH_TARGET_BYTES\<rparr>"

lemma fresh_wal_ok: "lsn_checked_next fence = Some base \<Longrightarrow> wal_ok crc lk fence (fresh_state crc base)"
  unfolding wal_ok_def by (rule exI, rule conjI [OF _ fresh_ok]) simp_all

lemma lsn_next_0 [simp]: "lsn_checked_next 0 = Some 1"
  by (simp add: lsn_checked_next_def)

lemma sample_event_ok: "event_fits (DeleteNode i)" "wf_event lk (DeleteNode i)"
  by (simp_all add: event_fits_def encoded_batch_event_len_def size_tag_def size_u64_def add_size_def
      checked_add_def usize_limit_def MAX_RECORD_LEN_def)

lemma sample_committed: "committed_events crc lk 0 (fresh_state crc 1) = []"
  using view_records_ok [OF fresh_ok [of 0 1 crc lk]] by (simp add: committed_events_def)

theorem commit_succeeds_witness:
  "\<exists>c st'. commit_tx_events (\<lambda>_. 7) sample_config [DeleteNode 4] (fresh_state (\<lambda>_. 7) 1) = (Inr (Some c), st')"
  by (rule commit_succeeds [OF fresh_wal_ok [of 0, where lk = "\<lambda>_. None"]])
    (simp_all add: fresh_state_def sample_event_ok sample_config_def SEGMENT_HEADER_LEN_def)

theorem commit_atomic_witness:
  "\<exists>c st'. commit_tx_events (\<lambda>_. 7) sample_config [DeleteNode 4] (fresh_state (\<lambda>_. 7) 1) = (Inr (Some c), st') \<and>
     wal_ok (\<lambda>_. 7) (\<lambda>_. None) 0 st' \<and> committed_events (\<lambda>_. 7) (\<lambda>_. None) 0 st' = [DeleteNode 4]"
proof -
  let ?v = "\<lparr>lv_older = [], lv_header = segment_header_new 1, lv_written = [], lv_buffered = [],
    lv_state = fresh_state (\<lambda>_. 7) 1\<rparr>"
  have "view_ok (\<lambda>_. 7) (\<lambda>_. None) 0 ?v" by (rule fresh_ok) simp
  from commit_succeeds_view [OF this, of "[DeleteNode 4]" sample_config]
  obtain c st' where run: "commit_tx_events (\<lambda>_. 7) sample_config [DeleteNode 4] (fresh_state (\<lambda>_. 7) 1)
      = (Inr (Some c), st')"
    by (auto simp: fresh_state_def sample_event_ok sample_config_def SEGMENT_HEADER_LEN_def)
  from commit_atomic [OF run fresh_wal_ok [of 0, where lk = "\<lambda>_. None"]] run sample_committed show ?thesis
    by (simp add: sample_event_ok sample_config_def SEGMENT_HEADER_LEN_def)
qed

end
