(* ===== verification/Wal_Truncate.thy ===== *)
theory Wal_Truncate
  imports Wal_Commit
begin

text \<open>
  Truncation behind a checkpoint drops whole segments that the snapshot covers, so what replays above
  the fence does not change and the oldest segment left still starts where the snapshot ends.
\<close>

section \<open>Segments in order\<close>

lemma sorted_last_lsn:
  assumes "sorted_wrt (<) (map record_lsn rs)" and "r \<in> set rs"
  shows "record_lsn r \<le> last_lsn 0 rs"
proof -
  have "rs \<noteq> []" using assms(2) by auto
  then have split: "rs = butlast rs @ [last rs]" by simp
  have "sorted_wrt (<) (map record_lsn (butlast rs) @ [record_lsn (last rs)])"
    using assms(1) by (subst (asm) split) simp
  moreover have "r \<in> set (butlast rs) \<or> r = last rs" using assms(2) by (subst (asm) split) auto
  ultimately show ?thesis using \<open>rs \<noteq> []\<close> by (auto simp: last_lsn_def sorted_wrt_append)
qed

lemma last_lsn_mono:
  assumes "sorted_wrt (<) (map record_lsn (rs @ rs'))"
  shows "last_lsn 0 rs \<le> last_lsn 0 (rs @ rs')"
proof (cases "rs = []")
  case False
  then have "last rs \<in> set (rs @ rs')" by simp
  from sorted_last_lsn [OF assms this] False show ?thesis by (simp add: last_lsn_def)
qed simp

lemma contiguous_sorted:
  "check_segment_ids_contiguous ids = Inr () \<Longrightarrow> sorted_wrt (<) ids"
proof (induction ids rule: check_segment_ids_contiguous.induct)
  case (1 prev next' ids)
  then have "lsn_checked_next prev = Some next'" "sorted_wrt (<) (next' # ids)" by (auto split: if_splits)
  then show ?case using lsn_next_greater by fastforce
qed auto

lemma contiguous_drop:
  "check_segment_ids_contiguous ids = Inr () \<Longrightarrow> check_segment_ids_contiguous (drop j ids) = Inr ()"
proof (induction ids arbitrary: j rule: check_segment_ids_contiguous.induct)
  case (1 prev next' ids)
  then show ?case by (cases j) (auto split: if_splits)
next
  case "2_2"
  then show ?case by (cases j) auto
qed auto

abbreviation seg_base :: "log_segment \<Rightarrow> lsn" where
  "seg_base seg \<equiv> sh_base_lsn (ls_header seg)"

lemma bases_sorted: "bases_ok prev l segs \<Longrightarrow> sorted_wrt (<) (map seg_base segs) \<and>
    (\<forall>b. prev = Some b \<longrightarrow> (\<forall>seg \<in> set segs. b < seg_base seg))"
proof (induction segs arbitrary: prev l)
  case (Cons seg segs)
  then show ?case by fastforce
qed simp

lemma bases_ok_weaken:
  "bases_ok prev l segs \<Longrightarrow> prev' = None \<or> prev' = prev \<Longrightarrow> l' = 0 \<or> l' = l \<Longrightarrow> bases_ok prev' l' segs"
proof (induction segs arbitrary: prev l prev' l')
  case (Cons seg segs)
  have "last_lsn l' (ls_records seg) = 0 \<or> last_lsn l' (ls_records seg) = last_lsn l (ls_records seg)"
    using Cons.prems(3) by (auto simp: last_lsn_def)
  then show ?case using Cons by (auto intro: Cons.IH)
qed simp

lemma log_files_drop: "log_files crc segs tail fs \<Longrightarrow> log_files crc (drop j segs) tail (drop j fs)"
proof (induction segs arbitrary: j fs)
  case (Cons seg segs)
  then show ?case by (cases fs; cases j) auto
qed simp

lemma log_files_length: "log_files crc segs tail fs \<Longrightarrow> length fs = length segs"
proof (induction segs arbitrary: fs)
  case (Cons seg segs)
  then show ?case by (cases fs) auto
qed simp

lemma saturating_pred_mono: "a \<le> b \<Longrightarrow> saturating_pred a \<le> saturating_pred b"
proof -
  assume "a \<le> b"
  moreover have "unat (w - 1) = unat w - 1" if "w \<noteq> 0" for w :: u64
    using that by (simp add: unat_minus_one)
  ultimately show ?thesis
    by (auto simp: saturating_pred_def word_le_nat_alt unat_eq_zero)
qed

lemma saturating_pred_le: "l < b \<Longrightarrow> saturating_pred b \<le> f \<Longrightarrow> l \<le> f"
proof -
  assume "l < b" "saturating_pred b \<le> f"
  moreover have "b \<noteq> 0" using \<open>l < b\<close> by auto
  ultimately show ?thesis
    by (simp add: saturating_pred_def word_le_nat_alt word_less_nat_alt unat_minus_one)
qed

section \<open>The candidates\<close>

lemma drop_candidates_prefix:
  assumes "drop_candidates crc keep f files = r" and "log_files crc segs [] (map snd files)"
    and "\<forall>seg \<in> set segs. sh_format_version (ls_header seg) = SEGMENT_FORMAT_VERSION"
    and "sorted_wrt (<) (map seg_base segs)" and "files \<noteq> []"
  shows "\<exists>k < length files. r = Inr (map fst (take k files)) \<and>
    (0 < k \<longrightarrow> saturating_pred (seg_base (segs ! k)) \<le> f)"
  using assms
proof (induction crc keep f files arbitrary: segs r rule: drop_candidates.induct)
  case (1 crc keep f e n es)
  from "1.prems"(2) obtain s1 s2 segs' where segs: "segs = s1 # s2 # segs'"
    by (cases segs; cases "tl segs") auto
  show ?case
  proof (cases "fst e \<ge> keep")
    case True
    then show ?thesis using "1.prems"(1) by (intro exI [of _ 0]) auto
  next
    case False
    have sr: "\<exists>sr. segment_reader_open crc (snd n) = Inr sr \<and> sr_header sr = ls_header s2"
      using "1.prems"(2,3) segs segment_open_encoded [of "ls_header s2" crc] by auto
    have "log_files crc (s2 # segs') [] (map snd (n # es))" using "1.prems"(2) segs by simp
    moreover have "\<forall>seg \<in> set (s2 # segs'). sh_format_version (ls_header seg) = SEGMENT_FORMAT_VERSION"
      "sorted_wrt (<) (map seg_base (s2 # segs'))" using "1.prems"(3,4) segs by auto
    ultimately obtain k where k: "k < length (n # es)"
      "drop_candidates crc keep f (n # es) = Inr (map fst (take k (n # es)))"
      "0 < k \<longrightarrow> saturating_pred (seg_base ((s2 # segs') ! k)) \<le> f"
      using "1.IH" [OF False refl, of "s2 # segs'"] sr by auto
    show ?thesis
    proof (cases "saturating_pred (seg_base s2) \<le> f")
      case True
      then show ?thesis using "1.prems"(1) False sr k segs
        by (intro exI [of _ "Suc k"]) (cases k; auto)
    next
      case above: False
      have "k = 0"
      proof (rule ccontr)
        assume pos: "k \<noteq> 0"
        have "length (n # es) = length (s2 # segs')"
          using log_files_length [OF "1.prems"(2)] segs by simp
        then have "seg_base s2 < seg_base ((s2 # segs') ! k)"
          using "1.prems"(4) segs k(1) pos by (cases k) auto
        then have "saturating_pred (seg_base s2) \<le> saturating_pred (seg_base ((s2 # segs') ! k))"
          by (intro saturating_pred_mono) simp
        then show False using k(3) pos above by auto
      qed
      then show ?thesis using "1.prems"(1) False sr k above segs by (intro exI [of _ 0]) auto
    qed
  qed
qed auto

section \<open>What is left\<close>

lemma remove_segments_ok:
  assumes "remove_segments (map fst (take k (ws_older st))) st = (res, st')"
    and "distinct (map fst (ws_older st))" and "k \<le> length (ws_older st)"
  shows "\<exists>j \<le> k. ws_older st' = drop j (ws_older st) \<and>
    st' = st\<lparr>ws_older := ws_older st', ws_oldest_segment_id := ws_oldest_segment_id st'\<rparr>"
  using assms
proof (induction k arbitrary: st)
  case (Suc k)
  then obtain e es where es: "ws_older st = e # es" by (cases "ws_older st") auto
  let ?s = "st\<lparr>ws_older := es\<rparr>"
  have gone: "filter (\<lambda>f. fst f \<noteq> fst e) (ws_older st) = es"
  proof -
    have "fst e \<notin> fst ` set es" using Suc.prems(2) es by simp
    then have "\<forall>x \<in> set es. fst x \<noteq> fst e" by (metis imageI)
    then show ?thesis by (simp add: es)
  qed
  show ?case
  proof (cases "fst e \<ge> ws_oldest_segment_id st \<and> (\<exists>x. next_segment_id (fst e) = Inl x)")
    case True
    then show ?thesis using Suc.prems(1) es gone by (intro exI [of _ "Suc 0"]) auto
  next
    case False
    then obtain n where run: "remove_segments (map fst (take k es)) (?s\<lparr>ws_oldest_segment_id := n\<rparr>) = (res, st')"
    proof (cases "fst e \<ge> ws_oldest_segment_id st")
      case True
      with False obtain n where "next_segment_id (fst e) = Inr n" by (cases "next_segment_id (fst e)") auto
      then show ?thesis using that [of n] Suc.prems(1) es gone True by (simp add: Let_def)
    next
      case below: False
      then show ?thesis using that [of "ws_oldest_segment_id st"] Suc.prems(1) es gone by (simp add: Let_def)
    qed
    obtain j where "j \<le> k" "ws_older st' = drop j es"
      "st' = ?s\<lparr>ws_oldest_segment_id := n, ws_older := ws_older st', ws_oldest_segment_id := ws_oldest_segment_id st'\<rparr>"
      using Suc.IH [of "?s\<lparr>ws_oldest_segment_id := n\<rparr>"] run Suc.prems(2,3) es by auto
    then show ?thesis using es by (intro exI [of _ "Suc j"]) simp
  qed
qed auto

text \<open>Dropping segments that end at or below the fence.\<close>

lemma log_ok_drop:
  assumes log: "log_ok crc lk fence (newest os h rs) []" and j: "j \<le> length os"
    and below: "0 < j \<longrightarrow> saturating_pred (seg_base (newest os h rs ! j)) \<le> fence"
  shows "log_ok crc lk fence (newest (drop j os) h rs) []"
    and "past fence (segs_records (take j os)) = []"
proof -
  let ?A = "take j os" and ?B = "newest (drop j os) h rs"
  have split: "newest os h rs = ?A @ ?B" by simp
  have ok: "bases_ok None 0 (?A @ ?B)" "sorted_wrt (<) (map record_lsn (segs_records (?A @ ?B)))"
    using log unfolding log_ok_def split by simp_all
  have hd: "hd ?B = newest os h rs ! j"
    using j by (cases "j = length os") (simp_all add: hd_append hd_drop_conv_nth nth_append)
  have "last_lsn 0 (segs_records ?A) \<le> fence"
  proof (cases "j = 0 \<or> last_lsn 0 (segs_records ?A) = 0")
    case False
    obtain b bs where B: "?B = b # bs" by (cases ?B) auto
    have "last_lsn 0 (segs_records ?A) < seg_base b"
      using ok(1) False unfolding B bases_ok_append by simp
    moreover have "saturating_pred (seg_base b) \<le> fence" using below False hd B by simp
    ultimately show ?thesis by (rule saturating_pred_le)
  qed auto
  then show none: "past fence (segs_records ?A) = []"
    using sorted_last_lsn [of "segs_records ?A"] ok(2)
    by (auto simp: filter_empty_conv sorted_wrt_append dest!: bspec) (meson order.trans)+
  have start: "saturating_pred (seg_base (hd ?B)) \<le> fence"
  proof (cases "j = 0")
    case True
    then show ?thesis using log by (simp add: log_ok_def)
  next
    case False
    then show ?thesis using below unfolding hd by simp
  qed
  have "bases_ok None 0 ?B"
    using ok(1) unfolding bases_ok_append [of None 0 ?A] by (rule bases_ok_weaken [OF conjunct2]) simp_all
  moreover have "past fence (segs_records (newest os h rs)) = past fence (segs_records ?B)"
    unfolding split using none by simp
  moreover have "set ?B \<subseteq> set (newest os h rs)" "set (segs_records ?B) \<subseteq> set (segs_records (newest os h rs))"
    by (auto dest: in_set_dropD)
  ultimately show "log_ok crc lk fence ?B []"
    using log ok(2) start unfolding log_ok_def split
    by (auto simp: list_all_iff sorted_wrt_append)
qed

lemma truncated_last:
  assumes "past fence rs = []"
  shows "max (last_lsn 0 (rs @ rs')) fence = max (last_lsn 0 rs') fence"
proof (cases "rs' = []")
  case True
  have "last_lsn 0 rs \<le> fence"
    using assms by (cases "rs = []") (auto simp: last_lsn_def filter_empty_conv)
  with True show ?thesis by (simp add: max_def)
qed (simp add: last_lsn_def)

text \<open>Truncation, on a view of the handle: some of the oldest segments go, nothing else changes.\<close>

lemma truncate_view:
  assumes run: "truncate_up_to crc f (lv_state v) = (res, st')" and ok: "view_ok crc lk fence v" and f: "f \<le> fence"
  shows "\<exists>j oldest mark. j \<le> length (lv_older v) \<and>
    st' = (lv_state v)\<lparr>ws_older := drop j (ws_older (lv_state v)), ws_oldest_segment_id := oldest,
      ws_checkpoint_mark := mark\<rparr> \<and>
    view_ok crc lk fence (v\<lparr>lv_older := drop j (lv_older v), lv_state := st'\<rparr>) \<and>
    past fence (segs_records (take j (lv_older v))) = []"
proof -
  let ?st = "lv_state v" and ?os = "lv_older v" and ?h = "lv_header v" and ?rs = "lv_written v"
  let ?segs = "newest ?os ?h ?rs"
  have log: "log_ok crc lk fence (newest ?os ?h (?rs @ lv_buffered v)) []"
    and files: "log_files crc ?segs [] (map snd (wal_files ?st))"
    and ids: "check_segment_ids_contiguous (map fst (wal_files ?st)) = Inr ()"
    using ok by (simp_all add: wal_log_def Let_def)
  have sorted: "sorted_wrt (<) (map seg_base ?segs)"
    using log bases_sorted [of None 0 "newest ?os ?h (?rs @ lv_buffered v)"] by (simp add: log_ok_def)
  have ver: "\<forall>seg \<in> set ?segs. sh_format_version (ls_header seg) = SEGMENT_FORMAT_VERSION"
    using log by (auto simp: log_ok_def)
  obtain k where k: "k < length (wal_files ?st)"
    "drop_candidates crc (saturating_pred (ws_active_segment_id ?st)) f (wal_files ?st) =
       Inr (map fst (take k (wal_files ?st)))"
    "0 < k \<longrightarrow> saturating_pred (seg_base (?segs ! k)) \<le> f"
    using drop_candidates_prefix [OF refl files ver sorted] by (force simp: wal_files_def)
  let ?marked = "mark_checkpoint ?st"
  have same: "wal_files ?marked = wal_files ?st" "ws_older ?marked = ws_older ?st"
    "ws_active_segment_id ?marked = ws_active_segment_id ?st" by (simp_all add: wal_files_def mark_checkpoint_def)
  have "take k (wal_files ?st) = take k (ws_older ?st)" using k(1) by (simp add: wal_files_def)
  then have rem: "remove_segments (map fst (take k (ws_older ?marked))) ?marked = (res, st')"
    using run k(2) by (simp add: truncate_up_to_def Let_def same)
  have "distinct (map fst (wal_files ?st))"
    using contiguous_sorted [OF ids] strict_sorted_iff by blast
  then have "distinct (map fst (ws_older ?st))" by (simp add: wal_files_def)
  then obtain j where j: "j \<le> k" "ws_older st' = drop j (ws_older ?st)"
    "st' = ?marked\<lparr>ws_older := ws_older st', ws_oldest_segment_id := ws_oldest_segment_id st'\<rparr>"
    using remove_segments_ok [OF rem] k(1) same(2) by (auto simp: wal_files_def)
  have len: "length (ws_older ?st) = length ?os"
    using log_files_length [OF wal_log_file(2) [OF ok]] by simp
  have jle: "j \<le> length ?os" using j(1) k(1) len by (simp add: wal_files_def)
  have kle: "k \<le> length ?os" using k(1) len by (simp add: wal_files_def)
  have below: "0 < j \<longrightarrow> saturating_pred (seg_base (newest ?os ?h (?rs @ lv_buffered v) ! j)) \<le> fence"
  proof
    assume pos: "0 < j"
    have "seg_base (?segs ! j) \<le> seg_base (?segs ! k)"
    proof (cases "j = k")
      case False
      then have "map seg_base ?segs ! j < map seg_base ?segs ! k"
        using sorted_wrt_nth_less [OF sorted, of j k] j(1) kle by simp
      then show ?thesis using j(1) kle by (simp only: nth_map length_append list.size less_Suc_eq_le)
    qed simp
    then have "saturating_pred (seg_base (?segs ! j)) \<le> saturating_pred (seg_base (?segs ! k))"
      by (rule saturating_pred_mono)
    also have "\<dots> \<le> fence" using k(3) pos j(1) f by (meson less_le_trans order.trans)
    finally show "saturating_pred (seg_base (newest ?os ?h (?rs @ lv_buffered v) ! j)) \<le> fence"
      using jle by (simp add: nth_append split: if_splits)
  qed
  have st': "st' = ?st\<lparr>ws_older := drop j (ws_older ?st), ws_oldest_segment_id := ws_oldest_segment_id st',
      ws_checkpoint_mark := ws_checkpoint_mark ?marked\<rparr>"
    using j(2,3) by (cases "lv_state v"; cases st') (simp add: mark_checkpoint_def)
  have drop_files: "drop j (wal_files ?st) = drop j (ws_older ?st) @ [(ws_active_segment_id ?st, sw_file (ws_active_writer ?st))]"
    using jle len by (simp add: wal_files_def)
  have "log_files crc (newest (drop j ?os) ?h ?rs) [] (map snd (drop j (wal_files ?st)))"
    using log_files_drop [OF files, of j] jle by (simp add: drop_map)
  moreover have "check_segment_ids_contiguous (map fst (drop j (wal_files ?st))) = Inr ()"
    using contiguous_drop [OF ids, of j] by (simp add: drop_map)
  moreover have "\<forall>r \<in> set (segs_records (drop j ?os) @ ?rs @ lv_buffered v). record_lsn r < ws_next_lsn ?st"
    using ok by (auto simp: wal_log_def Let_def dest: in_set_dropD)
  ultimately have "wal_log crc lk fence (drop j ?os) ?h ?rs (lv_buffered v)
      (?st\<lparr>ws_older := drop j (ws_older ?st), ws_oldest_segment_id := ws_oldest_segment_id st',
        ws_checkpoint_mark := ws_checkpoint_mark ?marked\<rparr>)"
    using ok log_ok_drop(1) [OF log jle below]
    by (simp add: wal_log_def wal_files_def [of "_\<lparr>ws_checkpoint_mark := _\<rparr>"] drop_files Let_def)
  then show ?thesis
    using jle st' log_ok_drop(2) [OF log jle below] by (intro exI [of _ j] exI conjI) auto
qed

text \<open>
  C12. Truncating behind a checkpoint loses nothing the snapshot does not hold: the handle stays well
  formed, and the committed events above the snapshot's fence are what they were.
\<close>

theorem truncate_keeps_events:
  assumes "truncate_up_to crc f st = (res, st')" and "wal_ok crc lk fence st" and "f \<le> fence"
  shows "wal_ok crc lk fence st' \<and> committed_events crc lk fence st' = committed_events crc lk fence st"
proof -
  obtain v where v: "lv_state v = st" "view_ok crc lk fence v" using assms(2) by (auto simp: wal_ok_def)
  obtain j where j: "view_ok crc lk fence (v\<lparr>lv_older := drop j (lv_older v), lv_state := st'\<rparr>)"
    "past fence (segs_records (take j (lv_older v))) = []"
    using truncate_view [OF _ v(2) assms(3)] assms(1) v(1) by blast
  have "past fence (segs_records (drop j (lv_older v))) = past fence (segs_records (lv_older v))"
    using j(2) by (metis append_Nil append_take_drop_id concat_append filter_append map_append)
  then have "committed_events crc lk fence st' = committed_events crc lk fence st"
    using view_records_ok [OF j(1)] view_records_ok [OF v(2)] v(1) by (auto simp: committed_events_def)
  moreover have "wal_ok crc lk fence st'"
    unfolding wal_ok_def by (rule exI, rule conjI [OF _ j(1)]) simp
  ultimately show ?thesis by simp
qed

theorem truncate_keeps_events_witness:
  "\<exists>st res st'. truncate_up_to (\<lambda>_. 7) 0 st = (res, st') \<and> wal_ok (\<lambda>_. 7) (\<lambda>_. None) 0 st' \<and>
     committed_events (\<lambda>_. 7) (\<lambda>_. None) 0 st' = [DeleteNode 4]"
proof -
  let ?v = "\<lparr>lv_older = [], lv_header = segment_header_new 1, lv_written = [], lv_buffered = [],
    lv_state = fresh_state (\<lambda>_. 7) 1\<rparr>"
  have ok: "view_ok (\<lambda>_. 7) (\<lambda>_. None) 0 ?v" by (rule fresh_ok) simp
  obtain c st where run: "commit_tx_events (\<lambda>_. 7) sample_config [DeleteNode 4] (lv_state ?v) = (Inr (Some c), st)"
    using commit_succeeds_view [OF ok, of "[DeleteNode 4]" sample_config]
    by (auto simp: fresh_state_def sample_event_ok sample_config_def SEGMENT_HEADER_LEN_def)
  have st: "wal_ok (\<lambda>_. 7) (\<lambda>_. None) 0 st" "committed_events (\<lambda>_. 7) (\<lambda>_. None) 0 st = [DeleteNode 4]"
    using commit_atomic_view [OF run ok] sample_committed
    by (simp_all add: sample_event_ok sample_config_def SEGMENT_HEADER_LEN_def)
  obtain res st' where t: "truncate_up_to (\<lambda>_. 7) 0 st = (res, st')" by (cases "truncate_up_to (\<lambda>_. 7) 0 st")
  from truncate_keeps_events [OF t st(1)] st(2) t show ?thesis by auto
qed

end
