(* ===== verification/Wal_Durability.thy ===== *)
theory Wal_Durability
  imports Wal_Truncate
begin

text \<open>
  What survives a crash. The handle and its flushers take steps in any order; at any moment the bytes
  behind the last \<open>fsync\<close> of the active segment may be lost. The log then opens again to a well-formed
  handle, with every record up to the durable LSN and whole transactions only.
\<close>

section \<open>Records on stable storage\<close>

text \<open>Every record held with an LSN up to \<open>l\<close> is in a sealed file or a synced part of the active one.\<close>

definition synced_upto :: "(u8 list \<Rightarrow> u32) \<Rightarrow> log_view \<Rightarrow> lsn \<Rightarrow> bool" where
  "synced_upto crc v l \<longleftrightarrow> (\<exists>rs1 rs2 bs1. lv_written v = rs1 @ rs2 \<and>
     wseq (map (record_encode_into crc) rs1) = Inr bs1 \<and> SEGMENT_HEADER_LEN + length bs1 \<le> view_synced v \<and>
     (\<forall>r \<in> set (rs2 @ lv_buffered v). l < record_lsn r))"

text \<open>A \<open>fsync\<close> of segment \<open>s\<close> that starts now, or is under way, covers the records up to \<open>l\<close>.\<close>

definition written_upto :: "log_view \<Rightarrow> segment_id \<Rightarrow> lsn \<Rightarrow> bool" where
  "written_upto v s l \<longleftrightarrow> SEGMENT_HEADER_LEN \<le> view_synced v \<and>
     s \<le> ws_active_segment_id (lv_state v) \<and> (\<forall>r \<in> set (lv_buffered v). l < record_lsn r) \<and>
     (s \<noteq> ws_active_segment_id (lv_state v) \<longrightarrow> (\<forall>r \<in> set (lv_written v). l < record_lsn r))"

lemma newer_above: "newer st new st' \<Longrightarrow> l < ws_next_lsn st \<Longrightarrow> r \<in> set new \<Longrightarrow> l < record_lsn r"
  by (fastforce simp: newer_def)

lemma in_place_records:
  assumes "grows_in_place v new v'"
  obtains more where "lv_written v' = lv_written v @ more" "more @ lv_buffered v' = lv_buffered v @ new"
    "view_synced v \<le> view_synced v'" "ws_active_segment_id (lv_state v') = ws_active_segment_id (lv_state v)"
  using assms by (auto simp: grows_in_place_def)

lemma synced_grows:
  assumes sync: "synced_upto crc v l" and grown: "grows v new v'" and l: "l < ws_next_lsn (lv_state v)"
  shows "synced_upto crc v' l"
proof -
  have new: "\<forall>r \<in> set new. l < record_lsn r"
    using grown l newer_above by (auto simp: grows_def)
  from grown have "grows_in_place v new v' \<or> grows_rotated v new v'" by (simp add: grows_def)
  then show ?thesis
  proof
    assume "grows_in_place v new v'"
    then obtain more where more: "lv_written v' = lv_written v @ more"
      "more @ lv_buffered v' = lv_buffered v @ new" "view_synced v \<le> view_synced v'"
      by (elim in_place_records)
    obtain rs1 rs2 bs1 where rs: "lv_written v = rs1 @ rs2" "wseq (map (record_encode_into crc) rs1) = Inr bs1"
      "SEGMENT_HEADER_LEN + length bs1 \<le> view_synced v" "\<forall>r \<in> set (rs2 @ lv_buffered v). l < record_lsn r"
      using sync by (auto simp: synced_upto_def)
    have "set (more @ lv_buffered v') \<subseteq> set (lv_buffered v) \<union> set new" unfolding more(2) by simp
    then have "\<forall>r \<in> set ((rs2 @ more) @ lv_buffered v'). l < record_lsn r"
      using rs(4) new by auto
    then show ?thesis unfolding synced_upto_def
      using rs(1-3) more(1,3) by (intro exI [of _ rs1] exI [of _ "rs2 @ more"] exI [of _ bs1]) simp
  next
    assume "grows_rotated v new v'"
    then show ?thesis using new unfolding synced_upto_def
      by (intro exI [of _ "[]"] exI [of _ "lv_written v'"] exI [of _ "[]"]) (auto simp: grows_rotated_def)
  qed
qed

lemma written_grows:
  assumes sync: "written_upto v s l" and grown: "grows v new v'" and l: "l < ws_next_lsn (lv_state v)"
  shows "written_upto v' s l"
proof -
  have new: "\<forall>r \<in> set new. l < record_lsn r"
    using grown l newer_above by (auto simp: grows_def)
  from grown have "grows_in_place v new v' \<or> grows_rotated v new v'" by (simp add: grows_def)
  then show ?thesis
  proof
    assume "grows_in_place v new v'"
    then obtain more where more: "lv_written v' = lv_written v @ more"
      "more @ lv_buffered v' = lv_buffered v @ new" "view_synced v \<le> view_synced v'"
      "ws_active_segment_id (lv_state v') = ws_active_segment_id (lv_state v)"
      by (elim in_place_records)
    have "set (more @ lv_buffered v') \<subseteq> set (lv_buffered v) \<union> set new" unfolding more(2) by simp
    then show ?thesis using sync more(1,3,4) new by (auto simp: written_upto_def)
  next
    assume rot: "grows_rotated v new v'"
    then have "set (lv_written v' @ lv_buffered v') = set new" by (simp add: grows_rotated_def)
    then show ?thesis using rot sync new by (auto simp: written_upto_def grows_rotated_def)
  qed
qed

section \<open>No gap in the LSNs\<close>

text \<open>
  The counter follows the newest record or the fence, and the active segment starts no later than where
  the counter would be without its records: an open that finds none of them continues inside it.
\<close>

definition no_gap :: "lsn \<Rightarrow> log_view \<Rightarrow> bool" where
  "no_gap fence v \<longleftrightarrow>
     lsn_checked_next (max (last_lsn 0 (view_records v)) fence) = Some (ws_next_lsn (lv_state v)) \<and>
     saturating_pred (sh_base_lsn (lv_header v)) \<le> max (last_lsn 0 (segs_records (lv_older v))) fence"

text \<open>How a commit takes the counter on, when it does not run out.\<close>

definition counted :: "log_view \<Rightarrow> wal_record list \<Rightarrow> log_view \<Rightarrow> bool" where
  "counted v new v' \<longleftrightarrow> (if new = [] then ws_next_lsn (lv_state v') = ws_next_lsn (lv_state v)
     else lsn_checked_next (record_lsn (last new)) = Some (ws_next_lsn (lv_state v')))"

lemma no_gap_grows:
  assumes gap: "no_gap fence v" and grown: "grows v new v'" and cnt: "counted v new v'"
    and ok: "view_ok crc lk fence v" "view_ok crc lk fence v'"
  shows "no_gap fence v'"
proof -
  have recs: "view_records v' = view_records v @ new" by (rule grows_records [OF grown])
  have fence: "fence < ws_next_lsn (lv_state v)" using ok(1) by (simp add: wal_log_def Let_def)
  have next': "lsn_checked_next (max (last_lsn 0 (view_records v')) fence) = Some (ws_next_lsn (lv_state v'))"
  proof (cases "new = []")
    case True
    then show ?thesis using gap cnt recs by (simp add: no_gap_def counted_def)
  next
    case False
    then have "last new \<in> set new" by simp
    then have "fence < record_lsn (last new)"
      using grown newer_above [of "lv_state v" new "lv_state v'" fence "last new"] fence by (auto simp: grows_def)
    moreover have "last_lsn 0 (view_records v') = record_lsn (last new)"
      unfolding recs using False by (simp add: last_lsn_def)
    ultimately show ?thesis using cnt False by (simp add: counted_def max.absorb1 less_imp_le)
  qed
  from grown consider "grows_in_place v new v'" | "grows_rotated v new v'" by (auto simp: grows_def)
  then have "saturating_pred (sh_base_lsn (lv_header v')) \<le> max (last_lsn 0 (segs_records (lv_older v'))) fence"
  proof cases
    case 1
    then show ?thesis using gap by (simp add: no_gap_def grows_in_place_def)
  next
    case 2
    have "saturating_pred (ws_next_lsn (lv_state v)) = max (last_lsn 0 (view_records v)) fence"
      using gap saturating_pred_next by (simp add: no_gap_def)
    moreover have "segs_records (lv_older v') = view_records v" using 2 by (simp add: grows_rotated_def)
    moreover have "sh_base_lsn (lv_header v') = ws_next_lsn (lv_state v)"
      using 2 by (simp add: grows_rotated_def segment_header_new_def)
    ultimately show ?thesis by simp
  qed
  with next' show ?thesis by (simp add: no_gap_def)
qed

section \<open>The handle and its flushers\<close>

text \<open>
  A flusher (the background one, or a caller of \<open>force_fsync\<close>) is between its critical sections: about
  to \<open>fsync\<close> a segment, or about to record the LSN its \<open>fsync\<close> covered.
\<close>

datatype flusher = Idle | Fsyncing segment_id lsn | Fsynced lsn

record machine =
  mc_wal :: wal_state
  mc_flushers :: "nat \<Rightarrow> flusher"
  mc_fence :: lsn

text \<open>
  The steps. A commit has LSNs left. A snapshot at \<open>s\<close> may become the fence when no transaction
  straddles it; its marker follows, and segments it covers may be dropped.
\<close>

inductive wal_step :: "(u8 list \<Rightarrow> u32) \<Rightarrow> (string \<Rightarrow> string option) \<Rightarrow> wal_config \<Rightarrow> machine \<Rightarrow> machine \<Rightarrow> bool"
  for crc lk cfg where
  step_commit: "list_all (wf_event lk) events \<Longrightarrow>
     unat (ws_next_lsn (mc_wal m)) + length events + 2 < 2 ^ 64 \<Longrightarrow>
     commit_tx_events crc cfg events (mc_wal m) = (res, st') \<Longrightarrow>
     wal_step crc lk cfg m (m\<lparr>mc_wal := st'\<rparr>)"
| step_flush: "wal_flush (mc_wal m) = (res, st') \<Longrightarrow> wal_step crc lk cfg m (m\<lparr>mc_wal := st'\<rparr>)"
| step_flush_begin: "mc_flushers m i = Idle \<Longrightarrow> flush_begin True (mc_wal m) = (Inr r, st') \<Longrightarrow>
     wal_step crc lk cfg m (m\<lparr>mc_wal := st', mc_flushers := (mc_flushers m)(i := (case r of
       None \<Rightarrow> Idle | Some (s, l) \<Rightarrow> Fsyncing s l))\<rparr>)"
| step_fsync: "mc_flushers m i = Fsyncing s l \<Longrightarrow>
     wal_step crc lk cfg m (m\<lparr>mc_wal := flush_sync s (mc_wal m), mc_flushers := (mc_flushers m)(i := Fsynced l)\<rparr>)"
| step_flush_end: "mc_flushers m i = Fsynced l \<Longrightarrow>
     wal_step crc lk cfg m (m\<lparr>mc_wal := flush_end l (mc_wal m), mc_flushers := (mc_flushers m)(i := Idle)\<rparr>)"
| step_snapshot: "mc_fence m \<le> s \<Longrightarrow> s < ws_next_lsn (mc_wal m) \<Longrightarrow>
     replayable None None (past s (wal_records crc lk (mc_wal m))) \<Longrightarrow>
     wal_step crc lk cfg m (m\<lparr>mc_fence := s\<rparr>)"
| step_marker: "s = mc_fence m \<Longrightarrow>
     (\<And>p. checkpoint_seen None (past (mc_fence m) (wal_records crc lk (mc_wal m))) = Some p \<Longrightarrow> p \<le> s) \<Longrightarrow>
     checkpoint_marker crc s (mc_wal m) = (res, st') \<Longrightarrow> wal_step crc lk cfg m (m\<lparr>mc_wal := st'\<rparr>)"
| step_truncate: "f \<le> mc_fence m \<Longrightarrow> truncate_up_to crc f (mc_wal m) = (res, st') \<Longrightarrow>
     wal_step crc lk cfg m (m\<lparr>mc_wal := st'\<rparr>)"

definition flusher_ok :: "(u8 list \<Rightarrow> u32) \<Rightarrow> log_view \<Rightarrow> flusher \<Rightarrow> bool" where
  "flusher_ok crc v f \<longleftrightarrow> (case f of Idle \<Rightarrow> True
     | Fsyncing s l \<Rightarrow> l < ws_next_lsn (lv_state v) \<and> written_upto v s l
     | Fsynced l \<Rightarrow> l < ws_next_lsn (lv_state v) \<and> synced_upto crc v l)"

definition durable_view :: "(u8 list \<Rightarrow> u32) \<Rightarrow> (string \<Rightarrow> string option) \<Rightarrow> lsn \<Rightarrow> log_view \<Rightarrow> bool" where
  "durable_view crc lk fence v \<longleftrightarrow> view_ok crc lk fence v \<and> no_gap fence v \<and>
     ws_durable_lsn (lv_state v) < ws_next_lsn (lv_state v) \<and> synced_upto crc v (ws_durable_lsn (lv_state v))"

definition machine_ok :: "(u8 list \<Rightarrow> u32) \<Rightarrow> (string \<Rightarrow> string option) \<Rightarrow> machine \<Rightarrow> bool" where
  "machine_ok crc lk m \<longleftrightarrow> (\<exists>v. lv_state v = mc_wal m \<and> durable_view crc lk (mc_fence m) v \<and>
     (\<forall>i. flusher_ok crc v (mc_flushers m i)))"

lemma flusher_grows:
  assumes "flusher_ok crc v f" and "grows v new v'"
  shows "flusher_ok crc v' f"
proof -
  have "ws_next_lsn (lv_state v) \<le> ws_next_lsn (lv_state v')" using assms(2) by (simp add: grows_def newer_def)
  then show ?thesis
    using assms(1) synced_grows [OF _ assms(2)] written_grows [OF _ assms(2)]
    by (cases f) (auto simp: flusher_ok_def)
qed

lemma durable_grows:
  assumes "durable_view crc lk fence v" and "grows v new v'" and "counted v new v'" and "view_ok crc lk fence v'"
  shows "durable_view crc lk fence v'"
proof -
  have "ws_next_lsn (lv_state v) \<le> ws_next_lsn (lv_state v')" "ws_durable_lsn (lv_state v') = ws_durable_lsn (lv_state v)"
    using assms(2) by (simp_all add: grows_def newer_def)
  then show ?thesis
    using assms no_gap_grows [OF _ assms(2,3)] synced_grows [OF _ assms(2)]
    by (auto simp: durable_view_def)
qed

lemma machine_grows:
  assumes ok: "durable_view crc lk (mc_fence m) v" "lv_state v = mc_wal m" "\<forall>i. flusher_ok crc v (mc_flushers m i)"
    and grown: "grows v new v'" "counted v new v'" "view_ok crc lk (mc_fence m) v'" "lv_state v' = st'"
  shows "machine_ok crc lk (m\<lparr>mc_wal := st'\<rparr>)"
  unfolding machine_ok_def
  using durable_grows [OF ok(1) grown(1-3)] flusher_grows [OF _ grown(1)] ok(3) grown(4)
  by (intro exI [of _ v']) simp

text \<open>Flushing moves the buffer to the file.\<close>

definition flushed_view :: "log_view \<Rightarrow> log_view" where
  "flushed_view v = v\<lparr>lv_written := lv_written v @ lv_buffered v, lv_buffered := [],
     lv_state := (lv_state v)\<lparr>ws_active_writer := writer_flush_buffer (ws_active_writer (lv_state v))\<rparr>\<rparr>"

lemma flushed_view_ok:
  assumes "view_ok crc lk fence v"
  shows "view_ok crc lk fence (flushed_view v)" and "grows v [] (flushed_view v)"
    and "counted v [] (flushed_view v)" and "lv_buffered (flushed_view v) = []"
  using wal_log_flush [OF assms]
  by (auto simp: flushed_view_def grows_def grows_in_place_def newer_def counted_def writer_flush_buffer_def)

text \<open>The \<open>fsync\<close>.\<close>

definition synced_view :: "segment_id \<Rightarrow> log_view \<Rightarrow> log_view" where
  "synced_view s v = v\<lparr>lv_state := flush_sync s (lv_state v)\<rparr>"

lemma synced_view_ok:
  assumes "view_ok crc lk fence v"
  shows "view_ok crc lk fence (synced_view s v)" and "grows v [] (synced_view s v)"
    and "counted v [] (synced_view s v)"
  using assms
  by (auto simp: synced_view_def flush_sync_def writer_sync_def wal_log_def wal_files_def Let_def grows_def
      grows_in_place_def newer_def counted_def)

lemma fsync_covers:
  assumes ok: "view_ok crc lk fence v" and wr: "written_upto v s l"
  shows "synced_upto crc (synced_view s v) l"
proof (cases "s = ws_active_segment_id (lv_state v)")
  case True
  obtain bs where "wseq (map (record_encode_into crc) (lv_written v)) = Inr bs"
    "sw_file (ws_active_writer (lv_state v)) = segment_header_encode crc (lv_header v) @ bs"
    using wal_log_file(1) [OF ok] by blast
  then show ?thesis
    using True wr unfolding synced_upto_def
    by (intro exI [of _ "lv_written v"] exI [of _ "[]"] exI [of _ bs])
      (simp add: synced_view_def flush_sync_def writer_sync_def written_upto_def SEGMENT_HEADER_LEN_def)
next
  case False
  then show ?thesis
    using wr unfolding synced_upto_def
    by (intro exI [of _ "[]"] exI [of _ "lv_written v"] exI [of _ "[]"])
      (auto simp: synced_view_def flush_sync_def written_upto_def)
qed

lemma synced_view_size: "synced_upto crc v l \<Longrightarrow> SEGMENT_HEADER_LEN \<le> view_synced v"
  by (auto simp: synced_upto_def)

section \<open>Every step keeps it\<close>

lemma step_commit_ok:
  assumes ok: "durable_view crc lk (mc_fence m) v" "lv_state v = mc_wal m" "\<forall>i. flusher_ok crc v (mc_flushers m i)"
    and run: "commit_tx_events crc cfg events (mc_wal m) = (res, st')"
    and target: "SEGMENT_HEADER_LEN < wc_segment_target_bytes cfg" and wf: "list_all (wf_event lk) events"
    and room: "unat (ws_next_lsn (mc_wal m)) + length events + 2 < 2 ^ 64"
  shows "machine_ok crc lk (m\<lparr>mc_wal := st'\<rparr>)"
proof -
  have vok: "view_ok crc lk (mc_fence m) v" using ok(1) by (simp add: durable_view_def)
  obtain v' new where v': "lv_state v' = st'" "view_ok crc lk (mc_fence m) v'" "grows v new v'"
    and out: "case res of
       Inr (Some c) \<Rightarrow> lv_buffered v' = [] \<and> whole_tx (ws_next_lsn (lv_state v)) c events new \<and>
         lsn_checked_next c = Some (ws_next_lsn st')
     | Inr None \<Rightarrow> v' = v \<and> new = [] \<and> events = []
     | Inl e \<Rightarrow> cut_tx (ws_next_lsn (lv_state v)) new \<and>
         (new = [] \<and> ws_next_lsn st' = ws_next_lsn (lv_state v) \<or>
          2 ^ 64 \<le> unat (ws_next_lsn (lv_state v)) + length events + 2)"
    using commit_grows [OF run [folded ok(2)] vok target wf] by blast
  have "counted v new v'"
    using out v'(1) room ok(2)
    by (auto simp: counted_def whole_tx_def split: sum.splits option.splits)
  then show ?thesis by (rule machine_grows [OF ok v'(3) _ v'(2,1)])
qed

lemma step_flush_ok:
  assumes ok: "durable_view crc lk (mc_fence m) v" "lv_state v = mc_wal m" "\<forall>i. flusher_ok crc v (mc_flushers m i)"
    and run: "wal_flush (mc_wal m) = (res, st')"
  shows "machine_ok crc lk (m\<lparr>mc_wal := st'\<rparr>)"
proof -
  have vok: "view_ok crc lk (mc_fence m) v" using ok(1) by (simp add: durable_view_def)
  have "st' = mc_wal m \<or> st' = lv_state (flushed_view v)"
    using run ok(2) by (auto simp: wal_flush_def obind_def ocheck_def check_healthy_def flush_inner_def
        flush_begin_def oret_def Let_def flushed_view_def split: if_splits)
  then show ?thesis
  proof
    assume "st' = mc_wal m"
    then show ?thesis using machine_grows [OF ok grows_refl _ vok ok(2)] by (simp add: counted_def)
  next
    assume "st' = lv_state (flushed_view v)"
    then show ?thesis using machine_grows [OF ok flushed_view_ok(2,3,1) [OF vok]] by simp
  qed
qed

lemma machine_ok_flushers:
  assumes "durable_view crc lk (mc_fence m) v" and "lv_state v = mc_wal m"
    and "\<forall>j. flusher_ok crc v (mc_flushers m j)" and "flusher_ok crc v f"
  shows "machine_ok crc lk (m\<lparr>mc_flushers := (mc_flushers m)(i := f)\<rparr>)"
  using assms unfolding machine_ok_def by (intro exI [of _ v]) simp

lemma machine_view_step:
  assumes ok: "durable_view crc lk (mc_fence m) v" "lv_state v = mc_wal m" "\<forall>i. flusher_ok crc v (mc_flushers m i)"
    and grown: "grows v [] v'" "counted v [] v'" "view_ok crc lk (mc_fence m) v'"
    and f: "flusher_ok crc v' f"
  shows "machine_ok crc lk (m\<lparr>mc_wal := lv_state v', mc_flushers := (mc_flushers m)(i := f)\<rparr>)"
  using machine_ok_flushers [of crc lk "m\<lparr>mc_wal := lv_state v'\<rparr>" v' f i]
    durable_grows [OF ok(1) grown] flusher_grows [OF _ grown(1)] ok(3) f by simp

lemma saturating_pred_less: "l < n \<Longrightarrow> saturating_pred n < n"
  by (auto simp: saturating_pred_def word_less_nat_alt unat_sub_if' word_le_nat_alt unat_eq_zero split: if_splits)

lemma step_flush_begin_ok:
  assumes ok: "durable_view crc lk (mc_fence m) v" "lv_state v = mc_wal m" "\<forall>i. flusher_ok crc v (mc_flushers m i)"
    and run: "flush_begin True (mc_wal m) = (Inr r, st')"
  shows "machine_ok crc lk (m\<lparr>mc_wal := st', mc_flushers := (mc_flushers m)(i := (case r of
       None \<Rightarrow> Idle | Some (s, l) \<Rightarrow> Fsyncing s l))\<rparr>)"
proof -
  have vok: "view_ok crc lk (mc_fence m) v" using ok(1) by (simp add: durable_view_def)
  let ?v = "flushed_view v"
  have st': "st' = lv_state ?v"
    using run ok(2) by (auto simp: flush_begin_def Let_def flushed_view_def split: if_splits)
  have r: "r = None \<or> r = Some (ws_active_segment_id (lv_state ?v), saturating_pred (ws_next_lsn (lv_state ?v)))"
    using run ok(2) by (auto simp: flush_begin_def Let_def flushed_view_def split: if_splits)
  have "mc_fence m < ws_next_lsn (lv_state ?v)" using flushed_view_ok(1) [OF vok] by (simp add: wal_log_def Let_def)
  moreover have "SEGMENT_HEADER_LEN \<le> view_synced ?v"
    using ok(1) by (auto simp: durable_view_def flushed_view_def writer_flush_buffer_def dest: synced_view_size)
  ultimately have "flusher_ok crc ?v (case r of None \<Rightarrow> Idle | Some (s, l) \<Rightarrow> Fsyncing s l)"
    using r flushed_view_ok(4) [OF vok] saturating_pred_less
    by (auto simp: flusher_ok_def written_upto_def)
  from machine_view_step [OF ok flushed_view_ok(2,3,1) [OF vok] this] show ?thesis by (simp add: st')
qed

lemma step_fsync_ok:
  assumes ok: "durable_view crc lk (mc_fence m) v" "lv_state v = mc_wal m" "\<forall>i. flusher_ok crc v (mc_flushers m i)"
    and f: "mc_flushers m i = Fsyncing s l"
  shows "machine_ok crc lk (m\<lparr>mc_wal := flush_sync s (mc_wal m), mc_flushers := (mc_flushers m)(i := Fsynced l)\<rparr>)"
proof -
  have vok: "view_ok crc lk (mc_fence m) v" using ok(1) by (simp add: durable_view_def)
  have "l < ws_next_lsn (lv_state v) \<and> written_upto v s l"
    using spec [OF ok(3), of i] f by (simp add: flusher_ok_def)
  then have "flusher_ok crc (synced_view s v) (Fsynced l)"
    using fsync_covers [OF vok] by (auto simp: flusher_ok_def synced_view_def flush_sync_def)
  from machine_view_step [OF ok synced_view_ok(2,3,1) [OF vok] this] show ?thesis
    by (simp add: synced_view_def ok(2))
qed

lemma step_flush_end_ok:
  assumes ok: "durable_view crc lk (mc_fence m) v" "lv_state v = mc_wal m" "\<forall>i. flusher_ok crc v (mc_flushers m i)"
    and f: "mc_flushers m i = Fsynced l"
  shows "machine_ok crc lk (m\<lparr>mc_wal := flush_end l (mc_wal m), mc_flushers := (mc_flushers m)(i := Idle)\<rparr>)"
proof -
  let ?v = "v\<lparr>lv_state := flush_end l (lv_state v)\<rparr>"
  have same: "ws_active_writer (flush_end l st) = ws_active_writer st" "ws_next_lsn (flush_end l st) = ws_next_lsn st"
    "ws_older (flush_end l st) = ws_older st" "ws_active_segment_id (flush_end l st) = ws_active_segment_id st" for st
    by (simp_all add: flush_end_def)
  have sync: "synced_upto crc ?v l' \<longleftrightarrow> synced_upto crc v l'" "written_upto ?v s l' \<longleftrightarrow> written_upto v s l'" for s l'
    by (simp_all add: synced_upto_def written_upto_def same)
  have "l < ws_next_lsn (lv_state v) \<and> synced_upto crc v l"
    using spec [OF ok(3), of i] f by (simp add: flusher_ok_def)
  then have "durable_view crc lk (mc_fence m) ?v"
    using ok(1) by (auto simp: durable_view_def no_gap_def same sync intro: wal_log_state_cong)
      (auto simp: flush_end_def)
  moreover have "flusher_ok crc ?v g \<longleftrightarrow> flusher_ok crc v g" for g
    by (cases g) (simp_all add: flusher_ok_def same sync)
  ultimately show ?thesis
    using machine_ok_flushers [of crc lk "m\<lparr>mc_wal := flush_end l (mc_wal m)\<rparr>" ?v Idle i] ok(2,3)
    by (simp add: flusher_ok_def)
qed

lemma before_next: "lsn_checked_next k = Some n \<Longrightarrow> l < n \<Longrightarrow> l \<le> k"
  by (simp add: word_less_nat_alt word_le_nat_alt lsn_next_unat)

lemma step_snapshot_ok:
  assumes ok: "durable_view crc lk (mc_fence m) v" "lv_state v = mc_wal m" "\<forall>i. flusher_ok crc v (mc_flushers m i)"
    and s: "mc_fence m \<le> s" "s < ws_next_lsn (mc_wal m)" "replayable None None (past s (wal_records crc lk (mc_wal m)))"
  shows "machine_ok crc lk (m\<lparr>mc_fence := s\<rparr>)"
proof -
  have vok: "view_ok crc lk (mc_fence m) v" and gap: "no_gap (mc_fence m) v"
    using ok(1) by (simp_all add: durable_view_def)
  have "view_ok crc lk s v"
    using vok s view_records_ok [OF vok] ok(2) by (auto simp: wal_log_def log_ok_def Let_def)
  moreover have "no_gap s v"
  proof -
    have "s \<le> max (last_lsn 0 (view_records v)) (mc_fence m)"
      by (rule before_next [of _ "ws_next_lsn (mc_wal m)"]) (use gap s(2) ok(2) in \<open>simp_all add: no_gap_def\<close>)
    then have "max (last_lsn 0 (view_records v)) s = max (last_lsn 0 (view_records v)) (mc_fence m)"
      using s(1) by (auto simp: max_def)
    moreover have "saturating_pred (sh_base_lsn (lv_header v)) \<le> max (last_lsn 0 (segs_records (lv_older v))) s"
    proof (rule order.trans)
      show "saturating_pred (sh_base_lsn (lv_header v)) \<le> max (last_lsn 0 (segs_records (lv_older v))) (mc_fence m)"
        using gap by (simp add: no_gap_def)
      show "\<dots> \<le> max (last_lsn 0 (segs_records (lv_older v))) s" using s(1) by (rule max.mono [OF order.refl])
    qed
    ultimately show ?thesis using gap by (simp add: no_gap_def)
  qed
  ultimately show ?thesis
    using ok unfolding machine_ok_def by (intro exI [of _ v]) (simp add: durable_view_def)
qed

lemma checkpoint_marker_grows:
  assumes run: "checkpoint_marker crc s (lv_state v) = (res, st')" and vok: "view_ok crc lk fence v"
    and s: "s < ws_next_lsn (lv_state v)"
      "\<And>p. checkpoint_seen None (past fence (wal_records crc lk (lv_state v))) = Some p \<Longrightarrow> p \<le> s"
  shows "\<exists>v' new. lv_state v' = st' \<and> view_ok crc lk fence v' \<and> grows v new v' \<and> counted v new v' \<and>
    (\<forall>r \<in> set new. r = Checkpoint (ws_next_lsn (lv_state v)) s)"
proof (cases "st' = lv_state v")
  case True
  then show ?thesis using vok by (intro exI [of _ v] exI [of _ "[]"]) (simp add: grows_refl counted_def)
next
  case False
  let ?st = "lv_state v"
  let ?l = "ws_next_lsn ?st"
  let ?r = "Checkpoint ?l s"
  obtain bs where bs: "record_encode_into crc ?r = Inr bs" using marker_encodes [of ?r crc] by auto
  have seal: "\<not> sh_sealed (sw_header (ws_active_writer ?st))" using vok by (simp add: wal_log_def Let_def)
  obtain n where n: "lsn_checked_next ?l = Some n"
    and st': "st' = ?st\<lparr>ws_next_lsn := n,
      ws_active_writer := (ws_active_writer ?st)\<lparr>sw_pending := sw_pending (ws_active_writer ?st) @ bs\<rparr>\<rparr>"
    using run False by (auto simp: checkpoint_marker_def obind_def ocheck_def check_healthy_def alloc_and_append_def
        Let_def writer_append_def bs writer_append_frame_Inr [OF seal] split: if_splits option.splits)
  have less: "?l < n" by (rule lsn_next_greater [OF n])
  have log1: "view_ok crc lk fence (v\<lparr>lv_state := ?st\<lparr>ws_next_lsn := n\<rparr>\<rparr>)"
    using wal_log_next [OF vok, of n] less by simp
  have "may_follow lk fence (sh_base_lsn (lv_header v)) (view_records v) ?r"
    using vok s(2) view_records_ok [OF vok] s(1) by (auto simp: may_follow_def wal_log_def Let_def)
  then have "view_ok crc lk fence (v\<lparr>lv_buffered := lv_buffered v @ [?r], lv_state := st'\<rparr>)"
    using wal_log_append [OF _ bs _ _ refl, of lk fence "lv_older v" "lv_header v" "lv_written v" "lv_buffered v"
        "?st\<lparr>ws_next_lsn := n\<rparr>"] log1 less by (simp add: st')
  then show ?thesis
    using less n
    by (intro exI [of _ "v\<lparr>lv_buffered := lv_buffered v @ [?r], lv_state := st'\<rparr>"] exI [of _ "[?r]"])
      (simp add: st' grows_def grows_in_place_def newer_def counted_def)
qed

lemma step_marker_ok:
  assumes ok: "durable_view crc lk (mc_fence m) v" "lv_state v = mc_wal m" "\<forall>i. flusher_ok crc v (mc_flushers m i)"
    and s: "s = mc_fence m" "\<And>p. checkpoint_seen None (past (mc_fence m) (wal_records crc lk (mc_wal m))) = Some p \<Longrightarrow> p \<le> s"
    and run: "checkpoint_marker crc s (mc_wal m) = (res, st')"
  shows "machine_ok crc lk (m\<lparr>mc_wal := st'\<rparr>)"
proof -
  have vok: "view_ok crc lk (mc_fence m) v" using ok(1) by (simp add: durable_view_def)
  have "mc_fence m < ws_next_lsn (lv_state v)" using vok by (simp add: wal_log_def Let_def)
  then obtain v' new where "lv_state v' = st'" "view_ok crc lk (mc_fence m) v'" "grows v new v'" "counted v new v'"
    using checkpoint_marker_grows [OF run [folded ok(2)] vok] s ok(2) by metis
  then show ?thesis using machine_grows [OF ok] by blast
qed

lemma step_truncate_ok:
  assumes ok: "durable_view crc lk (mc_fence m) v" "lv_state v = mc_wal m" "\<forall>i. flusher_ok crc v (mc_flushers m i)"
    and run: "truncate_up_to crc f (mc_wal m) = (res, st')" and f: "f \<le> mc_fence m"
  shows "machine_ok crc lk (m\<lparr>mc_wal := st'\<rparr>)"
proof -
  have vok: "view_ok crc lk (mc_fence m) v" and gap: "no_gap (mc_fence m) v"
    using ok(1) by (simp_all add: durable_view_def)
  obtain j oldest mark where
    st': "st' = (lv_state v)\<lparr>ws_older := drop j (ws_older (lv_state v)), ws_oldest_segment_id := oldest,
      ws_checkpoint_mark := mark\<rparr>"
    and v': "view_ok crc lk (mc_fence m) (v\<lparr>lv_older := drop j (lv_older v), lv_state := st'\<rparr>)"
    and gone: "past (mc_fence m) (segs_records (take j (lv_older v))) = []"
    using truncate_view [OF _ vok f] run ok(2) by metis
  let ?v = "v\<lparr>lv_older := drop j (lv_older v), lv_state := st'\<rparr>"
  have split: "segs_records (lv_older v) = segs_records (take j (lv_older v)) @ segs_records (drop j (lv_older v))"
    by (metis append_take_drop_id concat_append map_append)
  have "max (last_lsn 0 (view_records v)) (mc_fence m) = max (last_lsn 0 (view_records ?v)) (mc_fence m)"
    "max (last_lsn 0 (segs_records (lv_older v))) (mc_fence m) =
      max (last_lsn 0 (segs_records (lv_older ?v))) (mc_fence m)"
    unfolding split
    using truncated_last [OF gone, of "segs_records (drop j (lv_older v)) @ lv_written v @ lv_buffered v"]
      truncated_last [OF gone, of "segs_records (drop j (lv_older v))"] by simp_all
  then have "no_gap (mc_fence m) ?v" using gap unfolding no_gap_def by (simp add: st')
  moreover have same: "synced_upto crc ?v l \<longleftrightarrow> synced_upto crc v l" "written_upto ?v s l \<longleftrightarrow> written_upto v s l" for s l
    by (simp_all add: synced_upto_def written_upto_def st')
  ultimately have "durable_view crc lk (mc_fence m) ?v"
    using ok(1) v' unfolding durable_view_def by (simp add: st')
  moreover have "flusher_ok crc ?v g \<longleftrightarrow> flusher_ok crc v g" for g
    using same by (cases g) (simp_all add: flusher_ok_def st')
  ultimately show ?thesis using ok(3) unfolding machine_ok_def by (intro exI [of _ ?v]) simp
qed

text \<open>Whatever the handle and the flushers do, in whatever order.\<close>

lemma wal_step_ok:
  assumes "wal_step crc lk cfg m m'" and "machine_ok crc lk m"
    and "SEGMENT_HEADER_LEN < wc_segment_target_bytes cfg"
  shows "machine_ok crc lk m'"
  using assms
proof (induction rule: wal_step.induct)
  case (step_commit events m res st')
  then show ?case unfolding machine_ok_def [of crc lk m] by (metis step_commit_ok)
next
  case (step_flush m res st')
  then show ?case unfolding machine_ok_def [of crc lk m] by (metis step_flush_ok)
next
  case (step_flush_begin m i r st')
  then show ?case unfolding machine_ok_def [of crc lk m] by (metis step_flush_begin_ok)
next
  case (step_fsync m i s l)
  then show ?case unfolding machine_ok_def [of crc lk m] by (metis step_fsync_ok)
next
  case (step_flush_end m i l)
  then show ?case unfolding machine_ok_def [of crc lk m] by (metis step_flush_end_ok)
next
  case (step_snapshot m s)
  then show ?case unfolding machine_ok_def [of crc lk m] by (metis step_snapshot_ok)
next
  case (step_marker s m res st')
  then show ?case unfolding machine_ok_def [of crc lk m] by (metis step_marker_ok)
next
  case (step_truncate f m res st')
  then show ?case unfolding machine_ok_def [of crc lk m] by (metis step_truncate_ok)
qed

inductive wal_run :: "(u8 list \<Rightarrow> u32) \<Rightarrow> (string \<Rightarrow> string option) \<Rightarrow> wal_config \<Rightarrow> machine \<Rightarrow> machine \<Rightarrow> bool"
  for crc lk cfg where
  run_refl: "wal_run crc lk cfg m m"
| run_step: "wal_run crc lk cfg m m' \<Longrightarrow> wal_step crc lk cfg m' m'' \<Longrightarrow> wal_run crc lk cfg m m''"

lemma wal_run_ok:
  assumes "wal_run crc lk cfg m m'" and "machine_ok crc lk m"
    and "SEGMENT_HEADER_LEN < wc_segment_target_bytes cfg"
  shows "machine_ok crc lk m'"
  using assms by (induction rule: wal_run.induct) (auto intro: wal_step_ok)

end
