(* ===== verification/Wal_Recovery.thy ===== *)
theory Wal_Recovery
  imports Wal_Durability
begin

text \<open>
  Opening the log again after a crash: the image of the directory, and the handle and events that the
  open returns.
\<close>

section \<open>The image of a segment\<close>

text \<open>The position behind the last frame that reads.\<close>

function end_of_frames :: "(u8 list \<Rightarrow> u32) \<Rightarrow> segment_reader \<Rightarrow> nat" where
  "end_of_frames crc sr = (case segment_read_frame crc sr of
      Inr (Some raw, sr') \<Rightarrow> end_of_frames crc sr'
    | _ \<Rightarrow> sr_position sr)"
  by pat_completeness auto

termination
proof (relation "measure (\<lambda>(crc, sr). length (sr_file sr) - sr_position sr)", goal_cases)
  case (2 crc sr p ro sr' raw)
  then have "segment_read_frame crc sr = Inr (Some raw, sr')" by simp
  from segment_read_frame_progress [OF this] show ?case by simp
qed simp

declare end_of_frames.simps [simp del]

lemma end_of_frames_written:
  assumes "wseq (map (record_encode_into crc) rs) = Inr bs"
    and "sr_file sr = before @ bs @ tail" and "sr_position sr = length before"
    and "tail = [] \<or> (\<exists>e. raw_record_read crc tail = Inl e)"
  shows "end_of_frames crc sr = length before + length bs"
  using assms
proof (induction rs arbitrary: bs before sr)
  case Nil
  then show ?case
    by (subst end_of_frames.simps) (auto simp: segment_read_frame_def raw_record_read_def read_exact_or_eof_def)
next
  case (Cons r rs)
  from Cons.prems(1) obtain a b where a: "record_encode_into crc r = Inr a"
    and b: "wseq (map (record_encode_into crc) rs) = Inr b" and bs: "bs = a @ b" by auto
  obtain p where p: "encode_payload_into r = Inr p" "25 + length p \<le> MAX_RECORD_LEN"
    and a_eq: "a = framed crc r p" using a by (auto simp: record_encode_into_Inr)
  let ?sr = "sr\<lparr>sr_position := length before + (25 + length p)\<rparr>"
  have "segment_read_frame crc sr = Inr (Some (raw_of crc r p), ?sr)"
    by (rule segment_read_written [OF _ Cons.prems(3) p(2)]) (simp add: Cons.prems(2) bs a_eq)
  moreover have "end_of_frames crc ?sr = length (before @ a) + length b"
    by (rule Cons.IH [OF b]) (use Cons.prems in \<open>simp_all add: bs a_eq\<close>)
  ultimately show ?case by (subst end_of_frames.simps) (simp add: bs a_eq)
qed

text \<open>
  Nothing inside the bytes behind the last frame passes for a frame: a crash that cuts a record leaves
  such an image unless the record's own payload embeds a frame with a matching checksum.
\<close>

definition clean_tail :: "(u8 list \<Rightarrow> u32) \<Rightarrow> u8 list \<Rightarrow> bool" where
  "clean_tail crc img \<longleftrightarrow> (case segment_reader_open crc img of Inl _ \<Rightarrow> True
     | Inr sr \<Rightarrow> \<forall>at \<in> {Suc (end_of_frames crc sr)..<length img}. \<not> is_valid_frame_at crc (drop at img) 0)"

lemma valid_frame_after: "is_valid_frame_at crc bs after \<Longrightarrow> is_valid_frame_at crc bs 0"
  by (auto simp: is_valid_frame_at_def Let_def not_le word_gt_0 split: if_splits sum.splits)

lemma clean_tail_torn:
  assumes clean: "clean_tail crc (segment_header_encode crc h @ bs @ tail)"
    and bs: "wseq (map (record_encode_into crc) rs) = Inr bs"
    and h: "sh_format_version h = SEGMENT_FORMAT_VERSION"
    and tail: "\<exists>e. raw_record_read crc tail = Inl e"
  shows "torn_tail crc after tail"
proof -
  let ?image = "segment_header_encode crc h @ bs @ tail"
  let ?sr = "\<lparr>sr_file = ?image, sr_header = h, sr_position = SEGMENT_HEADER_LEN\<rparr>"
  have sr: "segment_reader_open crc ?image = Inr ?sr" by (rule segment_open_encoded [OF h])
  have e: "end_of_frames crc ?sr = 32 + length bs"
    using end_of_frames_written [OF bs, of ?sr "segment_header_encode crc h" tail] tail
    by (simp add: SEGMENT_HEADER_LEN_def)
  have "\<not> is_valid_frame_at crc (drop at tail) after" if "at \<in> {1..<length tail}" for at
  proof
    assume "is_valid_frame_at crc (drop at tail) after"
    then have "is_valid_frame_at crc (drop (32 + length bs + at) ?image) 0"
      by (simp add: valid_frame_after)
    moreover have "32 + length bs + at \<in> {Suc (end_of_frames crc ?sr)..<length ?image}" using that e by simp
    ultimately show False using clean unfolding clean_tail_def sr sum.case by blast
  qed
  with tail show ?thesis by (simp add: torn_tail_def)
qed

text \<open>A cut anywhere in a run of frames leaves whole frames and a rest that does not read.\<close>

lemma cut_frames:
  assumes "wseq (map (record_encode_into crc) rs) = Inr bs"
  shows "\<exists>rs1 rs2 bs1 tail. rs = rs1 @ rs2 \<and> wseq (map (record_encode_into crc) rs1) = Inr bs1 \<and>
    take n bs = bs1 @ tail \<and> (tail = [] \<or> (\<exists>e. raw_record_read crc tail = Inl e))"
  using assms
proof (induction rs arbitrary: bs n)
  case Nil
  then show ?case by simp
next
  case (Cons r rs)
  from Cons.prems(1) obtain a b where a: "record_encode_into crc r = Inr a"
    and b: "wseq (map (record_encode_into crc) rs) = Inr b" and bs: "bs = a @ b" by auto
  show ?case
  proof (cases "n < length a")
    case True
    show ?thesis
    proof (cases "n = 0")
      case True
      then show ?thesis by (intro exI [of _ "[]"] exI [of _ "r # rs"]) simp
    next
      case False
      obtain p where "a = framed crc r p" "25 + length p \<le> MAX_RECORD_LEN"
        using a by (auto simp: record_encode_into_Inr)
      then have "\<exists>e. raw_record_read crc (take n a) = Inl e"
        using take_framed [of n p crc r] True False by auto
      then show ?thesis using True
        by (intro exI [of _ "[]"] exI [of _ "r # rs"] exI [of _ "[]"] exI [of _ "take n a"]) (simp add: bs)
    qed
  next
    case False
    obtain rs1 rs2 bs1 tail where IH: "rs = rs1 @ rs2" "wseq (map (record_encode_into crc) rs1) = Inr bs1"
      "take (n - length a) b = bs1 @ tail" "tail = [] \<or> (\<exists>e. raw_record_read crc tail = Inl e)"
      using Cons.IH [OF b] by blast
    then show ?thesis using False a
      by (intro exI [of _ "r # rs1"] exI [of _ rs2] exI [of _ "a @ bs1"] exI [of _ tail]) (simp add: bs)
  qed
qed

section \<open>Opening what the crash left\<close>

lemma base_below_next:
  "lsn_checked_next m = Some n \<Longrightarrow> saturating_pred b \<le> m \<Longrightarrow> b \<le> n"
  using lsn_next_unat [of m n]
  by (cases "b = 0") (auto simp: saturating_pred_def word_le_nat_alt unat_minus_one)

text \<open>The truncation of a torn tail.\<close>

lemma truncate_image:
  assumes "writer_open_at crc f off = Inr w" and "off \<le> length f"
  shows "writer_truncate_to off w = Inr (w\<lparr>sw_file := take off f, sw_synced := off\<rparr>)"
  using assms
  by (auto simp: writer_open_at_def writer_truncate_to_def writer_flush_buffer_def set_len_def writer_sync_def
      split: if_splits)

lemma open_at_image:
  assumes "sh_format_version h = SEGMENT_FORMAT_VERSION" and "\<not> sh_sealed h" and "n \<le> length bs"
  shows "writer_open_at crc (segment_header_encode crc h @ bs) (32 + n) = Inr
    \<lparr>sw_file = segment_header_encode crc h @ bs, sw_synced = 0, sw_header = h, sw_bytes_written = 32 + n, sw_pending = []\<rparr>"
  using assms segment_header_decode_encode [OF assms(1), of crc]
  by (simp add: writer_open_at_def SEGMENT_HEADER_LEN_def)

lemma reopen_ok:
  assumes older: "log_files crc os [] (map snd es)" and bs: "wseq (map (record_encode_into crc) rs) = Inr bs"
    and img: "img = segment_header_encode crc h @ bs @ tail"
    and ids: "check_segment_ids_contiguous (map fst (es @ [(i, img)])) = Inr ()"
    and log: "log_ok crc lk fence (newest os h rs) tail" and unsealed: "\<not> sh_sealed h"
    and base: "saturating_pred (sh_base_lsn h) \<le> max (last_lsn 0 (segs_records os)) fence"
    and n: "lsn_checked_next (max (last_lsn 0 (segs_records os @ rs)) fence) = Some n"
  shows "\<exists>v. wal_open crc lk (es @ [(i, img)]) fence = Inr (lv_state v, committed (past fence (segs_records os @ rs))) \<and>
    view_ok crc lk fence v \<and> no_gap fence v \<and> view_records v = segs_records os @ rs \<and> lv_buffered v = [] \<and>
    ws_next_lsn (lv_state v) = n \<and> ws_durable_lsn (lv_state v) = n - 1 \<and> \<not> ws_bg_failure (lv_state v)"
proof -
  let ?files = "es @ [(i, img)]"
  have ver: "sh_format_version h = SEGMENT_FORMAT_VERSION" using log by (simp add: log_ok_def)
  have files: "log_files crc (newest os h rs) tail (map snd ?files)"
    using older bs img by (simp add: log_files_snoc)
  obtain out c where replay: "replay_segments crc lk (collect_step lk) ?files fence False collect_default = Inr (out, c)"
    and events: "ce_events c = committed (past fence (segs_records os @ rs))"
    and out: "ro_max_lsn out = last_lsn 0 (segs_records os @ rs)" "ro_corrupt_cut out = None"
      "ro_last_good_offset out = length img - length tail"
      "torn_at (length ?files - 1) (ro_last_good_offset out) tail (ro_torn_tail out)"
    using log_replays [OF log files ids, of False] by auto
  let ?good = "32 + length bs"
  have good: "ro_last_good_offset out = ?good" using out(3) by (simp add: img)
  have sr: "segment_reader_open crc img = Inr \<lparr>sr_file = img, sr_header = h, sr_position = SEGMENT_HEADER_LEN\<rparr>"
    unfolding img by (rule segment_open_encoded [OF ver])
  let ?w = "\<lparr>sw_file = img, sw_synced = 0, sw_header = h, sw_bytes_written = ?good, sw_pending = []\<rparr>"
  have w: "writer_open_at crc img ?good = Inr ?w"
    using open_at_image [OF ver unsealed, of "length bs" "bs @ tail" crc] by (simp add: img)
  define synced where "synced = (if tail = [] then 0 else ?good)"
  let ?w' = "?w\<lparr>sw_file := segment_header_encode crc h @ bs, sw_synced := synced\<rparr>"
  have torn: "(case ro_torn_tail out of None \<Rightarrow> Inr ?w
      | Some t \<Rightarrow> if tt_segment t \<noteq> length ?files - 1 then Inl (Malformed ''torn tail found in sealed segment'')
          else writer_truncate_to (tt_last_good_offset t) ?w) = Inr ?w'"
    using out(4) truncate_image [OF w] by (auto simp: torn_at_def good img synced_def split: option.splits)
  let ?st = "\<lparr>ws_next_lsn = n, ws_durable_lsn = n - 1, ws_active_segment_id = i, ws_active_writer = ?w',
    ws_oldest_segment_id = fst (hd ?files), ws_older = es, ws_bg_failure = False, ws_appended_bytes = 0,
    ws_checkpoint_mark = 0\<rparr>"
  have discard: "discard_unborn_segment crc ?files = ?files"
    by (simp add: discard_unborn_segment_def sr)
  have opened: "wal_open crc lk ?files fence = Inr (?st, committed (past fence (segs_records os @ rs)))"
    using n out(1,2) unsealed w torn events
    by (simp add: wal_open_def open_replaying_with_def discard open_existing_def replay next_lsn_after_def sr good)
  have "log_ok crc lk fence (newest os h (rs @ [])) []"
    using log by (auto simp: log_ok_def)
  moreover have "\<forall>r \<in> set (segs_records os @ rs @ []). record_lsn r < n"
  proof
    fix r assume "r \<in> set (segs_records os @ rs @ [])"
    then have "record_lsn r \<le> last_lsn 0 (segs_records os @ rs)"
      using sorted_last_lsn [of "segs_records os @ rs" r] log by (simp add: log_ok_def)
    then show "record_lsn r < n"
      using lsn_next_greater [OF n] by (metis max.cobounded1 order.strict_trans1)
  qed
  moreover have "sh_base_lsn h \<le> n"
  proof (rule base_below_next [OF n])
    have "last_lsn 0 (segs_records os) \<le> last_lsn 0 (segs_records os @ rs)"
      by (rule last_lsn_mono) (use log in \<open>simp add: log_ok_def\<close>)
    with base show "saturating_pred (sh_base_lsn h) \<le> max (last_lsn 0 (segs_records os @ rs)) fence"
      by (meson max.mono order.refl order.trans)
  qed
  moreover have "fence < n" using lsn_next_greater [OF n] by (metis max.cobounded2 order.strict_trans1)
  ultimately have "wal_log crc lk fence os h rs [] ?st"
    using older bs ids unsealed
    by (simp add: wal_log_def wal_files_def log_files_snoc synced_def)
  then show ?thesis
    using opened n base
    by (intro exI [of _ "\<lparr>lv_older = os, lv_header = h, lv_written = rs, lv_buffered = [], lv_state = ?st\<rparr>"])
      (simp add: no_gap_def)
qed

section \<open>Crashes\<close>

text \<open>
  What a crash leaves of the directory: of the active segment its first \<open>n\<close> bytes, at least those an
  \<open>fsync\<close> covered; the sealed ones were synced before their successor was created.
\<close>

definition crash_image :: "nat \<Rightarrow> wal_state \<Rightarrow> segment_files" where
  "crash_image n st = ws_older st @ [(ws_active_segment_id st, take n (sw_file (ws_active_writer st)))]"

lemma committed_append: "committed (rs @ rs') = committed rs @ committed_after rs rs'"
proof (induction rs' rule: rev_induct)
  case (snoc r rs')
  then show ?case using committed_snoc [of "rs @ rs'" r] committed_after_snoc [of rs rs' r] by simp
qed simp

lemma next_below:
  assumes "lsn_checked_next m = Some n" and "k \<le> m"
  shows "\<exists>n'. lsn_checked_next k = Some n'"
  using assms by (simp add: lsn_checked_next_Some word_le_nat_alt)

lemma crash_recovers:
  assumes dur: "durable_view crc lk fence v" and n: "view_synced v \<le> n"
    and clean: "clean_tail crc (take n (sw_file (ws_active_writer (lv_state v))))"
  shows "\<exists>v' rest. wal_open crc lk (crash_image n (lv_state v)) fence =
      Inr (lv_state v', committed (past fence (view_records v'))) \<and>
    view_ok crc lk fence v' \<and> no_gap fence v' \<and> view_records v = view_records v' @ rest \<and>
    (\<forall>r \<in> set rest. ws_durable_lsn (lv_state v) < record_lsn r)"
proof -
  let ?st = "lv_state v" and ?os = "lv_older v" and ?h = "lv_header v"
  let ?file = "sw_file (ws_active_writer ?st)"
  have ok: "view_ok crc lk fence v" and gap: "no_gap fence v" and sync: "synced_upto crc v (ws_durable_lsn ?st)"
    using dur by (simp_all add: durable_view_def)
  have log: "log_ok crc lk fence (newest ?os ?h (lv_written v @ lv_buffered v)) []"
    and unsealed: "\<not> sh_sealed ?h" using ok by (simp_all add: wal_log_def Let_def)
  obtain bs where bs: "wseq (map (record_encode_into crc) (lv_written v)) = Inr bs"
    "?file = segment_header_encode crc ?h @ bs" using wal_log_file(1) [OF ok] by blast
  obtain rs1 rs2 bs1 where rs: "lv_written v = rs1 @ rs2" "wseq (map (record_encode_into crc) rs1) = Inr bs1"
    "SEGMENT_HEADER_LEN + length bs1 \<le> view_synced v"
    "\<forall>r \<in> set (rs2 @ lv_buffered v). ws_durable_lsn ?st < record_lsn r"
    using sync by (auto simp: synced_upto_def)
  obtain bs2 where bs2: "wseq (map (record_encode_into crc) rs2) = Inr bs2" "bs = bs1 @ bs2"
    using bs(1) rs(1,2) by (auto simp: wseq_append_Inr)
  obtain a b abs tail where cut': "rs2 = a @ b" "wseq (map (record_encode_into crc) a) = Inr abs"
    "take (n - (32 + length bs1)) bs2 = abs @ tail" "tail = [] \<or> (\<exists>e. raw_record_read crc tail = Inl e)"
    using cut_frames [OF bs2(1)] by blast
  let ?rs = "rs1 @ a"
  have written: "wseq (map (record_encode_into crc) ?rs) = Inr (bs1 @ abs)"
    using rs(2) cut'(2) by (auto simp: wseq_append_Inr)
  have img: "take n ?file = segment_header_encode crc ?h @ (bs1 @ abs) @ tail"
    using n rs(3) cut'(3) by (simp add: bs(2) bs2(2) SEGMENT_HEADER_LEN_def)
  have "tail = [] \<or> torn_tail crc (last_lsn 0 (segs_records ?os @ ?rs)) tail"
    using clean_tail_torn [OF clean [unfolded img] written header_version [OF ok]] cut'(4) by blast
  then have log': "log_ok crc lk fence (newest ?os ?h ?rs) tail"
    using log_ok_prefix [of crc lk fence ?os ?h ?rs "b @ lv_buffered v"] log unsealed
    by (auto simp: rs(1) cut'(1))
  have split: "view_records v = (segs_records ?os @ ?rs) @ b @ lv_buffered v" by (simp add: rs(1) cut'(1))
  have "last_lsn 0 (segs_records ?os @ ?rs) \<le> last_lsn 0 (view_records v)"
    unfolding split by (rule last_lsn_mono) (use log in \<open>simp add: log_ok_def rs(1) cut'(1)\<close>)
  then obtain n' where n': "lsn_checked_next (max (last_lsn 0 (segs_records ?os @ ?rs)) fence) = Some n'"
    using next_below [of "max (last_lsn 0 (view_records v)) fence"] gap
    by (metis max.mono no_gap_def order.refl)
  have ids: "check_segment_ids_contiguous (map fst (ws_older ?st @ [(ws_active_segment_id ?st, take n ?file)])) = Inr ()"
    using ok by (simp add: wal_log_def wal_files_def Let_def)
  have "saturating_pred (sh_base_lsn ?h) \<le> max (last_lsn 0 (segs_records ?os)) fence"
    using gap by (simp add: no_gap_def)
  from reopen_ok [OF wal_log_file(2) [OF ok] written img ids log' unsealed this n']
  obtain v' where v': "wal_open crc lk (crash_image n ?st) fence =
      Inr (lv_state v', committed (past fence (segs_records ?os @ ?rs)))"
    "view_ok crc lk fence v'" "no_gap fence v'" "view_records v' = segs_records ?os @ ?rs"
    unfolding crash_image_def by blast
  show ?thesis
  proof (intro exI conjI)
    show "wal_open crc lk (crash_image n ?st) fence = Inr (lv_state v', committed (past fence (view_records v')))"
      using v'(1) unfolding v'(4) .
    show "view_records v = view_records v' @ b @ lv_buffered v" using split unfolding v'(4) .
    show "\<forall>r \<in> set (b @ lv_buffered v). ws_durable_lsn ?st < record_lsn r" using rs(4) cut'(1) by auto
  qed (use v' in auto)
qed

section \<open>Durability\<close>

definition fresh_machine :: "(u8 list \<Rightarrow> u32) \<Rightarrow> lsn \<Rightarrow> machine" where
  "fresh_machine crc fence = \<lparr>mc_wal = fresh_state crc (lsn_next fence), mc_flushers = \<lambda>_. Idle, mc_fence = fence\<rparr>"

lemma fresh_durable:
  assumes "lsn_checked_next fence = Some base"
  shows "durable_view crc lk fence \<lparr>lv_older = [], lv_header = segment_header_new base, lv_written = [],
    lv_buffered = [], lv_state = fresh_state crc base\<rparr>"
proof -
  have "base - 1 = fence" "fence < base"
    using assms lsn_next_greater [OF assms] by (auto simp: lsn_checked_next_Some)
  then show ?thesis
    using fresh_ok [OF assms, of crc lk] saturating_pred_next [OF assms] assms
    by (simp add: durable_view_def no_gap_def synced_upto_def fresh_state_def segment_header_new_def
        writer_create_def SEGMENT_HEADER_LEN_def Let_def max_def)
qed

lemma fresh_machine_ok:
  "lsn_checked_next fence = Some base \<Longrightarrow> machine_ok crc lk (fresh_machine crc fence)"
  unfolding machine_ok_def fresh_machine_def
  by (intro exI conjI, rule_tac [2] fresh_durable) (simp_all add: lsn_next_def flusher_ok_def)

lemma machine_crash:
  assumes "machine_ok crc lk m" and "sw_synced (ws_active_writer (mc_wal m)) \<le> n"
    and "clean_tail crc (take n (sw_file (ws_active_writer (mc_wal m))))"
  shows "\<exists>st rest lost. wal_open crc lk (crash_image n (mc_wal m)) (mc_fence m) =
      Inr (st, committed_events crc lk (mc_fence m) st) \<and> wal_ok crc lk (mc_fence m) st \<and>
    wal_records crc lk (mc_wal m) = wal_records crc lk st @ rest \<and>
    (\<forall>r \<in> set rest. ws_durable_lsn (mc_wal m) < record_lsn r) \<and>
    committed_events crc lk (mc_fence m) (mc_wal m) = committed_events crc lk (mc_fence m) st @ lost"
proof -
  obtain v where v: "lv_state v = mc_wal m" "durable_view crc lk (mc_fence m) v"
    using assms(1) by (auto simp: machine_ok_def)
  have "view_synced v \<le> n" "clean_tail crc (take n (sw_file (ws_active_writer (lv_state v))))"
    using assms(2,3) v(1) by simp_all
  from crash_recovers [OF v(2) this] obtain v' rest where
    v': "wal_open crc lk (crash_image n (lv_state v)) (mc_fence m) =
        Inr (lv_state v', committed (past (mc_fence m) (view_records v')))"
    "view_ok crc lk (mc_fence m) v'" "view_records v = view_records v' @ rest"
    "\<forall>r \<in> set rest. ws_durable_lsn (lv_state v) < record_lsn r"
    by blast
  have recs: "wal_records crc lk (lv_state v') = view_records v'" "wal_records crc lk (mc_wal m) = view_records v"
    using view_records_ok [OF v'(2)] view_records_ok [of crc lk "mc_fence m" v] v by (simp_all add: durable_view_def)
  show ?thesis
  proof (intro exI conjI)
    show "wal_open crc lk (crash_image n (mc_wal m)) (mc_fence m) =
        Inr (lv_state v', committed_events crc lk (mc_fence m) (lv_state v'))"
      using v'(1) recs(1) v(1) by (simp add: committed_events_def)
    show "wal_ok crc lk (mc_fence m) (lv_state v')" using v'(2) by (auto simp: wal_ok_def)
    show "wal_records crc lk (mc_wal m) = wal_records crc lk (lv_state v') @ rest"
      unfolding recs by (fact v'(3))
    show "\<forall>r \<in> set rest. ws_durable_lsn (mc_wal m) < record_lsn r" using v'(4) v(1) by simp
    show "committed_events crc lk (mc_fence m) (mc_wal m) = committed_events crc lk (mc_fence m) (lv_state v') @
        committed_after (past (mc_fence m) (view_records v')) (past (mc_fence m) rest)"
      unfolding committed_events_def recs v'(3) filter_append committed_append ..
  qed
qed

text \<open>
  C1. Durability, under three conditions: the segment target exceeds the segment header (32 bytes); in the
  run (commits with rotations, flushes, interleaved \<open>fsync\<close>s, snapshots, markers, truncations) a snapshot
  falls between transactions and each checkpoint marker names the current snapshot and is not below an
  earlier one in the log; and no record that the crash tears embeds a valid frame (\<open>clean_tail\<close>). Then a
  crash that keeps at least the synced bytes leaves a directory that opens, the handle is well formed, no
  record up to the durable LSN is lost, and the events recovered are a prefix of those committed. The code
  enforces none of the three: \<open>Wal_Limits\<close> has runs without the first and the second that do not open.
\<close>

theorem crash_keeps_durable:
  assumes "wal_run crc lk cfg (fresh_machine crc fence) m" and "lsn_checked_next fence = Some base"
    and "SEGMENT_HEADER_LEN < wc_segment_target_bytes cfg"
    and "sw_synced (ws_active_writer (mc_wal m)) \<le> n"
    and "clean_tail crc (take n (sw_file (ws_active_writer (mc_wal m))))"
  shows "\<exists>st rest lost. wal_open crc lk (crash_image n (mc_wal m)) (mc_fence m) =
      Inr (st, committed_events crc lk (mc_fence m) st) \<and> wal_ok crc lk (mc_fence m) st \<and>
    wal_records crc lk (mc_wal m) = wal_records crc lk st @ rest \<and>
    (\<forall>r \<in> set rest. ws_durable_lsn (mc_wal m) < record_lsn r) \<and>
    committed_events crc lk (mc_fence m) (mc_wal m) = committed_events crc lk (mc_fence m) st @ lost"
  by (rule machine_crash [OF wal_run_ok [OF assms(1) fresh_machine_ok [OF assms(2)] assms(3)] assms(4,5)])

text \<open>The image of an active segment that lost nothing.\<close>

lemma whole_image_clean:
  assumes "view_ok crc lk fence v" and "length (sw_file (ws_active_writer (lv_state v))) \<le> n"
  shows "clean_tail crc (take n (sw_file (ws_active_writer (lv_state v))))"
proof -
  obtain bs where bs: "wseq (map (record_encode_into crc) (lv_written v)) = Inr bs"
    "sw_file (ws_active_writer (lv_state v)) = segment_header_encode crc (lv_header v) @ bs"
    using wal_log_file(1) [OF assms(1)] by blast
  have "end_of_frames crc \<lparr>sr_file = segment_header_encode crc (lv_header v) @ bs,
      sr_header = lv_header v, sr_position = SEGMENT_HEADER_LEN\<rparr> = 32 + length bs"
    using end_of_frames_written [OF bs(1), of _ "segment_header_encode crc (lv_header v)" "[]"]
    by (simp add: SEGMENT_HEADER_LEN_def)
  then show ?thesis
    using assms(2) bs(2) segment_open_encoded [OF header_version [OF assms(1)], of crc bs]
    by (simp add: clean_tail_def)
qed

text \<open>A run that commits one transaction.\<close>

abbreviation sample_crc :: "u8 list \<Rightarrow> u32" where
  "sample_crc \<equiv> \<lambda>_. 7"

abbreviation sample_lk :: "string \<Rightarrow> string option" where
  "sample_lk \<equiv> \<lambda>_. None"

lemma run_commits_one:
  assumes e: "event_fits e" "wf_event sample_lk e"
  shows "\<exists>st. wal_run sample_crc sample_lk sample_config (fresh_machine sample_crc 0)
      ((fresh_machine sample_crc 0)\<lparr>mc_wal := st\<rparr>) \<and>
    machine_ok sample_crc sample_lk ((fresh_machine sample_crc 0)\<lparr>mc_wal := st\<rparr>) \<and>
    \<not> ws_bg_failure st \<and> committed_events sample_crc sample_lk 0 st = [e]"
proof -
  let ?fresh = "fresh_machine sample_crc 0"
  have fresh: "mc_wal ?fresh = fresh_state sample_crc 1" by (simp add: fresh_machine_def lsn_next_def)
  let ?v = "\<lparr>lv_older = [], lv_header = segment_header_new 1, lv_written = [], lv_buffered = [],
    lv_state = fresh_state sample_crc 1\<rparr>"
  have ok: "view_ok sample_crc sample_lk 0 ?v" by (rule fresh_ok) simp
  have target: "SEGMENT_HEADER_LEN < wc_segment_target_bytes sample_config"
    by (simp add: sample_config_def SEGMENT_HEADER_LEN_def)
  have wf: "list_all (wf_event sample_lk) [e]" using e by simp
  obtain c st where run: "commit_tx_events sample_crc sample_config [e] (fresh_state sample_crc 1)
      = (Inr (Some c), st)"
    using commit_succeeds_view [OF ok, of "[e]" sample_config] target e
    by (auto simp: fresh_state_def)
  have "wal_step sample_crc sample_lk sample_config ?fresh (?fresh\<lparr>mc_wal := st\<rparr>)"
    by (rule step_commit [of _ "[e]"]) (use run wf in \<open>simp_all add: fresh fresh_state_def\<close>)
  from run_step [OF run_refl this]
  have steps: "wal_run sample_crc sample_lk sample_config ?fresh (?fresh\<lparr>mc_wal := st\<rparr>)" .
  have "\<not> ws_bg_failure st"
    using commit_grows [of sample_crc sample_config "[e]" ?v "Inr (Some c)" st sample_lk 0] run ok target wf
    by (auto simp: grows_def fresh_state_def)
  moreover have "committed_events sample_crc sample_lk 0 st = [e]"
    using commit_atomic_view [of sample_crc sample_config "[e]" ?v "Inr (Some c)" st sample_lk 0]
      run ok target sample_committed wf by simp
  ultimately show ?thesis using steps wal_run_ok [OF steps fresh_machine_ok target] by auto
qed

lemma sample_run:
  "\<exists>st. wal_run sample_crc sample_lk sample_config (fresh_machine sample_crc 0)
      ((fresh_machine sample_crc 0)\<lparr>mc_wal := st\<rparr>) \<and>
    machine_ok sample_crc sample_lk ((fresh_machine sample_crc 0)\<lparr>mc_wal := st\<rparr>) \<and>
    \<not> ws_bg_failure st \<and> committed_events sample_crc sample_lk 0 st = [DeleteNode 4]"
  by (rule run_commits_one) (simp_all add: sample_event_ok)

lemma machine_whole_image:
  assumes "machine_ok crc lk m" and "n = length (sw_file (ws_active_writer (mc_wal m)))"
  shows "clean_tail crc (take n (sw_file (ws_active_writer (mc_wal m))))"
    and "sw_synced (ws_active_writer (mc_wal m)) \<le> n"
proof -
  obtain v where v: "lv_state v = mc_wal m" "view_ok crc lk (mc_fence m) v"
    using assms(1) by (auto simp: machine_ok_def durable_view_def)
  show "clean_tail crc (take n (sw_file (ws_active_writer (mc_wal m))))"
    using whole_image_clean [OF v(2), of n] v(1) assms(2) by simp
  show "sw_synced (ws_active_writer (mc_wal m)) \<le> n" using v assms(2) by (simp add: wal_log_def Let_def)
qed

theorem crash_keeps_durable_witness:
  "\<exists>m st. wal_run sample_crc sample_lk sample_config (fresh_machine sample_crc 0) m \<and>
     wal_open sample_crc sample_lk (crash_image (length (sw_file (ws_active_writer (mc_wal m)))) (mc_wal m)) 0 =
       Inr (st, committed_events sample_crc sample_lk 0 st) \<and>
     [DeleteNode 4] = committed_events sample_crc sample_lk 0 (mc_wal m)"
proof -
  obtain st where run: "wal_run sample_crc sample_lk sample_config (fresh_machine sample_crc 0)
      ((fresh_machine sample_crc 0)\<lparr>mc_wal := st\<rparr>)"
    and ok: "machine_ok sample_crc sample_lk ((fresh_machine sample_crc 0)\<lparr>mc_wal := st\<rparr>)" and ev: "committed_events sample_crc sample_lk 0 st = [DeleteNode 4]"
    using sample_run by blast
  let ?m = "(fresh_machine sample_crc 0)\<lparr>mc_wal := st\<rparr>"
  have "mc_fence ?m = 0" "SEGMENT_HEADER_LEN < wc_segment_target_bytes sample_config"
    by (simp_all add: fresh_machine_def sample_config_def SEGMENT_HEADER_LEN_def)
  with crash_keeps_durable [OF run lsn_next_0 this(2) machine_whole_image(2,1) [OF ok refl]] run ev
  show ?thesis by (intro exI [of _ ?m]) auto
qed

text \<open>
  C10. With a segment target above the segment header (32 bytes), every state is well formed that a run
  reaches in which snapshots fall between transactions and checkpoint markers are in order (each names the
  current snapshot, none is below an earlier one in the log): the segments and the buffer hold one valid
  log, LSNs are handed out above everything held and above the snapshot, and the durable LSN never passes
  them. The code itself checks neither the target nor the order of the markers (\<open>Wal_Limits\<close>).
\<close>

theorem reachable_log_ok:
  assumes "wal_run crc lk cfg (fresh_machine crc fence) m" and "lsn_checked_next fence = Some base"
    and "SEGMENT_HEADER_LEN < wc_segment_target_bytes cfg"
  shows "wal_ok crc lk (mc_fence m) (mc_wal m) \<and> ws_durable_lsn (mc_wal m) < ws_next_lsn (mc_wal m) \<and>
    mc_fence m < ws_next_lsn (mc_wal m) \<and>
    (\<forall>r \<in> set (wal_records crc lk (mc_wal m)). record_lsn r < ws_next_lsn (mc_wal m))"
proof -
  obtain v where v: "lv_state v = mc_wal m" "durable_view crc lk (mc_fence m) v"
    using wal_run_ok [OF assms(1) fresh_machine_ok [OF assms(2)] assms(3)] by (auto simp: machine_ok_def)
  have ok: "view_ok crc lk (mc_fence m) v" using v(2) by (simp add: durable_view_def)
  then have "\<forall>r \<in> set (view_records v). record_lsn r < ws_next_lsn (lv_state v)" "mc_fence m < ws_next_lsn (lv_state v)"
    by (simp_all add: wal_log_def Let_def)
  with v ok view_records_ok [OF ok] show ?thesis by (auto simp: durable_view_def wal_ok_def)
qed

theorem reachable_log_ok_witness:
  "\<exists>m. wal_run sample_crc sample_lk sample_config (fresh_machine sample_crc 0) m \<and>
     committed_events sample_crc sample_lk 0 (mc_wal m) = [DeleteNode 4] \<and>
     wal_ok sample_crc sample_lk (mc_fence m) (mc_wal m)"
proof -
  obtain st where run: "wal_run sample_crc sample_lk sample_config (fresh_machine sample_crc 0)
      ((fresh_machine sample_crc 0)\<lparr>mc_wal := st\<rparr>)"
    and ev: "committed_events sample_crc sample_lk 0 st = [DeleteNode 4]"
    using sample_run by blast
  have "SEGMENT_HEADER_LEN < wc_segment_target_bytes sample_config"
    by (simp add: sample_config_def SEGMENT_HEADER_LEN_def)
  from reachable_log_ok [OF run lsn_next_0 this] run ev show ?thesis by (intro exI conjI) auto
qed

section \<open>Forcing an \<open>fsync\<close>\<close>

lemma force_fsync_view:
  assumes run: "wal_force_fsync (lv_state v) = (Inr (), st')" and dur: "durable_view crc lk fence v"
  shows "\<exists>v'. lv_state v' = st' \<and> durable_view crc lk fence v' \<and> view_records v' = view_records v \<and>
    ws_durable_lsn st' \<ge> saturating_pred (ws_next_lsn st')"
proof -
  let ?m = "\<lparr>mc_wal = lv_state v, mc_flushers = \<lambda>_. Idle, mc_fence = fence\<rparr>"
  have vok: "view_ok crc lk fence v" using dur by (simp add: durable_view_def)
  let ?v = "flushed_view v"
  let ?l = "saturating_pred (ws_next_lsn (lv_state ?v))"
  note flushed = flushed_view_ok [OF vok]
  have dur1: "durable_view crc lk fence ?v" by (rule durable_grows [OF dur flushed(2,3,1)])
  have recs: "view_records ?v = view_records v" using grows_records [OF flushed(2)] by simp
  show ?thesis
  proof (cases "ws_durable_lsn (lv_state ?v) \<ge> ?l")
    case True
    then have "st' = lv_state ?v"
      using run by (auto simp: wal_force_fsync_def obind_def ocheck_def check_healthy_def flush_inner_def
          flush_begin_def oret_def Let_def flushed_view_def split: if_splits)
    then show ?thesis using dur1 recs True by (intro exI [of _ ?v]) simp
  next
    case False
    let ?s = "ws_active_segment_id (lv_state ?v)"
    let ?v2 = "synced_view ?s ?v"
    have st': "st' = flush_end ?l (lv_state ?v2)"
      using run False by (auto simp: wal_force_fsync_def obind_def ocheck_def check_healthy_def flush_inner_def
          flush_begin_def oret_def Let_def flushed_view_def synced_view_def split: if_splits)
    note synced = synced_view_ok [OF flushed(1), of ?s]
    have dur2: "durable_view crc lk fence ?v2" by (rule durable_grows [OF dur1 synced(2,3,1)])
    have "fence < ws_next_lsn (lv_state ?v)" using flushed(1) by (simp add: wal_log_def Let_def)
    then have less: "?l < ws_next_lsn (lv_state ?v)" by (rule saturating_pred_less)
    have "SEGMENT_HEADER_LEN \<le> view_synced ?v" using dur1 by (auto simp: durable_view_def dest: synced_view_size)
    then have "written_upto ?v ?s ?l" by (simp add: written_upto_def flushed(4))
    then have cover: "synced_upto crc ?v2 ?l" by (rule fsync_covers [OF flushed(1)])
    let ?v3 = "?v2\<lparr>lv_state := st'\<rparr>"
    have same: "ws_active_writer st' = ws_active_writer (lv_state ?v2)" "ws_next_lsn st' = ws_next_lsn (lv_state ?v2)"
      "ws_older st' = ws_older (lv_state ?v2)" "ws_active_segment_id st' = ws_active_segment_id (lv_state ?v2)"
      by (simp_all add: st' flush_end_def)
    have next2: "ws_next_lsn (lv_state ?v2) = ws_next_lsn (lv_state ?v)"
      "ws_durable_lsn (lv_state ?v2) = ws_durable_lsn (lv_state ?v)" by (simp_all add: synced_view_def flush_sync_def)
    have durable: "ws_durable_lsn st' = ?l" using False by (simp add: st' flush_end_def next2)
    have "durable_view crc lk fence ?v3"
      using dur2 cover less by (auto simp: durable_view_def no_gap_def same next2 durable synced_upto_def
          intro: wal_log_state_cong)
    moreover have "view_records ?v3 = view_records v" using recs by (simp add: synced_view_def)
    ultimately show ?thesis using durable same(2) next2 by (intro exI [of _ ?v3]) simp
  qed
qed

lemma durable_nothing_lost:
  assumes "lsn_checked_next m = Some n" and "saturating_pred n \<le> d" and "d < l"
  shows "n \<le> l"
  using assms lsn_next_unat [OF assms(1)] saturating_pred_next [OF assms(1)]
  by (simp add: word_le_nat_alt word_less_nat_alt)

lemma fsync_recovers:
  assumes "machine_ok crc lk m" and "wal_force_fsync (mc_wal m) = (Inr (), st')"
    and "sw_synced (ws_active_writer st') \<le> n" and "clean_tail crc (take n (sw_file (ws_active_writer st')))"
  shows "\<exists>st. wal_open crc lk (crash_image n st') (mc_fence m) =
      Inr (st, committed_events crc lk (mc_fence m) (mc_wal m)) \<and>
    wal_records crc lk st = wal_records crc lk (mc_wal m)"
proof -
  obtain v where v: "lv_state v = mc_wal m" "durable_view crc lk (mc_fence m) v"
    using assms(1) by (auto simp: machine_ok_def)
  obtain v' where v': "lv_state v' = st'" "durable_view crc lk (mc_fence m) v'" "view_records v' = view_records v"
    "ws_durable_lsn st' \<ge> saturating_pred (ws_next_lsn st')"
    using force_fsync_view [OF _ v(2)] assms(2) v(1) by auto
  have ok: "view_ok crc lk (mc_fence m) v'" and gap: "no_gap (mc_fence m) v'"
    using v'(2) by (simp_all add: durable_view_def)
  from crash_recovers [OF v'(2), of n] assms(3,4) v'(1) obtain v2 rest where
    v2: "wal_open crc lk (crash_image n st') (mc_fence m) =
        Inr (lv_state v2, committed (past (mc_fence m) (view_records v2)))"
    "view_ok crc lk (mc_fence m) v2" "view_records v' = view_records v2 @ rest"
    "\<forall>r \<in> set rest. ws_durable_lsn st' < record_lsn r"
    by auto
  have "rest = []"
  proof (rule ccontr)
    assume "rest \<noteq> []"
    then obtain r where r: "r \<in> set rest" by (cases rest) auto
    then have "ws_next_lsn st' \<le> record_lsn r"
      using durable_nothing_lost gap v'(1,4) v2(4) by (metis no_gap_def)
    moreover have "record_lsn r < ws_next_lsn st'"
      using ok v'(1) v2(3) r by (auto simp: wal_log_def Let_def) 
    ultimately show False by simp
  qed
  then have "view_records v2 = view_records v" using v2(3) v'(3) by simp
  then show ?thesis
    using v2(1,2) view_records_ok [OF v2(2)] view_records_ok [of crc lk "mc_fence m" v] v
    by (intro exI [of _ "lv_state v2"]) (simp add: committed_events_def durable_view_def)
qed

text \<open>
  A completed \<open>force_fsync\<close> leaves nothing to lose: a crash right after it, whatever is cut of
  the unsynced bytes, opens to every record that was held.
\<close>

theorem force_fsync_durable:
  assumes "machine_ok crc lk m" and "wal_force_fsync (mc_wal m) = (Inr (), st')"
    and "sw_synced (ws_active_writer st') \<le> n" and "clean_tail crc (take n (sw_file (ws_active_writer st')))"
  shows "\<exists>st. wal_open crc lk (crash_image n st') (mc_fence m) =
      Inr (st, committed_events crc lk (mc_fence m) (mc_wal m)) \<and>
    wal_records crc lk st = wal_records crc lk (mc_wal m)"
  by (rule fsync_recovers [OF assms])

lemma force_fsync_healthy: "\<not> ws_bg_failure st \<Longrightarrow> \<exists>st'. wal_force_fsync st = (Inr (), st')"
  by (simp add: wal_force_fsync_def obind_def ocheck_def check_healthy_def flush_inner_def flush_begin_def
      oret_def Let_def)

theorem force_fsync_durable_witness:
  "\<exists>st st' st''. wal_force_fsync st = (Inr (), st') \<and> committed_events sample_crc sample_lk 0 st = [DeleteNode 4] \<and>
     wal_open sample_crc sample_lk (crash_image (length (sw_file (ws_active_writer st'))) st') 0 =
       Inr (st'', committed_events sample_crc sample_lk 0 st)"
proof -
  obtain st where ok: "machine_ok sample_crc sample_lk ((fresh_machine sample_crc 0)\<lparr>mc_wal := st\<rparr>)"
    and st: "\<not> ws_bg_failure st" "committed_events sample_crc sample_lk 0 st = [DeleteNode 4]"
    using sample_run by blast
  let ?m = "(fresh_machine sample_crc 0)\<lparr>mc_wal := st\<rparr>"
  obtain st' where run: "wal_force_fsync (mc_wal ?m) = (Inr (), st')" using force_fsync_healthy st(1) by auto
  obtain v where v: "lv_state v = mc_wal ?m" "durable_view sample_crc sample_lk (mc_fence ?m) v"
    using ok by (auto simp: machine_ok_def)
  obtain v' where v': "lv_state v' = st'" "durable_view sample_crc sample_lk (mc_fence ?m) v'"
    using force_fsync_view [OF _ v(2)] run v(1) by metis
  let ?n = "length (sw_file (ws_active_writer st'))"
  have "clean_tail sample_crc (take ?n (sw_file (ws_active_writer st')))"
    using whole_image_clean [of sample_crc sample_lk "mc_fence ?m" v' ?n] v' by (simp add: durable_view_def)
  moreover have "sw_synced (ws_active_writer st') \<le> ?n" using v' by (auto simp: durable_view_def wal_log_def Let_def)
  ultimately obtain st'' where "wal_open sample_crc sample_lk (crash_image ?n st') (mc_fence ?m) =
      Inr (st'', committed_events sample_crc sample_lk (mc_fence ?m) (mc_wal ?m))"
    using force_fsync_durable [OF ok run] by blast
  then show ?thesis using run st(2)
    by (intro exI [of _ st] exI [of _ st'] exI [of _ st'']) (simp add: fresh_machine_def)
qed

end
