(* ===== verification/Wal_Limits.thy ===== *)
theory Wal_Limits
  imports Wal_Recovery
begin

text \<open>
  Two ways to write a log that does not open again: a segment target that an empty segment already
  meets, and checkpoint markers appended out of order. Neither is refused when the log is written.
\<close>

section \<open>The file of the active segment only grows\<close>

definition starts_with :: "u8 list \<Rightarrow> (segment_id \<times> u8 list) list \<times> segment_id \<Rightarrow> wal_state \<Rightarrow> bool" where
  "starts_with f oi st \<longleftrightarrow> (\<exists>behind. sw_file (ws_active_writer st) = f @ behind) \<and>
     sw_bytes_written (ws_active_writer st) = length (sw_file (ws_active_writer st)) \<and>
     (ws_older st, ws_active_segment_id st) = oi"

definition keeps :: "(wal_state \<Rightarrow> bool) \<Rightarrow> 'a wal_op \<Rightarrow> bool" where
  "keeps P m \<longleftrightarrow> (\<forall>st r st'. P st \<longrightarrow> m st = (r, st') \<longrightarrow> P st')"

lemma keepsI: "(\<And>st r st'. P st \<Longrightarrow> m st = (r, st') \<Longrightarrow> P st') \<Longrightarrow> keeps P m"
  by (auto simp: keeps_def)

lemma keepsD: "keeps P m \<Longrightarrow> P st \<Longrightarrow> m st = (r, st') \<Longrightarrow> P st'"
  by (auto simp: keeps_def)

lemma keeps_obind: "keeps P m \<Longrightarrow> (\<And>x. keeps P (f x)) \<Longrightarrow> keeps P (obind m f)"
  by (rule keepsI) (auto simp: obind_def dest: keepsD split: prod.splits sum.splits)

lemma keeps_pure: "keeps P (ocheck c)" "keeps P (oret x)"
  by (auto simp: keeps_def ocheck_def oret_def)

lemma keeps_alloc: "keeps (starts_with f oi) alloc_lsn"
  by (rule keepsI) (auto simp: alloc_lsn_def starts_with_def split: option.splits)

lemma keeps_on_writer:
  "(\<And>w w'. g w = Inr w' \<Longrightarrow> sw_bytes_written w = length (sw_file w) \<Longrightarrow>
      (\<exists>behind. sw_file w' = sw_file w @ behind) \<and> sw_bytes_written w' = length (sw_file w')) \<Longrightarrow>
   keeps (starts_with f oi) (on_writer g)"
proof (rule keepsI)
  fix st r st' assume g: "\<And>w w'. g w = Inr w' \<Longrightarrow> sw_bytes_written w = length (sw_file w) \<Longrightarrow>
      (\<exists>behind. sw_file w' = sw_file w @ behind) \<and> sw_bytes_written w' = length (sw_file w')"
    and st: "starts_with f oi st" and run: "on_writer g st = (r, st')"
  show "starts_with f oi st'"
  proof (cases "g (ws_active_writer st)")
    case (Inl e)
    then show ?thesis using st run by (simp add: on_writer_def)
  next
    case (Inr w')
    then obtain behind where "sw_file w' = sw_file (ws_active_writer st) @ behind" "sw_bytes_written w' = length (sw_file w')"
      using g [OF Inr] st by (auto simp: starts_with_def)
    then show ?thesis using Inr st run by (auto simp: on_writer_def starts_with_def)
  qed
qed

lemma keeps_append_frame: "keeps (starts_with f oi) (on_writer (writer_append_frame bs))"
  by (rule keeps_on_writer) (auto simp: writer_append_frame_def writer_ensure_appendable_def split: if_splits)

lemma flush_buffer_extends:
  "sw_bytes_written w = length (sw_file w) \<Longrightarrow> \<exists>behind. sw_file (writer_flush_buffer w) = sw_file w @ behind"
  "sw_bytes_written w = length (sw_file w) \<Longrightarrow> sw_bytes_written (writer_flush_buffer w) = length (sw_file (writer_flush_buffer w))"
  by (auto simp: writer_flush_buffer_def write_at_def)

lemma keeps_batches: "keeps (starts_with f oi) (append_batches crc t events start first plan)"
proof (induction plan arbitrary: start first)
  case Nil
  then show ?case by (simp add: keeps_pure)
next
  case (Cons p plan)
  then show ?case
    by (cases p) (auto intro!: keeps_obind keeps_alloc keeps_append_frame keeps_on_writer
        simp: flush_buffer_extends)
qed

lemma keeps_append_tx: "keeps (starts_with f oi) (append_tx crc events plan)"
  unfolding append_tx_def writer_append_def
  by (intro keeps_obind keeps_alloc keeps_append_frame keeps_batches keeps_pure)

lemma keeps_append_or_roll_back: "keeps (starts_with f oi) (append_or_roll_back crc events plan)"
proof (rule keepsI)
  fix st r st' assume st: "starts_with f oi st" and run: "append_or_roll_back crc events plan st = (r, st')"
  obtain r1 s1 where s1: "append_tx crc events plan st = (r1, s1)" by (cases "append_tx crc events plan st")
  have "starts_with f oi s1" by (rule keepsD [OF keeps_append_tx st s1])
  then show "starts_with f oi st'"
    using run by (auto simp: append_or_roll_back_def s1 Let_def starts_with_def writer_rollback_pending_def
        split: sum.splits if_splits)
qed

lemma keeps_flush_inner: "keeps (starts_with f oi) (flush_inner False)"
proof (rule keepsI)
  fix st r st' assume "starts_with f oi st" "flush_inner False st = (r, st')"
  then show "starts_with f oi st'"
    using flush_buffer_extends [of "ws_active_writer st"]
    by (auto simp: flush_inner_def obind_def flush_begin_def oret_def Let_def starts_with_def)
qed

section \<open>A target no larger than a segment header\<close>

lemma same_base_unopenable:
  assumes "sh_format_version h = SEGMENT_FORMAT_VERSION" and "lsn_checked_next i = Some j"
    and "saturating_pred (sh_base_lsn h) \<le> fence"
  shows "\<exists>why. wal_open crc lk [(i, segment_header_encode crc (h\<lparr>sh_sealed := True\<rparr>)),
      (j, segment_header_encode crc h @ behind)] fence = Inl (Malformed why)"
proof -
  let ?sealed = "h\<lparr>sh_sealed := True\<rparr>"
  let ?files = "[(i, segment_header_encode crc ?sealed), (j, segment_header_encode crc h @ behind)]"
  let ?r1 = "\<lparr>sr_file = segment_header_encode crc ?sealed, sr_header = ?sealed, sr_position = SEGMENT_HEADER_LEN\<rparr>"
  have open1: "segment_reader_open crc (segment_header_encode crc ?sealed) = Inr ?r1"
    using segment_open_encoded [of ?sealed crc "[]"] assms(1) by simp
  note open2 = segment_open_encoded [OF assms(1), of crc behind]
  have empty: "segment_read_frame crc ?r1 = Inr (None, ?r1)"
    by (simp add: segment_read_frame_def raw_record_read_def read_exact_or_eof_def SEGMENT_HEADER_LEN_def)
  have loop1: "replay_segment_loop crc lk sink path torn fence cut_corruption ?r1 lg st = Inr (SegmentDone, lg, st)" for sink :: "collect_events replay_sink" and path torn cut_corruption lg st
    by (subst replay_segment_loop.simps) (simp add: empty)
  have "\<exists>why. replay_loop crc lk (collect_step lk) fence False 0 (map snd ?files) lg (replay_state_new s) = Inl (Malformed why)"
    for lg s
    using assms(3) by (simp add: open1 open2 check_log_start_def validate_segment_def replay_state_new_def loop1 Let_def)
  then obtain why where "replay_loop crc lk (collect_step lk) fence False 0 (map snd ?files) SEGMENT_HEADER_LEN
      (replay_state_new collect_default) = Inl (Malformed why)" by blast
  then have "replay_segments crc lk (collect_step lk) ?files fence False collect_default = Inl (Malformed why)"
    using assms(2) by (simp add: replay_segments_def)
  moreover have "discard_unborn_segment crc ?files = ?files"
    by (simp add: discard_unborn_segment_def open2)
  ultimately show ?thesis by (simp add: wal_open_def open_replaying_with_def open_existing_def Let_def)
qed

lemma empty_segment_rotates:
  assumes "wc_segment_target_bytes cfg \<le> SEGMENT_HEADER_LEN"
  shows "maybe_rotate crc cfg (fresh_state crc base) = (Inr (), (fresh_state crc base)
    \<lparr>ws_older := [(1, segment_header_encode crc ((segment_header_new base)\<lparr>sh_sealed := True\<rparr>))],
     ws_active_writer := writer_create crc base, ws_active_segment_id := 2\<rparr>)"
  using assms by (simp add: maybe_rotate_def fresh_state_def writer_create_def writer_bytes_written_def
      Let_def next_segment_id_def lsn_checked_next_def writer_flush_and_sync_def writer_flush_buffer_def
      writer_sync_def writer_seal_def segment_header_new_def write_at_def SEGMENT_HEADER_LEN_def)

text \<open>
  C34. With a segment target of at most a header's length, which nothing refuses, the first commit to a
  new log rotates away an empty segment; both segments have the same base LSN, and the log never opens
  again.
\<close>

theorem tiny_target_unopenable:
  assumes "wc_segment_target_bytes cfg \<le> SEGMENT_HEADER_LEN"
    and "commit_tx_events crc cfg events (fresh_state crc base) = (Inr (Some c), st')"
    and "lsn_checked_next fence = Some base"
  shows "\<exists>why. wal_open crc lk (wal_files st') fence = Inl (Malformed why)"
proof -
  let ?h = "segment_header_new base"
  let ?sealed = "[(1, segment_header_encode crc (?h\<lparr>sh_sealed := True\<rparr>))]"
  let ?rot = "(fresh_state crc base)\<lparr>ws_older := ?sealed, ws_active_writer := writer_create crc base, ws_active_segment_id := 2\<rparr>"
  note rot = empty_segment_rotates [OF assms(1), of crc base]
  obtain plan r2 s2 r3 where s2: "append_or_roll_back crc events plan ?rot = (r2, s2)"
    and st': "flush_inner False s2 = (r3, st')"
  proof (cases "plan_batches events (wc_batch_target_bytes cfg)")
    case (Inr plan)
    obtain r2 s2 where s2: "append_or_roll_back crc events plan ?rot = (r2, s2)"
      by (cases "append_or_roll_back crc events plan ?rot")
    obtain r3 s3 where s3: "flush_inner False s2 = (r3, s3)" by (cases "flush_inner False s2")
    have "s3 = st'"
      using assms(2) Inr rot s2 s3 by (auto simp: commit_tx_events_def obind_def ocheck_def check_healthy_def oret_def
          fresh_state_def split: if_splits sum.splits)
    with that s2 s3 show ?thesis by blast
  qed (use assms(2) in \<open>auto simp: commit_tx_events_def obind_def ocheck_def check_healthy_def oret_def
        fresh_state_def split: if_splits\<close>)
  have "starts_with (segment_header_encode crc ?h) (?sealed, 2) ?rot"
    by (simp add: starts_with_def writer_create_def Let_def SEGMENT_HEADER_LEN_def)
  then have "starts_with (segment_header_encode crc ?h) (?sealed, 2) s2"
    by (rule keepsD [OF keeps_append_or_roll_back _ s2])
  then have "starts_with (segment_header_encode crc ?h) (?sealed, 2) st'"
    by (rule keepsD [OF keeps_flush_inner _ st'])
  then obtain behind where "wal_files st' = ?sealed @ [(2, segment_header_encode crc ?h @ behind)]"
    by (auto simp: starts_with_def wal_files_def)
  moreover have "saturating_pred base \<le> fence" using saturating_pred_next [OF assms(3)] by simp
  ultimately show ?thesis
    using same_base_unopenable [of ?h 1 2 fence crc lk behind] by (simp add: segment_header_new_def lsn_checked_next_def)
qed

lemma sample_plan: "plan_batches [DeleteNode 4] 100 = Inr [(1, 21)]"
  by (simp add: plan_batches_def encoded_batch_event_len_def close_batch_def Let_def size_tag_def size_u64_def
      add_size_def checked_add_def usize_limit_def batch_payload_len_def batch_payload_len_checked_def framed_len_def
      RECORD_HEADER_LEN_def RECORD_TRAILER_LEN_def MAX_RECORD_LEN_def size_len_def PAYLOAD_MAGIC_def)

lemma sample_payload: "\<exists>p. encode_events_into [DeleteNode 4] = Inr p \<and> length p = 21"
  by (simp add: encode_events_into_def PAYLOAD_MAGIC_def usize_limit_def)

lemma marker_record_written:
  "record_encode_into crc (TxBegin l) = Inr (framed crc (TxBegin l) [])"
  "record_encode_into crc (TxCommit l t) = Inr (framed crc (TxCommit l t) [])"
  "record_encode_into crc (Checkpoint l t) = Inr (framed crc (Checkpoint l t) [])"
  by (simp_all add: record_written usize_limit_def MAX_RECORD_LEN_def)

lemma sample_batch: "\<exists>bs. encode_frame crc KMutationBatch 2 1 21 (encode_events_into [DeleteNode 4]) = Inr bs"
proof -
  obtain p where "encode_events_into [DeleteNode 4] = Inr p" "length p = 21" using sample_payload by blast
  then show ?thesis
    by (simp add: encode_frame_def framed_len_Inr usize_limit_def MAX_RECORD_LEN_def RECORD_TRAILER_LEN_def
        Let_def del: encode_events_into_Inr)
qed

lemma sample_append:
  assumes "ws_next_lsn st = 1" and "\<not> sh_sealed (sw_header (ws_active_writer st))"
  shows "\<exists>c st'. append_or_roll_back crc [DeleteNode 4] [(1, 21)] st = (Inr c, st')"
  using assms sample_batch [of crc]
  by (auto simp: append_or_roll_back_def append_tx_def obind_def alloc_lsn_def lsn_checked_next_def on_writer_def
      writer_append_def writer_append_frame_def writer_ensure_appendable_def marker_record_written event_range_def
      oret_def Let_def simp del: encode_events_into_Inr)

theorem tiny_target_unopenable_witness:
  "\<exists>c st' why. commit_tx_events sample_crc \<lparr>wc_segment_target_bytes = 32, wc_batch_target_bytes = 100\<rparr>
      [DeleteNode 4] (fresh_state sample_crc 1) = (Inr (Some c), st') \<and>
    wal_open sample_crc sample_lk (wal_files st') 0 = Inl (Malformed why)"
proof -
  let ?cfg = "\<lparr>wc_segment_target_bytes = 32, wc_batch_target_bytes = 100\<rparr>"
  have target: "wc_segment_target_bytes ?cfg \<le> SEGMENT_HEADER_LEN" by (simp add: SEGMENT_HEADER_LEN_def)
  let ?rot = "(fresh_state sample_crc 1)\<lparr>ws_older := [(1, segment_header_encode sample_crc
    ((segment_header_new 1)\<lparr>sh_sealed := True\<rparr>))], ws_active_writer := writer_create sample_crc 1, ws_active_segment_id := 2\<rparr>"
  obtain c s2 where "append_or_roll_back sample_crc [DeleteNode 4] [(1, 21)] ?rot = (Inr c, s2)"
    using sample_append [of ?rot sample_crc] by (auto simp: fresh_state_def writer_create_def segment_header_new_def Let_def)
  then obtain st' where run: "commit_tx_events sample_crc ?cfg [DeleteNode 4] (fresh_state sample_crc 1) = (Inr (Some c), st')"
    using empty_segment_rotates [OF target, of sample_crc 1]
    by (simp add: commit_tx_events_def obind_def ocheck_def check_healthy_def sample_plan oret_def
        flush_inner_def flush_begin_def Let_def fresh_state_def)
  then show ?thesis using tiny_target_unopenable [OF target run lsn_next_0, of sample_lk] by blast
qed

section \<open>Checkpoint markers out of order\<close>

lemma marker_appended:
  assumes "\<not> ws_bg_failure st" and "\<not> sh_sealed (sw_header (ws_active_writer st))"
    and "lsn_checked_next (ws_next_lsn st) = Some n"
  shows "checkpoint_marker crc s st = (Inr (ws_next_lsn st), st\<lparr>ws_next_lsn := n, ws_active_writer :=
    (ws_active_writer st)\<lparr>sw_pending := sw_pending (ws_active_writer st) @
       framed crc (Checkpoint (ws_next_lsn st) s) []\<rparr>\<rparr>)"
  using assms by (simp add: checkpoint_marker_def obind_def ocheck_def check_healthy_def alloc_and_append_def
      writer_append_def writer_append_frame_def writer_ensure_appendable_def marker_record_written Let_def)

lemma loop_reads_marker:
  assumes "sr_file sr = before @ framed crc (Checkpoint l s) [] @ rest" and "sr_position sr = length before"
    and "sh_base_lsn (sr_header sr) \<le> l" and "rp_last_lsn st < l" and "fence < l" and "s \<le> l"
  shows "replay_segment_loop crc lk sink path torn fence cut_corruption sr lg st =
    (if (case rp_checkpoint_lsn_observed st of Some prev \<Rightarrow> s < prev | None \<Rightarrow> False)
     then Inl (Malformed ''checkpoint snapshot lsn regressed'')
     else replay_segment_loop crc lk sink path torn fence cut_corruption (sr\<lparr>sr_position := length before + 25\<rparr>)
       (length before + 25) ((observe_lsn l st)\<lparr>rp_checkpoint_lsn_observed := Some s\<rparr>))"
proof -
  have read: "segment_read_frame crc sr = Inr (Some (raw_of crc (Checkpoint l s) []), sr\<lparr>sr_position := length before + 25\<rparr>)"
    using segment_read_written [OF assms(1,2)] by (simp add: MAX_RECORD_LEN_def)
  have raw: "raw_decode_for_replay lk (raw_of crc (Checkpoint l s) []) = Inr (ReplayDecoded (Checkpoint l s))"
    by (simp add: raw_decode_for_replay_def raw_decode_def Let_def)
  show ?thesis
    using assms(3-6)
    by (subst replay_segment_loop.simps)
      (auto simp: read raw accept_record_def validate_record_lsn_def observe_checkpoint_def observe_lsn_def Let_def
        split: option.splits)
qed

text \<open>
  C35. A checkpoint marker is appended without comparing it to the ones before it: two markers appended
  out of order, as two checkpoints running side by side can do, are both accepted and written, and the
  log does not open again.
\<close>

theorem marker_regress_unopenable:
  assumes "lsn_checked_next fence = Some base" and "unat base + 2 < 2 ^ 64"
    and "s1 < s2" and "s2 \<le> fence"
    and "checkpoint_marker crc s2 (fresh_state crc base) = (r1, st1)"
    and "checkpoint_marker crc s1 st1 = (r2, st2)" and "wal_flush st2 = (r3, st3)"
  shows "r1 = Inr base \<and> r2 = Inr (base + 1) \<and> r3 = Inr () \<and>
    (\<exists>why. wal_open crc lk (wal_files st3) fence = Inl (Malformed why))"
proof -
  have fresh: "fence < base" "base < base + 1" "saturating_pred base = fence" "0 < base"
    using order.strict_trans1 [OF word_zero_le lsn_next_greater [OF assms(1)]] lsn_next_greater [OF assms(1)] assms(2) saturating_pred_next [OF assms(1)]
    by (simp_all add: word_less_nat_alt unat_word_ariths)
  have "unat (base + 1) = unat base + 1" using assms(2) by (simp add: unat_word_ariths)
  then have next': "lsn_checked_next base = Some (base + 1)" "lsn_checked_next (base + 1) = Some (base + 2)"
    using assms(2) by (simp_all add: lsn_checked_next_def)
  let ?h = "segment_header_new base"
  let ?a = "framed crc (Checkpoint base s2) []" and ?b = "framed crc (Checkpoint (base + 1) s1) []"
  let ?image = "segment_header_encode crc ?h @ ?a @ ?b"
  have run: "r1 = Inr base" "r2 = Inr (base + 1)" "r3 = Inr ()" "wal_files st3 = [(1, ?image)]"
    using assms(5-7) marker_appended [of "fresh_state crc base" _ crc s2] marker_appended [of st1 _ crc s1] next'
    by (auto simp: fresh_state_def writer_create_def segment_header_new_def wal_flush_def obind_def ocheck_def
        check_healthy_def flush_inner_def flush_begin_def oret_def writer_flush_buffer_def write_at_def wal_files_def
        SEGMENT_HEADER_LEN_def Let_def)
  have ver: "sh_format_version ?h = SEGMENT_FORMAT_VERSION" by (simp add: segment_header_new_def)
  let ?sr = "\<lparr>sr_file = ?image, sr_header = ?h, sr_position = SEGMENT_HEADER_LEN\<rparr>"
  note sr = segment_open_encoded [OF ver, of crc "?a @ ?b"]
  let ?st = "(replay_state_new collect_default)\<lparr>rp_last_segment_base := Some base\<rparr>"
  have base: "sh_base_lsn ?h = base" "\<not> sh_sealed ?h" by (simp_all add: segment_header_new_def)
  have loop: "replay_segment_loop crc lk (collect_step lk) 0 torn fence False ?sr lg ?st =
      Inl (Malformed ''checkpoint snapshot lsn regressed'')" for torn lg
  proof -
    have "replay_segment_loop crc lk (collect_step lk) 0 torn fence False ?sr lg ?st =
        replay_segment_loop crc lk (collect_step lk) 0 torn fence False (?sr\<lparr>sr_position := 57\<rparr>) 57
          ((observe_lsn base ?st)\<lparr>rp_checkpoint_lsn_observed := Some s2\<rparr>)"
      by (subst loop_reads_marker [of _ "segment_header_encode crc ?h" _ _ s2 ?b])
        (use fresh assms(4) in \<open>simp_all add: SEGMENT_HEADER_LEN_def base replay_state_new_def\<close>)
    also have "\<dots> = Inl (Malformed ''checkpoint snapshot lsn regressed'')"
      by (subst loop_reads_marker [of _ "segment_header_encode crc ?h @ ?a" _ "base + 1" s1 "[]"])
        (use fresh assms(3,4) in \<open>simp_all add: base observe_lsn_def Let_def replay_state_new_def\<close>)
    finally show ?thesis .
  qed
  have "validate_segment base (replay_state_new collect_default) = Inr ?st"
    by (simp add: validate_segment_def replay_state_new_def)
  then have "replay_segments crc lk (collect_step lk) [(1, ?image)] fence False collect_default =
      Inl (Malformed ''checkpoint snapshot lsn regressed'')"
    using fresh by (simp add: replay_segments_def sr check_log_start_def base loop)
  moreover have "discard_unborn_segment crc [(1, ?image)] = [(1, ?image)]" by (simp add: discard_unborn_segment_def SEGMENT_HEADER_LEN_def)
  ultimately show ?thesis using run by (auto simp: wal_open_def open_replaying_with_def open_existing_def Let_def)
qed

theorem marker_regress_unopenable_witness:
  "\<exists>st1 st2 st3 why. checkpoint_marker sample_crc 9 (fresh_state sample_crc 10) = (Inr 10, st1) \<and>
     checkpoint_marker sample_crc 4 st1 = (Inr 11, st2) \<and> wal_flush st2 = (Inr (), st3) \<and>
     wal_open sample_crc sample_lk (wal_files st3) 9 = Inl (Malformed why)"
proof -
  obtain r1 st1 where a: "checkpoint_marker sample_crc 9 (fresh_state sample_crc 10) = (r1, st1)" by fastforce
  obtain r2 st2 where b: "checkpoint_marker sample_crc 4 st1 = (r2, st2)" by fastforce
  obtain r3 st3 where c: "wal_flush st2 = (r3, st3)" by fastforce
  have "lsn_checked_next 9 = Some 10" by (simp add: lsn_checked_next_def)
  from marker_regress_unopenable [OF this _ _ _ a b c, of sample_lk] a b c show ?thesis by auto
qed

end
