(* ===== verification/Graph_Names.thy ===== *)
theory Graph_Names
  imports Schema_Catalog "HOL-Library.Sublist"
begin

text \<open>
  Names of labels and relationship types: \<open>str::trim\<close> on UTF-8 bytes, the labels of a node
  (\<open>types/name.rs\<close>, \<open>normalize_labels\<close> of \<open>memory/graph.rs\<close>), the dictionary that numbers relationship
  types (\<open>dict.rs\<close>), and the id lists of the label and type indexes (\<open>IdBitmap\<close>).
\<close>

section \<open>Trimming\<close>

text \<open>The characters with the Unicode property \<open>White_Space\<close>, in UTF-8.\<close>

definition whitespace :: "string list" where
  "whitespace = map (map char_of_byte)
     ([[9], [10], [11], [12], [13], [32], [0xC2, 0x85], [0xC2, 0xA0], [0xE1, 0x9A, 0x80]] @
      map (\<lambda>b. [0xE2, 0x80, b]) [0x80, 0x81, 0x82, 0x83, 0x84, 0x85, 0x86, 0x87, 0x88, 0x89, 0x8A,
        0xA8, 0xA9, 0xAF] @ [[0xE2, 0x81, 0x9F], [0xE3, 0x80, 0x80]])"

lemma whitespace_nonempty [simp]: "[] \<notin> set whitespace"
  by (auto simp: whitespace_def)

function trim_start :: "string \<Rightarrow> string" where
  "trim_start s = (case find (\<lambda>w. prefix w s) whitespace of
      Some w \<Rightarrow> trim_start (drop (length w) s) | None \<Rightarrow> s)"
  by pat_completeness auto

termination
proof (relation "measure length", goal_cases)
  case (2 s w)
  then have "w \<in> set whitespace" "prefix w s" by (auto simp: find_Some_iff)
  moreover from this have "w \<noteq> []" by auto
  ultimately show ?case by (auto simp: prefix_def)
qed simp

function trim_end :: "string \<Rightarrow> string" where
  "trim_end s = (case find (\<lambda>w. suffix w s) whitespace of
      Some w \<Rightarrow> trim_end (take (length s - length w) s) | None \<Rightarrow> s)"
  by pat_completeness auto

termination
proof (relation "measure length", goal_cases)
  case (2 s w)
  then have "w \<in> set whitespace" "suffix w s" by (auto simp: find_Some_iff)
  moreover from this have "w \<noteq> []" by auto
  ultimately show ?case by (auto simp: suffix_def)
qed simp

declare trim_start.simps [simp del] trim_end.simps [simp del]

definition trim :: "string \<Rightarrow> string" where
  "trim s = trim_end (trim_start s)"

lemma trim_start_end: "w \<in> set whitespace \<Longrightarrow> \<not> prefix w (trim_start s)"
proof (induction s rule: trim_start.induct)
  case (1 s)
  then show ?case by (subst trim_start.simps) (auto split: option.split simp: find_None_iff)
qed

lemma trim_end_prefix: "prefix (trim_end s) s"
proof (induction s rule: trim_end.induct)
  case (1 s)
  then show ?case
    by (subst trim_end.simps) (auto split: option.split intro: prefix_order.trans take_is_prefix)
qed

lemma trim_end_end: "w \<in> set whitespace \<Longrightarrow> \<not> suffix w (trim_end s)"
proof (induction s rule: trim_end.induct)
  case (1 s)
  then show ?case by (subst trim_end.simps) (auto split: option.split simp: find_None_iff)
qed

lemma whitespace_literal: "whitespace = [[CHR 0x09], [CHR 0x0A], [CHR 0x0B], [CHR 0x0C], [CHR 0x0D], '' '',
    [CHR 0xC2, CHR 0x85], [CHR 0xC2, CHR 0xA0], [CHR 0xE1, CHR 0x9A, CHR 0x80],
    [CHR 0xE2, CHR 0x80, CHR 0x80], [CHR 0xE2, CHR 0x80, CHR 0x81], [CHR 0xE2, CHR 0x80, CHR 0x82],
    [CHR 0xE2, CHR 0x80, CHR 0x83], [CHR 0xE2, CHR 0x80, CHR 0x84], [CHR 0xE2, CHR 0x80, CHR 0x85],
    [CHR 0xE2, CHR 0x80, CHR 0x86], [CHR 0xE2, CHR 0x80, CHR 0x87], [CHR 0xE2, CHR 0x80, CHR 0x88],
    [CHR 0xE2, CHR 0x80, CHR 0x89], [CHR 0xE2, CHR 0x80, CHR 0x8A], [CHR 0xE2, CHR 0x80, CHR 0xA8],
    [CHR 0xE2, CHR 0x80, CHR 0xA9], [CHR 0xE2, CHR 0x80, CHR 0xAF], [CHR 0xE2, CHR 0x81, CHR 0x9F],
    [CHR 0xE3, CHR 0x80, CHR 0x80]]"
  by code_simp

text \<open>No whitespace at either end: such a name is its own trimmed form.\<close>

definition trimmed :: "string \<Rightarrow> bool" where
  "trimmed s \<longleftrightarrow> (\<forall>w \<in> set whitespace. \<not> prefix w s \<and> \<not> suffix w s)"

lemma trimmed_trim [simp]: "trimmed (trim s)"
  using trim_start_end [of _ s] trim_end_end [of _ "trim_start s"] trim_end_prefix [of "trim_start s"]
  by (auto simp: trimmed_def trim_def dest: prefix_order.trans)

lemma trim_trimmed [simp]: "trimmed s \<Longrightarrow> trim s = s"
proof -
  assume "trimmed s"
  then have "find (\<lambda>w. prefix w s) whitespace = None" "find (\<lambda>w. suffix w s) whitespace = None"
    by (auto simp: trimmed_def find_None_iff)
  then show ?thesis by (simp add: trim_def trim_start.simps [of s] trim_end.simps [of s])
qed

section \<open>Labels\<close>

definition add_label :: "string \<Rightarrow> string list \<Rightarrow> string list" where
  "add_label label out = (let label = trim label in
     if label \<noteq> [] \<and> label \<notin> set out then out @ [label] else out)"

definition normalize_labels :: "string list \<Rightarrow> string list" where
  "normalize_labels labels = fold add_label labels []"

definition labels_ok :: "string list \<Rightarrow> bool" where
  "labels_ok ls \<longleftrightarrow> distinct ls \<and> (\<forall>l \<in> set ls. l \<noteq> [] \<and> trimmed l)"

lemma labels_ok_add: "labels_ok out \<Longrightarrow> labels_ok (add_label label out)"
  by (auto simp: add_label_def labels_ok_def Let_def)

lemma labels_ok_normalize [simp]: "labels_ok (normalize_labels labels)"
proof -
  have "labels_ok out \<Longrightarrow> labels_ok (fold add_label labels out)" for out
    by (induction labels arbitrary: out) (simp_all add: labels_ok_add)
  moreover have "labels_ok []" by (simp add: labels_ok_def)
  ultimately show ?thesis by (simp add: normalize_labels_def)
qed

lemma normalize_labels_ok: "labels_ok ls \<Longrightarrow> normalize_labels ls = ls"
proof -
  have "labels_ok (out @ ls) \<Longrightarrow> fold add_label ls out = out @ ls" for out
  proof (induction ls arbitrary: out)
    case (Cons l ls)
    then have "add_label l out = out @ [l]" by (simp add: add_label_def labels_ok_def)
    with Cons show ?case by simp
  qed simp
  from this [of "[]"] show "labels_ok ls \<Longrightarrow> normalize_labels ls = ls" by (simp add: normalize_labels_def)
qed

section \<open>The type dictionary\<close>

text \<open>A name's number is its position.\<close>

fun name_position :: "string \<Rightarrow> string list \<Rightarrow> nat option" where
  "name_position name [] = None"
| "name_position name (n # names) = (if n = name then Some 0 else map_option Suc (name_position name names))"

definition id_of :: "string list \<Rightarrow> string \<Rightarrow> u32 option" where
  "id_of names name = map_option word_of_nat (name_position name names)"

definition id_or_insert :: "string \<Rightarrow> string list \<Rightarrow> u32 \<times> string list" where
  "id_or_insert name names = (case id_of names name of
      Some i \<Rightarrow> (i, names) | None \<Rightarrow> (word_of_nat (length names), names @ [name]))"

lemma name_position_None [simp]: "name_position name names = None \<longleftrightarrow> name \<notin> set names"
  by (induction names) auto

lemma name_position_append [simp]:
  "name \<in> set names \<Longrightarrow> name_position name (names @ extra) = name_position name names"
  by (induction names) auto

lemma name_position_new: "name \<notin> set names \<Longrightarrow> name_position name (names @ [name]) = Some (length names)"
  by (induction names) auto

lemma id_of_None: "id_of names name = None \<longleftrightarrow> name \<notin> set names"
  by (simp add: id_of_def)

lemma id_of_append [simp]: "name \<in> set names \<Longrightarrow> id_of (names @ extra) name = id_of names name"
  by (simp add: id_of_def)

lemma id_or_insert_id: "id_or_insert name names = (i, names') \<Longrightarrow> id_of names' name = Some i"
  by (auto simp: id_or_insert_def id_of_def name_position_new split: option.splits)

lemma id_or_insert_again: "id_or_insert name names = (i, names') \<Longrightarrow> id_or_insert name names' = (i, names')"
  using id_or_insert_id [of name names i names'] by (simp add: id_or_insert_def)

lemma id_or_insert_extends: "id_or_insert name names = (i, names') \<Longrightarrow> \<exists>extra. names' = names @ extra"
  by (auto simp: id_or_insert_def split: option.splits)

lemma id_or_insert_keeps:
  "id_or_insert name names = (i, names') \<Longrightarrow> id_of names other = Some j \<Longrightarrow> id_of names' other = Some j"
  using id_or_insert_extends [of name names i names'] id_of_append [of other names]
  by (metis id_of_None option.distinct(1))

text \<open>Names have distinct numbers as long as the numbers do not run out.\<close>

lemma name_position_nth: "name_position name names = Some i \<Longrightarrow> i < length names \<and> names ! i = name"
  by (induction names arbitrary: i) (auto split: if_splits)

lemma id_of_inject:
  assumes "length names \<le> 2 ^ 32" and "id_of names a = Some i" and "id_of names b = Some i"
  shows "a = b"
proof -
  obtain k l where k: "name_position a names = Some k" "word_of_nat k = i"
    and l: "name_position b names = Some l" "word_of_nat l = i" using assms(2,3) by (auto simp: id_of_def)
  have "unat (word_of_nat k :: u32) = k" "unat (word_of_nat l :: u32) = l"
    using name_position_nth [OF k(1)] name_position_nth [OF l(1)] assms(1)
    by (simp_all add: unat_of_nat)
  then have "k = l" using k(2) l(2) by simp
  then show ?thesis using name_position_nth k(1) l(1) by metis
qed

section \<open>Id lists\<close>

text \<open>An \<open>IdBitmap\<close> is the ascending list of its ids.\<close>

definition bitmap_insert :: "u64 \<Rightarrow> u64 list \<Rightarrow> u64 list" where
  "bitmap_insert i ids = insort_insert i ids"

definition bitmap_remove :: "u64 \<Rightarrow> u64 list \<Rightarrow> u64 list" where
  "bitmap_remove i ids = remove1 i ids"

definition bitmap_ok :: "u64 list \<Rightarrow> bool" where
  "bitmap_ok ids \<longleftrightarrow> sorted ids \<and> distinct ids"

lemma bitmap_insert_ok:
  "bitmap_ok ids \<Longrightarrow> bitmap_ok (bitmap_insert i ids) \<and> set (bitmap_insert i ids) = insert i (set ids)"
  by (simp add: bitmap_ok_def bitmap_insert_def sorted_insort_insert distinct_insort_insert set_insort_insert)

lemma bitmap_remove_ok:
  "bitmap_ok ids \<Longrightarrow> bitmap_ok (bitmap_remove i ids) \<and> set (bitmap_remove i ids) = set ids - {i}"
  by (simp add: bitmap_ok_def bitmap_remove_def sorted_remove1)

text \<open>An index from names to id lists, without empty lists.\<close>

type_synonym name_index = "(string \<times> u64 list) list"

definition index_ids :: "name_index \<Rightarrow> string \<Rightarrow> u64 list" where
  "index_ids idx name = (case map_of idx name of None \<Rightarrow> [] | Some ids \<Rightarrow> ids)"

definition index_add :: "u64 \<Rightarrow> string \<Rightarrow> name_index \<Rightarrow> name_index" where
  "index_add i name idx = (case map_of idx name of
      Some ids \<Rightarrow> btree_insert name (bitmap_insert i ids) idx
    | None \<Rightarrow> btree_insert name [i] idx)"

definition index_drop :: "u64 \<Rightarrow> string \<Rightarrow> name_index \<Rightarrow> name_index" where
  "index_drop i name idx = (case map_of idx name of
      None \<Rightarrow> idx
    | Some ids \<Rightarrow> (let ids = bitmap_remove i ids in
        if ids = [] then btree_remove name idx else btree_insert name ids idx))"

definition index_ok :: "name_index \<Rightarrow> bool" where
  "index_ok idx \<longleftrightarrow> sorted_keys idx \<and> (\<forall>name ids. map_of idx name = Some ids \<longrightarrow> ids \<noteq> [] \<and> bitmap_ok ids)"

lemma index_ids_ok: "index_ok idx \<Longrightarrow> bitmap_ok (index_ids idx name)"
  by (auto simp: index_ok_def index_ids_def bitmap_ok_def split: option.split)

lemma bitmap_insert_nonempty [simp]: "bitmap_insert i ids \<noteq> []"
  by (cases ids) (auto simp: bitmap_insert_def insort_insert_key_def)

lemma map_of_index_add:
  "map_of (index_add i name idx) = (map_of idx)(name \<mapsto> bitmap_insert i (index_ids idx name))"
  by (auto simp: index_add_def index_ids_def bitmap_insert_def insort_insert_key_def fun_eq_iff split: option.split)

lemma index_ids_add:
  "index_ids (index_add i name idx) other =
     (if other = name then bitmap_insert i (index_ids idx name) else index_ids idx other)"
  by (simp add: index_ids_def [of "index_add i name idx"] map_of_index_add) (simp add: index_ids_def)

lemma index_add_ok:
  assumes "index_ok idx"
  shows "index_ok (index_add i name idx)"
proof -
  have "sorted_keys (index_add i name idx)"
    using assms by (auto simp: index_add_def index_ok_def sorted_keys_btree_insert split: option.split)
  then show ?thesis
    using assms bitmap_insert_ok [OF index_ids_ok [OF assms], of i name]
    by (simp add: index_ok_def map_of_index_add)
qed

lemma set_index_add:
  "index_ok idx \<Longrightarrow> set (index_ids (index_add i name idx) other) =
     (if other = name then insert i (set (index_ids idx name)) else set (index_ids idx other))"
  using bitmap_insert_ok [OF index_ids_ok, of idx i name] by (simp add: index_ids_add)

lemma map_of_index_drop:
  "sorted_keys idx \<Longrightarrow> map_of (index_drop i name idx) = (let ids = bitmap_remove i (index_ids idx name) in
     (map_of idx)(name := if ids = [] then None else Some ids))"
  by (auto simp: index_drop_def index_ids_def Let_def map_of_btree_remove bitmap_remove_def fun_eq_iff split: option.split)

lemma index_ids_drop:
  "sorted_keys idx \<Longrightarrow> index_ids (index_drop i name idx) other =
     (if other = name then bitmap_remove i (index_ids idx name) else index_ids idx other)"
  by (simp add: index_ids_def [of "index_drop i name idx"] map_of_index_drop Let_def) (simp add: index_ids_def)

lemma index_drop_ok:
  assumes "index_ok idx"
  shows "index_ok (index_drop i name idx)"
proof -
  have sorted: "sorted_keys idx" using assms by (simp add: index_ok_def)
  then have "sorted_keys (index_drop i name idx)"
    by (auto simp: index_drop_def Let_def sorted_keys_btree_insert sorted_keys_btree_remove split: option.split)
  then show ?thesis
    using assms bitmap_remove_ok [OF index_ids_ok [OF assms], of i name]
    by (simp add: index_ok_def map_of_index_drop [OF sorted] Let_def)
qed

lemma set_index_drop:
  "index_ok idx \<Longrightarrow> set (index_ids (index_drop i name idx) other) =
     (if other = name then set (index_ids idx name) - {i} else set (index_ids idx other))"
  using bitmap_remove_ok [OF index_ids_ok, of idx i name] by (simp add: index_ids_drop index_ok_def)

end
