(* ===== verification/Graph_Adjacency.thy ===== *)
theory Graph_Adjacency
  imports Graph_Names Mutation_Event
begin

text \<open>
  The adjacency lists of a node (\<open>crates/lora-store/src/memory/adjacency.rs\<close>): its outgoing and its
  incoming entries, oldest first, and the filter of a traversal by relationship type. The byte layout
  only shows in the size of a list.
\<close>

record adj_entry =
  ae_type :: u32
  ae_neighbour :: node_id
  ae_rel :: relationship_id

datatype side = Out | In

record adjacency =
  adj_out :: "adj_entry list"
  adj_in :: "adj_entry list"

definition adj_empty :: adjacency where
  "adj_empty = \<lparr>adj_out = [], adj_in = []\<rparr>"

text \<open>The bytes a value needs, at least one (\<open>width\<close>), and those of a whole entry.\<close>

fun byte_width_upto :: "nat \<Rightarrow> nat \<Rightarrow> nat" where
  "byte_width_upto 0 v = 0"
| "byte_width_upto (Suc n) v = (if v < 256 then 1 else 1 + byte_width_upto n (v div 256))"

definition byte_width :: "u64 \<Rightarrow> nat" where
  "byte_width w = byte_width_upto 8 (unat w)"

definition type_bytes :: "u32 \<Rightarrow> nat" where
  "type_bytes t = (if t \<le> 0xFF then 1 else if t \<le> 0xFFFF then 2 else 4)"

definition entry_bytes :: "adj_entry \<Rightarrow> nat" where
  "entry_bytes e = 1 + type_bytes (ae_type e) + byte_width (ae_neighbour e) + byte_width (ae_rel e)"

definition adj_side :: "side \<Rightarrow> adjacency \<Rightarrow> adj_entry list" where
  "adj_side s a = (case s of Out \<Rightarrow> adj_out a | In \<Rightarrow> adj_in a)"

definition adj_update :: "side \<Rightarrow> (adj_entry list \<Rightarrow> adj_entry list) \<Rightarrow> adjacency \<Rightarrow> adjacency" where
  "adj_update s f a = (case s of Out \<Rightarrow> a\<lparr>adj_out := f (adj_out a)\<rparr> | In \<Rightarrow> a\<lparr>adj_in := f (adj_in a)\<rparr>)"

definition side_bytes :: "side \<Rightarrow> adjacency \<Rightarrow> nat" where
  "side_bytes s a = sum_list (map entry_bytes (adj_side s a))"

definition adj_is_empty :: "adjacency \<Rightarrow> bool" where
  "adj_is_empty a \<longleftrightarrow> adj_out a = [] \<and> adj_in a = []"

definition adj_push :: "side \<Rightarrow> adj_entry \<Rightarrow> adjacency \<Rightarrow> adjacency" where
  "adj_push s e a = adj_update s (\<lambda>es. es @ [e]) a"

text \<open>The first entry of a relationship goes, if there is one.\<close>

fun remove_entry :: "relationship_id \<Rightarrow> adj_entry list \<Rightarrow> adj_entry list" where
  "remove_entry rel [] = []"
| "remove_entry rel (e # es) = (if ae_rel e = rel then es else e # remove_entry rel es)"

definition adj_remove :: "side \<Rightarrow> relationship_id \<Rightarrow> adjacency \<Rightarrow> adjacency" where
  "adj_remove s rel a = adj_update s (remove_entry rel) a"

definition adj_remove_all :: "side \<Rightarrow> relationship_id list \<Rightarrow> adjacency \<Rightarrow> adjacency" where
  "adj_remove_all s rels a = adj_update s (filter (\<lambda>e. ae_rel e \<notin> set rels)) a"

section \<open>Traversals\<close>

datatype direction = DirLeft | DirRight | Undirected

datatype type_filter = FilterAny | FilterOne u32 | FilterMany "u32 list" | FilterNothing

definition filter_resolve :: "string list \<Rightarrow> string list \<Rightarrow> type_filter" where
  "filter_resolve dict types = (case types of
      [] \<Rightarrow> FilterAny
    | [single] \<Rightarrow> (case id_of dict single of Some i \<Rightarrow> FilterOne i | None \<Rightarrow> FilterNothing)
    | _ \<Rightarrow> (case List.map_filter (id_of dict) types of
        [] \<Rightarrow> FilterNothing | [one] \<Rightarrow> FilterOne one | ids \<Rightarrow> FilterMany ids))"

fun filter_matches :: "type_filter \<Rightarrow> u32 \<Rightarrow> bool" where
  "filter_matches FilterAny t = True"
| "filter_matches (FilterOne i) t = (i = t)"
| "filter_matches (FilterMany ids) t = (t \<in> set ids)"
| "filter_matches FilterNothing t = False"

text \<open>The pairs an adjacent entry is reported as, in list order.\<close>

definition adjacent_entries :: "node_id \<Rightarrow> type_filter \<Rightarrow> bool \<Rightarrow> adj_entry list \<Rightarrow>
    (relationship_id \<times> node_id) list" where
  "adjacent_entries node flt skip_self_loops es =
     map (\<lambda>e. (ae_rel e, ae_neighbour e))
       (filter (\<lambda>e. \<not> (skip_self_loops \<and> ae_neighbour e = node) \<and> filter_matches flt (ae_type e)) es)"

section \<open>Facts\<close>

lemma entry_bytes_pos: "0 < entry_bytes e"
  by (simp add: entry_bytes_def)

lemma side_bytes_0: "side_bytes s a = 0 \<longleftrightarrow> adj_side s a = []"
  using entry_bytes_pos by (cases "adj_side s a") (auto simp: side_bytes_def)

lemma adj_side_update: "adj_side s (adj_update t f a) = (if s = t then f (adj_side s a) else adj_side s a)"
  by (auto simp: adj_side_def adj_update_def split: side.split)

lemma adj_side_empty [simp]: "adj_side s adj_empty = []"
  by (simp add: adj_side_def adj_empty_def split: side.split)

lemma adjacency_eqI: "(\<And>s. adj_side s a = adj_side s b) \<Longrightarrow> a = b"
  by (metis adj_side_def adjacency.equality old.unit.exhaust side.simps(3,4))

lemma adj_is_empty_side: "adj_is_empty a \<longleftrightarrow> adj_side Out a = [] \<and> adj_side In a = []"
  by (simp add: adj_is_empty_def adj_side_def)

lemma remove_entry_filter:
  "distinct (map ae_rel es) \<Longrightarrow> remove_entry rel es = filter (\<lambda>e. ae_rel e \<noteq> rel) es"
proof (induction es)
  case (Cons e es)
  show ?case
  proof (cases "ae_rel e = rel")
    case True
    then have "filter (\<lambda>e. ae_rel e \<noteq> rel) es = es"
      using Cons.prems by (intro filter_True) (force simp: image_iff)
    with True show ?thesis by simp
  qed (use Cons in simp)
qed simp

lemma remove_entry_absent: "rel \<notin> ae_rel ` set es \<Longrightarrow> remove_entry rel es = es"
  by (induction es) auto

lemma filter_resolve_matches:
  assumes "length dict \<le> 2 ^ 32" and "id_of dict t = Some i"
  shows "filter_matches (filter_resolve dict types) i \<longleftrightarrow> types = [] \<or> t \<in> set types"
proof -
  have same: "id_of dict u = Some i \<longleftrightarrow> u = t" for u using id_of_inject [OF assms(1,2)] assms(2) by blast
  have ids: "i \<in> set (List.map_filter (id_of dict) us) \<longleftrightarrow> t \<in> set us" for us
  proof (induction us)
    case (Cons u us)
    show ?case
    proof (cases "id_of dict u")
      case None
      then have "u \<noteq> t" using assms(2) by (metis option.distinct(1))
      then show ?thesis using None Cons by (simp add: List.map_filter_simps)
    next
      case (Some j)
      then show ?thesis using Cons same [of u] by (auto simp: List.map_filter_simps)
    qed
  qed (simp add: List.map_filter_simps)
  show ?thesis
  proof (cases types rule: remdups_adj.cases)
    case (2 x)
    then show ?thesis using same [of x] by (auto simp: filter_resolve_def split: option.split)
  next
    case (3 x y xs)
    have "filter_resolve dict types = (case List.map_filter (id_of dict) types of
        [] \<Rightarrow> FilterNothing | [one] \<Rightarrow> FilterOne one | ids \<Rightarrow> FilterMany ids)"
      using 3 by (simp add: filter_resolve_def)
    then show ?thesis using ids [of types] 3
      by (cases "List.map_filter (id_of dict) types" rule: remdups_adj.cases) auto
  qed (simp add: filter_resolve_def)
qed

end
