(* ===== verification/Graph_Store.thy ===== *)
theory Graph_Store
  imports Graph_Adjacency Schema_Engine
begin

text \<open>
  The in-memory graph (\<open>InMemoryGraph\<close> of \<open>crates/lora-store/src/memory/graph.rs\<close> and its mutations in
  \<open>memory/impls.rs\<close>): records in slots numbered by id, adjacency lists, the label and type indexes, the
  live counts, and the catalogs with the recorder. A slot holds the record itself, not its encoding. The
  data indexes and statistics that the \<open>on_\<close> hooks also maintain, and the sink of deleted records,
  are left out.
\<close>

section \<open>State\<close>

record node_record =
  nr_id :: node_id
  nr_labels :: "string list"
  nr_properties :: properties

record relationship_record =
  rr_id :: relationship_id
  rr_src :: node_id
  rr_dst :: node_id
  rr_type :: string
  rr_properties :: properties

record graph =
  gr_next_node_id :: node_id
  gr_next_rel_id :: relationship_id
  gr_nodes :: "node_record option list"
  gr_relationships :: "relationship_record option list"
  gr_types :: "string list"
  gr_live_nodes :: nat
  gr_live_rels :: nat
  gr_adjacency :: "adjacency list"
  gr_nodes_by_label :: name_index
  gr_rels_by_type :: name_index
  gr_schema :: schema_state

definition graph_default :: "mutation_event list option \<Rightarrow> graph" where
  "graph_default recorder = \<lparr>gr_next_node_id = 0, gr_next_rel_id = 0, gr_nodes = [], gr_relationships = [],
     gr_types = [], gr_live_nodes = 0, gr_live_rels = 0, gr_adjacency = [], gr_nodes_by_label = [],
     gr_rels_by_type = [], gr_schema = schema_new recorder\<rparr>"

datatype graph_error =
    IdTooLarge u64
  | NoNextId u64
  | RecorderInstalled
  | NodeIdExists node_id
  | RelIdExists relationship_id
  | MissingSource relationship_id node_id
  | MissingTarget relationship_id node_id
  | EmptyType relationship_id

definition MAX_ENTITY_ID :: u64 where
  "MAX_ENTITY_ID = 2 ^ 34 - 1"

definition graph_emit :: "mutation_event \<Rightarrow> graph \<Rightarrow> graph" where
  "graph_emit e g = g\<lparr>gr_schema := emit e (gr_schema g)\<rparr>"

section \<open>Slots\<close>

definition slot_get :: "nat \<Rightarrow> 'a option list \<Rightarrow> 'a option" where
  "slot_get i xs = (if i < length xs then xs ! i else None)"

definition grow_to :: "nat \<Rightarrow> 'a \<Rightarrow> 'a list \<Rightarrow> 'a list" where
  "grow_to n x xs = xs @ replicate (n - length xs) x"

definition slot_len_for_id :: "u64 \<Rightarrow> graph_error + nat" where
  "slot_len_for_id i = (if i > MAX_ENTITY_ID then Inl (IdTooLarge i) else Inr (unat i + 1))"

definition ensure_node_slot_checked :: "node_id \<Rightarrow> graph \<Rightarrow> graph_error + nat \<times> graph" where
  "ensure_node_slot_checked i g = ebind (slot_len_for_id i) (\<lambda>target.
     Inr (target - 1, g\<lparr>gr_nodes := grow_to target None (gr_nodes g),
       gr_adjacency := grow_to target adj_empty (gr_adjacency g)\<rparr>))"

definition ensure_rel_slot_checked :: "relationship_id \<Rightarrow> graph \<Rightarrow> graph_error + nat \<times> graph" where
  "ensure_rel_slot_checked i g = ebind (slot_len_for_id i) (\<lambda>target.
     Inr (target - 1, g\<lparr>gr_relationships := grow_to target None (gr_relationships g)\<rparr>))"

definition checked_next_id :: "u64 \<Rightarrow> graph_error + u64" where
  "checked_next_id i = (if i = - 1 then Inl (NoNextId i) else Inr (i + 1))"

definition bump_next_node_id_past :: "node_id \<Rightarrow> graph \<Rightarrow> graph_error + graph" where
  "bump_next_node_id_past i g = ebind (checked_next_id i) (\<lambda>next'.
     Inr (g\<lparr>gr_next_node_id := max (gr_next_node_id g) next'\<rparr>))"

definition bump_next_rel_id_past :: "relationship_id \<Rightarrow> graph \<Rightarrow> graph_error + graph" where
  "bump_next_rel_id_past i g = ebind (checked_next_id i) (\<lambda>next'.
     Inr (g\<lparr>gr_next_rel_id := max (gr_next_rel_id g) next'\<rparr>))"

definition try_reserve_next_node_slot :: "graph \<Rightarrow> (node_id \<times> nat \<times> graph) option" where
  "try_reserve_next_node_slot g = (let i = gr_next_node_id g in
     case ebind (ensure_node_slot_checked i g) (\<lambda>(idx, g). ebind (bump_next_node_id_past i g) (\<lambda>g. Inr (i, idx, g))) of
       Inl _ \<Rightarrow> None | Inr r \<Rightarrow> Some r)"

definition try_reserve_next_rel_slot :: "graph \<Rightarrow> (relationship_id \<times> nat \<times> graph) option" where
  "try_reserve_next_rel_slot g = (let i = gr_next_rel_id g in
     case ebind (ensure_rel_slot_checked i g) (\<lambda>(idx, g). ebind (bump_next_rel_id_past i g) (\<lambda>g. Inr (i, idx, g))) of
       Inl _ \<Rightarrow> None | Inr r \<Rightarrow> Some r)"

definition node_at :: "graph \<Rightarrow> node_id \<Rightarrow> node_record option" where
  "node_at g i = slot_get (unat i) (gr_nodes g)"

definition has_node_at :: "graph \<Rightarrow> node_id \<Rightarrow> bool" where
  "has_node_at g i \<longleftrightarrow> node_at g i \<noteq> None"

definition rel_at :: "graph \<Rightarrow> relationship_id \<Rightarrow> relationship_record option" where
  "rel_at g i = slot_get (unat i) (gr_relationships g)"

definition has_rel_at :: "graph \<Rightarrow> relationship_id \<Rightarrow> bool" where
  "has_rel_at g i \<longleftrightarrow> rel_at g i \<noteq> None"

definition put_node_at_slot :: "nat \<Rightarrow> node_record \<Rightarrow> graph \<Rightarrow> graph" where
  "put_node_at_slot idx node g = (let fresh = slot_get idx (gr_nodes g) = None in
     g\<lparr>gr_nodes := (gr_nodes g)[idx := Some node],
       gr_live_nodes := (if fresh then gr_live_nodes g + 1 else gr_live_nodes g)\<rparr>)"

definition put_rel_at_slot :: "nat \<Rightarrow> relationship_record \<Rightarrow> graph \<Rightarrow> graph" where
  "put_rel_at_slot idx rel g = (let fresh = slot_get idx (gr_relationships g) = None in
     g\<lparr>gr_types := snd (id_or_insert (rr_type rel) (gr_types g)),
       gr_relationships := (gr_relationships g)[idx := Some rel],
       gr_live_rels := (if fresh then gr_live_rels g + 1 else gr_live_rels g)\<rparr>)"

text \<open>\<open>update_node\<close> stores the changed record in its slot.\<close>

definition update_node :: "node_id \<Rightarrow> (node_record \<Rightarrow> node_record) \<Rightarrow> graph \<Rightarrow> graph option" where
  "update_node i change g = (case node_at g i of
      None \<Rightarrow> None | Some node \<Rightarrow> Some (g\<lparr>gr_nodes := (gr_nodes g)[unat i := Some (change node)]\<rparr>))"

section \<open>Editing one property\<close>

datatype prop_edit = PropSet property_value | PropRemove

text \<open>
  \<open>encoded::edit_property\<close> on the decoded map: the previous value, and \<open>None\<close> when there was nothing
  to remove.
\<close>

definition edit_property :: "string \<Rightarrow> prop_edit \<Rightarrow> properties \<Rightarrow> (property_value option \<times> properties) option" where
  "edit_property key edit ps = (case edit of
      PropSet v \<Rightarrow> Some (map_of ps key, btree_insert key v ps)
    | PropRemove \<Rightarrow> (case map_of ps key of None \<Rightarrow> None | Some old \<Rightarrow> Some (Some old, btree_remove key ps)))"

definition edit_node_property :: "node_id \<Rightarrow> string \<Rightarrow> prop_edit \<Rightarrow> graph \<Rightarrow>
    (property_value option \<times> graph) option" where
  "edit_node_property i key edit g = Option.bind (node_at g i) (\<lambda>node.
     map_option (\<lambda>(old, ps). (old, g\<lparr>gr_nodes := (gr_nodes g)[unat i := Some (node\<lparr>nr_properties := ps\<rparr>)]\<rparr>))
       (edit_property key edit (nr_properties node)))"

definition edit_rel_property :: "relationship_id \<Rightarrow> string \<Rightarrow> prop_edit \<Rightarrow> graph \<Rightarrow>
    (property_value option \<times> graph) option" where
  "edit_rel_property i key edit g = Option.bind (rel_at g i) (\<lambda>rel.
     map_option (\<lambda>(old, ps). (old, g\<lparr>gr_relationships :=
         (gr_relationships g)[unat i := Some (rel\<lparr>rr_properties := ps\<rparr>)]\<rparr>))
       (edit_property key edit (rr_properties rel)))"

text \<open>\<open>edit_node_properties\<close>: the edits in order, each with its previous value or \<open>None\<close> if it changed nothing.\<close>

type_synonym node_edits = "(string \<times> property_value option) list"

definition edit_of :: "property_value option \<Rightarrow> prop_edit" where
  "edit_of v = (case v of Some v \<Rightarrow> PropSet v | None \<Rightarrow> PropRemove)"

fun edit_properties :: "node_edits \<Rightarrow> properties \<Rightarrow> property_value option option list \<times> properties" where
  "edit_properties [] ps = ([], ps)"
| "edit_properties ((key, v) # edits) ps = (case edit_property key (edit_of v) ps of
      None \<Rightarrow> (let (olds, ps) = edit_properties edits ps in (None # olds, ps))
    | Some (old, ps) \<Rightarrow> (let (olds, ps) = edit_properties edits ps in (Some old # olds, ps)))"

definition edit_node_properties :: "node_id \<Rightarrow> node_edits \<Rightarrow> graph \<Rightarrow>
    (property_value option option list \<times> graph) option" where
  "edit_node_properties i edits g = (case node_at g i of
      None \<Rightarrow> None
    | Some node \<Rightarrow> (let (olds, ps) = edit_properties edits (nr_properties node) in
        Some (olds, g\<lparr>gr_nodes := (gr_nodes g)[unat i := Some (node\<lparr>nr_properties := ps\<rparr>)]\<rparr>)))"

section \<open>Adjacency\<close>

definition adjacency_at :: "graph \<Rightarrow> node_id \<Rightarrow> side \<Rightarrow> adj_entry list" where
  "adjacency_at g i s = (if unat i < length (gr_adjacency g) then adj_side s (gr_adjacency g ! unat i) else [])"

definition change_adjacency :: "node_id \<Rightarrow> (adjacency \<Rightarrow> adjacency) \<Rightarrow> graph \<Rightarrow> graph" where
  "change_adjacency i f g = (if unat i < length (gr_adjacency g)
     then g\<lparr>gr_adjacency := (gr_adjacency g)[unat i := f (gr_adjacency g ! unat i)]\<rparr> else g)"

definition adjacency_push :: "node_id \<Rightarrow> side \<Rightarrow> adj_entry \<Rightarrow> graph \<Rightarrow> graph" where
  "adjacency_push i s e g = (case ensure_node_slot_checked i g of
      Inl _ \<Rightarrow> g
    | Inr (idx, g) \<Rightarrow> g\<lparr>gr_adjacency := (gr_adjacency g)[idx := adj_push s e (gr_adjacency g ! idx)]\<rparr>)"

definition clear_adjacency :: "node_id \<Rightarrow> graph \<Rightarrow> graph" where
  "clear_adjacency i g = change_adjacency i (\<lambda>_. adj_empty) g"

type_synonym pending_adj_removals = "(node_id \<times> side \<times> relationship_id) list"

definition DEFER_REMOVAL_MIN_BYTES :: nat where
  "DEFER_REMOVAL_MIN_BYTES = 256"

text \<open>With a list of pending removals, a long list is left for \<open>flush_adjacency_removals\<close>.\<close>

definition adjacency_remove :: "node_id \<Rightarrow> side \<Rightarrow> relationship_id \<Rightarrow> pending_adj_removals option \<Rightarrow> graph \<Rightarrow>
    pending_adj_removals option \<times> graph" where
  "adjacency_remove i s rel pending g =
     (let len = (if unat i < length (gr_adjacency g) then side_bytes s (gr_adjacency g ! unat i) else 0) in
      if len = 0 then (pending, g)
      else (case pending of
          Some ps \<Rightarrow> if len > DEFER_REMOVAL_MIN_BYTES then (Some (ps @ [(i, s, rel)]), g)
            else (pending, change_adjacency i (adj_remove s rel) g)
        | None \<Rightarrow> (pending, change_adjacency i (adj_remove s rel) g)))"

text \<open>The pending removals are sorted; those of one list are applied at once.\<close>

definition removal_key :: "node_id \<times> side \<times> relationship_id \<Rightarrow> nat" where
  "removal_key = (\<lambda>(i, s, rel). (unat i * 2 + (if s = In then 1 else 0)) * 2 ^ 64 + unat rel)"

function flush_groups :: "pending_adj_removals \<Rightarrow> graph \<Rightarrow> graph" where
  "flush_groups [] g = g"
| "flush_groups ((i, s, rel) # ps) g =
     (let grouped = (\<lambda>(j, t, _). j = i \<and> t = s);
          rels = rel # map (\<lambda>(_, _, r). r) (takeWhile grouped ps);
          g = (if adjacency_at g i s = [] then g else change_adjacency i (adj_remove_all s rels) g)
      in flush_groups (dropWhile grouped ps) g)"
  by pat_completeness auto

termination
  by (relation "measure (\<lambda>(ps, g). length ps)") (simp_all add: less_Suc_eq_le length_dropWhile_le)

definition flush_adjacency_removals :: "pending_adj_removals \<Rightarrow> graph \<Rightarrow> graph" where
  "flush_adjacency_removals pending g = flush_groups (sort_key removal_key pending) g"

section \<open>The hooks of a mutation\<close>

definition on_node_created :: "node_record \<Rightarrow> graph \<Rightarrow> graph" where
  "on_node_created node g = g\<lparr>gr_nodes_by_label := fold (index_add (nr_id node)) (nr_labels node) (gr_nodes_by_label g)\<rparr>"

definition on_node_label_added :: "node_id \<Rightarrow> string \<Rightarrow> graph \<Rightarrow> graph" where
  "on_node_label_added i label g = g\<lparr>gr_nodes_by_label := index_add i label (gr_nodes_by_label g)\<rparr>"

definition on_node_label_removed :: "node_id \<Rightarrow> string \<Rightarrow> graph \<Rightarrow> graph" where
  "on_node_label_removed i label g = g\<lparr>gr_nodes_by_label := index_drop i label (gr_nodes_by_label g)\<rparr>"

definition on_node_deleted :: "node_record \<Rightarrow> graph \<Rightarrow> graph" where
  "on_node_deleted node g = g\<lparr>gr_nodes_by_label := fold (index_drop (nr_id node)) (nr_labels node) (gr_nodes_by_label g)\<rparr>"

definition attach_relationship :: "relationship_record \<Rightarrow> graph \<Rightarrow> graph" where
  "attach_relationship rel g =
     (let (type_id, types) = id_or_insert (rr_type rel) (gr_types g);
          g = g\<lparr>gr_types := types\<rparr>;
          g = adjacency_push (rr_src rel) Out \<lparr>ae_type = type_id, ae_neighbour = rr_dst rel, ae_rel = rr_id rel\<rparr> g;
          g = adjacency_push (rr_dst rel) In \<lparr>ae_type = type_id, ae_neighbour = rr_src rel, ae_rel = rr_id rel\<rparr> g
      in g\<lparr>gr_rels_by_type := index_add (rr_id rel) (rr_type rel) (gr_rels_by_type g)\<rparr>)"

definition on_relationship_created :: "relationship_record \<Rightarrow> graph \<Rightarrow> graph" where
  "on_relationship_created rel g = attach_relationship rel g"

definition detach_relationship_indexes :: "relationship_record \<Rightarrow> pending_adj_removals option \<Rightarrow> graph \<Rightarrow>
    pending_adj_removals option \<times> graph" where
  "detach_relationship_indexes rel pending g =
     (let (pending, g) = adjacency_remove (rr_src rel) Out (rr_id rel) pending g;
          (pending, g) = adjacency_remove (rr_dst rel) In (rr_id rel) pending g
      in (pending, g\<lparr>gr_rels_by_type := index_drop (rr_id rel) (rr_type rel) (gr_rels_by_type g)\<rparr>))"

definition on_relationship_deleted :: "relationship_record \<Rightarrow> pending_adj_removals option \<Rightarrow> graph \<Rightarrow>
    pending_adj_removals option \<times> graph" where
  "on_relationship_deleted rel pending g = detach_relationship_indexes rel pending g"

definition take_node :: "node_id \<Rightarrow> graph \<Rightarrow> (node_record \<times> graph) option" where
  "take_node i g = (case node_at g i of
      None \<Rightarrow> None
    | Some node \<Rightarrow> Some (node, clear_adjacency i
        (g\<lparr>gr_nodes := (gr_nodes g)[unat i := None], gr_live_nodes := gr_live_nodes g - 1\<rparr>)))"

definition take_rel :: "relationship_id \<Rightarrow> graph \<Rightarrow> (relationship_record \<times> graph) option" where
  "take_rel i g = (case rel_at g i of
      None \<Rightarrow> None
    | Some rel \<Rightarrow> Some (rel, g\<lparr>gr_relationships := (gr_relationships g)[unat i := None],
        gr_live_rels := gr_live_rels g - 1\<rparr>))"

section \<open>Mutations\<close>

definition try_create_node :: "string list \<Rightarrow> properties \<Rightarrow> graph \<Rightarrow> node_record option \<times> graph" where
  "try_create_node labels properties g = (case try_reserve_next_node_slot g of
      None \<Rightarrow> (None, g)
    | Some (i, idx, g) \<Rightarrow>
        let labels = normalize_labels labels;
            node = \<lparr>nr_id = i, nr_labels = labels, nr_properties = properties\<rparr>;
            g = on_node_created node (put_node_at_slot idx node g)
        in (Some node, graph_emit (CreateNode i labels properties) g))"

definition create_relationship :: "node_id \<Rightarrow> node_id \<Rightarrow> string \<Rightarrow> properties \<Rightarrow> graph \<Rightarrow>
    relationship_record option \<times> graph" where
  "create_relationship src dst rel_type properties g =
     (if \<not> has_node_at g src \<or> \<not> has_node_at g dst then (None, g)
      else let trimmed = trim rel_type in
        if trimmed = [] then (None, g)
        else (case try_reserve_next_rel_slot g of
            None \<Rightarrow> (None, g)
          | Some (i, idx, g) \<Rightarrow>
              let rel = \<lparr>rr_id = i, rr_src = src, rr_dst = dst, rr_type = trimmed, rr_properties = properties\<rparr>;
                  g = on_relationship_created rel (put_rel_at_slot idx rel g)
              in (Some rel, graph_emit (CreateRelationship i src dst trimmed properties) g)))"

definition set_node_property :: "node_id \<Rightarrow> string \<Rightarrow> property_value \<Rightarrow> graph \<Rightarrow> bool \<times> graph" where
  "set_node_property i key v g = (case edit_node_property i key (PropSet v) g of
      None \<Rightarrow> (False, g) | Some (old, g) \<Rightarrow> (True, graph_emit (SetNodeProperty i key v) g))"

definition remove_node_property :: "node_id \<Rightarrow> string \<Rightarrow> graph \<Rightarrow> bool \<times> graph" where
  "remove_node_property i key g = (case edit_node_property i key PropRemove g of
      Some (Some old, g) \<Rightarrow> (True, graph_emit (RemoveNodeProperty i key) g) | _ \<Rightarrow> (False, g))"

fun emit_edits :: "node_id \<Rightarrow> node_edits \<Rightarrow> property_value option option list \<Rightarrow> graph \<Rightarrow> graph" where
  "emit_edits i ((key, v) # edits) (old # olds) g =
     emit_edits i edits olds (case old of
         None \<Rightarrow> g
       | Some _ \<Rightarrow> graph_emit (case v of Some v \<Rightarrow> SetNodeProperty i key v | None \<Rightarrow> RemoveNodeProperty i key) g)"
| "emit_edits i _ _ g = g"

definition update_node_properties :: "node_id \<Rightarrow> node_edits \<Rightarrow> graph \<Rightarrow> bool \<times> graph" where
  "update_node_properties i edits g = (case edit_node_properties i edits g of
      None \<Rightarrow> (False, g) | Some (olds, g) \<Rightarrow> (True, emit_edits i edits olds g))"

definition add_node_label :: "node_id \<Rightarrow> string \<Rightarrow> graph \<Rightarrow> bool \<times> graph" where
  "add_node_label i label g = (let label = trim label in
     if label = [] then (False, g)
     else (case node_at g i of
         None \<Rightarrow> (False, g)
       | Some node \<Rightarrow> if label \<in> set (nr_labels node) then (False, g)
           else (case update_node i (\<lambda>node. node\<lparr>nr_labels := nr_labels node @ [label]\<rparr>) g of
               None \<Rightarrow> (False, g)
             | Some g \<Rightarrow> (True, graph_emit (AddNodeLabel i label) (on_node_label_added i label g)))))"

definition remove_node_label :: "node_id \<Rightarrow> string \<Rightarrow> graph \<Rightarrow> bool \<times> graph" where
  "remove_node_label i label g = (case node_at g i of
      None \<Rightarrow> (False, g)
    | Some node \<Rightarrow> if label \<notin> set (nr_labels node) then (False, g)
        else (case update_node i (\<lambda>node. node\<lparr>nr_labels := filter (\<lambda>l. l \<noteq> label) (nr_labels node)\<rparr>) g of
            None \<Rightarrow> (False, g)
          | Some g \<Rightarrow> (True, graph_emit (RemoveNodeLabel i label) (on_node_label_removed i label g))))"

definition set_relationship_property :: "relationship_id \<Rightarrow> string \<Rightarrow> property_value \<Rightarrow> graph \<Rightarrow> bool \<times> graph" where
  "set_relationship_property i key v g = (case edit_rel_property i key (PropSet v) g of
      None \<Rightarrow> (False, g) | Some (old, g) \<Rightarrow> (True, graph_emit (SetRelationshipProperty i key v) g))"

definition remove_relationship_property :: "relationship_id \<Rightarrow> string \<Rightarrow> graph \<Rightarrow> bool \<times> graph" where
  "remove_relationship_property i key g = (case edit_rel_property i key PropRemove g of
      Some (Some old, g) \<Rightarrow> (True, graph_emit (RemoveRelationshipProperty i key) g) | _ \<Rightarrow> (False, g))"

definition delete_relationship_deferring :: "relationship_id \<Rightarrow> pending_adj_removals option \<Rightarrow> graph \<Rightarrow>
    bool \<times> pending_adj_removals option \<times> graph" where
  "delete_relationship_deferring i pending g = (case take_rel i g of
      None \<Rightarrow> (False, pending, g)
    | Some (rel, g) \<Rightarrow>
        let (pending, g) = on_relationship_deleted rel pending g in
        (True, pending, graph_emit (DeleteRelationship i) g))"

definition delete_relationship :: "relationship_id \<Rightarrow> graph \<Rightarrow> bool \<times> graph" where
  "delete_relationship i g = (let (deleted, _, g) = delete_relationship_deferring i None g in (deleted, g))"

fun delete_each :: "relationship_id list \<Rightarrow> pending_adj_removals option \<Rightarrow> graph \<Rightarrow>
    nat \<times> pending_adj_removals option \<times> graph" where
  "delete_each [] pending g = (0, pending, g)"
| "delete_each (i # is) pending g =
     (let (deleted, pending, g) = delete_relationship_deferring i pending g;
          (n, pending, g) = delete_each is pending g
      in ((if deleted then n + 1 else n), pending, g))"

definition delete_relationships :: "relationship_id list \<Rightarrow> graph \<Rightarrow> nat \<times> graph" where
  "delete_relationships is g = (let (n, pending, g) = delete_each is (Some []) g in
     (n, flush_adjacency_removals (the pending) g))"

definition has_incident_relationships :: "graph \<Rightarrow> node_id \<Rightarrow> bool" where
  "has_incident_relationships g i \<longleftrightarrow> adjacency_at g i Out \<noteq> [] \<or> adjacency_at g i In \<noteq> []"

definition delete_node :: "node_id \<Rightarrow> graph \<Rightarrow> bool \<times> graph" where
  "delete_node i g =
     (if \<not> has_node_at g i then (False, g)
      else if has_incident_relationships g i then (False, g)
      else (case take_node i g of
          None \<Rightarrow> (False, g)
        | Some (node, g) \<Rightarrow> (True, graph_emit (DeleteNode i) (on_node_deleted node g))))"

section \<open>Walking the adjacency\<close>

text \<open>\<open>try_for_each_adjacent_id_unchecked\<close>, the visited pairs in order.\<close>

definition adjacent_ids_unchecked :: "graph \<Rightarrow> node_id \<Rightarrow> direction \<Rightarrow> string list \<Rightarrow>
    (relationship_id \<times> node_id) list" where
  "adjacent_ids_unchecked g i dir types = (let flt = filter_resolve (gr_types g) types in
     if flt = FilterNothing then []
     else (if dir \<noteq> DirLeft then adjacent_entries i flt False (adjacency_at g i Out) else []) @
       (if dir \<noteq> DirRight then adjacent_entries i flt (dir = Undirected) (adjacency_at g i In) else []))"

definition expand_ids :: "graph \<Rightarrow> node_id \<Rightarrow> direction \<Rightarrow> string list \<Rightarrow> (relationship_id \<times> node_id) list" where
  "expand_ids g i dir types = (if has_node_at g i then adjacent_ids_unchecked g i dir types else [])"

definition incident_relationship_ids :: "graph \<Rightarrow> node_id \<Rightarrow> relationship_id list" where
  "incident_relationship_ids g i = map fst (adjacent_ids_unchecked g i Undirected [])"

definition degree :: "graph \<Rightarrow> node_id \<Rightarrow> direction \<Rightarrow> nat" where
  "degree g i dir = (let out = length (adjacency_at g i Out) in case dir of
      DirRight \<Rightarrow> out
    | DirLeft \<Rightarrow> length (adjacency_at g i In)
    | Undirected \<Rightarrow> out + length (filter (\<lambda>e. ae_neighbour e \<noteq> i) (adjacency_at g i In)))"

section \<open>Deleting nodes with their relationships\<close>

definition detach_delete_deferring :: "node_id \<Rightarrow> pending_adj_removals \<Rightarrow> graph \<Rightarrow>
    bool \<times> pending_adj_removals \<times> graph" where
  "detach_delete_deferring i pending g =
     (if \<not> has_node_at g i then (False, pending, g)
      else let rel_ids = incident_relationship_ids g i;
               (_, pending, g) = delete_each rel_ids (Some pending) (clear_adjacency i g);
               (deleted, g) = delete_node i g
           in (deleted, the pending, if deleted then graph_emit (DetachDeleteNode i) g else g))"

fun detach_each :: "node_id list \<Rightarrow> pending_adj_removals \<Rightarrow> graph \<Rightarrow> nat \<times> pending_adj_removals \<times> graph" where
  "detach_each [] pending g = (0, pending, g)"
| "detach_each (i # is) pending g =
     (let (deleted, pending, g) = detach_delete_deferring i pending g;
          (n, pending, g) = detach_each is pending g
      in ((if deleted then n + 1 else n), pending, g))"

definition detach_delete_nodes :: "node_id list \<Rightarrow> graph \<Rightarrow> nat \<times> graph" where
  "detach_delete_nodes is g = (let (n, pending, g) = detach_each is [] g in
     (n, flush_adjacency_removals pending g))"

definition detach_delete_node :: "node_id \<Rightarrow> graph \<Rightarrow> bool \<times> graph" where
  "detach_delete_node i g = (let (n, g) = detach_delete_nodes [i] g in (n = 1, g))"

definition clear_graph :: "graph \<Rightarrow> graph" where
  "clear_graph g = graph_emit ClearGraph (graph_default (ss_recorder (gr_schema g)))"

section \<open>Replaying creations\<close>

definition replay_create_node :: "node_id \<Rightarrow> string list \<Rightarrow> properties \<Rightarrow> graph \<Rightarrow> graph_error + graph" where
  "replay_create_node i labels properties g =
     (if ss_recorder (gr_schema g) \<noteq> None then Inl RecorderInstalled
      else if has_node_at g i then Inl (NodeIdExists i)
      else ebind (ensure_node_slot_checked i g) (\<lambda>(idx, g). ebind (bump_next_node_id_past i g) (\<lambda>g.
        let node = \<lparr>nr_id = i, nr_labels = normalize_labels labels, nr_properties = properties\<rparr> in
        Inr (on_node_created node (put_node_at_slot idx node g)))))"

definition replay_create_relationship :: "relationship_id \<Rightarrow> node_id \<Rightarrow> node_id \<Rightarrow> string \<Rightarrow> properties \<Rightarrow>
    graph \<Rightarrow> graph_error + graph" where
  "replay_create_relationship i src dst rel_type properties g =
     (if ss_recorder (gr_schema g) \<noteq> None then Inl RecorderInstalled
      else if has_rel_at g i then Inl (RelIdExists i)
      else if \<not> has_node_at g src then Inl (MissingSource i src)
      else if \<not> has_node_at g dst then Inl (MissingTarget i dst)
      else let trimmed = trim rel_type in
        if trimmed = [] then Inl (EmptyType i)
        else ebind (ensure_rel_slot_checked i g) (\<lambda>(idx, g). ebind (bump_next_rel_id_past i g) (\<lambda>g.
          let rel = \<lparr>rr_id = i, rr_src = src, rr_dst = dst, rr_type = trimmed, rr_properties = properties\<rparr> in
          Inr (on_relationship_created rel (put_rel_at_slot idx rel g)))))"

end
