(* ===== verification/Graph_Laws.thy ===== *)
theory Graph_Laws
  imports Graph_Store
begin

text \<open>
  The invariant of the graph and its preservation: ids and slots, endpoints that exist, adjacency lists
  that list exactly the relationships, label and type indexes that list exactly the records, and live
  counts. The proofs read the slots as partial functions of the id.
\<close>

section \<open>Slots as partial functions\<close>

lemma view_simps [simp]:
  "node_at (g\<lparr>gr_next_node_id := x0\<rparr>) = node_at g"
  "node_at (g\<lparr>gr_next_rel_id := x1\<rparr>) = node_at g"
  "node_at (g\<lparr>gr_relationships := x3\<rparr>) = node_at g"
  "node_at (g\<lparr>gr_types := x4\<rparr>) = node_at g"
  "node_at (g\<lparr>gr_live_nodes := x5\<rparr>) = node_at g"
  "node_at (g\<lparr>gr_live_rels := x6\<rparr>) = node_at g"
  "node_at (g\<lparr>gr_adjacency := x7\<rparr>) = node_at g"
  "node_at (g\<lparr>gr_nodes_by_label := x8\<rparr>) = node_at g"
  "node_at (g\<lparr>gr_rels_by_type := x9\<rparr>) = node_at g"
  "node_at (g\<lparr>gr_schema := x10\<rparr>) = node_at g"
  "rel_at (g\<lparr>gr_next_node_id := x0\<rparr>) = rel_at g"
  "rel_at (g\<lparr>gr_next_rel_id := x1\<rparr>) = rel_at g"
  "rel_at (g\<lparr>gr_nodes := x2\<rparr>) = rel_at g"
  "rel_at (g\<lparr>gr_types := x4\<rparr>) = rel_at g"
  "rel_at (g\<lparr>gr_live_nodes := x5\<rparr>) = rel_at g"
  "rel_at (g\<lparr>gr_live_rels := x6\<rparr>) = rel_at g"
  "rel_at (g\<lparr>gr_adjacency := x7\<rparr>) = rel_at g"
  "rel_at (g\<lparr>gr_nodes_by_label := x8\<rparr>) = rel_at g"
  "rel_at (g\<lparr>gr_rels_by_type := x9\<rparr>) = rel_at g"
  "rel_at (g\<lparr>gr_schema := x10\<rparr>) = rel_at g"
  "adjacency_at (g\<lparr>gr_next_node_id := x0\<rparr>) = adjacency_at g"
  "adjacency_at (g\<lparr>gr_next_rel_id := x1\<rparr>) = adjacency_at g"
  "adjacency_at (g\<lparr>gr_nodes := x2\<rparr>) = adjacency_at g"
  "adjacency_at (g\<lparr>gr_relationships := x3\<rparr>) = adjacency_at g"
  "adjacency_at (g\<lparr>gr_types := x4\<rparr>) = adjacency_at g"
  "adjacency_at (g\<lparr>gr_live_nodes := x5\<rparr>) = adjacency_at g"
  "adjacency_at (g\<lparr>gr_live_rels := x6\<rparr>) = adjacency_at g"
  "adjacency_at (g\<lparr>gr_nodes_by_label := x8\<rparr>) = adjacency_at g"
  "adjacency_at (g\<lparr>gr_rels_by_type := x9\<rparr>) = adjacency_at g"
  "adjacency_at (g\<lparr>gr_schema := x10\<rparr>) = adjacency_at g"
  by (simp_all add: node_at_def rel_at_def adjacency_at_def fun_eq_iff)

lemma slot_get_update: "slot_get (unat (j :: u64)) (xs[unat i := v]) =
  (if j = i \<and> unat i < length xs then v else slot_get (unat j) xs)"
  by (simp add: slot_get_def nth_list_update word_unat_eq_iff)

lemma slot_get_grow [simp]: "slot_get i (grow_to n None xs) = slot_get i xs"
  by (auto simp: slot_get_def grow_to_def nth_append)

lemma length_grow [simp]: "length (grow_to n x xs) = max n (length xs)"
  by (simp add: grow_to_def)

lemma grow_id [simp]: "n \<le> length xs \<Longrightarrow> grow_to n x xs = xs"
  by (simp add: grow_to_def)

lemma node_at_update:
  "node_at (g\<lparr>gr_nodes := (gr_nodes g)[unat i := v]\<rparr>) =
     (if unat i < length (gr_nodes g) then (node_at g)(i := v) else node_at g)"
  by (auto simp: node_at_def slot_get_update fun_eq_iff)

lemma rel_at_update:
  "rel_at (g\<lparr>gr_relationships := (gr_relationships g)[unat i := v]\<rparr>) =
     (if unat i < length (gr_relationships g) then (rel_at g)(i := v) else rel_at g)"
  by (auto simp: rel_at_def slot_get_update fun_eq_iff)

lemma node_at_grow: "xs = gr_nodes g \<Longrightarrow> node_at (g\<lparr>gr_nodes := grow_to n None xs\<rparr>) = node_at g"
  by (simp add: node_at_def fun_eq_iff)

lemma rel_at_grow: "xs = gr_relationships g \<Longrightarrow> rel_at (g\<lparr>gr_relationships := grow_to n None xs\<rparr>) = rel_at g"
  by (simp add: rel_at_def fun_eq_iff)

lemma adjacency_at_grow:
  "as = gr_adjacency g \<Longrightarrow> adjacency_at (g\<lparr>gr_adjacency := grow_to n adj_empty as\<rparr>) = adjacency_at g"
  by (auto simp: adjacency_at_def grow_to_def nth_append fun_eq_iff)

lemma adjacency_at_update:
  "adjacency_at (g\<lparr>gr_adjacency := (gr_adjacency g)[unat i := a]\<rparr>) =
     (if unat i < length (gr_adjacency g) then (adjacency_at g)(i := (\<lambda>s. adj_side s a)) else adjacency_at g)"
  by (simp add: adjacency_at_def nth_list_update fun_eq_iff word_unat_eq_iff)

lemma node_at_bound: "node_at g i = Some n \<Longrightarrow> unat i < length (gr_nodes g)"
  by (simp add: node_at_def slot_get_def split: if_splits)

lemma rel_at_bound: "rel_at g i = Some r \<Longrightarrow> unat i < length (gr_relationships g)"
  by (simp add: rel_at_def slot_get_def split: if_splits)

section \<open>The invariant\<close>

definition slots_ok :: "graph \<Rightarrow> bool" where
  "slots_ok g \<longleftrightarrow> length (gr_nodes g) = unat (gr_next_node_id g) \<and> length (gr_adjacency g) = length (gr_nodes g) \<and>
     length (gr_relationships g) = unat (gr_next_rel_id g) \<and>
     gr_next_node_id g \<le> MAX_ENTITY_ID + 1 \<and> gr_next_rel_id g \<le> MAX_ENTITY_ID + 1"

definition node_ok :: "node_id \<Rightarrow> node_record \<Rightarrow> bool" where
  "node_ok i n \<longleftrightarrow> nr_id n = i \<and> labels_ok (nr_labels n) \<and> sorted_keys (nr_properties n)"

definition nodes_ok :: "(node_id \<Rightarrow> node_record option) \<Rightarrow> bool" where
  "nodes_ok N \<longleftrightarrow> (\<forall>i n. N i = Some n \<longrightarrow> node_ok i n)"

definition rels_ok :: "string list \<Rightarrow> (node_id \<Rightarrow> node_record option) \<Rightarrow>
    (relationship_id \<Rightarrow> relationship_record option) \<Rightarrow> bool" where
  "rels_ok types N R \<longleftrightarrow> (\<forall>i r. R i = Some r \<longrightarrow> rr_id r = i \<and> N (rr_src r) \<noteq> None \<and> N (rr_dst r) \<noteq> None \<and>
     rr_type r \<noteq> [] \<and> trimmed (rr_type r) \<and> rr_type r \<in> set types \<and> sorted_keys (rr_properties r))"

text \<open>The entry of a relationship in the list of its near end on one side.\<close>

definition near_end :: "side \<Rightarrow> relationship_record \<Rightarrow> node_id" where
  "near_end s r = (case s of Out \<Rightarrow> rr_src r | In \<Rightarrow> rr_dst r)"

definition far_end :: "side \<Rightarrow> relationship_record \<Rightarrow> node_id" where
  "far_end s r = (case s of Out \<Rightarrow> rr_dst r | In \<Rightarrow> rr_src r)"

definition entry_of :: "string list \<Rightarrow> side \<Rightarrow> relationship_record \<Rightarrow> adj_entry" where
  "entry_of types s r = \<lparr>ae_type = the (id_of types (rr_type r)), ae_neighbour = far_end s r, ae_rel = rr_id r\<rparr>"

definition adjacency_ok :: "string list \<Rightarrow> (relationship_id \<Rightarrow> relationship_record option) \<Rightarrow>
    (node_id \<Rightarrow> side \<Rightarrow> adj_entry list) \<Rightarrow> bool" where
  "adjacency_ok types R A \<longleftrightarrow> (\<forall>i s. distinct (map ae_rel (A i s)) \<and>
     set (A i s) = {entry_of types s r | r. R (rr_id r) = Some r \<and> near_end s r = i})"

definition labels_indexed :: "(node_id \<Rightarrow> node_record option) \<Rightarrow> name_index \<Rightarrow> bool" where
  "labels_indexed N idx \<longleftrightarrow> index_ok idx \<and>
     (\<forall>l. set (index_ids idx l) = {i. \<exists>n. N i = Some n \<and> l \<in> set (nr_labels n)})"

definition types_indexed :: "(relationship_id \<Rightarrow> relationship_record option) \<Rightarrow> name_index \<Rightarrow> bool" where
  "types_indexed R idx \<longleftrightarrow> index_ok idx \<and> (\<forall>t. set (index_ids idx t) = {i. \<exists>r. R i = Some r \<and> rr_type r = t})"

definition counts_ok :: "graph \<Rightarrow> bool" where
  "counts_ok g \<longleftrightarrow> gr_live_nodes g = card (dom (node_at g)) \<and> gr_live_rels g = card (dom (rel_at g))"

definition graph_ok :: "graph \<Rightarrow> bool" where
  "graph_ok g \<longleftrightarrow> slots_ok g \<and> nodes_ok (node_at g) \<and> rels_ok (gr_types g) (node_at g) (rel_at g) \<and>
     adjacency_ok (gr_types g) (rel_at g) (adjacency_at g) \<and>
     labels_indexed (node_at g) (gr_nodes_by_label g) \<and> types_indexed (rel_at g) (gr_rels_by_type g) \<and> counts_ok g"

section \<open>Recording\<close>

lemma graph_emit_simps [simp]:
  "node_at (graph_emit e g) = node_at g" "rel_at (graph_emit e g) = rel_at g"
  "adjacency_at (graph_emit e g) = adjacency_at g"
  "gr_types (graph_emit e g) = gr_types g" "gr_nodes_by_label (graph_emit e g) = gr_nodes_by_label g"
  "gr_rels_by_type (graph_emit e g) = gr_rels_by_type g"
  by (simp_all add: graph_emit_def)

lemma graph_ok_schema [simp]: "graph_ok (g\<lparr>gr_schema := x\<rparr>) = graph_ok g"
  by (simp add: graph_ok_def slots_ok_def counts_ok_def)

lemma graph_ok_emit [simp]: "graph_ok (graph_emit e g) = graph_ok g"
  by (simp add: graph_emit_def)

section \<open>Editing a record\<close>

lemma graph_ok_edit_node:
  assumes ok: "graph_ok g" and n: "node_at g i = Some n" and n': "node_ok i n'"
    and idx: "labels_indexed ((node_at g)(i \<mapsto> n')) idx"
  shows "graph_ok (g\<lparr>gr_nodes := (gr_nodes g)[unat i := Some n'], gr_nodes_by_label := idx\<rparr>)"
proof -
  have "rels_ok (gr_types g) ((node_at g)(i \<mapsto> n')) (rel_at g)"
    using ok n by (auto simp: graph_ok_def rels_ok_def)
  moreover have "dom ((node_at g)(i \<mapsto> n')) = dom (node_at g)" using n by auto
  ultimately show ?thesis
    using ok n' idx node_at_bound [OF n]
    by (simp add: graph_ok_def slots_ok_def counts_ok_def nodes_ok_def node_at_update)
qed

lemma labels_indexed_same:
  assumes "labels_indexed N idx" and "N i = Some n" and "set (nr_labels n') = set (nr_labels n)"
  shows "labels_indexed (N(i \<mapsto> n')) idx"
  using assms by (auto simp: labels_indexed_def)

lemma graph_ok_edit_node_properties:
  assumes "graph_ok g" and "node_at g i = Some n" and "sorted_keys ps"
  shows "graph_ok (g\<lparr>gr_nodes := (gr_nodes g)[unat i := Some (n\<lparr>nr_properties := ps\<rparr>)]\<rparr>)"
proof -
  have "node_ok i (n\<lparr>nr_properties := ps\<rparr>)" using assms by (auto simp: graph_ok_def nodes_ok_def node_ok_def)
  moreover have "labels_indexed ((node_at g)(i \<mapsto> n\<lparr>nr_properties := ps\<rparr>)) (gr_nodes_by_label g)"
    by (rule labels_indexed_same) (use assms in \<open>simp_all add: graph_ok_def\<close>)
  ultimately show ?thesis using graph_ok_edit_node [OF assms(1,2)] by fastforce
qed

lemma graph_ok_edit_rel:
  assumes ok: "graph_ok g" and r: "rel_at g i = Some r" and ps: "sorted_keys ps"
  shows "graph_ok (g\<lparr>gr_relationships := (gr_relationships g)[unat i := Some (r\<lparr>rr_properties := ps\<rparr>)]\<rparr>)"
proof -
  let ?r = "r\<lparr>rr_properties := ps\<rparr>" and ?R = "(rel_at g)(i \<mapsto> r\<lparr>rr_properties := ps\<rparr>)"
  have i: "rr_id r = i" using ok r by (auto simp: graph_ok_def rels_ok_def)
  have "rels_ok (gr_types g) (node_at g) ?R" using ok r ps by (auto simp: graph_ok_def rels_ok_def)
  moreover have "types_indexed ?R (gr_rels_by_type g)" using ok r by (auto simp: graph_ok_def types_indexed_def)
  moreover have "{entry_of (gr_types g) s x | x. ?R (rr_id x) = Some x \<and> near_end s x = j} =
      {entry_of (gr_types g) s x | x. rel_at g (rr_id x) = Some x \<and> near_end s x = j}" for s j
  proof -
    have same: "entry_of (gr_types g) s ?r = entry_of (gr_types g) s r" "near_end s ?r = near_end s r"
      by (simp_all add: entry_of_def far_end_def near_end_def split: side.split)
    show ?thesis (is "?L = ?S")
    proof (intro set_eqI iffI)
      fix e assume "e \<in> ?L"
      then obtain x where x: "e = entry_of (gr_types g) s x" "?R (rr_id x) = Some x" "near_end s x = j" by blast
      then show "e \<in> ?S" using same r i by (cases "rr_id x = i") (auto 4 3)
    next
      fix e assume "e \<in> ?S"
      then obtain x where x: "e = entry_of (gr_types g) s x" "rel_at g (rr_id x) = Some x" "near_end s x = j" by blast
      then show "e \<in> ?L" using same r i by (cases "rr_id x = i") (auto 4 4 intro: exI [of _ ?r] exI [of _ x])
    qed
  qed
  then have "adjacency_ok (gr_types g) ?R (adjacency_at g)"
    using ok by (simp add: graph_ok_def adjacency_ok_def)
  moreover have "dom ?R = dom (rel_at g)" using r by auto
  ultimately show ?thesis
    using ok rel_at_bound [OF r] by (simp add: graph_ok_def slots_ok_def counts_ok_def rel_at_update)
qed

lemma sorted_edit_property:
  "edit_property key edit ps = Some (old, ps') \<Longrightarrow> sorted_keys ps \<Longrightarrow> sorted_keys ps'"
  by (auto simp: edit_property_def sorted_keys_btree_insert sorted_keys_btree_remove split: prop_edit.splits option.splits)

lemma sorted_edit_properties:
  "edit_properties edits ps = (olds, ps') \<Longrightarrow> sorted_keys ps \<Longrightarrow> sorted_keys ps'"
  by (induction edits ps arbitrary: olds ps' rule: edit_properties.induct)
    (auto simp: Let_def dest: sorted_edit_property split: option.splits prod.splits)

lemma graph_node_sorted: "graph_ok g \<Longrightarrow> node_at g i = Some n \<Longrightarrow> sorted_keys (nr_properties n)"
  by (auto simp: graph_ok_def nodes_ok_def node_ok_def)

lemma graph_rel_sorted: "graph_ok g \<Longrightarrow> rel_at g i = Some r \<Longrightarrow> sorted_keys (rr_properties r)"
  by (auto simp: graph_ok_def rels_ok_def)

lemma edit_node_property_ok:
  "edit_node_property i key edit g = Some (old, g') \<Longrightarrow> graph_ok g \<Longrightarrow> graph_ok g'"
  by (auto simp: edit_node_property_def bind_eq_Some_conv intro!: graph_ok_edit_node_properties
      dest: sorted_edit_property graph_node_sorted)

lemma edit_rel_property_ok:
  "edit_rel_property i key edit g = Some (old, g') \<Longrightarrow> graph_ok g \<Longrightarrow> graph_ok g'"
  by (auto simp: edit_rel_property_def bind_eq_Some_conv intro!: graph_ok_edit_rel
      dest: sorted_edit_property graph_rel_sorted)

lemma edit_node_properties_ok:
  "edit_node_properties i edits g = Some (olds, g') \<Longrightarrow> graph_ok g \<Longrightarrow> graph_ok g'"
  by (auto simp: edit_node_properties_def Let_def intro!: graph_ok_edit_node_properties
      dest: sorted_edit_properties graph_node_sorted split: option.splits prod.splits)

lemma graph_ok_emit_edits [simp]: "graph_ok (emit_edits i edits olds g) = graph_ok g"
  by (induction i edits olds g rule: emit_edits.induct) (simp_all split: option.split)

lemma property_steps_ok:
  assumes "graph_ok g"
  shows "graph_ok (snd (set_node_property i key v g))" and "graph_ok (snd (remove_node_property i key g))"
    and "graph_ok (snd (update_node_properties i edits g))"
    and "graph_ok (snd (set_relationship_property i key v g))"
    and "graph_ok (snd (remove_relationship_property i key g))"
  using assms edit_node_property_ok edit_rel_property_ok edit_node_properties_ok
  by (auto simp: set_node_property_def remove_node_property_def update_node_properties_def
      set_relationship_property_def remove_relationship_property_def split: option.split)

section \<open>Labels\<close>

lemma labels_indexed_add:
  assumes "labels_indexed N idx" and "N i = Some n" and "set (nr_labels n') = insert l (set (nr_labels n))"
  shows "labels_indexed (N(i \<mapsto> n')) (index_add i l idx)"
  using assms by (auto simp: labels_indexed_def index_add_ok set_index_add)

lemma labels_indexed_drop:
  assumes "labels_indexed N idx" and "N i = Some n" and "set (nr_labels n') = set (nr_labels n) - {l}"
  shows "labels_indexed (N(i \<mapsto> n')) (index_drop i l idx)"
  using assms by (auto simp: labels_indexed_def index_drop_ok set_index_drop)

lemma add_node_label_ok:
  assumes ok: "graph_ok g"
  shows "graph_ok (snd (add_node_label i label g))"
proof (cases "node_at g i")
  case None
  then show ?thesis using ok by (simp add: add_node_label_def Let_def)
next
  case (Some n)
  let ?l = "trim label" and ?n = "n\<lparr>nr_labels := nr_labels n @ [trim label]\<rparr>"
  show ?thesis
  proof (cases "?l = [] \<or> ?l \<in> set (nr_labels n)")
    case True
    then show ?thesis using ok Some by (auto simp: add_node_label_def Let_def)
  next
    case False
    have "node_ok i ?n" using ok Some False
      by (auto simp: graph_ok_def nodes_ok_def node_ok_def labels_ok_def)
    moreover have "labels_indexed ((node_at g)(i \<mapsto> ?n)) (index_add i ?l (gr_nodes_by_label g))"
      by (rule labels_indexed_add [where n=n]) (use ok Some in \<open>auto simp: graph_ok_def\<close>)
    ultimately show ?thesis using graph_ok_edit_node [OF ok Some] False Some
      by (simp add: add_node_label_def Let_def update_node_def on_node_label_added_def)
  qed
qed

lemma remove_node_label_ok:
  assumes ok: "graph_ok g"
  shows "graph_ok (snd (remove_node_label i label g))"
proof (cases "node_at g i")
  case None
  then show ?thesis using ok by (simp add: remove_node_label_def)
next
  case (Some n)
  let ?n = "n\<lparr>nr_labels := filter (\<lambda>l. l \<noteq> label) (nr_labels n)\<rparr>"
  have "node_ok i ?n" using ok Some by (auto simp: graph_ok_def nodes_ok_def node_ok_def labels_ok_def)
  moreover have "labels_indexed ((node_at g)(i \<mapsto> ?n)) (index_drop i label (gr_nodes_by_label g))"
    by (rule labels_indexed_drop [where n=n]) (use ok Some in \<open>auto simp: graph_ok_def\<close>)
  ultimately show ?thesis using graph_ok_edit_node [OF ok Some] Some ok
    by (simp add: remove_node_label_def update_node_def on_node_label_removed_def)
qed

section \<open>Opening a slot\<close>

lemma slot_len_for_id_Inr: "slot_len_for_id i = Inr n \<longleftrightarrow> i \<le> MAX_ENTITY_ID \<and> n = unat i + 1"
  by (auto simp: slot_len_for_id_def)

lemma max_entity_next: "i \<le> MAX_ENTITY_ID \<Longrightarrow> unat (i + 1) = unat i + 1 \<and> i + 1 \<le> MAX_ENTITY_ID + 1 \<and> i \<noteq> - 1"
proof -
  assume i: "i \<le> MAX_ENTITY_ID"
  have m: "unat MAX_ENTITY_ID = 2 ^ 34 - 1" by (simp add: MAX_ENTITY_ID_def)
  have u: "unat i < 2 ^ 34" using i m by (simp add: word_le_nat_alt)
  then have n: "unat (i + 1) = unat i + 1" by (subst unat_add_lem [THEN iffD1]) simp_all
  have "unat (MAX_ENTITY_ID + 1) = 2 ^ 34" by (simp add: MAX_ENTITY_ID_def)
  then have "i + 1 \<le> MAX_ENTITY_ID + 1" using n u by (simp add: word_le_nat_alt)
  moreover have "i \<noteq> - 1" using n by auto
  ultimately show ?thesis using n by blast
qed

lemma next_slots:
  assumes "length xs = unat (m :: u64)" and "i \<le> MAX_ENTITY_ID" and "m \<le> MAX_ENTITY_ID + 1"
  shows "max (unat i + 1) (length xs) = unat (max m (i + 1))" and "max m (i + 1) \<le> MAX_ENTITY_ID + 1"
  using assms max_entity_next [OF assms(2)] by (auto simp: max_def word_le_nat_alt split: if_splits)

lemma open_node_slot:
  assumes ok: "graph_ok g" and slot: "ensure_node_slot_checked i g = Inr (idx, g1)"
    and bump: "bump_next_node_id_past i g1 = Inr g2"
  shows "graph_ok g2" "idx = unat i" "unat i < length (gr_nodes g2)" "node_at g2 = node_at g"
    "gr_nodes_by_label g2 = gr_nodes_by_label g"
proof -
  have i: "i \<le> MAX_ENTITY_ID" and g2: "idx = unat i"
    "g2 = g\<lparr>gr_nodes := grow_to (unat i + 1) None (gr_nodes g),
        gr_adjacency := grow_to (unat i + 1) adj_empty (gr_adjacency g),
        gr_next_node_id := max (gr_next_node_id g) (i + 1)\<rparr>"
    using slot bump
    by (auto simp: ensure_node_slot_checked_def bump_next_node_id_past_def checked_next_id_def
        slot_len_for_id_Inr split: if_splits)
  have n: "node_at g2 = node_at g" by (simp add: g2 node_at_grow)
  moreover have "adjacency_at g2 = adjacency_at g" "rel_at g2 = rel_at g"
    by (simp_all add: g2 adjacency_at_grow)
  moreover have "slots_ok g2" using ok i next_slots [of "gr_nodes g" "gr_next_node_id g" i]
    by (simp add: slots_ok_def g2 graph_ok_def)
  ultimately show "graph_ok g2" using ok by (simp add: graph_ok_def counts_ok_def g2(2))
  show "idx = unat i" "unat i < length (gr_nodes g2)" "gr_nodes_by_label g2 = gr_nodes_by_label g"
    by (simp_all add: g2)
  show "node_at g2 = node_at g" by (fact n)
qed

lemma open_rel_slot:
  assumes ok: "graph_ok g" and slot: "ensure_rel_slot_checked i g = Inr (idx, g1)"
    and bump: "bump_next_rel_id_past i g1 = Inr g2"
  shows "graph_ok g2" "idx = unat i" "unat i < length (gr_relationships g2)" "node_at g2 = node_at g"
    "rel_at g2 = rel_at g"
proof -
  have i: "i \<le> MAX_ENTITY_ID" and g2: "idx = unat i"
    "g2 = g\<lparr>gr_relationships := grow_to (unat i + 1) None (gr_relationships g),
        gr_next_rel_id := max (gr_next_rel_id g) (i + 1)\<rparr>"
    using slot bump
    by (auto simp: ensure_rel_slot_checked_def bump_next_rel_id_past_def checked_next_id_def
        slot_len_for_id_Inr split: if_splits)
  have r: "rel_at g2 = rel_at g" by (simp add: g2 rel_at_grow)
  moreover have "slots_ok g2" using ok i next_slots [of "gr_relationships g" "gr_next_rel_id g" i]
    by (simp add: slots_ok_def g2 graph_ok_def)
  ultimately show "graph_ok g2" using ok by (simp add: graph_ok_def counts_ok_def g2(2))
  show "idx = unat i" "unat i < length (gr_relationships g2)" "node_at g2 = node_at g" by (simp_all add: g2)
  show "rel_at g2 = rel_at g" by (fact r)
qed

lemma next_ids_free:
  assumes "slots_ok g"
  shows "node_at g (gr_next_node_id g) = None" and "rel_at g (gr_next_rel_id g) = None"
  using assms by (simp_all add: slots_ok_def node_at_def rel_at_def slot_get_def)

section \<open>Storing a node\<close>

lemma labels_indexed_fold_add:
  "labels_indexed (N(i \<mapsto> n\<lparr>nr_labels := ls\<rparr>)) idx \<Longrightarrow>
   labels_indexed (N(i \<mapsto> n\<lparr>nr_labels := ls @ ls'\<rparr>)) (fold (index_add i) ls' idx)"
proof (induction ls' arbitrary: ls idx)
  case (Cons l ls')
  have "labels_indexed ((N(i \<mapsto> n\<lparr>nr_labels := ls\<rparr>))(i \<mapsto> n\<lparr>nr_labels := ls @ [l]\<rparr>)) (index_add i l idx)"
    by (rule labels_indexed_add [OF Cons.prems, where n="n\<lparr>nr_labels := ls\<rparr>"]) simp_all
  from Cons.IH [OF this [unfolded fun_upd_upd]] show ?case
    by (simp only: fold_simps append_assoc append.simps)
qed simp

lemma labels_indexed_none: "N i = None \<Longrightarrow> labels_indexed N idx \<Longrightarrow> labels_indexed (N(i \<mapsto> n\<lparr>nr_labels := []\<rparr>)) idx"
  by (auto simp: labels_indexed_def)

lemma store_node:
  assumes ok: "graph_ok g" and i: "unat i < length (gr_nodes g)" and free: "node_at g i = None" and n: "node_ok i n"
  shows "graph_ok (on_node_created n (put_node_at_slot (unat i) n g))"
proof -
  let ?g = "put_node_at_slot (unat i) n g" and ?N = "(node_at g)(i \<mapsto> n)"
  have g: "?g = g\<lparr>gr_nodes := (gr_nodes g)[unat i := Some n], gr_live_nodes := gr_live_nodes g + 1\<rparr>"
    using free by (simp add: put_node_at_slot_def node_at_def)
  have N: "node_at ?g = ?N" using i by (simp add: g node_at_update)
  have "nr_id n = i" using n by (simp add: node_ok_def)
  then have "labels_indexed ?N (fold (index_add (nr_id n)) (nr_labels n) (gr_nodes_by_label g))"
    using labels_indexed_fold_add [OF labels_indexed_none [of "node_at g" i "gr_nodes_by_label g" n], of "nr_labels n"] ok free
    by (simp add: graph_ok_def)
  moreover have "finite (dom (node_at g))" by (rule finite)
  then have "card (dom ?N) = card (dom (node_at g)) + 1" using free by (simp add: domIff card_insert_if)
  moreover have "nodes_ok ?N" "rels_ok (gr_types g) ?N (rel_at g)"
    using ok n by (auto simp: graph_ok_def nodes_ok_def rels_ok_def)
  ultimately show ?thesis using ok N
    by (simp add: graph_ok_def slots_ok_def counts_ok_def on_node_created_def g)
qed

lemma try_create_node_ok:
  assumes ok: "graph_ok g" and ps: "sorted_keys properties"
  shows "graph_ok (snd (try_create_node labels properties g))"
proof (cases "try_reserve_next_node_slot g")
  case None
  then show ?thesis using ok by (simp add: try_create_node_def)
next
  case (Some p)
  then obtain i idx g1 g2 where p: "p = (i, idx, g2)" "i = gr_next_node_id g"
    "ensure_node_slot_checked i g = Inr (idx, g1)" "bump_next_node_id_past i g1 = Inr g2"
    by (auto simp: try_reserve_next_node_slot_def Let_def split: sum.splits)
  note o = open_node_slot [OF ok p(3,4)]
  have free: "node_at g2 i = None" using next_ids_free(1) ok o(4) p(2) by (simp add: graph_ok_def)
  have "node_ok i \<lparr>nr_id = i, nr_labels = normalize_labels labels, nr_properties = properties\<rparr>"
    using ps by (simp add: node_ok_def)
  then show ?thesis using store_node [OF o(1,3) free] Some p(1) o(2) by (simp add: try_create_node_def Let_def)
qed

lemma replay_create_node_ok:
  assumes ok: "graph_ok g" and ps: "sorted_keys properties" and "replay_create_node i labels properties g = Inr g'"
  shows "graph_ok g'"
proof -
  from assms(3) obtain idx g1 g2 where p: "ensure_node_slot_checked i g = Inr (idx, g1)"
    "bump_next_node_id_past i g1 = Inr g2" "node_at g i = None"
    "g' = (let n = \<lparr>nr_id = i, nr_labels = normalize_labels labels, nr_properties = properties\<rparr>
       in on_node_created n (put_node_at_slot idx n g2))"
    by (auto simp: replay_create_node_def has_node_at_def Let_def split: if_splits)
  note o = open_node_slot [OF ok p(1,2)]
  have "node_ok i \<lparr>nr_id = i, nr_labels = normalize_labels labels, nr_properties = properties\<rparr>"
    using ps by (simp add: node_ok_def)
  then show ?thesis using store_node [OF o(1,3)] p(3,4) o(2,4) by (simp add: Let_def)
qed

end
