(* ===== verification/Graph_Mutations.thy ===== *)
theory Graph_Mutations
  imports Graph_Laws
begin

text \<open>
  Relationships come and go: creating one adds an entry at both ends, deleting one takes both entries
  away, and a node goes only when nothing is attached to it. With \<open>Graph_Laws\<close> every mutation of the
  graph keeps its invariant.
\<close>

section \<open>The entries a list holds\<close>

definition entries :: "string list \<Rightarrow> (relationship_id \<Rightarrow> relationship_record option) \<Rightarrow> node_id \<Rightarrow> side \<Rightarrow>
    adj_entry set" where
  "entries types R i s = {entry_of types s r | r. R (rr_id r) = Some r \<and> near_end s r = i}"

lemma adjacency_ok_entries: "adjacency_ok types R A \<longleftrightarrow>
    (\<forall>i s. distinct (map ae_rel (A i s)) \<and> set (A i s) = entries types R i s)"
  by (simp add: adjacency_ok_def entries_def)

lemma graph_ok_adjacency:
  assumes "graph_ok g"
  shows "distinct (map ae_rel (adjacency_at g i s))"
    and "set (adjacency_at g i s) = entries (gr_types g) (rel_at g) i s"
  using assms by (auto simp: graph_ok_def adjacency_ok_entries)

lemma entry_of_rel [simp]: "ae_rel (entry_of types s r) = rr_id r"
  by (simp add: entry_of_def)

lemma entries_types:
  assumes "\<And>k x. R k = Some x \<Longrightarrow> rr_type x \<in> set types"
  shows "entries (types @ extra) R i s = entries types R i s"
proof -
  have "entry_of (types @ extra) s x = entry_of types s x" if "R (rr_id x) = Some x" for x
    using assms [OF that] by (simp add: entry_of_def)
  then show ?thesis by (force simp: entries_def)
qed

lemma entries_insert:
  assumes "R (rr_id r) = None"
  shows "entries types (R(rr_id r \<mapsto> r)) i s =
    (if near_end s r = i then insert (entry_of types s r) (entries types R i s) else entries types R i s)"
  using assms by (auto simp: entries_def)

lemma entries_remove: "entries types (R(k := None)) i s = {e \<in> entries types R i s. ae_rel e \<noteq> k}"
  by (auto simp: entries_def)

lemma entries_member: "e \<in> entries types R i s \<Longrightarrow>
    \<exists>r. R (ae_rel e) = Some r \<and> near_end s r = i \<and> e = entry_of types s r"
  by (auto simp: entries_def)

lemma entries_far: "R k = Some r \<Longrightarrow> near_end s r \<noteq> i \<Longrightarrow> k \<notin> ae_rel ` entries types R i s"
  by (metis entries_member imageE option.inject)

section \<open>Storing a relationship\<close>

lemma adjacency_at_change:
  "unat i < length (gr_adjacency g) \<Longrightarrow>
   adjacency_at (change_adjacency i f g) = (adjacency_at g)(i := (\<lambda>s. adj_side s (f (gr_adjacency g ! unat i))))"
  by (simp add: change_adjacency_def adjacency_at_update)

lemma change_adjacency_fields [simp]:
  "gr_nodes (change_adjacency i f g) = gr_nodes g" "gr_relationships (change_adjacency i f g) = gr_relationships g"
  "gr_types (change_adjacency i f g) = gr_types g" "gr_next_node_id (change_adjacency i f g) = gr_next_node_id g"
  "gr_next_rel_id (change_adjacency i f g) = gr_next_rel_id g" "gr_live_nodes (change_adjacency i f g) = gr_live_nodes g"
  "gr_live_rels (change_adjacency i f g) = gr_live_rels g"
  "gr_nodes_by_label (change_adjacency i f g) = gr_nodes_by_label g"
  "gr_rels_by_type (change_adjacency i f g) = gr_rels_by_type g" "gr_schema (change_adjacency i f g) = gr_schema g"
  "length (gr_adjacency (change_adjacency i f g)) = length (gr_adjacency g)"
  "node_at (change_adjacency i f g) = node_at g" "rel_at (change_adjacency i f g) = rel_at g"
  by (simp_all add: change_adjacency_def node_at_def rel_at_def fun_eq_iff)

lemma adjacency_at_edit:
  assumes "unat i < length (gr_adjacency g)" and "\<And>a t. adj_side t (f a) = (if t = s then F (adj_side t a) else adj_side t a)"
  shows "adjacency_at (change_adjacency i f g) j t =
    (if j = i \<and> t = s then F (adjacency_at g i s) else adjacency_at g j t)"
  using assms by (simp add: adjacency_at_change adjacency_at_def)

section \<open>Creating\<close>

definition attached :: "relationship_record \<Rightarrow> graph \<Rightarrow> graph" where
  "attached r g = change_adjacency (rr_dst r) (adj_push In (entry_of (gr_types g) In r))
     (change_adjacency (rr_src r) (adj_push Out (entry_of (gr_types g) Out r)) g)"

lemma adjacency_at_attached:
  assumes "unat (rr_src r) < length (gr_adjacency g)" and "unat (rr_dst r) < length (gr_adjacency g)"
  shows "adjacency_at (attached r g) i s =
    (if i = near_end s r then adjacency_at g i s @ [entry_of (gr_types g) s r] else adjacency_at g i s)"
  using assms
  by (cases s) (simp_all add: attached_def adj_push_def adj_side_update near_end_def
      adjacency_at_edit [where F="\<lambda>es. es @ [entry_of (gr_types g) Out r]" and s=Out]
      adjacency_at_edit [where F="\<lambda>es. es @ [entry_of (gr_types g) In r]" and s=In])

lemma types_indexed_add:
  "types_indexed R idx \<Longrightarrow> R i = None \<Longrightarrow> types_indexed (R(i \<mapsto> r)) (index_add i (rr_type r) idx)"
  by (auto simp: types_indexed_def index_add_ok set_index_add)

lemma types_indexed_drop:
  "types_indexed R idx \<Longrightarrow> R i = Some r \<Longrightarrow> types_indexed (R(i := None)) (index_drop i (rr_type r) idx)"
  by (auto simp: types_indexed_def index_drop_ok set_index_drop)

lemma store_rel:
  assumes ok: "graph_ok g" and i: "unat (rr_id r) < length (gr_relationships g)" and free: "rel_at g (rr_id r) = None"
    and ends: "node_at g (rr_src r) \<noteq> None" "node_at g (rr_dst r) \<noteq> None"
    and r: "rr_type r \<noteq> []" "trimmed (rr_type r)" "sorted_keys (rr_properties r)"
  shows "graph_ok (on_relationship_created r (put_rel_at_slot (unat (rr_id r)) r g))"
proof -
  obtain t types where t: "id_or_insert (rr_type r) (gr_types g) = (t, types)" by fastforce
  then obtain extra where extra: "types = gr_types g @ extra" using id_or_insert_extends by blast
  have id: "id_of types (rr_type r) = Some t" using id_or_insert_id [OF t] .
  then have known: "rr_type r \<in> set types" using id_of_None [of types "rr_type r"] by auto
  let ?R = "(rel_at g)(rr_id r \<mapsto> r)"
  define g1 where "g1 = put_rel_at_slot (unat (rr_id r)) r g"
  have g1: "g1 = g\<lparr>gr_types := types, gr_relationships := (gr_relationships g)[unat (rr_id r) := Some r],
      gr_live_rels := gr_live_rels g + 1\<rparr>"
    using free t by (simp add: g1_def put_rel_at_slot_def rel_at_def)
  have R: "rel_at g1 = ?R" using i by (auto simp: g1 rel_at_def slot_get_update fun_eq_iff)
  have again: "id_or_insert (rr_type r) types = (t, types)" using id_or_insert_again [OF t] .
  have entry: "\<lparr>ae_type = t, ae_neighbour = far_end s r, ae_rel = rr_id r\<rparr> = entry_of types s r" for s
    by (simp add: entry_of_def id)
  have len: "unat (rr_src r) < length (gr_adjacency g)" "unat (rr_dst r) < length (gr_adjacency g)"
    using ends ok node_at_bound by (fastforce simp: graph_ok_def slots_ok_def)+
  have rels: "rels_ok types (node_at g) ?R"
    using ok ends r known by (auto simp: graph_ok_def rels_ok_def extra)
  have push: "on_relationship_created r g1 = (attached r g1)\<lparr>gr_rels_by_type := index_add (rr_id r) (rr_type r) (gr_rels_by_type g)\<rparr>"
  proof -
    have small: "rr_src r \<le> MAX_ENTITY_ID" "rr_dst r \<le> MAX_ENTITY_ID"
      using ok len by (auto simp: graph_ok_def slots_ok_def MAX_ENTITY_ID_def word_le_nat_alt)
    have one: "adjacency_push k s e h = change_adjacency k (adj_push s e) h"
      if "k = rr_src r \<or> k = rr_dst r" "length (gr_nodes h) = length (gr_nodes g)"
        "length (gr_adjacency h) = length (gr_adjacency g)" for k s e h
      using that small len ok by (auto simp: adjacency_push_def ensure_node_slot_checked_def
          slot_len_for_id_def change_adjacency_def graph_ok_def slots_ok_def)
    have f: "gr_types g1 = types" "length (gr_nodes g1) = length (gr_nodes g)"
      "length (gr_adjacency g1) = length (gr_adjacency g)" "gr_rels_by_type g1 = gr_rels_by_type g"
      "g1\<lparr>gr_types := types\<rparr> = g1" by (simp_all add: g1)
    show ?thesis
      using entry [of Out] entry [of In]
      by (simp add: on_relationship_created_def attach_relationship_def again f one attached_def Let_def far_end_def)
  qed
  have "adjacency_ok types ?R (adjacency_at (attached r g1))"
  proof -
    have old: "entries types (rel_at g) j s = set (adjacency_at g j s)" "distinct (map ae_rel (adjacency_at g j s))" for j s
      using ok entries_types [of "rel_at g" "gr_types g" extra] 
      by (auto simp: graph_ok_def adjacency_ok_entries extra rels_ok_def)
    have "rr_id r \<notin> ae_rel ` set (adjacency_at g j s)" for j s
      using entries_member [of _ types "rel_at g" j s] free unfolding old(1) [symmetric] by fastforce
    then show ?thesis
      using old entries_insert [of "rel_at g" r types, OF free] len
      by (auto simp: adjacency_ok_entries adjacency_at_attached g1)
  qed
  moreover have "types_indexed ?R (index_add (rr_id r) (rr_type r) (gr_rels_by_type g))"
    using types_indexed_add ok free by (simp add: graph_ok_def)
  moreover have "card (dom ?R) = card (dom (rel_at g)) + 1" using free by (simp add: domIff card_insert_if)
  ultimately show ?thesis
    using ok rels R push unfolding g1_def [symmetric]
    by (simp add: graph_ok_def slots_ok_def counts_ok_def attached_def) (simp add: g1)
qed

lemma create_relationship_ok:
  assumes ok: "graph_ok g" and ps: "sorted_keys properties"
  shows "graph_ok (snd (create_relationship src dst ty properties g))"
proof (cases "has_node_at g src \<and> has_node_at g dst \<and> trim ty \<noteq> []")
  case False
  then show ?thesis using ok by (auto simp: create_relationship_def Let_def)
next
  case True
  show ?thesis
  proof (cases "try_reserve_next_rel_slot g")
    case None
    then show ?thesis using ok by (simp add: create_relationship_def Let_def)
  next
    case (Some p)
    then obtain i idx g1 g2 where p: "p = (i, idx, g2)" "i = gr_next_rel_id g"
      "ensure_rel_slot_checked i g = Inr (idx, g1)" "bump_next_rel_id_past i g1 = Inr g2"
      by (auto simp: try_reserve_next_rel_slot_def Let_def split: sum.splits)
    note o = open_rel_slot [OF ok p(3,4)]
    let ?r = "\<lparr>rr_id = i, rr_src = src, rr_dst = dst, rr_type = trim ty, rr_properties = properties\<rparr>"
    have "rel_at g2 i = None" using next_ids_free(2) ok o(5) p(2) by (simp add: graph_ok_def)
    then have "graph_ok (on_relationship_created ?r (put_rel_at_slot (unat (rr_id ?r)) ?r g2))"
      by (intro store_rel) (use o True ps in \<open>simp_all add: has_node_at_def\<close>)
    then show ?thesis using Some True p(1) o(2) by (simp add: create_relationship_def Let_def)
  qed
qed

lemma replay_create_relationship_ok:
  assumes ok: "graph_ok g" and ps: "sorted_keys properties"
    and "replay_create_relationship i src dst ty properties g = Inr g'"
  shows "graph_ok g'"
proof -
  let ?r = "\<lparr>rr_id = i, rr_src = src, rr_dst = dst, rr_type = trim ty, rr_properties = properties\<rparr>"
  from assms(3) obtain idx g1 g2 where p: "ensure_rel_slot_checked i g = Inr (idx, g1)"
    "bump_next_rel_id_past i g1 = Inr g2" "rel_at g i = None" "node_at g src \<noteq> None" "node_at g dst \<noteq> None"
    "trim ty \<noteq> []" "g' = on_relationship_created ?r (put_rel_at_slot idx ?r g2)"
    by (auto simp: replay_create_relationship_def has_node_at_def has_rel_at_def Let_def split: if_splits)
  note o = open_rel_slot [OF ok p(1,2)]
  have "graph_ok (on_relationship_created ?r (put_rel_at_slot (unat (rr_id ?r)) ?r g2))"
    by (intro store_rel) (use o p ps in simp_all)
  then show ?thesis using p(7) o(2) by simp
qed

section \<open>Deleting\<close>

lemma adjacency_remove_now:
  "adjacency_remove i s k None g = (None, change_adjacency i (adj_remove s k) g) \<or>
   adjacency_remove i s k None g = (None, g) \<and> adjacency_at g i s = []"
  by (auto simp: adjacency_remove_def adjacency_at_def side_bytes_0 Let_def)

lemma adjacency_remove_None:
  "adjacency_at (snd (adjacency_remove i s k None g)) j t =
     (if j = i \<and> t = s then remove_entry k (adjacency_at g i s) else adjacency_at g j t)"
  "fst (adjacency_remove i s k None g) = None"
  "\<exists>as. snd (adjacency_remove i s k None g) = g\<lparr>gr_adjacency := as\<rparr> \<and> length as = length (gr_adjacency g)"
proof -
  have edit: "adjacency_at (change_adjacency i (adj_remove s k) g) j t =
      (if j = i \<and> t = s then remove_entry k (adjacency_at g i s) else adjacency_at g j t)" for j t
  proof (cases "unat i < length (gr_adjacency g)")
    case True
    then show ?thesis
      by (rule adjacency_at_edit) (simp add: adj_remove_def adj_side_update)
  next
    case False
    then show ?thesis by (simp add: change_adjacency_def adjacency_at_def)
  qed
  have shape: "\<exists>as. change_adjacency i f g = g\<lparr>gr_adjacency := as\<rparr> \<and> length as = length (gr_adjacency g)" for f
    by (cases "unat i < length (gr_adjacency g)")
      (auto simp: change_adjacency_def intro: exI [of _ "gr_adjacency g"])
  consider "adjacency_remove i s k None g = (None, change_adjacency i (adj_remove s k) g)"
    | "adjacency_remove i s k None g = (None, g)" "adjacency_at g i s = []"
    using adjacency_remove_now by blast
  note by_cases = this
  show "adjacency_at (snd (adjacency_remove i s k None g)) j t =
     (if j = i \<and> t = s then remove_entry k (adjacency_at g i s) else adjacency_at g j t)"
    using by_cases edit by cases auto
  show "fst (adjacency_remove i s k None g) = None" using by_cases by cases auto
  show "\<exists>as. snd (adjacency_remove i s k None g) = g\<lparr>gr_adjacency := as\<rparr> \<and> length as = length (gr_adjacency g)"
    using by_cases shape by cases (auto intro: exI [of _ "gr_adjacency g"])
qed

lemma detach_None:
  obtains as where "detach_relationship_indexes r None g =
      (None, g\<lparr>gr_adjacency := as, gr_rels_by_type := index_drop (rr_id r) (rr_type r) (gr_rels_by_type g)\<rparr>)"
    and "length as = length (gr_adjacency g)"
    and "\<And>j s. adjacency_at (g\<lparr>gr_adjacency := as\<rparr>) j s =
      (if j = near_end s r then remove_entry (rr_id r) (adjacency_at g j s) else adjacency_at g j s)"
proof -
  define g1 where "g1 = snd (adjacency_remove (rr_src r) Out (rr_id r) None g)"
  define g2 where "g2 = snd (adjacency_remove (rr_dst r) In (rr_id r) None g1)"
  note one = adjacency_remove_None [of "rr_src r" Out "rr_id r" g, folded g1_def]
  note two = adjacency_remove_None [of "rr_dst r" In "rr_id r" g1, folded g2_def]
  obtain as where as: "g2 = g\<lparr>gr_adjacency := as\<rparr>" "length as = length (gr_adjacency g)"
    using one(3) two(3) by auto
  have step: "adjacency_remove (rr_src r) Out (rr_id r) None g = (None, g1)"
    "adjacency_remove (rr_dst r) In (rr_id r) None g1 = (None, g2)"
    using one(2) two(2) by (simp_all add: g1_def g2_def prod_eq_iff)
  have "adjacency_at g2 j s =
      (if j = near_end s r then remove_entry (rr_id r) (adjacency_at g j s) else adjacency_at g j s)" for j s
    by (cases s) (simp_all add: one(1) two(1) near_end_def)
  then show ?thesis
    using step as that by (simp add: detach_relationship_indexes_def)
qed

lemma delete_relationship_deferring_None:
  assumes "rel_at g i = None"
  shows "delete_relationship_deferring i pending g = (False, pending, g)"
  using assms by (simp add: delete_relationship_deferring_def take_rel_def)

lemma delete_relationship_Some:
  assumes "rel_at g i = Some r" and "rr_id r = i"
  obtains as where "delete_relationship_deferring i None g = (True, None, graph_emit (DeleteRelationship i)
      (g\<lparr>gr_relationships := (gr_relationships g)[unat i := None], gr_live_rels := gr_live_rels g - 1,
         gr_adjacency := as, gr_rels_by_type := index_drop i (rr_type r) (gr_rels_by_type g)\<rparr>))"
    and "length as = length (gr_adjacency g)"
    and "\<And>j s. adjacency_at (g\<lparr>gr_adjacency := as\<rparr>) j s =
      (if j = near_end s r then remove_entry i (adjacency_at g j s) else adjacency_at g j s)"
proof -
  let ?g = "g\<lparr>gr_relationships := (gr_relationships g)[unat i := None], gr_live_rels := gr_live_rels g - 1\<rparr>"
  obtain as where as: "detach_relationship_indexes r None ?g =
      (None, ?g\<lparr>gr_adjacency := as, gr_rels_by_type := index_drop (rr_id r) (rr_type r) (gr_rels_by_type ?g)\<rparr>)"
    "length as = length (gr_adjacency ?g)"
    "\<And>j s. adjacency_at (?g\<lparr>gr_adjacency := as\<rparr>) j s =
      (if j = near_end s r then remove_entry (rr_id r) (adjacency_at ?g j s) else adjacency_at ?g j s)"
    using detach_None [of r ?g] by metis
  have "adjacency_at (g\<lparr>gr_adjacency := as\<rparr>) = adjacency_at (?g\<lparr>gr_adjacency := as\<rparr>)"
    by (simp add: adjacency_at_def fun_eq_iff)
  then show ?thesis
    using as assms that
    by (simp add: delete_relationship_deferring_def take_rel_def on_relationship_deleted_def)
qed

lemma graph_ok_remove_rel:
  assumes ok: "graph_ok g" and r: "rel_at g i = Some r" and len: "length as = length (gr_adjacency g)"
    and adj: "\<And>j s. adjacency_at (g\<lparr>gr_adjacency := as\<rparr>) j s =
      (if j = near_end s r then remove_entry i (adjacency_at g j s) else adjacency_at g j s)"
  shows "graph_ok (g\<lparr>gr_relationships := (gr_relationships g)[unat i := None], gr_live_rels := gr_live_rels g - 1,
         gr_adjacency := as, gr_rels_by_type := index_drop i (rr_type r) (gr_rels_by_type g)\<rparr>)" (is "graph_ok ?g")
proof -
  let ?R = "(rel_at g)(i := None)"
  have R: "rel_at ?g = ?R" using rel_at_bound [OF r] by (auto simp: rel_at_def slot_get_update fun_eq_iff)
  have N: "node_at ?g = node_at g" by simp
  have A: "adjacency_at ?g = adjacency_at (g\<lparr>gr_adjacency := as\<rparr>)" by (simp add: adjacency_at_def fun_eq_iff)
  have "adjacency_ok (gr_types g) ?R (adjacency_at ?g)"
    unfolding adjacency_ok_entries
  proof (intro allI)
    fix j s
    have old: "distinct (map ae_rel (adjacency_at g j s))" "set (adjacency_at g j s) = entries (gr_types g) (rel_at g) j s"
      by (fact graph_ok_adjacency [OF ok])+
    have "adjacency_at ?g j s = filter (\<lambda>e. ae_rel e \<noteq> i) (adjacency_at g j s)"
    proof (cases "j = near_end s r")
      case False
      then have "i \<notin> ae_rel ` set (adjacency_at g j s)" using entries_far [of "rel_at g" i r s j] r old(2) by simp
      then have "filter (\<lambda>e. ae_rel e \<noteq> i) (adjacency_at g j s) = adjacency_at g j s" by (intro filter_True) auto
      then show ?thesis using False adj A by simp
    qed (use adj A remove_entry_filter [OF old(1)] in simp)
    then show "distinct (map ae_rel (adjacency_at ?g j s)) \<and> set (adjacency_at ?g j s) = entries (gr_types g) ?R j s"
      using old by (simp add: entries_remove distinct_map_filter)
  qed
  moreover have "types_indexed ?R (index_drop i (rr_type r) (gr_rels_by_type g))"
    using ok r types_indexed_drop by (simp add: graph_ok_def)
  moreover have "card (dom ?R) = card (dom (rel_at g)) - 1" using r by (simp add: card_Diff_singleton domIff)
  moreover have "rels_ok (gr_types g) (node_at g) ?R" using ok by (auto simp: graph_ok_def rels_ok_def)
  ultimately show ?thesis using ok len R N
    by (simp add: graph_ok_def slots_ok_def counts_ok_def)
qed

lemma rel_id: "graph_ok g \<Longrightarrow> rel_at g i = Some r \<Longrightarrow> rr_id r = i"
  by (simp add: graph_ok_def rels_ok_def)

lemma delete_relationship_ok:
  assumes "graph_ok g"
  shows "graph_ok (snd (delete_relationship i g))"
proof (cases "rel_at g i")
  case None
  then show ?thesis using assms by (simp add: delete_relationship_def delete_relationship_deferring_None)
next
  case (Some r)
  from delete_relationship_Some [OF Some rel_id [OF assms Some]] obtain as where
    "delete_relationship_deferring i None g = (True, None, graph_emit (DeleteRelationship i)
      (g\<lparr>gr_relationships := (gr_relationships g)[unat i := None], gr_live_rels := gr_live_rels g - 1,
         gr_adjacency := as, gr_rels_by_type := index_drop i (rr_type r) (gr_rels_by_type g)\<rparr>))"
    "length as = length (gr_adjacency g)"
    "\<And>j s. adjacency_at (g\<lparr>gr_adjacency := as\<rparr>) j s =
      (if j = near_end s r then remove_entry i (adjacency_at g j s) else adjacency_at g j s)"
    by metis
  with graph_ok_remove_rel [OF assms Some this(2,3)] show ?thesis
    by (simp add: delete_relationship_def)
qed

section \<open>Deleting a node\<close>

lemma labels_indexed_fold_drop:
  "labels_indexed (N(i \<mapsto> n)) idx \<Longrightarrow> labels_indexed (N(i \<mapsto> n\<lparr>nr_labels := filter (\<lambda>l. l \<notin> set ls) (nr_labels n)\<rparr>))
     (fold (index_drop i) ls idx)"
proof (induction ls arbitrary: n idx)
  case (Cons l ls)
  let ?n = "n\<lparr>nr_labels := filter (\<lambda>k. k \<noteq> l) (nr_labels n)\<rparr>"
  have "labels_indexed ((N(i \<mapsto> n))(i \<mapsto> ?n)) (index_drop i l idx)"
    by (rule labels_indexed_drop [OF Cons.prems, where n=n]) auto
  moreover have "?n\<lparr>nr_labels := filter (\<lambda>k. k \<notin> set ls) (nr_labels ?n)\<rparr> =
      n\<lparr>nr_labels := filter (\<lambda>k. k \<notin> set (l # ls)) (nr_labels n)\<rparr>"
    by (simp add: conj_commute)
  ultimately show ?case using Cons.IH [of ?n "index_drop i l idx"]
    by (simp only: fun_upd_upd fold_simps)
qed simp

lemma labels_indexed_gone:
  assumes "labels_indexed N idx" and "N i = Some n"
  shows "labels_indexed (N(i := None)) (fold (index_drop i) (nr_labels n) idx)"
proof -
  have "N = N(i \<mapsto> n)" using assms(2) by auto
  then have "labels_indexed (N(i \<mapsto> n\<lparr>nr_labels := []\<rparr>)) (fold (index_drop i) (nr_labels n) idx)"
    using labels_indexed_fold_drop [of N i n idx "nr_labels n"] assms(1) by simp
  then show ?thesis by (auto simp: labels_indexed_def)
qed

lemma clear_adjacency_at: "adjacency_at (clear_adjacency i g) = (adjacency_at g)(i := (\<lambda>s. []))"
  by (cases "unat i < length (gr_adjacency g)")
    (simp_all add: clear_adjacency_def adjacency_at_change, simp add: change_adjacency_def adjacency_at_def fun_eq_iff)

lemma clear_adjacency_shape: "\<exists>as. clear_adjacency i g = g\<lparr>gr_adjacency := as\<rparr> \<and> length as = length (gr_adjacency g)"
  by (cases "unat i < length (gr_adjacency g)")
    (auto simp: clear_adjacency_def change_adjacency_def intro: exI [of _ "gr_adjacency g"])

lemma adjacency_at_cong: "gr_adjacency g' = gr_adjacency g \<Longrightarrow> adjacency_at g' = adjacency_at g"
  by (simp add: adjacency_at_def fun_eq_iff)

lemma delete_node_ok:
  assumes ok: "graph_ok g"
  shows "graph_ok (snd (delete_node i g))"
proof (cases "has_node_at g i \<and> \<not> has_incident_relationships g i")
  case False
  then show ?thesis using ok by (auto simp: delete_node_def)
next
  case True
  then obtain n where n: "node_at g i = Some n" by (auto simp: has_node_at_def)
  have none: "adjacency_at g i s = []" for s
    using True by (cases s) (simp_all add: has_incident_relationships_def)
  let ?h = "g\<lparr>gr_nodes := (gr_nodes g)[unat i := None], gr_live_nodes := gr_live_nodes g - 1\<rparr>"
  obtain as where as: "clear_adjacency i ?h = ?h\<lparr>gr_adjacency := as\<rparr>" "length as = length (gr_adjacency g)"
    using clear_adjacency_shape [of i ?h] by auto
  let ?idx = "fold (index_drop (nr_id n)) (nr_labels n) (gr_nodes_by_label g)"
  have out: "snd (delete_node i g) = graph_emit (DeleteNode i) (?h\<lparr>gr_adjacency := as, gr_nodes_by_label := ?idx\<rparr>)"
    using True n as by (simp add: delete_node_def take_node_def on_node_deleted_def)
  let ?g = "?h\<lparr>gr_adjacency := as, gr_nodes_by_label := ?idx\<rparr>" and ?N = "(node_at g)(i := None)"
  have N: "node_at ?g = ?N" using node_at_bound [OF n] by (auto simp: node_at_def slot_get_update fun_eq_iff)
  have R: "rel_at ?g = rel_at g" by simp
  have "adjacency_at (clear_adjacency i ?h) = adjacency_at g"
    using none by (simp add: clear_adjacency_at fun_eq_iff)
  then have "adjacency_at (?h\<lparr>gr_adjacency := as\<rparr>) = adjacency_at g" by (simp only: as(1))
  then have A: "adjacency_at ?g = adjacency_at g" by simp
  have "near_end s r \<noteq> i" if "rel_at g k = Some r" for k r s
  proof
    assume "near_end s r = i"
    then have "entry_of (gr_types g) s r \<in> entries (gr_types g) (rel_at g) i s"
      using that rel_id [OF ok that] by (auto simp: entries_def)
    then show False using graph_ok_adjacency(2) [OF ok, of i s] none [of s] by simp
  qed
  from this [where s=Out] this [where s=In] have "rels_ok (gr_types g) ?N (rel_at g)"
    using ok by (fastforce simp: graph_ok_def rels_ok_def near_end_def)
  moreover have "labels_indexed ?N ?idx"
    using labels_indexed_gone [of "node_at g" "gr_nodes_by_label g" i n] ok n
    by (auto simp: graph_ok_def nodes_ok_def node_ok_def)
  moreover have "card (dom ?N) = card (dom (node_at g)) - 1" using n by (simp add: card_Diff_singleton domIff)
  moreover have "nodes_ok ?N" using ok by (auto simp: graph_ok_def nodes_ok_def)
  ultimately show ?thesis unfolding out graph_ok_emit using ok N R A as(2)
    by (simp add: graph_ok_def slots_ok_def counts_ok_def)
qed

lemma graph_ok_default: "graph_ok (graph_default rec)"
  by (auto simp: graph_ok_def slots_ok_def counts_ok_def nodes_ok_def rels_ok_def adjacency_ok_def
      labels_indexed_def types_indexed_def index_ok_def index_ids_def graph_default_def node_at_def rel_at_def
      adjacency_at_def slot_get_def)

end
