(* ===== verification/Graph_Deferral.thy ===== *)
theory Graph_Deferral
  imports Graph_Mutations
begin

text \<open>
  A batch of deletions leaves the edits of long adjacency lists pending and applies them at its end
  (\<open>adjacency_remove\<close>, \<open>flush_adjacency_removals\<close>). Here a graph with pending removals is related to the
  graph in which they are done; every step of a batch keeps the relation to the same step done at once,
  so a batch equals its deletions one after the other.
\<close>

section \<open>A graph and its settled graph\<close>

text \<open>\<open>h\<close> is \<open>g\<close> without the entries pending in \<open>ps\<close>.\<close>

definition settles :: "pending_adj_removals \<Rightarrow> graph \<Rightarrow> graph \<Rightarrow> bool" where
  "settles ps g h \<longleftrightarrow> h = g\<lparr>gr_adjacency := gr_adjacency h\<rparr> \<and> length (gr_adjacency h) = length (gr_adjacency g) \<and>
     (\<forall>i s. adjacency_at h i s = filter (\<lambda>e. (i, s, ae_rel e) \<notin> set ps) (adjacency_at g i s))"

definition lists_distinct :: "graph \<Rightarrow> bool" where
  "lists_distinct g \<longleftrightarrow> (\<forall>i s. distinct (map ae_rel (adjacency_at g i s)))"

text \<open>The pending relationships are gone already.\<close>

definition deferred :: "pending_adj_removals \<Rightarrow> graph \<Rightarrow> graph \<Rightarrow> bool" where
  "deferred ps g h \<longleftrightarrow> settles ps g h \<and> lists_distinct g \<and> (\<forall>(i, s, k) \<in> set ps. rel_at g k = None)"

lemma settles_at: "settles ps g h \<Longrightarrow> adjacency_at h i s = filter (\<lambda>e. (i, s, ae_rel e) \<notin> set ps) (adjacency_at g i s)"
  by (simp add: settles_def)

lemma settles_fields:
  assumes "settles ps g h"
  shows "gr_nodes h = gr_nodes g" "gr_relationships h = gr_relationships g" "node_at h = node_at g"
    "rel_at h = rel_at g" "gr_types h = gr_types g" "gr_nodes_by_label h = gr_nodes_by_label g"
    "gr_rels_by_type h = gr_rels_by_type g" "gr_live_rels h = gr_live_rels g" "gr_live_nodes h = gr_live_nodes g"
    "length (gr_adjacency h) = length (gr_adjacency g)"
proof -
  have h: "h = g\<lparr>gr_adjacency := gr_adjacency h\<rparr>" using assms by (simp add: settles_def)
  show "gr_nodes h = gr_nodes g" "gr_relationships h = gr_relationships g" "node_at h = node_at g"
    "rel_at h = rel_at g" "gr_types h = gr_types g" "gr_nodes_by_label h = gr_nodes_by_label g"
    "gr_rels_by_type h = gr_rels_by_type g" "gr_live_rels h = gr_live_rels g" "gr_live_nodes h = gr_live_nodes g"
    by (subst h, simp)+
  show "length (gr_adjacency h) = length (gr_adjacency g)" using assms by (simp add: settles_def)
qed

lemma settles_update:
  assumes "settles ps g h" and "\<And>as. F (g\<lparr>gr_adjacency := as\<rparr>) = (F g)\<lparr>gr_adjacency := as\<rparr>"
    and "gr_adjacency (F g) = gr_adjacency g"
  shows "settles ps (F g) (F h)"
proof -
  have h: "h = g\<lparr>gr_adjacency := gr_adjacency h\<rparr>" using assms(1) by (simp add: settles_def)
  then have F: "F h = (F g)\<lparr>gr_adjacency := gr_adjacency h\<rparr>" using assms(2) [of "gr_adjacency h"] by simp
  then have same: "gr_adjacency (F h) = gr_adjacency h" by simp
  from F show ?thesis
    using assms(1) adjacency_at_cong [OF same] adjacency_at_cong [OF assms(3)]
    by (simp add: settles_def assms(3))
qed

lemma settles_unique:
  assumes "settles ps g h" and "settles ps g h'" and "length (gr_adjacency g) \<le> 2 ^ 64"
  shows "h = h'"
proof -
  have "gr_adjacency h = gr_adjacency h'"
  proof (rule nth_equalityI)
    show "length (gr_adjacency h) = length (gr_adjacency h')" using assms by (simp add: settles_def)
    fix k assume k: "k < length (gr_adjacency h)"
    have u: "unat (of_nat k :: u64) = k" using k assms(1,3) by (simp add: settles_def unat_of_nat)
    have "adjacency_at h (of_nat k) s = adjacency_at h' (of_nat k) s" for s
      using assms(1,2) by (simp add: settles_def)
    then show "gr_adjacency h ! k = gr_adjacency h' ! k"
      using k assms(1,2) by (intro adjacency_eqI) (simp add: adjacency_at_def u settles_def)
  qed
  moreover have "h = g\<lparr>gr_adjacency := gr_adjacency h\<rparr>" "h' = g\<lparr>gr_adjacency := gr_adjacency h'\<rparr>"
    using assms(1,2) by (simp_all add: settles_def)
  ultimately show ?thesis by simp
qed

section \<open>Applying the pending removals\<close>

lemma change_adjacency_shape:
  "change_adjacency i f g = g\<lparr>gr_adjacency := gr_adjacency (change_adjacency i f g)\<rparr>"
  by (simp add: change_adjacency_def)

lemma settles_after:
  assumes h: "settles qs g' h" and g': "g' = g\<lparr>gr_adjacency := as\<rparr>" "length as = length (gr_adjacency g)"
    and at: "\<And>j t. adjacency_at g' j t = filter (\<lambda>e. (j, t, ae_rel e) \<notin> D) (adjacency_at g j t)"
    and ps: "set ps = D \<union> set qs"
  shows "settles ps g h"
proof -
  have "h = g'\<lparr>gr_adjacency := gr_adjacency h\<rparr>" using h by (simp add: settles_def)
  also have "\<dots> = g\<lparr>gr_adjacency := gr_adjacency h\<rparr>" by (simp add: g'(1))
  finally have "h = g\<lparr>gr_adjacency := gr_adjacency h\<rparr>" .
  moreover have "length (gr_adjacency h) = length (gr_adjacency g)" using h g' by (simp add: settles_def)
  moreover have "adjacency_at h j t = filter (\<lambda>e. (j, t, ae_rel e) \<notin> set ps) (adjacency_at g j t)" for j t
    by (simp add: settles_at [OF h] at ps conj_commute)
  ultimately show ?thesis by (simp add: settles_def)
qed

lemma third_of_group: "\<forall>(j, t, k) \<in> T. j = i \<and> t = s \<Longrightarrow> k \<in> (\<lambda>(_, _, r). r) ` T \<longleftrightarrow> (i, s, k) \<in> T"
  by (force simp: image_iff)

lemma flush_groups_settles: "settles ps g (flush_groups ps g)"
proof (induction ps g rule: flush_groups.induct)
  case (1 g)
  then show ?case by (simp add: settles_def)
next
  case (2 i s rel ps g)
  let ?grouped = "\<lambda>(j, t, _). j = i \<and> t = s"
  let ?rels = "rel # map (\<lambda>(_, _, r). r) (takeWhile ?grouped ps)" and ?rest = "dropWhile ?grouped ps"
  let ?g = "if adjacency_at g i s = [] then g else change_adjacency i (adj_remove_all s ?rels) g"
  have IH: "settles ?rest ?g (flush_groups ?rest ?g)" using "2.IH" by (simp add: Let_def)
  define T where "T = set (takeWhile ?grouped ps)"
  have "\<forall>(j, t, k) \<in> T. j = i \<and> t = s" by (auto simp: T_def dest: set_takeWhileD)
  note taken = this third_of_group [OF this]
  have T: "set ps = T \<union> set ?rest" unfolding T_def by (metis set_append takeWhile_dropWhile_id)
  have rels: "set ?rels = insert rel ((\<lambda>(_, _, r). r) ` T)" by (simp add: T_def)
  define D where "D = {i} \<times> {s} \<times> set ?rels"
  have D: "set ((i, s, rel) # ps) = D \<union> set ?rest" unfolding D_def rels using taken by (auto simp: T)
  have at: "adjacency_at ?g j t = filter (\<lambda>e. (j, t, ae_rel e) \<notin> D) (adjacency_at g j t)" for j t
  proof (cases "unat i < length (gr_adjacency g) \<and> adjacency_at g i s \<noteq> []")
    case True
    have "adjacency_at (change_adjacency i (adj_remove_all s ?rels) g) j t =
        (if j = i \<and> t = s then filter (\<lambda>e. ae_rel e \<notin> set ?rels) (adjacency_at g i s) else adjacency_at g j t)"
      by (rule adjacency_at_edit) (use True in \<open>simp_all add: adj_remove_all_def adj_side_update\<close>)
    with True show ?thesis unfolding D_def by (cases "j = i \<and> t = s") (simp_all, fastforce intro!: filter_True [symmetric])
  next
    case False
    then have "adjacency_at g i s = []" by (auto simp: adjacency_at_def)
    then show ?thesis unfolding D_def by (cases "j = i \<and> t = s") (auto intro!: filter_True [symmetric])
  qed
  have shape: "?g = g\<lparr>gr_adjacency := gr_adjacency ?g\<rparr>" using change_adjacency_shape by auto
  have "settles ((i, s, rel) # ps) g (flush_groups ?rest ?g)"
    by (rule settles_after [OF IH shape _ at D]) simp
  then show ?case by (simp only: flush_groups.simps Let_def)
qed

lemma settles_set: "set ps = set qs \<Longrightarrow> settles ps g h = settles qs g h"
  by (simp add: settles_def)

lemma flush_settles: "settles ps g (flush_adjacency_removals ps g)"
  using flush_groups_settles [of "sort_key removal_key ps" g] settles_set [of ps "sort_key removal_key ps"]
  by (simp add: flush_adjacency_removals_def)

lemma flush_eq: "settles ps g h \<Longrightarrow> length (gr_adjacency g) \<le> 2 ^ 64 \<Longrightarrow> flush_adjacency_removals ps g = h"
  using settles_unique [OF flush_settles] by blast

section \<open>One deletion\<close>

lemma remove_entry_filtered:
  "distinct (map ae_rel es) \<Longrightarrow> remove_entry k (filter P es) = filter (\<lambda>e. P e \<and> ae_rel e \<noteq> k) es"
  by (simp add: remove_entry_filter distinct_map_filter conj_commute)

lemma adjacency_remove_later:
  "adjacency_at g i s = [] \<and> adjacency_remove i s k (Some ps) g = (Some ps, g) \<or>
   adjacency_remove i s k (Some ps) g = (Some (ps @ [(i, s, k)]), g) \<or>
   unat i < length (gr_adjacency g) \<and> adjacency_remove i s k (Some ps) g = (Some ps, change_adjacency i (adj_remove s k) g)"
  by (cases "unat i < length (gr_adjacency g)")
    (simp_all add: adjacency_remove_def adjacency_at_def side_bytes_0)

lemma adjacency_remove_deferred:
  assumes "settles ps g h" and "lists_distinct g"
  obtains ps' as where "adjacency_remove i s k (Some ps) g = (Some ps', g\<lparr>gr_adjacency := as\<rparr>)"
    and "set ps \<subseteq> set ps'" and "set ps' \<subseteq> insert (i, s, k) (set ps)"
    and "settles ps' (g\<lparr>gr_adjacency := as\<rparr>) (snd (adjacency_remove i s k None h))"
    and "lists_distinct (g\<lparr>gr_adjacency := as\<rparr>)"
    and "\<And>j t. adjacency_at g j t = [] \<Longrightarrow> adjacency_at (g\<lparr>gr_adjacency := as\<rparr>) j t = []"
proof -
  let ?h = "snd (adjacency_remove i s k None h)"
  obtain bs where h': "?h = h\<lparr>gr_adjacency := bs\<rparr>" "length bs = length (gr_adjacency h)"
    using adjacency_remove_None(3) by blast
  have hat: "adjacency_at ?h j t = filter (\<lambda>e. (j, t, ae_rel e) \<notin> insert (i, s, k) (set ps)) (adjacency_at g j t)" for j t
    using assms
    by (auto simp: adjacency_remove_None settles_at remove_entry_filtered lists_distinct_def intro!: filter_cong)
  have hg: "?h = g\<lparr>gr_adjacency := gr_adjacency ?h\<rparr>" "length (gr_adjacency ?h) = length (gr_adjacency g)"
  proof -
    have "?h = (g\<lparr>gr_adjacency := gr_adjacency h\<rparr>)\<lparr>gr_adjacency := bs\<rparr>"
      using h'(1) assms(1) by (metis settles_def)
    then show "?h = g\<lparr>gr_adjacency := gr_adjacency ?h\<rparr>" by simp
    show "length (gr_adjacency ?h) = length (gr_adjacency g)" using h' assms(1) by (simp add: settles_def)
  qed
  have same: "g\<lparr>gr_adjacency := gr_adjacency g\<rparr> = g" by simp
  consider (empty) "adjacency_at g i s = []" "adjacency_remove i s k (Some ps) g = (Some ps, g)"
    | (later) "adjacency_remove i s k (Some ps) g = (Some (ps @ [(i, s, k)]), g)"
    | (now) "unat i < length (gr_adjacency g)" "adjacency_remove i s k (Some ps) g = (Some ps, change_adjacency i (adj_remove s k) g)"
    using adjacency_remove_later [of g i s k ps] by blast
  then show ?thesis
  proof cases
    case empty
    have "adjacency_at ?h j t = filter (\<lambda>e. (j, t, ae_rel e) \<notin> set ps) (adjacency_at g j t)" for j t
      using empty(1) by (cases "j = i \<and> t = s") (auto simp: hat intro!: filter_cong)
    then have "settles ps g ?h" using hg by (simp add: settles_def)
    then show ?thesis using that [of ps "gr_adjacency g"] empty(2) assms(2) by (auto simp: same)
  next
    case later
    have "settles (ps @ [(i, s, k)]) g ?h" using hg hat by (simp add: settles_def)
    then show ?thesis using that [of "ps @ [(i, s, k)]" "gr_adjacency g"] later assms(2) by (auto simp: same)
  next
    case now
    let ?g = "change_adjacency i (adj_remove s k) g"
    have gat: "adjacency_at ?g j t = (if j = i \<and> t = s then remove_entry k (adjacency_at g i s) else adjacency_at g j t)" for j t
      by (rule adjacency_at_edit) (use now(1) in \<open>simp_all add: adj_remove_def adj_side_update\<close>)
    have gat': "adjacency_at ?g j t = filter (\<lambda>e. \<not> (j = i \<and> t = s \<and> ae_rel e = k)) (adjacency_at g j t)" for j t
      using assms(2) by (auto simp: gat remove_entry_filter lists_distinct_def intro!: filter_True [symmetric])
    have "?h = ?g\<lparr>gr_adjacency := gr_adjacency ?h\<rparr>"
    proof -
      have eq: "?g\<lparr>gr_adjacency := as\<rparr> = g\<lparr>gr_adjacency := as\<rparr>" for as
        by (subst change_adjacency_shape) simp
      show ?thesis unfolding eq by (rule hg(1))
    qed
    moreover have "adjacency_at ?h j t = filter (\<lambda>e. (j, t, ae_rel e) \<notin> set ps) (adjacency_at ?g j t)" for j t
      unfolding hat gat' by (auto intro!: filter_cong)
    ultimately have "settles ps ?g ?h" using hg by (simp add: settles_def)
    moreover have "lists_distinct ?g" using assms(2) by (simp add: lists_distinct_def gat' distinct_map_filter)
    moreover have "adjacency_at g j t = [] \<Longrightarrow> adjacency_at ?g j t = []" for j t by (simp add: gat')
    ultimately show ?thesis
      using that [of ps "gr_adjacency ?g"] now(2) change_adjacency_shape [of i "adj_remove s k" g] by auto
  qed
qed

definition lists_shrink :: "graph \<Rightarrow> graph \<Rightarrow> bool" where
  "lists_shrink g g' \<longleftrightarrow> (\<forall>i s. adjacency_at g i s = [] \<longrightarrow> adjacency_at g' i s = [])"

lemma detach_deferred:
  assumes "settles ps g h" and "lists_distinct g"
  obtains ps' g' h' where "detach_relationship_indexes r (Some ps) g = (Some ps', g')"
    and "detach_relationship_indexes r None h = (None, h')"
    and "set ps \<subseteq> set ps'" and "\<forall>(i, s, k) \<in> set ps'. k = rr_id r \<or> (i, s, k) \<in> set ps"
    and "settles ps' g' h'" and "lists_distinct g'" and "lists_shrink g g'" and "rel_at g' = rel_at g"
proof -
  let ?F = "\<lambda>x :: graph. x\<lparr>gr_rels_by_type := index_drop (rr_id r) (rr_type r) (gr_rels_by_type x)\<rparr>"
  define h1 where "h1 = snd (adjacency_remove (rr_src r) Out (rr_id r) None h)"
  define h2 where "h2 = snd (adjacency_remove (rr_dst r) In (rr_id r) None h1)"
  have h: "adjacency_remove (rr_src r) Out (rr_id r) None h = (None, h1)"
    "adjacency_remove (rr_dst r) In (rr_id r) None h1 = (None, h2)"
    using adjacency_remove_None(2) by (simp_all add: h1_def h2_def prod_eq_iff)
  obtain ps1 as where one: "adjacency_remove (rr_src r) Out (rr_id r) (Some ps) g = (Some ps1, g\<lparr>gr_adjacency := as\<rparr>)"
    "set ps \<subseteq> set ps1" "set ps1 \<subseteq> insert (rr_src r, Out, rr_id r) (set ps)"
    "settles ps1 (g\<lparr>gr_adjacency := as\<rparr>) h1" "lists_distinct (g\<lparr>gr_adjacency := as\<rparr>)"
    "lists_shrink g (g\<lparr>gr_adjacency := as\<rparr>)"
    using adjacency_remove_deferred [OF assms] unfolding h1_def lists_shrink_def by metis
  obtain ps2 bs where two: "adjacency_remove (rr_dst r) In (rr_id r) (Some ps1) (g\<lparr>gr_adjacency := as\<rparr>) =
      (Some ps2, g\<lparr>gr_adjacency := as\<rparr>\<lparr>gr_adjacency := bs\<rparr>)"
    "set ps1 \<subseteq> set ps2" "set ps2 \<subseteq> insert (rr_dst r, In, rr_id r) (set ps1)"
    "settles ps2 (g\<lparr>gr_adjacency := as\<rparr>\<lparr>gr_adjacency := bs\<rparr>) h2"
    "lists_distinct (g\<lparr>gr_adjacency := as\<rparr>\<lparr>gr_adjacency := bs\<rparr>)"
    "lists_shrink (g\<lparr>gr_adjacency := as\<rparr>) (g\<lparr>gr_adjacency := as\<rparr>\<lparr>gr_adjacency := bs\<rparr>)"
    using adjacency_remove_deferred [OF one(4,5)] unfolding h2_def lists_shrink_def by metis
  show ?thesis
  proof (rule that)
    show "detach_relationship_indexes r (Some ps) g = (Some ps2, ?F (g\<lparr>gr_adjacency := bs\<rparr>))"
      using one(1) two(1) by (simp add: detach_relationship_indexes_def)
    show "detach_relationship_indexes r None h = (None, ?F h2)"
      using h by (simp add: detach_relationship_indexes_def)
    show "set ps \<subseteq> set ps2" using one(2) two(2) by blast
    show "\<forall>(i, s, k) \<in> set ps2. k = rr_id r \<or> (i, s, k) \<in> set ps" using one(3) two(3) by auto
    show "settles ps2 (?F (g\<lparr>gr_adjacency := bs\<rparr>)) (?F h2)"
      by (rule settles_update) (use two(4) in simp_all)
    show "lists_distinct (?F (g\<lparr>gr_adjacency := bs\<rparr>))"
      using two(5) by (simp add: lists_distinct_def)
    show "lists_shrink g (?F (g\<lparr>gr_adjacency := bs\<rparr>))"
      using one(6) two(6) by (simp add: lists_shrink_def)
    show "rel_at (?F (g\<lparr>gr_adjacency := bs\<rparr>)) = rel_at g" by simp
  qed
qed

definition rel_ids_ok :: "graph \<Rightarrow> bool" where
  "rel_ids_ok g \<longleftrightarrow> (\<forall>k r. rel_at g k = Some r \<longrightarrow> rr_id r = k)"

lemma delete_deferred:
  assumes d: "deferred ps g h" and ids: "rel_ids_ok h"
  obtains b ps' g' h' where "delete_relationship_deferring k (Some ps) g = (b, Some ps', g')"
    and "delete_relationship_deferring k None h = (b, None, h')" and "deferred ps' g' h'" and "rel_ids_ok h'"
    and "lists_shrink g g'" and "rel_at g' = (rel_at g)(k := None)"
proof (cases "rel_at g k")
  case None
  have "rel_at h k = None" using d None settles_fields(4) [of ps g h] by (simp add: deferred_def)
  moreover have "rel_at g = (rel_at g)(k := None)" using None by (intro ext) simp
  ultimately show ?thesis
    by (intro that [of False ps g h]) (use None d ids in \<open>simp_all only: delete_relationship_deferring_None lists_shrink_def\<close>, simp_all)
next
  case (Some r)
  have s: "settles ps g h" "lists_distinct g" using d by (simp_all add: deferred_def)
  note f = settles_fields [OF s(1)]
  let ?F = "\<lambda>x :: graph. x\<lparr>gr_relationships := (gr_relationships x)[unat k := None], gr_live_rels := gr_live_rels x - 1\<rparr>"
  have id: "rr_id r = k" using ids Some f by (simp add: rel_ids_ok_def)
  have one: "settles ps (?F g) (?F h)" by (rule settles_update [OF s(1)]) simp_all
  have dis: "lists_distinct (?F g)" using s(2) by (simp add: lists_distinct_def)
  obtain ps' g' h' where two:
    "detach_relationship_indexes r (Some ps) (?F g) = (Some ps', g')"
    "detach_relationship_indexes r None (?F h) = (None, h')"
    "set ps \<subseteq> set ps'" "\<forall>(i, s, k) \<in> set ps'. k = rr_id r \<or> (i, s, k) \<in> set ps"
    "settles ps' g' h'" "lists_distinct g'" "lists_shrink (?F g) g'" "rel_at g' = rel_at (?F g)"
    by (rule detach_deferred [OF one dis, of r])
  let ?e = "graph_emit (DeleteRelationship k)"
  have emit: "settles ps' (?e g') (?e h')"
    by (rule settles_update [OF two(5)]) (simp_all add: graph_emit_def)
  have R: "rel_at (?F g) = (rel_at g)(k := None)"
    using rel_at_bound [OF Some] by (auto simp: rel_at_def slot_get_update fun_eq_iff)
  have ps: "\<forall>(i, s, j) \<in> set ps'. rel_at (?e g') j = None"
    using two(4,8) R id d by (auto simp: deferred_def)
  have h: "delete_relationship_deferring k None h = (True, None, ?e h')"
    using two(2) Some f by (simp add: delete_relationship_deferring_def take_rel_def on_relationship_deleted_def)
  have "rel_at (?e h') = (rel_at h)(k := None)" using settles_fields(4) [OF two(5)] two(8) R f by simp
  then have "rel_ids_ok (?e h')" using ids by (simp add: rel_ids_ok_def)
  moreover have "delete_relationship_deferring k (Some ps) g = (True, Some ps', ?e g')"
    using two(1) Some by (simp add: delete_relationship_deferring_def take_rel_def on_relationship_deleted_def)
  moreover have "lists_distinct (?e g')" using two(6) by (simp add: lists_distinct_def)
  moreover have "lists_shrink g (?e g')" using two(7) by (simp add: lists_shrink_def)
  ultimately show ?thesis
    using that [of True ps' "?e g'" "?e h'"] h emit ps two(8) R by (simp add: deferred_def)
qed

section \<open>Many deletions\<close>

text \<open>The reference: each relationship deleted at once.\<close>

fun delete_one_by_one :: "relationship_id list \<Rightarrow> graph \<Rightarrow> nat \<times> graph" where
  "delete_one_by_one [] g = (0, g)"
| "delete_one_by_one (k # ks) g = (let (b, g) = delete_relationship k g; (n, g) = delete_one_by_one ks g
     in (if b then n + 1 else n, g))"

lemma lists_shrink_refl [simp]: "lists_shrink g g"
  by (simp add: lists_shrink_def)

lemma lists_shrink_trans: "lists_shrink g h \<Longrightarrow> lists_shrink h k \<Longrightarrow> lists_shrink g k"
  by (simp add: lists_shrink_def)

lemma delete_each_deferred:
  assumes "deferred ps g h" and "rel_ids_ok h"
  obtains n ps' g' h' where "delete_each ks (Some ps) g = (n, Some ps', g')" and "delete_one_by_one ks h = (n, h')"
    and "deferred ps' g' h'" and "rel_ids_ok h'" and "lists_shrink g g'"
  using assms
proof (induction ks arbitrary: ps g h thesis)
  case Nil
  then show ?case by simp
next
  case (Cons k ks)
  obtain b ps1 g1 h1 where one: "delete_relationship_deferring k (Some ps) g = (b, Some ps1, g1)"
    "delete_relationship_deferring k None h = (b, None, h1)" "deferred ps1 g1 h1" "rel_ids_ok h1"
    "lists_shrink g g1" "rel_at g1 = (rel_at g)(k := None)"
    by (rule delete_deferred [OF Cons.prems(2,3)])
  obtain n ps2 g2 h2 where two: "delete_each ks (Some ps1) g1 = (n, Some ps2, g2)" "delete_one_by_one ks h1 = (n, h2)"
    "deferred ps2 g2 h2" "rel_ids_ok h2" "lists_shrink g1 g2"
    by (rule Cons.IH [OF _ one(3,4)])
  have "delete_relationship k h = (b, h1)" using one(2) by (simp add: delete_relationship_def)
  then show ?case
    using Cons.prems(1) [of "if b then n + 1 else n" ps2 g2 h2] one(1) two lists_shrink_trans [OF one(5) two(5)]
    by simp
qed

lemma deferred_start: "lists_distinct g \<Longrightarrow> deferred [] g g"
  by (simp add: deferred_def settles_def)

lemma graph_ok_distinct: "graph_ok g \<Longrightarrow> lists_distinct g"
  by (simp add: lists_distinct_def graph_ok_adjacency)

lemma graph_ok_ids: "graph_ok g \<Longrightarrow> rel_ids_ok g"
  by (simp add: rel_ids_ok_def rel_id)

lemma delete_one_by_one_ok: "graph_ok g \<Longrightarrow> graph_ok (snd (delete_one_by_one ks g))"
proof (induction ks arbitrary: g)
  case (Cons k ks)
  from Cons.IH [OF delete_relationship_ok [OF Cons.prems, of k]] show ?case by (simp add: split_beta Let_def)
qed simp

lemma graph_ok_size: "graph_ok g \<Longrightarrow> length (gr_adjacency g) \<le> 2 ^ 64"
  using unsigned_less [of "gr_next_node_id g", where ?'a=nat] by (simp add: graph_ok_def slots_ok_def)

lemma deferred_size: "deferred ps g h \<Longrightarrow> graph_ok h \<Longrightarrow> length (gr_adjacency g) \<le> 2 ^ 64"
  using graph_ok_size [of h] by (simp add: deferred_def settles_def)

lemma delete_relationships_one_by_one:
  assumes "graph_ok g"
  shows "delete_relationships ks g = delete_one_by_one ks g"
proof -
  obtain n ps g' h where r: "delete_each ks (Some []) g = (n, Some ps, g')" "delete_one_by_one ks g = (n, h)"
    "deferred ps g' h" "rel_ids_ok h" "lists_shrink g g'"
    by (rule delete_each_deferred [OF deferred_start [OF graph_ok_distinct [OF assms]] graph_ok_ids [OF assms]])
  have "graph_ok h" using delete_one_by_one_ok [OF assms, of ks] r(2) by simp
  then have "flush_adjacency_removals ps g' = h"
    using flush_eq deferred_size [OF r(3)] r(3) by (simp add: deferred_def)
  then show ?thesis using r(1,2) by (simp add: delete_relationships_def)
qed

end
