(* ===== verification/Graph_Detach.thy ===== *)
theory Graph_Detach
  imports Graph_Deferral
begin

text \<open>
  Deleting nodes with their relationships: the node's lists are cleared before its relationships are
  deleted, and the edits of the far ends may stay pending over a whole batch. The result is that of
  deleting the relationships one after the other and then the node.
\<close>

section \<open>Clearing first changes nothing\<close>

lemma clear_adjacency_eq: "clear_adjacency i g =
    (if unat i < length (gr_adjacency g) then g\<lparr>gr_adjacency := (gr_adjacency g)[unat i := adj_empty]\<rparr> else g)"
  by (simp add: clear_adjacency_def change_adjacency_def)

lemma clear_adjacency_id:
  assumes "\<And>s. adjacency_at g i s = []"
  shows "clear_adjacency i g = g"
proof (cases "unat i < length (gr_adjacency g)")
  case True
  have "gr_adjacency g ! unat i = adj_empty"
    using assms True by (intro adjacency_eqI) (simp add: adjacency_at_def)
  then have "(gr_adjacency g)[unat i := adj_empty] = gr_adjacency g" by (metis list_update_id)
  then show ?thesis by (simp add: clear_adjacency_eq)
qed (simp add: clear_adjacency_eq)

lemma adjacency_remove_clear:
  "snd (adjacency_remove j s k None (clear_adjacency i g)) = clear_adjacency i (snd (adjacency_remove j s k None g))"
proof (cases "j = i")
  case True
  have "side_bytes s adj_empty = 0" by (simp add: side_bytes_0)
  then show ?thesis using True
    by (simp add: adjacency_remove_def clear_adjacency_eq change_adjacency_def Let_def)
next
  case False
  then have "unat j \<noteq> unat i" by (simp add: word_unat_eq_iff)
  then show ?thesis
    by (simp add: adjacency_remove_def clear_adjacency_eq change_adjacency_def Let_def list_update_swap)
qed

lemma detach_clear:
  "snd (detach_relationship_indexes r None (clear_adjacency i g)) = clear_adjacency i (snd (detach_relationship_indexes r None g))"
proof -
  let ?a = "\<lambda>j s g. snd (adjacency_remove j s (rr_id r) None g)"
  have unfold: "snd (detach_relationship_indexes r None g) =
      (let h = ?a (rr_dst r) In (?a (rr_src r) Out g)
       in h\<lparr>gr_rels_by_type := index_drop (rr_id r) (rr_type r) (gr_rels_by_type h)\<rparr>)" for g
    by (simp add: detach_relationship_indexes_def split_beta Let_def adjacency_remove_None(2))
  have "(clear_adjacency i h)\<lparr>gr_rels_by_type := x\<rparr> = clear_adjacency i (h\<lparr>gr_rels_by_type := x\<rparr>)"
    "gr_rels_by_type (clear_adjacency i h) = gr_rels_by_type h" for h x
    by (simp_all add: clear_adjacency_eq)
  then show ?thesis unfolding unfold by (simp add: adjacency_remove_clear Let_def)
qed

lemma delete_relationship_clear:
  "delete_relationship k (clear_adjacency i g) =
     (fst (delete_relationship k g), clear_adjacency i (snd (delete_relationship k g)))"
proof (cases "rel_at g k")
  case None
  then have "rel_at (clear_adjacency i g) k = None" by (simp add: clear_adjacency_eq)
  then show ?thesis using None by (simp add: delete_relationship_def delete_relationship_deferring_None)
next
  case (Some r)
  let ?F = "\<lambda>x :: graph. x\<lparr>gr_relationships := (gr_relationships x)[unat k := None], gr_live_rels := gr_live_rels x - 1\<rparr>"
  have out: "delete_relationship k g = (True, graph_emit (DeleteRelationship k) (snd (detach_relationship_indexes r None (?F g))))"
    if "rel_at g k = Some r" for g
    using that by (simp add: delete_relationship_def delete_relationship_deferring_def take_rel_def
        on_relationship_deleted_def split_beta Let_def)
  have "rel_at (clear_adjacency i g) k = Some r" using Some by (simp add: clear_adjacency_eq)
  moreover have "?F (clear_adjacency i g) = clear_adjacency i (?F g)" by (simp add: clear_adjacency_eq)
  moreover have "graph_emit e (clear_adjacency i h) = clear_adjacency i (graph_emit e h)" for e h
    by (simp add: clear_adjacency_eq graph_emit_def)
  ultimately show ?thesis using out [OF Some] out [of "clear_adjacency i g"] by (simp add: detach_clear)
qed

lemma delete_one_by_one_clear:
  "delete_one_by_one ks (clear_adjacency i g) =
     (fst (delete_one_by_one ks g), clear_adjacency i (snd (delete_one_by_one ks g)))"
  by (induction ks arbitrary: g) (simp_all add: delete_relationship_clear split_beta Let_def)

section \<open>Relationships that are gone are skipped\<close>

lemma detach_rel_at: "rel_at (snd (detach_relationship_indexes r None g)) = rel_at g"
  by (rule detach_None [of r g]) simp

lemma delete_relationship_rel_at: "rel_at (snd (delete_relationship k g)) = (rel_at g)(k := None)"
proof (cases "rel_at g k")
  case None
  then show ?thesis
    by (auto simp: delete_relationship_def delete_relationship_deferring_None fun_eq_iff)
next
  case (Some r)
  then show ?thesis using rel_at_bound [OF Some]
    by (auto simp: delete_relationship_def delete_relationship_deferring_def take_rel_def split_beta Let_def
        on_relationship_deleted_def detach_rel_at rel_at_def slot_get_update fun_eq_iff)
qed

lemma delete_relationship_deletes: "fst (delete_relationship k g) \<longleftrightarrow> rel_at g k \<noteq> None"
  by (auto simp: delete_relationship_def delete_relationship_deferring_def take_rel_def split_beta Let_def
      split: option.split)

lemma delete_dead: "rel_at g k = None \<Longrightarrow> delete_relationship k g = (False, g)"
  by (simp add: delete_relationship_def delete_relationship_deferring_None)

lemma delete_one_by_one_rel_at: "rel_at (snd (delete_one_by_one ks g)) = (\<lambda>k. if k \<in> set ks then None else rel_at g k)"
  by (induction ks arbitrary: g) (auto simp: delete_relationship_rel_at split_beta Let_def fun_eq_iff)

lemma delete_one_by_one_alive:
  "\<forall>k. \<not> P k \<longrightarrow> rel_at g k = None \<Longrightarrow> delete_one_by_one (filter P ks) g = delete_one_by_one ks g"
proof (induction ks arbitrary: g)
  case (Cons k ks)
  have "delete_one_by_one (filter P ks) (snd (delete_relationship k g)) = delete_one_by_one ks (snd (delete_relationship k g))"
    by (rule Cons.IH) (use Cons.prems in \<open>simp add: delete_relationship_rel_at\<close>)
  moreover have "delete_one_by_one (filter P ks) g = delete_one_by_one ks g" by (rule Cons.IH [OF Cons.prems])
  ultimately show ?case using Cons.prems delete_dead [of g k] by (auto simp: split_beta Let_def)
qed simp

section \<open>Detaching one node\<close>

text \<open>The reference: the incident relationships go one after the other, then the node.\<close>

definition detach_at_once :: "node_id \<Rightarrow> graph \<Rightarrow> bool \<times> graph" where
  "detach_at_once i g = (if \<not> has_node_at g i then (False, g)
     else let (_, g) = delete_one_by_one (incident_relationship_ids g i) g;
              (deleted, g) = delete_node i g
          in (deleted, if deleted then graph_emit (DetachDeleteNode i) g else g))"

lemma incident_ids: "incident_relationship_ids g i =
    map ae_rel (adjacency_at g i Out) @ map ae_rel (filter (\<lambda>e. ae_neighbour e \<noteq> i) (adjacency_at g i In))"
  by (simp add: incident_relationship_ids_def adjacent_ids_unchecked_def filter_resolve_def adjacent_entries_def comp_def)

lemma alive_entries:
  assumes d: "deferred ps g h" and ok: "graph_ok h"
  shows "adjacency_at h i s = filter (\<lambda>e. rel_at h (ae_rel e) \<noteq> None) (adjacency_at g i s)"
proof -
  have s: "settles ps g h" using d by (simp add: deferred_def)
  have "(i, s, ae_rel e) \<notin> set ps \<longleftrightarrow> rel_at h (ae_rel e) \<noteq> None" if e: "e \<in> set (adjacency_at g i s)" for e
  proof
    assume "(i, s, ae_rel e) \<notin> set ps"
    then have "e \<in> set (adjacency_at h i s)" using e by (simp add: settles_at [OF s])
    then show "rel_at h (ae_rel e) \<noteq> None"
      using entries_member [of e "gr_types h" "rel_at h" i s] graph_ok_adjacency(2) [OF ok, of i s] by auto
  next
    assume "rel_at h (ae_rel e) \<noteq> None"
    then show "(i, s, ae_rel e) \<notin> set ps" using d settles_fields(4) [OF s] by (auto simp: deferred_def)
  qed
  then show ?thesis unfolding settles_at [OF s] by (intro filter_cong) auto
qed

lemma alive_incident:
  assumes "deferred ps g h" and "graph_ok h"
  shows "incident_relationship_ids h i = filter (\<lambda>k. rel_at h k \<noteq> None) (incident_relationship_ids g i)"
  by (simp add: incident_ids alive_entries [OF assms] filter_map comp_def conj_commute)

lemma deferred_clear:
  assumes "deferred ps g h"
  shows "deferred ps (clear_adjacency i g) (clear_adjacency i h)"
proof -
  have s: "settles ps g h" using assms by (simp add: deferred_def)
  note f = settles_fields [OF s]
  have "h = g\<lparr>gr_adjacency := gr_adjacency h\<rparr>" using s by (simp add: settles_def)
  then have "clear_adjacency i h = (clear_adjacency i g)\<lparr>gr_adjacency := gr_adjacency (clear_adjacency i h)\<rparr>"
    using f(10) by (cases g, cases h) (simp add: clear_adjacency_eq)
  then have "settles ps (clear_adjacency i g) (clear_adjacency i h)"
    using s f(10) by (simp add: settles_def clear_adjacency_at) (simp add: clear_adjacency_eq)
  moreover have "lists_distinct (clear_adjacency i g)" "rel_at (clear_adjacency i g) = rel_at g"
    using assms by (simp_all add: deferred_def lists_distinct_def clear_adjacency_at) (simp_all add: clear_adjacency_eq)
  ultimately show ?thesis using assms by (simp add: deferred_def)
qed

lemma delete_node_detached:
  assumes n: "has_node_at g i" and none: "\<And>s. adjacency_at g i s = []"
  shows "delete_node i g = (True, graph_emit (DeleteNode i) (on_node_deleted (the (node_at g i))
    (g\<lparr>gr_nodes := (gr_nodes g)[unat i := None], gr_live_nodes := gr_live_nodes g - 1\<rparr>)))"
proof -
  let ?h = "g\<lparr>gr_nodes := (gr_nodes g)[unat i := None], gr_live_nodes := gr_live_nodes g - 1\<rparr>"
  have "clear_adjacency i ?h = ?h" by (rule clear_adjacency_id) (use none in simp)
  then show ?thesis using n none
    by (auto simp: delete_node_def take_node_def has_incident_relationships_def has_node_at_def)
qed

lemma delete_node_deferred:
  assumes d: "deferred ps g h" and n: "has_node_at h i"
    and none: "\<And>s. adjacency_at g i s = []"
  obtains g' h' where "delete_node i g = (True, g')" and "delete_node i h = (True, h')" and "deferred ps g' h'"
proof -
  have s: "settles ps g h" using d by (simp add: deferred_def)
  note f = settles_fields [OF s]
  let ?F = "\<lambda>x :: graph. graph_emit (DeleteNode i) (on_node_deleted (the (node_at g i))
    (x\<lparr>gr_nodes := (gr_nodes x)[unat i := None], gr_live_nodes := gr_live_nodes x - 1\<rparr>))"
  have "delete_node i g = (True, ?F g)" using delete_node_detached [of g i] n none f by (simp add: has_node_at_def)
  moreover have "delete_node i h = (True, ?F h)"
    using delete_node_detached [of h i] n none f by (simp add: settles_at [OF s])
  moreover have "settles ps (?F g) (?F h)"
    by (rule settles_update [OF s]) (simp_all add: graph_emit_def on_node_deleted_def)
  then have "deferred ps (?F g) (?F h)"
    using d by (simp add: deferred_def lists_distinct_def on_node_deleted_def)
  ultimately show ?thesis using that by blast
qed

lemma no_incident_left:
  assumes ok: "graph_ok h"
  shows "adjacency_at (snd (delete_one_by_one (incident_relationship_ids h i) h)) i s = []"
proof -
  let ?ks = "incident_relationship_ids h i"
  let ?h = "snd (delete_one_by_one ?ks h)"
  have ok': "graph_ok ?h" by (rule delete_one_by_one_ok [OF ok])
  have False if e: "e \<in> set (adjacency_at ?h i s)" for e
  proof -
    obtain r where r: "rel_at ?h (ae_rel e) = Some r" "near_end s r = i"
      using e entries_member [of e "gr_types ?h" "rel_at ?h" i s] graph_ok_adjacency(2) [OF ok', of i s] by auto
    then have old: "ae_rel e \<notin> set ?ks" "rel_at h (ae_rel e) = Some r"
      by (auto simp: delete_one_by_one_rel_at split: if_splits)
    have id: "rr_id r = ae_rel e" using rel_id [OF ok old(2)] .
    have member: "entry_of (gr_types h) t r \<in> set (adjacency_at h i t)" if "near_end t r = i" for t
      unfolding graph_ok_adjacency(2) [OF ok] using that old(2) id by (auto simp: entries_def)
    show False
    proof (cases "near_end Out r = i")
      case True
      then have "ae_rel e \<in> ae_rel ` set (adjacency_at h i Out)"
        using member [of Out] id by (auto intro: rev_image_eqI)
      then show False using old(1) by (simp add: incident_ids)
    next
      case False
      then have "s = In" using r(2) by (cases s) auto
      moreover have "ae_neighbour (entry_of (gr_types h) In r) \<noteq> i"
        using False by (simp add: entry_of_def far_end_def near_end_def)
      ultimately have "ae_rel e \<in> ae_rel ` set (filter (\<lambda>x. ae_neighbour x \<noteq> i) (adjacency_at h i In))"
        using member [of In] r(2) id by (auto intro: rev_image_eqI)
      then show False using old(1) by (simp add: incident_ids)
    qed
  qed
  then show ?thesis by (meson last_in_set)
qed

lemma delete_one_by_one_node_at [simp]: "node_at (snd (delete_one_by_one ks g)) = node_at g"
proof (induction ks arbitrary: g)
  case (Cons k ks)
  have "node_at (snd (detach_relationship_indexes r None g)) = node_at g" for r g
    by (rule detach_None [of r g]) simp
  then have "node_at (snd (delete_relationship k g)) = node_at g"
    by (simp add: delete_relationship_def delete_relationship_deferring_def take_rel_def split_beta Let_def
        on_relationship_deleted_def split: option.split)
  then show ?case by (simp add: Cons split_beta Let_def)
qed simp

lemma detach_node_deferred:
  assumes d: "deferred ps g h" and ok: "graph_ok h"
  obtains b ps' g' h' where "detach_delete_deferring i ps g = (b, ps', g')" and "detach_at_once i h = (b, h')"
    and "deferred ps' g' h'" and "graph_ok h'" and "b = has_node_at h i"
proof (cases "has_node_at h i")
  case False
  moreover have "has_node_at g i = has_node_at h i" using d settles_fields(3) [of ps g h] by (simp add: deferred_def has_node_at_def)
  ultimately show ?thesis using that [of False ps g h] d ok
    by (simp add: detach_delete_deferring_def detach_at_once_def)
next
  case True
  have n: "has_node_at g i" using True d settles_fields(3) [of ps g h] by (simp add: deferred_def has_node_at_def)
  let ?ks = "incident_relationship_ids g i"
  define h1 where "h1 = snd (delete_one_by_one (incident_relationship_ids h i) h)"
  have h1: "h1 = snd (delete_one_by_one ?ks h)"
    unfolding h1_def alive_incident [OF d ok] by (subst delete_one_by_one_alive) auto
  have ok1: "graph_ok h1" unfolding h1_def by (rule delete_one_by_one_ok [OF ok])
  have empty: "adjacency_at h1 i s = []" for s unfolding h1_def by (rule no_incident_left [OF ok])
  have "rel_ids_ok (clear_adjacency i h)" using graph_ok_ids [OF ok] by (simp add: rel_ids_ok_def clear_adjacency_eq)
  then obtain m ps' g1 h1' where r: "delete_each ?ks (Some ps) (clear_adjacency i g) = (m, Some ps', g1)"
    "delete_one_by_one ?ks (clear_adjacency i h) = (m, h1')" "deferred ps' g1 h1'" "rel_ids_ok h1'"
    "lists_shrink (clear_adjacency i g) g1"
    using delete_each_deferred [OF deferred_clear [OF d]] by metis
  have "h1' = clear_adjacency i h1" using r(2) by (simp add: delete_one_by_one_clear h1)
  then have d1: "deferred ps' g1 h1" using r(3) clear_adjacency_id [OF empty] by simp
  have none: "adjacency_at g1 i s = []" for s
    using r(5) by (simp add: lists_shrink_def clear_adjacency_at)
  have "has_node_at h1 i" using True by (simp add: h1 has_node_at_def)
  then obtain g2 h2 where two: "delete_node i g1 = (True, g2)" "delete_node i h1 = (True, h2)" "deferred ps' g2 h2"
    by (rule delete_node_deferred [OF d1 _ none])
  let ?e = "graph_emit (DetachDeleteNode i)"
  have "settles ps' (?e g2) (?e h2)"
    by (rule settles_update) (use two(3) in \<open>simp_all add: deferred_def graph_emit_def\<close>)
  then have "deferred ps' (?e g2) (?e h2)" using two(3) by (simp add: deferred_def lists_distinct_def)
  moreover have "graph_ok (?e h2)" using delete_node_ok [OF ok1, of i] two(2) by simp
  moreover have "detach_delete_deferring i ps g = (True, ps', ?e g2)"
    using n r(1) two(1) by (simp add: detach_delete_deferring_def)
  moreover have "detach_at_once i h = (True, ?e h2)"
    using True two(2) by (simp add: detach_at_once_def h1_def split_beta Let_def)
  ultimately show ?thesis using that True by blast
qed

end
