(* ===== verification/Graph_Machine.thy ===== *)
theory Graph_Machine
  imports Graph_Detach Schema_Laws
begin

text \<open>
  The graph as a machine: its mutations and schema commands in any order, and the invariant of every
  state they reach. The batched deletions are its deletions one after the other.
\<close>

section \<open>Batches of detached nodes\<close>

fun detach_one_by_one :: "node_id list \<Rightarrow> graph \<Rightarrow> nat \<times> graph" where
  "detach_one_by_one [] g = (0, g)"
| "detach_one_by_one (i # is) g = (let (b, g) = detach_delete_node i g; (n, g) = detach_one_by_one is g
     in (if b then n + 1 else n, g))"

fun detach_each_at_once :: "node_id list \<Rightarrow> graph \<Rightarrow> nat \<times> graph" where
  "detach_each_at_once [] g = (0, g)"
| "detach_each_at_once (i # is) g = (let (b, g) = detach_at_once i g; (n, g) = detach_each_at_once is g
     in (if b then n + 1 else n, g))"

lemma detach_each_deferred:
  assumes "deferred ps g h" and "graph_ok h"
  obtains n ps' g' h' where "detach_each is ps g = (n, ps', g')" and "detach_each_at_once is h = (n, h')"
    and "deferred ps' g' h'" and "graph_ok h'"
  using assms
proof (induction "is" arbitrary: ps g h thesis)
  case Nil
  then show ?case by simp
next
  case (Cons i "is")
  obtain b ps1 g1 h1 where one: "detach_delete_deferring i ps g = (b, ps1, g1)" "detach_at_once i h = (b, h1)"
    "deferred ps1 g1 h1" "graph_ok h1" "b = has_node_at h i"
    by (rule detach_node_deferred [OF Cons.prems(2,3)])
  obtain n ps2 g2 h2 where two: "detach_each is ps1 g1 = (n, ps2, g2)" "detach_each_at_once is h1 = (n, h2)"
    "deferred ps2 g2 h2" "graph_ok h2"
    by (rule Cons.IH [OF _ one(3,4)])
  then show ?case using Cons.prems(1) [of "if b then n + 1 else n" ps2 g2 h2] one(1,2) by simp
qed

lemma detach_nodes_at_once:
  assumes "graph_ok g"
  shows "detach_delete_nodes is g = detach_each_at_once is g" and "graph_ok (snd (detach_delete_nodes is g))"
proof -
  obtain n ps g' h where r: "detach_each is [] g = (n, ps, g')" "detach_each_at_once is g = (n, h)"
    "deferred ps g' h" "graph_ok h"
    by (rule detach_each_deferred [OF deferred_start [OF graph_ok_distinct [OF assms]] assms])
  have "flush_adjacency_removals ps g' = h"
    using flush_eq deferred_size [OF r(3,4)] r(3) by (simp add: deferred_def)
  then show "detach_delete_nodes is g = detach_each_at_once is g" "graph_ok (snd (detach_delete_nodes is g))"
    using r by (simp_all add: detach_delete_nodes_def)
qed

lemma detach_delete_node_at_once:
  assumes "graph_ok g"
  shows "detach_delete_node i g = detach_at_once i g"
  using detach_nodes_at_once(1) [OF assms, of "[i]"] by (simp add: detach_delete_node_def split_beta Let_def prod_eq_iff)

lemma detach_delete_node_ok: "graph_ok g \<Longrightarrow> graph_ok (snd (detach_delete_node i g))"
  using detach_nodes_at_once(2) [of g "[i]"] by (simp add: detach_delete_node_def split_beta Let_def)

lemma detach_nodes_one_by_one:
  assumes "graph_ok g"
  shows "detach_delete_nodes is g = detach_one_by_one is g"
proof -
  have "detach_each_at_once is g = detach_one_by_one is g"
    using assms
  proof (induction "is" arbitrary: g)
    case (Cons i "is")
    have "graph_ok (snd (detach_at_once i g))"
      using detach_delete_node_ok [OF Cons.prems, of i] detach_delete_node_at_once [OF Cons.prems, of i] by simp
    from Cons.IH [OF this] show ?case
      using detach_delete_node_at_once [OF Cons.prems, of i] by (simp add: split_beta Let_def)
  qed simp
  then show ?thesis using detach_nodes_at_once(1) [OF assms] by simp
qed

section \<open>The machine\<close>

text \<open>
  The steps of a graph. The property map of a new record is sorted by key, as every \<open>PropertyMap\<close> is;
  \<open>scan\<close> is the check of the existing data when a constraint is created
  (\<open>validate_existing_data_for_constraint\<close>). The \<open>Populating\<close> mark of a vector index goes at its first search.
\<close>

type_synonym data_scan = "graph \<Rightarrow> constraint_definition \<Rightarrow> string option"

definition on_schema :: "(schema_state \<Rightarrow> 'a \<times> schema_state) \<Rightarrow> graph \<Rightarrow> 'a \<times> graph" where
  "on_schema command g = (let (r, s) = command (gr_schema g) in (r, g\<lparr>gr_schema := s\<rparr>))"

inductive graph_step :: "data_scan \<Rightarrow> graph \<Rightarrow> graph \<Rightarrow> bool" for scan where
  create_node: "sorted_keys ps \<Longrightarrow> graph_step scan g (snd (try_create_node labels ps g))"
| create_relationship: "sorted_keys ps \<Longrightarrow> graph_step scan g (snd (create_relationship src dst ty ps g))"
| set_node_property: "graph_step scan g (snd (set_node_property i key v g))"
| remove_node_property: "graph_step scan g (snd (remove_node_property i key g))"
| update_node_properties: "graph_step scan g (snd (update_node_properties i edits g))"
| add_node_label: "graph_step scan g (snd (add_node_label i label g))"
| remove_node_label: "graph_step scan g (snd (remove_node_label i label g))"
| set_relationship_property: "graph_step scan g (snd (set_relationship_property k key v g))"
| remove_relationship_property: "graph_step scan g (snd (remove_relationship_property k key g))"
| delete_relationship: "graph_step scan g (snd (delete_relationship k g))"
| delete_relationships: "graph_step scan g (snd (delete_relationships ks g))"
| delete_node: "graph_step scan g (snd (delete_node i g))"
| detach_delete_node: "graph_step scan g (snd (detach_delete_node i g))"
| detach_delete_nodes: "graph_step scan g (snd (detach_delete_nodes is g))"
| clear: "graph_step scan g (clear_graph g)"
| create_index: "length (icat_by_name (ss_indexes (gr_schema g))) < 2 ^ 64 \<Longrightarrow>
    graph_step scan g (snd (on_schema (register_index request ine) g))"
| drop_index: "graph_step scan g (snd (on_schema (drop_named_index name ife) g))"
| create_constraint: "graph_step scan g (snd (on_schema (register_constraint (scan g) request ine) g))"
| drop_constraint: "graph_step scan g (snd (on_schema (drop_named_constraint name ife) g))"
| populate: "graph_step scan g (g\<lparr>gr_schema := lazy_populate_vector_index name (gr_schema g)\<rparr>)"

inductive_cases graph_stepE: "graph_step scan g g'"

inductive graph_reachable :: "data_scan \<Rightarrow> mutation_event list option \<Rightarrow> graph \<Rightarrow> bool" for scan recorder where
  start: "graph_reachable scan recorder (graph_default recorder)"
| step: "graph_reachable scan recorder g \<Longrightarrow> graph_step scan g g' \<Longrightarrow> graph_reachable scan recorder g'"

lemma clear_graph_ok: "graph_ok (clear_graph g)"
  by (simp add: clear_graph_def graph_ok_default)

lemma graph_ok_on_schema [simp]: "graph_ok (snd (on_schema command g)) = graph_ok g"
  by (simp add: on_schema_def split_beta Let_def)

lemma graph_ok_step: "graph_step scan g g' \<Longrightarrow> graph_ok g \<Longrightarrow> graph_ok g'"
  by (erule graph_stepE) (simp_all add: try_create_node_ok create_relationship_ok property_steps_ok
      add_node_label_ok remove_node_label_ok delete_relationship_ok delete_relationships_one_by_one
      delete_one_by_one_ok delete_node_ok detach_delete_node_ok detach_nodes_at_once(2) clear_graph_ok)

lemma graph_ok_reachable: "graph_reachable scan recorder g \<Longrightarrow> graph_ok g"
  by (induction rule: graph_reachable.induct) (auto simp: graph_ok_default intro: graph_ok_step)

section \<open>Properties of the graph\<close>

text \<open>Two nodes, one with a label, and a relationship between them.\<close>

definition sample_graph :: "mutation_event list option \<Rightarrow> graph" where
  "sample_graph recorder = snd (create_relationship 0 1 ''KNOWS'' [(''since'', PvInt 2020)]
     (snd (try_create_node [] [] (snd (try_create_node [''Person''] [] (graph_default recorder))))))"

lemma sample_graph_reachable: "graph_reachable scan recorder (sample_graph recorder)"
proof -
  have "sorted_keys [(''since'', PvInt 2020)]" "sorted_keys ([] :: properties)" by simp_all
  then show ?thesis unfolding sample_graph_def
    by (meson graph_reachable.intros graph_step.create_node graph_step.create_relationship)
qed

lemmas create_defs = try_create_node_def try_reserve_next_node_slot_def ensure_node_slot_checked_def
  slot_len_for_id_def MAX_ENTITY_ID_def bump_next_node_id_past_def checked_next_id_def graph_default_def
  Let_def grow_to_def put_node_at_slot_def slot_get_def on_node_created_def graph_emit_def emit_def
  schema_new_def index_add_def normalize_labels_def add_label_def max_def create_relationship_def
  has_node_at_def node_at_def try_reserve_next_rel_slot_def ensure_rel_slot_checked_def
  bump_next_rel_id_past_def put_rel_at_slot_def on_relationship_created_def attach_relationship_def
  adjacency_push_def adj_push_def adj_update_def adj_empty_def id_or_insert_def id_of_def

lemma sample_graph_eq: "sample_graph None =
    \<lparr>gr_next_node_id = 2, gr_next_rel_id = 1,
     gr_nodes = [Some \<lparr>nr_id = 0, nr_labels = [''Person''], nr_properties = []\<rparr>,
       Some \<lparr>nr_id = 1, nr_labels = [], nr_properties = []\<rparr>],
     gr_relationships = [Some \<lparr>rr_id = 0, rr_src = 0, rr_dst = 1, rr_type = ''KNOWS'',
       rr_properties = [(''since'', PvInt 2020)]\<rparr>],
     gr_types = [''KNOWS''], gr_live_nodes = 2, gr_live_rels = 1,
     gr_adjacency = [\<lparr>adj_out = [\<lparr>ae_type = 0, ae_neighbour = 1, ae_rel = 0\<rparr>], adj_in = []\<rparr>,
       \<lparr>adj_out = [], adj_in = [\<lparr>ae_type = 0, ae_neighbour = 0, ae_rel = 0\<rparr>]\<rparr>],
     gr_nodes_by_label = [(''Person'', [0])], gr_rels_by_type = [(''KNOWS'', [0])], gr_schema = schema_new None\<rparr>"
proof -
  have "trimmed ''KNOWS''" "trimmed ''Person''"
    by (simp_all add: trimmed_def whitespace_literal suffix_to_prefix)
  then show ?thesis unfolding sample_graph_def by (simp add: create_defs)
qed

text \<open>
  C13. The invariant of the graph. In every state that mutations and schema commands reach: the slot tables
  are as long as the next ids; every record sits in the slot of its id, a node's labels are trimmed,
  non-empty and distinct, and a relationship's endpoints exist; the two adjacency lists of a node hold
  exactly one entry for each relationship that leaves and enters it; the label and type indexes list
  exactly the records with that label or type; and the live counts are the numbers of records.
\<close>

theorem graph_invariant:
  assumes "graph_reachable scan recorder g"
  shows "slots_ok g \<and> nodes_ok (node_at g) \<and> rels_ok (gr_types g) (node_at g) (rel_at g)
    \<and> adjacency_ok (gr_types g) (rel_at g) (adjacency_at g)
    \<and> labels_indexed (node_at g) (gr_nodes_by_label g) \<and> types_indexed (rel_at g) (gr_rels_by_type g)
    \<and> gr_live_nodes g = card (dom (node_at g)) \<and> gr_live_rels g = card (dom (rel_at g))"
  using graph_ok_reachable [OF assms] by (simp add: graph_ok_def counts_ok_def)

theorem graph_invariant_witness:
  "gr_live_nodes (sample_graph None) = card (dom (node_at (sample_graph None)))
    \<and> adjacency_ok (gr_types (sample_graph None)) (rel_at (sample_graph None)) (adjacency_at (sample_graph None))
    \<and> gr_live_nodes (sample_graph None) = 2"
  using graph_invariant [OF sample_graph_reachable [of "\<lambda>_ _. None" None]] by (simp add: sample_graph_eq)

text \<open>
  C17. Deleting a batch of relationships, which leaves the edits of long adjacency lists pending and
  applies them at the end, gives the same graph, the same events and the same count as deleting them
  one after the other.
\<close>

theorem batch_delete_one_by_one:
  assumes "graph_reachable scan recorder g"
  shows "delete_relationships ks g = delete_one_by_one ks g"
  by (rule delete_relationships_one_by_one [OF graph_ok_reachable [OF assms]])

lemma sample_deleted: "fst (delete_one_by_one [0, 0] (sample_graph None)) = 1"
proof -
  have "rel_at (sample_graph None) 0 \<noteq> None" by (simp add: sample_graph_eq rel_at_def slot_get_def)
  then show ?thesis by (simp add: split_beta Let_def delete_relationship_deletes delete_relationship_rel_at)
qed

theorem batch_delete_one_by_one_witness: "fst (delete_relationships [0, 0] (sample_graph None)) = 1"
  using batch_delete_one_by_one [OF sample_graph_reachable [of "\<lambda>_ _. None" None], of "[0, 0]"] sample_deleted
  by simp

text \<open>
  C18. Deleting a batch of nodes with their relationships, with the edits of long adjacency lists
  pending over the whole batch, gives the same graph, events and count as detaching them one after the
  other, and detaching a node is deleting its relationships one by one and then the node.
\<close>

theorem batch_detach_one_by_one:
  assumes "graph_reachable scan recorder g"
  shows "detach_delete_nodes is g = detach_one_by_one is g \<and> detach_delete_node i g = detach_at_once i g"
  using detach_nodes_one_by_one detach_delete_node_at_once graph_ok_reachable [OF assms] by blast

theorem batch_detach_one_by_one_witness:
  "detach_delete_nodes [1, 1, 7] (sample_graph None) = detach_one_by_one [1, 1, 7] (sample_graph None)
    \<and> fst (detach_delete_node 7 (sample_graph None)) = False"
  using batch_detach_one_by_one [OF sample_graph_reachable [of "\<lambda>_ _. None" None], of "[1, 1, 7]" 7]
  by (simp add: detach_at_once_def has_node_at_def node_at_def slot_get_def sample_graph_eq)

end
