(* ===== verification/Graph_Reads.thy ===== *)
theory Graph_Reads
  imports Graph_Machine
begin

text \<open>
  Reading the graph (\<open>impl GraphStorage for InMemoryGraph\<close> in \<open>memory/impls.rs\<close>): scans, counts,
  traversals and key listings, and what they answer in a state that satisfies the invariant. The reads
  that go through a property, text, point or vector index are left out.
\<close>

section \<open>Scans of the slots\<close>

definition slots_from :: "nat \<Rightarrow> 'a option list \<Rightarrow> nat list" where
  "slots_from from slots = filter (\<lambda>k. slot_get k slots \<noteq> None) [from..<length slots]"

definition iter_node_ids :: "graph \<Rightarrow> node_id list" where
  "iter_node_ids g = map of_nat (slots_from 0 (gr_nodes g))"

definition iter_rel_ids :: "graph \<Rightarrow> relationship_id list" where
  "iter_rel_ids g = map of_nat (slots_from 0 (gr_relationships g))"

definition iter_node_refs :: "graph \<Rightarrow> node_record list" where
  "iter_node_refs g = List.map_filter id (gr_nodes g)"

definition iter_rel_refs :: "graph \<Rightarrow> relationship_record list" where
  "iter_rel_refs g = List.map_filter id (gr_relationships g)"

definition all_node_ids :: "graph \<Rightarrow> node_id list" where
  "all_node_ids g = iter_node_ids g"

definition node_ids_by_label :: "graph \<Rightarrow> string \<Rightarrow> node_id list" where
  "node_ids_by_label g label = (case map_of (gr_nodes_by_label g) label of Some ids \<Rightarrow> ids | None \<Rightarrow> [])"

definition all_rel_ids :: "graph \<Rightarrow> relationship_id list" where
  "all_rel_ids g = iter_rel_ids g"

definition rel_ids_by_type :: "graph \<Rightarrow> string \<Rightarrow> relationship_id list" where
  "rel_ids_by_type g ty = (case map_of (gr_rels_by_type g) ty of Some ids \<Rightarrow> ids | None \<Rightarrow> [])"

definition relationship_endpoints :: "graph \<Rightarrow> relationship_id \<Rightarrow> (node_id \<times> node_id) option" where
  "relationship_endpoints g i = map_option (\<lambda>r. (rr_src r, rr_dst r)) (rel_at g i)"

definition all_labels :: "graph \<Rightarrow> string list" where
  "all_labels g = map fst (gr_nodes_by_label g)"

definition all_relationship_types :: "graph \<Rightarrow> string list" where
  "all_relationship_types g = map fst (gr_rels_by_type g)"

definition node_count :: "graph \<Rightarrow> nat" where
  "node_count g = gr_live_nodes g"

definition relationship_count :: "graph \<Rightarrow> nat" where
  "relationship_count g = gr_live_rels g"

definition node_count_by_label :: "graph \<Rightarrow> string \<Rightarrow> nat" where
  "node_count_by_label g label = (case map_of (gr_nodes_by_label g) label of None \<Rightarrow> 0 | Some ids \<Rightarrow> length ids)"

definition nodes_by_label :: "graph \<Rightarrow> string \<Rightarrow> node_record list" where
  "nodes_by_label g label = (case map_of (gr_nodes_by_label g) label of None \<Rightarrow> []
     | Some ids \<Rightarrow> List.map_filter (node_at g) ids)"

definition relationships_by_type :: "graph \<Rightarrow> string \<Rightarrow> relationship_record list" where
  "relationships_by_type g ty = (case map_of (gr_rels_by_type g) ty of None \<Rightarrow> []
     | Some ids \<Rightarrow> List.map_filter (rel_at g) ids)"

section \<open>Pages\<close>

text \<open>
  \<open>fill_page\<close> moves at most \<open>max\<close> of the ids to \<open>out\<close> and leaves the cursor past the last one;
  \<open>scan_node_ids\<close> returns whether ids are left, with the new cursor and output.
\<close>

definition saturating_succ :: "u64 \<Rightarrow> u64" where
  "saturating_succ i = (if i = - 1 then i else i + 1)"

definition fill_page :: "node_id list \<Rightarrow> u64 \<Rightarrow> nat \<Rightarrow> node_id list \<Rightarrow> bool \<times> u64 \<times> node_id list" where
  "fill_page ids cursor limit out =
     (let (out, cursor) = fold (\<lambda>i (out, _). (out @ [i], saturating_succ i)) (take limit ids) (out, cursor)
      in (drop limit ids \<noteq> [], cursor, out))"

definition scan_node_ids :: "graph \<Rightarrow> string option \<Rightarrow> u64 \<Rightarrow> nat \<Rightarrow> node_id list \<Rightarrow> bool \<times> u64 \<times> node_id list" where
  "scan_node_ids g label cursor limit out = (let limit = max limit 1 in
     case label of
       Some label \<Rightarrow> (case map_of (gr_nodes_by_label g) label of
           None \<Rightarrow> (False, cursor, out)
         | Some ids \<Rightarrow> fill_page (dropWhile (\<lambda>i. i < cursor) ids) cursor limit out)
     | None \<Rightarrow> fill_page (map of_nat (slots_from (unat cursor) (gr_nodes g))) cursor limit out)"

section \<open>Traversals\<close>

definition other_node :: "relationship_record \<Rightarrow> node_id \<Rightarrow> node_id option" where
  "other_node r i = (if rr_src r = i then Some (rr_dst r) else if rr_dst r = i then Some (rr_src r) else None)"

definition matches_direction_from :: "relationship_record \<Rightarrow> node_id \<Rightarrow> direction \<Rightarrow> bool" where
  "matches_direction_from r i dir \<longleftrightarrow> (case dir of
      DirRight \<Rightarrow> rr_src r = i | DirLeft \<Rightarrow> rr_dst r = i | Undirected \<Rightarrow> rr_src r = i \<or> rr_dst r = i)"

definition relationship_ids_of :: "graph \<Rightarrow> node_id \<Rightarrow> direction \<Rightarrow> relationship_id list" where
  "relationship_ids_of g i dir = map fst (adjacent_ids_unchecked g i dir [])"

definition outgoing_relationships :: "graph \<Rightarrow> node_id \<Rightarrow> relationship_record list" where
  "outgoing_relationships g i = List.map_filter (\<lambda>e. rel_at g (ae_rel e)) (adjacency_at g i Out)"

definition incoming_relationships :: "graph \<Rightarrow> node_id \<Rightarrow> relationship_record list" where
  "incoming_relationships g i = List.map_filter (\<lambda>e. rel_at g (ae_rel e)) (adjacency_at g i In)"

definition relationships_of :: "graph \<Rightarrow> node_id \<Rightarrow> direction \<Rightarrow> relationship_record list" where
  "relationships_of g i dir = List.map_filter (\<lambda>(k, _). rel_at g k) (expand_ids g i dir [])"

definition expand :: "graph \<Rightarrow> node_id \<Rightarrow> direction \<Rightarrow> string list \<Rightarrow> (relationship_record \<times> node_record) list" where
  "expand g i dir types = (if \<not> has_node_at g i then []
     else List.map_filter (\<lambda>(k, j). case (rel_at g k, node_at g j) of
       (Some r, Some n) \<Rightarrow> Some (r, n) | _ \<Rightarrow> None) (expand_ids g i dir types))"

definition neighbors :: "graph \<Rightarrow> node_id \<Rightarrow> direction \<Rightarrow> string list \<Rightarrow> node_record list" where
  "neighbors g i dir types = List.map_filter (\<lambda>(_, j). node_at g j) (expand_ids g i dir types)"

section \<open>Key listings\<close>

text \<open>A \<open>BTreeSet\<close> of keys is its ascending list.\<close>

definition add_keys :: "properties \<Rightarrow> string list \<Rightarrow> string list" where
  "add_keys ps keys = fold (\<lambda>(key, _). insort_insert key) ps keys"

definition all_node_property_keys :: "graph \<Rightarrow> string list" where
  "all_node_property_keys g = fold (\<lambda>n. add_keys (nr_properties n)) (iter_node_refs g) []"

definition all_relationship_property_keys :: "graph \<Rightarrow> string list" where
  "all_relationship_property_keys g = fold (\<lambda>r. add_keys (rr_properties r)) (iter_rel_refs g) []"

definition label_property_keys :: "graph \<Rightarrow> string \<Rightarrow> string list" where
  "label_property_keys g label = (case map_of (gr_nodes_by_label g) label of None \<Rightarrow> []
     | Some ids \<Rightarrow> fold (\<lambda>i keys. case node_at g i of Some n \<Rightarrow> add_keys (nr_properties n) keys | None \<Rightarrow> keys) ids [])"

definition rel_type_property_keys :: "graph \<Rightarrow> string \<Rightarrow> string list" where
  "rel_type_property_keys g ty = (case map_of (gr_rels_by_type g) ty of None \<Rightarrow> []
     | Some ids \<Rightarrow> fold (\<lambda>i keys. case rel_at g i of Some r \<Rightarrow> add_keys (rr_properties r) keys | None \<Rightarrow> keys) ids [])"

section \<open>What a scan answers\<close>

lemma unat_slot: "graph_ok g \<Longrightarrow> k < length (gr_nodes g) \<Longrightarrow> unat (of_nat k :: u64) = k \<and> (of_nat k :: u64) \<le> MAX_ENTITY_ID"
proof -
  assume ok: "graph_ok g" and k: "k < length (gr_nodes g)"
  have "unat (gr_next_node_id g) \<le> 2 ^ 34"
    using ok by (simp add: graph_ok_def slots_ok_def MAX_ENTITY_ID_def word_le_nat_alt)
  then have "k < 2 ^ 34" using ok k by (simp add: graph_ok_def slots_ok_def)
  then have "unat (of_nat k :: u64) = k" by (simp add: unat_of_nat)
  then show ?thesis using \<open>k < 2 ^ 34\<close> by (simp add: MAX_ENTITY_ID_def word_le_nat_alt)
qed

lemma sorted_unat: "sorted (map unat xs) \<longleftrightarrow> sorted (xs :: u64 list)"
  by (induction xs) (auto simp: word_le_nat_alt)

lemma slots_from_ids:
  assumes ok: "graph_ok g"
  shows "sorted (map of_nat (slots_from n (gr_nodes g)) :: u64 list)" (is "sorted ?ids")
    and "distinct (map of_nat (slots_from n (gr_nodes g)) :: u64 list)"
    and "set (map of_nat (slots_from n (gr_nodes g)) :: u64 list) = {i. node_at g i \<noteq> None \<and> n \<le> unat i}"
proof -
  have u: "unat (of_nat k :: u64) = k" if "k \<in> set (slots_from n (gr_nodes g))" for k
    using that unat_slot [OF ok] by (simp add: slots_from_def)
  then have unmap: "map unat ?ids = slots_from n (gr_nodes g)" by (simp add: comp_def map_idI)
  have s: "sorted (slots_from n (gr_nodes g))" "distinct (slots_from n (gr_nodes g))"
    by (simp_all add: slots_from_def sorted_wrt_filter)
  have "sorted (map unat ?ids)" "distinct (map unat ?ids)" using s by (simp_all only: unmap)
  then show "sorted ?ids" "distinct ?ids" unfolding sorted_unat distinct_map by blast+
  show "set ?ids = {i. node_at g i \<noteq> None \<and> n \<le> unat i}"
  proof (intro set_eqI iffI)
    fix i assume "i \<in> set ?ids"
    then show "i \<in> {i. node_at g i \<noteq> None \<and> n \<le> unat i}"
      using u by (auto simp: slots_from_def node_at_def)
  next
    fix i assume i: "i \<in> {i. node_at g i \<noteq> None \<and> n \<le> unat i}"
    then have "unat i \<in> set (slots_from n (gr_nodes g))"
      by (auto simp: slots_from_def node_at_def slot_get_def split: if_splits)
    then show "i \<in> set ?ids" by (auto intro: image_eqI [where x="unat i"])
  qed
qed

text \<open>The ids a scan is over.\<close>

definition scanned :: "graph \<Rightarrow> string option \<Rightarrow> node_id set" where
  "scanned g label = {i. \<exists>n. node_at g i = Some n \<and> (\<forall>l. label = Some l \<longrightarrow> l \<in> set (nr_labels n))}"

text \<open>The ids a call of \<open>scan_node_ids\<close> has left, ascending.\<close>

definition scan_rest :: "graph \<Rightarrow> string option \<Rightarrow> u64 \<Rightarrow> node_id list" where
  "scan_rest g label cursor = (case label of
      Some label \<Rightarrow> dropWhile (\<lambda>i. i < cursor) (node_ids_by_label g label)
    | None \<Rightarrow> map of_nat (slots_from (unat cursor) (gr_nodes g)))"

lemma set_dropWhile_less: "sorted xs \<Longrightarrow> set (dropWhile (\<lambda>i. i < c) xs) = {x \<in> set xs. c \<le> (x :: u64)}"
  by (induction xs) auto

lemma index_ids_labels: "node_ids_by_label g label = index_ids (gr_nodes_by_label g) label"
  by (simp add: node_ids_by_label_def index_ids_def split: option.split)

lemma label_ids:
  assumes "graph_ok g"
  shows "sorted (node_ids_by_label g label)" "distinct (node_ids_by_label g label)"
    "set (node_ids_by_label g label) = scanned g (Some label)"
  using assms index_ids_ok [of "gr_nodes_by_label g" label]
  by (auto simp: graph_ok_def labels_indexed_def bitmap_ok_def index_ids_labels scanned_def)

lemma scan_rest_ids:
  assumes "graph_ok g"
  shows "sorted (scan_rest g label cursor)" "distinct (scan_rest g label cursor)"
    "set (scan_rest g label cursor) = {i \<in> scanned g label. cursor \<le> i}"
  using label_ids [OF assms] slots_from_ids [OF assms, of "unat cursor"]
  by (auto simp: scan_rest_def set_dropWhile_less sorted_dropWhile scanned_def word_le_nat_alt split: option.split)

lemma fill_page_eq: "fill_page ids cursor limit out = (let page = take limit ids in
    (limit < length ids, if page = [] then cursor else saturating_succ (last page), out @ page))"
proof -
  have "fold (\<lambda>i (out, _). (out @ [i], saturating_succ i)) page (out, cursor) =
      (out @ page, if page = [] then cursor else saturating_succ (last page))" for page
    by (induction page arbitrary: out cursor) auto
  then show ?thesis by (simp add: fill_page_def Let_def not_le)
qed

lemma scan_node_ids_eq: "scan_node_ids g label cursor limit out = fill_page (scan_rest g label cursor) cursor (max limit 1) out"
  by (simp add: scan_node_ids_def scan_rest_def node_ids_by_label_def fill_page_def Let_def split: option.split)

lemma scanned_bound:
  assumes "graph_ok g" and "i \<in> scanned g label"
  shows "unat (saturating_succ i) = unat i + 1"
proof -
  have "unat i < length (gr_nodes g)" using assms(2) node_at_bound by (fastforce simp: scanned_def)
  then have "i \<le> MAX_ENTITY_ID"
    using assms(1) by (auto simp: graph_ok_def slots_ok_def MAX_ENTITY_ID_def word_le_nat_alt)
  then show ?thesis using max_entity_next [of i] by (simp add: saturating_succ_def)
qed

lemma scan_rest_next:
  assumes ok: "graph_ok g" and page: "take k (scan_rest g label cursor) \<noteq> []"
  shows "scan_rest g label (saturating_succ (last (take k (scan_rest g label cursor)))) = drop k (scan_rest g label cursor)"
proof (rule sorted_distinct_set_unique)
  let ?xs = "scan_rest g label cursor" and ?c = "saturating_succ (last (take k (scan_rest g label cursor)))"
  note r = scan_rest_ids [OF ok, of label]
  show "sorted (scan_rest g label ?c)" "distinct (scan_rest g label ?c)" by (rule r)+
  show "sorted (drop k ?xs)" "distinct (drop k ?xs)" using r by (simp_all add: sorted_wrt_drop)
  have split: "sorted (take k ?xs @ drop k ?xs)" "distinct (take k ?xs @ drop k ?xs)" using r by simp_all
  let ?l = "last (take k ?xs)"
  have l: "?l \<in> set (take k ?xs)" using page by simp
  then have "?l \<in> set ?xs" by (rule in_set_takeD)
  then have lb: "?l \<in> scanned g label" "cursor \<le> ?l" using r(3) by auto
  have le: "?c \<le> i \<longleftrightarrow> ?l < i" for i
    using scanned_bound [OF ok lb(1)] by (auto simp: word_le_nat_alt word_less_nat_alt)
  have below: "x \<le> ?l" if "x \<in> set (take k ?xs)" for x
  proof -
    have "sorted (butlast (take k ?xs) @ [?l])" using r(1) page by (simp add: sorted_wrt_take)
    moreover have "x \<in> set (butlast (take k ?xs)) \<or> x = ?l"
      using that page by (metis append_butlast_last_id in_set_conv_decomp set_ConsD set_append Un_iff list.set(1,2) empty_iff insert_iff)
    ultimately show ?thesis by (auto simp: sorted_append)
  qed
  show "set (scan_rest g label ?c) = set (drop k ?xs)"
  proof (intro set_eqI iffI)
    fix x assume "x \<in> set (scan_rest g label ?c)"
    then have x: "x \<in> scanned g label" "?l < x" using r(3) le by auto
    then have "x \<in> set ?xs" using r(3) lb(2) by auto
    then have "x \<in> set (take k ?xs) \<or> x \<in> set (drop k ?xs)" by (metis Un_iff append_take_drop_id set_append)
    then show "x \<in> set (drop k ?xs)" using below x(2) by force
  next
    fix x assume x: "x \<in> set (drop k ?xs)"
    then have "x \<in> scanned g label" using r(3) in_set_dropD by fastforce
    moreover have "?l \<le> x" using split(1) [unfolded sorted_append] l x by blast
    moreover have "?l \<noteq> x" using split(2) [unfolded distinct_append] l x by blast
    ultimately show "x \<in> set (scan_rest g label ?c)" using r(3) le by auto
  qed
qed

text \<open>All pages of a scan, at most \<open>fuel\<close> of them.\<close>

fun scan_pages :: "nat \<Rightarrow> graph \<Rightarrow> string option \<Rightarrow> u64 \<Rightarrow> nat \<Rightarrow> node_id list \<Rightarrow> node_id list option" where
  "scan_pages 0 g label cursor limit out = None"
| "scan_pages (Suc fuel) g label cursor limit out = (case scan_node_ids g label cursor limit out of
      (True, cursor, out) \<Rightarrow> scan_pages fuel g label cursor limit out | (False, _, out) \<Rightarrow> Some out)"

lemma scan_pages_rest:
  assumes "graph_ok g" and "length (scan_rest g label cursor) < fuel"
  shows "scan_pages fuel g label cursor limit out = Some (out @ scan_rest g label cursor)"
  using assms(2)
proof (induction fuel arbitrary: cursor out)
  case (Suc fuel)
  let ?xs = "scan_rest g label cursor" and ?k = "max limit 1"
  show ?case
  proof (cases "?k < length ?xs")
    case True
    then have page: "take ?k ?xs \<noteq> []" by auto
    let ?c = "saturating_succ (last (take ?k ?xs))"
    have rest: "scan_rest g label ?c = drop ?k ?xs" by (rule scan_rest_next [OF assms(1) page])
    have "length (drop ?k ?xs) < fuel" using Suc.prems True by auto
    then have "scan_pages fuel g label ?c limit (out @ take ?k ?xs) = Some (out @ ?xs)"
      using Suc.IH [of ?c "out @ take ?k ?xs"] rest by simp
    moreover have "scan_node_ids g label cursor limit out = (True, ?c, out @ take ?k ?xs)"
      using True page by (simp only: scan_node_ids_eq fill_page_eq Let_def if_False)
    ultimately show ?thesis by simp
  next
    case False
    then have "(?k < length ?xs) = False" "take ?k ?xs = ?xs" by (blast, intro take_all) (simp only: not_less)
    then have "scan_node_ids g label cursor limit out =
        (False, if ?xs = [] then cursor else saturating_succ (last ?xs), out @ ?xs)"
      by (simp only: scan_node_ids_eq fill_page_eq Let_def)
    then show ?thesis by simp
  qed
qed simp

section \<open>What a traversal answers\<close>

lemma entry_in_list:
  assumes "graph_ok g"
  shows "e \<in> set (adjacency_at g i s) \<longleftrightarrow>
    (\<exists>r. rel_at g (ae_rel e) = Some r \<and> near_end s r = i \<and> e = entry_of (gr_types g) s r)"
proof
  assume "e \<in> set (adjacency_at g i s)"
  then show "\<exists>r. rel_at g (ae_rel e) = Some r \<and> near_end s r = i \<and> e = entry_of (gr_types g) s r"
    unfolding graph_ok_adjacency(2) [OF assms] by (rule entries_member)
next
  assume "\<exists>r. rel_at g (ae_rel e) = Some r \<and> near_end s r = i \<and> e = entry_of (gr_types g) s r"
  then obtain r where r: "rel_at g (ae_rel e) = Some r" "near_end s r = i" "e = entry_of (gr_types g) s r" by blast
  have "rr_id r = ae_rel e" using rel_id [OF assms r(1)] .
  then show "e \<in> set (adjacency_at g i s)"
    unfolding graph_ok_adjacency(2) [OF assms] entries_def using r by auto
qed

lemma type_known: "graph_ok g \<Longrightarrow> rel_at g k = Some r \<Longrightarrow> id_of (gr_types g) (rr_type r) = Some (the (id_of (gr_types g) (rr_type r)))"
  using id_of_None [of "gr_types g" "rr_type r"] by (auto simp: graph_ok_def rels_ok_def)

lemma adjacent_entry_pairs:
  assumes ok: "graph_ok g" and few: "length (gr_types g) \<le> 2 ^ 32"
  shows "(k, j) \<in> set (adjacent_entries i (filter_resolve (gr_types g) types) skip (adjacency_at g i s)) \<longleftrightarrow>
    (\<exists>r. rel_at g k = Some r \<and> near_end s r = i \<and> far_end s r = j \<and> (types = [] \<or> rr_type r \<in> set types)
       \<and> \<not> (skip \<and> j = i))"
proof -
  have match: "filter_matches (filter_resolve (gr_types g) types) (ae_type (entry_of (gr_types g) s r)) \<longleftrightarrow>
      types = [] \<or> rr_type r \<in> set types" if "rel_at g k = Some r" for r k
    using filter_resolve_matches [OF few type_known [OF ok that], of types] by (simp add: entry_of_def)
  have "(k, j) \<in> set (adjacent_entries i (filter_resolve (gr_types g) types) skip (adjacency_at g i s)) \<longleftrightarrow>
      (\<exists>e. e \<in> set (adjacency_at g i s) \<and> ae_rel e = k \<and> ae_neighbour e = j \<and> \<not> (skip \<and> j = i)
         \<and> filter_matches (filter_resolve (gr_types g) types) (ae_type e))"
    by (auto simp: adjacent_entries_def)
  also have "\<dots> \<longleftrightarrow> (\<exists>r. rel_at g k = Some r \<and> near_end s r = i \<and> far_end s r = j \<and>
      (types = [] \<or> rr_type r \<in> set types) \<and> \<not> (skip \<and> j = i))" (is "?L \<longleftrightarrow> ?R")
  proof
    assume ?L
    then obtain e r where e: "ae_rel e = k" "ae_neighbour e = j" "\<not> (skip \<and> j = i)"
      "filter_matches (filter_resolve (gr_types g) types) (ae_type e)"
      and r: "rel_at g k = Some r" "near_end s r = i" "e = entry_of (gr_types g) s r"
      unfolding entry_in_list [OF ok] by blast
    have "far_end s r = j" using e(2) r(3) by (simp add: entry_of_def)
    then show ?R using e r match [OF r(1)] by blast
  next
    assume ?R
    then obtain r where r: "rel_at g k = Some r" "near_end s r = i" "far_end s r = j"
      "types = [] \<or> rr_type r \<in> set types" "\<not> (skip \<and> j = i)" by blast
    let ?e = "entry_of (gr_types g) s r"
    have e: "ae_rel ?e = k" "ae_neighbour ?e = j" using r(3) rel_id [OF ok r(1)] by (simp_all add: entry_of_def)
    then have "?e \<in> set (adjacency_at g i s)" unfolding entry_in_list [OF ok] using r(1,2) by blast
    then show ?L using e r(4,5) match [OF r(1)] by blast
  qed
  finally show ?thesis .
qed

lemma expand_pairs:
  assumes ok: "graph_ok g" and few: "length (gr_types g) \<le> 2 ^ 32" and node: "has_node_at g i"
  shows "(k, j) \<in> set (expand_ids g i dir types) \<longleftrightarrow>
    (\<exists>r. rel_at g k = Some r \<and> matches_direction_from r i dir \<and> other_node r i = Some j
       \<and> (types = [] \<or> rr_type r \<in> set types))"
proof -
  let ?f = "filter_resolve (gr_types g) types"
  have none: "?f = FilterNothing \<Longrightarrow> adjacent_entries i ?f skip es = []" for skip es
    by (simp add: adjacent_entries_def)
  have "(k, j) \<in> set (expand_ids g i dir types) \<longleftrightarrow>
      dir \<noteq> DirLeft \<and> (k, j) \<in> set (adjacent_entries i ?f False (adjacency_at g i Out)) \<or>
      dir \<noteq> DirRight \<and> (k, j) \<in> set (adjacent_entries i ?f (dir = Undirected) (adjacency_at g i In))"
    using none node by (auto simp: expand_ids_def adjacent_ids_unchecked_def Let_def)
  also have "\<dots> \<longleftrightarrow> (\<exists>r. rel_at g k = Some r \<and> matches_direction_from r i dir \<and> other_node r i = Some j
       \<and> (types = [] \<or> rr_type r \<in> set types))"
    unfolding adjacent_entry_pairs [OF ok few]
    by (cases dir) (auto simp: near_end_def far_end_def matches_direction_from_def other_node_def)
  finally show ?thesis .
qed

lemma distinct_adjacent: "distinct (map ae_rel es) \<Longrightarrow> distinct (map fst (adjacent_entries i flt skip es))"
  by (simp add: adjacent_entries_def comp_def distinct_map_filter)

lemma expand_distinct:
  assumes ok: "graph_ok g" and few: "length (gr_types g) \<le> 2 ^ 32"
  shows "distinct (map fst (expand_ids g i dir types))"
proof (cases "has_node_at g i")
  case True
  let ?f = "filter_resolve (gr_types g) types"
  note d = graph_ok_adjacency(1) [OF ok]
  have "\<not> (k \<in> set (map fst (adjacent_entries i ?f False (adjacency_at g i Out))) \<and>
      k \<in> set (map fst (adjacent_entries i ?f True (adjacency_at g i In))))" for k
  proof
    assume k: "k \<in> set (map fst (adjacent_entries i ?f False (adjacency_at g i Out))) \<and>
      k \<in> set (map fst (adjacent_entries i ?f True (adjacency_at g i In)))"
    then obtain j j' where "(k, j) \<in> set (adjacent_entries i ?f False (adjacency_at g i Out))"
      "(k, j') \<in> set (adjacent_entries i ?f True (adjacency_at g i In))" by auto
    then show False unfolding adjacent_entry_pairs [OF ok few] by (auto simp: near_end_def far_end_def)
  qed
  then show ?thesis using True distinct_adjacent [OF d]
    by (cases dir) (auto simp: expand_ids_def adjacent_ids_unchecked_def Let_def)
qed (simp add: expand_ids_def)

lemma degree_expand:
  assumes "graph_ok g"
  shows "degree g i dir = length (adjacent_ids_unchecked g i dir [])"
  by (cases dir) (simp_all add: degree_def adjacent_ids_unchecked_def filter_resolve_def adjacent_entries_def Let_def)

section \<open>Properties of the reads\<close>

lemma scan_rest_length:
  assumes "graph_ok g"
  shows "length (scan_rest g label cursor) \<le> length (gr_nodes g)"
proof -
  have "unat ` set (scan_rest g label cursor) \<subseteq> {..<length (gr_nodes g)}"
    using scan_rest_ids(3) [OF assms, of label cursor] node_at_bound by (fastforce simp: scanned_def)
  then have "card (unat ` set (scan_rest g label cursor)) \<le> length (gr_nodes g)"
    using card_mono [of "{..<length (gr_nodes g)}"] by fastforce
  moreover have "card (unat ` set (scan_rest g label cursor)) = card (set (scan_rest g label cursor))"
    by (rule card_image, rule inj_onI) (simp add: word_unat_eq_iff)
  ultimately show ?thesis using distinct_card [OF scan_rest_ids(2) [OF assms], of label cursor] by simp
qed

text \<open>
  C22. A node scan in pages ends and misses nothing: with any page size, at most one call per slot and one
  more return, in ascending order and each once, exactly the nodes there are, or those with the label
  asked for.
\<close>

theorem scan_pages_complete:
  assumes "graph_reachable scan recorder g"
  shows "\<exists>ids. scan_pages (length (gr_nodes g) + 1) g label 0 limit [] = Some ids \<and> sorted ids \<and> distinct ids
    \<and> set ids = {i. \<exists>n. node_at g i = Some n \<and> (\<forall>l. label = Some l \<longrightarrow> l \<in> set (nr_labels n))}"
proof -
  have ok: "graph_ok g" by (rule graph_ok_reachable [OF assms])
  have "scan_pages (length (gr_nodes g) + 1) g label 0 limit [] = Some (scan_rest g label 0)"
    using scan_pages_rest [OF ok, of label 0 "length (gr_nodes g) + 1" limit "[]"] scan_rest_length [OF ok, of label 0]
    by (simp del: scan_pages.simps)
  then show ?thesis using scan_rest_ids [OF ok, of label 0] by (simp add: scanned_def)
qed

theorem scan_pages_complete_witness:
  "\<exists>ids. scan_pages 3 (sample_graph None) (Some ''Person'') 0 0 [] = Some ids \<and> set ids = {0}"
proof -
  have carry: "{i. \<exists>n. node_at (sample_graph None) i = Some n \<and> (\<forall>l. Some ''Person'' = Some l \<longrightarrow> l \<in> set (nr_labels n))} = {0}"
    by (auto simp: sample_graph_eq node_at_def slot_get_def nth_Cons' unat_eq_0 split: if_splits)
  have slots: "length (gr_nodes (sample_graph None)) + 1 = 3" by (simp add: sample_graph_eq)
  show ?thesis
    using scan_pages_complete [OF sample_graph_reachable [of "\<lambda>_ _. None" None], of "Some ''Person''" 0]
    unfolding slots carry by blast
qed

text \<open>
  C19. A traversal answers from the records: it lists each relationship at most once, and lists the pair of a
  relationship and a node exactly when the relationship exists, leaves or enters the node as the
  direction asks, has one of the types asked for (any, if none is), and the node is its other end. The
  degree is the number of pairs.
\<close>

theorem expand_lists_matches:
  assumes "graph_reachable scan recorder g" and "length (gr_types g) \<le> 2 ^ 32" and "has_node_at g i"
  shows "distinct (map fst (expand_ids g i dir types))
    \<and> ((k, j) \<in> set (expand_ids g i dir types) \<longleftrightarrow>
       (\<exists>r. rel_at g k = Some r \<and> matches_direction_from r i dir \<and> other_node r i = Some j
          \<and> (types = [] \<or> rr_type r \<in> set types)))
    \<and> degree g i dir = length (expand_ids g i dir [])"
proof (intro conjI)
  have ok: "graph_ok g" by (rule graph_ok_reachable [OF assms(1)])
  show "distinct (map fst (expand_ids g i dir types))" by (rule expand_distinct [OF ok assms(2)])
  show "(k, j) \<in> set (expand_ids g i dir types) \<longleftrightarrow> (\<exists>r. rel_at g k = Some r \<and> matches_direction_from r i dir
      \<and> other_node r i = Some j \<and> (types = [] \<or> rr_type r \<in> set types))"
    by (rule expand_pairs [OF ok assms(2,3)])
  show "degree g i dir = length (expand_ids g i dir [])"
    using degree_expand [OF ok] assms(3) by (simp add: expand_ids_def)
qed

theorem expand_lists_matches_witness:
  "(0, 0) \<in> set (expand_ids (sample_graph None) 1 Undirected [''LIKES'', ''KNOWS''])
    \<and> (0, 0) \<notin> set (expand_ids (sample_graph None) 1 DirRight [])
    \<and> degree (sample_graph None) 1 DirLeft = length (expand_ids (sample_graph None) 1 DirLeft [])"
proof -
  let ?g = "sample_graph None"
  have g: "length (gr_types ?g) \<le> 2 ^ 32" "has_node_at ?g 1"
    "rel_at ?g 0 = Some \<lparr>rr_id = 0, rr_src = 0, rr_dst = 1, rr_type = ''KNOWS'', rr_properties = [(''since'', PvInt 2020)]\<rparr>"
    by (simp_all add: sample_graph_eq has_node_at_def node_at_def rel_at_def slot_get_def)
  note r = expand_lists_matches [OF sample_graph_reachable [of "\<lambda>_ _. None" None] g(1,2)]
  show ?thesis
    using r [where k=0 and j=0 and dir=Undirected and types="[''LIKES'', ''KNOWS'']"]
      r [where k=0 and j=0 and dir=DirRight and types="[]"] r [where k=0 and j=0 and dir=DirLeft and types="[]"] g(3)
    by (simp add: matches_direction_from_def other_node_def)
qed

lemma map_filter_all: "\<forall>x \<in> set xs. f x \<noteq> None \<Longrightarrow> List.map_filter f xs = map (the \<circ> f) xs"
  by (induction xs) (auto simp: List.map_filter_simps)

text \<open>
  Reading by label: the ids of a label are, ascending and each once, the nodes that carry it; their
  records are those of the slots, their count is the count answered without reading them, and a label
  is listed when some node carries it.
\<close>

theorem label_reads_agree:
  assumes "graph_reachable scan recorder g"
  shows "sorted (node_ids_by_label g l) \<and> distinct (node_ids_by_label g l)
    \<and> set (node_ids_by_label g l) = {i. \<exists>n. node_at g i = Some n \<and> l \<in> set (nr_labels n)}
    \<and> map Some (nodes_by_label g l) = map (node_at g) (node_ids_by_label g l)
    \<and> node_count_by_label g l = length (node_ids_by_label g l)
    \<and> (l \<in> set (all_labels g) \<longleftrightarrow> (\<exists>i n. node_at g i = Some n \<and> l \<in> set (nr_labels n)))"
proof -
  have ok: "graph_ok g" by (rule graph_ok_reachable [OF assms])
  note ids = label_ids [OF ok, of l]
  have set: "set (node_ids_by_label g l) = {i. \<exists>n. node_at g i = Some n \<and> l \<in> set (nr_labels n)}"
    using ids(3) by (auto simp: scanned_def)
  have "nodes_by_label g l = List.map_filter (node_at g) (node_ids_by_label g l)"
    by (simp add: nodes_by_label_def node_ids_by_label_def List.map_filter_simps split: option.split)
  also have "\<dots> = map (the \<circ> node_at g) (node_ids_by_label g l)" by (rule map_filter_all) (auto simp: set)
  finally have "map Some (nodes_by_label g l) = map (node_at g) (node_ids_by_label g l)" by (auto simp: set)
  moreover have "node_count_by_label g l = length (node_ids_by_label g l)"
    by (simp add: node_count_by_label_def node_ids_by_label_def split: option.split)
  moreover have "l \<in> set (all_labels g) \<longleftrightarrow> node_ids_by_label g l \<noteq> []"
    using ok map_of_eq_None_iff [of "gr_nodes_by_label g" l]
    by (auto simp: all_labels_def node_ids_by_label_def graph_ok_def labels_indexed_def index_ok_def
        split: option.splits)
  moreover have "node_ids_by_label g l \<noteq> [] \<longleftrightarrow> (\<exists>i n. node_at g i = Some n \<and> l \<in> set (nr_labels n))"
  proof -
    have "node_ids_by_label g l \<noteq> [] \<longleftrightarrow> set (node_ids_by_label g l) \<noteq> {}" by simp
    also have "\<dots> \<longleftrightarrow> (\<exists>i n. node_at g i = Some n \<and> l \<in> set (nr_labels n))" unfolding set by blast
    finally show ?thesis .
  qed
  ultimately show ?thesis using ids(1,2) set by blast
qed

theorem label_reads_agree_witness:
  "node_ids_by_label (sample_graph None) ''Person'' = [0]
    \<and> set (node_ids_by_label (sample_graph None) ''Person'') =
      {i. \<exists>n. node_at (sample_graph None) i = Some n \<and> ''Person'' \<in> set (nr_labels n)}"
  using label_reads_agree [OF sample_graph_reachable [of "\<lambda>_ _. None" None], of "''Person''"]
  by (simp add: node_ids_by_label_def sample_graph_eq)

end
