(* ===== verification/Replay_Sinks.thy ===== *)
theory Replay_Sinks
  imports Wal_Log
begin

text \<open>
  Two sinks in lockstep. Replay hands the same steps to whatever sink it is given, so a sink that answers
  every step as another one does, or stops where the other one's state can no longer be good, makes the
  same log open the same way. The first sink carries the log's facts; the second is the one in use.
\<close>

section \<open>Outcomes in lockstep\<close>

text \<open>Where the first side succeeds, the second does so with a related result or the result is dead.\<close>

definition follows :: "('a \<Rightarrow> 'b \<Rightarrow> bool) \<Rightarrow> ('a \<Rightarrow> bool) \<Rightarrow> 'e + 'a \<Rightarrow> 'e + 'b \<Rightarrow> bool" where
  "follows Q D x y \<longleftrightarrow> (\<forall>a. x = Inr a \<longrightarrow> (\<exists>b. y = Inr b \<and> Q a b) \<or> (\<exists>e. y = Inl e) \<and> D a)"

definition keeps_dead :: "('a \<Rightarrow> bool) \<Rightarrow> ('b \<Rightarrow> bool) \<Rightarrow> ('a \<Rightarrow> 'e + 'b) \<Rightarrow> bool" where
  "keeps_dead D D' f \<longleftrightarrow> (\<forall>a b. D a \<longrightarrow> f a = Inr b \<longrightarrow> D' b)"

named_theorems following

lemma follows_Inl [following]: "follows Q D (Inl e) y"
  by (simp add: follows_def)

lemma follows_Inr [following]: "Q a b \<Longrightarrow> follows Q D (Inr a) (Inr b)"
  by (simp add: follows_def)

lemma follows_ebind:
  assumes "follows Q D x y" and "\<And>a b. Q a b \<Longrightarrow> follows Q' D' (f a) (g b)" and "keeps_dead D D' f"
  shows "follows Q' D' (ebind x f) (ebind y g)"
proof (cases x)
  case (Inr a)
  with assms(1) consider b where "y = Inr b" "Q a b" | e where "y = Inl e" "D a"
    by (auto simp: follows_def)
  then show ?thesis
  proof cases
    case 1
    then show ?thesis using Inr assms(2) by simp
  next
    case 2
    then show ?thesis using Inr assms(3) by (auto simp: follows_def keeps_dead_def)
  qed
qed (simp add: follows_def)

lemma follows_map_sum:
  "follows Q D x y \<Longrightarrow> (\<And>a b. Q a b \<Longrightarrow> Q' (f a) (g b)) \<Longrightarrow> (\<And>a. D a \<Longrightarrow> D' (f a)) \<Longrightarrow>
   follows Q' D' (map_sum id f x) (map_sum id g y)"
  by (cases x) (auto simp: follows_def)

lemma keeps_dead_ebind: "keeps_dead D D' f \<Longrightarrow> keeps_dead D' D'' g \<Longrightarrow> keeps_dead D D'' (\<lambda>a. ebind (f a) g)"
  by (auto simp: keeps_dead_def ebind_def split: sum.splits)

section \<open>One turn of the loop\<close>

definition loop_ends :: "(u8 list \<Rightarrow> u32) \<Rightarrow> (string \<Rightarrow> string option) \<Rightarrow> segment_reader \<Rightarrow> bool" where
  "loop_ends crc lk sr \<longleftrightarrow>
     (\<forall>raw sr' rr. segment_read_frame crc sr = Inr (Some raw, sr') \<longrightarrow> raw_decode_for_replay lk raw \<noteq> Inr rr)"

lemma segment_loop_cases:
  obtains (go) raw sr' rr where "segment_read_frame crc sr = Inr (Some raw, sr')" "raw_decode_for_replay lk raw = Inr rr"
  | (stop) "loop_ends crc lk sr"
  by (auto simp: loop_ends_def)

lemma progress: "segment_read_frame crc sr = Inr (Some raw, sr') \<Longrightarrow>
    length (sr_file sr') - sr_position sr' < length (sr_file sr) - sr_position sr"
  using segment_read_frame_progress [of crc sr raw sr'] by simp

lemmas turn = replay_segment_loop.simps [of _ _ _ _ _ _ _ sr] for sr

lemma segment_loop_go:
  assumes "segment_read_frame crc sr = Inr (Some raw, sr')" and "raw_decode_for_replay lk raw = Inr rr"
  shows "replay_segment_loop crc lk sink path torn fence flag sr lg st =
    ebind (accept_record sink rr (raw_encoded_len raw) (sh_base_lsn (sr_header sr')) fence st)
      (replay_segment_loop crc lk sink path torn fence flag sr' (sr_position sr'))"
proof -
  let ?a = "accept_record sink rr (raw_encoded_len raw) (sh_base_lsn (sr_header sr')) fence st"
  have "replay_segment_loop crc lk sink path torn fence flag sr lg st = (case ?a of Inl e \<Rightarrow> Inl e
      | Inr st \<Rightarrow> replay_segment_loop crc lk sink path torn fence flag sr' (sr_position sr') st)"
    unfolding replay_segment_loop.simps [of crc lk sink path torn fence flag sr]
    by (simp only: assms Let_def sum.case option.case prod.case)
  then show ?thesis by (simp add: ebind_def)
qed

lemma segment_loop_stop:
  assumes "loop_ends crc lk sr"
    and "rp_last_lsn st' = rp_last_lsn st"
  shows "case replay_segment_loop crc lk sink path torn fence flag sr lg st of
      Inl e \<Rightarrow> replay_segment_loop crc lk sink' path torn fence flag sr lg st' = Inl e
    | Inr (ended, lg', st2) \<Rightarrow> st2 = st \<and> replay_segment_loop crc lk sink' path torn fence flag sr lg st' = Inr (ended, lg', st')"
proof (cases "segment_read_frame crc sr")
  case (Inl e)
  then show ?thesis using assms(2)
    by (cases e; cases flag; cases torn; cases "find_valid_frame_after crc (sr_position sr) (rp_last_lsn st) sr")
      (simp_all add: turn Let_def cut_or_fail_def)
next
  case (Inr p)
  obtain ro sr' where p: "p = (ro, sr')" by (cases p)
  show ?thesis
  proof (cases ro)
    case None
    then show ?thesis using Inr p by (simp add: turn Let_def)
  next
    case (Some raw)
    then obtain e where "raw_decode_for_replay lk raw = Inl e"
      using assms(1) Inr p unfolding loop_ends_def by (cases "raw_decode_for_replay lk raw") auto
    then show ?thesis using Some Inr p
      by (simp add: turn Let_def cut_or_fail_def)
  qed
qed

section \<open>Lockstep\<close>

text \<open>All of a replay state but its sink.\<close>

definition beside_sink :: "'s replay_state \<Rightarrow> (lsn \<Rightarrow> pending_tx option) \<times> lsn option \<times> lsn list \<times> lsn \<times> lsn \<times>
    lsn option \<times> lsn option" where
  "beside_sink st = (rp_pending st, rp_streaming st, rp_withdrawn st, rp_max_lsn st, rp_last_lsn st,
     rp_last_segment_base st, rp_checkpoint_lsn_observed st)"

lemma beside_sink_eq: "beside_sink st = beside_sink st' \<longleftrightarrow> rp_pending st' = rp_pending st \<and>
    rp_streaming st' = rp_streaming st \<and> rp_withdrawn st' = rp_withdrawn st \<and> rp_max_lsn st' = rp_max_lsn st \<and>
    rp_last_lsn st' = rp_last_lsn st \<and> rp_last_segment_base st' = rp_last_segment_base st \<and>
    rp_checkpoint_lsn_observed st' = rp_checkpoint_lsn_observed st"
  by (auto simp: beside_sink_def)

locale lockstep =
  fixes first :: "'s replay_sink" and second :: "'t replay_sink"
    and same :: "'s \<Rightarrow> 't \<Rightarrow> bool" and dead :: "'s \<Rightarrow> bool"
  assumes both: "same s t \<Longrightarrow> follows same dead (first step s) (second step t)"
    and dead_stays: "keeps_dead dead dead (first step)"
begin

definition same_state :: "'s replay_state \<Rightarrow> 't replay_state \<Rightarrow> bool" where
  "same_state st st' \<longleftrightarrow> same (rp_sink st) (rp_sink st') \<and> beside_sink st = beside_sink st'"

definition dead_state :: "'s replay_state \<Rightarrow> bool" where
  "dead_state st \<longleftrightarrow> dead (rp_sink st)"

lemma same_state_fields:
  assumes "same_state st st'"
  shows "same (rp_sink st) (rp_sink st')" "rp_pending st' = rp_pending st" "rp_streaming st' = rp_streaming st"
    "rp_withdrawn st' = rp_withdrawn st" "rp_max_lsn st' = rp_max_lsn st" "rp_last_lsn st' = rp_last_lsn st"
    "rp_last_segment_base st' = rp_last_segment_base st"
    "rp_checkpoint_lsn_observed st' = rp_checkpoint_lsn_observed st"
  using assms by (simp_all add: same_state_def beside_sink_eq)

lemma dead_update [simp]:
  "dead_state (st\<lparr>rp_pending := p\<rparr>) = dead_state st" "dead_state (st\<lparr>rp_streaming := s\<rparr>) = dead_state st"
  "dead_state (st\<lparr>rp_withdrawn := w\<rparr>) = dead_state st" "dead_state (st\<lparr>rp_max_lsn := l\<rparr>) = dead_state st"
  "dead_state (st\<lparr>rp_last_lsn := l\<rparr>) = dead_state st" "dead_state (st\<lparr>rp_last_segment_base := b\<rparr>) = dead_state st"
  "dead_state (st\<lparr>rp_checkpoint_lsn_observed := b\<rparr>) = dead_state st"
  by (simp_all add: dead_state_def)

lemma same_update:
  assumes "same_state st st'"
  shows "same_state (st\<lparr>rp_pending := p\<rparr>) (st'\<lparr>rp_pending := p\<rparr>)"
    "same_state (st\<lparr>rp_streaming := s\<rparr>) (st'\<lparr>rp_streaming := s\<rparr>)"
    "same_state (st\<lparr>rp_withdrawn := w\<rparr>) (st'\<lparr>rp_withdrawn := w\<rparr>)"
    "same_state (st\<lparr>rp_max_lsn := l\<rparr>) (st'\<lparr>rp_max_lsn := l\<rparr>)"
    "same_state (st\<lparr>rp_last_lsn := l\<rparr>) (st'\<lparr>rp_last_lsn := l\<rparr>)"
    "same_state (st\<lparr>rp_last_segment_base := b\<rparr>) (st'\<lparr>rp_last_segment_base := b\<rparr>)"
    "same_state (st\<lparr>rp_checkpoint_lsn_observed := b\<rparr>) (st'\<lparr>rp_checkpoint_lsn_observed := b\<rparr>)"
  using assms by (simp_all add: same_state_def beside_sink_eq)

abbreviation in_step :: "wal_error + 's replay_state \<Rightarrow> wal_error + 't replay_state \<Rightarrow> bool" where
  "in_step \<equiv> follows same_state dead_state"

abbreviation stays_dead :: "('s replay_state \<Rightarrow> wal_error + 's replay_state) \<Rightarrow> bool" where
  "stays_dead \<equiv> keeps_dead dead_state dead_state"

lemma emit_both: "same_state st st' \<Longrightarrow> in_step (emit_step first step st) (emit_step second step st')"
  unfolding emit_step_def
  by (rule follows_map_sum [OF both [OF same_state_fields(1)]])
    (auto simp: same_state_def beside_sink_eq dead_state_def)

lemma emit_dead: "stays_dead (emit_step first step)"
  unfolding keeps_dead_def
proof (intro allI impI)
  fix st st2
  assume d: "dead_state st" and run: "emit_step first step st = Inr st2"
  then obtain s where "first step (rp_sink st) = Inr s" "st2 = st\<lparr>rp_sink := s\<rparr>"
    by (cases "first step (rp_sink st)") (auto simp: emit_step_def)
  then show "dead_state st2" using d dead_stays [of step] by (auto simp: keeps_dead_def dead_state_def)
qed

text \<open>The machine.\<close>

lemma withdraw_both: "same_state st st' \<Longrightarrow> in_step (withdraw_other_than first t st) (withdraw_other_than second t st')"
  using same_state_fields [of st st']
  by (auto simp: withdraw_other_than_def intro!: following emit_both same_update split: option.split)

lemma withdraw_dead: "stays_dead (withdraw_other_than first t)"
  using emit_dead unfolding keeps_dead_def withdraw_other_than_def
  by (auto split: option.splits if_splits) (metis dead_update(2,3))+

lemma add_both: "same_state st st' \<Longrightarrow> in_step (add_events first t n add st) (add_events second t n add st')"
  unfolding add_events_def
proof (rule follows_ebind [OF withdraw_both], assumption, goal_cases)
  case (1 st st')
  then show ?case using same_state_fields [OF 1(2)]
    by (auto simp: Let_def intro!: following emit_both same_update split: option.split)
next
  case 2
  then show ?case using emit_dead unfolding keeps_dead_def
    by (auto simp: Let_def split: option.splits if_splits) (metis dead_update(1,2))
qed

lemma add_dead: "stays_dead (add_events first t n add)"
  unfolding add_events_def
proof (rule keeps_dead_ebind [OF withdraw_dead], goal_cases)
  case 1
  then show ?case using emit_dead unfolding keeps_dead_def
    by (auto simp: Let_def split: option.splits if_splits) (metis dead_update(1,2))
qed

lemma begin_both: "same_state st st' \<Longrightarrow> in_step (begin_transaction l st) (begin_transaction l st')"
  using same_state_fields [of st st'] by (auto simp: begin_transaction_def intro!: following same_update)

lemma begin_dead: "stays_dead (begin_transaction l)"
  by (auto simp: keeps_dead_def begin_transaction_def)

lemma take_both: "same_state st st' \<Longrightarrow>
    follows (\<lambda>(p, st) (p', st'). p' = p \<and> same_state st st') (\<lambda>(p, st). dead_state st) (take_pending t st) (take_pending t st')"
  using same_state_fields [of st st'] by (auto simp: take_pending_def intro!: following same_update split: option.split)

lemma take_dead: "keeps_dead dead_state (\<lambda>(p, st). dead_state st) (take_pending t)"
  by (auto simp: keeps_dead_def take_pending_def split: option.splits)

lemma observe_both: "same_state st st' \<Longrightarrow> in_step (observe_checkpoint l snap st) (observe_checkpoint l snap st')"
  using same_state_fields [of st st'] by (auto simp: observe_checkpoint_def intro!: following same_update)

lemma observe_dead: "stays_dead (observe_checkpoint l snap)"
  by (auto simp: keeps_dead_def observe_checkpoint_def)

text \<open>What a commit and an abort do with the transaction they take.\<close>

lemma commit_end:
  "same_state st st' \<Longrightarrow> in_step
     (if t \<in> set (rp_withdrawn st) then Inl e else emit_step first (StepCommit tx) (st\<lparr>rp_streaming := None\<rparr>))
     (if t \<in> set (rp_withdrawn st') then Inl e else emit_step second (StepCommit tx) (st'\<lparr>rp_streaming := None\<rparr>))"
  using same_state_fields [of st st'] by (auto intro!: following emit_both same_update)

lemma abort_end:
  "same_state st st' \<Longrightarrow> in_step
     (if rp_streaming st = Some t then emit_step first StepDiscard (st\<lparr>rp_streaming := None\<rparr>) else Inr st)
     (if rp_streaming st' = Some t then emit_step second StepDiscard (st'\<lparr>rp_streaming := None\<rparr>) else Inr st')"
  using same_state_fields [of st st'] by (auto intro!: following emit_both same_update)

lemma emit_after_dead:
  "dead_state st \<Longrightarrow> emit_step first step (st\<lparr>rp_streaming := s\<rparr>) = Inr st2 \<Longrightarrow> dead_state st2"
  using emit_dead unfolding keeps_dead_def by (metis dead_update(2))

lemma commit_dead: "keeps_dead (\<lambda>(p, st). dead_state st) dead_state (\<lambda>(p, st).
    if t \<in> set (rp_withdrawn st) then Inl e else emit_step first (StepCommit (ptx_events p)) (st\<lparr>rp_streaming := None\<rparr>))"
  using emit_after_dead by (auto simp: keeps_dead_def split: if_splits)

lemma abort_dead: "keeps_dead (\<lambda>(p, st). dead_state st) dead_state (\<lambda>(p, st).
    if rp_streaming st = Some t then emit_step first StepDiscard (st\<lparr>rp_streaming := None\<rparr>) else Inr st)"
  using emit_after_dead by (auto simp: keeps_dead_def split: if_splits)

lemma record_both: "same_state st st' \<Longrightarrow> in_step (apply_record first r n st) (apply_record second r n st')"
proof (cases r)
  case (TxCommit l t)
  assume st: "same_state st st'"
  show ?thesis unfolding TxCommit apply_record.simps
  proof (rule follows_ebind [OF withdraw_both [OF st]], goal_cases)
    case (1 st st')
    show ?case by (rule follows_ebind [OF take_both [OF 1] _ commit_dead]) (auto intro: commit_end)
  next
    case 2
    show ?case by (rule keeps_dead_ebind [OF take_dead commit_dead])
  qed
next
  case (TxAbort l t)
  assume st: "same_state st st'"
  show ?thesis unfolding TxAbort apply_record.simps
    by (rule follows_ebind [OF take_both [OF st] _ abort_dead]) (auto intro: abort_end)
next
  case (TxBegin l)
  assume st: "same_state st st'"
  show ?thesis unfolding TxBegin apply_record.simps
    by (rule follows_ebind [OF withdraw_both [OF st] begin_both begin_dead])
qed (auto intro: add_both observe_both)

lemma record_dead: "stays_dead (apply_record first r n)"
proof (cases r)
  case (TxCommit l t)
  show ?thesis unfolding TxCommit apply_record.simps
    by (intro keeps_dead_ebind [OF withdraw_dead] keeps_dead_ebind [OF take_dead] commit_dead)
next
  case (TxAbort l t)
  show ?thesis unfolding TxAbort apply_record.simps by (rule keeps_dead_ebind [OF take_dead abort_dead])
next
  case (TxBegin l)
  show ?thesis unfolding TxBegin apply_record.simps by (rule keeps_dead_ebind [OF withdraw_dead begin_dead])
next
  case (Mutation l t e)
  show ?thesis unfolding Mutation apply_record.simps by (rule add_dead)
next
  case (MutationBatch l t es)
  show ?thesis unfolding MutationBatch apply_record.simps by (rule add_dead)
next
  case (Checkpoint l snap)
  show ?thesis unfolding Checkpoint apply_record.simps by (rule observe_dead)
qed

text \<open>A record, and the walk.\<close>

lemma observe_lsn_same: "same_state st st' \<Longrightarrow> same_state (observe_lsn l st) (observe_lsn l st')"
  using same_state_fields [of st st'] by (auto simp: observe_lsn_def Let_def intro: same_update)

lemma observe_lsn_dead: "dead_state (observe_lsn l st) = dead_state st"
  by (simp add: observe_lsn_def Let_def)

lemma skip_same: "same_state st st' \<Longrightarrow> same_state (skip_fenced_record r st) (skip_fenced_record r st')"
  using same_state_fields [of st st'] by (cases r) (auto intro: same_update)

lemma skip_dead: "dead_state (skip_fenced_record r st) = dead_state st"
  by (cases r) simp_all

lemma validate_lsn_same: "same_state st st' \<Longrightarrow> validate_record_lsn l base st' = validate_record_lsn l base st"
  using same_state_fields [of st st'] by (simp add: validate_record_lsn_def)

lemma accept_both: "same_state st st' \<Longrightarrow>
    in_step (accept_record first rr n base fence st) (accept_record second rr n base fence st')"
  using validate_lsn_same [of st st' "replay_record_lsn rr" base]
  by (cases "validate_record_lsn (replay_record_lsn rr) base st"; cases rr)
    (auto simp: accept_record_def Let_def intro!: following add_both record_both skip_same observe_lsn_same)

lemma accept_dead: "stays_dead (accept_record first rr n base fence)"
  unfolding keeps_dead_def
proof (intro allI impI)
  fix st st2 :: "'s replay_state"
  let ?st = "observe_lsn (replay_record_lsn rr) st"
  assume d: "dead_state st" and run: "accept_record first rr n base fence st = Inr st2"
  have d': "dead_state ?st" using d by (simp add: observe_lsn_dead)
  from run have "(case rr of
       ReplayBatch _ t b \<Rightarrow> if replay_record_lsn rr \<le> fence then Inr ?st else add_events first t n (tx_push_batch b) ?st
     | ReplayDecoded r \<Rightarrow> if replay_record_lsn rr \<le> fence then Inr (skip_fenced_record r ?st)
         else apply_record first r n ?st) = Inr st2"
    by (cases "validate_record_lsn (replay_record_lsn rr) base st") (simp_all add: accept_record_def Let_def)
  then consider "st2 = ?st" | t b where "add_events first t n (tx_push_batch b) ?st = Inr st2"
    | r where "st2 = skip_fenced_record r ?st" | r where "apply_record first r n ?st = Inr st2"
    by (cases rr) (auto split: if_splits)
  then show "dead_state st2"
    using d' add_dead record_dead skip_dead unfolding keeps_dead_def by cases blast+
qed

abbreviation same_end :: "'a \<times> nat \<times> 's replay_state \<Rightarrow> 'a \<times> nat \<times> 't replay_state \<Rightarrow> bool" where
  "same_end \<equiv> (\<lambda>(e, lg, st) (e', lg', st'). e' = e \<and> lg' = lg \<and> same_state st st')"

abbreviation dead_end :: "'a \<times> nat \<times> 's replay_state \<Rightarrow> bool" where
  "dead_end \<equiv> (\<lambda>(_, _, st). dead_state st)"

lemma segment_dead:
  "dead_state st \<Longrightarrow> replay_segment_loop crc lk first path torn fence flag sr lg st = Inr r \<Longrightarrow> dead_end r"
proof (induction "length (sr_file sr) - sr_position sr" arbitrary: sr lg st rule: less_induct)
  case less
  show ?case
  proof (cases rule: segment_loop_cases [of crc sr lk])
    case (go raw sr' rr)
    let ?accept = "accept_record first rr (raw_encoded_len raw) (sh_base_lsn (sr_header sr')) fence st"
    obtain st1 where st1: "?accept = Inr st1"
      "replay_segment_loop crc lk first path torn fence flag sr' (sr_position sr') st1 = Inr r"
      using less.prems(2) segment_loop_go [OF go, of first] by (cases ?accept) auto
    have "dead_state st1" using accept_dead less.prems(1) st1(1) unfolding keeps_dead_def by blast
    then show ?thesis using less.hyps [OF progress [OF go(1)]] st1(2) by blast
  next
    case stop
    then show ?thesis
      using segment_loop_stop [OF stop refl, where sink = first and sink' = first and path = path and torn = torn and fence = fence and
          flag = flag and lg = lg and st = st] less.prems
      by (auto split: prod.splits)
  qed
qed

lemma segment_both:
  "same_state st st' \<Longrightarrow> follows same_end dead_end (replay_segment_loop crc lk first path torn fence flag sr lg st)
     (replay_segment_loop crc lk second path torn fence flag sr lg st')"
proof (induction "length (sr_file sr) - sr_position sr" arbitrary: sr lg st st' rule: less_induct)
  case less
  show ?case
  proof (cases rule: segment_loop_cases [of crc sr lk])
    case (go raw sr' rr)
    show ?thesis unfolding segment_loop_go [OF go]
    proof (rule follows_ebind [OF accept_both [OF less.prems]], goal_cases)
      case (1 st st')
      show ?case by (rule less.hyps [OF progress [OF go(1)] 1])
    next
      case 2
      show ?case using segment_dead by (auto simp: keeps_dead_def)
    qed
  next
    case stop
    have "rp_last_lsn st' = rp_last_lsn st" using same_state_fields(6) [OF less.prems] .
    from segment_loop_stop [OF stop this, where sink = first and sink' = second and path = path and torn = torn and
        fence = fence and flag = flag and lg = lg] show ?thesis
      using less.prems by (auto simp: follows_def split: sum.splits)
  qed
qed

lemma check_start_same: "same_state st st' \<Longrightarrow> in_step (validate_segment base st) (validate_segment base st')"
  using same_state_fields [of st st'] by (auto simp: validate_segment_def intro!: following same_update)

lemma check_start_dead: "stays_dead (validate_segment base)"
  by (auto simp: keeps_dead_def validate_segment_def)

abbreviation same_walk :: "'a \<times> 'b \<times> nat \<times> 's replay_state \<Rightarrow> 'a \<times> 'b \<times> nat \<times> 't replay_state \<Rightarrow> bool" where
  "same_walk \<equiv> (\<lambda>(a, b, lg, st) (a', b', lg', st'). a' = a \<and> b' = b \<and> lg' = lg \<and> same_state st st')"

abbreviation dead_walk :: "'a \<times> 'b \<times> nat \<times> 's replay_state \<Rightarrow> bool" where
  "dead_walk \<equiv> (\<lambda>(_, _, _, st). dead_state st)"

lemma follows_pure: "(\<And>a. x = Inr a \<Longrightarrow> follows Q D (f a) (g a)) \<Longrightarrow> follows Q D (ebind x f) (ebind x g)"
  by (cases x) (simp_all add: follows_def)

lemma keeps_dead_pure: "(\<And>a. x = Inr a \<Longrightarrow> keeps_dead D D' (\<lambda>s. f a s)) \<Longrightarrow> keeps_dead D D' (\<lambda>s. ebind x (\<lambda>a. f a s))"
  by (cases x) (simp_all add: keeps_dead_def)

lemma loop_dead: "keeps_dead dead_state dead_walk (replay_loop crc lk first fence flag i files lg)"
proof (induction files arbitrary: i lg)
  case Nil
  show ?case by (auto simp: keeps_dead_def)
next
  case (Cons f fs)
  have "keeps_dead dead_end dead_walk (\<lambda>(ended, lg, st). case ended of
           SegmentDone \<Rightarrow> replay_loop crc lk first fence flag (i + 1) fs lg st
         | SegmentTorn t \<Rightarrow> Inr (Some t, None, lg, st)
         | SegmentCut c \<Rightarrow> Inr (None, Some c, lg, st))"
    using Cons.IH [of "i + 1"] by (auto simp: keeps_dead_def split: segment_end.splits)
  moreover have "keeps_dead dead_state dead_end (replay_segment_loop crc lk first path torn fence flag sr lg)"
    for path torn sr lg using segment_dead by (auto simp: keeps_dead_def)
  ultimately show ?case
    unfolding replay_loop.simps Let_def
    by (intro keeps_dead_pure keeps_dead_ebind [OF check_start_dead] keeps_dead_ebind [where D' = dead_end])
qed

lemma loop_both: "same_state st st' \<Longrightarrow> follows same_walk dead_walk (replay_loop crc lk first fence flag i files lg st)
     (replay_loop crc lk second fence flag i files lg st')"
proof (induction files arbitrary: i lg st st')
  case Nil
  then show ?case by (simp add: following)
next
  case (Cons f fs)
  show ?case unfolding replay_loop.simps Let_def
  proof (intro follows_pure, rule follows_ebind [OF check_start_same [OF Cons.prems]], goal_cases)
    case (1 sr u st st')
    show ?case
    proof (rule follows_ebind [OF segment_both [OF 1(3)]], goal_cases)
      case (1 r r')
      then show ?case using Cons.IH [of _ _ "i + 1"]
        by (auto intro!: following split: segment_end.split)
    next
      case 2
      show ?case using loop_dead [of crc lk fence flag "i + 1" fs] by (auto simp: keeps_dead_def split: segment_end.splits)
    qed
  next
    case (2 sr u)
    show ?case
      by (rule keeps_dead_ebind [where D' = dead_end])
        (use segment_dead loop_dead [of crc lk fence flag "i + 1" fs] in
          \<open>auto simp: keeps_dead_def split: segment_end.splits\<close>)
  qed
qed

lemma finish_both: "same_state st st' \<Longrightarrow> follows same dead (finish_sink first st) (finish_sink second st')"
  using same_state_fields [of st st'] both by (auto simp: finish_sink_def intro: following)

lemma finish_dead: "keeps_dead dead_state dead (finish_sink first)"
  using dead_stays by (auto simp: keeps_dead_def finish_sink_def dead_state_def)

abbreviation same_out :: "'a \<times> 's \<Rightarrow> 'a \<times> 't \<Rightarrow> bool" where
  "same_out \<equiv> (\<lambda>(a, s) (a', t). a' = a \<and> same s t)"

abbreviation dead_out :: "'a \<times> 's \<Rightarrow> bool" where
  "dead_out \<equiv> (\<lambda>(_, s). dead s)"

lemma replay_both:
  assumes "same s t"
  shows "follows same_out dead_out (replay_segments crc lk first paths fence flag s)
    (replay_segments crc lk second paths fence flag t)"
  unfolding replay_segments_def
proof (intro follows_pure, rule follows_ebind [OF loop_both], goal_cases)
  case 1
  show ?case using assms by (simp add: same_state_def replay_state_new_def beside_sink_def)
next
  case (2 u r r')
  obtain tt cc lg st st' where r: "r = (tt, cc, lg, st)" "r' = (tt, cc, lg, st')" "same_state st st'"
    using 2(2) by (cases r, cases r') auto
  then show ?case using same_state_fields [OF r(3)]
    by (auto intro: follows_map_sum [OF finish_both [OF r(3)]])
next
  case (3 u)
  show ?case using finish_dead unfolding keeps_dead_def
    by auto
qed

lemma open_existing_both:
  assumes "same s t"
  shows "follows same_out dead_out (open_existing crc lk first entries fence flag s)
    (open_existing crc lk second entries fence flag t)"
  unfolding open_existing_def
proof (rule follows_ebind [OF replay_both [OF assms]], goal_cases)
  case (1 r r')
  then obtain o' s t where r: "r = (o', s)" "r' = (o', t)" "same s t" by (cases r, cases r') auto
  show ?case unfolding r prod.case Let_def
    by (intro follows_pure) (auto intro!: follows_pure following r(3) split: prod.split)
next
  case 2
  show ?case
    unfolding keeps_dead_def by (auto simp: ebind_def Let_def split: sum.splits prod.splits if_splits)
qed

text \<open>The same log opens to the same handle.\<close>

lemma open_both:
  assumes "same s t"
  shows "follows (\<lambda>(st, cut, s) (st', cut', t). st' = st \<and> cut' = cut \<and> same s t) (\<lambda>(_, _, s). dead s)
    (open_replaying_with crc lk first files fence flag s) (open_replaying_with crc lk second files fence flag t)"
  unfolding open_replaying_with_def Let_def
proof (rule follows_ebind [where Q = same_out and D = dead_out], goal_cases)
  case 1
  show ?case using open_existing_both [OF assms] assms
    by (auto simp: follows_def)
next
  case (2 a b)
  then show ?case by (auto intro: following)
next
  case 3
  show ?case by (auto simp: keeps_dead_def)
qed

end

end
