(* ===== verification/Graph_Replay.thy ===== *)
theory Graph_Replay
  imports Graph_Machine
begin

text \<open>
  Applying recorded events to a graph (\<open>crates/lora-database/src/database/replay.rs\<close>): the events that a
  graph recorded, applied to an empty graph, rebuild its records, ids, adjacency lists, indexes and
  counts, and its catalogs.
\<close>

section \<open>Applying events\<close>

datatype replay_failure =
    CreateFailed graph_error
  | NodeMissing node_id
  | RelationshipMissing relationship_id
  | NodeMissingOrAttached node_id
  | SchemaRefused

definition applied :: "replay_failure \<Rightarrow> bool \<times> graph \<Rightarrow> replay_failure option \<times> graph" where
  "applied failure = (\<lambda>(ok, g). (if ok then None else Some failure, g))"

definition apply_creation :: "graph \<Rightarrow> graph_error + graph \<Rightarrow> replay_failure option \<times> graph" where
  "apply_creation g r = (case r of Inl e \<Rightarrow> (Some (CreateFailed e), g) | Inr g \<Rightarrow> (None, g))"

definition apply_schema :: "data_scan \<Rightarrow> mutation_event \<Rightarrow> graph \<Rightarrow> replay_failure option \<times> graph" where
  "apply_schema scan e g = (case replay_schema_event (scan g) e (gr_schema g) of
      None \<Rightarrow> (Some SchemaRefused, g) | Some s \<Rightarrow> (None, g\<lparr>gr_schema := s\<rparr>))"

fun apply_event :: "data_scan \<Rightarrow> mutation_event \<Rightarrow> graph \<Rightarrow> replay_failure option \<times> graph" where
  "apply_event scan (CreateNode i labels ps) g = apply_creation g (replay_create_node i labels ps g)"
| "apply_event scan (CreateRelationship i src dst ty ps) g =
     apply_creation g (replay_create_relationship i src dst ty ps g)"
| "apply_event scan (SetNodeProperty i key v) g = applied (NodeMissing i) (set_node_property i key v g)"
| "apply_event scan (RemoveNodeProperty i key) g = applied (NodeMissing i) (remove_node_property i key g)"
| "apply_event scan (AddNodeLabel i label) g = applied (NodeMissing i) (add_node_label i label g)"
| "apply_event scan (RemoveNodeLabel i label) g = applied (NodeMissing i) (remove_node_label i label g)"
| "apply_event scan (SetRelationshipProperty k key v) g =
     applied (RelationshipMissing k) (set_relationship_property k key v g)"
| "apply_event scan (RemoveRelationshipProperty k key) g =
     applied (RelationshipMissing k) (remove_relationship_property k key g)"
| "apply_event scan (DeleteRelationship k) g = applied (RelationshipMissing k) (delete_relationship k g)"
| "apply_event scan (DeleteNode i) g = applied (NodeMissingOrAttached i) (delete_node i g)"
| "apply_event scan (DetachDeleteNode i) g = (None, snd (detach_delete_node i g))"
| "apply_event scan ClearGraph g = (None, clear_graph g)"
| "apply_event scan e g = apply_schema scan e g"

text \<open>\<open>replay_from\<close>: the first failure stops, with the number of its event.\<close>

fun replay_from :: "data_scan \<Rightarrow> nat \<Rightarrow> mutation_event list \<Rightarrow> graph \<Rightarrow> (nat \<times> replay_failure) option \<times> graph" where
  "replay_from scan idx [] g = (None, g)"
| "replay_from scan idx (e # es) g = (case apply_event scan e g of
      (Some failure, g) \<Rightarrow> (Some (idx, failure), g) | (None, g) \<Rightarrow> replay_from scan (idx + 1) es g)"

definition replay_into :: "data_scan \<Rightarrow> mutation_event list \<Rightarrow> graph \<Rightarrow> (nat \<times> replay_failure) option \<times> graph" where
  "replay_into scan es g = replay_from scan 0 es g"

section \<open>A run of events\<close>

text \<open>All events apply, one after the other.\<close>

inductive applies :: "data_scan \<Rightarrow> mutation_event list \<Rightarrow> graph \<Rightarrow> graph \<Rightarrow> bool" for scan where
  applies_Nil: "applies scan [] g g"
| applies_snoc: "applies scan es g h \<Longrightarrow> apply_event scan e h = (None, k) \<Longrightarrow> applies scan (es @ [e]) g k"

lemma replay_from_append: "replay_from scan idx (es @ es') g = (case replay_from scan idx es g of
    (Some failure, g) \<Rightarrow> (Some failure, g) | (None, g) \<Rightarrow> replay_from scan (idx + length es) es' g)"
  by (induction es arbitrary: idx g) (auto split: prod.split option.split)

lemma replay_from_applies: "applies scan es g h \<Longrightarrow> replay_from scan idx es g = (None, h)"
  by (induction rule: applies.induct) (simp_all add: replay_from_append)

lemma applies_trans: "applies scan es' h k \<Longrightarrow> applies scan es g h \<Longrightarrow> applies scan (es @ es') g k"
  by (induction rule: applies.induct) (auto intro: applies_snoc simp flip: append_assoc)

lemma applies_one: "apply_event scan e g = (None, h) \<Longrightarrow> applies scan [e] g h"
  using applies_snoc [OF applies_Nil, of scan e g h] by simp

section \<open>A recovering graph\<close>

text \<open>A graph \<open>r\<close> with no recorder that has caught up with \<open>g\<close>: the same data, the same schema.\<close>

definition replica :: "graph \<Rightarrow> graph \<Rightarrow> bool" where
  "replica g r \<longleftrightarrow> r = g\<lparr>gr_schema := gr_schema r\<rparr> \<and> caught_up (gr_schema g) (gr_schema r)"

text \<open>What an operation records is what the recovering graph has to apply.\<close>

definition recovers :: "data_scan \<Rightarrow> graph \<Rightarrow> graph \<Rightarrow> bool" where
  "recovers scan g g' \<longleftrightarrow> (\<forall>r old. replica g r \<longrightarrow> ss_recorder (gr_schema g) = Some old \<longrightarrow>
     (\<exists>new r'. ss_recorder (gr_schema g') = Some (old @ new) \<and> applies scan new r r' \<and> replica g' r'))"

lemma recovers_refl: "recovers scan g g"
  unfolding recovers_def by (metis applies_Nil append_Nil2)

lemma recovers_trans: "recovers scan g h \<Longrightarrow> recovers scan h k \<Longrightarrow> recovers scan g k"
  unfolding recovers_def by (metis applies_trans append_assoc)

lemma caught_up_emit: "caught_up s t \<Longrightarrow> caught_up (emit e s) t"
proof -
  have "schema_ok (emit e s) = schema_ok s" by (simp add: schema_ok_def emit_def)
  then show "caught_up s t \<Longrightarrow> caught_up (emit e s) t" by (simp add: caught_up_def emit_def)
qed

lemma replica_recorder: "replica g r \<Longrightarrow> ss_recorder (gr_schema r) = None"
  by (simp add: replica_def caught_up_def)

lemma emit_off: "ss_recorder s = None \<Longrightarrow> emit e s = s"
  by (simp add: emit_def)

lemma graph_emit_off: "ss_recorder (gr_schema g) = None \<Longrightarrow> graph_emit e g = g"
  by (simp add: graph_emit_def emit_off)

text \<open>
  The usual case: \<open>D\<close> is the effect on the data, the event follows, and replay of the event on a graph
  without a recorder has the same effect.
\<close>

lemma recovers_emit:
  assumes D: "\<And>s. D (g\<lparr>gr_schema := s\<rparr>) = (D g)\<lparr>gr_schema := s\<rparr>"
    and same: "gr_schema (D g) = gr_schema g"
    and event: "\<And>r. replica g r \<Longrightarrow> apply_event scan e r = (None, D r)"
  shows "recovers scan g (graph_emit e (D g))"
  unfolding recovers_def
proof (intro allI impI)
  fix r old
  assume r: "replica g r" and old: "ss_recorder (gr_schema g) = Some old"
  have r': "r = g\<lparr>gr_schema := gr_schema r\<rparr>" using r by (simp add: replica_def)
  then have "D r = (D g)\<lparr>gr_schema := gr_schema r\<rparr>" using D [of "gr_schema r"] by simp
  then have "replica (graph_emit e (D g)) (D r)"
    using r same by (simp add: replica_def graph_emit_def caught_up_emit)
  moreover have "ss_recorder (gr_schema (graph_emit e (D g))) = Some (old @ [e])"
    using old same by (simp add: graph_emit_def emit_def)
  ultimately show "\<exists>new r'. ss_recorder (gr_schema (graph_emit e (D g))) = Some (old @ new)
      \<and> applies scan new r r' \<and> replica (graph_emit e (D g)) r'"
    using applies_one [OF event [OF r]] by blast
qed

lemma replica_at:
  assumes "replica g r"
  shows "node_at r = node_at g" "rel_at r = rel_at g" "adjacency_at r = adjacency_at g"
    "gr_nodes r = gr_nodes g" "gr_relationships r = gr_relationships g" "gr_types r = gr_types g"
    "gr_adjacency r = gr_adjacency g"
proof -
  have r: "r = g\<lparr>gr_schema := gr_schema r\<rparr>" using assms by (simp add: replica_def)
  show "node_at r = node_at g" "rel_at r = rel_at g" "adjacency_at r = adjacency_at g"
    "gr_nodes r = gr_nodes g" "gr_relationships r = gr_relationships g" "gr_types r = gr_types g"
    "gr_adjacency r = gr_adjacency g"
    by (subst r, simp)+
qed

section \<open>Property and label edits\<close>

lemma recovers_set_node_property: "recovers scan g (snd (set_node_property i key v g))"
proof (cases "node_at g i")
  case None
  then show ?thesis by (simp add: set_node_property_def edit_node_property_def recovers_refl)
next
  case (Some n)
  let ?D = "\<lambda>x :: graph. x\<lparr>gr_nodes := (gr_nodes x)[unat i := Some (n\<lparr>nr_properties := btree_insert key v (nr_properties n)\<rparr>)]\<rparr>"
  have op: "set_node_property i key v x = (True, graph_emit (SetNodeProperty i key v) (?D x))" if "node_at x i = Some n" for x
    using that by (simp add: set_node_property_def edit_node_property_def edit_property_def)
  have "apply_event scan (SetNodeProperty i key v) r = (None, ?D r)" if "replica g r" for r
    using op [of r] replica_at [OF that] Some replica_recorder [OF that]
    by (simp add: applied_def graph_emit_off)
  then show ?thesis unfolding op [OF Some] snd_conv by (intro recovers_emit) simp_all
qed

lemma recovers_remove_node_property: "recovers scan g (snd (remove_node_property i key g))"
proof (cases "\<exists>n old. node_at g i = Some n \<and> map_of (nr_properties n) key = Some old")
  case False
  then have "snd (remove_node_property i key g) = g"
    by (auto simp: remove_node_property_def edit_node_property_def edit_property_def
        split: option.splits bind_splits)
  then show ?thesis by (simp add: recovers_refl)
next
  case True
  then obtain n old where n: "node_at g i = Some n" "map_of (nr_properties n) key = Some old" by blast
  let ?D = "\<lambda>x :: graph. x\<lparr>gr_nodes := (gr_nodes x)[unat i := Some (n\<lparr>nr_properties := btree_remove key (nr_properties n)\<rparr>)]\<rparr>"
  have op: "remove_node_property i key x = (True, graph_emit (RemoveNodeProperty i key) (?D x))" if "node_at x i = Some n" for x
    using that n(2) by (simp add: remove_node_property_def edit_node_property_def edit_property_def)
  have "apply_event scan (RemoveNodeProperty i key) r = (None, ?D r)" if "replica g r" for r
    using op [of r] replica_at [OF that] n replica_recorder [OF that] by (simp add: applied_def graph_emit_off)
  then show ?thesis unfolding op [OF n(1)] snd_conv by (intro recovers_emit) simp_all
qed

lemma recovers_set_relationship_property: "recovers scan g (snd (set_relationship_property i key v g))"
proof (cases "rel_at g i")
  case None
  then show ?thesis by (simp add: set_relationship_property_def edit_rel_property_def recovers_refl)
next
  case (Some n)
  let ?D = "\<lambda>x :: graph. x\<lparr>gr_relationships := (gr_relationships x)[unat i := Some (n\<lparr>rr_properties := btree_insert key v (rr_properties n)\<rparr>)]\<rparr>"
  have op: "set_relationship_property i key v x = (True, graph_emit (SetRelationshipProperty i key v) (?D x))"
    if "rel_at x i = Some n" for x
    using that by (simp add: set_relationship_property_def edit_rel_property_def edit_property_def)
  have "apply_event scan (SetRelationshipProperty i key v) r = (None, ?D r)" if "replica g r" for r
    using op [of r] replica_at [OF that] Some replica_recorder [OF that]
    by (simp add: applied_def graph_emit_off)
  then show ?thesis unfolding op [OF Some] snd_conv by (intro recovers_emit) simp_all
qed

lemma recovers_remove_relationship_property: "recovers scan g (snd (remove_relationship_property i key g))"
proof (cases "\<exists>n old. rel_at g i = Some n \<and> map_of (rr_properties n) key = Some old")
  case False
  then have "snd (remove_relationship_property i key g) = g"
    by (auto simp: remove_relationship_property_def edit_rel_property_def edit_property_def
        split: option.splits bind_splits)
  then show ?thesis by (simp add: recovers_refl)
next
  case True
  then obtain n old where n: "rel_at g i = Some n" "map_of (rr_properties n) key = Some old" by blast
  let ?D = "\<lambda>x :: graph. x\<lparr>gr_relationships := (gr_relationships x)[unat i := Some (n\<lparr>rr_properties := btree_remove key (rr_properties n)\<rparr>)]\<rparr>"
  have op: "remove_relationship_property i key x = (True, graph_emit (RemoveRelationshipProperty i key) (?D x))"
    if "rel_at x i = Some n" for x
    using that n(2) by (simp add: remove_relationship_property_def edit_rel_property_def edit_property_def)
  have "apply_event scan (RemoveRelationshipProperty i key) r = (None, ?D r)" if "replica g r" for r
    using op [of r] replica_at [OF that] n replica_recorder [OF that] by (simp add: applied_def graph_emit_off)
  then show ?thesis unfolding op [OF n(1)] snd_conv by (intro recovers_emit) simp_all
qed

text \<open>Several edits of one node are the edits one after the other.\<close>

definition edit_event :: "node_id \<Rightarrow> string \<Rightarrow> property_value option \<Rightarrow> mutation_event" where
  "edit_event i key v = (case v of Some v \<Rightarrow> SetNodeProperty i key v | None \<Rightarrow> RemoveNodeProperty i key)"

definition with_properties :: "node_id \<Rightarrow> node_record \<Rightarrow> properties \<Rightarrow> graph \<Rightarrow> graph" where
  "with_properties i n ps g = g\<lparr>gr_nodes := (gr_nodes g)[unat i := Some (n\<lparr>nr_properties := ps\<rparr>)]\<rparr>"

lemma with_properties_at:
  assumes "node_at g i = Some n"
  shows "node_at (with_properties i n ps g) i = Some (n\<lparr>nr_properties := ps\<rparr>)"
    and "with_properties i (n\<lparr>nr_properties := ps'\<rparr>) ps (with_properties i n ps' g) = with_properties i n ps g"
  using node_at_bound [OF assms] by (simp_all add: with_properties_def node_at_update)

lemma edit_event_apply:
  assumes "node_at r i = Some n" and "edit_property key (edit_of v) (nr_properties n) = Some (old, ps)"
    and "ss_recorder (gr_schema r) = None"
  shows "apply_event scan (edit_event i key v) r = (None, with_properties i n ps r)"
proof (cases v)
  case None
  then obtain x where "map_of (nr_properties n) key = Some x" "ps = btree_remove key (nr_properties n)"
    using assms(2) by (auto simp: edit_of_def edit_property_def split: option.splits)
  then show ?thesis using assms(1,3) None
    by (simp add: edit_event_def remove_node_property_def edit_node_property_def edit_property_def applied_def
        graph_emit_off with_properties_def)
next
  case (Some v')
  then show ?thesis using assms
    by (auto simp: edit_event_def edit_of_def set_node_property_def edit_node_property_def edit_property_def
        applied_def graph_emit_off with_properties_def)
qed

lemma recovers_edits:
  assumes "node_at g i = Some n" and "edit_properties edits (nr_properties n) = (olds, ps)"
  shows "recovers scan g (emit_edits i edits olds (with_properties i n ps g))"
  using assms
proof (induction edits arbitrary: g n olds ps)
  case Nil
  then have "n\<lparr>nr_properties := ps\<rparr> = n" by simp
  moreover have "(gr_nodes g)[unat i := Some n] = gr_nodes g"
    using Nil by (auto simp: node_at_def slot_get_def list_update_same_conv split: if_splits)
  ultimately have "with_properties i n ps g = g" by (simp add: with_properties_def)
  then show ?case using Nil by (simp add: recovers_refl)
next
  case (Cons edit edits)
  obtain key v where edit: "edit = (key, v)" by fastforce
  show ?case
  proof (cases "edit_property key (edit_of v) (nr_properties n)")
    case None
    then show ?thesis using Cons edit by (auto simp: Let_def split: prod.splits)
  next
    case (Some p)
    obtain old ps1 where p: "p = (old, ps1)" by fastforce
    obtain olds1 where r: "edit_properties edits ps1 = (olds1, ps)" "olds = Some old # olds1"
      using Cons.prems(2) Some p edit by (auto simp: Let_def split: prod.splits)
    let ?g = "with_properties i n ps1 g" and ?n = "n\<lparr>nr_properties := ps1\<rparr>"
    let ?e = "graph_emit (edit_event i key v)"
    have "recovers scan g (?e ?g)"
    proof (rule recovers_emit)
      show "apply_event scan (edit_event i key v) r = (None, with_properties i n ps1 r)" if "replica g r" for r
        using edit_event_apply [of r i n key v old ps1] replica_at [OF that] replica_recorder [OF that] Cons.prems(1) Some p by simp
    qed (simp_all add: with_properties_def)
    moreover have "recovers scan (?e ?g) (emit_edits i edits olds1 (with_properties i ?n ps (?e ?g)))"
      by (rule Cons.IH) (use with_properties_at(1) [OF Cons.prems(1)] r(1) in simp_all)
    moreover have "with_properties i ?n ps (?e ?g) = ?e (with_properties i n ps g)"
      using with_properties_at(2) [OF Cons.prems(1), of ps1 ps] by (simp add: with_properties_def graph_emit_def)
    ultimately show ?thesis
      using recovers_trans by (simp add: r(2) edit edit_event_def)
  qed
qed

lemma recovers_update_node_properties: "recovers scan g (snd (update_node_properties i edits g))"
proof (cases "node_at g i")
  case None
  then show ?thesis by (simp add: update_node_properties_def edit_node_properties_def recovers_refl)
next
  case (Some n)
  obtain olds ps where "edit_properties edits (nr_properties n) = (olds, ps)" by fastforce
  then show ?thesis using recovers_edits [OF Some] Some
    by (simp add: update_node_properties_def edit_node_properties_def with_properties_def)
qed

lemma recovers_add_node_label: "recovers scan g (snd (add_node_label i label g))"
proof (cases "\<exists>n. node_at g i = Some n \<and> trim label \<noteq> [] \<and> trim label \<notin> set (nr_labels n)")
  case False
  then have "snd (add_node_label i label g) = g"
    by (auto simp: add_node_label_def Let_def split: option.splits)
  then show ?thesis by (simp add: recovers_refl)
next
  case True
  then obtain n where n: "node_at g i = Some n" "trim label \<noteq> []" "trim label \<notin> set (nr_labels n)" by blast
  let ?D = "\<lambda>x. on_node_label_added i (trim label)
    (x\<lparr>gr_nodes := (gr_nodes x)[unat i := Some (n\<lparr>nr_labels := nr_labels n @ [trim label]\<rparr>)]\<rparr>)"
  have op: "add_node_label i l x = (True, graph_emit (AddNodeLabel i (trim label)) (?D x))"
    if "node_at x i = Some n" "trim l = trim label" for x l
    using that n(2,3) by (simp add: add_node_label_def update_node_def Let_def)
  have "apply_event scan (AddNodeLabel i (trim label)) r = (None, ?D r)" if "replica g r" for r
    using op [of r "trim label"] replica_at [OF that] n replica_recorder [OF that]
    by (simp add: applied_def graph_emit_off on_node_label_added_def)
  then show ?thesis unfolding op [OF n(1) refl] snd_conv
    by (intro recovers_emit) (simp_all add: on_node_label_added_def)
qed

lemma recovers_remove_node_label: "recovers scan g (snd (remove_node_label i label g))"
proof (cases "\<exists>n. node_at g i = Some n \<and> label \<in> set (nr_labels n)")
  case False
  then have "snd (remove_node_label i label g) = g"
    by (auto simp: remove_node_label_def split: option.splits)
  then show ?thesis by (simp add: recovers_refl)
next
  case True
  then obtain n where n: "node_at g i = Some n" "label \<in> set (nr_labels n)" by blast
  let ?D = "\<lambda>x. on_node_label_removed i label
    (x\<lparr>gr_nodes := (gr_nodes x)[unat i := Some (n\<lparr>nr_labels := filter (\<lambda>l. l \<noteq> label) (nr_labels n)\<rparr>)]\<rparr>)"
  have op: "remove_node_label i label x = (True, graph_emit (RemoveNodeLabel i label) (?D x))"
    if "node_at x i = Some n" for x
    using that n(2) by (simp add: remove_node_label_def update_node_def)
  have "apply_event scan (RemoveNodeLabel i label) r = (None, ?D r)" if "replica g r" for r
    using op [of r] replica_at [OF that] n replica_recorder [OF that]
    by (simp add: applied_def graph_emit_off on_node_label_removed_def)
  then show ?thesis unfolding op [OF n(1)] snd_conv
    by (intro recovers_emit) (simp_all add: on_node_label_removed_def)
qed

section \<open>Creations\<close>

definition node_slot_opened :: "node_id \<Rightarrow> graph \<Rightarrow> graph" where
  "node_slot_opened i g = g\<lparr>gr_nodes := grow_to (unat i + 1) None (gr_nodes g),
     gr_adjacency := grow_to (unat i + 1) adj_empty (gr_adjacency g), gr_next_node_id := max (gr_next_node_id g) (i + 1)\<rparr>"

definition rel_slot_opened :: "relationship_id \<Rightarrow> graph \<Rightarrow> graph" where
  "rel_slot_opened i g = g\<lparr>gr_relationships := grow_to (unat i + 1) None (gr_relationships g),
     gr_next_rel_id := max (gr_next_rel_id g) (i + 1)\<rparr>"

lemma open_node_slot_eq: "ebind (ensure_node_slot_checked i g) (\<lambda>(idx, g). ebind (bump_next_node_id_past i g) (\<lambda>g. F idx g)) =
    (if i \<le> MAX_ENTITY_ID then F (unat i) (node_slot_opened i g) else Inl (IdTooLarge i))"
  using max_entity_next [of i]
  by (cases "i \<le> MAX_ENTITY_ID") (auto simp: ensure_node_slot_checked_def bump_next_node_id_past_def
      checked_next_id_def slot_len_for_id_def node_slot_opened_def leD linorder_not_le)

lemma open_rel_slot_eq: "ebind (ensure_rel_slot_checked i g) (\<lambda>(idx, g). ebind (bump_next_rel_id_past i g) (\<lambda>g. F idx g)) =
    (if i \<le> MAX_ENTITY_ID then F (unat i) (rel_slot_opened i g) else Inl (IdTooLarge i))"
  using max_entity_next [of i]
  by (cases "i \<le> MAX_ENTITY_ID") (auto simp: ensure_rel_slot_checked_def bump_next_rel_id_past_def
      checked_next_id_def slot_len_for_id_def rel_slot_opened_def leD linorder_not_le)

lemma recovers_create_node:
  assumes ok: "graph_ok g"
  shows "recovers scan g (snd (try_create_node labels ps g))"
proof (cases "gr_next_node_id g \<le> MAX_ENTITY_ID")
  case False
  then show ?thesis
    by (simp add: try_create_node_def try_reserve_next_node_slot_def open_node_slot_eq Let_def recovers_refl)
next
  case True
  define i where "i = gr_next_node_id g"
  let ?ls = "normalize_labels labels"
  let ?n = "\<lparr>nr_id = i, nr_labels = ?ls, nr_properties = ps\<rparr>"
  let ?D = "\<lambda>x. on_node_created ?n (put_node_at_slot (unat i) ?n (node_slot_opened i x))"
  have op: "snd (try_create_node labels ps g) = graph_emit (CreateNode i ?ls ps) (?D g)"
    using True by (simp add: try_create_node_def try_reserve_next_node_slot_def open_node_slot_eq Let_def i_def)
  have "apply_event scan (CreateNode i ?ls ps) r = (None, ?D r)" if "replica g r" for r
  proof -
    have "\<not> has_node_at r i" using replica_at [OF that] next_ids_free(1) [of g] ok
      by (simp add: has_node_at_def i_def graph_ok_def)
    then have "replay_create_node i ?ls ps r = Inr (?D r)"
      using replica_recorder [OF that] True
      by (simp add: replay_create_node_def open_node_slot_eq normalize_labels_ok Let_def i_def)
    then show ?thesis by (simp add: apply_creation_def)
  qed
  then show ?thesis unfolding op
    by (intro recovers_emit) (simp_all add: on_node_created_def put_node_at_slot_def node_slot_opened_def Let_def)
qed

text \<open>Changing the schema commutes with the edits of adjacency lists and indexes.\<close>

lemma schema_outward:
  "g\<lparr>gr_schema := s, gr_next_node_id := x0\<rparr> = g\<lparr>gr_next_node_id := x0, gr_schema := s\<rparr>"
  "g\<lparr>gr_schema := s, gr_next_rel_id := x1\<rparr> = g\<lparr>gr_next_rel_id := x1, gr_schema := s\<rparr>"
  "g\<lparr>gr_schema := s, gr_nodes := x2\<rparr> = g\<lparr>gr_nodes := x2, gr_schema := s\<rparr>"
  "g\<lparr>gr_schema := s, gr_relationships := x3\<rparr> = g\<lparr>gr_relationships := x3, gr_schema := s\<rparr>"
  "g\<lparr>gr_schema := s, gr_types := x4\<rparr> = g\<lparr>gr_types := x4, gr_schema := s\<rparr>"
  "g\<lparr>gr_schema := s, gr_live_nodes := x5\<rparr> = g\<lparr>gr_live_nodes := x5, gr_schema := s\<rparr>"
  "g\<lparr>gr_schema := s, gr_live_rels := x6\<rparr> = g\<lparr>gr_live_rels := x6, gr_schema := s\<rparr>"
  "g\<lparr>gr_schema := s, gr_adjacency := x7\<rparr> = g\<lparr>gr_adjacency := x7, gr_schema := s\<rparr>"
  "g\<lparr>gr_schema := s, gr_nodes_by_label := x8\<rparr> = g\<lparr>gr_nodes_by_label := x8, gr_schema := s\<rparr>"
  "g\<lparr>gr_schema := s, gr_rels_by_type := x9\<rparr> = g\<lparr>gr_rels_by_type := x9, gr_schema := s\<rparr>"
  by simp_all

lemma schema_commutes [simp]:
  "adjacency_push i e t (g\<lparr>gr_schema := s\<rparr>) = (adjacency_push i e t g)\<lparr>gr_schema := s\<rparr>"
  "change_adjacency i f (g\<lparr>gr_schema := s\<rparr>) = (change_adjacency i f g)\<lparr>gr_schema := s\<rparr>"
  "clear_adjacency i (g\<lparr>gr_schema := s\<rparr>) = (clear_adjacency i g)\<lparr>gr_schema := s\<rparr>"
  "gr_schema (adjacency_push i e t g) = gr_schema g"
  "gr_schema (clear_adjacency i g) = gr_schema g"
  by (simp_all add: adjacency_push_def change_adjacency_def clear_adjacency_def ensure_node_slot_checked_def
      slot_len_for_id_def)

lemma attach_schema [simp]:
  "on_relationship_created rel (g\<lparr>gr_schema := s\<rparr>) = (on_relationship_created rel g)\<lparr>gr_schema := s\<rparr>"
  "gr_schema (on_relationship_created rel g) = gr_schema g"
  by (simp_all add: on_relationship_created_def attach_relationship_def Let_def split_beta schema_outward)

lemma detach_schema [simp]:
  "snd (detach_relationship_indexes rel None (g\<lparr>gr_schema := s\<rparr>)) =
     (snd (detach_relationship_indexes rel None g))\<lparr>gr_schema := s\<rparr>"
  "gr_schema (snd (detach_relationship_indexes rel None g)) = gr_schema g"
  by (simp_all add: detach_relationship_indexes_def adjacency_remove_def Let_def split_beta)

lemma recovers_create_relationship:
  assumes ok: "graph_ok g"
  shows "recovers scan g (snd (create_relationship src dst ty ps g))"
proof (cases "has_node_at g src \<and> has_node_at g dst \<and> trim ty \<noteq> [] \<and> gr_next_rel_id g \<le> MAX_ENTITY_ID")
  case False
  then have "snd (create_relationship src dst ty ps g) = g"
    by (auto simp: create_relationship_def try_reserve_next_rel_slot_def open_rel_slot_eq Let_def)
  then show ?thesis by (simp add: recovers_refl)
next
  case True
  define i where "i = gr_next_rel_id g"
  let ?r = "\<lparr>rr_id = i, rr_src = src, rr_dst = dst, rr_type = trim ty, rr_properties = ps\<rparr>"
  let ?D = "\<lambda>x. on_relationship_created ?r (put_rel_at_slot (unat i) ?r (rel_slot_opened i x))"
  have op: "snd (create_relationship src dst ty ps g) =
      graph_emit (CreateRelationship i src dst (trim ty) ps) (?D g)"
    using True by (simp add: create_relationship_def try_reserve_next_rel_slot_def open_rel_slot_eq Let_def i_def)
  have "apply_event scan (CreateRelationship i src dst (trim ty) ps) r = (None, ?D r)" if "replica g r" for r
  proof -
    have "\<not> has_rel_at r i" using replica_at [OF that] next_ids_free(2) [of g] ok
      by (simp add: has_rel_at_def i_def graph_ok_def)
    then have "replay_create_relationship i src dst (trim ty) ps r = Inr (?D r)"
      using replica_recorder [OF that] replica_at [OF that] True
      by (simp add: replay_create_relationship_def open_rel_slot_eq has_node_at_def Let_def i_def)
    then show ?thesis by (simp add: apply_creation_def)
  qed
  then show ?thesis unfolding op
    by (intro recovers_emit) (simp_all add: put_rel_at_slot_def rel_slot_opened_def Let_def schema_outward)
qed

section \<open>Deletions\<close>

lemma recovers_delete_relationship: "recovers scan g (snd (delete_relationship k g))"
proof (cases "rel_at g k")
  case None
  then show ?thesis by (simp add: delete_relationship_def delete_relationship_deferring_None recovers_refl)
next
  case (Some rel)
  let ?D = "\<lambda>x. snd (detach_relationship_indexes rel None (x\<lparr>gr_relationships := (gr_relationships x)[unat k := None],
        gr_live_rels := gr_live_rels x - 1\<rparr>))"
  have op: "delete_relationship k x = (True, graph_emit (DeleteRelationship k) (?D x))" if "rel_at x k = Some rel" for x
    using that by (simp add: delete_relationship_def delete_relationship_deferring_def take_rel_def
        on_relationship_deleted_def split_beta Let_def)
  have "apply_event scan (DeleteRelationship k) r = (None, ?D r)" if "replica g r" for r
    using op [of r] replica_at [OF that] Some replica_recorder [OF that] by (simp add: applied_def graph_emit_off)
  then show ?thesis unfolding op [OF Some] snd_conv
    by (intro recovers_emit) (simp_all add: schema_outward)
qed

lemma recovers_delete_one_by_one: "recovers scan g (snd (delete_one_by_one ks g))"
proof (induction ks arbitrary: g)
  case (Cons k ks)
  show ?case using recovers_trans [OF recovers_delete_relationship Cons] by (simp add: split_beta Let_def)
qed (simp add: recovers_refl)

lemma on_node_deleted_schema [simp]:
  "on_node_deleted n (g\<lparr>gr_schema := s\<rparr>) = (on_node_deleted n g)\<lparr>gr_schema := s\<rparr>"
  "gr_schema (on_node_deleted n g) = gr_schema g"
  by (simp_all add: on_node_deleted_def)

lemma recovers_delete_node: "recovers scan g (snd (delete_node i g))"
proof (cases "has_node_at g i \<and> \<not> has_incident_relationships g i")
  case False
  then have "snd (delete_node i g) = g" by (auto simp: delete_node_def)
  then show ?thesis by (simp add: recovers_refl)
next
  case True
  then obtain n where n: "node_at g i = Some n" by (auto simp: has_node_at_def)
  let ?D = "\<lambda>x. on_node_deleted n (clear_adjacency i (x\<lparr>gr_nodes := (gr_nodes x)[unat i := None],
        gr_live_nodes := gr_live_nodes x - 1\<rparr>))"
  have op: "delete_node i x = (True, graph_emit (DeleteNode i) (?D x))"
    if "node_at x i = Some n" "adjacency_at x = adjacency_at g" for x
    using that True by (simp add: delete_node_def take_node_def has_node_at_def has_incident_relationships_def)
  have "apply_event scan (DeleteNode i) r = (None, ?D r)" if "replica g r" for r
    using op [of r] replica_at [OF that] n replica_recorder [OF that] by (simp add: applied_def graph_emit_off)
  then show ?thesis unfolding op [OF n refl] snd_conv
    by (intro recovers_emit) (simp_all add: schema_outward)
qed

lemma detach_delete_absent: "node_at g i = None \<Longrightarrow> detach_delete_node i g = (False, g)"
  by (simp add: detach_delete_node_def detach_delete_nodes_def detach_delete_deferring_def has_node_at_def
      flush_adjacency_removals_def)

lemma recovers_detach_at_once: "recovers scan g (snd (detach_at_once i g))"
proof (cases "has_node_at g i")
  case False
  then show ?thesis by (simp add: detach_at_once_def recovers_refl)
next
  case True
  let ?h = "snd (delete_one_by_one (incident_relationship_ids g i) g)"
  obtain b k where k: "delete_node i ?h = (b, k)" by fastforce
  have "recovers scan g k"
    using recovers_trans [OF recovers_delete_one_by_one recovers_delete_node] k by (metis snd_conv)
  moreover have "recovers scan k (graph_emit (DetachDeleteNode i) k)" if b
  proof (rule recovers_emit [where D = "\<lambda>x. x"])
    have "node_at k i = None" using k that
      by (auto simp: delete_node_def take_node_def on_node_deleted_def clear_adjacency_def node_at_update
          node_at_bound has_node_at_def split: if_splits)
    then show "apply_event scan (DetachDeleteNode i) r = (None, r)" if "replica k r" for r
      using replica_at(1) [OF that] by (simp add: detach_delete_absent)
  qed simp_all
  ultimately show ?thesis
    using True k recovers_trans by (cases b) (auto simp: detach_at_once_def split_beta Let_def)
qed

lemma recovers_detach_one_by_one:
  assumes "graph_ok g"
  shows "recovers scan g (snd (detach_one_by_one is g))"
  using assms
proof (induction "is" arbitrary: g)
  case (Cons i "is")
  have "recovers scan g (snd (detach_delete_node i g))"
    unfolding detach_delete_node_at_once [OF Cons.prems] by (rule recovers_detach_at_once)
  from recovers_trans [OF this Cons.IH [OF detach_delete_node_ok [OF Cons.prems]]]
  show ?case by (simp add: split_beta Let_def)
qed (simp add: recovers_refl)

lemma recovers_clear: "recovers scan g (clear_graph g)"
  unfolding recovers_def
proof (intro allI impI)
  fix r old
  assume r: "replica g r" and old: "ss_recorder (gr_schema g) = Some old"
  have "clear_graph r = graph_default None"
    using replica_recorder [OF r] by (simp add: clear_graph_def graph_emit_off graph_default_def schema_new_def)
  moreover have "caught_up (schema_new rec) (schema_new None)" for rec
    using schema_ok_new by (simp add: caught_up_def) (simp add: schema_new_def)
  ultimately have "replica (clear_graph g) (clear_graph r)"
    by (simp add: replica_def clear_graph_def graph_emit_def caught_up_emit graph_default_def)
  moreover have "ss_recorder (gr_schema (clear_graph g)) = Some (old @ [ClearGraph])"
    using old by (simp add: clear_graph_def graph_emit_def emit_def graph_default_def schema_new_def)
  moreover have "apply_event scan ClearGraph r = (None, clear_graph r)" by simp
  ultimately show "\<exists>new r'. ss_recorder (gr_schema (clear_graph g)) = Some (old @ new)
      \<and> applies scan new r r' \<and> replica (clear_graph g) r'"
    using applies_one by blast
qed

section \<open>Schema commands\<close>

text \<open>The check of the existing data reads the records, not the catalogs.\<close>

definition reads_data :: "data_scan \<Rightarrow> bool" where
  "reads_data scan \<longleftrightarrow> (\<forall>g s. scan (g\<lparr>gr_schema := s\<rparr>) = scan g)"

lemma reads_data_replica: "reads_data scan \<Longrightarrow> replica g r \<Longrightarrow> scan r = scan g"
  unfolding reads_data_def replica_def by metis

lemma recovers_schema:
  assumes event: "\<And>x. apply_event scan e x = apply_schema scan e x"
    and command: "\<And>r old. replica g r \<Longrightarrow> ss_recorder (gr_schema g) = Some old \<Longrightarrow>
      caught_up s' (gr_schema r) \<and> ss_recorder s' = Some old \<or> ss_recorder s' = Some (old @ [e])
      \<and> (\<exists>t'. replay_schema_event (scan r) e (gr_schema r) = Some t' \<and> caught_up s' t')"
  shows "recovers scan g (g\<lparr>gr_schema := s'\<rparr>)"
  unfolding recovers_def
proof (intro allI impI)
  fix r old
  assume r: "replica g r" and old: "ss_recorder (gr_schema g) = Some old"
  have eq: "r = g\<lparr>gr_schema := gr_schema r\<rparr>" using r by (simp add: replica_def)
  have replica: "replica (g\<lparr>gr_schema := s'\<rparr>) (r\<lparr>gr_schema := t\<rparr>)" if "caught_up s' t" for t
    using that eq unfolding replica_def by (metis graph.surjective graph.update_convs(11) graph.select_convs(11))
  from command [OF r old] show "\<exists>new r'. ss_recorder (gr_schema (g\<lparr>gr_schema := s'\<rparr>)) = Some (old @ new)
      \<and> applies scan new r r' \<and> replica (g\<lparr>gr_schema := s'\<rparr>) r'"
  proof (elim disjE conjE exE)
    assume "caught_up s' (gr_schema r)" "ss_recorder s' = Some old"
    then show ?thesis using replica [of "gr_schema r"] applies_Nil [of scan r] by fastforce
  next
    fix t assume rec: "ss_recorder s' = Some (old @ [e])"
      and t: "replay_schema_event (scan r) e (gr_schema r) = Some t" "caught_up s' t"
    have "apply_event scan e r = (None, r\<lparr>gr_schema := t\<rparr>)" using t by (simp add: event apply_schema_def)
    then show ?thesis using rec replica [OF t(2)] applies_one [of scan e r "r\<lparr>gr_schema := t\<rparr>"] by auto
  qed
qed

lemma on_schema_snd: "snd (on_schema command g) = g\<lparr>gr_schema := snd (command (gr_schema g))\<rparr>"
  by (simp add: on_schema_def split_beta Let_def)

lemma replica_caught_up: "replica g r \<Longrightarrow> caught_up (gr_schema g) (gr_schema r)"
  by (simp add: replica_def)

lemma recovers_create_index:
  assumes "length (icat_by_name (ss_indexes (gr_schema g))) < 2 ^ 64"
  shows "recovers scan g (snd (on_schema (register_index request ine) g))"
  unfolding on_schema_snd
  by (rule recovers_schema [where e = "CreateIndex request ine"])
    (simp, rule replay_register_index [OF replica_caught_up assms _ refl])

lemma recovers_drop_index: "recovers scan g (snd (on_schema (drop_named_index name ife) g))"
  unfolding on_schema_snd
  by (rule recovers_schema [where e = "DropIndex name ife"]) (simp, rule replay_drop_index [OF replica_caught_up _ refl])

lemma recovers_create_constraint:
  assumes "reads_data scan"
  shows "recovers scan g (snd (on_schema (register_constraint (scan g) request ine) g))"
  unfolding on_schema_snd
  by (rule recovers_schema [where e = "CreateConstraint request ine"])
    (simp, rule replay_register_constraint [OF replica_caught_up _ refl], simp_all add: reads_data_replica [OF assms])

lemma recovers_drop_constraint: "recovers scan g (snd (on_schema (drop_named_constraint name ife) g))"
  unfolding on_schema_snd
  by (rule recovers_schema [where e = "DropConstraint name ife"])
    (simp, rule replay_drop_constraint [OF replica_caught_up _ refl])

lemma recovers_populate: "recovers scan g (g\<lparr>gr_schema := lazy_populate_vector_index name (gr_schema g)\<rparr>)"
  by (rule recovers_schema [where e = "DropIndex name False"]) (simp, metis replay_lazy replica_caught_up)

section \<open>Recovery of the graph\<close>

lemma recovers_step:
  assumes "reads_data scan" and "graph_ok g" and "graph_step scan g g'"
  shows "recovers scan g g'"
  using assms(3)
  by (rule graph_stepE) (simp_all add: assms(1,2) recovers_create_node recovers_create_relationship
      recovers_set_node_property recovers_remove_node_property recovers_update_node_properties
      recovers_add_node_label recovers_remove_node_label recovers_set_relationship_property
      recovers_remove_relationship_property recovers_delete_relationship recovers_delete_node recovers_clear
      delete_relationships_one_by_one recovers_delete_one_by_one detach_delete_node_at_once
      recovers_detach_at_once detach_nodes_one_by_one recovers_detach_one_by_one recovers_create_index
      recovers_drop_index recovers_create_constraint recovers_drop_constraint recovers_populate)

lemma recovers_reachable:
  assumes "reads_data scan" and "graph_reachable scan (Some []) g"
  shows "recovers scan (graph_default (Some [])) g"
  using assms(2)
proof (induction rule: graph_reachable.induct)
  case (step g g')
  then show ?case using recovers_trans recovers_step [OF assms(1) graph_ok_reachable] by blast
qed (rule recovers_refl)

lemma replica_default: "replica (graph_default (Some [])) (graph_default None)"
  using schema_ok_new by (simp add: replica_def graph_default_def caught_up_def) (simp add: schema_new_def)

lemma replay_recovers_reachable:
  assumes "reads_data scan" and "graph_reachable scan (Some []) g"
  obtains es r where "ss_recorder (gr_schema g) = Some es" and "replay_into scan es (graph_default None) = (None, r)"
    and "replica g r"
proof -
  have "ss_recorder (gr_schema (graph_default (Some []))) = Some []"
    by (simp add: graph_default_def schema_new_def)
  with recovers_reachable [OF assms] replica_default obtain es r where
    "ss_recorder (gr_schema g) = Some es" "applies scan es (graph_default None) r" "replica g r"
    unfolding recovers_def by (metis append_Nil)
  then show ?thesis using that replay_from_applies unfolding replay_into_def by blast
qed

text \<open>
  C5. Recovery of the graph: the events that a graph recorded, replayed on an empty graph, all apply, and
  the result has the records of the graph in the same slots, its next ids, type names, live counts,
  adjacency lists (in the same order) and label and type indexes, its constraints and constraint count,
  and its index catalog up to the \<open>Populating\<close> marks.
\<close>

theorem graph_replay_recovers:
  assumes "graph_reachable scan (Some []) g" and "reads_data scan"
  shows "\<exists>es r. ss_recorder (gr_schema g) = Some es \<and> replay_into scan es (graph_default None) = (None, r)
    \<and> r = g\<lparr>gr_schema := gr_schema r\<rparr>
    \<and> settled (ss_indexes (gr_schema r)) = settled (ss_indexes (gr_schema g))
    \<and> ss_constraints (gr_schema r) = ss_constraints (gr_schema g)
    \<and> ss_active (gr_schema r) = ss_active (gr_schema g) \<and> ss_recorder (gr_schema r) = None"
proof -
  obtain es r where "ss_recorder (gr_schema g) = Some es" "replay_into scan es (graph_default None) = (None, r)"
    "replica g r" by (rule replay_recovers_reachable [OF assms(2,1)])
  then show ?thesis by (auto simp: replica_def caught_up_def)
qed

lemma sample_graph_recorded: "ss_recorder (gr_schema (sample_graph (Some []))) =
    Some [CreateNode 0 [''Person''] [], CreateNode 1 [] [], CreateRelationship 0 0 1 ''KNOWS'' [(''since'', PvInt 2020)]]"
proof -
  have "trimmed ''KNOWS''" "trimmed ''Person''"
    by (simp_all add: trimmed_def whitespace_literal suffix_to_prefix)
  then show ?thesis unfolding sample_graph_def by (simp add: create_defs)
qed

theorem graph_replay_recovers_witness:
  "\<exists>r. replay_into (\<lambda>_ _. None) [CreateNode 0 [''Person''] [], CreateNode 1 [] [],
       CreateRelationship 0 0 1 ''KNOWS'' [(''since'', PvInt 2020)]] (graph_default None) = (None, r)
    \<and> r = (sample_graph (Some []))\<lparr>gr_schema := gr_schema r\<rparr>"
  using graph_replay_recovers [OF sample_graph_reachable [of "\<lambda>_ _. None" "Some []"]] sample_graph_recorded
  by (auto simp: reads_data_def)

end
