(* ===== verification/Database_Replay.thy ===== *)
theory Database_Replay
  imports Replay_Sinks Graph_Replay Wal_Recovery
begin

text \<open>
  Opening a log into a graph (\<open>open_wal_into\<close> of \<open>crates/lora-database/src/database/replay.rs\<close>): the
  sink that applies each transaction as replay reads it, and what a log that a graph wrote opens to.
\<close>

section \<open>The graph as a sink\<close>

datatype replay_error = EventFailed nat replay_failure | EventsUnreadable wal_error

text \<open>\<open>replay_tx\<close>: on an error the graph keeps the events applied before it, which nothing reads.\<close>

definition replay_tx :: "data_scan \<Rightarrow> (string \<Rightarrow> string option) \<Rightarrow> nat \<Rightarrow> tx_events \<Rightarrow> graph \<Rightarrow> replay_error + graph" where
  "replay_tx scan lk first_idx events g = map_sum id snd (tx_for_each lk EventsUnreadable events (\<lambda>event (idx, g).
     case apply_event scan event g of
       (Some failure, g) \<Rightarrow> Inl (EventFailed idx failure) | (None, g) \<Rightarrow> Inr (idx + 1, g)) (first_idx, g))"

record graph_sink =
  gs_graph :: graph
  gs_applied :: nat
  gs_before :: "(graph \<times> nat) option"
  gs_failure :: "replay_error option"

definition graph_sink_new :: "graph \<Rightarrow> graph_sink" where
  "graph_sink_new g = \<lparr>gs_graph = g, gs_applied = 0, gs_before = None, gs_failure = None\<rparr>"

definition replay_refused :: wal_error where
  "replay_refused = Malformed ''WAL replay failed''"

definition graph_sink_step :: "data_scan \<Rightarrow> (string \<Rightarrow> string option) \<Rightarrow> graph_sink replay_sink" where
  "graph_sink_step scan lk step s = (case step of
      StepPartial events \<Rightarrow>
        let s = (if gs_before s = None then s\<lparr>gs_before := Some (gs_graph s, gs_applied s)\<rparr> else s) in
        if gs_failure s = None
        then (case replay_tx scan lk (gs_applied s) events (gs_graph s) of
            Inr g \<Rightarrow> Inr (s\<lparr>gs_graph := g, gs_applied := gs_applied s + tx_len events\<rparr>)
          | Inl e \<Rightarrow> Inr (s\<lparr>gs_failure := Some e\<rparr>))
        else Inr s
    | StepCommit events \<Rightarrow>
        let s = s\<lparr>gs_before := None\<rparr> in
        if gs_failure s \<noteq> None then Inl replay_refused
        else (case replay_tx scan lk (gs_applied s) events (gs_graph s) of
            Inr g \<Rightarrow> Inr (s\<lparr>gs_graph := g, gs_applied := gs_applied s + tx_len events\<rparr>)
          | Inl e \<Rightarrow> Inl replay_refused)
    | StepDiscard \<Rightarrow>
        let s = (case gs_before s of
            Some (g, n) \<Rightarrow> s\<lparr>gs_graph := g, gs_applied := n, gs_before := None\<rparr> | None \<Rightarrow> s) in
        Inr (s\<lparr>gs_failure := None\<rparr>))"

text \<open>The error of an open that fails is not told apart further: \<open>LoraError\<close> is left out.\<close>

definition open_wal_into :: "data_scan \<Rightarrow> (u8 list \<Rightarrow> u32) \<Rightarrow> (string \<Rightarrow> string option) \<Rightarrow> segment_files \<Rightarrow> lsn \<Rightarrow>
    bool \<Rightarrow> graph \<Rightarrow> wal_error + wal_state \<times> graph" where
  "open_wal_into scan crc lk files checkpoint_lsn truncate_corrupt_tail g =
     map_sum id (\<lambda>(wal, _, s). (wal, gs_graph s))
       (open_replaying_with crc lk (graph_sink_step scan lk) files checkpoint_lsn truncate_corrupt_tail (graph_sink_new g))"

section \<open>Events that rebuild a graph\<close>

definition rebuilds :: "data_scan \<Rightarrow> graph \<Rightarrow> mutation_event list \<Rightarrow> graph \<Rightarrow> bool" where
  "rebuilds scan g0 es g \<longleftrightarrow> replay_into scan es g0 = (None, g)"

lemma replay_from_index: "replay_from scan i es g = (None, g') \<longleftrightarrow> replay_from scan j es g = (None, g')"
proof (induction es arbitrary: i j g)
  case (Cons e es)
  then show ?case by (cases "apply_event scan e g"; cases "fst (apply_event scan e g)") simp_all
qed simp

lemma rebuilds_append: "rebuilds scan g0 (es @ es') g' \<longleftrightarrow> (\<exists>g. rebuilds scan g0 es g \<and> rebuilds scan g es' g')"
proof (cases "replay_from scan 0 es g0")
  case (Pair failure g)
  show ?thesis
    by (cases failure) (simp_all add: rebuilds_def replay_into_def replay_from_append Pair replay_from_index [of _ "length es" _ _ _ 0])
qed

lemma rebuilds_unique: "rebuilds scan g0 es g \<Longrightarrow> rebuilds scan g0 es g' \<Longrightarrow> g' = g"
  by (simp add: rebuilds_def)

lemma rebuilds_Nil [simp]: "rebuilds scan g0 [] g \<longleftrightarrow> g = g0"
  by (auto simp: rebuilds_def replay_into_def)

text \<open>Events that could be collected are applied one by one.\<close>

abbreviation collect_one :: "mutation_event \<Rightarrow> mutation_event list \<Rightarrow> wal_error + mutation_event list" where
  "collect_one \<equiv> \<lambda>event events. Inr (events @ [event])"

lemma for_each_loop_collected:
  "for_each_loop n m conv collect_one (acc, r) = Inr (acc', r') \<Longrightarrow> \<exists>es. rmany n m r = Inr (es, r') \<and> acc' = acc @ es"
proof (induction n arbitrary: acc r)
  case (Suc n)
  then obtain e r1 where e: "m r = Inr (e, r1)" "for_each_loop n m conv collect_one (acc @ [e], r1) = Inr (acc', r')"
    by (auto split: sum.splits)
  from Suc.IH [OF e(2)] obtain es where "rmany n m r1 = Inr (es, r')" "acc' = acc @ e # es" by auto
  then show ?case using e(1) by (intro exI [of _ "e # es"]) (simp add: rbind_def rret_def)
qed (simp add: rret_def)

lemma for_each_event_collected:
  assumes "for_each_event lk conv bs collect_one acc = Inr acc'"
  obtains es where "decode_events lk bs = Inr es" and "acc' = acc @ es"
proof -
  from assms obtain payload len r r' where payload: "strip_magic bs = Some payload"
    and len: "wal_read_len_bounded ''WAL event'' (payload_reader_new payload) = Inr (len, r)"
    and loop: "for_each_loop len (wal_read_event lk (Suc (length payload))) conv collect_one (acc, r) = Inr (acc', r')"
    and fin: "wal_finish r' = Inr ((), r')"
    by (auto simp: for_each_event_def wal_finish_def split: option.splits sum.splits if_splits)
  from for_each_loop_collected [OF loop] obtain es where
    "rmany len (wal_read_event lk (Suc (length payload))) r = Inr (es, r')" "acc' = acc @ es" by blast
  then show ?thesis using that payload len fin
    by (simp add: decode_events_def run_payload_def rbind_def rret_def)
qed

lemma for_each_part_collected:
  "for_each_part lk conv ps collect_one acc = Inr acc' \<Longrightarrow>
   \<exists>ess. list_all2 (part_stands lk) ps ess \<and> acc' = acc @ concat ess"
proof (induction ps arbitrary: acc)
  case (Cons p ps)
  obtain es acc1 where p: "part_stands lk p es" "acc1 = acc @ es" "for_each_part lk conv ps collect_one acc1 = Inr acc'"
  proof (cases p)
    case (TxEvent e)
    then show ?thesis using Cons.prems that [of "[e]" "acc @ [e]"] by simp
  next
    case (TxBatch b)
    then obtain acc1 where acc1: "for_each_event lk conv (byte_range (eb_start b) (eb_end b) (eb_rest b)) collect_one acc = Inr acc1"
      "for_each_part lk conv ps collect_one acc1 = Inr acc'"
      using Cons.prems by (auto simp: batch_for_each_def ebind_def split: sum.splits)
    obtain es where "decode_events lk (byte_range (eb_start b) (eb_end b) (eb_rest b)) = Inr es" "acc1 = acc @ es"
      by (rule for_each_event_collected [OF acc1(1)])
    then show ?thesis using that [of es acc1] TxBatch acc1(2) by simp
  qed
  from Cons.IH [OF p(3)] obtain ess where "list_all2 (part_stands lk) ps ess" "acc' = acc1 @ concat ess" by blast
  then show ?case using p by (intro exI [of _ "es # ess"]) simp
qed simp

lemma tx_into_vec_iff: "tx_into_vec lk tx = Inr es \<longleftrightarrow> tx_stands lk tx es"
  using for_each_part_collected [of lk id "tx_parts tx" "[]" es] tx_into_vec_stands [of lk tx es]
  by (auto simp: tx_into_vec_def tx_for_each_def tx_stands_def)

lemma apply_each_replay: "apply_each (\<lambda>event (idx, g). case apply_event scan event g of
       (Some failure, g) \<Rightarrow> Inl (EventFailed idx failure) | (None, g) \<Rightarrow> Inr (idx + 1, g)) es (idx, g) =
    (case replay_from scan idx es g of
       (Some (i, failure), _) \<Rightarrow> Inl (EventFailed i failure) | (None, g) \<Rightarrow> Inr (idx + length es, g))"
  by (induction es arbitrary: idx g) (auto split: prod.split option.split)

lemma replay_tx_eq:
  assumes "tx_into_vec lk tx = Inr es"
  shows "replay_tx scan lk idx tx g = (case replay_from scan idx es g of
    (Some (i, failure), _) \<Rightarrow> Inl (EventFailed i failure) | (None, g) \<Rightarrow> Inr g)"
proof -
  obtain ess where "list_all2 (part_stands lk) (tx_parts tx) ess" "es = concat ess"
    using assms by (auto simp: tx_into_vec_iff tx_stands_def)
  then show ?thesis
    by (simp add: replay_tx_def tx_for_each_def for_each_part_stands apply_each_replay split: prod.split option.split)
qed

lemma replay_tx_cases:
  assumes "tx_into_vec lk tx = Inr es"
  obtains (applied) g' where "replay_tx scan lk idx tx g = Inr g'" "rebuilds scan g es g'"
  | (refused) e where "replay_tx scan lk idx tx g = Inl e" "\<And>g'. \<not> rebuilds scan g es g'"
proof (cases "replay_from scan idx es g")
  case (Pair failure g')
  then have "rebuilds scan g es h \<longleftrightarrow> failure = None \<and> h = g'" for h
    using replay_from_index [of scan 0 es g h idx] by (auto simp: rebuilds_def replay_into_def)
  then show ?thesis using Pair replay_tx_eq [OF assms, of scan idx g] that by (cases failure) auto
qed

section \<open>In lockstep with the collecting sink\<close>

text \<open>
  The graph is the one that the collected events rebuild, and the saved graph the one before the
  provisional ones; a failure means that the collected events do not apply.
\<close>

definition mirrors :: "data_scan \<Rightarrow> graph \<Rightarrow> collect_events \<Rightarrow> graph_sink \<Rightarrow> bool" where
  "mirrors scan g0 c s \<longleftrightarrow>
     (if gs_failure s = None then rebuilds scan g0 (ce_events c) (gs_graph s)
      else ce_provisional_from c \<noteq> None \<and> (\<forall>g. \<not> rebuilds scan g0 (ce_events c) g)) \<and>
     (case ce_provisional_from c of
        None \<Rightarrow> gs_before s = None
      | Some n \<Rightarrow> n \<le> length (ce_events c) \<and> (\<exists>g k. gs_before s = Some (g, k) \<and> rebuilds scan g0 (take n (ce_events c)) g))"

text \<open>The events that stay whatever comes do not apply.\<close>

definition standing_events :: "collect_events \<Rightarrow> mutation_event list" where
  "standing_events c = (case ce_provisional_from c of None \<Rightarrow> ce_events c | Some n \<Rightarrow> take n (ce_events c))"

definition hopeless :: "data_scan \<Rightarrow> graph \<Rightarrow> collect_events \<Rightarrow> bool" where
  "hopeless scan g0 c \<longleftrightarrow> (\<forall>g. \<not> rebuilds scan g0 (standing_events c) g)"

lemma standing_grows:
  assumes "collect_step lk step c = Inr c'"
  obtains es where "standing_events c' = standing_events c @ es"
proof (cases step)
  case (StepCommit tx)
  then obtain es where "c' = c\<lparr>ce_events := ce_events c @ es, ce_provisional_from := None\<rparr>"
    using assms by (auto simp: collect_step_def ebind_def split: sum.splits)
  then have "\<exists>es. standing_events c' = standing_events c @ es"
    by (auto simp: standing_events_def split: option.split) (metis append_assoc append_take_drop_id)
  then show ?thesis using that by blast
next
  case (StepPartial tx)
  then have "\<exists>es. standing_events c' = standing_events c @ es"
    using assms by (auto simp: collect_step_def ebind_def standing_events_def Let_def split: sum.splits option.splits)
  then show ?thesis using that by blast
next
  case StepDiscard
  then have "standing_events c' = standing_events c @ []"
    using assms by (auto simp: collect_step_def standing_events_def split: option.splits)
  then show ?thesis by (rule that)
qed

lemma hopeless_stays: "keeps_dead (hopeless scan g0) (hopeless scan g0) (collect_step lk step)"
  unfolding keeps_dead_def
proof (intro allI impI)
  fix c c' assume h: "hopeless scan g0 c" and run: "collect_step lk step c = Inr c'"
  obtain es where "standing_events c' = standing_events c @ es" by (rule standing_grows [OF run])
  then show "hopeless scan g0 c'" using h by (auto simp: hopeless_def rebuilds_append)
qed

lemma partial_in_step:
  assumes m: "mirrors scan g0 c s" and es: "tx_into_vec lk tx = Inr es"
  obtains c' s' where "collect_step lk (StepPartial tx) c = Inr c'" "graph_sink_step scan lk (StepPartial tx) s = Inr s'"
    "mirrors scan g0 c' s'"
proof -
  define b where "b = (if gs_before s = None then s\<lparr>gs_before := Some (gs_graph s, gs_applied s)\<rparr> else s)"
  define n where "n = (case ce_provisional_from c of None \<Rightarrow> length (ce_events c) | Some n \<Rightarrow> n)"
  let ?c = "c\<lparr>ce_provisional_from := Some n, ce_events := ce_events c @ es\<rparr>"
  have c: "collect_step lk (StepPartial tx) c = Inr ?c"
    using es by (cases "ce_provisional_from c") (simp_all add: collect_step_def Let_def n_def)
  have before: "n \<le> length (ce_events c)" "\<exists>g k. gs_before b = Some (g, k) \<and> rebuilds scan g0 (take n (ce_events c)) g"
    using m by (auto simp: mirrors_def b_def n_def split: option.splits if_splits)
  have b: "gs_failure b = gs_failure s" "gs_graph b = gs_graph s" "gs_applied b = gs_applied s" by (simp_all add: b_def)
  have step: "graph_sink_step scan lk (StepPartial tx) s = (if gs_failure s = None
      then (case replay_tx scan lk (gs_applied s) tx (gs_graph s) of
          Inr g \<Rightarrow> Inr (b\<lparr>gs_graph := g, gs_applied := gs_applied s + tx_len tx\<rparr>) | Inl e \<Rightarrow> Inr (b\<lparr>gs_failure := Some e\<rparr>))
      else Inr b)"
    by (simp only: graph_sink_step_def Let_def replay_step.case b b_def [symmetric])
  show ?thesis
  proof (cases "gs_failure s")
    case (Some e)
    then have "\<not> rebuilds scan g0 (ce_events c @ es) g" for g using m by (auto simp: mirrors_def rebuilds_append)
    then have "mirrors scan g0 ?c b" using before Some by (simp add: mirrors_def b)
    then show ?thesis using that c Some step by simp
  next
    case None
    then have g: "rebuilds scan g0 (ce_events c) (gs_graph s)" using m by (simp add: mirrors_def)
    from es show ?thesis
    proof (cases rule: replay_tx_cases [where scan = scan and idx = "gs_applied s" and g = "gs_graph s"])
      case (applied g')
      have "mirrors scan g0 ?c (b\<lparr>gs_graph := g', gs_applied := gs_applied s + tx_len tx\<rparr>)"
        using before None g applied(2) by (auto simp: mirrors_def rebuilds_append b)
      then show ?thesis using that c None applied(1) step by simp
    next
      case (refused e)
      have "\<not> rebuilds scan g0 (ce_events c @ es) h" for h
        using refused(2) rebuilds_unique [OF g] by (auto simp: rebuilds_append)
      then have "mirrors scan g0 ?c (b\<lparr>gs_failure := Some e\<rparr>)" using before by (simp add: mirrors_def)
      then show ?thesis using that c None refused(1) step by simp
    qed
  qed
qed

lemma commit_in_step:
  assumes m: "mirrors scan g0 c s"
  shows "follows (mirrors scan g0) (hopeless scan g0) (collect_step lk (StepCommit tx) c) (graph_sink_step scan lk (StepCommit tx) s)"
proof (cases "tx_into_vec lk tx")
  case (Inr es)
  let ?c = "c\<lparr>ce_events := ce_events c @ es, ce_provisional_from := None\<rparr>"
  have c: "collect_step lk (StepCommit tx) c = Inr ?c" using Inr by (simp add: collect_step_def)
  show ?thesis
  proof (cases "gs_failure s")
    case (Some e)
    then have "hopeless scan g0 ?c" using m by (auto simp: mirrors_def hopeless_def standing_events_def rebuilds_append)
    then show ?thesis using c Some by (simp add: follows_def graph_sink_step_def Let_def)
  next
    case None
    then have g: "rebuilds scan g0 (ce_events c) (gs_graph s)" using m by (simp add: mirrors_def)
    from Inr show ?thesis
    proof (cases rule: replay_tx_cases [where scan = scan and idx = "gs_applied s" and g = "gs_graph s"])
      case (applied g')
      then have "mirrors scan g0 ?c (s\<lparr>gs_before := None, gs_graph := g', gs_applied := gs_applied s + tx_len tx\<rparr>)"
        using None g by (auto simp: mirrors_def rebuilds_append)
      then show ?thesis using c None applied(1) by (simp add: follows_def graph_sink_step_def Let_def)
    next
      case (refused e)
      then have "hopeless scan g0 ?c"
        using rebuilds_unique [OF g] by (auto simp: hopeless_def standing_events_def rebuilds_append)
      then show ?thesis using c None refused(1) by (simp add: follows_def graph_sink_step_def Let_def)
    qed
  qed
qed (simp add: follows_def collect_step_def)

lemma discard_in_step:
  assumes "mirrors scan g0 c s"
  shows "follows (mirrors scan g0) (hopeless scan g0) (collect_step lk StepDiscard c) (graph_sink_step scan lk StepDiscard s)"
  using assms by (auto simp: mirrors_def follows_def collect_step_def graph_sink_step_def Let_def split: option.splits if_splits)

interpretation into_graph: lockstep "collect_step look" "graph_sink_step scan look" "mirrors scan g0" "hopeless scan g0"
  for look scan g0
proof unfold_locales
  fix c s step
  assume m: "mirrors scan g0 c s"
  show "follows (mirrors scan g0) (hopeless scan g0) (collect_step look step c) (graph_sink_step scan look step s)"
  proof (cases step)
    case (StepPartial tx)
    show ?thesis
    proof (cases "tx_into_vec look tx")
      case (Inr es)
      obtain c' s' where "collect_step look (StepPartial tx) c = Inr c'" "graph_sink_step scan look (StepPartial tx) s = Inr s'"
        "mirrors scan g0 c' s'" by (rule partial_in_step [OF m Inr])
      then show ?thesis by (simp add: StepPartial follows_def)
    qed (simp add: StepPartial follows_def collect_step_def Let_def)
  qed (simp_all add: commit_in_step [OF m] discard_in_step [OF m])
next
  show "keeps_dead (hopeless scan g0) (hopeless scan g0) (collect_step look step)" for step by (rule hopeless_stays)
qed

section \<open>Opening into a graph\<close>

lemma replay_settles:
  assumes "replay_segments crc lk (collect_step lk) paths fence flag collect_default = Inr (out, c)"
  shows "ce_provisional_from c = None"
proof -
  from assms obtain torn corrupt lg st where
    loop: "replay_loop crc lk (collect_step lk) fence flag 0 (map snd paths) SEGMENT_HEADER_LEN
        (replay_state_new collect_default) = Inr (torn, corrupt, lg, st)"
    and fin: "finish_sink (collect_step lk) st = Inr c"
    by (auto simp: replay_segments_def)
  from replay_loop_ok [OF replay_ok_new loop] finish_ok fin show ?thesis by fastforce
qed

lemma open_settles:
  assumes "open_replaying_with crc lk (collect_step lk) files fence flag collect_default = Inr (wal, cut_at, c)"
  shows "ce_provisional_from c = None"
proof (cases "discard_unborn_segment crc files = []")
  case True
  then have "c = collect_default" using assms by (auto simp: open_replaying_with_def Let_def)
  then show ?thesis by (simp add: collect_default_def)
next
  case False
  then obtain out where "replay_segments crc lk (collect_step lk) (discard_unborn_segment crc files) fence flag
      collect_default = Inr (out, c)"
    using assms by (auto simp: open_replaying_with_def open_existing_def Let_def split: if_splits prod.splits)
  then show ?thesis by (rule replay_settles)
qed

lemma open_into_rebuilds:
  assumes "open_replaying_with crc lk (collect_step lk) files fence flag collect_default = Inr (wal, cut_at, c)"
  shows "case replay_into scan (ce_events c) g of
      (None, g') \<Rightarrow> open_wal_into scan crc lk files fence flag g = Inr (wal, g')
    | (Some _, _) \<Rightarrow> \<exists>e. open_wal_into scan crc lk files fence flag g = Inl e"
proof -
  have new: "mirrors scan g collect_default (graph_sink_new g)"
    by (simp add: mirrors_def collect_default_def graph_sink_new_def)
  note settled = open_settles [OF assms]
  from into_graph.open_both [OF new, where look = lk and lk = lk and crc = crc and files = files and fence = fence and flag = flag] assms consider
    (same) s where "open_replaying_with crc lk (graph_sink_step scan lk) files fence flag (graph_sink_new g) = Inr (wal, cut_at, s)"
      "mirrors scan g c s"
    | (refused) e where "open_replaying_with crc lk (graph_sink_step scan lk) files fence flag (graph_sink_new g) = Inl e"
      "hopeless scan g c"
    by (auto simp: follows_def)
  then show ?thesis
  proof cases
    case same
    then have "rebuilds scan g (ce_events c) (gs_graph s)" using settled by (simp add: mirrors_def split: if_splits)
    then show ?thesis using same(1) by (simp add: rebuilds_def open_wal_into_def)
  next
    case refused
    then have "fst (replay_into scan (ce_events c) g) \<noteq> None"
      using settled by (auto simp: hopeless_def standing_events_def rebuilds_def prod_eq_iff)
    then show ?thesis using refused(1) by (auto simp: open_wal_into_def split: prod.split option.split)
  qed
qed

text \<open>
  C4. Opening a log into a graph, transaction by transaction, with the parts of a large transaction applied
  before its commit and taken back if it does not commit, is collecting the committed events first and
  applying them afterwards: the same handle and the same graph, and an error exactly when an event
  of the collected ones does not apply.
\<close>

theorem open_wal_into_applies_committed:
  assumes "open_replaying_with crc lk (collect_step lk) files fence flag collect_default = Inr (wal, cut_at, c)"
  shows "case replay_into scan (ce_events c) g of
      (None, g') \<Rightarrow> open_wal_into scan crc lk files fence flag g = Inr (wal, g')
    | (Some _, _) \<Rightarrow> \<exists>e. open_wal_into scan crc lk files fence flag g = Inl e"
  by (rule open_into_rebuilds [OF assms])

lemma wal_open_into:
  assumes "wal_open crc lk files fence = Inr (wal, es)" and "replay_into scan es g = (None, g')"
  shows "open_wal_into scan crc lk files fence False g = Inr (wal, g')"
proof -
  from assms(1) obtain cut_at c where
    "open_replaying_with crc lk (collect_step lk) files fence False collect_default = Inr (wal, cut_at, c)" "es = ce_events c"
    by (auto simp: wal_open_def)
  with open_into_rebuilds [OF this(1), of scan g] assms(2) show ?thesis by simp
qed

section \<open>A graph and its log after a crash\<close>

lemma replay_prefix:
  assumes "replay_into scan (es @ lost) g0 = (None, g)"
  obtains g' where "replay_into scan es g0 = (None, g')"
  using assms rebuilds_append [of scan g0 es lost g] by (auto simp: rebuilds_def)

text \<open>
  C2. A graph whose recorded events are the committed ones of its log survives a crash that keeps at least
  the synced bytes, under the conditions of the log's durability: a segment target above the segment header
  (32 bytes), a run whose snapshots fall between transactions and whose checkpoint markers are in order,
  and no valid frame inside a record that the crash tears (\<open>clean_tail\<close>). The directory then opens into an
  empty graph, which has applied a prefix of the committed events, none of them lost that a durable record
  holds; and when nothing is lost, it is the graph, its catalogs caught up. Logs outside these conditions
  may not open (\<open>Wal_Limits\<close>).
\<close>

theorem crash_recovers_graph:
  assumes "graph_reachable scan (Some []) g" and "reads_data scan"
    and "wal_run crc lk cfg (fresh_machine crc fence) m" and "lsn_checked_next fence = Some base"
    and "SEGMENT_HEADER_LEN < wc_segment_target_bytes cfg"
    and "ss_recorder (gr_schema g) = Some (committed_events crc lk (mc_fence m) (mc_wal m))"
    and "sw_synced (ws_active_writer (mc_wal m)) \<le> n"
    and "clean_tail crc (take n (sw_file (ws_active_writer (mc_wal m))))"
  shows "\<exists>wal r lost rest. open_wal_into scan crc lk (crash_image n (mc_wal m)) (mc_fence m) False (graph_default None) = Inr (wal, r) \<and>
    replay_into scan (committed_events crc lk (mc_fence m) wal) (graph_default None) = (None, r) \<and>
    committed_events crc lk (mc_fence m) (mc_wal m) = committed_events crc lk (mc_fence m) wal @ lost \<and>
    wal_records crc lk (mc_wal m) = wal_records crc lk wal @ rest \<and>
    (\<forall>r \<in> set rest. ws_durable_lsn (mc_wal m) < record_lsn r) \<and>
    (lost = [] \<longrightarrow> r = g\<lparr>gr_schema := gr_schema r\<rparr> \<and> caught_up (gr_schema g) (gr_schema r))"
proof -
  obtain wal rest lost where wal: "wal_open crc lk (crash_image n (mc_wal m)) (mc_fence m) =
      Inr (wal, committed_events crc lk (mc_fence m) wal)"
    "wal_records crc lk (mc_wal m) = wal_records crc lk wal @ rest"
    "\<forall>r \<in> set rest. ws_durable_lsn (mc_wal m) < record_lsn r"
    "committed_events crc lk (mc_fence m) (mc_wal m) = committed_events crc lk (mc_fence m) wal @ lost"
    using machine_crash [OF wal_run_ok [OF assms(3) fresh_machine_ok [OF assms(4)] assms(5)] assms(7,8)] by blast
  obtain live where live: "replay_into scan (committed_events crc lk (mc_fence m) (mc_wal m)) (graph_default None) = (None, live)"
    "replica g live"
    by (rule replay_recovers_reachable [OF assms(2,1)]) (use assms(6) in simp)
  then obtain r where r: "replay_into scan (committed_events crc lk (mc_fence m) wal) (graph_default None) = (None, r)"
    using replay_prefix wal(4) by metis
  have "lost = [] \<longrightarrow> r = live" using live(1) r wal(4) by (metis append_Nil2 prod.inject)
  then show ?thesis
    using wal_open_into [OF wal(1) r] r wal(2-4) live(2)
    by (intro exI [of _ wal] exI [of _ r] exI [of _ lost] exI [of _ rest]) (simp add: replica_def)
qed


section \<open>A concrete run\<close>

text \<open>One node, whose event one commit has written and one \<open>fsync\<close> has made durable.\<close>

definition one_node :: "mutation_event list option \<Rightarrow> graph" where
  "one_node recorder = snd (try_create_node [] [] (graph_default recorder))"

abbreviation no_scan :: data_scan where
  "no_scan \<equiv> \<lambda>_ _. None"

lemma one_node_reachable: "graph_reachable scan recorder (one_node recorder)"
  unfolding one_node_def
  by (rule graph_reachable.step [OF graph_reachable.start graph_step.create_node]) simp

lemma one_node_recorded: "ss_recorder (gr_schema (one_node (Some []))) = Some [CreateNode 0 [] []]"
  by (simp add: one_node_def create_defs)

lemma create_event_ok: "event_fits (CreateNode 0 [] [])" "wf_event lk (CreateNode 0 [] [])"
  by (simp_all add: event_fits_def encoded_batch_event_len_def size_tag_def size_u64_def add_size_def
      checked_add_def usize_limit_def MAX_RECORD_LEN_def size_string_vec_def size_properties_def size_len_def
      wf_properties_def)

lemma sample_synced:
  obtains m st' n where "wal_run sample_crc sample_lk sample_config (fresh_machine sample_crc 0) m"
    and "machine_ok sample_crc sample_lk m" and "mc_fence m = 0"
    and "committed_events sample_crc sample_lk 0 (mc_wal m) = [CreateNode 0 [] []]"
    and "wal_force_fsync (mc_wal m) = (Inr (), st')" and "sw_synced (ws_active_writer st') \<le> n"
    and "clean_tail sample_crc (take n (sw_file (ws_active_writer st')))"
proof -
  obtain st where st: "wal_run sample_crc sample_lk sample_config (fresh_machine sample_crc 0)
      ((fresh_machine sample_crc 0)\<lparr>mc_wal := st\<rparr>)"
    "machine_ok sample_crc sample_lk ((fresh_machine sample_crc 0)\<lparr>mc_wal := st\<rparr>)"
    "\<not> ws_bg_failure st" "committed_events sample_crc sample_lk 0 st = [CreateNode 0 [] []]"
    using run_commits_one [OF create_event_ok] by blast
  let ?m = "(fresh_machine sample_crc 0)\<lparr>mc_wal := st\<rparr>"
  obtain st' where run: "wal_force_fsync (mc_wal ?m) = (Inr (), st')" using force_fsync_healthy st(3) by auto
  obtain v where v: "lv_state v = mc_wal ?m" "durable_view sample_crc sample_lk (mc_fence ?m) v"
    using st(2) by (auto simp: machine_ok_def)
  obtain v' where v': "lv_state v' = st'" "durable_view sample_crc sample_lk (mc_fence ?m) v'"
    using force_fsync_view [OF _ v(2)] run v(1) by metis
  let ?n = "length (sw_file (ws_active_writer st'))"
  have "clean_tail sample_crc (take ?n (sw_file (ws_active_writer st')))"
    using whole_image_clean [of sample_crc sample_lk "mc_fence ?m" v' ?n] v' by (simp add: durable_view_def)
  moreover have "sw_synced (ws_active_writer st') \<le> ?n" using v' by (auto simp: durable_view_def wal_log_def Let_def)
  ultimately show ?thesis using that [OF st(1,2) _ _ run] st(4) by (simp add: fresh_machine_def)
qed

theorem open_wal_into_applies_committed_witness:
  "\<exists>files wal r. open_wal_into no_scan sample_crc sample_lk files 0 False (graph_default None) = Inr (wal, r)
    \<and> replay_into no_scan [CreateNode 0 [] []] (graph_default None) = (None, r)"
proof -
  obtain m st' n where m: "machine_ok sample_crc sample_lk m" "mc_fence m = 0"
    "committed_events sample_crc sample_lk 0 (mc_wal m) = [CreateNode 0 [] []]"
    "wal_force_fsync (mc_wal m) = (Inr (), st')" "sw_synced (ws_active_writer st') \<le> n"
    "clean_tail sample_crc (take n (sw_file (ws_active_writer st')))"
    by (rule sample_synced)
  obtain wal where "wal_open sample_crc sample_lk (crash_image n st') 0 = Inr (wal, [CreateNode 0 [] []])"
    using fsync_recovers [OF m(1,4-6)] m(2,3) by auto
  then obtain cut_at c where c: "open_replaying_with sample_crc sample_lk (collect_step sample_lk) (crash_image n st') 0 False
      collect_default = Inr (wal, cut_at, c)" "ce_events c = [CreateNode 0 [] []]"
    by (auto simp: wal_open_def)
  obtain r where "replay_into no_scan [CreateNode 0 [] []] (graph_default None) = (None, r)"
    using replay_recovers_reachable [OF _ one_node_reachable [of no_scan]] one_node_recorded
    by (auto simp: reads_data_def)
  with open_wal_into_applies_committed [OF c(1), of no_scan "graph_default None"] c(2) show ?thesis by auto
qed

theorem crash_recovers_graph_witness:
  "\<exists>(m :: machine) n wal r. open_wal_into no_scan sample_crc sample_lk (crash_image n (mc_wal m)) 0 False (graph_default None) = Inr (wal, r) \<and>
     committed_events sample_crc sample_lk 0 (mc_wal m) = [CreateNode 0 [] []] \<and>
     replay_into no_scan (committed_events sample_crc sample_lk 0 wal) (graph_default None) = (None, r)"
proof -
  obtain m where m: "wal_run sample_crc sample_lk sample_config (fresh_machine sample_crc 0) m" "machine_ok sample_crc sample_lk m"
    "mc_fence m = 0" "committed_events sample_crc sample_lk 0 (mc_wal m) = [CreateNode 0 [] []]"
    by (rule sample_synced)
  have "SEGMENT_HEADER_LEN < wc_segment_target_bytes sample_config"
    by (simp add: sample_config_def SEGMENT_HEADER_LEN_def)
  note run = crash_recovers_graph [OF one_node_reachable [of no_scan] _ m(1) lsn_next_0 this _
    machine_whole_image(2,1) [OF m(2) refl], unfolded m(3)]
  have data: "reads_data no_scan" by (simp add: reads_data_def)
  have events: "ss_recorder (gr_schema (one_node (Some []))) = Some (committed_events sample_crc sample_lk 0 (mc_wal m))"
    by (simp only: one_node_recorded m(4))
  obtain wal r where "open_wal_into no_scan sample_crc sample_lk
      (crash_image (length (sw_file (ws_active_writer (mc_wal m)))) (mc_wal m)) 0 False (graph_default None) = Inr (wal, r)"
    "replay_into no_scan (committed_events sample_crc sample_lk 0 wal) (graph_default None) = (None, r)"
    using run [OF data events] by blast
  then show ?thesis using m(4) by blast
qed


end
