(* ===== verification/Constraint_Values.thy ===== *)
theory Constraint_Values
  imports Schema_Catalog Property_Value
begin

text \<open>
  The values a constraint compares (\<open>crates/lora-store/src/memory/constraint_enforce.rs\<close>): equality of
  property values, the key string of a tuple of values, and the match of a value with a property type.
  What the standard library does with floats is a parameter: their text, the conversions to \<open>f64\<close>, and
  \<open>(a - b).abs()\<close>.
\<close>

record float_std =
  fs_debug :: "f64 \<Rightarrow> string"
  fs_of_f32 :: "f32 \<Rightarrow> f64"
  fs_of_int :: "int \<Rightarrow> f64"
  fs_distance :: "f64 \<Rightarrow> f64 \<Rightarrow> f64"

section \<open>Equality\<close>

text \<open>IEEE comparison on the bit patterns: NaN is not equal to itself, and the zeros are equal.\<close>

definition f64_nan :: "f64 \<Rightarrow> bool" where
  "f64_nan a \<longleftrightarrow> push_bit 1 a > 0xFFE0000000000000"

definition f64_eq :: "f64 \<Rightarrow> f64 \<Rightarrow> bool" where
  "f64_eq a b \<longleftrightarrow> \<not> f64_nan a \<and> \<not> f64_nan b \<and> (a = b \<or> push_bit 1 a = 0 \<and> push_bit 1 b = 0)"

definition f32_nan :: "f32 \<Rightarrow> bool" where
  "f32_nan a \<longleftrightarrow> push_bit 1 a > 0xFF000000"

definition f32_eq :: "f32 \<Rightarrow> f32 \<Rightarrow> bool" where
  "f32_eq a b \<longleftrightarrow> \<not> f32_nan a \<and> \<not> f32_nan b \<and> (a = b \<or> push_bit 1 a = 0 \<and> push_bit 1 b = 0)"

text \<open>\<open>f64::EPSILON\<close>; distances are not negative, so their bit patterns are ordered as they are.\<close>

definition F64_EPSILON :: f64 where
  "F64_EPSILON = 0x3CB0000000000000"

definition point_eq :: "float_std \<Rightarrow> lora_point \<Rightarrow> lora_point \<Rightarrow> bool" where
  "point_eq fs p q =
     (let far = (\<lambda>a b. \<not> f64_nan (fs_distance fs a b) \<and> fs_distance fs a b \<ge> F64_EPSILON);
          near = (\<lambda>a b. \<not> f64_nan (fs_distance fs a b) \<and> fs_distance fs a b < F64_EPSILON) in
      if pt_srid p \<noteq> pt_srid q then False
      else if far (pt_x p) (pt_x q) then False
      else if far (pt_y p) (pt_y q) then False
      else (case (pt_z p, pt_z q) of (None, None) \<Rightarrow> True | (Some a, Some b) \<Rightarrow> near a b | _ \<Rightarrow> False))"

definition binary_eq :: "lora_binary \<Rightarrow> lora_binary \<Rightarrow> bool" where
  "binary_eq a b \<longleftrightarrow> bin_len a = bin_len b \<and> concat (bin_segments a) = concat (bin_segments b)"

fun vector_values_eq :: "vector_values \<Rightarrow> vector_values \<Rightarrow> bool" where
  "vector_values_eq (Float64 a) (Float64 b) = list_all2 f64_eq a b"
| "vector_values_eq (Float32 a) (Float32 b) = list_all2 f32_eq a b"
| "vector_values_eq (Integer64 a) (Integer64 b) = (a = b)"
| "vector_values_eq (Integer32 a) (Integer32 b) = (a = b)"
| "vector_values_eq (Integer16 a) (Integer16 b) = (a = b)"
| "vector_values_eq (Integer8 a) (Integer8 b) = (a = b)"
| "vector_values_eq _ _ = False"

fun value_eq :: "float_std \<Rightarrow> property_value \<Rightarrow> property_value \<Rightarrow> bool" where
  "value_eq fs PvNull w = (w = PvNull)"
| "value_eq fs (PvBool a) w = (case w of PvBool b \<Rightarrow> a = b | _ \<Rightarrow> False)"
| "value_eq fs (PvInt a) w = (case w of PvInt b \<Rightarrow> a = b | _ \<Rightarrow> False)"
| "value_eq fs (PvFloat a) w = (case w of PvFloat b \<Rightarrow> f64_eq a b | _ \<Rightarrow> False)"
| "value_eq fs (PvString a) w = (case w of PvString b \<Rightarrow> a = b | _ \<Rightarrow> False)"
| "value_eq fs (PvBinary a) w = (case w of PvBinary b \<Rightarrow> binary_eq a b | _ \<Rightarrow> False)"
| "value_eq fs (PvList as) w = (case w of PvList bs \<Rightarrow> list_all2 (value_eq fs) as bs | _ \<Rightarrow> False)"
| "value_eq fs (PvMap as) w = (case w of PvMap bs \<Rightarrow> list_all2 (\<lambda>(j, v) (k, w). j = k \<and> value_eq fs v w) as bs | _ \<Rightarrow> False)"
| "value_eq fs (PvDate a) w = (case w of PvDate b \<Rightarrow> a = b | _ \<Rightarrow> False)"
| "value_eq fs (PvTime a) w = (case w of PvTime b \<Rightarrow> a = b | _ \<Rightarrow> False)"
| "value_eq fs (PvLocalTime a) w = (case w of PvLocalTime b \<Rightarrow> a = b | _ \<Rightarrow> False)"
| "value_eq fs (PvDateTime a) w = (case w of PvDateTime b \<Rightarrow> a = b | _ \<Rightarrow> False)"
| "value_eq fs (PvLocalDateTime a) w = (case w of PvLocalDateTime b \<Rightarrow> a = b | _ \<Rightarrow> False)"
| "value_eq fs (PvDuration a) w = (case w of PvDuration b \<Rightarrow> a = b | _ \<Rightarrow> False)"
| "value_eq fs (PvPoint a) w = (case w of PvPoint b \<Rightarrow> point_eq fs a b | _ \<Rightarrow> False)"
| "value_eq fs (PvVector a) w = (case w of
       PvVector b \<Rightarrow> vec_dimension a = vec_dimension b \<and> vector_values_eq (vec_values a) (vec_values b) | _ \<Rightarrow> False)"

section \<open>Text\<close>

definition decimal_int :: "int \<Rightarrow> string" where
  "decimal_int i = (if i < 0 then ''-'' @ decimal (nat (- i)) else decimal (nat i))"

text \<open>\<open>{:?}\<close> of a struct and of an option, as \<open>derive(Debug)\<close> prints them.\<close>

definition debug_struct :: "string \<Rightarrow> (string \<times> string) list \<Rightarrow> string" where
  "debug_struct name entries =
     name @ '' { '' @ join (map (\<lambda>(k, v). k @ '': '' @ v) entries) '', '' @ '' }''"

definition debug_option :: "string option \<Rightarrow> string" where
  "debug_option v = (case v of None \<Rightarrow> ''None'' | Some s \<Rightarrow> ''Some('' @ s @ '')'')"

definition debug_u32 :: "u32 \<Rightarrow> string" where
  "debug_u32 w = decimal (unat w)"

definition debug_i32 :: "i32 \<Rightarrow> string" where
  "debug_i32 w = decimal_int (sint w)"

definition debug_i64 :: "i64 \<Rightarrow> string" where
  "debug_i64 w = decimal_int (sint w)"

definition debug_date :: "lora_date \<Rightarrow> string" where
  "debug_date d = debug_struct ''LoraDate'' [(''year'', debug_i32 (date_year d)), (''month'', debug_u32 (date_month d)),
     (''day'', debug_u32 (date_day d))]"

definition debug_time :: "lora_time \<Rightarrow> string" where
  "debug_time t = debug_struct ''LoraTime'' [(''hour'', debug_u32 (time_hour t)), (''minute'', debug_u32 (time_minute t)),
     (''second'', debug_u32 (time_second t)), (''nanosecond'', debug_u32 (time_nanosecond t)),
     (''offset_seconds'', debug_i32 (time_offset_seconds t))]"

definition debug_local_time :: "lora_local_time \<Rightarrow> string" where
  "debug_local_time t = debug_struct ''LoraLocalTime'' [(''hour'', debug_u32 (lt_hour t)),
     (''minute'', debug_u32 (lt_minute t)), (''second'', debug_u32 (lt_second t)),
     (''nanosecond'', debug_u32 (lt_nanosecond t))]"

definition debug_date_time :: "lora_date_time \<Rightarrow> string" where
  "debug_date_time d = debug_struct ''LoraDateTime'' [(''year'', debug_i32 (dt_year d)), (''month'', debug_u32 (dt_month d)),
     (''day'', debug_u32 (dt_day d)), (''hour'', debug_u32 (dt_hour d)), (''minute'', debug_u32 (dt_minute d)),
     (''second'', debug_u32 (dt_second d)), (''nanosecond'', debug_u32 (dt_nanosecond d)),
     (''offset_seconds'', debug_i32 (dt_offset_seconds d)),
     (''zone'', debug_option (map_option (\<lambda>z. ''ZoneId('' @ z @ '')'') (dt_zone d)))]"

definition debug_local_date_time :: "lora_local_date_time \<Rightarrow> string" where
  "debug_local_date_time d = debug_struct ''LoraLocalDateTime'' [(''year'', debug_i32 (ldt_year d)),
     (''month'', debug_u32 (ldt_month d)), (''day'', debug_u32 (ldt_day d)), (''hour'', debug_u32 (ldt_hour d)),
     (''minute'', debug_u32 (ldt_minute d)), (''second'', debug_u32 (ldt_second d)),
     (''nanosecond'', debug_u32 (ldt_nanosecond d))]"

definition debug_duration :: "lora_duration \<Rightarrow> string" where
  "debug_duration d = debug_struct ''LoraDuration'' [(''months'', debug_i64 (dur_months d)), (''days'', debug_i64 (dur_days d)),
     (''seconds'', debug_i64 (dur_seconds d)), (''nanoseconds'', debug_i64 (dur_nanoseconds d))]"

definition debug_point :: "float_std \<Rightarrow> lora_point \<Rightarrow> string" where
  "debug_point fs p = debug_struct ''LoraPoint'' [(''x'', fs_debug fs (pt_x p)), (''y'', fs_debug fs (pt_y p)),
     (''z'', debug_option (map_option (fs_debug fs) (pt_z p))), (''srid'', debug_u32 (pt_srid p))]"

fun coordinate_type_as_str :: "vector_values \<Rightarrow> string" where
  "coordinate_type_as_str (Float64 _) = ''FLOAT64''"
| "coordinate_type_as_str (Float32 _) = ''FLOAT32''"
| "coordinate_type_as_str (Integer64 _) = ''INTEGER''"
| "coordinate_type_as_str (Integer32 _) = ''INTEGER32''"
| "coordinate_type_as_str (Integer16 _) = ''INTEGER16''"
| "coordinate_type_as_str (Integer8 _) = ''INTEGER8''"

fun as_f64_vec :: "float_std \<Rightarrow> vector_values \<Rightarrow> f64 list" where
  "as_f64_vec fs (Float64 v) = v"
| "as_f64_vec fs (Float32 v) = map (fs_of_f32 fs) v"
| "as_f64_vec fs (Integer64 v) = map (\<lambda>x. fs_of_int fs (sint x)) v"
| "as_f64_vec fs (Integer32 v) = map (\<lambda>x. fs_of_int fs (sint x)) v"
| "as_f64_vec fs (Integer16 v) = map (\<lambda>x. fs_of_int fs (sint x)) v"
| "as_f64_vec fs (Integer8 v) = map (\<lambda>x. fs_of_int fs (sint x)) v"

definition to_key_string :: "float_std \<Rightarrow> lora_vector \<Rightarrow> string" where
  "to_key_string fs v = coordinate_type_as_str (vec_values v) @ ''|'' @ decimal (vec_dimension v) @ ''|''
     @ join (map (fs_debug fs) (as_f64_vec fs (vec_values v))) '',''"

section \<open>The key of a tuple\<close>

text \<open>What \<open>append_property_value_key\<close> appends.\<close>

definition len_key :: "nat \<Rightarrow> string" where
  "len_key n = decimal n @ '':''"

definition str_key :: "string \<Rightarrow> string" where
  "str_key s = len_key (length s) @ s"

definition hex_byte :: "u8 \<Rightarrow> string" where
  "hex_byte b = (let hex = (\<lambda>d. if d < 10 then digit d else char_of (87 + d)) in
     [hex (unat b div 16), hex (unat b mod 16)])"

fun value_key :: "float_std \<Rightarrow> property_value \<Rightarrow> string" where
  "value_key fs PvNull = ''N''"
| "value_key fs (PvBool b) = ''B'' @ (if b then ''T'' else ''F'')"
| "value_key fs (PvInt i) = ''I'' @ debug_i64 i"
| "value_key fs (PvFloat f) = ''F'' @ fs_debug fs f"
| "value_key fs (PvString s) = ''S'' @ str_key s"
| "value_key fs (PvDate d) = ''D:'' @ str_key (debug_date d)"
| "value_key fs (PvTime t) = ''T:'' @ str_key (debug_time t)"
| "value_key fs (PvLocalTime t) = ''LT:'' @ str_key (debug_local_time t)"
| "value_key fs (PvDateTime d) = ''DT:'' @ str_key (debug_date_time d)"
| "value_key fs (PvLocalDateTime d) = ''LDT:'' @ str_key (debug_local_date_time d)"
| "value_key fs (PvDuration d) = ''DUR:'' @ str_key (debug_duration d)"
| "value_key fs (PvPoint p) = ''P:'' @ str_key (debug_point fs p)"
| "value_key fs (PvVector v) = ''V:'' @ str_key (to_key_string fs v)"
| "value_key fs (PvList vs) = ''L'' @ len_key (length vs) @ concat (map (value_key fs) vs)"
| "value_key fs (PvMap kvs) = ''M'' @ len_key (length kvs) @ concat (map (\<lambda>(k, v). str_key k @ value_key fs v) kvs)"
| "value_key fs (PvBinary b) = ''BIN:'' @ len_key (bin_len b) @ concat (map hex_byte (concat (bin_segments b)))"

text \<open>The same for a stored value read in place (\<open>append_value_ref_key\<close>): a scalar is not copied first.\<close>

fun value_ref_key :: "float_std \<Rightarrow> property_value \<Rightarrow> string" where
  "value_ref_key fs PvNull = ''N''"
| "value_ref_key fs (PvBool b) = ''B'' @ (if b then ''T'' else ''F'')"
| "value_ref_key fs (PvInt i) = ''I'' @ debug_i64 i"
| "value_ref_key fs (PvFloat f) = ''F'' @ fs_debug fs f"
| "value_ref_key fs (PvString s) = ''S'' @ str_key s"
| "value_ref_key fs other = value_key fs other"

lemma value_ref_key_eq: "value_ref_key fs v = value_key fs v"
  by (cases v) simp_all

section \<open>Property types\<close>

definition value_matches_scalar :: "property_value \<Rightarrow> stored_scalar_type \<Rightarrow> bool" where
  "value_matches_scalar v scalar = (case v of
      PvBool _ \<Rightarrow> scalar = ScBoolean
   |  PvString _ \<Rightarrow> scalar = ScString
   |  PvInt _ \<Rightarrow> scalar = ScInteger
   |  PvFloat _ \<Rightarrow> scalar = ScFloat
   |  PvDate _ \<Rightarrow> scalar = ScDate
   |  PvTime _ \<Rightarrow> scalar = ScZonedTime
   |  PvLocalTime _ \<Rightarrow> scalar = ScLocalTime
   |  PvDateTime _ \<Rightarrow> scalar = ScZonedDateTime
   |  PvLocalDateTime _ \<Rightarrow> scalar = ScLocalDateTime
   |  PvDuration _ \<Rightarrow> scalar = ScDuration
   |  PvPoint _ \<Rightarrow> scalar = ScPoint
   | _ \<Rightarrow> False)"

definition vector_matches :: "lora_vector \<Rightarrow> stored_vector_coord_type \<Rightarrow> u32 \<Rightarrow> bool" where
  "vector_matches v coord dimension =
     (if vec_dimension v \<noteq> unat dimension then False
      else (case (vec_values v, coord) of
          (Float64 _, CoordFloat64) \<Rightarrow> True | (Float32 _, CoordFloat32) \<Rightarrow> True
        | (Integer64 _, CoordInt64) \<Rightarrow> True | (Integer32 _, CoordInt32) \<Rightarrow> True
        | (Integer16 _, CoordInt16) \<Rightarrow> True | (Integer8 _, CoordInt8) \<Rightarrow> True
        | _ \<Rightarrow> False))"

fun value_matches_term :: "property_value \<Rightarrow> stored_property_type_term \<Rightarrow> bool" where
  "value_matches_term v (TermScalar scalar) = value_matches_scalar v scalar"
| "value_matches_term v (TermList inner not_null) = (case v of
      PvList items \<Rightarrow> list_all (\<lambda>item. if item = PvNull then \<not> not_null else value_matches_term item inner) items
    | _ \<Rightarrow> False)"
| "value_matches_term v (TermVector coord dimension) = (case v of
      PvVector vec \<Rightarrow> vector_matches vec coord dimension | _ \<Rightarrow> False)"

definition value_matches_property_type :: "property_value \<Rightarrow> stored_property_type \<Rightarrow> bool" where
  "value_matches_property_type v target \<longleftrightarrow> list_ex (value_matches_term v) (alternatives target)"

text \<open>The names of types (\<open>Display\<close>).\<close>

fun scalar_type_as_str :: "stored_scalar_type \<Rightarrow> string" where
  "scalar_type_as_str ScBoolean = ''BOOLEAN''"
| "scalar_type_as_str ScString = ''STRING''"
| "scalar_type_as_str ScInteger = ''INTEGER''"
| "scalar_type_as_str ScFloat = ''FLOAT''"
| "scalar_type_as_str ScDate = ''DATE''"
| "scalar_type_as_str ScLocalTime = ''LOCAL TIME''"
| "scalar_type_as_str ScZonedTime = ''ZONED TIME''"
| "scalar_type_as_str ScLocalDateTime = ''LOCAL DATETIME''"
| "scalar_type_as_str ScZonedDateTime = ''ZONED DATETIME''"
| "scalar_type_as_str ScDuration = ''DURATION''"
| "scalar_type_as_str ScPoint = ''POINT''"
| "scalar_type_as_str ScMap = ''MAP''"
| "scalar_type_as_str ScAny = ''ANY''"

fun coord_type_as_str :: "stored_vector_coord_type \<Rightarrow> string" where
  "coord_type_as_str CoordInt8 = ''INT8''"
| "coord_type_as_str CoordInt16 = ''INT16''"
| "coord_type_as_str CoordInt32 = ''INT32''"
| "coord_type_as_str CoordInt64 = ''INT64''"
| "coord_type_as_str CoordFloat32 = ''FLOAT32''"
| "coord_type_as_str CoordFloat64 = ''FLOAT64''"

fun display_term :: "stored_property_type_term \<Rightarrow> string" where
  "display_term (TermScalar scalar) = scalar_type_as_str scalar"
| "display_term (TermList inner not_null) =
     (if not_null then ''LIST<'' @ display_term inner @ '' NOT NULL>'' else ''LIST<'' @ display_term inner @ ''>'')"
| "display_term (TermVector coord dimension) = ''VECTOR<'' @ coord_type_as_str coord @ ''>('' @ debug_u32 dimension @ '')''"

definition display_property_type :: "stored_property_type \<Rightarrow> string" where
  "display_property_type t = join (map display_term (alternatives t)) '' | ''"

end
