(* ===== verification/Constraint_Check.thy ===== *)
theory Constraint_Check
  imports Constraint_Values Graph_Reads "HOL-Library.Product_Lexorder"
begin

text \<open>
  Constraint enforcement (\<open>crates/lora-store/src/memory/constraint_enforce.rs\<close>): the scan of the data
  that a new constraint must pass, the checks a mutation must pass before it is made, and the entry
  points of the store for them (\<open>memory/impls.rs\<close>).
\<close>

section \<open>Violations\<close>

datatype constraint_violation =
    MissingProperty string stored_index_entity string string
  | MissingPropertiesForKey string stored_index_entity string "string list"
  | WrongPropertyType string stored_index_entity string string string
  | UniquenessViolated string stored_index_entity string string

fun violation_status :: "constraint_violation \<Rightarrow> string" where
  "violation_status (MissingProperty _ _ _ _) = ''22N77''"
| "violation_status (MissingPropertiesForKey _ _ _ _) = ''22N77''"
| "violation_status (WrongPropertyType _ _ _ _ _) = ''22N78''"
| "violation_status (UniquenessViolated _ _ _ _) = ''22N79''"

fun constraint_name :: "constraint_violation \<Rightarrow> string" where
  "constraint_name (MissingProperty c _ _ _) = c"
| "constraint_name (MissingPropertiesForKey c _ _ _) = c"
| "constraint_name (WrongPropertyType c _ _ _ _) = c"
| "constraint_name (UniquenessViolated c _ _ _) = c"

fun entity_kind_label :: "stored_index_entity \<Rightarrow> string \<Rightarrow> string" where
  "entity_kind_label Node label = ''NODE with label `'' @ label @ ''`''"
| "entity_kind_label Relationship label = ''RELATIONSHIP with type `'' @ label @ ''`''"

fun violation_message :: "constraint_violation \<Rightarrow> string" where
  "violation_message (MissingProperty _ entity label property) =
     ''[22N77] property presence verification failed. '' @ entity_kind_label entity label
     @ '' must have the property `'' @ property @ ''`''"
| "violation_message (MissingPropertiesForKey _ entity label properties) =
     ''[22N77] property presence verification failed. '' @ entity_kind_label entity label
     @ '' must have the properties: '' @ join properties '', ''"
| "violation_message (WrongPropertyType _ entity label property expected) =
     ''[22N78] property type verification failed. '' @ entity_kind_label entity label
     @ '' must have property `'' @ property @ ''` with value type '' @ expected"
| "violation_message (UniquenessViolated _ entity label property) =
     ''[22N79] property uniqueness constraint violated. '' @ entity_kind_label entity label
     @ '' already has property `'' @ property @ ''` with the supplied value''"

definition uniqueness_violation :: "constraint_definition \<Rightarrow> constraint_violation" where
  "uniqueness_violation def = UniquenessViolated (cdef_name def) (cdef_entity def) (cdef_label def)
     (case cdef_properties def of [p] \<Rightarrow> p | ps \<Rightarrow> join ps '', '')"

definition missing_property_violation :: "constraint_definition \<Rightarrow> string \<Rightarrow> constraint_violation" where
  "missing_property_violation def property =
     (if length (cdef_properties def) = 1
      then MissingProperty (cdef_name def) (cdef_entity def) (cdef_label def) property
      else MissingPropertiesForKey (cdef_name def) (cdef_entity def) (cdef_label def) (cdef_properties def))"

definition wrong_type :: "constraint_definition \<Rightarrow> string \<Rightarrow> stored_property_type \<Rightarrow> constraint_violation" where
  "wrong_type def key target = WrongPropertyType (cdef_name def) (cdef_entity def) (cdef_label def) key
     (display_property_type target)"

section \<open>One record\<close>

text \<open>A type constraint covers one property, by the grammar; for none the code would panic.\<close>

definition validate_record_against_constraint :: "constraint_definition \<Rightarrow> properties \<Rightarrow> bool \<Rightarrow>
    constraint_violation + unit" where
  "validate_record_against_constraint def properties check_existence =
     ebind (if check_existence \<and> requires_existence (cdef_kind def)
          \<and> filter (\<lambda>p. map_of properties p = None) (cdef_properties def) \<noteq> []
        then Inl (if length (cdef_properties def) = 1
          then MissingProperty (cdef_name def) (cdef_entity def) (cdef_label def) (hd (cdef_properties def))
          else MissingPropertiesForKey (cdef_name def) (cdef_entity def) (cdef_label def) (cdef_properties def))
        else Inr ()) (\<lambda>_.
     case (cdef_kind def, cdef_properties def) of
       (PropertyType target, key # _) \<Rightarrow> (case map_of properties key of
           Some v \<Rightarrow> if value_matches_property_type v target then Inr () else Inl (wrong_type def key target)
         | None \<Rightarrow> Inr ())
     | _ \<Rightarrow> Inr ())"

definition single_key :: "constraint_definition \<Rightarrow> string option" where
  "single_key def = (case (cdef_kind def, cdef_properties def) of
      (PropertyType _, _) \<Rightarrow> None | (_, [key]) \<Rightarrow> Some key | _ \<Rightarrow> None)"

definition write_property_tuple_key :: "float_std \<Rightarrow> constraint_definition \<Rightarrow> properties \<Rightarrow> string" where
  "write_property_tuple_key fs def properties =
     join (map (\<lambda>key. case map_of properties key of Some v \<Rightarrow> value_key fs v | None \<Rightarrow> []) (cdef_properties def))
       [char_of (31 :: nat)]"

text \<open>The hash of a key string (\<open>KeyHasher\<close>) is a parameter: no verdict depends on its values.\<close>

type_synonym key_hash = "string \<Rightarrow> u64"

definition tuple_hash :: "float_std \<Rightarrow> key_hash \<Rightarrow> constraint_definition \<Rightarrow> properties \<Rightarrow> u64 option" where
  "tuple_hash fs hash def properties =
     (if \<not> requires_uniqueness (cdef_kind def)
        \<or> \<not> list_all (\<lambda>p. map_of properties p \<noteq> None) (cdef_properties def)
      then None else Some (hash (write_property_tuple_key fs def properties)))"

type_synonym checked = "constraint_violation + u64 option"

definition check_record :: "float_std \<Rightarrow> key_hash \<Rightarrow> constraint_definition \<Rightarrow> properties option \<Rightarrow> checked" where
  "check_record fs hash def properties = (case properties of
      None \<Rightarrow> Inr None
    | Some properties \<Rightarrow> ebind (validate_record_against_constraint def properties True) (\<lambda>_.
        Inr (tuple_hash fs hash def properties)))"

definition check_single :: "float_std \<Rightarrow> key_hash \<Rightarrow> constraint_definition \<Rightarrow> property_value option \<Rightarrow> checked" where
  "check_single fs hash def value = (case value of
      None \<Rightarrow> ebind (validate_record_against_constraint def [] True) (\<lambda>_. Inr None)
    | Some v \<Rightarrow>
        if \<not> requires_uniqueness (cdef_kind def) then Inr None
        else Inr (Some (hash (value_ref_key fs v))))"

text \<open>The constrained properties a record holds.\<close>

definition constrained_properties :: "string list \<Rightarrow> properties \<Rightarrow> properties" where
  "constrained_properties keys stored = fold (\<lambda>key ps. case map_of stored key of
      None \<Rightarrow> ps | Some v \<Rightarrow> btree_insert key v ps) keys []"

section \<open>The scan\<close>

definition SCAN_IDS :: nat where
  "SCAN_IDS = 2 ^ 16"

record scanned_range =
  sr_rejected :: "(u64 \<times> constraint_violation) option"
  sr_tuples :: "(u64 \<times> u64) list"

fun scan_ids :: "(u64 \<Rightarrow> checked) \<Rightarrow> u64 list \<Rightarrow> scanned_range" where
  "scan_ids check [] = \<lparr>sr_rejected = None, sr_tuples = []\<rparr>"
| "scan_ids check (i # is) = (case check i of
      Inl violation \<Rightarrow> \<lparr>sr_rejected = Some (i, violation), sr_tuples = []\<rparr>
    | Inr None \<Rightarrow> scan_ids check is
    | Inr (Some hash) \<Rightarrow> (let r = scan_ids check is in r\<lparr>sr_tuples := (hash, i) # sr_tuples r\<rparr>))"

definition scan_range :: "(u64 \<Rightarrow> checked) \<Rightarrow> u64 list \<Rightarrow> nat \<Rightarrow> scanned_range" where
  "scan_range check ids start =
     scan_ids check (takeWhile (\<lambda>i. unat i < start + SCAN_IDS) (dropWhile (\<lambda>i. unat i < start) ids))"

text \<open>\<open>chunk_by\<close> on the hash.\<close>

function chunk_by_hash :: "(u64 \<times> u64) list \<Rightarrow> (u64 \<times> u64) list list" where
  "chunk_by_hash [] = []"
| "chunk_by_hash (t # ts) =
     (t # takeWhile (\<lambda>s. fst s = fst t) ts) # chunk_by_hash (dropWhile (\<lambda>s. fst s = fst t) ts)"
  by pat_completeness auto

termination
  by (relation "measure length") (simp_all add: less_Suc_eq_le length_dropWhile_le)

text \<open>The first id of a run whose key an earlier one has.\<close>

fun first_in_run :: "(u64 \<Rightarrow> string) \<Rightarrow> string list \<Rightarrow> (u64 \<times> u64) list \<Rightarrow> u64 option" where
  "first_in_run key_of keys [] = None"
| "first_in_run key_of keys ((_, i) # run) =
     (if key_of i \<in> set keys then Some i else first_in_run key_of (keys @ [key_of i]) run)"

definition first_repeat :: "float_std \<Rightarrow> constraint_definition \<Rightarrow> (u64 \<times> u64) list \<Rightarrow> (u64 \<Rightarrow> properties option) \<Rightarrow>
    u64 option" where
  "first_repeat fs def tuples properties_of =
     (let key_of = (\<lambda>i. case properties_of i of None \<Rightarrow> [] | Some ps \<Rightarrow> write_property_tuple_key fs def ps);
          runs = filter (\<lambda>run. length run > 1) (chunk_by_hash (sort tuples))
      in fold (\<lambda>run first. case first_in_run key_of [] run of
          None \<Rightarrow> first
        | Some i \<Rightarrow> Some (case first of None \<Rightarrow> i | Some f \<Rightarrow> min f i)) runs None)"

fun earliest_rejection :: "scanned_range list \<Rightarrow> (u64 \<times> constraint_violation) option \<Rightarrow>
    (u64 \<times> constraint_violation) option" where
  "earliest_rejection [] rejected = rejected"
| "earliest_rejection (r # rs) rejected = earliest_rejection rs (case sr_rejected r of
      None \<Rightarrow> rejected
    | Some (i, violation) \<Rightarrow>
        if (case rejected of None \<Rightarrow> True | Some (first, _) \<Rightarrow> i < first) then Some (i, violation) else rejected)"

definition validate_scope :: "float_std \<Rightarrow> constraint_definition \<Rightarrow> u64 list \<Rightarrow> nat \<Rightarrow> (u64 \<Rightarrow> checked) \<Rightarrow>
    (u64 \<Rightarrow> properties option) \<Rightarrow> constraint_violation + unit" where
  "validate_scope fs def ids slots check properties_of =
     (let starts = map (\<lambda>k. k * SCAN_IDS) [0..<(slots + SCAN_IDS - 1) div SCAN_IDS];
          ranges = map (scan_range check ids) starts;
          rejected = earliest_rejection ranges None;
          tuples = concat (map sr_tuples ranges)
      in case (first_repeat fs def tuples properties_of, rejected) of
           (Some repeat, Some (first, violation)) \<Rightarrow>
             if repeat < first then Inl (uniqueness_violation def) else Inl violation
         | (None, Some (_, violation)) \<Rightarrow> Inl violation
         | (Some _, None) \<Rightarrow> Inl (uniqueness_violation def)
         | (None, None) \<Rightarrow> Inr ())"

definition validate_existing_nodes_for_constraint :: "float_std \<Rightarrow> key_hash \<Rightarrow> graph \<Rightarrow> constraint_definition \<Rightarrow>
    constraint_violation + unit" where
  "validate_existing_nodes_for_constraint fs hash g def = (case map_of (gr_nodes_by_label g) (cdef_label def) of
      None \<Rightarrow> Inr ()
    | Some ids \<Rightarrow>
        let properties_of = (\<lambda>i. map_option (\<lambda>n. constrained_properties (cdef_properties def) (nr_properties n)) (node_at g i));
            slots = length (gr_nodes g)
        in (case single_key def of
             Some key \<Rightarrow> validate_scope fs def ids slots (\<lambda>i. case node_at g i of
                 None \<Rightarrow> Inr None | Some n \<Rightarrow> check_single fs hash def (map_of (nr_properties n) key)) properties_of
           | None \<Rightarrow> validate_scope fs def ids slots (\<lambda>i. check_record fs hash def (properties_of i)) properties_of))"

definition validate_existing_rels_for_constraint :: "float_std \<Rightarrow> key_hash \<Rightarrow> graph \<Rightarrow> constraint_definition \<Rightarrow>
    constraint_violation + unit" where
  "validate_existing_rels_for_constraint fs hash g def = (case map_of (gr_rels_by_type g) (cdef_label def) of
      None \<Rightarrow> Inr ()
    | Some ids \<Rightarrow>
        let properties_of = (\<lambda>i. map_option (\<lambda>r. constrained_properties (cdef_properties def) (rr_properties r)) (rel_at g i));
            slots = length (gr_relationships g)
        in (case single_key def of
             Some key \<Rightarrow> validate_scope fs def ids slots (\<lambda>i. case rel_at g i of
                 None \<Rightarrow> Inr None | Some r \<Rightarrow> check_single fs hash def (map_of (rr_properties r) key)) properties_of
           | None \<Rightarrow> validate_scope fs def ids slots (\<lambda>i. check_record fs hash def (properties_of i)) properties_of))"

definition validate_existing_data_for_constraint :: "float_std \<Rightarrow> key_hash \<Rightarrow> graph \<Rightarrow> constraint_definition \<Rightarrow>
    constraint_violation + unit" where
  "validate_existing_data_for_constraint fs hash g def = (case cdef_entity def of
      Node \<Rightarrow> validate_existing_nodes_for_constraint fs hash g def
    | Relationship \<Rightarrow> validate_existing_rels_for_constraint fs hash g def)"

text \<open>The scan as \<open>register_constraint\<close> uses it, with the message of the violation.\<close>

definition existing_data_scan :: "float_std \<Rightarrow> key_hash \<Rightarrow> data_scan" where
  "existing_data_scan fs hash g def = (case validate_existing_data_for_constraint fs hash g def of
      Inl violation \<Rightarrow> Some (violation_message violation) | Inr () \<Rightarrow> None)"

end
