(* ===== verification/Constraint_Guard.thy ===== *)
theory Constraint_Guard
  imports Constraint_Check
begin

text \<open>
  The checks of a mutation before it is made (\<open>memory/constraint_enforce.rs\<close>) and the entry points of
  the store for them (\<open>memory/impls.rs\<close>). The lookup in a property index, which is not modelled, is a
  parameter: the ids it lists for a label, a key and a value, or \<open>None\<close> when no index answers.
\<close>

type_synonym index_lookup = "graph \<Rightarrow> string \<Rightarrow> string \<Rightarrow> property_value \<Rightarrow> u64 list option"

record check_env =
  env_float :: float_std
  env_node_ids :: index_lookup
  env_rel_ids :: index_lookup

section \<open>Uniqueness against the other records\<close>

definition constrained_tuple :: "constraint_definition \<Rightarrow> properties \<Rightarrow> property_value list option" where
  "constrained_tuple def properties = those (map (map_of properties) (cdef_properties def))"

definition constrained_tuple_after_set :: "constraint_definition \<Rightarrow> properties \<Rightarrow> string \<Rightarrow> property_value \<Rightarrow>
    property_value list option" where
  "constrained_tuple_after_set def properties key value =
     those (map (\<lambda>prop. if prop = key then Some value else map_of properties prop) (cdef_properties def))"

text \<open>The target has one value for each key.\<close>

definition tuple_matches :: "float_std \<Rightarrow> string list \<Rightarrow> property_value list \<Rightarrow> properties \<Rightarrow> bool" where
  "tuple_matches fs keys target properties \<longleftrightarrow>
     list_all (\<lambda>(key, t). case map_of properties key of Some v \<Rightarrow> value_eq fs v t | None \<Rightarrow> False) (zip keys target)"

definition indexed_candidates :: "index_lookup \<Rightarrow> graph \<Rightarrow> string \<Rightarrow> string list \<Rightarrow> property_value list \<Rightarrow> u64 list option" where
  "indexed_candidates lookup g label keys target = (case (keys, target) of
      (key # _, value # _) \<Rightarrow> lookup g label key value | _ \<Rightarrow> None)"

definition any_other_node_with_tuple :: "check_env \<Rightarrow> graph \<Rightarrow> string \<Rightarrow> string list \<Rightarrow> property_value list \<Rightarrow>
    node_id option \<Rightarrow> bool" where
  "any_other_node_with_tuple env g label keys target skip =
     (let candidates = (case indexed_candidates (env_node_ids env) g label keys target of
          Some ids \<Rightarrow> ids | None \<Rightarrow> node_ids_by_label g label)
      in list_ex (\<lambda>i. Some i \<noteq> skip \<and> (case node_at g i of
           None \<Rightarrow> False
         | Some n \<Rightarrow> label \<in> set (nr_labels n) \<and> tuple_matches (env_float env) keys target (nr_properties n))) candidates)"

definition any_other_rel_with_tuple :: "check_env \<Rightarrow> graph \<Rightarrow> string \<Rightarrow> string list \<Rightarrow> property_value list \<Rightarrow>
    relationship_id option \<Rightarrow> bool" where
  "any_other_rel_with_tuple env g rel_type keys target skip =
     (let candidates = (case indexed_candidates (env_rel_ids env) g rel_type keys target of
          Some ids \<Rightarrow> ids | None \<Rightarrow> rel_ids_by_type g rel_type)
      in list_ex (\<lambda>i. Some i \<noteq> skip \<and> (case rel_at g i of
           None \<Rightarrow> False
         | Some r \<Rightarrow> rr_type r = rel_type \<and> tuple_matches (env_float env) keys target (rr_properties r))) candidates)"

section \<open>A whole record\<close>

datatype node_label_matcher = AnyOf "string list" | One string

fun matcher_contains :: "node_label_matcher \<Rightarrow> string \<Rightarrow> bool" where
  "matcher_contains (AnyOf labels) label = (label \<in> set labels)"
| "matcher_contains (One candidate) label = (candidate = label)"

datatype constraint_record =
    NodeRecord node_label_matcher properties "node_id option"
  | RelRecord string properties "relationship_id option"

fun applies_to :: "constraint_record \<Rightarrow> constraint_definition \<Rightarrow> bool" where
  "applies_to (NodeRecord labels _ _) def = (cdef_entity def = Node \<and> matcher_contains labels (cdef_label def))"
| "applies_to (RelRecord rel_type _ _) def = (cdef_entity def = Relationship \<and> cdef_label def = rel_type)"

fun record_properties :: "constraint_record \<Rightarrow> properties" where
  "record_properties (NodeRecord _ properties _) = properties"
| "record_properties (RelRecord _ properties _) = properties"

fun has_uniqueness_conflict :: "check_env \<Rightarrow> graph \<Rightarrow> constraint_record \<Rightarrow> constraint_definition \<Rightarrow>
    property_value list \<Rightarrow> bool" where
  "has_uniqueness_conflict env g (NodeRecord _ _ skip) def tuple =
     any_other_node_with_tuple env g (cdef_label def) (cdef_properties def) tuple skip"
| "has_uniqueness_conflict env g (RelRecord _ _ skip) def tuple =
     any_other_rel_with_tuple env g (cdef_label def) (cdef_properties def) tuple skip"

text \<open>A loop over the catalog, in name order, up to the first violation.\<close>

fun each_constraint :: "(constraint_definition \<Rightarrow> constraint_violation + unit) \<Rightarrow> constraint_definition list \<Rightarrow>
    constraint_violation + unit" where
  "each_constraint check [] = Inr ()"
| "each_constraint check (def # defs) = ebind (check def) (\<lambda>_. each_constraint check defs)"

definition uniqueness_check :: "constraint_definition \<Rightarrow> property_value list option \<Rightarrow> (property_value list \<Rightarrow> bool) \<Rightarrow>
    constraint_violation + unit" where
  "uniqueness_check def tuple conflict =
     (if \<not> requires_uniqueness (cdef_kind def) then Inr ()
      else (case tuple of None \<Rightarrow> Inr () | Some t \<Rightarrow> if conflict t then Inl (uniqueness_violation def) else Inr ()))"

definition check_record_constraints_with :: "check_env \<Rightarrow> constraint_catalog \<Rightarrow> graph \<Rightarrow> constraint_record \<Rightarrow> bool \<Rightarrow>
    constraint_violation + unit" where
  "check_record_constraints_with env catalog g record' check_existence = each_constraint (\<lambda>def.
     if \<not> applies_to record' def then Inr ()
     else ebind (validate_record_against_constraint def (record_properties record') check_existence) (\<lambda>_.
       uniqueness_check def (constrained_tuple def (record_properties record'))
         (has_uniqueness_conflict env g record' def))) (constraint_list catalog)"

definition check_record_constraints :: "check_env \<Rightarrow> constraint_catalog \<Rightarrow> graph \<Rightarrow> constraint_record \<Rightarrow>
    constraint_violation + unit" where
  "check_record_constraints env catalog g record' = check_record_constraints_with env catalog g record' True"

section \<open>Before a creation\<close>

definition check_node_create :: "check_env \<Rightarrow> constraint_catalog \<Rightarrow> graph \<Rightarrow> string list \<Rightarrow> properties \<Rightarrow>
    constraint_violation + unit" where
  "check_node_create env catalog g labels properties =
     check_record_constraints env catalog g (NodeRecord (AnyOf labels) properties None)"

definition check_relationship_create :: "check_env \<Rightarrow> constraint_catalog \<Rightarrow> graph \<Rightarrow> string \<Rightarrow> properties \<Rightarrow>
    constraint_violation + unit" where
  "check_relationship_create env catalog g rel_type properties =
     check_record_constraints env catalog g (RelRecord rel_type properties None)"

definition check_node_create_deferred :: "check_env \<Rightarrow> constraint_catalog \<Rightarrow> graph \<Rightarrow> string list \<Rightarrow> properties \<Rightarrow>
    constraint_violation + unit" where
  "check_node_create_deferred env catalog g labels properties =
     check_record_constraints_with env catalog g (NodeRecord (AnyOf labels) properties None) False"

definition check_relationship_create_deferred :: "check_env \<Rightarrow> constraint_catalog \<Rightarrow> graph \<Rightarrow> string \<Rightarrow> properties \<Rightarrow>
    constraint_violation + unit" where
  "check_relationship_create_deferred env catalog g rel_type properties =
     check_record_constraints_with env catalog g (RelRecord rel_type properties None) False"

text \<open>The existence checks that were put off to the end of the statement.\<close>

definition check_node_existence :: "constraint_catalog \<Rightarrow> graph \<Rightarrow> node_id \<Rightarrow> constraint_violation + unit" where
  "check_node_existence catalog g i = (case node_at g i of
      None \<Rightarrow> Inr ()
    | Some n \<Rightarrow> each_constraint (\<lambda>def.
        if cdef_entity def \<noteq> Node \<or> \<not> requires_existence (cdef_kind def) \<or> cdef_label def \<notin> set (nr_labels n)
        then Inr ()
        else (case find (\<lambda>p. map_of (nr_properties n) p = None) (cdef_properties def) of
            Some missing \<Rightarrow> Inl (missing_property_violation def missing) | None \<Rightarrow> Inr ())) (constraint_list catalog))"

definition check_relationship_existence :: "constraint_catalog \<Rightarrow> graph \<Rightarrow> relationship_id \<Rightarrow>
    constraint_violation + unit" where
  "check_relationship_existence catalog g i = (case rel_at g i of
      None \<Rightarrow> Inr ()
    | Some r \<Rightarrow> each_constraint (\<lambda>def.
        if cdef_entity def \<noteq> Relationship \<or> \<not> requires_existence (cdef_kind def) \<or> rr_type r \<noteq> cdef_label def
        then Inr ()
        else (case find (\<lambda>p. map_of (rr_properties r) p = None) (cdef_properties def) of
            Some missing \<Rightarrow> Inl (missing_property_violation def missing) | None \<Rightarrow> Inr ())) (constraint_list catalog))"

section \<open>Before an edit\<close>

definition type_check :: "constraint_definition \<Rightarrow> string \<Rightarrow> property_value \<Rightarrow> constraint_violation + unit" where
  "type_check def key value = (case cdef_kind def of
      PropertyType target \<Rightarrow>
        if value_matches_property_type value target then Inr () else Inl (wrong_type def key target)
    | _ \<Rightarrow> Inr ())"

definition check_node_set_property :: "check_env \<Rightarrow> constraint_catalog \<Rightarrow> graph \<Rightarrow> node_id \<Rightarrow> string \<Rightarrow>
    property_value \<Rightarrow> constraint_violation + unit" where
  "check_node_set_property env catalog g i key value = (case node_at g i of
      None \<Rightarrow> Inr ()
    | Some n \<Rightarrow> each_constraint (\<lambda>def.
        if cdef_entity def \<noteq> Node \<or> cdef_label def \<notin> set (nr_labels n) \<or> key \<notin> set (cdef_properties def) then Inr ()
        else ebind (type_check def key value) (\<lambda>_.
          uniqueness_check def (constrained_tuple_after_set def (nr_properties n) key value) (\<lambda>tuple.
            any_other_node_with_tuple env g (cdef_label def) (cdef_properties def) tuple (Some i))))
        (constraint_list catalog))"

definition check_node_remove_property :: "constraint_catalog \<Rightarrow> graph \<Rightarrow> node_id \<Rightarrow> string \<Rightarrow>
    constraint_violation + unit" where
  "check_node_remove_property catalog g i key = (case node_at g i of
      None \<Rightarrow> Inr ()
    | Some n \<Rightarrow> each_constraint (\<lambda>def.
        if cdef_entity def \<noteq> Node \<or> cdef_label def \<notin> set (nr_labels n) \<or> \<not> requires_existence (cdef_kind def)
          \<or> key \<notin> set (cdef_properties def)
        then Inr () else Inl (missing_property_violation def key)) (constraint_list catalog))"

definition check_node_replace_properties_with :: "check_env \<Rightarrow> constraint_catalog \<Rightarrow> graph \<Rightarrow> node_id \<Rightarrow> properties \<Rightarrow>
    bool \<Rightarrow> constraint_violation + unit" where
  "check_node_replace_properties_with env catalog g i properties check_existence = (case node_at g i of
      None \<Rightarrow> Inr ()
    | Some n \<Rightarrow> check_record_constraints_with env catalog g
        (NodeRecord (AnyOf (nr_labels n)) properties (Some i)) check_existence)"

definition check_node_replace_properties :: "check_env \<Rightarrow> constraint_catalog \<Rightarrow> graph \<Rightarrow> node_id \<Rightarrow> properties \<Rightarrow>
    constraint_violation + unit" where
  "check_node_replace_properties env catalog g i properties =
     check_node_replace_properties_with env catalog g i properties True"

definition check_node_replace_properties_deferred :: "check_env \<Rightarrow> constraint_catalog \<Rightarrow> graph \<Rightarrow> node_id \<Rightarrow>
    properties \<Rightarrow> constraint_violation + unit" where
  "check_node_replace_properties_deferred env catalog g i properties =
     check_node_replace_properties_with env catalog g i properties False"

definition check_relationship_set_property :: "check_env \<Rightarrow> constraint_catalog \<Rightarrow> graph \<Rightarrow> relationship_id \<Rightarrow> string \<Rightarrow>
    property_value \<Rightarrow> constraint_violation + unit" where
  "check_relationship_set_property env catalog g i key value = (case rel_at g i of
      None \<Rightarrow> Inr ()
    | Some r \<Rightarrow> each_constraint (\<lambda>def.
        if cdef_entity def \<noteq> Relationship \<or> cdef_label def \<noteq> rr_type r \<or> key \<notin> set (cdef_properties def) then Inr ()
        else ebind (type_check def key value) (\<lambda>_.
          uniqueness_check def (constrained_tuple_after_set def (rr_properties r) key value) (\<lambda>tuple.
            any_other_rel_with_tuple env g (cdef_label def) (cdef_properties def) tuple (Some i))))
        (constraint_list catalog))"

definition check_relationship_remove_property :: "constraint_catalog \<Rightarrow> graph \<Rightarrow> relationship_id \<Rightarrow> string \<Rightarrow>
    constraint_violation + unit" where
  "check_relationship_remove_property catalog g i key = (case rel_at g i of
      None \<Rightarrow> Inr ()
    | Some r \<Rightarrow> each_constraint (\<lambda>def.
        if cdef_entity def \<noteq> Relationship \<or> cdef_label def \<noteq> rr_type r \<or> \<not> requires_existence (cdef_kind def)
          \<or> key \<notin> set (cdef_properties def)
        then Inr () else Inl (missing_property_violation def key)) (constraint_list catalog))"

definition check_relationship_replace_properties_with :: "check_env \<Rightarrow> constraint_catalog \<Rightarrow> graph \<Rightarrow>
    relationship_id \<Rightarrow> properties \<Rightarrow> bool \<Rightarrow> constraint_violation + unit" where
  "check_relationship_replace_properties_with env catalog g i properties check_existence = (case rel_at g i of
      None \<Rightarrow> Inr ()
    | Some r \<Rightarrow> check_record_constraints_with env catalog g (RelRecord (rr_type r) properties (Some i)) check_existence)"

definition check_relationship_replace_properties :: "check_env \<Rightarrow> constraint_catalog \<Rightarrow> graph \<Rightarrow> relationship_id \<Rightarrow>
    properties \<Rightarrow> constraint_violation + unit" where
  "check_relationship_replace_properties env catalog g i properties =
     check_relationship_replace_properties_with env catalog g i properties True"

definition check_relationship_replace_properties_deferred :: "check_env \<Rightarrow> constraint_catalog \<Rightarrow> graph \<Rightarrow>
    relationship_id \<Rightarrow> properties \<Rightarrow> constraint_violation + unit" where
  "check_relationship_replace_properties_deferred env catalog g i properties =
     check_relationship_replace_properties_with env catalog g i properties False"

definition check_node_add_label :: "check_env \<Rightarrow> constraint_catalog \<Rightarrow> graph \<Rightarrow> node_id \<Rightarrow> string \<Rightarrow>
    constraint_violation + unit" where
  "check_node_add_label env catalog g i label = (case node_at g i of
      None \<Rightarrow> Inr ()
    | Some n \<Rightarrow> check_record_constraints env catalog g (NodeRecord (One label) (nr_properties n) (Some i)))"

definition check_node_add_label_deferred :: "check_env \<Rightarrow> constraint_catalog \<Rightarrow> graph \<Rightarrow> node_id \<Rightarrow> string \<Rightarrow>
    constraint_violation + unit" where
  "check_node_add_label_deferred env catalog g i label = (case node_at g i of
      None \<Rightarrow> Inr ()
    | Some n \<Rightarrow> check_record_constraints_with env catalog g (NodeRecord (One label) (nr_properties n) (Some i)) False)"

section \<open>The entry points of the store\<close>

text \<open>With no active constraint nothing is checked; a violation is reported by its status and message.\<close>

definition against_constraints :: "graph \<Rightarrow> (constraint_catalog \<Rightarrow> constraint_violation + unit) \<Rightarrow> string + unit" where
  "against_constraints g check =
     (if ss_active (gr_schema g) = 0 then Inr ()
      else (case check (ss_constraints (gr_schema g)) of
          Inl v \<Rightarrow> Inl (''['' @ violation_status v @ ''] '' @ violation_message v) | Inr () \<Rightarrow> Inr ()))"

definition check_node_create_against_constraints :: "check_env \<Rightarrow> graph \<Rightarrow> string list \<Rightarrow> properties \<Rightarrow> string + unit" where
  "check_node_create_against_constraints env g labels properties =
     against_constraints g (\<lambda>catalog. check_node_create env catalog g labels properties)"

definition check_relationship_create_against_constraints :: "check_env \<Rightarrow> graph \<Rightarrow> string \<Rightarrow> properties \<Rightarrow>
    string + unit" where
  "check_relationship_create_against_constraints env g rel_type properties =
     against_constraints g (\<lambda>catalog. check_relationship_create env catalog g rel_type properties)"

definition check_node_create_deferring_existence :: "check_env \<Rightarrow> graph \<Rightarrow> string list \<Rightarrow> properties \<Rightarrow> string + unit" where
  "check_node_create_deferring_existence env g labels properties =
     against_constraints g (\<lambda>catalog. check_node_create_deferred env catalog g labels properties)"

definition check_relationship_create_deferring_existence :: "check_env \<Rightarrow> graph \<Rightarrow> string \<Rightarrow> properties \<Rightarrow>
    string + unit" where
  "check_relationship_create_deferring_existence env g rel_type properties =
     against_constraints g (\<lambda>catalog. check_relationship_create_deferred env catalog g rel_type properties)"

definition check_node_existence_constraints :: "graph \<Rightarrow> node_id \<Rightarrow> string + unit" where
  "check_node_existence_constraints g i = against_constraints g (\<lambda>catalog. check_node_existence catalog g i)"

definition check_relationship_existence_constraints :: "graph \<Rightarrow> relationship_id \<Rightarrow> string + unit" where
  "check_relationship_existence_constraints g i =
     against_constraints g (\<lambda>catalog. check_relationship_existence catalog g i)"

definition check_node_set_property_against_constraints :: "check_env \<Rightarrow> graph \<Rightarrow> node_id \<Rightarrow> string \<Rightarrow> property_value \<Rightarrow>
    string + unit" where
  "check_node_set_property_against_constraints env g i key value =
     against_constraints g (\<lambda>catalog. check_node_set_property env catalog g i key value)"

definition check_node_remove_property_against_constraints :: "graph \<Rightarrow> node_id \<Rightarrow> string \<Rightarrow> string + unit" where
  "check_node_remove_property_against_constraints g i key =
     against_constraints g (\<lambda>catalog. check_node_remove_property catalog g i key)"

definition check_node_replace_properties_against_constraints :: "check_env \<Rightarrow> graph \<Rightarrow> node_id \<Rightarrow> properties \<Rightarrow>
    string + unit" where
  "check_node_replace_properties_against_constraints env g i properties =
     against_constraints g (\<lambda>catalog. check_node_replace_properties env catalog g i properties)"

definition check_relationship_set_property_against_constraints :: "check_env \<Rightarrow> graph \<Rightarrow> relationship_id \<Rightarrow> string \<Rightarrow>
    property_value \<Rightarrow> string + unit" where
  "check_relationship_set_property_against_constraints env g i key value =
     against_constraints g (\<lambda>catalog. check_relationship_set_property env catalog g i key value)"

definition check_relationship_remove_property_against_constraints :: "graph \<Rightarrow> relationship_id \<Rightarrow> string \<Rightarrow>
    string + unit" where
  "check_relationship_remove_property_against_constraints g i key =
     against_constraints g (\<lambda>catalog. check_relationship_remove_property catalog g i key)"

definition check_relationship_replace_properties_against_constraints :: "check_env \<Rightarrow> graph \<Rightarrow> relationship_id \<Rightarrow>
    properties \<Rightarrow> string + unit" where
  "check_relationship_replace_properties_against_constraints env g i properties =
     against_constraints g (\<lambda>catalog. check_relationship_replace_properties env catalog g i properties)"

definition check_node_add_label_against_constraints :: "check_env \<Rightarrow> graph \<Rightarrow> node_id \<Rightarrow> string \<Rightarrow> string + unit" where
  "check_node_add_label_against_constraints env g i label =
     against_constraints g (\<lambda>catalog. check_node_add_label env catalog g i label)"

definition check_node_replace_properties_deferring_existence :: "check_env \<Rightarrow> graph \<Rightarrow> node_id \<Rightarrow> properties \<Rightarrow>
    string + unit" where
  "check_node_replace_properties_deferring_existence env g i properties =
     against_constraints g (\<lambda>catalog. check_node_replace_properties_deferred env catalog g i properties)"

definition check_relationship_replace_properties_deferring_existence :: "check_env \<Rightarrow> graph \<Rightarrow> relationship_id \<Rightarrow>
    properties \<Rightarrow> string + unit" where
  "check_relationship_replace_properties_deferring_existence env g i properties =
     against_constraints g (\<lambda>catalog. check_relationship_replace_properties_deferred env catalog g i properties)"

definition check_node_add_label_deferring_existence :: "check_env \<Rightarrow> graph \<Rightarrow> node_id \<Rightarrow> string \<Rightarrow> string + unit" where
  "check_node_add_label_deferring_existence env g i label =
     against_constraints g (\<lambda>catalog. check_node_add_label_deferred env catalog g i label)"

section \<open>Writes of several properties\<close>

text \<open>\<open>combines_property_writes\<close>: no constraint spans two properties.\<close>

definition combines_property_writes :: "graph \<Rightarrow> bool" where
  "combines_property_writes g \<longleftrightarrow> ss_active (gr_schema g) = 0
     \<or> list_all (\<lambda>def. length (cdef_properties def) \<le> 1) (constraint_list (ss_constraints (gr_schema g)))"

text \<open>The provided methods of \<open>GraphStorageMut\<close> (\<open>traits.rs\<close>) that replace all properties.\<close>

definition replace_node_properties :: "node_id \<Rightarrow> properties \<Rightarrow> graph \<Rightarrow> bool \<times> graph" where
  "replace_node_properties i properties g = (case node_at g i of
      None \<Rightarrow> (False, g)
    | Some node \<Rightarrow>
        let g = fold (\<lambda>key g. snd (remove_node_property i key g)) (map fst (nr_properties node)) g;
            g = fold (\<lambda>(key, v) g. snd (set_node_property i key v g)) properties g
        in (True, g))"

definition replace_relationship_properties :: "relationship_id \<Rightarrow> properties \<Rightarrow> graph \<Rightarrow> bool \<times> graph" where
  "replace_relationship_properties i properties g = (case rel_at g i of
      None \<Rightarrow> (False, g)
    | Some rel \<Rightarrow>
        let g = fold (\<lambda>key g. snd (remove_relationship_property i key g)) (map fst (rr_properties rel)) g;
            g = fold (\<lambda>(key, v) g. snd (set_relationship_property i key v g)) properties g
        in (True, g))"

end
