(* ===== verification/Executor_Writes.thy ===== *)
theory Executor_Writes
  imports Constraint_Guard
begin

text \<open>
  The writes of a statement (\<open>crates/lora-executor/src/executor/mutable.rs\<close>): each is checked against the
  constraints and then made. A statement with more than one write puts the existence checks off to its
  end, for the records it touched. Expressions are evaluated elsewhere: a write has its values, with
  \<open>None\<close> for null.
\<close>

datatype entity_target = NodeTarget node_id | RelTarget relationship_id

datatype executor_error =
    ConstraintError string
  | MissingRelationshipType
  | NodeCreateFailed
  | RelationshipCreateFailed node_id node_id string
  | DeleteRelationshipFailed relationship_id
  | DeleteNodeWithRelationships node_id

record executor =
  ex_graph :: graph
  ex_defer :: bool
  ex_pending :: "entity_target list"

type_synonym write_step = "executor \<Rightarrow> executor_error + executor"

text \<open>A check of the store, its error mapped; a change of the graph; a record left to check.\<close>

definition checked :: "(graph \<Rightarrow> string + unit) \<Rightarrow> write_step \<Rightarrow> write_step" where
  "checked check next' ex = (case check (ex_graph ex) of Inl msg \<Rightarrow> Inl (ConstraintError msg) | Inr () \<Rightarrow> next' ex)"

definition change :: "(graph \<Rightarrow> graph) \<Rightarrow> executor \<Rightarrow> executor" where
  "change f ex = ex\<lparr>ex_graph := f (ex_graph ex)\<rparr>"

definition put_off :: "entity_target \<Rightarrow> executor \<Rightarrow> executor" where
  "put_off target ex = ex\<lparr>ex_pending := ex_pending ex @ [target]\<rparr>"

definition put_off_if_deferring :: "entity_target \<Rightarrow> executor \<Rightarrow> executor" where
  "put_off_if_deferring target ex = (if ex_defer ex then put_off target ex else ex)"

section \<open>Creations\<close>

text \<open>The end of \<open>materialize_node_pattern\<close> and of \<open>materialize_relationship_pattern\<close>.\<close>

definition create_pattern_node :: "check_env \<Rightarrow> string list \<Rightarrow> properties \<Rightarrow> executor \<Rightarrow>
    executor_error + node_id \<times> executor" where
  "create_pattern_node env labels properties ex =
     (case (if ex_defer ex then check_node_create_deferring_existence env (ex_graph ex) labels properties
        else check_node_create_against_constraints env (ex_graph ex) labels properties) of
        Inl msg \<Rightarrow> Inl (ConstraintError msg)
      | Inr () \<Rightarrow> (case try_create_node labels properties (ex_graph ex) of
          (None, _) \<Rightarrow> Inl NodeCreateFailed
        | (Some created, g) \<Rightarrow> Inr (nr_id created, put_off_if_deferring (NodeTarget (nr_id created)) (ex\<lparr>ex_graph := g\<rparr>))))"

definition create_pattern_relationship :: "check_env \<Rightarrow> node_id \<Rightarrow> node_id \<Rightarrow> string \<Rightarrow> properties \<Rightarrow> executor \<Rightarrow>
    executor_error + relationship_id \<times> executor" where
  "create_pattern_relationship env src dst rel_type properties ex =
     (if rel_type = [] then Inl MissingRelationshipType
      else (case (if ex_defer ex then check_relationship_create_deferring_existence env (ex_graph ex) rel_type properties
        else check_relationship_create_against_constraints env (ex_graph ex) rel_type properties) of
        Inl msg \<Rightarrow> Inl (ConstraintError msg)
      | Inr () \<Rightarrow> (case create_relationship src dst rel_type properties (ex_graph ex) of
          (None, _) \<Rightarrow> Inl (RelationshipCreateFailed src dst rel_type)
        | (Some created, g) \<Rightarrow> Inr (rr_id created, put_off_if_deferring (RelTarget (rr_id created)) (ex\<lparr>ex_graph := g\<rparr>)))))"

section \<open>Properties\<close>

fun remove_entity_property :: "entity_target \<Rightarrow> string \<Rightarrow> write_step" where
  "remove_entity_property (NodeTarget i) key ex =
     (if ex_defer ex then Inr (put_off (NodeTarget i) (change (\<lambda>g. snd (remove_node_property i key g)) ex))
      else checked (\<lambda>g. check_node_remove_property_against_constraints g i key)
        (\<lambda>ex. Inr (change (\<lambda>g. snd (remove_node_property i key g)) ex)) ex)"
| "remove_entity_property (RelTarget i) key ex =
     (if ex_defer ex then Inr (put_off (RelTarget i) (change (\<lambda>g. snd (remove_relationship_property i key g)) ex))
      else checked (\<lambda>g. check_relationship_remove_property_against_constraints g i key)
        (\<lambda>ex. Inr (change (\<lambda>g. snd (remove_relationship_property i key g)) ex)) ex)"

fun set_entity_property :: "check_env \<Rightarrow> entity_target \<Rightarrow> string \<Rightarrow> property_value \<Rightarrow> write_step" where
  "set_entity_property env (NodeTarget i) key v ex =
     checked (\<lambda>g. check_node_set_property_against_constraints env g i key v)
       (\<lambda>ex. Inr (change (\<lambda>g. snd (set_node_property i key v g)) ex)) ex"
| "set_entity_property env (RelTarget i) key v ex =
     checked (\<lambda>g. check_relationship_set_property_against_constraints env g i key v)
       (\<lambda>ex. Inr (change (\<lambda>g. snd (set_relationship_property i key v g)) ex)) ex"

text \<open>\<open>set_property_from_expr\<close> on the evaluated owner and value.\<close>

definition set_property_from_expr :: "check_env \<Rightarrow> entity_target \<Rightarrow> string \<Rightarrow> property_value option \<Rightarrow> write_step" where
  "set_property_from_expr env target key value = (case value of
      None \<Rightarrow> remove_entity_property target key | Some v \<Rightarrow> set_entity_property env target key v)"

text \<open>\<open>write_node_properties\<close>: the checks one write at a time makes, then one store write.\<close>

fun check_edits :: "check_env \<Rightarrow> node_id \<Rightarrow> node_edits \<Rightarrow> write_step" where
  "check_edits env i [] ex = Inr ex"
| "check_edits env i ((key, None) # edits) ex =
     (if ex_defer ex then check_edits env i edits (put_off (NodeTarget i) ex)
      else checked (\<lambda>g. check_node_remove_property_against_constraints g i key) (check_edits env i edits) ex)"
| "check_edits env i ((key, Some v) # edits) ex =
     checked (\<lambda>g. check_node_set_property_against_constraints env g i key v) (check_edits env i edits) ex"

definition write_node_properties :: "check_env \<Rightarrow> node_id \<Rightarrow> node_edits \<Rightarrow> write_step" where
  "write_node_properties env i edits ex = ebind (check_edits env i edits ex) (\<lambda>ex.
     Inr (change (\<lambda>g. snd (update_node_properties i edits g)) ex))"

fun write_each :: "check_env \<Rightarrow> entity_target \<Rightarrow> node_edits \<Rightarrow> write_step" where
  "write_each env target [] ex = Inr ex"
| "write_each env target ((key, v) # edits) ex =
     ebind (set_property_from_expr env target key v ex) (write_each env target edits)"

text \<open>\<open>mutate_entity_target\<close> (\<open>SET n += \<dots>\<close>) on the entries of the map, in key order.\<close>

fun mutate_entity_target :: "check_env \<Rightarrow> entity_target \<Rightarrow> node_edits \<Rightarrow> write_step" where
  "mutate_entity_target env (NodeTarget i) edits ex =
     (if length edits > 1 \<and> combines_property_writes (ex_graph ex) then write_node_properties env i edits ex
      else write_each env (NodeTarget i) edits ex)"
| "mutate_entity_target env (RelTarget i) edits ex = write_each env (RelTarget i) edits ex"

text \<open>\<open>overwrite_entity_target\<close> (\<open>SET n = \<dots>\<close>): null entries are left out.\<close>

definition given_properties :: "node_edits \<Rightarrow> properties" where
  "given_properties edits = fold (\<lambda>(key, v) ps. case v of None \<Rightarrow> ps | Some v \<Rightarrow> btree_insert key v ps) edits []"

fun replace_properties :: "entity_target \<Rightarrow> properties \<Rightarrow> graph \<Rightarrow> graph" where
  "replace_properties (NodeTarget i) ps g = snd (replace_node_properties i ps g)"
| "replace_properties (RelTarget i) ps g = snd (replace_relationship_properties i ps g)"

fun check_replace :: "check_env \<Rightarrow> bool \<Rightarrow> entity_target \<Rightarrow> properties \<Rightarrow> graph \<Rightarrow> string + unit" where
  "check_replace env defer (NodeTarget i) ps g =
     (if defer then check_node_replace_properties_deferring_existence env g i ps
      else check_node_replace_properties_against_constraints env g i ps)"
| "check_replace env defer (RelTarget i) ps g =
     (if defer then check_relationship_replace_properties_deferring_existence env g i ps
      else check_relationship_replace_properties_against_constraints env g i ps)"

definition overwrite_entity_target :: "check_env \<Rightarrow> entity_target \<Rightarrow> node_edits \<Rightarrow> write_step" where
  "overwrite_entity_target env target edits ex = (let ps = given_properties edits in
     checked (check_replace env (ex_defer ex) target ps)
       (\<lambda>ex. Inr (put_off_if_deferring target (change (replace_properties target ps) ex))) ex)"

section \<open>Labels\<close>

fun add_labels :: "check_env \<Rightarrow> node_id \<Rightarrow> string list \<Rightarrow> write_step" where
  "add_labels env i [] ex = Inr ex"
| "add_labels env i (label # labels) ex =
     checked (\<lambda>g. if ex_defer ex then check_node_add_label_deferring_existence env g i label
         else check_node_add_label_against_constraints env g i label)
       (\<lambda>ex. add_labels env i labels (change (\<lambda>g. snd (add_node_label i label g)) ex)) ex"

definition set_labels :: "check_env \<Rightarrow> node_id \<Rightarrow> string list \<Rightarrow> write_step" where
  "set_labels env i labels ex = ebind (add_labels env i labels ex) (\<lambda>ex. Inr (put_off_if_deferring (NodeTarget i) ex))"

definition remove_labels :: "node_id \<Rightarrow> string list \<Rightarrow> write_step" where
  "remove_labels i labels ex = Inr (change (fold (\<lambda>label g. snd (remove_node_label i label g)) labels) ex)"

section \<open>Deletions\<close>

text \<open>
  The targets of a \<open>DELETE\<close> are a set: its nodes and its relationships in id order, the nodes first as
  \<open>DeleteTarget\<close> orders them.
\<close>

record delete_targets =
  dt_nodes :: "node_id list"
  dt_rels :: "relationship_id list"

fun each_ok :: "('a \<Rightarrow> executor_error + unit) \<Rightarrow> 'a list \<Rightarrow> executor_error + unit" where
  "each_ok check [] = Inr ()"
| "each_ok check (x # xs) = ebind (check x) (\<lambda>_. each_ok check xs)"

definition validate_delete_targets :: "delete_targets \<Rightarrow> bool \<Rightarrow> graph \<Rightarrow> executor_error + unit" where
  "validate_delete_targets targets detach g =
     ebind (each_ok (\<lambda>i. if detach then Inr ()
         else if \<not> has_node_at g i then Inl (DeleteNodeWithRelationships i)
         else if list_ex (\<lambda>r. r \<notin> set (dt_rels targets)) (relationship_ids_of g i Undirected)
         then Inl (DeleteNodeWithRelationships i) else Inr ()) (dt_nodes targets)) (\<lambda>_.
     each_ok (\<lambda>r. if has_rel_at g r then Inr () else Inl (DeleteRelationshipFailed r)) (dt_rels targets))"

fun delete_nodes :: "node_id list \<Rightarrow> graph \<Rightarrow> executor_error + graph" where
  "delete_nodes [] g = Inr g"
| "delete_nodes (i # is) g = (case delete_node i g of
      (True, g) \<Rightarrow> delete_nodes is g | (False, _) \<Rightarrow> Inl (DeleteNodeWithRelationships i))"

definition delete_targets :: "delete_targets \<Rightarrow> bool \<Rightarrow> write_step" where
  "delete_targets targets detach ex =
     (let g = snd (delete_relationships (dt_rels targets) (ex_graph ex)) in
      if detach then Inr (ex\<lparr>ex_graph := snd (detach_delete_nodes (dt_nodes targets) g)\<rparr>)
      else ebind (delete_nodes (dt_nodes targets) g) (\<lambda>g. Inr (ex\<lparr>ex_graph := g\<rparr>)))"

definition validate_and_delete :: "delete_targets \<Rightarrow> bool \<Rightarrow> write_step" where
  "validate_and_delete targets detach ex =
     ebind (validate_delete_targets targets detach (ex_graph ex)) (\<lambda>_. delete_targets targets detach ex)"

section \<open>A statement\<close>

text \<open>The existence checks put off so far.\<close>

fun check_existence :: "graph \<Rightarrow> entity_target \<Rightarrow> string + unit" where
  "check_existence g (NodeTarget i) = check_node_existence_constraints g i"
| "check_existence g (RelTarget i) = check_relationship_existence_constraints g i"

definition check_pending_existence :: write_step where
  "check_pending_existence ex = ebind (each_ok (\<lambda>target. case check_existence (ex_graph ex) target of
       Inl msg \<Rightarrow> Inl (ConstraintError msg) | Inr () \<Rightarrow> Inr ()) (ex_pending ex))
     (\<lambda>_. Inr (ex\<lparr>ex_pending := []\<rparr>))"

text \<open>The writes a statement makes, in order.\<close>

datatype statement_write =
    WriteCreateNode "string list" properties
  | WriteCreateRelationship node_id node_id string properties
  | WriteSetProperty entity_target string "property_value option"
  | WriteRemoveProperty entity_target string
  | WriteMutate entity_target node_edits
  | WriteSetRun node_id node_edits
  | WriteOverwrite entity_target node_edits
  | WriteSetLabels node_id "string list"
  | WriteRemoveLabels node_id "string list"
  | WriteDelete delete_targets bool

text \<open>A run of \<open>SET\<close> items on one node is one write only where writes may be combined (\<open>exec_set\<close>).\<close>

fun run_write :: "check_env \<Rightarrow> statement_write \<Rightarrow> write_step" where
  "run_write env (WriteCreateNode labels ps) ex =
     ebind (create_pattern_node env labels ps ex) (\<lambda>(_, ex). Inr ex)"
| "run_write env (WriteCreateRelationship src dst rel_type ps) ex =
     ebind (create_pattern_relationship env src dst rel_type ps ex) (\<lambda>(_, ex). Inr ex)"
| "run_write env (WriteSetProperty target key v) ex = set_property_from_expr env target key v ex"
| "run_write env (WriteRemoveProperty target key) ex = remove_entity_property target key ex"
| "run_write env (WriteMutate target edits) ex = mutate_entity_target env target edits ex"
| "run_write env (WriteSetRun i edits) ex =
     (if combines_property_writes (ex_graph ex) then write_node_properties env i edits ex
      else write_each env (NodeTarget i) edits ex)"
| "run_write env (WriteOverwrite target edits) ex = overwrite_entity_target env target edits ex"
| "run_write env (WriteSetLabels i labels) ex = set_labels env i labels ex"
| "run_write env (WriteRemoveLabels i labels) ex = remove_labels i labels ex"
| "run_write env (WriteDelete targets detach) ex = validate_and_delete targets detach ex"

fun run_writes :: "check_env \<Rightarrow> statement_write list \<Rightarrow> write_step" where
  "run_writes env [] ex = Inr ex"
| "run_writes env (w # ws) ex = ebind (run_write env w ex) (run_writes env ws)"

text \<open>\<open>execute_rows\<close>: the graph is the statement's own copy, which an error discards.\<close>

definition run_statement :: "check_env \<Rightarrow> bool \<Rightarrow> statement_write list \<Rightarrow> graph \<Rightarrow> executor_error + graph" where
  "run_statement env defer ws g =
     ebind (run_writes env ws \<lparr>ex_graph = g, ex_defer = defer, ex_pending = []\<rparr>) (\<lambda>ex.
     ebind (check_pending_existence ex) (\<lambda>ex. Inr (ex_graph ex)))"

end
