(* ===== verification/Constraint_Scan.thy ===== *)
theory Constraint_Scan
  imports Constraint_Check Graph_Replay
begin

text \<open>
  The scan of existing data is the scan in id order: what it reports does not depend on the hash, on the
  split of the ids into ranges, or on the reading of single values in place.
\<close>

section \<open>Least elements\<close>

fun is_least :: "'a :: linorder set \<Rightarrow> 'a option \<Rightarrow> bool" where
  "is_least A None \<longleftrightarrow> A = {}"
| "is_least A (Some a) \<longleftrightarrow> a \<in> A \<and> (\<forall>b \<in> A. a \<le> b)"

definition least_of_two :: "'a :: linorder option \<Rightarrow> 'a option \<Rightarrow> 'a option" where
  "least_of_two a b = (case a of None \<Rightarrow> b | Some x \<Rightarrow> Some (case b of None \<Rightarrow> x | Some y \<Rightarrow> min y x))"

lemma is_least_Un: "is_least A a \<Longrightarrow> is_least B b \<Longrightarrow> is_least (A \<union> B) (least_of_two a b)"
  by (cases a; cases b) (auto simp: least_of_two_def min_def intro: order_trans)

lemma is_least_fold:
  assumes "\<And>x. x \<in> set xs \<Longrightarrow> is_least (A x) (f x)" and "is_least B b"
  shows "is_least (B \<union> (\<Union>x \<in> set xs. A x)) (fold (\<lambda>x b. least_of_two (f x) b) xs b)"
  using assms
proof (induction xs arbitrary: b B)
  case (Cons x xs)
  have "is_least (A x \<union> B) (least_of_two (f x) b)" using Cons.prems by (simp add: is_least_Un)
  from Cons.IH [OF _ this] Cons.prems(1) show ?case by (simp add: Un_ac)
qed simp

lemma is_least_unique: "is_least A a \<Longrightarrow> is_least A b \<Longrightarrow> a = b"
  by (cases a; cases b) (auto intro: order_antisym)

section \<open>Repeated keys\<close>

text \<open>The ids of \<open>S\<close> whose key is in \<open>seen\<close> or belongs to a smaller id of \<open>S\<close>.\<close>

definition repeats :: "(u64 \<Rightarrow> string) \<Rightarrow> string set \<Rightarrow> u64 set \<Rightarrow> u64 set" where
  "repeats key_of seen S = {i \<in> S. key_of i \<in> seen \<or> (\<exists>j \<in> S. j < i \<and> key_of j = key_of i)}"

lemma repeats_insert:
  "\<forall>j \<in> S. i < j \<Longrightarrow> key_of i \<notin> seen \<Longrightarrow> repeats key_of seen (insert i S) = repeats key_of (insert (key_of i) seen) S"
  by (auto simp: repeats_def dest: less_asym)

lemma first_in_run_least:
  "sorted_wrt (<) (map snd run) \<Longrightarrow>
   is_least (repeats key_of (set seen) (snd ` set run)) (first_in_run key_of seen run)"
proof (induction run arbitrary: seen)
  case Nil
  then show ?case by (simp add: repeats_def)
next
  case (Cons t run)
  obtain h i where t: "t = (h, i)" by fastforce
  have less: "\<forall>j \<in> snd ` set run. i < j" and s: "sorted_wrt (<) (map snd run)" using Cons.prems t by auto
  show ?case
  proof (cases "key_of i \<in> set seen")
    case True
    then show ?thesis using less t by (auto simp: repeats_def intro: less_imp_le)
  next
    case False
    have "repeats key_of (set seen) (snd ` set (t # run)) = repeats key_of (set (seen @ [key_of i])) (snd ` set run)"
      using repeats_insert [of "snd ` set run" i key_of "set seen"] less False t by simp
    then show ?thesis using Cons.IH [OF s, of "seen @ [key_of i]"] False t by simp
  qed
qed

section \<open>Runs of one hash\<close>

lemma takeWhile_filter_fst:
  assumes "sorted (map fst (t # ts))"
  shows "takeWhile (\<lambda>s. fst s = fst t) ts = filter (\<lambda>s. fst s = fst (t :: u64 \<times> u64)) ts"
    and "dropWhile (\<lambda>s. fst s = fst t) ts = filter (\<lambda>s. fst s \<noteq> fst t) ts"
  using assms
proof (induction ts)
  case (Cons s ts)
  { case 1
    show ?case
    proof (cases "fst s = fst t")
      case True
      then show ?thesis using Cons.IH(1) 1 by simp
    next
      case False
      then have "\<forall>u \<in> set ts. fst u \<noteq> fst t" using 1 by auto
      then show ?thesis using False by (simp add: filter_empty_conv)
    qed
  next
    case 2
    show ?case
    proof (cases "fst s = fst t")
      case True
      then show ?thesis using Cons.IH(2) 2 by simp
    next
      case False
      then have "\<forall>u \<in> set ts. fst u \<noteq> fst t" using 2 by auto
      then show ?thesis using False by simp
    qed }
qed simp_all

lemma sorted_filter_fst: "sorted (map fst ts) \<Longrightarrow> sorted (map fst (filter P ts))"
  by (induction ts) auto

lemma chunk_by_hash_runs:
  "sorted (map fst ts) \<Longrightarrow> set (chunk_by_hash ts) = (\<lambda>h. filter (\<lambda>t. fst t = h) ts) ` fst ` set ts"
proof (induction ts rule: chunk_by_hash.induct)
  case (2 t ts)
  let ?rest = "filter (\<lambda>s. fst s \<noteq> fst t) ts"
  have eq: "takeWhile (\<lambda>s. fst s = fst t) ts = filter (\<lambda>s. fst s = fst t) ts"
    "dropWhile (\<lambda>s. fst s = fst t) ts = ?rest" by (rule takeWhile_filter_fst [OF 2(2)])+
  have "sorted (map fst ?rest)" using 2(2) sorted_filter_fst [of ts] by simp
  then have IH: "set (chunk_by_hash ?rest) = (\<lambda>h. filter (\<lambda>t. fst t = h) ?rest) ` fst ` set ?rest"
    using 2(1) eq(2) by simp
  have same: "filter (\<lambda>u. fst u = h) ?rest = filter (\<lambda>u. fst u = h) (t # ts)" if "h \<in> fst ` set ?rest" for h
    using that by (auto intro!: filter_cong)
  have heads: "fst ` set (t # ts) = insert (fst t) (fst ` set ?rest)" by auto
  have "set (chunk_by_hash (t # ts)) = insert (filter (\<lambda>s. fst s = fst t) (t # ts)) (set (chunk_by_hash ?rest))"
    by (simp add: eq)
  also have "\<dots> = insert (filter (\<lambda>s. fst s = fst t) (t # ts))
      ((\<lambda>h. filter (\<lambda>u. fst u = h) (t # ts)) ` fst ` set ?rest)"
    unfolding IH by (rule arg_cong [of _ _ "insert _"], rule image_cong [OF refl same])
  also have "\<dots> = (\<lambda>h. filter (\<lambda>u. fst u = h) (t # ts)) ` fst ` set (t # ts)" 
    unfolding heads by (simp only: image_insert)
  finally show ?case .
qed simp

lemma repeats_by_hash:
  assumes "\<And>i. i \<in> S \<Longrightarrow> H i = hash (key_of i)"
  shows "repeats key_of {} S = (\<Union>h \<in> H ` S. repeats key_of {} {i \<in> S. H i = h})"
  using assms by (fastforce simp: repeats_def)

lemma repeats_few: "length run \<le> 1 \<Longrightarrow> repeats key_of {} (snd ` set run) = {}"
  by (cases run) (auto simp: repeats_def)

lemma UN_filter: "(\<And>x. \<not> P x \<Longrightarrow> f x = {}) \<Longrightarrow> (\<Union>x \<in> set (filter P xs). f x) = (\<Union>x \<in> set xs. f x)"
  by (induction xs) auto

text \<open>The tuples of the ids \<open>S\<close>, each with the hash of its key.\<close>

lemma first_repeat_least:
  assumes d: "distinct tuples" and T: "set tuples = (\<lambda>i. (hash (key_of i), i)) ` S"
    and k: "\<And>i. key_of i = (case properties_of i of None \<Rightarrow> [] | Some ps \<Rightarrow> write_property_tuple_key fs def ps)"
  shows "is_least (repeats key_of {} S) (first_repeat fs def tuples properties_of)"
proof -
  let ?s = "sort tuples" and ?H = "\<lambda>i. hash (key_of i)"
  let ?run = "\<lambda>h. filter (\<lambda>t. fst t = h) ?s"
  let ?ids = "\<lambda>run :: (u64 \<times> u64) list. repeats key_of {} (snd ` set run)"
  have s: "sorted ?s" "distinct ?s" "set ?s = set tuples" using d by simp_all
  have fsts: "sorted (map fst ?s)" 
    unfolding sorted_map by (rule sorted_wrt_mono_rel [OF _ s(1)]) (auto simp: less_eq_prod_def)
  have strict: "sorted_wrt (<) (map snd (?run h))" for h
  proof -
    have "sorted_wrt (<) ?s" using s by (simp add: strict_sorted_iff)
    then have w: "sorted_wrt (<) (?run h)" by (rule sorted_wrt_filter)
    have "sorted_wrt (\<lambda>a b. snd a < snd b) (?run h)"
      by (rule sorted_wrt_mono_rel [OF _ w]) (auto simp: less_prod_def)
    then show ?thesis by (simp add: sorted_wrt_map)
  qed
  have ids: "snd ` set (?run h) = {i \<in> S. ?H i = h}" for h using s(3) T by force
  have runs: "set (chunk_by_hash ?s) = ?run ` ?H ` S"
    using chunk_by_hash_runs [OF fsts] s(3) T by (simp add: image_image)
  have least: "is_least (?ids run) (first_in_run key_of [] run)" if "run \<in> set (chunk_by_hash ?s)" for run
    using that runs first_in_run_least [OF strict, of key_of "[]"] by auto
  have "is_least ({} \<union> (\<Union>run \<in> set (filter (\<lambda>run. length run > 1) (chunk_by_hash ?s)). ?ids run))
      (fold (\<lambda>run first. least_of_two (first_in_run key_of [] run) first)
        (filter (\<lambda>run. length run > 1) (chunk_by_hash ?s)) None)"
    by (rule is_least_fold) (use least in auto)
  moreover have "(\<Union>run \<in> set (filter (\<lambda>run. length run > 1) (chunk_by_hash ?s)). ?ids run)
      = (\<Union>run \<in> set (chunk_by_hash ?s). ?ids run)"
    by (rule UN_filter) (simp add: repeats_few)
  moreover have "(\<Union>run \<in> set (chunk_by_hash ?s). ?ids run) = repeats key_of {} S"
    unfolding runs repeats_by_hash [of S ?H hash key_of, OF refl] by (simp only: image_image ids UN_simps)
  moreover have "first_repeat fs def tuples properties_of =
      fold (\<lambda>run first. least_of_two (first_in_run key_of [] run) first)
        (filter (\<lambda>run. length run > 1) (chunk_by_hash ?s)) None"
    unfolding first_repeat_def Let_def k [symmetric] least_of_two_def ..
  ultimately show ?thesis by simp
qed

section \<open>Ranges of ids\<close>

abbreviation rejects :: "(u64 \<Rightarrow> checked) \<Rightarrow> u64 set \<Rightarrow> u64 set" where
  "rejects check S \<equiv> {i \<in> S. isl (check i)}"

abbreviation hashed :: "(u64 \<Rightarrow> checked) \<Rightarrow> u64 set \<Rightarrow> u64 set" where
  "hashed check S \<equiv> {i \<in> S. \<exists>h. check i = Inr (Some h)}"

definition first_violation :: "(u64 \<Rightarrow> checked) \<Rightarrow> u64 option \<Rightarrow> (u64 \<times> constraint_violation) option" where
  "first_violation check m = map_option (\<lambda>i. (i, projl (check i))) m"

lemma scan_ids_found:
  assumes "sorted_wrt (<) xs"
  obtains m where "is_least (rejects check (set xs)) m" and "sr_rejected (scan_ids check xs) = first_violation check m"
    and "distinct (sr_tuples (scan_ids check xs))"
    and "set (sr_tuples (scan_ids check xs)) =
      {(h, i). i \<in> set xs \<and> check i = Inr (Some h) \<and> (\<forall>j \<in> rejects check (set xs). i < j)}"
  using assms
proof (induction xs arbitrary: thesis)
  case Nil
  show ?case by (rule Nil(1) [of None]) (simp_all add: first_violation_def)
next
  case (Cons x xs)
  have less: "\<forall>j \<in> set xs. x < j" and s: "sorted_wrt (<) xs" using Cons.prems(2) by auto
  obtain m where IH: "is_least (rejects check (set xs)) m" "sr_rejected (scan_ids check xs) = first_violation check m"
    "distinct (sr_tuples (scan_ids check xs))"
    "set (sr_tuples (scan_ids check xs)) =
      {(h, i). i \<in> set xs \<and> check i = Inr (Some h) \<and> (\<forall>j \<in> rejects check (set xs). i < j)}"
    by (rule Cons.IH [OF _ s])
  show ?case
  proof (cases "check x")
    case (Inl v)
    then have x: "isl (check x)" by simp
    have none: "\<not> (check i = Inr (Some h) \<and> i \<in> set (x # xs) \<and> i < x)" for i h using less by (auto dest: less_asym)
    show ?thesis using Inl x less none
      by (intro Cons.prems(1) [of "Some x"]) (fastforce simp: first_violation_def intro: less_imp_le)+
  next
    case (Inr w)
    have R: "rejects check (set (x # xs)) = rejects check (set xs)" using Inr by auto
    let ?T = "{(h, i). i \<in> set xs \<and> check i = Inr (Some h) \<and> (\<forall>j \<in> rejects check (set xs). i < j)}"
    have T: "{(h, i). i \<in> set (x # xs) \<and> check i = Inr (Some h) \<and> (\<forall>j \<in> rejects check (set (x # xs)). i < j)}
        = (case w of None \<Rightarrow> ?T | Some h \<Rightarrow> insert (h, x) ?T)"
      unfolding R using Inr less by (auto split: option.split)
    have scan: "sr_rejected (scan_ids check (x # xs)) = sr_rejected (scan_ids check xs)"
      "sr_tuples (scan_ids check (x # xs)) = (case w of None \<Rightarrow> sr_tuples (scan_ids check xs)
        | Some h \<Rightarrow> (h, x) # sr_tuples (scan_ids check xs))"
      using Inr by (simp_all add: Let_def split: option.split)
    have new: "(h, x) \<notin> set (sr_tuples (scan_ids check xs))" for h using IH(4) less by auto
    show ?thesis
    proof (rule Cons.prems(1) [of m])
      show "distinct (sr_tuples (scan_ids check (x # xs)))" unfolding scan using IH(3) new by (simp split: option.split)
      show "set (sr_tuples (scan_ids check (x # xs))) =
          {(h, i). i \<in> set (x # xs) \<and> check i = Inr (Some h) \<and> (\<forall>j \<in> rejects check (set (x # xs)). i < j)}"
        unfolding T scan by (simp add: IH(4) split: option.split)
    qed (simp_all only: R IH scan)
  qed
qed

section \<open>The scan in id order\<close>

text \<open>
  The reference: one record after the other in id order, with the keys seen so far; \<open>judge\<close> is what a
  record gives on its own, the violation of its existence or type check, or its key when it has one.
\<close>

fun scope_in_order :: "constraint_definition \<Rightarrow> (u64 \<Rightarrow> constraint_violation + string option) \<Rightarrow> string list \<Rightarrow> u64 list \<Rightarrow>
    constraint_violation + unit" where
  "scope_in_order def judge seen [] = Inr ()"
| "scope_in_order def judge seen (i # is) = (case judge i of
      Inl violation \<Rightarrow> Inl violation
    | Inr None \<Rightarrow> scope_in_order def judge seen is
    | Inr (Some key) \<Rightarrow> if key \<in> set seen then Inl (uniqueness_violation def)
        else scope_in_order def judge (key # seen) is)"

abbreviation refused :: "(u64 \<Rightarrow> 'e + 'a) \<Rightarrow> u64 set \<Rightarrow> u64 set" where
  "refused judge S \<equiv> {i \<in> S. isl (judge i)}"

definition before_refusal :: "(u64 \<Rightarrow> 'e + 'a option) \<Rightarrow> u64 set \<Rightarrow> u64 set" where
  "before_refusal judge S = {i \<in> S. (\<exists>k. judge i = Inr (Some k)) \<and> (\<forall>j \<in> refused judge S. i < j)}"

lemma scope_in_order_verdict:
  assumes "sorted_wrt (<) ids" and "\<And>i k. judge i = Inr (Some k) \<Longrightarrow> key_of i = k"
    and "is_least (refused judge (set ids)) m"
  shows "scope_in_order def judge seen ids =
      (if repeats key_of (set seen) (before_refusal judge (set ids)) \<noteq> {} then Inl (uniqueness_violation def)
       else case m of None \<Rightarrow> Inr () | Some i \<Rightarrow> Inl (projl (judge i)))"
  using assms
proof (induction ids arbitrary: seen m)
  case Nil
  then show ?case by (cases m) (auto simp: repeats_def before_refusal_def)
next
  case (Cons x ids)
  have less: "\<forall>j \<in> set ids. x < j" and s: "sorted_wrt (<) ids" using Cons.prems(1) by auto
  show ?case
  proof (cases "judge x")
    case (Inl v)
    then have x: "x \<in> refused judge (set (x # ids))" by simp
    have least: "is_least (refused judge (set (x # ids))) (Some x)" using x less by (auto intro: less_imp_le)
    have m: "m = Some x" by (rule is_least_unique [OF Cons.prems(3) least])
    have "before_refusal judge (set (x # ids)) = {}"
      using x less unfolding before_refusal_def by (auto dest: less_asym)
    then show ?thesis using Inl m by (simp add: repeats_def)
  next
    case (Inr w)
    have R: "refused judge (set (x # ids)) = refused judge (set ids)" using Inr by auto
    note IH = Cons.IH [OF s Cons.prems(2) Cons.prems(3) [unfolded R]]
    let ?B = "before_refusal judge (set ids)"
    have B: "before_refusal judge (set (x # ids)) = (case w of None \<Rightarrow> ?B | Some _ \<Rightarrow> insert x ?B)"
      unfolding before_refusal_def R using Inr less by (auto split: option.split)
    show ?thesis
    proof (cases w)
      case None
      then show ?thesis using IH [of seen] B Inr by simp
    next
      case (Some k)
      have k: "key_of x = k" using Cons.prems(2) [of x k] Inr Some by simp
      show ?thesis
      proof (cases "k \<in> set seen")
        case True
        then have "x \<in> repeats key_of (set seen) (insert x ?B)" using k by (simp add: repeats_def)
        then show ?thesis using B Inr Some True by auto
      next
        case False
        have "repeats key_of (set seen) (insert x ?B) = repeats key_of (insert k (set seen)) ?B"
          using repeats_insert [of ?B x key_of "set seen"] less False k by (simp add: before_refusal_def)
        then show ?thesis using IH [of "k # seen"] B Inr Some False by simp
      qed
    qed
  qed
qed

section \<open>The ranges together\<close>

lemma earliest_rejection_least:
  assumes "\<And>k. k \<in> set ks \<Longrightarrow> is_least (A k) (m k) \<and> sr_rejected (R k) = first_violation check (m k)"
    and "is_least B b"
  obtains c where "is_least (B \<union> (\<Union>k \<in> set ks. A k)) c"
    and "earliest_rejection (map R ks) (first_violation check b) = first_violation check c"
proof -
  have "earliest_rejection (map R ks) (first_violation check b) =
      first_violation check (fold (\<lambda>k b. least_of_two (m k) b) ks b)"
    using assms(1)
  proof (induction ks arbitrary: b)
    case (Cons k ks)
    have "(case first_violation check (m k) of None \<Rightarrow> first_violation check b
        | Some (i, violation) \<Rightarrow>
            if (case first_violation check b of None \<Rightarrow> True | Some (first, _) \<Rightarrow> i < first)
            then Some (i, violation) else first_violation check b) = first_violation check (least_of_two (m k) b)"
      by (auto simp: first_violation_def least_of_two_def min_def split: option.split)
    then show ?case using Cons by simp
  qed simp
  then show thesis using that is_least_fold [of ks A m B b] assms by metis
qed

lemma range_ids:
  assumes "sorted_wrt (<) (ids :: u64 list)"
  shows "takeWhile (\<lambda>i. unat i < start + n) (dropWhile (\<lambda>i. unat i < start) ids) =
     filter (\<lambda>i. start \<le> unat i \<and> unat i < start + n) ids"
  using assms
proof (induction ids)
  case (Cons x ids)
  have less: "unat x < unat j" if "j \<in> set ids" for j using Cons.prems that by (simp add: word_less_nat_alt)
  show ?case
  proof (cases "unat x < start")
    case True
    then show ?thesis using Cons by simp
  next
    case False
    have ge: "\<forall>j \<in> set ids. \<not> unat j < start" using False less by (auto dest: order_less_trans)
    have drop: "dropWhile (\<lambda>i. unat i < start) ids = ids" using ge by (cases ids) auto
    show ?thesis
    proof (cases "unat x < start + n")
      case True
      then show ?thesis using Cons drop False by simp
    next
      case far: False
      then have "\<forall>j \<in> set ids. \<not> unat j < start + n" using less by (auto dest: order_less_trans)
      then show ?thesis using False far by (simp add: filter_empty_conv)
    qed
  qed
qed simp

lemma distinct_concat_map:
  "distinct ks \<Longrightarrow> (\<And>k. k \<in> set ks \<Longrightarrow> distinct (f k)) \<Longrightarrow>
   (\<And>k l. k \<in> set ks \<Longrightarrow> l \<in> set ks \<Longrightarrow> k \<noteq> l \<Longrightarrow> set (f k) \<inter> set (f l) = {}) \<Longrightarrow> distinct (concat (map f ks))"
  by (induction ks) auto

abbreviation range_starts :: "nat \<Rightarrow> nat list" where
  "range_starts slots \<equiv> map (\<lambda>k. k * SCAN_IDS) [0..<(slots + SCAN_IDS - 1) div SCAN_IDS]"

text \<open>What the ranges find: the first rejection of all, and at least the tuples before it.\<close>

lemma ranges_found:
  assumes ids: "sorted_wrt (<) ids" and slots: "\<forall>i \<in> set ids. unat i < slots"
  obtains c where "is_least (rejects check (set ids)) c"
    and "earliest_rejection (map (scan_range check ids) (range_starts slots)) None = first_violation check c"
    and "distinct (concat (map sr_tuples (map (scan_range check ids) (range_starts slots))))"
    and "set (concat (map sr_tuples (map (scan_range check ids) (range_starts slots)))) \<subseteq>
      {(h, i). i \<in> set ids \<and> check i = Inr (Some h)}"
    and "{(h, i). i \<in> set ids \<and> check i = Inr (Some h) \<and> (\<forall>j \<in> rejects check (set ids). i < j)} \<subseteq>
      set (concat (map sr_tuples (map (scan_range check ids) (range_starts slots))))"
proof -
  define ks where "ks = [0..<(slots + SCAN_IDS - 1) div SCAN_IDS]"
  define part where "part k = filter (\<lambda>i. unat i div SCAN_IDS = k) ids" for k
  define R where "R k = scan_ids check (part k)" for k
  have "(0 :: nat) < SCAN_IDS" by (simp add: SCAN_IDS_def)
  have R: "scan_range check ids (k * SCAN_IDS) = R k" for k
  proof -
    have "(k * SCAN_IDS \<le> unat i \<and> unat i < k * SCAN_IDS + SCAN_IDS) = (unat i div SCAN_IDS = k)" for i :: u64
      using div_nat_eqI [of SCAN_IDS k "unat i"] \<open>0 < SCAN_IDS\<close> by (auto simp: algebra_simps dividend_less_times_div)
    then show ?thesis by (simp add: scan_range_def range_ids [OF ids] R_def part_def)
  qed
  then have ranges: "map (scan_range check ids) (range_starts slots) = map R ks" by (simp add: ks_def)
  have "unat i div SCAN_IDS \<in> set ks" if "i \<in> set ids" for i
    using slots that \<open>0 < SCAN_IDS\<close> by (auto simp: ks_def less_eq_div_iff_mult_less_eq Suc_le_eq [symmetric] SCAN_IDS_def)
  then have all: "(\<Union>k \<in> set ks. set (part k)) = set ids" by (auto simp: part_def)
  have sorted: "sorted_wrt (<) (part k)" for k unfolding part_def by (rule sorted_wrt_filter [OF ids])
  have "\<forall>k. \<exists>m. is_least (rejects check (set (part k))) m \<and> sr_rejected (R k) = first_violation check m"
    unfolding R_def by (intro allI, rule_tac k1 = k in scan_ids_found [OF sorted, of _ check]) blast
  from choice [OF this] obtain m where m: "\<And>k. is_least (rejects check (set (part k))) (m k) \<and>
      sr_rejected (R k) = first_violation check (m k)" by blast
  have tuples: "set (sr_tuples (R k)) = {(h, i). i \<in> set (part k) \<and> check i = Inr (Some h) \<and>
      (\<forall>j \<in> rejects check (set (part k)). i < j)}" "distinct (sr_tuples (R k))" for k
    unfolding R_def by (rule scan_ids_found [OF sorted [of k], of check], simp)+
  obtain c where c: "is_least ({} \<union> (\<Union>k \<in> set ks. rejects check (set (part k)))) c"
    "earliest_rejection (map R ks) (first_violation check None) = first_violation check c"
    by (rule earliest_rejection_least [of ks _ m R check "{}" None]) (use m in auto)
  have concat: "concat (map sr_tuples (map (scan_range check ids) (range_starts slots))) = concat (map (\<lambda>k. sr_tuples (R k)) ks)"
    unfolding ranges by (simp add: comp_def)
  show thesis
  proof (rule that [of c], unfold concat)
    have "(\<Union>k \<in> set ks. rejects check (set (part k))) = rejects check (set ids)" using all by blast
    then show "is_least (rejects check (set ids)) c" using c(1) by simp
    show "earliest_rejection (map (scan_range check ids) (range_starts slots)) None = first_violation check c"
      unfolding ranges using c(2) by (simp add: first_violation_def)
    show "distinct (concat (map (\<lambda>k. sr_tuples (R k)) ks))"
      by (rule distinct_concat_map) (auto simp: ks_def tuples part_def)
    show "set (concat (map (\<lambda>k. sr_tuples (R k)) ks)) \<subseteq> {(h, i). i \<in> set ids \<and> check i = Inr (Some h)}"
      by (auto simp: tuples part_def)
    show "{(h, i). i \<in> set ids \<and> check i = Inr (Some h) \<and> (\<forall>j \<in> rejects check (set ids). i < j)} \<subseteq>
        set (concat (map (\<lambda>k. sr_tuples (R k)) ks))"
      using all by (fastforce simp: tuples part_def)
  qed
qed

text \<open>The earliest repeat is reported exactly when it comes before the first refusal.\<close>

lemma repeat_before_refusal:
  assumes r: "is_least (repeats key_of {} S) r" and c: "is_least (refused judge I) c"
    and lower: "before_refusal judge I \<subseteq> S" and upper: "S \<subseteq> {i \<in> I. \<exists>k. judge i = Inr (Some k)}"
  shows "repeats key_of {} (before_refusal judge I) \<noteq> {} \<longleftrightarrow>
      (\<exists>i. r = Some i \<and> (\<forall>first. c = Some first \<longrightarrow> i < first))"
proof -
  have more: "repeats key_of {} (before_refusal judge I) \<subseteq> repeats key_of {} S"
    using lower by (auto simp: repeats_def)
  have clean: "i \<in> before_refusal judge I" if "i \<in> S" "\<forall>j \<in> refused judge I. i < j" for i
    using that upper unfolding before_refusal_def by blast
  have early: "i \<in> repeats key_of {} (before_refusal judge I)"
    if i: "i \<in> repeats key_of {} S" "\<forall>j \<in> refused judge I. i < j" for i
  proof -
    obtain j where j: "j \<in> S" "j < i" "key_of j = key_of i" "i \<in> S" using i(1) by (auto simp: repeats_def)
    have "\<forall>k \<in> refused judge I. j < k" using i(2) j(2) less_trans by blast
    then show ?thesis using clean [OF j(1)] clean [OF j(4) i(2)] j(2,3) unfolding repeats_def by blast
  qed
  have before: "i < first" if "i \<in> repeats key_of {} (before_refusal judge I)" "first \<in> refused judge I"
    for i first using that unfolding repeats_def before_refusal_def by blast
  show ?thesis
  proof (cases r)
    case None
    then show ?thesis using r more by auto
  next
    case (Some i)
    then have i: "i \<in> repeats key_of {} S" "\<forall>j \<in> repeats key_of {} S. i \<le> j" using r by auto
    show ?thesis
    proof (cases c)
      case None
      then show ?thesis using c early [OF i(1)] Some by auto
    next
      case first: (Some first)
      have f: "first \<in> refused judge I" "\<forall>j \<in> refused judge I. first \<le> j"
        using c first by auto
      have "i < first" if "k \<in> repeats key_of {} (before_refusal judge I)" for k
        using i(2) more before [OF that f(1)] that by (meson le_less_trans subsetD)
      moreover have "i \<in> repeats key_of {} (before_refusal judge I)" if "i < first"
        using early [OF i(1)] f(2) that by (meson less_le_trans)
      ultimately show ?thesis using Some first by auto
    qed
  qed
qed

lemma validate_scope_in_order:
  assumes ids: "sorted_wrt (<) ids" and slots: "\<forall>i \<in> set ids. unat i < slots"
    and check: "\<And>i. check i = map_sum id (map_option hash) (judge i)"
    and key: "\<And>i k. judge i = Inr (Some k) \<Longrightarrow>
      (case properties_of i of None \<Rightarrow> [] | Some ps \<Rightarrow> write_property_tuple_key fs def ps) = k"
  shows "validate_scope fs def ids slots check properties_of = scope_in_order def judge [] ids"
proof -
  let ?key = "\<lambda>i. case properties_of i of None \<Rightarrow> [] | Some ps \<Rightarrow> write_property_tuple_key fs def ps"
  let ?tuples = "concat (map sr_tuples (map (scan_range check ids) (range_starts slots)))"
  obtain c where c: "is_least (rejects check (set ids)) c"
    "earliest_rejection (map (scan_range check ids) (range_starts slots)) None = first_violation check c"
    and T: "distinct ?tuples" "set ?tuples \<subseteq> {(h, i). i \<in> set ids \<and> check i = Inr (Some h)}"
      "{(h, i). i \<in> set ids \<and> check i = Inr (Some h) \<and> (\<forall>j \<in> rejects check (set ids). i < j)} \<subseteq> set ?tuples"
    by (rule ranges_found [OF ids slots])
  define S where "S = snd ` set ?tuples"
  have refused: "rejects check S = refused judge S" for S using check by (auto simp: isl_map_sum)
  have hash: "check i = Inr (Some h) \<longleftrightarrow> judge i = Inr (Some (?key i)) \<and> h = hash (?key i)" for i h
    using check [of i] key [of i] by (cases "judge i") auto
  have S: "set ?tuples = (\<lambda>i. (hash (?key i), i)) ` S"
    unfolding S_def image_image using T(2) by (intro set_eqI iffI) (force simp: hash)+
  have upper: "S \<subseteq> {i \<in> set ids. \<exists>k. judge i = Inr (Some k)}" unfolding S_def using T(2) by (auto simp: hash)
  have lower: "before_refusal judge (set ids) \<subseteq> S"
  proof
    fix i assume "i \<in> before_refusal judge (set ids)"
    then obtain k where i: "i \<in> set ids" "judge i = Inr (Some k)" "\<forall>j \<in> rejects check (set ids). i < j"
      unfolding before_refusal_def refused by blast
    have "check i = Inr (Some (hash k))" using check [of i] i(2) by simp
    then have "(hash k, i) \<in> set ?tuples" using i T(3) by blast
    then show "i \<in> S" unfolding S_def by (rule rev_image_eqI) simp
  qed
  define r where "r = first_repeat fs def ?tuples properties_of"
  have r: "is_least (repeats ?key {} S) r" unfolding r_def by (rule first_repeat_least [OF T(1) S]) simp
  have same: "projl (check i) = projl (judge i)" if "i \<in> refused judge (set ids)" for i
    using that check [of i] by (cases "judge i") auto
  have scope: "validate_scope fs def ids slots check properties_of = (case (r, first_violation check c) of
      (Some repeat, Some (first, violation)) \<Rightarrow>
        if repeat < first then Inl (uniqueness_violation def) else Inl violation
    | (None, Some (_, violation)) \<Rightarrow> Inl violation
    | (Some _, None) \<Rightarrow> Inl (uniqueness_violation def)
    | (None, None) \<Rightarrow> Inr ())"
    unfolding validate_scope_def Let_def r_def c(2) [symmetric] by simp
  have verdict: "scope_in_order def judge [] ids =
      (if repeats ?key {} (before_refusal judge (set ids)) \<noteq> {} then Inl (uniqueness_violation def)
       else case c of None \<Rightarrow> Inr () | Some i \<Rightarrow> Inl (projl (judge i)))"
    using scope_in_order_verdict [OF ids key c(1) [unfolded refused], where def = def and seen = "[]"] by simp
  note repeat_before_refusal [OF r c(1) [unfolded refused] lower upper]
  then show ?thesis using scope verdict same c(1)
    by (cases r; cases c) (auto simp: first_violation_def refused)
qed

section \<open>The records of a constraint\<close>

definition scope_ids :: "graph \<Rightarrow> constraint_definition \<Rightarrow> u64 list" where
  "scope_ids g def = (case cdef_entity def of
      Node \<Rightarrow> node_ids_by_label g (cdef_label def) | Relationship \<Rightarrow> rel_ids_by_type g (cdef_label def))"

definition entity_properties :: "graph \<Rightarrow> stored_index_entity \<Rightarrow> u64 \<Rightarrow> properties option" where
  "entity_properties g entity i = (case entity of
      Node \<Rightarrow> map_option nr_properties (node_at g i) | Relationship \<Rightarrow> map_option rr_properties (rel_at g i))"

definition tuple_present :: "constraint_definition \<Rightarrow> properties \<Rightarrow> bool" where
  "tuple_present def ps \<longleftrightarrow> requires_uniqueness (cdef_kind def) \<and> list_all (\<lambda>p. map_of ps p \<noteq> None) (cdef_properties def)"

definition record_verdict :: "float_std \<Rightarrow> constraint_definition \<Rightarrow> properties option \<Rightarrow>
    constraint_violation + string option" where
  "record_verdict fs def properties = (case properties of
      None \<Rightarrow> Inr None
    | Some ps \<Rightarrow> ebind (validate_record_against_constraint def ps True) (\<lambda>_.
        Inr (if tuple_present def ps then Some (write_property_tuple_key fs def ps) else None)))"

lemma check_record_verdict: "check_record fs hash def ps = map_sum id (map_option hash) (record_verdict fs def ps)"
  by (cases ps; auto simp: check_record_def record_verdict_def tuple_hash_def tuple_present_def ebind_def split: sum.split)

lemma constrained_properties_at:
  "map_of (constrained_properties keys stored) k = (if k \<in> set keys then map_of stored k else None)"
proof -
  have "map_of (fold (\<lambda>key ps. case map_of stored key of None \<Rightarrow> ps | Some v \<Rightarrow> btree_insert key v ps) keys acc) k =
      (if k \<in> set keys \<and> map_of stored k \<noteq> None then map_of stored k else map_of acc k)" for acc
    by (induction keys arbitrary: acc) (auto split: option.split)
  from this [of "[]"] show ?thesis unfolding constrained_properties_def by auto
qed

text \<open>A verdict reads the constrained properties only.\<close>

lemma validate_record_cong:
  assumes "\<And>k. k \<in> set (cdef_properties def) \<Longrightarrow> map_of ps k = map_of qs k"
  shows "validate_record_against_constraint def ps ex = validate_record_against_constraint def qs ex"
proof -
  have "filter (\<lambda>p. map_of ps p = None) (cdef_properties def) = filter (\<lambda>p. map_of qs p = None) (cdef_properties def)"
    using assms by (auto intro: filter_cong)
  then show ?thesis using assms unfolding validate_record_against_constraint_def
    by (auto split: stored_constraint_kind.split list.split)
qed

lemma write_key_cong:
  assumes "\<And>k. k \<in> set (cdef_properties def) \<Longrightarrow> map_of ps k = map_of qs k"
  shows "write_property_tuple_key fs def ps = write_property_tuple_key fs def qs"
  using assms unfolding write_property_tuple_key_def by (metis (mono_tags, lifting) map_eq_conv)

lemma tuple_present_cong:
  "(\<And>k. k \<in> set (cdef_properties def) \<Longrightarrow> map_of ps k = map_of qs k) \<Longrightarrow> tuple_present def ps = tuple_present def qs"
  by (simp add: tuple_present_def list_all_iff)

lemma record_verdict_constrained:
  "record_verdict fs def (map_option (constrained_properties (cdef_properties def)) ps) = record_verdict fs def ps"
proof (cases ps)
  case (Some stored)
  have eq: "map_of (constrained_properties (cdef_properties def) stored) k = map_of stored k"
    if "k \<in> set (cdef_properties def)" for k using that by (simp add: constrained_properties_at)
  show ?thesis using Some
    by (simp add: record_verdict_def validate_record_cong [OF eq] write_key_cong [OF eq] tuple_present_cong [OF eq])
qed (simp add: record_verdict_def)

lemma check_single_verdict:
  assumes "single_key def = Some key"
  shows "check_single fs hash def (map_of stored key) = map_sum id (map_option hash) (record_verdict fs def (Some stored))"
proof -
  have p: "cdef_properties def = [key]" "\<forall>t. cdef_kind def \<noteq> PropertyType t"
    using assms by (auto simp: single_key_def split: stored_constraint_kind.splits list.splits)
  have "write_property_tuple_key fs def stored = value_key fs v" if "map_of stored key = Some v" for v
    using that p by (simp add: write_property_tuple_key_def)
  moreover have "validate_record_against_constraint def ps ex =
      (if ex \<and> requires_existence (cdef_kind def) \<and> map_of ps key = None
       then Inl (MissingProperty (cdef_name def) (cdef_entity def) (cdef_label def) key) else Inr ())" for ps ex
    using p by (auto simp: validate_record_against_constraint_def split: stored_constraint_kind.split)
  ultimately show ?thesis using p
    by (cases "map_of stored key") (auto simp: check_single_def record_verdict_def tuple_present_def value_ref_key_eq)
qed

section \<open>The scan of the existing data\<close>

lemma scope_ids_ok:
  assumes "graph_ok g"
  shows "sorted_wrt (<) (scope_ids g def)"
    and "cdef_entity def = Node \<Longrightarrow> i \<in> set (scope_ids g def) \<longleftrightarrow> (\<exists>n. node_at g i = Some n \<and> cdef_label def \<in> set (nr_labels n))"
    and "cdef_entity def = Relationship \<Longrightarrow> i \<in> set (scope_ids g def) \<longleftrightarrow> (\<exists>r. rel_at g i = Some r \<and> rr_type r = cdef_label def)"
proof -
  let ?nodes = "index_ids (gr_nodes_by_label g) (cdef_label def)" and ?rels = "index_ids (gr_rels_by_type g) (cdef_label def)"
  have eq: "scope_ids g def = (case cdef_entity def of Node \<Rightarrow> ?nodes | Relationship \<Rightarrow> ?rels)"
    by (simp add: scope_ids_def node_ids_by_label_def rel_ids_by_type_def index_ids_def
        split: option.split stored_index_entity.split)
  have "bitmap_ok ?nodes" "bitmap_ok ?rels"
    using assms by (auto simp: graph_ok_def labels_indexed_def types_indexed_def intro!: index_ids_ok)
  then show "sorted_wrt (<) (scope_ids g def)"
    by (simp add: eq bitmap_ok_def strict_sorted_iff split: stored_index_entity.split)
  show "cdef_entity def = Node \<Longrightarrow> i \<in> set (scope_ids g def) \<longleftrightarrow> (\<exists>n. node_at g i = Some n \<and> cdef_label def \<in> set (nr_labels n))"
    "cdef_entity def = Relationship \<Longrightarrow> i \<in> set (scope_ids g def) \<longleftrightarrow> (\<exists>r. rel_at g i = Some r \<and> rr_type r = cdef_label def)"
    using assms by (auto simp: eq graph_ok_def labels_indexed_def types_indexed_def)
qed

lemma scan_of_records:
  assumes sorted: "sorted_wrt (<) ids" and slots: "\<forall>i \<in> set ids. unat i < slots"
    and Q: "\<And>i. Q i = map_option (constrained_properties (cdef_properties def)) (P i)"
    and single: "\<And>i key. S key i = (case P i of None \<Rightarrow> Inr None | Some ps \<Rightarrow> check_single fs hash def (map_of ps key))"
  shows "(case single_key def of
      Some key \<Rightarrow> validate_scope fs def ids slots (S key) Q
    | None \<Rightarrow> validate_scope fs def ids slots (\<lambda>i. check_record fs hash def (Q i)) Q) =
     scope_in_order def (\<lambda>i. record_verdict fs def (P i)) [] ids"
proof -
  have same: "record_verdict fs def (Q i) = record_verdict fs def (P i)" for i
    by (simp add: Q record_verdict_constrained)
  have key: "(case Q i of None \<Rightarrow> [] | Some ps \<Rightarrow> write_property_tuple_key fs def ps) = k"
    if "record_verdict fs def (P i) = Inr (Some k)" for i k
    using that [folded same] by (auto simp: record_verdict_def split: option.splits if_splits)
  have check: "check_record fs hash def (Q i) = map_sum id (map_option hash) (record_verdict fs def (P i))" for i
    by (simp add: check_record_verdict same)
  have single: "S key i = map_sum id (map_option hash) (record_verdict fs def (P i))" if "single_key def = Some key" for i key
    unfolding single using check_single_verdict [OF that] by (cases "P i") (simp_all add: record_verdict_def)
  show ?thesis
    using validate_scope_in_order [OF sorted slots single key] validate_scope_in_order [OF sorted slots check key]
    by (simp split: option.split)
qed

lemma existing_data_in_order:
  assumes ok: "graph_ok g"
  shows "validate_existing_data_for_constraint fs hash g def =
     scope_in_order def (\<lambda>i. record_verdict fs def (entity_properties g (cdef_entity def) i)) [] (scope_ids g def)"
proof (cases "cdef_entity def")
  case Node
  show ?thesis
  proof (cases "map_of (gr_nodes_by_label g) (cdef_label def)")
    case (Some ids)
    then have ids: "scope_ids g def = ids" using Node by (simp add: scope_ids_def node_ids_by_label_def)
    have "\<forall>i \<in> set ids. unat i < length (gr_nodes g)" using scope_ids_ok(2) [OF ok Node] ids node_at_bound by blast
    then show ?thesis using scope_ids_ok(1) [OF ok, of def, unfolded ids]
      unfolding validate_existing_data_for_constraint_def validate_existing_nodes_for_constraint_def Node Some Let_def ids
        entity_properties_def stored_index_entity.case option.case
      by (intro scan_of_records) (simp_all add: option.map_comp comp_def split: option.split)
  qed (simp add: validate_existing_data_for_constraint_def validate_existing_nodes_for_constraint_def scope_ids_def
      node_ids_by_label_def Node)
next
  case Relationship
  show ?thesis
  proof (cases "map_of (gr_rels_by_type g) (cdef_label def)")
    case (Some ids)
    then have ids: "scope_ids g def = ids" using Relationship by (simp add: scope_ids_def rel_ids_by_type_def)
    have "\<forall>i \<in> set ids. unat i < length (gr_relationships g)"
      using scope_ids_ok(3) [OF ok Relationship] ids rel_at_bound by blast
    then show ?thesis using scope_ids_ok(1) [OF ok, of def, unfolded ids]
      unfolding validate_existing_data_for_constraint_def validate_existing_rels_for_constraint_def Relationship Some Let_def ids
        entity_properties_def stored_index_entity.case option.case
      by (intro scan_of_records) (simp_all add: option.map_comp comp_def split: option.split)
  qed (simp add: validate_existing_data_for_constraint_def validate_existing_rels_for_constraint_def scope_ids_def
      rel_ids_by_type_def Relationship)
qed

lemma scope_in_order_accepts:
  "scope_in_order def judge seen ids = Inr () \<longleftrightarrow> (\<forall>i \<in> set ids. \<not> isl (judge i)) \<and>
     distinct (List.map_filter (\<lambda>i. projr (judge i)) ids) \<and> set (List.map_filter (\<lambda>i. projr (judge i)) ids) \<inter> set seen = {}"
proof (induction ids arbitrary: seen)
  case (Cons i "is")
  then show ?case by (cases "judge i") (auto simp: List.map_filter_simps split: option.split)
qed simp

lemma existing_data_scan_reads_data: "reads_data (existing_data_scan fs hash)"
proof -
  have same: "node_at (g\<lparr>gr_schema := s\<rparr>) = node_at g" "rel_at (g\<lparr>gr_schema := s\<rparr>) = rel_at g"
    "gr_nodes (g\<lparr>gr_schema := s\<rparr>) = gr_nodes g" "gr_relationships (g\<lparr>gr_schema := s\<rparr>) = gr_relationships g"
    "gr_nodes_by_label (g\<lparr>gr_schema := s\<rparr>) = gr_nodes_by_label g"
    "gr_rels_by_type (g\<lparr>gr_schema := s\<rparr>) = gr_rels_by_type g" for g :: graph and s
    by (simp_all add: node_at_def rel_at_def fun_eq_iff)
  show ?thesis unfolding reads_data_def existing_data_scan_def validate_existing_data_for_constraint_def
      validate_existing_nodes_for_constraint_def validate_existing_rels_for_constraint_def same by simp
qed

end
