(* ===== verification/Constraint_Safety.thy ===== *)
theory Constraint_Safety
  imports Constraint_Scan Constraint_Guard
begin

text \<open>
  What a constraint promises of the records, and what the checks establish: a write that passes its check
  keeps every constraint, and a constraint is created only when the records satisfy it.
\<close>

section \<open>The promise of a constraint\<close>

definition in_scope :: "graph \<Rightarrow> constraint_definition \<Rightarrow> u64 \<Rightarrow> properties \<Rightarrow> bool" where
  "in_scope g def i ps \<longleftrightarrow> (case cdef_entity def of
      Node \<Rightarrow> \<exists>n. node_at g i = Some n \<and> cdef_label def \<in> set (nr_labels n) \<and> nr_properties n = ps
    | Relationship \<Rightarrow> \<exists>r. rel_at g i = Some r \<and> rr_type r = cdef_label def \<and> rr_properties r = ps)"

definition lacks :: "constraint_definition \<Rightarrow> properties \<Rightarrow> bool" where
  "lacks def ps \<longleftrightarrow> requires_existence (cdef_kind def) \<and> (\<exists>p \<in> set (cdef_properties def). map_of ps p = None)"

definition ill_typed :: "constraint_definition \<Rightarrow> properties \<Rightarrow> bool" where
  "ill_typed def ps \<longleftrightarrow> (\<exists>target key rest v. cdef_kind def = PropertyType target \<and> cdef_properties def = key # rest
     \<and> map_of ps key = Some v \<and> \<not> value_matches_property_type v target)"

text \<open>
  Two records with the same tuple: the values are equal, and so are their keys. The code has two notions of
  a duplicate: a write compares values (\<open>any_other_node_with_tuple\<close>), the scan of a new constraint compares key
  texts. They differ for the two zeros and near points, equal with two texts, and for NaN and 64-bit integer
  vectors beyond 53 bits, unequal with one text. What holds after any mixture of both is that no two records
  are duplicates in both senses; \<open>Store_Guarantees\<close> shows that for all other values equality is enough.
\<close>

definition clash :: "float_std \<Rightarrow> constraint_definition \<Rightarrow> properties \<Rightarrow> properties \<Rightarrow> bool" where
  "clash fs def ps qs \<longleftrightarrow> requires_uniqueness (cdef_kind def) \<and> (\<exists>s t. constrained_tuple def ps = Some s \<and>
     constrained_tuple def qs = Some t \<and> list_all2 (value_eq fs) s t \<and> list_all2 (value_eq fs) t s \<and>
     write_property_tuple_key fs def ps = write_property_tuple_key fs def qs)"

text \<open>The records in \<open>X\<close> may lack properties: their check was put off.\<close>

definition upholds :: "float_std \<Rightarrow> (stored_index_entity \<times> u64) set \<Rightarrow> graph \<Rightarrow> constraint_definition \<Rightarrow> bool" where
  "upholds fs X g def \<longleftrightarrow>
     (\<forall>i ps. in_scope g def i ps \<longrightarrow> \<not> ill_typed def ps \<and> ((cdef_entity def, i) \<notin> X \<longrightarrow> \<not> lacks def ps)) \<and>
     (\<forall>i j ps qs. in_scope g def i ps \<longrightarrow> in_scope g def j qs \<longrightarrow> i \<noteq> j \<longrightarrow> \<not> clash fs def ps qs)"

definition constraints_hold :: "float_std \<Rightarrow> (stored_index_entity \<times> u64) set \<Rightarrow> graph \<Rightarrow> bool" where
  "constraints_hold fs X g \<longleftrightarrow> (\<forall>def \<in> set (constraint_list (ss_constraints (gr_schema g))). upholds fs X g def)"

lemma clash_sym: "clash fs def ps qs \<Longrightarrow> clash fs def qs ps"
  unfolding clash_def by metis

lemma upholds_mono: "upholds fs X g def \<Longrightarrow> X \<subseteq> Y \<Longrightarrow> upholds fs Y g def"
  unfolding upholds_def by blast

text \<open>A record's state matters only through its constrained properties.\<close>

lemma those_map_Some: "those (map f xs) = Some ys \<longleftrightarrow> map f xs = map Some ys"
  by (induction xs arbitrary: ys) (auto split: option.splits)

lemma those_None: "those xs = None \<longleftrightarrow> None \<in> set xs"
  by (induction xs) (auto split: option.splits)

lemma constrained_tuple_cong:
  "(\<And>k. k \<in> set (cdef_properties def) \<Longrightarrow> map_of ps k = map_of qs k) \<Longrightarrow> constrained_tuple def ps = constrained_tuple def qs"
  unfolding constrained_tuple_def by (metis map_eq_conv)

lemma clash_cong:
  assumes "\<And>k. k \<in> set (cdef_properties def) \<Longrightarrow> map_of ps k = map_of qs k"
  shows "clash fs def ps rs = clash fs def qs rs"
  unfolding clash_def using constrained_tuple_cong [of def ps qs, OF assms] write_key_cong [of def ps qs, OF assms]
  by simp

lemma lacks_cong:
  "(\<And>k. k \<in> set (cdef_properties def) \<Longrightarrow> map_of ps k = map_of qs k) \<Longrightarrow> lacks def ps = lacks def qs"
  by (auto simp: lacks_def)

lemma ill_typed_cong:
  "(\<And>k. k \<in> set (cdef_properties def) \<Longrightarrow> map_of ps k = map_of qs k) \<Longrightarrow> ill_typed def ps = ill_typed def qs"
  by (auto simp: ill_typed_def)

section \<open>One record changes\<close>

text \<open>
  A graph in which the constrained record \<open>i\<close> is new or changed: what it must satisfy. \<open>at\<close> is its new
  state when it is in scope.
\<close>

definition admissible :: "float_std \<Rightarrow> bool \<Rightarrow> graph \<Rightarrow> constraint_definition \<Rightarrow> u64 \<Rightarrow> properties \<Rightarrow> bool" where
  "admissible fs lacking g def i ps \<longleftrightarrow> \<not> ill_typed def ps \<and> (lacking \<or> \<not> lacks def ps) \<and>
     (\<forall>j qs. in_scope g def j qs \<longrightarrow> j \<noteq> i \<longrightarrow> \<not> clash fs def qs ps)"

lemma admissible_cong:
  assumes "\<And>k. k \<in> set (cdef_properties def) \<Longrightarrow> map_of ps k = map_of qs k"
  shows "admissible fs lacking g def i ps = admissible fs lacking g def i qs"
  using lacks_cong [of def ps qs, OF assms] ill_typed_cong [of def ps qs, OF assms]
    clash_cong [of def ps qs, OF assms] clash_sym [of fs def] unfolding admissible_def by metis

lemma upholds_admissible: "upholds fs X g def \<Longrightarrow> in_scope g def i ps \<Longrightarrow> admissible fs ((cdef_entity def, i) \<in> X) g def i ps"
  unfolding upholds_def admissible_def by blast

lemma in_scope_unique: "in_scope g def i ps \<Longrightarrow> in_scope g def i qs \<Longrightarrow> ps = qs"
  by (auto simp: in_scope_def split: stored_index_entity.splits)

lemma upholds_update:
  assumes "upholds fs X g def" and others: "\<And>j qs. j \<noteq> i \<Longrightarrow> in_scope g' def j qs \<Longrightarrow> in_scope g def j qs"
    and new: "\<And>ps. in_scope g' def i ps \<Longrightarrow> admissible fs ((cdef_entity def, i) \<in> Y) g def i ps" and "X \<subseteq> Y"
  shows "upholds fs Y g' def"
  unfolding upholds_def
proof (intro conjI allI impI)
  fix j ps assume "in_scope g' def j ps"
  then show "\<not> ill_typed def ps" "(cdef_entity def, j) \<notin> Y \<Longrightarrow> \<not> lacks def ps"
    using assms(1,4) others [of j ps] new [of ps] unfolding upholds_def admissible_def by blast+
next
  fix j k ps qs assume s: "in_scope g' def j ps" "in_scope g' def k qs" "j \<noteq> k"
  show "\<not> clash fs def ps qs"
  proof (cases "j = i \<or> k = i")
    case True
    then show ?thesis using s others new clash_sym [of fs def] unfolding admissible_def by metis
  next
    case False
    then show ?thesis using s others assms(1) unfolding upholds_def by metis
  qed
qed

lemma upholds_fewer:
  "upholds fs X g def \<Longrightarrow> (\<And>j qs. in_scope g' def j qs \<Longrightarrow> in_scope g def j qs) \<Longrightarrow> upholds fs X g' def"
  unfolding upholds_def by blast

section \<open>What a check establishes\<close>

lemma each_constraint_ok: "each_constraint check defs = Inr () \<longleftrightarrow> (\<forall>def \<in> set defs. check def = Inr ())"
  by (induction defs) auto

lemma validate_record_ok:
  "validate_record_against_constraint def ps ex = Inr () \<longleftrightarrow> \<not> ill_typed def ps \<and> (ex \<longrightarrow> \<not> lacks def ps)"
proof -
  have "filter (\<lambda>p. map_of ps p = None) (cdef_properties def) \<noteq> [] \<longleftrightarrow> (\<exists>p \<in> set (cdef_properties def). map_of ps p = None)"
    by (auto simp: filter_empty_conv)
  then show ?thesis
    by (auto simp: validate_record_against_constraint_def ill_typed_def lacks_def
        split: stored_constraint_kind.split list.split option.split)
qed

text \<open>An index answers for a label and a value with all the records that hold it.\<close>

definition index_complete :: "check_env \<Rightarrow> graph \<Rightarrow> bool" where
  "index_complete env g \<longleftrightarrow>
     (\<forall>label key v ids i n w. env_node_ids env g label key v = Some ids \<longrightarrow> node_at g i = Some n \<longrightarrow>
        label \<in> set (nr_labels n) \<longrightarrow> map_of (nr_properties n) key = Some w \<longrightarrow> value_eq (env_float env) w v \<longrightarrow>
        i \<in> set ids) \<and>
     (\<forall>ty key v ids i r w. env_rel_ids env g ty key v = Some ids \<longrightarrow> rel_at g i = Some r \<longrightarrow>
        rr_type r = ty \<longrightarrow> map_of (rr_properties r) key = Some w \<longrightarrow> value_eq (env_float env) w v \<longrightarrow> i \<in> set ids)"

lemma tuple_matches_all:
  assumes "constrained_tuple def qs = Some s" and "list_all2 (value_eq fs) s t"
  shows "tuple_matches fs (cdef_properties def) t qs"
proof -
  have q: "map (map_of qs) (cdef_properties def) = map Some s" using assms(1) by (simp add: constrained_tuple_def those_map_Some)
  then have "length s = length (cdef_properties def)" by (metis length_map)
  moreover have "map_of qs (cdef_properties def ! k) = Some (s ! k)" if "k < length s" for k
    using q that by (metis length_map nth_map)
  ultimately show ?thesis using assms(2) by (auto simp: tuple_matches_def list_all_length list_all2_conv_all_nth)
qed

lemma node_conflict_found:
  assumes ok: "graph_ok g" and ix: "index_complete env g" and e: "cdef_entity def = Node"
    and j: "in_scope g def j qs" "Some j \<noteq> skip" and s: "constrained_tuple def qs = Some s" "list_all2 (value_eq (env_float env)) s t"
  shows "any_other_node_with_tuple env g (cdef_label def) (cdef_properties def) t skip"
proof -
  obtain n where n: "node_at g j = Some n" "cdef_label def \<in> set (nr_labels n)" "nr_properties n = qs"
    using j e by (auto simp: in_scope_def)
  have labelled: "j \<in> set (node_ids_by_label g (cdef_label def))"
    using scope_ids_ok(2) [OF ok e, of j] n e by (auto simp: scope_ids_def)
  have candidate: "j \<in> set (case indexed_candidates (env_node_ids env) g (cdef_label def) (cdef_properties def) t of
      Some ids \<Rightarrow> ids | None \<Rightarrow> node_ids_by_label g (cdef_label def))"
  proof (cases "indexed_candidates (env_node_ids env) g (cdef_label def) (cdef_properties def) t")
    case (Some ids)
    then obtain key rest v vs where k: "cdef_properties def = key # rest" "t = v # vs"
      "env_node_ids env g (cdef_label def) key v = Some ids"
      by (auto simp: indexed_candidates_def split: list.splits)
    obtain w ws where w: "s = w # ws" "value_eq (env_float env) w v" using s(2) k(2) by (cases s) auto
    have "map_of (nr_properties n) key = Some w" using s(1) k(1) w(1) n(3) by (auto simp: constrained_tuple_def split: option.splits)
    then have "j \<in> set ids" using ix k(3) n w(2) unfolding index_complete_def by blast
    then show ?thesis using Some by simp
  qed (simp add: labelled)
  then show ?thesis unfolding any_other_node_with_tuple_def Let_def list_ex_iff
    using j(2) n tuple_matches_all [OF s] by (intro bexI [OF _ candidate]) auto
qed

lemma rel_conflict_found:
  assumes ok: "graph_ok g" and ix: "index_complete env g" and e: "cdef_entity def = Relationship"
    and j: "in_scope g def j qs" "Some j \<noteq> skip" and s: "constrained_tuple def qs = Some s" "list_all2 (value_eq (env_float env)) s t"
  shows "any_other_rel_with_tuple env g (cdef_label def) (cdef_properties def) t skip"
proof -
  obtain r where r: "rel_at g j = Some r" "rr_type r = cdef_label def" "rr_properties r = qs"
    using j e by (auto simp: in_scope_def)
  have typed: "j \<in> set (rel_ids_by_type g (cdef_label def))"
    using scope_ids_ok(3) [OF ok e, of j] r e by (auto simp: scope_ids_def)
  have candidate: "j \<in> set (case indexed_candidates (env_rel_ids env) g (cdef_label def) (cdef_properties def) t of
      Some ids \<Rightarrow> ids | None \<Rightarrow> rel_ids_by_type g (cdef_label def))"
  proof (cases "indexed_candidates (env_rel_ids env) g (cdef_label def) (cdef_properties def) t")
    case (Some ids)
    then obtain key rest v vs where k: "cdef_properties def = key # rest" "t = v # vs"
      "env_rel_ids env g (cdef_label def) key v = Some ids"
      by (auto simp: indexed_candidates_def split: list.splits)
    obtain w ws where w: "s = w # ws" "value_eq (env_float env) w v" using s(2) k(2) by (cases s) auto
    have "map_of (rr_properties r) key = Some w" using s(1) k(1) w(1) r(3) by (auto simp: constrained_tuple_def split: option.splits)
    then have "j \<in> set ids" using ix k(3) r w(2) unfolding index_complete_def by blast
    then show ?thesis using Some by simp
  qed (simp add: typed)
  then show ?thesis unfolding any_other_rel_with_tuple_def Let_def list_ex_iff
    using j(2) r tuple_matches_all [OF s] by (intro bexI [OF _ candidate]) auto
qed

text \<open>No other record in scope has a tuple equal to \<open>t\<close>.\<close>

definition no_other :: "float_std \<Rightarrow> graph \<Rightarrow> constraint_definition \<Rightarrow> u64 \<Rightarrow> property_value list \<Rightarrow> bool" where
  "no_other fs g def i t \<longleftrightarrow> (\<forall>j qs s. in_scope g def j qs \<longrightarrow> j \<noteq> i \<longrightarrow> constrained_tuple def qs = Some s \<longrightarrow>
     \<not> list_all2 (value_eq fs) s t)"

lemma uniqueness_check_ok:
  "uniqueness_check def tuple conflict = Inr () \<longleftrightarrow>
     (requires_uniqueness (cdef_kind def) \<longrightarrow> (\<forall>t. tuple = Some t \<longrightarrow> \<not> conflict t))"
  by (auto simp: uniqueness_check_def split: option.split)

lemma no_conflict:
  assumes "graph_ok g" and "index_complete env g" and skip: "skip = None \<or> skip = Some i"
  shows "cdef_entity def = Node \<Longrightarrow>
      \<not> any_other_node_with_tuple env g (cdef_label def) (cdef_properties def) t skip \<Longrightarrow> no_other (env_float env) g def i t"
    and "cdef_entity def = Relationship \<Longrightarrow>
      \<not> any_other_rel_with_tuple env g (cdef_label def) (cdef_properties def) t skip \<Longrightarrow> no_other (env_float env) g def i t"
  using node_conflict_found [OF assms(1,2)] rel_conflict_found [OF assms(1,2)] skip unfolding no_other_def by blast+

lemma admissible_record:
  assumes "validate_record_against_constraint def ps ex = Inr ()"
    and "\<And>t. requires_uniqueness (cdef_kind def) \<Longrightarrow> constrained_tuple def ps = Some t \<Longrightarrow> no_other fs g def i t"
  shows "admissible fs (\<not> ex) g def i ps"
  using assms unfolding admissible_def validate_record_ok clash_def no_other_def by blast

lemma tuple_after_set: "constrained_tuple def (btree_insert key v ps) = constrained_tuple_after_set def ps key v"
  by (simp add: constrained_tuple_def constrained_tuple_after_set_def fun_upd_def)

lemma admissible_set:
  assumes old: "admissible fs lacking g def i ps"
    and new: "key \<in> set (cdef_properties def) \<Longrightarrow> type_check def key v = Inr ()"
      "\<And>t. key \<in> set (cdef_properties def) \<Longrightarrow> requires_uniqueness (cdef_kind def) \<Longrightarrow>
        constrained_tuple_after_set def ps key v = Some t \<Longrightarrow> no_other fs g def i t"
  shows "admissible fs lacking g def i (btree_insert key v ps)"
proof (cases "key \<in> set (cdef_properties def)")
  case True
  have typed: "\<not> ill_typed def (btree_insert key v ps)"
    using old new(1) [OF True] by (auto simp: ill_typed_def admissible_def type_check_def split: if_splits)
  have lacks: "lacks def (btree_insert key v ps) \<Longrightarrow> lacks def ps" by (auto simp: lacks_def split: if_splits)
  have unique: "\<not> clash fs def qs (btree_insert key v ps)" if "in_scope g def j qs" "j \<noteq> i" for j qs
    using new(2) [OF True] that unfolding clash_def tuple_after_set no_other_def by blast
  show ?thesis using typed lacks unique old unfolding admissible_def by blast
next
  case False
  then have "map_of (btree_insert key v ps) k = map_of ps k" if "k \<in> set (cdef_properties def)" for k using that by auto
  from admissible_cong [OF this] old show ?thesis by blast
qed

lemma admissible_remove:
  assumes old: "admissible fs lacking g def i ps" and s: "sorted_keys ps"
    and new: "\<not> lacking' \<Longrightarrow> \<not> lacking \<and> (requires_existence (cdef_kind def) \<longrightarrow> key \<notin> set (cdef_properties def))"
  shows "admissible fs lacking' g def i (btree_remove key ps)"
proof (cases "key \<in> set (cdef_properties def)")
  case True
  have typed: "\<not> ill_typed def (btree_remove key ps)"
    using old s by (auto simp: ill_typed_def admissible_def map_of_btree_remove split: if_splits)
  have "constrained_tuple def (btree_remove key ps) = None"
  proof -
    have "map_of (btree_remove key ps) key = None" using s by (simp add: map_of_btree_remove)
    then show ?thesis using True unfolding constrained_tuple_def those_None by force
  qed
  then have "\<not> clash fs def qs (btree_remove key ps)" for qs by (simp add: clash_def)
  then show ?thesis using typed new True by (auto simp: admissible_def lacks_def)
next
  case False
  then have "map_of (btree_remove key ps) k = map_of ps k" if "k \<in> set (cdef_properties def)" for k
    using that s by (auto simp: map_of_btree_remove)
  from admissible_cong [OF this] old new show ?thesis unfolding admissible_def by blast
qed

end
