(* ===== verification/Graph_Effects.thy ===== *)
theory Graph_Effects
  imports Graph_Replay
begin

text \<open>
  What each mutation does to the records, as a change of the partial functions \<open>node_at\<close> and \<open>rel_at\<close>;
  none of them changes the catalogs.
\<close>

definition same_catalogs :: "graph \<Rightarrow> graph \<Rightarrow> bool" where
  "same_catalogs g g' \<longleftrightarrow> ss_indexes (gr_schema g') = ss_indexes (gr_schema g)
     \<and> ss_constraints (gr_schema g') = ss_constraints (gr_schema g)
     \<and> ss_active (gr_schema g') = ss_active (gr_schema g)"

definition becomes :: "graph \<Rightarrow> graph \<Rightarrow> (node_id \<Rightarrow> node_record option) \<Rightarrow>
    (relationship_id \<Rightarrow> relationship_record option) \<Rightarrow> bool" where
  "becomes g g' N R \<longleftrightarrow> node_at g' = N \<and> rel_at g' = R \<and> same_catalogs g g'"

lemma same_catalogs_refl [simp]: "same_catalogs g g"
  by (simp add: same_catalogs_def)

lemma same_catalogs_trans: "same_catalogs g h \<Longrightarrow> same_catalogs h k \<Longrightarrow> same_catalogs g k"
  by (simp add: same_catalogs_def)

lemma same_catalogs_emit [simp]: "same_catalogs g (graph_emit e g') = same_catalogs g g'"
  by (simp add: same_catalogs_def graph_emit_def emit_def)

lemma becomes_emit [simp]: "becomes g (graph_emit e g') N R = becomes g g' N R"
  by (simp add: becomes_def)

lemma becomes_other_fields [simp]:
  "becomes g (g'\<lparr>gr_nodes_by_label := x\<rparr>) N R = becomes g g' N R"
  "becomes g (g'\<lparr>gr_rels_by_type := y\<rparr>) N R = becomes g g' N R"
  "becomes g (g'\<lparr>gr_adjacency := z\<rparr>) N R = becomes g g' N R"
  by (simp_all add: becomes_def same_catalogs_def)

section \<open>Properties\<close>

lemma btree_remove_absent: "map_of m k = None \<Longrightarrow> btree_remove k m = m"
  by (induction m rule: btree_remove.induct) (auto split: if_splits)

lemma becomes_node:
  "node_at g i = Some n \<Longrightarrow> becomes g (g\<lparr>gr_nodes := (gr_nodes g)[unat i := Some n']\<rparr>) ((node_at g)(i \<mapsto> n')) (rel_at g)"
  using node_at_bound [of g i n] by (simp add: becomes_def node_at_update same_catalogs_def)

lemma becomes_rel:
  "rel_at g i = Some r \<Longrightarrow>
   becomes g (g\<lparr>gr_relationships := (gr_relationships g)[unat i := Some r']\<rparr>) (node_at g) ((rel_at g)(i \<mapsto> r'))"
  using rel_at_bound [of g i r] by (simp add: becomes_def rel_at_update same_catalogs_def)

lemma set_node_property_becomes:
  "node_at g i = Some n \<Longrightarrow> becomes g (snd (set_node_property i key v g))
     ((node_at g)(i \<mapsto> n\<lparr>nr_properties := btree_insert key v (nr_properties n)\<rparr>)) (rel_at g)"
  by (simp add: set_node_property_def edit_node_property_def edit_property_def becomes_node)

lemma set_node_property_absent: "node_at g i = None \<Longrightarrow> snd (set_node_property i key v g) = g"
  by (simp add: set_node_property_def edit_node_property_def)

lemma remove_node_property_becomes:
  "node_at g i = Some n \<Longrightarrow> sorted_keys (nr_properties n) \<Longrightarrow> becomes g (snd (remove_node_property i key g))
     ((node_at g)(i \<mapsto> n\<lparr>nr_properties := btree_remove key (nr_properties n)\<rparr>)) (rel_at g)"
proof (cases "map_of (nr_properties n) key")
  case None
  assume n: "node_at g i = Some n"
  have "btree_remove key (nr_properties n) = nr_properties n" using None by (rule btree_remove_absent)
  then have "(node_at g)(i \<mapsto> n\<lparr>nr_properties := btree_remove key (nr_properties n)\<rparr>) = node_at g" using n by auto
  moreover have "snd (remove_node_property i key g) = g"
    using n None by (simp add: remove_node_property_def edit_node_property_def edit_property_def)
  ultimately show ?thesis by (simp add: becomes_def)
qed (simp add: remove_node_property_def edit_node_property_def edit_property_def becomes_node)

lemma remove_node_property_absent: "node_at g i = None \<Longrightarrow> snd (remove_node_property i key g) = g"
  by (simp add: remove_node_property_def edit_node_property_def)

lemma set_relationship_property_becomes:
  "rel_at g i = Some r \<Longrightarrow> becomes g (snd (set_relationship_property i key v g)) (node_at g)
     ((rel_at g)(i \<mapsto> r\<lparr>rr_properties := btree_insert key v (rr_properties r)\<rparr>))"
  by (simp add: set_relationship_property_def edit_rel_property_def edit_property_def becomes_rel)

lemma set_relationship_property_absent: "rel_at g i = None \<Longrightarrow> snd (set_relationship_property i key v g) = g"
  by (simp add: set_relationship_property_def edit_rel_property_def)

lemma remove_relationship_property_becomes:
  "rel_at g i = Some r \<Longrightarrow> sorted_keys (rr_properties r) \<Longrightarrow> becomes g (snd (remove_relationship_property i key g))
     (node_at g) ((rel_at g)(i \<mapsto> r\<lparr>rr_properties := btree_remove key (rr_properties r)\<rparr>))"
proof (cases "map_of (rr_properties r) key")
  case None
  assume r: "rel_at g i = Some r"
  have "btree_remove key (rr_properties r) = rr_properties r" using None by (rule btree_remove_absent)
  then have "(rel_at g)(i \<mapsto> r\<lparr>rr_properties := btree_remove key (rr_properties r)\<rparr>) = rel_at g" using r by auto
  moreover have "snd (remove_relationship_property i key g) = g"
    using r None by (simp add: remove_relationship_property_def edit_rel_property_def edit_property_def)
  ultimately show ?thesis by (simp add: becomes_def)
qed (simp add: remove_relationship_property_def edit_rel_property_def edit_property_def becomes_rel)

lemma remove_relationship_property_absent: "rel_at g i = None \<Longrightarrow> snd (remove_relationship_property i key g) = g"
  by (simp add: remove_relationship_property_def edit_rel_property_def)

lemma becomes_emit_edits [simp]: "becomes g (emit_edits i edits olds g') N R = becomes g g' N R"
  by (induction i edits olds g' rule: emit_edits.induct) (auto split: option.split)

lemma update_node_properties_becomes:
  "node_at g i = Some n \<Longrightarrow> becomes g (snd (update_node_properties i edits g))
     ((node_at g)(i \<mapsto> n\<lparr>nr_properties := snd (edit_properties edits (nr_properties n))\<rparr>)) (rel_at g)"
  by (simp add: update_node_properties_def edit_node_properties_def split_beta Let_def becomes_node)

lemma update_node_properties_absent: "node_at g i = None \<Longrightarrow> snd (update_node_properties i edits g) = g"
  by (simp add: update_node_properties_def edit_node_properties_def)

section \<open>Labels\<close>

lemma add_node_label_becomes:
  "node_at g i = Some n \<Longrightarrow> trim label \<noteq> [] \<Longrightarrow> trim label \<notin> set (nr_labels n) \<Longrightarrow>
   becomes g (snd (add_node_label i label g))
     ((node_at g)(i \<mapsto> n\<lparr>nr_labels := nr_labels n @ [trim label]\<rparr>)) (rel_at g)"
  using becomes_node [of g i n "n\<lparr>nr_labels := nr_labels n @ [trim label]\<rparr>"]
  by (simp add: add_node_label_def update_node_def on_node_label_added_def Let_def)

lemma add_node_label_same:
  "node_at g i = None \<or> trim label = [] \<or> (\<exists>n. node_at g i = Some n \<and> trim label \<in> set (nr_labels n)) \<Longrightarrow>
   snd (add_node_label i label g) = g"
  by (auto simp: add_node_label_def Let_def split: option.split)

lemma remove_node_label_becomes:
  "node_at g i = Some n \<Longrightarrow> becomes g (snd (remove_node_label i label g))
     ((node_at g)(i \<mapsto> n\<lparr>nr_labels := filter (\<lambda>l. l \<noteq> label) (nr_labels n)\<rparr>)) (rel_at g)"
proof (cases "label \<in> set (nr_labels n)")
  case True
  assume "node_at g i = Some n"
  from this becomes_node [OF this, of "n\<lparr>nr_labels := filter (\<lambda>l. l \<noteq> label) (nr_labels n)\<rparr>"] True show ?thesis
    by (simp add: remove_node_label_def update_node_def on_node_label_removed_def)
next
  case False
  assume n: "node_at g i = Some n"
  have "filter (\<lambda>l. l \<noteq> label) (nr_labels n) = nr_labels n" using False by (auto simp: filter_id_conv)
  then have "(node_at g)(i \<mapsto> n\<lparr>nr_labels := filter (\<lambda>l. l \<noteq> label) (nr_labels n)\<rparr>) = node_at g" using n by auto
  then show ?thesis using n False by (simp add: remove_node_label_def becomes_def)
qed

lemma remove_node_label_absent: "node_at g i = None \<Longrightarrow> snd (remove_node_label i label g) = g"
  by (simp add: remove_node_label_def)

section \<open>Creations\<close>

lemma try_create_node_becomes:
  assumes ok: "graph_ok g" and "try_create_node labels ps g = (Some n, g')"
  shows "becomes g g' ((node_at g)(nr_id n \<mapsto> n)) (rel_at g)" and "node_at g (nr_id n) = None"
    and "nr_labels n = normalize_labels labels" and "nr_properties n = ps"
proof -
  obtain i idx g1 g2 where p: "i = gr_next_node_id g" "ensure_node_slot_checked i g = Inr (idx, g1)"
    "bump_next_node_id_past i g1 = Inr g2" "try_reserve_next_node_slot g = Some (i, idx, g2)"
    using assms(2) by (auto simp: try_create_node_def try_reserve_next_node_slot_def Let_def split: sum.splits option.splits)
  let ?n = "\<lparr>nr_id = i, nr_labels = normalize_labels labels, nr_properties = ps\<rparr>"
  have n: "n = ?n" and g': "g' = graph_emit (CreateNode i (normalize_labels labels) ps) (on_node_created ?n (put_node_at_slot idx ?n g2))"
    using assms(2) p(4) by (auto simp: try_create_node_def Let_def)
  note o = open_node_slot [OF ok p(2,3)]
  have g2: "becomes g g2 (node_at g) (rel_at g)"
    using p(2,3) by (auto simp: ensure_node_slot_checked_def bump_next_node_id_past_def becomes_def same_catalogs_def
        node_at_grow)
  have "becomes g (on_node_created ?n (put_node_at_slot idx ?n g2)) ((node_at g)(i \<mapsto> ?n)) (rel_at g)"
    using g2 o(2,3) by (simp add: on_node_created_def put_node_at_slot_def Let_def becomes_def same_catalogs_def
        node_at_def slot_get_update fun_eq_iff)
  then show "becomes g g' ((node_at g)(nr_id n \<mapsto> n)) (rel_at g)" unfolding g' n by simp
  show "node_at g (nr_id n) = None" using next_ids_free(1) ok by (simp add: n p(1) graph_ok_def)
  show "nr_labels n = normalize_labels labels" "nr_properties n = ps" by (simp_all add: n)
qed

lemma create_relationship_becomes:
  assumes ok: "graph_ok g" and "create_relationship src dst ty ps g = (Some r, g')"
  shows "becomes g g' (node_at g) ((rel_at g)(rr_id r \<mapsto> r))" and "rel_at g (rr_id r) = None"
    and "rr_type r = trim ty" and "rr_properties r = ps"
proof -
  obtain i idx g1 g2 where p: "i = gr_next_rel_id g" "ensure_rel_slot_checked i g = Inr (idx, g1)"
    "bump_next_rel_id_past i g1 = Inr g2" "try_reserve_next_rel_slot g = Some (i, idx, g2)"
    using assms(2)
    by (auto simp: create_relationship_def try_reserve_next_rel_slot_def Let_def split: sum.splits option.splits if_splits)
  let ?r = "\<lparr>rr_id = i, rr_src = src, rr_dst = dst, rr_type = trim ty, rr_properties = ps\<rparr>"
  let ?h = "on_relationship_created ?r (put_rel_at_slot idx ?r g2)"
  have r: "r = ?r" and g': "g' = graph_emit (CreateRelationship i src dst (trim ty) ps) ?h"
    using assms(2) p(4) by (auto simp: create_relationship_def Let_def split: if_splits)
  note o = open_rel_slot [OF ok p(2,3)]
  have push: "node_at (adjacency_push k s e h) = node_at h \<and> rel_at (adjacency_push k s e h) = rel_at h" for k s e h
    by (auto simp: adjacency_push_def ensure_node_slot_checked_def change_adjacency_def slot_len_for_id_def Let_def
        node_at_grow split: sum.split)
  have attach: "node_at (on_relationship_created ?r h) = node_at h \<and> rel_at (on_relationship_created ?r h) = rel_at h" for h
    by (simp add: on_relationship_created_def attach_relationship_def Let_def split_beta push)
  have "same_catalogs g g2" using p(2,3)
    by (auto simp: ensure_rel_slot_checked_def bump_next_rel_id_past_def same_catalogs_def)
  then have "same_catalogs g ?h" by (simp add: same_catalogs_def put_rel_at_slot_def Let_def)
  moreover have "rel_at (put_rel_at_slot idx ?r g2) = (rel_at g)(i \<mapsto> ?r)"
    using o(2,3,5) by (simp add: put_rel_at_slot_def Let_def rel_at_def slot_get_update fun_eq_iff)
  moreover have "node_at (put_rel_at_slot idx ?r g2) = node_at g" using o(4) by (simp add: put_rel_at_slot_def Let_def)
  ultimately have "becomes g ?h (node_at g) ((rel_at g)(i \<mapsto> ?r))" by (simp add: becomes_def attach)
  then show "becomes g g' (node_at g) ((rel_at g)(rr_id r \<mapsto> r))" unfolding g' r by simp
  show "rel_at g (rr_id r) = None" using next_ids_free(2) ok by (simp add: r p(1) graph_ok_def)
  show "rr_type r = trim ty" "rr_properties r = ps" by (simp_all add: r)
qed

section \<open>Deletions\<close>

text \<open>A deletion leaves the other records as they are.\<close>

definition shrinks :: "graph \<Rightarrow> graph \<Rightarrow> bool" where
  "shrinks g g' \<longleftrightarrow> (\<forall>i n. node_at g' i = Some n \<longrightarrow> node_at g i = Some n) \<and>
     (\<forall>i r. rel_at g' i = Some r \<longrightarrow> rel_at g i = Some r) \<and> same_catalogs g g'"

lemma shrinks_refl [simp]: "shrinks g g"
  by (simp add: shrinks_def)

lemma shrinks_trans: "shrinks g h \<Longrightarrow> shrinks h k \<Longrightarrow> shrinks g k"
  unfolding shrinks_def by (meson same_catalogs_trans)

lemma shrinks_emit [simp]: "shrinks g (graph_emit e g') = shrinks g g'"
  by (simp add: shrinks_def)

lemma delete_relationship_shrinks: "shrinks g (snd (delete_relationship k g))"
proof -
  have "node_at (snd (delete_relationship k g)) = node_at g"
    using delete_one_by_one_node_at [of "[k]" g] by (simp add: split_beta Let_def)
  moreover have "same_catalogs g (snd (delete_relationship k g))"
  proof (cases "rel_at g k")
    case (Some r)
    then show ?thesis
      by (simp add: delete_relationship_def delete_relationship_deferring_def take_rel_def split_beta Let_def
          on_relationship_deleted_def) (simp add: same_catalogs_def)
  qed (simp add: delete_dead)
  ultimately show ?thesis by (simp add: shrinks_def delete_relationship_rel_at)
qed

lemma delete_one_by_one_shrinks: "shrinks g (snd (delete_one_by_one ks g))"
proof (induction ks arbitrary: g)
  case (Cons k ks)
  show ?case using shrinks_trans [OF delete_relationship_shrinks Cons] by (simp add: split_beta Let_def)
qed simp

lemma delete_node_shrinks: "shrinks g (snd (delete_node i g))"
proof (cases "has_node_at g i \<and> \<not> has_incident_relationships g i")
  case True
  then obtain n where n: "node_at g i = Some n" by (auto simp: has_node_at_def)
  let ?h = "g\<lparr>gr_nodes := (gr_nodes g)[unat i := None], gr_live_nodes := gr_live_nodes g - 1\<rparr>"
  obtain as where as: "clear_adjacency i ?h = ?h\<lparr>gr_adjacency := as\<rparr>" using clear_adjacency_shape [of i ?h] by auto
  have "node_at ?h = (node_at g)(i := None)" using node_at_bound [OF n] by (auto simp: node_at_def slot_get_update fun_eq_iff)
  then show ?thesis using True n as
    by (simp add: delete_node_def take_node_def on_node_deleted_def) (simp add: shrinks_def same_catalogs_def)
qed (auto simp: delete_node_def)

lemma detach_at_once_shrinks: "shrinks g (snd (detach_at_once i g))"
  using shrinks_trans [OF delete_one_by_one_shrinks delete_node_shrinks]
  by (simp add: detach_at_once_def split_beta Let_def)

lemma deletions_shrink:
  assumes "graph_ok g"
  shows "shrinks g (snd (delete_relationships ks g))" and "shrinks g (snd (detach_delete_nodes is g))"
proof -
  show "shrinks g (snd (delete_relationships ks g))"
    using delete_one_by_one_shrinks delete_relationships_one_by_one [OF assms] by simp
  have "shrinks g (snd (detach_each_at_once is g))" for g
  proof (induction "is" arbitrary: g)
    case (Cons i "is")
    show ?case using shrinks_trans [OF detach_at_once_shrinks Cons] by (simp add: split_beta Let_def)
  qed simp
  then show "shrinks g (snd (detach_delete_nodes is g))" using detach_nodes_at_once(1) [OF assms] by simp
qed

end
