(* ===== verification/Executor_Safety.thy ===== *)
theory Executor_Safety
  imports Executor_Writes Constraint_Safety Graph_Effects
begin

text \<open>
  Statements keep the constraints: each write that passes its check keeps them up to the existence checks
  put off, and a statement that succeeds keeps them all.
\<close>

section \<open>Guarded graphs\<close>

definition guarded :: "float_std \<Rightarrow> (stored_index_entity \<times> u64) set \<Rightarrow> graph \<Rightarrow> bool" where
  "guarded fs X g \<longleftrightarrow> graph_ok g \<and> schema_ok (gr_schema g) \<and> constraints_hold fs X g"

lemma guarded_same:
  assumes "guarded fs X g" and "graph_ok g'" and "same_catalogs g g'"
    and "\<And>def. def \<in> set (constraint_list (ss_constraints (gr_schema g))) \<Longrightarrow> upholds fs X g def \<Longrightarrow> upholds fs Y g' def"
  shows "guarded fs Y g'"
  using assms unfolding guarded_def constraints_hold_def same_catalogs_def schema_ok_def by auto

lemma guarded_mono: "guarded fs X g \<Longrightarrow> X \<subseteq> Y \<Longrightarrow> guarded fs Y g"
  unfolding guarded_def constraints_hold_def using upholds_mono by blast

lemma guarded_shrinks: "guarded fs X g \<Longrightarrow> shrinks g g' \<Longrightarrow> graph_ok g' \<Longrightarrow> guarded fs X g'"
proof (rule guarded_same)
  fix def assume "shrinks g g'" "upholds fs X g def"
  then show "upholds fs X g' def"
    by (elim upholds_fewer) (auto simp: shrinks_def in_scope_def split: stored_index_entity.splits)
qed (simp_all add: shrinks_def)

lemma guarded_node:
  assumes g: "guarded fs X g" and b: "becomes g g' ((node_at g)(i \<mapsto> n)) (rel_at g)" and ok: "graph_ok g'" and Y: "X \<subseteq> Y"
    and new: "\<And>def. def \<in> set (constraint_list (ss_constraints (gr_schema g))) \<Longrightarrow> cdef_entity def = Node \<Longrightarrow>
      cdef_label def \<in> set (nr_labels n) \<Longrightarrow> admissible fs ((Node, i) \<in> Y) g def i (nr_properties n)"
  shows "guarded fs Y g'"
proof (rule guarded_same [OF g ok])
  show "same_catalogs g g'" using b by (simp add: becomes_def)
  fix def assume def: "def \<in> set (constraint_list (ss_constraints (gr_schema g)))" and u: "upholds fs X g def"
  have at: "node_at g' = (node_at g)(i \<mapsto> n)" "rel_at g' = rel_at g" using b by (auto simp: becomes_def)
  show "upholds fs Y g' def"
  proof (cases "cdef_entity def")
    case Node
    show ?thesis
      by (rule upholds_update [OF u, of i]) (use at Node new [OF def] Y in \<open>auto simp: in_scope_def split: if_splits\<close>)
  next
    case Relationship
    then have "in_scope g' def j ps = in_scope g def j ps" for j ps using at by (simp add: in_scope_def)
    then show ?thesis using upholds_mono [OF u Y] unfolding upholds_def by simp
  qed
qed

lemma guarded_rel:
  assumes g: "guarded fs X g" and b: "becomes g g' (node_at g) ((rel_at g)(i \<mapsto> r))" and ok: "graph_ok g'" and Y: "X \<subseteq> Y"
    and new: "\<And>def. def \<in> set (constraint_list (ss_constraints (gr_schema g))) \<Longrightarrow> cdef_entity def = Relationship \<Longrightarrow>
      rr_type r = cdef_label def \<Longrightarrow> admissible fs ((Relationship, i) \<in> Y) g def i (rr_properties r)"
  shows "guarded fs Y g'"
proof (rule guarded_same [OF g ok])
  show "same_catalogs g g'" using b by (simp add: becomes_def)
  fix def assume def: "def \<in> set (constraint_list (ss_constraints (gr_schema g)))" and u: "upholds fs X g def"
  have at: "node_at g' = node_at g" "rel_at g' = (rel_at g)(i \<mapsto> r)" using b by (auto simp: becomes_def)
  show "upholds fs Y g' def"
  proof (cases "cdef_entity def")
    case Relationship
    show ?thesis
      by (rule upholds_update [OF u, of i]) (use at Relationship new [OF def] Y in \<open>auto simp: in_scope_def split: if_splits\<close>)
  next
    case Node
    then have "in_scope g' def j ps = in_scope g def j ps" for j ps using at by (simp add: in_scope_def)
    then show ?thesis using upholds_mono [OF u Y] unfolding upholds_def by simp
  qed
qed

section \<open>Passed checks\<close>

lemma admissible_lax: "admissible fs False g def i ps \<Longrightarrow> admissible fs lacking g def i ps"
  by (simp add: admissible_def)

lemma passed_check: "(case c of Inl msg \<Rightarrow> Inl (f msg) | Inr () \<Rightarrow> k) = Inr y \<longleftrightarrow> c = Inr () \<and> k = Inr y"
  by (cases c) (simp_all split: unit.split)

lemma checked_ok [simp]: "checked check next' ex = Inr ex' \<longleftrightarrow> check (ex_graph ex) = Inr () \<and> next' ex = Inr ex'"
  by (cases "check (ex_graph ex)") (simp_all add: checked_def split: unit.split)

text \<open>An entry point that accepts has checked every constraint.\<close>

lemma against_accepts:
  assumes "against_constraints g check = Inr ()" and "guarded fs X g"
    and "def \<in> set (constraint_list (ss_constraints (gr_schema g)))"
  shows "check (ss_constraints (gr_schema g)) = Inr ()"
proof -
  have "ss_active (gr_schema g) \<noteq> 0" using assms(2,3) by (auto simp: guarded_def schema_ok_def constraint_list_def)
  then show ?thesis using assms(1) by (auto simp: against_constraints_def split: sum.splits)
qed

lemma removal_check:
  assumes g: "guarded fs X g" and def: "def \<in> set (constraint_list (ss_constraints (gr_schema g)))"
    and req: "requires_existence (cdef_kind def)"
  shows "check_node_remove_property_against_constraints g i key = Inr () \<Longrightarrow> cdef_entity def = Node \<Longrightarrow>
      node_at g i = Some n \<Longrightarrow> cdef_label def \<in> set (nr_labels n) \<Longrightarrow> key \<notin> set (cdef_properties def)"
    and "check_relationship_remove_property_against_constraints g i key = Inr () \<Longrightarrow> cdef_entity def = Relationship \<Longrightarrow>
      rel_at g i = Some r \<Longrightarrow> rr_type r = cdef_label def \<Longrightarrow> key \<notin> set (cdef_properties def)"
  using against_accepts [OF _ g def] req def
  by (fastforce simp: check_node_remove_property_against_constraints_def check_node_remove_property_def
      check_relationship_remove_property_against_constraints_def check_relationship_remove_property_def
      each_constraint_ok)+

lemma guarded_remove_node_property:
  assumes g: "guarded fs X g" and Y: "X \<subseteq> Y"
    and check: "(Node, i) \<notin> Y \<Longrightarrow> check_node_remove_property_against_constraints g i key = Inr ()"
  shows "guarded fs Y (snd (remove_node_property i key g))"
proof (cases "node_at g i")
  case None
  then show ?thesis using guarded_mono [OF g Y] by (simp add: remove_node_property_absent)
next
  case (Some n)
  have ok: "graph_ok g" using g by (simp add: guarded_def)
  have s: "sorted_keys (nr_properties n)" by (rule graph_node_sorted [OF ok Some])
  show ?thesis
  proof (rule guarded_node [OF g remove_node_property_becomes [OF Some s] _ Y])
    show "graph_ok (snd (remove_node_property i key g))" using property_steps_ok [OF ok] by blast
    fix def assume def: "def \<in> set (constraint_list (ss_constraints (gr_schema g)))" "cdef_entity def = Node"
      "cdef_label def \<in> set (nr_labels (n\<lparr>nr_properties := btree_remove key (nr_properties n)\<rparr>))"
    have scope: "in_scope g def i (nr_properties n)" using def(2,3) Some by (simp add: in_scope_def)
    have "admissible fs ((Node, i) \<in> X) g def i (nr_properties n)"
      using upholds_admissible [OF _ scope] g def(1,2) by (auto simp: guarded_def constraints_hold_def)
    then have "admissible fs ((Node, i) \<in> Y) g def i (btree_remove key (nr_properties n))"
      by (rule admissible_remove [OF _ s]) (use Y check removal_check(1) [OF g def(1)] def(2,3) Some in auto)
    then show "admissible fs ((Node, i) \<in> Y) g def i (nr_properties (n\<lparr>nr_properties := btree_remove key (nr_properties n)\<rparr>))"
      by simp
  qed
qed

lemma guarded_remove_relationship_property:
  assumes g: "guarded fs X g" and Y: "X \<subseteq> Y"
    and check: "(Relationship, i) \<notin> Y \<Longrightarrow> check_relationship_remove_property_against_constraints g i key = Inr ()"
  shows "guarded fs Y (snd (remove_relationship_property i key g))"
proof (cases "rel_at g i")
  case None
  then show ?thesis using guarded_mono [OF g Y] by (simp add: remove_relationship_property_absent)
next
  case (Some r)
  have ok: "graph_ok g" using g by (simp add: guarded_def)
  have s: "sorted_keys (rr_properties r)" by (rule graph_rel_sorted [OF ok Some])
  show ?thesis
  proof (rule guarded_rel [OF g remove_relationship_property_becomes [OF Some s] _ Y])
    show "graph_ok (snd (remove_relationship_property i key g))" using property_steps_ok [OF ok] by blast
    fix def assume def: "def \<in> set (constraint_list (ss_constraints (gr_schema g)))" "cdef_entity def = Relationship"
      "rr_type (r\<lparr>rr_properties := btree_remove key (rr_properties r)\<rparr>) = cdef_label def"
    have scope: "in_scope g def i (rr_properties r)" using def(2,3) Some by (simp add: in_scope_def)
    have "admissible fs ((Relationship, i) \<in> X) g def i (rr_properties r)"
      using upholds_admissible [OF _ scope] g def(1,2) by (auto simp: guarded_def constraints_hold_def)
    then have "admissible fs ((Relationship, i) \<in> Y) g def i (btree_remove key (rr_properties r))"
      by (rule admissible_remove [OF _ s]) (use Y check removal_check(2) [OF g def(1)] def(2,3) Some in auto)
    then show "admissible fs ((Relationship, i) \<in> Y) g def i (rr_properties (r\<lparr>rr_properties := btree_remove key (rr_properties r)\<rparr>))"
      by simp
  qed
qed

lemma guarded_remove_node_label: "guarded fs X g \<Longrightarrow> guarded fs X (snd (remove_node_label i label g))"
proof (cases "node_at g i")
  case (Some n)
  assume g: "guarded fs X g"
  show ?thesis
  proof (rule guarded_node [OF g remove_node_label_becomes [OF Some] _ order_refl])
    show "graph_ok (snd (remove_node_label i label g))" using g remove_node_label_ok by (simp add: guarded_def)
    fix def assume def: "def \<in> set (constraint_list (ss_constraints (gr_schema g)))" "cdef_entity def = Node"
      "cdef_label def \<in> set (nr_labels (n\<lparr>nr_labels := filter (\<lambda>l. l \<noteq> label) (nr_labels n)\<rparr>))"
    then have "in_scope g def i (nr_properties n)" using Some by (simp add: in_scope_def)
    from upholds_admissible [OF _ this] g def show "admissible fs ((Node, i) \<in> X) g def i
        (nr_properties (n\<lparr>nr_labels := filter (\<lambda>l. l \<noteq> label) (nr_labels n)\<rparr>))"
      by (auto simp: guarded_def constraints_hold_def)
  qed
qed (simp add: remove_node_label_absent)

text \<open>Replacing all properties leaves exactly the given ones.\<close>

lemma becomes_trans: "becomes g h N R \<Longrightarrow> becomes h k N' R' \<Longrightarrow> becomes g k N' R'"
  by (auto simp: becomes_def intro: same_catalogs_trans)

lemma remove_all_becomes:
  "node_at g i = Some n \<Longrightarrow> sorted_keys (nr_properties n) \<Longrightarrow>
   becomes g (fold (\<lambda>key g. snd (remove_node_property i key g)) keys g)
     ((node_at g)(i \<mapsto> n\<lparr>nr_properties := fold btree_remove keys (nr_properties n)\<rparr>)) (rel_at g)"
proof (induction keys arbitrary: g n)
  case Nil
  then have "(node_at g)(i \<mapsto> n) = node_at g" by auto
  then show ?case by (simp add: becomes_def)
next
  case (Cons key keys)
  note b = remove_node_property_becomes [OF Cons.prems, of key]
  have at: "node_at (snd (remove_node_property i key g)) i = Some (n\<lparr>nr_properties := btree_remove key (nr_properties n)\<rparr>)"
    using b by (simp add: becomes_def)
  from becomes_trans [OF b Cons.IH [OF at]] sorted_keys_btree_remove [OF Cons.prems(2)] b show ?case
    by (simp add: becomes_def fun_eq_iff)
qed

lemma set_all_becomes:
  "node_at g i = Some n \<Longrightarrow> becomes g (fold (\<lambda>(key, v) g. snd (set_node_property i key v g)) ps g)
     ((node_at g)(i \<mapsto> n\<lparr>nr_properties := fold (\<lambda>(key, v). btree_insert key v) ps (nr_properties n)\<rparr>)) (rel_at g)"
proof (induction ps arbitrary: g n)
  case Nil
  then have "(node_at g)(i \<mapsto> n) = node_at g" by auto
  then show ?case by (simp add: becomes_def)
next
  case (Cons e ps)
  obtain key v where e: "e = (key, v)" by fastforce
  note b = set_node_property_becomes [OF Cons.prems, of key v]
  have at: "node_at (snd (set_node_property i key v g)) i = Some (n\<lparr>nr_properties := btree_insert key v (nr_properties n)\<rparr>)"
    using b by (simp add: becomes_def)
  from becomes_trans [OF b Cons.IH [OF at]] b e show ?case by (simp add: becomes_def fun_eq_iff)
qed

lemma remove_all_relationship_becomes:
  "rel_at g i = Some r \<Longrightarrow> sorted_keys (rr_properties r) \<Longrightarrow>
   becomes g (fold (\<lambda>key g. snd (remove_relationship_property i key g)) keys g) (node_at g)
     ((rel_at g)(i \<mapsto> r\<lparr>rr_properties := fold btree_remove keys (rr_properties r)\<rparr>))"
proof (induction keys arbitrary: g r)
  case Nil
  then have "(rel_at g)(i \<mapsto> r) = rel_at g" by auto
  then show ?case by (simp add: becomes_def)
next
  case (Cons key keys)
  note b = remove_relationship_property_becomes [OF Cons.prems, of key]
  have at: "rel_at (snd (remove_relationship_property i key g)) i = Some (r\<lparr>rr_properties := btree_remove key (rr_properties r)\<rparr>)"
    using b by (simp add: becomes_def)
  from becomes_trans [OF b Cons.IH [OF at]] sorted_keys_btree_remove [OF Cons.prems(2)] b show ?case
    by (simp add: becomes_def fun_eq_iff)
qed

lemma set_all_relationship_becomes:
  "rel_at g i = Some r \<Longrightarrow> becomes g (fold (\<lambda>(key, v) g. snd (set_relationship_property i key v g)) ps g) (node_at g)
     ((rel_at g)(i \<mapsto> r\<lparr>rr_properties := fold (\<lambda>(key, v). btree_insert key v) ps (rr_properties r)\<rparr>))"
proof (induction ps arbitrary: g r)
  case Nil
  then have "(rel_at g)(i \<mapsto> r) = rel_at g" by auto
  then show ?case by (simp add: becomes_def)
next
  case (Cons e ps)
  obtain key v where e: "e = (key, v)" by fastforce
  note b = set_relationship_property_becomes [OF Cons.prems, of key v]
  have at: "rel_at (snd (set_relationship_property i key v g)) i = Some (r\<lparr>rr_properties := btree_insert key v (rr_properties r)\<rparr>)"
    using b by (simp add: becomes_def)
  from becomes_trans [OF b Cons.IH [OF at]] b e show ?case by (simp add: becomes_def fun_eq_iff)
qed

definition refilled :: "properties \<Rightarrow> properties \<Rightarrow> properties" where
  "refilled old ps = fold (\<lambda>(key, v). btree_insert key v) ps (fold btree_remove (map fst old) old)"

lemma map_of_refilled:
  assumes "sorted_keys old" and "sorted_keys ps"
  shows "map_of (refilled old ps) k = map_of ps k"
proof -
  have rm: "sorted_keys m \<Longrightarrow> map_of (fold btree_remove keys m) k = (if k \<in> set keys then None else map_of m k)" for keys m
    by (induction keys arbitrary: m) (auto simp: sorted_keys_btree_remove map_of_btree_remove)
  have ins: "distinct (map fst ps) \<Longrightarrow> map_of (fold (\<lambda>(key, v). btree_insert key v) ps m) k =
      (case map_of ps k of None \<Rightarrow> map_of m k | Some v \<Rightarrow> Some v)" for ps and m :: properties
  proof (induction ps arbitrary: m)
    case (Cons e ps)
    obtain a b where e: "e = (a, b)" by fastforce
    then have "map_of ps a = None" "distinct (map fst ps)" using Cons.prems by (auto simp: map_of_eq_None_iff)
    then show ?case using Cons.IH e by (simp split: option.split)
  qed simp
  have "map_of old k = None" if "k \<notin> set (map fst old)" using that by (simp add: map_of_eq_None_iff)
  then have "map_of (fold btree_remove (map fst old) old) k = None" using rm [OF assms(1), of "map fst old"] by simp
  then show ?thesis using ins [OF sorted_keys_distinct [OF assms(2)]] by (simp add: refilled_def split: option.split)
qed

lemma replace_becomes:
  assumes ok: "graph_ok g"
  shows "node_at g i = Some n \<Longrightarrow> becomes g (snd (replace_node_properties i ps g))
      ((node_at g)(i \<mapsto> n\<lparr>nr_properties := refilled (nr_properties n) ps\<rparr>)) (rel_at g)"
    and "rel_at g i = Some r \<Longrightarrow> becomes g (snd (replace_relationship_properties i ps g))
      (node_at g) ((rel_at g)(i \<mapsto> r\<lparr>rr_properties := refilled (rr_properties r) ps\<rparr>))"
proof -
  assume n: "node_at g i = Some n"
  note rm = remove_all_becomes [OF n graph_node_sorted [OF ok n], of "map fst (nr_properties n)"]
  let ?h = "fold (\<lambda>key g. snd (remove_node_property i key g)) (map fst (nr_properties n)) g"
  have at: "node_at ?h i = Some (n\<lparr>nr_properties := fold btree_remove (map fst (nr_properties n)) (nr_properties n)\<rparr>)"
    using rm by (simp add: becomes_def)
  from becomes_trans [OF rm set_all_becomes [OF at, of ps]] rm n show "becomes g (snd (replace_node_properties i ps g))
      ((node_at g)(i \<mapsto> n\<lparr>nr_properties := refilled (nr_properties n) ps\<rparr>)) (rel_at g)"
    by (simp add: becomes_def fun_eq_iff replace_node_properties_def Let_def refilled_def)
next
  assume r: "rel_at g i = Some r"
  note rm = remove_all_relationship_becomes [OF r graph_rel_sorted [OF ok r], of "map fst (rr_properties r)"]
  let ?h = "fold (\<lambda>key g. snd (remove_relationship_property i key g)) (map fst (rr_properties r)) g"
  have at: "rel_at ?h i = Some (r\<lparr>rr_properties := fold btree_remove (map fst (rr_properties r)) (rr_properties r)\<rparr>)"
    using rm by (simp add: becomes_def)
  from becomes_trans [OF rm set_all_relationship_becomes [OF at, of ps]] rm r
  show "becomes g (snd (replace_relationship_properties i ps g))
      (node_at g) ((rel_at g)(i \<mapsto> r\<lparr>rr_properties := refilled (rr_properties r) ps\<rparr>))"
    by (simp add: becomes_def fun_eq_iff replace_relationship_properties_def Let_def refilled_def)
qed

lemma replace_absent:
  "node_at g i = None \<Longrightarrow> snd (replace_node_properties i ps g) = g"
  "rel_at g i = None \<Longrightarrow> snd (replace_relationship_properties i ps g) = g"
  by (simp_all add: replace_node_properties_def replace_relationship_properties_def)

lemma replace_ok:
  assumes "graph_ok g"
  shows "graph_ok (snd (replace_node_properties i ps g))" and "graph_ok (snd (replace_relationship_properties i ps g))"
proof -
  have "graph_ok g \<Longrightarrow> graph_ok (fold (\<lambda>key g. snd (remove_node_property i key g)) keys g)" for keys g
    by (induction keys arbitrary: g) (simp_all add: property_steps_ok)
  moreover have "graph_ok g \<Longrightarrow> graph_ok (fold (\<lambda>(key, v) g. snd (set_node_property i key v g)) ps g)" for g
    by (induction ps arbitrary: g) (auto simp: property_steps_ok)
  ultimately show "graph_ok (snd (replace_node_properties i ps g))"
    using assms by (simp add: replace_node_properties_def Let_def split: option.split)
  have "graph_ok g \<Longrightarrow> graph_ok (fold (\<lambda>key g. snd (remove_relationship_property i key g)) keys g)" for keys g
    by (induction keys arbitrary: g) (simp_all add: property_steps_ok)
  moreover have "graph_ok g \<Longrightarrow> graph_ok (fold (\<lambda>(key, v) g. snd (set_relationship_property i key v g)) ps g)" for g
    by (induction ps arbitrary: g) (auto simp: property_steps_ok)
  ultimately show "graph_ok (snd (replace_relationship_properties i ps g))"
    using assms by (simp add: replace_relationship_properties_def Let_def split: option.split)
qed

text \<open>A graph whose unchecked records are the ones the statement put off.\<close>

fun target_key :: "entity_target \<Rightarrow> stored_index_entity \<times> u64" where
  "target_key (NodeTarget i) = (Node, i)"
| "target_key (RelTarget i) = (Relationship, i)"

abbreviation awaiting :: "executor \<Rightarrow> (stored_index_entity \<times> u64) set" where
  "awaiting ex \<equiv> target_key ` set (ex_pending ex)"

definition safe :: "float_std \<Rightarrow> executor \<Rightarrow> bool" where
  "safe fs ex \<longleftrightarrow> guarded fs (awaiting ex) (ex_graph ex) \<and> (\<not> ex_defer ex \<longrightarrow> ex_pending ex = [])"

lemma target_key_eq [simp]:
  "(Node, i) = target_key t \<longleftrightarrow> t = NodeTarget i" "(Relationship, i) = target_key t \<longleftrightarrow> t = RelTarget i"
  by (cases t; auto)+

text \<open>The names in a write are trimmed, and its property maps sorted by key.\<close>

fun well_named :: "statement_write \<Rightarrow> bool" where
  "well_named (WriteCreateNode labels ps) \<longleftrightarrow> list_all trimmed labels \<and> sorted_keys ps"
| "well_named (WriteCreateRelationship _ _ ty ps) \<longleftrightarrow> trimmed ty \<and> sorted_keys ps"
| "well_named (WriteSetLabels _ labels) \<longleftrightarrow> list_all trimmed labels"
| "well_named _ \<longleftrightarrow> True"

lemma normalize_trimmed: "list_all trimmed labels \<Longrightarrow> set (normalize_labels labels) \<subseteq> set labels"
proof -
  have "list_all trimmed labels \<Longrightarrow> set (fold add_label labels out) \<subseteq> set labels \<union> set out" for out
    by (induction labels arbitrary: out) (fastforce simp: add_label_def Let_def split: if_splits)+
  from this [of "[]"] show "list_all trimmed labels \<Longrightarrow> ?thesis" by (simp add: normalize_labels_def)
qed

lemma guarded_ok: "guarded fs X g \<Longrightarrow> graph_ok g"
  by (simp add: guarded_def)

locale indexed_checks =
  fixes env :: check_env
  assumes complete: "graph_ok g \<Longrightarrow> index_complete env g"
begin

abbreviation fs :: float_std where
  "fs \<equiv> env_float env"

lemma record_check:
  assumes "check_record_constraints_with env catalog g record' ex = Inr ()" and ok: "graph_ok g"
    and def: "def \<in> set (constraint_list catalog)"
  shows "record' = NodeRecord m ps skip \<Longrightarrow> skip = None \<or> skip = Some i \<Longrightarrow> cdef_entity def = Node \<Longrightarrow>
      matcher_contains m (cdef_label def) \<Longrightarrow> admissible fs (\<not> ex) g def i ps"
    and "record' = RelRecord ty ps skip \<Longrightarrow> skip = None \<or> skip = Some i \<Longrightarrow> cdef_entity def = Relationship \<Longrightarrow>
      cdef_label def = ty \<Longrightarrow> admissible fs (\<not> ex) g def i ps"
proof -
  have passed: "applies_to record' def \<Longrightarrow>
      validate_record_against_constraint def (record_properties record') ex = Inr () \<and>
      (\<forall>t. requires_uniqueness (cdef_kind def) \<longrightarrow> constrained_tuple def (record_properties record') = Some t \<longrightarrow>
        \<not> has_uniqueness_conflict env g record' def t)"
    using assms(1) def unfolding check_record_constraints_with_def each_constraint_ok
    by (fastforce simp: uniqueness_check_ok)
  show "admissible fs (\<not> ex) g def i ps"
    if "record' = NodeRecord m ps skip" "skip = None \<or> skip = Some i" "cdef_entity def = Node" "matcher_contains m (cdef_label def)"
    by (rule admissible_record) (use passed that no_conflict(1) [OF ok complete [OF ok]] in auto)
  show "admissible fs (\<not> ex) g def i ps"
    if "record' = RelRecord ty ps skip" "skip = None \<or> skip = Some i" "cdef_entity def = Relationship" "cdef_label def = ty"
    by (rule admissible_record) (use passed that no_conflict(2) [OF ok complete [OF ok]] in auto)
qed

lemma set_node_check:
  assumes g: "guarded fs X g" and "check_node_set_property_against_constraints env g i key v = Inr ()"
    and def: "def \<in> set (constraint_list (ss_constraints (gr_schema g)))" and e: "cdef_entity def = Node"
    and n: "node_at g i = Some n" "cdef_label def \<in> set (nr_labels n)"
    and old: "admissible fs lacking g def i ps"
    and key: "key \<in> set (cdef_properties def) \<Longrightarrow> cdef_properties def = [key] \<or> ps = nr_properties n"
  shows "admissible fs lacking g def i (btree_insert key v ps)"
proof -
  have ok: "graph_ok g" using g by (simp add: guarded_def)
  have "check_node_set_property env (ss_constraints (gr_schema g)) g i key v = Inr ()"
    using against_accepts [OF assms(2) [unfolded check_node_set_property_against_constraints_def] g def] .
  then have passed: "type_check def key v = Inr ()"
    "\<And>t. requires_uniqueness (cdef_kind def) \<Longrightarrow> constrained_tuple_after_set def (nr_properties n) key v = Some t \<Longrightarrow>
      \<not> any_other_node_with_tuple env g (cdef_label def) (cdef_properties def) t (Some i)"
    if "key \<in> set (cdef_properties def)"
    using def e n that unfolding check_node_set_property_def
    by (auto simp: each_constraint_ok uniqueness_check_ok dest!: bspec)
  have same: "constrained_tuple_after_set def ps key v = constrained_tuple_after_set def (nr_properties n) key v"
    if "key \<in> set (cdef_properties def)"
    using key that by (auto simp: constrained_tuple_after_set_def)
  show ?thesis
    by (rule admissible_set [OF old]) (use passed same no_conflict(1) [OF ok complete [OF ok] _ e, of "Some i" i] in auto)
qed

lemma set_rel_check:
  assumes g: "guarded fs X g" and "check_relationship_set_property_against_constraints env g i key v = Inr ()"
    and def: "def \<in> set (constraint_list (ss_constraints (gr_schema g)))" and e: "cdef_entity def = Relationship"
    and r: "rel_at g i = Some r" "rr_type r = cdef_label def"
    and old: "admissible fs lacking g def i (rr_properties r)"
  shows "admissible fs lacking g def i (btree_insert key v (rr_properties r))"
proof -
  have ok: "graph_ok g" using g by (simp add: guarded_def)
  have "check_relationship_set_property env (ss_constraints (gr_schema g)) g i key v = Inr ()"
    using against_accepts [OF assms(2) [unfolded check_relationship_set_property_against_constraints_def] g def] .
  then have passed: "type_check def key v = Inr ()"
    "\<And>t. requires_uniqueness (cdef_kind def) \<Longrightarrow> constrained_tuple_after_set def (rr_properties r) key v = Some t \<Longrightarrow>
      \<not> any_other_rel_with_tuple env g (cdef_label def) (cdef_properties def) t (Some i)"
    if "key \<in> set (cdef_properties def)"
    using def e r that unfolding check_relationship_set_property_def
    by (auto simp: each_constraint_ok uniqueness_check_ok dest!: bspec)
  show ?thesis
    by (rule admissible_set [OF old]) (use passed no_conflict(2) [OF ok complete [OF ok] _ e, of "Some i" i] in auto)
qed

text \<open>Sets and batches of edits.\<close>

lemma guarded_set_node_property:
  assumes g: "guarded fs X g" and check: "check_node_set_property_against_constraints env g i key v = Inr ()"
  shows "guarded fs X (snd (set_node_property i key v g))"
proof (cases "node_at g i")
  case None
  then show ?thesis using g by (simp add: set_node_property_absent)
next
  case (Some n)
  have ok: "graph_ok g" using g by (simp add: guarded_def)
  show ?thesis
  proof (rule guarded_node [OF g set_node_property_becomes [OF Some] _ order_refl])
    show "graph_ok (snd (set_node_property i key v g))" using property_steps_ok [OF ok] by blast
    fix def assume def: "def \<in> set (constraint_list (ss_constraints (gr_schema g)))" "cdef_entity def = Node"
      "cdef_label def \<in> set (nr_labels (n\<lparr>nr_properties := btree_insert key v (nr_properties n)\<rparr>))"
    have scope: "in_scope g def i (nr_properties n)" using def(2,3) Some by (simp add: in_scope_def)
    have "admissible fs ((Node, i) \<in> X) g def i (nr_properties n)"
      using upholds_admissible [OF _ scope] g def(1,2) by (auto simp: guarded_def constraints_hold_def)
    from set_node_check [OF g check def(1,2) Some _ this] def(3)
    show "admissible fs ((Node, i) \<in> X) g def i (nr_properties (n\<lparr>nr_properties := btree_insert key v (nr_properties n)\<rparr>))"
      by simp
  qed
qed

lemma guarded_set_relationship_property:
  assumes g: "guarded fs X g" and check: "check_relationship_set_property_against_constraints env g i key v = Inr ()"
  shows "guarded fs X (snd (set_relationship_property i key v g))"
proof (cases "rel_at g i")
  case None
  then show ?thesis using g by (simp add: set_relationship_property_absent)
next
  case (Some r)
  have ok: "graph_ok g" using g by (simp add: guarded_def)
  show ?thesis
  proof (rule guarded_rel [OF g set_relationship_property_becomes [OF Some] _ order_refl])
    show "graph_ok (snd (set_relationship_property i key v g))" using property_steps_ok [OF ok] by blast
    fix def assume def: "def \<in> set (constraint_list (ss_constraints (gr_schema g)))" "cdef_entity def = Relationship"
      "rr_type (r\<lparr>rr_properties := btree_insert key v (rr_properties r)\<rparr>) = cdef_label def"
    have scope: "in_scope g def i (rr_properties r)" using def(2,3) Some by (simp add: in_scope_def)
    have "admissible fs ((Relationship, i) \<in> X) g def i (rr_properties r)"
      using upholds_admissible [OF _ scope] g def(1,2) by (auto simp: guarded_def constraints_hold_def)
    from set_rel_check [OF g check def(1,2) Some _ this] def(3)
    show "admissible fs ((Relationship, i) \<in> X) g def i (rr_properties (r\<lparr>rr_properties := btree_insert key v (rr_properties r)\<rparr>))"
      by simp
  qed
qed

lemma check_edits_keeps:
  "check_edits env i edits ex = Inr ex' \<Longrightarrow> ex_graph ex' = ex_graph ex \<and> ex_defer ex' = ex_defer ex \<and>
     set (ex_pending ex) \<subseteq> set (ex_pending ex') \<and> (\<not> ex_defer ex \<longrightarrow> ex_pending ex' = ex_pending ex)"
  by (induction env i edits ex rule: check_edits.induct)
    (auto simp: put_off_def split: if_splits)

lemma edits_admissible:
  assumes "check_edits env i edits ex = Inr ex'" and g: "guarded fs X (ex_graph ex)" and n: "node_at (ex_graph ex) i = Some n"
    and def: "def \<in> set (constraint_list (ss_constraints (gr_schema (ex_graph ex))))" "cdef_entity def = Node"
      "cdef_label def \<in> set (nr_labels n)" and few: "length (cdef_properties def) \<le> 1"
    and L: "NodeTarget i \<in> set (ex_pending ex') \<Longrightarrow> L" and "sorted_keys ps"
    and "admissible fs L (ex_graph ex) def i ps"
  shows "admissible fs L (ex_graph ex) def i (snd (edit_properties edits ps))"
  using assms
proof (induction edits arbitrary: ps ex)
  case (Cons e edits)
  obtain key v where e: "e = (key, v)" by fastforce
  show ?case
  proof (cases v)
    case (Some w)
    have check: "check_node_set_property_against_constraints env (ex_graph ex) i key w = Inr ()"
      and rest: "check_edits env i edits ex = Inr ex'"
      using Cons.prems(1) e Some by simp_all
    have single: "cdef_properties def = [key]" if "key \<in> set (cdef_properties def)"
      using few that by (cases "cdef_properties def") auto
    have "admissible fs L (ex_graph ex) def i (btree_insert key w ps)"
      by (rule set_node_check [OF Cons.prems(2) check Cons.prems(4,5,3,6,10)]) (simp add: single)
    then show ?thesis using Cons.IH [OF rest Cons.prems(2-8)] sorted_keys_btree_insert [OF Cons.prems(9)] e Some
      by (simp add: edit_property_def edit_of_def split_beta Let_def)
  next
    case None
    have again: "\<exists>ex1. check_edits env i edits ex1 = Inr ex' \<and> ex_graph ex1 = ex_graph ex \<and>
        (\<not> L \<longrightarrow> check_node_remove_property_against_constraints (ex_graph ex) i key = Inr ())"
    proof (cases "ex_defer ex")
      case True
      then have rest: "check_edits env i edits (put_off (NodeTarget i) ex) = Inr ex'" using Cons.prems(1) e None by simp
      have L using check_edits_keeps [OF rest] Cons.prems(8) by (auto simp: put_off_def)
      then show ?thesis using rest by (auto simp: put_off_def)
    next
      case False
      then show ?thesis using Cons.prems(1) e None by auto
    qed
    then obtain ex1 where ex1: "check_edits env i edits ex1 = Inr ex'" "ex_graph ex1 = ex_graph ex"
      "\<not> L \<longrightarrow> check_node_remove_property_against_constraints (ex_graph ex) i key = Inr ()" by blast
    note IH = Cons.IH [OF ex1(1), unfolded ex1(2), OF Cons.prems(2-8)]
    show ?thesis
    proof (cases "map_of ps key")
      case None
      then show ?thesis using IH [OF _ Cons.prems(9,10)] e \<open>v = None\<close>
        by (simp add: edit_property_def edit_of_def split_beta Let_def)
    next
      case (Some old)
      have free: "key \<notin> set (cdef_properties def)" if "\<not> L" "requires_existence (cdef_kind def)"
        using removal_check(1) [OF Cons.prems(2,4) that(2) _ Cons.prems(5,3,6)] ex1(3) that(1) by blast
      have "admissible fs L (ex_graph ex) def i (btree_remove key ps)"
        by (rule admissible_remove [OF Cons.prems(10,9)]) (use free in blast)
      then show ?thesis using IH [OF _ sorted_keys_btree_remove [OF Cons.prems(9)]] e \<open>v = None\<close> Some
        by (simp add: edit_property_def edit_of_def split_beta Let_def)
    qed
  qed
qed simp

text \<open>Creations.\<close>

lemma create_node_safe:
  assumes safe: "safe fs ex" and names: "list_all trimmed labels" "sorted_keys ps"
    and run: "create_pattern_node env labels ps ex = Inr (i, ex')"
  shows "safe fs ex' \<and> ex_defer ex' = ex_defer ex"
proof -
  let ?g = "ex_graph ex"
  have g: "guarded fs (awaiting ex) ?g" using safe by (simp add: safe_def)
  note ok = guarded_ok [OF g]
  obtain n g' where n: "try_create_node labels ps ?g = (Some n, g')"
    and ex': "ex' = put_off_if_deferring (NodeTarget (nr_id n)) (ex\<lparr>ex_graph := g'\<rparr>)"
    and check: "against_constraints ?g (\<lambda>catalog. check_record_constraints_with env catalog ?g
        (NodeRecord (AnyOf labels) ps None) (\<not> ex_defer ex)) = Inr ()"
    using run unfolding create_pattern_node_def passed_check
    by (cases "ex_defer ex") (auto simp: check_node_create_deferring_existence_def check_node_create_deferred_def
        check_node_create_against_constraints_def check_node_create_def check_record_constraints_def
        split: prod.splits option.splits)
  note b = try_create_node_becomes [OF ok n]
  have "guarded fs (awaiting ex') g'"
  proof (rule guarded_node [OF g b(1)])
    show "graph_ok g'" using try_create_node_ok [OF ok names(2), of labels] n by simp
    show "awaiting ex \<subseteq> awaiting ex'" by (auto simp: ex' put_off_if_deferring_def put_off_def)
    fix def assume def: "def \<in> set (constraint_list (ss_constraints (gr_schema ?g)))" "cdef_entity def = Node"
      "cdef_label def \<in> set (nr_labels n)"
    have "admissible fs (\<not> \<not> ex_defer ex) ?g def (nr_id n) ps"
      by (rule record_check(1) [OF against_accepts [OF check g def(1)] ok def(1) refl _ def(2)])
        (use def(3) b(3) normalize_trimmed [OF names(1)] in auto)
    then show "admissible fs ((Node, nr_id n) \<in> awaiting ex') ?g def (nr_id n) (nr_properties n)"
      using b(4) admissible_lax by (cases "ex_defer ex") (auto simp: ex' put_off_if_deferring_def put_off_def)
  qed
  then show ?thesis using safe by (auto simp: safe_def ex' put_off_if_deferring_def put_off_def)
qed

lemma create_relationship_safe:
  assumes safe: "safe fs ex" and names: "trimmed ty" "sorted_keys ps"
    and run: "create_pattern_relationship env src dst ty ps ex = Inr (i, ex')"
  shows "safe fs ex' \<and> ex_defer ex' = ex_defer ex"
proof -
  let ?g = "ex_graph ex"
  have g: "guarded fs (awaiting ex) ?g" using safe by (simp add: safe_def)
  note ok = guarded_ok [OF g]
  obtain r g' where r: "create_relationship src dst ty ps ?g = (Some r, g')"
    and ex': "ex' = put_off_if_deferring (RelTarget (rr_id r)) (ex\<lparr>ex_graph := g'\<rparr>)"
    and check: "against_constraints ?g (\<lambda>catalog. check_record_constraints_with env catalog ?g
        (RelRecord ty ps None) (\<not> ex_defer ex)) = Inr ()"
    using run unfolding create_pattern_relationship_def passed_check
    by (cases "ex_defer ex"; cases "ty = []") (auto simp: passed_check check_relationship_create_deferring_existence_def
        check_relationship_create_deferred_def check_relationship_create_against_constraints_def
        check_relationship_create_def check_record_constraints_def split: prod.splits option.splits)
  note b = create_relationship_becomes [OF ok r]
  have "guarded fs (awaiting ex') g'"
  proof (rule guarded_rel [OF g b(1)])
    show "graph_ok g'" using create_relationship_ok [OF ok names(2), of src dst ty] r by simp
    show "awaiting ex \<subseteq> awaiting ex'" by (auto simp: ex' put_off_if_deferring_def put_off_def)
    fix def assume def: "def \<in> set (constraint_list (ss_constraints (gr_schema ?g)))" "cdef_entity def = Relationship"
      "rr_type r = cdef_label def"
    have "admissible fs (\<not> \<not> ex_defer ex) ?g def (rr_id r) ps"
      by (rule record_check(2) [OF against_accepts [OF check g def(1)] ok def(1) refl _ def(2)])
        (use def(3) b(3) names(1) in auto)
    then show "admissible fs ((Relationship, rr_id r) \<in> awaiting ex') ?g def (rr_id r) (rr_properties r)"
      using b(4) admissible_lax by (cases "ex_defer ex") (auto simp: ex' put_off_if_deferring_def put_off_def)
  qed
  then show ?thesis using safe by (auto simp: safe_def ex' put_off_if_deferring_def put_off_def)
qed

text \<open>Properties.\<close>

lemma remove_entity_property_safe:
  assumes safe: "safe fs ex" and run: "remove_entity_property target key ex = Inr ex'"
  shows "safe fs ex' \<and> ex_defer ex' = ex_defer ex"
proof -
  have g: "guarded fs (awaiting ex) (ex_graph ex)" using safe by (simp add: safe_def)
  have more: "awaiting ex \<subseteq> insert p (awaiting ex)" for p by blast
  show ?thesis
  proof (cases target)
    case (NodeTarget i)
    note rm = guarded_remove_node_property [OF g more, of i "(Node, i)" key]
      guarded_remove_node_property [OF g order_refl, of i key]
    show ?thesis using run NodeTarget safe rm
      by (cases "ex_defer ex") (auto simp: safe_def put_off_def change_def)
  next
    case (RelTarget i)
    note rm = guarded_remove_relationship_property [OF g more, of i "(Relationship, i)" key]
      guarded_remove_relationship_property [OF g order_refl, of i key]
    show ?thesis using run RelTarget safe rm
      by (cases "ex_defer ex") (auto simp: safe_def put_off_def change_def)
  qed
qed

lemma set_entity_property_safe:
  assumes safe: "safe fs ex" and run: "set_entity_property env target key v ex = Inr ex'"
  shows "safe fs ex' \<and> ex_defer ex' = ex_defer ex"
proof -
  have g: "guarded fs (awaiting ex) (ex_graph ex)" using safe by (simp add: safe_def)
  show ?thesis
  proof (cases target)
    case (NodeTarget i)
    then show ?thesis using run safe guarded_set_node_property [OF g, of i key v] by (auto simp: safe_def change_def)
  next
    case (RelTarget i)
    then show ?thesis using run safe guarded_set_relationship_property [OF g, of i key v] by (auto simp: safe_def change_def)
  qed
qed

lemma set_property_safe:
  "safe fs ex \<Longrightarrow> set_property_from_expr env target key v ex = Inr ex' \<Longrightarrow> safe fs ex' \<and> ex_defer ex' = ex_defer ex"
  using remove_entity_property_safe [of ex target key ex'] set_entity_property_safe [of ex target key _ ex']
  by (cases v) (simp_all add: set_property_from_expr_def)

lemma write_each_safe:
  "safe fs ex \<Longrightarrow> write_each env target edits ex = Inr ex' \<Longrightarrow> safe fs ex' \<and> ex_defer ex' = ex_defer ex"
proof (induction edits arbitrary: ex)
  case (Cons e edits)
  obtain key v where e: "e = (key, v)" by fastforce
  obtain ex1 where ex1: "set_property_from_expr env target key v ex = Inr ex1" "write_each env target edits ex1 = Inr ex'"
    using Cons.prems(2) e by auto
  then show ?case using Cons.IH [of ex1] set_property_safe [OF Cons.prems(1) ex1(1)] by simp
qed simp

lemma write_node_properties_safe:
  assumes safe: "safe fs ex" and combines: "combines_property_writes (ex_graph ex)"
    and run: "write_node_properties env i edits ex = Inr ex'"
  shows "safe fs ex' \<and> ex_defer ex' = ex_defer ex"
proof -
  let ?g = "ex_graph ex"
  have g: "guarded fs (awaiting ex) ?g" using safe by (simp add: safe_def)
  note ok = guarded_ok [OF g]
  obtain ex1 where ex1: "check_edits env i edits ex = Inr ex1"
    and ex': "ex' = change (\<lambda>g. snd (update_node_properties i edits g)) ex1"
    using run by (auto simp: write_node_properties_def)
  note keeps = check_edits_keeps [OF ex1]
  have more: "awaiting ex \<subseteq> awaiting ex1" using keeps by blast
  have "guarded fs (awaiting ex1) (snd (update_node_properties i edits ?g))"
  proof (cases "node_at ?g i")
    case None
    then show ?thesis using guarded_mono [OF g more] by (simp add: update_node_properties_absent)
  next
    case (Some n)
    show ?thesis
    proof (rule guarded_node [OF g update_node_properties_becomes [OF Some] _ more])
      show "graph_ok (snd (update_node_properties i edits ?g))" using property_steps_ok [OF ok] by blast
      fix def assume def: "def \<in> set (constraint_list (ss_constraints (gr_schema ?g)))" "cdef_entity def = Node"
        "cdef_label def \<in> set (nr_labels (n\<lparr>nr_properties := snd (edit_properties edits (nr_properties n))\<rparr>))"
      have "ss_active (gr_schema ?g) \<noteq> 0" using g def(1) by (auto simp: guarded_def schema_ok_def constraint_list_def)
      then have few: "length (cdef_properties def) \<le> 1"
        using combines def(1) by (auto simp: combines_property_writes_def list_all_iff)
      have scope: "in_scope ?g def i (nr_properties n)" using def(2,3) Some by (simp add: in_scope_def)
      have "admissible fs ((Node, i) \<in> awaiting ex) ?g def i (nr_properties n)"
        using upholds_admissible [OF _ scope] g def(1,2) by (auto simp: guarded_def constraints_hold_def)
      then have "admissible fs ((Node, i) \<in> awaiting ex1) ?g def i (nr_properties n)"
        using more unfolding admissible_def by blast
      from edits_admissible [OF ex1 g Some def(1,2) _ few _ graph_node_sorted [OF ok Some] this] def(3)
      show "admissible fs ((Node, i) \<in> awaiting ex1) ?g def i
          (nr_properties (n\<lparr>nr_properties := snd (edit_properties edits (nr_properties n))\<rparr>))" by force
    qed
  qed
  then show ?thesis using keeps safe by (simp add: safe_def ex' change_def)
qed

lemma mutate_safe:
  assumes "safe fs ex" and "mutate_entity_target env target edits ex = Inr ex'"
  shows "safe fs ex' \<and> ex_defer ex' = ex_defer ex"
  using assms write_node_properties_safe [of ex _ edits ex'] write_each_safe [of ex target edits ex']
  by (cases target) (simp_all split: if_splits)

lemma overwrite_safe:
  assumes safe: "safe fs ex" and run: "overwrite_entity_target env target edits ex = Inr ex'"
  shows "safe fs ex' \<and> ex_defer ex' = ex_defer ex"
proof -
  let ?g = "ex_graph ex" and ?ps = "given_properties edits"
  have g: "guarded fs (awaiting ex) ?g" using safe by (simp add: safe_def)
  note ok = guarded_ok [OF g]
  have ps: "sorted_keys ?ps"
  proof -
    have "sorted_keys ps \<Longrightarrow> sorted_keys (fold (\<lambda>(key, v) ps. case v of None \<Rightarrow> ps | Some v \<Rightarrow> btree_insert key v ps) edits ps)"
      for ps :: properties
      by (induction edits arbitrary: ps) (auto simp: sorted_keys_btree_insert split: option.split)
    then show ?thesis by (simp add: given_properties_def)
  qed
  have check: "check_replace env (ex_defer ex) target ?ps ?g = Inr ()"
    and ex': "ex' = put_off_if_deferring target (change (replace_properties target ?ps) ex)"
    using run by (auto simp: overwrite_entity_target_def Let_def)
  have more: "awaiting ex \<subseteq> awaiting ex'" by (auto simp: ex' put_off_if_deferring_def put_off_def change_def)
  have L: "\<not> \<not> ex_defer ex \<longrightarrow> target_key target \<in> awaiting ex'"
    by (auto simp: ex' put_off_if_deferring_def put_off_def change_def)
  have "guarded fs (awaiting ex') (replace_properties target ?ps ?g)"
  proof (cases target)
    case (NodeTarget i)
    show ?thesis
    proof (cases "node_at ?g i")
      case None
      then show ?thesis using guarded_mono [OF g more] NodeTarget by (simp add: replace_absent)
    next
      case (Some n)
      have c: "against_constraints ?g (\<lambda>catalog. check_record_constraints_with env catalog ?g
          (NodeRecord (AnyOf (nr_labels n)) ?ps (Some i)) (\<not> ex_defer ex)) = Inr ()"
        using check NodeTarget Some by (simp add: check_node_replace_properties_deferring_existence_def
            check_node_replace_properties_against_constraints_def check_node_replace_properties_deferred_def
            check_node_replace_properties_def check_node_replace_properties_with_def split: if_splits)
      have "guarded fs (awaiting ex') (snd (replace_node_properties i ?ps ?g))"
      proof (rule guarded_node [OF g replace_becomes(1) [OF ok Some] replace_ok(1) [OF ok] more])
        fix def assume def: "def \<in> set (constraint_list (ss_constraints (gr_schema ?g)))" "cdef_entity def = Node"
          "cdef_label def \<in> set (nr_labels (n\<lparr>nr_properties := refilled (nr_properties n) ?ps\<rparr>))"
        have "admissible fs (\<not> \<not> ex_defer ex) ?g def i ?ps"
          by (rule record_check(1) [OF against_accepts [OF c g def(1)] ok def(1) refl _ def(2)]) (use def(3) in auto)
        then have "admissible fs ((Node, i) \<in> awaiting ex') ?g def i ?ps"
          using L NodeTarget unfolding admissible_def by auto
        then show "admissible fs ((Node, i) \<in> awaiting ex') ?g def i
            (nr_properties (n\<lparr>nr_properties := refilled (nr_properties n) ?ps\<rparr>))"
          using admissible_cong [OF map_of_refilled [OF graph_node_sorted [OF ok Some] ps]] by simp
      qed
      then show ?thesis using NodeTarget by simp
    qed
  next
    case (RelTarget i)
    show ?thesis
    proof (cases "rel_at ?g i")
      case None
      then show ?thesis using guarded_mono [OF g more] RelTarget by (simp add: replace_absent)
    next
      case (Some r)
      have c: "against_constraints ?g (\<lambda>catalog. check_record_constraints_with env catalog ?g
          (RelRecord (rr_type r) ?ps (Some i)) (\<not> ex_defer ex)) = Inr ()"
        using check RelTarget Some by (simp add: check_relationship_replace_properties_deferring_existence_def
            check_relationship_replace_properties_against_constraints_def check_relationship_replace_properties_deferred_def
            check_relationship_replace_properties_def check_relationship_replace_properties_with_def split: if_splits)
      have "guarded fs (awaiting ex') (snd (replace_relationship_properties i ?ps ?g))"
      proof (rule guarded_rel [OF g replace_becomes(2) [OF ok Some] replace_ok(2) [OF ok] more])
        fix def assume def: "def \<in> set (constraint_list (ss_constraints (gr_schema ?g)))" "cdef_entity def = Relationship"
          "rr_type (r\<lparr>rr_properties := refilled (rr_properties r) ?ps\<rparr>) = cdef_label def"
        have "admissible fs (\<not> \<not> ex_defer ex) ?g def i ?ps"
          by (rule record_check(2) [OF against_accepts [OF c g def(1)] ok def(1) refl _ def(2)]) (use def(3) in auto)
        then have "admissible fs ((Relationship, i) \<in> awaiting ex') ?g def i ?ps"
          using L RelTarget unfolding admissible_def by auto
        then show "admissible fs ((Relationship, i) \<in> awaiting ex') ?g def i
            (rr_properties (r\<lparr>rr_properties := refilled (rr_properties r) ?ps\<rparr>))"
          using admissible_cong [OF map_of_refilled [OF graph_rel_sorted [OF ok Some] ps]] by simp
      qed
      then show ?thesis using RelTarget by simp
    qed
  qed
  then show ?thesis using safe by (auto simp: safe_def ex' put_off_if_deferring_def put_off_def change_def)
qed

text \<open>Labels.\<close>

lemma guarded_add_label:
  assumes g: "guarded fs X g" and L: "\<not> ex \<Longrightarrow> (Node, i) \<in> X" and t: "trimmed label"
    and check: "against_constraints g (\<lambda>catalog. case node_at g i of None \<Rightarrow> Inr ()
      | Some n \<Rightarrow> check_record_constraints_with env catalog g (NodeRecord (One label) (nr_properties n) (Some i)) ex) = Inr ()"
  shows "guarded fs X (snd (add_node_label i label g))"
proof (cases "node_at g i = None \<or> trim label = [] \<or> (\<exists>n. node_at g i = Some n \<and> trim label \<in> set (nr_labels n))")
  case True
  then show ?thesis using g by (simp only: add_node_label_same)
next
  case False
  then obtain n where n: "node_at g i = Some n" "trim label \<noteq> []" "trim label \<notin> set (nr_labels n)" by auto
  note ok = guarded_ok [OF g]
  show ?thesis
  proof (rule guarded_node [OF g add_node_label_becomes [OF n] add_node_label_ok [OF ok] order_refl])
    fix def assume def: "def \<in> set (constraint_list (ss_constraints (gr_schema g)))" "cdef_entity def = Node"
      "cdef_label def \<in> set (nr_labels (n\<lparr>nr_labels := nr_labels n @ [trim label]\<rparr>))"
    have "admissible fs ((Node, i) \<in> X) g def i (nr_properties n)"
    proof (cases "cdef_label def \<in> set (nr_labels n)")
      case True
      then have "in_scope g def i (nr_properties n)" using def(2) n(1) by (simp add: in_scope_def)
      from upholds_admissible [OF _ this] show ?thesis using g def(1,2) by (auto simp: guarded_def constraints_hold_def)
    next
      case False
      then have one: "cdef_label def = label" using def(3) t by simp
      have "check_record_constraints_with env (ss_constraints (gr_schema g)) g
          (NodeRecord (One label) (nr_properties n) (Some i)) ex = Inr ()"
        using against_accepts [OF check g def(1)] n(1) by simp
      then have "admissible fs (\<not> ex) g def i (nr_properties n)"
        by (rule record_check(1) [OF _ ok def(1) refl _ def(2)]) (use one in auto)
      then show ?thesis using L unfolding admissible_def by auto
    qed
    then show "admissible fs ((Node, i) \<in> X) g def i (nr_properties (n\<lparr>nr_labels := nr_labels n @ [trim label]\<rparr>))" by simp
  qed
qed

lemma add_labels_guarded:
  assumes "guarded fs X (ex_graph ex)" and "ex_defer ex \<Longrightarrow> (Node, i) \<in> X" and "list_all trimmed labels"
    and "add_labels env i labels ex = Inr ex'"
  shows "guarded fs X (ex_graph ex') \<and> ex_defer ex' = ex_defer ex \<and> ex_pending ex' = ex_pending ex"
  using assms
proof (induction labels arbitrary: ex)
  case (Cons label labels)
  let ?ex = "change (\<lambda>g. snd (add_node_label i label g)) ex"
  have passed: "(if ex_defer ex then check_node_add_label_deferring_existence env (ex_graph ex) i label
      else check_node_add_label_against_constraints env (ex_graph ex) i label) = Inr ()"
    and rest: "add_labels env i labels ?ex = Inr ex'"
    using Cons.prems(4) unfolding add_labels.simps checked_ok by blast+
  have "against_constraints (ex_graph ex) (\<lambda>catalog. case node_at (ex_graph ex) i of None \<Rightarrow> Inr ()
      | Some n \<Rightarrow> check_record_constraints_with env catalog (ex_graph ex)
          (NodeRecord (One label) (nr_properties n) (Some i)) (\<not> ex_defer ex)) = Inr ()"
    using passed unfolding check_node_add_label_deferring_existence_def check_node_add_label_deferred_def
      check_node_add_label_against_constraints_def check_node_add_label_def check_record_constraints_def
    by (cases "ex_defer ex") (simp_all cong: option.case_cong)
  then have "guarded fs X (snd (add_node_label i label (ex_graph ex)))"
    using guarded_add_label [OF Cons.prems(1), of "\<not> ex_defer ex" i label] Cons.prems(2,3) by simp
  then show ?case using Cons.IH [of ?ex] Cons.prems rest by (simp add: change_def)
qed simp

lemma set_labels_safe:
  assumes safe: "safe fs ex" and names: "list_all trimmed labels" and run: "set_labels env i labels ex = Inr ex'"
  shows "safe fs ex' \<and> ex_defer ex' = ex_defer ex"
proof -
  obtain ex1 where ex1: "add_labels env i labels ex = Inr ex1" "ex' = put_off_if_deferring (NodeTarget i) ex1"
    using run by (auto simp: set_labels_def)
  let ?X = "if ex_defer ex then insert (Node, i) (awaiting ex) else awaiting ex"
  have "awaiting ex \<subseteq> ?X" by auto
  with safe have "guarded fs ?X (ex_graph ex)" unfolding safe_def by (blast intro: guarded_mono)
  from add_labels_guarded [OF this _ names ex1(1)] have "guarded fs ?X (ex_graph ex1) \<and> ex_defer ex1 = ex_defer ex
      \<and> ex_pending ex1 = ex_pending ex" by simp
  then show ?thesis using safe ex1(2) by (auto simp: safe_def put_off_if_deferring_def put_off_def)
qed

text \<open>Deletions.\<close>

lemma delete_nodes_shrinks: "graph_ok g \<Longrightarrow> delete_nodes is g = Inr g' \<Longrightarrow> shrinks g g' \<and> graph_ok g'"
proof (induction "is" arbitrary: g)
  case (Cons i "is")
  obtain b h where h: "delete_node i g = (b, h)" by fastforce
  then have "shrinks g h" "graph_ok h" using delete_node_shrinks [of g i] delete_node_ok [OF Cons.prems(1), of i] by auto
  moreover have "delete_nodes is h = Inr g'" using Cons.prems(2) h by (simp split: bool.splits)
  ultimately show ?case using Cons.IH [of h] shrinks_trans by blast
qed simp

lemma delete_safe:
  assumes safe: "safe fs ex" and run: "validate_and_delete targets detach ex = Inr ex'"
  shows "safe fs ex' \<and> ex_defer ex' = ex_defer ex"
proof -
  let ?g = "ex_graph ex" and ?h = "snd (delete_relationships (dt_rels targets) (ex_graph ex))"
  have g: "guarded fs (awaiting ex) ?g" using safe by (simp add: safe_def)
  note ok = guarded_ok [OF g]
  have h: "shrinks ?g ?h" "graph_ok ?h"
    using deletions_shrink(1) [OF ok] delete_one_by_one_ok [OF ok] delete_relationships_one_by_one [OF ok] by simp_all
  obtain g' where g': "ex' = ex\<lparr>ex_graph := g'\<rparr>" and "shrinks ?h g' \<and> graph_ok g'"
  proof (cases detach)
    case True
    then show thesis using run that deletions_shrink(2) [OF h(2)] detach_nodes_at_once(2) [OF h(2)]
      by (auto simp: validate_and_delete_def delete_targets_def Let_def)
  next
    case False
    then show thesis using run that delete_nodes_shrinks [OF h(2)]
      by (auto simp: validate_and_delete_def delete_targets_def Let_def)
  qed
  then show ?thesis using guarded_shrinks [OF g shrinks_trans [OF h(1)]] safe by (simp add: safe_def)
qed

section \<open>Statements\<close>

lemma remove_labels_safe: "safe fs ex \<Longrightarrow> remove_labels i labels ex = Inr ex' \<Longrightarrow> safe fs ex' \<and> ex_defer ex' = ex_defer ex"
proof -
  have "guarded fs X g \<Longrightarrow> guarded fs X (fold (\<lambda>label g. snd (remove_node_label i label g)) labels g)" for X g
    by (induction labels arbitrary: g) (simp_all add: guarded_remove_node_label)
  then show "safe fs ex \<Longrightarrow> remove_labels i labels ex = Inr ex' \<Longrightarrow> safe fs ex' \<and> ex_defer ex' = ex_defer ex"
    by (auto simp: remove_labels_def change_def safe_def)
qed

lemma run_write_safe:
  assumes "safe fs ex" and "well_named w" and "run_write env w ex = Inr ex'"
  shows "safe fs ex' \<and> ex_defer ex' = ex_defer ex"
proof (cases w)
  case (WriteCreateNode labels ps)
  then show ?thesis using assms create_node_safe [of ex labels ps _ ex'] by auto
next
  case (WriteCreateRelationship src dst ty ps)
  then show ?thesis using assms create_relationship_safe [of ex ty ps src dst _ ex'] by auto
next
  case (WriteSetProperty target key v)
  then show ?thesis using assms set_property_safe [of ex target key v ex'] by simp
next
  case (WriteRemoveProperty target key)
  then show ?thesis using assms remove_entity_property_safe [of ex target key ex'] by simp
next
  case (WriteMutate target edits)
  then show ?thesis using assms mutate_safe [of ex target edits ex'] by simp
next
  case (WriteSetRun i edits)
  then show ?thesis using assms write_node_properties_safe [of ex i edits ex'] write_each_safe [of ex "NodeTarget i" edits ex']
    by (simp split: if_splits)
next
  case (WriteOverwrite target edits)
  then show ?thesis using assms overwrite_safe [of ex target edits ex'] by simp
next
  case (WriteSetLabels i labels)
  then show ?thesis using assms set_labels_safe [of ex labels i ex'] by simp
next
  case (WriteRemoveLabels i labels)
  then show ?thesis using assms remove_labels_safe [of ex i labels ex'] by simp
next
  case (WriteDelete targets detach)
  then show ?thesis using assms delete_safe [of ex targets detach ex'] by simp
qed

lemma run_writes_safe:
  "safe fs ex \<Longrightarrow> list_all well_named ws \<Longrightarrow> run_writes env ws ex = Inr ex' \<Longrightarrow> safe fs ex' \<and> ex_defer ex' = ex_defer ex"
proof (induction ws arbitrary: ex)
  case (Cons w ws)
  obtain ex1 where ex1: "run_write env w ex = Inr ex1" "run_writes env ws ex1 = Inr ex'" using Cons.prems(3) by auto
  then show ?case using run_write_safe [OF Cons.prems(1) _ ex1(1)] Cons.IH [of ex1] Cons.prems(2) by simp
qed simp

text \<open>A record that passes the check put off lacks nothing.\<close>

lemma existence_checked:
  assumes g: "guarded fs X g" and "check_existence g target = Inr ()"
    and def: "def \<in> set (constraint_list (ss_constraints (gr_schema g)))" and scope: "in_scope g def i ps"
    and i: "target_key target = (cdef_entity def, i)"
  shows "\<not> lacks def ps"
proof (cases target)
  case (NodeTarget k)
  then have k: "cdef_entity def = Node" "k = i" using i by auto
  obtain n where n: "node_at g i = Some n" "cdef_label def \<in> set (nr_labels n)" "nr_properties n = ps"
    using scope k by (auto simp: in_scope_def)
  have "check_node_existence (ss_constraints (gr_schema g)) g i = Inr ()"
    using assms(2) NodeTarget k against_accepts [OF _ g def] by (simp add: check_node_existence_constraints_def)
  then show ?thesis using def k n unfolding check_node_existence_def
    by (auto simp: each_constraint_ok lacks_def find_None_iff split: option.splits if_splits dest!: bspec)
next
  case (RelTarget k)
  then have k: "cdef_entity def = Relationship" "k = i" using i by auto
  obtain r where r: "rel_at g i = Some r" "rr_type r = cdef_label def" "rr_properties r = ps"
    using scope k by (auto simp: in_scope_def)
  have "check_relationship_existence (ss_constraints (gr_schema g)) g i = Inr ()"
    using assms(2) RelTarget k against_accepts [OF _ g def] by (simp add: check_relationship_existence_constraints_def)
  then show ?thesis using def k r unfolding check_relationship_existence_def
    by (auto simp: each_constraint_ok lacks_def find_None_iff split: option.splits if_splits dest!: bspec)
qed

lemma each_ok_iff: "each_ok check xs = Inr () \<longleftrightarrow> (\<forall>x \<in> set xs. check x = Inr ())"
  by (induction xs) auto

lemma pending_checked:
  assumes safe: "safe fs ex" and run: "check_pending_existence ex = Inr ex'"
  shows "guarded fs {} (ex_graph ex')"
proof -
  let ?g = "ex_graph ex"
  have g: "guarded fs (awaiting ex) ?g" using safe by (simp add: safe_def)
  have ex': "ex_graph ex' = ?g" and ok: "\<forall>t \<in> set (ex_pending ex). check_existence ?g t = Inr ()"
    using run by (auto simp: check_pending_existence_def each_ok_iff passed_check)
  show ?thesis unfolding ex'
  proof (rule guarded_same [OF g guarded_ok [OF g] same_catalogs_refl])
    fix def assume def: "def \<in> set (constraint_list (ss_constraints (gr_schema ?g)))" and u: "upholds fs (awaiting ex) ?g def"
    have "\<not> lacks def ps" if scope: "in_scope ?g def i ps" for i ps
    proof (cases "(cdef_entity def, i) \<in> awaiting ex")
      case True
      then obtain t where "t \<in> set (ex_pending ex)" "target_key t = (cdef_entity def, i)" by force
      then show ?thesis using existence_checked [OF g _ def scope] ok by blast
    next
      case False
      then show ?thesis using u scope by (auto simp: upholds_def)
    qed
    then show "upholds fs {} ?g def" using u by (auto simp: upholds_def)
  qed
qed

lemma statement_guarded:
  assumes "guarded fs {} g" and "list_all well_named ws" and "run_statement env defer ws g = Inr g'"
  shows "guarded fs {} g'"
proof -
  let ?ex = "\<lparr>ex_graph = g, ex_defer = defer, ex_pending = []\<rparr>"
  obtain ex1 ex2 where ex: "run_writes env ws ?ex = Inr ex1" "check_pending_existence ex1 = Inr ex2" "g' = ex_graph ex2"
    using assms(3) by (auto simp: run_statement_def)
  have "safe fs ?ex" using assms(1) by (simp add: safe_def)
  from pending_checked [OF run_writes_safe [OF this assms(2) ex(1), THEN conjunct1] ex(2)] ex(3) show ?thesis by simp
qed

end

end
