(* ===== verification/Constraint_Keeping.thy ===== *)
theory Constraint_Keeping
  imports Executor_Safety
begin

text \<open>
  Constraints over a graph's whole life: a constraint is created only over records that satisfy it, the
  other schema commands keep the constraints there are, and so does every statement that succeeds.
\<close>

section \<open>Creating a constraint\<close>

lemma in_scope_properties:
  assumes "graph_ok g"
  shows "in_scope g def i ps \<longleftrightarrow> i \<in> set (scope_ids g def) \<and> entity_properties g (cdef_entity def) i = Some ps"
  using scope_ids_ok(2,3) [OF assms, of def i]
  by (cases "cdef_entity def") (auto simp: in_scope_def entity_properties_def)

lemma record_verdict_ok:
  "record_verdict fs def (Some ps) = Inr key \<longleftrightarrow> \<not> ill_typed def ps \<and> \<not> lacks def ps \<and>
     key = (if tuple_present def ps then Some (write_property_tuple_key fs def ps) else None)"
  using validate_record_ok [of def ps True]
  by (cases "validate_record_against_constraint def ps True") (auto simp: record_verdict_def)

lemma tuple_present: "constrained_tuple def ps = Some s \<Longrightarrow> requires_uniqueness (cdef_kind def) \<Longrightarrow> tuple_present def ps"
  unfolding constrained_tuple_def tuple_present_def list_all_iff
  by (metis image_eqI list.set_map option.distinct(1) those_None)

lemma clash_present: "clash fs def ps qs \<Longrightarrow> tuple_present def ps \<and> tuple_present def qs"
  unfolding clash_def using tuple_present by blast

lemma distinct_map_filter_keys:
  assumes "distinct (List.map_filter f xs)" and "i \<in> set xs" "j \<in> set xs" "i \<noteq> j" and "f i = Some k" "f j = Some l"
  shows "k \<noteq> l"
  using assms
proof (induction xs)
  case (Cons x xs)
  have "v \<in> set (List.map_filter f xs)" if "y \<in> set xs" "f y = Some v" for y v
    using that by (induction xs) (auto simp: List.map_filter_simps split: option.split)
  then show ?case using Cons by (auto simp: List.map_filter_simps split: option.splits)
qed simp

lemma scan_accepts_upholds:
  assumes ok: "graph_ok g" and accepts: "existing_data_scan fs hash g def = None"
  shows "upholds fs {} g def"
proof -
  let ?judge = "\<lambda>i. record_verdict fs def (entity_properties g (cdef_entity def) i)"
  have "validate_existing_data_for_constraint fs hash g def = Inr ()"
    using accepts by (auto simp: existing_data_scan_def split: sum.splits)
  then have judged: "\<forall>i \<in> set (scope_ids g def). \<not> isl (?judge i)"
    and distinct: "distinct (List.map_filter (\<lambda>i. projr (?judge i)) (scope_ids g def))"
    by (simp_all add: existing_data_in_order [OF ok] scope_in_order_accepts)
  have verdict: "\<not> ill_typed def ps \<and> \<not> lacks def ps \<and> ?judge i =
      Inr (if tuple_present def ps then Some (write_property_tuple_key fs def ps) else None)"
    if scope: "in_scope g def i ps" for i ps
  proof -
    have "i \<in> set (scope_ids g def)" and ps: "entity_properties g (cdef_entity def) i = Some ps"
      using scope by (simp_all add: in_scope_properties [OF ok])
    then obtain key where "?judge i = Inr key" using judged by (metis isl_def sum.exhaust)
    then show ?thesis by (simp add: ps record_verdict_ok)
  qed
  have "\<not> clash fs def ps qs" if scope: "in_scope g def i ps" "in_scope g def j qs" and ij: "i \<noteq> j" for i j ps qs
  proof
    assume clash: "clash fs def ps qs"
    have "write_property_tuple_key fs def ps \<noteq> write_property_tuple_key fs def qs"
      by (rule distinct_map_filter_keys [OF distinct _ _ ij])
        (use scope verdict clash_present [OF clash] in \<open>auto simp: in_scope_properties [OF ok]\<close>)
    then show False using clash by (simp add: clash_def)
  qed
  then show ?thesis using verdict unfolding upholds_def by blast
qed

section \<open>The schema commands\<close>

lemma upholds_on_schema [simp]: "upholds fs X (g\<lparr>gr_schema := s\<rparr>) def = upholds fs X g def"
proof -
  have "in_scope (g\<lparr>gr_schema := s\<rparr>) def i ps = in_scope g def i ps" for i ps
    by (simp add: in_scope_def split: stored_index_entity.split)
  then show ?thesis by (simp add: upholds_def)
qed

lemma guarded_schema:
  assumes "guarded fs X g" and "schema_ok s"
    and "\<And>def. def \<in> set (constraint_list (ss_constraints s)) \<Longrightarrow>
      def \<in> set (constraint_list (ss_constraints (gr_schema g))) \<or> upholds fs X g def"
  shows "guarded fs X (g\<lparr>gr_schema := s\<rparr>)"
  using assms by (auto simp: guarded_def constraints_hold_def)

lemma constraints_after_insert: "set (constraint_list (btree_insert k d c)) \<subseteq> insert d (set (constraint_list c))"
  by (induction k d c rule: btree_insert.induct) (auto simp: constraint_list_def)

lemma constraints_after_remove: "set (constraint_list (btree_remove k c)) \<subseteq> set (constraint_list c)"
  by (induction k c rule: btree_remove.induct) (auto simp: constraint_list_def)

lemma guarded_register_constraint:
  assumes g: "guarded fs {} g"
  shows "guarded fs {} (snd (on_schema (register_constraint (existing_data_scan fs hash g) request ine) g))"
proof -
  let ?s = "gr_schema g" and ?scan = "existing_data_scan fs hash g"
  have ok: "graph_ok g" and s: "schema_ok ?s" using g by (simp_all add: guarded_def)
  show ?thesis unfolding on_schema_snd
  proof (rule guarded_schema [OF g schema_ok_register_constraint [OF s]])
    fix def assume def: "def \<in> set (constraint_list (ss_constraints (snd (register_constraint ?scan request ine ?s))))"
    show "def \<in> set (constraint_list (ss_constraints ?s)) \<or> upholds fs {} g def"
      using s
    proof (cases rule: register_constraint_cases [where violation = ?scan and r = request and ine = ine])
      case created
      have ic: "index_catalog_ok (ss_indexes ?s)" using s by (simp add: schema_ok_def)
      have "def = constraint_def_of request \<or> def \<in> set (constraint_list (ss_constraints ?s))"
        using def constraints_after_insert unfolding register_constraint_created [of _ _ _ ?scan, OF created ic]
        by (fastforce simp: emit_def)
      then show ?thesis using scan_accepts_upholds [OF ok created(3)] by blast
    qed (use def in simp)
  qed
qed

lemma guarded_drop_constraint:
  assumes g: "guarded fs {} g"
  shows "guarded fs {} (snd (on_schema (drop_named_constraint name ife) g))"
proof -
  have s: "schema_ok (gr_schema g)" using g by (simp add: guarded_def)
  show ?thesis unfolding on_schema_snd
  proof (rule guarded_schema [OF g schema_ok_drop_constraint [OF s]], rule disjI1)
    fix def assume "def \<in> set (constraint_list (ss_constraints (snd (drop_named_constraint name ife (gr_schema g)))))"
    then show "def \<in> set (constraint_list (ss_constraints (gr_schema g)))"
      using constraints_after_remove drop_named_constraint_dropped [OF s, of name]
      by (cases "constraint_get (ss_constraints (gr_schema g)) name")
        (fastforce simp: drop_named_constraint_missing emit_def)+
  qed
qed

lemma guarded_other_schema:
  assumes "guarded fs {} g" and "schema_ok s" and "ss_constraints s = ss_constraints (gr_schema g)"
  shows "guarded fs {} (g\<lparr>gr_schema := s\<rparr>)"
  by (rule guarded_schema [OF assms(1,2)]) (simp add: assms(3))

lemma guarded_register_index:
  assumes g: "guarded fs {} g" and len: "length (icat_by_name (ss_indexes (gr_schema g))) < 2 ^ 64"
  shows "guarded fs {} (snd (on_schema (register_index request ine) g))"
proof -
  have "schema_ok (gr_schema g)" using g by (simp add: guarded_def)
  then show ?thesis unfolding on_schema_snd
    by (intro guarded_other_schema [OF g] schema_ok_register_index len) (simp_all add: register_index_def)
qed

lemma guarded_drop_index:
  assumes g: "guarded fs {} g"
  shows "guarded fs {} (snd (on_schema (drop_named_index name ife) g))"
proof -
  have "schema_ok (gr_schema g)" using g by (simp add: guarded_def)
  then show ?thesis unfolding on_schema_snd
    by (intro guarded_other_schema [OF g] schema_ok_drop_index)
      (simp_all add: drop_named_index_def drop_named_index_inner_def Let_def emit_def
        split: option.split prod.split sum.split drop_index_outcome.split)
qed

lemma guarded_populate:
  assumes g: "guarded fs {} g"
  shows "guarded fs {} (g\<lparr>gr_schema := lazy_populate_vector_index name (gr_schema g)\<rparr>)"
proof -
  have "schema_ok (gr_schema g)" using g by (simp add: guarded_def)
  then show ?thesis
    by (intro guarded_other_schema [OF g] schema_ok_lazy) (simp_all add: lazy_populate_vector_index_def split: option.split)
qed

lemma guarded_empty: "guarded fs {} (graph_default recorder)"
  using schema_ok_new [of recorder] graph_ok_default
  by (simp add: guarded_def constraints_hold_def constraint_list_def graph_default_def)
    (simp add: schema_new_def)

lemma guarded_clear: "guarded fs {} (clear_graph g)"
  unfolding clear_graph_def graph_emit_def
  using schema_ok_new [of "ss_recorder (gr_schema g)"]
  by (intro guarded_other_schema [OF guarded_empty]) (simp_all add: emit_def graph_default_def schema_ok_def)

section \<open>Histories of statements and schema commands\<close>

text \<open>
  A statement that fails leaves no state of its own: its staged graph is dropped, which is no step here.
\<close>

inductive store_step :: "check_env \<Rightarrow> key_hash \<Rightarrow> graph \<Rightarrow> graph \<Rightarrow> bool" for env hash where
  statement: "list_all well_named ws \<Longrightarrow> run_statement env defer ws g = Inr g' \<Longrightarrow> store_step env hash g g'"
| clear: "store_step env hash g (clear_graph g)"
| create_index: "length (icat_by_name (ss_indexes (gr_schema g))) < 2 ^ 64 \<Longrightarrow>
    store_step env hash g (snd (on_schema (register_index request ine) g))"
| drop_index: "store_step env hash g (snd (on_schema (drop_named_index name ife) g))"
| create_constraint: "store_step env hash g
    (snd (on_schema (register_constraint (existing_data_scan (env_float env) hash g) request ine) g))"
| drop_constraint: "store_step env hash g (snd (on_schema (drop_named_constraint name ife) g))"
| populate: "store_step env hash g (g\<lparr>gr_schema := lazy_populate_vector_index name (gr_schema g)\<rparr>)"

inductive_cases store_stepE: "store_step env hash g g'"

inductive store_reachable :: "check_env \<Rightarrow> key_hash \<Rightarrow> mutation_event list option \<Rightarrow> graph \<Rightarrow> bool" for env hash recorder where
  start: "store_reachable env hash recorder (graph_default recorder)"
| step: "store_reachable env hash recorder g \<Longrightarrow> store_step env hash g g' \<Longrightarrow> store_reachable env hash recorder g'"

context indexed_checks
begin

lemma guarded_step: "store_step env hash g g' \<Longrightarrow> guarded fs {} g \<Longrightarrow> guarded fs {} g'"
  by (erule store_stepE) (simp_all add: statement_guarded guarded_clear guarded_register_index guarded_drop_index
      guarded_register_constraint guarded_drop_constraint guarded_populate)

lemma guarded_reachable: "store_reachable env hash recorder g \<Longrightarrow> guarded fs {} g"
  by (induction rule: store_reachable.induct) (auto intro: guarded_empty guarded_step)

end

end
