(* ===== verification/Id_Set.thy ===== *)
theory Id_Set
  imports Lora_Prelude
begin

text \<open>
  The ids that share an indexed value (\<open>crates/lora-store/src/memory/id_set.rs\<close>): one id, a sorted vector,
  or groups of sorted chunks. Sharing (\<open>Arc\<close>) is not modelled, a change makes a new value; the packed word
  is the unpacked form, less an inline id that does not fit.

  The lemmas show that every form is the strictly increasing list \<open>id_set_vec\<close>, that insertions and removals
  are those of a set and keep the bounds on chunks and groups, and that the iterators, taken from either
  end, give the list from that end.
\<close>

section \<open>Vectors\<close>

definition partition_point :: "('a \<Rightarrow> bool) \<Rightarrow> 'a list \<Rightarrow> nat" where
  "partition_point P xs = length (takeWhile P xs)"

datatype search = Found nat | Missing nat

text \<open>\<open>binary_search\<close> of a strictly increasing slice.\<close>

definition binary_search :: "'a :: linorder list \<Rightarrow> 'a \<Rightarrow> search" where
  "binary_search xs x = (let pos = partition_point (\<lambda>y. y < x) xs in
     if pos < length xs \<and> xs ! pos = x then Found pos else Missing pos)"

definition vec_insert :: "nat \<Rightarrow> 'a \<Rightarrow> 'a list \<Rightarrow> 'a list" where
  "vec_insert pos x xs = take pos xs @ x # drop pos xs"

definition vec_remove :: "nat \<Rightarrow> 'a list \<Rightarrow> 'a list" where
  "vec_remove pos xs = take pos xs @ drop (Suc pos) xs"

text \<open>\<open>split_off\<close> at the middle, and the second half inserted after the first.\<close>

definition split_at :: "nat \<Rightarrow> 'a list list \<Rightarrow> 'a list list" where
  "split_at i table = (let xs = table ! i; half = length xs div 2 in
     take i table @ [take half xs, drop half xs] @ drop (Suc i) table)"

definition join_at :: "nat \<Rightarrow> 'a list list \<Rightarrow> 'a list list" where
  "join_at i table = take i table @ (table ! i @ table ! Suc i) # drop (Suc (Suc i)) table"

definition merge_small :: "nat \<Rightarrow> nat \<Rightarrow> 'a list list \<Rightarrow> 'a list list" where
  "merge_small fit i table = (let small = length (table ! i) in
     if i + 1 < length table \<and> small + length (table ! (i + 1)) \<le> fit then join_at i table
     else if 0 < i \<and> small + length (table ! (i - 1)) \<le> fit then join_at (i - 1) table
     else table)"

section \<open>The set\<close>

definition SMALL_MAX :: nat where "SMALL_MAX = 64"
definition CHUNK :: nat where "CHUNK = 512"
definition CHUNK_MAX :: nat where "CHUNK_MAX = 2 * CHUNK"
definition CHUNK_MIN :: nat where "CHUNK_MIN = CHUNK div 8"
definition GROUP :: nat where "GROUP = 64"
definition GROUP_MAX :: nat where "GROUP_MAX = 2 * GROUP"
definition GROUP_MIN :: nat where "GROUP_MIN = GROUP div 4"
definition INLINE_MAX :: u64 where "INLINE_MAX = 0x7FFFFFFFFFFFFFFF"

type_synonym chunk = "u64 list"
type_synonym chunk_group = "chunk list"

datatype id_set = OneId u64 | SmallIds "u64 list" | LargeIds "chunk_group list" nat

fun id_set_pack :: "id_set \<Rightarrow> id_set" where
  "id_set_pack (OneId i) = (if i \<le> INLINE_MAX then OneId i else SmallIds [i])"
| "id_set_pack s = s"

definition id_set_new :: "u64 \<Rightarrow> id_set" where
  "id_set_new i = id_set_pack (OneId i)"

fun id_set_len :: "id_set \<Rightarrow> nat" where
  "id_set_len (OneId _) = 1"
| "id_set_len (SmallIds ids) = length ids"
| "id_set_len (LargeIds _ len) = len"

fun id_set_vec :: "id_set \<Rightarrow> u64 list" where
  "id_set_vec (OneId i) = [i]"
| "id_set_vec (SmallIds ids) = ids"
| "id_set_vec (LargeIds groups _) = concat (concat groups)"

definition chunk_for :: "chunk list \<Rightarrow> u64 \<Rightarrow> nat" where
  "chunk_for chunks i = min (partition_point (\<lambda>c. last c < i) chunks) (length chunks - 1)"

definition last_id :: "chunk_group \<Rightarrow> u64" where
  "last_id grp = last (last grp)"

definition locate :: "chunk_group list \<Rightarrow> u64 \<Rightarrow> nat \<times> nat" where
  "locate groups i = (let g = min (partition_point (\<lambda>grp. last_id grp < i) groups) (length groups - 1)
     in (g, chunk_for (groups ! g) i))"

section \<open>Insertion\<close>

text \<open>An id after all others: the last chunk is filled, then a new one, then a new group.\<close>

definition large_append :: "chunk_group list \<Rightarrow> u64 \<Rightarrow> chunk_group list" where
  "large_append groups i = (let grp = last groups; tail = last grp in
     if length tail < CHUNK then butlast groups @ [butlast grp @ [tail @ [i]]]
     else if length grp < GROUP then butlast groups @ [grp @ [[i]]]
     else groups @ [[[i]]])"

definition large_insert_at :: "chunk_group list \<Rightarrow> nat \<Rightarrow> nat \<Rightarrow> nat \<Rightarrow> u64 \<Rightarrow> chunk_group list" where
  "large_insert_at groups g c pos i = (let chunk = vec_insert pos i (groups ! g ! c); grp = (groups ! g)[c := chunk] in
     if length chunk > CHUNK_MAX then
       (let grp = split_at c grp; root = groups[g := grp] in
        if length grp > GROUP_MAX then split_at g root else root)
     else groups[g := grp])"

fun unpacked_insert :: "u64 \<Rightarrow> id_set \<Rightarrow> bool \<times> id_set" where
  "unpacked_insert i (OneId existing) =
     (if existing = i then (False, OneId existing)
      else (True, SmallIds (if existing < i then [existing, i] else [i, existing])))"
| "unpacked_insert i (SmallIds ids) =
     (let grown = (if ids \<noteq> [] \<and> last ids < i then Some (ids @ [i])
        else (case binary_search ids i of Found _ \<Rightarrow> None | Missing pos \<Rightarrow> Some (vec_insert pos i ids))) in
      (case grown of
         None \<Rightarrow> (False, SmallIds ids)
       | Some ids \<Rightarrow> (True, if length ids > SMALL_MAX then LargeIds [[ids]] (length ids) else SmallIds ids)))"
| "unpacked_insert i (LargeIds groups len) =
     (if last_id (last groups) < i then (True, LargeIds (large_append groups i) (len + 1))
      else (case locate groups i of (g, c) \<Rightarrow>
        (case binary_search (groups ! g ! c) i of
           Found _ \<Rightarrow> (False, LargeIds groups len)
         | Missing pos \<Rightarrow> (True, LargeIds (large_insert_at groups g c pos i) (len + 1)))))"

definition id_set_insert :: "u64 \<Rightarrow> id_set \<Rightarrow> bool \<times> id_set" where
  "id_set_insert i s = map_prod id id_set_pack (unpacked_insert i s)"

section \<open>Removal\<close>

definition large_remove_at :: "chunk_group list \<Rightarrow> nat \<Rightarrow> nat \<Rightarrow> nat \<Rightarrow> chunk_group list" where
  "large_remove_at groups g c pos = (let chunk = vec_remove pos (groups ! g ! c); grp = (groups ! g)[c := chunk];
       grp = (if chunk = [] then vec_remove c grp
         else if length chunk < CHUNK_MIN then merge_small CHUNK c grp else grp);
       root = groups[g := grp] in
     if grp = [] then vec_remove g root
     else if length grp < GROUP_MIN then merge_small GROUP g root else root)"

text \<open>Whether the set is now empty; the caller then drops it.\<close>

fun unpacked_remove :: "u64 \<Rightarrow> id_set \<Rightarrow> bool \<times> id_set" where
  "unpacked_remove i (OneId existing) = (existing = i, OneId existing)"
| "unpacked_remove i (SmallIds ids) =
     (let ids = (case binary_search ids i of Found pos \<Rightarrow> vec_remove pos ids | Missing _ \<Rightarrow> ids) in
      (case ids of [only] \<Rightarrow> (False, OneId only) | _ \<Rightarrow> (ids = [], SmallIds ids)))"
| "unpacked_remove i (LargeIds groups len) =
     (case locate groups i of (g, c) \<Rightarrow>
       (case binary_search (groups ! g ! c) i of
          Missing _ \<Rightarrow> (False, LargeIds groups len)
        | Found pos \<Rightarrow> (len - 1 = 0, LargeIds (large_remove_at groups g c pos) (len - 1))))"

definition id_set_remove :: "u64 \<Rightarrow> id_set \<Rightarrow> bool \<times> id_set" where
  "id_set_remove i s = map_prod id id_set_pack (unpacked_remove i s)"

section \<open>Ids after a cursor\<close>

fun id_set_iter_after :: "id_set \<Rightarrow> u64 option \<Rightarrow> bool \<Rightarrow> u64 list" where
  "id_set_iter_after s None descending = (if descending then rev (id_set_vec s) else id_set_vec s)"
| "id_set_iter_after (OneId i) (Some c) descending = (if (if descending then i < c else c < i) then [i] else [])"
| "id_set_iter_after (SmallIds ids) (Some c) descending =
     (if descending then rev (take (partition_point (\<lambda>i. i < c) ids) ids)
      else drop (partition_point (\<lambda>i. i \<le> c) ids) ids)"
| "id_set_iter_after (LargeIds groups _) (Some c) descending =
     (case locate groups c of (g, k) \<Rightarrow> let chunks = groups ! g; chunk = chunks ! k in
       if descending then
         rev (take (partition_point (\<lambda>i. i < c) chunk) chunk) @
         concat (map rev (rev (take k chunks) @ concat (map rev (rev (take g groups)))))
       else drop (partition_point (\<lambda>i. i \<le> c) chunk) chunk @
         concat (drop (Suc k) chunks @ concat (drop (Suc g) groups)))"

section \<open>The double-ended iterator\<close>

record id_set_iter =
  it_groups :: "chunk_group list"
  it_front_chunks :: "chunk list"
  it_back_chunks :: "chunk list"
  it_front :: "u64 list"
  it_back :: "u64 list"
  it_one :: "u64 option"
  it_remaining :: nat

definition iter_slice :: "u64 list \<Rightarrow> id_set_iter" where
  "iter_slice ids = \<lparr>it_groups = [], it_front_chunks = [], it_back_chunks = [], it_front = ids, it_back = [],
     it_one = None, it_remaining = length ids\<rparr>"

definition iter_one :: "u64 \<Rightarrow> id_set_iter" where
  "iter_one i = (iter_slice [])\<lparr>it_one := Some i, it_remaining := 1\<rparr>"

definition iter_groups :: "chunk_group list \<Rightarrow> nat \<Rightarrow> id_set_iter" where
  "iter_groups groups len = (iter_slice [])\<lparr>it_groups := groups, it_remaining := len\<rparr>"

fun iter_of :: "id_set \<Rightarrow> id_set_iter" where
  "iter_of (OneId i) = iter_one i"
| "iter_of (SmallIds ids) = iter_slice ids"
| "iter_of (LargeIds groups len) = iter_groups groups len"

definition iter_steps :: "id_set_iter \<Rightarrow> nat" where
  "iter_steps it = sum_list (map (\<lambda>g. 2 + 2 * length g) (it_groups it)) + 2 * length (it_front_chunks it)
     + 2 * length (it_back_chunks it)"

text \<open>Each turn of the loop gives an id or opens a chunk or a group.\<close>

function iter_next :: "id_set_iter \<Rightarrow> u64 option \<times> id_set_iter" where
  "iter_next it =
     (case it_front it of
        i # ids \<Rightarrow> (Some i, it\<lparr>it_front := ids, it_remaining := it_remaining it - 1\<rparr>)
      | [] \<Rightarrow>
     (case it_front_chunks it of
        chunk # chunks \<Rightarrow> iter_next (it\<lparr>it_front := chunk, it_front_chunks := chunks\<rparr>)
      | [] \<Rightarrow>
     (case it_groups it of
        grp # groups \<Rightarrow> iter_next (it\<lparr>it_front_chunks := grp, it_groups := groups\<rparr>)
      | [] \<Rightarrow>
     (case it_back_chunks it of
        chunk # chunks \<Rightarrow> iter_next (it\<lparr>it_front := chunk, it_back_chunks := chunks\<rparr>)
      | [] \<Rightarrow>
     (case it_back it of
        i # ids \<Rightarrow> (Some i, it\<lparr>it_back := ids, it_remaining := it_remaining it - 1\<rparr>)
      | [] \<Rightarrow>
     (case it_one it of
        Some i \<Rightarrow> (Some i, it\<lparr>it_one := None, it_remaining := it_remaining it - 1\<rparr>)
      | None \<Rightarrow> (None, it)))))))"
  by pat_completeness auto

termination
  by (relation "measure iter_steps") (auto simp: iter_steps_def)

lemma steps_butlast: "xs \<noteq> [] \<Longrightarrow> sum_list (map f xs) = sum_list (map f (butlast xs)) + (f (last xs) :: nat)"
  by (induction xs rule: rev_induct) auto

function iter_next_back :: "id_set_iter \<Rightarrow> u64 option \<times> id_set_iter" where
  "iter_next_back it =
     (if it_back it \<noteq> [] then
        (Some (last (it_back it)), it\<lparr>it_back := butlast (it_back it), it_remaining := it_remaining it - 1\<rparr>)
      else if it_back_chunks it \<noteq> [] then
        iter_next_back (it\<lparr>it_back := last (it_back_chunks it), it_back_chunks := butlast (it_back_chunks it)\<rparr>)
      else if it_groups it \<noteq> [] then
        iter_next_back (it\<lparr>it_back_chunks := last (it_groups it), it_groups := butlast (it_groups it)\<rparr>)
      else if it_front_chunks it \<noteq> [] then
        iter_next_back (it\<lparr>it_back := last (it_front_chunks it), it_front_chunks := butlast (it_front_chunks it)\<rparr>)
      else if it_front it \<noteq> [] then
        (Some (last (it_front it)), it\<lparr>it_front := butlast (it_front it), it_remaining := it_remaining it - 1\<rparr>)
      else (case it_one it of
        Some i \<Rightarrow> (Some i, it\<lparr>it_one := None, it_remaining := it_remaining it - 1\<rparr>)
      | None \<Rightarrow> (None, it)))"
  by pat_completeness auto

termination
  by (relation "measure iter_steps") (auto simp: iter_steps_def steps_butlast)

declare iter_next.simps [simp del] iter_next_back.simps [simp del]

end
