(* ===== verification/Calendar.thy ===== *)
theory Calendar
  imports Lora_Prelude "HOL-Library.Signed_Division"
begin

text \<open>
  The proleptic Gregorian calendar (\<open>crates/lora-store/src/types/temporal/calendar.rs\<close>). The code computes in
  \<open>i64\<close> from a 32-bit year, month and day, which cannot overflow; the model computes in \<open>int\<close>, with \<open>sdiv\<close> for
  Rust's division, which rounds to zero.
\<close>

definition is_leap_year :: "int \<Rightarrow> bool" where
  "is_leap_year year \<longleftrightarrow> (year mod 4 = 0 \<and> year mod 100 \<noteq> 0) \<or> year mod 400 = 0"

definition days_in_month :: "int \<Rightarrow> int \<Rightarrow> int" where
  "days_in_month year month =
     (if month \<in> {1, 3, 5, 7, 8, 10, 12} then 31
      else if month = 2 then (if is_leap_year year then 29 else 28)
      else if month \<in> {4, 6, 9, 11} then 30
      else 0)"

definition days_from_civil :: "int \<Rightarrow> int \<Rightarrow> int \<Rightarrow> int" where
  "days_from_civil y m d =
     (let y = y - (if m \<le> 2 then 1 else 0);
          era = (if y \<ge> 0 then y else y - 399) sdiv 400;
          yoe = y - era * 400;
          doy = (153 * (if m > 2 then m - 3 else m + 9) + 2) sdiv 5 + d - 1;
          doe = yoe * 365 + yoe sdiv 4 - yoe sdiv 100 + doy
      in era * 146097 + doe - 719468)"

definition civil_from_days :: "int \<Rightarrow> int \<times> int \<times> int" where
  "civil_from_days z =
     (let z = z + 719468;
          era = (if z \<ge> 0 then z else z - 146096) sdiv 146097;
          doe = z - era * 146097;
          yoe = (doe - doe sdiv 1460 + doe sdiv 36524 - doe sdiv 146096) sdiv 365;
          y = yoe + era * 400;
          doy = doe - (365 * yoe + yoe sdiv 4 - yoe sdiv 100);
          mp = (5 * doy + 2) sdiv 153;
          d = doy - (153 * mp + 2) sdiv 5 + 1;
          m = (if mp < 10 then mp + 3 else mp - 9);
          y = (if m \<le> 2 then y + 1 else y)
      in (y, m, d))"

definition valid_date :: "int \<Rightarrow> int \<Rightarrow> int \<Rightarrow> bool" where
  "valid_date y m d \<longleftrightarrow> 1 \<le> m \<and> m \<le> 12 \<and> 1 \<le> d \<and> d \<le> days_in_month y m"

section \<open>The day count inverts\<close>

lemma sdiv_nonneg: "0 \<le> a \<Longrightarrow> 0 \<le> b \<Longrightarrow> a sdiv b = a div (b :: int)"
  by (auto simp: signed_divide_int_def sgn_if)

lemma era_floor: "0 < n \<Longrightarrow> (if y \<ge> 0 then y else y - (n - 1)) sdiv n = y div (n :: int)"
proof (cases "y \<ge> 0")
  case False
  assume n: "0 < n"
  have "(y - (n - 1)) sdiv n = - ((n - 1 - y) div n)" using False n by (simp add: signed_divide_int_def sgn_if)
  also have "(n - 1 - y) div n = - (y div n)"
    by (rule int_div_pos_eq [where r = "n - 1 - y mod n"]) (use n pos_mod_bound [OF n, of y] pos_mod_sign [OF n, of y] in \<open>simp_all add: algebra_simps\<close>)
  finally show ?thesis using False by simp
qed (simp add: sdiv_nonneg)

definition year_days :: "int \<Rightarrow> int" where
  "year_days yoe = yoe * 365 + yoe div 4 - yoe div 100"

definition day_year :: "int \<Rightarrow> int" where
  "day_year doe = doe - doe div 1460 + doe div 36524 - doe div 146096"

text \<open>Year \<open>yoe\<close> of an era, which runs from March to February: its days, and that dividing the day finds it.\<close>

definition year_end :: "int \<Rightarrow> int" where
  "year_end yoe = (if yoe = 399 then 146096 else year_days (yoe + 1) - 1)"

lemma year_table: "list_all (\<lambda>yoe. 365 * yoe \<le> day_year (year_days yoe) \<and>
    day_year (year_end yoe) < 365 * (yoe + 1)) (map int [0..<400])"
  by code_simp

lemma div_mono_step: "0 < n \<Longrightarrow> 0 \<le> a \<Longrightarrow> (a + 1) div n \<le> a div n + (1 :: int)"
  by (smt (verit) div_add_self2 zdiv_mono1)

lemma day_year_mono: "a \<le> b \<Longrightarrow> 0 \<le> a \<Longrightarrow> day_year a \<le> day_year b"
proof (induction "nat (b - a)" arbitrary: b)
  case (Suc k)
  have step: "day_year c \<le> day_year (c + 1)" if "0 \<le> c" for c
  proof -
    have split: "x div 146096 = x div 36524 div 4" for x :: int using zdiv_zmult2_eq [of 4 x 36524] by simp
    have "(c + 1) div 1460 \<le> c div 1460 + 1" by (rule div_mono_step) (use that in auto)
    moreover have "c div 36524 \<le> (c + 1) div 36524" "(c + 1) div 36524 \<le> c div 36524 + 1"
      using that by (auto intro: zdiv_mono1 div_mono_step)
    moreover have "q - q div 4 \<le> q' - q' div 4" if "q \<le> q'" "q' \<le> q + 1" for q q' :: int using that by presburger
    ultimately show ?thesis unfolding day_year_def split by smt
  qed
  have "day_year a \<le> day_year (b - 1)" using Suc by (intro Suc.hyps(1)) auto
  also have "\<dots> \<le> day_year b" using step [of "b - 1"] Suc by simp
  finally show ?case .
qed simp

lemma year_found:
  assumes "0 \<le> yoe" "yoe < 400" and "year_days yoe \<le> doe" "doe \<le> year_end yoe"
  shows "day_year doe div 365 = yoe"
proof -
  have "yoe \<in> set (map int [0..<400])" using assms(1,2) by (auto simp: image_iff intro!: bexI [of _ "nat yoe"])
  then have t: "365 * yoe \<le> day_year (year_days yoe)" "day_year (year_end yoe) < 365 * (yoe + 1)"
    using year_table by (auto simp: list_all_iff)
  have "0 \<le> year_days yoe" using assms(1) by (simp add: year_days_def)
  then have "day_year (year_days yoe) \<le> day_year doe" "day_year doe \<le> day_year (year_end yoe)"
    using day_year_mono assms(3,4) by auto
  then show ?thesis using t by (intro int_div_pos_eq [where r = "day_year doe - 365 * yoe"]) auto
qed

text \<open>Months count from March: 153 days in five of them.\<close>

lemma month_found:
  assumes "0 \<le> mp" "mp < 12" and "1 \<le> d" "d \<le> (if mp \<in> {0, 2, 4, 5, 7, 9, 10} then 31 else if mp = 11 then 29 else 30)"
  shows "(5 * ((153 * mp + 2) div 5 + d - 1) + 2) div 153 = mp" and "0 \<le> (153 * mp + 2) div 5 + d - (1 :: int)"
    and "(153 * mp + 2) div 5 + d - 1 \<le> 365" and "(153 * mp + 2) div 5 + d - 1 = 365 \<Longrightarrow> mp = 11 \<and> d = 29"
proof -
  have "mp = 0 \<or> mp = 1 \<or> mp = 2 \<or> mp = 3 \<or> mp = 4 \<or> mp = 5 \<or> mp = 6 \<or> mp = 7 \<or> mp = 8 \<or> mp = 9 \<or> mp = 10 \<or> mp = 11"
    using assms(1,2) by arith
  then show "(5 * ((153 * mp + 2) div 5 + d - 1) + 2) div 153 = mp" "0 \<le> (153 * mp + 2) div 5 + d - (1 :: int)"
    "(153 * mp + 2) div 5 + d - 1 \<le> 365" "(153 * mp + 2) div 5 + d - 1 = 365 \<Longrightarrow> mp = 11 \<and> d = 29" using assms(3,4) by (elim disjE; simp)+
qed

lemma next_div:
  assumes "0 < (n :: int)"
  shows "(a + 1) div n = a div n + (if (a + 1) mod n = 0 then 1 else 0)"
proof -
  let ?b = "a + 1"
  have b: "?b = n * (?b div n) + ?b mod n" by simp
  have "0 \<le> ?b mod n" "?b mod n < n" using assms by simp_all
  then have "0 < ?b mod n \<or> ?b mod n = 0" "?b mod n \<le> n" by linarith+
  then show ?thesis using b int_div_pos_eq [of a n "?b div n" "?b mod n - 1"]
      int_div_pos_eq [of a n "?b div n - 1" "n - 1"] assms by (elim disjE) (auto simp: algebra_simps)
qed

lemma year_length:
  assumes "0 \<le> yoe" "yoe < 400" and "doy \<le> 365" and leap: "doy = 365 \<Longrightarrow> is_leap_year (yoe + 1)"
  shows "year_days yoe + doy \<le> year_end yoe"
proof (cases "yoe = 399")
  case True
  then show ?thesis using assms(3) by (simp add: year_days_def year_end_def)
next
  case False
  have four: "(yoe + 1) div 4 = yoe div 4 + (if (yoe + 1) mod 4 = 0 then 1 else 0)" by (rule next_div) simp
  have cent: "(yoe + 1) div 100 = yoe div 100 + (if (yoe + 1) mod 100 = 0 then 1 else 0)" by (rule next_div) simp
  have "(yoe + 1) mod 100 mod 4 = (yoe + 1) mod 4" by (rule mod_mod_cancel) simp
  then have both: "(yoe + 1) mod 4 = 0" if "(yoe + 1) mod 100 = 0" using that by simp
  have "(yoe + 1) mod 400 \<noteq> 0" using False assms(1,2) by simp
  then have last: "doy = 365 \<Longrightarrow> (yoe + 1) mod 4 = 0 \<and> (yoe + 1) mod 100 \<noteq> 0" using leap by (simp add: is_leap_year_def)
  have "yoe div 4 - yoe div 100 + doy \<le> 364 + ((yoe + 1) div 4 - (yoe + 1) div 100)"
  proof (cases "doy = 365")
    case True
    note c = last [OF True]
    show ?thesis unfolding four cent if_P [OF conjunct1 [OF c]] if_not_P [OF conjunct2 [OF c]] using True by simp
  next
    case False
    then have "doy \<le> 364" using assms(3) by linarith
    then show ?thesis unfolding four cent using both by simp
  qed
  then show ?thesis using False by (simp add: year_days_def year_end_def)
qed

lemma civil_days_roundtrip:
  assumes "valid_date y m d"
  shows "civil_from_days (days_from_civil y m d) = (y, m, d)"
proof -
  define y' where "y' = y - (if m \<le> 2 then 1 else 0)"
  define mp where "mp = (if m > 2 then m - 3 else m + 9)"
  define yoe where "yoe = y' mod 400"
  define doy where "doy = (153 * mp + 2) div 5 + d - 1"
  define doe where "doe = year_days yoe + doy"
  have m: "1 \<le> m" "m \<le> 12" "1 \<le> d" "d \<le> days_in_month y m" using assms by (auto simp: valid_date_def)
  have mp: "0 \<le> mp" "mp < 12" using m by (auto simp: mp_def)
  have "m = 1 \<or> m = 2 \<or> m = 3 \<or> m = 4 \<or> m = 5 \<or> m = 6 \<or> m = 7 \<or> m = 8 \<or> m = 9 \<or> m = 10 \<or> m = 11 \<or> m = 12"
    using m by arith
  then have d: "d \<le> (if mp \<in> {0, 2, 4, 5, 7, 9, 10} then 31 else if mp = 11 then 29 else 30)"
    using m(4) by (elim disjE) (auto simp: mp_def days_in_month_def split: if_splits)
  note month = month_found [OF mp m(3) d, folded doy_def]
  have yoe: "0 \<le> yoe" "yoe < 400" "y' = yoe + y' div 400 * 400" by (simp_all add: yoe_def)
  have leap: "is_leap_year (yoe + 1)" if "doy = 365"
  proof -
    have "mp = 11 \<and> d = 29" by (rule month(4) [OF that])
    then have "m = 2" "is_leap_year y" using m by (auto simp: mp_def days_in_month_def split: if_splits)
    then have "is_leap_year (y' + 1)" by (simp add: y'_def)
    moreover have "(y' + 1) mod 400 = (yoe + 1) mod 400" by (simp add: yoe_def mod_simps)
    moreover have "a mod 4 = a mod 400 mod 4" "a mod 100 = a mod 400 mod 100" for a :: int by (simp_all add: mod_mod_cancel)
    ultimately show ?thesis unfolding is_leap_year_def by metis
  qed
  have doe: "year_days yoe \<le> doe" "doe \<le> year_end yoe" "0 \<le> doe" "doe < 146097"
  proof -
    show "year_days yoe \<le> doe" using month by (simp add: doe_def)
    show upto: "doe \<le> year_end yoe" using year_length [OF yoe(1,2) month(3) leap] by (simp add: doe_def)
    have "0 \<le> year_days yoe" using yoe(1) by (simp add: year_days_def)
    then show "0 \<le> doe" using \<open>year_days yoe \<le> doe\<close> by simp
    have "year_days (yoe + 1) \<le> 146097" using yoe(1,2) by (simp add: year_days_def)
    then show "doe < 146097" using upto by (auto simp: year_end_def split: if_splits)
  qed
  have floor: "(if y' \<ge> 0 then y' else y' - 399) sdiv 400 = y' div 400" using era_floor [of 400 y'] by (cases "y' \<ge> 0") simp_all
  have rest: "y' - y' div 400 * 400 = yoe" using yoe(3) by linarith
  have z: "days_from_civil y m d + 719468 = y' div 400 * 146097 + doe"
    unfolding days_from_civil_def Let_def y'_def [symmetric] mp_def [symmetric] floor rest
    using yoe(1) mp by (simp add: sdiv_nonneg doe_def doy_def year_days_def)
  have era: "(days_from_civil y m d + 719468) div 146097 = y' div 400" unfolding z using doe(3,4) by simp
  have found: "(doe - doe sdiv 1460 + doe sdiv 36524 - doe sdiv 146096) sdiv 365 = yoe"
  proof -
    have "0 \<le> day_year doe" using day_year_mono [of 0 doe] doe(3) by (simp add: day_year_def)
    then show ?thesis using year_found [OF yoe(1,2) doe(1,2)] doe(3) by (simp add: sdiv_nonneg day_year_def)
  qed
  let ?z = "days_from_civil y m d + 719468"
  have floor_z: "(if ?z \<ge> 0 then ?z else ?z - 146096) sdiv 146097 = y' div 400"
    using era_floor [of 146097 ?z] era by (cases "?z \<ge> 0") simp_all
  have day: "?z - y' div 400 * 146097 = doe" using z by simp
  have year: "yoe + y' div 400 * 400 = y'" using yoe(3) by simp
  have rest_doy: "doe - (365 * yoe + yoe sdiv 4 - yoe sdiv 100) = doy"
    using yoe(1) by (simp add: sdiv_nonneg doe_def year_days_def)
  have mp_found: "(5 * doy + 2) sdiv 153 = mp" using month(1,2) by (simp add: sdiv_nonneg)
  have d_found: "doy - (153 * mp + 2) sdiv 5 + 1 = d" using mp by (simp add: sdiv_nonneg doy_def)
  show ?thesis
    unfolding civil_from_days_def Let_def floor_z day found year rest_doy mp_found d_found
    using m by (auto simp: mp_def y'_def)
qed


end
