(* ===== verification/Property_Index.thy ===== *)
theory Property_Index
  imports Id_Set Calendar Constraint_Values "HOL-Library.AList"
begin

text \<open>
  The hash property indexes (\<open>crates/lora-store/src/memory/property_index.rs\<close>): from a scope (a label or a
  type), a property and a value to the ids that hold it. The copy-on-write hash maps (\<open>cow.rs\<close>) are
  association lists; their order is their own and nothing depends on it. The hash of a key, seeded for the
  process, is the parameter \<open>digest\<close>. A probe is its key: one made of a string has the key's digest and
  matches the same values.
\<close>

section \<open>Keys\<close>

datatype temporal_kind = KindDate | KindLocalTime | KindTime | KindLocalDateTime | KindDateTime

text \<open>A binary key is its bytes: equality, order and hash of \<open>LoraBinary\<close> read nothing else.\<close>

datatype property_index_key =
    IkNull
  | IkBool bool
  | IkInt i64
  | IkFloat u64
  | IkString string
  | IkBinary "u8 list"
  | IkList "property_index_key list"
  | IkMap "(string \<times> property_index_key) list"
  | IkTemporal temporal_kind int i32 "string option"

definition sortable_f64_bits :: "f64 \<Rightarrow> u64" where
  "sortable_f64_bits v = (let bits = (if f64_eq v 0 then 0 else v) in
     if bits AND push_bit 63 1 = 0 then bits OR push_bit 63 1 else NOT bits)"

definition float_from_sortable_bits :: "u64 \<Rightarrow> f64" where
  "float_from_sortable_bits bits = (if bits AND push_bit 63 1 \<noteq> 0 then bits AND NOT (push_bit 63 1) else NOT bits)"

definition day_seconds :: "u32 \<Rightarrow> u32 \<Rightarrow> u32 \<Rightarrow> int" where
  "day_seconds h m s = uint h * 3600 + uint m * 60 + uint s"

definition date_order_nanos :: "lora_date \<Rightarrow> int" where
  "date_order_nanos d = days_from_civil (sint (date_year d)) (uint (date_month d)) (uint (date_day d)) * 86400 * 1000000000"

definition time_order_nanos :: "lora_time \<Rightarrow> int" where
  "time_order_nanos t = (day_seconds (time_hour t) (time_minute t) (time_second t) - sint (time_offset_seconds t)) * 1000000000
     + uint (time_nanosecond t)"

definition local_time_order_nanos :: "lora_local_time \<Rightarrow> int" where
  "local_time_order_nanos t = day_seconds (lt_hour t) (lt_minute t) (lt_second t) * 1000000000 + uint (lt_nanosecond t)"

definition date_time_order_nanos :: "lora_date_time \<Rightarrow> int" where
  "date_time_order_nanos d = (days_from_civil (sint (dt_year d)) (uint (dt_month d)) (uint (dt_day d)) * 86400
     + day_seconds (dt_hour d) (dt_minute d) (dt_second d) - sint (dt_offset_seconds d)) * 1000000000 + uint (dt_nanosecond d)"

definition local_date_time_order_nanos :: "lora_local_date_time \<Rightarrow> int" where
  "local_date_time_order_nanos d = (days_from_civil (sint (ldt_year d)) (uint (ldt_month d)) (uint (ldt_day d)) * 86400
     + day_seconds (ldt_hour d) (ldt_minute d) (ldt_second d)) * 1000000000 + uint (ldt_nanosecond d)"

fun key_from_value :: "property_value \<Rightarrow> property_index_key option" where
  "key_from_value PvNull = Some IkNull"
| "key_from_value (PvBool v) = Some (IkBool v)"
| "key_from_value (PvInt v) = Some (IkInt v)"
| "key_from_value (PvFloat v) = (if f64_nan v then None else Some (IkFloat (sortable_f64_bits v)))"
| "key_from_value (PvString v) = Some (IkString v)"
| "key_from_value (PvBinary v) = Some (IkBinary (concat (bin_segments v)))"
| "key_from_value (PvList values) = map_option IkList (those (map key_from_value values))"
| "key_from_value (PvMap values) =
     map_option IkMap (those (map (\<lambda>(k, v). map_option (Pair k) (key_from_value v)) values))"
| "key_from_value (PvDate v) = Some (IkTemporal KindDate (date_order_nanos v) 0 None)"
| "key_from_value (PvLocalTime v) = Some (IkTemporal KindLocalTime (local_time_order_nanos v) 0 None)"
| "key_from_value (PvTime v) = Some (IkTemporal KindTime (time_order_nanos v) (time_offset_seconds v) None)"
| "key_from_value (PvLocalDateTime v) = Some (IkTemporal KindLocalDateTime (local_date_time_order_nanos v) 0 None)"
| "key_from_value (PvDateTime v) = Some (IkTemporal KindDateTime (date_time_order_nanos v) (dt_offset_seconds v) (dt_zone v))"
| "key_from_value (PvDuration _) = None"
| "key_from_value (PvPoint _) = None"
| "key_from_value (PvVector _) = None"

fun has_heap_image :: "property_index_key \<Rightarrow> bool" where
  "has_heap_image (IkString _) \<longleftrightarrow> True"
| "has_heap_image (IkBinary _) \<longleftrightarrow> True"
| "has_heap_image (IkList _) \<longleftrightarrow> True"
| "has_heap_image (IkMap _) \<longleftrightarrow> True"
| "has_heap_image _ \<longleftrightarrow> False"

type_synonym key_digest = "property_index_key \<Rightarrow> u64"

definition probe_digest :: "key_digest \<Rightarrow> property_index_key \<Rightarrow> u64 option" where
  "probe_digest digest key = (if has_heap_image key then Some (digest key) else None)"

text \<open>Whether a stored value, of an entity that may have none, is the probe's.\<close>

definition probe_matches :: "property_index_key \<Rightarrow> property_value option \<Rightarrow> bool" where
  "probe_matches key stored \<longleftrightarrow> (case stored of None \<Rightarrow> False | Some v \<Rightarrow> key_from_value v = Some key)"

section \<open>The buckets of a property\<close>

record value_buckets =
  vb_exact :: "(property_index_key \<times> id_set) list"
  vb_single :: "(u64 \<times> u64) list"

definition no_buckets :: value_buckets where
  "no_buckets = \<lparr>vb_exact = [], vb_single = []\<rparr>"

definition buckets_empty :: "value_buckets \<Rightarrow> bool" where
  "buckets_empty b \<longleftrightarrow> vb_exact b = [] \<and> vb_single b = []"

datatype hits = HitSet id_set | HitOne u64

fun hits_vec :: "hits \<Rightarrow> u64 list" where
  "hits_vec (HitSet ids) = id_set_vec ids"
| "hits_vec (HitOne i) = [i]"

definition put_exact :: "property_index_key \<Rightarrow> id_set \<Rightarrow> value_buckets \<Rightarrow> value_buckets" where
  "put_exact key ids b = b\<lparr>vb_exact := AList.update key ids (vb_exact b)\<rparr>"

definition drop_exact :: "property_index_key \<Rightarrow> value_buckets \<Rightarrow> value_buckets" where
  "drop_exact key b = b\<lparr>vb_exact := AList.delete key (vb_exact b)\<rparr>"

definition put_single :: "u64 \<Rightarrow> u64 \<Rightarrow> value_buckets \<Rightarrow> value_buckets" where
  "put_single d i b = b\<lparr>vb_single := AList.update d i (vb_single b)\<rparr>"

definition drop_single :: "u64 \<Rightarrow> value_buckets \<Rightarrow> value_buckets" where
  "drop_single d b = b\<lparr>vb_single := AList.delete d (vb_single b)\<rparr>"

text \<open>\<open>holds\<close>: whether another entity, which has the digest, has the value.\<close>

definition buckets_insert :: "key_digest \<Rightarrow> u64 \<Rightarrow> property_index_key \<Rightarrow> (u64 \<Rightarrow> bool) \<Rightarrow> value_buckets \<Rightarrow> value_buckets" where
  "buckets_insert digest i key holds b =
     (case probe_digest digest key of
        None \<Rightarrow> put_exact key (case map_of (vb_exact b) key of
            None \<Rightarrow> id_set_new i | Some ids \<Rightarrow> snd (id_set_insert i ids)) b
      | Some d \<Rightarrow>
     (case map_of (vb_exact b) key of
        Some ids \<Rightarrow> put_exact key (snd (id_set_insert i ids)) b
      | None \<Rightarrow>
     (case map_of (vb_single b) d of
        None \<Rightarrow> put_single d i b
      | Some other \<Rightarrow>
          if other = i then b
          else if holds other then put_exact key (snd (id_set_insert other (id_set_new i))) (drop_single d b)
          else put_exact key (id_set_new i) b)))"

definition buckets_remove :: "key_digest \<Rightarrow> u64 \<Rightarrow> property_index_key \<Rightarrow> value_buckets \<Rightarrow> value_buckets" where
  "buckets_remove digest i key b =
     (let b = (case map_of (vb_exact b) key of
          None \<Rightarrow> b
        | Some ids \<Rightarrow> (case id_set_remove i ids of (emptied, ids) \<Rightarrow>
            if emptied then drop_exact key b
            else let b = put_exact key ids b in
              (case probe_digest digest key of
                 Some d \<Rightarrow> if id_set_len ids = 1 \<and> map_of (vb_single b) d = None
                   then put_single d (hd (id_set_vec ids)) (drop_exact key b) else b
               | None \<Rightarrow> b)))
      in (case probe_digest digest key of
            Some d \<Rightarrow> if map_of (vb_single b) d = Some i then drop_single d b else b
          | None \<Rightarrow> b))"

definition buckets_list :: "key_digest \<Rightarrow> u64 \<Rightarrow> property_index_key \<Rightarrow> value_buckets \<Rightarrow> bool" where
  "buckets_list digest i key b \<longleftrightarrow> map_of (vb_exact b) key \<noteq> None \<or>
     (case probe_digest digest key of Some d \<Rightarrow> map_of (vb_single b) d = Some i | None \<Rightarrow> False)"

definition buckets_get :: "key_digest \<Rightarrow> property_index_key \<Rightarrow> (u64 \<Rightarrow> bool) \<Rightarrow> value_buckets \<Rightarrow> hits option" where
  "buckets_get digest key holds b =
     (case map_of (vb_exact b) key of
        Some ids \<Rightarrow> Some (HitSet ids)
      | None \<Rightarrow> (case probe_digest digest key of
          None \<Rightarrow> None
        | Some d \<Rightarrow> (case map_of (vb_single b) d of
            None \<Rightarrow> None
          | Some i \<Rightarrow> if holds i then Some (HitOne i) else None)))"

definition buckets_entries :: "value_buckets \<Rightarrow> (property_index_key option \<times> u64) list" where
  "buckets_entries b = concat (map (\<lambda>(key, ids). map (Pair (Some key)) (id_set_vec ids)) (vb_exact b))
     @ map (\<lambda>(_, i). (None, i)) (vb_single b)"

section \<open>The scopes\<close>

text \<open>An entity's value of a property, read from its record.\<close>

type_synonym entity_values = "u64 \<Rightarrow> string \<Rightarrow> property_value option"
type_synonym property_index = "(string \<times> value_buckets) list"

record property_index_state =
  pi_active :: "string list"
  pi_scoped :: "(string \<times> property_index) list"
  pi_any_scope_keys :: "string list"
  pi_any_scope :: property_index

definition no_indexes :: property_index_state where
  "no_indexes = \<lparr>pi_active = [], pi_scoped = [], pi_any_scope_keys = [], pi_any_scope = []\<rparr>"

definition UNLABELLED :: string where "UNLABELLED = []"

definition or_unlabelled :: "string list \<Rightarrow> string list" where
  "or_unlabelled scopes = (if scopes = [] then [UNLABELLED] else scopes)"

definition index_activate :: "string \<Rightarrow> property_index_state \<Rightarrow> property_index_state" where
  "index_activate key st = (if key \<in> set (pi_active st) then st else st\<lparr>pi_active := insort key (pi_active st)\<rparr>)"

definition index_insert_value :: "key_digest \<Rightarrow> entity_values \<Rightarrow> u64 \<Rightarrow> string \<Rightarrow> property_index_key \<Rightarrow> property_index \<Rightarrow> property_index" where
  "index_insert_value digest records i key probe values =
     AList.update key (buckets_insert digest i probe (\<lambda>other. probe_matches probe (records other key))
       (case map_of values key of Some b \<Rightarrow> b | None \<Rightarrow> no_buckets)) values"

definition index_remove_value :: "key_digest \<Rightarrow> u64 \<Rightarrow> string \<Rightarrow> property_index_key \<Rightarrow> property_index \<Rightarrow> property_index" where
  "index_remove_value digest i key probe values =
     (case map_of values key of
        None \<Rightarrow> values
      | Some b \<Rightarrow> (let b = buckets_remove digest i probe b in
          if buckets_empty b then AList.delete key values else AList.update key b values))"

definition scope_values :: "property_index_state \<Rightarrow> string \<Rightarrow> property_index" where
  "scope_values st scope = (case map_of (pi_scoped st) scope of Some values \<Rightarrow> values | None \<Rightarrow> [])"

definition insert_in_scope :: "key_digest \<Rightarrow> entity_values \<Rightarrow> u64 \<Rightarrow> string \<Rightarrow> property_index_key \<Rightarrow> string \<Rightarrow>
    property_index_state \<Rightarrow> property_index_state" where
  "insert_in_scope digest records i key probe scope st = st\<lparr>pi_scoped :=
     AList.update scope (index_insert_value digest records i key probe (scope_values st scope)) (pi_scoped st)\<rparr>"

definition index_insert_scoped :: "key_digest \<Rightarrow> entity_values \<Rightarrow> u64 \<Rightarrow> string \<Rightarrow> string \<Rightarrow> property_value \<Rightarrow>
    property_index_state \<Rightarrow> property_index_state" where
  "index_insert_scoped digest records i scope key value st =
     (case key_from_value value of None \<Rightarrow> st | Some probe \<Rightarrow> insert_in_scope digest records i key probe scope st)"

definition insert_probe_with_scopes :: "key_digest \<Rightarrow> entity_values \<Rightarrow> u64 \<Rightarrow> string list \<Rightarrow> string \<Rightarrow> property_index_key \<Rightarrow>
    property_index_state \<Rightarrow> property_index_state" where
  "insert_probe_with_scopes digest records i scopes key probe st =
     (let st = (if key \<in> set (pi_any_scope_keys st)
        then st\<lparr>pi_any_scope := index_insert_value digest records i key probe (pi_any_scope st)\<rparr> else st)
      in fold (insert_in_scope digest records i key probe) (or_unlabelled scopes) st)"

definition index_insert_with_scopes :: "key_digest \<Rightarrow> entity_values \<Rightarrow> u64 \<Rightarrow> string list \<Rightarrow> string \<Rightarrow> property_value \<Rightarrow>
    property_index_state \<Rightarrow> property_index_state" where
  "index_insert_with_scopes digest records i scopes key value st =
     (case key_from_value value of None \<Rightarrow> st | Some probe \<Rightarrow> insert_probe_with_scopes digest records i scopes key probe st)"

text \<open>The shaping of the tables before the insertions changes their capacity only.\<close>

definition index_insert_bulk :: "key_digest \<Rightarrow> entity_values \<Rightarrow> string \<Rightarrow> (u64 \<times> string list \<times> property_value) list \<Rightarrow>
    property_index_state \<Rightarrow> property_index_state" where
  "index_insert_bulk digest records key items = fold (\<lambda>(i, scopes, value).
     index_insert_with_scopes digest records i scopes key value) items"

definition values_list :: "key_digest \<Rightarrow> u64 \<Rightarrow> string \<Rightarrow> property_index_key \<Rightarrow> property_index \<Rightarrow> bool" where
  "values_list digest i key probe values \<longleftrightarrow>
     (case map_of values key of None \<Rightarrow> False | Some b \<Rightarrow> buckets_list digest i probe b)"

definition remove_from_scope :: "key_digest \<Rightarrow> u64 \<Rightarrow> string \<Rightarrow> property_index_key \<Rightarrow> string \<Rightarrow>
    property_index_state \<Rightarrow> property_index_state" where
  "remove_from_scope digest i key probe scope st =
     (if \<not> values_list digest i key probe (scope_values st scope) then st
      else let values = index_remove_value digest i key probe (scope_values st scope) in
        st\<lparr>pi_scoped := (if values = [] then AList.delete scope (pi_scoped st) else AList.update scope values (pi_scoped st))\<rparr>)"

definition index_remove_scoped :: "key_digest \<Rightarrow> u64 \<Rightarrow> string \<Rightarrow> string \<Rightarrow> property_value \<Rightarrow>
    property_index_state \<Rightarrow> property_index_state" where
  "index_remove_scoped digest i scope key value st =
     (case key_from_value value of None \<Rightarrow> st | Some probe \<Rightarrow> remove_from_scope digest i key probe scope st)"

definition index_remove_with_scopes :: "key_digest \<Rightarrow> u64 \<Rightarrow> string list \<Rightarrow> string \<Rightarrow> property_value \<Rightarrow>
    property_index_state \<Rightarrow> property_index_state" where
  "index_remove_with_scopes digest i scopes key value st =
     (case key_from_value value of
        None \<Rightarrow> st
      | Some probe \<Rightarrow>
          let st = (if values_list digest i key probe (pi_any_scope st)
            then st\<lparr>pi_any_scope := index_remove_value digest i key probe (pi_any_scope st)\<rparr> else st)
          in fold (remove_from_scope digest i key probe) (or_unlabelled scopes) st)"

definition index_ids_for :: "key_digest \<Rightarrow> entity_values \<Rightarrow> string \<Rightarrow> property_value \<Rightarrow> property_index_state \<Rightarrow> hits option" where
  "index_ids_for digest records key value st =
     (case key_from_value value of
        None \<Rightarrow> None
      | Some probe \<Rightarrow> (case map_of (pi_any_scope st) key of
          None \<Rightarrow> None
        | Some b \<Rightarrow> buckets_get digest probe (\<lambda>i. probe_matches probe (records i key)) b))"

definition index_scoped_ids_for :: "key_digest \<Rightarrow> entity_values \<Rightarrow> string \<Rightarrow> string \<Rightarrow> property_value \<Rightarrow>
    property_index_state \<Rightarrow> hits option" where
  "index_scoped_ids_for digest records scope key value st =
     (if scope = UNLABELLED then None
      else (case key_from_value value of
        None \<Rightarrow> None
      | Some probe \<Rightarrow> (case map_of (scope_values st scope) key of
          None \<Rightarrow> None
        | Some b \<Rightarrow> buckets_get digest probe (\<lambda>i. probe_matches probe (records i key)) b)))"

section \<open>Deactivation, and the map across the scopes\<close>

definition without_key :: "string \<Rightarrow> (string \<times> property_index) list \<Rightarrow> (string \<times> property_index) list" where
  "without_key key tables = concat (map (\<lambda>(scope, values).
     if map_of values key = None then [(scope, values)]
     else let values = AList.delete key values in if values = [] then [] else [(scope, values)]) tables)"

definition index_deactivate :: "string \<Rightarrow> property_index_state \<Rightarrow> property_index_state" where
  "index_deactivate key st =
     (if key \<notin> set (pi_active st) then st
      else let st = st\<lparr>pi_active := filter (\<lambda>k. k \<noteq> key) (pi_active st)\<rparr>;
          st = (if key \<in> set (pi_any_scope_keys st) then st\<lparr>pi_any_scope_keys := filter (\<lambda>k. k \<noteq> key) (pi_any_scope_keys st),
            pi_any_scope := AList.delete key (pi_any_scope st)\<rparr> else st)
        in st\<lparr>pi_scoped := without_key key (pi_scoped st)\<rparr>)"

definition index_activate_any_scope :: "key_digest \<Rightarrow> entity_values \<Rightarrow> string \<Rightarrow> property_index_state \<Rightarrow> property_index_state" where
  "index_activate_any_scope digest records key st =
     (if key \<in> set (pi_any_scope_keys st) then st
      else let items = concat (map (\<lambda>(scope, values). case map_of values key of
              None \<Rightarrow> [] | Some b \<Rightarrow> buckets_entries b) (pi_scoped st));
          merged = fold (\<lambda>(value, i) b.
            (case (case value of Some v \<Rightarrow> Some v | None \<Rightarrow> Option.bind (records i key) key_from_value) of
               None \<Rightarrow> b
             | Some v \<Rightarrow> buckets_insert digest i v (\<lambda>other. probe_matches v (records other key)) b)) items no_buckets
        in st\<lparr>pi_any_scope := (if buckets_empty merged then pi_any_scope st else AList.update key merged (pi_any_scope st)),
              pi_any_scope_keys := insort key (pi_any_scope_keys st)\<rparr>)"

end
