(* ===== verification/Id_Set_Laws.thy ===== *)
theory Id_Set_Laws
  imports Id_Set
begin

text \<open>
  The forms of an id set refine one abstraction, the strictly increasing list of its ids: insertion and
  removal, the cursor walks and both ends of the iterator.
\<close>

section \<open>Searching\<close>

abbreviation increasing :: "'a :: linorder list \<Rightarrow> bool" where
  "increasing \<equiv> sorted_wrt (<)"

lemma partition_point_split:
  fixes x :: "'a :: linorder"
  assumes "increasing xs"
  shows "\<forall>y \<in> set (take (partition_point (\<lambda>y. y < x) xs) xs). y < x"
    and "\<forall>y \<in> set (drop (partition_point (\<lambda>y. y < x) xs) xs). x \<le> y"
proof -
  show "\<forall>y \<in> set (take (partition_point (\<lambda>y. y < x) xs) xs). y < x"
    by (auto simp: partition_point_def takeWhile_eq_take [symmetric] dest: set_takeWhileD)
  have "x \<le> y" if "y \<in> set (dropWhile (\<lambda>y. y < x) xs)" for y
  proof -
    let ?ys = "dropWhile (\<lambda>y. y < x) xs"
    have ne: "?ys \<noteq> []" using that by (metis list.set(1) empty_iff)
    then have "x \<le> hd ?ys" using hd_dropWhile [of "\<lambda>y. y < x" xs] by (meson not_less)
    moreover have "increasing ?ys"
      using assms by (metis dropWhile_eq_drop sorted_wrt_drop)
    then have "hd ?ys \<le> y" using that ne by (cases ?ys) auto
    ultimately show ?thesis by simp
  qed
  then show "\<forall>y \<in> set (drop (partition_point (\<lambda>y. y < x) xs) xs). x \<le> y"
    by (simp add: partition_point_def dropWhile_eq_drop)
qed

lemma binary_search_Found:
  assumes "increasing xs" and "binary_search xs x = Found pos"
  shows "xs = take pos xs @ x # drop (Suc pos) xs"
proof -
  have "pos < length xs" "xs ! pos = x" using assms(2) by (auto simp: binary_search_def Let_def split: if_splits)
  then show ?thesis using id_take_nth_drop [of pos xs] by simp
qed

lemma binary_search_Missing:
  assumes "increasing xs" and "binary_search xs x = Missing pos"
  shows "\<forall>y \<in> set (take pos xs). y < x" and "\<forall>y \<in> set (drop pos xs). x < y" and "x \<notin> set xs"
proof -
  have pos: "pos = partition_point (\<lambda>y. y < x) xs" and no: "pos < length xs \<Longrightarrow> xs ! pos \<noteq> x"
    using assms(2) by (auto simp: binary_search_def Let_def split: if_splits)
  show before: "\<forall>y \<in> set (take pos xs). y < x" unfolding pos by (rule partition_point_split [OF assms(1)])
  have from_pos: "\<forall>y \<in> set (drop pos xs). x \<le> y" unfolding pos by (rule partition_point_split [OF assms(1)])
  have inc: "increasing (drop pos xs)" using assms(1) by (rule sorted_wrt_drop)
  show after: "\<forall>y \<in> set (drop pos xs). x < y"
  proof
    fix y assume y: "y \<in> set (drop pos xs)"
    then have lt: "pos < length xs" by (cases "pos < length xs") auto
    then have "drop pos xs = xs ! pos # drop (Suc pos) xs" by (rule Cons_nth_drop_Suc [symmetric])
    then show "x < y" using y inc from_pos no [OF lt] by fastforce
  qed
  show "x \<notin> set xs"
  proof
    assume "x \<in> set xs"
    then have "x \<in> set (take pos xs) \<or> x \<in> set (drop pos xs)" by (metis Un_iff append_take_drop_id set_append)
    then show False using before after by auto
  qed
qed

lemma vec_insert_increasing:
  assumes "increasing xs" and "\<forall>y \<in> set (take pos xs). y < x" and "\<forall>y \<in> set (drop pos xs). x < y"
  shows "increasing (vec_insert pos x xs)" and "set (vec_insert pos x xs) = insert x (set xs)"
    and "length (vec_insert pos x xs) = Suc (length xs)"
proof -
  have xs: "set (take pos xs) \<union> set (drop pos xs) = set xs" by (metis append_take_drop_id set_append)
  have "increasing (take pos xs @ drop pos xs)" using assms(1) by simp
  then show "increasing (vec_insert pos x xs)"
    using assms(2,3) unfolding vec_insert_def sorted_wrt_append by fastforce
  show "set (vec_insert pos x xs) = insert x (set xs)" using xs by (auto simp: vec_insert_def)
  show "length (vec_insert pos x xs) = Suc (length xs)" by (simp add: vec_insert_def)
qed

lemma increasing_last: "increasing xs \<Longrightarrow> y \<in> set xs \<Longrightarrow> y \<le> last xs"
  by (induction xs rule: rev_induct) (auto simp: sorted_wrt_append less_imp_le)

text \<open>One level of the table: the entry that holds an id, or would receive it.\<close>

lemma entry_for:
  fixes i :: "'b :: linorder"
  assumes ne: "table \<noteq> []" and content: "\<And>x. x \<in> set table \<Longrightarrow> ids x \<noteq> [] \<and> last (ids x) = final x"
    and inc: "increasing (concat (map ids table))"
    and k: "k = min (partition_point (\<lambda>x. final x < i) table) (length table - 1)"
  obtains A x B where "table = A @ x # B" and "length A = k" and "\<forall>y \<in> set (concat (map ids A)). y < i"
    and "\<forall>y \<in> set (concat (map ids B)). i < y"
proof -
  let ?p = "partition_point (\<lambda>x. final x < i) table"
  have final_max: "y \<le> final x" if x: "x \<in> set table" and y: "y \<in> set (ids x)" for x y
  proof -
    obtain A B where "table = A @ x # B" using split_list [OF x] by blast
    then have "increasing (ids x)" using inc by (simp add: sorted_wrt_append)
    then show ?thesis using increasing_last y content [OF x] by metis
  qed
  have k_lt: "k < length table" using ne k by (cases table) auto
  have table: "table = take k table @ table ! k # drop (Suc k) table" by (rule id_take_nth_drop [OF k_lt])
  show thesis
  proof (rule that [OF table])
    show "length (take k table) = k" using k_lt by simp
    have "final x < i" if "x \<in> set (take k table)" for x
    proof -
      have "takeWhile (\<lambda>x. final x < i) table = take ?p table" unfolding partition_point_def by (rule takeWhile_eq_take)
      then have "set (take k table) \<subseteq> set (takeWhile (\<lambda>x. final x < i) table)"
        using k by (simp add: set_take_subset_set_take)
      then show ?thesis using that by (auto dest: set_takeWhileD)
    qed
    then have "y < i" if "x \<in> set (take k table)" "y \<in> set (ids x)" for x y
      using final_max [of x y] that by (auto dest: in_set_takeD intro: le_less_trans)
    then show "\<forall>y \<in> set (concat (map ids (take k table))). y < i" by auto
    show "\<forall>y \<in> set (concat (map ids (drop (Suc k) table))). i < y"
    proof (cases "?p < length table")
      case True
      then have "k = ?p" using k by simp
      then have "\<not> final (table ! k) < i" using True nth_length_takeWhile [of "\<lambda>x. final x < i" table]
        by (simp add: partition_point_def)
      moreover have "final (table ! k) < y" if "y \<in> set (concat (map ids (drop (Suc k) table)))" for y
      proof -
        have "increasing (concat (map ids (take k table)) @ ids (table ! k) @ concat (map ids (drop (Suc k) table)))"
          using inc table by (metis concat.simps(2) concat_append list.simps(9) map_append)
        moreover have "final (table ! k) \<in> set (ids (table ! k))"
          using content [of "table ! k"] k_lt by (metis last_in_set nth_mem)
        ultimately show ?thesis using that by (auto simp: sorted_wrt_append)
      qed
      ultimately show ?thesis by fastforce
    next
      case False
      then have "k = length table - 1" using k by simp
      then show ?thesis by simp
    qed
  qed
qed

section \<open>The chunks of a large set\<close>

definition shape_ok :: "chunk_group list \<Rightarrow> bool" where
  "shape_ok groups \<longleftrightarrow> (\<forall>grp \<in> set groups. grp \<noteq> [] \<and> length grp \<le> GROUP_MAX \<and>
     (\<forall>chunk \<in> set grp. chunk \<noteq> [] \<and> length chunk \<le> CHUNK_MAX))"

fun id_set_ok :: "id_set \<Rightarrow> bool" where
  "id_set_ok (OneId i) \<longleftrightarrow> i \<le> INLINE_MAX"
| "id_set_ok (SmallIds ids) \<longleftrightarrow> ids \<noteq> [] \<and> length ids \<le> SMALL_MAX \<and> increasing ids"
| "id_set_ok (LargeIds groups len) \<longleftrightarrow> groups \<noteq> [] \<and> shape_ok groups \<and> increasing (concat (concat groups)) \<and>
     len = length (concat (concat groups))"

lemma shape_simps [simp]:
  "shape_ok []"
  "shape_ok (grp # groups) \<longleftrightarrow> (grp \<noteq> [] \<and> length grp \<le> GROUP_MAX \<and>
     (\<forall>chunk \<in> set grp. chunk \<noteq> [] \<and> length chunk \<le> CHUNK_MAX)) \<and> shape_ok groups"
  "shape_ok (gs @ hs) \<longleftrightarrow> shape_ok gs \<and> shape_ok hs"
  by (auto simp: shape_ok_def)

lemma last_concat: "xs \<noteq> [] \<Longrightarrow> \<forall>x \<in> set xs. x \<noteq> [] \<Longrightarrow> concat xs \<noteq> [] \<and> last (concat xs) = last (last xs)"
  by (induction xs rule: rev_induct) auto

lemma located:
  assumes ne: "groups \<noteq> []" and shape: "shape_ok groups" and inc: "increasing (concat (concat groups))"
    and at: "locate groups i = (g, c)"
  obtains G C chunk D H where "groups = G @ (C @ chunk # D) # H" and "length G = g" and "length C = c"
    and "\<forall>y \<in> set (concat (concat G) @ concat C). y < i" and "\<forall>y \<in> set (concat D @ concat (concat H)). i < y"
proof -
  have g: "g = min (partition_point (\<lambda>x. last_id x < i) groups) (length groups - 1)" and c: "c = chunk_for (groups ! g) i"
    using at by (auto simp: locate_def Let_def)
  have "concat (concat xss) = concat (map concat xss)" for xss :: "'a list list list"
    by (induction xss) auto
  note flat = this
  have content: "concat x \<noteq> [] \<and> last (concat x) = last_id x" if "x \<in> set groups" for x
    using that shape last_concat [of x] by (auto simp: shape_ok_def last_id_def)
  obtain G grp H where G: "groups = G @ grp # H" "length G = g" "\<forall>y \<in> set (concat (map concat G)). y < i"
    "\<forall>y \<in> set (concat (map concat H)). i < y"
    using entry_for [OF ne content inc [unfolded flat] g] by metis
  have grp: "groups ! g = grp" "grp \<noteq> []" "\<forall>x \<in> set grp. x \<noteq> []" using G(1,2) shape by auto
  have inc_grp: "increasing (concat (map id grp))" using inc G(1) by (simp add: sorted_wrt_append)
  have c': "c = min (partition_point (\<lambda>x. last x < i) grp) (length grp - 1)" using c grp(1) by (simp add: chunk_for_def)
  obtain C chunk D where C: "grp = C @ chunk # D" "length C = c" "\<forall>y \<in> set (concat (map id C)). y < i"
    "\<forall>y \<in> set (concat (map id D)). i < y"
    using entry_for [where ids = id and final = last, OF grp(2) _ inc_grp c'] grp(3) by auto
  show thesis by (rule that [of G C chunk D H]) (use G C in \<open>auto simp: flat\<close>)
qed

lemma split_at_append:
  "length A = k \<Longrightarrow> split_at k (A @ xs # B) = A @ take (length xs div 2) xs # drop (length xs div 2) xs # B"
  by (auto simp: split_at_def Let_def)

lemma update_append: "length A = k \<Longrightarrow> (A @ x # B)[k := y] = A @ y # B"
  by (auto simp: list_update_append)

lemma remove_append: "length A = k \<Longrightarrow> vec_remove k (A @ x # B) = A @ B"
  by (simp add: vec_remove_def)

lemma nth_here: "length A = k \<Longrightarrow> (A @ x # B) ! k = x"
  by auto

text \<open>Merging keeps the entries, makes none empty, and respects the bound.\<close>

lemma merge_small_keeps:
  assumes "i < length table" and "fit \<le> bound" and "\<forall>xs \<in> set table. xs \<noteq> [] \<and> length xs \<le> bound"
  shows "concat (merge_small fit i table) = concat table" and "length (merge_small fit i table) \<le> length table"
    and "merge_small fit i table \<noteq> []" and "\<forall>xs \<in> set (merge_small fit i table). xs \<noteq> [] \<and> length xs \<le> bound"
    and "\<Union> (set ` set (merge_small fit i table)) = \<Union> (set ` set table)"
proof -
  have join: "\<exists>A B x y. table = A @ x # y # B \<and> join_at k table = A @ (x @ y) # B \<and> length A = k" if "Suc k < length table" for k
  proof -
    have "table = take k table @ table ! k # table ! Suc k # drop (Suc (Suc k)) table"
      using that by (simp add: Cons_nth_drop_Suc)
    then show ?thesis using that unfolding join_at_def by (metis Suc_lessD length_take min.absorb4)
  qed
  have small: "merge_small fit i table = table \<or> (\<exists>k. merge_small fit i table = join_at k table \<and> Suc k < length table \<and>
      length (table ! k) + length (table ! Suc k) \<le> fit)"
    using assms(1) by (cases i) (auto simp: merge_small_def Let_def add.commute)
  have "concat (merge_small fit i table) = concat table \<and> length (merge_small fit i table) \<le> length table \<and>
      merge_small fit i table \<noteq> [] \<and> (\<forall>xs \<in> set (merge_small fit i table). xs \<noteq> [] \<and> length xs \<le> bound) \<and>
      \<Union> (set ` set (merge_small fit i table)) = \<Union> (set ` set table)"
    using small
  proof (elim disjE exE conjE)
    fix k assume k: "merge_small fit i table = join_at k table" "Suc k < length table"
      "length (table ! k) + length (table ! Suc k) \<le> fit"
    obtain A B x y where t: "table = A @ x # y # B" "join_at k table = A @ (x @ y) # B" "length A = k" using join [OF k(2)] by blast
    have "length x + length y \<le> bound" using k(3) t assms(2) by (simp add: nth_append)
    then show ?thesis using k(1) t assms(3) by auto
  qed (use assms in auto)
  then show "concat (merge_small fit i table) = concat table" "length (merge_small fit i table) \<le> length table"
    "merge_small fit i table \<noteq> []" "\<forall>xs \<in> set (merge_small fit i table). xs \<noteq> [] \<and> length xs \<le> bound"
    "\<Union> (set ` set (merge_small fit i table)) = \<Union> (set ` set table)" by auto
qed

section \<open>Insertion\<close>

lemma id_set_increasing: "id_set_ok s \<Longrightarrow> increasing (id_set_vec s) \<and> id_set_vec s \<noteq> []"
proof (cases s)
  case (LargeIds groups len)
  assume "id_set_ok s"
  moreover obtain grp gs where "groups = grp # gs" using LargeIds \<open>id_set_ok s\<close> by (cases groups) auto
  moreover from this obtain chunk cs where "grp = chunk # cs" using LargeIds \<open>id_set_ok s\<close> by (cases grp) auto
  ultimately show ?thesis using LargeIds by auto
qed auto

lemma large_append_ok:
  assumes "groups \<noteq> []" and "shape_ok groups"
  shows "concat (concat (large_append groups i)) = concat (concat groups) @ [i]" and "shape_ok (large_append groups i)"
    and "large_append groups i \<noteq> []"
proof -
  obtain G grp where G: "groups = G @ [grp]" using assms(1) by (meson rev_exhaust)
  then have "grp \<noteq> []" using assms(2) by simp
  then obtain C tail where "grp = C @ [tail]" by (meson rev_exhaust)
  then show "concat (concat (large_append groups i)) = concat (concat groups) @ [i]" "shape_ok (large_append groups i)"
    "large_append groups i \<noteq> []"
    using G assms(2) by (auto simp: large_append_def Let_def CHUNK_MAX_def GROUP_MAX_def CHUNK_def GROUP_def)
qed

lemma large_insert_at_ok:
  assumes groups: "groups = G @ (C @ chunk # D) # H" "length G = g" "length C = c" and "shape_ok groups"
  shows "concat (concat (large_insert_at groups g c pos i)) =
      concat (concat G) @ concat C @ vec_insert pos i chunk @ concat D @ concat (concat H)"
    and "shape_ok (large_insert_at groups g c pos i)" and "large_insert_at groups g c pos i \<noteq> []"
proof -
  let ?chunk = "vec_insert pos i chunk"
  have len: "length ?chunk \<le> Suc CHUNK_MAX" "length (C @ chunk # D) \<le> GROUP_MAX" "?chunk \<noteq> []"
    using assms(4) groups(1) by (auto simp: vec_insert_def)
  define S where "S = C @ take (length ?chunk div 2) ?chunk # drop (length ?chunk div 2) ?chunk # D"
  have at: "large_insert_at groups g c pos i =
      (if length ?chunk > CHUNK_MAX then
         (if length S > GROUP_MAX then G @ take (length S div 2) S # drop (length S div 2) S # H else G @ S # H)
       else G @ (C @ ?chunk # D) # H)"
    unfolding large_insert_at_def Let_def groups(1) nth_here [OF groups(2)] nth_here [OF groups(3)]
      update_append [OF groups(3)] split_at_append [OF groups(3)] update_append [OF groups(2)] split_at_append [OF groups(2)]
      S_def by (rule refl)
  have halves: "take n xs \<noteq> [] \<and> drop n xs \<noteq> []" if "0 < n" "n < length xs" for n and xs :: "'a list" using that by auto
  have S: "concat S = concat C @ ?chunk @ concat D" "length S = Suc (length (C @ chunk # D))" by (simp_all add: S_def)
  have chunks: "\<forall>x \<in> set S. x \<noteq> [] \<and> length x \<le> CHUNK_MAX" if "length ?chunk > CHUNK_MAX"
    using len(1,3) that halves [of "length ?chunk div 2" ?chunk] assms(4) groups(1)
    by (auto simp: S_def CHUNK_MAX_def CHUNK_def)
  have rest: "shape_ok G" "shape_ok H" using assms(4) groups(1) by simp_all
  have group_ok: "shape_ok [S]" if "length ?chunk > CHUNK_MAX" "\<not> length S > GROUP_MAX"
    using chunks [OF that(1)] that(2) S(2) by auto
  have groups_ok: "shape_ok [take (length S div 2) S, drop (length S div 2) S]"
    if "length ?chunk > CHUNK_MAX" "length S > GROUP_MAX"
    using chunks [OF that(1)] that(2) S(2) len(2) halves [of "length S div 2" S]
    by (auto simp: GROUP_MAX_def GROUP_def dest: in_set_takeD in_set_dropD)
  have "concat (take n xs) @ concat (drop n xs) = concat xs" for n and xs :: "chunk list"
    by (metis append_take_drop_id concat_append)
  then have parts: "concat (take n xs) @ concat (drop n xs) @ r = concat xs @ r" for n r and xs :: "chunk list"
    by (metis append.assoc)
  show "concat (concat (large_insert_at groups g c pos i)) =
      concat (concat G) @ concat C @ ?chunk @ concat D @ concat (concat H)"
    unfolding at by (simp add: parts S(1))
  show "shape_ok (large_insert_at groups g c pos i)"
    unfolding at using group_ok groups_ok rest len assms(4) groups(1) by auto
  show "large_insert_at groups g c pos i \<noteq> []" unfolding at by simp
qed

lemma located_increasing:
  assumes "increasing (A @ B @ D)" and "\<forall>y \<in> set A. y < i" and "\<forall>y \<in> set D. i < y" and "increasing B'" and "set B' \<subseteq> insert i (set B)"
  shows "increasing (A @ B' @ D)"
  using assms unfolding sorted_wrt_append by (auto simp: subset_iff)

lemma shape_last:
  assumes "groups \<noteq> []" and "shape_ok groups"
  shows "last (concat (concat groups)) = last_id (last groups)"
proof -
  have "concat groups \<noteq> []" "last (concat groups) = last (last groups)"
    using last_concat [of groups] assms by (auto simp: shape_ok_def)
  then show ?thesis using last_concat [of "concat groups"] assms(2) by (auto simp: shape_ok_def last_id_def)
qed

lemma large_insert_ok:
  assumes ok: "id_set_ok (LargeIds groups len)"
  shows "id_set_ok (snd (unpacked_insert i (LargeIds groups len))) \<and>
    set (id_set_vec (snd (unpacked_insert i (LargeIds groups len)))) = insert i (set (concat (concat groups))) \<and>
    fst (unpacked_insert i (LargeIds groups len)) = (i \<notin> set (concat (concat groups)))"
proof -
  let ?all = "concat (concat groups)"
  have g: "groups \<noteq> []" "shape_ok groups" "increasing ?all" "len = length ?all" using ok by auto
  show ?thesis
  proof (cases "last_id (last groups) < i")
    case True
    have "y < i" if "y \<in> set ?all" for y
      using increasing_last [OF g(3) that] True shape_last [OF g(1,2)] by simp
    then show ?thesis using True g large_append_ok [OF g(1,2), of i]
      by (auto simp: sorted_wrt_append)
  next
    case False
    obtain h c where at: "locate groups i = (h, c)" by fastforce
    obtain G C chunk D H where split: "groups = G @ (C @ chunk # D) # H" "length G = h" "length C = c"
      and before: "\<forall>y \<in> set (concat (concat G) @ concat C). y < i"
      and after: "\<forall>y \<in> set (concat D @ concat (concat H)). i < y"
      by (rule located [OF g(1-3) at])
    let ?A = "concat (concat G) @ concat C" and ?D = "concat D @ concat (concat H)"
    have all: "?all = ?A @ chunk @ ?D" using split(1) by simp
    have inc: "increasing (?A @ chunk @ ?D)" using g(3) by (simp only: all)
    then have chunk_inc: "increasing chunk" by (simp add: sorted_wrt_append)
    have chunk: "groups ! h ! c = chunk" unfolding split(1) nth_here [OF split(2)] by (rule nth_here [OF split(3)])
    have out: "i \<notin> set ?A" "i \<notin> set ?D" using before after by auto
    show ?thesis
    proof (cases "binary_search chunk i")
      case (Found pos)
      have "i \<in> set chunk" using binary_search_Found [OF chunk_inc Found] by (metis in_set_conv_decomp)
      then have "i \<in> set ?all" unfolding all by simp
      then show ?thesis using False at chunk Found ok by (simp add: insert_absorb del: set_concat)
    next
      case (Missing pos)
      note m = binary_search_Missing [OF chunk_inc Missing]
      note new = vec_insert_increasing [OF chunk_inc m(1,2)] and shape = large_insert_at_ok [OF split g(2), of pos i]
      have "increasing (?A @ vec_insert pos i chunk @ ?D)"
        by (rule located_increasing [OF inc before after new(1)]) (simp add: new(2))
      then show ?thesis using False at chunk Missing shape new g(4) m(3) out unfolding all by auto
    qed
  qed
qed

lemma id_set_insert_ok:
  assumes ok: "id_set_ok s"
  shows "id_set_ok (snd (id_set_insert i s))"
    and "set (id_set_vec (snd (id_set_insert i s))) = insert i (set (id_set_vec s))"
    and "fst (id_set_insert i s) \<longleftrightarrow> i \<notin> set (id_set_vec s)"
proof -
  have pack: "id_set_pack t = t" if "id_set_ok t" for t using that by (cases t) auto
  have "id_set_ok (snd (unpacked_insert i s)) \<and> set (id_set_vec (snd (unpacked_insert i s))) = insert i (set (id_set_vec s)) \<and>
      fst (unpacked_insert i s) = (i \<notin> set (id_set_vec s))"
  proof (cases s)
    case (OneId j)
    then show ?thesis using ok by (auto simp: SMALL_MAX_def)
  next
    case (SmallIds ids)
    have ids: "ids \<noteq> []" "length ids \<le> SMALL_MAX" "increasing ids" using ok SmallIds by auto
    have grow: ?thesis if "unpacked_insert i s = (True, if length new > SMALL_MAX then LargeIds [[new]] (length new) else SmallIds new)"
      "increasing new" "set new = insert i (set ids)" "length new = Suc (length ids)" "i \<notin> set ids" for new
      using that ids SmallIds by (auto simp: SMALL_MAX_def CHUNK_MAX_def CHUNK_def GROUP_MAX_def GROUP_def)
    show ?thesis
    proof (cases "last ids < i")
      case True
      then have "\<forall>y \<in> set ids. y < i" using increasing_last [OF ids(3)] by (metis le_less_trans)
      then show ?thesis using True ids SmallIds by (intro grow [of "ids @ [i]"]) (auto simp: sorted_wrt_append)
    next
      case False
      show ?thesis
      proof (cases "binary_search ids i")
        case (Found pos)
        have "i \<in> set ids" using binary_search_Found [OF ids(3) Found] by (metis in_set_conv_decomp)
        then show ?thesis using False Found SmallIds ok by auto
      next
        case (Missing pos)
        note m = binary_search_Missing [OF ids(3) Missing]
        show ?thesis using False Missing SmallIds
          by (intro grow [OF _ vec_insert_increasing [OF ids(3) m(1,2)] m(3)]) simp
      qed
    qed
  next
    case (LargeIds groups len)
    then show ?thesis using large_insert_ok [of groups len i] ok by simp
  qed
  then show "id_set_ok (snd (id_set_insert i s))" "set (id_set_vec (snd (id_set_insert i s))) = insert i (set (id_set_vec s))"
    "fst (id_set_insert i s) \<longleftrightarrow> i \<notin> set (id_set_vec s)"
    by (auto simp: id_set_insert_def map_prod_def split_beta pack)
qed

lemma id_set_new_ok: "id_set_ok (id_set_new i)" "id_set_vec (id_set_new i) = [i]"
  by (simp_all add: id_set_new_def SMALL_MAX_def)

lemma id_set_len: "id_set_ok s \<Longrightarrow> id_set_len s = length (id_set_vec s)"
  by (cases s) auto

section \<open>Removal\<close>

lemma large_remove_at_ok:
  assumes groups: "groups = G @ (C @ chunk # D) # H" "length G = g" "length C = c" and shape: "shape_ok groups"
  shows "concat (concat (large_remove_at groups g c pos)) =
      concat (concat G) @ concat C @ vec_remove pos chunk @ concat D @ concat (concat H)"
    and "shape_ok (large_remove_at groups g c pos)"
proof -
  let ?chunk = "vec_remove pos chunk"
  define R where "R = C @ ?chunk # D"
  define grp where "grp = (if ?chunk = [] then C @ D else if length ?chunk < CHUNK_MIN then merge_small CHUNK c R else R)"
  define root where "root = G @ grp # H"
  have at: "large_remove_at groups g c pos =
      (if grp = [] then G @ H else if length grp < GROUP_MIN then merge_small GROUP g root else root)"
    unfolding large_remove_at_def Let_def groups(1) nth_here [OF groups(2)] nth_here [OF groups(3)]
      update_append [OF groups(3)] remove_append [OF groups(3)] update_append [OF groups(2)] remove_append [OF groups(2)]
      R_def [symmetric] grp_def [symmetric] root_def [symmetric] by (rule refl)
  have old: "length (C @ chunk # D) \<le> GROUP_MAX" "\<forall>x \<in> set (C @ chunk # D). x \<noteq> [] \<and> length x \<le> CHUNK_MAX"
    "shape_ok G" "shape_ok H" using shape groups(1) by auto
  have "length ?chunk \<le> length chunk" by (simp add: vec_remove_def)
  then have R: "?chunk \<noteq> [] \<Longrightarrow> \<forall>x \<in> set R. x \<noteq> [] \<and> length x \<le> CHUNK_MAX" "c < length R" "length R = length (C @ chunk # D)"
    using old(2) groups(3) by (auto simp: R_def)
  have grp: "concat grp = concat C @ ?chunk @ concat D" "length grp \<le> GROUP_MAX" "\<forall>x \<in> set grp. x \<noteq> [] \<and> length x \<le> CHUNK_MAX"
  proof -
    have bound: "CHUNK \<le> CHUNK_MAX" by (simp add: CHUNK_MAX_def)
    have "concat grp = concat C @ ?chunk @ concat D \<and> length grp \<le> GROUP_MAX \<and> (\<forall>x \<in> set grp. x \<noteq> [] \<and> length x \<le> CHUNK_MAX)"
    proof (cases "?chunk = []")
      case True
      then have "grp = C @ D" by (simp add: grp_def)
      then show ?thesis using True old(1,2) by auto
    next
      case False
      note m = merge_small_keeps [OF R(2) bound R(1) [OF False]]
      have "concat R = concat C @ ?chunk @ concat D" by (simp add: R_def)
      then show ?thesis using False m(1,2,4) R(1) [OF False] R(3) old(1) by (simp add: grp_def)
    qed
    then show "concat grp = concat C @ ?chunk @ concat D" "length grp \<le> GROUP_MAX" "\<forall>x \<in> set grp. x \<noteq> [] \<and> length x \<le> CHUNK_MAX"
      by auto
  qed
  have root: "grp \<noteq> [] \<Longrightarrow> shape_ok root" "g < length root" using grp old(3,4) groups(2) by (auto simp: root_def)
  have merged: "concat (merge_small GROUP g root) = concat root" "shape_ok (merge_small GROUP g root)" if "grp \<noteq> []"
  proof -
    have bound: "GROUP \<le> GROUP_MAX" by (simp add: GROUP_MAX_def)
    note m = merge_small_keeps [OF root(2) bound]
    have "\<forall>x \<in> set root. x \<noteq> [] \<and> length x \<le> GROUP_MAX" using root(1) [OF that] by (auto simp: shape_ok_def)
    note m = m [OF this]
    show "concat (merge_small GROUP g root) = concat root" by (rule m(1))
    have "x \<noteq> [] \<and> length x \<le> CHUNK_MAX" if "y \<in> set (merge_small GROUP g root)" "x \<in> set y" for x y
    proof -
      have "x \<in> \<Union> (set ` set root)" unfolding m(5) [symmetric] using that by blast
      then show ?thesis using root(1) [OF \<open>grp \<noteq> []\<close>] by (auto simp: shape_ok_def)
    qed
    then show "shape_ok (merge_small GROUP g root)" using m(4) by (auto simp: shape_ok_def)
  qed
  have "concat root = concat G @ grp @ concat H" by (simp add: root_def)
  then show "concat (concat (large_remove_at groups g c pos)) =
      concat (concat G) @ concat C @ ?chunk @ concat D @ concat (concat H)"
    unfolding at using merged(1) grp(1) by (cases "grp = []") auto
  show "shape_ok (large_remove_at groups g c pos)"
    unfolding at using merged(2) root(1) old(3,4) by auto
qed

lemma vec_remove_increasing:
  assumes "increasing (A @ xs @ B)" and "xs = take pos xs @ x # drop (Suc pos) xs"
  shows "increasing (A @ vec_remove pos xs @ B)" and "set (A @ vec_remove pos xs @ B) = set (A @ xs @ B) - {x}"
    and "Suc (length (vec_remove pos xs)) = length xs"
proof -
  have "increasing (A @ (take pos xs @ x # drop (Suc pos) xs) @ B)" using assms by simp
  then have "increasing (A @ vec_remove pos xs @ B)" "x \<notin> set (A @ vec_remove pos xs @ B)"
    by (auto simp: vec_remove_def sorted_wrt_append)
  moreover have "set xs = insert x (set (vec_remove pos xs))"
    using arg_cong [OF assms(2), of set] by (simp add: vec_remove_def)
  ultimately show "increasing (A @ vec_remove pos xs @ B)" "set (A @ vec_remove pos xs @ B) = set (A @ xs @ B) - {x}"
    by auto
  show "Suc (length (vec_remove pos xs)) = length xs"
    using arg_cong [OF assms(2), of length] by (simp add: vec_remove_def)
qed

lemma increasing_single: "increasing xs \<Longrightarrow> set xs = {i} \<longleftrightarrow> xs = [i]"
  by (cases xs; cases "tl xs") auto

lemma id_set_remove_ok:
  assumes ok: "id_set_ok s"
  shows "fst (id_set_remove i s) \<longleftrightarrow> id_set_vec s = [i]"
    and "id_set_vec s \<noteq> [i] \<Longrightarrow> id_set_ok (snd (id_set_remove i s)) \<and>
      set (id_set_vec (snd (id_set_remove i s))) = set (id_set_vec s) - {i}"
proof -
  have pack: "id_set_pack t = t" if "id_set_ok t" for t using that by (cases t) auto
  have one: "id_set_ok (id_set_pack (OneId j)) \<and> id_set_vec (id_set_pack (OneId j)) = [j]" for j by (simp add: SMALL_MAX_def)
  have "(fst (id_set_remove i s) \<longleftrightarrow> id_set_vec s = [i]) \<and> (id_set_vec s \<noteq> [i] \<longrightarrow>
      id_set_ok (snd (id_set_remove i s)) \<and> set (id_set_vec (snd (id_set_remove i s))) = set (id_set_vec s) - {i})"
  proof (cases s)
    case (OneId j)
    then show ?thesis using ok by (auto simp: id_set_remove_def)
  next
    case (SmallIds ids)
    have ids: "ids \<noteq> []" "length ids \<le> SMALL_MAX" "increasing ids" using ok SmallIds by auto
    define left where "left = (case binary_search ids i of Found pos \<Rightarrow> vec_remove pos ids | Missing _ \<Rightarrow> ids)"
    have left: "increasing left" "set left = set ids - {i}" "length left \<le> length ids"
    proof (atomize (full), cases "binary_search ids i")
      case (Found pos)
      then show "increasing left \<and> set left = set ids - {i} \<and> length left \<le> length ids"
        using vec_remove_increasing [of "[]" ids "[]", OF _ binary_search_Found [OF ids(3) Found]] ids(3)
        by (simp add: left_def)
    next
      case (Missing pos)
      then show "increasing left \<and> set left = set ids - {i} \<and> length left \<le> length ids"
        using binary_search_Missing(3) [OF ids(3) Missing] ids(3) by (simp add: left_def)
    qed
    have "left = [] \<longleftrightarrow> set ids - {i} = {}" by (metis left(2) set_empty)
    then have none: "left = [] \<longleftrightarrow> ids = [i]"
      by (metis Diff_eq_empty_iff ids(1) increasing_single [OF ids(3), of i] order_refl set_empty subset_singletonD)
    have "unpacked_remove i s = (case left of [only] \<Rightarrow> (False, OneId only) | _ \<Rightarrow> (left = [], SmallIds left))"
      unfolding SmallIds unpacked_remove.simps Let_def left_def [symmetric] by (rule refl)
    then have res: "id_set_remove i s = (case left of [only] \<Rightarrow> (False, id_set_pack (OneId only)) | _ \<Rightarrow> (left = [], SmallIds left))"
      by (auto simp: id_set_remove_def split: list.split)
    show ?thesis
    proof (cases "\<exists>only. left = [only]")
      case True
      then obtain only where only: "left = [only]" by blast
      then have res: "id_set_remove i s = (False, id_set_pack (OneId only))" using res by simp
      have "set ids - {i} = {only}" using left(2) only by simp
      then show ?thesis unfolding res using one [of only] none only SmallIds by (simp del: id_set_pack.simps)
    next
      case False
      then have "id_set_remove i s = (left = [], SmallIds left)"
        unfolding res by (cases left rule: remdups_adj.cases) auto
      then show ?thesis using left none ids(2) SmallIds by auto
    qed
  next
    case (LargeIds groups len)
    let ?all = "concat (concat groups)"
    have g: "groups \<noteq> []" "shape_ok groups" "increasing ?all" "len = length ?all" using ok LargeIds by auto
    obtain h c where at: "locate groups i = (h, c)" by fastforce
    obtain G C chunk D H where split: "groups = G @ (C @ chunk # D) # H" "length G = h" "length C = c"
      and before: "\<forall>y \<in> set (concat (concat G) @ concat C). y < i"
      and after: "\<forall>y \<in> set (concat D @ concat (concat H)). i < y"
      by (rule located [OF g(1-3) at])
    let ?A = "concat (concat G) @ concat C" and ?D = "concat D @ concat (concat H)"
    have all: "?all = ?A @ chunk @ ?D" using split(1) by simp
    have inc: "increasing (?A @ chunk @ ?D)" using g(3) by (simp only: all)
    then have chunk_inc: "increasing chunk" by (simp add: sorted_wrt_append)
    have chunk: "groups ! h ! c = chunk" unfolding split(1) nth_here [OF split(2)] by (rule nth_here [OF split(3)])
    show ?thesis
    proof (cases "binary_search chunk i")
      case (Missing pos)
      have "i \<notin> set ?A" "i \<notin> set ?D" using before after by auto
      then have "i \<notin> set ?all" unfolding all using binary_search_Missing(3) [OF chunk_inc Missing] by simp
      then show ?thesis using at chunk Missing ok LargeIds by (auto simp: id_set_remove_def simp del: set_concat)
    next
      case (Found pos)
      let ?new = "large_remove_at groups h c pos"
      note f = binary_search_Found [OF chunk_inc Found] and shape = large_remove_at_ok [OF split g(2), of pos]
      note r = vec_remove_increasing [OF inc f]
      have new: "concat (concat ?new) = ?A @ vec_remove pos chunk @ ?D" using shape(1) by simp
      have res: "id_set_remove i s = (len - 1 = 0, LargeIds ?new (len - 1))"
        using at chunk Found LargeIds by (simp add: id_set_remove_def)
      have "len = Suc (length (concat (concat ?new)))" using r(3) g(4) unfolding new all by simp
      moreover have s: "set (concat (concat ?new)) = set ?all - {i}" unfolding new all by (rule r(2))
      moreover have "increasing (concat (concat ?new))" unfolding new by (rule r(1))
      moreover have "?all \<noteq> []" unfolding all by (subst f) simp
      then have "?all = [i] \<longleftrightarrow> set ?all - {i} = {}"
        by (metis Diff_eq_empty_iff increasing_single [OF g(3), of i] order_refl set_empty subset_singletonD)
      then have "?all = [i] \<longleftrightarrow> concat (concat ?new) = []" unfolding s [symmetric] by (simp only: set_empty)
      ultimately show ?thesis using shape(2) LargeIds unfolding res by auto
    qed
  qed
  then show "fst (id_set_remove i s) \<longleftrightarrow> id_set_vec s = [i]"
    "id_set_vec s \<noteq> [i] \<Longrightarrow> id_set_ok (snd (id_set_remove i s)) \<and> set (id_set_vec (snd (id_set_remove i s))) = set (id_set_vec s) - {i}"
    by auto
qed

section \<open>The iterator\<close>

text \<open>What is left between the two ends.\<close>

definition iter_left :: "id_set_iter \<Rightarrow> u64 list" where
  "iter_left it = it_front it @ concat (it_front_chunks it) @ concat (concat (it_groups it)) @
     concat (it_back_chunks it) @ it_back it @ (case it_one it of None \<Rightarrow> [] | Some i \<Rightarrow> [i])"

definition iter_ok :: "id_set_iter \<Rightarrow> bool" where
  "iter_ok it \<longleftrightarrow> it_remaining it = length (iter_left it) \<and>
     (it_one it \<noteq> None \<longrightarrow> it_front it = [] \<and> it_front_chunks it = [] \<and> it_groups it = [] \<and> it_back_chunks it = [] \<and> it_back it = [])"

lemma iter_next_gives:
  "iter_ok it \<Longrightarrow> iter_next it = (r, it') \<Longrightarrow> iter_ok it' \<and>
     (case r of None \<Rightarrow> iter_left it = [] \<and> iter_left it' = [] | Some i \<Rightarrow> iter_left it = i # iter_left it')"
proof (induction it rule: iter_next.induct)
  case (1 it)
  show ?case
  proof (cases "it_front it")
    case (Cons i ids)
    then show ?thesis using "1.prems" by (auto simp: iter_next.simps [of it] iter_ok_def iter_left_def)
  next
    case front: Nil
    show ?thesis
    proof (cases "it_front_chunks it")
      case (Cons chunk chunks)
      show ?thesis using "1.IH"(3) [OF front Cons] "1.prems" front Cons
        by (simp add: iter_next.simps [of it] iter_ok_def iter_left_def split: option.splits)
    next
      case chunks: Nil
      show ?thesis
      proof (cases "it_groups it")
        case (Cons grp groups)
        show ?thesis using "1.IH"(2) [OF front chunks Cons] "1.prems" front chunks Cons
          by (simp add: iter_next.simps [of it] iter_ok_def iter_left_def split: option.splits)
      next
        case groups: Nil
        show ?thesis
        proof (cases "it_back_chunks it")
          case (Cons chunk chunks')
          show ?thesis using "1.IH"(1) [OF front chunks groups Cons] "1.prems" front chunks groups Cons
            by (simp add: iter_next.simps [of it] iter_ok_def iter_left_def split: option.splits)
        next
          case Nil
          then show ?thesis using "1.prems" front chunks groups
            by (auto simp: iter_next.simps [of it] iter_ok_def iter_left_def split: list.splits option.splits)
        qed
      qed
    qed
  qed
qed

lemma concat_last: "xs \<noteq> [] \<Longrightarrow> concat xs = concat (butlast xs) @ last xs"
  by (induction xs rule: rev_induct) auto

lemma iter_next_back_gives:
  "iter_ok it \<Longrightarrow> iter_next_back it = (r, it') \<Longrightarrow> iter_ok it' \<and>
     (case r of None \<Rightarrow> iter_left it = [] \<and> iter_left it' = [] | Some i \<Rightarrow> iter_left it = iter_left it' @ [i])"
proof (induction it rule: iter_next_back.induct)
  case (1 it)
  show ?case
  proof (cases "it_back it = []")
    case False
    then obtain ids i where "it_back it = ids @ [i]" by (meson rev_exhaust)
    then show ?thesis using "1.prems" by (auto simp: iter_next_back.simps [of it] iter_ok_def iter_left_def)
  next
    case no_back: True
    show ?thesis
    proof (cases "it_back_chunks it = []")
      case False
      let ?it = "it\<lparr>it_back := last (it_back_chunks it), it_back_chunks := butlast (it_back_chunks it)\<rparr>"
      have "iter_left ?it = iter_left it" using no_back concat_last [OF False] by (simp add: iter_left_def)
      moreover from this have "iter_ok ?it" using "1.prems"(1) False by (auto simp: iter_ok_def)
      moreover have "iter_next_back ?it = (r, it')" using "1.prems"(2) no_back False by (simp add: iter_next_back.simps [of it])
      ultimately show ?thesis using "1.IH"(1) [OF _ False] no_back by (simp split: option.splits)
    next
      case chunks: True
      show ?thesis
      proof (cases "it_groups it = []")
        case False
        let ?it = "it\<lparr>it_back_chunks := last (it_groups it), it_groups := butlast (it_groups it)\<rparr>"
        have "iter_left ?it = iter_left it" using no_back chunks concat_last [OF False] by (simp add: iter_left_def)
        moreover from this have "iter_ok ?it" using "1.prems"(1) False by (auto simp: iter_ok_def)
        moreover have "iter_next_back ?it = (r, it')"
          using "1.prems"(2) no_back chunks False by (simp add: iter_next_back.simps [of it])
        ultimately show ?thesis using "1.IH"(2) [OF _ _ False] no_back chunks by (simp split: option.splits)
      next
        case groups: True
        show ?thesis
        proof (cases "it_front_chunks it = []")
          case False
          let ?it = "it\<lparr>it_back := last (it_front_chunks it), it_front_chunks := butlast (it_front_chunks it)\<rparr>"
          have "iter_left ?it = iter_left it" using no_back chunks groups concat_last [OF False] by (simp add: iter_left_def)
          moreover from this have "iter_ok ?it" using "1.prems"(1) False by (auto simp: iter_ok_def)
          moreover have "iter_next_back ?it = (r, it')"
            using "1.prems"(2) no_back chunks groups False by (simp add: iter_next_back.simps [of it])
          ultimately show ?thesis using "1.IH"(3) [OF _ _ _ False] no_back chunks groups by (simp split: option.splits)
        next
          case True
          then show ?thesis using "1.prems" no_back chunks groups
            by (cases "it_front it" rule: rev_cases)
              (auto simp: iter_next_back.simps [of it] iter_ok_def iter_left_def split: option.splits)
        qed
      qed
    qed
  qed
qed

lemma iter_of_ok: "id_set_ok s \<Longrightarrow> iter_ok (iter_of s) \<and> iter_left (iter_of s) = id_set_vec s"
  by (cases s) (auto simp: iter_ok_def iter_left_def iter_one_def iter_slice_def iter_groups_def)

text \<open>Ids taken from either end, in any order, until both ends meet.\<close>

fun iter_take :: "bool list \<Rightarrow> id_set_iter \<Rightarrow> u64 option list \<times> id_set_iter" where
  "iter_take [] it = ([], it)"
| "iter_take (from_back # ends) it = (case (if from_back then iter_next_back it else iter_next it) of (r, it) \<Rightarrow>
     (case iter_take ends it of (rs, it) \<Rightarrow> (r # rs, it)))"

fun deque_take :: "bool list \<Rightarrow> 'a list \<Rightarrow> 'a option list" where
  "deque_take [] xs = []"
| "deque_take (from_back # ends) xs = (if xs = [] then None # deque_take ends []
     else if from_back then Some (last xs) # deque_take ends (butlast xs)
     else Some (hd xs) # deque_take ends (tl xs))"

lemma iter_take_deque: "iter_ok it \<Longrightarrow> fst (iter_take ends it) = deque_take ends (iter_left it)"
proof (induction ends arbitrary: it)
  case (Cons from_back ends)
  obtain r it' where step: "(if from_back then iter_next_back it else iter_next it) = (r, it')" by fastforce
  show ?case
  proof (cases from_back)
    case True
    then show ?thesis using step Cons.IH [of it'] iter_next_back_gives [OF Cons.prems, of r it']
      by (cases r) (auto split: prod.split)
  next
    case False
    then show ?thesis using step Cons.IH [of it'] iter_next_gives [OF Cons.prems, of r it']
      by (cases r) (auto split: prod.split)
  qed
qed simp

section \<open>Ids after a cursor\<close>

lemma before_cursor:
  fixes c :: "'a :: linorder"
  assumes "increasing xs"
  shows "take (partition_point (\<lambda>i. i < c) xs) xs = filter (\<lambda>i. i < c) xs"
    and "drop (partition_point (\<lambda>i. i \<le> c) xs) xs = filter (\<lambda>i. c < i) xs"
proof -
  have "takeWhile (\<lambda>i. i < c) xs = filter (\<lambda>i. i < c) xs" using assms
  proof (induction xs)
    case (Cons x xs)
    have "filter (\<lambda>i. i < c) xs = []" if "\<not> x < c" using Cons.prems that by (auto simp: filter_empty_conv)
    then show ?case using Cons by auto
  qed simp
  then show "take (partition_point (\<lambda>i. i < c) xs) xs = filter (\<lambda>i. i < c) xs"
    by (metis partition_point_def takeWhile_eq_take)
  have "dropWhile (\<lambda>i. i \<le> c) xs = filter (\<lambda>i. c < i) xs" using assms
  proof (induction xs)
    case (Cons x xs)
    have "filter (\<lambda>i. c < i) xs = xs" if "c < x" using Cons.prems that by (auto simp: filter_id_conv intro: less_trans)
    then show ?case using Cons by (auto simp: not_le)
  qed simp
  then show "drop (partition_point (\<lambda>i. i \<le> c) xs) xs = filter (\<lambda>i. c < i) xs"
    by (metis partition_point_def dropWhile_eq_drop)
qed

lemma iter_after_filters:
  assumes ok: "id_set_ok s"
  shows "id_set_iter_after s (Some c) True = rev (filter (\<lambda>i. i < c) (id_set_vec s))"
    and "id_set_iter_after s (Some c) False = filter (\<lambda>i. c < i) (id_set_vec s)"
proof -
  have "id_set_iter_after s (Some c) True = rev (filter (\<lambda>i. i < c) (id_set_vec s)) \<and>
      id_set_iter_after s (Some c) False = filter (\<lambda>i. c < i) (id_set_vec s)"
  proof (cases s)
    case (LargeIds groups len)
    have g: "groups \<noteq> []" "shape_ok groups" "increasing (concat (concat groups))" using ok LargeIds by auto
    obtain h k where at: "locate groups c = (h, k)" by fastforce
    obtain G C chunk D H where split: "groups = G @ (C @ chunk # D) # H" "length G = h" "length C = k"
      and before: "\<forall>y \<in> set (concat (concat G) @ concat C). y < c"
      and after: "\<forall>y \<in> set (concat D @ concat (concat H)). c < y"
      by (rule located [OF g(1-3) at])
    let ?A = "concat (concat G) @ concat C" and ?D = "concat D @ concat (concat H)"
    have all: "concat (concat groups) = ?A @ chunk @ ?D" using split(1) by simp
    have inc: "increasing chunk" using g(3) unfolding all by (simp add: sorted_wrt_append)
    have grp: "groups ! h = C @ chunk # D" unfolding split(1) by (rule nth_here [OF split(2)])
    have chunk: "(C @ chunk # D) ! k = chunk" by (rule nth_here [OF split(3)])
    have parts: "take h groups = G" "drop (Suc h) groups = H" "take k (C @ chunk # D) = C" "drop (Suc k) (C @ chunk # D) = D"
      using split by auto
    have A: "filter (\<lambda>i. i < c) ?A = ?A" "filter (\<lambda>i. c < i) ?A = []"
      using before by (auto simp only: filter_id_conv filter_empty_conv not_less_iff_gr_or_eq)
    have D: "filter (\<lambda>i. i < c) ?D = []" "filter (\<lambda>i. c < i) ?D = ?D"
      using after by (auto simp only: filter_id_conv filter_empty_conv not_less_iff_gr_or_eq)
    have turn: "concat (map rev (rev xss)) = rev (concat xss)" for xss :: "'a list list"
      by (simp add: rev_concat rev_map)
    have "id_set_iter_after s (Some c) True = rev (filter (\<lambda>i. i < c) chunk) @ rev ?A"
      unfolding LargeIds id_set_iter_after.simps at prod.case Let_def grp chunk parts before_cursor [OF inc]
        map_append concat_append turn if_True rev_append by (rule refl)
    moreover have "id_set_iter_after s (Some c) False = filter (\<lambda>i. c < i) chunk @ ?D"
      unfolding LargeIds id_set_iter_after.simps at prod.case Let_def grp chunk parts before_cursor [OF inc]
        concat_append if_False by (rule refl)
    ultimately show ?thesis
      unfolding LargeIds id_set_vec.simps all filter_append [of _ ?A] filter_append [of _ chunk] A D by simp
  qed (use ok before_cursor in auto)
  then show "id_set_iter_after s (Some c) True = rev (filter (\<lambda>i. i < c) (id_set_vec s))"
    "id_set_iter_after s (Some c) False = filter (\<lambda>i. c < i) (id_set_vec s)" by auto
qed

end
