(* ===== verification/Property_Index_Laws.thy ===== *)
theory Property_Index_Laws
  imports Property_Index Id_Set_Laws
begin

text \<open>
  The two tiers of the buckets refine one relation, from the entities of a scope to the value each holds: a
  lookup gives exactly the holders, whatever values share a digest.
\<close>

section \<open>Buckets\<close>

definition buckets_ok :: "key_digest \<Rightarrow> (u64 \<Rightarrow> property_index_key option) \<Rightarrow> value_buckets \<Rightarrow> bool" where
  "buckets_ok digest held b \<longleftrightarrow>
     (\<forall>k ids. map_of (vb_exact b) k = Some ids \<longrightarrow> id_set_ok ids \<and> set (id_set_vec ids) = {i. held i = Some k}) \<and>
     (\<forall>d i. map_of (vb_single b) d = Some i \<longrightarrow>
        (\<exists>k. held i = Some k \<and> probe_digest digest k = Some d \<and> map_of (vb_exact b) k = None)) \<and>
     (\<forall>i k. held i = Some k \<longrightarrow> map_of (vb_exact b) k \<noteq> None \<or>
        (\<exists>d. probe_digest digest k = Some d \<and> map_of (vb_single b) d = Some i))"

lemma buckets_okD:
  assumes "buckets_ok digest held b"
  shows "map_of (vb_exact b) k = Some ids \<Longrightarrow> id_set_ok ids \<and> set (id_set_vec ids) = {i. held i = Some k}"
    and "map_of (vb_single b) d = Some i \<Longrightarrow>
      \<exists>k. held i = Some k \<and> probe_digest digest k = Some d \<and> map_of (vb_exact b) k = None"
    and "held i = Some k \<Longrightarrow> map_of (vb_exact b) k = None \<Longrightarrow>
      \<exists>d. probe_digest digest k = Some d \<and> map_of (vb_single b) d = Some i"
  using assms unfolding buckets_ok_def by blast+

lemma tier_simps [simp]:
  "map_of (vb_exact (put_exact k ids b)) = (map_of (vb_exact b))(k \<mapsto> ids)"
  "map_of (vb_exact (drop_exact k b)) = (map_of (vb_exact b))(k := None)"
  "vb_exact (put_single d i b) = vb_exact b" "vb_exact (drop_single d b) = vb_exact b"
  "map_of (vb_single (put_single d i b)) = (map_of (vb_single b))(d \<mapsto> i)"
  "map_of (vb_single (drop_single d b)) = (map_of (vb_single b))(d := None)"
  "vb_single (put_exact k ids b) = vb_single b" "vb_single (drop_exact k b) = vb_single b"
  by (simp_all add: put_exact_def drop_exact_def put_single_def drop_single_def update_conv' delete_conv')

lemma drop_put_exact [simp]: "drop_exact k (put_exact k ids b) = drop_exact k b"
  by (simp add: drop_exact_def put_exact_def delete_update_same)

lemma no_buckets_ok: "buckets_ok digest held no_buckets \<longleftrightarrow> (\<forall>i. held i = None)"
  by (auto simp: buckets_ok_def no_buckets_def)

lemma buckets_empty_ok: "buckets_ok digest held b \<Longrightarrow> buckets_empty b \<longleftrightarrow> (\<forall>i. held i = None)"
proof
  assume ok: "buckets_ok digest held b" and none: "\<forall>i. held i = None"
  have "map_of (vb_exact b) k = None" for k
  proof (rule ccontr)
    assume "map_of (vb_exact b) k \<noteq> None"
    then obtain ids where "id_set_ok ids" "set (id_set_vec ids) = {}" using buckets_okD(1) [OF ok] none by fastforce
    then show False using id_set_increasing [of ids] by simp
  qed
  moreover have "map_of (vb_single b) d = None" for d using buckets_okD(2) [OF ok, of d] none by fastforce
  ultimately show "buckets_empty b" unfolding buckets_empty_def by (metis map_of_eq_empty_iff ext)
qed (auto simp: buckets_empty_def buckets_ok_def)

text \<open>Only the holder of a value without an exact entry has its digest.\<close>

lemma single_holder:
  assumes "buckets_ok digest held b" and "map_of (vb_exact b) k = None" and "probe_digest digest k = Some d"
  shows "held i = Some k \<Longrightarrow> map_of (vb_single b) d = Some i"
    and "map_of (vb_single b) d = Some i \<Longrightarrow> held i = Some k \<Longrightarrow> {j. held j = Some k} = {i}"
    and "map_of (vb_single b) d = Some i \<Longrightarrow> held i \<noteq> Some k \<Longrightarrow> {j. held j = Some k} = {}"
    and "map_of (vb_single b) d = None \<Longrightarrow> {j. held j = Some k} = {}"
proof -
  show one: "map_of (vb_single b) d = Some i" if "held i = Some k" for i
    using buckets_okD(3) [OF assms(1) that assms(2)] assms(3) by auto
  show "map_of (vb_single b) d = Some i \<Longrightarrow> held i = Some k \<Longrightarrow> {j. held j = Some k} = {i}"
    "map_of (vb_single b) d = Some i \<Longrightarrow> held i \<noteq> Some k \<Longrightarrow> {j. held j = Some k} = {}"
    "map_of (vb_single b) d = None \<Longrightarrow> {j. held j = Some k} = {}"
    using one by fastforce+
qed

lemma buckets_insert_ok:
  assumes ok: "buckets_ok digest held b" and new: "held i = None \<or> held i = Some k"
    and holds: "\<And>j. j \<noteq> i \<Longrightarrow> held j \<noteq> None \<Longrightarrow> holds j \<longleftrightarrow> held j = Some k"
  shows "buckets_ok digest (held(i \<mapsto> k)) (buckets_insert digest i k holds b)"
proof -
  let ?held = "held(i \<mapsto> k)"
  have others: "{j. ?held j = Some l} = {j. held j = Some l}" if "l \<noteq> k" for l using new that by auto
  have this_one: "{j. ?held j = Some k} = insert i {j. held j = Some k}" by auto
  have exact: "buckets_ok digest ?held (put_exact k ids b')"
    if ids: "id_set_ok ids" "set (id_set_vec ids) = insert i {j. held j = Some k}"
      and b': "vb_exact b' = vb_exact b" "\<And>d j. map_of (vb_single b') d = Some j \<Longrightarrow> map_of (vb_single b) d = Some j \<and> held j \<noteq> Some k"
        "\<And>d j l. map_of (vb_single b) d = Some j \<Longrightarrow> held j = Some l \<Longrightarrow> l \<noteq> k \<Longrightarrow> map_of (vb_single b') d = Some j"
    for ids b'
    unfolding buckets_ok_def
  proof (intro conjI allI impI)
    fix l ids' assume "map_of (vb_exact (put_exact k ids b')) l = Some ids'"
    then have "id_set_ok ids' \<and> set (id_set_vec ids') = {j. ?held j = Some l}"
      using ids buckets_okD(1) [OF ok, of l ids'] others [of l] this_one b'(1) by (cases "l = k") auto
    then show "id_set_ok ids'" "set (id_set_vec ids') = {j. ?held j = Some l}" by auto
  next
    fix d j assume "map_of (vb_single (put_exact k ids b')) d = Some j"
    then have j: "map_of (vb_single b) d = Some j" "held j \<noteq> Some k" using b'(2) by auto
    then obtain l where "held j = Some l" "probe_digest digest l = Some d" "map_of (vb_exact b) l = None"
      using buckets_okD(2) [OF ok] by blast
    then show "\<exists>l. ?held j = Some l \<and> probe_digest digest l = Some d \<and> map_of (vb_exact (put_exact k ids b')) l = None"
      using j new b'(1) by (auto intro!: exI [of _ l])
  next
    fix j l assume "?held j = Some l"
    then show "map_of (vb_exact (put_exact k ids b')) l \<noteq> None \<or>
        (\<exists>d. probe_digest digest l = Some d \<and> map_of (vb_single (put_exact k ids b')) d = Some j)"
      using buckets_okD(3) [OF ok, of j l] b'(1) b'(3) [of _ j l]
      by (cases "l = k"; cases "map_of (vb_exact b) l") (auto split: if_splits)
  qed
  have grown: "id_set_ok (snd (id_set_insert i ids)) \<and> set (id_set_vec (snd (id_set_insert i ids))) = insert i {j. held j = Some k}"
    if "map_of (vb_exact b) k = Some ids" for ids
    using buckets_okD(1) [OF ok that] id_set_insert_ok(1,2) [of ids i] by auto
  have listed: "held j \<noteq> Some k" if "map_of (vb_single b) d = Some j" "map_of (vb_exact b) k \<noteq> None" for d j
    using buckets_okD(2) [OF ok that(1)] that(2) by auto
  show ?thesis
  proof (cases "map_of (vb_exact b) k")
    case (Some ids)
    have "buckets_ok digest ?held (put_exact k (snd (id_set_insert i ids)) b)"
      by (rule exact) (use grown [OF Some] listed Some in auto)
    then show ?thesis using Some by (simp add: buckets_insert_def split: option.split)
  next
    case none: None
    show ?thesis
    proof (cases "probe_digest digest k")
      case None
      have "{j. held j = Some k} = {}" using buckets_okD(3) [OF ok _ none] None by auto
      moreover have "held j \<noteq> Some k" if "map_of (vb_single b) d = Some j" for d j
        using buckets_okD(2) [OF ok that] None by auto
      ultimately have "buckets_ok digest ?held (put_exact k (id_set_new i) b)"
        by (intro exact) (auto simp: id_set_new_ok)
      then show ?thesis using none None by (simp add: buckets_insert_def)
    next
      case (Some d)
      note single = single_holder [OF ok none Some]
      show ?thesis
      proof (cases "map_of (vb_single b) d")
        case None
        have free: "{j. held j = Some k} = {}" by (rule single(4) [OF None])
        have "buckets_ok digest ?held (put_single d i b)"
          unfolding buckets_ok_def
        proof (intro conjI allI impI)
          fix l ids assume "map_of (vb_exact (put_single d i b)) l = Some ids"
          then have "id_set_ok ids \<and> set (id_set_vec ids) = {j. ?held j = Some l}"
            using buckets_okD(1) [OF ok, of l ids] others [of l] none by (cases "l = k") auto
          then show "id_set_ok ids" "set (id_set_vec ids) = {j. ?held j = Some l}" by auto
        next
          fix e j assume e: "map_of (vb_single (put_single d i b)) e = Some j"
          show "\<exists>l. ?held j = Some l \<and> probe_digest digest l = Some e \<and> map_of (vb_exact (put_single d i b)) l = None"
          proof (cases "e = d")
            case True
            then show ?thesis using e none Some by auto
          next
            case False
            then obtain l where "held j = Some l" "probe_digest digest l = Some e" "map_of (vb_exact b) l = None"
              using buckets_okD(2) [OF ok, of e j] e by auto
            then show ?thesis using new by (auto intro!: exI [of _ l])
          qed
        next
          fix j l assume j: "?held j = Some l"
          show "map_of (vb_exact (put_single d i b)) l \<noteq> None \<or>
              (\<exists>d'. probe_digest digest l = Some d' \<and> map_of (vb_single (put_single d i b)) d' = Some j)"
          proof (cases "j = i")
            case True
            then show ?thesis using j Some by auto
          next
            case False
            then show ?thesis using j buckets_okD(3) [OF ok, of j l] None by (cases "map_of (vb_exact b) l") fastforce+
          qed
        qed
        then show ?thesis using none Some None by (simp add: buckets_insert_def)
      next
        case other: (Some other)
        obtain l where l: "held other = Some l" "probe_digest digest l = Some d" "map_of (vb_exact b) l = None"
          using buckets_okD(2) [OF ok other] by blast
        show ?thesis
        proof (cases "other = i")
          case True
          then have "held i = Some k" using l(1) new by auto
          then have "?held = held" by auto
          then show ?thesis using ok none Some other True by (simp add: buckets_insert_def)
        next
          case False
          have hold: "holds other \<longleftrightarrow> l = k" using holds [OF False] l(1) by simp
          show ?thesis
          proof (cases "l = k")
            case True
            let ?ids = "snd (id_set_insert other (id_set_new i))"
            have ids: "id_set_ok ?ids" "set (id_set_vec ?ids) = insert i {j. held j = Some k}"
              using id_set_insert_ok(1,2) [OF id_set_new_ok(1), of other i] single(2) [OF other] l(1) True
              by (auto simp: id_set_new_ok(2))
            have "held j \<noteq> Some k" if "map_of (vb_single b) e = Some j" "e \<noteq> d" for e j
              using buckets_okD(2) [OF ok that(1)] that(2) Some by auto
            moreover have "map_of (vb_single b) e = Some j \<Longrightarrow> held j = Some l' \<Longrightarrow> l' \<noteq> k \<Longrightarrow> e \<noteq> d" for e j l'
              using other l(1) True by auto
            ultimately have "buckets_ok digest ?held (put_exact k ?ids (drop_single d b))"
              by (intro exact ids) (auto split: if_splits)
            then show ?thesis using none Some other False hold True by (simp add: buckets_insert_def)
          next
            case False
            have empty: "{j. held j = Some k} = {}" using single(3) [OF other] l(1) False by simp
            then have "buckets_ok digest ?held (put_exact k (id_set_new i) b)"
              by (intro exact) (auto simp: id_set_new_ok)
            then show ?thesis using none Some other \<open>other \<noteq> i\<close> hold False by (simp add: buckets_insert_def)
          qed
        qed
      qed
    qed
  qed
qed

text \<open>Removing the last holder drops the entry; a value left with one holder may go back to its digest.\<close>

lemma buckets_without:
  assumes ok: "buckets_ok digest held b" and at: "held i = Some k"
    and b': "\<And>l. l \<noteq> k \<Longrightarrow> map_of (vb_exact b') l = map_of (vb_exact b) l"
    and exact: "\<And>ids. map_of (vb_exact b') k = Some ids \<Longrightarrow> id_set_ok ids \<and> set (id_set_vec ids) = {j. held j = Some k} - {i}"
    and single: "\<And>d j. map_of (vb_single b') d = Some j \<Longrightarrow> j \<noteq> i \<and> (map_of (vb_single b) d = Some j \<and> held j \<noteq> Some k \<or>
        held j = Some k \<and> probe_digest digest k = Some d \<and> map_of (vb_exact b') k = None)"
    and kept: "\<And>d j l. map_of (vb_single b) d = Some j \<Longrightarrow> held j = Some l \<Longrightarrow> l \<noteq> k \<Longrightarrow> map_of (vb_single b') d = Some j"
    and left: "\<And>j. held j = Some k \<Longrightarrow> j \<noteq> i \<Longrightarrow> map_of (vb_exact b') k = None \<Longrightarrow>
        \<exists>d. probe_digest digest k = Some d \<and> map_of (vb_single b') d = Some j"
  shows "buckets_ok digest (held(i := None)) b'"
  unfolding buckets_ok_def
proof (intro conjI allI impI)
  fix l ids assume l: "map_of (vb_exact b') l = Some ids"
  have "id_set_ok ids \<and> set (id_set_vec ids) = {j. (held(i := None)) j = Some l}"
    using l exact [of ids] b' [of l] buckets_okD(1) [OF ok, of l ids] at by (cases "l = k") auto
  then show "id_set_ok ids" "set (id_set_vec ids) = {j. (held(i := None)) j = Some l}" by auto
next
  fix d j assume j: "map_of (vb_single b') d = Some j"
  show "\<exists>l. (held(i := None)) j = Some l \<and> probe_digest digest l = Some d \<and> map_of (vb_exact b') l = None"
    using single [OF j] buckets_okD(2) [OF ok, of d j] b' by (metis fun_upd_other)
next
  fix j l assume j: "(held(i := None)) j = Some l"
  show "map_of (vb_exact b') l \<noteq> None \<or> (\<exists>d. probe_digest digest l = Some d \<and> map_of (vb_single b') d = Some j)"
  proof (cases "l = k")
    case True
    then show ?thesis using left [of j] j by (auto split: if_splits)
  next
    case False
    then show ?thesis using buckets_okD(3) [OF ok, of j l] kept [of _ j l] b' [of l] j
      by (cases "map_of (vb_exact b) l") (auto split: if_splits)
  qed
qed

lemma buckets_remove_ok:
  assumes ok: "buckets_ok digest held b" and at: "held i = Some k"
  shows "buckets_ok digest (held(i := None)) (buckets_remove digest i k b)"
proof (cases "map_of (vb_exact b) k")
  case None
  then obtain d where d: "probe_digest digest k = Some d" "map_of (vb_single b) d = Some i"
    using buckets_okD(3) [OF ok at] by blast
  note single = single_holder [OF ok None d(1)]
  have "buckets_ok digest (held(i := None)) (drop_single d b)"
  proof (rule buckets_without [OF ok at])
    show "map_of (vb_single (drop_single d b)) e = Some j \<Longrightarrow> j \<noteq> i \<and> (map_of (vb_single b) e = Some j \<and> held j \<noteq> Some k \<or>
        held j = Some k \<and> probe_digest digest k = Some e \<and> map_of (vb_exact (drop_single d b)) k = None)" for e j
      using buckets_okD(2) [OF ok, of e j] at d by (auto split: if_splits)
    show "held j = Some k \<Longrightarrow> j \<noteq> i \<Longrightarrow> map_of (vb_exact (drop_single d b)) k = None \<Longrightarrow>
        \<exists>e. probe_digest digest k = Some e \<and> map_of (vb_single (drop_single d b)) e = Some j" for j
      using single(2) [OF d(2) at] by auto
  qed (use None d(2) at in \<open>auto split: if_splits\<close>)
  then show ?thesis using None d by (simp add: buckets_remove_def)
next
  case (Some ids)
  note ids = buckets_okD(1) [OF ok Some]
  have single: "j \<noteq> i \<and> held j \<noteq> Some k" if "map_of (vb_single b) d = Some j" for d j
    using buckets_okD(2) [OF ok that] Some at by auto
  obtain emptied ids' where r: "id_set_remove i ids = (emptied, ids')" by fastforce
  note removed = id_set_remove_ok [OF conjunct1 [OF ids], of i, unfolded r fst_conv snd_conv]
  show ?thesis
  proof (cases emptied)
    case True
    then have only: "{j. held j = Some k} = {i}" using removed(1) ids by simp
    have "buckets_ok digest (held(i := None)) (drop_exact k b)"
      by (rule buckets_without [OF ok at]) (use single only in auto)
    moreover have "buckets_remove digest i k b = drop_exact k b"
      using Some r True single by (auto simp: buckets_remove_def Let_def split: option.split)
    ultimately show ?thesis by simp
  next
    case False
    then have ids': "id_set_ok ids'" "set (id_set_vec ids') = {j. held j = Some k} - {i}" using removed ids by auto
    have kept: "buckets_ok digest (held(i := None)) (put_exact k ids' b)"
      by (rule buckets_without [OF ok at]) (use single ids' in auto)
    show ?thesis
    proof (cases "\<exists>d. probe_digest digest k = Some d \<and> id_set_len ids' = 1 \<and> map_of (vb_single b) d = None")
      case True
      then obtain d where d: "probe_digest digest k = Some d" "length (id_set_vec ids') = 1" "map_of (vb_single b) d = None"
        by (auto simp: id_set_len [OF ids'(1)])
      then obtain last where last: "id_set_vec ids' = [last]" by (auto simp: length_Suc_conv)
      then have "{j. held j = Some k} - {i} = {last}" using ids'(2) by simp
      then have only: "held last = Some k" "last \<noteq> i" "\<And>j. held j = Some k \<Longrightarrow> j \<noteq> i \<Longrightarrow> j = last" by blast+
      have "buckets_ok digest (held(i := None)) (put_single d last (drop_exact k b))"
      proof (rule buckets_without [OF ok at])
        fix e j assume e: "map_of (vb_single (put_single d last (drop_exact k b))) e = Some j"
        show "j \<noteq> i \<and> (map_of (vb_single b) e = Some j \<and> held j \<noteq> Some k \<or>
            held j = Some k \<and> probe_digest digest k = Some e \<and> map_of (vb_exact (put_single d last (drop_exact k b))) k = None)"
        proof (cases "e = d")
          case True
          then show ?thesis using e only(1,2) d(1) by simp
        next
          case False
          then show ?thesis using e single [of e j] by simp
        qed
      next
        fix e j l assume "map_of (vb_single b) e = Some j"
        then show "map_of (vb_single (put_single d last (drop_exact k b))) e = Some j" using d(3) by auto
      next
        fix j assume "held j = Some k" "j \<noteq> i"
        then show "\<exists>e. probe_digest digest k = Some e \<and> map_of (vb_single (put_single d last (drop_exact k b))) e = Some j"
          using only(3) d(1) by simp
      qed simp_all
      moreover have "buckets_remove digest i k b = put_single d last (drop_exact k b)"
        using Some r False d(1,3) last only(2) by (simp add: buckets_remove_def Let_def id_set_len [OF ids'(1)])
      ultimately show ?thesis by simp
    next
      case more: False
      have "buckets_remove digest i k b = put_exact k ids' b"
        using Some r False more single by (auto simp: buckets_remove_def Let_def split: option.split)
      then show ?thesis using kept by simp
    qed
  qed
qed

lemma buckets_get_holders:
  assumes ok: "buckets_ok digest held b" and holds: "\<And>i. held i \<noteq> None \<Longrightarrow> holds i \<longleftrightarrow> held i = Some k"
  shows "(case buckets_get digest k holds b of
      None \<Rightarrow> {i. held i = Some k} = {}
    | Some hits \<Rightarrow> increasing (hits_vec hits) \<and> set (hits_vec hits) = {i. held i = Some k})"
proof (cases "map_of (vb_exact b) k")
  case (Some ids)
  then show ?thesis using buckets_okD(1) [OF ok Some] id_set_increasing [of ids] by (simp add: buckets_get_def)
next
  case none: None
  show ?thesis
  proof (cases "probe_digest digest k")
    case None
    then show ?thesis using none buckets_okD(3) [OF ok _ none] by (auto simp: buckets_get_def)
  next
    case (Some d)
    note single = single_holder [OF ok none Some]
    show ?thesis
    proof (cases "map_of (vb_single b) d")
      case None
      then show ?thesis using none Some single(4) by (simp add: buckets_get_def)
    next
      case (Some i)
      then have "held i \<noteq> None" using buckets_okD(2) [OF ok Some] by auto
      then show ?thesis using none \<open>probe_digest digest k = Some d\<close> Some single(2,3) [OF Some] holds [of i]
        by (simp add: buckets_get_def)
    qed
  qed
qed

text \<open>No key is listed twice, so the entries are those a lookup finds.\<close>

definition tidy :: "value_buckets \<Rightarrow> bool" where
  "tidy b \<longleftrightarrow> distinct (map fst (vb_exact b)) \<and> distinct (map fst (vb_single b))"

lemma tidy_simps [simp]:
  "tidy no_buckets" "tidy b \<Longrightarrow> tidy (put_exact k ids b)" "tidy b \<Longrightarrow> tidy (drop_exact k b)"
  "tidy b \<Longrightarrow> tidy (put_single d i b)" "tidy b \<Longrightarrow> tidy (drop_single d b)"
  by (simp_all add: tidy_def no_buckets_def put_exact_def drop_exact_def put_single_def drop_single_def
      distinct_update distinct_delete)

lemma tidy_insert: "tidy b \<Longrightarrow> tidy (buckets_insert digest i k holds b)"
  by (auto simp: buckets_insert_def split: option.split)

lemma tidy_remove: "tidy b \<Longrightarrow> tidy (buckets_remove digest i k b)"
  by (auto simp: buckets_remove_def Let_def split: option.split prod.split)

lemma buckets_entries_ids:
  assumes "buckets_ok digest held b" and "tidy b"
  shows "(value, i) \<in> set (buckets_entries b) \<Longrightarrow> held i \<noteq> None \<and> (\<forall>k. value = Some k \<longrightarrow> held i = Some k)"
    and "held i \<noteq> None \<Longrightarrow> \<exists>value. (value, i) \<in> set (buckets_entries b)"
proof -
  have exact: "(k, ids) \<in> set (vb_exact b) \<longleftrightarrow> map_of (vb_exact b) k = Some ids" for k ids
    using assms(2) by (auto simp: tidy_def)
  have single: "(d, j) \<in> set (vb_single b) \<longleftrightarrow> map_of (vb_single b) d = Some j" for d j
    using assms(2) by (auto simp: tidy_def)
  show "held i \<noteq> None \<and> (\<forall>k. value = Some k \<longrightarrow> held i = Some k)" if entry: "(value, i) \<in> set (buckets_entries b)"
  proof -
    consider k ids where "map_of (vb_exact b) k = Some ids" "i \<in> set (id_set_vec ids)" "value = Some k"
      | d where "map_of (vb_single b) d = Some i" "value = None"
      using entry by (auto simp: buckets_entries_def exact single)
    then show ?thesis
    proof cases
      case 1
      then show ?thesis using buckets_okD(1) [OF assms(1) 1(1)] by auto
    next
      case 2
      then show ?thesis using buckets_okD(2) [OF assms(1) 2(1)] by auto
    qed
  qed
  assume "held i \<noteq> None"
  then obtain k where k: "held i = Some k" by blast
  show "\<exists>value. (value, i) \<in> set (buckets_entries b)"
  proof (cases "map_of (vb_exact b) k")
    case None
    then obtain d where "(d, i) \<in> set (vb_single b)" using buckets_okD(3) [OF assms(1) k] single by blast
    then show ?thesis by (force simp: buckets_entries_def)
  next
    case (Some ids)
    then have "(k, ids) \<in> set (vb_exact b)" "i \<in> set (id_set_vec ids)" using buckets_okD(1) [OF assms(1) Some] k exact by auto
    then have "(Some k, i) \<in> set (buckets_entries b)" by (auto simp: buckets_entries_def intro!: bexI [of _ "(k, ids)"])
    then show ?thesis by blast
  qed
qed

definition buckets_hold :: "key_digest \<Rightarrow> (u64 \<Rightarrow> property_index_key option) \<Rightarrow> value_buckets \<Rightarrow> bool" where
  "buckets_hold digest held b \<longleftrightarrow> buckets_ok digest held b \<and> tidy b"

end
