(* ===== verification/Property_Hooks.thy ===== *)
theory Property_Hooks
  imports Property_Index_Laws Mutation_Event
begin

text \<open>
  The upkeep of the property indexes by the mutations (\<open>graph.rs\<close>, the \<open>on_\<dots>\<close> hooks and the functions they
  call), for nodes with their labels and for relationships with their type. \<open>records\<close> reads the records after
  the change. The lemmas show that an index kept by the hooks gives, for every active property, exactly what
  a scan of the records gives.
\<close>

section \<open>The hooks\<close>

text \<open>With no active index the hooks return at once, which is what they do for an inactive property.\<close>

definition each_active :: "(string \<Rightarrow> property_value \<Rightarrow> property_index_state \<Rightarrow> property_index_state) \<Rightarrow> properties \<Rightarrow>
    property_index_state \<Rightarrow> property_index_state" where
  "each_active f ps = fold (\<lambda>(key, value) st. if key \<in> set (pi_active st) then f key value st else st) ps"

definition index_properties_if_active :: "key_digest \<Rightarrow> entity_values \<Rightarrow> u64 \<Rightarrow> string list \<Rightarrow> properties \<Rightarrow>
    property_index_state \<Rightarrow> property_index_state" where
  "index_properties_if_active digest records i scopes ps =
     each_active (index_insert_with_scopes digest records i scopes) ps"

definition unindex_active_properties :: "key_digest \<Rightarrow> u64 \<Rightarrow> string list \<Rightarrow> properties \<Rightarrow>
    property_index_state \<Rightarrow> property_index_state" where
  "unindex_active_properties digest i scopes ps = each_active (index_remove_with_scopes digest i scopes) ps"

definition index_property_if_active :: "key_digest \<Rightarrow> entity_values \<Rightarrow> u64 \<Rightarrow> string list \<Rightarrow> string \<Rightarrow> property_value \<Rightarrow>
    property_index_state \<Rightarrow> property_index_state" where
  "index_property_if_active digest records i scopes key value st =
     (if key \<in> set (pi_active st) then index_insert_with_scopes digest records i scopes key value st else st)"

definition unindex_property_if_active :: "key_digest \<Rightarrow> u64 \<Rightarrow> string list \<Rightarrow> string \<Rightarrow> property_value \<Rightarrow>
    property_index_state \<Rightarrow> property_index_state" where
  "unindex_property_if_active digest i scopes key value st =
     (if key \<in> set (pi_active st) then index_remove_with_scopes digest i scopes key value st else st)"

definition index_scope_properties_if_active :: "key_digest \<Rightarrow> entity_values \<Rightarrow> u64 \<Rightarrow> string \<Rightarrow> properties \<Rightarrow>
    property_index_state \<Rightarrow> property_index_state" where
  "index_scope_properties_if_active digest records i scope ps = each_active (index_insert_scoped digest records i scope) ps"

definition unindex_scope_properties_if_active :: "key_digest \<Rightarrow> u64 \<Rightarrow> string \<Rightarrow> properties \<Rightarrow>
    property_index_state \<Rightarrow> property_index_state" where
  "unindex_scope_properties_if_active digest i scope ps = each_active (index_remove_scoped digest i scope) ps"

definition index_on_property_set :: "key_digest \<Rightarrow> entity_values \<Rightarrow> u64 \<Rightarrow> string list \<Rightarrow> string \<Rightarrow> property_value option \<Rightarrow>
    property_value \<Rightarrow> property_index_state \<Rightarrow> property_index_state" where
  "index_on_property_set digest records i scopes key old new st =
     (if key \<in> set (pi_active st) then
        index_property_if_active digest records i scopes key new
          (case old of Some v \<Rightarrow> unindex_property_if_active digest i scopes key v st | None \<Rightarrow> st)
      else st)"

definition index_on_property_removed :: "key_digest \<Rightarrow> u64 \<Rightarrow> string list \<Rightarrow> string \<Rightarrow> property_value \<Rightarrow>
    property_index_state \<Rightarrow> property_index_state" where
  "index_on_property_removed digest i scopes key old st =
     (if key \<in> set (pi_active st) then unindex_property_if_active digest i scopes key old st else st)"

text \<open>\<open>labels\<close> are the node's after the change.\<close>

definition index_on_label_added :: "key_digest \<Rightarrow> entity_values \<Rightarrow> u64 \<Rightarrow> string \<Rightarrow> string list \<Rightarrow> properties \<Rightarrow>
    property_index_state \<Rightarrow> property_index_state" where
  "index_on_label_added digest records i label labels ps st =
     (let st = index_scope_properties_if_active digest records i label ps st in
      if length labels = 1 then unindex_scope_properties_if_active digest i UNLABELLED ps st else st)"

definition index_on_label_removed :: "key_digest \<Rightarrow> entity_values \<Rightarrow> u64 \<Rightarrow> string \<Rightarrow> string list \<Rightarrow> properties \<Rightarrow>
    property_index_state \<Rightarrow> property_index_state" where
  "index_on_label_removed digest records i label labels ps st =
     (let st = unindex_scope_properties_if_active digest i label ps st in
      if labels = [] then index_scope_properties_if_active digest records i UNLABELLED ps st else st)"

section \<open>Activation\<close>

definition index_absorb :: "string \<Rightarrow> property_index_state \<Rightarrow> property_index_state \<Rightarrow> property_index_state" where
  "index_absorb key built st = fold (\<lambda>(scope, values) st. case map_of values key of
       None \<Rightarrow> st
     | Some b \<Rightarrow> st\<lparr>pi_scoped := AList.update scope (AList.update key b (scope_values st scope)) (pi_scoped st)\<rparr>)
     (pi_scoped built) st"

text \<open>
  \<open>ensure_\<dots>_property_index\<close>: \<open>items\<close> are the entities that have the property, in the order of their ids. A
  large graph builds the parts on several cores and grafts them to the same maps.
\<close>

definition ensure_property_index :: "key_digest \<Rightarrow> entity_values \<Rightarrow> string \<Rightarrow> (u64 \<times> string list \<times> property_value) list \<Rightarrow>
    property_index_state \<Rightarrow> property_index_state" where
  "ensure_property_index digest records key items st =
     (if key \<in> set (pi_active st) then st
      else index_activate key (index_absorb key (index_insert_bulk digest records key items no_indexes) st))"

section \<open>Buckets of a state\<close>

definition scope_buckets :: "property_index_state \<Rightarrow> string \<Rightarrow> string \<Rightarrow> value_buckets" where
  "scope_buckets st scope key = (case map_of (scope_values st scope) key of Some b \<Rightarrow> b | None \<Rightarrow> no_buckets)"

definition any_buckets :: "property_index_state \<Rightarrow> string \<Rightarrow> value_buckets" where
  "any_buckets st key = (case map_of (pi_any_scope st) key of Some b \<Rightarrow> b | None \<Rightarrow> no_buckets)"

abbreviation insert_here :: "key_digest \<Rightarrow> entity_values \<Rightarrow> u64 \<Rightarrow> string \<Rightarrow> property_index_key \<Rightarrow> value_buckets \<Rightarrow> value_buckets" where
  "insert_here digest records i key p \<equiv> buckets_insert digest i p (\<lambda>j. probe_matches p (records j key))"

lemma scope_values_update [simp]:
  "scope_values (st\<lparr>pi_scoped := AList.update scope values (pi_scoped st)\<rparr>) s = (if s = scope then values else scope_values st s)"
  by (simp add: scope_values_def update_conv')

lemma buckets_remove_unlisted: "\<not> buckets_list digest i p b \<Longrightarrow> buckets_remove digest i p b = b"
  by (auto simp: buckets_list_def buckets_remove_def Let_def split: option.splits)

lemma buckets_empty_no: "buckets_empty b \<longleftrightarrow> b = no_buckets"
  by (cases b) (auto simp: buckets_empty_def no_buckets_def)

lemma insert_value_buckets:
  "map_of (index_insert_value digest records i key p values) = (map_of values)(key \<mapsto>
     insert_here digest records i key p (case map_of values key of Some b \<Rightarrow> b | None \<Rightarrow> no_buckets))"
  by (simp add: index_insert_value_def update_conv')

lemma remove_value_buckets:
  "(case map_of (index_remove_value digest i key p values) k of Some b \<Rightarrow> b | None \<Rightarrow> no_buckets) =
     (if k = key then buckets_remove digest i p (case map_of values k of Some b \<Rightarrow> b | None \<Rightarrow> no_buckets)
      else (case map_of values k of Some b \<Rightarrow> b | None \<Rightarrow> no_buckets))"
proof -
  have "buckets_remove digest i p no_buckets = no_buckets"
    by (rule buckets_remove_unlisted) (simp add: buckets_list_def no_buckets_def split: option.split)
  then show ?thesis
    by (auto simp: index_remove_value_def Let_def update_conv' delete_conv' buckets_empty_no split: option.split)
qed

lemma insert_in_scope_buckets:
  "scope_buckets (insert_in_scope digest records i key p scope st) s k =
     (if s = scope \<and> k = key then insert_here digest records i key p (scope_buckets st s k) else scope_buckets st s k)"
  by (auto simp: scope_buckets_def insert_in_scope_def insert_value_buckets)

lemma remove_from_scope_buckets:
  "scope_buckets (remove_from_scope digest i key p scope st) s k =
     (if s = scope \<and> k = key then buckets_remove digest i p (scope_buckets st s k) else scope_buckets st s k)"
proof (cases "values_list digest i key p (scope_values st scope)")
  case False
  then have "buckets_remove digest i p (scope_buckets st scope key) = scope_buckets st scope key"
    using buckets_remove_unlisted [of digest i p]
    by (auto simp: values_list_def scope_buckets_def buckets_list_def no_buckets_def split: option.splits)
  then show ?thesis using False by (simp add: remove_from_scope_def)
next
  case True
  let ?vs = "index_remove_value digest i key p (scope_values st scope)"
  have "scope_values (remove_from_scope digest i key p scope st) s = (if s = scope then ?vs else scope_values st s)"
    using True by (auto simp: remove_from_scope_def Let_def scope_values_def update_conv' delete_conv')
  then show ?thesis using remove_value_buckets [of digest i key p "scope_values st scope" k]
    by (auto simp: scope_buckets_def)
qed

text \<open>What the hooks leave alone.\<close>

lemma keeps_simps [simp]:
  "pi_active (insert_in_scope digest records i key p scope st) = pi_active st"
  "pi_any_scope_keys (insert_in_scope digest records i key p scope st) = pi_any_scope_keys st"
  "any_buckets (insert_in_scope digest records i key p scope st) k = any_buckets st k"
  "pi_active (remove_from_scope digest i key p scope st) = pi_active st"
  "pi_any_scope_keys (remove_from_scope digest i key p scope st) = pi_any_scope_keys st"
  "any_buckets (remove_from_scope digest i key p scope st) k = any_buckets st k"
  by (simp_all add: insert_in_scope_def remove_from_scope_def any_buckets_def Let_def)

lemma fold_scopes_buckets:
  assumes "\<And>scope st s k. scope_buckets (f scope st) s k = (if s = scope \<and> k = key then g (scope_buckets st s k) else scope_buckets st s k)"
    and "distinct scopes"
  shows "scope_buckets (fold f scopes st) s k =
     (if s \<in> set scopes \<and> k = key then g (scope_buckets st s k) else scope_buckets st s k)"
  using assms(2) by (induction scopes arbitrary: st) (auto simp: assms(1))

lemma fold_keeps [simp]:
  "pi_active (fold (insert_in_scope digest records i key p) scopes st) = pi_active st"
  "pi_any_scope_keys (fold (insert_in_scope digest records i key p) scopes st) = pi_any_scope_keys st"
  "any_buckets (fold (insert_in_scope digest records i key p) scopes st) k = any_buckets st k"
  "pi_active (fold (remove_from_scope digest i key p) scopes st) = pi_active st"
  "pi_any_scope_keys (fold (remove_from_scope digest i key p) scopes st) = pi_any_scope_keys st"
  "any_buckets (fold (remove_from_scope digest i key p) scopes st) k = any_buckets st k"
  by (induction scopes arbitrary: st) simp_all

lemma tables_distinct:
  "distinct (map fst (pi_scoped st)) \<Longrightarrow> distinct (map fst (pi_scoped (insert_in_scope digest records i key p scope st)))"
  "distinct (map fst (pi_scoped st)) \<Longrightarrow> distinct (map fst (pi_scoped (remove_from_scope digest i key p scope st)))"
  by (simp_all add: insert_in_scope_def remove_from_scope_def Let_def distinct_update distinct_delete)

lemma fold_tables_distinct:
  "distinct (map fst (pi_scoped st)) \<Longrightarrow> distinct (map fst (pi_scoped (fold (insert_in_scope digest records i key p) scopes st)))"
  "distinct (map fst (pi_scoped st)) \<Longrightarrow> distinct (map fst (pi_scoped (fold (remove_from_scope digest i key p) scopes st)))"
  by (induction scopes arbitrary: st) (simp_all add: tables_distinct)

lemma with_scopes_distinct:
  "distinct (map fst (pi_scoped st)) \<Longrightarrow> distinct (map fst (pi_scoped (index_insert_with_scopes digest records i scopes key v st)))"
  "distinct (map fst (pi_scoped st)) \<Longrightarrow> distinct (map fst (pi_scoped (index_remove_with_scopes digest i scopes key v st)))"
  by (auto simp: index_insert_with_scopes_def index_remove_with_scopes_def insert_probe_with_scopes_def Let_def
      fold_tables_distinct split: option.split)

lemma or_unlabelled_distinct: "distinct scopes \<Longrightarrow> distinct (or_unlabelled scopes)"
  by (simp add: or_unlabelled_def)

lemma scope_buckets_any [simp]: "scope_buckets (st\<lparr>pi_any_scope := x\<rparr>) s k = scope_buckets st s k"
  by (simp add: scope_buckets_def scope_values_def)

lemma insert_with_scopes_buckets:
  assumes "distinct scopes"
  shows "scope_buckets (index_insert_with_scopes digest records i scopes key value st) s k =
      (case (if s \<in> set (or_unlabelled scopes) \<and> k = key then key_from_value value else None) of
         None \<Rightarrow> scope_buckets st s k | Some p \<Rightarrow> insert_here digest records i key p (scope_buckets st s k))"
    and "any_buckets (index_insert_with_scopes digest records i scopes key value st) k =
      (case (if key \<in> set (pi_any_scope_keys st) \<and> k = key then key_from_value value else None) of
         None \<Rightarrow> any_buckets st k | Some p \<Rightarrow> insert_here digest records i key p (any_buckets st k))"
    and "pi_active (index_insert_with_scopes digest records i scopes key value st) = pi_active st"
    and "pi_any_scope_keys (index_insert_with_scopes digest records i scopes key value st) = pi_any_scope_keys st"
proof -
  note scoped = fold_scopes_buckets [where f = "insert_in_scope digest records i key p" for p,
      OF insert_in_scope_buckets or_unlabelled_distinct [OF assms]]
  show "scope_buckets (index_insert_with_scopes digest records i scopes key value st) s k =
      (case (if s \<in> set (or_unlabelled scopes) \<and> k = key then key_from_value value else None) of
         None \<Rightarrow> scope_buckets st s k | Some p \<Rightarrow> insert_here digest records i key p (scope_buckets st s k))"
    by (auto simp: index_insert_with_scopes_def insert_probe_with_scopes_def Let_def scoped split: option.split)
  show "any_buckets (index_insert_with_scopes digest records i scopes key value st) k =
      (case (if key \<in> set (pi_any_scope_keys st) \<and> k = key then key_from_value value else None) of
         None \<Rightarrow> any_buckets st k | Some p \<Rightarrow> insert_here digest records i key p (any_buckets st k))"
  proof -
    have "any_buckets (st\<lparr>pi_any_scope := index_insert_value digest records i key p (pi_any_scope st)\<rparr>) k =
        (if k = key then insert_here digest records i key p (any_buckets st k) else any_buckets st k)" for p
      by (auto simp: any_buckets_def insert_value_buckets)
    then show ?thesis
      by (auto simp: index_insert_with_scopes_def insert_probe_with_scopes_def Let_def split: option.split)
  qed
  show "pi_active (index_insert_with_scopes digest records i scopes key value st) = pi_active st"
    "pi_any_scope_keys (index_insert_with_scopes digest records i scopes key value st) = pi_any_scope_keys st"
    by (auto simp: index_insert_with_scopes_def insert_probe_with_scopes_def Let_def split: option.split)
qed

lemma remove_with_scopes_buckets:
  assumes "distinct scopes"
  shows "scope_buckets (index_remove_with_scopes digest i scopes key value st) s k =
      (case (if s \<in> set (or_unlabelled scopes) \<and> k = key then key_from_value value else None) of
         None \<Rightarrow> scope_buckets st s k | Some p \<Rightarrow> buckets_remove digest i p (scope_buckets st s k))"
    and "any_buckets (index_remove_with_scopes digest i scopes key value st) k =
      (case (if k = key then key_from_value value else None) of
         None \<Rightarrow> any_buckets st k | Some p \<Rightarrow> buckets_remove digest i p (any_buckets st k))"
    and "pi_active (index_remove_with_scopes digest i scopes key value st) = pi_active st"
    and "pi_any_scope_keys (index_remove_with_scopes digest i scopes key value st) = pi_any_scope_keys st"
proof -
  note scoped = fold_scopes_buckets [where f = "remove_from_scope digest i key p" for p,
      OF remove_from_scope_buckets or_unlabelled_distinct [OF assms]]
  show "scope_buckets (index_remove_with_scopes digest i scopes key value st) s k =
      (case (if s \<in> set (or_unlabelled scopes) \<and> k = key then key_from_value value else None) of
         None \<Rightarrow> scope_buckets st s k | Some p \<Rightarrow> buckets_remove digest i p (scope_buckets st s k))"
    by (auto simp: index_remove_with_scopes_def Let_def scoped split: option.split)
  show "any_buckets (index_remove_with_scopes digest i scopes key value st) k =
      (case (if k = key then key_from_value value else None) of
         None \<Rightarrow> any_buckets st k | Some p \<Rightarrow> buckets_remove digest i p (any_buckets st k))"
  proof (cases "key_from_value value")
    case (Some p)
    have any: "any_buckets (st\<lparr>pi_any_scope := index_remove_value digest i key p (pi_any_scope st)\<rparr>) k =
        (if k = key then buckets_remove digest i p (any_buckets st k) else any_buckets st k)"
      using remove_value_buckets [of digest i key p "pi_any_scope st" k] by (simp add: any_buckets_def)
    have "buckets_remove digest i p (any_buckets st key) = any_buckets st key" if "\<not> values_list digest i key p (pi_any_scope st)"
      using that buckets_remove_unlisted [of digest i p]
      by (auto simp: values_list_def any_buckets_def buckets_list_def no_buckets_def split: option.splits)
    then show ?thesis using any Some
      by (auto simp: index_remove_with_scopes_def Let_def)
  qed (simp add: index_remove_with_scopes_def)
  show "pi_active (index_remove_with_scopes digest i scopes key value st) = pi_active st"
    "pi_any_scope_keys (index_remove_with_scopes digest i scopes key value st) = pi_any_scope_keys st"
    by (auto simp: index_remove_with_scopes_def Let_def split: option.split)
qed

section \<open>A hook on the buckets\<close>

text \<open>
  An operation on one property of an entity touches the buckets of that property under the scopes \<open>S\<close>, and
  the map across the scopes when \<open>A\<close> says so, as \<open>G\<close> does for the value's key.
\<close>

definition touches :: "(string \<Rightarrow> property_value \<Rightarrow> property_index_state \<Rightarrow> property_index_state) \<Rightarrow> string set \<Rightarrow>
    (string list \<Rightarrow> string \<Rightarrow> bool) \<Rightarrow> (string \<Rightarrow> property_index_key \<Rightarrow> value_buckets \<Rightarrow> value_buckets) \<Rightarrow> bool" where
  "touches f S A G \<longleftrightarrow> (\<forall>key value st s k.
     scope_buckets (f key value st) s k = (case (if s \<in> S \<and> k = key then key_from_value value else None) of
        None \<Rightarrow> scope_buckets st s k | Some p \<Rightarrow> G k p (scope_buckets st s k)) \<and>
     any_buckets (f key value st) k = (case (if A (pi_any_scope_keys st) key \<and> k = key then key_from_value value else None) of
        None \<Rightarrow> any_buckets st k | Some p \<Rightarrow> G k p (any_buckets st k)) \<and>
     pi_active (f key value st) = pi_active st \<and> pi_any_scope_keys (f key value st) = pi_any_scope_keys st \<and>
     (distinct (map fst (pi_scoped st)) \<longrightarrow> distinct (map fst (pi_scoped (f key value st)))))"

lemma touches_with_scopes:
  assumes "distinct scopes"
  shows "touches (index_insert_with_scopes digest records i scopes) (set (or_unlabelled scopes)) (\<lambda>any key. key \<in> set any)
      (insert_here digest records i)"
    and "touches (index_remove_with_scopes digest i scopes) (set (or_unlabelled scopes)) (\<lambda>_ _. True)
      (\<lambda>key. buckets_remove digest i)"
  unfolding touches_def
  by (auto simp: insert_with_scopes_buckets [OF assms] remove_with_scopes_buckets [OF assms] with_scopes_distinct
      split: option.split)

lemma touches_scoped:
  "touches (index_insert_scoped digest records i scope) {scope} (\<lambda>_ _. False) (insert_here digest records i)"
  "touches (index_remove_scoped digest i scope) {scope} (\<lambda>_ _. False) (\<lambda>key. buckets_remove digest i)"
  unfolding touches_def
  by (auto simp: index_insert_scoped_def index_remove_scoped_def insert_in_scope_buckets remove_from_scope_buckets
      tables_distinct split: option.split)

definition key_of :: "properties \<Rightarrow> string \<Rightarrow> property_index_key option" where
  "key_of ps key = Option.bind (map_of ps key) key_from_value"

lemma each_active_buckets:
  assumes touches: "touches f S A G" and "distinct (map fst ps)"
  shows "scope_buckets (each_active f ps st) s k =
      (case (if s \<in> S \<and> k \<in> set (pi_active st) then key_of ps k else None) of
         None \<Rightarrow> scope_buckets st s k | Some p \<Rightarrow> G k p (scope_buckets st s k))"
    and "any_buckets (each_active f ps st) k =
      (case (if A (pi_any_scope_keys st) k \<and> k \<in> set (pi_active st) then key_of ps k else None) of
         None \<Rightarrow> any_buckets st k | Some p \<Rightarrow> G k p (any_buckets st k))"
    and "pi_active (each_active f ps st) = pi_active st"
    and "pi_any_scope_keys (each_active f ps st) = pi_any_scope_keys st"
    and "distinct (map fst (pi_scoped st)) \<Longrightarrow> distinct (map fst (pi_scoped (each_active f ps st)))"
proof -
  have "distinct (map fst (pi_scoped st)) \<longrightarrow> distinct (map fst (pi_scoped (each_active f ps st)))"
  proof (induction ps arbitrary: st)
    case (Cons kv ps)
    have "distinct (map fst (pi_scoped st)) \<longrightarrow> distinct (map fst (pi_scoped (f (fst kv) (snd kv) st)))"
      using touches unfolding touches_def by blast
    then show ?case using Cons.IH [of st] Cons.IH [of "f (fst kv) (snd kv) st"]
      by (cases kv) (auto simp: each_active_def)
  qed (simp add: each_active_def)
  then show "distinct (map fst (pi_scoped st)) \<Longrightarrow> distinct (map fst (pi_scoped (each_active f ps st)))" by blast
  have "scope_buckets (each_active f ps st) s k =
      (case (if s \<in> S \<and> k \<in> set (pi_active st) then key_of ps k else None) of
         None \<Rightarrow> scope_buckets st s k | Some p \<Rightarrow> G k p (scope_buckets st s k)) \<and>
     any_buckets (each_active f ps st) k =
      (case (if A (pi_any_scope_keys st) k \<and> k \<in> set (pi_active st) then key_of ps k else None) of
         None \<Rightarrow> any_buckets st k | Some p \<Rightarrow> G k p (any_buckets st k)) \<and>
     pi_active (each_active f ps st) = pi_active st \<and> pi_any_scope_keys (each_active f ps st) = pi_any_scope_keys st"
    using assms(2)
  proof (induction ps arbitrary: st)
    case Nil
    then show ?case by (simp add: each_active_def key_of_def)
  next
    case (Cons kv ps)
    obtain key v where kv: "kv = (key, v)" by fastforce
    let ?st = "if key \<in> set (pi_active st) then f key v st else st"
    have step: "each_active f (kv # ps) st = each_active f ps ?st" by (simp add: each_active_def kv)
    have f: "scope_buckets (f key v st) s k = (case (if s \<in> S \<and> k = key then key_from_value v else None) of
        None \<Rightarrow> scope_buckets st s k | Some p \<Rightarrow> G k p (scope_buckets st s k))"
      "any_buckets (f key v st) k = (case (if A (pi_any_scope_keys st) key \<and> k = key then key_from_value v else None) of
        None \<Rightarrow> any_buckets st k | Some p \<Rightarrow> G k p (any_buckets st k))"
      "pi_active ?st = pi_active st" "pi_any_scope_keys ?st = pi_any_scope_keys st" for s k
      using touches unfolding touches_def by auto
    have fresh: "map_of ps key = None" using Cons.prems kv by (simp add: map_of_eq_None_iff)
    have IH: "scope_buckets (each_active f ps ?st) s k =
        (case (if s \<in> S \<and> k \<in> set (pi_active st) then key_of ps k else None) of
           None \<Rightarrow> scope_buckets ?st s k | Some p \<Rightarrow> G k p (scope_buckets ?st s k))"
      "any_buckets (each_active f ps ?st) k =
        (case (if A (pi_any_scope_keys st) k \<and> k \<in> set (pi_active st) then key_of ps k else None) of
           None \<Rightarrow> any_buckets ?st k | Some p \<Rightarrow> G k p (any_buckets ?st k))"
      "pi_active (each_active f ps ?st) = pi_active st" "pi_any_scope_keys (each_active f ps ?st) = pi_any_scope_keys st"
      using Cons.IH [of ?st] Cons.prems kv f(3,4) by auto
    show ?case unfolding step IH
      by (cases "k = key") (auto simp: f(1,2) key_of_def kv fresh split: option.split)
  qed
  then show "scope_buckets (each_active f ps st) s k =
      (case (if s \<in> S \<and> k \<in> set (pi_active st) then key_of ps k else None) of
         None \<Rightarrow> scope_buckets st s k | Some p \<Rightarrow> G k p (scope_buckets st s k))"
    "any_buckets (each_active f ps st) k =
      (case (if A (pi_any_scope_keys st) k \<and> k \<in> set (pi_active st) then key_of ps k else None) of
         None \<Rightarrow> any_buckets st k | Some p \<Rightarrow> G k p (any_buckets st k))"
    "pi_active (each_active f ps st) = pi_active st" "pi_any_scope_keys (each_active f ps st) = pi_any_scope_keys st"
    by auto
qed

section \<open>An index that mirrors the records\<close>

type_synonym entities = "u64 \<Rightarrow> (string list \<times> properties) option"

definition held_in :: "entities \<Rightarrow> string \<Rightarrow> string \<Rightarrow> u64 \<Rightarrow> property_index_key option" where
  "held_in W s key i = (case W i of None \<Rightarrow> None
     | Some (scopes, ps) \<Rightarrow> if s \<in> set (or_unlabelled scopes) then key_of ps key else None)"

definition held_any :: "entities \<Rightarrow> string \<Rightarrow> u64 \<Rightarrow> property_index_key option" where
  "held_any W key i = (case W i of None \<Rightarrow> None | Some (_, ps) \<Rightarrow> key_of ps key)"

definition entity_value :: "entities \<Rightarrow> entity_values" where
  "entity_value W i key = (case W i of None \<Rightarrow> None | Some (_, ps) \<Rightarrow> map_of ps key)"

definition mirrors :: "key_digest \<Rightarrow> entities \<Rightarrow> property_index_state \<Rightarrow> bool" where
  "mirrors digest W st \<longleftrightarrow> distinct (map fst (pi_scoped st)) \<and> set (pi_any_scope_keys st) \<subseteq> set (pi_active st) \<and>
     (\<forall>s key. buckets_hold digest (if key \<in> set (pi_active st) then held_in W s key else (\<lambda>_. None)) (scope_buckets st s key)) \<and>
     (\<forall>key. buckets_hold digest (if key \<in> set (pi_any_scope_keys st) then held_any W key else (\<lambda>_. None)) (any_buckets st key))"

definition entities_ok :: "entities \<Rightarrow> bool" where
  "entities_ok W \<longleftrightarrow> (\<forall>i scopes ps. W i = Some (scopes, ps) \<longrightarrow> distinct scopes \<and> UNLABELLED \<notin> set scopes \<and> distinct (map fst ps))"

lemma probe_matches_held:
  "probe_matches p (entity_value W j key) \<longleftrightarrow> held_any W key j = Some p"
  "held_in W s key j \<noteq> None \<Longrightarrow> held_in W s key j = held_any W key j"
  by (auto simp: probe_matches_def entity_value_def held_any_def held_in_def key_of_def split: option.splits if_splits)

text \<open>One bucket, as an entity gains or loses the value; \<open>records\<close> must be right for the others.\<close>

lemma bucket_gains:
  assumes "buckets_hold digest held b" and "held i = None"
    and "\<And>j p. j \<noteq> i \<Longrightarrow> held j \<noteq> None \<Longrightarrow> probe_matches p (records j key) \<longleftrightarrow> held j = Some p"
  shows "buckets_hold digest (held(i := v)) (case v of None \<Rightarrow> b | Some p \<Rightarrow> insert_here digest records i key p b)"
proof (cases v)
  case None
  then have "held(i := v) = held" using assms(2) by auto
  then show ?thesis using assms(1) None by simp
next
  case (Some p)
  then show ?thesis using buckets_insert_ok [of digest held b i p] tidy_insert assms by (simp add: buckets_hold_def)
qed

lemma bucket_loses:
  assumes "buckets_hold digest held b" and "held i = v"
  shows "buckets_hold digest (held(i := None)) (case v of None \<Rightarrow> b | Some p \<Rightarrow> buckets_remove digest i p b)"
proof (cases v)
  case None
  then have "held(i := None) = held" using assms(2) by auto
  then show ?thesis using assms(1) None by simp
next
  case (Some p)
  then show ?thesis using buckets_remove_ok [of digest held b i p] tidy_remove assms by (simp add: buckets_hold_def)
qed

definition bucket_step :: "key_digest \<Rightarrow> entity_values \<Rightarrow> u64 \<Rightarrow> string \<Rightarrow> property_index_key option \<Rightarrow> property_index_key option \<Rightarrow>
    value_buckets \<Rightarrow> value_buckets \<Rightarrow> bool" where
  "bucket_step digest records i key old new b b' \<longleftrightarrow>
     old = None \<and> b' = (case new of None \<Rightarrow> b | Some p \<Rightarrow> insert_here digest records i key p b) \<or>
     new = None \<and> b' = (case old of None \<Rightarrow> b | Some p \<Rightarrow> buckets_remove digest i p b) \<or>
     new = old \<and> b' = b"

lemma bucket_step_ok:
  assumes "buckets_hold digest held b" and "bucket_step digest records i key (held i) v b b'"
    and "\<And>j p. j \<noteq> i \<Longrightarrow> held j \<noteq> None \<Longrightarrow> probe_matches p (records j key) \<longleftrightarrow> held j = Some p"
  shows "buckets_hold digest (held(i := v)) b'"
  using assms(2) bucket_gains [of digest held b i records key v, OF assms(1) _ assms(3)] bucket_loses [OF assms(1) refl, of i] assms(1)
  unfolding bucket_step_def by (elim disjE conjE) (auto simp: fun_upd_idem)

lemma held_in_elsewhere: "W' j = W j \<Longrightarrow> held_in W' s key j = held_in W s key j"
  by (simp add: held_in_def)

lemma mirrors_step:
  assumes M: "mirrors digest W st" and W': "\<And>j. j \<noteq> i \<Longrightarrow> W' j = W j"
    and records: "\<And>j key. j \<noteq> i \<Longrightarrow> records j key = entity_value W j key"
    and keeps: "pi_active st' = pi_active st" "pi_any_scope_keys st' = pi_any_scope_keys st"
    and scoped: "\<And>s key. key \<in> set (pi_active st) \<Longrightarrow> bucket_step digest records i key (held_in W s key i) (held_in W' s key i)
      (scope_buckets st s key) (scope_buckets st' s key)"
    and scoped_off: "\<And>s key. key \<notin> set (pi_active st) \<Longrightarrow> scope_buckets st' s key = scope_buckets st s key"
    and any: "\<And>key. key \<in> set (pi_any_scope_keys st) \<Longrightarrow> bucket_step digest records i key (held_any W key i) (held_any W' key i)
      (any_buckets st key) (any_buckets st' key)"
    and tables: "distinct (map fst (pi_scoped st'))"
    and any_off: "\<And>key. key \<notin> set (pi_any_scope_keys st) \<Longrightarrow> any_buckets st' key = any_buckets st key"
  shows "mirrors digest W' st'"
  unfolding mirrors_def
proof (intro conjI allI)
  show "distinct (map fst (pi_scoped st'))" by (rule tables)
  show "set (pi_any_scope_keys st') \<subseteq> set (pi_active st')" using M keeps by (simp add: mirrors_def)
  fix s key
  have held: "held_in W' s key = (held_in W s key)(i := held_in W' s key i)" "held_any W' key = (held_any W key)(i := held_any W' key i)"
    using W' by (auto simp: fun_eq_iff held_in_def held_any_def)
  have match: "probe_matches p (records j key) \<longleftrightarrow> held_in W s key j = Some p" if "j \<noteq> i" "held_in W s key j \<noteq> None" for j p
    using records [OF that(1)] probe_matches_held(1) [of p W j key] that(2) probe_matches_held(2) [of W s key j] by simp
  have match_any: "probe_matches p (records j key) \<longleftrightarrow> held_any W key j = Some p" if "j \<noteq> i" for j p
    using records [OF that] probe_matches_held(1) [of p W j key] by simp
  show "buckets_hold digest (if key \<in> set (pi_active st') then held_in W' s key else (\<lambda>_. None)) (scope_buckets st' s key)"
  proof (cases "key \<in> set (pi_active st)")
    case True
    then have "buckets_hold digest (held_in W s key) (scope_buckets st s key)" using M unfolding mirrors_def by presburger
    from bucket_step_ok [OF this scoped [OF True] match] held(1) True keeps show ?thesis by simp
  next
    case False
    then have "buckets_hold digest (\<lambda>_. None) (scope_buckets st s key)" using M unfolding mirrors_def by presburger
    then show ?thesis using False keeps scoped_off by simp
  qed
next
  fix key
  have held: "held_any W' key = (held_any W key)(i := held_any W' key i)"
    using W' by (auto simp: fun_eq_iff held_any_def)
  have match: "probe_matches p (records j key) \<longleftrightarrow> held_any W key j = Some p" if "j \<noteq> i" for j p
    using records [OF that] probe_matches_held(1) [of p W j key] by simp
  show "buckets_hold digest (if key \<in> set (pi_any_scope_keys st') then held_any W' key else (\<lambda>_. None)) (any_buckets st' key)"
  proof (cases "key \<in> set (pi_any_scope_keys st)")
    case True
    then have "buckets_hold digest (held_any W key) (any_buckets st key)" using M unfolding mirrors_def by presburger
    from bucket_step_ok [OF this any [OF True] match] held True keeps show ?thesis by simp
  next
    case False
    then have "buckets_hold digest (\<lambda>_. None) (any_buckets st key)" using M unfolding mirrors_def by presburger
    then show ?thesis using False keeps any_off by simp
  qed
qed

section \<open>Each hook\<close>

lemma mirrors_created:
  assumes M: "mirrors digest W st" and new: "W i = None" and ok: "distinct scopes" "distinct (map fst ps)"
    and records: "\<And>j key. j \<noteq> i \<Longrightarrow> records j key = entity_value W j key"
  shows "mirrors digest (W(i \<mapsto> (scopes, ps))) (index_properties_if_active digest records i scopes ps st)"
proof -
  note b = each_active_buckets(1-4) [OF touches_with_scopes(1) [OF ok(1)] ok(2), of digest records i]
    each_active_buckets(5) [OF touches_with_scopes(1) [OF ok(1)] ok(2)]
  have sub: "set (pi_any_scope_keys st) \<subseteq> set (pi_active st)" "distinct (map fst (pi_scoped st))" using M by (simp_all add: mirrors_def)
  show ?thesis unfolding index_properties_if_active_def
    by (rule mirrors_step [OF M _ records]) (use new sub in \<open>auto simp: b bucket_step_def held_in_def held_any_def\<close>)
qed

lemma mirrors_deleted:
  assumes M: "mirrors digest W st" and old: "W i = Some (scopes, ps)" and ok: "distinct scopes" "distinct (map fst ps)"
  shows "mirrors digest (W(i := None)) (unindex_active_properties digest i scopes ps st)"
proof -
  note b = each_active_buckets(1-4) [OF touches_with_scopes(2) [OF ok(1)] ok(2), of digest i]
    each_active_buckets(5) [OF touches_with_scopes(2) [OF ok(1)] ok(2)]
  have sub: "set (pi_any_scope_keys st) \<subseteq> set (pi_active st)" "distinct (map fst (pi_scoped st))" using M by (simp_all add: mirrors_def)
  have none: "any_buckets st key = no_buckets" if "key \<notin> set (pi_any_scope_keys st)" for key
    using M that buckets_empty_ok [of digest "\<lambda>_. None" "any_buckets st key"] unfolding mirrors_def buckets_empty_no buckets_hold_def by presburger
  have idle: "buckets_remove digest i p no_buckets = no_buckets" for p
    by (rule buckets_remove_unlisted) (simp add: buckets_list_def no_buckets_def split: option.split)
  show ?thesis unfolding unindex_active_properties_def
    by (rule mirrors_step [OF M, where records = "entity_value W" and i = i])
      (use old sub none idle in \<open>auto simp: b bucket_step_def held_in_def held_any_def split: option.split\<close>)
qed

lemma no_any_buckets:
  assumes "mirrors digest W st" and "key \<notin> set (pi_any_scope_keys st)"
  shows "any_buckets st key = no_buckets"
  using assms buckets_empty_ok [of digest "\<lambda>_. None" "any_buckets st key"] unfolding mirrors_def buckets_empty_no buckets_hold_def by presburger

lemma remove_no_buckets [simp]: "buckets_remove digest i p no_buckets = no_buckets"
  by (rule buckets_remove_unlisted) (simp add: buckets_list_def no_buckets_def split: option.split)

lemma mirrors_property_gone:
  assumes M: "mirrors digest W st" and old: "W i = Some (scopes, ps)" and ok: "distinct scopes"
    and v: "map_of ps key = Some v" and ps': "map_of ps' = (map_of ps)(key := None)"
  shows "mirrors digest (W(i \<mapsto> (scopes, ps'))) (unindex_property_if_active digest i scopes key v st)"
proof -
  note b = remove_with_scopes_buckets [OF ok, of digest i key v]
  have sub: "set (pi_any_scope_keys st) \<subseteq> set (pi_active st)" "distinct (map fst (pi_scoped st))" using M by (simp_all add: mirrors_def)
  have k: "key_of ps' k = (if k = key then None else key_of ps k)" "key_of ps key = key_from_value v" for k
    by (simp_all add: key_of_def ps' v)
  show ?thesis
    by (rule mirrors_step [OF M, where records = "entity_value W" and i = i])
      (use old sub no_any_buckets [OF M] in \<open>auto simp: unindex_property_if_active_def b with_scopes_distinct bucket_step_def held_in_def held_any_def k
        split: option.split\<close>)
qed

lemma mirrors_property_added:
  assumes M: "mirrors digest W st" and old: "W i = Some (scopes, ps)" and ok: "distinct scopes"
    and none: "map_of ps key = None" and ps': "map_of ps' = (map_of ps)(key \<mapsto> v)"
    and records: "\<And>j key. j \<noteq> i \<Longrightarrow> records j key = entity_value W j key"
  shows "mirrors digest (W(i \<mapsto> (scopes, ps'))) (index_property_if_active digest records i scopes key v st)"
proof -
  note b = insert_with_scopes_buckets [OF ok, of digest records i key v]
  have sub: "set (pi_any_scope_keys st) \<subseteq> set (pi_active st)" "distinct (map fst (pi_scoped st))" using M by (simp_all add: mirrors_def)
  have k: "key_of ps' k = (if k = key then key_from_value v else key_of ps k)" "key_of ps key = None" for k
    by (simp_all add: key_of_def ps' none)
  show ?thesis
    by (rule mirrors_step [OF M _ records])
      (use old sub in \<open>auto simp: index_property_if_active_def b with_scopes_distinct bucket_step_def held_in_def held_any_def k split: option.split\<close>)
qed

lemma mirrors_property_set:
  assumes M: "mirrors digest W st" and old: "W i = Some (scopes, ps)" and ok: "distinct scopes"
    and ps': "map_of ps' = (map_of ps)(key \<mapsto> v)" and records: "\<And>j key. j \<noteq> i \<Longrightarrow> records j key = entity_value W j key"
  shows "mirrors digest (W(i \<mapsto> (scopes, ps'))) (index_on_property_set digest records i scopes key (map_of ps key) v st)"
proof (cases "key \<in> set (pi_active st)")
  case False
  then have "mirrors digest (W(i \<mapsto> (scopes, ps'))) st"
    using M by (intro mirrors_step [OF M _ records])
      (auto simp: bucket_step_def held_in_def held_any_def key_of_def old ps' mirrors_def subset_iff)
  then show ?thesis using False by (simp add: index_on_property_set_def)
next
  case True
  show ?thesis
  proof (cases "map_of ps key")
    case None
    then show ?thesis using mirrors_property_added [OF M old ok None ps' records] True
      by (simp add: index_on_property_set_def)
  next
    case (Some u)
    let ?rest = "filter (\<lambda>kv. fst kv \<noteq> key) ps" and ?st = "unindex_property_if_active digest i scopes key u st"
    have rest: "map_of ?rest = (map_of ps)(key := None)" by (induction ps) auto
    have "mirrors digest (W(i \<mapsto> (scopes, ?rest))) ?st" by (rule mirrors_property_gone [OF M old ok Some rest])
    then have "mirrors digest ((W(i \<mapsto> (scopes, ?rest)))(i \<mapsto> (scopes, ps')))
        (index_property_if_active digest records i scopes key v ?st)"
      by (rule mirrors_property_added [where ps = ?rest]) (use ok rest ps' records in \<open>auto simp: entity_value_def\<close>)
    then show ?thesis using True Some by (simp add: index_on_property_set_def)
  qed
qed

lemma mirrors_property_removed:
  assumes M: "mirrors digest W st" and old: "W i = Some (scopes, ps)" and ok: "distinct scopes"
    and v: "map_of ps key = Some v" and ps': "map_of ps' = (map_of ps)(key := None)"
  shows "mirrors digest (W(i \<mapsto> (scopes, ps'))) (index_on_property_removed digest i scopes key v st)"
  using mirrors_property_gone [OF assms]
  by (cases "key \<in> set (pi_active st)") (simp_all add: index_on_property_removed_def unindex_property_if_active_def)

lemma mirrors_label_added:
  assumes M: "mirrors digest W st" and old: "W i = Some (labels, ps)" and ok: "distinct (map fst ps)"
    and label: "label \<notin> set labels" "label \<noteq> UNLABELLED" "UNLABELLED \<notin> set labels"
    and records: "\<And>j key. j \<noteq> i \<Longrightarrow> records j key = entity_value W j key"
  shows "mirrors digest (W(i \<mapsto> (labels @ [label], ps))) (index_on_label_added digest records i label (labels @ [label]) ps st)"
proof -
  note ins = each_active_buckets(1-4) [OF touches_scoped(1) ok, of digest records i label]
    each_active_buckets(5) [OF touches_scoped(1) ok]
  note rem = each_active_buckets(1-4) [OF touches_scoped(2) ok, of digest i UNLABELLED]
    each_active_buckets(5) [OF touches_scoped(2) ok]
  have sub: "set (pi_any_scope_keys st) \<subseteq> set (pi_active st)" "distinct (map fst (pi_scoped st))" using M by (simp_all add: mirrors_def)
  show ?thesis unfolding index_on_label_added_def index_scope_properties_if_active_def unindex_scope_properties_if_active_def Let_def
    by (rule mirrors_step [OF M _ records])
      (use old label sub in \<open>auto simp: ins rem bucket_step_def held_in_def held_any_def or_unlabelled_def split: option.split\<close>)
qed

lemma mirrors_label_removed:
  assumes M: "mirrors digest W st" and old: "W i = Some (labels, ps)" and ok: "distinct (map fst ps)"
    and label: "label \<in> set labels" "UNLABELLED \<notin> set labels" and left: "set labels' = set labels - {label}"
    and records: "\<And>j key. j \<noteq> i \<Longrightarrow> records j key = entity_value W j key"
  shows "mirrors digest (W(i \<mapsto> (labels', ps))) (index_on_label_removed digest records i label labels' ps st)"
proof -
  note ins = each_active_buckets(1-4) [OF touches_scoped(1) ok, of digest records i UNLABELLED]
    each_active_buckets(5) [OF touches_scoped(1) ok]
  note rem = each_active_buckets(1-4) [OF touches_scoped(2) ok, of digest i label]
    each_active_buckets(5) [OF touches_scoped(2) ok]
  have ne: "labels \<noteq> []" "label \<noteq> UNLABELLED" using label by auto
  have sub: "set (pi_any_scope_keys st) \<subseteq> set (pi_active st)" "distinct (map fst (pi_scoped st))" using M by (simp_all add: mirrors_def)
  have mem: "s \<in> set labels' \<longleftrightarrow> s \<in> set labels \<and> s \<noteq> label" for s using left by simp
  show ?thesis
  proof (cases "labels' = []")
    case True
    then have "set labels - {label} = {}" using left by simp
    then have "set labels = {label}" using label(1) by blast
    then have only: "set (or_unlabelled labels) = {label}" "set (or_unlabelled labels') = {UNLABELLED}"
      using True ne by (auto simp: or_unlabelled_def)
    let ?st = "index_on_label_removed digest records i label labels' ps st"
    have st: "?st = each_active (index_insert_scoped digest records i UNLABELLED) ps (each_active (index_remove_scoped digest i label) ps st)"
      by (simp add: True index_on_label_removed_def index_scope_properties_if_active_def unindex_scope_properties_if_active_def)
    show ?thesis
    proof (rule mirrors_step [OF M _ records])
      fix s key assume "key \<in> set (pi_active st)"
      then show "bucket_step digest records i key (held_in W s key i) (held_in (W(i \<mapsto> (labels', ps))) s key i)
          (scope_buckets st s key) (scope_buckets ?st s key)"
        unfolding st using old ne(2) by (auto simp: ins rem bucket_step_def held_in_def only split: option.split)
    next
      fix key
      show "bucket_step digest records i key (held_any W key i) (held_any (W(i \<mapsto> (labels', ps))) key i)
          (any_buckets st key) (any_buckets ?st key)"
        unfolding st using old by (auto simp: ins rem bucket_step_def held_any_def split: option.split)
    qed (use sub in \<open>auto simp: st ins rem\<close>)
  next
    case False
    then have keep: "set (or_unlabelled labels') = set labels'" "set (or_unlabelled labels) = set labels"
      using ne by (simp_all add: or_unlabelled_def)
    show ?thesis unfolding index_on_label_removed_def unindex_scope_properties_if_active_def Let_def
      by (rule mirrors_step [OF M _ records])
        (use old label ne sub False in \<open>auto simp: rem bucket_step_def held_in_def held_any_def keep mem split: option.split\<close>)
  qed
qed

section \<open>Activation and deactivation\<close>

definition within :: "u64 set \<Rightarrow> entities \<Rightarrow> entities" where
  "within D W i = (if i \<in> D then W i else None)"

lemma held_within: "held_in (within D W) s key i = (if i \<in> D then held_in W s key i else None)"
  by (simp add: held_in_def within_def)

text \<open>The entities that have the property, each once.\<close>

definition items_of :: "entities \<Rightarrow> string \<Rightarrow> (u64 \<times> string list \<times> property_value) list \<Rightarrow> bool" where
  "items_of W key items \<longleftrightarrow> distinct (map fst items) \<and>
     (\<forall>i scopes v. (i, scopes, v) \<in> set items \<longleftrightarrow> (\<exists>ps. W i = Some (scopes, ps) \<and> map_of ps key = Some v))"

lemma no_indexes_simps [simp]:
  "scope_buckets no_indexes s k = no_buckets" "pi_any_scope_keys no_indexes = []" "pi_scoped no_indexes = []"
  by (simp_all add: no_indexes_def scope_buckets_def scope_values_def)

lemma bulk_buckets:
  assumes ok: "entities_ok W" and items: "\<And>i scopes v. (i, scopes, v) \<in> set items \<Longrightarrow> \<exists>ps. W i = Some (scopes, ps) \<and> map_of ps key = Some v"
    and distinct: "distinct (map fst items)" and fresh: "fst ` set items \<inter> D = {}"
    and st: "\<And>s k. buckets_hold digest (if k = key then held_in (within D W) s key else (\<lambda>_. None)) (scope_buckets st s k)"
      "pi_any_scope_keys st = []" "distinct (map fst (pi_scoped st))"
  shows "buckets_hold digest (if k = key then held_in (within (D \<union> fst ` set items) W) s key else (\<lambda>_. None))
      (scope_buckets (index_insert_bulk digest (entity_value W) key items st) s k)"
    and "distinct (map fst (pi_scoped (index_insert_bulk digest (entity_value W) key items st)))"
proof -
  have "(\<forall>s k. buckets_hold digest (if k = key then held_in (within (D \<union> fst ` set items) W) s key else (\<lambda>_. None))
      (scope_buckets (index_insert_bulk digest (entity_value W) key items st) s k)) \<and>
      distinct (map fst (pi_scoped (index_insert_bulk digest (entity_value W) key items st)))"
    using items distinct fresh st
  proof (induction items arbitrary: D st)
    case (Cons item items)
    obtain i scopes v where item: "item = (i, scopes, v)" by (cases item) auto
    obtain ps where ps: "W i = Some (scopes, ps)" "map_of ps key = Some v" using Cons.prems(1) [of i scopes v] item by auto
    have scopes: "distinct scopes" using ok ps(1) by (auto simp: entities_ok_def)
    let ?st = "index_insert_with_scopes digest (entity_value W) i scopes key v st"
    note b = insert_with_scopes_buckets [OF scopes, of digest "entity_value W" i key v]
    have i: "i \<notin> D" using Cons.prems(3) item by auto
    have held_i: "held_in W s key i = (if s \<in> set (or_unlabelled scopes) then key_from_value v else None)" for s
      using ps by (simp add: held_in_def key_of_def)
    have step: "buckets_hold digest (if k = key then held_in (within (insert i D) W) s key else (\<lambda>_. None)) (scope_buckets ?st s k)" for s k
    proof (cases "k = key")
      case True
      let ?held = "held_in (within D W) s key"
      have "held_in (within (insert i D) W) s key = ?held(i := held_in W s key i)" by (auto simp: held_within)
      moreover have "buckets_hold digest (?held(i := held_in W s key i)) (case held_in W s key i of
          None \<Rightarrow> scope_buckets st s key
        | Some p \<Rightarrow> insert_here digest (entity_value W) i key p (scope_buckets st s key))"
      proof (rule bucket_gains)
        show "buckets_hold digest ?held (scope_buckets st s key)" using Cons.prems(4) [of key s] by simp
        show "?held i = None" using i by (simp add: held_within)
        show "\<And>j p. j \<noteq> i \<Longrightarrow> ?held j \<noteq> None \<Longrightarrow> probe_matches p (entity_value W j key) \<longleftrightarrow> ?held j = Some p"
          using probe_matches_held by (auto simp: held_within split: if_splits)
      qed
      ultimately show ?thesis using True by (simp add: b(1) held_i)
    next
      case False
      then show ?thesis using Cons.prems(4) [of k s] by (simp add: b(1))
    qed
    have IH: "(\<forall>s k. buckets_hold digest (if k = key then held_in (within (insert i D \<union> fst ` set items) W) s key else (\<lambda>_. None))
        (scope_buckets (index_insert_bulk digest (entity_value W) key items ?st) s k)) \<and>
        distinct (map fst (pi_scoped (index_insert_bulk digest (entity_value W) key items ?st)))"
    proof (rule Cons.IH)
      show "\<And>j s w. (j, s, w) \<in> set items \<Longrightarrow> \<exists>ps. W j = Some (s, ps) \<and> map_of ps key = Some w" using Cons.prems(1) by simp
      show "distinct (map fst items)" "fst ` set items \<inter> insert i D = {}" using Cons.prems(2,3) item by auto
      show "\<And>s k. buckets_hold digest (if k = key then held_in (within (insert i D) W) s key else (\<lambda>_. None)) (scope_buckets ?st s k)"
        by (rule step)
      show "pi_any_scope_keys ?st = []" using Cons.prems(5) by (simp add: b(4))
      show "distinct (map fst (pi_scoped ?st))" using Cons.prems(6) by (simp add: with_scopes_distinct)
    qed
    have D: "D \<union> fst ` set (item # items) = insert i D \<union> fst ` set items" by (auto simp: item)
    have run: "index_insert_bulk digest (entity_value W) key (item # items) st = index_insert_bulk digest (entity_value W) key items ?st"
      by (simp add: index_insert_bulk_def item)
    show ?case unfolding D run by (rule IH)
  next
    case Nil
    have e: "D \<union> fst ` set [] = D" "index_insert_bulk digest (entity_value W) key [] st = st"
      by (simp_all add: index_insert_bulk_def)
    show ?case unfolding e by (intro conjI allI Nil.prems(4) Nil.prems(6))
  qed
  then show "buckets_hold digest (if k = key then held_in (within (D \<union> fst ` set items) W) s key else (\<lambda>_. None))
      (scope_buckets (index_insert_bulk digest (entity_value W) key items st) s k)"
    "distinct (map fst (pi_scoped (index_insert_bulk digest (entity_value W) key items st)))" by blast+
qed

lemma ensure_buckets:
  assumes "key \<notin> set (pi_active st)"
  shows "pi_active (ensure_property_index digest records key items st) = insort key (pi_active st)"
    and "pi_any_scope_keys (ensure_property_index digest records key items st) = pi_any_scope_keys st"
    and "any_buckets (ensure_property_index digest records key items st) k = any_buckets st k"
    and "distinct (map fst (pi_scoped st)) \<Longrightarrow> distinct (map fst (pi_scoped (ensure_property_index digest records key items st)))"
    and "distinct (map fst (pi_scoped (index_insert_bulk digest records key items no_indexes))) \<Longrightarrow>
      scope_buckets st s key = no_buckets \<Longrightarrow> scope_buckets (ensure_property_index digest records key items st) s k =
      (if k = key then scope_buckets (index_insert_bulk digest records key items no_indexes) s key else scope_buckets st s k)"
proof -
  define filing where "filing = (\<lambda>(scope, values) st. case map_of values key of
       None \<Rightarrow> st
     | Some b \<Rightarrow> st\<lparr>pi_scoped := AList.update scope (AList.update key b (scope_values st scope)) (pi_scoped st)\<rparr>)"
  have step: "pi_active (filing entry st) = pi_active st" "pi_any_scope_keys (filing entry st) = pi_any_scope_keys st"
    "any_buckets (filing entry st) k = any_buckets st k"
    "distinct (map fst (pi_scoped st)) \<Longrightarrow> distinct (map fst (pi_scoped (filing entry st)))" for entry k st
    by (cases entry; simp add: filing_def any_buckets_def distinct_update split: option.split)+
  have keeps: "pi_active (fold filing tables st) = pi_active st" "pi_any_scope_keys (fold filing tables st) = pi_any_scope_keys st"
    "any_buckets (fold filing tables st) k = any_buckets st k"
    "distinct (map fst (pi_scoped st)) \<Longrightarrow> distinct (map fst (pi_scoped (fold filing tables st)))" for tables k st
    by (induction tables arbitrary: st) (simp_all add: step)
  have filed: "scope_buckets (fold filing tables st) s k = (if k = key then
      (case map_of tables s of None \<Rightarrow> scope_buckets st s k
       | Some values \<Rightarrow> (case map_of values key of None \<Rightarrow> scope_buckets st s k | Some b \<Rightarrow> b))
      else scope_buckets st s k)" if "distinct (map fst tables)" for tables k st
    using that
  proof (induction tables arbitrary: st)
    case (Cons entry tables)
    obtain scope vs where entry: "entry = (scope, vs)" by fastforce
    have here: "scope_buckets (filing (scope, vs) st) s k = (case map_of vs key of None \<Rightarrow> scope_buckets st s k
        | Some b \<Rightarrow> if s = scope \<and> k = key then b else scope_buckets st s k)" for s k st
      by (auto simp: filing_def scope_buckets_def update_conv' split: option.split)
    have "map_of tables scope = None" using Cons.prems entry by (simp add: map_of_eq_None_iff)
    then show ?case using Cons.IH [of "filing entry st"] Cons.prems entry
      by (cases "s = scope") (auto simp: here split: option.split)
  qed simp
  have eq: "ensure_property_index digest records key items st =
      index_activate key (fold filing (pi_scoped (index_insert_bulk digest records key items no_indexes)) st)"
    using assms by (simp add: ensure_property_index_def index_absorb_def filing_def)
  show "pi_active (ensure_property_index digest records key items st) = insort key (pi_active st)"
    "pi_any_scope_keys (ensure_property_index digest records key items st) = pi_any_scope_keys st"
    "any_buckets (ensure_property_index digest records key items st) k = any_buckets st k"
    "distinct (map fst (pi_scoped st)) \<Longrightarrow> distinct (map fst (pi_scoped (ensure_property_index digest records key items st)))"
    unfolding eq using assms keeps by (simp_all add: index_activate_def any_buckets_def)
  show "scope_buckets (ensure_property_index digest records key items st) s k =
      (if k = key then scope_buckets (index_insert_bulk digest records key items no_indexes) s key else scope_buckets st s k)"
    if "distinct (map fst (pi_scoped (index_insert_bulk digest records key items no_indexes)))" "scope_buckets st s key = no_buckets"
    unfolding eq using filed [OF that(1), of st k] that(2)
    by (auto simp: index_activate_def scope_buckets_def scope_values_def split: option.splits)
qed

lemma mirrors_ensured:
  assumes M: "mirrors digest W st" and ok: "entities_ok W" and items: "items_of W key items"
  shows "mirrors digest W (ensure_property_index digest (entity_value W) key items st)"
proof (cases "key \<in> set (pi_active st)")
  case True
  then show ?thesis using M by (simp add: ensure_property_index_def)
next
  case False
  let ?st = "ensure_property_index digest (entity_value W) key items st"
  have item: "\<exists>ps. W i = Some (scopes, ps) \<and> map_of ps key = Some v" if "(i, scopes, v) \<in> set items" for i scopes v
    using items that unfolding items_of_def by blast
  have bulk: "buckets_hold digest (if k = key then held_in (within ({} \<union> fst ` set items) W) s key else (\<lambda>_. None))
      (scope_buckets (index_insert_bulk digest (entity_value W) key items no_indexes) s k)"
    "distinct (map fst (pi_scoped (index_insert_bulk digest (entity_value W) key items no_indexes)))" for s k
    using bulk_buckets [OF ok item, of items "{}" digest no_indexes] items
    by (auto simp: items_of_def buckets_hold_def no_buckets_ok held_within)
  have all: "held_in (within ({} \<union> fst ` set items) W) s key = held_in W s key" for s
  proof
    fix i show "held_in (within ({} \<union> fst ` set items) W) s key i = held_in W s key i"
    proof (cases "i \<in> fst ` set items")
      case False
      have "key_of ps key = None" if "W i = Some (scopes, ps)" for scopes ps
      proof (cases "map_of ps key")
        case (Some v)
        then have "(i, scopes, v) \<in> set items" using items that unfolding items_of_def by blast
        then show ?thesis using False by force
      qed (simp add: key_of_def)
      then have "held_in W s key i = None" by (auto simp: held_in_def split: option.split)
      then show ?thesis using False by (simp add: held_within)
    qed (simp add: held_within)
  qed
  have none: "scope_buckets st s key = no_buckets" for s
  proof -
    have "buckets_hold digest (\<lambda>_. None) (scope_buckets st s key)" using M False unfolding mirrors_def by presburger
    then show ?thesis using buckets_empty_ok buckets_empty_no unfolding buckets_hold_def by metis
  qed
  note e = ensure_buckets [OF False, of digest "entity_value W" items]
  show ?thesis unfolding mirrors_def
  proof (intro conjI allI)
    show "distinct (map fst (pi_scoped ?st))" "set (pi_any_scope_keys ?st) \<subseteq> set (pi_active ?st)"
      using M e(1,2,4) by (auto simp: mirrors_def set_insort_key)
    fix s k
    show "buckets_hold digest (if k \<in> set (pi_active ?st) then held_in W s k else (\<lambda>_. None)) (scope_buckets ?st s k)"
    proof (cases "k = key")
      case True
      then show ?thesis using bulk(1) [of key s, unfolded all] by (simp add: e(1) e(5) [OF bulk(2) none] set_insort_key)
    next
      case other: False
      have "buckets_hold digest (if k \<in> set (pi_active st) then held_in W s k else (\<lambda>_. None)) (scope_buckets st s k)"
        using M unfolding mirrors_def by blast
      then show ?thesis using other by (simp add: e(1) e(5) [OF bulk(2) none] set_insort_key)
    qed
  next
    fix k
    have "buckets_hold digest (if k \<in> set (pi_any_scope_keys st) then held_any W k else (\<lambda>_. None)) (any_buckets st k)"
      using M unfolding mirrors_def by blast
    then show "buckets_hold digest (if k \<in> set (pi_any_scope_keys ?st) then held_any W k else (\<lambda>_. None)) (any_buckets ?st k)"
      by (simp add: e(2,3))
  qed
qed

lemma deactivated_scopes:
  assumes "distinct (map fst tables)"
  shows "(case map_of (without_key key tables) s of Some vs \<Rightarrow> map_of vs | None \<Rightarrow> Map.empty) =
      (case map_of tables s of Some vs \<Rightarrow> (map_of vs)(key := None) | None \<Rightarrow> Map.empty)"
    and "distinct (map fst (without_key key tables))" and "fst ` set (without_key key tables) \<subseteq> fst ` set tables"
  using assms
proof (atomize (full), induction tables)
  case (Cons entry tables)
  obtain scope vs where entry: "entry = (scope, vs)" by fastforce
  let ?first = "if map_of vs key = None then [(scope, vs)]
      else let values = AList.delete key vs in if values = [] then [] else [(scope, values)]"
  have left: "without_key key (entry # tables) = ?first @ without_key key tables" by (simp add: without_key_def entry)
  have first: "?first = [] \<and> (map_of vs)(key := None) = Map.empty \<or>
      (\<exists>ws. ?first = [(scope, ws)] \<and> map_of ws = (map_of vs)(key := None))"
  proof (cases "map_of vs key")
    case None
    then show ?thesis by (auto simp: fun_upd_idem)
  next
    case (Some b)
    then show ?thesis using delete_conv' [of key vs] by (cases "AList.delete key vs = []") (simp_all add: Let_def)
  qed
  have fresh: "scope \<notin> fst ` set tables" "distinct (map fst tables)" using Cons.prems by (simp_all add: entry)
  note IH = Cons.IH [OF fresh(2)]
  have none: "map_of tables scope = None" "map_of (without_key key tables) scope = None"
    using IH fresh(1) by (auto simp: map_of_eq_None_iff)
  show ?case unfolding left
    using first
  proof (elim disjE exE conjE)
    assume "?first = []" "(map_of vs)(key := None) = Map.empty"
    then show "(case map_of (?first @ without_key key tables) s of Some vs \<Rightarrow> map_of vs | None \<Rightarrow> Map.empty) =
        (case map_of (entry # tables) s of Some vs \<Rightarrow> (map_of vs)(key := None) | None \<Rightarrow> Map.empty) \<and>
        distinct (map fst (?first @ without_key key tables)) \<and> fst ` set (?first @ without_key key tables) \<subseteq> fst ` set (entry # tables)"
      using IH none by (simp only: append_Nil entry) auto
  next
    fix ws assume ws: "?first = [(scope, ws)]" "map_of ws = (map_of vs)(key := None)"
    show "(case map_of (?first @ without_key key tables) s of Some vs \<Rightarrow> map_of vs | None \<Rightarrow> Map.empty) =
        (case map_of (entry # tables) s of Some vs \<Rightarrow> (map_of vs)(key := None) | None \<Rightarrow> Map.empty) \<and>
        distinct (map fst (?first @ without_key key tables)) \<and> fst ` set (?first @ without_key key tables) \<subseteq> fst ` set (entry # tables)"
      unfolding ws(1) entry using IH fresh(1) ws(2) by auto
  qed
qed (simp add: without_key_def)

lemma scope_buckets_at: "scope_buckets st s k = (case (case map_of (pi_scoped st) s of Some vs \<Rightarrow> map_of vs | None \<Rightarrow> Map.empty) k of
    Some b \<Rightarrow> b | None \<Rightarrow> no_buckets)"
  by (simp add: scope_buckets_def scope_values_def split: option.split)

lemma mirrors_deactivated:
  assumes M: "mirrors digest W st"
  shows "mirrors digest W (index_deactivate key st)"
proof (cases "key \<in> set (pi_active st)")
  case False
  then show ?thesis using M by (simp add: index_deactivate_def)
next
  case True
  let ?st = "index_deactivate key st"
  have tables: "distinct (map fst (pi_scoped st))" using M by (simp add: mirrors_def)
  have sub: "set (pi_any_scope_keys st) \<subseteq> set (pi_active st)" using M by (simp add: mirrors_def)
  note d = deactivated_scopes [OF tables, of key]
  have active: "set (pi_active ?st) = set (pi_active st) - {key}" "set (pi_any_scope_keys ?st) = set (pi_any_scope_keys st) - {key}"
    using True sub by (auto simp: index_deactivate_def Let_def)
  have scoped: "scope_buckets ?st s k = (if k = key then no_buckets else scope_buckets st s k)" for s k
    unfolding scope_buckets_at using True d(1) [of s]
    by (auto simp: index_deactivate_def Let_def split: option.split)
  have any: "any_buckets ?st k = (if k = key then no_buckets else any_buckets st k)" for k
    using True no_any_buckets [OF M, of key]
    by (auto simp: index_deactivate_def Let_def any_buckets_def delete_conv')
  have empty: "buckets_hold digest (\<lambda>_. None) no_buckets" by (simp add: buckets_hold_def no_buckets_ok)
  show ?thesis unfolding mirrors_def
  proof (intro conjI allI)
    show "distinct (map fst (pi_scoped ?st))" using True d(2) by (simp add: index_deactivate_def Let_def)
    show "set (pi_any_scope_keys ?st) \<subseteq> set (pi_active ?st)" using sub active by auto
    fix s k
    show "buckets_hold digest (if k \<in> set (pi_active ?st) then held_in W s k else (\<lambda>_. None)) (scope_buckets ?st s k)"
    proof (cases "k = key")
      case False
      have "buckets_hold digest (if k \<in> set (pi_active st) then held_in W s k else (\<lambda>_. None)) (scope_buckets st s k)"
        using M unfolding mirrors_def by blast
      then show ?thesis using False by (simp add: active scoped)
    qed (simp add: active scoped empty)
  next
    fix k
    show "buckets_hold digest (if k \<in> set (pi_any_scope_keys ?st) then held_any W k else (\<lambda>_. None)) (any_buckets ?st k)"
    proof (cases "k = key")
      case False
      have "buckets_hold digest (if k \<in> set (pi_any_scope_keys st) then held_any W k else (\<lambda>_. None)) (any_buckets st k)"
        using M unfolding mirrors_def by blast
      then show ?thesis using False by (simp add: active any)
    qed (simp add: active any empty)
  qed
qed

text \<open>The map across the scopes is merged from the maps of the scopes, which list every entity at least once.\<close>

definition merge_entry :: "key_digest \<Rightarrow> entity_values \<Rightarrow> string \<Rightarrow> property_index_key option \<times> u64 \<Rightarrow> value_buckets \<Rightarrow> value_buckets" where
  "merge_entry digest records key = (\<lambda>(value, i) b.
     (case (case value of Some v \<Rightarrow> Some v | None \<Rightarrow> Option.bind (records i key) key_from_value) of
        None \<Rightarrow> b
      | Some v \<Rightarrow> buckets_insert digest i v (\<lambda>other. probe_matches v (records other key)) b))"

lemma merged_entries:
  assumes "\<And>u i. (u, i) \<in> set items \<Longrightarrow> held_any W key i \<noteq> None \<and> (\<forall>k. u = Some k \<longrightarrow> held_any W key i = Some k)"
    and "buckets_hold digest (\<lambda>i. if i \<in> D then held_any W key i else None) b"
  shows "buckets_hold digest (\<lambda>i. if i \<in> D \<union> snd ` set items then held_any W key i else None)
      (fold (merge_entry digest (entity_value W) key) items b)"
  using assms
proof (induction items arbitrary: D b)
  case (Cons item items)
  obtain u i where item: "item = (u, i)" by fastforce
  let ?held = "\<lambda>i. if i \<in> D then held_any W key i else None"
  obtain k where k: "held_any W key i = Some k" "\<forall>l. u = Some l \<longrightarrow> l = k" using Cons.prems(1) [of u i] item by auto
  have "Option.bind (entity_value W i key) key_from_value = Some k"
    using k(1) by (auto simp: entity_value_def held_any_def key_of_def split: option.splits)
  then have step: "merge_entry digest (entity_value W) key item b = insert_here digest (entity_value W) i key k b"
    using k(2) by (auto simp: merge_entry_def item split: option.split)
  have "probe_matches k (entity_value W j key) \<longleftrightarrow> ?held j = Some k" if "?held j \<noteq> None" for j
    using that probe_matches_held(1) [of k W j key] by (simp split: if_splits)
  then have "buckets_hold digest (?held(i \<mapsto> k)) (insert_here digest (entity_value W) i key k b)"
    using Cons.prems(2) k(1) buckets_insert_ok [of digest ?held b i k "\<lambda>j. probe_matches k (entity_value W j key)"] tidy_insert
    by (auto simp: buckets_hold_def)
  moreover have "?held(i \<mapsto> k) = (\<lambda>j. if j \<in> insert i D then held_any W key j else None)" using k(1) by auto
  ultimately have "buckets_hold digest (\<lambda>j. if j \<in> insert i D then held_any W key j else None) (merge_entry digest (entity_value W) key item b)"
    by (simp add: step)
  from Cons.IH [OF Cons.prems(1) this]
  have "buckets_hold digest (\<lambda>j. if j \<in> insert i D \<union> snd ` set items then held_any W key j else None)
      (fold (merge_entry digest (entity_value W) key) items (merge_entry digest (entity_value W) key item b))"
    by (meson list.set_intros(2))
  moreover have "insert i D \<union> snd ` set items = D \<union> snd ` set (item # items)" by (auto simp: item)
  ultimately show ?case by (metis fold_simps(2))
qed simp

lemma mirrors_any_scope:
  assumes M: "mirrors digest W st" and active: "key \<in> set (pi_active st)"
  shows "mirrors digest W (index_activate_any_scope digest (entity_value W) key st)"
proof (cases "key \<in> set (pi_any_scope_keys st)")
  case True
  then show ?thesis using M by (simp add: index_activate_any_scope_def)
next
  case False
  let ?st = "index_activate_any_scope digest (entity_value W) key st"
  define items where "items = concat (map (\<lambda>(scope, values). case map_of values key of None \<Rightarrow> [] | Some b \<Rightarrow> buckets_entries b) (pi_scoped st))"
  define merged where "merged = fold (merge_entry digest (entity_value W) key) items no_buckets"
  have tables: "distinct (map fst (pi_scoped st))" using M by (simp add: mirrors_def)
  have hold: "buckets_ok digest (held_in W s key) (scope_buckets st s key)" "tidy (scope_buckets st s key)" for s
    using M active unfolding mirrors_def buckets_hold_def by presburger+
  have entry: "(u, i) \<in> set items \<longleftrightarrow> (\<exists>s. (u, i) \<in> set (buckets_entries (scope_buckets st s key)))" for u i
  proof
    assume "(u, i) \<in> set items"
    then obtain s vs where s': "(s, vs) \<in> set (pi_scoped st)" "(u, i) \<in> set (case map_of vs key of None \<Rightarrow> [] | Some b \<Rightarrow> buckets_entries b)"
      by (auto simp: items_def)
    then obtain b where s: "(s, vs) \<in> set (pi_scoped st)" "map_of vs key = Some b" "(u, i) \<in> set (buckets_entries b)"
      by (cases "map_of vs key") auto
    then have "scope_buckets st s key = b" using tables by (simp add: scope_buckets_def scope_values_def)
    then show "\<exists>s. (u, i) \<in> set (buckets_entries (scope_buckets st s key))" using s(3) by blast
  next
    assume "\<exists>s. (u, i) \<in> set (buckets_entries (scope_buckets st s key))"
    then obtain s where s: "(u, i) \<in> set (buckets_entries (scope_buckets st s key))" by blast
    have "buckets_entries no_buckets = []" by (simp add: buckets_entries_def no_buckets_def)
    then obtain vs b where "map_of (pi_scoped st) s = Some vs" "map_of vs key = Some b" "scope_buckets st s key = b"
      using s by (auto simp: scope_buckets_def scope_values_def split: option.splits)
    then show "(u, i) \<in> set items" using s map_of_SomeD by (force simp: items_def)
  qed
  have listed: "held_any W key i \<noteq> None \<and> (\<forall>k. u = Some k \<longrightarrow> held_any W key i = Some k)" if "(u, i) \<in> set items" for u i
    using that buckets_entries_ids(1) [OF hold] probe_matches_held(2) [of W _ key i] unfolding entry by metis
  have all: "i \<in> snd ` set items" if "held_any W key i \<noteq> None" for i
  proof -
    from that obtain scopes ps where W: "W i = Some (scopes, ps)" "key_of ps key \<noteq> None"
      by (auto simp: held_any_def split: option.splits)
    have "hd (or_unlabelled scopes) \<in> set (or_unlabelled scopes)" by (simp add: or_unlabelled_def)
    then have "held_in W (hd (or_unlabelled scopes)) key i \<noteq> None" using W by (simp add: held_in_def)
    then obtain u where "(u, i) \<in> set items" using buckets_entries_ids(2) [OF hold] entry by blast
    then show ?thesis by force
  qed
  have "buckets_hold digest (\<lambda>i. if i \<in> {} \<union> snd ` set items then held_any W key i else None) merged"
    unfolding merged_def by (rule merged_entries [OF listed]) (simp_all add: buckets_hold_def no_buckets_ok)
  moreover have "(\<lambda>i. if i \<in> {} \<union> snd ` set items then held_any W key i else None) = held_any W key"
    using all by (intro ext) (metis (full_types) Un_iff)
  ultimately have merged_ok: "buckets_hold digest (held_any W key) merged" by simp
  have st: "?st = st\<lparr>pi_any_scope := (if buckets_empty merged then pi_any_scope st else AList.update key merged (pi_any_scope st)),
      pi_any_scope_keys := insort key (pi_any_scope_keys st)\<rparr>"
    using False unfolding index_activate_any_scope_def Let_def items_def [symmetric] merge_entry_def [symmetric] merged_def [symmetric]
    by simp
  have any: "any_buckets ?st k = (if k = key then merged else any_buckets st k)" for k
    using no_any_buckets [OF M False] by (auto simp: st any_buckets_def update_conv' buckets_empty_no)
  have scoped: "scope_buckets ?st s k = scope_buckets st s k" for s k by (simp add: st scope_buckets_def scope_values_def)
  show ?thesis unfolding mirrors_def
  proof (intro conjI allI)
    show "distinct (map fst (pi_scoped ?st))" "set (pi_any_scope_keys ?st) \<subseteq> set (pi_active ?st)"
      using M active by (auto simp: st mirrors_def set_insort_key)
    fix s k
    have "buckets_hold digest (if k \<in> set (pi_active st) then held_in W s k else (\<lambda>_. None)) (scope_buckets st s k)"
      using M unfolding mirrors_def by blast
    then show "buckets_hold digest (if k \<in> set (pi_active ?st) then held_in W s k else (\<lambda>_. None)) (scope_buckets ?st s k)"
      unfolding scoped by (simp add: st)
  next
    fix k
    show "buckets_hold digest (if k \<in> set (pi_any_scope_keys ?st) then held_any W k else (\<lambda>_. None)) (any_buckets ?st k)"
    proof (cases "k = key")
      case True
      then show ?thesis using merged_ok unfolding any by (simp add: st set_insort_key)
    next
      case other: False
      have "buckets_hold digest (if k \<in> set (pi_any_scope_keys st) then held_any W k else (\<lambda>_. None)) (any_buckets st k)"
        using M unfolding mirrors_def by blast
      then show ?thesis using other unfolding any by (simp add: st set_insort_key)
    qed
  qed
qed

section \<open>Lookups\<close>

definition found_ids :: "hits option \<Rightarrow> u64 list" where
  "found_ids found = (case found of None \<Rightarrow> [] | Some hits \<Rightarrow> hits_vec hits)"

lemma lookup_finds:
  assumes "buckets_ok digest held b" and "\<And>i. held i \<noteq> None \<Longrightarrow> probe_matches p (entity_value W i key) \<longleftrightarrow> held i = Some p"
  shows "increasing (found_ids (buckets_get digest p (\<lambda>i. probe_matches p (entity_value W i key)) b)) \<and>
    set (found_ids (buckets_get digest p (\<lambda>i. probe_matches p (entity_value W i key)) b)) = {i. held i = Some p}"
  using buckets_get_holders [OF assms(1), of "\<lambda>i. probe_matches p (entity_value W i key)" p] assms(2)
  by (auto simp: found_ids_def split: option.splits)

lemma get_no_buckets: "buckets_get digest p holds no_buckets = None"
  by (simp add: buckets_get_def no_buckets_def split: option.split)

lemma scoped_lookup:
  assumes M: "mirrors digest W st" and active: "key \<in> set (pi_active st)" and scope: "scope \<noteq> UNLABELLED"
    and p: "key_from_value v = Some p"
  shows "increasing (found_ids (index_scoped_ids_for digest (entity_value W) scope key v st))"
    and "set (found_ids (index_scoped_ids_for digest (entity_value W) scope key v st)) = {i. held_in W scope key i = Some p}"
proof -
  have get: "index_scoped_ids_for digest (entity_value W) scope key v st =
      buckets_get digest p (\<lambda>i. probe_matches p (entity_value W i key)) (scope_buckets st scope key)"
    using scope p get_no_buckets by (simp add: index_scoped_ids_for_def scope_buckets_def split: option.split)
  have "buckets_ok digest (held_in W scope key) (scope_buckets st scope key)"
    using M active unfolding mirrors_def buckets_hold_def by presburger
  from lookup_finds [OF this, of p W key] probe_matches_held
  show "increasing (found_ids (index_scoped_ids_for digest (entity_value W) scope key v st))"
    "set (found_ids (index_scoped_ids_for digest (entity_value W) scope key v st)) = {i. held_in W scope key i = Some p}"
    unfolding get by metis+
qed

lemma any_lookup:
  assumes M: "mirrors digest W st" and active: "key \<in> set (pi_any_scope_keys st)" and p: "key_from_value v = Some p"
  shows "increasing (found_ids (index_ids_for digest (entity_value W) key v st))"
    and "set (found_ids (index_ids_for digest (entity_value W) key v st)) = {i. held_any W key i = Some p}"
proof -
  have get: "index_ids_for digest (entity_value W) key v st =
      buckets_get digest p (\<lambda>i. probe_matches p (entity_value W i key)) (any_buckets st key)"
    using p get_no_buckets by (simp add: index_ids_for_def any_buckets_def split: option.split)
  have "buckets_ok digest (held_any W key) (any_buckets st key)"
    using M active unfolding mirrors_def buckets_hold_def by presburger
  from lookup_finds [OF this, of p W key] probe_matches_held(1)
  show "increasing (found_ids (index_ids_for digest (entity_value W) key v st))"
    "set (found_ids (index_ids_for digest (entity_value W) key v st)) = {i. held_any W key i = Some p}"
    unfolding get by metis+
qed

end
