(* ===== verification/Constraint_Index.thy ===== *)
theory Constraint_Index
  imports Constraint_Keeping Property_Hooks
begin

text \<open>
  The property indexes of a graph and the uniqueness check that reads them: what the indexes of the nodes and
  of the relationships mirror, how they are built from a graph and kept by its mutations, and that a lookup
  leaves out no record with an equal value, which is what the check relies on.
\<close>

section \<open>The entities of a graph\<close>

definition nodes_of :: "graph \<Rightarrow> entities" where
  "nodes_of g i = map_option (\<lambda>n. (nr_labels n, nr_properties n)) (node_at g i)"

definition rels_of :: "graph \<Rightarrow> entities" where
  "rels_of g i = map_option (\<lambda>r. ([rr_type r], rr_properties r)) (rel_at g i)"

definition slot_items :: "('a \<Rightarrow> string list) \<Rightarrow> ('a \<Rightarrow> properties) \<Rightarrow> string \<Rightarrow> 'a option list \<Rightarrow>
    (u64 \<times> string list \<times> property_value) list" where
  "slot_items scopes props key slots = concat (map (\<lambda>idx. case slot_get idx slots of
       None \<Rightarrow> []
     | Some x \<Rightarrow> (case map_of (props x) key of None \<Rightarrow> [] | Some v \<Rightarrow> [(of_nat idx, scopes x, v)])) [0..<length slots])"

definition ensure_node_property_index :: "key_digest \<Rightarrow> string \<Rightarrow> graph \<Rightarrow> property_index_state \<Rightarrow> property_index_state" where
  "ensure_node_property_index digest key g =
     ensure_property_index digest (entity_value (nodes_of g)) key (slot_items nr_labels nr_properties key (gr_nodes g))"

definition ensure_relationship_property_index :: "key_digest \<Rightarrow> string \<Rightarrow> graph \<Rightarrow> property_index_state \<Rightarrow> property_index_state" where
  "ensure_relationship_property_index digest key g = ensure_property_index digest (entity_value (rels_of g)) key
     (slot_items (\<lambda>r. [rr_type r]) rr_properties key (gr_relationships g))"

definition indexed_node_ids :: "key_digest \<Rightarrow> property_index_state \<Rightarrow> index_lookup" where
  "indexed_node_ids digest st g label key value =
     (if key_from_value value = None \<or> key \<notin> set (pi_active st) then None
      else Some (found_ids (index_scoped_ids_for digest (entity_value (nodes_of g)) label key value st)))"

definition indexed_rel_ids :: "key_digest \<Rightarrow> property_index_state \<Rightarrow> index_lookup" where
  "indexed_rel_ids digest st g rel_type key value =
     (if key_from_value value = None \<or> key \<notin> set (pi_active st) then None
      else Some (found_ids (index_scoped_ids_for digest (entity_value (rels_of g)) rel_type key value st)))"

section \<open>Equal values have the same key\<close>

lemma sortable_bits_eq: "f64_eq a b \<Longrightarrow> sortable_f64_bits a = sortable_f64_bits b"
proof -
  assume eq: "f64_eq a b"
  consider "a = b" | "push_bit 1 a = 0" "push_bit 1 b = 0" using eq by (auto simp: f64_eq_def)
  then show ?thesis
  proof cases
    case 2
    then have "f64_eq a 0" "f64_eq b 0" using eq by (simp_all add: f64_eq_def f64_nan_def)
    then show ?thesis by (simp add: sortable_f64_bits_def)
  qed simp
qed

lemma map_eq_all2: "list_all2 (\<lambda>x y. f x = h y) xs ys \<Longrightarrow> map f xs = map h ys"
  by (induction rule: list_all2_induct) auto

lemma value_eq_key: "value_eq fs w v \<Longrightarrow> key_from_value w = key_from_value v"
proof (induction w arbitrary: v)
  case (PvList xs)
  then obtain ys where v: "v = PvList ys" "list_all2 (value_eq fs) xs ys" by (cases v) auto
  have "list_all2 (\<lambda>x y. key_from_value x = key_from_value y) xs ys"
    using v(2) PvList.IH by (auto simp: list_all2_conv_all_nth)
  from map_eq_all2 [OF this] show ?case by (simp add: v(1))
next
  case (PvMap xs)
  then obtain ys where v: "v = PvMap ys" "list_all2 (\<lambda>(j, v) (k, w). j = k \<and> value_eq fs v w) xs ys" by (cases v) auto
  let ?f = "\<lambda>(k, v). map_option (Pair k) (key_from_value v)"
  have "?f (xs ! n) = ?f (ys ! n)" if "n < length xs" for n
  proof -
    have eq: "fst (xs ! n) = fst (ys ! n)" "value_eq fs (snd (xs ! n)) (snd (ys ! n))"
      using v(2) that by (auto simp: list_all2_conv_all_nth split_beta)
    have "snd (xs ! n) \<in> Basic_BNFs.snds (xs ! n)" by (cases "xs ! n") auto
    from PvMap.IH [OF nth_mem [OF that] this eq(2)] eq(1) show ?thesis by (simp add: split_beta)
  qed
  then have "list_all2 (\<lambda>x y. ?f x = ?f y) xs ys" using v(2) by (simp add: list_all2_conv_all_nth)
  from map_eq_all2 [OF this] show ?case by (simp add: v(1))
qed (auto simp: sortable_bits_eq binary_eq_def f64_eq_def split: property_value.splits)

section \<open>The indexes of a sound graph\<close>

lemma entities_of_ok:
  assumes "graph_ok g"
  shows "entities_ok (nodes_of g)" "entities_ok (rels_of g)"
proof -
  have "nodes_ok (node_at g)" "rels_ok (gr_types g) (node_at g) (rel_at g)" using assms by (simp_all add: graph_ok_def)
  then show "entities_ok (nodes_of g)" "entities_ok (rels_of g)"
    unfolding entities_ok_def nodes_of_def rels_of_def nodes_ok_def node_ok_def rels_ok_def
    by (auto simp: labels_ok_def UNLABELLED_def sorted_keys_distinct) metis
qed

lemma slot_items_of:
  assumes "length slots \<le> 2 ^ 64" and W: "\<And>i. W i = map_option (\<lambda>x. (scopes x, props x)) (slot_get (unat i) slots)"
  shows "items_of W key (slot_items scopes props key slots)"
  unfolding items_of_def
proof (intro conjI allI)
  define at where "at = (\<lambda>idx. case slot_get idx slots of None \<Rightarrow> []
     | Some x \<Rightarrow> (case map_of (props x) key of None \<Rightarrow> [] | Some v \<Rightarrow> [(of_nat idx :: u64, scopes x, v)]))"
  have items: "slot_items scopes props key slots = concat (map at [0..<length slots])" by (simp add: slot_items_def at_def)
  have id: "unat (of_nat idx :: u64) = idx" if "idx < length slots" for idx
    using that assms(1) by (simp add: unat_of_nat)
  have ids: "map fst (at idx) = [] \<or> map fst (at idx) = [of_nat idx]" for idx by (simp add: at_def split: option.split)
  have "distinct (concat (map (\<lambda>idx. map fst (at idx)) xs))" if "distinct xs" "set xs \<subseteq> {..<length slots}" for xs
    using that
  proof (induction xs)
    case (Cons idx xs)
    have "(of_nat idx :: u64) \<notin> set (concat (map (\<lambda>idx. map fst (at idx)) xs))"
    proof
      assume "(of_nat idx :: u64) \<in> set (concat (map (\<lambda>idx. map fst (at idx)) xs))"
      then obtain j where j: "j \<in> set xs" "(of_nat idx :: u64) \<in> set (map fst (at j))" by auto
      then have "(of_nat idx :: u64) = of_nat j" using ids [of j] by auto
      then have "idx = j" using id Cons.prems(2) j(1) by (metis insert_subset lessThan_iff list.simps(15) subsetD)
      then show False using Cons.prems(1) j(1) by simp
    qed
    then show ?case using Cons.IH Cons.prems ids [of idx] by (elim disjE) simp_all
  qed simp
  from this [of "[0..<length slots]"] show "distinct (map fst (slot_items scopes props key slots))"
    by (simp add: items map_concat comp_def atLeast0LessThan)
  fix i sc v
  have at: "(i, sc, v) \<in> set (at idx) \<longleftrightarrow> (\<exists>x. slot_get idx slots = Some x \<and> map_of (props x) key = Some v \<and> i = of_nat idx \<and> sc = scopes x)"
    for idx by (cases "slot_get idx slots") (auto simp: at_def split: option.splits)
  have "(i, sc, v) \<in> set (slot_items scopes props key slots) \<longleftrightarrow>
      (\<exists>idx x. idx < length slots \<and> slot_get idx slots = Some x \<and> map_of (props x) key = Some v \<and> i = of_nat idx \<and> sc = scopes x)"
    unfolding items by (auto simp: at)
  also have "\<dots> \<longleftrightarrow> (\<exists>x. slot_get (unat i) slots = Some x \<and> map_of (props x) key = Some v \<and> sc = scopes x)"
  proof
    assume "\<exists>x. slot_get (unat i) slots = Some x \<and> map_of (props x) key = Some v \<and> sc = scopes x"
    then show "\<exists>idx x. idx < length slots \<and> slot_get idx slots = Some x \<and> map_of (props x) key = Some v \<and> i = of_nat idx \<and> sc = scopes x"
      by (intro exI [of _ "unat i"]) (auto simp: slot_get_def split: if_splits)
  qed (use id in auto)
  finally show "(i, sc, v) \<in> set (slot_items scopes props key slots) \<longleftrightarrow> (\<exists>ps. W i = Some (sc, ps) \<and> map_of ps key = Some v)"
    by (auto simp: W)
qed

lemma slots_fit: "graph_ok g \<Longrightarrow> length (gr_nodes g) \<le> 2 ^ 64 \<and> length (gr_relationships g) \<le> 2 ^ 64"
  by (simp add: graph_ok_def slots_ok_def word_le_nat_alt MAX_ENTITY_ID_def)

lemma mirrors_node_index:
  assumes "graph_ok g" and "mirrors digest (nodes_of g) st"
  shows "mirrors digest (nodes_of g) (ensure_node_property_index digest key g st)"
  unfolding ensure_node_property_index_def using slots_fit [OF assms(1)]
  by (intro mirrors_ensured [OF assms(2) entities_of_ok(1) [OF assms(1)]] slot_items_of) (simp_all add: nodes_of_def node_at_def)

lemma mirrors_relationship_index:
  assumes "graph_ok g" and "mirrors digest (rels_of g) st"
  shows "mirrors digest (rels_of g) (ensure_relationship_property_index digest key g st)"
  unfolding ensure_relationship_property_index_def using slots_fit [OF assms(1)]
  by (intro mirrors_ensured [OF assms(2) entities_of_ok(2) [OF assms(1)]] slot_items_of) (simp_all add: rels_of_def rel_at_def)

lemma mirrors_no_indexes: "mirrors digest W no_indexes"
  by (simp add: mirrors_def no_indexes_def scope_buckets_def scope_values_def any_buckets_def buckets_hold_def no_buckets_ok)

text \<open>A lookup leaves out no entity of the scope with an equal value.\<close>

lemma lookup_complete:
  assumes M: "mirrors digest W st" and active: "key \<in> set (pi_active st)" and i: "W i = Some (scopes, ps)" "scope \<in> set scopes"
    "scope \<noteq> UNLABELLED" and w: "map_of ps key = Some w" "value_eq fs w v" and indexed: "key_from_value v \<noteq> None"
  shows "i \<in> set (found_ids (index_scoped_ids_for digest (entity_value W) scope key v st))"
proof -
  obtain p where p: "key_from_value v = Some p" using indexed by blast
  have "held_in W scope key i = Some p"
    using i w p value_eq_key [OF w(2)] by (auto simp: held_in_def key_of_def or_unlabelled_def)
  then show ?thesis by (simp add: scoped_lookup(2) [OF M active i(3) p])
qed

section \<open>The check with the indexes in place\<close>

text \<open>The indexes that are active for these properties; a real process builds them on first use.\<close>

definition node_indexes :: "key_digest \<Rightarrow> string list \<Rightarrow> graph \<Rightarrow> property_index_state" where
  "node_indexes digest keys g = fold (\<lambda>key. ensure_node_property_index digest key g) keys no_indexes"

definition relationship_indexes :: "key_digest \<Rightarrow> string list \<Rightarrow> graph \<Rightarrow> property_index_state" where
  "relationship_indexes digest keys g = fold (\<lambda>key. ensure_relationship_property_index digest key g) keys no_indexes"

definition indexed_env :: "float_std \<Rightarrow> key_digest \<Rightarrow> string list \<Rightarrow> string list \<Rightarrow> check_env" where
  "indexed_env fs digest node_keys rel_keys = \<lparr>env_float = fs,
     env_node_ids = (\<lambda>g. indexed_node_ids digest (node_indexes digest node_keys g) g),
     env_rel_ids = (\<lambda>g. indexed_rel_ids digest (relationship_indexes digest rel_keys g) g)\<rparr>"

lemma mirrors_indexes:
  assumes "graph_ok g"
  shows "mirrors digest (nodes_of g) (node_indexes digest keys g)" "mirrors digest (rels_of g) (relationship_indexes digest keys g)"
proof -
  have "mirrors digest (nodes_of g) (fold (\<lambda>key. ensure_node_property_index digest key g) keys st)"
    if "mirrors digest (nodes_of g) st" for st
    using that by (induction keys arbitrary: st) (simp_all add: mirrors_node_index [OF assms])
  from this [OF mirrors_no_indexes] show "mirrors digest (nodes_of g) (node_indexes digest keys g)" by (simp add: node_indexes_def)
  have "mirrors digest (rels_of g) (fold (\<lambda>key. ensure_relationship_property_index digest key g) keys st)"
    if "mirrors digest (rels_of g) st" for st
    using that by (induction keys arbitrary: st) (simp_all add: mirrors_relationship_index [OF assms])
  from this [OF mirrors_no_indexes] show "mirrors digest (rels_of g) (relationship_indexes digest keys g)"
    by (simp add: relationship_indexes_def)
qed

lemma mirrors_complete:
  assumes g: "graph_ok g" and N: "mirrors digest (nodes_of g) ns" and R: "mirrors digest (rels_of g) rs"
  shows "index_complete \<lparr>env_float = fs, env_node_ids = indexed_node_ids digest ns, env_rel_ids = indexed_rel_ids digest rs\<rparr> g"
  unfolding index_complete_def check_env.simps
proof (intro conjI allI impI)
  fix label key v ids i n w
  assume ids: "indexed_node_ids digest ns g label key v = Some ids"
    and n: "node_at g i = Some n" "label \<in> set (nr_labels n)" and w: "map_of (nr_properties n) key = Some w" "value_eq fs w v"
  have active: "key \<in> set (pi_active ns)" "key_from_value v \<noteq> None" using ids by (simp_all add: indexed_node_ids_def split: if_splits)
  have label: "label \<noteq> UNLABELLED" using g n by (auto simp: graph_ok_def nodes_ok_def node_ok_def labels_ok_def UNLABELLED_def)
  have "nodes_of g i = Some (nr_labels n, nr_properties n)" using n(1) by (simp add: nodes_of_def)
  from lookup_complete [OF N active(1) this n(2) label w active(2)]
  show "i \<in> set ids" using ids active by (simp add: indexed_node_ids_def)
next
  fix ty key v ids i r w
  assume ids: "indexed_rel_ids digest rs g ty key v = Some ids"
    and r: "rel_at g i = Some r" "rr_type r = ty" and w: "map_of (rr_properties r) key = Some w" "value_eq fs w v"
  have active: "key \<in> set (pi_active rs)" "key_from_value v \<noteq> None" using ids by (simp_all add: indexed_rel_ids_def split: if_splits)
  have ty: "ty \<noteq> UNLABELLED" using g r by (auto simp: graph_ok_def rels_ok_def UNLABELLED_def)
  have "rels_of g i = Some ([ty], rr_properties r)" using r by (simp add: rels_of_def)
  from lookup_complete [OF R active(1) this _ ty w active(2)]
  show "i \<in> set ids" using ids active by (simp add: indexed_rel_ids_def)
qed

lemma indexed_env_complete:
  assumes "graph_ok g"
  shows "index_complete (indexed_env fs digest node_keys rel_keys) g"
  using mirrors_complete [OF assms mirrors_indexes [OF assms]]
  by (simp add: indexed_env_def index_complete_def)

text \<open>The checks with the property indexes, and with none (the scan over the label's records).\<close>

interpretation indexed: indexed_checks "indexed_env fs digest node_keys rel_keys" for fs digest node_keys rel_keys
  by unfold_locales (rule indexed_env_complete)

definition unindexed_env :: "float_std \<Rightarrow> check_env" where
  "unindexed_env fs = \<lparr>env_float = fs, env_node_ids = (\<lambda>_ _ _ _. None), env_rel_ids = (\<lambda>_ _ _ _. None)\<rparr>"

interpretation unindexed: indexed_checks "unindexed_env fs" for fs
  by unfold_locales (simp add: index_complete_def unindexed_env_def)

end
