(* ===== verification/Property_History.thy ===== *)
theory Property_History
  imports Constraint_Index
begin

text \<open>
  The property indexes over a graph's whole life: every mutation that goes through, with the hook it calls, and
  the activation and dropping of indexes, keep both indexes in step with the records, so that a lookup gives
  the same ids in the same order as a scan of the slots.
\<close>

section \<open>A graph with its indexes\<close>

record indexed_graph =
  ig_graph :: graph
  ig_nodes :: property_index_state
  ig_rels :: property_index_state

abbreviation node_values :: "graph \<Rightarrow> entity_values" where
  "node_values g \<equiv> entity_value (nodes_of g)"

abbreviation relationship_values :: "graph \<Rightarrow> entity_values" where
  "relationship_values g \<equiv> entity_value (rels_of g)"

inductive index_step :: "key_digest \<Rightarrow> indexed_graph \<Rightarrow> indexed_graph \<Rightarrow> bool" for digest where
  create_node: "try_create_node labels ps (ig_graph s) = (Some n, g) \<Longrightarrow> sorted_keys ps \<Longrightarrow>
    index_step digest s (s\<lparr>ig_graph := g, ig_nodes :=
      index_properties_if_active digest (node_values g) (nr_id n) (nr_labels n) (nr_properties n) (ig_nodes s)\<rparr>)"
| create_relationship: "create_relationship src dst ty ps (ig_graph s) = (Some r, g) \<Longrightarrow> sorted_keys ps \<Longrightarrow>
    index_step digest s (s\<lparr>ig_graph := g, ig_rels :=
      index_properties_if_active digest (relationship_values g) (rr_id r) [rr_type r] (rr_properties r) (ig_rels s)\<rparr>)"
| set_node_property: "node_at (ig_graph s) i = Some n \<Longrightarrow> g = snd (set_node_property i key v (ig_graph s)) \<Longrightarrow>
    index_step digest s (s\<lparr>ig_graph := g, ig_nodes :=
      index_on_property_set digest (node_values g) i (nr_labels n) key (map_of (nr_properties n) key) v (ig_nodes s)\<rparr>)"
| remove_node_property: "node_at (ig_graph s) i = Some n \<Longrightarrow> map_of (nr_properties n) key = Some old \<Longrightarrow>
    g = snd (remove_node_property i key (ig_graph s)) \<Longrightarrow>
    index_step digest s (s\<lparr>ig_graph := g, ig_nodes := index_on_property_removed digest i (nr_labels n) key old (ig_nodes s)\<rparr>)"
| set_relationship_property: "rel_at (ig_graph s) i = Some r \<Longrightarrow> g = snd (set_relationship_property i key v (ig_graph s)) \<Longrightarrow>
    index_step digest s (s\<lparr>ig_graph := g, ig_rels :=
      index_on_property_set digest (relationship_values g) i [rr_type r] key (map_of (rr_properties r) key) v (ig_rels s)\<rparr>)"
| remove_relationship_property: "rel_at (ig_graph s) i = Some r \<Longrightarrow> map_of (rr_properties r) key = Some old \<Longrightarrow>
    g = snd (remove_relationship_property i key (ig_graph s)) \<Longrightarrow>
    index_step digest s (s\<lparr>ig_graph := g, ig_rels := index_on_property_removed digest i [rr_type r] key old (ig_rels s)\<rparr>)"
| add_node_label: "node_at (ig_graph s) i = Some n \<Longrightarrow> label = trim l \<Longrightarrow> label \<noteq> [] \<Longrightarrow> label \<notin> set (nr_labels n) \<Longrightarrow>
    g = snd (add_node_label i l (ig_graph s)) \<Longrightarrow>
    index_step digest s (s\<lparr>ig_graph := g, ig_nodes :=
      index_on_label_added digest (node_values g) i label (nr_labels n @ [label]) (nr_properties n) (ig_nodes s)\<rparr>)"
| remove_node_label: "node_at (ig_graph s) i = Some n \<Longrightarrow> label \<in> set (nr_labels n) \<Longrightarrow>
    g = snd (remove_node_label i label (ig_graph s)) \<Longrightarrow>
    index_step digest s (s\<lparr>ig_graph := g, ig_nodes :=
      index_on_label_removed digest (node_values g) i label (filter (\<lambda>l. l \<noteq> label) (nr_labels n)) (nr_properties n) (ig_nodes s)\<rparr>)"
| delete_node: "node_at (ig_graph s) i = Some n \<Longrightarrow> delete_node i (ig_graph s) = (True, g) \<Longrightarrow>
    index_step digest s (s\<lparr>ig_graph := g, ig_nodes :=
      unindex_active_properties digest i (nr_labels n) (nr_properties n) (ig_nodes s)\<rparr>)"
| delete_relationship: "rel_at (ig_graph s) i = Some r \<Longrightarrow> delete_relationship i (ig_graph s) = (True, g) \<Longrightarrow>
    index_step digest s (s\<lparr>ig_graph := g, ig_rels :=
      unindex_active_properties digest i [rr_type r] (rr_properties r) (ig_rels s)\<rparr>)"
| ensure_nodes: "index_step digest s (s\<lparr>ig_nodes := ensure_node_property_index digest key (ig_graph s) (ig_nodes s)\<rparr>)"
| ensure_rels: "index_step digest s (s\<lparr>ig_rels := ensure_relationship_property_index digest key (ig_graph s) (ig_rels s)\<rparr>)"
| any_label: "key \<in> set (pi_active (ig_nodes s)) \<Longrightarrow>
    index_step digest s (s\<lparr>ig_nodes := index_activate_any_scope digest (node_values (ig_graph s)) key (ig_nodes s)\<rparr>)"
| any_type: "key \<in> set (pi_active (ig_rels s)) \<Longrightarrow>
    index_step digest s (s\<lparr>ig_rels := index_activate_any_scope digest (relationship_values (ig_graph s)) key (ig_rels s)\<rparr>)"
| drop_nodes: "index_step digest s (s\<lparr>ig_nodes := index_deactivate key (ig_nodes s)\<rparr>)"
| drop_rels: "index_step digest s (s\<lparr>ig_rels := index_deactivate key (ig_rels s)\<rparr>)"

inductive index_reachable :: "key_digest \<Rightarrow> indexed_graph \<Rightarrow> bool" for digest where
  start: "index_reachable digest \<lparr>ig_graph = graph_default recorder, ig_nodes = no_indexes, ig_rels = no_indexes\<rparr>"
| step: "index_reachable digest s \<Longrightarrow> index_step digest s s' \<Longrightarrow> index_reachable digest s'"

definition in_step :: "key_digest \<Rightarrow> indexed_graph \<Rightarrow> bool" where
  "in_step digest s \<longleftrightarrow> graph_ok (ig_graph s) \<and> mirrors digest (nodes_of (ig_graph s)) (ig_nodes s) \<and>
     mirrors digest (rels_of (ig_graph s)) (ig_rels s)"

section \<open>Each mutation and its hook\<close>

lemma becomes_entities:
  "becomes g g' N R \<Longrightarrow> nodes_of g' = (\<lambda>i. map_option (\<lambda>n. (nr_labels n, nr_properties n)) (N i))"
  "becomes g g' N R \<Longrightarrow> rels_of g' = (\<lambda>i. map_option (\<lambda>r. ([rr_type r], rr_properties r)) (R i))"
  by (simp_all add: becomes_def nodes_of_def rels_of_def fun_eq_iff)

lemma node_becomes:
  assumes "becomes g g' ((node_at g)(i \<mapsto> n)) (rel_at g)"
  shows "nodes_of g' = (nodes_of g)(i \<mapsto> (nr_labels n, nr_properties n))" and "rels_of g' = rels_of g"
  using becomes_entities [OF assms] by (auto simp: nodes_of_def rels_of_def fun_eq_iff)

lemma rel_becomes:
  assumes "becomes g g' (node_at g) ((rel_at g)(i \<mapsto> r))"
  shows "rels_of g' = (rels_of g)(i \<mapsto> ([rr_type r], rr_properties r))" and "nodes_of g' = nodes_of g"
  using becomes_entities [OF assms] by (auto simp: nodes_of_def rels_of_def fun_eq_iff)

lemma node_entity:
  assumes "graph_ok g" and "node_at g i = Some n"
  shows "nodes_of g i = Some (nr_labels n, nr_properties n)" and "distinct (nr_labels n)" and "UNLABELLED \<notin> set (nr_labels n)"
    and "distinct (map fst (nr_properties n))"
proof -
  show e: "nodes_of g i = Some (nr_labels n, nr_properties n)" using assms(2) by (simp add: nodes_of_def)
  show "distinct (nr_labels n)" "UNLABELLED \<notin> set (nr_labels n)" "distinct (map fst (nr_properties n))"
    using e entities_of_ok(1) [OF assms(1)] unfolding entities_ok_def by blast+
qed

lemma rel_entity:
  assumes "graph_ok g" and "rel_at g i = Some r"
  shows "rels_of g i = Some ([rr_type r], rr_properties r)" and "distinct (map fst (rr_properties r))"
proof -
  show e: "rels_of g i = Some ([rr_type r], rr_properties r)" using assms(2) by (simp add: rels_of_def)
  show "distinct (map fst (rr_properties r))" using e entities_of_ok(2) [OF assms(1)] unfolding entities_ok_def by blast
qed

lemma other_values: "W' = W(i \<mapsto> e) \<Longrightarrow> j \<noteq> i \<Longrightarrow> entity_value W' j key = entity_value W j key"
  by (simp add: entity_value_def)

lemma delete_node_entities:
  assumes "delete_node i g = (True, g')"
  shows "nodes_of g' = (nodes_of g)(i := None)" and "rels_of g' = rels_of g"
proof -
  have i: "has_node_at g i" "\<not> has_incident_relationships g i" using assms by (auto simp: delete_node_def split: if_splits)
  then obtain n where n: "node_at g i = Some n" by (auto simp: has_node_at_def)
  let ?h = "g\<lparr>gr_nodes := (gr_nodes g)[unat i := None], gr_live_nodes := gr_live_nodes g - 1\<rparr>"
  obtain as where as: "clear_adjacency i ?h = ?h\<lparr>gr_adjacency := as\<rparr>" using clear_adjacency_shape [of i ?h] by auto
  have "node_at ?h = (node_at g)(i := None)" using node_at_bound [OF n] by (auto simp: node_at_def slot_get_update fun_eq_iff)
  moreover have g': "g' = snd (delete_node i g)" using assms by simp
  ultimately have "node_at g' = (node_at g)(i := None)" "rel_at g' = rel_at g"
    using i n as unfolding g' by (simp_all add: delete_node_def take_node_def on_node_deleted_def)
  then show "nodes_of g' = (nodes_of g)(i := None)" "rels_of g' = rels_of g"
    by (auto simp: nodes_of_def rels_of_def fun_eq_iff)
qed

lemma delete_relationship_entities:
  assumes "delete_relationship i g = (True, g')"
  shows "rels_of g' = (rels_of g)(i := None)" and "nodes_of g' = nodes_of g"
proof -
  have g': "g' = snd (delete_relationship i g)" using assms by simp
  have "node_at g' = node_at g" using delete_one_by_one_node_at [of "[i]" g] by (simp add: split_beta Let_def g')
  then show "rels_of g' = (rels_of g)(i := None)" "nodes_of g' = nodes_of g"
    by (auto simp: nodes_of_def rels_of_def fun_eq_iff delete_relationship_rel_at g')
qed

lemma node_step:
  assumes "graph_ok g" and N: "mirrors digest (nodes_of g) st" and n: "node_at g i = Some n"
  shows "g' = snd (set_node_property i key v g) \<Longrightarrow>
      mirrors digest (nodes_of g') (index_on_property_set digest (node_values g') i (nr_labels n) key (map_of (nr_properties n) key) v st)
      \<and> rels_of g' = rels_of g \<and> graph_ok g'"
    and "map_of (nr_properties n) key = Some old \<Longrightarrow> g' = snd (remove_node_property i key g) \<Longrightarrow>
      mirrors digest (nodes_of g') (index_on_property_removed digest i (nr_labels n) key old st)
      \<and> rels_of g' = rels_of g \<and> graph_ok g'"
    and "label = trim l \<Longrightarrow> label \<noteq> [] \<Longrightarrow> label \<notin> set (nr_labels n) \<Longrightarrow> g' = snd (add_node_label i l g) \<Longrightarrow>
      mirrors digest (nodes_of g') (index_on_label_added digest (node_values g') i label (nr_labels n @ [label]) (nr_properties n) st)
      \<and> rels_of g' = rels_of g \<and> graph_ok g'"
    and "label \<in> set (nr_labels n) \<Longrightarrow> g' = snd (remove_node_label i label g) \<Longrightarrow>
      mirrors digest (nodes_of g') (index_on_label_removed digest (node_values g') i label (filter (\<lambda>l. l \<noteq> label) (nr_labels n)) (nr_properties n) st)
      \<and> rels_of g' = rels_of g \<and> graph_ok g'"
proof -
  note e = node_entity [OF assms(1) n]
  have sorted: "sorted_keys (nr_properties n)" by (rule graph_node_sorted [OF assms(1) n])
  { assume g': "g' = snd (set_node_property i key v g)"
    note b = node_becomes [OF set_node_property_becomes [OF n, of key v], folded g', simplified]
    show "mirrors digest (nodes_of g') (index_on_property_set digest (node_values g') i (nr_labels n) key (map_of (nr_properties n) key) v st)
      \<and> rels_of g' = rels_of g \<and> graph_ok g'"
      using mirrors_property_set [OF N e(1,2), of "btree_insert key v (nr_properties n)" key v "node_values g'"] other_values [OF b(1)]
        property_steps_ok(1) [OF assms(1), of i key v, folded g'] by (simp add: b) }
  { assume old: "map_of (nr_properties n) key = Some old" and g': "g' = snd (remove_node_property i key g)"
    note b = node_becomes [OF remove_node_property_becomes [OF n sorted, of key], folded g', simplified]
    show "mirrors digest (nodes_of g') (index_on_property_removed digest i (nr_labels n) key old st)
      \<and> rels_of g' = rels_of g \<and> graph_ok g'"
      using mirrors_property_removed [OF N e(1,2) old, of "btree_remove key (nr_properties n)"] sorted
        property_steps_ok(2) [OF assms(1), of i key, folded g'] by (simp add: b map_of_btree_remove) }
  { assume l: "label = trim l" "label \<noteq> []" "label \<notin> set (nr_labels n)" and g': "g' = snd (add_node_label i l g)"
    note b = node_becomes [OF add_node_label_becomes [OF n], of l, folded g', folded l(1), simplified]
    show "mirrors digest (nodes_of g') (index_on_label_added digest (node_values g') i label (nr_labels n @ [label]) (nr_properties n) st)
      \<and> rels_of g' = rels_of g \<and> graph_ok g'"
      using mirrors_label_added [OF N e(1,4) l(3) _ e(3), of "node_values g'"] other_values [OF b(1) [OF l(2,3)]]
        add_node_label_ok [OF assms(1), of i l, folded g'] l(2,3) by (simp add: b UNLABELLED_def) }
  { assume l: "label \<in> set (nr_labels n)" and g': "g' = snd (remove_node_label i label g)"
    note b = node_becomes [OF remove_node_label_becomes [OF n], of label, folded g', simplified]
    have left: "set (filter (\<lambda>l. l \<noteq> label) (nr_labels n)) = set (nr_labels n) - {label}" by auto
    show "mirrors digest (nodes_of g') (index_on_label_removed digest (node_values g') i label (filter (\<lambda>l. l \<noteq> label) (nr_labels n)) (nr_properties n) st)
      \<and> rels_of g' = rels_of g \<and> graph_ok g'"
      using mirrors_label_removed [OF N e(1,4) l e(3) left, of "node_values g'"] other_values [OF b(1)]
        remove_node_label_ok [OF assms(1), of i label, folded g'] by (simp add: b) }
qed

lemma rel_step:
  assumes "graph_ok g" and R: "mirrors digest (rels_of g) st" and r: "rel_at g i = Some r"
  shows "g' = snd (set_relationship_property i key v g) \<Longrightarrow>
      mirrors digest (rels_of g') (index_on_property_set digest (relationship_values g') i [rr_type r] key (map_of (rr_properties r) key) v st)
      \<and> nodes_of g' = nodes_of g \<and> graph_ok g'"
    and "map_of (rr_properties r) key = Some old \<Longrightarrow> g' = snd (remove_relationship_property i key g) \<Longrightarrow>
      mirrors digest (rels_of g') (index_on_property_removed digest i [rr_type r] key old st)
      \<and> nodes_of g' = nodes_of g \<and> graph_ok g'"
proof -
  note e = rel_entity [OF assms(1) r]
  have sorted: "sorted_keys (rr_properties r)" by (rule graph_rel_sorted [OF assms(1) r])
  { assume g': "g' = snd (set_relationship_property i key v g)"
    note b = rel_becomes [OF set_relationship_property_becomes [OF r, of key v], folded g', simplified]
    show "mirrors digest (rels_of g') (index_on_property_set digest (relationship_values g') i [rr_type r] key (map_of (rr_properties r) key) v st)
      \<and> nodes_of g' = nodes_of g \<and> graph_ok g'"
      using mirrors_property_set [OF R e(1), of "btree_insert key v (rr_properties r)" key v "relationship_values g'"] other_values [OF b(1)]
        property_steps_ok(4) [OF assms(1), of i key v, folded g'] by (simp add: b) }
  { assume old: "map_of (rr_properties r) key = Some old" and g': "g' = snd (remove_relationship_property i key g)"
    note b = rel_becomes [OF remove_relationship_property_becomes [OF r sorted, of key], folded g', simplified]
    show "mirrors digest (rels_of g') (index_on_property_removed digest i [rr_type r] key old st)
      \<and> nodes_of g' = nodes_of g \<and> graph_ok g'"
      using mirrors_property_removed [OF R e(1) _ old, of "btree_remove key (rr_properties r)"] sorted
        property_steps_ok(5) [OF assms(1), of i key, folded g'] by (simp add: b map_of_btree_remove) }
qed

section \<open>The indexes stay in step\<close>

lemma create_node_step:
  assumes "graph_ok g" and N: "mirrors digest (nodes_of g) st" and c: "try_create_node labels ps g = (Some n, g')" "sorted_keys ps"
  shows "mirrors digest (nodes_of g') (index_properties_if_active digest (node_values g') (nr_id n) (nr_labels n) (nr_properties n) st)
    \<and> rels_of g' = rels_of g \<and> graph_ok g'"
proof -
  note t = try_create_node_becomes [OF assms(1) c(1)]
  note b = node_becomes [OF t(1)]
  have "graph_ok g'" using try_create_node_ok [OF assms(1) c(2), of labels] c(1) by simp
  moreover have "nodes_of g (nr_id n) = None" using t(2) by (simp add: nodes_of_def)
  moreover have "distinct (nr_labels n)" "distinct (map fst (nr_properties n))"
    using entities_of_ok(1) [OF calculation(1)] unfolding entities_ok_def b by (metis fun_upd_same)+
  ultimately show ?thesis using mirrors_created [OF N] other_values [OF b(1)] by (simp add: b)
qed

lemma create_relationship_step:
  assumes "graph_ok g" and R: "mirrors digest (rels_of g) st" and c: "create_relationship src dst ty ps g = (Some r, g')" "sorted_keys ps"
  shows "mirrors digest (rels_of g') (index_properties_if_active digest (relationship_values g') (rr_id r) [rr_type r] (rr_properties r) st)
    \<and> nodes_of g' = nodes_of g \<and> graph_ok g'"
proof -
  note t = create_relationship_becomes [OF assms(1) c(1)]
  note b = rel_becomes [OF t(1)]
  have "graph_ok g'" using create_relationship_ok [OF assms(1) c(2), of src dst ty] c(1) by simp
  moreover have "rels_of g (rr_id r) = None" using t(2) by (simp add: rels_of_def)
  moreover have "distinct (map fst (rr_properties r))" using c(2) t(4) by (simp add: sorted_keys_distinct)
  ultimately show ?thesis using mirrors_created [OF R, of "rr_id r" "[rr_type r]"] other_values [OF b(1)] by (simp add: b)
qed

lemma deletion_steps:
  assumes "graph_ok g"
  shows "mirrors digest (nodes_of g) st \<Longrightarrow> node_at g i = Some n \<Longrightarrow> delete_node i g = (True, g') \<Longrightarrow>
      mirrors digest (nodes_of g') (unindex_active_properties digest i (nr_labels n) (nr_properties n) st)
      \<and> rels_of g' = rels_of g \<and> graph_ok g'"
    and "mirrors digest (rels_of g) st \<Longrightarrow> rel_at g i = Some r \<Longrightarrow> delete_relationship i g = (True, g') \<Longrightarrow>
      mirrors digest (rels_of g') (unindex_active_properties digest i [rr_type r] (rr_properties r) st)
      \<and> nodes_of g' = nodes_of g \<and> graph_ok g'"
proof -
  { assume N: "mirrors digest (nodes_of g) st" and n: "node_at g i = Some n" and d: "delete_node i g = (True, g')"
    note e = node_entity [OF assms n]
    show "mirrors digest (nodes_of g') (unindex_active_properties digest i (nr_labels n) (nr_properties n) st)
        \<and> rels_of g' = rels_of g \<and> graph_ok g'"
      using mirrors_deleted [OF N e(1,2,4)] delete_node_entities [OF d] delete_node_ok [OF assms, of i] d by simp }
  { assume R: "mirrors digest (rels_of g) st" and r: "rel_at g i = Some r" and d: "delete_relationship i g = (True, g')"
    note e = rel_entity [OF assms r]
    show "mirrors digest (rels_of g') (unindex_active_properties digest i [rr_type r] (rr_properties r) st)
        \<and> nodes_of g' = nodes_of g \<and> graph_ok g'"
      using mirrors_deleted [OF R e(1) _ e(2)] delete_relationship_entities [OF d] delete_relationship_ok [OF assms, of i] d by simp }
qed

lemma index_step_in_step: "index_step digest s s' \<Longrightarrow> in_step digest s \<Longrightarrow> in_step digest s'"
proof (induction rule: index_step.induct)
  case (create_node labels ps s n g)
  then show ?case using create_node_step [of "ig_graph s" digest "ig_nodes s" labels ps n g] by (simp add: in_step_def)
next
  case (create_relationship src dst ty ps s r g)
  then show ?case using create_relationship_step [of "ig_graph s" digest "ig_rels s" src dst ty ps r g] by (simp add: in_step_def)
next
  case (set_node_property s i n g key v)
  then show ?case using node_step(1) [of "ig_graph s" digest "ig_nodes s" i n g key v] by (simp add: in_step_def)
next
  case (remove_node_property s i n key old g)
  then show ?case using node_step(2) [of "ig_graph s" digest "ig_nodes s" i n key old g] by (simp add: in_step_def)
next
  case (set_relationship_property s i r g key v)
  then show ?case using rel_step(1) [of "ig_graph s" digest "ig_rels s" i r g key v] by (simp add: in_step_def)
next
  case (remove_relationship_property s i r key old g)
  then show ?case using rel_step(2) [of "ig_graph s" digest "ig_rels s" i r key old g] by (simp add: in_step_def)
next
  case (add_node_label s i n label l g)
  then show ?case using node_step(3) [of "ig_graph s" digest "ig_nodes s" i n label l g] by (simp add: in_step_def)
next
  case (remove_node_label s i n label g)
  then show ?case using node_step(4) [of "ig_graph s" digest "ig_nodes s" i n label g] by (simp add: in_step_def)
next
  case (delete_node s i n g)
  then show ?case using deletion_steps(1) [of "ig_graph s" digest "ig_nodes s" i n g] by (simp add: in_step_def)
next
  case (delete_relationship s i r g)
  then show ?case using deletion_steps(2) [of "ig_graph s" digest "ig_rels s" i r g] by (simp add: in_step_def)
qed (simp_all add: in_step_def mirrors_node_index mirrors_relationship_index mirrors_any_scope mirrors_deactivated)

lemma index_reachable_in_step: "index_reachable digest s \<Longrightarrow> in_step digest s"
proof (induction rule: index_reachable.induct)
  case (start recorder)
  then show ?case by (simp add: in_step_def graph_ok_default mirrors_no_indexes)
qed (rule index_step_in_step)

section \<open>A lookup is a scan\<close>

text \<open>The ids of the slots' records that satisfy \<open>p\<close>, in the order of the slots.\<close>

definition slot_scan :: "('a \<Rightarrow> bool) \<Rightarrow> 'a option list \<Rightarrow> u64 list" where
  "slot_scan p slots = map of_nat (filter (\<lambda>idx. case slot_get idx slots of Some x \<Rightarrow> p x | None \<Rightarrow> False) [0..<length slots])"

lemma slot_scan_ids:
  assumes "length slots \<le> 2 ^ 34"
  shows "increasing (slot_scan p slots)" and "set (slot_scan p slots) = {i. \<exists>x. slot_get (unat i) slots = Some x \<and> p x}"
proof -
  have id: "unat (of_nat idx :: u64) = idx" if "idx < length slots" for idx using that assms by (simp add: unat_of_nat)
  let ?ids = "filter (\<lambda>idx. case slot_get idx slots of Some x \<Rightarrow> p x | None \<Rightarrow> False) [0..<length slots]"
  have "sorted_wrt (\<lambda>i j. (of_nat i :: u64) < of_nat j) ?ids"
    by (rule sorted_wrt_mono_rel [of _ "(<)"]) (auto simp: word_less_nat_alt id intro: sorted_wrt_filter)
  then show "increasing (slot_scan p slots)" by (simp add: slot_scan_def sorted_wrt_map)
  show "set (slot_scan p slots) = {i. \<exists>x. slot_get (unat i) slots = Some x \<and> p x}"
  proof (intro set_eqI iffI)
    fix i :: u64 assume "i \<in> set (slot_scan p slots)"
    then show "i \<in> {i. \<exists>x. slot_get (unat i) slots = Some x \<and> p x}" by (auto simp: slot_scan_def id split: option.splits)
  next
    fix i :: u64 assume "i \<in> {i. \<exists>x. slot_get (unat i) slots = Some x \<and> p x}"
    then obtain x where x: "slot_get (unat i) slots = Some x" "p x" by blast
    then have "unat i < length slots" by (simp add: slot_get_def split: if_splits)
    then have "unat i \<in> set ?ids" using x by simp
    then have "(of_nat (unat i) :: u64) \<in> set (slot_scan p slots)" unfolding slot_scan_def by (simp only: set_map image_eqI)
    then show "i \<in> set (slot_scan p slots)" by simp
  qed
qed

lemma increasing_same: "increasing xs \<Longrightarrow> increasing ys \<Longrightarrow> set xs = set ys \<Longrightarrow> xs = ys"
  by (simp add: strict_sorted_equal)

lemma node_held:
  "label \<noteq> UNLABELLED \<Longrightarrow> held_in (nodes_of g) label key i = Some p \<longleftrightarrow>
     (\<exists>n. node_at g i = Some n \<and> label \<in> set (nr_labels n) \<and> key_of (nr_properties n) key = Some p)"
  by (cases "node_at g i") (simp_all add: held_in_def nodes_of_def or_unlabelled_def)

lemma rel_held:
  "held_in (rels_of g) ty key i = Some p \<longleftrightarrow>
     (\<exists>r. rel_at g i = Some r \<and> rr_type r = ty \<and> key_of (rr_properties r) key = Some p)"
  by (cases "rel_at g i") (auto simp: held_in_def rels_of_def or_unlabelled_def)

lemma indexed_lookup_scans:
  assumes "index_reachable digest s"
  shows "label \<noteq> UNLABELLED \<Longrightarrow> indexed_node_ids digest (ig_nodes s) (ig_graph s) label key v =
      (if key_from_value v = None \<or> key \<notin> set (pi_active (ig_nodes s)) then None
       else Some (slot_scan (\<lambda>n. label \<in> set (nr_labels n) \<and> key_of (nr_properties n) key = key_from_value v) (gr_nodes (ig_graph s))))"
    and "ty \<noteq> UNLABELLED \<Longrightarrow> indexed_rel_ids digest (ig_rels s) (ig_graph s) ty key v =
      (if key_from_value v = None \<or> key \<notin> set (pi_active (ig_rels s)) then None
       else Some (slot_scan (\<lambda>r. rr_type r = ty \<and> key_of (rr_properties r) key = key_from_value v) (gr_relationships (ig_graph s))))"
proof -
  let ?g = "ig_graph s"
  have s: "graph_ok ?g" "mirrors digest (nodes_of ?g) (ig_nodes s)" "mirrors digest (rels_of ?g) (ig_rels s)"
    using index_reachable_in_step [OF assms] by (simp_all add: in_step_def)
  have fits: "length (gr_nodes ?g) \<le> 2 ^ 34" "length (gr_relationships ?g) \<le> 2 ^ 34"
    using s(1) by (simp_all add: graph_ok_def slots_ok_def word_le_nat_alt MAX_ENTITY_ID_def)
  { assume label: "label \<noteq> UNLABELLED"
    have "found_ids (index_scoped_ids_for digest (node_values ?g) label key v (ig_nodes s)) =
        slot_scan (\<lambda>n. label \<in> set (nr_labels n) \<and> key_of (nr_properties n) key = Some p) (gr_nodes ?g)"
      if "key \<in> set (pi_active (ig_nodes s))" "key_from_value v = Some p" for p
    proof (rule increasing_same [OF scoped_lookup(1) [OF s(2) that(1) label that(2)] slot_scan_ids(1) [OF fits(1)]])
      show "set (found_ids (index_scoped_ids_for digest (node_values ?g) label key v (ig_nodes s))) =
          set (slot_scan (\<lambda>n. label \<in> set (nr_labels n) \<and> key_of (nr_properties n) key = Some p) (gr_nodes ?g))"
        unfolding scoped_lookup(2) [OF s(2) that(1) label that(2)] slot_scan_ids(2) [OF fits(1)]
        by (simp add: node_held [OF label] node_at_def)
    qed
    then show "indexed_node_ids digest (ig_nodes s) ?g label key v =
      (if key_from_value v = None \<or> key \<notin> set (pi_active (ig_nodes s)) then None
       else Some (slot_scan (\<lambda>n. label \<in> set (nr_labels n) \<and> key_of (nr_properties n) key = key_from_value v) (gr_nodes ?g)))"
      by (auto simp: indexed_node_ids_def) }
  { assume ty: "ty \<noteq> UNLABELLED"
    have "found_ids (index_scoped_ids_for digest (relationship_values ?g) ty key v (ig_rels s)) =
        slot_scan (\<lambda>r. rr_type r = ty \<and> key_of (rr_properties r) key = Some p) (gr_relationships ?g)"
      if "key \<in> set (pi_active (ig_rels s))" "key_from_value v = Some p" for p
    proof (rule increasing_same [OF scoped_lookup(1) [OF s(3) that(1) ty that(2)] slot_scan_ids(1) [OF fits(2)]])
      show "set (found_ids (index_scoped_ids_for digest (relationship_values ?g) ty key v (ig_rels s))) =
          set (slot_scan (\<lambda>r. rr_type r = ty \<and> key_of (rr_properties r) key = Some p) (gr_relationships ?g))"
        unfolding scoped_lookup(2) [OF s(3) that(1) ty that(2)] slot_scan_ids(2) [OF fits(2)]
        by (simp add: rel_held rel_at_def)
    qed
    then show "indexed_rel_ids digest (ig_rels s) ?g ty key v =
      (if key_from_value v = None \<or> key \<notin> set (pi_active (ig_rels s)) then None
       else Some (slot_scan (\<lambda>r. rr_type r = ty \<and> key_of (rr_properties r) key = key_from_value v) (gr_relationships ?g)))"
      by (auto simp: indexed_rel_ids_def) }
qed

end
