(* ===== verification/Store_Guarantees.thy ===== *)
theory Store_Guarantees
  imports Property_History Id_Set_Laws Calendar
begin

text \<open>
  What the constraints, the property indexes and the id sets promise together, each property with a run of the
  model on concrete data.
\<close>

section \<open>The check reads the live indexes\<close>

definition live_env :: "float_std \<Rightarrow> key_digest \<Rightarrow> indexed_graph \<Rightarrow> check_env" where
  "live_env fs digest s = \<lparr>env_float = fs, env_node_ids = indexed_node_ids digest (ig_nodes s),
     env_rel_ids = indexed_rel_ids digest (ig_rels s)\<rparr>"

lemma unindexed_env_simps [simp]:
  "env_float (unindexed_env fs) = fs" "env_node_ids (unindexed_env fs) = (\<lambda>_ _ _ _. None)" "env_rel_ids (unindexed_env fs) = (\<lambda>_ _ _ _. None)"
  by (simp_all add: unindexed_env_def)

lemma type_ids:
  assumes "graph_ok g"
  shows "set (rel_ids_by_type g ty) = {i. \<exists>r. rel_at g i = Some r \<and> rr_type r = ty}"
proof -
  have "rel_ids_by_type g ty = index_ids (gr_rels_by_type g) ty"
    by (simp add: rel_ids_by_type_def index_ids_def split: option.split)
  then show ?thesis using assms by (simp add: graph_ok_def types_indexed_def)
qed

lemma conflict_by_scan:
  assumes g: "graph_ok g" and complete: "index_complete env g"
  shows "any_other_node_with_tuple env g label keys target skip = any_other_node_with_tuple (unindexed_env (env_float env)) g label keys target skip"
    and "any_other_rel_with_tuple env g ty keys target skip = any_other_rel_with_tuple (unindexed_env (env_float env)) g ty keys target skip"
proof -
  have scan: "indexed_candidates (\<lambda>_ _ _ _. None) g l ks t = None" for l ks t by (auto simp: indexed_candidates_def split: list.split)
  { let ?p = "\<lambda>i. Some i \<noteq> skip \<and> (case node_at g i of None \<Rightarrow> False
      | Some n \<Rightarrow> label \<in> set (nr_labels n) \<and> tuple_matches (env_float env) keys target (nr_properties n))"
    have labelled: "i \<in> set (node_ids_by_label g label)" if "?p i" for i
      using that label_ids(3) [OF g, of label] by (auto simp: scanned_def split: option.splits)
    have found: "i \<in> set ids" if p: "?p i" and ids: "indexed_candidates (env_node_ids env) g label keys target = Some ids" for i ids
    proof -
      obtain key rest v vs where k: "keys = key # rest" "target = v # vs" "env_node_ids env g label key v = Some ids"
        using ids by (auto simp: indexed_candidates_def split: list.splits)
      obtain n w where n: "node_at g i = Some n" "label \<in> set (nr_labels n)" "map_of (nr_properties n) key = Some w" "value_eq (env_float env) w v"
        using p k(1,2) by (auto simp: tuple_matches_def split: option.splits)
      then show ?thesis using complete k(3) unfolding index_complete_def by blast
    qed
    have "list_ex ?p (case indexed_candidates (env_node_ids env) g label keys target of Some ids \<Rightarrow> ids | None \<Rightarrow> node_ids_by_label g label)
        = list_ex ?p (node_ids_by_label g label)"
      unfolding list_ex_iff using labelled found by (cases "indexed_candidates (env_node_ids env) g label keys target") (simp, fastforce)
    then show "any_other_node_with_tuple env g label keys target skip = any_other_node_with_tuple (unindexed_env (env_float env)) g label keys target skip"
      unfolding any_other_node_with_tuple_def unindexed_env_simps scan Let_def option.case . }
  { let ?p = "\<lambda>i. Some i \<noteq> skip \<and> (case rel_at g i of None \<Rightarrow> False
      | Some r \<Rightarrow> rr_type r = ty \<and> tuple_matches (env_float env) keys target (rr_properties r))"
    have typed: "i \<in> set (rel_ids_by_type g ty)" if "?p i" for i
      using that type_ids [OF g, of ty] by (auto split: option.splits)
    have found: "i \<in> set ids" if p: "?p i" and ids: "indexed_candidates (env_rel_ids env) g ty keys target = Some ids" for i ids
    proof -
      obtain key rest v vs where k: "keys = key # rest" "target = v # vs" "env_rel_ids env g ty key v = Some ids"
        using ids by (auto simp: indexed_candidates_def split: list.splits)
      obtain r w where r: "rel_at g i = Some r" "rr_type r = ty" "map_of (rr_properties r) key = Some w" "value_eq (env_float env) w v"
        using p k(1,2) by (auto simp: tuple_matches_def split: option.splits)
      then show ?thesis using complete k(3) unfolding index_complete_def by blast
    qed
    have "list_ex ?p (case indexed_candidates (env_rel_ids env) g ty keys target of Some ids \<Rightarrow> ids | None \<Rightarrow> rel_ids_by_type g ty)
        = list_ex ?p (rel_ids_by_type g ty)"
      unfolding list_ex_iff using typed found by (cases "indexed_candidates (env_rel_ids env) g ty keys target") (simp, fastforce)
    then show "any_other_rel_with_tuple env g ty keys target skip = any_other_rel_with_tuple (unindexed_env (env_float env)) g ty keys target skip"
      unfolding any_other_rel_with_tuple_def unindexed_env_simps scan Let_def option.case . }
qed

lemma live_env_complete:
  assumes "index_reachable digest s"
  shows "index_complete (live_env fs digest s) (ig_graph s)"
proof -
  have s: "graph_ok (ig_graph s)" "mirrors digest (nodes_of (ig_graph s)) (ig_nodes s)" "mirrors digest (rels_of (ig_graph s)) (ig_rels s)"
    using index_reachable_in_step [OF assms] by (simp_all add: in_step_def)
  show ?thesis unfolding live_env_def by (rule mirrors_complete [OF s])
qed

lemma record_check_by_scan:
  assumes "index_reachable digest s"
  shows "check_record_constraints_with (live_env fs digest s) catalog (ig_graph s) r existence =
    check_record_constraints_with (unindexed_env fs) catalog (ig_graph s) r existence"
proof -
  have "graph_ok (ig_graph s)" using index_reachable_in_step [OF assms] by (simp add: in_step_def)
  note scan = conflict_by_scan [OF this live_env_complete [OF assms, of fs]]
  have "has_uniqueness_conflict (live_env fs digest s) (ig_graph s) r = has_uniqueness_conflict (unindexed_env fs) (ig_graph s) r"
    by (cases r) (simp_all add: fun_eq_iff scan, simp_all add: live_env_def)
  then show ?thesis unfolding check_record_constraints_with_def by presburger
qed

section \<open>A constrained store\<close>

definition demo_floats :: float_std where
  "demo_floats = \<lparr>fs_debug = (\<lambda>_. ''''), fs_of_f32 = (\<lambda>_. 0), fs_of_int = (\<lambda>_. 0), fs_distance = (\<lambda>_ _. 0)\<rparr>"

text \<open>An empty graph with one constraint of the kind on the property \<open>p\<close> of the label \<open>A\<close>.\<close>

definition demo_request :: "stored_constraint_kind \<Rightarrow> constraint_request" where
  "demo_request kind = \<lparr>crq_name = ''c'', crq_kind = kind, crq_entity = Node, crq_label = ''A'',
     crq_properties = [''p''], crq_backing = BackingRange\<rparr>"

definition demo_store :: "float_std \<Rightarrow> key_hash \<Rightarrow> mutation_event list option \<Rightarrow> stored_constraint_kind \<Rightarrow> graph" where
  "demo_store fs hash recorder kind = snd (on_schema
     (register_constraint (existing_data_scan fs hash (graph_default recorder)) (demo_request kind) False) (graph_default recorder))"

lemma demo_step: "store_step env hash (graph_default recorder) (demo_store (env_float env) hash recorder kind)"
  unfolding demo_store_def by (rule store_step.create_constraint)

lemma demo_reachable: "store_reachable env hash recorder (demo_store (env_float env) hash recorder kind)"
  by (rule store_reachable.step [OF store_reachable.start demo_step])

lemma demo_store_eq: "\<exists>s. demo_store fs hash recorder kind = (graph_default recorder)\<lparr>gr_schema := s\<rparr> \<and>
    ss_constraints s = [(''c'', constraint_def_of (demo_request kind))] \<and> ss_active s = 1"
proof -
  have "existing_data_scan fs hash (graph_default recorder) def = None" for def
    by (simp add: existing_data_scan_def validate_existing_data_for_constraint_def validate_existing_nodes_for_constraint_def
        validate_existing_rels_for_constraint_def graph_default_def cong del: unit.case_cong_weak split: stored_index_entity.split)
  then show ?thesis unfolding demo_store_def on_schema_snd
    by (subst register_constraint_created)
      (simp_all add: constraint_precheck_def backing_precheck_def schema_new_def index_get_def graph_default_def
        constraint_find_equivalent_def constraint_find_same_schema_def constraint_list_def emit_def demo_request_def
        constraint_get_def backing_conflict_def index_list_def index_catalog_default_def index_catalog_ok_def)
qed

lemma trimmed_demo: "trimmed ''A''"
  by (simp add: trimmed_def whitespace_literal suffix_to_prefix)

lemma trim_demo: "trim '' A'' = ''A''"
proof -
  have "trim_start '' A'' = trim_start ''A''" by (subst trim_start.simps) (simp add: whitespace_literal)
  then have "trim '' A'' = trim ''A''" by (simp add: trim_def)
  then show ?thesis using trimmed_demo by simp
qed

lemma demo_created:
  assumes "trim label = ''A''"
  shows "\<exists>g. try_create_node [label] ps (demo_store fs hash recorder kind) = (Some \<lparr>nr_id = 0, nr_labels = [''A''], nr_properties = ps\<rparr>, g) \<and>
    node_at g 0 = Some \<lparr>nr_id = 0, nr_labels = [''A''], nr_properties = ps\<rparr> \<and>
    ss_constraints (gr_schema g) = [(''c'', constraint_def_of (demo_request kind))] \<and> ss_active (gr_schema g) = 1"
proof -
  obtain s where s: "demo_store fs hash recorder kind = (graph_default recorder)\<lparr>gr_schema := s\<rparr>"
    "ss_constraints s = [(''c'', constraint_def_of (demo_request kind))]" "ss_active s = 1"
    using demo_store_eq [of fs hash recorder kind] by blast
  then show ?thesis using assms by (simp add: create_defs)
qed

lemma demo_accepts:
  assumes "indexed_candidates (env_node_ids env) (demo_store fs hash recorder kind) ''A'' [''p''] [v] = None" and "kind = Unique"
  shows "check_node_create_against_constraints env (demo_store fs hash recorder kind) [''A''] [(''p'', v)] = Inr ()"
proof -
  obtain s where s: "demo_store fs hash recorder kind = (graph_default recorder)\<lparr>gr_schema := s\<rparr>"
    "ss_constraints s = [(''c'', constraint_def_of (demo_request kind))]" "ss_active s = 1"
    using demo_store_eq [of fs hash recorder kind] by blast
  have "node_ids_by_label (demo_store fs hash recorder kind) l = []" for l
    by (simp add: s(1) node_ids_by_label_def graph_default_def)
  then have "\<not> any_other_node_with_tuple env (demo_store fs hash recorder kind) ''A'' [''p''] [v] None"
    using assms(1) by (simp add: any_other_node_with_tuple_def)
  moreover have "ss_constraints (gr_schema (demo_store fs hash recorder kind)) = [(''c'', constraint_def_of (demo_request kind))]"
    "ss_active (gr_schema (demo_store fs hash recorder kind)) = 1" by (simp_all add: s)
  ultimately show ?thesis
    by (simp add: check_node_create_against_constraints_def against_constraints_def check_node_create_def
        check_record_constraints_def check_record_constraints_with_def constraint_list_def constraint_def_of_def
        demo_request_def assms(2) validate_record_against_constraint_def uniqueness_check_def constrained_tuple_def
        requires_uniqueness_def requires_existence_def cong del: unit.case_cong_weak)
qed

lemma demo_created_by_statement:
  assumes "check_node_create_against_constraints env (demo_store fs hash recorder kind) [label] ps = Inr ()" and "trim label = ''A''"
  shows "\<exists>g. run_statement env False [WriteCreateNode [label] ps] (demo_store fs hash recorder kind) = Inr g \<and>
    node_at g 0 = Some \<lparr>nr_id = 0, nr_labels = [''A''], nr_properties = ps\<rparr> \<and>
    ss_constraints (gr_schema g) = [(''c'', constraint_def_of (demo_request kind))] \<and> ss_active (gr_schema g) = 1"
proof -
  obtain g where g: "try_create_node [label] ps (demo_store fs hash recorder kind) = (Some \<lparr>nr_id = 0, nr_labels = [''A''], nr_properties = ps\<rparr>, g)"
    "node_at g 0 = Some \<lparr>nr_id = 0, nr_labels = [''A''], nr_properties = ps\<rparr>"
    "ss_constraints (gr_schema g) = [(''c'', constraint_def_of (demo_request kind))]" "ss_active (gr_schema g) = 1"
    using demo_created [OF assms(2)] by blast
  have "run_statement env False [WriteCreateNode [label] ps] (demo_store fs hash recorder kind) = Inr g"
    by (simp add: run_statement_def create_pattern_node_def put_off_if_deferring_def check_pending_existence_def
        assms(1) g(1) cong del: unit.case_cong_weak)
  then show ?thesis using g by blast
qed

section \<open>The constraints hold in every store\<close>

text \<open>
  The indexes that are active may differ from step to step: in the code every \<open>CREATE INDEX\<close> and every first
  lookup of a property can activate one.
\<close>

inductive store_history :: "float_std \<Rightarrow> key_digest \<Rightarrow> key_hash \<Rightarrow> mutation_event list option \<Rightarrow> graph \<Rightarrow> bool"
  for fs digest hash recorder where
  start: "store_history fs digest hash recorder (graph_default recorder)"
| step: "store_history fs digest hash recorder g \<Longrightarrow> store_step (indexed_env fs digest node_keys rel_keys) hash g g' \<Longrightarrow>
    store_history fs digest hash recorder g'"

lemma store_history_guarded: "store_history fs digest hash recorder g \<Longrightarrow> guarded fs {} g"
proof (induction rule: store_history.induct)
  case (step g node_keys rel_keys g')
  show ?case using indexed.guarded_step [OF step.hyps(2)] step.IH by (simp add: indexed_env_def)
qed (rule guarded_empty)

text \<open>
  The values that \<open>==\<close> and the key text of the scan tell apart in the same way. Left out are negative zero, which
  equals zero and has another text, and points, which are equal within an epsilon. NaN is not equal to itself.
\<close>

fun exact_value :: "property_value \<Rightarrow> bool" where
  "exact_value (PvFloat f) = (f \<noteq> 0x8000000000000000)"
| "exact_value (PvList vs) = list_all exact_value vs"
| "exact_value (PvMap kvs) = list_all (\<lambda>(k, v). exact_value v) kvs"
| "exact_value (PvPoint p) = False"
| "exact_value (PvVector v) = (case vec_values v of
       Float64 fs \<Rightarrow> 0x8000000000000000 \<notin> set fs | Float32 fs \<Rightarrow> 0x80000000 \<notin> set fs | _ \<Rightarrow> True)"
| "exact_value _ = True"

definition shares_tuple :: "float_std \<Rightarrow> constraint_definition \<Rightarrow> properties \<Rightarrow> properties \<Rightarrow> bool" where
  "shares_tuple fs def ps qs \<longleftrightarrow> (\<exists>s t. constrained_tuple def ps = Some s \<and> constrained_tuple def qs = Some t \<and>
     list_all exact_value s \<and> list_all exact_value t \<and> list_all2 (value_eq fs) s t)"

lemma zero_bits:
  assumes "push_bit 1 a = 0"
  shows "a = 0 \<or> a = push_bit (LENGTH('a) - 1) (1 :: 'a::len word)"
proof -
  have low: "\<not> bit a n" if "n < LENGTH('a) - 1" for n
  proof
    assume "bit a n"
    then have "bit (push_bit 1 a) (Suc n)" using that unfolding bit_push_bit_iff by simp
    then show False using assms by simp
  qed
  have bits: "bit a n \<longleftrightarrow> bit a (LENGTH('a) - 1) \<and> bit (push_bit (LENGTH('a) - 1) (1 :: 'a word)) n" if "n < LENGTH('a)" for n
  proof (cases "n = LENGTH('a) - 1")
    case True
    then show ?thesis by (simp add: bit_exp_iff)
  next
    case False
    then show ?thesis using low [of n] that by (auto simp: bit_exp_iff)
  qed
  show ?thesis
  proof (cases "bit a (LENGTH('a) - 1)")
    case True
    have "a = push_bit (LENGTH('a) - 1) 1" by (rule bit_word_eqI) (use bits True in blast)
    then show ?thesis by (rule disjI2)
  next
    case False
    have "a = 0"
    proof (rule bit_word_eqI)
      fix n assume "n < LENGTH('a)"
      from bits [OF this] False show "bit a n \<longleftrightarrow> bit 0 n" by simp
    qed
    then show ?thesis by (rule disjI1)
  qed
qed

lemma f64_exact: "f64_eq a b \<Longrightarrow> a \<noteq> 0x8000000000000000 \<Longrightarrow> b \<noteq> 0x8000000000000000 \<Longrightarrow> a = b"
  using zero_bits [of a] zero_bits [of b] by (auto simp: f64_eq_def)

lemma f32_exact: "f32_eq a b \<Longrightarrow> a \<noteq> 0x80000000 \<Longrightarrow> b \<noteq> 0x80000000 \<Longrightarrow> a = b"
  using zero_bits [of a] zero_bits [of b] by (auto simp: f32_eq_def)

lemma list_all2_exact:
  "list_all2 R xs ys \<Longrightarrow> (\<And>x y. R x y \<Longrightarrow> x \<noteq> z \<Longrightarrow> y \<noteq> z \<Longrightarrow> x = y) \<Longrightarrow> z \<notin> set xs \<Longrightarrow> z \<notin> set ys \<Longrightarrow> xs = ys"
  by (induction rule: list_all2_induct) auto

lemma vector_exact:
  assumes "value_eq fs (PvVector a) (PvVector b)" and "exact_value (PvVector a)" and "exact_value (PvVector b)"
  shows "vec_dimension a = vec_dimension b \<and> vec_values a = vec_values b"
  using assms list_all2_exact [OF _ f64_exact] list_all2_exact [OF _ f32_exact]
  by (cases "(vec_values a, vec_values b)" rule: vector_values_eq.cases) auto

text \<open>Equality of exact values is symmetric, and equal exact values have the same key text.\<close>

lemma value_eq_exact:
  "value_eq fs w v \<Longrightarrow> exact_value w \<Longrightarrow> exact_value v \<Longrightarrow> value_eq fs v w \<and> value_key fs w = value_key fs v"
proof (induction w arbitrary: v)
  case (PvFloat a)
  then show ?case using f64_exact by (auto split: property_value.splits)
next
  case (PvVector a)
  then obtain b where b: "v = PvVector b" by (cases v) auto
  have "vec_dimension a = vec_dimension b \<and> vec_values a = vec_values b" using PvVector vector_exact unfolding b by blast
  then show ?case using PvVector.prems(1) by (simp add: b to_key_string_def)
next
  case (PvList xs)
  then obtain ys where v: "v = PvList ys" "list_all2 (value_eq fs) xs ys" by (cases v) auto
  have each: "list_all2 (\<lambda>x y. value_eq fs y x \<and> value_key fs x = value_key fs y) xs ys"
    using v PvList by (auto simp: list_all2_conv_all_nth list_all_length)
  then have "map (value_key fs) xs = map (value_key fs) ys" by (intro map_eq_all2) (auto elim: list_all2_mono)
  moreover have "list_all2 (value_eq fs) ys xs" using each by (auto simp: list_all2_conv_all_nth)
  ultimately show ?case using list_all2_lengthD [OF v(2)] by (simp add: v(1))
next
  case (PvMap xs)
  then obtain ys where v: "v = PvMap ys" "list_all2 (\<lambda>(j, v) (k, w). j = k \<and> value_eq fs v w) xs ys" by (cases v) auto
  have each: "fst (xs ! n) = fst (ys ! n) \<and> value_eq fs (snd (ys ! n)) (snd (xs ! n)) \<and>
      value_key fs (snd (xs ! n)) = value_key fs (snd (ys ! n))" if "n < length xs" for n
  proof -
    have eq: "fst (xs ! n) = fst (ys ! n)" "value_eq fs (snd (xs ! n)) (snd (ys ! n))"
      using v(2) that by (auto simp: list_all2_conv_all_nth split_beta)
    have exact: "exact_value (snd (xs ! n))" "exact_value (snd (ys ! n))"
      using PvMap.prems(2,3) that list_all2_lengthD [OF v(2)] by (auto simp: v(1) list_all_length split_beta)
    have "snd (xs ! n) \<in> Basic_BNFs.snds (xs ! n)" by (cases "xs ! n") auto
    from PvMap.IH [OF nth_mem [OF that] this eq(2) exact] eq(1) show ?thesis by simp
  qed
  have "list_all2 (\<lambda>x y. (\<lambda>(k, v). str_key k @ value_key fs v) x = (\<lambda>(k, v). str_key k @ value_key fs v) y) xs ys"
    using each list_all2_lengthD [OF v(2)] by (simp add: list_all2_conv_all_nth split_beta)
  from map_eq_all2 [OF this] have "value_key fs (PvMap xs) = value_key fs (PvMap ys)"
    using list_all2_lengthD [OF v(2)] by simp
  moreover have "value_eq fs (PvMap ys) (PvMap xs)"
    using each list_all2_lengthD [OF v(2)] by (simp add: list_all2_conv_all_nth split_beta)
  ultimately show ?case by (simp add: v(1))
qed (auto simp: binary_eq_def split: property_value.splits)

lemma write_key_of_tuple:
  assumes "constrained_tuple def ps = Some s"
  shows "write_property_tuple_key fs def ps = join (map (value_key fs) s) [char_of (31 :: nat)]"
proof -
  have "map (map_of ps) (cdef_properties def) = map Some s" using assms by (simp add: constrained_tuple_def those_map_Some)
  from arg_cong [OF this, of "map (\<lambda>x. case x of Some v \<Rightarrow> value_key fs v | None \<Rightarrow> [])"]
  show ?thesis by (simp add: write_property_tuple_key_def comp_def)
qed

lemma shares_tuple_clash:
  assumes "requires_uniqueness (cdef_kind def)" and "shares_tuple fs def ps qs"
  shows "clash fs def ps qs"
proof -
  obtain s t where st: "constrained_tuple def ps = Some s" "constrained_tuple def qs = Some t"
    and eq: "list_all exact_value s" "list_all exact_value t" "list_all2 (value_eq fs) s t"
    using assms(2) by (auto simp: shares_tuple_def)
  have each: "list_all2 (\<lambda>x y. value_eq fs y x \<and> value_key fs x = value_key fs y) s t"
    using eq value_eq_exact by (auto simp: list_all2_conv_all_nth list_all_length)
  then have "map (value_key fs) s = map (value_key fs) t" by (intro map_eq_all2) (auto elim: list_all2_mono)
  then have "write_property_tuple_key fs def ps = write_property_tuple_key fs def qs"
    by (simp add: write_key_of_tuple [OF st(1)] write_key_of_tuple [OF st(2)])
  moreover have "list_all2 (value_eq fs) t s" using each by (auto simp: list_all2_conv_all_nth)
  ultimately show ?thesis using assms(1) st eq(3) unfolding clash_def by blast
qed

lemma demo_history: "store_history fs digest hash recorder (demo_store fs hash recorder kind)"
  using store_history.step [OF store_history.start demo_step [of "indexed_env fs digest [] []"]] by (simp add: indexed_env_def)

text \<open>
  C6. Whatever statements and schema commands run, in whatever order, and whichever property indexes the checks
  of each step use, after each step every constraint of the catalog holds of every record it applies to: no
  required property is missing, no property has a type that the constraint excludes, and under a uniqueness or
  key constraint no two records have tuples whose values are equal (\<open>==\<close>) and exact, that is without negative
  zeros and points. For the other values the code's two checks differ, a write comparing with \<open>==\<close> and the scan
  before creation comparing key texts, so only tuples with equal values and equal key texts are
  excluded there (the second conjunct, \<open>clash\<close>): \<open>0.0\<close> and \<open>-0.0\<close>, or two near points, may both be there when
  the constraint is created. Two NaN are never equal. The labels and types a statement writes are taken to be trimmed.
\<close>

theorem constraints_kept:
  assumes "store_history fs digest hash recorder g" and "def \<in> set (constraint_list (ss_constraints (gr_schema g)))"
  shows "(\<forall>i ps. in_scope g def i ps \<longrightarrow> \<not> lacks def ps \<and> \<not> ill_typed def ps) \<and>
    (\<forall>i j ps qs. in_scope g def i ps \<longrightarrow> in_scope g def j qs \<longrightarrow> i \<noteq> j \<longrightarrow>
       \<not> clash fs def ps qs \<and> (requires_uniqueness (cdef_kind def) \<longrightarrow> \<not> shares_tuple fs def ps qs))"
proof -
  have "upholds fs {} g def"
    using store_history_guarded [OF assms(1)] assms(2) by (simp add: guarded_def constraints_hold_def)
  then show ?thesis using shares_tuple_clash unfolding upholds_def by blast
qed

theorem constraints_kept_witness:
  "\<exists>g ps. constraint_list (ss_constraints (gr_schema g)) = [constraint_def_of (demo_request Unique)] \<and>
     in_scope g (constraint_def_of (demo_request Unique)) 0 ps \<and> ps = [(''p'', PvInt 1)] \<and>
     (\<forall>j qs. in_scope g (constraint_def_of (demo_request Unique)) j qs \<longrightarrow> j \<noteq> 0 \<longrightarrow> map_of qs ''p'' \<noteq> Some (PvInt 1))"
proof -
  let ?env = "indexed_env demo_floats (\<lambda>_. 0) [] []" and ?g = "demo_store demo_floats (\<lambda>_. 0) None Unique"
  let ?def = "constraint_def_of (demo_request Unique)"
  have floats: "env_float ?env = demo_floats" by (simp add: indexed_env_def)
  have "indexed_candidates (env_node_ids ?env) ?g ''A'' [''p''] [PvInt 1] = None"
    by (simp add: indexed_candidates_def indexed_env_def indexed_node_ids_def node_indexes_def no_indexes_def)
  from demo_created_by_statement [OF demo_accepts [OF this refl]] trimmed_demo
  obtain g where g: "run_statement ?env False [WriteCreateNode [''A''] [(''p'', PvInt 1)]] ?g = Inr g"
    "node_at g 0 = Some \<lparr>nr_id = 0, nr_labels = [''A''], nr_properties = [(''p'', PvInt 1)]\<rparr>"
    "ss_constraints (gr_schema g) = [(''c'', ?def)]" by auto
  have "store_step ?env (\<lambda>_. 0) ?g g" by (rule store_step.statement [OF _ g(1)]) (simp add: trimmed_demo)
  then have h: "store_history demo_floats (\<lambda>_. 0) (\<lambda>_. 0) None g"
    by (rule store_history.step [OF demo_history])
  have def: "constraint_list (ss_constraints (gr_schema g)) = [?def]" by (simp add: constraint_list_def g(3))
  then have "?def \<in> set (constraint_list (ss_constraints (gr_schema g)))" by simp
  note kept = constraints_kept [OF h this]
  have scope: "in_scope g ?def 0 [(''p'', PvInt 1)]" using g(2) by (simp add: in_scope_def constraint_def_of_def demo_request_def)
  have "map_of qs ''p'' \<noteq> Some (PvInt 1)" if "in_scope g ?def j qs" "j \<noteq> 0" for j qs
  proof
    assume "map_of qs ''p'' = Some (PvInt 1)"
    then have "shares_tuple demo_floats ?def [(''p'', PvInt 1)] qs"
      by (simp add: shares_tuple_def constrained_tuple_def constraint_def_of_def demo_request_def)
    then show False using kept scope that by (force simp: constraint_def_of_def demo_request_def requires_uniqueness_def)
  qed
  with def scope show ?thesis by blast
qed

text \<open>
  C36. A label that is not trimmed escapes a constraint: the check compares the label as written, and the
  store then trims it. With a required property on a label, a statement that creates a node without the
  property is accepted when a space precedes the label, and the constraint no longer holds.
\<close>

theorem untrimmed_label_escapes:
  "\<exists>g g'. store_reachable (unindexed_env fs) hash recorder g \<and> constraints_hold fs {} g \<and>
     run_statement (unindexed_env fs) False [WriteCreateNode ['' A''] []] g = Inr g' \<and> \<not> constraints_hold fs {} g'"
proof -
  let ?g = "demo_store fs hash recorder Existence"
  obtain s where s: "?g = (graph_default recorder)\<lparr>gr_schema := s\<rparr>"
    "ss_constraints s = [(''c'', constraint_def_of (demo_request Existence))]" "ss_active s = 1"
    using demo_store_eq [of fs hash recorder Existence] by blast
  have "ss_constraints (gr_schema ?g) = [(''c'', constraint_def_of (demo_request Existence))]" "ss_active (gr_schema ?g) = 1"
    by (simp_all add: s)
  then have "check_node_create_against_constraints (unindexed_env fs) ?g ['' A''] [] = Inr ()"
    by (simp add: check_node_create_against_constraints_def against_constraints_def check_node_create_def
        check_record_constraints_def check_record_constraints_with_def constraint_list_def constraint_def_of_def demo_request_def
        cong del: unit.case_cong_weak)
  from demo_created_by_statement [OF this trim_demo]
  obtain g where g: "run_statement (unindexed_env fs) False [WriteCreateNode ['' A''] []] ?g = Inr g"
    "node_at g 0 = Some \<lparr>nr_id = 0, nr_labels = [''A''], nr_properties = []\<rparr>"
    "ss_constraints (gr_schema g) = [(''c'', constraint_def_of (demo_request Existence))]" by blast
  let ?def = "constraint_def_of (demo_request Existence)"
  have "in_scope g ?def 0 []" using g(2) by (simp add: in_scope_def constraint_def_of_def demo_request_def)
  moreover have "lacks ?def []" by (simp add: lacks_def constraint_def_of_def demo_request_def requires_existence_def)
  ultimately have "\<not> upholds fs {} g ?def" by (auto simp: upholds_def)
  then have "\<not> constraints_hold fs {} g" by (simp add: constraints_hold_def constraint_list_def g(3))
  moreover have "store_reachable (unindexed_env fs) hash recorder ?g"
    using demo_reachable [of "unindexed_env fs" hash recorder Existence] by (simp add: unindexed_env_def)
  moreover from this have "constraints_hold fs {} ?g"
    using unindexed.guarded_reachable by (fastforce simp: guarded_def unindexed_env_def)
  ultimately show ?thesis using g(1) by blast
qed

section \<open>Lookups in the property indexes\<close>

text \<open>A node \<open>:A\<close> with \<open>p = 1\<close>, and then the index of \<open>p\<close>.\<close>

definition demo_labelled :: graph where
  "demo_labelled = snd (try_create_node [''A''] [(''p'', PvInt 1)] (graph_default None))"

definition demo_indexed :: "key_digest \<Rightarrow> indexed_graph" where
  "demo_indexed digest = \<lparr>ig_graph = demo_labelled,
     ig_nodes = ensure_node_property_index digest ''p'' demo_labelled
       (index_properties_if_active digest (node_values demo_labelled) 0 [''A''] [(''p'', PvInt 1)] no_indexes),
     ig_rels = no_indexes\<rparr>"

lemma demo_labelled_created:
  "try_create_node [''A''] [(''p'', PvInt 1)] (graph_default None) =
     (Some \<lparr>nr_id = 0, nr_labels = [''A''], nr_properties = [(''p'', PvInt 1)]\<rparr>, demo_labelled)"
  "gr_nodes demo_labelled = [Some \<lparr>nr_id = 0, nr_labels = [''A''], nr_properties = [(''p'', PvInt 1)]\<rparr>]"
  "gr_nodes_by_label demo_labelled = [(''A'', [0])]"
  using trimmed_demo by (simp_all add: demo_labelled_def create_defs)

lemma demo_index_reachable: "index_reachable digest (demo_indexed digest)"
proof -
  let ?s = "\<lparr>ig_graph = graph_default None, ig_nodes = no_indexes, ig_rels = no_indexes\<rparr>"
  have "index_reachable digest ?s" by (rule index_reachable.start)
  moreover have "try_create_node [''A''] [(''p'', PvInt 1)] (ig_graph ?s) =
      (Some \<lparr>nr_id = 0, nr_labels = [''A''], nr_properties = [(''p'', PvInt 1)]\<rparr>, demo_labelled)"
    by (simp add: demo_labelled_created(1))
  note index_step.create_node [OF this, of digest, simplified]
  ultimately have "index_reachable digest (\<lparr>ig_graph = demo_labelled, ig_nodes =
      index_properties_if_active digest (node_values demo_labelled) 0 [''A''] [(''p'', PvInt 1)] no_indexes, ig_rels = no_indexes\<rparr>)"
    by (rule index_reachable.step)
  from index_reachable.step [OF this index_step.ensure_nodes [of digest _ "''p''"]] show ?thesis by (simp add: demo_indexed_def)
qed

lemma demo_index_active: "''p'' \<in> set (pi_active (ig_nodes (demo_indexed digest)))"
  using mirrors_no_indexes
  by (auto simp: demo_indexed_def ensure_node_property_index_def ensure_property_index_def index_activate_def set_insort_key)

text \<open>
  C14. The property indexes, as the hooks of the mutations keep them and as indexes come and go, answer a
  lookup of a label and a value with the ids that a scan of the node slots gives, in the same order, and
  likewise for relationships by type. A lookup is declined for a value without a key (a point, a vector, a
  duration, a NaN) and for a property whose index is not active.
\<close>

theorem lookup_is_scan:
  assumes "index_reachable digest s" and "scope \<noteq> UNLABELLED"
  shows "indexed_node_ids digest (ig_nodes s) (ig_graph s) scope key v =
      (if key_from_value v = None \<or> key \<notin> set (pi_active (ig_nodes s)) then None
       else Some (slot_scan (\<lambda>n. scope \<in> set (nr_labels n) \<and> key_of (nr_properties n) key = key_from_value v) (gr_nodes (ig_graph s))))
    \<and> indexed_rel_ids digest (ig_rels s) (ig_graph s) scope key v =
      (if key_from_value v = None \<or> key \<notin> set (pi_active (ig_rels s)) then None
       else Some (slot_scan (\<lambda>r. rr_type r = scope \<and> key_of (rr_properties r) key = key_from_value v) (gr_relationships (ig_graph s))))"
  using indexed_lookup_scans [OF assms(1)] assms(2) by blast

theorem lookup_is_scan_witness:
  "indexed_node_ids (\<lambda>_. 0) (ig_nodes (demo_indexed (\<lambda>_. 0))) demo_labelled ''A'' ''p'' (PvInt 1) = Some [0] \<and>
   indexed_node_ids (\<lambda>_. 0) (ig_nodes (demo_indexed (\<lambda>_. 0))) demo_labelled ''A'' ''p'' (PvInt 2) = Some []"
proof -
  have "''A'' \<noteq> UNLABELLED" by (simp add: UNLABELLED_def)
  note scan = lookup_is_scan [OF demo_index_reachable [of "\<lambda>_. 0"] this, of "''p''", THEN conjunct1]
  have g: "ig_graph (demo_indexed d) = demo_labelled" for d by (simp add: demo_indexed_def)
  show ?thesis using scan [of "PvInt 1"] scan [of "PvInt 2"] demo_index_active [of "\<lambda>_. 0"]
    by (simp add: g demo_labelled_created(2) slot_scan_def slot_get_def key_of_def)
qed

text \<open>
  C15. The constraint check of a record, whole or with the existence checks put off, gives the same verdict
  with the live property indexes as with a scan of every record of the label or type.
\<close>

theorem indexed_check_is_scan:
  assumes "index_reachable digest s"
  shows "check_record_constraints_with (live_env fs digest s) catalog (ig_graph s) r existence =
    check_record_constraints_with (unindexed_env fs) catalog (ig_graph s) r existence"
  by (rule record_check_by_scan [OF assms])

theorem indexed_check_is_scan_witness:
  "isl (check_record_constraints_with (live_env demo_floats (\<lambda>_. 0) (demo_indexed (\<lambda>_. 0)))
     [(''c'', constraint_def_of (demo_request Unique))] demo_labelled (NodeRecord (AnyOf [''A'']) [(''p'', PvInt 1)] None) True)"
proof -
  have g: "ig_graph (demo_indexed d) = demo_labelled" for d by (simp add: demo_indexed_def)
  have "any_other_node_with_tuple (unindexed_env demo_floats) demo_labelled ''A'' [''p''] [PvInt 1] None"
    by (simp add: any_other_node_with_tuple_def indexed_candidates_def unindexed_env_def node_ids_by_label_def node_at_def
        slot_get_def demo_labelled_created(2,3) tuple_matches_def)
  then have "isl (check_record_constraints_with (unindexed_env demo_floats)
     [(''c'', constraint_def_of (demo_request Unique))] demo_labelled (NodeRecord (AnyOf [''A'']) [(''p'', PvInt 1)] None) True)"
    by (simp add: check_record_constraints_with_def constraint_list_def constraint_def_of_def
        demo_request_def validate_record_against_constraint_def uniqueness_check_def constrained_tuple_def
        requires_uniqueness_def requires_existence_def)
  then show ?thesis using indexed_check_is_scan [OF demo_index_reachable [of "\<lambda>_. 0"], of demo_floats] by (simp add: g)
qed

section \<open>The scan of existing data\<close>

text \<open>
  C16. Before a constraint is created, the scan of the existing records, which takes the ids range by range
  so that cores can share them, and sorts hashes instead of keeping keys, decides what a
  check of one record after the other in id order decides, with the same first violation.
\<close>

theorem existing_data_scan_in_order:
  assumes "graph_reachable scan recorder g"
  shows "validate_existing_data_for_constraint fs hash g def =
    scope_in_order def (\<lambda>i. record_verdict fs def (entity_properties g (cdef_entity def) i)) [] (scope_ids g def)"
  by (rule existing_data_in_order [OF graph_ok_reachable [OF assms]])

theorem existing_data_scan_in_order_witness:
  "isl (validate_existing_data_for_constraint demo_floats (\<lambda>_. 0) (sample_graph None)
     (constraint_def_of ((demo_request Existence)\<lparr>crq_label := ''Person''\<rparr>)))"
proof -
  let ?def = "constraint_def_of ((demo_request Existence)\<lparr>crq_label := ''Person''\<rparr>)"
  have "scope_ids (sample_graph None) ?def = [0]"
    by (simp add: scope_ids_def node_ids_by_label_def sample_graph_eq constraint_def_of_def demo_request_def)
  moreover have "isl (record_verdict demo_floats ?def (entity_properties (sample_graph None) Node 0))"
    by (simp add: record_verdict_def entity_properties_def node_at_def slot_get_def sample_graph_eq constraint_def_of_def
        demo_request_def validate_record_against_constraint_def requires_existence_def)
  moreover have "cdef_entity ?def = Node" by (simp add: constraint_def_of_def demo_request_def)
  ultimately show ?thesis
    using existing_data_scan_in_order [OF sample_graph_reachable [of "\<lambda>_ _. None" None], of demo_floats "\<lambda>_. 0" ?def]
    by (auto simp: isl_def)
qed

section \<open>Id sets\<close>

text \<open>The ids of one bucket, which has no set when it has no id.\<close>

fun id_set_op :: "bool \<times> u64 \<Rightarrow> id_set option \<Rightarrow> id_set option" where
  "id_set_op (True, i) None = Some (id_set_new i)"
| "id_set_op (True, i) (Some s) = Some (snd (id_set_insert i s))"
| "id_set_op (False, i) None = None"
| "id_set_op (False, i) (Some s) = (case id_set_remove i s of (True, _) \<Rightarrow> None | (False, s) \<Rightarrow> Some s)"

fun set_op :: "bool \<times> u64 \<Rightarrow> u64 set \<Rightarrow> u64 set" where
  "set_op (True, i) A = insert i A"
| "set_op (False, i) A = A - {i}"

definition represents :: "id_set option \<Rightarrow> u64 set \<Rightarrow> bool" where
  "represents b A \<longleftrightarrow> (case b of None \<Rightarrow> A = {} | Some s \<Rightarrow> id_set_ok s \<and> set (id_set_vec s) = A)"

lemma id_set_op_represents: "represents b A \<Longrightarrow> represents (id_set_op op b) (set_op op A)"
proof (cases op)
  case (Pair add i)
  assume b: "represents b A"
  show ?thesis
  proof (cases b)
    case None
    then show ?thesis using b Pair id_set_new_ok [of i] by (cases add) (simp_all add: represents_def)
  next
    case (Some s)
    then have s: "id_set_ok s" "A = set (id_set_vec s)" using b by (simp_all add: represents_def)
    show ?thesis
    proof (cases add)
      case True
      then show ?thesis using s Some Pair id_set_insert_ok [OF s(1), of i] by (simp add: represents_def)
    next
      case False
      obtain emptied t where r: "id_set_remove i s = (emptied, t)" by fastforce
      show ?thesis using s Some Pair False r id_set_remove_ok [OF s(1), of i] by (cases emptied) (auto simp: represents_def)
    qed
  qed
qed

lemma id_set_ops_represent: "represents b A \<Longrightarrow> represents (fold id_set_op ops b) (fold set_op ops A)"
  by (induction ops arbitrary: b A) (simp_all add: id_set_op_represents)

lemma represents_sorted:
  assumes "represents (Some s) A"
  shows "id_set_vec s = sorted_list_of_set A"
proof -
  have s: "id_set_ok s" "set (id_set_vec s) = A" using assms by (simp_all add: represents_def)
  then have "sorted (id_set_vec s)" "distinct (id_set_vec s)" using id_set_increasing [OF s(1)] by (simp_all add: strict_sorted_iff)
  then show ?thesis using s(2) by (metis sorted_list_of_set.idem_if_sorted_distinct)
qed

text \<open>
  C20. An id set is a set, whatever its form (one id, a short list, groups of chunks) and whatever insertions
  and removals it has been through: its ids are the elements in ascending order, its length is their number,
  and the ids after a cursor, in either direction, are those beyond it.
\<close>

theorem id_set_is_set:
  "let A = fold set_op ops {} in
   (case fold id_set_op ops None of
      None \<Rightarrow> A = {}
    | Some s \<Rightarrow> id_set_vec s = sorted_list_of_set A \<and> id_set_len s = card A
        \<and> id_set_iter_after s (Some c) False = filter (\<lambda>i. c < i) (sorted_list_of_set A)
        \<and> id_set_iter_after s (Some c) True = rev (filter (\<lambda>i. i < c) (sorted_list_of_set A)))"
proof -
  have R: "represents (fold id_set_op ops None) (fold set_op ops {})"
    by (rule id_set_ops_represent) (simp add: represents_def)
  show ?thesis
  proof (cases "fold id_set_op ops None")
    case (Some s)
    then have s: "represents (Some s) (fold set_op ops {})" using R by simp
    then have ok: "id_set_ok s" by (simp add: represents_def)
    note v = represents_sorted [OF s]
    have "length (id_set_vec s) = card (fold set_op ops {})" by (simp add: v)
    then show ?thesis using Some v id_set_len [OF ok] iter_after_filters [OF ok, of c] by (simp add: Let_def)
  qed (use R in \<open>simp add: represents_def\<close>)
qed

text \<open>
  C21. The iterator of an id set, advanced from either end in any order, gives at each step the next element
  of that end, never one twice, and nothing once the two ends have met.
\<close>

theorem id_set_iterator_is_deque:
  "case fold id_set_op ops None of
     None \<Rightarrow> fold set_op ops {} = {}
   | Some s \<Rightarrow> fst (iter_take ends (iter_of s)) = deque_take ends (sorted_list_of_set (fold set_op ops {}))"
proof -
  have R: "represents (fold id_set_op ops None) (fold set_op ops {})"
    by (rule id_set_ops_represent) (simp add: represents_def)
  show ?thesis
  proof (cases "fold id_set_op ops None")
    case (Some s)
    then have s: "represents (Some s) (fold set_op ops {})" using R by simp
    then have "iter_ok (iter_of s)" "iter_left (iter_of s) = sorted_list_of_set (fold set_op ops {})"
      using iter_of_ok [of s] represents_sorted [OF s] by (simp_all add: represents_def)
    then show ?thesis using Some iter_take_deque [of "iter_of s" ends] by simp
  qed (use R in \<open>simp add: represents_def\<close>)
qed

section \<open>Dates\<close>

text \<open>
  C27. The day count of a valid date gives the date back, over the whole range of years and both sides of
  the epoch; so two dates with the same count, and hence the same index key, are the same date.
\<close>

theorem civil_roundtrip:
  assumes "valid_date y m d"
  shows "civil_from_days (days_from_civil y m d) = (y, m, d)"
  by (rule civil_days_roundtrip [OF assms])

theorem civil_roundtrip_witness: "civil_from_days (days_from_civil 2024 2 29) = (2024, 2, 29) \<and> days_from_civil 2024 2 29 = 19782"
proof -
  have "valid_date 2024 2 29" by (simp add: valid_date_def days_in_month_def is_leap_year_def)
  from civil_roundtrip [OF this] show ?thesis by (simp add: days_from_civil_def Let_def signed_divide_int_def)
qed

end
