(* ===== verification/Spec2Isabelle.thy ===== *)
theory Spec2Isabelle
  imports Store_Values Schema_Laws Schema_Roundtrip Wal_Payload Replay_Log Wal_Recovery Wal_Limits Graph_Reads
    Database_Replay Store_Guarantees
begin

text \<open>
  LoraDB is an in-memory property graph database with a write-ahead log (WAL). This development models
  its store and its durability path: the graph with its constraints and property indexes, the writes of a
  statement, the values and mutation events with their binary encodings, the schema commands that produce
  and consume schema events, the log that carries the events, and the recovery of the log after a crash.

  The parts and how they interact. The graph (\<open>lora-store\<close>) records every change as a mutation event.
  A transaction hands its events to the log (\<open>lora-wal\<close>), which encodes them into record frames of a
  segment file, rotates segments, flushes and \<open>fsync\<close>s them, and drops segments that a snapshot covers.
  Opening the log replays the committed events above the snapshot's LSN into the graph. A statement
  (\<open>lora-executor\<close>) makes its writes on a copy of the graph that it publishes when all of them passed
  their constraint checks; the checks read the property indexes, which the mutations keep up to date.

  Theories, in the order of their imports.

  \<^item> \<open>Lora_Prelude\<close>: machine integers, results, little-endian bytes, options and lists.
  \<^item> \<open>Property_Value\<close>, \<open>Store_Encode\<close>, \<open>Store_Decode\<close>: \<open>types/\<close> and \<open>codec.rs\<close> of \<open>lora-store\<close>, the
    value encoding. \<open>Byte_Format\<close> and \<open>Byte_Reader\<close> hold the locales \<open>byte_reader\<close> (what a bounded reader
    promises) and \<open>codec\<close> (what a writer and its reader promise each other); \<open>Store_Codec\<close> interprets
    them, \<open>Store_Values\<close> holds the value round trips, the rejection of what cannot be encoded, and the
    recursion bound.
  \<^item> \<open>Schema_Types\<close>, \<open>Schema_Catalog\<close>, \<open>Constraint_Catalog\<close>: \<open>memory/index_catalog.rs\<close> and
    \<open>memory/constraint_catalog.rs\<close>. A \<open>BTreeMap\<close> is an association list sorted by key. The lemmas give the
    catalog invariant, its preservation, and what each operation does on each branch.
  \<^item> \<open>Mutation_Event\<close>, \<open>Schema_Engine\<close>, \<open>Schema_Laws\<close>: \<open>mutation.rs\<close> and the schema commands of
    \<open>memory/graph.rs\<close>. The data scan is a parameter. The laws: the joint invariant of both catalogs, the
    atomicity of a failed command, and that replaying the recorded events rebuilds the schema.
  \<^item> \<open>Graph_Names\<close>, \<open>Graph_Adjacency\<close>, \<open>Graph_Store\<close>: the in-memory graph (\<open>memory/graph.rs\<close>,
    \<open>memory/impls.rs\<close>, \<open>memory/adjacency.rs\<close>): names and their indexes, adjacency lists, slots and
    every mutation. \<open>Graph_Laws\<close> states the invariant of the graph, \<open>Graph_Laws\<close> and \<open>Graph_Mutations\<close>
    carry it through the mutations; \<open>Graph_Deferral\<close> and \<open>Graph_Detach\<close> relate a graph with pending list
    edits to the one in which they are done; \<open>Graph_Machine\<close> is the graph as a step relation;
    \<open>Graph_Reads\<close> holds scans and traversals and what they answer.
  \<^item> \<open>Schema_Encode\<close>, \<open>Schema_Roundtrip\<close>: the schema part of \<open>codec.rs\<close> and its round trips.
  \<^item> \<open>Wal_Encode\<close>, \<open>Wal_Decode\<close>: \<open>codec/\<close> of \<open>lora-wal\<close>. \<open>Wal_Values\<close>, \<open>Wal_Events\<close>, \<open>Wal_Check\<close> and
    \<open>Wal_Payload\<close> relate the three ways of reading a payload (decode, validate, event by event), the size
    functions and the writers.
  \<^item> \<open>Wal_Record\<close>, \<open>Wal_Segment\<close>, \<open>Wal_Writer\<close>: \<open>record.rs\<close> and \<open>segment.rs\<close>. The CRC is a parameter.
  \<^item> \<open>Wal_Replay\<close>: \<open>replay.rs\<close>. \<open>Replay_Laws\<close> gives the invariant of the replay machine and the abstract
    specification \<open>committed\<close> (the events of the committed transactions in commit order); \<open>Replay_Log\<close>
    shows that replaying a log refines it, and that a written log, torn at its end, is accepted.
  \<^item> \<open>Wal_Log\<close>: \<open>wal/wal.rs\<close>, the log handle. \<open>Wal_Batches\<close> shows that a batch plan partitions the
    events, \<open>Wal_Handle\<close> states the invariant of the handle and carries it through an append,
    \<open>Wal_Commit\<close> shows that a commit takes effect as a whole or not at all, \<open>Wal_Truncate\<close> that a
    truncation loses nothing above the snapshot.
  \<^item> \<open>Wal_Durability\<close>: the handle with any number of flushers as a step relation: commits, flushes, the
    two critical sections of a forced flush with its \<open>fsync\<close> between them, snapshots, markers and
    truncations, in any order. \<open>Wal_Recovery\<close>: a crash that keeps at least the synced bytes loses nothing
    up to the durable LSN. \<open>Wal_Limits\<close>: two ways to write a log that does not open again.

  \<^item> \<open>Graph_Replay\<close>: \<open>database/replay.rs\<close> of \<open>lora-database\<close>, the events applied to a graph; the events that
    a graph recorded rebuild it. \<open>Replay_Sinks\<close> holds the locale \<open>lockstep\<close>: what two sinks promise each
    other so that the same log opens the same way with either. \<open>Database_Replay\<close>: \<open>open_wal_into\<close>, whose sink
    is in lockstep with the collecting one; so the durability of the log is that of the graph.

  \<^item> \<open>Constraint_Values\<close>, \<open>Constraint_Check\<close>, \<open>Constraint_Guard\<close>: \<open>memory/constraint_enforce.rs\<close> and its
    entry points in \<open>memory/impls.rs\<close>: equality and keys of values, the scan before a constraint is
    created, the checks before a write. \<open>Constraint_Scan\<close> shows that the scan in ranges of ids decides what
    one in id order decides; \<open>Constraint_Safety\<close> states what a constraint promises and that the checks
    establish it.
  \<^item> \<open>Executor_Writes\<close>: the writes of a statement in \<open>executor/mutable.rs\<close>, with the existence checks put
    off to its end. \<open>Graph_Effects\<close> gives what each mutation changes, \<open>Executor_Safety\<close> and
    \<open>Constraint_Keeping\<close> carry the constraints through every write, statement and schema command, in the
    locale \<open>indexed_checks\<close>: a lookup that leaves out no record with an equal value.
  \<^item> \<open>Id_Set\<close>, \<open>Id_Set_Laws\<close>: \<open>memory/id_set.rs\<close>, the chunked sets of ids and their double-ended iterator.
    \<open>Calendar\<close>: \<open>temporal/calendar.rs\<close>. \<open>Property_Index\<close>, \<open>Property_Index_Laws\<close>: \<open>memory/property_index.rs\<close>,
    whose buckets keep one id by the digest of a value or a set of ids by the value itself. \<open>Property_Hooks\<close>:
    the upkeep of the indexes by the mutations (\<open>memory/graph.rs\<close>) and the relation \<open>mirrors\<close> between an index
    and the records. \<open>Constraint_Index\<close> interprets \<open>indexed_checks\<close> on these indexes and on the plain scan;
    \<open>Property_History\<close> is the graph with its indexes as a step relation; \<open>Store_Guarantees\<close> holds the
    properties of the whole.

  Conventions. A file is its bytes; a Rust \<open>usize\<close> is a \<open>nat\<close> with its overflow checks written out; LSNs
  and segment ids are 64-bit words; floats are bit patterns; an error is a value of a sum type, whose
  messages are shortened. Recursion over untrusted bytes takes the code's own nesting limit or, where the
  code has none, the length of the input as fuel, which is enough since every call reads a byte. Loops
  over a file decrease the bytes left.

  Not modelled: the file system (I/O errors, directory locks, copies of cut tails), listeners and the
  timing of the background flusher, CRC32 itself, the byte encoding of stored records, the sorted, text,
  full-text, vector and point indexes and the statistics of the graph, the parallel and deferred bulk paths
  (which build the same structures), snapshots, and what lies above the writes of a statement: parser,
  analyzer, compiler, expressions and rows, server, bindings. Float text and conversions, the digest of an
  index key and the hash of a tuple key are parameters, and no property depends on their values.
  The path of \<open>FOREACH\<close> that deletes values is no write of its own here.

  What the code leaves to its callers, and the properties assume. A history of the log (\<open>wal_step\<close>) takes a
  snapshot between transactions and writes its marker with no marker above it before, while
  \<open>checkpoint_marker\<close> checks neither; segments have a target above their 32-byte header, which no code checks
  (\<open>Wal_Limits\<close> gives the logs that do not open otherwise). The record of a crash has no cut record that embeds
  a valid frame in its payload (\<open>clean_tail\<close>): the code scans for one, so such a log is refused and not lost.
  \<open>constraints_kept\<close> takes the labels of a statement to be trimmed, and \<open>untrimmed_label_escapes\<close> shows that
  it has to. Uniqueness is of values that are equal and exact (\<open>exact_value\<close>), for the writes compare with
  \<open>==\<close> and the scan of a new constraint with key texts. \<open>lookup_is_scan\<close> compares a lookup with the scan by
  index key, \<open>indexed_check_is_scan\<close> the checks with the scan by \<open>==\<close>.
\<close>

end
